(* ===== verification/Prelude.thy ===== *)
theory Prelude
  imports Main "HOL-Library.Word" "HOL-Library.Monad_Syntax"
begin

text \<open>
  What every component shares: pointers and failing C computations, bounds-checked array
  access, counted loops with failure, and doubly linked lists on a heap of structs.

  A C computation that may dereference a null or dangling pointer, index an array out of
  range, release memory twice or wait for a lock it already holds is a function into
  \<open>'a option\<close>: \<open>None\<close> stands for undefined behaviour (or for not returning), so a theorem
  \<open>f s = Some s'\<close> says that the code runs to its end without it.
\<close>

section \<open>Collections of simplification rules\<close>

named_theorems ub_simps \<open>unfolding of computations that may fail\<close>
named_theorems dl_intros \<open>introduction rules for linked lists\<close>

section \<open>Pointers and failing computations\<close>

type_synonym ptr = "nat option"
type_synonym byte = "8 word"

abbreviation NULL :: ptr where "NULL \<equiv> None"

text \<open>Reading the struct a pointer points to.\<close>

definition deref :: "(nat \<rightharpoonup> 'n) \<Rightarrow> ptr \<Rightarrow> (nat \<times> 'n) option" where
  "deref h p = (case p of None \<Rightarrow> None | Some a \<Rightarrow> map_option (Pair a) (h a))"

text \<open>Updating the struct a pointer points to.\<close>

definition upd_at :: "('n \<Rightarrow> 'n) \<Rightarrow> ptr \<Rightarrow> (nat \<rightharpoonup> 'n) \<Rightarrow> (nat \<rightharpoonup> 'n) option" where
  "upd_at f p h = map_option (\<lambda>(a, n). h(a \<mapsto> f n)) (deref h p)"

text \<open>Reading an array element.\<close>

definition nth_opt :: "'a list \<Rightarrow> nat \<Rightarrow> 'a option" where
  "nth_opt xs i = (if i < length xs then Some (xs ! i) else None)"

lemma deref_NULL [simp, ub_simps]: "deref h NULL = None"
  by (simp add: deref_def)

lemma deref_Some [simp, ub_simps]: "deref h (Some a) = map_option (Pair a) (h a)"
  by (simp add: deref_def)

lemma upd_at_NULL [simp, ub_simps]: "upd_at f NULL h = None"
  by (simp add: upd_at_def)

lemma upd_at_Some [simp, ub_simps]:
  "upd_at f (Some a) h = (case h a of None \<Rightarrow> None | Some n \<Rightarrow> Some (h(a \<mapsto> f n)))"
  by (auto simp: upd_at_def split: option.splits)

lemma nth_opt_in [simp]: "i < length xs \<Longrightarrow> nth_opt xs i = Some (xs ! i)"
  by (simp add: nth_opt_def)

lemma nth_opt_eq_Some: "nth_opt xs i = Some x \<longleftrightarrow> i < length xs \<and> xs ! i = x"
  by (auto simp: nth_opt_def)

section \<open>Counted loops that may fail\<close>

primrec for_each :: "('a \<Rightarrow> 's \<Rightarrow> 's option) \<Rightarrow> 'a list \<Rightarrow> 's \<Rightarrow> 's option" where
  "for_each f [] s = Some s"
| "for_each f (x # xs) s = Option.bind (f x s) (for_each f xs)"

lemma for_each_append:
  "for_each f (xs @ ys) s = Option.bind (for_each f xs s) (for_each f ys)"
  by (induction xs arbitrary: s) (auto split: bind_split)

lemma for_each_cong:
  "(\<And>x s. x \<in> set xs \<Longrightarrow> f x s = g x s) \<Longrightarrow> for_each f xs s = for_each g xs s"
  by (induction xs arbitrary: s) (auto intro!: Option.bind_cong)

text \<open>A loop whose every round succeeds and moves an indexed invariant one step on.\<close>

lemma for_each_upt:
  assumes "P m s" and "m \<le> n"
    and "\<And>k t. m \<le> k \<Longrightarrow> k < n \<Longrightarrow> P k t \<Longrightarrow> \<exists>t'. f k t = Some t' \<and> P (Suc k) t'"
  shows "\<exists>t. for_each f [m..<n] s = Some t \<and> P n t"
  using assms
proof (induction "n - m" arbitrary: m s)
  case 0
  then show ?case by simp
next
  case (Suc d)
  then have lt: "m < n" by simp
  with Suc.prems obtain t where t: "f m s = Some t" "P (Suc m) t" by blast
  have "\<exists>u. for_each f [Suc m..<n] t = Some u \<and> P n u"
    using Suc.hyps(2) Suc.prems(3) lt t(2) by (intro Suc.hyps(1)) auto
  then show ?case using t(1) lt by (simp add: upt_conv_Cons)
qed

section \<open>Doubly linked lists on the heap\<close>

text \<open>
  \<open>dpath nx pv h p x as q y\<close>: starting at the pointer \<open>x\<close>, the nodes \<open>as\<close> follow each other
  through the field \<open>nx\<close>, the field \<open>pv\<close> of each is its predecessor (\<open>p\<close> for the first),
  \<open>q\<close> is the last node (\<open>p\<close> when there is none) and \<open>y\<close> what follows it.
\<close>

primrec dpath :: "('n \<Rightarrow> ptr) \<Rightarrow> ('n \<Rightarrow> ptr) \<Rightarrow> (nat \<rightharpoonup> 'n) \<Rightarrow> ptr \<Rightarrow> ptr \<Rightarrow> nat list \<Rightarrow> ptr \<Rightarrow> ptr \<Rightarrow> bool" where
  "dpath nx pv h p x [] q y \<longleftrightarrow> x = y \<and> q = p"
| "dpath nx pv h p x (a # as) q y \<longleftrightarrow>
     x = Some a \<and> (\<exists>n. h a = Some n \<and> pv n = p \<and> dpath nx pv h (Some a) (nx n) as q y)"

lemma dpath_append [simp]:
  "dpath nx pv h p x (as @ bs) q y \<longleftrightarrow> (\<exists>r z. dpath nx pv h p x as r z \<and> dpath nx pv h r z bs q y)"
  by (induction as arbitrary: p x) auto

lemma dpath_frame [simp]:
  "a \<notin> set as \<Longrightarrow> dpath nx pv (h(a := v)) p x as q y = dpath nx pv h p x as q y"
  by (induction as arbitrary: p x) auto

lemma dpath_cong:
  assumes "\<And>a. a \<in> set as \<Longrightarrow> map_option nx (h' a) = map_option nx (h a)"
    and "\<And>a. a \<in> set as \<Longrightarrow> map_option pv (h' a) = map_option pv (h a)"
  shows "dpath nx pv h' p x as q y = dpath nx pv h p x as q y"
  using assms
proof (induction as arbitrary: p x)
  case Nil
  then show ?case by simp
next
  case (Cons a as)
  have IH: "dpath nx pv h' p x as q y = dpath nx pv h p x as q y" for p x
    using Cons.prems by (intro Cons.IH) auto
  have "map_option nx (h' a) = map_option nx (h a)" "map_option pv (h' a) = map_option pv (h a)"
    using Cons.prems by auto
  then show ?case
    by (cases "h a"; cases "h' a") (auto simp: IH)
qed

text \<open>A node whose links are kept by an update stays where it is.\<close>

lemma dpath_keep:
  "h a = Some n \<Longrightarrow> nx n' = nx n \<Longrightarrow> pv n' = pv n \<Longrightarrow>
   dpath nx pv (h(a \<mapsto> n')) p x as q y = dpath nx pv h p x as q y"
  by (rule dpath_cong) auto

lemma dpath_dom: "dpath nx pv h p x as q y \<Longrightarrow> set as \<subseteq> dom h"
  by (induction as arbitrary: p x) auto

lemma dpath_unique:
  "dpath nx pv h p x as q NULL \<Longrightarrow> dpath nx pv h p' x bs q' NULL \<Longrightarrow> as = bs"
proof (induction as arbitrary: p p' x bs)
  case Nil
  then show ?case by (cases bs) auto
next
  case (Cons a as)
  then show ?case by (cases bs) auto
qed

lemma dpath_last:
  "dpath nx pv h p x as q y \<Longrightarrow> q = (if as = [] then p else Some (last as))"
  by (induction as arbitrary: p x) auto

lemma dpath_first:
  "dpath nx pv h p x as q NULL \<Longrightarrow> x = (if as = [] then NULL else Some (hd as))"
  by (cases as) auto

text \<open>The neighbours of a node in the middle, and a list split around it.\<close>

lemma dpath_split:
  assumes "dpath nx pv h p x as q y" and "a \<in> set as" and "distinct as"
  obtains l r n where "as = l @ a # r" "h a = Some n"
    "dpath nx pv h p x l (pv n) (Some a)" "dpath nx pv h (Some a) (nx n) r q y"
    "a \<notin> set l" "a \<notin> set r"
proof -
  from assms(2) obtain l r where as: "as = l @ a # r" by (auto simp: in_set_conv_decomp)
  with assms(1) obtain n z where
    "h a = Some n" "dpath nx pv h p x l z (Some a)" "pv n = z" "dpath nx pv h (Some a) (nx n) r q y"
    by auto
  with as assms(3) that show thesis by auto
qed

end
