(* ===== verification/Tsrm.thy ===== *)
theory Tsrm
  imports Prelude
begin

text \<open>
  The thread-safe resource manager (TSRM/TSRM.c), which the engine uses as the matrix
  "coroutine by resource": a table of entries, one per coroutine, each with one memory block per
  registered resource. The state holds the table, the registered resource types, the live memory
  blocks and the log of the constructor, destructor and thread-handler calls. Function pointers
  are numbers, their calls are events of the log. The array \<open>storage\<close> of an entry is part of
  the entry (a null array is the empty list). The mutex is a flag: taking it while it is held, or
  releasing it while it is free, is \<open>None\<close>.
\<close>

section \<open>State\<close>

record tsrm_tls_entry =
  storage :: "ptr list"
  e_count :: nat
  e_thread_id :: nat
  e_next :: ptr

record tsrm_resource_type =
  rt_size :: nat
  rt_ctor :: "nat option"
  rt_dtor :: "nat option"
  rt_done :: bool

datatype ts_event =
    Ctor nat ptr
  | Dtor nat ptr
  | Begin_thread nat nat
  | End_thread nat nat

record tsrm =
  rsrc_id_map :: "nat list list"
  tsrm_tls_table :: "ptr list option"
  force_thread_id :: int
  id_count :: nat
  resource_types_table :: "tsrm_resource_type list option"
  begin_handler :: "nat option"
  end_handler :: "nat option"
  entries :: "nat \<rightharpoonup> tsrm_tls_entry"
  blocks :: "nat \<rightharpoonup> nat"
  brk :: nat
  tls :: ptr
  rsrc_var :: "nat \<Rightarrow> int"
  locked :: bool
  os_thread :: nat
  ts_log :: "ts_event list"

definition rsrc_id_map_size :: nat where
  "rsrc_id_map_size = 100"

text \<open>The macros of TSRM.h: hashing a thread id, and the two directions of a resource id.\<close>

definition THREAD_HASH_OF :: "nat \<Rightarrow> nat \<Rightarrow> nat option" where
  "THREAD_HASH_OF thr ts = (if ts = 0 then None else Some (thr mod ts))"

definition TSRM_SHUFFLE_RSRC_ID :: "int \<Rightarrow> int" where
  "TSRM_SHUFFLE_RSRC_ID i = i + 1"

definition TSRM_UNSHUFFLE_RSRC_ID :: "int \<Rightarrow> int" where
  "TSRM_UNSHUFFLE_RSRC_ID i = i - 1"

text \<open>An index into a C array given as an \<open>int\<close>.\<close>

definition index_of :: "int \<Rightarrow> nat option" where
  "index_of i = (if 0 \<le> i then Some (nat i) else None)"

section \<open>Memory, log and mutex\<close>

definition malloc_block :: "nat \<Rightarrow> tsrm \<Rightarrow> nat \<times> tsrm" where
  "malloc_block sz s = (brk s, s\<lparr>blocks := (blocks s)(brk s \<mapsto> sz), brk := Suc (brk s)\<rparr>)"

definition free_block :: "ptr \<Rightarrow> tsrm \<Rightarrow> tsrm option" where
  "free_block p s =
     (case p of
        None \<Rightarrow> Some s
      | Some b \<Rightarrow> if b \<in> dom (blocks s) then Some (s\<lparr>blocks := (blocks s)(b := None)\<rparr>) else None)"

definition free_entry :: "nat \<Rightarrow> tsrm \<Rightarrow> tsrm option" where
  "free_entry a s =
     (if a \<in> dom (entries s) then Some (s\<lparr>entries := (entries s)(a := None)\<rparr>) else None)"

definition log_call :: "('a \<Rightarrow> ts_event) \<Rightarrow> 'a option \<Rightarrow> tsrm \<Rightarrow> tsrm" where
  "log_call ev f s = (case f of None \<Rightarrow> s | Some g \<Rightarrow> s\<lparr>ts_log := ts_log s @ [ev g]\<rparr>)"

definition tsrm_mutex_lock :: "tsrm \<Rightarrow> tsrm option" where
  "tsrm_mutex_lock s = (if locked s then None else Some (s\<lparr>locked := True\<rparr>))"

definition tsrm_mutex_unlock :: "tsrm \<Rightarrow> tsrm option" where
  "tsrm_mutex_unlock s = (if locked s then Some (s\<lparr>locked := False\<rparr>) else None)"

section \<open>Identity of the calling thread\<close>

definition set_force_thread_id :: "int \<Rightarrow> tsrm \<Rightarrow> tsrm" where
  "set_force_thread_id i s = s\<lparr>force_thread_id := i\<rparr>"

definition get_force_thread_id :: "tsrm \<Rightarrow> int" where
  "get_force_thread_id s = force_thread_id s"

definition tsrm_thread_id :: "tsrm \<Rightarrow> nat" where
  "tsrm_thread_id s =
     (if force_thread_id s \<noteq> -1 then nat (force_thread_id s mod 2 ^ 64) else os_thread s)"

definition tsrm_set_interpreter_context :: "ptr \<Rightarrow> tsrm \<Rightarrow> ptr \<times> tsrm" where
  "tsrm_set_interpreter_context new_ctx s = (tls s, s\<lparr>tls := new_ctx\<rparr>)"

definition tsrm_get_ls_cache :: "tsrm \<Rightarrow> ptr" where
  "tsrm_get_ls_cache s = tls s"

section \<open>Registered resource variables\<close>

text \<open>
  The loop over a bucket chain: found (the answer 0), or appended behind the last link (1).
\<close>

fun rsrc_chain_add :: "nat \<Rightarrow> nat list \<Rightarrow> bool \<times> nat list" where
  "rsrc_chain_add v [] = (True, [v])"
| "rsrc_chain_add v (x # xs) =
     (if x = v then (False, x # xs)
      else (let (isnew, ys) = rsrc_chain_add v xs in (isnew, x # ys)))"

definition rsrc_id_set_isnew :: "nat \<Rightarrow> tsrm \<Rightarrow> (bool \<times> tsrm) option" where
  "rsrc_id_set_isnew v s = do {
     hash_value \<leftarrow> THREAD_HASH_OF v rsrc_id_map_size;
     link \<leftarrow> nth_opt (rsrc_id_map s) hash_value;
     let (isnew, link') = rsrc_chain_add v link;
     Some (isnew, s\<lparr>rsrc_id_map := (rsrc_id_map s)[hash_value := link']\<rparr>)
   }"

section \<open>Startup\<close>

definition empty_resource_type :: tsrm_resource_type where
  "empty_resource_type = \<lparr>rt_size = 0, rt_ctor = None, rt_dtor = None, rt_done = False\<rparr>"

text \<open>The two flags say whether the two allocations the function checks succeed.\<close>

definition tsrm_startup :: "nat \<Rightarrow> nat \<Rightarrow> bool \<Rightarrow> bool \<Rightarrow> tsrm \<Rightarrow> bool \<times> tsrm" where
  "tsrm_startup expected_threads expected_resources tls_ok types_ok s =
     (let s = s\<lparr>rsrc_id_map := replicate rsrc_id_map_size [], tls := NULL\<rparr> in
      if \<not> tls_ok then (False, s\<lparr>tsrm_tls_table := None\<rparr>)
      else let s = s\<lparr>tsrm_tls_table := Some (replicate expected_threads NULL), id_count := 0\<rparr> in
        if \<not> types_ok then (False, s\<lparr>tsrm_tls_table := None, resource_types_table := None\<rparr>)
        else (True, s\<lparr>resource_types_table :=
                        Some (replicate expected_resources empty_resource_type),
                      locked := False, begin_handler := None, end_handler := None\<rparr>))"

section \<open>Registering a resource\<close>

text \<open>One round of the inner loop: the block of resource \<open>j\<close> for the entry \<open>a\<close>, slot \<open>i\<close>.\<close>

definition grow_slot :: "nat \<Rightarrow> nat \<Rightarrow> nat \<Rightarrow> tsrm \<Rightarrow> tsrm option" where
  "grow_slot i a j s = do {
     types \<leftarrow> resource_types_table s;
     r \<leftarrow> nth_opt types j;
     let (b, s) = malloc_block (rt_size r) s;
     es \<leftarrow> upd_at (\<lambda>e. e\<lparr>storage := (storage e)[j := Some b]\<rparr>) (Some a) (entries s);
     let s = s\<lparr>entries := es\<rparr>;
     Some (if force_thread_id s = -1 \<or> force_thread_id s = int i
           then log_call (\<lambda>f. Ctor f (Some b)) (rt_ctor r) s else s)
   }"

definition enlarge_entry :: "nat \<Rightarrow> nat \<Rightarrow> tsrm \<Rightarrow> tsrm option" where
  "enlarge_entry i a s = do {
     (_, e) \<leftarrow> deref (entries s) (Some a);
     if e_count e < id_count s then do {
       es \<leftarrow> upd_at (\<lambda>e. e\<lparr>storage :=
               take (id_count s) (storage e @ replicate (id_count s - length (storage e)) NULL)\<rparr>)
              (Some a) (entries s);
       s1 \<leftarrow> for_each (grow_slot i a) [e_count e..<id_count s] (s\<lparr>entries := es\<rparr>);
       es1 \<leftarrow> upd_at (\<lambda>e. e\<lparr>e_count := id_count s1\<rparr>) (Some a) (entries s1);
       Some (s1\<lparr>entries := es1\<rparr>)
     } else Some s
   }"

partial_function (option) enlarge_chain :: "nat \<Rightarrow> ptr \<Rightarrow> tsrm \<Rightarrow> tsrm option" where
  "enlarge_chain i p s =
     (case p of
        None \<Rightarrow> Some s
      | Some a \<Rightarrow> do {
          s1 \<leftarrow> enlarge_entry i a s;
          e \<leftarrow> entries s1 a;
          enlarge_chain i (e_next e) s1
        })"

text \<open>
  \<open>isnew\<close> false: only the constructor runs, on the block of the current coroutine. Otherwise the
  resource gets the next id and every entry a block for it; the constructor runs on the current
  coroutine's block only (on every block when no coroutine is selected). The flag says whether
  the reallocation of the resource types succeeds.
\<close>

definition ts_allocate_id ::
    "nat \<Rightarrow> nat \<Rightarrow> nat option \<Rightarrow> nat option \<Rightarrow> bool \<Rightarrow> tsrm \<Rightarrow> (int \<times> tsrm) option" where
  "ts_allocate_id rsrc_id sz ctor dtor realloc_ok s = do {
     (isnew, s) \<leftarrow> rsrc_id_set_isnew rsrc_id s;
     if \<not> isnew then do {
       table \<leftarrow> tsrm_tls_table s;
       i \<leftarrow> index_of (force_thread_id s);
       p \<leftarrow> nth_opt table i;
       types \<leftarrow> resource_types_table s;
       j \<leftarrow> index_of (TSRM_UNSHUFFLE_RSRC_ID (rsrc_var s rsrc_id));
       r \<leftarrow> nth_opt types j;
       s' \<leftarrow> (case rt_ctor r of
                None \<Rightarrow> Some s
              | Some f \<Rightarrow> do {
                  (_, e) \<leftarrow> deref (entries s) p;
                  b \<leftarrow> nth_opt (storage e) j;
                  Some (log_call (\<lambda>f. Ctor f b) (Some f) s)
                });
       Some (rsrc_var s' rsrc_id, s')
     } else do {
       s \<leftarrow> tsrm_mutex_lock s;
       let j = id_count s;
       let s = s\<lparr>rsrc_var := (rsrc_var s)(rsrc_id := TSRM_SHUFFLE_RSRC_ID (int j)), id_count := Suc j\<rparr>;
       types \<leftarrow> resource_types_table s;
       if length types < id_count s \<and> \<not> realloc_ok then do {
         s \<leftarrow> tsrm_mutex_unlock (s\<lparr>resource_types_table := None\<rparr>);
         Some (0, s\<lparr>rsrc_var := (rsrc_var s)(rsrc_id := 0)\<rparr>)
       } else do {
         let types = (if length types < id_count s
                      then types @ replicate (id_count s - length types) empty_resource_type
                      else types);
         let s = s\<lparr>resource_types_table := Some
               (types[j := \<lparr>rt_size = sz, rt_ctor = ctor, rt_dtor = dtor, rt_done = False\<rparr>])\<rparr>;
         table \<leftarrow> tsrm_tls_table s;
         s \<leftarrow> for_each (\<lambda>i s. do { table \<leftarrow> tsrm_tls_table s; p \<leftarrow> nth_opt table i; enlarge_chain i p s })
                [0..<length table] s;
         s \<leftarrow> tsrm_mutex_unlock s;
         Some (rsrc_var s rsrc_id, s)
       }
     }
   }"

section \<open>Creating the entry of a thread or coroutine\<close>

definition fill_slot :: "nat \<Rightarrow> nat \<Rightarrow> tsrm \<Rightarrow> tsrm option" where
  "fill_slot a i s = do {
     types \<leftarrow> resource_types_table s;
     r \<leftarrow> nth_opt types i;
     if rt_done r then do {
       es \<leftarrow> upd_at (\<lambda>e. e\<lparr>storage := (storage e)[i := NULL]\<rparr>) (Some a) (entries s);
       Some (s\<lparr>entries := es\<rparr>)
     } else do {
       let (b, s) = malloc_block (rt_size r) s;
       es \<leftarrow> upd_at (\<lambda>e. e\<lparr>storage := (storage e)[i := Some b]\<rparr>) (Some a) (entries s);
       Some (log_call (\<lambda>f. Ctor f (Some b)) (rt_ctor r) (s\<lparr>entries := es\<rparr>))
     }
   }"

text \<open>Returns the address of the new entry, which the caller stores; releases the mutex.\<close>

definition allocate_new_resource :: "nat \<Rightarrow> tsrm \<Rightarrow> (nat \<times> tsrm) option" where
  "allocate_new_resource thread_id s = do {
     let a = brk s;
     let s = s\<lparr>brk := Suc a, entries := (entries s)(a \<mapsto>
               \<lparr>storage = replicate (id_count s) NULL, e_count = id_count s,
                e_thread_id = thread_id, e_next = NULL\<rparr>), tls := Some a\<rparr>;
     let s = log_call (\<lambda>f. Begin_thread f thread_id) (begin_handler s) s;
     s \<leftarrow> for_each (fill_slot a) [0..<id_count s] s;
     let s = log_call (\<lambda>f. End_thread f thread_id) (end_handler s) s;
     s \<leftarrow> tsrm_mutex_unlock s;
     Some (a, s)
   }"

definition tsrm_new_interpreter_context :: "tsrm \<Rightarrow> (ptr \<times> tsrm) option" where
  "tsrm_new_interpreter_context s = do {
     let thread_id = tsrm_thread_id s;
     s \<leftarrow> tsrm_mutex_lock s;
     let current = tls s;
     (_, s) \<leftarrow> allocate_new_resource thread_id s;
     Some (tsrm_set_interpreter_context current s)
   }"

definition create_tsrm_tls_entry :: "int \<Rightarrow> tsrm \<Rightarrow> tsrm option" where
  "create_tsrm_tls_entry idx s = do {
     let s = set_force_thread_id idx s;
     (p, s) \<leftarrow> tsrm_new_interpreter_context s;
     i \<leftarrow> index_of idx;
     table \<leftarrow> tsrm_tls_table s;
     _ \<leftarrow> nth_opt table i;
     Some (s\<lparr>tsrm_tls_table := Some (table[i := p])\<rparr>)
   }"

definition get_tsrm_tls_entry :: "int \<Rightarrow> tsrm \<Rightarrow> ptr option" where
  "get_tsrm_tls_entry idx s = do {
     table \<leftarrow> tsrm_tls_table s;
     if int (length table) \<le> idx then Some NULL
     else do { i \<leftarrow> index_of idx; nth_opt table i }
   }"

section \<open>Fetching a resource\<close>

datatype resource = Array_of nat | Block ptr

definition TSRM_SAFE_RETURN_RSRC :: "nat \<Rightarrow> int \<Rightarrow> tsrm \<Rightarrow> resource option" where
  "TSRM_SAFE_RETURN_RSRC a offset s =
     (if offset = 0 then Some (Array_of a)
      else do {
        e \<leftarrow> entries s a;
        i \<leftarrow> index_of (TSRM_UNSHUFFLE_RSRC_ID offset);
        map_option Block (nth_opt (storage e) i)
      })"

text \<open>The search along a bucket chain: the entry it ends at, and whether it is the thread's.\<close>

partial_function (option) find_chain :: "nat \<Rightarrow> nat \<Rightarrow> tsrm \<Rightarrow> (nat \<times> bool) option" where
  "find_chain thread_id a s = do {
     e \<leftarrow> entries s a;
     if e_thread_id e = thread_id then Some (a, True)
     else (case e_next e of
             None \<Rightarrow> Some (a, False)
           | Some n \<Rightarrow> find_chain thread_id n s)
   }"

partial_function (option) ts_resource_ex :: "int \<Rightarrow> nat option \<Rightarrow> tsrm \<Rightarrow> (resource \<times> tsrm) option" where
  "ts_resource_ex rid th_id s =
     (if th_id = None \<and> tls s \<noteq> NULL then do {
        a \<leftarrow> tls s;
        r \<leftarrow> TSRM_SAFE_RETURN_RSRC a rid s;
        Some (r, s)
      } else do {
        let thread_id = (case th_id of None \<Rightarrow> tsrm_thread_id s | Some t \<Rightarrow> t);
        s \<leftarrow> tsrm_mutex_lock s;
        table \<leftarrow> tsrm_tls_table s;
        hash_value \<leftarrow> THREAD_HASH_OF thread_id (length table);
        head \<leftarrow> nth_opt table hash_value;
        case head of
          None \<Rightarrow> do {
            (a, s) \<leftarrow> allocate_new_resource thread_id s;
            ts_resource_ex rid (Some thread_id) (s\<lparr>tsrm_tls_table := Some (table[hash_value := Some a])\<rparr>)
          }
        | Some first \<Rightarrow> do {
            (a, found) \<leftarrow> find_chain thread_id first s;
            if found then do {
              s \<leftarrow> tsrm_mutex_unlock s;
              r \<leftarrow> TSRM_SAFE_RETURN_RSRC a rid s;
              Some (r, s)
            } else do {
              (b, s) \<leftarrow> allocate_new_resource thread_id s;
              es \<leftarrow> upd_at (\<lambda>e. e\<lparr>e_next := Some b\<rparr>) (Some a) (entries s);
              ts_resource_ex rid (Some thread_id) (s\<lparr>entries := es\<rparr>)
            }
          }
      })"

section \<open>Releasing\<close>

definition dtor_slot :: "nat \<Rightarrow> nat \<Rightarrow> tsrm \<Rightarrow> tsrm option" where
  "dtor_slot a i s = do {
     types \<leftarrow> resource_types_table s;
     r \<leftarrow> nth_opt types i;
     e \<leftarrow> entries s a;
     b \<leftarrow> nth_opt (storage e) i;
     Some (log_call (\<lambda>f. Dtor f b) (rt_dtor r) s)
   }"

definition free_slot :: "nat \<Rightarrow> nat \<Rightarrow> tsrm \<Rightarrow> tsrm option" where
  "free_slot a i s = do {
     e \<leftarrow> entries s a;
     b \<leftarrow> nth_opt (storage e) i;
     free_block b s
   }"

definition free_thread_entry :: "nat \<Rightarrow> tsrm \<Rightarrow> tsrm option" where
  "free_thread_entry a s = do {
     e \<leftarrow> entries s a;
     s \<leftarrow> for_each (dtor_slot a) [0..<e_count e] s;
     for_each (free_slot a) [0..<e_count e] s
   }"

partial_function (option) tsrm_free_interpreter_context :: "ptr \<Rightarrow> tsrm \<Rightarrow> tsrm option" where
  "tsrm_free_interpreter_context p s =
     (case p of
        None \<Rightarrow> Some s
      | Some a \<Rightarrow> do {
          e \<leftarrow> entries s a;
          s \<leftarrow> free_thread_entry a s;
          s \<leftarrow> free_entry a s;
          tsrm_free_interpreter_context (e_next e) s
        })"

definition unlink_entry :: "nat \<Rightarrow> ptr \<Rightarrow> ptr \<Rightarrow> tsrm \<Rightarrow> tsrm option" where
  "unlink_entry hash_value lst nxt s =
     (case lst of
        Some l \<Rightarrow> do {
          es \<leftarrow> upd_at (\<lambda>e. e\<lparr>e_next := nxt\<rparr>) (Some l) (entries s);
          Some (s\<lparr>entries := es\<rparr>)
        }
      | None \<Rightarrow> do {
          table \<leftarrow> tsrm_tls_table s;
          _ \<leftarrow> nth_opt table hash_value;
          Some (s\<lparr>tsrm_tls_table := Some (table[hash_value := nxt])\<rparr>)
        })"

partial_function (option) free_thread_chain :: "nat \<Rightarrow> nat \<Rightarrow> ptr \<Rightarrow> ptr \<Rightarrow> tsrm \<Rightarrow> tsrm option" where
  "free_thread_chain thread_id hash_value lst p s =
     (case p of
        None \<Rightarrow> Some s
      | Some a \<Rightarrow> do {
          e \<leftarrow> entries s a;
          if e_thread_id e = thread_id then do {
            s \<leftarrow> free_thread_entry a s;
            s \<leftarrow> unlink_entry hash_value lst (e_next e) s;
            free_entry a (s\<lparr>tls := NULL\<rparr>)
          } else free_thread_chain thread_id hash_value
                   (if e_next e \<noteq> NULL then Some a else lst) (e_next e) s
        })"

definition ts_free_thread :: "tsrm \<Rightarrow> tsrm option" where
  "ts_free_thread s = do {
     let thread_id = tsrm_thread_id s;
     s \<leftarrow> tsrm_mutex_lock s;
     table \<leftarrow> tsrm_tls_table s;
     hash_value \<leftarrow> THREAD_HASH_OF thread_id (length table);
     p \<leftarrow> nth_opt table hash_value;
     s \<leftarrow> free_thread_chain thread_id hash_value NULL p s;
     tsrm_mutex_unlock s
   }"

partial_function (option) free_worker_chain :: "nat \<Rightarrow> nat \<Rightarrow> ptr \<Rightarrow> ptr \<Rightarrow> tsrm \<Rightarrow> tsrm option" where
  "free_worker_chain thread_id hash_value lst p s =
     (case p of
        None \<Rightarrow> Some s
      | Some a \<Rightarrow> do {
          e \<leftarrow> entries s a;
          if e_thread_id e \<noteq> thread_id then do {
            s \<leftarrow> free_thread_entry a s;
            s \<leftarrow> unlink_entry hash_value lst (e_next e) s;
            s \<leftarrow> free_entry a s;
            nxt \<leftarrow> (case lst of
                     Some l \<Rightarrow> map_option e_next (entries s l)
                   | None \<Rightarrow> do { table \<leftarrow> tsrm_tls_table s; nth_opt table hash_value });
            free_worker_chain thread_id hash_value lst nxt s
          } else free_worker_chain thread_id hash_value
                   (if e_next e \<noteq> NULL then Some a else lst) (e_next e) s
        })"

definition ts_free_worker_threads :: "tsrm \<Rightarrow> tsrm option" where
  "ts_free_worker_threads s = do {
     let thread_id = tsrm_thread_id s;
     s \<leftarrow> tsrm_mutex_lock s;
     table \<leftarrow> tsrm_tls_table s;
     hash_value \<leftarrow> THREAD_HASH_OF thread_id (length table);
     p \<leftarrow> nth_opt table hash_value;
     s \<leftarrow> free_worker_chain thread_id hash_value NULL p s;
     tsrm_mutex_unlock s
   }"

partial_function (option) free_id_chain :: "nat \<Rightarrow> ptr \<Rightarrow> tsrm \<Rightarrow> tsrm option" where
  "free_id_chain j p s =
     (case p of
        None \<Rightarrow> Some s
      | Some a \<Rightarrow> do {
          e \<leftarrow> entries s a;
          s' \<leftarrow> (if j < e_count e then do {
                  b \<leftarrow> nth_opt (storage e) j;
                  if b \<noteq> NULL then do {
                    s \<leftarrow> (case resource_types_table s of
                            None \<Rightarrow> Some s
                          | Some types \<Rightarrow> do {
                              r \<leftarrow> nth_opt types j;
                              Some (log_call (\<lambda>f. Dtor f b) (rt_dtor r) s)
                            });
                    s \<leftarrow> free_block b s;
                    es \<leftarrow> upd_at (\<lambda>e. e\<lparr>storage := (storage e)[j := NULL]\<rparr>) (Some a) (entries s);
                    Some (s\<lparr>entries := es\<rparr>)
                  } else Some s
                } else Some s);
          free_id_chain j (e_next e) s'
        })"

definition ts_free_id :: "int \<Rightarrow> tsrm \<Rightarrow> tsrm option" where
  "ts_free_id rid s = do {
     j \<leftarrow> index_of (TSRM_UNSHUFFLE_RSRC_ID rid);
     s \<leftarrow> tsrm_mutex_lock s;
     s \<leftarrow> (case tsrm_tls_table s of
             None \<Rightarrow> Some s
           | Some table \<Rightarrow> for_each (free_id_chain j) table s);
     types \<leftarrow> resource_types_table s;
     r \<leftarrow> nth_opt types j;
     tsrm_mutex_unlock (s\<lparr>resource_types_table := Some (types[j := r\<lparr>rt_done := True\<rparr>])\<rparr>)
   }"

definition shutdown_slot :: "nat \<Rightarrow> nat \<Rightarrow> tsrm \<Rightarrow> tsrm option" where
  "shutdown_slot a j s = do {
     e \<leftarrow> entries s a;
     b \<leftarrow> nth_opt (storage e) j;
     if b = NULL then Some s
     else do {
       s \<leftarrow> (case resource_types_table s of
               None \<Rightarrow> Some s
             | Some types \<Rightarrow> do {
                 r \<leftarrow> nth_opt types j;
                 Some (if rt_done r then s else log_call (\<lambda>f. Dtor f b) (rt_dtor r) s)
               });
       free_block b s
     }
   }"

partial_function (option) shutdown_chain :: "ptr \<Rightarrow> tsrm \<Rightarrow> tsrm option" where
  "shutdown_chain p s =
     (case p of
        None \<Rightarrow> Some s
      | Some a \<Rightarrow> do {
          e \<leftarrow> entries s a;
          s \<leftarrow> for_each (shutdown_slot a) [0..<e_count e] s;
          s \<leftarrow> free_entry a s;
          shutdown_chain (e_next e) s
        })"

definition tsrm_shutdown :: "tsrm \<Rightarrow> tsrm option" where
  "tsrm_shutdown s = do {
     s \<leftarrow> (case tsrm_tls_table s of
             None \<Rightarrow> Some s
           | Some table \<Rightarrow> do {
               s \<leftarrow> for_each shutdown_chain table s;
               Some (s\<lparr>tsrm_tls_table := None\<rparr>)
             });
     Some (s\<lparr>resource_types_table := None, tls := NULL\<rparr>)
   }"

section \<open>Thread handlers\<close>

definition tsrm_set_new_thread_begin_handler :: "nat option \<Rightarrow> tsrm \<Rightarrow> nat option \<times> tsrm" where
  "tsrm_set_new_thread_begin_handler f s = (begin_handler s, s\<lparr>begin_handler := f\<rparr>)"

definition tsrm_set_new_thread_end_handler :: "nat option \<Rightarrow> tsrm \<Rightarrow> nat option \<times> tsrm" where
  "tsrm_set_new_thread_end_handler f s = (end_handler s, s\<lparr>end_handler := f\<rparr>)"

end
