(* ===== verification/Tsrm_Lemmas.thy ===== *)
theory Tsrm_Lemmas
  imports Tsrm
begin

text \<open>
  Lemmas on the resource manager: the shape of the table the engine builds (one entry per
  coroutine, no chains), the isolation of the blocks, and what registering a resource does to
  them.
\<close>

section \<open>Well-formed tables\<close>

definition slot :: "tsrm \<Rightarrow> nat \<Rightarrow> nat \<Rightarrow> ptr" where
  "slot s a j = (case entries s a of
                   None \<Rightarrow> NULL
                 | Some e \<Rightarrow> if j < length (storage e) then storage e ! j else NULL)"

lemma slot_frame [simp]:
  "slot (s\<lparr>blocks := bs\<rparr>) = slot s" "slot (s\<lparr>ts_log := l\<rparr>) = slot s" "slot (s\<lparr>brk := k\<rparr>) = slot s"
  "slot (s\<lparr>locked := m\<rparr>) = slot s" "slot (s\<lparr>tls := p\<rparr>) = slot s" "slot (s\<lparr>force_thread_id := f\<rparr>) = slot s"
  by (simp_all add: slot_def fun_eq_iff)

lemma slot_cong: "entries t a = entries s a \<Longrightarrow> slot t a j = slot s a j"
  by (simp add: slot_def)

lemma log_call_simps [simp]:
  "entries (log_call ev f s) = entries s" "blocks (log_call ev f s) = blocks s"
  "brk (log_call ev f s) = brk s" "locked (log_call ev f s) = locked s"
  "resource_types_table (log_call ev f s) = resource_types_table s"
  "id_count (log_call ev f s) = id_count s" "tls (log_call ev f s) = tls s"
  "tsrm_tls_table (log_call ev f s) = tsrm_tls_table s"
  by (simp_all add: log_call_def split: option.split)

text \<open>One entry per index, in order, unchained, with a slot per resource id.\<close>

definition entry_ok :: "tsrm \<Rightarrow> nat \<Rightarrow> nat \<Rightarrow> bool" where
  "entry_ok s i a = (case entries s a of
                       None \<Rightarrow> False
                     | Some e \<Rightarrow> e_next e = NULL \<and> e_thread_id e = i
                         \<and> e_count e = id_count s \<and> length (storage e) = id_count s)"

definition ts_shape :: "nat list \<Rightarrow> tsrm \<Rightarrow> bool" where
  "ts_shape es s \<longleftrightarrow>
     tsrm_tls_table s = Some (map Some es) \<and> distinct es \<and> \<not> locked s
     \<and> length (rsrc_id_map s) = rsrc_id_map_size
     \<and> (\<exists>types. resource_types_table s = Some types \<and> id_count s \<le> length types)
     \<and> (\<forall>i < length es. entry_ok s i (es ! i))"

text \<open>Every slot is a live block below the allocation mark, and no block is in two slots.\<close>

definition ts_isolated :: "nat list \<Rightarrow> tsrm \<Rightarrow> bool" where
  "ts_isolated es s \<longleftrightarrow>
     dom (blocks s) \<subseteq> {..<brk s} \<and> set es \<subseteq> {..<brk s}
     \<and> (\<forall>a \<in> set es. \<forall>j b. slot s a j = Some b \<longrightarrow> b \<in> dom (blocks s))
     \<and> (\<forall>a \<in> set es. \<forall>a' \<in> set es. \<forall>j j' b.
          slot s a j = Some b \<longrightarrow> slot s a' j' = Some b \<longrightarrow> a = a' \<and> j = j')"

definition ts_wf :: "nat list \<Rightarrow> tsrm \<Rightarrow> bool" where
  "ts_wf es s \<longleftrightarrow> ts_shape es s \<and> ts_isolated es s"

lemma ts_shapeD:
  assumes "ts_shape es s"
  shows "tsrm_tls_table s = Some (map Some es)" "distinct es" "\<not> locked s"
    "length (rsrc_id_map s) = rsrc_id_map_size"
  using assms by (auto simp: ts_shape_def)

lemma entry_okE:
  assumes "ts_shape es s" and "i < length es"
  obtains e where "entries s (es ! i) = Some e" "e_next e = NULL" "e_thread_id e = i"
    "e_count e = id_count s" "length (storage e) = id_count s"
  using assms by (fastforce simp: ts_shape_def entry_ok_def split: option.splits)

section \<open>The registry of resource variables\<close>

lemma rsrc_chain_add_spec:
  "rsrc_chain_add v xs = (if v \<in> set xs then (False, xs) else (True, xs @ [v]))"
  by (induction xs) (auto simp: Let_def)

definition known_rsrc :: "nat \<Rightarrow> tsrm \<Rightarrow> bool" where
  "known_rsrc v s \<longleftrightarrow> v \<in> set (rsrc_id_map s ! (v mod rsrc_id_map_size))"

lemma rsrc_id_set_isnew_spec:
  assumes "length (rsrc_id_map s) = rsrc_id_map_size"
  shows "rsrc_id_set_isnew v s = Some
    (if known_rsrc v s then (False, s)
     else (True, s\<lparr>rsrc_id_map := (rsrc_id_map s)[v mod rsrc_id_map_size :=
                    rsrc_id_map s ! (v mod rsrc_id_map_size) @ [v]]\<rparr>))"
  using assms
  by (simp add: rsrc_id_set_isnew_def THREAD_HASH_OF_def rsrc_id_map_size_def nth_opt_def
        rsrc_chain_add_spec known_rsrc_def)

section \<open>Enlarging the entries\<close>

definition ctor_runs :: "tsrm \<Rightarrow> nat \<Rightarrow> bool" where
  "ctor_runs s i \<longleftrightarrow> force_thread_id s = -1 \<or> force_thread_id s = int i"

definition ctor_calls :: "tsrm \<Rightarrow> nat option \<Rightarrow> nat \<Rightarrow> nat \<Rightarrow> ts_event list" where
  "ctor_calls s c b i =
     (case c of None \<Rightarrow> [] | Some f \<Rightarrow> if ctor_runs s i then [Ctor f (Some b)] else [])"

definition grown :: "nat \<Rightarrow> tsrm_tls_entry \<Rightarrow> tsrm_tls_entry" where
  "grown b e = e\<lparr>storage := storage e @ [Some b], e_count := Suc (e_count e)\<rparr>"

lemma grown_simps [simp]:
  "storage (grown b e) = storage e @ [Some b]" "e_count (grown b e) = Suc (e_count e)"
  "e_next (grown b e) = e_next e" "e_thread_id (grown b e) = e_thread_id e"
  by (simp_all add: grown_def)

lemma enlarge_entry_one:
  assumes "entries s a = Some e" "e_count e = n" "length (storage e) = n" "id_count s = Suc n"
    "resource_types_table s = Some types" "n < length types"
  shows "enlarge_entry i a s = Some (s\<lparr>
     entries := (entries s)(a \<mapsto> grown (brk s) e),
     blocks := (blocks s)(brk s \<mapsto> rt_size (types ! n)), brk := Suc (brk s),
     ts_log := ts_log s @ ctor_calls s (rt_ctor (types ! n)) (brk s) i\<rparr>)"
  using assms
  by (simp add: enlarge_entry_def grow_slot_def malloc_block_def log_call_def ctor_calls_def
        ctor_runs_def grown_def Let_def list_update_append split: option.splits)

lemma enlarge_chain_one:
  assumes "entries s a = Some e" "e_next e = NULL" "e_count e = n" "length (storage e) = n"
    "id_count s = Suc n" "resource_types_table s = Some types" "n < length types"
  shows "enlarge_chain i (Some a) s = Some (s\<lparr>
     entries := (entries s)(a \<mapsto> grown (brk s) e),
     blocks := (blocks s)(brk s \<mapsto> rt_size (types ! n)), brk := Suc (brk s),
     ts_log := ts_log s @ ctor_calls s (rt_ctor (types ! n)) (brk s) i\<rparr>)"
  by (simp add: enlarge_chain.simps [of _ "Some a"] enlarge_entry_one [OF assms(1,3-7)]
        enlarge_chain.simps [of _ NULL] assms(2))

text \<open>The fields the enlarging loop leaves alone.\<close>

definition same_frame :: "tsrm \<Rightarrow> tsrm \<Rightarrow> bool" where
  "same_frame s t \<longleftrightarrow>
     rsrc_id_map t = rsrc_id_map s \<and> tsrm_tls_table t = tsrm_tls_table s
     \<and> force_thread_id t = force_thread_id s \<and> id_count t = id_count s
     \<and> resource_types_table t = resource_types_table s \<and> tls t = tls s
     \<and> rsrc_var t = rsrc_var s \<and> locked t = locked s \<and> begin_handler t = begin_handler s
     \<and> end_handler t = end_handler s \<and> os_thread t = os_thread s"

text \<open>The state after the first \<open>k\<close> entries have been enlarged.\<close>

definition enlarged :: "nat list \<Rightarrow> tsrm \<Rightarrow> nat \<Rightarrow> nat option \<Rightarrow> nat \<Rightarrow> tsrm \<Rightarrow> bool" where
  "enlarged es s sz c k t \<longleftrightarrow>
     same_frame s t \<and> brk t = brk s + k
     \<and> blocks t = (\<lambda>b. if brk s \<le> b \<and> b < brk s + k then Some sz else blocks s b)
     \<and> ts_log t = ts_log s @ concat (map (\<lambda>i. ctor_calls s c (brk s + i) i) [0..<k])
     \<and> (\<forall>i < length es. entries t (es ! i) =
          (if i < k then map_option (grown (brk s + i)) (entries s (es ! i)) else entries s (es ! i)))"

lemma enlarged_step:
  assumes "distinct es" and "k < length es" and "enlarged es s sz c k t"
    and "tsrm_tls_table s = Some (map Some es)"
    and "entries s (es ! k) = Some e" "e_next e = NULL" "e_count e = n" "length (storage e) = n"
    and "id_count s = Suc n" "resource_types_table s = Some types" "n < length types"
    and "sz = rt_size (types ! n)" "c = rt_ctor (types ! n)"
  shows "\<exists>t'. enlarge_chain k (Some (es ! k)) t = Some t' \<and> enlarged es s sz c (Suc k) t'"
proof -
  have e: "entries t (es ! k) = Some e" "id_count t = Suc n" "resource_types_table t = Some types"
    using assms(2-5,9,10) by (auto simp: enlarged_def same_frame_def)
  have ne: "es ! i \<noteq> es ! k" if "i < length es" "i \<noteq> k" for i
    using assms(1,2) that by (simp add: nth_eq_iff_index_eq)
  have cc: "ctor_calls t c b i = ctor_calls s c b i" for b i
    using assms(3) by (auto simp: ctor_calls_def ctor_runs_def enlarged_def same_frame_def
        split: option.splits)
  show ?thesis
    unfolding enlarge_chain_one [OF e(1) assms(6-8) e(2,3) assms(11)]
    using assms(3,5,12,13) ne cc
    by (auto simp: enlarged_def same_frame_def less_Suc_eq fun_eq_iff)
qed

lemma enlarge_all:
  assumes "distinct es" and "tsrm_tls_table s = Some (map Some es)"
    and "\<And>i. i < length es \<Longrightarrow> \<exists>e. entries s (es ! i) = Some e \<and> e_next e = NULL
            \<and> e_count e = n \<and> length (storage e) = n"
    and "id_count s = Suc n" "resource_types_table s = Some types" "n < length types"
  shows "\<exists>t. for_each (\<lambda>i s. do { table \<leftarrow> tsrm_tls_table s; p \<leftarrow> nth_opt table i; enlarge_chain i p s })
               [0..<length es] s = Some t
           \<and> enlarged es s (rt_size (types ! n)) (rt_ctor (types ! n)) (length es) t"
proof (rule for_each_upt)
  show "enlarged es s (rt_size (types ! n)) (rt_ctor (types ! n)) 0 s"
    by (auto simp: enlarged_def same_frame_def fun_eq_iff)
next
  fix k t
  assume k: "k < length es" and t: "enlarged es s (rt_size (types ! n)) (rt_ctor (types ! n)) k t"
  from assms(3) [OF k] obtain e where e: "entries s (es ! k) = Some e" "e_next e = NULL"
    "e_count e = n" "length (storage e) = n" by blast
  have "tsrm_tls_table t = Some (map Some es)"
    using t assms(2) by (simp add: enlarged_def same_frame_def)
  with enlarged_step [OF assms(1) k t assms(2) e assms(4-6) refl refl] k
  show "\<exists>t'. (do { table \<leftarrow> tsrm_tls_table t; p \<leftarrow> nth_opt table k; enlarge_chain k p t }) = Some t'
          \<and> enlarged es s (rt_size (types ! n)) (rt_ctor (types ! n)) (Suc k) t'"
    by simp
qed simp

section \<open>Registering a resource for the first time\<close>

text \<open>The state the registration hands to the loop.\<close>

definition registered_types :: "nat \<Rightarrow> nat option \<Rightarrow> nat option \<Rightarrow> tsrm \<Rightarrow> tsrm_resource_type list" where
  "registered_types sz c d s =
     (let types = the (resource_types_table s) in
      (if length types < Suc (id_count s)
       then types @ replicate (Suc (id_count s) - length types) empty_resource_type
       else types)[id_count s := \<lparr>rt_size = sz, rt_ctor = c, rt_dtor = d, rt_done = False\<rparr>])"

definition before_enlarge :: "nat \<Rightarrow> nat \<Rightarrow> nat option \<Rightarrow> nat option \<Rightarrow> tsrm \<Rightarrow> tsrm" where
  "before_enlarge v sz c d s = s\<lparr>
     rsrc_id_map := (rsrc_id_map s)[v mod rsrc_id_map_size :=
        rsrc_id_map s ! (v mod rsrc_id_map_size) @ [v]],
     locked := True, rsrc_var := (rsrc_var s)(v := int (id_count s) + 1),
     id_count := Suc (id_count s), resource_types_table := Some (registered_types sz c d s)\<rparr>"

lemma registered_types_nth:
  assumes "resource_types_table s = Some types" and "id_count s \<le> length types"
  shows "id_count s < length (registered_types sz c d s)"
    "registered_types sz c d s ! id_count s = \<lparr>rt_size = sz, rt_ctor = c, rt_dtor = d, rt_done = False\<rparr>"
  using assms by (auto simp: registered_types_def Let_def)

lemma ts_allocate_id_new_run:
  assumes "ts_shape es s" and "\<not> known_rsrc v s"
  shows "\<exists>t. ts_allocate_id v sz c d True s = Some (int (id_count s) + 1, t\<lparr>locked := False\<rparr>)
           \<and> enlarged es (before_enlarge v sz c d s) sz c (length es) t"
proof -
  let ?s = "before_enlarge v sz c d s" and ?n = "id_count s"
  obtain types where types: "resource_types_table s = Some types" "?n \<le> length types"
    using assms(1) by (auto simp: ts_shape_def)
  note reg = registered_types_nth [OF types, where sz = sz and c = c and d = d]
  have rt: "rt_size (registered_types sz c d s ! ?n) = sz" "rt_ctor (registered_types sz c d s ! ?n) = c"
    using reg(2) by simp_all
  have ents: "\<exists>e. entries ?s (es ! i) = Some e \<and> e_next e = NULL \<and> e_count e = ?n
      \<and> length (storage e) = ?n" if "i < length es" for i
    using entry_okE [OF assms(1) that] by (metis before_enlarge_def tsrm.ext_inject tsrm.surjective
        tsrm.update_convs(1,4,5,12,13))
  have "distinct es" "tsrm_tls_table ?s = Some (map Some es)"
    using ts_shapeD [OF assms(1)] by (simp_all add: before_enlarge_def)
  from enlarge_all [OF this ents _ _ reg(1)] obtain t where
    t: "for_each (\<lambda>i s. do { table \<leftarrow> tsrm_tls_table s; p \<leftarrow> nth_opt table i; enlarge_chain i p s })
          [0..<length es] ?s = Some t" "enlarged es ?s sz c (length es) t"
    by (auto simp: before_enlarge_def rt)
  have lk: "locked t" "rsrc_var t v = int ?n + 1"
    using t(2) by (auto simp: enlarged_def same_frame_def before_enlarge_def)
  show ?thesis
    using t lk types ts_shapeD [OF assms(1)] assms(2)
    by (auto simp: ts_allocate_id_def rsrc_id_set_isnew_spec tsrm_mutex_lock_def tsrm_mutex_unlock_def
        TSRM_SHUFFLE_RSRC_ID_def Let_def before_enlarge_def registered_types_def)
qed


lemma enlarged_slot:
  assumes "ts_shape es s" and "enlarged es (before_enlarge v sz c d s) sz c (length es) t"
    and "i < length es"
  shows "slot t (es ! i) j =
    (if j < id_count s then slot s (es ! i) j
     else if j = id_count s then Some (brk s + i) else NULL)"
proof -
  obtain e where e: "entries s (es ! i) = Some e" "length (storage e) = id_count s"
    using entry_okE [OF assms(1,3)] by metis
  then have "entries t (es ! i) = Some (grown (brk s + i) e)"
    using assms(2,3) by (simp add: enlarged_def before_enlarge_def)
  with e show ?thesis by (auto simp: slot_def nth_append)
qed

lemma enlarged_shape:
  assumes "ts_shape es s" and "enlarged es (before_enlarge v sz c d s) sz c (length es) t"
  shows "ts_shape es (t\<lparr>locked := False\<rparr>)"
proof -
  have "entry_ok (t\<lparr>locked := False\<rparr>) i (es ! i)" if i: "i < length es" for i
  proof -
    obtain e where e: "entries s (es ! i) = Some e" "e_next e = NULL" "e_thread_id e = i"
      "e_count e = id_count s" "length (storage e) = id_count s"
      using entry_okE [OF assms(1) i] .
    moreover from this(1) i have "entries t (es ! i) = Some (grown (brk s + i) e)"
      "id_count t = Suc (id_count s)"
      using assms(2) by (simp_all add: enlarged_def before_enlarge_def same_frame_def)
    ultimately show ?thesis by (simp add: entry_ok_def)
  qed
  moreover have "Suc (id_count s) \<le> length (registered_types sz c d s)"
  proof -
    obtain types where "resource_types_table s = Some types" "id_count s \<le> length types"
      using assms(1) by (auto simp: ts_shape_def)
    then show ?thesis by (rule Suc_leI [OF registered_types_nth(1)])
  qed
  moreover have "tsrm_tls_table t = tsrm_tls_table s" "id_count t = Suc (id_count s)"
    "resource_types_table t = Some (registered_types sz c d s)"
    "length (rsrc_id_map t) = length (rsrc_id_map s)"
    using assms(2) by (simp_all add: enlarged_def before_enlarge_def same_frame_def)
  ultimately show ?thesis
    using ts_shapeD [OF assms(1)] by (simp add: ts_shape_def)
qed

lemma enlarged_isolated:
  assumes "ts_wf es s" and "enlarged es (before_enlarge v sz c d s) sz c (length es) t"
  shows "ts_isolated es (t\<lparr>locked := False\<rparr>)"
proof -
  have sh: "ts_shape es s" and iso: "ts_isolated es s" using assms(1) by (auto simp: ts_wf_def)
  have dist: "distinct es" using sh by (rule ts_shapeD)
  have sl: "slot (t\<lparr>locked := False\<rparr>) (es ! i) j =
    (if j < id_count s then slot s (es ! i) j else if j = id_count s then Some (brk s + i) else NULL)"
    if "i < length es" for i j
    using enlarged_slot [OF sh assms(2) that] by (simp add: slot_def)
  have old: "b < brk s" if "i < length es" "slot s (es ! i) j = Some b" for i j b
    using iso that by (fastforce simp: ts_isolated_def)
  have dm: "brk t = brk s + length es"
    "dom (blocks t) = dom (blocks s) \<union> {brk s..<brk s + length es}"
    using assms(2) by (auto simp: enlarged_def before_enlarge_def split: if_splits)
  have olive: "b \<in> dom (blocks s)" if "i < length es" "slot s (es ! i) j = Some b" for i j b
    using iso that by (meson nth_mem ts_isolated_def)
  have live: "b \<in> dom (blocks t)" if "i < length es" "slot (t\<lparr>locked := False\<rparr>) (es ! i) j = Some b" for i j b
    using that(2) olive [OF that(1)] that(1) unfolding dm sl [OF that(1)]
    by (simp split: if_splits)
  have inj: "i = i' \<and> j = j'"
    if "i < length es" "i' < length es" "slot (t\<lparr>locked := False\<rparr>) (es ! i) j = Some b"
      "slot (t\<lparr>locked := False\<rparr>) (es ! i') j' = Some b" for i i' j j' b
  proof -
    have "es ! i = es ! i' \<and> j = j'" if "slot s (es ! i) j = Some b" "slot s (es ! i') j' = Some b"
      using iso that \<open>i < length es\<close> \<open>i' < length es\<close> unfolding ts_isolated_def by (meson nth_mem)
    with that show ?thesis
      unfolding sl [OF that(1)] sl [OF that(2)]
      using old [OF that(1)] old [OF that(2)] dist
      by (fastforce split: if_splits simp: nth_eq_iff_index_eq)
  qed
  have "dom (blocks t) \<subseteq> {..<brk t}" "set es \<subseteq> {..<brk t}"
    using iso unfolding dm ts_isolated_def by auto
  moreover have "b \<in> dom (blocks t)" if "a \<in> set es" "slot (t\<lparr>locked := False\<rparr>) a j = Some b" for a j b
    using that live by (metis in_set_conv_nth)
  moreover have "a = a' \<and> j = j'" if "a \<in> set es" "a' \<in> set es"
    "slot (t\<lparr>locked := False\<rparr>) a j = Some b" "slot (t\<lparr>locked := False\<rparr>) a' j' = Some b" for a a' j j' b
    using that inj by (metis in_set_conv_nth)
  ultimately show ?thesis
    unfolding ts_isolated_def by simp
qed

lemmas ts_allocate_id_new_wf = enlarged_shape enlarged_isolated

lemma known_rsrc_after:
  assumes "length (rsrc_id_map s) = rsrc_id_map_size"
    and "enlarged es (before_enlarge v sz c d s) sz c k t"
  shows "known_rsrc v (t\<lparr>locked := False\<rparr>)"
  using assms by (simp add: known_rsrc_def enlarged_def same_frame_def before_enlarge_def rsrc_id_map_size_def)

section \<open>Registering it again from another coroutine\<close>

lemma ts_allocate_id_again:
  assumes "ts_shape es s" and "known_rsrc v s" and "force_thread_id s = int i" and "i < length es"
    and "rsrc_var s v = int j + 1" and "j < id_count s"
    and "resource_types_table s = Some types" and "rt_ctor (types ! j) = Some f"
  shows "ts_allocate_id v sz c d ok s =
    Some (int j + 1, s\<lparr>ts_log := ts_log s @ [Ctor f (slot s (es ! i) j)]\<rparr>)"
proof -
  obtain e where e: "entries s (es ! i) = Some e" "length (storage e) = id_count s"
    using entry_okE [OF assms(1,4)] by metis
  have "j < length types" using assms(1,6,7) by (auto simp: ts_shape_def)
  with e assms ts_shapeD [OF assms(1)] show ?thesis
    by (simp add: ts_allocate_id_def rsrc_id_set_isnew_spec index_of_def TSRM_UNSHUFFLE_RSRC_ID_def
        log_call_def slot_def)
qed

section \<open>Shutting down\<close>

definition dtor_calls :: "tsrm \<Rightarrow> nat \<Rightarrow> nat \<Rightarrow> ts_event list" where
  "dtor_calls s a j =
     (case slot s a j of
        None \<Rightarrow> []
      | Some b \<Rightarrow> (let r = the (resource_types_table s) ! j in
                   if rt_done r then []
                   else (case rt_dtor r of None \<Rightarrow> [] | Some f \<Rightarrow> [Dtor f (Some b)])))"

definition slots_of :: "tsrm \<Rightarrow> nat \<Rightarrow> nat set" where
  "slots_of s a = {b. \<exists>j. slot s a j = Some b}"

lemma dtor_calls_frame [simp]:
  "dtor_calls (s\<lparr>blocks := bs\<rparr>) = dtor_calls s" "dtor_calls (s\<lparr>ts_log := l\<rparr>) = dtor_calls s"
  by (auto simp: dtor_calls_def fun_eq_iff split: option.split)

lemma dtor_calls_cong:
  "entries t a = entries s a \<Longrightarrow> resource_types_table t = resource_types_table s
   \<Longrightarrow> dtor_calls t a j = dtor_calls s a j"
  unfolding dtor_calls_def by (simp add: slot_cong [of t a s] split: option.split)

lemma shutdown_slot_one:
  assumes "entries s a = Some e" and "j < length (storage e)"
    and "resource_types_table s = Some types" and "j < length types"
    and "\<And>b. slot s a j = Some b \<Longrightarrow> b \<in> dom (blocks s)"
  shows "shutdown_slot a j s = Some (s\<lparr>
      blocks := (\<lambda>b. if slot s a j = Some b then None else blocks s b),
      ts_log := ts_log s @ dtor_calls s a j\<rparr>)"
proof (cases "storage e ! j")
  case None
  with assms show ?thesis
    by (simp add: shutdown_slot_def slot_def dtor_calls_def)
next
  case (Some b)
  then have sl: "slot s a j = Some b" using assms(1,2) by (simp add: slot_def)
  moreover from this assms(5) have "b \<in> dom (blocks s)" by blast
  moreover have "(\<lambda>x. if slot s a j = Some x then None else blocks s x) = (blocks s)(b := None)"
    using sl by (auto simp: fun_eq_iff)
  ultimately show ?thesis
    using assms(1-4) Some
    by (simp add: shutdown_slot_def dtor_calls_def free_block_def log_call_def Let_def
        split: option.splits)
qed

text \<open>Releasing the first \<open>k\<close> slots of an entry whose slots are live and distinct.\<close>

lemma shutdown_slots:
  assumes e: "entries s a = Some e" "length (storage e) = n"
    and types: "resource_types_table s = Some types" "n \<le> length types"
    and live: "\<And>j b. slot s a j = Some b \<Longrightarrow> b \<in> dom (blocks s)"
    and inj: "\<And>j j' b. slot s a j = Some b \<Longrightarrow> slot s a j' = Some b \<Longrightarrow> j = j'"
  shows "for_each (shutdown_slot a) [0..<n] s = Some (s\<lparr>
      blocks := (\<lambda>b. if b \<in> slots_of s a then None else blocks s b),
      ts_log := ts_log s @ concat (map (dtor_calls s a) [0..<n])\<rparr>)"
proof -
  let ?P = "\<lambda>k t. t = s\<lparr>
      blocks := (\<lambda>b. if \<exists>j<k. slot s a j = Some b then None else blocks s b),
      ts_log := ts_log s @ concat (map (dtor_calls s a) [0..<k])\<rparr>"
  have "\<exists>t. for_each (shutdown_slot a) [0..<n] s = Some t \<and> ?P n t"
  proof (rule for_each_upt)
    fix k t
    assume k: "k < n" and t: "?P k t"
    have sl: "slot t a j = slot s a j" "dtor_calls t a j = dtor_calls s a j" for j
      using t by simp_all
    have lv: "b \<in> dom (blocks t)" if "slot t a k = Some b" for b
    proof -
      from that have b: "slot s a k = Some b" unfolding sl .
      then have "\<not> (\<exists>j<k. slot s a j = Some b)" using inj by blast
      moreover have "b \<in> dom (blocks s)" using b by (rule live)
      ultimately show ?thesis using t by (simp add: domIff)
    qed
    have "shutdown_slot a k t = Some (t\<lparr>
        blocks := (\<lambda>b. if slot t a k = Some b then None else blocks t b),
        ts_log := ts_log t @ dtor_calls t a k\<rparr>)"
      using k t e types lv by (intro shutdown_slot_one) auto
    moreover have "?P (Suc k) (t\<lparr>
        blocks := (\<lambda>b. if slot t a k = Some b then None else blocks t b),
        ts_log := ts_log t @ dtor_calls t a k\<rparr>)"
    proof -
      have "(\<lambda>b. if slot s a k = Some b then None else if \<exists>j<k. slot s a j = Some b then None else blocks s b)
          = (\<lambda>b. if \<exists>j<Suc k. slot s a j = Some b then None else blocks s b)"
        by (auto simp: fun_eq_iff less_Suc_eq)
      then show ?thesis unfolding sl by (simp add: t cong: if_cong)
    qed
    ultimately show "\<exists>t'. shutdown_slot a k t = Some t' \<and> ?P (Suc k) t'" by blast
  qed auto
  moreover have "(\<exists>j<n. slot s a j = Some b) \<longleftrightarrow> b \<in> slots_of s a" for b
    using e by (auto simp: slots_of_def slot_def split: if_splits)
  ultimately show ?thesis by simp
qed

lemma shutdown_chain_one:
  assumes e: "entries s a = Some e" "e_next e = NULL" "e_count e = n" "length (storage e) = n"
    and types: "resource_types_table s = Some types" "n \<le> length types"
    and live: "\<And>j b. slot s a j = Some b \<Longrightarrow> b \<in> dom (blocks s)"
    and inj: "\<And>j j' b. slot s a j = Some b \<Longrightarrow> slot s a j' = Some b \<Longrightarrow> j = j'"
  shows "shutdown_chain (Some a) s = Some (s\<lparr>
      entries := (entries s)(a := None),
      blocks := (\<lambda>b. if b \<in> slots_of s a then None else blocks s b),
      ts_log := ts_log s @ concat (map (dtor_calls s a) [0..<n])\<rparr>)"
  using e by (simp add: shutdown_chain.simps [of "Some a"] shutdown_chain.simps [of NULL]
      shutdown_slots [OF e(1,4) types live inj] free_entry_def dom_def)

text \<open>The whole table: every block of a slot is released, and with it every entry.\<close>

definition after_shutdown :: "nat list \<Rightarrow> nat \<Rightarrow> tsrm \<Rightarrow> tsrm" where
  "after_shutdown es n s = s\<lparr>
      entries := entries s |` (- set es),
      blocks := blocks s |` (- (\<Union>a \<in> set es. slots_of s a)),
      ts_log := ts_log s @ concat (map (\<lambda>a. concat (map (dtor_calls s a) [0..<n])) es)\<rparr>"

lemma shutdown_all:
  assumes "distinct es"
    and "\<And>a. a \<in> set es \<Longrightarrow> \<exists>e. entries s a = Some e \<and> e_next e = NULL \<and> e_count e = n \<and> length (storage e) = n"
    and "resource_types_table s = Some types" "n \<le> length types"
    and "\<And>a j b. a \<in> set es \<Longrightarrow> slot s a j = Some b \<Longrightarrow> b \<in> dom (blocks s)"
    and "\<And>a a' j j' b. a \<in> set es \<Longrightarrow> a' \<in> set es \<Longrightarrow> slot s a j = Some b \<Longrightarrow> slot s a' j' = Some b
           \<Longrightarrow> a = a' \<and> j = j'"
  shows "for_each shutdown_chain (map Some es) s = Some (after_shutdown es n s)"
  using assms
proof (induction es arbitrary: s)
  case Nil
  then show ?case by (simp add: after_shutdown_def restrict_map_def)
next
  case (Cons a es)
  let ?t = "s\<lparr>entries := (entries s)(a := None),
      blocks := (\<lambda>b. if b \<in> slots_of s a then None else blocks s b),
      ts_log := ts_log s @ concat (map (dtor_calls s a) [0..<n])\<rparr>"
  obtain e where e: "entries s a = Some e" "e_next e = NULL" "e_count e = n" "length (storage e) = n"
    using Cons.prems(2) by fastforce
  have "shutdown_chain (Some a) s = Some ?t"
    by (rule shutdown_chain_one [OF e Cons.prems(3,4)])
      (meson Cons.prems(5) list.set_intros(1), meson Cons.prems(6) list.set_intros(1))
  moreover have sl: "slot ?t a' j = slot s a' j" "dtor_calls ?t a' j = dtor_calls s a' j"
    if "a' \<in> set es" for a' j
  proof -
    from that Cons.prems(1) have "entries ?t a' = entries s a'" by auto
    then show "slot ?t a' j = slot s a' j" "dtor_calls ?t a' j = dtor_calls s a' j"
      by (rule slot_cong, rule dtor_calls_cong) simp
  qed
  moreover from sl have so: "slots_of ?t a' = slots_of s a'" if "a' \<in> set es" for a'
    using that by (simp add: slots_of_def)
  moreover have "for_each shutdown_chain (map Some es) ?t = Some (after_shutdown es n ?t)"
  proof (rule Cons.IH)
    fix a' j b
    assume a': "a' \<in> set es" and b: "slot ?t a' j = Some b"
    then have s: "slot s a' j = Some b" unfolding sl(1) [OF a'] by simp
    with a' Cons.prems(5) have "b \<in> dom (blocks s)" by (meson list.set_intros(2))
    moreover have "b \<notin> slots_of s a"
      using s a' Cons.prems(1,6) by (fastforce simp: slots_of_def)
    ultimately show "b \<in> dom (blocks ?t)" by auto
  next
    show "a1 = a2 \<and> j1 = j2" if "a1 \<in> set es" "a2 \<in> set es" "slot ?t a1 j1 = Some b" "slot ?t a2 j2 = Some b"
      for a1 a2 j1 j2 b
      using that(3,4) Cons.prems(6) that(1,2) unfolding sl(1) [OF that(1)] sl(1) [OF that(2)]
      by (meson list.set_intros(2))
  next
    show "\<exists>e. entries ?t a' = Some e \<and> e_next e = NULL \<and> e_count e = n \<and> length (storage e) = n"
      if "a' \<in> set es" for a'
    proof -
      from that Cons.prems(1) have "entries ?t a' = entries s a'" by auto
      with Cons.prems(2) [of a'] that show ?thesis by simp
    qed
  next
    show "distinct es" using Cons.prems(1) by simp
    show "resource_types_table ?t = Some types" using Cons.prems(3) by simp
    show "n \<le> length types" by fact
  qed
  moreover have "after_shutdown es n ?t = after_shutdown (a # es) n s"
  proof -
    have es: "(entries s)(a := None) |` (- set es) = entries s |` (- set (a # es))"
      by (auto simp: fun_eq_iff restrict_map_def)
    have so': "(\<Union>x \<in> set es. slots_of ?t x) = (\<Union>x \<in> set es. slots_of s x)"
      using so by simp
    have bs: "(\<lambda>b. if b \<in> slots_of s a then None else blocks s b) |` (- (\<Union>x \<in> set es. slots_of s x))
        = blocks s |` (- (\<Union>x \<in> set (a # es). slots_of s x))"
      by (auto simp: fun_eq_iff restrict_map_def)
    have ds: "map (\<lambda>x. concat (map (dtor_calls ?t x) [0..<n])) es
        = map (\<lambda>x. concat (map (dtor_calls s x) [0..<n])) es"
      by (intro map_cong refl arg_cong [where f = concat]) (erule sl(2))
    have "entries (after_shutdown es n ?t) = entries (after_shutdown (a # es) n s)"
      unfolding after_shutdown_def using es by simp
    moreover have "blocks (after_shutdown es n ?t) = blocks (after_shutdown (a # es) n s)"
      unfolding after_shutdown_def so' using bs by simp
    moreover have "ts_log (after_shutdown es n ?t) = ts_log (after_shutdown (a # es) n s)"
      unfolding after_shutdown_def ds by simp
    ultimately show ?thesis
      by (intro tsrm.equality) (simp_all, simp_all add: after_shutdown_def)
  qed
  ultimately show ?case by simp
qed

end
