(* ===== verification/C_Strings.thy ===== *)
theory C_Strings
  imports Prelude
begin

text \<open>
  The functions of the C library on strings, as the code uses them. A value of type \<open>string\<close> is what lies
  in a buffer; as a C string it ends before its first null byte (\<open>upto_nul\<close>). Characters compare as
  \<open>unsigned char\<close>, in the C locale.
\<close>

definition upto_nul :: "string \<Rightarrow> string" where
  "upto_nul s = takeWhile (\<lambda>c. c \<noteq> CHR 0x00) s"

section \<open>Characters and numbers\<close>

definition is_space :: "char \<Rightarrow> bool" where
  "is_space c \<longleftrightarrow> c = CHR '' '' \<or> (9 \<le> (of_char c :: nat) \<and> (of_char c :: nat) \<le> 13)"

definition tolower :: "char \<Rightarrow> char" where
  "tolower c = (let k = (of_char c :: nat) in if 65 \<le> k \<and> k \<le> 90 then char_of (k + 32) else c)"

fun atoi_digits :: "int \<Rightarrow> string \<Rightarrow> int" where
  "atoi_digits n [] = n"
| "atoi_digits n (c # cs) =
     (let k = (of_char c :: int) in
      if 48 \<le> k \<and> k \<le> 57 then atoi_digits (10 * n + (k - 48)) cs else n)"

definition number_of_text :: "string \<Rightarrow> int" where
  "number_of_text s = (case dropWhile is_space s of
               [] \<Rightarrow> 0
             | c # cs \<Rightarrow> if c = CHR ''-'' then - atoi_digits 0 cs
                         else if c = CHR ''+'' then atoi_digits 0 cs
                         else atoi_digits 0 (c # cs))"

text \<open>The \<open>atoi\<close> of the C library: undefined when the value does not fit into an \<open>int\<close>.\<close>

definition int32 :: "int \<Rightarrow> bool" where
  "int32 i \<longleftrightarrow> - (2 ^ 31) \<le> i \<and> i < 2 ^ 31"

definition atoi :: "string \<Rightarrow> int option" where
  "atoi s = (if int32 (number_of_text s) then Some (number_of_text s) else None)"

text \<open>The digits that \<open>%d\<close> prints.\<close>

function digits :: "nat \<Rightarrow> string" where
  "digits n = (if n < 10 then [char_of (48 + n)] else digits (n div 10) @ [char_of (48 + n mod 10)])"
  by pat_completeness auto
termination
  by (relation "measure (\<lambda>n. n)") auto

declare digits.simps [simp del]

definition print_d :: "int \<Rightarrow> string" where
  "print_d i = (if i < 0 then CHR ''-'' # digits (nat (- i)) else digits (nat i))"

section \<open>Comparing and searching\<close>

fun bytes_cmp :: "string \<Rightarrow> string \<Rightarrow> int" where
  "bytes_cmp [] [] = 0"
| "bytes_cmp [] (d # ds) = - of_char d"
| "bytes_cmp (c # cs) [] = of_char c"
| "bytes_cmp (c # cs) (d # ds) = (if c = d then bytes_cmp cs ds else of_char c - of_char d)"

definition strcmp :: "string \<Rightarrow> string \<Rightarrow> int" where
  "strcmp a b = bytes_cmp (upto_nul a) (upto_nul b)"

definition strncmp :: "string \<Rightarrow> string \<Rightarrow> nat \<Rightarrow> int" where
  "strncmp a b n = bytes_cmp (take n (upto_nul a)) (take n (upto_nul b))"

definition strcasecmp :: "string \<Rightarrow> string \<Rightarrow> int" where
  "strcasecmp a b = bytes_cmp (List.map tolower (upto_nul a)) (List.map tolower (upto_nul b))"

definition strncasecmp :: "string \<Rightarrow> string \<Rightarrow> nat \<Rightarrow> int" where
  "strncasecmp a b n = bytes_cmp (List.map tolower (take n (upto_nul a))) (List.map tolower (take n (upto_nul b)))"

text \<open>The index of the first \<open>c\<close>.\<close>

definition strchr :: "string \<Rightarrow> char \<Rightarrow> nat option" where
  "strchr s c = (let n = length (takeWhile (\<lambda>d. d \<noteq> c) (upto_nul s))
                 in if n < length (upto_nul s) then Some n else None)"

fun contains :: "string \<Rightarrow> string \<Rightarrow> bool" where
  "contains [] t \<longleftrightarrow> t = []"
| "contains (c # cs) t \<longleftrightarrow> take (length t) (c # cs) = t \<or> contains cs t"

definition strstr :: "string \<Rightarrow> string \<Rightarrow> bool" where
  "strstr s t \<longleftrightarrow> contains (upto_nul s) (upto_nul t)"

text \<open>\<open>slprintf\<close> into a buffer of \<open>len\<close> bytes keeps what fits before the null byte and returns its length.\<close>

definition slprintf :: "nat \<Rightarrow> string \<Rightarrow> string" where
  "slprintf len s = take (len - 1) s"

section \<open>Lemmas\<close>

lemma upto_nul_plain [simp]: "CHR 0x00 \<notin> set s \<Longrightarrow> upto_nul s = s"
  by (auto simp: upto_nul_def takeWhile_eq_all_conv)

lemma set_upto_nul: "CHR 0x00 \<notin> set (upto_nul s)"
  by (auto simp: upto_nul_def dest: set_takeWhileD)

lemma bytes_cmp_refl [simp]: "bytes_cmp a a = 0"
  by (induction a) simp_all

lemma of_char_pos: "c \<noteq> CHR 0x00 \<Longrightarrow> 0 < (of_char c :: int)"
proof -
  assume "c \<noteq> CHR 0x00"
  then have "(of_char c :: nat) \<noteq> of_char (CHR 0x00)" by (simp only: of_char_eq_iff) simp
  then have "0 < (of_char c :: nat)" by simp
  then have "0 < int (of_char c)" by (simp only: of_nat_0_less_iff)
  then show ?thesis by (simp only: of_nat_of_char)
qed

lemma strchr_Some:
  assumes "strchr s c = Some i"
  shows "i < length s" "s ! i = c" "c \<notin> set (take i s)" "CHR 0x00 \<notin> set (take i s)"
proof -
  let ?u = "upto_nul s"
  have i: "i = length (takeWhile (\<lambda>d. d \<noteq> c) ?u)" "i < length ?u" using assms by (auto simp: strchr_def Let_def split: if_splits)
  have pre: "take (length ?u) s = ?u" by (metis takeWhile_eq_take upto_nul_def)
  then have t: "take i s = take i ?u" "s ! i = ?u ! i" "length ?u \<le> length s"
    using i(2) by (metis min.strict_order_iff take_take min.commute) (metis i(2) nth_take pre, metis length_take min.cobounded1 pre)
  show "i < length s" using i(2) t(3) by simp
  show "s ! i = c" using t(2) nth_length_takeWhile [of "\<lambda>d. d \<noteq> c" ?u] i by simp
  have "take i ?u = takeWhile (\<lambda>d. d \<noteq> c) ?u" using i(1) by (metis takeWhile_eq_take)
  then show "c \<notin> set (take i s)" "CHR 0x00 \<notin> set (take i s)"
    using t(1) set_upto_nul [of s] by (auto dest: set_takeWhileD)
qed

lemma strchr_None: "strchr s c = None \<longleftrightarrow> c \<notin> set (upto_nul s)"
proof -
  have "length (takeWhile (\<lambda>d. d \<noteq> c) (upto_nul s)) < length (upto_nul s) \<longleftrightarrow> takeWhile (\<lambda>d. d \<noteq> c) (upto_nul s) \<noteq> upto_nul s"
    by (metis length_takeWhile_le nat_less_le takeWhile_eq_take take_all_iff order_refl)
  then show ?thesis by (auto simp: strchr_def Let_def takeWhile_eq_all_conv)
qed

lemma of_char_tolower:
  "(of_char (tolower c) :: nat) = (if 65 \<le> (of_char c :: nat) \<and> (of_char c :: nat) \<le> 90 then of_char c + 32 else of_char c)"
  by (auto simp: tolower_def Let_def)

lemma tolower_fixed:
  assumes "(of_char d :: nat) < 65"
  shows "tolower c = d \<longleftrightarrow> c = d"
proof -
  have "tolower c = d \<longleftrightarrow> (of_char (tolower c) :: nat) = of_char d" by (simp only: of_char_eq_iff)
  also have "\<dots> \<longleftrightarrow> (of_char c :: nat) = of_char d" unfolding of_char_tolower using assms by auto
  finally show ?thesis by (simp only: of_char_eq_iff)
qed

lemma tolower_colon [simp]: "tolower c = CHR '':'' \<longleftrightarrow> c = CHR '':''"
  by (rule tolower_fixed) simp

lemma tolower_nul [simp]: "tolower c = CHR 0x00 \<longleftrightarrow> c = CHR 0x00"
  by (rule tolower_fixed) simp

lemma nul_in_tolower [simp]: "CHR 0x00 \<in> tolower ` A \<longleftrightarrow> CHR 0x00 \<in> A"
  by (metis (no_types, lifting) image_iff tolower_nul)

lemma colon_in_tolower [simp]: "CHR '':'' \<in> tolower ` A \<longleftrightarrow> CHR '':'' \<in> A"
  by (metis (no_types, lifting) image_iff tolower_colon)

lemma bytes_cmp_0: "CHR 0x00 \<notin> set a \<Longrightarrow> CHR 0x00 \<notin> set b \<Longrightarrow> bytes_cmp a b = 0 \<longleftrightarrow> a = b"
proof (induction a b rule: bytes_cmp.induct)
  case (2 d ds)
  then show ?case using of_char_pos [of d] by auto
next
  case (3 c cs)
  then show ?case using of_char_pos [of c] by auto
next
  case (4 c cs d ds)
  then show ?case by auto
qed simp

lemma strncasecmp_0:
  assumes "CHR 0x00 \<notin> set a" and "CHR 0x00 \<notin> set b"
  shows "strncasecmp a b n = 0 \<longleftrightarrow> map tolower (take n a) = map tolower (take n b)"
  unfolding strncasecmp_def using assms by (subst bytes_cmp_0) (auto dest: in_set_takeD)

lemma strcasecmp_0:
  assumes "CHR 0x00 \<notin> set a" and "CHR 0x00 \<notin> set b"
  shows "strcasecmp a b = 0 \<longleftrightarrow> map tolower a = map tolower b"
  unfolding strcasecmp_def using assms by (subst bytes_cmp_0) auto

lemma strncmp_0:
  assumes "CHR 0x00 \<notin> set a" and "CHR 0x00 \<notin> set b"
  shows "strncmp a b n = 0 \<longleftrightarrow> take n a = take n b"
  unfolding strncmp_def using assms by (subst bytes_cmp_0) (auto dest: in_set_takeD)

text \<open>Printed numbers are short and plain.\<close>

lemma digits_length: "0 < k \<Longrightarrow> n < 10 ^ k \<Longrightarrow> length (digits n) \<le> k"
proof (induction n arbitrary: k rule: digits.induct)
  case (1 n)
  show ?case
  proof (cases "n < 10")
    case True
    then show ?thesis using "1.prems"(1) by (subst digits.simps) simp
  next
    case False
    then have "1 < k" using "1.prems" by (cases "k = 1") auto
    then obtain j where j: "k = Suc j" "0 < j" by (cases k) auto
    then have "length (digits (n div 10)) \<le> j" using "1.IH" [OF False j(2)] "1.prems"(2) by (simp add: less_mult_imp_div_less mult.commute)
    then show ?thesis using False j by (subst digits.simps) simp
  qed
qed

lemma digits_char: "c \<in> set (digits n) \<Longrightarrow> 48 \<le> (of_char c :: nat) \<and> (of_char c :: nat) \<le> 57"
proof (induction n rule: digits.induct)
  case (1 n)
  show ?case
  proof (cases "n < 10")
    case True
    then have "c = char_of (48 + n)" using "1.prems" by (subst (asm) digits.simps) simp
    then show ?thesis using True by simp
  next
    case False
    then consider "c \<in> set (digits (n div 10))" | "c = char_of (48 + n mod 10)"
      using "1.prems" by (subst (asm) digits.simps) auto
    then show ?thesis
    proof cases
      case 1
      then show ?thesis using "1.IH" [OF False] by blast
    next
      case 2
      have "n mod 10 \<le> 9" by simp
      then show ?thesis using 2 by simp
    qed
  qed
qed

lemma print_d_length: "- (2 ^ 31) \<le> i \<Longrightarrow> i < 2 ^ 31 \<Longrightarrow> length (print_d i) \<le> 11"
proof -
  assume i: "- (2 ^ 31) \<le> i" "i < 2 ^ 31"
  have "length (digits n) \<le> 10" if "n \<le> 2 ^ 31" for n by (rule digits_length) (use that in simp_all)
  from this [of "nat i"] this [of "nat (- i)"] show ?thesis using i by (simp add: print_d_def nat_le_iff)
qed

lemma print_d_char: "c \<in> set (print_d i) \<Longrightarrow> c = CHR ''-'' \<or> 48 \<le> (of_char c :: nat) \<and> (of_char c :: nat) \<le> 57"
  using digits_char by (auto simp: print_d_def split: if_splits)

end
