(* ===== verification/Coro_Startup.thy ===== *)
theory Coro_Startup
  imports Tsrm_Lemmas C_Strings
begin

text \<open>
  How \<open>main\<close> of sapi/fpm/fpm/fpm_main.c sets the resource manager up for the coroutines: the
  number of coroutines, one table entry per coroutine, and the macro pair
  \<open>COROUTINE_INIT_START\<close>/\<open>COROUTINE_INIT_END\<close>, which runs an initialisation once inside every
  coroutine.
\<close>

section \<open>The number of coroutines\<close>

definition coroutine_count :: "string option \<Rightarrow> int option" where
  "coroutine_count engine_count = (case engine_count of None \<Rightarrow> Some 128 | Some s \<Rightarrow> atoi s)"

section \<open>The table of the coroutines\<close>

definition tsrm_boot :: "nat \<Rightarrow> tsrm \<Rightarrow> tsrm option" where
  "tsrm_boot n s = do {
     let (_, s) = tsrm_startup n 1 True True s;
     s \<leftarrow> for_each (\<lambda>j. create_tsrm_tls_entry (int j)) [0..<n] s;
     let s = set_force_thread_id 0 s;
     p \<leftarrow> get_tsrm_tls_entry 0 s;
     Some (snd (tsrm_set_interpreter_context p s))
   }"

definition enter_coroutine :: "int \<Rightarrow> tsrm \<Rightarrow> tsrm option" where
  "enter_coroutine i s = do {
     let s = set_force_thread_id i s;
     p \<leftarrow> get_tsrm_tls_entry i s;
     Some (snd (tsrm_set_interpreter_context p s))
   }"

definition COROUTINE_INIT :: "nat \<Rightarrow> ptr \<Rightarrow> (nat \<Rightarrow> tsrm \<Rightarrow> tsrm option) \<Rightarrow> tsrm \<Rightarrow> tsrm option" where
  "COROUTINE_INIT n main_context body s = do {
     s \<leftarrow> for_each (\<lambda>i s. Option.bind (enter_coroutine (int i) s) (body i)) [0..<n] s;
     let s = set_force_thread_id 0 s;
     Some (snd (tsrm_set_interpreter_context main_context s))
   }"

section \<open>The table after startup\<close>

lemma ts_shape_frame [simp]:
  "ts_shape es (s\<lparr>force_thread_id := f\<rparr>) = ts_shape es s" "ts_shape es (s\<lparr>tls := p\<rparr>) = ts_shape es s"
  "ts_shape es (s\<lparr>ts_log := l\<rparr>) = ts_shape es s"
  by (simp_all add: ts_shape_def entry_ok_def cong: option.case_cong)

lemma ts_isolated_frame [simp]:
  "ts_isolated es (s\<lparr>force_thread_id := f\<rparr>) = ts_isolated es s"
  "ts_isolated es (s\<lparr>tls := p\<rparr>) = ts_isolated es s"
  "ts_isolated es (s\<lparr>ts_log := l\<rparr>) = ts_isolated es s"
  by (simp_all add: ts_isolated_def)

lemma ts_wf_frame [simp]:
  "ts_wf es (s\<lparr>force_thread_id := f\<rparr>) = ts_wf es s" "ts_wf es (s\<lparr>tls := p\<rparr>) = ts_wf es s"
  "ts_wf es (s\<lparr>ts_log := l\<rparr>) = ts_wf es s"
  by (simp_all add: ts_wf_def)

text \<open>The state after \<open>k\<close> of the entries have been created.\<close>

definition booted :: "nat \<Rightarrow> nat \<Rightarrow> tsrm \<Rightarrow> nat \<Rightarrow> tsrm \<Rightarrow> bool" where
  "booted n b0 s k t \<longleftrightarrow>
     tsrm_tls_table t = Some (map (\<lambda>i. if i < k then Some (b0 + i) else NULL) [0..<n])
     \<and> brk t = b0 + k \<and> id_count t = 0 \<and> \<not> locked t \<and> tls t = NULL \<and> blocks t = blocks s
     \<and> begin_handler t = None \<and> end_handler t = None \<and> ts_log t = ts_log s
     \<and> resource_types_table t = Some [empty_resource_type]
     \<and> rsrc_id_map t = replicate rsrc_id_map_size []
     \<and> (\<forall>i < k. entries t (b0 + i) =
          Some \<lparr>storage = [], e_count = 0, e_thread_id = i, e_next = NULL\<rparr>)"

lemma booted_step:
  assumes "booted n b0 s k t" and "k < n" and "int n \<le> 2 ^ 64"
  shows "\<exists>t'. create_tsrm_tls_entry (int k) t = Some t' \<and> booted n b0 s (Suc k) t'"
proof -
  have "int k mod 2 ^ 64 = int k" using assms(2,3) by simp
  moreover have "(map (\<lambda>i. if i < k then Some (b0 + i) else NULL) [0..<n])[k := Some (b0 + k)]
      = map (\<lambda>i. if i < Suc k then Some (b0 + i) else NULL) [0..<n]"
    using assms(2) by (auto intro!: nth_equalityI simp: nth_list_update)
  ultimately show ?thesis
    using assms(1,2)
    by (auto simp: booted_def create_tsrm_tls_entry_def tsrm_new_interpreter_context_def
        set_force_thread_id_def tsrm_thread_id_def tsrm_mutex_lock_def tsrm_mutex_unlock_def
        allocate_new_resource_def log_call_def tsrm_set_interpreter_context_def index_of_def
        nth_opt_def Let_def less_Suc_eq)
qed

lemma booted_wf:
  assumes "booted n b0 s n t" and "dom (blocks s) \<subseteq> {..<b0}"
  shows "ts_wf [b0..<b0 + n] t"
proof -
  have "map (\<lambda>i. if i < n then Some (b0 + i) else NULL) [0..<n] = map Some [b0..<b0 + n]"
    by (rule nth_equalityI) auto
  then have "ts_shape [b0..<b0 + n] t"
    using assms(1) by (auto simp: ts_shape_def booted_def entry_ok_def)
  moreover have none: "slot t a j = NULL" if "a \<in> set [b0..<b0 + n]" for a j
  proof -
    from that obtain i where "a = b0 + i" "i < n" by (auto simp: le_iff_add)
    then show ?thesis using assms(1) by (simp add: slot_def booted_def)
  qed
  moreover have "dom (blocks t) \<subseteq> {..<brk t}" "set [b0..<b0 + n] \<subseteq> {..<brk t}"
    using assms by (auto simp: booted_def subset_iff)
  ultimately show ?thesis by (auto simp: ts_wf_def ts_isolated_def)
qed

lemma tsrm_boot_spec:
  assumes "0 < n" and "int n \<le> 2 ^ 64" and "dom (blocks s) \<subseteq> {..<brk s}"
  shows "\<exists>t. tsrm_boot n s = Some t \<and> ts_wf [brk s..<brk s + n] t \<and> tls t = Some (brk s)
           \<and> force_thread_id t = 0 \<and> id_count t = 0 \<and> (\<forall>v. \<not> known_rsrc v t) \<and> ts_log t = ts_log s"
proof -
  let ?s = "snd (tsrm_startup n 1 True True s)"
  have s0: "booted n (brk s) s 0 ?s"
    by (simp add: tsrm_startup_def booted_def Let_def map_replicate_trivial)
  have "\<exists>t. for_each (\<lambda>j. create_tsrm_tls_entry (int j)) [0..<n] ?s = Some t \<and> booted n (brk s) s n t"
    by (rule for_each_upt [where P = "booted n (brk s) s"]) (use s0 assms(2) booted_step in auto)
  then obtain t where t: "for_each (\<lambda>j. create_tsrm_tls_entry (int j)) [0..<n] ?s = Some t"
    "booted n (brk s) s n t" by blast
  let ?t = "t\<lparr>force_thread_id := 0, tls := Some (brk s)\<rparr>"
  have run: "tsrm_boot n s = Some ?t"
    using t assms(1)
    by (simp add: tsrm_boot_def tsrm_startup_def Let_def set_force_thread_id_def
        get_tsrm_tls_entry_def index_of_def nth_opt_def booted_def tsrm_set_interpreter_context_def)
  have "ts_wf [brk s..<brk s + n] ?t"
    using booted_wf [OF t(2) assms(3)]
    by simp
  then show ?thesis
    using t(2) run
    by (intro exI [of _ ?t]) (simp add: booted_def known_rsrc_def rsrc_id_map_size_def)
qed

section \<open>Entering a coroutine\<close>

lemma enter_coroutine_spec:
  assumes "tsrm_tls_table s = Some (map Some es)" and "i < length es"
  shows "enter_coroutine (int i) s = Some (s\<lparr>force_thread_id := int i, tls := Some (es ! i)\<rparr>)"
  using assms by (simp add: enter_coroutine_def set_force_thread_id_def get_tsrm_tls_entry_def
      index_of_def tsrm_set_interpreter_context_def Let_def)

text \<open>With the context of coroutine \<open>i\<close> in place, a fetch gives the block of its own row.\<close>

lemma ts_resource_fast:
  assumes "ts_shape es s" and "i < length es" and "tls s = Some (es ! i)" and "j < id_count s"
  shows "ts_resource_ex (int j + 1) None s = Some (Block (slot s (es ! i) j), s)"
proof -
  obtain e where "entries s (es ! i) = Some e" "length (storage e) = id_count s"
    using entry_okE [OF assms(1,2)] by metis
  with assms(3,4) show ?thesis
    by (simp add: ts_resource_ex.simps [of _ None] TSRM_SAFE_RETURN_RSRC_def index_of_def
        TSRM_UNSHUFFLE_RSRC_ID_def slot_def)
qed

lemma ts_resource_slow:
  assumes "ts_shape es s" and "i < length es" and "j < id_count s"
  shows "ts_resource_ex (int j + 1) (Some i) s = Some (Block (slot s (es ! i) j), s)"
proof -
  obtain e where e: "entries s (es ! i) = Some e" "e_thread_id e = i" "length (storage e) = id_count s"
    using entry_okE [OF assms(1,2)] by metis
  then have "find_chain i (es ! i) t = Some (es ! i, True)" if "entries t = entries s" for t
    using that by (simp add: find_chain.simps)
  moreover have "length es \<noteq> 0" using assms(2) by auto
  ultimately show ?thesis
    using e assms(2,3) ts_shapeD [OF assms(1)]
    by (simp add: ts_resource_ex.simps [of _ "Some i"] THREAD_HASH_OF_def tsrm_mutex_lock_def
        tsrm_mutex_unlock_def TSRM_SAFE_RETURN_RSRC_def index_of_def TSRM_UNSHUFFLE_RSRC_ID_def
        slot_def Let_def)
qed

section \<open>Registering a resource inside every coroutine\<close>

text \<open>The state after the coroutines below \<open>k\<close> have registered the resource.\<close>

definition init_rounds ::
    "nat list \<Rightarrow> tsrm \<Rightarrow> nat \<Rightarrow> nat \<Rightarrow> nat \<Rightarrow> nat option \<Rightarrow> nat \<Rightarrow> tsrm \<Rightarrow> bool" where
  "init_rounds es s v sz f d k t \<longleftrightarrow>
     (if k = 0 then t = s
      else ts_wf es t \<and> known_rsrc v t \<and> id_count t = Suc (id_count s)
        \<and> rsrc_var t v = int (id_count s) + 1
        \<and> (\<exists>types. resource_types_table t = Some types \<and> rt_ctor (types ! id_count s) = Some f)
        \<and> (\<forall>i < length es. slot t (es ! i) (id_count s) = Some (brk s + i))
        \<and> (\<forall>i < length es. \<forall>j < id_count s. slot t (es ! i) j = slot s (es ! i) j)
        \<and> ts_log t = ts_log s @ map (\<lambda>i. Ctor f (Some (brk s + i))) [0..<k])"

lemma ctor_calls_single:
  assumes "force_thread_id s = int i" and "i < n"
  shows "concat (map (\<lambda>k. ctor_calls s (Some f) (b + k) k) [0..<n]) = [Ctor f (Some (b + i))]"
proof -
  have split: "[0..<n] = [0..<i] @ i # [Suc i..<n]"
    using assms(2) upt_add_eq_append [of 0 i "n - i"] by (simp add: upt_conv_Cons)
  have rest: "concat (map (\<lambda>k. ctor_calls s (Some f) (b + k) k) xs) = []" if "i \<notin> set xs" for xs
    using that assms(1) by (induction xs) (auto simp: ctor_calls_def ctor_runs_def)
  have one: "ctor_calls s (Some f) (b + i) i = [Ctor f (Some (b + i))]"
    using assms(1) by (simp add: ctor_calls_def ctor_runs_def)
  have n: "i \<notin> set [0..<i]" "i \<notin> set [Suc i..<n]" by simp_all
  show ?thesis
    unfolding split map_append concat_append list.map concat.simps rest [OF n(1)] rest [OF n(2)] one
    by simp
qed

lemma init_round_first:
  assumes "ts_wf es s" and "\<not> known_rsrc v s" and "0 < length es"
  shows "\<exists>t. Option.bind (enter_coroutine 0 s) (\<lambda>s. map_option snd (ts_allocate_id v sz (Some f) d True s))
            = Some t \<and> init_rounds es s v sz f d 1 t"
proof -
  let ?s = "s\<lparr>force_thread_id := 0, tls := Some (es ! 0)\<rparr>"
  have wf: "ts_wf es ?s" and sh: "ts_shape es ?s" and kn: "\<not> known_rsrc v ?s"
    using assms(1,2) by (simp_all add: ts_wf_def known_rsrc_def)
  have en: "enter_coroutine 0 s = Some ?s"
    using enter_coroutine_spec [of s es 0] assms(1,3) by (simp add: ts_wf_def ts_shapeD)
  obtain t where t: "ts_allocate_id v sz (Some f) d True ?s = Some (int (id_count s) + 1, t\<lparr>locked := False\<rparr>)"
    "enlarged es (before_enlarge v sz (Some f) d ?s) sz (Some f) (length es) t"
    using ts_allocate_id_new_run [OF sh kn] by fastforce
  have "concat (map (\<lambda>i. ctor_calls (before_enlarge v sz (Some f) d ?s) (Some f) (brk s + i) i)
      [0..<length es]) = [Ctor f (Some (brk s + 0))]"
    using assms(3) by (intro ctor_calls_single) (simp_all add: before_enlarge_def)
  then have log: "ts_log t = ts_log s @ [Ctor f (Some (brk s))]"
    using t(2) by (simp add: enlarged_def before_enlarge_def)
  obtain types where types: "resource_types_table ?s = Some types" "id_count ?s \<le> length types"
    using sh by (auto simp: ts_shape_def)
  have fr: "id_count t = Suc (id_count s)" "rsrc_var t v = int (id_count s) + 1"
    "resource_types_table t = Some (registered_types sz (Some f) d ?s)"
    using t(2) by (simp_all add: enlarged_def same_frame_def before_enlarge_def)
  have "ts_wf es (t\<lparr>locked := False\<rparr>)" "known_rsrc v (t\<lparr>locked := False\<rparr>)"
    using enlarged_shape [OF sh t(2)] enlarged_isolated [OF wf t(2)]
      known_rsrc_after [OF ts_shapeD(4) [OF sh] t(2)] by (simp_all add: ts_wf_def)
  moreover have "rt_ctor (registered_types sz (Some f) d ?s ! id_count s) = Some f"
    using registered_types_nth(2) [OF types] by simp
  moreover have "\<forall>i < length es. slot t (es ! i) (id_count s) = Some (brk s + i)"
    "\<forall>i < length es. \<forall>j < id_count s. slot t (es ! i) j = slot s (es ! i) j"
    using enlarged_slot [OF sh t(2)] by simp_all
  ultimately have "init_rounds es s v sz f d 1 (t\<lparr>locked := False\<rparr>)"
    using log fr by (simp add: init_rounds_def)
  with en t(1) show ?thesis by simp
qed

lemma init_round_next:
  assumes "init_rounds es s v sz f d k t" and "0 < k" and "k < length es"
  shows "\<exists>t'. Option.bind (enter_coroutine (int k) t) (\<lambda>s. map_option snd (ts_allocate_id v sz (Some f) d True s))
            = Some t' \<and> init_rounds es s v sz f d (Suc k) t'"
proof -
  let ?t = "t\<lparr>force_thread_id := int k, tls := Some (es ! k)\<rparr>"
  note inv = assms(1) [unfolded init_rounds_def] assms(2)
  have sh: "ts_shape es t" using inv by (simp add: ts_wf_def)
  then have en: "enter_coroutine (int k) t = Some ?t"
    using assms(3) by (intro enter_coroutine_spec) (simp_all add: ts_shapeD)
  obtain types where types: "resource_types_table t = Some types" "rt_ctor (types ! id_count s) = Some f"
    using inv by auto
  have "ts_allocate_id v sz (Some f) d True ?t = Some (int (id_count s) + 1,
      ?t\<lparr>ts_log := ts_log ?t @ [Ctor f (slot ?t (es ! k) (id_count s))]\<rparr>)"
    using inv sh assms(3) types
    by (intro ts_allocate_id_again [where types = types]) (simp_all add: known_rsrc_def)
  with en inv types assms(3) show ?thesis by (simp add: init_rounds_def known_rsrc_def)
qed

lemma COROUTINE_INIT_register:
  assumes "ts_wf es s" and "\<not> known_rsrc v s" and "0 < length es"
  shows "\<exists>t. COROUTINE_INIT (length es) mc (\<lambda>_ s. map_option snd (ts_allocate_id v sz (Some f) d True s)) s
            = Some (t\<lparr>force_thread_id := 0, tls := mc\<rparr>)
          \<and> init_rounds es s v sz f d (length es) t"
proof -
  let ?b = "\<lambda>i s. Option.bind (enter_coroutine (int i) s) (\<lambda>s. map_option snd (ts_allocate_id v sz (Some f) d True s))"
  have "\<exists>t. for_each ?b [0..<length es] s = Some t \<and> init_rounds es s v sz f d (length es) t"
  proof (rule for_each_upt)
    fix k t
    assume k: "k < length es" and P: "init_rounds es s v sz f d k t"
    show "\<exists>t'. ?b k t = Some t' \<and> init_rounds es s v sz f d (Suc k) t'"
    proof (cases "k = 0")
      case True
      with P init_round_first [OF assms, of sz f d] show ?thesis by (simp add: init_rounds_def)
    next
      case False
      with P k init_round_next show ?thesis by blast
    qed
  qed (simp_all add: init_rounds_def)
  then show ?thesis
    by (auto simp: COROUTINE_INIT_def set_force_thread_id_def tsrm_set_interpreter_context_def Let_def)
qed

end
