(* ===== verification/Tsrm_Properties.thy ===== *)
theory Tsrm_Properties
  imports Coro_Startup
begin

text \<open>
  What the engine relies on in the resource manager: the table \<open>main\<close> builds, the globals of a
  resource being private to each coroutine and constructed once, and the release of every block
  at shutdown.
\<close>

section \<open>Starting up\<close>

definition empty_tsrm :: tsrm where
  "empty_tsrm = \<lparr>rsrc_id_map = [], tsrm_tls_table = None, force_thread_id = -1, id_count = 0,
     resource_types_table = None, begin_handler = None, end_handler = None, entries = Map.empty,
     blocks = Map.empty, brk = 0, tls = NULL, rsrc_var = (\<lambda>_. 0), locked = False, os_thread = 0,
     ts_log = []\<rparr>"

lemma empty_tsrm_simps [simp]:
  "blocks empty_tsrm = Map.empty" "brk empty_tsrm = 0" "ts_log empty_tsrm = []"
  by (simp_all add: empty_tsrm_def)

lemma upt_3: "[0..<3] = [0, 1, 2 :: nat]"
  by (simp add: upt_conv_Cons)

text \<open>
  The start of \<open>main\<close>: with \<open>n\<close> coroutines the loop over \<open>create_tsrm_tls_entry\<close> ends with a
  table of \<open>n\<close> entries, one per coroutine index, nothing registered, no handler called, and the
  coroutine 0 as the current one.
\<close>

theorem tsrm_boot_table:
  assumes "0 < n" and "int n \<le> 2 ^ 64" and "dom (blocks s) \<subseteq> {..<brk s}"
  shows "\<exists>t. tsrm_boot n s = Some t \<and> ts_wf [brk s..<brk s + n] t
    \<and> tls t = Some (brk s) \<and> force_thread_id t = 0 \<and> id_count t = 0 \<and> ts_log t = ts_log s
    \<and> (\<forall>i < n. \<exists>e. entries t (brk s + i) = Some e \<and> e_thread_id e = i)"
proof -
  from tsrm_boot_spec [OF assms] obtain t where t: "tsrm_boot n s = Some t"
    "ts_wf [brk s..<brk s + n] t" "tls t = Some (brk s)" "force_thread_id t = 0" "id_count t = 0"
    "ts_log t = ts_log s" by blast
  have "\<exists>e. entries t (brk s + i) = Some e \<and> e_thread_id e = i" if "i < n" for i
    using entry_okE [of "[brk s..<brk s + n]" t i] t(2) that by (auto simp: ts_wf_def)
  with t show ?thesis by blast
qed

theorem tsrm_boot_table_witness:
  "\<exists>n t. coroutine_count (Some ''3'') = Some n \<and> tsrm_boot (nat n) empty_tsrm = Some t \<and> tls t = Some 0
     \<and> ts_wf [0, 1, 2] t"
proof -
  have n: "coroutine_count (Some ''3'') = Some 3"
    by (simp add: coroutine_count_def atoi_def number_of_text_def int32_def is_space_def)
  show ?thesis unfolding n using tsrm_boot_table [of 3 empty_tsrm] by (auto simp del: One_nat_def simp: upt_3)
qed

lemma booted_example:
  obtains s where "tsrm_boot 3 empty_tsrm = Some s" "ts_wf [0, 1, 2] s" "\<not> known_rsrc v s"
    "id_count s = 0" "ts_log s = []"
  using tsrm_boot_spec [of 3 empty_tsrm] by (auto simp del: One_nat_def simp: upt_3)

section \<open>Registering and fetching\<close>

text \<open>
  C7. An initialisation run by \<open>COROUTINE_INIT_START\<close>/\<open>END\<close> that registers a resource registers it
  once, calls its constructor once per coroutine, each time on that coroutine's own block, and
  afterwards a coroutine that is switched to fetches that block.
\<close>

theorem coroutine_resource_private:
  assumes "ts_wf es s" and "\<not> known_rsrc v s" and "0 < length es"
  shows "\<exists>t. COROUTINE_INIT (length es) mc (\<lambda>_ s. map_option snd (ts_allocate_id v sz (Some f) d True s)) s = Some t
    \<and> ts_wf es t \<and> id_count t = Suc (id_count s)
    \<and> ts_log t = ts_log s @ map (\<lambda>i. Ctor f (Some (brk s + i))) [0..<length es]
    \<and> (\<forall>i < length es. \<exists>u. enter_coroutine (int i) t = Some u
         \<and> ts_resource_ex (rsrc_var t v) None u = Some (Block (Some (brk s + i)), u))"
proof -
  from COROUTINE_INIT_register [OF assms, of mc sz f d] obtain t where
    run: "COROUTINE_INIT (length es) mc (\<lambda>_ s. map_option snd (ts_allocate_id v sz (Some f) d True s)) s
            = Some (t\<lparr>force_thread_id := 0, tls := mc\<rparr>)"
    and rounds: "init_rounds es s v sz f d (length es) t" by blast
  note inv = rounds [unfolded init_rounds_def] assms(3)
  let ?t = "t\<lparr>force_thread_id := 0, tls := mc\<rparr>"
  have sh: "ts_shape es ?t" using inv by (simp add: ts_wf_def)
  have fetch: "\<exists>u. enter_coroutine (int i) ?t = Some u
      \<and> ts_resource_ex (rsrc_var ?t v) None u = Some (Block (Some (brk s + i)), u)"
    if i: "i < length es" for i
  proof -
    let ?u = "?t\<lparr>force_thread_id := int i, tls := Some (es ! i)\<rparr>"
    have "enter_coroutine (int i) ?t = Some ?u"
      using enter_coroutine_spec [OF ts_shapeD(1) [OF sh] i] .
    moreover have "ts_resource_ex (int (id_count s) + 1) None ?u = Some (Block (slot ?u (es ! i) (id_count s)), ?u)"
      using sh i inv by (intro ts_resource_fast) simp_all
    ultimately show ?thesis using inv i by auto
  qed
  show ?thesis
    using run inv fetch by (intro exI [of _ ?t]) simp
qed

theorem coroutine_resource_private_witness:
  "\<exists>s t. tsrm_boot 3 empty_tsrm = Some s
     \<and> COROUTINE_INIT 3 (Some 0) (\<lambda>_ s. map_option snd (ts_allocate_id 7 64 (Some 1) None True s)) s = Some t
     \<and> ts_log t = map (\<lambda>i. Ctor 1 (Some (brk s + i))) [0..<3]"
proof -
  obtain s where s: "tsrm_boot 3 empty_tsrm = Some s" "ts_wf [0, 1, 2] s" "\<not> known_rsrc 7 s"
    "ts_log s = []" by (rule booted_example)
  from coroutine_resource_private [OF s(2,3), of "Some 0" 64 1 None] s show ?thesis
    by (auto simp: numeral_3_eq_3)
qed

text \<open>
  The two ways to fetch a resource agree: by the cached context of the current coroutine
  (the short cut of \<open>ts_resource_ex\<close>) and by the index of the coroutine through the table.
\<close>

theorem fetch_paths_agree:
  assumes "ts_shape es s" and "i < length es" and "j < id_count s" and "enter_coroutine (int i) s = Some u"
  shows "map_option fst (ts_resource_ex (int j + 1) None u) = map_option fst (ts_resource_ex (int j + 1) (Some i) s)
    \<and> map_option fst (ts_resource_ex (int j + 1) None u) = Some (Block (slot s (es ! i) j))"
proof -
  have u: "u = s\<lparr>force_thread_id := int i, tls := Some (es ! i)\<rparr>"
    using enter_coroutine_spec [OF ts_shapeD(1) [OF assms(1)] assms(2)] assms(4) by simp
  have "ts_resource_ex (int j + 1) None u = Some (Block (slot u (es ! i) j), u)"
    using assms unfolding u by (intro ts_resource_fast) simp_all
  with ts_resource_slow [OF assms(1-3)] show ?thesis by (simp add: u)
qed

theorem fetch_paths_agree_witness:
  "\<exists>s t u. tsrm_boot 3 empty_tsrm = Some s
     \<and> ts_allocate_id 7 64 None None True s = Some (1, t) \<and> enter_coroutine 2 t = Some u
     \<and> map_option fst (ts_resource_ex 1 None u) = map_option fst (ts_resource_ex 1 (Some 2) t)"
proof -
  obtain s where s: "tsrm_boot 3 empty_tsrm = Some s" "ts_wf [0, 1, 2] s" "\<not> known_rsrc 7 s"
    "id_count s = 0" by (rule booted_example)
  then have sh: "ts_shape [0, 1, 2] s" by (simp add: ts_wf_def)
  from ts_allocate_id_new_run [OF this s(3), of 64 None None] obtain t where
    t: "ts_allocate_id 7 64 None None True s = Some (int (id_count s) + 1, t\<lparr>locked := False\<rparr>)"
      "enlarged [0, 1, 2] (before_enlarge 7 64 None None s) 64 None (length [0, 1, 2 :: nat]) t"
    by blast
  then have sh': "ts_shape [0, 1, 2] (t\<lparr>locked := False\<rparr>)" by (intro enlarged_shape [OF sh])
  moreover have "id_count t = 1"
    using t(2) s(4) by (simp add: enlarged_def same_frame_def before_enlarge_def)
  moreover obtain u where u: "enter_coroutine (int 2) (t\<lparr>locked := False\<rparr>) = Some u"
    using enter_coroutine_spec [OF ts_shapeD(1) [OF sh'], of 2] by simp
  ultimately show ?thesis using fetch_paths_agree [OF sh' _ _ u, of 0] s(1,4) t(1) by auto
qed

text \<open>
  C8. Registering a new resource keeps the table well-formed: every entry gets a fresh block for
  it, the blocks of the other resources stay where they are, and no two slots of the table ever
  share a block, so a coroutine cannot see the globals of another.
\<close>

theorem ts_allocate_id_isolates:
  assumes "ts_wf es s" and "\<not> known_rsrc v s"
  shows "\<exists>t. ts_allocate_id v sz c d True s = Some (int (id_count s) + 1, t) \<and> ts_wf es t
    \<and> id_count t = Suc (id_count s)
    \<and> (\<forall>i < length es. slot t (es ! i) (id_count s) = Some (brk s + i)
         \<and> (\<forall>j < id_count s. slot t (es ! i) j = slot s (es ! i) j))"
proof -
  have sh: "ts_shape es s" using assms(1) by (simp add: ts_wf_def)
  from ts_allocate_id_new_run [OF sh assms(2), of sz c d] obtain t where
    t: "ts_allocate_id v sz c d True s = Some (int (id_count s) + 1, t\<lparr>locked := False\<rparr>)"
       "enlarged es (before_enlarge v sz c d s) sz c (length es) t" by blast
  then have "ts_wf es (t\<lparr>locked := False\<rparr>)" "id_count t = Suc (id_count s)"
    using enlarged_shape [OF sh t(2)] enlarged_isolated [OF assms(1) t(2)]
    by (simp_all add: ts_wf_def) (simp add: enlarged_def same_frame_def before_enlarge_def)
  with t(1) enlarged_slot [OF sh t(2)] show ?thesis by auto
qed

theorem ts_allocate_id_isolates_witness:
  "\<exists>s t. tsrm_boot 3 empty_tsrm = Some s \<and> ts_allocate_id 7 64 None None True s = Some (1, t) \<and> ts_wf [0, 1, 2] t"
proof -
  obtain s where s: "tsrm_boot 3 empty_tsrm = Some s" "ts_wf [0, 1, 2] s" "\<not> known_rsrc 7 s"
    "id_count s = 0" by (rule booted_example)
  from ts_allocate_id_isolates [OF s(2,3), of 64 None None] s(1,4) show ?thesis by auto
qed

section \<open>Shutting down\<close>

text \<open>
  \<open>tsrm_shutdown\<close> releases every block of the table exactly once (a second release would have
  no result), with one destructor call per live block whose resource has not been retired by
  \<open>ts_free_id\<close>, in the order of the table; other memory stays.
\<close>

theorem tsrm_shutdown_releases:
  assumes "ts_wf es s"
  shows "\<exists>t. tsrm_shutdown s = Some t \<and> tsrm_tls_table t = None \<and> tls t = NULL
    \<and> entries t = entries s |` (- set es)
    \<and> blocks t = blocks s |` (- (\<Union>a \<in> set es. slots_of s a))
    \<and> ts_log t = ts_log s @ concat (map (\<lambda>a. concat (map (dtor_calls s a) [0..<id_count s])) es)"
proof -
  have sh: "ts_shape es s" and iso: "ts_isolated es s" using assms by (auto simp: ts_wf_def)
  obtain types where types: "resource_types_table s = Some types" "id_count s \<le> length types"
    using sh by (auto simp: ts_shape_def)
  have "for_each shutdown_chain (map Some es) s = Some (after_shutdown es (id_count s) s)"
  proof (rule shutdown_all [OF ts_shapeD(2) [OF sh] _ types])
    fix a assume "a \<in> set es"
    then obtain i where "i < length es" "a = es ! i" by (auto simp: in_set_conv_nth)
    then show "\<exists>e. entries s a = Some e \<and> e_next e = NULL \<and> e_count e = id_count s
        \<and> length (storage e) = id_count s"
      using entry_okE [OF sh] by metis
  next
    show "b \<in> dom (blocks s)" if "a \<in> set es" "slot s a j = Some b" for a j b
      using iso that unfolding ts_isolated_def by meson
    show "a = a' \<and> j = j'"
      if "a \<in> set es" "a' \<in> set es" "slot s a j = Some b" "slot s a' j' = Some b" for a a' j j' b
      using iso that unfolding ts_isolated_def by meson
  qed
  then show ?thesis
    using ts_shapeD(1) [OF sh] by (simp add: tsrm_shutdown_def after_shutdown_def)
qed

theorem tsrm_shutdown_releases_witness:
  "\<exists>s t. tsrm_boot 3 empty_tsrm = Some s \<and> tsrm_shutdown s = Some t \<and> tls t = NULL"
proof -
  obtain s where s: "tsrm_boot 3 empty_tsrm = Some s" "ts_wf [0, 1, 2] s" by (rule booted_example)
  from tsrm_shutdown_releases [OF s(2)] s(1) show ?thesis by auto
qed

end
