(* ===== verification/Fcgi_Hash.thy ===== *)
theory Fcgi_Hash
  imports Prelude
begin

unbundle bit_operations_syntax

text \<open>
  The environment of a FastCGI request (main/fastcgi.c, main/fastcgi.h): a hash table with
  chained buckets, an arena of bucket blocks and an arena of string segments. A bucket is named
  by its number in the arena, a chain is the list of the buckets its \<open>next\<close> links run through,
  a string is the list of its bytes, and a segment is its position and its size. Copying into a
  segment without room is \<open>None\<close>.
\<close>

section \<open>The hash function\<close>

definition FCGI_HASH_TABLE_SIZE :: nat where
  "FCGI_HASH_TABLE_SIZE = 128"

definition FCGI_HASH_SEG_SIZE :: nat where
  "FCGI_HASH_SEG_SIZE = 4096"

text \<open>
  A \<open>char\<close> becomes an \<open>unsigned int\<close> with its sign, an \<open>unsigned char\<close> without one; the macro is
  used with both. It reads \<open>var[3]\<close> even of a name of three bytes: \<open>nxt\<close> is the byte behind the name.
\<close>

definition from_char :: "byte \<Rightarrow> 32 word" where
  "from_char b = scast b"

definition from_uchar :: "byte \<Rightarrow> 32 word" where
  "from_uchar b = ucast b"

definition FCGI_HASH_FUNC :: "(byte \<Rightarrow> 32 word) \<Rightarrow> byte list \<Rightarrow> byte \<Rightarrow> 32 word" where
  "FCGI_HASH_FUNC conv var nxt =
     (let var_len = length var in
      if var_len < 3 then of_nat var_len
      else push_bit 2 (conv ((var @ [nxt]) ! 3)) + push_bit 4 (conv (var ! (var_len - 2)))
         + push_bit 2 (conv (var ! (var_len - 1))) + of_nat var_len)"

section \<open>State\<close>

record fcgi_hash_bucket =
  hash_value :: "32 word"
  var :: "byte list"
  val :: "byte list option"

record fcgi_hash =
  hash_table :: "nat list list"
  hash_list :: "nat list"
  arena :: "fcgi_hash_bucket list"
  block_idx :: "nat list"
  segments :: "(nat \<times> nat) list"

definition fcgi_hash_init :: fcgi_hash where
  "fcgi_hash_init = \<lparr>hash_table = replicate FCGI_HASH_TABLE_SIZE [], hash_list = [], arena = [],
     block_idx = [0], segments = [(0, FCGI_HASH_SEG_SIZE)]\<rparr>"

text \<open>Releasing the blocks and the segments, each loop from the newest on.\<close>

fun free_blocks :: "nat list \<Rightarrow> nat list" where
  "free_blocks [] = []"
| "free_blocks (b # bs) = free_blocks bs"

fun free_segments :: "(nat \<times> nat) list \<Rightarrow> (nat \<times> nat) list" where
  "free_segments [] = []"
| "free_segments (p # ps) = free_segments ps"

definition fcgi_hash_destroy :: "fcgi_hash \<Rightarrow> fcgi_hash" where
  "fcgi_hash_destroy h = h\<lparr>block_idx := free_blocks (block_idx h), segments := free_segments (segments h)\<rparr>"

text \<open>Releasing all but the first one made, which is the last of the chain.\<close>

fun all_but_first :: "'a list \<Rightarrow> 'a option" where
  "all_but_first [] = None"
| "all_but_first [b] = Some b"
| "all_but_first (b # c # bs) = all_but_first (c # bs)"

definition fcgi_hash_clean :: "fcgi_hash \<Rightarrow> fcgi_hash option" where
  "fcgi_hash_clean h = do {
     _ \<leftarrow> all_but_first (block_idx h);
     (_, sz) \<leftarrow> all_but_first (segments h);
     Some (h\<lparr>hash_table := replicate FCGI_HASH_TABLE_SIZE [], hash_list := [], arena := [],
             block_idx := [0], segments := [(0, sz)]\<rparr>)
   }"

section \<open>Operations\<close>

definition fcgi_hash_strndup :: "byte list \<Rightarrow> fcgi_hash \<Rightarrow> (byte list \<times> fcgi_hash) option" where
  "fcgi_hash_strndup str h = do {
     let n = length str;
     (pos, end) \<leftarrow> nth_opt (segments h) 0;
     let segs = (if end \<le> pos + n + 1
                 then (0, if FCGI_HASH_SEG_SIZE < n + 1 then n + 1 else FCGI_HASH_SEG_SIZE) # segments h
                 else segments h);
     (pos, end) \<leftarrow> nth_opt segs 0;
     if pos + n + 1 \<le> end then Some (str, h\<lparr>segments := segs[0 := (pos + n + 1, end)]\<rparr>) else None
   }"

text \<open>Going along a chain: the bucket with this hash value and this name.\<close>

fun find_bucket :: "fcgi_hash_bucket list \<Rightarrow> 32 word \<Rightarrow> byte list \<Rightarrow> nat list \<Rightarrow> nat option" where
  "find_bucket bs hv v [] = None"
| "find_bucket bs hv v (p # ps) =
     (if p < length bs \<and> hash_value (bs ! p) = hv \<and> var (bs ! p) = v then Some p
      else find_bucket bs hv v ps)"

definition slot_of :: "32 word \<Rightarrow> nat" where
  "slot_of hv = unat (hv AND 127)"

definition fcgi_hash_set :: "32 word \<Rightarrow> byte list \<Rightarrow> byte list \<Rightarrow> fcgi_hash \<Rightarrow> (byte list \<times> fcgi_hash) option" where
  "fcgi_hash_set hv v x h = do {
     let idx = slot_of hv;
     chain \<leftarrow> nth_opt (hash_table h) idx;
     case find_bucket (arena h) hv v chain of
       Some p \<Rightarrow> do {
         (x, h) \<leftarrow> fcgi_hash_strndup x h;
         Some (x, h\<lparr>arena := (arena h)[p := (arena h ! p)\<lparr>val := Some x\<rparr>]\<rparr>)
       }
     | None \<Rightarrow> do {
         i \<leftarrow> nth_opt (block_idx h) 0;
         let blocks = (if FCGI_HASH_TABLE_SIZE \<le> i then 0 # block_idx h else block_idx h);
         i \<leftarrow> nth_opt blocks 0;
         let p = length (arena h);
         let h = h\<lparr>block_idx := blocks[0 := Suc i],
                   hash_table := (hash_table h)[idx := p # chain],
                   hash_list := p # hash_list h\<rparr>;
         (v, h) \<leftarrow> fcgi_hash_strndup v h;
         (x, h) \<leftarrow> fcgi_hash_strndup x h;
         Some (x, h\<lparr>arena := arena h @ [\<lparr>hash_value = hv, var = v, val = Some x\<rparr>]\<rparr>)
       }
   }"

definition fcgi_hash_del :: "32 word \<Rightarrow> byte list \<Rightarrow> fcgi_hash \<Rightarrow> fcgi_hash option" where
  "fcgi_hash_del hv v h = do {
     let idx = slot_of hv;
     chain \<leftarrow> nth_opt (hash_table h) idx;
     Some (case find_bucket (arena h) hv v chain of
       Some p \<Rightarrow> h\<lparr>arena := (arena h)[p := (arena h ! p)\<lparr>val := None\<rparr>],
                   hash_table := (hash_table h)[idx := remove1 p chain]\<rparr>
     | None \<Rightarrow> h)
   }"

definition fcgi_hash_get :: "32 word \<Rightarrow> byte list \<Rightarrow> fcgi_hash \<Rightarrow> byte list option" where
  "fcgi_hash_get hv v h = do {
     chain \<leftarrow> nth_opt (hash_table h) (slot_of hv);
     p \<leftarrow> find_bucket (arena h) hv v chain;
     val (arena h ! p)
   }"

text \<open>The calls of the function that is applied, in their order.\<close>

fun apply_from :: "fcgi_hash_bucket list \<Rightarrow> nat list \<Rightarrow> (byte list \<times> byte list) list" where
  "apply_from bs [] = []"
| "apply_from bs (p # ps) =
     (case val (bs ! p) of None \<Rightarrow> apply_from bs ps | Some x \<Rightarrow> (var (bs ! p), x) # apply_from bs ps)"

definition fcgi_hash_apply :: "fcgi_hash \<Rightarrow> (byte list \<times> byte list) list" where
  "fcgi_hash_apply h = apply_from (arena h) (hash_list h)"

section \<open>The environment of a request\<close>

text \<open>
  The name comes from C strings here, so its bytes are \<open>char\<close>s and a null byte is behind it. A value
  is a C string too: what \<open>strlen\<close> leaves of it.
\<close>

definition c_string :: "byte list \<Rightarrow> byte list" where
  "c_string s = takeWhile (\<lambda>b. b \<noteq> 0) s"

definition fcgi_getenv :: "byte list \<Rightarrow> fcgi_hash \<Rightarrow> byte list option" where
  "fcgi_getenv v h = fcgi_hash_get (FCGI_HASH_FUNC from_char v 0) v h"

definition fcgi_quick_getenv :: "byte list \<Rightarrow> 32 word \<Rightarrow> fcgi_hash \<Rightarrow> byte list option" where
  "fcgi_quick_getenv v hv h = fcgi_hash_get hv v h"

definition fcgi_quick_putenv :: "byte list \<Rightarrow> 32 word \<Rightarrow> byte list option \<Rightarrow> fcgi_hash
    \<Rightarrow> (byte list option \<times> fcgi_hash) option" where
  "fcgi_quick_putenv v hv x h =
     (case x of
        None \<Rightarrow> map_option (Pair None) (fcgi_hash_del hv v h)
      | Some x \<Rightarrow> map_option (\<lambda>(x, h). (Some x, h)) (fcgi_hash_set hv v (c_string x) h))"

definition fcgi_putenv :: "byte list \<Rightarrow> byte list option \<Rightarrow> fcgi_hash \<Rightarrow> (byte list option \<times> fcgi_hash) option" where
  "fcgi_putenv v x h =
     (case x of
        None \<Rightarrow> map_option (Pair None) (fcgi_hash_del (FCGI_HASH_FUNC from_char v 0) v h)
      | Some x \<Rightarrow> map_option (\<lambda>(x, h). (Some x, h))
                   (fcgi_hash_set (FCGI_HASH_FUNC from_char v 0) v (c_string x) h))"

definition fcgi_loadenv :: "fcgi_hash \<Rightarrow> (byte list \<times> byte list) list" where
  "fcgi_loadenv h = fcgi_hash_apply h"

section \<open>Well-formed tables\<close>

text \<open>
  \<open>live h\<close> are the buckets on a chain. Two of them never have the same key, each is on the chain of
  its hash value and has a value; a bucket that is on no chain has none.
\<close>

abbreviation chain_of :: "fcgi_hash \<Rightarrow> nat \<Rightarrow> nat list" where
  "chain_of h i \<equiv> hash_table h ! i"

definition live :: "fcgi_hash \<Rightarrow> nat set" where
  "live h = {p. \<exists>i < FCGI_HASH_TABLE_SIZE. p \<in> set (chain_of h i)}"

definition key_at :: "fcgi_hash \<Rightarrow> nat \<Rightarrow> 32 word \<times> byte list" where
  "key_at h p = (hash_value (arena h ! p), var (arena h ! p))"

definition chains_ok :: "fcgi_hash \<Rightarrow> bool" where
  "chains_ok h \<longleftrightarrow> length (hash_table h) = FCGI_HASH_TABLE_SIZE
     \<and> (\<forall>i < FCGI_HASH_TABLE_SIZE. distinct (chain_of h i)
          \<and> (\<forall>p \<in> set (chain_of h i). p < length (arena h) \<and> slot_of (hash_value (arena h ! p)) = i))
     \<and> (\<forall>p \<in> live h. \<forall>q \<in> live h. key_at h p = key_at h q \<longrightarrow> p = q)
     \<and> (\<forall>p < length (arena h). p \<in> live h \<longleftrightarrow> val (arena h ! p) \<noteq> None)
     \<and> hash_list h = rev [0..<length (arena h)]"

definition segs_ok :: "(nat \<times> nat) list \<Rightarrow> bool" where
  "segs_ok segs \<longleftrightarrow> segs \<noteq> [] \<and> (\<forall>(pos, end) \<in> set segs. pos \<le> end) \<and> FCGI_HASH_SEG_SIZE \<le> snd (last segs)"

definition blocks_ok :: "nat list \<Rightarrow> nat \<Rightarrow> bool" where
  "blocks_ok bs n \<longleftrightarrow> bs \<noteq> [] \<and> hd bs \<le> FCGI_HASH_TABLE_SIZE
     \<and> (\<forall>b \<in> set (tl bs). b = FCGI_HASH_TABLE_SIZE) \<and> sum_list bs = n"

definition hash_ok :: "fcgi_hash \<Rightarrow> bool" where
  "hash_ok h \<longleftrightarrow> chains_ok h \<and> segs_ok (segments h) \<and> blocks_ok (block_idx h) (length (arena h))"

end
