(* ===== verification/Fcgi_Hash_Lemmas.thy ===== *)
theory Fcgi_Hash_Lemmas
  imports Fcgi_Hash
begin

text \<open>
  The environment table of a FastCGI request is a map from keys (hash value and name) to values:
  setting and deleting act on one key, and every copied string stays inside its segment.
\<close>

section \<open>An interface for environment tables\<close>

locale env_table =
  fixes inv :: "'t \<Rightarrow> bool" and get :: "'k \<Rightarrow> 't \<Rightarrow> 'v option"
    and put :: "'k \<Rightarrow> 'v \<Rightarrow> 't \<Rightarrow> 't option" and del :: "'k \<Rightarrow> 't \<Rightarrow> 't option"
  assumes put_law: "inv t \<Longrightarrow> \<exists>u. put k v t = Some u \<and> inv u \<and> (\<forall>j. get j u = (if j = k then Some v else get j t))"
    and del_law: "inv t \<Longrightarrow> \<exists>u. del k t = Some u \<and> inv u \<and> (\<forall>j. get j u = (if j = k then None else get j t))"
begin

text \<open>Setting several: of each key the last one counts.\<close>

lemma puts:
  assumes "inv t"
  shows "\<exists>u. for_each (\<lambda>(k, v). put k v) kvs t = Some u \<and> inv u
     \<and> (\<forall>j. get j u = (case map_of (rev kvs) j of Some v \<Rightarrow> Some v | None \<Rightarrow> get j t))"
  using assms
proof (induction kvs arbitrary: t)
  case Nil
  then show ?case by simp
next
  case (Cons kv kvs)
  obtain k v where kv: "kv = (k, v)" by (cases kv)
  obtain s where s: "put k v t = Some s" "inv s" "\<forall>j. get j s = (if j = k then Some v else get j t)"
    using put_law [OF Cons.prems] by blast
  obtain u where "for_each (\<lambda>(k, v). put k v) kvs s = Some u" "inv u"
    "\<forall>j. get j u = (case map_of (rev kvs) j of Some v \<Rightarrow> Some v | None \<Rightarrow> get j s)"
    using Cons.IH [OF s(2)] by blast
  with s(1,3) show ?case
    by (intro exI [of _ u]) (auto simp: kv map_add_def split: option.splits)
qed

lemma del_put:
  assumes "inv t" and "get k t = None"
  shows "\<exists>s u. put k v t = Some s \<and> del k s = Some u \<and> (\<forall>j. get j u = get j t)"
proof -
  obtain s where s: "put k v t = Some s" "inv s" "\<forall>j. get j s = (if j = k then Some v else get j t)"
    using put_law [OF assms(1)] by blast
  with del_law [OF s(2), of k] assms(2) show ?thesis by fastforce
qed

end

section \<open>Chains\<close>

lemma slot_lt [simp]: "slot_of hv < FCGI_HASH_TABLE_SIZE"
proof -
  have "hv AND 127 \<le> 127" using word_and_le1 [of hv 127] by simp
  then have "unat (hv AND 127) \<le> unat (127 :: 32 word)" by (simp only: word_le_nat_alt)
  then show ?thesis by (simp add: slot_of_def FCGI_HASH_TABLE_SIZE_def)
qed

lemma find_bucket_SomeD:
  "find_bucket bs hv v ps = Some p \<Longrightarrow> p \<in> set ps \<and> p < length bs \<and> hash_value (bs ! p) = hv \<and> var (bs ! p) = v"
  by (induction ps) (auto split: if_splits)

lemma find_bucket_NoneD:
  "find_bucket bs hv v ps = None \<Longrightarrow> p \<in> set ps \<Longrightarrow> p < length bs \<Longrightarrow> \<not> (hash_value (bs ! p) = hv \<and> var (bs ! p) = v)"
  by (induction ps) (auto split: if_splits)

lemma chains_okD:
  assumes "chains_ok h"
  shows "length (hash_table h) = FCGI_HASH_TABLE_SIZE"
    and "i < FCGI_HASH_TABLE_SIZE \<Longrightarrow> distinct (chain_of h i)"
    and "i < FCGI_HASH_TABLE_SIZE \<Longrightarrow> p \<in> set (chain_of h i) \<Longrightarrow> p < length (arena h) \<and> slot_of (hash_value (arena h ! p)) = i"
    and "p \<in> live h \<Longrightarrow> q \<in> live h \<Longrightarrow> key_at h p = key_at h q \<Longrightarrow> p = q"
    and "p < length (arena h) \<Longrightarrow> p \<in> live h \<longleftrightarrow> val (arena h ! p) \<noteq> None"
    and "hash_list h = rev [0..<length (arena h)]"
  using assms unfolding chains_ok_def by blast+

lemma liveD:
  assumes "chains_ok h" and "p \<in> live h"
  shows "p < length (arena h)" and "p \<in> set (chain_of h (slot_of (hash_value (arena h ! p))))"
  using assms chains_okD(3) [OF assms(1)] by (auto simp: live_def)

lemma chain_live: "p \<in> set (chain_of h (slot_of hv)) \<Longrightarrow> p \<in> live h"
  unfolding live_def using slot_lt by blast

lemma get_chain:
  assumes "chains_ok h"
  shows "fcgi_hash_get hv v h
     = Option.bind (find_bucket (arena h) hv v (chain_of h (slot_of hv))) (\<lambda>p. val (arena h ! p))"
  by (simp add: fcgi_hash_get_def chains_okD(1) [OF assms])

text \<open>What is found, and that nothing is.\<close>

lemma get_at:
  assumes ok: "chains_ok h" and p: "p \<in> live h" "key_at h p = (hv, v)"
  shows "fcgi_hash_get hv v h = val (arena h ! p)"
proof (cases "find_bucket (arena h) hv v (chain_of h (slot_of hv))")
  case None
  show ?thesis using find_bucket_NoneD [OF None] liveD [OF ok p(1)] p(2) by (auto simp: key_at_def)
next
  case (Some q)
  note d = find_bucket_SomeD [OF Some]
  then have "q \<in> live h" "key_at h q = (hv, v)" using chain_live [of q h hv] by (auto simp: key_at_def)
  then have "q = p" using chains_okD(4) [OF ok _ p(1)] p(2) by simp
  then show ?thesis using Some by (simp add: get_chain [OF ok])
qed

lemma get_none:
  assumes ok: "chains_ok h" and no: "\<And>p. p \<in> live h \<Longrightarrow> key_at h p \<noteq> (hv, v)"
  shows "fcgi_hash_get hv v h = None"
proof (cases "find_bucket (arena h) hv v (chain_of h (slot_of hv))")
  case None
  then show ?thesis by (simp add: get_chain [OF ok])
next
  case (Some q)
  note d = find_bucket_SomeD [OF Some]
  then have "q \<in> live h" "key_at h q = (hv, v)" using chain_live [of q h hv] by (auto simp: key_at_def)
  then show ?thesis using no by blast
qed

lemma get_iff:
  assumes ok: "chains_ok h"
  shows "fcgi_hash_get hv v h = Some x \<longleftrightarrow> (\<exists>p \<in> live h. key_at h p = (hv, v) \<and> val (arena h ! p) = Some x)"
  using get_at [OF ok] get_none [OF ok] by (metis not_None_eq)

lemma get_same:
  assumes "chains_ok h" and "chains_ok h'"
    and "\<And>p. p \<in> live h' \<and> key_at h' p = (hv, v) \<longleftrightarrow> p \<in> live h \<and> key_at h p = (hv, v)"
    and "\<And>p. p \<in> live h \<Longrightarrow> key_at h p = (hv, v) \<Longrightarrow> val (arena h' ! p) = val (arena h ! p)"
  shows "fcgi_hash_get hv v h' = fcgi_hash_get hv v h"
proof (cases "\<exists>p \<in> live h. key_at h p = (hv, v)")
  case True
  then obtain p where p: "p \<in> live h" "key_at h p = (hv, v)" by blast
  then have "p \<in> live h'" "key_at h' p = (hv, v)" using assms(3) [of p] by blast+
  then show ?thesis using get_at [OF assms(1) p] get_at [OF assms(2)] assms(4) [OF p] by simp
next
  case False
  then have "fcgi_hash_get hv v h = None" "fcgi_hash_get hv v h' = None"
    using assms(3) by (auto intro!: get_none assms(1,2))
  then show ?thesis by simp
qed

section \<open>Copying strings\<close>

lemma strndup_run:
  assumes "segs_ok (segments h)"
  shows "\<exists>segs. fcgi_hash_strndup s h = Some (s, h\<lparr>segments := segs\<rparr>) \<and> segs_ok segs"
proof -
  obtain pos "end" rest where h: "segments h = (pos, end) # rest" "pos \<le> end"
    using assms by (cases "segments h") (auto simp: segs_ok_def)
  let ?sz = "if FCGI_HASH_SEG_SIZE < length s + 1 then length s + 1 else FCGI_HASH_SEG_SIZE"
  show ?thesis
  proof (cases "end \<le> pos + length s + 1")
    case True
    then show ?thesis using assms h
      by (auto simp: fcgi_hash_strndup_def segs_ok_def Let_def intro!: exI [of _ "(length s + 1, ?sz) # segments h"])
  next
    case False
    then show ?thesis using assms h
      by (intro exI [of _ "(pos + length s + 1, end) # rest"])
        (auto simp: fcgi_hash_strndup_def segs_ok_def Let_def split: if_splits)
  qed
qed

section \<open>Setting and deleting\<close>

lemma blocks_ok_push:
  assumes "blocks_ok bs n"
  defines "cs \<equiv> (if FCGI_HASH_TABLE_SIZE \<le> hd bs then 0 # bs else bs)"
  shows "hd cs < FCGI_HASH_TABLE_SIZE" and "blocks_ok (cs[0 := Suc (hd cs)]) (Suc n)" and "cs \<noteq> []"
  using assms by (cases bs; auto simp: blocks_ok_def FCGI_HASH_TABLE_SIZE_def)+

lemma set_old:
  assumes ok: "hash_ok h" and f: "find_bucket (arena h) hv v (chain_of h (slot_of hv)) = Some p"
  shows "\<exists>y u. fcgi_hash_set hv v x h = Some (y, u) \<and> hash_ok u
     \<and> (\<forall>hv' v'. fcgi_hash_get hv' v' u = (if (hv', v') = (hv, v) then Some x else fcgi_hash_get hv' v' h))"
proof -
  have ch: "chains_ok h" and sg: "segs_ok (segments h)" using ok by (simp_all add: hash_ok_def)
  obtain segs where segs: "fcgi_hash_strndup x h = Some (x, h\<lparr>segments := segs\<rparr>)" "segs_ok segs"
    using strndup_run [OF sg] by blast
  let ?u = "h\<lparr>segments := segs, arena := (arena h)[p := (arena h ! p)\<lparr>val := Some x\<rparr>]\<rparr>"
  have run: "fcgi_hash_set hv v x h = Some (x, ?u)"
    using f segs(1) chains_okD(1) [OF ch] by (simp add: fcgi_hash_set_def)
  note d = find_bucket_SomeD [OF f]
  have p: "p \<in> live h" "key_at h p = (hv, v)" using d chain_live [of p h hv] by (auto simp: key_at_def)
  have lv: "live ?u = live h" by (simp add: live_def)
  have ky: "key_at ?u q = key_at h q" for q using d by (cases "q = p") (auto simp: key_at_def)
  have vl: "val (arena ?u ! q) = (if q = p then Some x else val (arena h ! q))" for q using d by auto
  have hs: "hash_value (arena ?u ! q) = hash_value (arena h ! q)" for q using ky [of q] by (simp add: key_at_def)
  have "val (arena h ! p) \<noteq> None" using chains_okD(5) [OF ch] d p(1) by blast
  then have cu: "chains_ok ?u"
    using ch p(1) lv vl ky hs unfolding chains_ok_def by auto
  have "hash_ok ?u" using cu segs(2) ok by (simp add: hash_ok_def)
  moreover have "fcgi_hash_get hv' v' ?u = (if (hv', v') = (hv, v) then Some x else fcgi_hash_get hv' v' h)" for hv' v'
  proof (cases "(hv', v') = (hv, v)")
    case True
    then show ?thesis using get_at [OF cu, of p hv v] p lv ky vl by simp
  next
    case False
    have "fcgi_hash_get hv' v' ?u = fcgi_hash_get hv' v' h"
    proof (rule get_same [OF ch cu])
      show "val (arena ?u ! q) = val (arena h ! q)" if "q \<in> live h" "key_at h q = (hv', v')" for q
        using that p(2) False vl by auto
    qed (simp only: lv ky)
    then show ?thesis using False by (simp only: if_False)
  qed
  ultimately show ?thesis using run by blast
qed

lemma set_new:
  assumes ok: "hash_ok h" and f: "find_bucket (arena h) hv v (chain_of h (slot_of hv)) = None"
  shows "\<exists>y u. fcgi_hash_set hv v x h = Some (y, u) \<and> hash_ok u
     \<and> (\<forall>hv' v'. fcgi_hash_get hv' v' u = (if (hv', v') = (hv, v) then Some x else fcgi_hash_get hv' v' h))"
proof -
  have ch: "chains_ok h" and sg: "segs_ok (segments h)" and bl: "blocks_ok (block_idx h) (length (arena h))"
    using ok by (simp_all add: hash_ok_def)
  let ?i = "slot_of hv" and ?n = "length (arena h)"
  define cs where "cs = (if FCGI_HASH_TABLE_SIZE \<le> hd (block_idx h) then 0 # block_idx h else block_idx h)"
  note b = blocks_ok_push [OF bl, folded cs_def]
  let ?ix = "cs[0 := Suc (hd cs)]"
  let ?h = "h\<lparr>block_idx := ?ix, hash_table := (hash_table h)[?i := ?n # chain_of h ?i], hash_list := ?n # hash_list h\<rparr>"
  obtain s1 where s1: "fcgi_hash_strndup v ?h = Some (v, ?h\<lparr>segments := s1\<rparr>)" "segs_ok s1"
    using strndup_run [of ?h v] sg by auto
  obtain s2 where s2: "fcgi_hash_strndup x (?h\<lparr>segments := s1\<rparr>) = Some (x, ?h\<lparr>segments := s2\<rparr>)" "segs_ok s2"
    using strndup_run [of "?h\<lparr>segments := s1\<rparr>" x] s1(2) by auto
  let ?new = "\<lparr>hash_value = hv, var = v, val = Some x\<rparr>"
  let ?u = "?h\<lparr>segments := s2, arena := arena h @ [?new]\<rparr>"
  have nb: "block_idx h \<noteq> []" using bl by (simp add: blocks_ok_def)
  have hds: "nth_opt (block_idx h) 0 = Some (hd (block_idx h))" "nth_opt cs 0 = Some (hd cs)"
    using nb b(3) by (simp_all add: nth_opt_def hd_conv_nth)
  have run: "fcgi_hash_set hv v x h = Some (x, ?u)"
    using f s1(1) s2(1) chains_okD(1) [OF ch]
    by (simp add: fcgi_hash_set_def Let_def hds cs_def [symmetric] del: hd_conv_nth)
  have ix: "?i < length (hash_table h)" using chains_okD(1) [OF ch] by simp
  have chain: "chain_of ?u j = (if j = ?i then ?n # chain_of h ?i else chain_of h j)" for j
    using ix by (simp add: nth_list_update)
  have lv: "live ?u = insert ?n (live h)"
  proof (rule set_eqI)
    fix q
    have "set (chain_of ?u j) = (if j = ?i then insert ?n (set (chain_of h j)) else set (chain_of h j))" for j
      unfolding chain by simp
    then show "q \<in> live ?u \<longleftrightarrow> q \<in> insert ?n (live h)"
      unfolding live_def using slot_lt [of hv] by (simp only: mem_Collect_eq insert_iff) (metis insert_iff)
  qed
  have nn: "?n \<notin> live h" using liveD(1) [OF ch] by blast
  have old: "arena ?u ! q = arena h ! q" if "q < ?n" for q using that by (simp add: nth_append)
  have ky: "key_at ?u q = (if q = ?n then (hv, v) else key_at h q)" if "q \<le> ?n" for q
    using that by (cases "q = ?n") (auto simp: key_at_def nth_append)
  have lt: "q < ?n" if "q \<in> live h" for q using liveD(1) [OF ch that] .
  have nokey: "key_at h q \<noteq> (hv, v)" if "q \<in> live h" for q
    using find_bucket_NoneD [OF f] liveD [OF ch that] by (auto simp: key_at_def)
  have inlive: "q \<in> live h" if "j < FCGI_HASH_TABLE_SIZE" "q \<in> set (chain_of h j)" for j q
    using that by (auto simp: live_def)
  have c1: "distinct (chain_of ?u j) \<and> (\<forall>p \<in> set (chain_of ?u j). p < length (arena ?u) \<and> slot_of (hash_value (arena ?u ! p)) = j)"
    if j: "j < FCGI_HASH_TABLE_SIZE" for j
  proof -
    have "?n \<notin> set (chain_of h j)" using nn j by (auto simp: live_def)
    then show ?thesis
      using chains_okD(2,3) [OF ch j] unfolding chain by (auto simp: nth_append less_Suc_eq)
  qed
  have kn: "key_at ?u ?n = (hv, v)" and ko: "key_at ?u q = key_at h q" if "q \<in> live h" for q
    using ky [of ?n] ky [of q] lt [OF that] by auto
  have c2: "p = q" if P: "p \<in> live ?u" and Q: "q \<in> live ?u" and E: "key_at ?u p = key_at ?u q" for p q
  proof (cases "p = ?n \<or> q = ?n")
    case True
    then show ?thesis using P Q E nokey kn ko ky [of ?n] unfolding lv by (metis insert_iff order_refl)
  next
    case False
    then have "p \<in> live h" "q \<in> live h" using P Q unfolding lv by simp_all
    then show ?thesis using E ko chains_okD(4) [OF ch] by simp
  qed
  have c3: "p \<in> live ?u \<longleftrightarrow> val (arena ?u ! p) \<noteq> None" if "p < length (arena ?u)" for p
    using that chains_okD(5) [OF ch, of p] nn unfolding lv by (cases "p = ?n") (auto simp: nth_append)
  have cu: "chains_ok ?u"
    unfolding chains_ok_def
  proof (intro conjI allI impI ballI)
    show "length (hash_table ?u) = FCGI_HASH_TABLE_SIZE" using chains_okD(1) [OF ch] by simp
    show "hash_list ?u = rev [0..<length (arena ?u)]" using chains_okD(6) [OF ch] by simp
  qed (use c1 c2 c3 in blast)+
  have "hash_ok ?u" using cu s2(2) b(2) by (simp add: hash_ok_def)
  moreover have "fcgi_hash_get hv' v' ?u = (if (hv', v') = (hv, v) then Some x else fcgi_hash_get hv' v' h)" for hv' v'
  proof (cases "(hv', v') = (hv, v)")
    case True
    have "?n \<in> live ?u" "key_at ?u ?n = (hv, v)" "val (arena ?u ! ?n) = Some x"
      unfolding lv by (simp_all add: key_at_def)
    then show ?thesis using True get_at [OF cu, of ?n hv v] by simp
  next
    case False
    have "fcgi_hash_get hv' v' ?u = fcgi_hash_get hv' v' h"
    proof (rule get_same [OF ch cu])
      show "q \<in> live ?u \<and> key_at ?u q = (hv', v') \<longleftrightarrow> q \<in> live h \<and> key_at h q = (hv', v')" for q
        using ky [of q] lt [of q] nn False unfolding lv by (cases "q = ?n") auto
      show "val (arena ?u ! q) = val (arena h ! q)" if "q \<in> live h" for q
        using old [OF lt [OF that]] by simp
    qed
    then show ?thesis using False by (simp only: if_False)
  qed
  ultimately show ?thesis using run by blast
qed

lemma set_run:
  assumes "hash_ok h"
  shows "\<exists>y u. fcgi_hash_set hv v x h = Some (y, u) \<and> hash_ok u
     \<and> (\<forall>hv' v'. fcgi_hash_get hv' v' u = (if (hv', v') = (hv, v) then Some x else fcgi_hash_get hv' v' h))"
  using set_old [OF assms, of hv v _ x] set_new [OF assms, of hv v x]
  by (cases "find_bucket (arena h) hv v (chain_of h (slot_of hv))") blast+

lemma del_run:
  assumes ok: "hash_ok h"
  shows "\<exists>u. fcgi_hash_del hv v h = Some u \<and> hash_ok u
     \<and> (\<forall>hv' v'. fcgi_hash_get hv' v' u = (if (hv', v') = (hv, v) then None else fcgi_hash_get hv' v' h))"
proof -
  have ch: "chains_ok h" using ok by (simp add: hash_ok_def)
  let ?i = "slot_of hv"
  show ?thesis
  proof (cases "find_bucket (arena h) hv v (chain_of h ?i)")
    case None
    have "fcgi_hash_get hv v h = None"
      using None by (simp add: fcgi_hash_get_def chains_okD(1) [OF ch])
    then show ?thesis using None ok chains_okD(1) [OF ch] by (simp add: fcgi_hash_del_def)
  next
    case (Some p)
    let ?u = "h\<lparr>arena := (arena h)[p := (arena h ! p)\<lparr>val := None\<rparr>],
              hash_table := (hash_table h)[?i := remove1 p (chain_of h ?i)]\<rparr>"
    have run: "fcgi_hash_del hv v h = Some ?u"
      using Some chains_okD(1) [OF ch] by (simp add: fcgi_hash_del_def Let_def)
    note d = find_bucket_SomeD [OF Some]
    have p: "p \<in> live h" "key_at h p = (hv, v)" using d chain_live [of p h hv] by (auto simp: key_at_def)
    have ix: "?i < length (hash_table h)" using chains_okD(1) [OF ch] by simp
    have chain: "set (chain_of ?u j) = set (chain_of h j) - {p}" if "j < FCGI_HASH_TABLE_SIZE" for j
    proof (cases "j = ?i")
      case True
      then show ?thesis using ix chains_okD(2) [OF ch, of ?i] by (simp add: set_remove1_eq)
    next
      case False
      then have "p \<notin> set (chain_of h j)" using chains_okD(3) [OF ch that, of p] d by auto
      then show ?thesis using False by simp
    qed
    have dist: "distinct (chain_of ?u j)" if "j < FCGI_HASH_TABLE_SIZE" for j
      using chains_okD(2) [OF ch that] ix by (cases "j = ?i") simp_all
    have lv: "live ?u = live h - {p}" unfolding live_def using chain by blast
    have ky: "key_at ?u q = key_at h q" for q using d by (cases "q = p") (auto simp: key_at_def)
    have hs: "hash_value (arena ?u ! q) = hash_value (arena h ! q)" for q using ky [of q] by (simp add: key_at_def)
    have vl: "val (arena ?u ! q) = (if q = p then None else val (arena h ! q))" for q using d by auto
    have cu: "chains_ok ?u"
      unfolding chains_ok_def
    proof (intro conjI allI impI ballI)
      show "length (hash_table ?u) = FCGI_HASH_TABLE_SIZE" using chains_okD(1) [OF ch] by simp
      show "hash_list ?u = rev [0..<length (arena ?u)]" using chains_okD(6) [OF ch] by simp
      show "a = b" if "a \<in> live ?u" "b \<in> live ?u" "key_at ?u a = key_at ?u b" for a b
        using that chains_okD(4) [OF ch, of a b] unfolding lv ky by blast
      show "a \<in> live ?u \<longleftrightarrow> val (arena ?u ! a) \<noteq> None" if "a < length (arena ?u)" for a
        using that chains_okD(5) [OF ch, of a] unfolding lv vl by auto
      show "distinct (chain_of ?u j)" if "j < FCGI_HASH_TABLE_SIZE" for j using dist that .
      show "a < length (arena ?u)" if "j < FCGI_HASH_TABLE_SIZE" "a \<in> set (chain_of ?u j)" for j a
        using that chains_okD(3) [OF ch, of j a] chain by simp
      show "slot_of (hash_value (arena ?u ! a)) = j" if "j < FCGI_HASH_TABLE_SIZE" "a \<in> set (chain_of ?u j)" for j a
        using that chains_okD(3) [OF ch, of j a] chain unfolding hs by simp
    qed
    have "hash_ok ?u" using cu ok by (simp add: hash_ok_def)
    moreover have "fcgi_hash_get hv' v' ?u = (if (hv', v') = (hv, v) then None else fcgi_hash_get hv' v' h)" for hv' v'
    proof (cases "(hv', v') = (hv, v)")
      case True
      have "fcgi_hash_get hv v ?u = None"
        using chains_okD(4) [OF ch _ p(1)] p(2) by (intro get_none [OF cu]) (auto simp only: lv ky)
      then show ?thesis using True by simp
    next
      case False
      have "fcgi_hash_get hv' v' ?u = fcgi_hash_get hv' v' h"
      proof (rule get_same [OF ch cu])
        show "q \<in> live ?u \<and> key_at ?u q = (hv', v') \<longleftrightarrow> q \<in> live h \<and> key_at h q = (hv', v')" for q
          using False p(2) unfolding lv ky by auto
        show "val (arena ?u ! q) = val (arena h ! q)" if "key_at h q = (hv', v')" for q
          using that p(2) False vl by auto
      qed
      then show ?thesis using False by (simp only: if_False)
    qed
    ultimately show ?thesis using run by blast
  qed
qed

interpretation request_env: env_table hash_ok "\<lambda>(hv, v). fcgi_hash_get hv v"
  "\<lambda>(hv, v) x h. map_option snd (fcgi_hash_set hv v x h)" "\<lambda>(hv, v). fcgi_hash_del hv v"
proof
  fix h :: fcgi_hash and k :: "32 word \<times> byte list" and x :: "byte list"
  assume ok: "hash_ok h"
  obtain hv v where k: "k = (hv, v)" by (cases k)
  show "\<exists>u. (case k of (hv, v) \<Rightarrow> \<lambda>x h. map_option snd (fcgi_hash_set hv v x h)) x h = Some u \<and> hash_ok u
     \<and> (\<forall>j. (case j of (hv, v) \<Rightarrow> fcgi_hash_get hv v) u
           = (if j = k then Some x else (case j of (hv, v) \<Rightarrow> fcgi_hash_get hv v) h))"
    using set_run [OF ok, of hv v x] unfolding k by auto
  show "\<exists>u. (case k of (hv, v) \<Rightarrow> fcgi_hash_del hv v) h = Some u \<and> hash_ok u
     \<and> (\<forall>j. (case j of (hv, v) \<Rightarrow> fcgi_hash_get hv v) u
           = (if j = k then None else (case j of (hv, v) \<Rightarrow> fcgi_hash_get hv v) h))"
    using del_run [OF ok, of hv v] unfolding k by auto
qed

section \<open>Starting empty, and applying a function to all variables\<close>

lemma empty_live [simp]: "hash_table h = replicate FCGI_HASH_TABLE_SIZE [] \<Longrightarrow> live h = {}"
  by (auto simp: live_def)

lemma init_ok [simp]: "hash_ok fcgi_hash_init"
  by (simp add: hash_ok_def chains_ok_def fcgi_hash_init_def segs_ok_def blocks_ok_def)

lemma clean_run:
  assumes "hash_ok h"
  shows "\<exists>u. fcgi_hash_clean h = Some u \<and> hash_ok u \<and> (\<forall>hv v. fcgi_hash_get hv v u = None)
     \<and> segments u = [(0, snd (last (segments h)))]"
proof -
  have first: "all_but_first xs = (if xs = [] then None else Some (last xs))" for xs :: "'a list"
    by (induction xs rule: all_but_first.induct) auto
  have "segments h \<noteq> []" "block_idx h \<noteq> []" "FCGI_HASH_SEG_SIZE \<le> snd (last (segments h))"
    using assms by (auto simp: hash_ok_def segs_ok_def blocks_ok_def)
  then show ?thesis
    by (auto simp: fcgi_hash_clean_def first hash_ok_def chains_ok_def segs_ok_def blocks_ok_def fcgi_hash_get_def
        split: prod.splits)
qed

lemma apply_from_set:
  "set (apply_from bs ps) = {(var (bs ! p), x) |p x. p \<in> set ps \<and> val (bs ! p) = Some x}"
  by (induction ps) (auto split: option.splits)

lemma apply_iff:
  assumes "hash_ok h"
  shows "(v, x) \<in> set (fcgi_hash_apply h) \<longleftrightarrow> (\<exists>hv. fcgi_hash_get hv v h = Some x)"
proof -
  have ch: "chains_ok h" using assms by (simp add: hash_ok_def)
  have "(v, x) \<in> set (fcgi_hash_apply h) \<longleftrightarrow> (\<exists>p < length (arena h). var (arena h ! p) = v \<and> val (arena h ! p) = Some x)"
    unfolding fcgi_hash_apply_def apply_from_set chains_okD(6) [OF ch] by auto
  also have "\<dots> \<longleftrightarrow> (\<exists>p \<in> live h. var (arena h ! p) = v \<and> val (arena h ! p) = Some x)"
    using chains_okD(5) [OF ch] liveD(1) [OF ch] by auto
  also have "\<dots> \<longleftrightarrow> (\<exists>hv. fcgi_hash_get hv v h = Some x)"
    unfolding get_iff [OF ch] by (auto simp: key_at_def)
  finally show ?thesis .
qed

end
