(* ===== verification/Fcgi_Wire.thy ===== *)
theory Fcgi_Wire
  imports Fcgi_Hash_Lemmas
begin

text \<open>
  Reading a FastCGI request (main/fastcgi.c): the record headers, the encoding of names and values,
  the request with its environment, and the body. What has arrived on the connection is the list
  \<open>inb\<close>; \<open>rd n k\<close> is how many bytes libevent's \<open>bufferevent_read\<close> hands out when \<open>n\<close> are asked for
  and \<open>k\<close> are there. The buffer on the stack is a list whose first contents are arbitrary.
\<close>

section \<open>Records\<close>

record fcgi_header =
  version :: byte
  hdr_type :: byte
  requestIdB1 :: byte
  requestIdB0 :: byte
  contentLengthB1 :: byte
  contentLengthB0 :: byte
  paddingLength :: byte
  hdr_reserved :: byte

datatype fcgi_request_type =
    FCGI_BEGIN_REQUEST | FCGI_ABORT_REQUEST | FCGI_END_REQUEST | FCGI_PARAMS | FCGI_STDIN | FCGI_STDOUT
  | FCGI_STDERR | FCGI_DATA | FCGI_GET_VALUES | FCGI_GET_VALUES_RESULT

primrec type_code :: "fcgi_request_type \<Rightarrow> byte" where
  "type_code FCGI_BEGIN_REQUEST = 1"
| "type_code FCGI_ABORT_REQUEST = 2"
| "type_code FCGI_END_REQUEST = 3"
| "type_code FCGI_PARAMS = 4"
| "type_code FCGI_STDIN = 5"
| "type_code FCGI_STDOUT = 6"
| "type_code FCGI_STDERR = 7"
| "type_code FCGI_DATA = 8"
| "type_code FCGI_GET_VALUES = 9"
| "type_code FCGI_GET_VALUES_RESULT = 10"

definition FCGI_VERSION_1 :: byte where
  "FCGI_VERSION_1 = 1"

definition FCGI_MAX_LENGTH :: nat where
  "FCGI_MAX_LENGTH = 65535"

definition header_bytes :: "fcgi_header \<Rightarrow> byte list" where
  "header_bytes h = [version h, hdr_type h, requestIdB1 h, requestIdB0 h, contentLengthB1 h,
     contentLengthB0 h, paddingLength h, hdr_reserved h]"

definition header_of :: "byte list \<Rightarrow> fcgi_header" where
  "header_of b = \<lparr>version = b ! 0, hdr_type = b ! 1, requestIdB1 = b ! 2, requestIdB0 = b ! 3,
     contentLengthB1 = b ! 4, contentLengthB0 = b ! 5, paddingLength = b ! 6, hdr_reserved = b ! 7\<rparr>"

text \<open>The two-byte numbers of a header.\<close>

definition be16 :: "byte \<Rightarrow> byte \<Rightarrow> nat" where
  "be16 b1 b0 = unat b1 * 256 + unat b0"

abbreviation content_length :: "fcgi_header \<Rightarrow> nat" where
  "content_length h \<equiv> be16 (contentLengthB1 h) (contentLengthB0 h)"

abbreviation padding_length :: "fcgi_header \<Rightarrow> nat" where
  "padding_length h \<equiv> unat (paddingLength h)"

text \<open>A store of bytes into a buffer; outside of it, it is undefined.\<close>

definition write_at :: "nat \<Rightarrow> byte list \<Rightarrow> byte list \<Rightarrow> byte list option" where
  "write_at pos bs buf =
     (if pos + length bs \<le> length buf then Some (take pos buf @ bs @ drop (pos + length bs) buf) else None)"

text \<open>Rounding up to a multiple of eight: \<open>(len + 7) & ~7\<close>.\<close>

definition padding_of :: "nat \<Rightarrow> nat" where
  "padding_of len = (len + 7) div 8 * 8 - len"

definition new_header :: "byte \<Rightarrow> int \<Rightarrow> nat \<Rightarrow> fcgi_header" where
  "new_header ty req_id len = \<lparr>version = FCGI_VERSION_1, hdr_type = ty,
     requestIdB1 = word_of_int (req_id div 256), requestIdB0 = word_of_int req_id,
     contentLengthB1 = of_nat (len div 256), contentLengthB0 = of_nat len,
     paddingLength = of_nat (padding_of len), hdr_reserved = 0\<rparr>"

definition fcgi_make_header :: "nat \<Rightarrow> byte \<Rightarrow> int \<Rightarrow> nat \<Rightarrow> byte list \<Rightarrow> (nat \<times> byte list) option" where
  "fcgi_make_header hdr ty req_id len buf = do {
     let pad = padding_of len;
     buf \<leftarrow> write_at hdr (header_bytes (new_header ty req_id len)) buf;
     buf \<leftarrow> (if pad \<noteq> 0 then write_at (hdr + 8 + len) (replicate pad 0) buf else Some buf);
     Some (pad, buf)
   }"

section \<open>The request\<close>

datatype fcgi_hook = On_accept | On_read | On_close

text \<open>What a call of \<open>write\<close> comes to: so many bytes were taken, it was interrupted, or it failed.\<close>

datatype write_result = Took nat | Interrupted | Failed

record fcgi_request =
  listen_socket :: int
  fd :: int
  req_id :: int
  keep :: bool
  ended :: bool
  in_len :: nat
  in_pad :: nat
  out_hdr :: "nat option"
  out_pos :: nat
  out_buf :: "byte list"
  has_env :: bool
  env :: fcgi_hash
  inb :: "byte list"
  sent :: "byte list"
  socket :: "write_result list"
  hooks :: "fcgi_hook list"

text \<open>\<open>out_buf\<close> with the \<open>reserved\<close> bytes behind it.\<close>

definition out_size :: nat where
  "out_size = 8192"

definition fcgi_init_request :: "int \<Rightarrow> fcgi_request" where
  "fcgi_init_request listen = \<lparr>listen_socket = listen, fd = -1, req_id = -1, keep = False, ended = False,
     in_len = 0, in_pad = 0, out_hdr = None, out_pos = 0, out_buf = replicate (out_size + 16) 0,
     has_env = False, env = fcgi_hash_init, inb = [], sent = [], socket = [], hooks = []\<rparr>"

definition fcgi_destroy_request :: "fcgi_request \<Rightarrow> fcgi_request" where
  "fcgi_destroy_request r = r\<lparr>env := fcgi_hash_destroy (env r)\<rparr>"

definition fcgi_has_env :: "fcgi_request option \<Rightarrow> bool" where
  "fcgi_has_env r = (case r of None \<Rightarrow> False | Some r \<Rightarrow> has_env r)"

definition fcgi_is_closed :: "fcgi_request \<Rightarrow> bool" where
  "fcgi_is_closed r = (fd r < 0)"

definition fcgi_set_fd :: "int \<Rightarrow> fcgi_request \<Rightarrow> fcgi_request" where
  "fcgi_set_fd d r = r\<lparr>fd := d\<rparr>"

definition fcgi_get_fd :: "fcgi_request \<Rightarrow> int" where
  "fcgi_get_fd r = fd r"

section \<open>Reading bytes\<close>

type_synonym reader = "nat \<Rightarrow> nat \<Rightarrow> nat"

text \<open>The loop of \<open>safe_read\<close>: \<open>rest\<close> bytes are still wanted; a read never leaves an error code.\<close>

fun safe_read_loop :: "reader \<Rightarrow> nat \<Rightarrow> byte list \<Rightarrow> byte list \<Rightarrow> byte list \<times> byte list" where
  "safe_read_loop rd rest bs acc =
     (let ret = rd rest (length bs) in
      if ret = 0 then (acc, bs)
      else if rest \<le> ret then (acc @ take ret bs, drop ret bs)
      else safe_read_loop rd (rest - ret) (drop ret bs) (acc @ take ret bs))"

declare safe_read_loop.simps [simp del]

definition safe_read :: "reader \<Rightarrow> nat \<Rightarrow> fcgi_request \<Rightarrow> byte list \<times> fcgi_request" where
  "safe_read rd count r = (let (bs, rest) = safe_read_loop rd count (inb r) [] in (bs, r\<lparr>inb := rest\<rparr>))"

text \<open>Reading a header; \<open>None\<close> when it is not whole or of no known version.\<close>

definition read_header :: "reader \<Rightarrow> fcgi_request \<Rightarrow> fcgi_header option \<times> fcgi_request" where
  "read_header rd r =
     (let (bs, r) = safe_read rd 8 r in
      (if length bs \<noteq> 8 \<or> version (header_of bs) < FCGI_VERSION_1 then None else Some (header_of bs), r))"

text \<open>Reading into the buffer.\<close>

definition read_into :: "reader \<Rightarrow> nat \<Rightarrow> byte list \<Rightarrow> fcgi_request \<Rightarrow> nat \<times> byte list \<times> fcgi_request" where
  "read_into rd count buf r =
     (let (bs, r) = safe_read rd count r in (length bs, bs @ drop (length bs) buf, r))"

lemma safe_read_loop_parts:
  "safe_read_loop rd n bs acc = (out, rest) \<Longrightarrow> \<exists>k. out = acc @ take k bs \<and> rest = drop k bs"
proof (induction rd n bs acc rule: safe_read_loop.induct)
  case (1 rd n bs acc)
  let ?k = "rd n (length bs)"
  consider "?k = 0" | "?k \<noteq> 0" "n \<le> ?k" | "?k \<noteq> 0" "\<not> n \<le> ?k" by blast
  then show ?case
  proof cases
    case 1
    then show ?thesis using "1.prems"
      by (subst (asm) safe_read_loop.simps) (auto simp: Let_def intro: exI [of _ 0])
  next
    case 2
    then show ?thesis using "1.prems" by (subst (asm) safe_read_loop.simps) (auto simp: Let_def)
  next
    case 3
    then have "safe_read_loop rd (n - ?k) (drop ?k bs) (acc @ take ?k bs) = (out, rest)"
      using "1.prems" by (subst (asm) safe_read_loop.simps) (simp add: Let_def)
    from "1.IH" [OF refl 3 this] obtain k where
      "out = (acc @ take ?k bs) @ take k (drop ?k bs)" "rest = drop k (drop ?k bs)" by blast
    then show ?thesis by (intro exI [of _ "?k + k"]) (simp add: take_add add.commute [of k])
  qed
qed

lemma safe_read_parts:
  "safe_read rd n r = (bs, u) \<Longrightarrow> inb r = bs @ inb u \<and> u = r\<lparr>inb := inb u\<rparr>"
  using safe_read_loop_parts [of rd n "inb r" "[]"] by (fastforce simp: safe_read_def split: prod.splits)

lemma read_header_less: "read_header rd r = (Some h, u) \<Longrightarrow> length (inb u) < length (inb r)"
  using safe_read_parts [of rd 8 r] by (fastforce simp: read_header_def split: prod.splits if_splits)

lemma read_into_less: "read_into rd n buf r = (k, buf', u) \<Longrightarrow> length (inb u) + k = length (inb r)"
  using safe_read_parts [of rd n r] by (fastforce simp: read_into_def split: prod.splits)

section \<open>Names and values\<close>

text \<open>A length: one byte, or four with the top bit set.\<close>

definition long_length :: "byte \<Rightarrow> byte \<Rightarrow> byte \<Rightarrow> byte \<Rightarrow> 32 word" where
  "long_length b p q s = push_bit 24 (ucast (b AND 127)) OR push_bit 16 (ucast p) OR push_bit 8 (ucast q) OR ucast s"

fun get_length :: "byte list \<Rightarrow> (32 word \<times> byte list) option" where
  "get_length [] = None"
| "get_length (b # p) =
     (if 128 \<le> b
      then (if length p \<le> 3 then None
            else Some (long_length b (p ! 0) (p ! 1) (p ! 2), drop 3 p))
      else Some (ucast b, p))"

lemma get_length_less: "get_length p = Some (n, q) \<Longrightarrow> length q < length p"
  by (cases p) (auto split: if_splits)

text \<open>
  The loop over the names and values in \<open>p\<close>; \<open>aft\<close> is the byte in the buffer behind its end. The
  result is the code's 1 or 0.
\<close>

function fcgi_get_params :: "byte \<Rightarrow> byte list \<Rightarrow> fcgi_hash \<Rightarrow> (bool \<times> fcgi_hash) option" where
  "fcgi_get_params aft p h =
     (if p = [] then Some (True, h)
      else case get_length p of
        None \<Rightarrow> Some (False, h)
      | Some (name_len, q) \<Rightarrow>
          (case get_length q of
             None \<Rightarrow> Some (False, h)
           | Some (val_len, q) \<Rightarrow>
               if name_len + val_len > of_nat (length q) then Some (False, h)
               else do {
                 let name = take (unat name_len) q;
                 let nxt = hd (drop (unat name_len) q @ [aft]);
                 let value = take (unat val_len) (drop (unat name_len) q);
                 (_, h) \<leftarrow> fcgi_hash_set (FCGI_HASH_FUNC from_uchar name nxt) name value h;
                 fcgi_get_params aft (drop (unat (name_len + val_len)) q) h
               }))"
  by pat_completeness auto
termination
  by (relation "measure (\<lambda>(aft, p, h). length p)") (auto dest!: get_length_less)

declare fcgi_get_params.simps [simp del]

text \<open>The encoding of a length, as in the answer to a request for values.\<close>

definition put_length :: "nat \<Rightarrow> byte list" where
  "put_length n =
     (if n < 128 then [of_nat n]
      else [of_nat (n div 2 ^ 24) OR 128, of_nat (n div 2 ^ 16), of_nat (n div 2 ^ 8), of_nat n])"

section \<open>Reading a request\<close>

definition FCGI_ROLE :: "byte list" where
  "FCGI_ROLE = map (of_nat \<circ> of_char) ''FCGI_ROLE''"

definition role_name :: "nat \<Rightarrow> byte list option" where
  "role_name role =
     (if role = 1 then Some (map (of_nat \<circ> of_char) ''RESPONDER'')
      else if role = 2 then Some (map (of_nat \<circ> of_char) ''AUTHORIZER'')
      else if role = 3 then Some (map (of_nat \<circ> of_char) ''FILTER'')
      else None)"

text \<open>Skipping empty records of the body of an earlier request.\<close>

function skip_stdin :: "reader \<Rightarrow> fcgi_header \<Rightarrow> fcgi_request \<Rightarrow> fcgi_header option \<times> fcgi_request" where
  "skip_stdin rd hdr r =
     (if hdr_type hdr = type_code FCGI_STDIN \<and> content_length hdr = 0
      then (case read_header rd r of
              (None, r) \<Rightarrow> (None, r)
            | (Some hdr, r) \<Rightarrow> skip_stdin rd hdr r)
      else (Some hdr, r))"
  by pat_completeness auto
termination
  by (relation "measure (\<lambda>(rd, hdr, r). length (inb r))") (auto dest!: read_header_less [OF sym])

declare skip_stdin.simps [simp del]

function read_params :: "reader \<Rightarrow> fcgi_header \<Rightarrow> byte list \<Rightarrow> fcgi_request \<Rightarrow> (bool \<times> fcgi_request) option" where
  "read_params rd hdr buf r =
     (let len = content_length hdr; padding = padding_length hdr in
      if hdr_type hdr = type_code FCGI_PARAMS \<and> 0 < len then
        if FCGI_MAX_LENGTH < len + padding then Some (False, r)
        else (case read_into rd (len + padding) buf r of
          (n, buf, r) \<Rightarrow>
            if n \<noteq> len + padding then Some (False, r\<lparr>keep := False\<rparr>)
            else (case fcgi_get_params (buf ! len) (take len buf) (env r) of
                None \<Rightarrow> None
              | Some (ok, h) \<Rightarrow>
                  if \<not> ok then Some (False, r\<lparr>env := h, keep := False\<rparr>)
                  else (case read_header rd (r\<lparr>env := h\<rparr>) of
                      (None, r) \<Rightarrow> Some (False, r\<lparr>keep := False\<rparr>)
                    | (Some hdr, r) \<Rightarrow> read_params rd hdr buf r)))
      else Some (True, r))"
  by pat_completeness auto
termination
proof (relation "measure (\<lambda>(rd, hdr, buf, r). length (inb r))")
  show "wf (measure (\<lambda>(rd, hdr, buf, r). length (inb r)))" by simp
qed (auto dest!: read_header_less [OF sym] read_into_less [OF sym])

declare read_params.simps [simp del]

text \<open>
  The table of the variables a client may ask for: the first value that is set for a name stays
  (\<open>zend_hash_str_add\<close>). \<open>fcgi_init\<close> sets one; the function that would set two more is compiled out.
\<close>

definition fcgi_set_mgmt_var :: "byte list \<Rightarrow> byte list \<Rightarrow> (byte list \<rightharpoonup> byte list) \<Rightarrow> (byte list \<rightharpoonup> byte list)" where
  "fcgi_set_mgmt_var name value vars = (if name \<in> dom vars then vars else vars(name \<mapsto> value))"

definition fcgi_mgmt_vars :: "byte list \<rightharpoonup> byte list" where
  "fcgi_mgmt_vars = fcgi_set_mgmt_var (map (of_nat \<circ> of_char) ''FCGI_MPXS_CONNS'') (map (of_nat \<circ> of_char) ''0'') Map.empty"

text \<open>The answer to a request for values: as many pairs as fit behind the header.\<close>

fun put_values :: "(byte list \<rightharpoonup> byte list) \<Rightarrow> fcgi_hash_bucket list \<Rightarrow> nat list \<Rightarrow> nat \<Rightarrow> byte list \<Rightarrow> (nat \<times> byte list) option" where
  "put_values vars bs [] p buf = Some (p, buf)"
| "put_values vars bs (q # qs) p buf =
     (case vars (var (bs ! q)) of
        None \<Rightarrow> put_values vars bs qs p buf
      | Some value \<Rightarrow>
          let name = var (bs ! q); n = length name; zlen = length value in
          if FCGI_MAX_LENGTH + 8 \<le> p + 4 + 4 + n + zlen then Some (p, buf)
          else do {
            let lens = put_length n @ put_length zlen;
            buf \<leftarrow> write_at p lens buf;
            let p = p + length lens;
            buf \<leftarrow> write_at p name buf;
            buf \<leftarrow> write_at (p + n) value buf;
            put_values vars bs qs (p + n + zlen) buf
          })"

section \<open>Writing bytes\<close>

text \<open>
  The loop of \<open>safe_write\<close>. A socket with no more results listed takes what it is given. The result is
  the number of bytes written, or -1.
\<close>

fun safe_write :: "byte list \<Rightarrow> nat \<Rightarrow> write_result list \<Rightarrow> byte list \<Rightarrow> int \<times> write_result list \<times> byte list" where
  "safe_write bs n [] out = (int (n + length bs), [], out @ bs)"
| "safe_write bs n (Took k # rs) out =
     (if length bs \<le> k then (int (n + length bs), rs, out @ bs)
      else safe_write (drop k bs) (n + k) rs (out @ take k bs))"
| "safe_write bs n (Interrupted # rs) out = safe_write bs n rs out"
| "safe_write bs n (Failed # rs) out = (-1, rs, out)"

definition send_all :: "byte list \<Rightarrow> fcgi_request \<Rightarrow> bool \<times> fcgi_request" where
  "send_all bs r =
     (let (ret, rs, out) = safe_write bs 0 (socket r) (sent r) in
      (ret = int (length bs), r\<lparr>socket := rs, sent := out\<rparr>))"

section \<open>The request as a whole\<close>

definition get_values :: "reader \<Rightarrow> (byte list \<rightharpoonup> byte list) \<Rightarrow> fcgi_header \<Rightarrow> byte list \<Rightarrow> fcgi_request
    \<Rightarrow> (bool \<times> fcgi_request) option" where
  "get_values rd vars hdr buf r =
     (let len = content_length hdr; padding = padding_length hdr in
      case read_into rd (len + padding) buf r of (n, buf, r) \<Rightarrow>
      if n \<noteq> len + padding then Some (False, r\<lparr>keep := False\<rparr>)
      else (case fcgi_get_params (buf ! len) (take len buf) (env r) of
          None \<Rightarrow> None
        | Some (ok, h) \<Rightarrow>
            if \<not> ok then Some (False, r\<lparr>env := h, keep := False\<rparr>)
            else do {
              let r = r\<lparr>env := h\<rparr>;
              (p, buf) \<leftarrow> put_values vars (arena h) (hash_list h) 8 buf;
              let len = p - 8;
              (pad, buf) \<leftarrow> fcgi_make_header 0 (type_code FCGI_GET_VALUES_RESULT) 0 len buf;
              let (ok, r) = send_all (take (8 + len + pad) buf) r;
              Some (False, if ok then r else r\<lparr>keep := False\<rparr>)
            }))"

definition begin_request :: "reader \<Rightarrow> fcgi_header \<Rightarrow> byte list \<Rightarrow> fcgi_request \<Rightarrow> (bool \<times> fcgi_request) option" where
  "begin_request rd hdr buf r =
     (let len = content_length hdr; padding = padding_length hdr in
      case read_into rd (len + padding) buf r of (n, buf, r) \<Rightarrow>
      if n \<noteq> len + padding then Some (False, r)
      else do {
        let r = r\<lparr>keep := bit (buf ! 2) 0\<rparr>;
        case role_name (be16 (buf ! 0) (buf ! 1)) of
          None \<Rightarrow> Some (False, r)
        | Some role \<Rightarrow> do {
            (_, h) \<leftarrow> fcgi_hash_set (FCGI_HASH_FUNC from_char FCGI_ROLE 0) FCGI_ROLE role (env r);
            case read_header rd (r\<lparr>env := h\<rparr>) of
              (None, r) \<Rightarrow> Some (False, r)
            | (Some hdr, r) \<Rightarrow> read_params rd hdr buf r
          }
      })"

definition fcgi_read_request :: "reader \<Rightarrow> (byte list \<rightharpoonup> byte list) \<Rightarrow> byte list \<Rightarrow> fcgi_request
    \<Rightarrow> (bool \<times> fcgi_request) option" where
  "fcgi_read_request rd vars buf r = do {
     let r = r\<lparr>keep := False, ended := False, in_len := 0, out_hdr := None, out_pos := 0\<rparr>;
     r \<leftarrow> (if has_env r then map_option (\<lambda>h. r\<lparr>env := h\<rparr>) (fcgi_hash_clean (env r))
           else Some (r\<lparr>has_env := True\<rparr>));
     case read_header rd r of
       (None, r) \<Rightarrow> Some (False, r)
     | (Some hdr, r) \<Rightarrow>
         (case skip_stdin rd hdr r of
            (None, r) \<Rightarrow> Some (False, r)
          | (Some hdr, r) \<Rightarrow>
              if FCGI_MAX_LENGTH < content_length hdr + padding_length hdr then Some (False, r)
              else do {
                let r = r\<lparr>req_id := int (be16 (requestIdB1 hdr) (requestIdB0 hdr))\<rparr>;
                if hdr_type hdr = type_code FCGI_BEGIN_REQUEST \<and> content_length hdr = 8
                then begin_request rd hdr buf r
                else if hdr_type hdr = type_code FCGI_GET_VALUES then get_values rd vars hdr buf r
                else Some (False, r)
              })
   }"

text \<open>What the read handler of the engine calls: whether the request was read whole is not looked at.\<close>

definition init_request_callback :: "reader \<Rightarrow> (byte list \<rightharpoonup> byte list) \<Rightarrow> byte list \<Rightarrow> fcgi_request \<Rightarrow> fcgi_request option" where
  "init_request_callback rd vars buf r =
     map_option snd (fcgi_read_request rd vars buf (r\<lparr>hooks := hooks r @ [On_accept, On_read]\<rparr>))"

section \<open>Reading the body\<close>

text \<open>
  The loop of \<open>fcgi_read\<close>: \<open>n\<close> bytes, \<open>acc\<close>, are copied, \<open>rest\<close> more are wanted. A read never fails,
  so a negative result does not occur.
\<close>

function fcgi_read_loop :: "reader \<Rightarrow> nat \<Rightarrow> byte list \<Rightarrow> fcgi_request \<Rightarrow> nat \<times> byte list \<times> fcgi_request" where
  "fcgi_read_loop rd rest acc r =
     (if rest = 0 then (length acc, acc, r)
      else
        let (go, r) =
          (if in_len r \<noteq> 0 then (Some True, r)
           else (case read_header rd r of
                   (None, r) \<Rightarrow> (None, r\<lparr>keep := False\<rparr>)
                 | (Some hdr, r) \<Rightarrow>
                     if hdr_type hdr \<noteq> type_code FCGI_STDIN then (None, r\<lparr>keep := False\<rparr>)
                     else (Some (content_length hdr \<noteq> 0),
                           r\<lparr>in_len := content_length hdr, in_pad := padding_length hdr\<rparr>)))
        in case go of
          None \<Rightarrow> (0, acc, r)
        | Some False \<Rightarrow> (length acc, acc, r)
        | Some True \<Rightarrow>
            (case safe_read rd (min (in_len r) rest) r of (bs, r) \<Rightarrow>
             let ret = length bs in
             if ret = 0 then (length acc, acc, r)
             else
               let r = r\<lparr>in_len := in_len r - ret\<rparr> in
               if in_len r \<noteq> 0 then (length acc + ret, acc @ bs, r)
               else if in_pad r \<noteq> 0 then
                 (case safe_read rd (in_pad r) r of (pad, r) \<Rightarrow>
                  if length pad \<noteq> in_pad r then (ret, acc @ bs, r\<lparr>keep := False\<rparr>)
                  else fcgi_read_loop rd (rest - ret) (acc @ bs) r)
               else fcgi_read_loop rd (rest - ret) (acc @ bs) r))"
  by pat_completeness auto
termination
  by (relation "measure (\<lambda>(rd, rest, acc, r). rest)") auto

declare fcgi_read_loop.simps [simp del]

definition fcgi_read :: "reader \<Rightarrow> nat \<Rightarrow> fcgi_request \<Rightarrow> nat \<times> byte list \<times> fcgi_request" where
  "fcgi_read rd len r = fcgi_read_loop rd len [] r"

end
