(* ===== verification/Fcgi_Wire_Lemmas.thy ===== *)
theory Fcgi_Wire_Lemmas
  imports Fcgi_Wire
begin

text \<open>
  Reading what a client has written: headers, lengths, names and values, whole requests, requests
  that have not arrived whole, and bodies.
\<close>

section \<open>Reading from a connection\<close>

text \<open>The documented behaviour of \<open>bufferevent_read\<close>: as many bytes as are asked for and are there.\<close>

definition reads_all :: "reader \<Rightarrow> bool" where
  "reads_all rd \<longleftrightarrow> (\<forall>n k. rd n k = min n k)"

lemma safe_read_loop_all:
  assumes "reads_all rd"
  shows "safe_read_loop rd n bs acc = (acc @ take n bs, drop n bs)"
proof -
  have rd: "rd m k = min m k" for m k using assms by (simp add: reads_all_def)
  consider "n = 0 \<or> bs = []" | "n \<noteq> 0" "bs \<noteq> []" "n \<le> length bs" | "bs \<noteq> []" "length bs < n" by fastforce
  then show ?thesis
  proof cases
    case 1
    then show ?thesis by (subst safe_read_loop.simps) (auto simp: Let_def rd)
  next
    case 2
    then show ?thesis by (subst safe_read_loop.simps) (simp add: Let_def rd)
  next
    case 3
    then show ?thesis
      by (subst safe_read_loop.simps, subst safe_read_loop.simps) (simp add: Let_def rd)
  qed
qed

lemma safe_read_all:
  "reads_all rd \<Longrightarrow> safe_read rd n r = (take n (inb r), r\<lparr>inb := drop n (inb r)\<rparr>)"
  by (simp add: safe_read_def safe_read_loop_all)

lemma read_into_all:
  "reads_all rd \<Longrightarrow> read_into rd n buf r
     = (min n (length (inb r)), take n (inb r) @ drop (min n (length (inb r))) buf, r\<lparr>inb := drop n (inb r)\<rparr>)"
  by (simp add: read_into_def safe_read_all min.commute)

section \<open>Headers\<close>

lemma length_header_bytes [simp]: "length (header_bytes h) = 8" "header_bytes h \<noteq> []"
  by (simp_all add: header_bytes_def)

lemma header_of_bytes [simp]: "header_of (header_bytes h @ rest) = h"
  by (cases h) (simp add: header_of_def header_bytes_def)

lemma read_header_all:
  assumes rd: "reads_all rd" and inb: "inb r = header_bytes h @ rest" and v: "version h = FCGI_VERSION_1"
  shows "read_header rd r = (Some h, r\<lparr>inb := rest\<rparr>)"
proof -
  have "header_of (header_bytes h) = h" using header_of_bytes [of h "[]"] by simp
  then show ?thesis using inb v by (simp add: read_header_def safe_read_all [OF rd])
qed

lemma read_header_short:
  assumes "reads_all rd" and "length (inb r) < 8"
  shows "read_header rd r = (None, r\<lparr>inb := []\<rparr>)"
  using assms by (simp add: read_header_def safe_read_all)

lemma unat_of_nat_byte: "unat (of_nat n :: byte) = n mod 256"
  by (simp add: unat_of_nat)

lemma be16_of_nat: "n < 65536 \<Longrightarrow> be16 (of_nat (n div 256)) (of_nat n) = n"
  by (simp add: be16_def unat_of_nat_byte)

lemma padding_of_less: "padding_of len < 8"
  unfolding padding_of_def by linarith

lemma padding_of_dvd: "8 dvd len + padding_of len"
proof -
  have "len \<le> (len + 7) div 8 * 8" by linarith
  then show ?thesis by (simp add: padding_of_def)
qed

lemma padding_of_zero [simp]: "8 dvd len \<Longrightarrow> padding_of len = 0"
  by (auto simp: padding_of_def elim!: dvdE)

lemma new_header_simps [simp]:
  "version (new_header ty i len) = FCGI_VERSION_1" "hdr_type (new_header ty i len) = ty"
  "padding_length (new_header ty i len) = padding_of len"
  "len < 65536 \<Longrightarrow> content_length (new_header ty i len) = len"
  using padding_of_less [of len] by (simp_all add: new_header_def be16_of_nat unat_of_nat_byte)

section \<open>Lengths\<close>

lemma div_bit: "bit (n div 2 ^ k) i = bit n (i + k)" for n :: nat
  by (simp add: bit_iff_odd power_add div_mult2_eq [symmetric] mult.commute)

lemma bit_of_nat_word: "bit (of_nat n :: 'a::len word) i \<longleftrightarrow> i < LENGTH('a) \<and> bit n i"
  by (simp add: bit_of_nat_iff possible_bit_word)

lemma bit_nat_less: "bit n i \<Longrightarrow> 2 ^ i \<le> n" for n :: nat
proof (rule ccontr)
  assume b: "bit n i" and "\<not> 2 ^ i \<le> n"
  then have "n div 2 ^ i = 0" by simp
  with b show False by (simp add: bit_iff_odd)
qed

lemma byte_127: "(of_nat (n div 2 ^ 24) OR 128 :: byte) AND 127 = of_nat (n div 2 ^ 24)" if "n < 2 ^ 31"
proof (rule bit_word_eqI)
  fix i :: nat
  assume i: "i < LENGTH(8)"
  have "\<not> bit n 31" using bit_nat_less [of n 31] that by auto
  then have top: "\<not> bit (n div 2 ^ 24) 7" unfolding div_bit by simp
  consider "i = 0" | "i = 1" | "i = 2" | "i = 3" | "i = 4" | "i = 5" | "i = 6" | "i = 7" using i by force
  then show "bit ((of_nat (n div 2 ^ 24) OR 128 :: byte) AND 127) i = bit (of_nat (n div 2 ^ 24) :: byte) i"
    using top by cases (simp_all add: bit_and_iff bit_or_iff bit_of_nat_word)
qed

lemma long_length_put:
  assumes "n < 2 ^ 31"
  shows "long_length (of_nat (n div 2 ^ 24) OR 128) (of_nat (n div 2 ^ 16)) (of_nat (n div 2 ^ 8)) (of_nat n) = of_nat n"
proof (rule bit_word_eqI)
  fix i :: nat
  assume i: "i < LENGTH(32)"
  have top: "\<not> bit n 31" using bit_nat_less [of n 31] assms by auto
  show "bit (long_length (of_nat (n div 2 ^ 24) OR 128) (of_nat (n div 2 ^ 16)) (of_nat (n div 2 ^ 8)) (of_nat n)) i
      = bit (of_nat n :: 32 word) i"
  proof -
    note bits = div_bit [of n 24, simplified] div_bit [of n 16, simplified] div_bit [of n 8, simplified]
    consider "i < 8" | "8 \<le> i" "i < 16" | "16 \<le> i" "i < 24" | "24 \<le> i" "i < 32" using i by fastforce
    then show ?thesis
      unfolding long_length_def byte_127 [OF assms]
      by cases (simp add: bit_or_iff bit_push_bit_iff bit_ucast_iff bit_of_nat_word bits; arith)+
  qed
qed

lemma put_length_get:
  assumes "n < 2 ^ 31" and "128 \<le> n \<Longrightarrow> rest \<noteq> []"
  shows "get_length (put_length n @ rest) = Some (of_nat n, rest)"
proof (cases "n < 128")
  case True
  then have "\<not> 128 \<le> (of_nat n :: byte)" by (simp add: word_le_nat_alt unat_of_nat_byte)
  moreover have "ucast (of_nat n :: byte) = (of_nat n :: 32 word)"
    using True by (intro word_unat_eq_iff [THEN iffD2]) (simp add: unat_of_nat unsigned_ucast_eq take_bit_nat_eq_self)
  ultimately show ?thesis using True by (simp add: put_length_def)
next
  case False
  then obtain a rest' where r: "rest = a # rest'" using assms(2) by (cases rest) auto
  have "bit (of_nat (n div 2 ^ 24) OR 128 :: byte) 7" unfolding bit_or_iff by simp
  then have "128 \<le> (of_nat (n div 2 ^ 24) OR 128 :: byte)"
    using bit_nat_less [of "unat (of_nat (n div 2 ^ 24) OR 128 :: byte)" 7]
    by (simp add: word_le_nat_alt bit_unsigned_iff)
  then show ?thesis using False long_length_put [OF assms(1)] by (simp add: put_length_def r)
qed

section \<open>Names and values\<close>

definition encode_pair :: "byte list \<times> byte list \<Rightarrow> byte list" where
  "encode_pair nv = put_length (length (fst nv)) @ put_length (length (snd nv)) @ fst nv @ snd nv"

definition encode_params :: "(byte list \<times> byte list) list \<Rightarrow> byte list" where
  "encode_params nvs = concat (map encode_pair nvs)"

lemma encode_params_simps [simp]:
  "encode_params [] = []" "encode_params (nv # nvs) = encode_pair nv @ encode_params nvs"
  by (simp_all add: encode_params_def)

lemma put_length_nonempty [simp]: "put_length n \<noteq> []"
  by (simp add: put_length_def)

lemma encode_pair_nonempty [simp]: "encode_pair nv \<noteq> []"
  by (simp add: encode_pair_def)

text \<open>The keys under which the decoder stores: the hash function sees the byte behind a name.\<close>

fun stored_under :: "byte \<Rightarrow> (byte list \<times> byte list) list \<Rightarrow> ((32 word \<times> byte list) \<times> byte list) list" where
  "stored_under aft [] = []"
| "stored_under aft ((n, v) # nvs) =
     ((FCGI_HASH_FUNC from_uchar n (hd (v @ encode_params nvs @ [aft])), n), v) # stored_under aft nvs"

abbreviation put_env :: "(32 word \<times> byte list) \<times> byte list \<Rightarrow> fcgi_hash \<Rightarrow> fcgi_hash option" where
  "put_env \<equiv> \<lambda>(k, x). (case k of (hv, v) \<Rightarrow> \<lambda>x h. map_option snd (fcgi_hash_set hv v x h)) x"

lemma get_params_pair:
  assumes len: "length (encode_pair (n, v) @ rest) \<le> FCGI_MAX_LENGTH"
  shows "fcgi_get_params aft (encode_pair (n, v) @ rest) h
     = Option.bind (fcgi_hash_set (FCGI_HASH_FUNC from_uchar n (hd (v @ rest @ [aft]))) n v h)
         (\<lambda>(_, h). fcgi_get_params aft rest h)"
proof -
  have small: "length n < 65536" "length v < 65536" "length rest < 65536"
    "length n + length v + length rest < 65536"
    using len by (auto simp: encode_pair_def FCGI_MAX_LENGTH_def)
  have g1: "get_length (encode_pair (n, v) @ rest) = Some (of_nat (length n), put_length (length v) @ n @ v @ rest)"
    using small put_length_get [of "length n" "put_length (length v) @ n @ v @ rest"] by (simp add: encode_pair_def)
  have g2: "get_length (put_length (length v) @ n @ v @ rest) = Some (of_nat (length v), n @ v @ rest)"
    using small by (intro put_length_get) auto
  have ne: "encode_pair (n, v) @ rest \<noteq> []" by (simp add: encode_pair_def)
  have s1: "unat (of_nat (length n) :: 32 word) = length n" "unat (of_nat (length v) :: 32 word) = length v"
    using small by (simp_all add: unat_of_nat)
  have s2: "unat (of_nat (length n) + of_nat (length v) :: 32 word) = length n + length v"
    using small by (simp add: unat_of_nat flip: of_nat_add)
  have "\<not> (of_nat (length n) + of_nat (length v) > (of_nat (length (n @ v @ rest)) :: 32 word))"
    using small by (simp add: word_less_nat_alt unat_of_nat flip: of_nat_add)
  then show ?thesis
    by (subst fcgi_get_params.simps) (simp add: ne g1 g2 s1 s2 Let_def hd_append)
qed

lemma get_params_all:
  assumes "length (encode_params nvs) \<le> FCGI_MAX_LENGTH"
  shows "fcgi_get_params aft (encode_params nvs) h = map_option (Pair True) (for_each put_env (stored_under aft nvs) h)"
  using assms
proof (induction nvs arbitrary: h)
  case Nil
  then show ?case by (simp add: fcgi_get_params.simps [of _ "[]"])
next
  case (Cons nv nvs)
  obtain n v where nv: "nv = (n, v)" by (cases nv)
  have IH: "fcgi_get_params aft (encode_params nvs) u = map_option (Pair True) (for_each put_env (stored_under aft nvs) u)" for u
    using Cons by simp
  show ?case
    using get_params_pair [of n v "encode_params nvs" aft h] Cons.prems
    by (auto simp: nv IH split: bind_split option.splits)
qed

section \<open>Names that are found again\<close>

text \<open>
  Names for which the byte behind them and the sign of their bytes do not matter: not of three
  bytes, and in ASCII at the three places that are hashed.
\<close>

definition plain_name :: "byte list \<Rightarrow> bool" where
  "plain_name v \<longleftrightarrow> length v < 3
     \<or> 3 < length v \<and> v ! 3 < 128 \<and> v ! (length v - 2) < 128 \<and> v ! (length v - 1) < 128"

lemma ascii_char: "b < 128 \<Longrightarrow> from_uchar b = from_char b"
proof -
  assume b: "b < 128"
  have "\<not> bit b 7"
  proof
    assume "bit b 7"
    then have "bit (unat b) 7" by (simp add: bit_unsigned_iff)
    then have "128 \<le> unat b" using bit_nat_less [of "unat b" 7] by simp
    with b show False by (simp add: word_less_nat_alt)
  qed
  then show "from_uchar b = from_char b"
    unfolding from_uchar_def from_char_def
  proof (intro bit_word_eqI)
    fix i :: nat
    assume n7: "\<not> bit b 7" and i: "i < LENGTH(32)"
    show "bit (ucast b :: 32 word) i = bit (scast b :: 32 word) i"
      using n7 i bit_imp_le_length [of b i]
      by (cases "i \<le> 7") (auto simp: bit_ucast_iff bit_signed_iff possible_bit_word min_def)
  qed
qed

lemma hash_plain: "plain_name v \<Longrightarrow> FCGI_HASH_FUNC from_uchar v x = FCGI_HASH_FUNC from_char v y"
  by (auto simp: plain_name_def FCGI_HASH_FUNC_def Let_def nth_append ascii_char)

abbreviation env_key :: "byte list \<Rightarrow> 32 word \<times> byte list" where
  "env_key v \<equiv> (FCGI_HASH_FUNC from_char v 0, v)"

lemma stored_plain:
  "\<forall>nv \<in> set nvs. plain_name (fst nv) \<Longrightarrow> stored_under aft nvs = map (\<lambda>nv. (env_key (fst nv), snd nv)) nvs"
  by (induction aft nvs rule: stored_under.induct) (auto simp: hash_plain)

lemma map_of_env_key: "map_of (map (\<lambda>nv. (env_key (fst nv), snd nv)) nvs) (env_key v) = map_of nvs v"
  by (induction nvs) auto

section \<open>What a client sends\<close>

definition client_header :: "fcgi_request_type \<Rightarrow> nat \<Rightarrow> nat \<Rightarrow> nat \<Rightarrow> fcgi_header" where
  "client_header ty i len pad = \<lparr>version = FCGI_VERSION_1, hdr_type = type_code ty,
     requestIdB1 = of_nat (i div 256), requestIdB0 = of_nat i,
     contentLengthB1 = of_nat (len div 256), contentLengthB0 = of_nat len,
     paddingLength = of_nat pad, hdr_reserved = 0\<rparr>"

lemma client_header_simps [simp]:
  "version (client_header ty i len pad) = FCGI_VERSION_1"
  "hdr_type (client_header ty i len pad) = type_code ty"
  "i < 65536 \<Longrightarrow> be16 (requestIdB1 (client_header ty i len pad)) (requestIdB0 (client_header ty i len pad)) = i"
  "len < 65536 \<Longrightarrow> content_length (client_header ty i len pad) = len"
  "pad < 256 \<Longrightarrow> padding_length (client_header ty i len pad) = pad"
  by (simp_all add: client_header_def be16_of_nat unat_of_nat_byte)

type_synonym chunk = "(byte list \<times> byte list) list \<times> byte list"

definition chunk_ok :: "chunk \<Rightarrow> bool" where
  "chunk_ok c \<longleftrightarrow> fst c \<noteq> [] \<and> length (snd c) < 256
     \<and> length (encode_params (fst c)) + length (snd c) \<le> FCGI_MAX_LENGTH"

fun params_header :: "nat \<Rightarrow> chunk list \<Rightarrow> fcgi_header" where
  "params_header i [] = client_header FCGI_PARAMS i 0 0"
| "params_header i (c # cs) = client_header FCGI_PARAMS i (length (encode_params (fst c))) (length (snd c))"

fun params_tail :: "nat \<Rightarrow> chunk list \<Rightarrow> byte list" where
  "params_tail i [] = []"
| "params_tail i (c # cs) =
     encode_params (fst c) @ snd c @ header_bytes (params_header i cs) @ params_tail i cs"

definition begin_body :: "nat \<Rightarrow> byte \<Rightarrow> byte list" where
  "begin_body role flags = [of_nat (role div 256), of_nat role, flags, 0, 0, 0, 0, 0]"

text \<open>
  The request for the role \<open>role\<close> with the environment \<open>cs\<close>, a list of records of names and values with
  their padding, and the empty record that ends the environment.
\<close>

definition client_request :: "nat \<Rightarrow> nat \<Rightarrow> byte \<Rightarrow> byte list \<Rightarrow> chunk list \<Rightarrow> byte list" where
  "client_request i role flags pad cs =
     header_bytes (client_header FCGI_BEGIN_REQUEST i 8 (length pad)) @ begin_body role flags @ pad
     @ header_bytes (params_header i cs) @ params_tail i cs"

lemma params_header_simps [simp]:
  "version (params_header i cs) = FCGI_VERSION_1" "hdr_type (params_header i cs) = type_code FCGI_PARAMS"
  by (cases cs; simp)+

lemma encode_params_nonempty: "nvs \<noteq> [] \<Longrightarrow> 0 < length (encode_params nvs)"
  by (cases nvs) auto

lemma params_header_len:
  assumes "chunk_ok c"
  shows "content_length (params_header i (c # cs)) = length (encode_params (fst c))"
    and "padding_length (params_header i (c # cs)) = length (snd c)"
    and "0 < length (encode_params (fst c))"
  using assms encode_params_nonempty by (auto simp: chunk_ok_def FCGI_MAX_LENGTH_def)

section \<open>Reading whole and cut requests\<close>

lemma read_params_chunk:
  assumes rd: "reads_all rd" and c: "chunk_ok c" and ok: "hash_ok (env r)"
    and inb: "inb r = encode_params (fst c) @ snd c @ rest" and buf: "length buf = FCGI_MAX_LENGTH + 8"
  shows "\<exists>h buf'. for_each put_env (stored_under (buf' ! length (encode_params (fst c))) (fst c)) (env r) = Some h
     \<and> hash_ok h \<and> length buf' = FCGI_MAX_LENGTH + 8
     \<and> read_params rd (params_header i (c # cs)) buf r =
        (case read_header rd (r\<lparr>env := h, inb := rest\<rparr>) of
           (None, r) \<Rightarrow> Some (False, r\<lparr>keep := False\<rparr>)
         | (Some hdr, r) \<Rightarrow> read_params rd hdr buf' r)"
proof -
  let ?e = "encode_params (fst c)" and ?hdr = "params_header i (c # cs)"
  have le: "length ?e + length (snd c) \<le> FCGI_MAX_LENGTH" using c by (simp add: chunk_ok_def)
  note hl = params_header_len(1,2) [OF c, of i cs] params_header_len(3) [OF c]
  let ?buf = "(?e @ snd c) @ drop (length ?e + length (snd c)) buf"
  have lb: "length ?buf = FCGI_MAX_LENGTH + 8" using buf le by simp
  have ri: "read_into rd (length ?e + length (snd c)) buf r = (length ?e + length (snd c), ?buf, r\<lparr>inb := rest\<rparr>)"
    using inb by (simp add: read_into_all [OF rd])
  let ?aft = "?buf ! length ?e"
  obtain h where h: "for_each put_env (stored_under ?aft (fst c)) (env r) = Some h" "hash_ok h"
    using request_env.puts [OF ok, of "stored_under ?aft (fst c)"] by auto
  have gp: "fcgi_get_params ?aft ?e (env r) = Some (True, h)"
    using get_params_all [of "fst c" ?aft "env r"] le h(1) by simp
  have comm: "r\<lparr>inb := rest, env := h\<rparr> = r\<lparr>env := h, inb := rest\<rparr>" by simp
  have "read_params rd ?hdr buf r =
      (case read_header rd (r\<lparr>env := h, inb := rest\<rparr>) of
           (None, r) \<Rightarrow> Some (False, r\<lparr>keep := False\<rparr>)
         | (Some hdr, r) \<Rightarrow> read_params rd hdr ?buf r)"
    using hl le gp
    by (subst read_params.simps) (simp add: Let_def ri comm del: params_header.simps append_assoc split del: if_split)
  then show ?thesis using h lb by blast
qed

lemma read_params_run:
  assumes rd: "reads_all rd" and "\<forall>c \<in> set cs. chunk_ok c" and "\<forall>c \<in> set cs. \<forall>nv \<in> set (fst c). plain_name (fst nv)"
    and "hash_ok (env r)" and "inb r = params_tail i cs @ rest" and "length buf = FCGI_MAX_LENGTH + 8"
  shows "\<exists>h. read_params rd (params_header i cs) buf r = Some (True, r\<lparr>env := h, inb := rest\<rparr>) \<and> hash_ok h
     \<and> for_each put_env (map (\<lambda>nv. (env_key (fst nv), snd nv)) (concat (map fst cs))) (env r) = Some h"
  using assms(2-)
proof (induction cs arbitrary: r buf)
  case Nil
  have "content_length (client_header FCGI_PARAMS i 0 0) = 0" by simp
  then have "read_params rd (params_header i []) buf r = Some (True, r)"
    by (subst read_params.simps) (simp add: Let_def)
  moreover have "r\<lparr>env := env r, inb := rest\<rparr> = r" using Nil.prems(4) by simp
  ultimately show ?case using Nil.prems(3) by (intro exI [of _ "env r"]) simp
next
  case (Cons c cs)
  have c: "chunk_ok c" using Cons.prems(1) by simp
  let ?rest = "header_bytes (params_header i cs) @ params_tail i cs @ rest"
  have inb: "inb r = encode_params (fst c) @ snd c @ ?rest" using Cons.prems(4) by simp
  from read_params_chunk [OF rd c Cons.prems(3) inb Cons.prems(5), of i cs] obtain h buf' where
    h: "for_each put_env (stored_under (buf' ! length (encode_params (fst c))) (fst c)) (env r) = Some h" "hash_ok h"
      "length buf' = FCGI_MAX_LENGTH + 8"
    and run: "read_params rd (params_header i (c # cs)) buf r =
        (case read_header rd (r\<lparr>env := h, inb := ?rest\<rparr>) of
           (None, r) \<Rightarrow> Some (False, r\<lparr>keep := False\<rparr>)
         | (Some hdr, r) \<Rightarrow> read_params rd hdr buf' r)" by blast
  have "read_header rd (r\<lparr>env := h, inb := ?rest\<rparr>)
      = (Some (params_header i cs), r\<lparr>env := h, inb := params_tail i cs @ rest\<rparr>)"
    using read_header_all [OF rd, of "r\<lparr>env := h, inb := ?rest\<rparr>"] by simp
  with run have run': "read_params rd (params_header i (c # cs)) buf r
      = read_params rd (params_header i cs) buf' (r\<lparr>env := h, inb := params_tail i cs @ rest\<rparr>)" by simp
  have "\<exists>g. read_params rd (params_header i cs) buf' (r\<lparr>env := h, inb := params_tail i cs @ rest\<rparr>)
        = Some (True, r\<lparr>env := h, inb := params_tail i cs @ rest\<rparr>\<lparr>env := g, inb := rest\<rparr>) \<and> hash_ok g
     \<and> for_each put_env (map (\<lambda>nv. (env_key (fst nv), snd nv)) (concat (map fst cs)))
         (env (r\<lparr>env := h, inb := params_tail i cs @ rest\<rparr>)) = Some g"
    using Cons.prems(1,2) h(2,3) by (intro Cons.IH) simp_all
  then obtain g where g: "read_params rd (params_header i cs) buf' (r\<lparr>env := h, inb := params_tail i cs @ rest\<rparr>)
        = Some (True, r\<lparr>env := g, inb := rest\<rparr>)" "hash_ok g"
     "for_each put_env (map (\<lambda>nv. (env_key (fst nv), snd nv)) (concat (map fst cs))) h = Some g" by auto
  have "for_each put_env (map (\<lambda>nv. (env_key (fst nv), snd nv)) (fst c)) (env r) = Some h"
    using h(1) stored_plain [of "fst c"] Cons.prems(2) by simp
  then show ?case using g run' by (simp add: for_each_append)
qed

lemma read_params_cut:
  assumes rd: "reads_all rd" and "\<forall>c \<in> set cs. chunk_ok c" and "hash_ok (env r)"
    and "inb r = take k (params_tail i cs)" and "k < length (params_tail i cs)" and "length buf = FCGI_MAX_LENGTH + 8"
  shows "\<exists>u. read_params rd (params_header i cs) buf r = Some (False, u)"
  using assms(2-)
proof (induction cs arbitrary: r buf k)
  case Nil
  then show ?case by simp
next
  case (Cons c cs)
  have c: "chunk_ok c" using Cons.prems(1) by simp
  let ?e = "encode_params (fst c)"
  let ?m = "length ?e + length (snd c)" and ?hb = "header_bytes (params_header i cs)"
  show ?case
  proof (cases "k < ?m")
    case True
    have "length (inb r) < ?m" using True Cons.prems(3) by simp
    then show ?thesis
      using params_header_len(1,2) [OF c, of i cs] params_header_len(3) [OF c] c
      by (subst read_params.simps)
        (simp add: Let_def read_into_all [OF rd] chunk_ok_def del: params_header.simps)
  next
    case False
    let ?rest = "take (k - ?m) (?hb @ params_tail i cs)"
    have inb: "inb r = ?e @ snd c @ ?rest" using False Cons.prems(3) by simp
    from read_params_chunk [OF rd c Cons.prems(2) inb Cons.prems(5), of i cs] obtain h buf' where
      h: "hash_ok h" "length buf' = FCGI_MAX_LENGTH + 8"
      and run: "read_params rd (params_header i (c # cs)) buf r =
        (case read_header rd (r\<lparr>env := h, inb := ?rest\<rparr>) of
           (None, r) \<Rightarrow> Some (False, r\<lparr>keep := False\<rparr>)
         | (Some hdr, r) \<Rightarrow> read_params rd hdr buf' r)" by blast
    show ?thesis
    proof (cases "k - ?m < 8")
      case True
      then show ?thesis using run read_header_short [OF rd, of "r\<lparr>env := h, inb := ?rest\<rparr>"] by simp
    next
      case big: False
      let ?u = "r\<lparr>env := h, inb := take (k - ?m - 8) (params_tail i cs)\<rparr>"
      have "read_header rd (r\<lparr>env := h, inb := ?rest\<rparr>) = (Some (params_header i cs), ?u)"
        using read_header_all [OF rd, of "r\<lparr>env := h, inb := ?rest\<rparr>" "params_header i cs"] big by simp
      moreover have "\<exists>u. read_params rd (params_header i cs) buf' ?u = Some (False, u)"
        using Cons.prems(1,4) False big h by (intro Cons.IH [of _ "k - ?m - 8"]) simp_all
      ultimately show ?thesis using run by simp
    qed
  qed
qed

section \<open>The request from its first byte\<close>

lemma role_known: "role_name role \<noteq> None \<longleftrightarrow> role \<in> {1, 2, 3}"
  by (simp add: role_name_def)

lemma plain_role: "plain_name FCGI_ROLE"
  by (simp add: plain_name_def FCGI_ROLE_def word_less_nat_alt unat_of_nat)

text \<open>The state in which the first header is read.\<close>

definition fresh_request :: "fcgi_request \<Rightarrow> bool" where
  "fresh_request r \<longleftrightarrow> hash_ok (env r) \<and> (\<not> has_env r \<longrightarrow> env r = fcgi_hash_init)"

lemma init_get [simp]: "fcgi_hash_get hv v fcgi_hash_init = None"
  by (simp add: fcgi_hash_get_def fcgi_hash_init_def nth_opt_def split: bind_split)

lemma start_env:
  assumes "fresh_request r"
  shows "\<exists>h. hash_ok h \<and> (\<forall>hv v. fcgi_hash_get hv v h = None) \<and> (\<forall>s :: fcgi_request. env s = env r \<and> has_env s = has_env r \<longrightarrow>
       (if has_env s then map_option (\<lambda>h. s\<lparr>env := h\<rparr>) (fcgi_hash_clean (env s)) else Some (s\<lparr>has_env := True\<rparr>))
       = Some (s\<lparr>has_env := True, env := h\<rparr>))"
proof (cases "has_env r")
  case True
  obtain h where h: "fcgi_hash_clean (env r) = Some h" "hash_ok h" "\<forall>hv v. fcgi_hash_get hv v h = None"
    using clean_run [of "env r"] assms by (auto simp: fresh_request_def)
  then show ?thesis using True by (intro exI [of _ h]) simp
next
  case False
  then have e: "env r = fcgi_hash_init" using assms by (simp add: fresh_request_def)
  have "s\<lparr>has_env := True\<rparr> = s\<lparr>has_env := True, env := fcgi_hash_init\<rparr>" if "env s = fcgi_hash_init" for s :: fcgi_request
    using that by (cases s) simp
  then show ?thesis using False e by (intro exI [of _ fcgi_hash_init]) simp
qed

definition started :: "fcgi_request \<Rightarrow> fcgi_hash \<Rightarrow> fcgi_request" where
  "started r h = r\<lparr>keep := False, ended := False, in_len := 0, out_hdr := None, out_pos := 0, has_env := True, env := h\<rparr>"

lemma started_simps [simp]: "inb (started r h) = inb r" "env (started r h) = h"
  by (simp_all add: started_def)

lemma read_request_start:
  assumes fr: "fresh_request r"
  shows "\<exists>h. hash_ok h \<and> (\<forall>hv v. fcgi_hash_get hv v h = None)
     \<and> fcgi_read_request rd vars buf r =
       (case read_header rd (started r h) of
          (None, r) \<Rightarrow> Some (False, r)
        | (Some hdr, r) \<Rightarrow>
            (case skip_stdin rd hdr r of
               (None, r) \<Rightarrow> Some (False, r)
             | (Some hdr, r) \<Rightarrow>
                 if FCGI_MAX_LENGTH < content_length hdr + padding_length hdr then Some (False, r)
                 else if hdr_type hdr = type_code FCGI_BEGIN_REQUEST \<and> content_length hdr = 8
                 then begin_request rd hdr buf (r\<lparr>req_id := int (be16 (requestIdB1 hdr) (requestIdB0 hdr))\<rparr>)
                 else if hdr_type hdr = type_code FCGI_GET_VALUES
                 then get_values rd vars hdr buf (r\<lparr>req_id := int (be16 (requestIdB1 hdr) (requestIdB0 hdr))\<rparr>)
                 else Some (False, r\<lparr>req_id := int (be16 (requestIdB1 hdr) (requestIdB0 hdr))\<rparr>)))"
proof -
  obtain h where h: "hash_ok h" "\<forall>hv v. fcgi_hash_get hv v h = None"
    "\<forall>s :: fcgi_request. env s = env r \<and> has_env s = has_env r \<longrightarrow>
       (if has_env s then map_option (\<lambda>h. s\<lparr>env := h\<rparr>) (fcgi_hash_clean (env s)) else Some (s\<lparr>has_env := True\<rparr>))
       = Some (s\<lparr>has_env := True, env := h\<rparr>)" using start_env [OF fr] by blast
  let ?s = "r\<lparr>keep := False, ended := False, in_len := 0, out_hdr := None, out_pos := 0\<rparr>"
  have e: "(if has_env ?s then map_option (\<lambda>h. ?s\<lparr>env := h\<rparr>) (fcgi_hash_clean (env ?s)) else Some (?s\<lparr>has_env := True\<rparr>))
       = Some (?s\<lparr>has_env := True, env := h\<rparr>)" by (rule h(3) [rule_format]) simp
  show ?thesis
    by (intro exI [of _ h] conjI h(1,2)) (simp only: fcgi_read_request_def Let_def e started_def Option.bind.bind_lunit)
qed

lemma begin_request_at:
  assumes rd: "reads_all rd" and role: "role \<in> {1, 2, 3}" and pad: "length pad < 256" and ok: "hash_ok (env r)"
    and inb: "inb r = begin_body role flags @ pad @ rest" and buf: "length buf = FCGI_MAX_LENGTH + 8"
  shows "\<exists>h buf'. map_option snd (fcgi_hash_set (FCGI_HASH_FUNC from_char FCGI_ROLE 0) FCGI_ROLE (the (role_name role)) (env r)) = Some h
     \<and> hash_ok h \<and> length buf' = FCGI_MAX_LENGTH + 8
     \<and> begin_request rd (client_header FCGI_BEGIN_REQUEST i 8 (length pad)) buf r =
        (case read_header rd (r\<lparr>keep := bit flags 0, env := h, inb := rest\<rparr>) of
           (None, r) \<Rightarrow> Some (False, r)
         | (Some hdr, r) \<Rightarrow> read_params rd hdr buf' r)"
proof -
  let ?hdr = "client_header FCGI_BEGIN_REQUEST i 8 (length pad)"
  have lb: "length (begin_body role flags) = 8" by (simp add: begin_body_def)
  let ?buf = "(begin_body role flags @ pad) @ drop (8 + length pad) buf"
  have ri: "read_into rd (8 + length pad) buf r = (8 + length pad, ?buf, r\<lparr>inb := rest\<rparr>)"
    using inb lb by (simp add: read_into_all [OF rd])
  have b: "?buf ! 0 = of_nat (role div 256)" "?buf ! Suc 0 = of_nat role" "?buf ! 2 = flags"
    by (simp_all add: begin_body_def)
  have rl: "be16 (of_nat (role div 256)) (of_nat role) = role" using role by (intro be16_of_nat) auto
  obtain y h where h: "fcgi_hash_set (FCGI_HASH_FUNC from_char FCGI_ROLE 0) FCGI_ROLE (the (role_name role)) (env r) = Some (y, h)"
    "hash_ok h" using set_run [OF ok] by blast
  obtain nm where nm: "role_name role = Some nm" using role role_known by blast
  have comm: "r\<lparr>inb := rest, keep := bit flags 0, env := h\<rparr> = r\<lparr>keep := bit flags 0, env := h, inb := rest\<rparr>" by simp
  have hl: "content_length ?hdr = 8" "padding_length ?hdr = length pad" using pad by simp_all
  have "begin_request rd ?hdr buf r =
        (case read_header rd (r\<lparr>keep := bit flags 0, env := h, inb := rest\<rparr>) of
           (None, r) \<Rightarrow> Some (False, r)
         | (Some hdr, r) \<Rightarrow> read_params rd hdr ?buf r)"
    using h(1) nm
    by (simp add: begin_request_def Let_def hl ri b rl comm del: append_assoc client_header_simps)
  then show ?thesis using h nm buf lb pad
    by (intro exI [of _ h] exI [of _ ?buf]) (simp add: FCGI_MAX_LENGTH_def)
qed

lemma skip_begin: "skip_stdin rd (client_header FCGI_BEGIN_REQUEST i 8 n) r = (Some (client_header FCGI_BEGIN_REQUEST i 8 n), r)"
  by (subst skip_stdin.simps) simp

lemma read_request_begin:
  assumes rd: "reads_all rd" and fr: "fresh_request r" and i: "i < 65536" and pad: "length pad < 256"
    and inb: "inb r = header_bytes (client_header FCGI_BEGIN_REQUEST i 8 (length pad)) @ rest"
  shows "\<exists>h. hash_ok h \<and> (\<forall>hv v. fcgi_hash_get hv v h = None)
     \<and> fcgi_read_request rd vars buf r = begin_request rd (client_header FCGI_BEGIN_REQUEST i 8 (length pad)) buf
         ((started r h)\<lparr>inb := rest, req_id := int i\<rparr>)"
proof -
  let ?hdr = "client_header FCGI_BEGIN_REQUEST i 8 (length pad)"
  obtain h where h: "hash_ok h" "\<forall>hv v. fcgi_hash_get hv v h = None" and run: "fcgi_read_request rd vars buf r =
       (case read_header rd (started r h) of
          (None, r) \<Rightarrow> Some (False, r)
        | (Some hdr, r) \<Rightarrow>
            (case skip_stdin rd hdr r of
               (None, r) \<Rightarrow> Some (False, r)
             | (Some hdr, r) \<Rightarrow>
                 if FCGI_MAX_LENGTH < content_length hdr + padding_length hdr then Some (False, r)
                 else if hdr_type hdr = type_code FCGI_BEGIN_REQUEST \<and> content_length hdr = 8
                 then begin_request rd hdr buf (r\<lparr>req_id := int (be16 (requestIdB1 hdr) (requestIdB0 hdr))\<rparr>)
                 else if hdr_type hdr = type_code FCGI_GET_VALUES
                 then get_values rd vars hdr buf (r\<lparr>req_id := int (be16 (requestIdB1 hdr) (requestIdB0 hdr))\<rparr>)
                 else Some (False, r\<lparr>req_id := int (be16 (requestIdB1 hdr) (requestIdB0 hdr))\<rparr>)))"
    using read_request_start [OF fr, of rd vars buf] by blast
  have "read_header rd (started r h) = (Some ?hdr, (started r h)\<lparr>inb := rest\<rparr>)"
    using inb by (intro read_header_all [OF rd]) simp_all
  then show ?thesis using h run i pad by (auto simp: skip_begin FCGI_MAX_LENGTH_def)
qed

lemma read_request_run:
  assumes rd: "reads_all rd" and fr: "fresh_request r" and i: "i < 65536" and role: "role \<in> {1, 2, 3}"
    and pad: "length pad < 256" and cs: "\<forall>c \<in> set cs. chunk_ok c"
    and plain: "\<forall>c \<in> set cs. \<forall>nv \<in> set (fst c). plain_name (fst nv)"
    and buf: "length buf = FCGI_MAX_LENGTH + 8" and inb: "inb r = client_request i role flags pad cs @ rest"
  shows "\<exists>u. fcgi_read_request rd vars buf r = Some (True, u) \<and> inb u = rest \<and> hash_ok (env u)
     \<and> keep u = bit flags 0 \<and> req_id u = int i \<and> has_env u
     \<and> (\<forall>v. fcgi_getenv v (env u) = map_of (rev ((FCGI_ROLE, the (role_name role)) # concat (map fst cs))) v)"
proof -
  let ?rest = "begin_body role flags @ pad @ header_bytes (params_header i cs) @ params_tail i cs @ rest"
  have inb': "inb r = header_bytes (client_header FCGI_BEGIN_REQUEST i 8 (length pad)) @ ?rest"
    using inb by (simp add: client_request_def)
  from read_request_begin [OF rd fr i pad inb', of vars buf] obtain h0 where
    h0: "hash_ok h0" "\<forall>hv v. fcgi_hash_get hv v h0 = None"
    and run0: "fcgi_read_request rd vars buf r = begin_request rd (client_header FCGI_BEGIN_REQUEST i 8 (length pad)) buf
         ((started r h0)\<lparr>inb := ?rest, req_id := int i\<rparr>)" by blast
  let ?r = "(started r h0)\<lparr>inb := ?rest, req_id := int i\<rparr>"
  let ?rest' = "header_bytes (params_header i cs) @ params_tail i cs @ rest"
  have "hash_ok (env ?r)" "inb ?r = begin_body role flags @ pad @ ?rest'" using h0 by simp_all
  from begin_request_at [OF rd role pad this buf, of i] obtain h1 buf' where
    h1: "map_option snd (fcgi_hash_set (FCGI_HASH_FUNC from_char FCGI_ROLE 0) FCGI_ROLE (the (role_name role)) h0) = Some h1"
      "hash_ok h1" "length buf' = FCGI_MAX_LENGTH + 8"
    and run1: "begin_request rd (client_header FCGI_BEGIN_REQUEST i 8 (length pad)) buf ?r =
        (case read_header rd (?r\<lparr>keep := bit flags 0, env := h1, inb := ?rest'\<rparr>) of
           (None, r) \<Rightarrow> Some (False, r)
         | (Some hdr, r) \<Rightarrow> read_params rd hdr buf' r)" by auto
  let ?u = "?r\<lparr>keep := bit flags 0, env := h1, inb := params_tail i cs @ rest\<rparr>"
  have rh: "read_header rd (?r\<lparr>keep := bit flags 0, env := h1, inb := ?rest'\<rparr>) = (Some (params_header i cs), ?u)"
    using read_header_all [OF rd, of "?r\<lparr>keep := bit flags 0, env := h1, inb := ?rest'\<rparr>"] by simp
  have "hash_ok (env ?u)" "inb ?u = params_tail i cs @ rest" using h1 by simp_all
  from read_params_run [OF rd cs plain this h1(3)] obtain h where
    h: "read_params rd (params_header i cs) buf' ?u = Some (True, ?u\<lparr>env := h, inb := rest\<rparr>)" "hash_ok h"
      "for_each put_env (map (\<lambda>nv. (env_key (fst nv), snd nv)) (concat (map fst cs))) h1 = Some h" by auto
  let ?kvs = "(FCGI_ROLE, the (role_name role)) # concat (map fst cs)"
  have "for_each put_env (map (\<lambda>nv. (env_key (fst nv), snd nv)) ?kvs) h0 = Some h"
    unfolding list.map for_each.simps fst_conv snd_conv prod.case h1(1) using h(3) by simp
  moreover define kvs where "kvs = map (\<lambda>nv. (env_key (fst nv), snd nv)) ?kvs"
  ultimately have "fcgi_hash_get (FCGI_HASH_FUNC from_char v 0) v h
      = (case map_of (rev kvs) (env_key v) of Some x \<Rightarrow> Some x | None \<Rightarrow> fcgi_hash_get (FCGI_HASH_FUNC from_char v 0) v h0)" for v
    using request_env.puts [OF h0(1), of kvs] by auto
  then have "fcgi_hash_get (FCGI_HASH_FUNC from_char v 0) v h = map_of (rev kvs) (env_key v)" for v
    by (simp only: h0(2)) (simp split: option.splits)
  then have "fcgi_getenv v h = map_of (rev ?kvs) v" for v
    unfolding kvs_def rev_map map_of_env_key by (simp only: fcgi_getenv_def)
  then show ?thesis using run0 run1 rh h(1,2) by (simp add: started_def)
qed

lemma read_request_cut:
  assumes rd: "reads_all rd" and fr: "fresh_request r" and i: "i < 65536" and role: "role \<in> {1, 2, 3}"
    and pad: "length pad < 256" and cs: "\<forall>c \<in> set cs. chunk_ok c"
    and buf: "length buf = FCGI_MAX_LENGTH + 8" and inb: "inb r = take k (client_request i role flags pad cs)"
    and k: "k < length (client_request i role flags pad cs)"
  shows "\<exists>u. fcgi_read_request rd vars buf r = Some (False, u)"
proof -
  let ?hdr = "client_header FCGI_BEGIN_REQUEST i 8 (length pad)"
  let ?tl = "header_bytes (params_header i cs) @ params_tail i cs"
  have lb: "length (begin_body role flags) = 8" by (simp add: begin_body_def)
  show ?thesis
  proof (cases "k < 8")
    case True
    from read_request_start [OF fr, of rd vars buf] obtain h where
      run: "fcgi_read_request rd vars buf r = (case read_header rd (started r h) of (None, r) \<Rightarrow> Some (False, r)
        | (Some hdr, r) \<Rightarrow> (case skip_stdin rd hdr r of
               (None, r) \<Rightarrow> Some (False, r)
             | (Some hdr, r) \<Rightarrow>
                 if FCGI_MAX_LENGTH < content_length hdr + padding_length hdr then Some (False, r)
                 else if hdr_type hdr = type_code FCGI_BEGIN_REQUEST \<and> content_length hdr = 8
                 then begin_request rd hdr buf (r\<lparr>req_id := int (be16 (requestIdB1 hdr) (requestIdB0 hdr))\<rparr>)
                 else if hdr_type hdr = type_code FCGI_GET_VALUES
                 then get_values rd vars hdr buf (r\<lparr>req_id := int (be16 (requestIdB1 hdr) (requestIdB0 hdr))\<rparr>)
                 else Some (False, r\<lparr>req_id := int (be16 (requestIdB1 hdr) (requestIdB0 hdr))\<rparr>)))" by blast
    have "length (inb (started r h)) < 8" using True inb by simp
    then show ?thesis using run read_header_short [OF rd] by simp
  next
    case False
    let ?rest = "take (k - 8) (begin_body role flags @ pad @ ?tl)"
    have inb': "inb r = header_bytes ?hdr @ ?rest" using inb False by (simp add: client_request_def)
    from read_request_begin [OF rd fr i pad inb', of vars buf] obtain h0 where h0: "hash_ok h0"
      and run0: "fcgi_read_request rd vars buf r = begin_request rd ?hdr buf ((started r h0)\<lparr>inb := ?rest, req_id := int i\<rparr>)"
      by blast
    let ?r = "(started r h0)\<lparr>inb := ?rest, req_id := int i\<rparr>"
    show ?thesis
    proof (cases "k - 8 < 8 + length pad")
      case True
      then have short: "length (inb ?r) < 8 + length pad" by simp
      have hl: "content_length ?hdr = 8" "padding_length ?hdr = length pad" using pad by simp_all
      have ri: "read_into rd (8 + length pad) buf ?r
          = (length (inb ?r), inb ?r @ drop (length (inb ?r)) buf, ?r\<lparr>inb := []\<rparr>)"
        unfolding read_into_all [OF rd] using short by (simp only: min_absorb2 less_imp_le take_all drop_all)
      have "begin_request rd ?hdr buf ?r = Some (False, ?r\<lparr>inb := []\<rparr>)"
        unfolding begin_request_def Let_def hl ri prod.case by (simp only: less_imp_neq [OF short] simp_thms if_True)
      then show ?thesis using run0 by simp
    next
      case big: False
      let ?rest' = "take (k - 8 - (8 + length pad)) ?tl"
      have "hash_ok (env ?r)" "inb ?r = begin_body role flags @ pad @ ?rest'" using h0 big lb by simp_all
      from begin_request_at [OF rd role pad this buf, of i] obtain h1 buf' where
        h1: "hash_ok h1" "length buf' = FCGI_MAX_LENGTH + 8"
        and run1: "begin_request rd ?hdr buf ?r =
          (case read_header rd (?r\<lparr>keep := bit flags 0, env := h1, inb := ?rest'\<rparr>) of
             (None, r) \<Rightarrow> Some (False, r)
           | (Some hdr, r) \<Rightarrow> read_params rd hdr buf' r)" by auto
      let ?s = "?r\<lparr>keep := bit flags 0, env := h1, inb := ?rest'\<rparr>"
      show ?thesis
      proof (cases "k - 8 - (8 + length pad) < 8")
        case True
        then show ?thesis using run0 run1 read_header_short [OF rd, of ?s] by simp
      next
        case bigger: False
        let ?u = "?s\<lparr>inb := take (k - 8 - (8 + length pad) - 8) (params_tail i cs)\<rparr>"
        have "read_header rd ?s = (Some (params_header i cs), ?u)"
          using read_header_all [OF rd, of ?s "params_header i cs"] bigger by simp
        moreover have "\<exists>u. read_params rd (params_header i cs) buf' ?u = Some (False, u)"
          using h1 cs k big bigger False lb
          by (intro read_params_cut [OF rd, of cs ?u "k - 8 - (8 + length pad) - 8"]) (simp_all add: client_request_def)
        ultimately show ?thesis using run0 run1 by simp
      qed
    qed
  qed
qed

section \<open>Any bytes at all\<close>

lemma get_params_safe:
  assumes "hash_ok h"
  shows "\<exists>ok u. fcgi_get_params aft p h = Some (ok, u) \<and> hash_ok u"
  using assms
proof (induction aft p h rule: fcgi_get_params.induct)
  case (1 aft p h)
  show ?case
  proof (cases "p = []")
    case True
    then show ?thesis using "1.prems" by (intro exI [of _ True] exI [of _ h]) (simp add: fcgi_get_params.simps [of aft "[]"])
  next
    case ne: False
    show ?thesis
    proof (cases "get_length p")
      case None
      then show ?thesis using "1.prems" ne
        by (intro exI [of _ False] exI [of _ h]) (simp add: fcgi_get_params.simps [of aft p])
    next
      case (Some nq)
      obtain n q where nq: "nq = (n, q)" by (cases nq)
      show ?thesis
      proof (cases "get_length q")
        case None
        then show ?thesis using "1.prems" ne Some nq
          by (intro exI [of _ False] exI [of _ h]) (simp add: fcgi_get_params.simps [of aft p])
      next
        case some2: (Some vq)
        obtain v q' where vq: "vq = (v, q')" by (cases vq)
        show ?thesis
        proof (cases "n + v > of_nat (length q')")
          case True
          then show ?thesis using "1.prems" ne Some nq some2 vq
            by (intro exI [of _ False] exI [of _ h]) (simp add: fcgi_get_params.simps [of aft p])
        next
          case False
          let ?hv = "FCGI_HASH_FUNC from_uchar (take (unat n) q') (hd (drop (unat n) q' @ [aft]))"
          obtain y g where g: "fcgi_hash_set ?hv (take (unat n) q') (take (unat v) (drop (unat n) q')) h = Some (y, g)" "hash_ok g"
            using set_run [OF "1.prems"] by blast
          have "\<exists>ok u. fcgi_get_params aft (drop (unat (n + v)) q') g = Some (ok, u) \<and> hash_ok u"
            by (rule "1.IH" [OF ne Some nq [symmetric] some2 vq [symmetric] False refl refl refl g(1) refl g(2)])
          then show ?thesis using ne Some nq some2 vq False g(1)
            by (subst fcgi_get_params.simps) (simp add: Let_def)
        qed
      qed
    qed
  qed
qed

text \<open>
  Variables with names and values of less than 128 bytes, so that their lengths take one byte each. With
  longer ones the padding behind the answer could go one byte past the buffer.
\<close>

definition short_vars :: "(byte list \<rightharpoonup> byte list) \<Rightarrow> bool" where
  "short_vars vars \<longleftrightarrow> (\<forall>n v. vars n = Some v \<longrightarrow> length n < 128 \<and> length v < 128)"

lemma short_set_mgmt_var:
  "short_vars vars \<Longrightarrow> length n < 128 \<Longrightarrow> length v < 128 \<Longrightarrow> short_vars (fcgi_set_mgmt_var n v vars)"
  by (auto simp: short_vars_def fcgi_set_mgmt_var_def)

lemma short_mgmt_vars: "short_vars fcgi_mgmt_vars"
  unfolding fcgi_mgmt_vars_def by (rule short_set_mgmt_var) (simp_all add: short_vars_def)

lemma write_at_some: "pos + length bs \<le> length buf \<Longrightarrow> \<exists>b. write_at pos bs buf = Some b \<and> length b = length buf"
  by (simp add: write_at_def)

text \<open>The loop over the names that were asked for stays in the buffer, and stops in time for the padding.\<close>

lemma put_values_run:
  assumes "short_vars vars" and "8 \<le> p" "p \<le> FCGI_MAX_LENGTH + 1" and "length buf = FCGI_MAX_LENGTH + 8"
  shows "\<exists>p' b. put_values vars bs qs p buf = Some (p', b) \<and> length b = length buf
     \<and> p \<le> p' \<and> p' \<le> FCGI_MAX_LENGTH + 1"
  using assms(2-)
proof (induction qs arbitrary: p buf)
  case Nil
  then show ?case by simp
next
  case (Cons q qs)
  show ?case
  proof (cases "vars (var (bs ! q))")
    case None
    then show ?thesis using Cons by simp
  next
    case (Some x)
    let ?n = "length (var (bs ! q))" and ?z = "length x"
    have sh: "?n < 128" "?z < 128" using assms(1) Some by (auto simp: short_vars_def)
    show ?thesis
    proof (cases "FCGI_MAX_LENGTH + 8 \<le> p + 4 + 4 + ?n + ?z")
      case True
      then show ?thesis using Some Cons.prems by (simp add: Let_def)
    next
      case False
      let ?l = "put_length ?n @ put_length ?z"
      have l: "length ?l = 2" using sh by (simp add: put_length_def)
      obtain b1 where b1: "write_at p ?l buf = Some b1" "length b1 = length buf"
        using write_at_some [of p ?l buf] l False Cons.prems(3) by auto
      obtain b2 where b2: "write_at (p + 2) (var (bs ! q)) b1 = Some b2" "length b2 = length buf"
        using write_at_some [of "p + 2" "var (bs ! q)" b1] b1 False Cons.prems(3) by auto
      obtain b3 where b3: "write_at (p + 2 + ?n) x b2 = Some b3" "length b3 = length buf"
        using write_at_some [of "p + 2 + ?n" x b2] b2 False Cons.prems(3) by auto
      have "\<exists>p' b. put_values vars bs qs (p + 2 + ?n + ?z) b3 = Some (p', b) \<and> length b = length b3
          \<and> p + 2 + ?n + ?z \<le> p' \<and> p' \<le> FCGI_MAX_LENGTH + 1"
        using Cons.prems b3 False by (intro Cons.IH; simp)
      moreover have "put_values vars bs (q # qs) p buf = put_values vars bs qs (p + 2 + ?n + ?z) b3"
        using Some False l b1 b2 b3 by (simp add: Let_def)
      ultimately show ?thesis using b3(2) by auto
    qed
  qed
qed

lemma values_header:
  assumes "8 \<le> p" and "p \<le> FCGI_MAX_LENGTH + 1" and "length buf = FCGI_MAX_LENGTH + 8"
  shows "\<exists>pad b. fcgi_make_header 0 ty 0 (p - 8) buf = Some (pad, b) \<and> length b = length buf"
proof -
  have "(p - 8 + 7) div 8 * 8 \<le> 65528" using assms(2) by (simp add: FCGI_MAX_LENGTH_def)
  then have room: "8 + (p - 8) + padding_of (p - 8) \<le> length buf"
    using assms by (simp add: padding_of_def FCGI_MAX_LENGTH_def)
  obtain b1 where b1: "write_at 0 (header_bytes (new_header ty 0 (p - 8))) buf = Some b1" "length b1 = length buf"
    using write_at_some [of 0 "header_bytes (new_header ty 0 (p - 8))" buf] assms(3) by auto
  obtain b2 where b2: "write_at (8 + (p - 8)) (replicate (padding_of (p - 8)) 0) b1 = Some b2" "length b2 = length buf"
    using write_at_some [of "8 + (p - 8)" "replicate (padding_of (p - 8)) 0" b1] room b1(2) by auto
  show ?thesis using b1 b2 by (cases "padding_of (p - 8) = 0") (simp_all add: fcgi_make_header_def)
qed

lemma safe_read_frame:
  "safe_read rd n r = (bs, u) \<Longrightarrow> env u = env r \<and> has_env u = has_env r \<and> inb r = bs @ inb u"
proof -
  assume a: "safe_read rd n r = (bs, u)"
  then have "u = r\<lparr>inb := inb u\<rparr>" and i: "inb r = bs @ inb u" using safe_read_parts by blast+
  then have "env u = env (r\<lparr>inb := inb u\<rparr>)" "has_env u = has_env (r\<lparr>inb := inb u\<rparr>)" by argo+
  then show ?thesis using i by simp
qed

lemma read_into_frame:
  "read_into rd n buf r = (k, b, u) \<Longrightarrow> env u = env r \<and> has_env u = has_env r \<and> length (inb u) \<le> length (inb r)
     \<and> (k \<le> length buf \<longrightarrow> length b = length buf)"
  by (cases "safe_read rd n r") (auto dest!: safe_read_frame simp: read_into_def)

lemma read_header_frame:
  "read_header rd r = (x, u) \<Longrightarrow> env u = env r \<and> has_env u = has_env r \<and> length (inb u) \<le> length (inb r)"
  by (cases "safe_read rd 8 r") (auto dest!: safe_read_frame simp: read_header_def split: if_splits)

lemma skip_stdin_frame:
  "skip_stdin rd hdr r = (x, u) \<Longrightarrow> env u = env r \<and> has_env u = has_env r \<and> length (inb u) \<le> length (inb r)"
proof (induction rd hdr r arbitrary: u rule: skip_stdin.induct)
  case (1 rd hdr r)
  show ?case
  proof (cases "hdr_type hdr = type_code FCGI_STDIN \<and> content_length hdr = 0")
    case False
    then show ?thesis using "1.prems" by (subst (asm) skip_stdin.simps) auto
  next
    case True
    obtain y s where ys: "read_header rd r = (y, s)" by (cases "read_header rd r")
    show ?thesis
    proof (cases y)
      case None
      then show ?thesis using "1.prems" True ys read_header_frame [OF ys] by (subst (asm) skip_stdin.simps) auto
    next
      case (Some h)
      then have "skip_stdin rd h s = (x, u)" using "1.prems" True ys by (subst (asm) skip_stdin.simps) auto
      from "1.IH" [OF True ys [symmetric] Some this] read_header_frame [OF ys] show ?thesis by auto
    qed
  qed
qed

text \<open>What a step that reads may leave: a good table, the mark that there is one, no more input than before.\<close>

definition read_good :: "fcgi_request \<Rightarrow> fcgi_request \<Rightarrow> bool" where
  "read_good r u \<longleftrightarrow> hash_ok (env u) \<and> has_env u = has_env r \<and> length (inb u) \<le> length (inb r)"

lemma read_params_safe:
  assumes "hash_ok (env r)" and "length buf = FCGI_MAX_LENGTH + 8"
  shows "\<exists>ok u. read_params rd hdr buf r = Some (ok, u) \<and> read_good r u"
  using assms
proof (induction rd hdr buf r rule: read_params.induct)
  case (1 rd hdr buf r)
  let ?len = "content_length hdr" let ?pad = "padding_length hdr"
  show ?case
  proof (cases "hdr_type hdr = type_code FCGI_PARAMS \<and> 0 < ?len \<and> ?len + ?pad \<le> FCGI_MAX_LENGTH")
    case False
    then show ?thesis using "1.prems" by (subst read_params.simps) (auto simp: Let_def read_good_def)
  next
    case True
    obtain n b s where ri: "read_into rd (?len + ?pad) buf r = (n, b, s)" by (cases "read_into rd (?len + ?pad) buf r")
    note fr = read_into_frame [OF ri]
    show ?thesis
    proof (cases "n = ?len + ?pad")
      case False
      then show ?thesis using "1.prems" True ri fr
        by (intro exI [of _ False] exI [of _ "s\<lparr>keep := False\<rparr>"])
          (subst read_params.simps, simp add: Let_def read_good_def)
    next
      case n: True
      have lb: "length b = FCGI_MAX_LENGTH + 8" using fr n True "1.prems" by simp
      obtain ok h where gp: "fcgi_get_params (b ! ?len) (take ?len b) (env s) = Some (ok, h)" "hash_ok h"
        using get_params_safe [of "env s"] fr "1.prems" by metis
      show ?thesis
      proof (cases ok)
        case False
        then show ?thesis using True ri n gp fr
          by (intro exI [of _ False] exI [of _ "s\<lparr>env := h, keep := False\<rparr>"])
            (subst read_params.simps, simp add: Let_def read_good_def)
      next
        case ok: True
        obtain y t where rh: "read_header rd (s\<lparr>env := h\<rparr>) = (y, t)" by (cases "read_header rd (s\<lparr>env := h\<rparr>)")
        note fr2 = read_header_frame [OF rh]
        show ?thesis
        proof (cases y)
          case None
          then show ?thesis using True ri n gp ok rh fr fr2
            by (intro exI [of _ False] exI [of _ "t\<lparr>keep := False\<rparr>"])
              (subst read_params.simps, simp add: Let_def read_good_def)
        next
          case (Some g)
          have "\<exists>ok u. read_params rd g b t = Some (ok, u) \<and> read_good t u"
            using True n ok gp fr2 lb
            by (intro "1.IH" [OF refl refl _ _ ri [symmetric] refl _ gp(1) refl _ rh [symmetric] Some]) simp_all
          then show ?thesis using True ri n gp ok rh fr fr2 Some
            by (subst read_params.simps) (auto simp: Let_def read_good_def)
        qed
      qed
    qed
  qed
qed

lemma read_goodI: "hash_ok (env u) \<Longrightarrow> has_env u = has_env r \<Longrightarrow> length (inb u) \<le> length (inb r) \<Longrightarrow> read_good r u"
  by (simp add: read_good_def)

lemma get_values_safe:
  assumes "hash_ok (env r)" and "length buf = FCGI_MAX_LENGTH + 8"
    and fits: "content_length hdr + padding_length hdr \<le> FCGI_MAX_LENGTH" and sv: "short_vars vars"
  shows "\<exists>ok u. get_values rd vars hdr buf r = Some (ok, u) \<and> read_good r u"
proof -
  let ?len = "content_length hdr" let ?pad = "padding_length hdr"
  obtain n b s where ri: "read_into rd (?len + ?pad) buf r = (n, b, s)" by (cases "read_into rd (?len + ?pad) buf r")
  note fr = read_into_frame [OF ri]
  show ?thesis
  proof (cases "n = ?len + ?pad")
    case False
    then show ?thesis using assms ri fr
      by (intro exI [of _ False] exI [of _ "s\<lparr>keep := False\<rparr>"]) (simp add: get_values_def Let_def read_good_def)
  next
    case n: True
    have lb: "length b = FCGI_MAX_LENGTH + 8" using fr n assms by simp
    obtain ok h where gp: "fcgi_get_params (b ! ?len) (take ?len b) (env s) = Some (ok, h)" "hash_ok h"
      using get_params_safe [of "env s"] fr assms by metis
    have eight: "8 \<le> FCGI_MAX_LENGTH + 1" by (simp add: FCGI_MAX_LENGTH_def)
    obtain p b1 where b1: "put_values vars (arena h) (hash_list h) 8 b = Some (p, b1)" "length b1 = FCGI_MAX_LENGTH + 8"
      "8 \<le> p" "p \<le> FCGI_MAX_LENGTH + 1"
      using put_values_run [OF sv order_refl eight lb, of "arena h" "hash_list h"] lb by auto
    obtain pad b2 where b2: "fcgi_make_header 0 (type_code FCGI_GET_VALUES_RESULT) 0 (p - 8) b1 = Some (pad, b2)"
      using values_header [OF b1(3,4,2)] by blast
    obtain ok2 t where sa: "send_all (take (8 + (p - 8) + pad) b2) (s\<lparr>env := h\<rparr>) = (ok2, t)"
      by (cases "send_all (take (8 + (p - 8) + pad) b2) (s\<lparr>env := h\<rparr>)")
    have t: "env t = h" "has_env t = has_env r" "inb t = inb s" using sa fr
      by (auto simp: send_all_def split: prod.splits)
    show ?thesis
    proof (cases ok)
      case False
      then show ?thesis using ri n gp fr
        by (intro exI [of _ False] exI [of _ "s\<lparr>env := h, keep := False\<rparr>"]) (simp add: get_values_def Let_def read_good_def)
    next
      case True
      then have run: "get_values rd vars hdr buf r = Some (False, if ok2 then t else t\<lparr>keep := False\<rparr>)"
        using ri n gp b1(1) b2 sa by (simp add: get_values_def Let_def del: type_code.simps)
      have "read_good r (if ok2 then t else t\<lparr>keep := False\<rparr>)" using t gp(2) fr by (simp add: read_good_def)
      then show ?thesis using run by blast
    qed
  qed
qed

lemma begin_request_safe:
  assumes "hash_ok (env r)" and "length buf = FCGI_MAX_LENGTH + 8"
    and fits: "content_length hdr + padding_length hdr \<le> FCGI_MAX_LENGTH"
  shows "\<exists>ok u. begin_request rd hdr buf r = Some (ok, u) \<and> read_good r u"
proof -
  let ?len = "content_length hdr" let ?pad = "padding_length hdr"
  obtain n b s where ri: "read_into rd (?len + ?pad) buf r = (n, b, s)" by (cases "read_into rd (?len + ?pad) buf r")
  note fr = read_into_frame [OF ri]
  let ?s = "s\<lparr>keep := bit (b ! 2) 0\<rparr>"
  show ?thesis
  proof (cases "n = ?len + ?pad")
    case False
    then show ?thesis using assms ri fr
      by (intro exI [of _ False] exI [of _ s]) (simp add: begin_request_def Let_def read_good_def)
  next
    case n: True
    have lb: "length b = FCGI_MAX_LENGTH + 8" using fr n assms by simp
    show ?thesis
    proof (cases "role_name (be16 (b ! 0) (b ! 1))")
      case None
      then show ?thesis using assms ri fr n
        by (intro exI [of _ False] exI [of _ ?s]) (simp add: begin_request_def Let_def read_good_def)
    next
      case (Some role)
      obtain y h where h: "fcgi_hash_set (FCGI_HASH_FUNC from_char FCGI_ROLE 0) FCGI_ROLE role (env s) = Some (y, h)" "hash_ok h"
        using set_run [of "env s"] fr assms(1) by metis
      obtain z t where rh: "read_header rd (?s\<lparr>env := h\<rparr>) = (z, t)" by (cases "read_header rd (?s\<lparr>env := h\<rparr>)")
      note fr2 = read_header_frame [OF rh]
      show ?thesis
      proof (cases z)
        case None
        then show ?thesis using ri n Some h rh fr fr2
          by (intro exI [of _ False] exI [of _ t]) (simp add: begin_request_def Let_def read_good_def)
      next
        case (Some g)
        have ht: "hash_ok (env t)" using fr2 h by simp
        obtain ok u where "read_params rd g b t = Some (ok, u)" "read_good t u"
          using read_params_safe [OF ht lb, of rd g] by blast
        then show ?thesis using ri n \<open>role_name _ = Some role\<close> h rh fr fr2 Some
          by (intro exI [of _ ok] exI [of _ u]) (simp add: begin_request_def Let_def read_good_def)
      qed
    qed
  qed
qed

text \<open>
  Whatever bytes come, in whatever pieces: reading a request ends, the table stays good, and the buffer
  is never left.
\<close>

lemma read_request_safe:
  assumes fr: "fresh_request r" and buf: "length buf = FCGI_MAX_LENGTH + 8" and sv: "short_vars vars"
  shows "\<exists>ok u. fcgi_read_request rd vars buf r = Some (ok, u) \<and> fresh_request u \<and> has_env u
    \<and> length (inb u) \<le> length (inb r)"
proof -
  obtain h where h: "hash_ok h" "fcgi_read_request rd vars buf r =
       (case read_header rd (started r h) of
          (None, r) \<Rightarrow> Some (False, r)
        | (Some hdr, r) \<Rightarrow>
            (case skip_stdin rd hdr r of
               (None, r) \<Rightarrow> Some (False, r)
             | (Some hdr, r) \<Rightarrow>
                 if FCGI_MAX_LENGTH < content_length hdr + padding_length hdr then Some (False, r)
                 else if hdr_type hdr = type_code FCGI_BEGIN_REQUEST \<and> content_length hdr = 8
                 then begin_request rd hdr buf (r\<lparr>req_id := int (be16 (requestIdB1 hdr) (requestIdB0 hdr))\<rparr>)
                 else if hdr_type hdr = type_code FCGI_GET_VALUES
                 then get_values rd vars hdr buf (r\<lparr>req_id := int (be16 (requestIdB1 hdr) (requestIdB0 hdr))\<rparr>)
                 else Some (False, r\<lparr>req_id := int (be16 (requestIdB1 hdr) (requestIdB0 hdr))\<rparr>)))"
    using read_request_start [OF fr, of rd vars buf] by blast
  have good: "fresh_request u \<and> has_env u \<and> length (inb u) \<le> length (inb r)" if "read_good (started r h) u" for u
    using that by (simp add: read_good_def fresh_request_def started_def)
  have "\<exists>ok u. fcgi_read_request rd vars buf r = Some (ok, u) \<and> read_good (started r h) u"
  proof -
    obtain y s where rh: "read_header rd (started r h) = (y, s)" by (cases "read_header rd (started r h)")
    note f1 = read_header_frame [OF rh]
    show ?thesis
    proof (cases y)
      case None
      then show ?thesis using h rh f1 by (intro exI [of _ False] exI [of _ s]) (simp add: read_good_def)
    next
      case (Some hdr)
      obtain z t where sk: "skip_stdin rd hdr s = (z, t)" by (cases "skip_stdin rd hdr s")
      note f2 = skip_stdin_frame [OF sk]
      show ?thesis
      proof (cases z)
        case None
        then show ?thesis using h rh f1 f2 Some sk by (intro exI [of _ False] exI [of _ t]) (simp add: read_good_def)
      next
        case hd: (Some hdr2)
        let ?t = "t\<lparr>req_id := int (be16 (requestIdB1 hdr2) (requestIdB0 hdr2))\<rparr>"
        have up: "read_good (started r h) u" if "read_good ?t u" for u
          using that f1 f2 by (simp add: read_good_def)
        have ok: "hash_ok (env ?t)" using f1 f2 h(1) by simp
        consider "FCGI_MAX_LENGTH < content_length hdr2 + padding_length hdr2"
          | "content_length hdr2 + padding_length hdr2 \<le> FCGI_MAX_LENGTH" "hdr_type hdr2 = type_code FCGI_BEGIN_REQUEST \<and> content_length hdr2 = 8"
          | "content_length hdr2 + padding_length hdr2 \<le> FCGI_MAX_LENGTH" "\<not> (hdr_type hdr2 = type_code FCGI_BEGIN_REQUEST \<and> content_length hdr2 = 8)"
            "hdr_type hdr2 = type_code FCGI_GET_VALUES"
          | "content_length hdr2 + padding_length hdr2 \<le> FCGI_MAX_LENGTH" "\<not> (hdr_type hdr2 = type_code FCGI_BEGIN_REQUEST \<and> content_length hdr2 = 8)"
            "hdr_type hdr2 \<noteq> type_code FCGI_GET_VALUES"
          by linarith
        then show ?thesis
        proof cases
          case 1
          then show ?thesis using h rh f1 f2 Some sk hd by (intro exI [of _ False] exI [of _ t]) (simp add: read_good_def)
        next
          case 2
          obtain ok u where "begin_request rd hdr2 buf ?t = Some (ok, u)" "read_good ?t u"
            using begin_request_safe [OF ok buf 2(1), of rd] by blast
          then show ?thesis using h(2) rh Some sk hd 2 up [of u] by (intro exI [of _ ok] exI [of _ u]) simp
        next
          case 3
          obtain ok u where "get_values rd vars hdr2 buf ?t = Some (ok, u)" "read_good ?t u"
            using get_values_safe [OF ok buf 3(1) sv, of rd] by blast
          moreover have "type_code FCGI_GET_VALUES \<noteq> type_code FCGI_BEGIN_REQUEST" by simp
          ultimately show ?thesis using h(2) rh Some sk hd 3 up [of u]
            by (intro exI [of _ ok] exI [of _ u]) (simp del: type_code.simps)
        next
          case 4
          then show ?thesis using h rh f1 f2 Some sk hd
            by (intro exI [of _ False] exI [of _ ?t]) (auto simp: read_good_def simp del: type_code.simps)
        qed
      qed
    qed
  qed
  then show ?thesis using good by blast
qed

end
