(* ===== verification/Fcgi_Body_Lemmas.thy ===== *)
theory Fcgi_Body_Lemmas
  imports Fcgi_Wire_Lemmas
begin

text \<open>
  Reading the body of a request: whatever the sizes of the records and of the reads, the bytes of
  the records come out one after the other.
\<close>

fun stdin_records :: "nat \<Rightarrow> (byte list \<times> byte list) list \<Rightarrow> byte list" where
  "stdin_records i [] = header_bytes (client_header FCGI_STDIN i 0 0)"
| "stdin_records i ((c, p) # cs) =
     header_bytes (client_header FCGI_STDIN i (length c) (length p)) @ c @ p @ stdin_records i cs"

definition piece_ok :: "byte list \<times> byte list \<Rightarrow> bool" where
  "piece_ok cp \<longleftrightarrow> fst cp \<noteq> [] \<and> length (fst cp) < 65536 \<and> length (snd cp) < 256"

text \<open>
  \<open>c\<close> is what is left of the record that is being read, with its padding \<open>p\<close>; the records \<open>cs\<close> follow.
\<close>

definition pending :: "nat \<Rightarrow> byte list \<Rightarrow> byte list \<Rightarrow> (byte list \<times> byte list) list \<Rightarrow> byte list \<Rightarrow> fcgi_request \<Rightarrow> bool" where
  "pending i c p cs rest r \<longleftrightarrow> in_len r = length c
     \<and> (if c = [] then inb r = stdin_records i cs @ rest
        else in_pad r = length p \<and> inb r = c @ p @ stdin_records i cs @ rest)"

lemma read_loop_chunk:
  assumes rd: "reads_all rd" and n: "0 < n" and c: "c \<noteq> []" and len: "in_len r = length c" "in_pad r = length p"
    and inb: "inb r = c @ p @ tail"
  shows "fcgi_read_loop rd n acc r =
    (if n < length c then (length acc + n, acc @ take n c, r\<lparr>in_len := length c - n, inb := drop n c @ p @ tail\<rparr>)
     else fcgi_read_loop rd (n - length c) (acc @ c) (r\<lparr>in_len := 0, inb := tail\<rparr>))"
proof (cases "n < length c")
  case True
  have "safe_read rd (min (in_len r) n) r = (take n c, r\<lparr>inb := drop n c @ p @ tail\<rparr>)"
    using True len inb by (simp add: safe_read_all [OF rd])
  moreover have "r\<lparr>inb := drop n c @ p @ tail, in_len := length c - n\<rparr> = r\<lparr>in_len := length c - n, inb := drop n c @ p @ tail\<rparr>"
    by simp
  ultimately show ?thesis using n True len c
    by (subst fcgi_read_loop.simps) (simp add: Let_def min_absorb2)
next
  case False
  have s1: "safe_read rd (min (in_len r) n) r = (c, r\<lparr>inb := p @ tail\<rparr>)"
    using False len inb by (simp add: safe_read_all [OF rd])
  have s2: "safe_read rd (length p) (r\<lparr>inb := p @ tail, in_len := 0\<rparr>) = (p, r\<lparr>inb := tail, in_len := 0\<rparr>)"
    by (simp add: safe_read_all [OF rd])
  have comm: "r\<lparr>inb := tail, in_len := 0\<rparr> = r\<lparr>in_len := 0, inb := tail\<rparr>" by simp
  show ?thesis
  proof (cases "p = []")
    case True
    then show ?thesis using n False c len s1
      by (subst fcgi_read_loop.simps) (simp add: Let_def comm)
  next
    case ne: False
    then show ?thesis using n False c len s1 s2
      by (subst fcgi_read_loop.simps) (simp add: Let_def comm)
  qed
qed

lemma read_loop_header:
  assumes rd: "reads_all rd" and n: "0 < n" and cp: "piece_ok (c, p)" and len: "in_len r = 0"
    and inb: "inb r = header_bytes (client_header FCGI_STDIN i (length c) (length p)) @ tail"
  shows "fcgi_read_loop rd n acc r = fcgi_read_loop rd n acc (r\<lparr>in_len := length c, in_pad := length p, inb := tail\<rparr>)"
proof -
  have rh: "read_header rd r = (Some (client_header FCGI_STDIN i (length c) (length p)), r\<lparr>inb := tail\<rparr>)"
    using inb by (intro read_header_all [OF rd]) simp_all
  have c: "c \<noteq> []" "length c < 65536" "length p < 256" using cp by (simp_all add: piece_ok_def)
  have comm: "r\<lparr>inb := tail, in_len := length c, in_pad := length p\<rparr> = r\<lparr>in_len := length c, in_pad := length p, inb := tail\<rparr>"
    by simp
  show ?thesis
    by (subst (1 2) fcgi_read_loop.simps)
      (use n len c in \<open>simp add: Let_def rh comm split del: if_split cong: if_cong\<close>)
qed

lemma read_loop_end:
  assumes rd: "reads_all rd" and n: "0 < n" and len: "in_len r = 0" and inb: "inb r = stdin_records i [] @ rest"
  shows "\<exists>u. fcgi_read_loop rd n acc r = (length acc, acc, u) \<and> inb u = rest \<and> in_len u = 0"
proof -
  have rh: "read_header rd r = (Some (client_header FCGI_STDIN i 0 0), r\<lparr>inb := rest\<rparr>)"
    using inb by (intro read_header_all [OF rd]) simp_all
  show ?thesis using n len
    by (subst fcgi_read_loop.simps) (simp add: Let_def rh)
qed

text \<open>What a read of \<open>n\<close> bytes comes to.\<close>

definition read_ok :: "nat \<Rightarrow> byte list \<Rightarrow> byte list \<Rightarrow> byte list \<Rightarrow> nat \<Rightarrow> nat \<times> byte list \<times> fcgi_request \<Rightarrow> bool" where
  "read_ok i acc body rest n res \<longleftrightarrow> (\<exists>u. res = (length acc + min n (length body), acc @ take n body, u)
     \<and> (if n \<le> length body then \<exists>c p cs. pending i c p cs rest u \<and> (\<forall>cp \<in> set cs. piece_ok cp)
             \<and> length p < 256 \<and> c @ concat (map fst cs) = drop n body
        else inb u = rest \<and> in_len u = 0))"

lemma read_loop_done:
  "pending i c p cs rest r \<Longrightarrow> \<forall>cp \<in> set cs. piece_ok cp \<Longrightarrow> length p < 256 \<Longrightarrow>
   read_ok i acc (c @ concat (map fst cs)) rest 0 (fcgi_read_loop rd 0 acc r)"
  by (subst fcgi_read_loop.simps) (auto simp: read_ok_def)

lemma read_ok_shift:
  assumes "read_ok i (acc @ c) body rest (n - length c) res" and "length c \<le> n"
  shows "read_ok i acc (c @ body) rest n res"
proof -
  have "n - length c \<le> length body \<longleftrightarrow> n \<le> length (c @ body)" using assms(2) by auto
  moreover have "length (acc @ c) + min (n - length c) (length body) = length acc + min n (length (c @ body))"
    using assms(2) by simp
  moreover have "(acc @ c) @ take (n - length c) body = acc @ take n (c @ body)" using assms(2) by simp
  moreover have "drop (n - length c) body = drop n (c @ body)" using assms(2) by simp
  ultimately show ?thesis using assms(1) by (simp only: read_ok_def)
qed

lemma read_loop_rest:
  assumes rd: "reads_all rd" and c: "c \<noteq> []" and P: "pending i c p cs rest r" and p: "length p < 256"
    and cs: "\<forall>cp \<in> set cs. piece_ok cp"
    and next_records: "\<And>n acc r. pending i [] [] cs rest r \<Longrightarrow> read_ok i acc (concat (map fst cs)) rest n (fcgi_read_loop rd n acc r)"
  shows "read_ok i acc (c @ concat (map fst cs)) rest n (fcgi_read_loop rd n acc r)"
proof (cases "n = 0")
  case True
  then show ?thesis using read_loop_done [OF P cs p] by simp
next
  case n: False
  have len: "in_len r = length c" "in_pad r = length p" "inb r = c @ p @ stdin_records i cs @ rest"
    using P c by (simp_all add: pending_def)
  note chunk = read_loop_chunk [OF rd _ c len, of n acc]
  show ?thesis
  proof (cases "n < length c")
    case True
    let ?u = "r\<lparr>in_len := length c - n, inb := drop n c @ p @ stdin_records i cs @ rest\<rparr>"
    have "pending i (drop n c) p cs rest ?u" using True len by (simp add: pending_def)
    then show ?thesis using True chunk n cs p by (auto simp: read_ok_def)
  next
    case False
    have "pending i [] [] cs rest (r\<lparr>in_len := 0, inb := stdin_records i cs @ rest\<rparr>)" by (simp add: pending_def)
    from next_records [OF this, of "acc @ c" "n - length c"] False show ?thesis
      using chunk n by (intro read_ok_shift) simp_all
  qed
qed

lemma read_loop_between:
  assumes rd: "reads_all rd" and "\<forall>cp \<in> set cs. piece_ok cp" and "pending i [] [] cs rest r"
  shows "read_ok i acc (concat (map fst cs)) rest n (fcgi_read_loop rd n acc r)"
  using assms(2,3)
proof (induction cs arbitrary: n acc r)
  case Nil
  show ?case
  proof (cases "n = 0")
    case True
    then show ?thesis using read_loop_done [OF Nil.prems(2,1)] by simp
  next
    case False
    then show ?thesis using Nil read_loop_end [OF rd, of n r i rest acc] by (auto simp: pending_def read_ok_def)
  qed
next
  case (Cons cp cs)
  obtain c p where cp: "cp = (c, p)" by (cases cp)
  have ok: "piece_ok (c, p)" "\<forall>cp \<in> set cs. piece_ok cp" using Cons.prems(1) cp by simp_all
  show ?case
  proof (cases "n = 0")
    case True
    then show ?thesis using read_loop_done [OF Cons.prems(2,1)] by simp
  next
    case False
    let ?r = "r\<lparr>in_len := length c, in_pad := length p, inb := c @ p @ stdin_records i cs @ rest\<rparr>"
    have "in_len r = 0" "inb r = header_bytes (client_header FCGI_STDIN i (length c) (length p)) @ c @ p @ stdin_records i cs @ rest"
      using Cons.prems(2) cp by (simp_all add: pending_def)
    from read_loop_header [OF rd _ ok(1) this, of n acc] False
    have run: "fcgi_read_loop rd n acc r = fcgi_read_loop rd n acc ?r" by simp
    have P: "pending i c p cs rest ?r" using ok(1) by (simp add: pending_def piece_ok_def)
    have "read_ok i acc (c @ concat (map fst cs)) rest n (fcgi_read_loop rd n acc ?r)"
    proof (rule read_loop_rest [OF rd _ P _ ok(2)])
      show "c \<noteq> []" "length p < 256" using ok(1) by (simp_all add: piece_ok_def)
    qed (rule Cons.IH [OF ok(2)])
    then show ?thesis unfolding run cp by simp
  qed
qed

lemma fcgi_read_run:
  assumes rd: "reads_all rd" and cs: "\<forall>cp \<in> set cs. piece_ok cp" and p: "length p < 256" and P: "pending i c p cs rest r"
  shows "read_ok i [] (c @ concat (map fst cs)) rest n (fcgi_read rd n r)"
proof (cases "c = []")
  case True
  then have "pending i [] [] cs rest r" using P by (simp add: pending_def)
  from read_loop_between [OF rd cs this] show ?thesis by (simp add: fcgi_read_def True)
next
  case False
  then show ?thesis unfolding fcgi_read_def
    by (intro read_loop_rest [OF rd _ P p cs]) (auto intro: read_loop_between [OF rd cs])
qed

end
