(* ===== verification/Fcgi_Out.thy ===== *)
theory Fcgi_Out
  imports Fcgi_Body_Lemmas
begin

text \<open>
  Writing the answer (main/fastcgi.c): records are built in \<open>out_buf\<close>, the open one's header is
  filled in when it is closed, and the buffer goes to the socket when it is full or flushed. A store
  outside of \<open>out_buf\<close> and the \<open>reserved\<close> bytes behind it is \<open>None\<close>.
\<close>

section \<open>Packets\<close>

text \<open>Copying to \<open>out_pos\<close>.\<close>

definition put_out :: "byte list \<Rightarrow> fcgi_request \<Rightarrow> fcgi_request option" where
  "put_out bs r = map_option (\<lambda>buf. r\<lparr>out_buf := buf, out_pos := out_pos r + length bs\<rparr>)
     (write_at (out_pos r) bs (out_buf r))"

definition open_packet :: "byte \<Rightarrow> fcgi_request \<Rightarrow> fcgi_request option" where
  "open_packet ty r = do {
     buf \<leftarrow> write_at (out_pos r + 1) [ty] (out_buf r);
     if out_pos r + 8 \<le> length buf
     then Some (r\<lparr>out_hdr := Some (out_pos r), out_buf := buf, out_pos := out_pos r + 8\<rparr>) else None
   }"

definition close_packet :: "fcgi_request \<Rightarrow> fcgi_request option" where
  "close_packet r =
     (case out_hdr r of
        None \<Rightarrow> Some r
      | Some h \<Rightarrow> do {
          let len = out_pos r - (h + 8);
          ty \<leftarrow> nth_opt (out_buf r) (h + 1);
          (pad, buf) \<leftarrow> fcgi_make_header h ty (req_id r) len (out_buf r);
          Some (r\<lparr>out_buf := buf, out_pos := out_pos r + pad, out_hdr := None\<rparr>)
        })"

text \<open>The result is the code's 1 or 0.\<close>

definition fcgi_flush :: "bool \<Rightarrow> fcgi_request \<Rightarrow> (bool \<times> fcgi_request) option" where
  "fcgi_flush end r = do {
     r \<leftarrow> close_packet r;
     let len = out_pos r;
     (len, r) \<leftarrow> (if end then do {
          (_, buf) \<leftarrow> fcgi_make_header (out_pos r) (type_code FCGI_END_REQUEST) (req_id r) 8 (out_buf r);
          buf \<leftarrow> write_at (out_pos r + 8) [0, 0, 0, 0, 0] buf;
          Some (len + 16, r\<lparr>out_buf := buf\<rparr>)
        } else Some (len, r));
     if length (out_buf r) < len then None
     else do {
       let (ok, r) = send_all (take len (out_buf r)) r;
       Some (if ok then (True, r\<lparr>out_pos := 0\<rparr>) else (False, r\<lparr>keep := False, out_pos := 0\<rparr>))
     }
   }"

section \<open>Writing\<close>

text \<open>A record whose content goes to the socket behind the buffer: header, flush, content.\<close>

definition write_direct :: "byte \<Rightarrow> byte list \<Rightarrow> fcgi_request \<Rightarrow> (bool \<times> fcgi_request) option" where
  "write_direct ty s r = do {
     let h = out_pos r;
     r \<leftarrow> open_packet ty r;
     (_, buf) \<leftarrow> fcgi_make_header h ty (req_id r) (length s) (out_buf r);
     (ok, r) \<leftarrow> fcgi_flush False (r\<lparr>out_buf := buf, out_hdr := None\<rparr>);
     if \<not> ok then Some (False, r)
     else do {
       let (ok, r) = send_all s r;
       Some (if ok then (True, r) else (False, r\<lparr>keep := False\<rparr>))
     }
   }"

text \<open>The loop over full records; what is left, or nothing when writing failed.\<close>

function write_chunks :: "byte \<Rightarrow> byte list \<Rightarrow> fcgi_request \<Rightarrow> (byte list option \<times> fcgi_request) option" where
  "write_chunks ty s r =
     (if length s \<le> 65535 then Some (Some s, r)
      else (case write_direct ty (take 65528 s) r of
          None \<Rightarrow> None
        | Some (ok, r) \<Rightarrow> if ok then write_chunks ty (drop 65528 s) r else Some (None, r)))"
  by pat_completeness auto
termination
  by (relation "measure (\<lambda>(ty, s, r). length s)") auto

declare write_chunks.simps [simp del]

text \<open>A record of another type is closed first; the room that is left for content in the buffer.\<close>

definition switch_packet :: "byte \<Rightarrow> fcgi_request \<Rightarrow> fcgi_request option" where
  "switch_packet ty r =
     (case out_hdr r of
        None \<Rightarrow> Some r
      | Some h \<Rightarrow> do {
          t \<leftarrow> nth_opt (out_buf r) (h + 1);
          if t \<noteq> ty then close_packet r else Some r
        })"

definition write_limit :: "fcgi_request \<Rightarrow> int" where
  "write_limit r =
     (let limit = int out_size - int (out_pos r) in
      if out_hdr r = None then (if limit - 8 < 0 then 0 else limit - 8) else limit)"

text \<open>The three cases: it fits, it fills the buffer once, or it is written past the buffer.\<close>

definition write_small :: "byte \<Rightarrow> byte list \<Rightarrow> fcgi_request \<Rightarrow> (int \<times> fcgi_request) option" where
  "write_small ty str r = do {
     r \<leftarrow> (if out_hdr r = None then open_packet ty r else Some r);
     r \<leftarrow> put_out str r;
     Some (int (length str), r)
   }"

definition write_split :: "byte \<Rightarrow> byte list \<Rightarrow> fcgi_request \<Rightarrow> (int \<times> fcgi_request) option" where
  "write_split ty str r = do {
     let limit = write_limit r;
     r \<leftarrow> (if out_hdr r = None then open_packet ty r else Some r);
     r \<leftarrow> (if 0 < limit then put_out (take (nat limit) str) r else Some r);
     (ok, r) \<leftarrow> fcgi_flush False r;
     if \<not> ok then Some (-1, r)
     else if limit < int (length str) then do {
       r \<leftarrow> open_packet ty r;
       r \<leftarrow> put_out (drop (nat limit) str) r;
       Some (int (length str), r)
     } else Some (int (length str), r)
   }"

definition write_large :: "byte \<Rightarrow> byte list \<Rightarrow> fcgi_request \<Rightarrow> (int \<times> fcgi_request) option" where
  "write_large ty str r = do {
     r \<leftarrow> close_packet r;
     (left, r) \<leftarrow> write_chunks ty str r;
     case left of
       None \<Rightarrow> Some (-1, r)
     | Some s \<Rightarrow> do {
         let pad = padding_of (length s);
         let rest = (if pad \<noteq> 0 then 8 - pad else 0);
         (ok, r) \<leftarrow> write_direct ty (take (length s - rest) s) r;
         if \<not> ok then Some (-1, r)
         else if pad \<noteq> 0 then do {
           r \<leftarrow> open_packet ty r;
           r \<leftarrow> put_out (drop (length s - rest) s) r;
           Some (int (length str), r)
         } else Some (int (length str), r)
       }
   }"

text \<open>The result is the number of bytes, or -1.\<close>

definition fcgi_write :: "byte \<Rightarrow> byte list \<Rightarrow> fcgi_request \<Rightarrow> (int \<times> fcgi_request) option" where
  "fcgi_write ty str r =
     (if str = [] then Some (0, r)
      else do {
        let len = int (length str);
        r \<leftarrow> switch_packet ty r;
        let limit = write_limit r;
        if len < limit then write_small ty str r
        else if len - limit < int out_size - 8 then write_split ty str r
        else write_large ty str r
      })"

section \<open>Ending a request\<close>

definition fcgi_end :: "fcgi_request \<Rightarrow> (bool \<times> fcgi_request) option" where
  "fcgi_end r =
     (if \<not> ended r then map_option (\<lambda>(ok, r). (ok, r\<lparr>ended := True\<rparr>)) (fcgi_flush True r)
      else Some (True, r))"

definition fcgi_close :: "bool \<Rightarrow> bool \<Rightarrow> fcgi_request \<Rightarrow> fcgi_request option" where
  "fcgi_close force destroy r = do {
     r \<leftarrow> (if destroy \<and> has_env r
           then map_option (\<lambda>h. r\<lparr>env := h, has_env := False\<rparr>) (fcgi_hash_clean (env r)) else Some r);
     Some (if (force \<or> \<not> keep r) \<and> 0 \<le> fd r then r\<lparr>fd := -1, hooks := hooks r @ [On_close]\<rparr> else r)
   }"

definition fcgi_finish_request :: "bool \<Rightarrow> fcgi_request \<Rightarrow> (bool \<times> fcgi_request) option" where
  "fcgi_finish_request force r =
     (if 0 \<le> fd r then do {
        (ret, r) \<leftarrow> fcgi_end r;
        r \<leftarrow> fcgi_close force True r;
        Some (ret, r)
      } else Some (True, r))"

definition fcgi_request_set_keep :: "bool \<Rightarrow> fcgi_request \<Rightarrow> fcgi_request" where
  "fcgi_request_set_keep k r = r\<lparr>keep := k\<rparr>"

end
