(* ===== verification/Fcgi_Out_Lemmas.thy ===== *)
theory Fcgi_Out_Lemmas
  imports Fcgi_Out
begin

text \<open>
  The writer refines a stream of tagged bytes: what has gone to the socket and what is in the buffer
  are records, whose contents in their order are what has been written, and no store leaves the buffer.
\<close>

section \<open>Records and their contents\<close>

type_synonym rcd = "byte \<times> byte list"

definition enc :: "int \<Rightarrow> rcd \<Rightarrow> byte list" where
  "enc i tc = header_bytes (new_header (fst tc) i (length (snd tc))) @ snd tc @ replicate (padding_of (length (snd tc))) 0"

definition encs :: "int \<Rightarrow> rcd list \<Rightarrow> byte list" where
  "encs i rs = concat (map (enc i) rs)"

text \<open>The tagged bytes of records.\<close>

definition flat :: "rcd list \<Rightarrow> (byte \<times> byte) list" where
  "flat rs = concat (map (\<lambda>(ty, c). map (Pair ty) c) rs)"

lemma encs_simps [simp]:
  "encs i [] = []" "encs i (tc # rs) = enc i tc @ encs i rs" "encs i (rs @ qs) = encs i rs @ encs i qs"
  by (simp_all add: encs_def)

lemma flat_simps [simp]:
  "flat [] = []" "flat ((ty, c) # rs) = map (Pair ty) c @ flat rs" "flat (rs @ qs) = flat rs @ flat qs"
  by (simp_all add: flat_def)

lemma enc_dvd: "8 dvd length (enc i tc)"
  using padding_of_dvd [of "length (snd tc)"] by (simp add: enc_def)

section \<open>Stores\<close>

lemma write_at_run:
  assumes "pos + length bs \<le> length buf"
  shows "\<exists>b. write_at pos bs buf = Some b \<and> length b = length buf
     \<and> (\<forall>n \<le> pos. take n b = take n buf) \<and> take (pos + length bs) b = take pos buf @ bs
     \<and> (\<forall>i < length bs. b ! (pos + i) = bs ! i)
     \<and> (\<forall>i. i < pos \<or> pos + length bs \<le> i \<longrightarrow> i < length buf \<longrightarrow> b ! i = buf ! i)"
proof -
  let ?b = "take pos buf @ bs @ drop (pos + length bs) buf"
  have tp: "length (take pos buf) = pos" using assms by simp
  have "\<forall>i. i < pos \<or> pos + length bs \<le> i \<longrightarrow> i < length buf \<longrightarrow> ?b ! i = buf ! i"
    using assms by (auto simp: nth_append)
  moreover have "\<forall>i < length bs. ?b ! (pos + i) = bs ! i" using tp by (simp add: nth_append)
  moreover have "\<forall>n \<le> pos. take n ?b = take n buf" using tp by (simp add: min_absorb1)
  moreover have "take (pos + length bs) ?b = take pos buf @ bs" using tp by simp
  moreover have "length ?b = length buf" using assms by simp
  ultimately show ?thesis using assms by (intro exI [of _ ?b]) (simp add: write_at_def)
qed

section \<open>The state of the writer\<close>

text \<open>
  \<open>rs\<close> are the closed records, sent or in the buffer; \<open>opn\<close> is the open one. The socket does not fail.
\<close>

definition rep :: "rcd list \<Rightarrow> rcd option \<Rightarrow> fcgi_request \<Rightarrow> bool" where
  "rep rs opn r \<longleftrightarrow> length (out_buf r) = out_size + 16 \<and> Failed \<notin> set (socket r) \<and> out_pos r \<le> out_size + 16
     \<and> (\<forall>q \<in> set rs. length (snd q) < 65536)
     \<and> (case opn of
          None \<Rightarrow> out_hdr r = None \<and> 8 dvd out_pos r \<and> sent r @ take (out_pos r) (out_buf r) = encs (req_id r) rs
        | Some (ty, c) \<Rightarrow> (\<exists>h. out_hdr r = Some h \<and> 8 dvd h \<and> out_pos r = h + 8 + length c
            \<and> sent r @ take h (out_buf r) = encs (req_id r) rs \<and> out_buf r ! (h + 1) = ty
            \<and> take (length c) (drop (h + 8) (out_buf r)) = c))"

definition same_conn :: "fcgi_request \<Rightarrow> fcgi_request \<Rightarrow> bool" where
  "same_conn r u \<longleftrightarrow> req_id u = req_id r \<and> fd u = fd r \<and> keep u = keep r \<and> ended u = ended r
     \<and> has_env u = has_env r \<and> env u = env r \<and> hooks u = hooks r \<and> inb u = inb r"

lemma same_conn_refl [simp]: "same_conn r r"
  by (simp add: same_conn_def)

lemma same_conn_trans: "same_conn r s \<Longrightarrow> same_conn s t \<Longrightarrow> same_conn r t"
  by (simp add: same_conn_def)

lemma same_conn_out [simp]:
  "same_conn r (u\<lparr>out_pos := a\<rparr>) = same_conn r u" "same_conn r (u\<lparr>out_buf := b\<rparr>) = same_conn r u"
  "same_conn r (u\<lparr>out_hdr := c\<rparr>) = same_conn r u" "same_conn r (u\<lparr>sent := d\<rparr>) = same_conn r u"
  "same_conn r (u\<lparr>socket := e\<rparr>) = same_conn r u"
  by (simp_all add: same_conn_def)

lemma safe_write_ok:
  "Failed \<notin> set rs \<Longrightarrow> \<exists>qs. safe_write bs n rs out = (int (n + length bs), qs, out @ bs) \<and> Failed \<notin> set qs"
proof (induction bs n rs out rule: safe_write.induct)
  case (2 bs n k rs out)
  show ?case
  proof (cases "length bs \<le> k")
    case True
    then show ?thesis using 2 by auto
  next
    case False
    then obtain qs where "safe_write (drop k bs) (n + k) rs (out @ take k bs)
        = (int (n + k + length (drop k bs)), qs, (out @ take k bs) @ drop k bs)" "Failed \<notin> set qs"
      using "2.IH" [OF False] "2.prems" by auto
    then show ?thesis using False by auto
  qed
qed auto

lemma send_all_ok:
  assumes "Failed \<notin> set (socket r)"
  shows "\<exists>qs. send_all bs r = (True, r\<lparr>socket := qs, sent := sent r @ bs\<rparr>) \<and> Failed \<notin> set qs"
  using safe_write_ok [OF assms, of bs 0 "sent r"] by (auto simp: send_all_def)

lemma repD:
  assumes "rep rs opn r"
  shows "length (out_buf r) = out_size + 16" and "Failed \<notin> set (socket r)" and "out_pos r \<le> out_size + 16"
    and "opn = None \<Longrightarrow> out_hdr r = None \<and> 8 dvd out_pos r \<and> sent r @ take (out_pos r) (out_buf r) = encs (req_id r) rs"
    and "\<forall>q \<in> set rs. length (snd q) < 65536"
  using assms by (auto simp: rep_def)

lemma rep_openD:
  assumes "rep rs (Some (ty, c)) r"
  obtains h where "out_hdr r = Some h" "8 dvd h" "out_pos r = h + 8 + length c"
    "sent r @ take h (out_buf r) = encs (req_id r) rs" "out_buf r ! (h + 1) = ty"
    "take (length c) (drop (h + 8) (out_buf r)) = c"
  using assms by (auto simp: rep_def)

section \<open>One packet\<close>

lemma open_run:
  assumes R: "rep rs None r" and pos: "out_pos r + 8 \<le> out_size + 16"
  shows "\<exists>u. open_packet ty r = Some u \<and> rep rs (Some (ty, [])) u \<and> out_pos u = out_pos r + 8 \<and> same_conn r u"
proof -
  note d = repD [OF R]
  obtain b where b: "write_at (out_pos r + 1) [ty] (out_buf r) = Some b" "length b = length (out_buf r)"
    "take (out_pos r) b = take (out_pos r) (out_buf r)" "b ! (out_pos r + 1) = ty"
    using write_at_run [of "out_pos r + 1" "[ty]" "out_buf r"] pos d(1) by fastforce
  let ?u = "r\<lparr>out_hdr := Some (out_pos r), out_buf := b, out_pos := out_pos r + 8\<rparr>"
  have "open_packet ty r = Some ?u" using b pos d(1) by (simp add: open_packet_def)
  moreover have "rep rs (Some (ty, [])) ?u" using d b pos by (simp add: rep_def)
  ultimately show ?thesis by simp
qed

lemma put_run:
  assumes R: "rep rs (Some (ty, c)) r" and pos: "out_pos r + length s \<le> out_size + 16"
  shows "\<exists>u. put_out s r = Some u \<and> rep rs (Some (ty, c @ s)) u \<and> out_pos u = out_pos r + length s \<and> same_conn r u"
proof -
  note d = repD [OF R]
  obtain h where h: "out_hdr r = Some h" "8 dvd h" "out_pos r = h + 8 + length c"
    "sent r @ take h (out_buf r) = encs (req_id r) rs" "out_buf r ! (h + 1) = ty"
    "take (length c) (drop (h + 8) (out_buf r)) = c" using rep_openD [OF R] .
  obtain b where b: "write_at (out_pos r) s (out_buf r) = Some b" "length b = length (out_buf r)"
    "\<forall>n \<le> out_pos r. take n b = take n (out_buf r)" "take (out_pos r + length s) b = take (out_pos r) (out_buf r) @ s"
    using write_at_run [of "out_pos r" s "out_buf r"] pos d(1) by auto
  let ?u = "r\<lparr>out_buf := b, out_pos := out_pos r + length s\<rparr>"
  have e: "out_pos r + length s = length c + length s + (h + 8)" "out_pos r = length c + (h + 8)" using h(3) by simp_all
  have "take (length c + length s) (drop (h + 8) b) = drop (h + 8) (take (out_pos r + length s) b)"
    unfolding e(1) by (rule take_drop)
  also have "\<dots> = drop (h + 8) (take (out_pos r) (out_buf r)) @ s"
    unfolding b(4) using h(3) pos d(1) by simp
  also have "drop (h + 8) (take (out_pos r) (out_buf r)) = c"
    using h(6) unfolding e(2) take_drop by simp
  finally have ct: "take (length c + length s) (drop (h + 8) b) = c @ s" .
  have "b ! (h + 1) = take (h + 8) b ! (h + 1)" by simp
  also have "\<dots> = take (h + 8) (out_buf r) ! (h + 1)" using b(3) h(3) by simp
  finally have ty: "b ! (h + 1) = ty" using h(5) by simp
  have "take h b = take h (out_buf r)" using b(3) h(3) by simp
  then have "rep rs (Some (ty, c @ s)) ?u" using d b(2) h ct ty pos by (simp add: rep_def)
  moreover have "put_out s r = Some ?u" using b(1) by (simp add: put_out_def)
  ultimately show ?thesis by simp
qed

text \<open>Filling in a header at \<open>h\<close>, in front of \<open>len\<close> bytes of content, and the padding behind it.\<close>

lemma make_header_run:
  assumes "h + 8 + len + padding_of len \<le> length buf"
  shows "\<exists>b. fcgi_make_header h ty i len buf = Some (padding_of len, b) \<and> length b = length buf
     \<and> take h b = take h buf
     \<and> take (h + 8 + len + padding_of len) b
       = take h buf @ header_bytes (new_header ty i len) @ take len (drop (h + 8) buf) @ replicate (padding_of len) 0"
proof -
  let ?hb = "header_bytes (new_header ty i len)" and ?p = "padding_of len"
  obtain b1 where b1: "write_at h ?hb buf = Some b1" "length b1 = length buf" "take h b1 = take h buf"
    "take (h + 8) b1 = take h buf @ ?hb" "\<forall>i. h + 8 \<le> i \<longrightarrow> i < length buf \<longrightarrow> b1 ! i = buf ! i"
    using write_at_run [of h ?hb buf] assms by auto
  have rest: "drop (h + 8) b1 = drop (h + 8) buf"
    using b1(2,5) by (intro nth_equalityI) auto
  obtain b where b: "write_at (h + 8 + len) (replicate ?p 0) b1 = Some b" "length b = length buf"
    "take (h + 8 + len + ?p) b = take (h + 8 + len) b1 @ replicate ?p 0" "take h b = take h b1"
    using write_at_run [of "h + 8 + len" "replicate ?p 0" b1] assms b1(2) by auto
  have t: "take (h + 8 + len) b1 = take h buf @ ?hb @ take len (drop (h + 8) buf)"
    using b1(4) rest by (simp add: take_add)
  show ?thesis
  proof (cases "?p = 0")
    case True
    then show ?thesis using b1 t by (intro exI [of _ b1]) (simp add: fcgi_make_header_def)
  next
    case False
    then show ?thesis using b b1 t by (intro exI [of _ b]) (simp add: fcgi_make_header_def)
  qed
qed

lemma close_run:
  assumes R: "rep rs (Some (ty, c)) r" and pos: "out_pos r \<le> out_size + 8"
  shows "\<exists>u. close_packet r = Some u \<and> rep (rs @ [(ty, c)]) None u
     \<and> out_pos u = out_pos r + padding_of (length c) \<and> same_conn r u"
proof -
  note d = repD [OF R]
  obtain h where h: "out_hdr r = Some h" "8 dvd h" "out_pos r = h + 8 + length c"
    "sent r @ take h (out_buf r) = encs (req_id r) rs" "out_buf r ! (h + 1) = ty"
    "take (length c) (drop (h + 8) (out_buf r)) = c" using rep_openD [OF R] .
  let ?p = "padding_of (length c)"
  have room: "h + 8 + length c + ?p \<le> length (out_buf r)"
    using pos h(3) d(1) padding_of_less [of "length c"] by simp
  obtain b where b: "fcgi_make_header h ty (req_id r) (length c) (out_buf r) = Some (?p, b)" "length b = length (out_buf r)"
    "take (h + 8 + length c + ?p) b = take h (out_buf r) @ header_bytes (new_header ty (req_id r) (length c)) @ c @ replicate ?p 0"
    using make_header_run [OF room, of ty "req_id r"] h(6) by auto
  let ?u = "r\<lparr>out_buf := b, out_pos := out_pos r + ?p, out_hdr := None\<rparr>"
  have "close_packet r = Some ?u"
    using h room b(1) by (simp add: close_packet_def nth_opt_def)
  moreover have "rep (rs @ [(ty, c)]) None ?u"
  proof -
    have "8 dvd h + 8 + (length c + ?p)" using h(2) padding_of_dvd [of "length c"] by simp
    then have "8 dvd out_pos r + ?p" by (simp add: h(3) add.assoc)
    then show ?thesis using d b h room by (simp add: rep_def enc_def add.assoc out_size_def)
  qed
  ultimately show ?thesis by simp
qed

lemma close_none: "rep rs None r \<Longrightarrow> close_packet r = Some r"
  by (simp add: close_packet_def rep_def)

section \<open>Flushing\<close>

lemma flush_none:
  assumes R: "rep rs None r"
  shows "\<exists>u. fcgi_flush False r = Some (True, u) \<and> rep rs None u \<and> out_pos u = 0 \<and> sent u = encs (req_id r) rs
     \<and> same_conn r u"
proof -
  note d = repD [OF R]
  obtain qs where qs: "send_all (take (out_pos r) (out_buf r)) r
      = (True, r\<lparr>socket := qs, sent := sent r @ take (out_pos r) (out_buf r)\<rparr>)" "Failed \<notin> set qs"
    using send_all_ok [OF d(2)] by blast
  let ?u = "r\<lparr>socket := qs, sent := sent r @ take (out_pos r) (out_buf r), out_pos := 0\<rparr>"
  have "fcgi_flush False r = Some (True, ?u)"
    using close_none [OF R] d(1,3) qs(1) by (simp add: fcgi_flush_def)
  then show ?thesis using d qs(2) by (simp add: rep_def)
qed

lemma flush_open:
  assumes R: "rep rs (Some (ty, c)) r" and pos: "out_pos r \<le> out_size + 8"
  shows "\<exists>u. fcgi_flush False r = Some (True, u) \<and> rep (rs @ [(ty, c)]) None u \<and> out_pos u = 0 \<and> same_conn r u"
proof -
  obtain s where s: "close_packet r = Some s" "rep (rs @ [(ty, c)]) None s" "same_conn r s"
    using close_run [OF R pos] by blast
  obtain u where u: "fcgi_flush False s = Some (True, u)" "rep (rs @ [(ty, c)]) None u" "out_pos u = 0" "same_conn s u"
    using flush_none [OF s(2)] by blast
  have "fcgi_flush False r = fcgi_flush False s" using s(1) close_none [OF s(2)] by (simp add: fcgi_flush_def)
  then show ?thesis using u s(3) same_conn_trans by auto
qed

lemma flush_end:
  assumes R: "rep rs None r" and pos: "out_pos r \<le> out_size"
  shows "\<exists>u b3. fcgi_flush True r = Some (True, u) \<and> out_pos u = 0 \<and> same_conn r u \<and> length b3 = 3
     \<and> sent u = encs (req_id r) rs @ header_bytes (new_header (type_code FCGI_END_REQUEST) (req_id r) 8) @ [0, 0, 0, 0, 0] @ b3"
proof -
  note d = repD [OF R]
  let ?p = "out_pos r" and ?hb = "header_bytes (new_header (type_code FCGI_END_REQUEST) (req_id r) 8)"
  have pad: "padding_of 8 = 0" by simp
  obtain b where b: "fcgi_make_header ?p (type_code FCGI_END_REQUEST) (req_id r) 8 (out_buf r) = Some (0, b)"
    "length b = length (out_buf r)"
    "take (?p + 8 + 8) b = take ?p (out_buf r) @ ?hb @ take 8 (drop (?p + 8) (out_buf r))"
    using make_header_run [of ?p 8 "out_buf r" "type_code FCGI_END_REQUEST" "req_id r"] pos d(1) unfolding pad by auto
  let ?z = "[0, 0, 0, 0, 0] :: byte list"
  obtain c where c: "write_at (?p + 8) ?z b = Some c" "length c = length b" "take (?p + 8) c = take (?p + 8) b"
    "take (?p + 8 + 5) c = take (?p + 8) b @ ?z"
    using write_at_run [of "?p + 8" ?z b] pos d(1) b(2) by auto
  have hd: "take (?p + 8) b = take ?p (out_buf r) @ ?hb"
  proof -
    have "take (?p + 8) b = take (?p + 8) (take (?p + 8 + 8) b)" by (simp add: min_def)
    then show ?thesis unfolding b(3) using pos d(1) by simp
  qed
  let ?b3 = "take 3 (drop (?p + 13) c)"
  have out: "take (?p + 16) c = take ?p (out_buf r) @ ?hb @ ?z @ ?b3"
  proof -
    have e: "?p + 16 = ?p + 13 + 3" by simp
    have "take (?p + 16) c = take (?p + 13) c @ ?b3" unfolding e by (rule take_add)
    also have "take (?p + 13) c = take (?p + 8) b @ ?z" using c(4) by (simp add: add.assoc)
    finally show ?thesis unfolding hd by simp
  qed
  have "Failed \<notin> set (socket (r\<lparr>out_buf := c\<rparr>))" using d(2) by simp
  from send_all_ok [OF this, of "take (?p + 16) c"] obtain qs where
    qs: "send_all (take (?p + 16) c) (r\<lparr>out_buf := c\<rparr>) = (True, r\<lparr>out_buf := c, socket := qs, sent := sent r @ take (?p + 16) c\<rparr>)"
    by auto
  let ?u = "r\<lparr>out_buf := c, socket := qs, sent := sent r @ take (?p + 16) c, out_pos := 0\<rparr>"
  have "fcgi_flush True r = Some (True, ?u)"
    using close_none [OF R] b(1) c(1,2) b(2) d(1) pos qs by (simp add: fcgi_flush_def)
  moreover have "length ?b3 = 3" using c(2) b(2) d(1) pos by simp
  moreover have "sent ?u = encs (req_id r) rs @ ?hb @ ?z @ ?b3"
    using d(4) out by (simp flip: append_assoc)
  ultimately show ?thesis by (intro exI [of _ ?u] exI [of _ ?b3]) simp
qed

section \<open>Writing\<close>

lemma direct_run:
  assumes R: "rep rs None r" and pos: "out_pos r + 8 \<le> out_size + 16" and s: "8 dvd length s" "length s < 65536"
  shows "\<exists>u. write_direct ty s r = Some (True, u) \<and> rep (rs @ [(ty, s)]) None u \<and> out_pos u = 0 \<and> same_conn r u"
proof -
  note d = repD [OF R]
  let ?p = "out_pos r" and ?hb = "header_bytes (new_header ty (req_id r) (length s))"
  obtain v where v: "open_packet ty r = Some v" "rep rs (Some (ty, [])) v" "out_pos v = ?p + 8" "same_conn r v"
    using open_run [OF R pos] by blast
  obtain h where h: "out_hdr v = Some h" "out_pos v = h + 8" "sent v @ take h (out_buf v) = encs (req_id v) rs"
    using rep_openD [OF v(2)] by auto
  have hp: "h = ?p" and idv: "req_id v = req_id r" using h(2) v(3,4) by (simp_all add: same_conn_def)
  note dv = repD [OF v(2)]
  have pad: "padding_of (length s) = 0" using s(1) by simp
  \<comment> \<open>the content is not in the buffer: only the header is filled in\<close>
  obtain b where b0: "write_at ?p ?hb (out_buf v) = Some b" "length b = length (out_buf v)"
    "take (?p + 8) b = take ?p (out_buf v) @ ?hb"
    using write_at_run [of ?p ?hb "out_buf v"] pos dv(1) by auto
  have b: "fcgi_make_header ?p ty (req_id v) (length s) (out_buf v) = Some (0, b)"
    using b0(1) by (simp add: fcgi_make_header_def pad idv)
  let ?w = "v\<lparr>out_buf := b, out_hdr := None\<rparr>"
  obtain qs where qs: "send_all (take (?p + 8) b) ?w = (True, ?w\<lparr>socket := qs, sent := sent v @ take (?p + 8) b\<rparr>)" "Failed \<notin> set qs"
    using send_all_ok [of ?w] dv(2) by auto
  let ?x = "?w\<lparr>socket := qs, sent := sent v @ take (?p + 8) b, out_pos := 0\<rparr>"
  have fl: "fcgi_flush False ?w = Some (True, ?x)"
    using b0(2) dv(1) v(3) pos qs(1) by (simp add: fcgi_flush_def close_packet_def)
  obtain qs2 where qs2: "send_all s ?x = (True, ?x\<lparr>socket := qs2, sent := sent ?x @ s\<rparr>)" "Failed \<notin> set qs2"
    using send_all_ok [of ?x s] qs(2) by auto
  let ?u = "?x\<lparr>socket := qs2, sent := sent ?x @ s\<rparr>"
  have "write_direct ty s r = Some (True, ?u)"
    using v(1) b fl qs2(1) by (simp add: write_direct_def hp)
  moreover have "rep (rs @ [(ty, s)]) None ?u"
    using d(5) s dv(1) b0(2,3) qs2(2) h(3) by (simp add: rep_def enc_def pad hp idv flip: append_assoc)
  moreover have "same_conn r ?u" using v(4) by simp
  ultimately show ?thesis by (intro exI [of _ ?u]) simp
qed

lemma chunks_run:
  assumes "rep rs None r" and "out_pos r + 8 \<le> out_size + 16"
  shows "\<exists>u qs left. write_chunks ty s r = Some (Some left, u) \<and> rep (rs @ qs) None u \<and> out_pos u + 8 \<le> out_size + 16
     \<and> same_conn r u \<and> flat qs @ map (Pair ty) left = map (Pair ty) s \<and> length left \<le> 65535
     \<and> (8 \<le> length s \<longrightarrow> 8 \<le> length left) \<and> (\<forall>q \<in> set qs. snd q \<noteq> [] \<and> length (snd q) \<le> 65535)"
  using assms
proof (induction ty s r arbitrary: rs rule: write_chunks.induct)
  case (1 ty s r)
  show ?case
  proof (cases "length s \<le> 65535")
    case True
    then show ?thesis using "1.prems"
      by (intro exI [of _ r] exI [of _ "[]"] exI [of _ s]) (simp add: write_chunks.simps [of ty s r])
  next
    case False
    have "8 dvd length (take 65528 s)" "length (take 65528 s) < 65536" using False by (simp_all add: min_def)
    from direct_run [OF "1.prems" this, of ty] obtain v where
      v: "write_direct ty (take 65528 s) r = Some (True, v)" "rep (rs @ [(ty, take 65528 s)]) None v" "out_pos v = 0" "same_conn r v"
      by blast
    from "1.IH" [OF False v(1) refl TrueI v(2)] v(3) obtain u qs left where
      u: "write_chunks ty (drop 65528 s) v = Some (Some left, u)" "rep ((rs @ [(ty, take 65528 s)]) @ qs) None u"
        "out_pos u + 8 \<le> out_size + 16" "same_conn v u" "flat qs @ map (Pair ty) left = map (Pair ty) (drop 65528 s)"
        "length left \<le> 65535" "8 \<le> length (drop 65528 s) \<longrightarrow> 8 \<le> length left"
        "\<forall>q \<in> set qs. snd q \<noteq> [] \<and> length (snd q) \<le> 65535" by (auto simp: out_size_def)
    have "map (Pair ty) s = map (Pair ty) (take 65528 s) @ map (Pair ty) (drop 65528 s)"
      by (simp flip: map_append)
    then show ?thesis using u v(1,4) False same_conn_trans [OF v(4) u(4)]
      by (intro exI [of _ u] exI [of _ "(ty, take 65528 s) # qs"] exI [of _ left])
        (auto simp: write_chunks.simps [of ty s r])
  qed
qed

text \<open>Between two writes: a closed buffer is not over-full, and an open record has room left.\<close>

definition settled :: "rcd option \<Rightarrow> fcgi_request \<Rightarrow> bool" where
  "settled opn r \<longleftrightarrow> (case opn of None \<Rightarrow> out_pos r \<le> out_size | Some (ty, c) \<Rightarrow> out_pos r < out_size \<and> c \<noteq> [])"

definition open_part :: "rcd option \<Rightarrow> rcd list" where
  "open_part opn = (case opn of None \<Rightarrow> [] | Some tc \<Rightarrow> [tc])"

lemma open_part_simps [simp]: "open_part None = []" "open_part (Some tc) = [tc]"
  by (simp_all add: open_part_def)

lemma pad_room: "8 dvd h \<Longrightarrow> h + 8 + n \<le> 8192 \<Longrightarrow> h + 8 + n + padding_of n \<le> 8192"
proof (elim dvdE)
  fix k
  assume a: "h + 8 + n \<le> 8192" and h: "h = 8 * k"
  have "n \<le> (n + 7) div 8 * 8" "(n + 7) div 8 * 8 \<le> n + 7" by linarith+
  then have "n + padding_of n = (n + 7) div 8 * 8" by (simp add: padding_of_def)
  moreover have "k + 1 + (n + 7) div 8 \<le> 1024" using a h by linarith
  ultimately show "h + 8 + n + padding_of n \<le> 8192" using h by linarith
qed

text \<open>Before a record of type \<open>ty\<close> is written, one of another type is closed.\<close>

lemma switch_run:
  assumes R: "rep rs opn r" and S: "settled opn r"
  shows "\<exists>u qs opn'. switch_packet ty r = Some u
     \<and> rep qs opn' u \<and> settled opn' u \<and> same_conn r u \<and> flat qs @ flat (open_part opn') = flat rs @ flat (open_part opn)
     \<and> (opn' = None \<or> (\<exists>c. opn' = Some (ty, c)))"
proof (cases opn)
  case None
  then show ?thesis using R S repD(4) [OF R None]
    by (intro exI [of _ r] exI [of _ rs] exI [of _ None]) (simp add: switch_packet_def)
next
  case (Some tc)
  obtain t c where tc: "tc = (t, c)" by (cases tc)
  have R': "rep rs (Some (t, c)) r" using R Some tc by simp
  obtain h where h: "out_hdr r = Some h" "8 dvd h" "out_pos r = h + 8 + length c" "out_buf r ! (h + 1) = t"
    using rep_openD [OF R'] by metis
  have pos: "out_pos r < out_size" "c \<noteq> []" using S Some tc by (simp_all add: settled_def)
  have nt: "nth_opt (out_buf r) (h + 1) = Some t" using repD(1) [OF R] h pos by (simp add: nth_opt_def)
  show ?thesis
  proof (cases "t = ty")
    case True
    then show ?thesis using R' S Some tc h(1) nt
      by (intro exI [of _ r] exI [of _ rs] exI [of _ "Some (t, c)"]) (simp add: switch_packet_def)
  next
    case False
    obtain u where u: "close_packet r = Some u" "rep (rs @ [(t, c)]) None u"
      "out_pos u = out_pos r + padding_of (length c)" "same_conn r u"
      using close_run [OF R'] pos(1) by auto
    have "out_pos u \<le> out_size" using pad_room [OF h(2), of "length c"] pos(1) u(3) h(3) by (simp add: out_size_def)
    then show ?thesis using u False h(1) nt Some tc
      by (intro exI [of _ u] exI [of _ "rs @ [(t, c)]"] exI [of _ None]) (simp add: settled_def switch_packet_def)
  qed
qed

lemma open_or_not:
  assumes R: "rep rs opn r" and opn: "opn = None \<or> (\<exists>c. opn = Some (ty, c))" and S: "settled opn r"
  shows "\<exists>u c. (if out_hdr r = None then open_packet ty r else Some r) = Some u \<and> rep rs (Some (ty, c)) u
     \<and> out_pos u = (if out_hdr r = None then out_pos r + 8 else out_pos r) \<and> same_conn r u
     \<and> flat (open_part opn) = map (Pair ty) c \<and> (out_hdr r = None \<longleftrightarrow> opn = None)"
proof (cases opn)
  case None
  obtain u where "open_packet ty r = Some u" "rep rs (Some (ty, [])) u" "out_pos u = out_pos r + 8" "same_conn r u"
    using open_run [of rs r ty] R S None by (auto simp: settled_def)
  then show ?thesis using repD(4) [OF R None] None by auto
next
  case (Some tc)
  then obtain c where c: "opn = Some (ty, c)" using opn by auto
  then obtain h where "out_hdr r = Some h" using rep_openD R by metis
  then show ?thesis using R c by auto
qed

lemma limit_ok:
  assumes R: "rep rs opn r" and S: "settled opn r"
  shows "write_limit r = (if opn = None then max 0 (int out_size - int (out_pos r) - 8) else int out_size - int (out_pos r))"
    and "0 \<le> write_limit r"
proof -
  have "out_hdr r = None \<longleftrightarrow> opn = None" using R by (cases opn) (auto simp: rep_def)
  then show "write_limit r = (if opn = None then max 0 (int out_size - int (out_pos r) - 8) else int out_size - int (out_pos r))"
    by (simp add: write_limit_def Let_def)
  then show "0 \<le> write_limit r" using S by (auto simp: settled_def split: option.splits)
qed

abbreviation wrote :: "byte \<Rightarrow> byte list \<Rightarrow> rcd list \<Rightarrow> rcd option \<Rightarrow> fcgi_request \<Rightarrow> fcgi_request \<Rightarrow> bool" where
  "wrote ty s rs opn r u \<equiv> \<exists>qs opn'. rep qs opn' u \<and> settled opn' u \<and> same_conn r u
     \<and> flat qs @ flat (open_part opn') = flat rs @ flat (open_part opn) @ map (Pair ty) s"

lemma small_run:
  assumes R: "rep rs opn r" and S: "settled opn r" and opn: "opn = None \<or> (\<exists>c. opn = Some (ty, c))" and s: "s \<noteq> []"
    and fits: "int (length s) < write_limit r"
  shows "\<exists>u. write_small ty s r = Some (int (length s), u) \<and> wrote ty s rs opn r u"
proof -
  obtain v c where v: "(if out_hdr r = None then open_packet ty r else Some r) = Some v" "rep rs (Some (ty, c)) v"
    "out_pos v = (if out_hdr r = None then out_pos r + 8 else out_pos r)" "same_conn r v"
    "flat (open_part opn) = map (Pair ty) c" "out_hdr r = None \<longleftrightarrow> opn = None"
    using open_or_not [OF R opn S] by (elim exE conjE) (rule that)
  have pos: "out_pos v + length s < out_size"
    using fits v(3,6) limit_ok(1) [OF R S] by (auto split: if_splits)
  obtain u where u: "put_out s v = Some u" "rep rs (Some (ty, c @ s)) u" "out_pos u = out_pos v + length s" "same_conn v u"
    using put_run [OF v(2)] pos by (metis add_leD1 less_imp_le_nat trans_le_add1)
  have "write_small ty s r = Some (int (length s), u)" using v(1) u(1) by (simp add: write_small_def split del: if_split)
  moreover have "settled (Some (ty, c @ s)) u" using pos u(3) s by (simp add: settled_def)
  ultimately show ?thesis using u(2) same_conn_trans [OF v(4) u(4)] v(5)
    by (intro exI [of _ u] conjI exI [of _ rs] exI [of _ "Some (ty, c @ s)"]) simp_all
qed

text \<open>Opening a record in an empty buffer and putting the rest there.\<close>

lemma restart_run:
  assumes R: "rep rs None r" and pos: "out_pos r = 0" and s: "s \<noteq> []" "length s < out_size - 8"
  shows "\<exists>u v. open_packet ty r = Some v \<and> put_out s v = Some u \<and> rep rs (Some (ty, s)) u \<and> settled (Some (ty, s)) u \<and> same_conn r u"
proof -
  obtain v where v: "open_packet ty r = Some v" "rep rs (Some (ty, [])) v" "out_pos v = 8" "same_conn r v"
    using open_run [OF R, of ty] pos by auto
  have "out_pos v + length s \<le> out_size + 16" using s(2) v(3) by linarith
  from put_run [OF v(2) this] obtain u where
    u: "put_out s v = Some u" "rep rs (Some (ty, s)) u" "out_pos u = 8 + length s" "same_conn v u"
    using v(3) by auto
  moreover have "settled (Some (ty, s)) u" using u(3) s by (simp add: settled_def)
  ultimately show ?thesis using v same_conn_trans [OF v(4) u(4)] by blast
qed

lemma split_run:
  assumes R: "rep rs opn r" and S: "settled opn r" and opn: "opn = None \<or> (\<exists>c. opn = Some (ty, c))"
    and big: "\<not> int (length s) < write_limit r" and once: "int (length s) - write_limit r < int out_size - 8"
  shows "\<exists>u. write_split ty s r = Some (int (length s), u) \<and> wrote ty s rs opn r u"
proof -
  obtain v c where v: "(if out_hdr r = None then open_packet ty r else Some r) = Some v" "rep rs (Some (ty, c)) v"
    "out_pos v = (if out_hdr r = None then out_pos r + 8 else out_pos r)" "same_conn r v"
    "flat (open_part opn) = map (Pair ty) c" "out_hdr r = None \<longleftrightarrow> opn = None"
    using open_or_not [OF R opn S] by (elim exE conjE) (rule that)
  let ?l = "nat (write_limit r)"
  note lim = limit_ok [OF R S]
  have pos: "out_pos v + ?l \<le> out_size + 8"
    using v(3,6) lim S by (auto simp: settled_def nat_le_iff split: if_splits option.splits)
  have len: "?l \<le> length s" using big lim(2) by simp
  obtain w where w: "(if 0 < write_limit r then put_out (take ?l s) v else Some v) = Some w"
    "rep rs (Some (ty, c @ take ?l s)) w" "out_pos w = out_pos v + ?l" "same_conn v w"
  proof (cases "0 < write_limit r")
    case True
    have "out_pos v + length (take ?l s) \<le> out_size + 16" using pos len by simp
    from put_run [OF v(2) this] show ?thesis using True len that by auto
  next
    case False
    then show ?thesis using v(2) lim(2) that [of v] by simp
  qed
  obtain x where x: "fcgi_flush False w = Some (True, x)" "rep (rs @ [(ty, c @ take ?l s)]) None x" "out_pos x = 0" "same_conn w x"
    using flush_open [OF w(2)] pos w(3) by auto
  have conn: "same_conn r x" using v(4) w(4) x(4) same_conn_trans by blast
  have fl: "map (Pair ty) s = map (Pair ty) (take ?l s) @ map (Pair ty) (drop ?l s)" by (simp flip: map_append)
  show ?thesis
  proof (cases "write_limit r < int (length s)")
    case True
    then have "drop ?l s \<noteq> []" "length (drop ?l s) < out_size - 8" using once lim(2) by (auto simp: out_size_def)
    from restart_run [OF x(2,3) this, of ty] obtain y u where
      u: "open_packet ty x = Some y" "put_out (drop ?l s) y = Some u" "rep (rs @ [(ty, c @ take ?l s)]) (Some (ty, drop ?l s)) u"
        "settled (Some (ty, drop ?l s)) u" "same_conn x u" by blast
    have "write_split ty s r = Some (int (length s), u)"
      using v(1) w(1) x(1) u(1,2) True by (simp add: write_split_def split del: if_split)
    then show ?thesis using u(3,4) same_conn_trans [OF conn u(5)] v(5) fl
      by (intro exI [of _ u] conjI exI [of _ "rs @ [(ty, c @ take ?l s)]"] exI [of _ "Some (ty, drop ?l s)"]) simp_all
  next
    case False
    then have "drop ?l s = []" using lim(2) by simp
    moreover have "write_split ty s r = Some (int (length s), x)"
      using v(1) w(1) x(1) False by (simp add: write_split_def split del: if_split)
    ultimately show ?thesis using x(2,3) conn v(5) fl
      by (intro exI [of _ x] conjI exI [of _ "rs @ [(ty, c @ take ?l s)]"] exI [of _ None]) (simp_all add: settled_def)
  qed
qed

lemma round_down:
  assumes "8 \<le> n"
  defines "rest \<equiv> (if padding_of n \<noteq> 0 then 8 - padding_of n else 0)"
  shows "8 dvd n - rest" and "rest \<le> n" and "rest < 8" and "padding_of n \<noteq> 0 \<Longrightarrow> 0 < rest"
proof -
  have n: "n + padding_of n = (n + 7) div 8 * 8" using padding_of_dvd [of n] by (simp add: padding_of_def)
  show "rest < 8" unfolding rest_def by auto
  then show "rest \<le> n" using assms(1) by simp
  show "padding_of n \<noteq> 0 \<Longrightarrow> 0 < rest" using padding_of_less [of n] by (simp add: rest_def)
  show "8 dvd n - rest"
  proof (cases "padding_of n = 0")
    case True
    then show ?thesis using n by (simp add: rest_def) (metis dvd_triv_right)
  next
    case False
    then have "n - rest = ((n + 7) div 8 - 1) * 8" using n padding_of_less [of n] assms(1) by (simp add: rest_def)
    then show ?thesis by simp
  qed
qed

lemma large_run:
  assumes R: "rep rs opn r" and S: "settled opn r" and s: "out_size - 8 \<le> length s"
  shows "\<exists>u. write_large ty s r = Some (int (length s), u) \<and> wrote ty s rs opn r u"
proof -
  obtain v ps where v: "close_packet r = Some v" "rep ps None v" "out_pos v + 8 \<le> out_size + 16" "same_conn r v"
    "flat ps = flat rs @ flat (open_part opn)"
  proof (cases opn)
    case None
    then show ?thesis using that [of r rs] close_none R S by (simp add: settled_def)
  next
    case (Some tc)
    obtain t c where tc: "tc = (t, c)" by (cases tc)
    then have R': "rep rs (Some (t, c)) r" and pos: "out_pos r < out_size" using R S Some by (simp_all add: settled_def)
    from close_run [OF R'] pos obtain v where v: "close_packet r = Some v" "rep (rs @ [(t, c)]) None v"
      "out_pos v = out_pos r + padding_of (length c)" "same_conn r v" by auto
    have "out_pos v + 8 \<le> out_size + 16" using v(3) pos padding_of_less [of "length c"] by simp
    then show ?thesis using that [OF v(1,2)] v(4) Some tc by simp
  qed
  obtain w qs left where w: "write_chunks ty s v = Some (Some left, w)" "rep (ps @ qs) None w" "out_pos w + 8 \<le> out_size + 16"
    "same_conn v w" "flat qs @ map (Pair ty) left = map (Pair ty) s" "8 \<le> length left" "length left \<le> 65535"
    using chunks_run [OF v(2,3), of ty s] s by (auto simp: out_size_def)
  define rest where "rest = (if padding_of (length left) \<noteq> 0 then 8 - padding_of (length left) else 0)"
  note rd = round_down [OF w(6), folded rest_def]
  let ?a = "take (length left - rest) left" and ?b = "drop (length left - rest) left"
  have "8 dvd length ?a" "length ?a < 65536" using rd(1) w(7) by simp_all
  from direct_run [OF w(2,3) this, of ty] obtain x where
    x: "write_direct ty ?a w = Some (True, x)" "rep ((ps @ qs) @ [(ty, ?a)]) None x" "out_pos x = 0" "same_conn w x" by blast
  have conn: "same_conn r x" using v(4) w(4) x(4) same_conn_trans by blast
  have "map (Pair ty) ?a @ map (Pair ty) ?b = map (Pair ty) left" by (simp flip: map_append)
  with w(5) have fl: "flat qs @ map (Pair ty) ?a @ map (Pair ty) ?b = map (Pair ty) s" by simp
  have all: "flat ((ps @ qs) @ [(ty, ?a)]) @ map (Pair ty) ?b = flat rs @ flat (open_part opn) @ map (Pair ty) s"
    using v(5) fl by simp
  show ?thesis
  proof (cases "padding_of (length left) = 0")
    case True
    then have r0: "rest = 0" by (simp add: rest_def)
    moreover have "write_large ty s r = Some (int (length s), x)"
      using v(1) w(1) x(1) True r0 by (simp add: write_large_def Let_def)
    moreover have "flat ((ps @ qs) @ [(ty, ?a)]) @ flat (open_part None) = flat rs @ flat (open_part opn) @ map (Pair ty) s"
      using all r0 by simp
    moreover have "settled None x" using x(3) by (simp add: settled_def)
    ultimately show ?thesis using x(2) conn by blast
  next
    case False
    have "?b \<noteq> []" "length ?b < out_size - 8" using rd(2,3) rd(4) [OF False] by (auto simp: out_size_def)
    from restart_run [OF x(2,3) this, of ty] obtain y u where
      u: "open_packet ty x = Some y" "put_out ?b y = Some u" "rep ((ps @ qs) @ [(ty, ?a)]) (Some (ty, ?b)) u"
        "settled (Some (ty, ?b)) u" "same_conn x u" by blast
    have "write_large ty s r = Some (int (length s), u)"
      using v(1) w(1) x(1) u(1,2) False by (simp add: write_large_def rest_def Let_def)
    moreover have "flat ((ps @ qs) @ [(ty, ?a)]) @ flat (open_part (Some (ty, ?b))) = flat rs @ flat (open_part opn) @ map (Pair ty) s"
      using all by simp
    ultimately show ?thesis using u(3,4) same_conn_trans [OF conn u(5)] by blast
  qed
qed

lemma write_run:
  assumes R: "rep rs opn r" and S: "settled opn r"
  shows "\<exists>u. fcgi_write ty s r = Some (int (length s), u) \<and> wrote ty s rs opn r u"
proof (cases "s = []")
  case True
  then show ?thesis using R S by (simp add: fcgi_write_def) blast
next
  case False
  obtain v qs opn' where v: "switch_packet ty r = Some v" "rep qs opn' v" "settled opn' v" "same_conn r v"
    "flat qs @ flat (open_part opn') = flat rs @ flat (open_part opn)" "opn' = None \<or> (\<exists>c. opn' = Some (ty, c))"
    using switch_run [OF R S, of ty] by blast
  have "\<exists>u. (if int (length s) < write_limit v then write_small ty s v
        else if int (length s) - write_limit v < int out_size - 8 then write_split ty s v
        else write_large ty s v) = Some (int (length s), u) \<and> wrote ty s qs opn' v u"
  proof -
    consider "int (length s) < write_limit v"
      | "\<not> int (length s) < write_limit v" "int (length s) - write_limit v < int out_size - 8"
      | "\<not> int (length s) < write_limit v" "\<not> int (length s) - write_limit v < int out_size - 8" by blast
    then show ?thesis
    proof cases
      case 1
      then show ?thesis using small_run [OF v(2,3,6) False] by simp
    next
      case 2
      then show ?thesis using split_run [OF v(2,3,6)] by simp
    next
      case 3
      then have "out_size - 8 \<le> length s" using limit_ok(2) [OF v(2,3)] by (simp add: out_size_def)
      from large_run [OF v(2,3) this] 3 show ?thesis by simp
    qed
  qed
  then obtain u where u: "(if int (length s) < write_limit v then write_small ty s v
        else if int (length s) - write_limit v < int out_size - 8 then write_split ty s v
        else write_large ty s v) = Some (int (length s), u)" "wrote ty s qs opn' v u" by blast
  have "fcgi_write ty s r = Some (int (length s), u)" using False v(1) u(1) by (simp add: fcgi_write_def)
  moreover have "wrote ty s rs opn r u" using u(2) v(5) same_conn_trans [OF v(4)] by (metis append.assoc)
  ultimately show ?thesis by blast
qed

section \<open>Ending, and what the client reads\<close>

definition end_record :: "int \<Rightarrow> byte list \<Rightarrow> rcd" where
  "end_record i b3 = (type_code FCGI_END_REQUEST, [0, 0, 0, 0, 0] @ b3)"

lemma end_run:
  assumes R: "rep rs opn r" and S: "settled opn r" and e: "\<not> ended r"
  shows "\<exists>u qs b3. fcgi_end r = Some (True, u\<lparr>ended := True\<rparr>) \<and> same_conn r u \<and> out_pos u = 0 \<and> length b3 = 3
     \<and> sent u = encs (req_id r) (qs @ [end_record (req_id r) b3]) \<and> flat qs = flat rs @ flat (open_part opn)
     \<and> (\<forall>q \<in> set qs. length (snd q) < 65536)"
proof -
  obtain v qs where v: "close_packet r = Some v" "rep qs None v" "out_pos v \<le> out_size" "same_conn r v"
    "flat qs = flat rs @ flat (open_part opn)"
  proof (cases opn)
    case None
    then show ?thesis using that [of r rs] close_none R S by (simp add: settled_def)
  next
    case (Some tc)
    obtain t c where tc: "tc = (t, c)" by (cases tc)
    then have R': "rep rs (Some (t, c)) r" and pos: "out_pos r < out_size" using R S Some by (simp_all add: settled_def)
    obtain h where h: "8 dvd h" "out_pos r = h + 8 + length c" using rep_openD [OF R'] by metis
    from close_run [OF R'] pos obtain v where v: "close_packet r = Some v" "rep (rs @ [(t, c)]) None v"
      "out_pos v = out_pos r + padding_of (length c)" "same_conn r v" by auto
    have "out_pos v \<le> out_size" using v(3) pos h pad_room [OF h(1), of "length c"] by (simp add: out_size_def)
    then show ?thesis using that [OF v(1,2)] v(4) Some tc by simp
  qed
  obtain u b3 where u: "fcgi_flush True v = Some (True, u)" "out_pos u = 0" "same_conn v u" "length b3 = 3"
    "sent u = encs (req_id v) qs @ header_bytes (new_header (type_code FCGI_END_REQUEST) (req_id v) 8) @ [0, 0, 0, 0, 0] @ b3"
    using flush_end [OF v(2,3)] by blast
  have i: "req_id v = req_id r" using v(4) by (simp add: same_conn_def)
  have "fcgi_flush True r = fcgi_flush True v" using v(1) close_none [OF v(2)] by (simp add: fcgi_flush_def)
  then have "fcgi_end r = Some (True, u\<lparr>ended := True\<rparr>)" using u(1) e by (simp add: fcgi_end_def)
  moreover have "sent u = encs (req_id r) (qs @ [end_record (req_id r) b3])"
    using u(4,5) i by (simp add: end_record_def enc_def)
  ultimately show ?thesis using u(2,4) same_conn_trans [OF v(4) u(3)] v(5) repD(5) [OF v(2)] by blast
qed

text \<open>The records in a stream of bytes, as a client reads them.\<close>

function records_of :: "byte list \<Rightarrow> rcd list option" where
  "records_of bs =
     (if bs = [] then Some []
      else if length bs < 8 then None
      else let h = header_of bs; n = content_length h; p = padding_length h in
        if length bs < 8 + n + p then None
        else map_option (Cons (hdr_type h, take n (drop 8 bs))) (records_of (drop (8 + n + p) bs)))"
  by pat_completeness auto
termination
  by (relation "measure length") auto

declare records_of.simps [simp del]

lemma records_enc:
  assumes "length (snd tc) < 65536"
  shows "records_of (enc i tc @ rest) = map_option (Cons tc) (records_of rest)"
proof -
  obtain ty c where tc: "tc = (ty, c)" by (cases tc)
  let ?h = "new_header ty i (length c)"
  have e: "enc i tc @ rest = header_bytes ?h @ c @ replicate (padding_of (length c)) 0 @ rest"
    by (simp add: enc_def tc)
  have h: "header_of (header_bytes ?h @ c @ replicate (padding_of (length c)) 0 @ rest) = ?h" by simp
  have cl: "content_length ?h = length c" using assms tc by simp
  show ?thesis unfolding e
    by (subst records_of.simps) (simp add: h cl Let_def tc)
qed

lemma records_encs:
  "\<forall>q \<in> set rs. length (snd q) < 65536 \<Longrightarrow> records_of (encs i rs) = Some rs"
proof (induction rs)
  case Nil
  show ?case by (simp add: records_of.simps)
qed (simp add: records_enc)

text \<open>Writing one string after the other.\<close>

fun write_all :: "(byte \<times> byte list) list \<Rightarrow> fcgi_request \<Rightarrow> (int list \<times> fcgi_request) option" where
  "write_all [] r = Some ([], r)"
| "write_all ((ty, s) # ws) r = do {
     (n, r) \<leftarrow> fcgi_write ty s r;
     (ns, r) \<leftarrow> write_all ws r;
     Some (n # ns, r)
   }"

lemma write_all_run:
  assumes "rep rs opn r" and "settled opn r"
  shows "\<exists>u qs opn'. write_all ws r = Some (map (int \<circ> length \<circ> snd) ws, u) \<and> rep qs opn' u \<and> settled opn' u \<and> same_conn r u
     \<and> flat qs @ flat (open_part opn') = flat rs @ flat (open_part opn) @ flat ws"
  using assms
proof (induction ws arbitrary: r rs opn)
  case Nil
  then show ?case by (auto intro!: exI [of _ r] exI [of _ rs] exI [of _ opn])
next
  case (Cons w ws)
  obtain ty s where w: "w = (ty, s)" by (cases w)
  obtain v qs opn' where v: "fcgi_write ty s r = Some (int (length s), v)" "rep qs opn' v" "settled opn' v" "same_conn r v"
    "flat qs @ flat (open_part opn') = flat rs @ flat (open_part opn) @ map (Pair ty) s"
    using write_run [OF Cons.prems, of ty s] by blast
  from Cons.IH [OF v(2,3)] obtain u ps opn2 where
    u: "write_all ws v = Some (map (int \<circ> length \<circ> snd) ws, u)" "rep ps opn2 u" "settled opn2 u" "same_conn v u"
      "flat ps @ flat (open_part opn2) = flat qs @ flat (open_part opn') @ flat ws" by blast
  have "flat ps @ flat (open_part opn2) = flat rs @ flat (open_part opn) @ flat (w # ws)"
    unfolding u(5) w flat_simps append_assoc [symmetric] v(5) [symmetric, unfolded append_assoc [symmetric]] ..
  then show ?case using v(1) u(1-3) w same_conn_trans [OF v(4) u(4)] by auto
qed

end
