(* ===== verification/Coro_Pool.thy ===== *)
theory Coro_Pool
  imports Coro_Startup
begin

text \<open>
  The coroutine contexts and the two lists that hold them (main/SAPI.h and
  ext/standard/fpm_coroutine.c): the pool of free contexts, used first in first out, and the list
  of the contexts in use. A context is a struct on a heap, the lists run through its \<open>next\<close> and
  \<open>prev\<close> fields. The listening event is switched off when the pool runs empty and on again when a
  context comes back.
\<close>

section \<open>State\<close>

text \<open>What a \<open>jmp_buf\<close> of the engine can hold: the frame that called \<open>setjmp\<close> last.\<close>

datatype jmp_point = In_execute_coro | In_resume | In_socket_read

text \<open>
  The buffer for the old working directory is taken with \<open>do_alloca\<close> in the frame of
  \<open>php_execute_script_coro\<close>: the pointer was never set, points to a live buffer (on the heap or not) with
  its contents, or points to a dead one: released, or on the stack of a frame that has been left.
\<close>

datatype cwd_buf = Cwd_unset | Cwd_live bool string | Cwd_dead

text \<open>Where \<open>EG(bailout)\<close> points to; a frame left by a \<open>longjmp\<close> is dead.\<close>

datatype bail_point = No_bailout | In_loop | In_script_try | Dead_frame

record sapi_coroutine_context =
  buf_ptr :: "jmp_point option"
  req_ptr :: "jmp_point option"
  op_array :: ptr
  prev_execute_data :: ptr
  ctx_next :: ptr
  ctx_prev :: ptr
  old_cwd :: cwd_buf
  use_heap :: bool
  request :: ptr
  ctx_thread_id :: int
  return_value :: ptr
  tmpData :: "string option"
  ctx_fd :: int
  ctx_bev :: ptr

text \<open>
  The globals of one coroutine that the engine touches, from \<open>SG\<close>, \<open>EG\<close> and the virtual working
  directory.
\<close>

record coroutine_globals =
  sg_context :: ptr
  request_body_fd :: int
  server_context :: ptr
  sapi_started :: bool
  current_execute_data :: ptr
  eg_exception :: bool
  eg_bailout :: bail_point
  exit_status :: int
  cwd :: string

text \<open>
  A call frame of the virtual machine: where it stands, who called it, the \<open>op_array\<close> it runs (none
  for a function of an extension) and the coroutine whose stack it is on.
\<close>

record frame =
  opline :: nat
  prev_frame :: ptr
  func :: ptr
  frame_owner :: nat

text \<open>The fields of a \<open>fcgi_request\<close> the engine looks at.\<close>

record fcgi_conn =
  q_fd :: int
  q_keep :: bool
  q_bev :: ptr
  q_ended :: bool

datatype engine_event =
    Ran_file nat nat
  | Response_code int
  | Stage_executing
  | Stage_end
  | Closed_connection int
  | Error_header
  | Module_shutdown
  | Worker_exit

text \<open>
  The worker process: the counters of \<open>fpm_main.c\<close>, the live objects outside the two lists, the
  open descriptors and a log. New objects get the address \<open>next_obj\<close>.
\<close>

record worker =
  requests :: int
  max_requests :: int
  loopexit :: bool
  next_obj :: nat
  reqs :: "nat \<rightharpoonup> fcgi_conn"
  op_arrays :: "nat \<rightharpoonup> nat"
  open_fds :: "int set"
  trace :: "engine_event list"

record engine =
  ts :: tsrm
  ctxs :: "nat \<rightharpoonup> sapi_coroutine_context"
  pool :: ptr
  pool_end :: ptr
  use :: ptr
  context_count :: int
  listener_event_stop :: bool
  listener_added :: bool
  bevs :: "nat \<rightharpoonup> int"
  globals :: "nat \<Rightarrow> coroutine_globals"
  frames :: "nat \<rightharpoonup> frame"
  wk :: worker

abbreviation set_next :: "ptr \<Rightarrow> sapi_coroutine_context \<Rightarrow> sapi_coroutine_context" where
  "set_next p c \<equiv> c\<lparr>ctx_next := p\<rparr>"

abbreviation set_prev :: "ptr \<Rightarrow> sapi_coroutine_context \<Rightarrow> sapi_coroutine_context" where
  "set_prev p c \<equiv> c\<lparr>ctx_prev := p\<rparr>"

text \<open>An assignment through a context pointer.\<close>

definition ctx_write :: "(sapi_coroutine_context \<Rightarrow> sapi_coroutine_context) \<Rightarrow> ptr \<Rightarrow> engine \<Rightarrow> engine option" where
  "ctx_write f p s = map_option (\<lambda>h. s\<lparr>ctxs := h\<rparr>) (upd_at f p (ctxs s))"

definition ctx_read :: "ptr \<Rightarrow> engine \<Rightarrow> sapi_coroutine_context option" where
  "ctx_read p s = map_option snd (deref (ctxs s) p)"

section \<open>The listening event\<close>

definition asser_event_stop :: "engine \<Rightarrow> engine" where
  "asser_event_stop s =
     (if \<not> listener_event_stop s \<and> context_count s < 1
      then s\<lparr>listener_event_stop := True, listener_added := False\<rparr> else s)"

definition asser_event_continue :: "engine \<Rightarrow> engine" where
  "asser_event_continue s =
     (if listener_event_stop s \<and> 0 < context_count s
      then s\<lparr>listener_event_stop := False, listener_added := True\<rparr> else s)"

section \<open>Switching to a coroutine\<close>

definition checkout_coroutine_context :: "ptr \<Rightarrow> engine \<Rightarrow> engine option" where
  "checkout_coroutine_context context s = do {
     c \<leftarrow> ctx_read context s;
     t \<leftarrow> enter_coroutine (ctx_thread_id c) (ts s);
     Some (s\<lparr>ts := t\<rparr>)
   }"

section \<open>Bringing the pool up\<close>

definition init_coroutine_static :: "engine \<Rightarrow> engine" where
  "init_coroutine_static s = s\<lparr>pool := NULL, pool_end := NULL, use := NULL, context_count := 0\<rparr>"

text \<open>
  \<open>a\<close> is the address of the new context, \<open>blk\<close> what the memory there holds before: the fields the
  code does not set keep it.
\<close>

definition init_coroutine_context ::
    "int \<Rightarrow> nat \<Rightarrow> sapi_coroutine_context \<Rightarrow> engine \<Rightarrow> engine option" where
  "init_coroutine_context idx a blk s = do {
     let s = s\<lparr>ctxs := (ctxs s)(a \<mapsto> blk\<lparr>request := NULL, buf_ptr := None, req_ptr := None,
                ctx_thread_id := idx, ctx_next := NULL, ctx_prev := NULL\<rparr>)\<rparr>;
     s \<leftarrow> (if pool s = NULL then Some (s\<lparr>pool := Some a, pool_end := Some a\<rparr>)
           else if pool_end s = pool s then do {
             let s = s\<lparr>pool := Some a\<rparr>;
             s \<leftarrow> ctx_write (set_next (pool_end s)) (pool s) s;
             ctx_write (set_prev (pool s)) (pool_end s) s
           } else do {
             s \<leftarrow> ctx_write (set_prev (Some a)) (pool s) s;
             s \<leftarrow> ctx_write (set_next (pool s)) (Some a) s;
             Some (s\<lparr>pool := Some a\<rparr>)
           });
     Some (s\<lparr>context_count := context_count s + 1\<rparr>)
   }"

section \<open>Taking a context from the pool\<close>

definition pool_advance :: "engine \<Rightarrow> engine option" where
  "pool_advance s =
     (case pool s of
        None \<Rightarrow> Some (s\<lparr>pool := NULL, pool_end := NULL\<rparr>)
      | Some p \<Rightarrow> do {
          c \<leftarrow> ctx_read (Some p) s;
          if ctx_next c \<noteq> NULL then do {
            let s = s\<lparr>pool := ctx_next c\<rparr>;
            ctx_write (set_prev NULL) (pool s) s
          } else Some (s\<lparr>pool := NULL, pool_end := NULL\<rparr>)
        })"

definition use_push :: "ptr \<Rightarrow> engine \<Rightarrow> engine option" where
  "use_push result s =
     (if use s \<noteq> NULL then do {
        s \<leftarrow> ctx_write (set_next (use s)) result s;
        s \<leftarrow> ctx_write (set_prev NULL) result s;
        s \<leftarrow> ctx_write (set_prev result) (use s) s;
        Some (s\<lparr>use := result\<rparr>)
      } else do {
        let s = s\<lparr>use := result\<rparr>;
        s \<leftarrow> ctx_write (set_next NULL) (use s) s;
        ctx_write (set_prev NULL) (use s) s
      })"

definition use_coroutine_context :: "engine \<Rightarrow> (ptr \<times> engine) option" where
  "use_coroutine_context s =
     (if 0 < context_count s then do {
        let result = pool s;
        s \<leftarrow> pool_advance s;
        s \<leftarrow> use_push result s;
        let s = s\<lparr>context_count := context_count s - 1\<rparr>;
        s \<leftarrow> checkout_coroutine_context result s;
        Some (result, asser_event_stop s)
      } else Some (NULL, asser_event_stop s))"

section \<open>Giving a context back\<close>

definition use_unlink :: "ptr \<Rightarrow> engine \<Rightarrow> engine option" where
  "use_unlink context s = do {
     c \<leftarrow> ctx_read context s;
     if ctx_prev c \<noteq> NULL \<and> ctx_next c \<noteq> NULL then do {
       s \<leftarrow> ctx_write (set_next (ctx_next c)) (ctx_prev c) s;
       c \<leftarrow> ctx_read context s;
       s \<leftarrow> ctx_write (set_prev (ctx_prev c)) (ctx_next c) s;
       s \<leftarrow> ctx_write (set_prev NULL) context s;
       ctx_write (set_next NULL) context s
     } else if ctx_prev c \<noteq> NULL then do {
       s \<leftarrow> ctx_write (set_next NULL) (ctx_prev c) s;
       ctx_write (set_prev NULL) context s
     } else if ctx_next c \<noteq> NULL then do {
       let s = s\<lparr>use := ctx_next c\<rparr>;
       s \<leftarrow> ctx_write (set_prev NULL) (ctx_next c) s;
       ctx_write (set_next NULL) context s
     } else Some (s\<lparr>use := NULL\<rparr>)
   }"

definition pool_append :: "ptr \<Rightarrow> engine \<Rightarrow> engine option" where
  "pool_append context s =
     (if pool_end s = NULL then do {
        let s = s\<lparr>pool := context, pool_end := context\<rparr>;
        s \<leftarrow> ctx_write (set_prev NULL) context s;
        ctx_write (set_next NULL) context s
      } else if pool_end s = pool s then do {
        let s = s\<lparr>pool_end := context\<rparr>;
        s \<leftarrow> ctx_write (set_next context) (pool s) s;
        ctx_write (set_prev (pool s)) (pool_end s) s
      } else do {
        s \<leftarrow> ctx_write (set_prev (pool_end s)) context s;
        s \<leftarrow> ctx_write (set_next context) (pool_end s) s;
        s \<leftarrow> ctx_write (set_next NULL) context s;
        Some (s\<lparr>pool_end := context\<rparr>)
      })"

text \<open>
  Releasing a \<open>bufferevent\<close> closes its descriptor (\<open>BEV_OPT_CLOSE_ON_FREE\<close>); of one that is not
  live, it is undefined. Closing a descriptor that is not open has no effect.
\<close>

definition close_fd :: "int \<Rightarrow> engine \<Rightarrow> engine" where
  "close_fd fd s = s\<lparr>wk := (wk s)\<lparr>open_fds := open_fds (wk s) - {fd}\<rparr>\<rparr>"

definition bufferevent_free :: "ptr \<Rightarrow> engine \<Rightarrow> engine option" where
  "bufferevent_free p s =
     (case p of
        None \<Rightarrow> None
      | Some b \<Rightarrow> (case bevs s b of
                    None \<Rightarrow> None
                  | Some fd \<Rightarrow> Some (close_fd fd (s\<lparr>bevs := (bevs s)(b := None)\<rparr>))))"

definition free_coroutine_context :: "ptr \<Rightarrow> engine \<Rightarrow> engine option" where
  "free_coroutine_context context s = do {
     s \<leftarrow> use_unlink context s;
     s \<leftarrow> pool_append context s;
     let s = s\<lparr>context_count := context_count s + 1\<rparr>;
     c \<leftarrow> ctx_read context s;
     s \<leftarrow> (if ctx_fd c \<noteq> 0 then bufferevent_free (ctx_bev c) s else Some s);
     Some (asser_event_continue s)
   }"

section \<open>The lists as lists\<close>

abbreviation ctx_list :: "(nat \<rightharpoonup> sapi_coroutine_context) \<Rightarrow> ptr \<Rightarrow> nat list \<Rightarrow> ptr \<Rightarrow> bool" where
  "ctx_list h x as q \<equiv> dpath ctx_next ctx_prev h NULL x as q NULL"

text \<open>
  \<open>ps\<close> are the free contexts in the order they will be handed out, \<open>us\<close> those in use, the latest
  first; no context is in both or twice, and the counter counts the free ones.
\<close>

definition pool_rep :: "engine \<Rightarrow> nat list \<Rightarrow> nat list \<Rightarrow> bool" where
  "pool_rep s ps us \<longleftrightarrow>
     ctx_list (ctxs s) (pool s) ps (pool_end s) \<and> (\<exists>q. ctx_list (ctxs s) (use s) us q)
     \<and> distinct (ps @ us) \<and> context_count s = int (length ps)"

text \<open>The data of the contexts, without the links.\<close>

definition unlinked :: "sapi_coroutine_context \<Rightarrow> sapi_coroutine_context" where
  "unlinked c = c\<lparr>ctx_next := NULL, ctx_prev := NULL\<rparr>"

definition same_data :: "(nat \<rightharpoonup> sapi_coroutine_context) \<Rightarrow> (nat \<rightharpoonup> sapi_coroutine_context) \<Rightarrow> bool" where
  "same_data h h' \<longleftrightarrow> (\<forall>a. map_option unlinked (h' a) = map_option unlinked (h a))"

lemma unlinked_simps [simp]:
  "unlinked (set_next p c) = unlinked c" "unlinked (set_prev p c) = unlinked c"
  by (simp_all add: unlinked_def)

lemma unlinked_eqD:
  assumes "unlinked c = unlinked c'"
  shows "ctx_thread_id c = ctx_thread_id c'" "ctx_fd c = ctx_fd c'" "ctx_bev c = ctx_bev c'"
    "prev_execute_data c = prev_execute_data c'" "old_cwd c = old_cwd c'" "return_value c = return_value c'"
    "tmpData c = tmpData c'" "request c = request c'" "buf_ptr c = buf_ptr c'" "req_ptr c = req_ptr c'" "op_array c = op_array c'"
  using arg_cong [OF assms, of ctx_thread_id] arg_cong [OF assms, of ctx_fd]
    arg_cong [OF assms, of ctx_bev] arg_cong [OF assms, of prev_execute_data]
    arg_cong [OF assms, of old_cwd] arg_cong [OF assms, of return_value] arg_cong [OF assms, of tmpData]
    arg_cong [OF assms, of request] arg_cong [OF assms, of buf_ptr]
    arg_cong [OF assms, of req_ptr] arg_cong [OF assms, of op_array]
  by (simp_all add: unlinked_def)

lemma same_data_refl [simp]: "same_data h h"
  by (simp add: same_data_def)

lemma same_data_trans [trans]: "same_data h h' \<Longrightarrow> same_data h' h'' \<Longrightarrow> same_data h h''"
  by (simp add: same_data_def)

lemma same_data_upd [simp]:
  "h a = Some c \<Longrightarrow> unlinked c' = unlinked c \<Longrightarrow> same_data h h' \<Longrightarrow> same_data h (h'(a \<mapsto> c'))"
  by (simp add: same_data_def)

lemma same_dataD:
  assumes "same_data h h'" and "h a = Some c"
  obtains c' where "h' a = Some c'" "unlinked c' = unlinked c"
  using assms unfolding same_data_def by (metis (no_types) map_option_eq_Some)

lemma same_data_dom: "same_data h h' \<Longrightarrow> dom h' = dom h"
  unfolding same_data_def by (auto simp: dom_def) (metis map_option_eq_Some option.distinct(1) option.map(1))+

text \<open>The other parts of the state no list operation touches.\<close>

definition links_only :: "engine \<Rightarrow> engine \<Rightarrow> bool" where
  "links_only s t \<longleftrightarrow>
     same_data (ctxs s) (ctxs t) \<and> ts t = ts s \<and> bevs t = bevs s \<and> globals t = globals s
     \<and> frames t = frames s \<and> wk t = wk s \<and> listener_added t = listener_added s
     \<and> listener_event_stop t = listener_event_stop s"

lemma links_only_refl [simp]: "links_only s s"
  by (simp add: links_only_def)

lemma links_only_trans [trans]: "links_only s t \<Longrightarrow> links_only t u \<Longrightarrow> links_only s u"
  by (auto simp: links_only_def intro: same_data_trans)

end
