(* ===== verification/Coro_Pool_Lemmas.thy ===== *)
theory Coro_Pool_Lemmas
  imports Coro_Pool
begin

text \<open>
  The pointer operations on the two context lists implement the operations on lists: taking the
  first free context, appending a context at the end of the pool, pushing to and unlinking from
  the list in use. Each runs without touching a null pointer and changes links only.
\<close>

lemma close_fd_simps [simp]:
  "bevs (close_fd fd s) = bevs s" "ctxs (close_fd fd s) = ctxs s" "pool (close_fd fd s) = pool s"
  "pool_end (close_fd fd s) = pool_end s" "use (close_fd fd s) = use s" "ts (close_fd fd s) = ts s"
  "globals (close_fd fd s) = globals s" "frames (close_fd fd s) = frames s"
  "context_count (close_fd fd s) = context_count s"
  "listener_added (close_fd fd s) = listener_added s"
  "listener_event_stop (close_fd fd s) = listener_event_stop s"
  "wk (close_fd fd s) = (wk s)\<lparr>open_fds := open_fds (wk s) - {fd}\<rparr>"
  by (simp_all add: close_fd_def)

lemmas ctx_defs = ctx_write_def ctx_read_def links_only_def

section \<open>Bringing the pool up\<close>

lemma init_coroutine_context_rep:
  assumes "pool_rep s ps us" and "a \<notin> set ps \<union> set us"
  shows "\<exists>t. init_coroutine_context idx a blk s = Some t \<and> pool_rep t (a # ps) us
           \<and> (\<exists>c. ctxs t a = Some c \<and> ctx_thread_id c = idx)
           \<and> (\<forall>x. x \<noteq> a \<longrightarrow> map_option unlinked (ctxs t x) = map_option unlinked (ctxs s x))
           \<and> ts t = ts s \<and> bevs t = bevs s \<and> listener_added t = listener_added s
           \<and> listener_event_stop t = listener_event_stop s \<and> globals t = globals s
           \<and> frames t = frames s \<and> wk t = wk s"
proof (cases ps)
  case Nil
  with assms show ?thesis
    by (auto simp: init_coroutine_context_def pool_rep_def)
next
  case (Cons p ps')
  have p: "p \<noteq> a" "p \<notin> set ps'" "p \<notin> set us" "a \<notin> set ps'" "a \<notin> set us"
    using assms Cons by (auto simp: pool_rep_def)
  obtain n where n: "ctxs s p = Some n" "ctx_prev n = NULL" "pool s = Some p"
    and rest: "dpath ctx_next ctx_prev (ctxs s) (Some p) (ctx_next n) ps' (pool_end s) NULL"
    using assms(1) Cons by (auto simp: pool_rep_def)
  have last: "pool_end s = (if ps' = [] then Some p else Some (last ps'))"
    using dpath_last [OF rest] by simp
  show ?thesis
  proof (cases ps')
    case Nil
    with assms Cons n rest last p show ?thesis
      by (auto simp: init_coroutine_context_def pool_rep_def ctx_defs)
  next
    case (Cons r rs)
    then have "last ps' \<noteq> p" using p(2) by (metis last_in_set list.distinct(1))
    then have "pool_end s \<noteq> pool s" using last n Cons by simp
    with assms \<open>ps = p # ps'\<close> n rest last p show ?thesis
      by (auto simp: init_coroutine_context_def pool_rep_def ctx_defs)
  qed
qed

section \<open>Taking\<close>

lemma pool_advance_rep:
  assumes "ctx_list (ctxs s) (pool s) (p # ps) (pool_end s)" and "ctx_list (ctxs s) (use s) us q"
    and "distinct ((p # ps) @ us)"
  shows "\<exists>t. pool_advance s = Some t \<and> ctx_list (ctxs t) (pool t) ps (pool_end t)
           \<and> ctx_list (ctxs t) (use t) us q \<and> ctxs t p = ctxs s p
           \<and> use t = use s \<and> context_count t = context_count s \<and> links_only s t"
proof -
  obtain n where n: "pool s = Some p" "ctxs s p = Some n"
    and rest: "dpath ctx_next ctx_prev (ctxs s) (Some p) (ctx_next n) ps (pool_end s) NULL"
    using assms(1) by auto
  show ?thesis
  proof (cases ps)
    case Nil
    with n rest assms(2) show ?thesis
      by (auto simp: pool_advance_def ctx_defs)
  next
    case (Cons r rs)
    with rest assms(3) obtain m where "ctx_next n = Some r" "ctxs s r = Some m" "ctx_prev m = Some p"
      "dpath ctx_next ctx_prev (ctxs s) (Some r) (ctx_next m) rs (pool_end s) NULL"
      "r \<notin> set rs" "r \<notin> set us" "r \<noteq> p" by auto
    with n Cons assms(2) show ?thesis
      by (auto simp: pool_advance_def ctx_defs)
  qed
qed

lemma use_push_rep:
  assumes "ctx_list (ctxs s) (pool s) ps (pool_end s)" and "ctx_list (ctxs s) (use s) us q"
    and "distinct (ps @ p # us)" and "ctxs s p = Some n"
  shows "\<exists>t. use_push (Some p) s = Some t \<and> ctx_list (ctxs t) (pool t) ps (pool_end t)
           \<and> (\<exists>q'. ctx_list (ctxs t) (use t) (p # us) q')
           \<and> context_count t = context_count s \<and> links_only s t"
proof (cases us)
  case Nil
  with assms show ?thesis
    by (auto simp: use_push_def ctx_defs)
next
  case (Cons u us')
  with assms obtain m where "use s = Some u" "ctxs s u = Some m" "ctx_prev m = NULL"
    "dpath ctx_next ctx_prev (ctxs s) (Some u) (ctx_next m) us' q NULL"
    "u \<notin> set us'" "u \<notin> set ps" "u \<noteq> p" "p \<notin> set us'" "p \<notin> set ps" by auto
  with assms Cons show ?thesis
    by (auto simp: use_push_def ctx_defs)
qed

section \<open>Giving back\<close>

lemma use_unlink_rep:
  assumes "ctx_list (ctxs s) (pool s) ps (pool_end s)" and "ctx_list (ctxs s) (use s) us q"
    and "distinct (ps @ us)" and "c \<in> set us"
  shows "\<exists>t n. use_unlink (Some c) s = Some t \<and> ctx_list (ctxs t) (pool t) ps (pool_end t)
           \<and> (\<exists>q'. ctx_list (ctxs t) (use t) (remove1 c us) q')
           \<and> ctxs t c = Some n \<and> ctx_next n = NULL \<and> ctx_prev n = NULL
           \<and> context_count t = context_count s \<and> links_only s t"
proof -
  obtain l r n where us: "us = l @ c # r" and n: "ctxs s c = Some n"
    and l: "dpath ctx_next ctx_prev (ctxs s) NULL (use s) l (ctx_prev n) (Some c)"
    and r: "dpath ctx_next ctx_prev (ctxs s) (Some c) (ctx_next n) r q NULL"
    and c: "c \<notin> set l" "c \<notin> set r"
    using dpath_split [OF assms(2,4)] assms(3) by auto
  have rem: "remove1 c us = l @ r" using us c(1) by (simp add: remove1_append)
  have dist: "distinct ps" "distinct l" "distinct r" "set l \<inter> set r = {}" "set l \<inter> set ps = {}"
    "set r \<inter> set ps = {}" "c \<notin> set ps" using assms(3) us by auto
  show ?thesis
  proof (cases l rule: rev_cases)
    case Nil
    show ?thesis
    proof (cases r)
      case Nil
      with \<open>l = []\<close> l r n rem assms(1) show ?thesis by (auto simp: use_unlink_def ctx_defs)
    next
      case (Cons b r')
      with r obtain m where "ctx_next n = Some b" "ctxs s b = Some m" "ctx_prev m = Some c"
        "dpath ctx_next ctx_prev (ctxs s) (Some b) (ctx_next m) r' q NULL" by auto
      with Cons \<open>l = []\<close> l n rem assms(1) dist c show ?thesis
        by (auto simp: use_unlink_def ctx_defs)
    qed
  next
    case (snoc l' a)
    with l obtain m z where a: "ctxs s a = Some m" "ctx_next m = Some c" "ctx_prev n = Some a"
      "ctx_prev m = z" "dpath ctx_next ctx_prev (ctxs s) NULL (use s) l' z (Some a)" by auto
    show ?thesis
    proof (cases r)
      case Nil
      with snoc a r n rem assms(1) dist c show ?thesis by (auto simp: use_unlink_def ctx_defs)
    next
      case (Cons b r')
      with r obtain k where "ctx_next n = Some b" "ctxs s b = Some k" "ctx_prev k = Some c"
        "dpath ctx_next ctx_prev (ctxs s) (Some b) (ctx_next k) r' q NULL" by auto
      with Cons snoc a n rem assms(1) dist c show ?thesis
        by (auto simp: use_unlink_def ctx_defs)
    qed
  qed
qed

lemma pool_append_rep:
  assumes "ctx_list (ctxs s) (pool s) ps (pool_end s)" and "ctx_list (ctxs s) (use s) us q"
    and "distinct (ps @ c # us)" and "ctxs s c = Some n" "ctx_next n = NULL" "ctx_prev n = NULL"
  shows "\<exists>t. pool_append (Some c) s = Some t \<and> ctx_list (ctxs t) (pool t) (ps @ [c]) (pool_end t)
           \<and> ctx_list (ctxs t) (use t) us q
           \<and> context_count t = context_count s \<and> links_only s t"
proof (cases ps rule: rev_cases)
  case Nil
  with assms show ?thesis by (auto simp: pool_append_def ctx_defs)
next
  case (snoc ps' e)
  have e: "pool_end s = Some e" using dpath_last [OF assms(1)] snoc by simp
  obtain m where m: "ctxs s e = Some m" "ctx_next m = NULL"
    and front: "dpath ctx_next ctx_prev (ctxs s) NULL (pool s) ps' (ctx_prev m) (Some e)"
    using assms(1) snoc e by auto
  show ?thesis
  proof (cases ps')
    case Nil
    with snoc e m front assms show ?thesis
      by (auto simp: pool_append_def ctx_defs)
  next
    case (Cons p ps'')
    then have "pool_end s \<noteq> pool s"
      using front e assms(3) snoc by auto
    with Cons snoc e m front assms show ?thesis
      by (auto simp: pool_append_def ctx_defs)
  qed
qed

section \<open>The interface of the pool\<close>

text \<open>
  What the handlers of the engine rely on: \<open>take\<close> hands out the first free context, or nothing
  when there is none; \<open>give\<close> appends a context in use that is \<open>ready\<close> for it at the end.
\<close>

locale context_pool =
  fixes rep :: "'s \<Rightarrow> nat list \<Rightarrow> nat list \<Rightarrow> bool"
    and take :: "'s \<Rightarrow> (ptr \<times> 's) option"
    and give :: "nat \<Rightarrow> 's \<Rightarrow> 's option"
    and ready :: "nat \<Rightarrow> 's \<Rightarrow> bool"
  assumes rep_distinct: "rep s ps us \<Longrightarrow> distinct (ps @ us)"
    and take_first: "rep s (p # ps) us \<Longrightarrow> \<exists>t. take s = Some (Some p, t) \<and> rep t ps (p # us)"
    and take_empty: "rep s [] us \<Longrightarrow> \<exists>t. take s = Some (NULL, t) \<and> rep t [] us"
    and give_last: "rep s ps us \<Longrightarrow> c \<in> set us \<Longrightarrow> ready c s
        \<Longrightarrow> \<exists>t. give c s = Some t \<and> rep t (ps @ [c]) (remove1 c us)"
begin

lemma take_fresh:
  assumes "rep s ps us" and "take s = Some (Some c, t)"
  shows "c \<notin> set us" "c \<in> set ps"
proof -
  have "c \<in> set ps \<and> c \<notin> set us"
  proof (cases ps)
    case Nil
    with take_empty [of s us] assms show ?thesis by auto
  next
    case (Cons p ps')
    with take_first [of s p ps' us] rep_distinct [OF assms(1)] assms show ?thesis by auto
  qed
  then show "c \<notin> set us" "c \<in> set ps" by auto
qed

text \<open>Taking as often as there are free contexts hands them out in the order of the pool.\<close>

primrec takes :: "nat \<Rightarrow> 's \<Rightarrow> (nat list \<times> 's) option" where
  "takes 0 s = Some ([], s)"
| "takes (Suc n) s = do {
     (p, s) \<leftarrow> take s;
     c \<leftarrow> p;
     (cs, s) \<leftarrow> takes n s;
     Some (c # cs, s)
   }"

lemma takes_prefix:
  "rep s (ps @ qs) us \<Longrightarrow> \<exists>t. takes (length ps) s = Some (ps, t) \<and> rep t qs (rev ps @ us)"
proof (induction ps arbitrary: s us)
  case Nil
  then show ?case by simp
next
  case (Cons p ps)
  then obtain t where t: "take s = Some (Some p, t)" "rep t (ps @ qs) (p # us)"
    using take_first by fastforce
  with Cons.IH [OF t(2)] show ?case by auto
qed

text \<open>First in, first out: a context given back is handed out after all that were free before.\<close>

lemma give_then_takes:
  assumes "rep s ps us" and "c \<in> set us" and "ready c s"
  shows "\<exists>t u. give c s = Some t \<and> takes (Suc (length ps)) t = Some (ps @ [c], u)
           \<and> rep u [] (rev (ps @ [c]) @ remove1 c us)"
proof -
  obtain t where t: "give c s = Some t" "rep t (ps @ [c]) (remove1 c us)"
    using give_last [OF assms] by blast
  with takes_prefix [of t "ps @ [c]" "[]" "remove1 c us"] show ?thesis by auto
qed

end

section \<open>The engine implements it\<close>

text \<open>
  Besides the lists: the contexts carry the index of their coroutine, so that switching to them
  finds the table; the listening event is stopped when no context is free.
\<close>

definition ids_ok :: "engine \<Rightarrow> bool" where
  "ids_ok s \<longleftrightarrow> tsrm_tls_table (ts s) \<noteq> None \<and> (\<forall>c \<in> ran (ctxs s). 0 \<le> ctx_thread_id c)"

definition listener_ok :: "engine \<Rightarrow> bool" where
  "listener_ok s \<longleftrightarrow> listener_added s = (\<not> listener_event_stop s)
     \<and> (listener_event_stop s \<longleftrightarrow> context_count s < 1)"

definition engine_rep :: "engine \<Rightarrow> nat list \<Rightarrow> nat list \<Rightarrow> bool" where
  "engine_rep s ps us \<longleftrightarrow> pool_rep s ps us \<and> ids_ok s \<and> listener_ok s"

text \<open>A context may be given back when its \<open>bufferevent\<close> is live or its connection is gone.\<close>

definition returnable :: "nat \<Rightarrow> engine \<Rightarrow> bool" where
  "returnable a s \<longleftrightarrow> (case ctxs s a of
      None \<Rightarrow> False
    | Some c \<Rightarrow> ctx_fd c = 0 \<or> (\<exists>b. ctx_bev c = Some b \<and> b \<in> dom (bevs s)))"

lemma ids_ok_cong:
  assumes "same_data (ctxs s) (ctxs t)" and "tsrm_tls_table (ts t) = tsrm_tls_table (ts s)"
  shows "ids_ok t = ids_ok s"
proof -
  have "(\<forall>c \<in> ran h. 0 \<le> ctx_thread_id c) \<Longrightarrow> (\<forall>c \<in> ran h'. 0 \<le> ctx_thread_id c)"
    if sd: "\<forall>a. map_option unlinked (h' a) = map_option unlinked (h a)" for h h'
  proof (intro ballI)
    fix c
    assume h: "\<forall>c \<in> ran h. 0 \<le> ctx_thread_id c" and "c \<in> ran h'"
    then obtain a where a: "h' a = Some c" by (auto simp: ran_def)
    from sd have "map_option unlinked (h' a) = map_option unlinked (h a)" by blast
    with a obtain d where "h a = Some d" "unlinked c = unlinked d" by (cases "h a") auto
    with h show "0 \<le> ctx_thread_id c" by (metis ranI unlinked_eqD(1))
  qed
  note imp = this
  have "\<forall>a. map_option unlinked (ctxs t a) = map_option unlinked (ctxs s a)"
    using assms(1) by (simp add: same_data_def)
  moreover from this have "\<forall>a. map_option unlinked (ctxs s a) = map_option unlinked (ctxs t a)" by simp
  ultimately have "(\<forall>c \<in> ran (ctxs t). 0 \<le> ctx_thread_id c) = (\<forall>c \<in> ran (ctxs s). 0 \<le> ctx_thread_id c)"
    using imp by blast
  then show ?thesis using assms(2) by (simp add: ids_ok_def)
qed

lemma enter_coroutine_any:
  assumes "tsrm_tls_table t = Some table" and "0 \<le> i"
  shows "enter_coroutine i t = Some (t\<lparr>force_thread_id := i, tls :=
      (if int (length table) \<le> i then NULL else table ! nat i)\<rparr>)"
  using assms by (simp add: enter_coroutine_def set_force_thread_id_def get_tsrm_tls_entry_def
      index_of_def tsrm_set_interpreter_context_def Let_def nth_opt_def) linarith

lemma pool_rep_asser [simp]:
  "pool_rep (asser_event_stop s) ps us = pool_rep s ps us"
  "pool_rep (asser_event_continue s) ps us = pool_rep s ps us"
  "ids_ok (asser_event_stop s) = ids_ok s" "ids_ok (asser_event_continue s) = ids_ok s"
  "ctxs (asser_event_stop s) = ctxs s" "ctxs (asser_event_continue s) = ctxs s"
  "bevs (asser_event_stop s) = bevs s" "bevs (asser_event_continue s) = bevs s"
  "ts (asser_event_stop s) = ts s" "ts (asser_event_continue s) = ts s"
  "globals (asser_event_stop s) = globals s" "globals (asser_event_continue s) = globals s"
  "frames (asser_event_stop s) = frames s" "frames (asser_event_continue s) = frames s"
  "wk (asser_event_stop s) = wk s" "wk (asser_event_continue s) = wk s"
  by (simp_all add: asser_event_stop_def asser_event_continue_def pool_rep_def ids_ok_def)

lemma use_coroutine_context_full:
  assumes "pool_rep s (p # ps) us" and "ids_ok s" and "ctxs s p = Some n"
    and "tsrm_tls_table (ts s) = Some table"
  shows "\<exists>t. use_coroutine_context s = Some (Some p, asser_event_stop t)
     \<and> pool_rep t ps (p # us) \<and> same_data (ctxs s) (ctxs t) \<and> bevs t = bevs s
     \<and> globals t = globals s \<and> frames t = frames s \<and> wk t = wk s
     \<and> ts t = (ts s)\<lparr>force_thread_id := ctx_thread_id n, tls :=
          (if int (length table) \<le> ctx_thread_id n then NULL else table ! nat (ctx_thread_id n))\<rparr>
     \<and> listener_added t = listener_added s \<and> listener_event_stop t = listener_event_stop s"
proof -
  obtain q where us: "ctx_list (ctxs s) (use s) us q" using assms(1) by (auto simp: pool_rep_def)
  have ps: "ctx_list (ctxs s) (pool s) (p # ps) (pool_end s)" "distinct ((p # ps) @ us)"
    using assms(1) by (auto simp: pool_rep_def)
  obtain t1 where t1: "pool_advance s = Some t1" "ctx_list (ctxs t1) (pool t1) ps (pool_end t1)"
    "ctx_list (ctxs t1) (use t1) us q" "ctxs t1 p = ctxs s p" "context_count t1 = context_count s"
    "links_only s t1"
    using pool_advance_rep [OF ps(1) us ps(2)] by blast
  have "distinct (ps @ p # us)" "ctxs t1 p = Some n" using ps t1(4) assms(3) by auto
  from use_push_rep [OF t1(2,3) this] obtain t2 q' where t2: "use_push (Some p) t1 = Some t2"
    "ctx_list (ctxs t2) (pool t2) ps (pool_end t2)" "ctx_list (ctxs t2) (use t2) (p # us) q'"
    "context_count t2 = context_count t1" "links_only t1 t2" by blast
  have lo: "links_only s t2" using t1(6) t2(5) by (rule links_only_trans)
  then obtain n' where n': "ctxs t2 p = Some n'" "ctx_thread_id n' = ctx_thread_id n"
    using same_dataD [of "ctxs s" "ctxs t2" p n] assms(3) unlinked_eqD(1) by (metis links_only_def)
  have "0 \<le> ctx_thread_id n" using assms(2,3) by (auto simp: ids_ok_def ran_def)
  then have sw: "enter_coroutine (ctx_thread_id n') (ts t2) = Some ((ts s)\<lparr>force_thread_id := ctx_thread_id n, tls :=
      (if int (length table) \<le> ctx_thread_id n then NULL else table ! nat (ctx_thread_id n))\<rparr>)"
    using enter_coroutine_any assms(4) lo n'(2) by (simp add: links_only_def)
  have c: "0 < context_count s" "pool s = Some p" using assms(1) by (auto simp: pool_rep_def)
  let ?t = "t2\<lparr>
      context_count := context_count t2 - 1, ts := (ts s)\<lparr>force_thread_id := ctx_thread_id n, tls :=
      (if int (length table) \<le> ctx_thread_id n then NULL else table ! nat (ctx_thread_id n))\<rparr>\<rparr>"
  from c have "use_coroutine_context s = Some (Some p, asser_event_stop ?t)"
    using t1(1) t2(1) n'(1) sw
    by (simp add: use_coroutine_context_def checkout_coroutine_context_def ctx_read_def Let_def)
  moreover have "pool_rep ?t ps (p # us)"
    using t1(5) t2 ps assms(1) by (auto simp: pool_rep_def)
  ultimately show ?thesis
    using lo by (intro exI [of _ ?t]) (simp add: links_only_def)
qed

lemma free_coroutine_context_full:
  assumes "pool_rep s ps us" and "c \<in> set us" and "returnable c s" and "ctxs s c = Some n"
  shows "\<exists>t. free_coroutine_context (Some c) s = Some (asser_event_continue t)
     \<and> pool_rep t (ps @ [c]) (remove1 c us) \<and> same_data (ctxs s) (ctxs t) \<and> ts t = ts s
     \<and> bevs t = (if ctx_fd n = 0 then bevs s else (bevs s)(the (ctx_bev n) := None))
     \<and> globals t = globals s \<and> frames t = frames s
     \<and> wk t = (if ctx_fd n = 0 then wk s
               else (wk s)\<lparr>open_fds := open_fds (wk s) - {the (bevs s (the (ctx_bev n)))}\<rparr>)
     \<and> listener_added t = listener_added s \<and> listener_event_stop t = listener_event_stop s"
proof -
  obtain q where us: "ctx_list (ctxs s) (use s) us q" using assms(1) by (auto simp: pool_rep_def)
  have ps: "ctx_list (ctxs s) (pool s) ps (pool_end s)" "distinct (ps @ us)"
    using assms(1) by (auto simp: pool_rep_def)
  obtain t1 m q1 where t1: "use_unlink (Some c) s = Some t1"
    "ctx_list (ctxs t1) (pool t1) ps (pool_end t1)" "ctx_list (ctxs t1) (use t1) (remove1 c us) q1"
    "ctxs t1 c = Some m" "ctx_next m = NULL" "ctx_prev m = NULL"
    "context_count t1 = context_count s" "links_only s t1"
    using use_unlink_rep [OF ps(1) us ps(2) assms(2)] by blast
  have d: "distinct (ps @ c # remove1 c us)" using ps(2) assms(2) by auto
  obtain t2 where t2: "pool_append (Some c) t1 = Some t2"
    "ctx_list (ctxs t2) (pool t2) (ps @ [c]) (pool_end t2)"
    "ctx_list (ctxs t2) (use t2) (remove1 c us) q1"
    "context_count t2 = context_count t1" "links_only t1 t2"
    using pool_append_rep [OF t1(2,3) d t1(4-6)] by blast
  have lo: "links_only s t2" using t1(8) t2(5) by (rule links_only_trans)
  then obtain n' where n': "ctxs t2 c = Some n'" "unlinked n' = unlinked n"
    using same_dataD [of "ctxs s" "ctxs t2" c n] assms(4) by (metis links_only_def)
  note same = unlinked_eqD(2,3) [OF n'(2)]
  let ?u = "t2\<lparr>context_count := context_count t2 + 1\<rparr>"
  let ?t = "if ctx_fd n = 0 then ?u
    else close_fd (the (bevs s (the (ctx_bev n)))) (?u\<lparr>bevs := (bevs s)(the (ctx_bev n) := None)\<rparr>)"
  have "free_coroutine_context (Some c) s = Some (asser_event_continue ?t)"
    using t1(1) t2(1) n'(1) same assms(3,4) lo
    by (auto simp: free_coroutine_context_def ctx_read_def returnable_def bufferevent_free_def
        links_only_def Let_def)
  moreover have "pool_rep ?t (ps @ [c]) (remove1 c us)"
    using t1(7) t2 d assms(1) by (auto simp: pool_rep_def)
  ultimately show ?thesis
    using lo by (intro exI [of _ ?t]) (simp add: links_only_def)
qed

interpretation coroutine_pool: context_pool engine_rep use_coroutine_context
    "\<lambda>a. free_coroutine_context (Some a)" returnable
proof (unfold_locales, goal_cases)
  case (1 s ps us)
  then show ?case by (simp add: engine_rep_def pool_rep_def)
next
  case (2 s p ps us)
  then obtain n table where "ctxs s p = Some n" "tsrm_tls_table (ts s) = Some table"
    by (auto simp: engine_rep_def pool_rep_def ids_ok_def)
  with 2 use_coroutine_context_full [of s p ps us n table] obtain t where
    t: "use_coroutine_context s = Some (Some p, asser_event_stop t)" "pool_rep t ps (p # us)"
      "same_data (ctxs s) (ctxs t)" "tsrm_tls_table (ts t) = tsrm_tls_table (ts s)"
      "listener_added t = listener_added s" "listener_event_stop t = listener_event_stop s"
    by (auto simp: engine_rep_def)
  have "ids_ok t" using ids_ok_cong [OF t(3,4)] 2 by (simp add: engine_rep_def)
  moreover have "listener_ok (asser_event_stop t)"
    using t 2 by (auto simp: listener_ok_def asser_event_stop_def engine_rep_def pool_rep_def)
  ultimately show ?case using t by (auto simp: engine_rep_def)
next
  case (3 s us)
  then have "asser_event_stop s = s" "context_count s = 0"
    by (auto simp: engine_rep_def pool_rep_def listener_ok_def asser_event_stop_def)
  with 3 show ?case by (simp add: use_coroutine_context_def)
next
  case (4 s ps us c)
  then obtain n where "ctxs s c = Some n" by (auto simp: returnable_def split: option.splits)
  with 4 free_coroutine_context_full [of s ps us c n] obtain t where
    t: "free_coroutine_context (Some c) s = Some (asser_event_continue t)"
      "pool_rep t (ps @ [c]) (remove1 c us)" "same_data (ctxs s) (ctxs t)" "ts t = ts s"
      "listener_added t = listener_added s" "listener_event_stop t = listener_event_stop s"
    by (auto simp: engine_rep_def)
  have "ids_ok t" using ids_ok_cong [OF t(3)] t(4) 4 by (simp add: engine_rep_def)
  moreover have "listener_ok (asser_event_continue t)"
    using t 4 by (auto simp: listener_ok_def asser_event_continue_def engine_rep_def pool_rep_def)
  ultimately show ?case using t by (auto simp: engine_rep_def)
qed

end
