(* ===== verification/Coro_Engine.thy ===== *)
theory Coro_Engine
  imports Coro_Pool_Lemmas
begin

text \<open>
  The handlers of the event loop and the way a request runs, yields and resumes
  (sapi/fpm/fpm/fpm_main.c and ext/standard/fpm_coroutine.c).

  The virtual machine and the compiler are parameters: \<open>vm o k\<close> says what running the
  \<open>op_array\<close> \<open>o\<close> from position \<open>k\<close> comes to: the position it stops at, whether the script called
  \<open>fastcgi_finish_request\<close> on the way, and how it stops. The request itself, what its start finds
  and what the files compile to, is the record \<open>request_env\<close>.

  A non-local exit is a value: a run has returned, has left by the \<open>longjmp\<close> of a yield, or has left
  by \<open>zend_bailout\<close>. When the stack frame of \<open>php_execute_script_coro\<close> is left, what points
  into it is marked dead, and reading it is undefined. \<open>heap_alloca\<close> tells how \<open>do_alloca\<close> is built:
  as \<open>alloca\<close>, which takes the 4096 bytes from the stack, or, on systems without it, as \<open>emalloc\<close>.
\<close>

section \<open>Parameters\<close>

datatype stop = Script_end | Uncaught | Bail | Remote_call

type_synonym vm = "nat \<Rightarrow> nat \<Rightarrow> nat \<times> bool \<times> stop"

datatype compile_result = Compiles | Parse_error | Compile_bailout

record request_env =
  startup_ok :: bool
  has_method :: bool
  status_page :: bool
  has_path :: bool
  ext_limited :: bool
  fopen_ok :: bool
  fopen_eacces :: bool
  env_keep :: bool
  prepend :: "nat option"
  primary :: nat
  append :: "nat option"
  start_lineno :: int
  no_chdir :: bool
  script_dir :: string
  heap_alloca :: bool
  compile :: "nat \<Rightarrow> compile_result"

datatype 'a outcome = Returned 'a | Yielded | Bailed

text \<open>Going on after a part that returned.\<close>

definition and_then :: "('a outcome \<times> engine) option \<Rightarrow> ('a \<Rightarrow> engine \<Rightarrow> ('b outcome \<times> engine) option)
    \<Rightarrow> ('b outcome \<times> engine) option" where
  "and_then m f = Option.bind m (\<lambda>(r, s). case r of
      Returned x \<Rightarrow> f x s | Yielded \<Rightarrow> Some (Yielded, s) | Bailed \<Rightarrow> Some (Bailed, s))"

section \<open>Access to the globals of the current coroutine\<close>

definition G_read :: "engine \<Rightarrow> coroutine_globals option" where
  "G_read s = map_option (globals s) (tls (ts s))"

definition G_upd :: "(coroutine_globals \<Rightarrow> coroutine_globals) \<Rightarrow> engine \<Rightarrow> engine option" where
  "G_upd f s = map_option (\<lambda>a. s\<lparr>globals := (globals s)(a := f (globals s a))\<rparr>) (tls (ts s))"

abbreviation W_upd :: "(worker \<Rightarrow> worker) \<Rightarrow> engine \<Rightarrow> engine" where
  "W_upd f s \<equiv> s\<lparr>wk := f (wk s)\<rparr>"

definition note_event :: "engine_event \<Rightarrow> engine \<Rightarrow> engine" where
  "note_event e s = W_upd (\<lambda>w. w\<lparr>trace := trace w @ [e]\<rparr>) s"

definition fresh :: "engine \<Rightarrow> nat \<times> engine" where
  "fresh s = (next_obj (wk s), W_upd (\<lambda>w. w\<lparr>next_obj := Suc (next_obj w)\<rparr>) s)"

section \<open>The FastCGI request of a connection\<close>

definition req_read :: "ptr \<Rightarrow> engine \<Rightarrow> fcgi_conn option" where
  "req_read p s = map_option snd (deref (reqs (wk s)) p)"

definition req_upd :: "(fcgi_conn \<Rightarrow> fcgi_conn) \<Rightarrow> ptr \<Rightarrow> engine \<Rightarrow> engine option" where
  "req_upd f p s = map_option (\<lambda>h. W_upd (\<lambda>w. w\<lparr>reqs := h\<rparr>) s) (upd_at f p (reqs (wk s)))"

definition fpm_init_request :: "engine \<Rightarrow> nat \<times> engine" where
  "fpm_init_request s =
     (let (a, s) = fresh s in
      (a, W_upd (\<lambda>w. w\<lparr>reqs := (reqs w)(a \<mapsto>
            \<lparr>q_fd = -1, q_keep = False, q_bev = NULL, q_ended = False\<rparr>)\<rparr>) s))"

definition fcgi_close_conn :: "ptr \<Rightarrow> bool \<Rightarrow> engine \<Rightarrow> engine option" where
  "fcgi_close_conn p force s = do {
     q \<leftarrow> req_read p s;
     if (force \<or> \<not> q_keep q) \<and> 0 \<le> q_fd q then do {
       let s = note_event (Closed_connection (q_fd q)) (close_fd (q_fd q) s);
       req_upd (\<lambda>q. q\<lparr>q_fd := -1\<rparr>) p s
     } else Some s
   }"

definition fcgi_finish_conn :: "ptr \<Rightarrow> bool \<Rightarrow> engine \<Rightarrow> engine option" where
  "fcgi_finish_conn p force s = do {
     q \<leftarrow> req_read p s;
     if 0 \<le> q_fd q then do {
       s \<leftarrow> req_upd (\<lambda>q. q\<lparr>q_ended := True\<rparr>) p s;
       fcgi_close_conn p force s
     } else Some s
   }"

text \<open>The PHP function of that name, called by the script.\<close>

definition fastcgi_finish_request :: "engine \<Rightarrow> engine option" where
  "fastcgi_finish_request s = do {
     g \<leftarrow> G_read s;
     q \<leftarrow> req_read (server_context g) s;
     if 0 \<le> q_fd q then do {
       s \<leftarrow> req_upd (\<lambda>q. q\<lparr>q_ended := True\<rparr>) (server_context g) s;
       fcgi_close_conn (server_context g) False s
     } else Some s
   }"

section \<open>Yielding\<close>

definition yield_coroutine_context :: "engine \<Rightarrow> engine option" where
  "yield_coroutine_context s = do {
     g \<leftarrow> G_read s;
     (_, f) \<leftarrow> deref (frames s) (current_execute_data g);
     ctx_write (\<lambda>c. c\<lparr>prev_execute_data := prev_frame f\<rparr>) (sg_context g) s
   }"

text \<open>
  What the machine does with the frame \<open>p\<close>. A call that yields is made from a frame of its own on
  top of \<open>p\<close>; it ends with \<open>yield_coroutine_context\<close>, whose \<open>longjmp\<close> is the outcome \<open>Yielded\<close>.
\<close>

definition run_frame :: "vm \<Rightarrow> ptr \<Rightarrow> engine \<Rightarrow> (unit outcome \<times> engine) option" where
  "run_frame vm p s = do {
     (a, f) \<leftarrow> deref (frames s) p;
     op \<leftarrow> func f;
     if op \<notin> dom (op_arrays (wk s)) then None
     else do {
       let (k, fin, stop) = vm op (opline f);
       s \<leftarrow> (if fin then fastcgi_finish_request s else Some s);
       let s = s\<lparr>frames := (frames s)(a \<mapsto> f\<lparr>opline := k\<rparr>)\<rparr>;
       case stop of
         Script_end \<Rightarrow> do {
           s \<leftarrow> G_upd (\<lambda>g. g\<lparr>current_execute_data := prev_frame f\<rparr>) s;
           Some (Returned (), s)
         }
       | Uncaught \<Rightarrow> do {
           s \<leftarrow> G_upd (\<lambda>g. g\<lparr>current_execute_data := prev_frame f, eg_exception := True\<rparr>) s;
           Some (Returned (), s)
         }
       | Bail \<Rightarrow> Some (Bailed, s)
       | Remote_call \<Rightarrow> do {
           let (i, s) = fresh s;
           let s = s\<lparr>frames := (frames s)(i \<mapsto>
                     \<lparr>opline = 0, prev_frame = Some a, func = NULL, frame_owner = frame_owner f\<rparr>)\<rparr>;
           s \<leftarrow> G_upd (\<lambda>g. g\<lparr>current_execute_data := Some i\<rparr>) s;
           s \<leftarrow> yield_coroutine_context s;
           Some (Yielded, s)
         }
     }
   }"

section \<open>Running scripts\<close>

text \<open>
  \<open>zend_exception_error\<close> with \<open>E_ERROR\<close> clears the exception, sets the exit status and bails out.
\<close>

definition fatal_exception :: "engine \<Rightarrow> (unit outcome \<times> engine) option" where
  "fatal_exception s = do {
     g \<leftarrow> G_read s;
     if eg_exception g then do {
       s \<leftarrow> G_upd (\<lambda>g. g\<lparr>eg_exception := False, exit_status := 255\<rparr>) s;
       Some (Bailed, s)
     } else Some (Returned (), s)
   }"

text \<open>The second branch of \<open>setjmp\<close>: the yield goes on to the buffer of the read handler.\<close>

definition longjmp_req :: "ptr \<Rightarrow> engine \<Rightarrow> ('a outcome \<times> engine) option" where
  "longjmp_req context s = do {
     c \<leftarrow> ctx_read context s;
     if buf_ptr c = Some In_execute_coro \<and> req_ptr c = Some In_socket_read then Some (Yielded, s) else None
   }"

definition zend_execute_coro :: "vm \<Rightarrow> ptr \<Rightarrow> engine \<Rightarrow> (unit outcome \<times> engine) option" where
  "zend_execute_coro vm op s = do {
     g \<leftarrow> G_read s;
     let context = sg_context g;
     s \<leftarrow> ctx_write (\<lambda>c. c\<lparr>op_array := op\<rparr>) context s;
     if eg_exception g then Some (Returned (), s)
     else do {
       owner \<leftarrow> tls (ts s);
       let (a, s) = fresh s;
       let s = s\<lparr>frames := (frames s)(a \<mapsto>
                 \<lparr>opline = 0, prev_frame = current_execute_data g, func = op, frame_owner = owner\<rparr>)\<rparr>;
       s \<leftarrow> G_upd (\<lambda>g. g\<lparr>current_execute_data := Some a\<rparr>) s;
       s \<leftarrow> ctx_write (\<lambda>c. c\<lparr>buf_ptr := Some In_execute_coro\<rparr>) context s;
       (r, s) \<leftarrow> run_frame vm (Some a) s;
       case r of
         Returned _ \<Rightarrow> Some (Returned (), s\<lparr>frames := (frames s)(a := None)\<rparr>)
       | Yielded \<Rightarrow> longjmp_req context s
       | Bailed \<Rightarrow> Some (Bailed, s)
     }
   }"

definition destroy_op_array :: "ptr \<Rightarrow> engine \<Rightarrow> engine option" where
  "destroy_op_array p s = do {
     op \<leftarrow> p;
     if op \<in> dom (op_arrays (wk s)) then Some (W_upd (\<lambda>w. w\<lparr>op_arrays := (op_arrays w)(op := None)\<rparr>) s)
     else None
   }"

definition zend_compile_file :: "request_env \<Rightarrow> nat \<Rightarrow> engine \<Rightarrow> (ptr outcome \<times> engine) option" where
  "zend_compile_file env fh s =
     (case compile env fh of
        Compiles \<Rightarrow> do {
          owner \<leftarrow> tls (ts s);
          let (op, s) = fresh s;
          Some (Returned (Some op), note_event (Ran_file fh op)
                  (W_upd (\<lambda>w. w\<lparr>op_arrays := (op_arrays w)(op \<mapsto> owner)\<rparr>) s))
        }
      | Parse_error \<Rightarrow> do {
          s \<leftarrow> G_upd (\<lambda>g. g\<lparr>eg_exception := True\<rparr>) s;
          Some (Returned NULL, s)
        }
      | Compile_bailout \<Rightarrow> do {
          s \<leftarrow> G_upd (\<lambda>g. g\<lparr>exit_status := 255\<rparr>) s;
          Some (Bailed, s)
        })"

text \<open>The result is the code's \<open>SUCCESS\<close> or \<open>FAILURE\<close>; the type is always \<open>ZEND_REQUIRE\<close>.\<close>

fun zend_execute_scripts_coro ::
    "vm \<Rightarrow> request_env \<Rightarrow> nat option list \<Rightarrow> engine \<Rightarrow> (bool outcome \<times> engine) option" where
  "zend_execute_scripts_coro vm env [] s = Some (Returned True, s)"
| "zend_execute_scripts_coro vm env (None # files) s = zend_execute_scripts_coro vm env files s"
| "zend_execute_scripts_coro vm env (Some fh # files) s =
     and_then (zend_compile_file env fh s) (\<lambda>op s.
       if op = NULL then Some (Returned False, s)
       else and_then (zend_execute_coro vm op s) (\<lambda>_ s.
            and_then (fatal_exception s) (\<lambda>_ s. do {
              s \<leftarrow> destroy_op_array op s;
              zend_execute_scripts_coro vm env files s
            })))"

text \<open>
  Reading a buffer that is not live is undefined. \<open>free_alloca\<close> releases one on the heap and leaves one on
  the stack to its frame.
\<close>

definition free_old_cwd :: "ptr \<Rightarrow> engine \<Rightarrow> engine option" where
  "free_old_cwd context s = do {
     c \<leftarrow> ctx_read context s;
     case old_cwd c of
       Cwd_unset \<Rightarrow> None
     | Cwd_dead \<Rightarrow> None
     | Cwd_live on_heap d \<Rightarrow> do {
         s \<leftarrow> (if d \<noteq> [] then G_upd (\<lambda>g. g\<lparr>cwd := d\<rparr>) s else Some s);
         ctx_write (\<lambda>c. c\<lparr>old_cwd := (if on_heap then Cwd_dead else old_cwd c)\<rparr>) context s
       }
   }"

text \<open>The buffer when the frame it was taken in has been left.\<close>

fun frame_left :: "cwd_buf \<Rightarrow> cwd_buf" where
  "frame_left (Cwd_live False d) = Cwd_dead"
| "frame_left b = b"

text \<open>
  The frame of \<open>php_execute_script_coro\<close> is left by a \<open>longjmp\<close>: the buffer goes with it, and the bailout
  target in it, which no statement of the code resets.
\<close>

definition script_frame_dies :: "ptr \<Rightarrow> engine \<Rightarrow> engine option" where
  "script_frame_dies context s = do {
     s \<leftarrow> ctx_write (\<lambda>c. c\<lparr>old_cwd := frame_left (old_cwd c)\<rparr>) context s;
     G_upd (\<lambda>g. g\<lparr>eg_bailout := (if eg_bailout g = In_script_try then Dead_frame else eg_bailout g)\<rparr>) s
   }"

definition script_files :: "request_env \<Rightarrow> vm \<Rightarrow> engine \<Rightarrow> (bool outcome \<times> engine) option" where
  "script_files env vm s =
     (if start_lineno env \<noteq> 0 \<and> prepend env \<noteq> None
      then and_then (zend_execute_scripts_coro vm env [prepend env] s) (\<lambda>ok s.
             if ok then zend_execute_scripts_coro vm env [Some (primary env), append env] s
             else Some (Returned False, s))
      else zend_execute_scripts_coro vm env [prepend env, Some (primary env), append env] s)"

definition php_execute_script_coro :: "vm \<Rightarrow> request_env \<Rightarrow> engine \<Rightarrow> (bool outcome \<times> engine) option" where
  "php_execute_script_coro vm env s = do {
     g \<leftarrow> G_read s;
     let context = sg_context g;
     s \<leftarrow> G_upd (\<lambda>g. g\<lparr>exit_status := 0\<rparr>) s;
     s \<leftarrow> ctx_write (\<lambda>c. c\<lparr>use_heap := (if heap_alloca env then use_heap c else False),
            old_cwd := Cwd_live (heap_alloca env) []\<rparr>) context s;
     let orig = eg_bailout g;
     s \<leftarrow> G_upd (\<lambda>g. g\<lparr>eg_bailout := In_script_try\<rparr>) s;
     s \<leftarrow> (if no_chdir env then Some s else do {
             s \<leftarrow> ctx_write (\<lambda>c. c\<lparr>old_cwd := Cwd_live (heap_alloca env) (cwd g)\<rparr>) context s;
             G_upd (\<lambda>g. g\<lparr>cwd := script_dir env\<rparr>) s
           });
     (r, s) \<leftarrow> script_files env vm s;
     case r of
       Yielded \<Rightarrow> do { s \<leftarrow> script_frame_dies context s; Some (Yielded, s) }
     | _ \<Rightarrow> do {
         let retval = (r = Returned True);
         s \<leftarrow> G_upd (\<lambda>g. g\<lparr>eg_bailout := orig\<rparr>) s;
         (_, s) \<leftarrow> fatal_exception s;
         s \<leftarrow> free_old_cwd context s;
         s \<leftarrow> ctx_write (\<lambda>c. c\<lparr>old_cwd := frame_left (old_cwd c)\<rparr>) context s;
         Some (Returned retval, s)
       }
   }"

section \<open>The beginning and the end of a request\<close>

definition init_request :: "ptr \<Rightarrow> engine \<Rightarrow> engine option" where
  "init_request req s = G_upd (\<lambda>g. g\<lparr>server_context := req\<rparr>) s"

definition init_coroutine_set_request :: "ptr \<Rightarrow> ptr \<Rightarrow> engine \<Rightarrow> engine option" where
  "init_coroutine_set_request context req s = do {
     s \<leftarrow> ctx_write (\<lambda>c. c\<lparr>request := req\<rparr>) context s;
     G_upd (\<lambda>g. g\<lparr>sg_context := context\<rparr>) s
   }"

text \<open>The hook of the SAPI that ends the FastCGI request, when the handler has started it.\<close>

definition sapi_cgi_deactivate :: "engine \<Rightarrow> engine option" where
  "sapi_cgi_deactivate s = do {
     g \<leftarrow> G_read s;
     if sapi_started g then fcgi_finish_conn (server_context g) False s else Some s
   }"

text \<open>
  What \<open>php_request_shutdown\<close> does to the parts the engine sees: the frames and op_arrays of the
  coroutine go with its request memory, and the deactivation of the SAPI finishes the request.
\<close>

definition php_request_shutdown :: "engine \<Rightarrow> engine option" where
  "php_request_shutdown s = do {
     owner \<leftarrow> tls (ts s);
     s \<leftarrow> G_upd (\<lambda>g. g\<lparr>current_execute_data := NULL\<rparr>) s;
     s \<leftarrow> sapi_cgi_deactivate s;
     s \<leftarrow> G_upd (\<lambda>g. g\<lparr>sapi_started := False\<rparr>) s;
     Some (W_upd (\<lambda>w. w\<lparr>op_arrays := (\<lambda>a. if op_arrays w a = Some owner then None else op_arrays w a)\<rparr>)
       (s\<lparr>frames := (\<lambda>a. case frames s a of
            None \<Rightarrow> None | Some f \<Rightarrow> if frame_owner f = owner then None else Some f)\<rparr>))
   }"

definition close_request :: "engine \<Rightarrow> (bool \<times> engine) option" where
  "close_request s = do {
     g \<leftarrow> G_read s;
     let s = (if request_body_fd g \<noteq> -1 then close_fd (request_body_fd g) s else s);
     s \<leftarrow> G_upd (\<lambda>g. g\<lparr>request_body_fd := -2\<rparr>) s;
     let s = (if exit_status g = 255 then note_event Error_header s else s);
     let s = note_event Stage_end s;
     s \<leftarrow> php_request_shutdown s;
     let s = W_upd (\<lambda>w. w\<lparr>requests := requests w + 1\<rparr>) s;
     if max_requests (wk s) \<noteq> 0 \<and> requests (wk s) = max_requests (wk s) then do {
       g \<leftarrow> G_read s;
       c \<leftarrow> ctx_read (sg_context g) s;
       s \<leftarrow> req_upd (\<lambda>q. q\<lparr>q_keep := False\<rparr>) (request c) s;
       s \<leftarrow> fcgi_finish_conn (request c) False s;
       Some (False, s)
     } else Some (True, s)
   }"

section \<open>The handlers of the event loop\<close>

definition do_accept :: "int \<Rightarrow> engine \<Rightarrow> engine option" where
  "do_accept fd s =
     (if fd < 0 then Some s
      else do {
        let s = W_upd (\<lambda>w. w\<lparr>open_fds := insert fd (open_fds w)\<rparr>) s;
        (context, s) \<leftarrow> use_coroutine_context s;
        s \<leftarrow> G_upd (\<lambda>g. g\<lparr>sg_context := context, sapi_started := False\<rparr>) s;
        s \<leftarrow> ctx_write (\<lambda>c. c\<lparr>ctx_fd := fd\<rparr>) context s;
        let (b, s) = fresh s;
        let s = s\<lparr>bevs := (bevs s)(b \<mapsto> fd)\<rparr>;
        ctx_write (\<lambda>c. c\<lparr>ctx_bev := Some b\<rparr>) context s
      })"

text \<open>The label \<open>fastcgi_request_done2\<close>.\<close>

definition fastcgi_request_done2 :: "engine \<Rightarrow> engine option" where
  "fastcgi_request_done2 s = do {
     (more, s) \<leftarrow> close_request s;
     let s = (if \<not> more then W_upd (\<lambda>w. w\<lparr>loopexit := True\<rparr>) s else s);
     g \<leftarrow> G_read s;
     free_coroutine_context (sg_context g) s
   }"

text \<open>The read handler up to its first branch: a request for the connection, and its globals.\<close>

definition read_prologue :: "request_env \<Rightarrow> ptr \<Rightarrow> ptr \<Rightarrow> engine \<Rightarrow> (ptr \<times> engine) option" where
  "read_prologue env bev context s = do {
     s \<leftarrow> checkout_coroutine_context context s;
     c \<leftarrow> ctx_read context s;
     let (q, s) = fpm_init_request s;
     let req = Some q;
     s \<leftarrow> req_upd (\<lambda>q. q\<lparr>q_fd := ctx_fd c\<rparr>) req s;
     s \<leftarrow> req_upd (\<lambda>q. q\<lparr>q_bev := bev\<rparr>) req s;
     s \<leftarrow> init_coroutine_set_request context req s;
     s \<leftarrow> req_upd (\<lambda>q. q\<lparr>q_keep := env_keep env\<rparr>) req s;
     s \<leftarrow> G_upd (\<lambda>g. g\<lparr>request_body_fd := -1\<rparr>) s;
     s \<leftarrow> init_request req s;
     s \<leftarrow> G_upd (\<lambda>g. g\<lparr>sapi_started := True\<rparr>) s;
     Some (req, s)
   }"

definition socket_read_cb :: "vm \<Rightarrow> request_env \<Rightarrow> ptr \<Rightarrow> ptr \<Rightarrow> engine \<Rightarrow> engine option" where
  "socket_read_cb vm env bev context s = do {
     (req, s) \<leftarrow> read_prologue env bev context s;
     if \<not> startup_ok env then do {
       s \<leftarrow> fcgi_finish_conn req True s;
       s \<leftarrow> G_upd (\<lambda>g. g\<lparr>server_context := NULL\<rparr>) s;
       Some (note_event Module_shutdown s)
     }
     else if \<not> has_method env then fastcgi_request_done2 s
     else if status_page env then fastcgi_request_done2 s
     else if \<not> has_path env then fastcgi_request_done2 (note_event (Response_code 404) s)
     else if ext_limited env then fastcgi_request_done2 (note_event (Response_code 403) s)
     else if \<not> fopen_ok env then
       fastcgi_request_done2 (note_event (Response_code (if fopen_eacces env then 403 else 404)) s)
     else do {
       let s = note_event Stage_executing s;
       g \<leftarrow> G_read s;
       s \<leftarrow> ctx_write (\<lambda>c. c\<lparr>req_ptr := Some In_socket_read\<rparr>) (sg_context g) s;
       (r, s) \<leftarrow> php_execute_script_coro vm env s;
       if r = Yielded then Some s else fastcgi_request_done2 s
     }
   }"

definition event_cb :: "ptr \<Rightarrow> ptr \<Rightarrow> engine \<Rightarrow> engine option" where
  "event_cb bev context s = do {
     s \<leftarrow> checkout_coroutine_context context s;
     s \<leftarrow> ctx_write (\<lambda>c. c\<lparr>ctx_fd := 0\<rparr>) context s;
     c \<leftarrow> ctx_read context s;
     s \<leftarrow> destroy_op_array (op_array c) s;
     s \<leftarrow> free_old_cwd context s;
     (_, s) \<leftarrow> close_request s;
     bufferevent_free bev s
   }"

section \<open>Resuming\<close>

text \<open>
  \<open>zend_bailout\<close> in a handler that has no \<open>zend_try\<close> of its own: without a target, or with that of
  the loop in \<open>main\<close>, the worker ends; a jump to a frame that has been left is undefined.
\<close>

definition zend_bailout :: "engine \<Rightarrow> engine option" where
  "zend_bailout s = do {
     g \<leftarrow> G_read s;
     case eg_bailout g of
       No_bailout \<Rightarrow> Some (note_event Worker_exit (W_upd (\<lambda>w. w\<lparr>loopexit := True\<rparr>) s))
     | In_loop \<Rightarrow> Some (note_event Worker_exit (W_upd (\<lambda>w. w\<lparr>loopexit := True\<rparr>) s))
     | In_script_try \<Rightarrow> None
     | Dead_frame \<Rightarrow> None
   }"

definition resume_coroutine_context :: "vm \<Rightarrow> engine \<Rightarrow> engine option" where
  "resume_coroutine_context vm s = do {
     g \<leftarrow> G_read s;
     let context = sg_context g;
     c \<leftarrow> ctx_read context s;
     if ctx_fd c = 0 then free_coroutine_context context s
     else do {
       s \<leftarrow> ctx_write (\<lambda>c. c\<lparr>buf_ptr := Some In_resume\<rparr>) context s;
       s \<leftarrow> init_request (request c) s;
       let s = note_event Stage_executing s;
       s \<leftarrow> G_upd (\<lambda>g. g\<lparr>current_execute_data := prev_execute_data c\<rparr>) s;
       (a, f) \<leftarrow> deref (frames s) (prev_execute_data c);
       let s = s\<lparr>frames := (frames s)(a \<mapsto> f\<lparr>opline := Suc (opline f)\<rparr>)\<rparr>;
       (r, s) \<leftarrow> and_then (run_frame vm (Some a) s) (\<lambda>_ s. fatal_exception s);
       case r of
         Yielded \<Rightarrow> Some s
       | Bailed \<Rightarrow> zend_bailout s
       | Returned _ \<Rightarrow> do {
           c \<leftarrow> ctx_read context s;
           s \<leftarrow> destroy_op_array (op_array c) s;
           s \<leftarrow> free_old_cwd context s;
           (_, s) \<leftarrow> close_request s;
           g \<leftarrow> G_read s;
           free_coroutine_context (sg_context g) s
         }
     }
   }"

text \<open>
  What the callback for the end of a remote answer does to the engine (\<open>RemoteReadCallback\<close> of
  ext/coro_http/coro_http.c): it switches to the coroutine and resumes it. Between the two it takes the
  body out of the call's memory, which theory \<open>Coro_Http\<close> models; this is the engine's part of the callback
  as long as that memory is there.
\<close>

definition remote_answer :: "vm \<Rightarrow> ptr \<Rightarrow> engine \<Rightarrow> engine option" where
  "remote_answer vm context s = do {
     s \<leftarrow> checkout_coroutine_context context s;
     resume_coroutine_context vm s
   }"

section \<open>Bringing the engine up\<close>

definition init_coroutine_info :: "engine \<Rightarrow> engine option" where
  "init_coroutine_info s = G_upd (\<lambda>g. g\<lparr>sg_context := NULL\<rparr>) s"

text \<open>One round of the first \<open>COROUTINE_INIT_START\<close> loop of \<open>main\<close>; \<open>blk\<close> is the memory of the context.\<close>

definition init_coroutine :: "(nat \<Rightarrow> sapi_coroutine_context) \<Rightarrow> nat \<Rightarrow> engine \<Rightarrow> engine option" where
  "init_coroutine blk i s = do {
     t \<leftarrow> enter_coroutine (int i) (ts s);
     s \<leftarrow> init_coroutine_info (s\<lparr>ts := t\<rparr>);
     let (a, s) = fresh s;
     init_coroutine_context (int i) a (blk i) s
   }"

text \<open>The two flags say whether the two event bases can be made; the loop itself is the environment.\<close>

definition regist_event :: "bool \<Rightarrow> bool \<Rightarrow> engine \<Rightarrow> bool \<times> engine" where
  "regist_event base_ok dnsbase_ok s =
     (if \<not> base_ok then (False, s)
      else if \<not> dnsbase_ok then (False, s)
      else (True, s\<lparr>listener_added := True\<rparr>))"

definition engine_boot :: "nat \<Rightarrow> (nat \<Rightarrow> sapi_coroutine_context) \<Rightarrow> engine \<Rightarrow> engine option" where
  "engine_boot n blk s = do {
     t \<leftarrow> tsrm_boot n (ts s);
     let s = init_coroutine_static (s\<lparr>ts := t\<rparr>);
     s \<leftarrow> for_each (init_coroutine blk) [0..<n] s;
     let t = set_force_thread_id 0 (ts s);
     main_context \<leftarrow> get_tsrm_tls_entry 0 t;
     Some (snd (regist_event True True (s\<lparr>ts := snd (tsrm_set_interpreter_context main_context t)\<rparr>)))
   }"

end
