(* ===== verification/Coro_Engine_Lemmas.thy ===== *)
theory Coro_Engine_Lemmas
  imports Coro_Engine
begin

text \<open>
  Symbolic execution of the handlers: \<open>act c o s0 s\<close> says that a handler which serves the context
  \<open>c\<close> in the coroutine with the table entry \<open>e\<close> has come from \<open>s0\<close> to \<open>s\<close> without touching the
  lists, the other contexts or what belongs to other coroutines. Every part of a handler keeps it.
\<close>

section \<open>What a handler leaves alone\<close>

definition bounded :: "engine \<Rightarrow> bool" where
  "bounded s \<longleftrightarrow> (\<forall>x. next_obj (wk s) \<le> x \<longrightarrow>
     frames s x = None \<and> op_arrays (wk s) x = None \<and> reqs (wk s) x = None \<and> bevs s x = None)"

definition others :: "nat \<Rightarrow> nat \<Rightarrow> engine \<Rightarrow> engine \<Rightarrow> bool" where
  "others c e s t \<longleftrightarrow>
     (\<forall>a. a \<noteq> c \<longrightarrow> map_option unlinked (ctxs t a) = map_option unlinked (ctxs s a))
     \<and> (\<forall>x. x \<noteq> e \<longrightarrow> globals t x = globals s x)
     \<and> (\<forall>a f. frames s a = Some f \<longrightarrow> frame_owner f \<noteq> e \<longrightarrow> frames t a = Some f)
     \<and> (\<forall>a w. op_arrays (wk s) a = Some w \<longrightarrow> w \<noteq> e \<longrightarrow> op_arrays (wk t) a = Some w)
     \<and> dom (reqs (wk s)) \<subseteq> dom (reqs (wk t)) \<and> next_obj (wk s) \<le> next_obj (wk t)
     \<and> tsrm_tls_table (ts t) = tsrm_tls_table (ts s) \<and> (bounded s \<longrightarrow> bounded t)"

lemma others_refl [simp]: "others c e s s"
  by (simp add: others_def)

lemma others_trans [trans]: "others c e s t \<Longrightarrow> others c e t u \<Longrightarrow> others c e s u"
  unfolding others_def by (intro conjI allI impI; (elim conjE)?) (simp, simp, blast, blast, blast, linarith, simp, blast)

definition same_lists :: "engine \<Rightarrow> engine \<Rightarrow> bool" where
  "same_lists s t \<longleftrightarrow> pool t = pool s \<and> pool_end t = pool_end s \<and> use t = use s
     \<and> context_count t = context_count s \<and> listener_event_stop t = listener_event_stop s
     \<and> listener_added t = listener_added s
     \<and> (\<forall>a. map_option ctx_next (ctxs t a) = map_option ctx_next (ctxs s a)
          \<and> map_option ctx_prev (ctxs t a) = map_option ctx_prev (ctxs s a))"

text \<open>The context of a pointer that is live.\<close>

definition cx :: "nat \<Rightarrow> engine \<Rightarrow> sapi_coroutine_context" where
  "cx c s = the (ctxs s c)"

definition set_G :: "nat \<Rightarrow> (coroutine_globals \<Rightarrow> coroutine_globals) \<Rightarrow> engine \<Rightarrow> engine" where
  "set_G e f s = s\<lparr>globals := (globals s)(e := f (globals s e))\<rparr>"

definition set_C :: "nat \<Rightarrow> (sapi_coroutine_context \<Rightarrow> sapi_coroutine_context) \<Rightarrow> engine \<Rightarrow> engine" where
  "set_C c f s = s\<lparr>ctxs := (ctxs s)(c \<mapsto> f (cx c s))\<rparr>"

definition act :: "nat \<Rightarrow> nat \<Rightarrow> engine \<Rightarrow> engine \<Rightarrow> bool" where
  "act c e s0 s \<longleftrightarrow> others c e s0 s \<and> same_lists s0 s \<and> bevs s = bevs s0 \<and> tls (ts s) = Some e
     \<and> c \<in> dom (ctxs s) \<and> c \<in> dom (ctxs s0) \<and> ctx_thread_id (cx c s) = ctx_thread_id (cx c s0)
     \<and> ctx_bev (cx c s) = ctx_bev (cx c s0) \<and> sg_context (globals s e) = Some c \<and> bounded s"

lemma actD:
  assumes "act c e s0 s"
  shows "others c e s0 s" "same_lists s0 s" "bevs s = bevs s0" "tls (ts s) = Some e"
    "ctxs s c = Some (cx c s)" "sg_context (globals s e) = Some c" "bounded s"
    "ctx_thread_id (cx c s) = ctx_thread_id (cx c s0)" "ctx_bev (cx c s) = ctx_bev (cx c s0)"
  using assms by (auto simp: act_def cx_def)

lemma same_lists_trans: "same_lists s t \<Longrightarrow> same_lists t u \<Longrightarrow> same_lists s u"
  by (simp add: same_lists_def)

text \<open>A single step, compared with the state just before it.\<close>

definition act_step :: "nat \<Rightarrow> nat \<Rightarrow> engine \<Rightarrow> engine \<Rightarrow> bool" where
  "act_step c e s t \<longleftrightarrow> others c e s t \<and> same_lists s t \<and> bevs t = bevs s \<and> tls (ts t) = tls (ts s)
     \<and> c \<in> dom (ctxs t) \<and> ctx_thread_id (cx c t) = ctx_thread_id (cx c s)
     \<and> ctx_bev (cx c t) = ctx_bev (cx c s) \<and> sg_context (globals t e) = sg_context (globals s e)"

lemma act_trans_step: "act c e s0 s \<Longrightarrow> act_step c e s t \<Longrightarrow> act c e s0 t"
  unfolding act_def act_step_def
  by (elim conjE, intro conjI)
    (erule (1) others_trans, erule (1) same_lists_trans, simp_all, simp add: others_def)

lemma act_live: "act c e s0 s \<Longrightarrow> \<exists>n. ctxs s c = Some n"
  using actD(5) by blast

section \<open>The elementary steps\<close>

lemma act_G_read: "act c e s0 s \<Longrightarrow> G_read s = Some (globals s e)"
  by (simp add: act_def G_read_def)

lemma act_G_upd: "act c e s0 s \<Longrightarrow> G_upd f s = Some (set_G e f s)"
  by (simp add: act_def G_upd_def set_G_def)

lemma act_tls: "act c e s0 s \<Longrightarrow> tls (ts s) = Some e"
  by (simp add: act_def)

lemma act_sg: "act c e s0 s \<Longrightarrow> sg_context (globals s e) = Some c"
  by (simp add: act_def)

lemma act_ctx_read: "act c e s0 s \<Longrightarrow> ctx_read (Some c) s = Some (cx c s)"
  by (auto simp: act_def ctx_read_def cx_def)

lemma act_ctx_write: "act c e s0 s \<Longrightarrow> ctx_write f (Some c) s = Some (set_C c f s)"
  by (auto simp: act_def ctx_write_def cx_def set_C_def)

lemmas act_run = act_G_read act_G_upd act_tls act_sg act_ctx_read act_ctx_write

lemma set_G_simps [simp]:
  "globals (set_G e f s) = (globals s)(e := f (globals s e))" "ctxs (set_G e f s) = ctxs s"
  "frames (set_G e f s) = frames s" "wk (set_G e f s) = wk s" "ts (set_G e f s) = ts s"
  "bevs (set_G e f s) = bevs s" "cx c (set_G e f s) = cx c s"
  by (simp_all add: set_G_def cx_def)

lemma set_C_simps [simp]:
  "globals (set_C c f s) = globals s" "ctxs (set_C c f s) = (ctxs s)(c \<mapsto> f (cx c s))"
  "frames (set_C c f s) = frames s" "wk (set_C c f s) = wk s" "ts (set_C c f s) = ts s"
  "bevs (set_C c f s) = bevs s" "cx c (set_C c f s) = f (cx c s)"
  by (simp_all add: set_C_def cx_def)

lemma note_event_simps [simp]:
  "globals (note_event ev s) = globals s" "ctxs (note_event ev s) = ctxs s"
  "frames (note_event ev s) = frames s" "ts (note_event ev s) = ts s" "bevs (note_event ev s) = bevs s"
  "cx c (note_event ev s) = cx c s" "reqs (wk (note_event ev s)) = reqs (wk s)"
  "op_arrays (wk (note_event ev s)) = op_arrays (wk s)" "next_obj (wk (note_event ev s)) = next_obj (wk s)"
  "requests (wk (note_event ev s)) = requests (wk s)"
  "max_requests (wk (note_event ev s)) = max_requests (wk s)"
  "loopexit (wk (note_event ev s)) = loopexit (wk s)"
  "open_fds (wk (note_event ev s)) = open_fds (wk s)"
  by (simp_all add: note_event_def cx_def)

lemma act_set_G:
  assumes "act c e s0 s" and "sg_context (f (globals s e)) = sg_context (globals s e)"
  shows "act c e s0 (set_G e f s)"
proof (rule act_trans_step [OF assms(1)])
  show "act_step c e s (set_G e f s)"
    using assms(2) act_live [OF assms(1)]
    by (auto simp add: act_step_def others_def same_lists_def bounded_def set_G_def cx_def dom_def)
qed

lemma act_set_C:
  assumes "act c e s0 s"
    and "\<And>n. ctx_next (f n) = ctx_next n" "\<And>n. ctx_prev (f n) = ctx_prev n"
      "\<And>n. ctx_thread_id (f n) = ctx_thread_id n" "\<And>n. ctx_bev (f n) = ctx_bev n"
  shows "act c e s0 (set_C c f s)"
proof (rule act_trans_step [OF assms(1)])
  show "act_step c e s (set_C c f s)"
    using assms(2-) act_live [OF assms(1)]
    by (auto simp add: act_step_def others_def same_lists_def bounded_def set_C_def cx_def dom_def)
qed

text \<open>Changes of the worker.\<close>

lemma act_worker:
  assumes "act c e s0 s"
    and "dom (reqs (wk s)) \<subseteq> dom (reqs w)" "next_obj (wk s) \<le> next_obj w"
    and "\<And>a x. op_arrays (wk s) a = Some x \<Longrightarrow> x \<noteq> e \<Longrightarrow> op_arrays w a = Some x"
    and "\<And>x. next_obj w \<le> x \<Longrightarrow> op_arrays w x = None \<and> reqs w x = None"
  shows "act c e s0 (s\<lparr>wk := w\<rparr>)"
proof (rule act_trans_step [OF assms(1)])
  have "bounded (s\<lparr>wk := w\<rparr>)"
    using actD(7) [OF assms(1)] assms(3,5) by (simp add: bounded_def)
  then show "act_step c e s (s\<lparr>wk := w\<rparr>)"
    using assms(2-4) act_live [OF assms(1)]
    by (auto simp add: act_step_def others_def same_lists_def cx_def dom_def)
qed

lemma act_counters:
  assumes "act c e s0 s" and "reqs w = reqs (wk s)" "op_arrays w = op_arrays (wk s)" "next_obj w = next_obj (wk s)"
  shows "act c e s0 (s\<lparr>wk := w\<rparr>)"
  using actD(7) [OF assms(1)] assms(2-) by (intro act_worker [OF assms(1)]) (auto simp: bounded_def)

lemma act_note: "act c e s0 s \<Longrightarrow> act c e s0 (note_event ev s)"
  unfolding note_event_def by (rule act_counters) simp_all

lemma act_close_fd: "act c e s0 s \<Longrightarrow> act c e s0 (close_fd fd s)"
  unfolding close_fd_def by (rule act_counters) simp_all

lemma act_reqs:
  assumes "act c e s0 s" and "dom (reqs (wk s)) \<subseteq> dom h" and "\<And>x. next_obj (wk s) \<le> x \<Longrightarrow> h x = None"
  shows "act c e s0 (W_upd (\<lambda>w. w\<lparr>reqs := h\<rparr>) s)"
  using actD(7) [OF assms(1)] assms(2-) by (intro act_worker [OF assms(1)]) (auto simp: bounded_def)

lemma act_fresh: "act c e s0 s \<Longrightarrow> act c e s0 (snd (fresh s))"
  using actD(7) [of c e s0 s] unfolding fresh_def snd_conv
  by (intro act_worker) (auto simp: bounded_def)

lemma act_op_arrays:
  assumes "act c e s0 s" and "\<And>a w. op_arrays (wk s) a = Some w \<Longrightarrow> w \<noteq> e \<Longrightarrow> h a = Some w"
    and "\<And>x. next_obj (wk s) \<le> x \<Longrightarrow> h x = None"
  shows "act c e s0 (W_upd (\<lambda>w. w\<lparr>op_arrays := h\<rparr>) s)"
  using actD(7) [OF assms(1)] assms(2-) by (intro act_worker [OF assms(1)]) (auto simp: bounded_def)

text \<open>Changes of the frames of the coroutine itself.\<close>

lemma act_frames:
  assumes "act c e s0 s" and "\<And>a f. frames s a = Some f \<Longrightarrow> frame_owner f \<noteq> e \<Longrightarrow> h a = Some f"
    and "\<And>x. next_obj (wk s) \<le> x \<Longrightarrow> h x = None"
  shows "act c e s0 (s\<lparr>frames := h\<rparr>)"
proof (rule act_trans_step [OF assms(1)])
  have "bounded (s\<lparr>frames := h\<rparr>)"
    using actD(7) [OF assms(1)] assms(3) by (simp add: bounded_def)
  then show "act_step c e s (s\<lparr>frames := h\<rparr>)"
    using assms(2) act_live [OF assms(1)]
    by (auto simp add: act_step_def others_def same_lists_def cx_def dom_def)
qed

section \<open>Finishing a request\<close>

text \<open>Changes of the worker that keep what the invariant and the counters speak of.\<close>

fun file_of :: "engine_event \<Rightarrow> nat list" where
  "file_of (Ran_file fh op) = [fh]"
| "file_of _ = []"

text \<open>The files compiled and started so far.\<close>

definition files_run :: "worker \<Rightarrow> nat list" where
  "files_run w = concat (map file_of (trace w))"

lemma files_run_note [simp]: "files_run (wk (note_event ev s)) = files_run (wk s) @ file_of ev"
  by (simp add: files_run_def note_event_def)

lemma files_run_simps [simp]:
  "files_run (w\<lparr>requests := n\<rparr>) = files_run w" "files_run (w\<lparr>loopexit := b\<rparr>) = files_run w"
  "files_run (w\<lparr>next_obj := m\<rparr>) = files_run w" "files_run (w\<lparr>reqs := q\<rparr>) = files_run w"
  "files_run (w\<lparr>op_arrays := ops\<rparr>) = files_run w" "files_run (w\<lparr>open_fds := fds\<rparr>) = files_run w"
  by (simp_all add: files_run_def)

definition wk_mild :: "worker \<Rightarrow> worker \<Rightarrow> bool" where
  "wk_mild w w' \<longleftrightarrow> dom (reqs w') = dom (reqs w) \<and> op_arrays w' = op_arrays w \<and> next_obj w' = next_obj w
     \<and> requests w' = requests w \<and> max_requests w' = max_requests w \<and> loopexit w' = loopexit w
     \<and> files_run w' = files_run w"

lemma wk_mild_refl [simp]: "wk_mild w w"
  by (simp add: wk_mild_def)

lemma wk_mild_trans: "wk_mild w w' \<Longrightarrow> wk_mild w' w'' \<Longrightarrow> wk_mild w w''"
  by (simp add: wk_mild_def)

definition mild :: "engine \<Rightarrow> engine \<Rightarrow> bool" where
  "mild s t \<longleftrightarrow> t = s\<lparr>wk := wk t\<rparr> \<and> wk_mild (wk s) (wk t)"

lemma mild_refl [simp]: "mild s s"
  by (simp add: mild_def)

lemma mild_trans:
  assumes "mild s t" and "mild t u"
  shows "mild s u"
proof -
  have "t = s\<lparr>wk := wk t\<rparr>" "u = t\<lparr>wk := wk u\<rparr>" using assms by (simp_all add: mild_def)
  then have "u = s\<lparr>wk := wk u\<rparr>" by (metis engine.update_convs(12) engine.surjective)
  then show ?thesis using assms wk_mild_trans unfolding mild_def by blast
qed

lemma mildD:
  assumes "mild s t"
  shows "globals t = globals s" "ctxs t = ctxs s" "frames t = frames s" "ts t = ts s" "bevs t = bevs s"
    "cx c t = cx c s" "wk_mild (wk s) (wk t)" "dom (reqs (wk t)) = dom (reqs (wk s))"
    "op_arrays (wk t) = op_arrays (wk s)" "next_obj (wk t) = next_obj (wk s)"
    "requests (wk t) = requests (wk s)" "max_requests (wk t) = max_requests (wk s)"
    "loopexit (wk t) = loopexit (wk s)" "files_run (wk t) = files_run (wk s)"
proof -
  have t: "t = s\<lparr>wk := wk t\<rparr>" using assms by (simp add: mild_def)
  show "globals t = globals s" "ctxs t = ctxs s" "frames t = frames s" "ts t = ts s" "bevs t = bevs s"
    by (subst t, simp)+
  then show "cx c t = cx c s" by (simp add: cx_def)
qed (use assms in \<open>simp_all add: mild_def wk_mild_def\<close>)

lemma act_mild:
  assumes "act c e s0 s" and "mild s t"
  shows "act c e s0 t"
proof -
  have "act c e s0 (s\<lparr>wk := wk t\<rparr>)"
    using actD(7) [OF assms(1)] mildD [OF assms(2)]
    by (intro act_worker [OF assms(1)]) (auto simp: bounded_def)
  then show ?thesis using assms(2) by (simp add: mild_def)
qed

lemma mild_note: "file_of ev = [] \<Longrightarrow> mild s (note_event ev s)"
  by (simp add: mild_def wk_mild_def) (simp add: note_event_def)

lemma mild_close_fd: "mild s (close_fd fd s)"
  by (simp add: mild_def wk_mild_def close_fd_def)

lemma req_upd_run:
  assumes "q \<in> dom (reqs (wk s))"
  shows "\<exists>t. req_upd f (Some q) s = Some t \<and> mild s t"
proof -
  obtain r where "reqs (wk s) q = Some r" using assms by blast
  then show ?thesis by (simp add: req_upd_def mild_def wk_mild_def insert_absorb domI)
qed

lemma fcgi_close_conn_run:
  assumes "q \<in> dom (reqs (wk s))"
  shows "\<exists>t. fcgi_close_conn (Some q) force s = Some t \<and> mild s t"
proof -
  obtain r where r: "reqs (wk s) q = Some r" using assms by blast
  let ?s = "note_event (Closed_connection (q_fd r)) (close_fd (q_fd r) s)"
  have m: "mild s ?s" by (rule mild_trans [OF mild_close_fd mild_note]) simp
  then have "q \<in> dom (reqs (wk ?s))" using assms mildD(8) by blast
  from req_upd_run [OF this, of "q_fd_update (\<lambda>_. -1)"] obtain t where
    "req_upd (q_fd_update (\<lambda>_. -1)) (Some q) ?s = Some t" "mild ?s t" by blast
  with r mild_trans [OF m] show ?thesis
    by (auto simp: fcgi_close_conn_def req_read_def)
qed

lemma finish_run:
  assumes "q \<in> dom (reqs (wk s))"
  shows "\<exists>t. (do { s \<leftarrow> req_upd (\<lambda>q. q\<lparr>q_ended := True\<rparr>) (Some q) s; fcgi_close_conn (Some q) force s })
            = Some t \<and> mild s t"
proof -
  obtain t where t: "req_upd (\<lambda>q. q\<lparr>q_ended := True\<rparr>) (Some q) s = Some t" "mild s t"
    using req_upd_run [OF assms] by blast
  then have "q \<in> dom (reqs (wk t))" using assms mildD(8) by blast
  from fcgi_close_conn_run [OF this, of force] t mild_trans show ?thesis by fastforce
qed

lemma fcgi_finish_conn_run:
  assumes "q \<in> dom (reqs (wk s))"
  shows "\<exists>t. fcgi_finish_conn (Some q) force s = Some t \<and> mild s t"
proof -
  obtain r where "reqs (wk s) q = Some r" using assms by blast
  with finish_run [OF assms, of force] show ?thesis by (simp add: fcgi_finish_conn_def req_read_def)
qed

lemma fastcgi_finish_request_run:
  assumes "act c e s0 s" and "server_context (globals s e) = Some q" and "q \<in> dom (reqs (wk s))"
  shows "\<exists>t. fastcgi_finish_request s = Some t \<and> mild s t"
proof -
  obtain r where "reqs (wk s) q = Some r" using assms(3) by blast
  with finish_run [OF assms(3), of False] assms(1,2) show ?thesis
    by (simp add: fastcgi_finish_request_def req_read_def act_G_read)
qed

section \<open>Running a frame\<close>

text \<open>What a run of the machine leaves as it is in the coroutine itself.\<close>

definition keeps :: "nat \<Rightarrow> nat \<Rightarrow> engine \<Rightarrow> engine \<Rightarrow> bool" where
  "keeps c e s t \<longleftrightarrow>
     op_array (cx c t) = op_array (cx c s) \<and> old_cwd (cx c t) = old_cwd (cx c s)
     \<and> request (cx c t) = request (cx c s) \<and> req_ptr (cx c t) = req_ptr (cx c s)
     \<and> buf_ptr (cx c t) = buf_ptr (cx c s) \<and> ctx_fd (cx c t) = ctx_fd (cx c s)
     \<and> server_context (globals t e) = server_context (globals s e)
     \<and> sapi_started (globals t e) = sapi_started (globals s e)
     \<and> eg_bailout (globals t e) = eg_bailout (globals s e)
     \<and> op_arrays (wk t) = op_arrays (wk s) \<and> dom (reqs (wk t)) = dom (reqs (wk s))
     \<and> requests (wk t) = requests (wk s) \<and> max_requests (wk t) = max_requests (wk s)
     \<and> loopexit (wk t) = loopexit (wk s) \<and> files_run (wk t) = files_run (wk s)"

lemma keeps_refl [simp]: "keeps c e s s"
  by (simp add: keeps_def)

lemma keeps_trans: "keeps c e s t \<Longrightarrow> keeps c e t u \<Longrightarrow> keeps c e s u"
  by (simp add: keeps_def)

lemma keeps_mild: "mild s t \<Longrightarrow> keeps c e s t"
  by (simp add: keeps_def mildD)

text \<open>A run of the frame \<open>a\<close> with the op_array \<open>op\<close>: how it ended, and the state then.\<close>

definition frame_ran :: "vm \<Rightarrow> nat \<Rightarrow> nat \<Rightarrow> nat \<Rightarrow> frame \<Rightarrow> nat \<Rightarrow> unit outcome \<Rightarrow> engine \<Rightarrow> bool" where
  "frame_ran vm c e a f op r t \<longleftrightarrow> frames t a = Some (f\<lparr>opline := fst (vm op (opline f))\<rparr>) \<and>
     (case snd (snd (vm op (opline f))) of
        Script_end \<Rightarrow> r = Returned () \<and> \<not> eg_exception (globals t e)
      | Uncaught \<Rightarrow> r = Returned () \<and> eg_exception (globals t e)
      | Bail \<Rightarrow> r = Bailed \<and> \<not> eg_exception (globals t e)
      | Remote_call \<Rightarrow> r = Yielded \<and> \<not> eg_exception (globals t e)
          \<and> prev_execute_data (cx c t) = Some a)"

lemma run_frame_run:
  assumes A: "act c e s0 s" and fr: "frames s a = Some f" "frame_owner f = e" "func f = Some op"
    and op: "op \<in> dom (op_arrays (wk s))"
    and req: "server_context (globals s e) = Some q" "q \<in> dom (reqs (wk s))"
    and ex: "\<not> eg_exception (globals s e)"
  shows "\<exists>r t. run_frame vm (Some a) s = Some (r, t) \<and> act c e s0 t \<and> keeps c e s t \<and> frame_ran vm c e a f op r t"
proof -
  obtain k fin st where vm: "vm op (opline f) = (k, fin, st)" by (cases "vm op (opline f)") auto
  obtain s1 where s1: "(if fin then fastcgi_finish_request s else Some s) = Some s1" "mild s s1"
    using fastcgi_finish_request_run [OF A req] by (cases fin) auto
  let ?s = "s1\<lparr>frames := (frames s)(a \<mapsto> f\<lparr>opline := k\<rparr>)\<rparr>"
  note [simp] = mildD [OF s1(2)]
  have A1: "act c e s0 s1" using act_mild [OF A s1(2)] .
  have al: "a < next_obj (wk s)" using actD(7) [OF A] fr(1) by (auto simp: bounded_def not_le [symmetric])
  have A2: "act c e s0 ?s"
    using al fr(1,2) actD(7) [OF A1] by (intro act_frames [OF A1]) (auto simp: bounded_def)
  have K: "keeps c e s ?s" using keeps_mild [OF s1(2), of c e] by (simp add: keeps_def cx_def)
  have run: "run_frame vm (Some a) s = (case st of
         Script_end \<Rightarrow> Some (Returned (), set_G e (\<lambda>g. g\<lparr>current_execute_data := prev_frame f\<rparr>) ?s)
       | Uncaught \<Rightarrow> Some (Returned (), set_G e (\<lambda>g. g\<lparr>current_execute_data := prev_frame f, eg_exception := True\<rparr>) ?s)
       | Bail \<Rightarrow> Some (Bailed, ?s)
       | Remote_call \<Rightarrow> do {
           let (i, s) = fresh ?s;
           let s = s\<lparr>frames := (frames s)(i \<mapsto>
                     \<lparr>opline = 0, prev_frame = Some a, func = NULL, frame_owner = frame_owner f\<rparr>)\<rparr>;
           s \<leftarrow> G_upd (\<lambda>g. g\<lparr>current_execute_data := Some i\<rparr>) s;
           s \<leftarrow> yield_coroutine_context s;
           Some (Yielded, s)
         })"
    using fr op s1(1) vm by (simp add: run_frame_def act_G_upd [OF A2] split: stop.split)
  show ?thesis
  proof (cases st)
    case Remote_call
    let ?i = "next_obj (wk s)"
    define s2 where "s2 = snd (fresh ?s)"
    have s2: "fresh ?s = (?i, s2)" "frames s2 = frames ?s" "ctxs s2 = ctxs s" "globals s2 = globals s"
      "op_arrays (wk s2) = op_arrays (wk s)" "reqs (wk s2) = reqs (wk s1)" "requests (wk s2) = requests (wk s)"
      "max_requests (wk s2) = max_requests (wk s)" "loopexit (wk s2) = loopexit (wk s)"
      "files_run (wk s2) = files_run (wk s)" "cx c s2 = cx c s"
      by (simp_all add: s2_def fresh_def cx_def)
    have A2': "act c e s0 s2" unfolding s2_def by (rule act_fresh [OF A2])
    let ?f = "\<lparr>opline = 0, prev_frame = Some a, func = NULL, frame_owner = e\<rparr>"
    let ?t = "s2\<lparr>frames := (frames s2)(?i \<mapsto> ?f)\<rparr>"
    let ?u = "set_G e (\<lambda>g. g\<lparr>current_execute_data := Some ?i\<rparr>) ?t"
    have A3: "act c e s0 ?t"
      using actD(7) [OF A2] by (intro act_frames [OF A2']) (auto simp: bounded_def s2_def fresh_def)
    have A4: "act c e s0 ?u" by (rule act_set_G [OF A3]) simp
    let ?v = "set_C c (\<lambda>c. c\<lparr>prev_execute_data := Some a\<rparr>) ?u"
    have A5: "act c e s0 ?v" by (rule act_set_C [OF A4]) simp_all
    have "yield_coroutine_context ?u = Some ?v"
      using act_sg [OF A2'] by (simp add: yield_coroutine_context_def act_G_read [OF A4] act_ctx_write [OF A4])
    then have "run_frame vm (Some a) s = Some (Yielded, ?v)"
      using Remote_call fr(2) by (simp add: run s2(1) act_G_upd [OF A3])
    moreover have "keeps c e s ?v"
      using K by (simp add: keeps_def cx_def s2)
    moreover have "frame_ran vm c e a f op Yielded ?v"
      using Remote_call vm al ex by (simp add: frame_ran_def s2)
    ultimately show ?thesis using A5 by blast
  next
    case Script_end
    let ?t = "set_G e (\<lambda>g. g\<lparr>current_execute_data := prev_frame f\<rparr>) ?s"
    have "act c e s0 ?t" by (rule act_set_G [OF A2]) simp
    moreover have "keeps c e s ?t" using K by (simp add: keeps_def cx_def)
    moreover have "frame_ran vm c e a f op (Returned ()) ?t" using Script_end vm ex by (simp add: frame_ran_def)
    ultimately show ?thesis using run Script_end by auto
  next
    case Uncaught
    let ?t = "set_G e (\<lambda>g. g\<lparr>current_execute_data := prev_frame f, eg_exception := True\<rparr>) ?s"
    have "act c e s0 ?t" by (rule act_set_G [OF A2]) simp
    moreover have "keeps c e s ?t" using K by (simp add: keeps_def cx_def)
    moreover have "frame_ran vm c e a f op (Returned ()) ?t" using Uncaught vm ex by (simp add: frame_ran_def)
    ultimately show ?thesis using run Uncaught by auto
  next
    case Bail
    moreover have "frame_ran vm c e a f op Bailed ?s" using Bail vm ex by (simp add: frame_ran_def)
    ultimately show ?thesis using run A2 K by auto
  qed
qed

section \<open>Running scripts\<close>

text \<open>What the execution of the files of a request leaves as it is.\<close>

definition keeps_req :: "nat \<Rightarrow> nat \<Rightarrow> engine \<Rightarrow> engine \<Rightarrow> bool" where
  "keeps_req c e s t \<longleftrightarrow>
     old_cwd (cx c t) = old_cwd (cx c s) \<and> request (cx c t) = request (cx c s)
     \<and> req_ptr (cx c t) = req_ptr (cx c s) \<and> ctx_fd (cx c t) = ctx_fd (cx c s)
     \<and> server_context (globals t e) = server_context (globals s e)
     \<and> sapi_started (globals t e) = sapi_started (globals s e)
     \<and> eg_bailout (globals t e) = eg_bailout (globals s e) \<and> dom (reqs (wk t)) = dom (reqs (wk s))
     \<and> requests (wk t) = requests (wk s) \<and> max_requests (wk t) = max_requests (wk s)
     \<and> loopexit (wk t) = loopexit (wk s)"

lemma keeps_req_refl [simp]: "keeps_req c e s s"
  by (simp add: keeps_req_def)

lemma keeps_req_trans: "keeps_req c e s t \<Longrightarrow> keeps_req c e t u \<Longrightarrow> keeps_req c e s u"
  by (simp add: keeps_req_def)

lemma keeps_imp_req: "keeps c e s t \<Longrightarrow> keeps_req c e s t"
  by (simp add: keeps_def keeps_req_def)

text \<open>The coroutine is ready to be resumed.\<close>

definition susp :: "nat \<Rightarrow> nat \<Rightarrow> engine \<Rightarrow> bool" where
  "susp c e t \<longleftrightarrow> (\<exists>a fr op. prev_execute_data (cx c t) = Some a \<and> frames t a = Some fr
     \<and> frame_owner fr = e \<and> func fr = Some op \<and> op_array (cx c t) = Some op
     \<and> op_arrays (wk t) op = Some e \<and> \<not> eg_exception (globals t e))"

text \<open>What a handler needs of the request it serves.\<close>

definition serving :: "nat \<Rightarrow> engine \<Rightarrow> bool" where
  "serving e s \<longleftrightarrow> (\<exists>q. server_context (globals s e) = Some q \<and> q \<in> dom (reqs (wk s)))"

text \<open>The answer of a remote call: how the script stops when it is run on.\<close>

definition resume_stop :: "vm \<Rightarrow> nat \<Rightarrow> engine \<Rightarrow> stop option" where
  "resume_stop vm c s = do {
     a \<leftarrow> prev_execute_data (cx c s);
     f \<leftarrow> frames s a;
     op \<leftarrow> func f;
     Some (snd (snd (vm op (Suc (opline f)))))
   }"

text \<open>The first file makes a remote call: it is the only one started, and what comes next.\<close>

definition first_call :: "vm \<Rightarrow> nat \<Rightarrow> nat option list \<Rightarrow> engine \<Rightarrow> engine \<Rightarrow> bool" where
  "first_call vm c files s t \<longleftrightarrow>
     files_run (wk t) = files_run (wk s) @ [hd (concat (map (case_option [] (\<lambda>f. [f])) files))]
     \<and> (\<exists>op. resume_stop vm c t = Some (snd (snd (vm op (Suc (fst (vm op 0)))))))"

lemma serving_keeps: "serving e s \<Longrightarrow> keeps_req c e s t \<Longrightarrow> serving e t"
  by (auto simp: serving_def keeps_req_def)

lemma zend_execute_coro_run:
  assumes A: "act c e s0 s" and op: "op_arrays (wk s) op = Some e" and sv: "serving e s"
    and ex: "\<not> eg_exception (globals s e)" and rp: "req_ptr (cx c s) = Some In_socket_read"
  shows "\<exists>r t. zend_execute_coro vm (Some op) s = Some (r, t) \<and> act c e s0 t \<and> keeps_req c e s t
     \<and> op_arrays (wk t) = op_arrays (wk s) \<and> files_run (wk t) = files_run (wk s)
     \<and> (r = Yielded \<longrightarrow> susp c e t) \<and> (eg_exception (globals t e) \<longrightarrow> r = Returned ())
     \<and> (snd (snd (vm op 0)) = Script_end \<longrightarrow> r = Returned () \<and> \<not> eg_exception (globals t e))
     \<and> (snd (snd (vm op 0)) = Remote_call \<longrightarrow> r = Yielded
          \<and> resume_stop vm c t = Some (snd (snd (vm op (Suc (fst (vm op 0)))))))"
proof -
  let ?s1 = "set_C c (\<lambda>c. c\<lparr>op_array := Some op\<rparr>) s"
  have A1: "act c e s0 ?s1" by (rule act_set_C [OF A]) simp_all
  define s2 where "s2 = snd (fresh ?s1)"
  let ?a = "next_obj (wk s)"
  have s2: "fresh ?s1 = (?a, s2)" "frames s2 = frames s" "globals s2 = globals s" "wk s2 = (wk s)\<lparr>next_obj := Suc ?a\<rparr>"
    "cx c s2 = (cx c s)\<lparr>op_array := Some op\<rparr>"
    by (simp_all add: s2_def fresh_def set_C_def cx_def)
  have A2: "act c e s0 s2" unfolding s2_def by (rule act_fresh [OF A1])
  let ?f = "\<lparr>opline = 0, prev_frame = current_execute_data (globals s e), func = Some op, frame_owner = e\<rparr>"
  let ?s3 = "s2\<lparr>frames := (frames s2)(?a \<mapsto> ?f)\<rparr>"
  have A3: "act c e s0 ?s3"
    using actD(7) [OF A] by (intro act_frames [OF A2]) (auto simp: bounded_def s2)
  let ?s4 = "set_G e (\<lambda>g. g\<lparr>current_execute_data := Some ?a\<rparr>) ?s3"
  have A4: "act c e s0 ?s4" by (rule act_set_G [OF A3]) simp
  let ?s5 = "set_C c (\<lambda>c. c\<lparr>buf_ptr := Some In_execute_coro\<rparr>) ?s4"
  have A5: "act c e s0 ?s5" by (rule act_set_C [OF A4]) simp_all
  obtain q where q: "server_context (globals s e) = Some q" "q \<in> dom (reqs (wk s))"
    using sv by (auto simp: serving_def)
  have cx3: "cx c (s2\<lparr>frames := h\<rparr>) = cx c s2" for h by (simp add: cx_def)
  have "\<exists>r t. run_frame vm (Some ?a) ?s5 = Some (r, t) \<and> act c e s0 t \<and> keeps c e ?s5 t \<and> frame_ran vm c e ?a ?f op r t"
    using q op ex by (intro run_frame_run [OF A5]) (simp_all add: s2 domI)
  then obtain r t where t: "run_frame vm (Some ?a) ?s5 = Some (r, t)" "act c e s0 t"
    "keeps c e ?s5 t" "frame_ran vm c e ?a ?f op r t" by blast
  have run: "zend_execute_coro vm (Some op) s = (case r of
         Returned _ \<Rightarrow> Some (Returned (), t\<lparr>frames := (frames t)(?a := None)\<rparr>)
       | Yielded \<Rightarrow> longjmp_req (Some c) t
       | Bailed \<Rightarrow> Some (Bailed, t))"
    using ex t(1) by (simp add: zend_execute_coro_def act_run [OF A] s2(1) act_tls [OF A1] act_G_upd [OF A3]
        act_ctx_write [OF A4])
  have K: "keeps_req c e s t" "op_arrays (wk t) = op_arrays (wk s)" "op_array (cx c t) = Some op"
    "files_run (wk t) = files_run (wk s)" "buf_ptr (cx c t) = Some In_execute_coro"
    "req_ptr (cx c t) = req_ptr (cx c s)"
    using t(3) by (simp_all add: keeps_def keeps_req_def s2 cx3)
  show ?thesis
  proof (cases r)
    case (Returned u)
    let ?t = "t\<lparr>frames := (frames t)(?a := None)\<rparr>"
    have fr: "frames t ?a = Some (?f\<lparr>opline := fst (vm op (opline ?f))\<rparr>)"
      using t(4) by (simp add: frame_ran_def)
    have "act c e s0 ?t"
      using actD(7) [OF t(2)] fr by (intro act_frames [OF t(2)]) (auto simp: bounded_def)
    moreover have "keeps_req c e s ?t" using K(1) by (simp add: keeps_req_def cx_def)
    moreover have "snd (snd (vm op 0)) = Script_end \<longrightarrow> \<not> eg_exception (globals t e)"
      "snd (snd (vm op 0)) \<noteq> Remote_call"
      using t(4) Returned by (auto simp: frame_ran_def)
    ultimately show ?thesis using run Returned K by auto
  next
    case Yielded
    then have "zend_execute_coro vm (Some op) s = Some (Yielded, t)"
      using run K rp act_ctx_read [OF t(2)] by (simp add: longjmp_req_def)
    moreover have "susp c e t" "\<not> eg_exception (globals t e)" "snd (snd (vm op 0)) \<noteq> Script_end"
      "resume_stop vm c t = Some (snd (snd (vm op (Suc (fst (vm op 0))))))"
      using t(4) Yielded K op by (auto simp: frame_ran_def susp_def resume_stop_def split: stop.splits)
    ultimately show ?thesis using t(2) K by auto
  next
    case Bailed
    then have "\<not> eg_exception (globals t e)" "snd (snd (vm op 0)) \<noteq> Script_end" "snd (snd (vm op 0)) \<noteq> Remote_call"
      using t(4) by (auto simp: frame_ran_def split: stop.splits)
    then show ?thesis using run Bailed t(2) K by auto
  qed
qed

lemma fatal_exception_run:
  assumes "act c e s0 s"
  shows "fatal_exception s =
    (if eg_exception (globals s e)
     then Some (Bailed, set_G e (\<lambda>g. g\<lparr>eg_exception := False, exit_status := 255\<rparr>) s)
     else Some (Returned (), s))"
  by (simp add: fatal_exception_def act_run [OF assms])

abbreviation listed :: "nat option list \<Rightarrow> nat list" where
  "listed files \<equiv> concat (map (case_option [] (\<lambda>f. [f])) files)"

text \<open>A run of the files \<open>files\<close>: how it ended, and the state then.\<close>

definition scripts_ran :: "nat \<Rightarrow> nat \<Rightarrow> nat option list \<Rightarrow> engine \<Rightarrow> bool outcome \<Rightarrow> engine \<Rightarrow> bool" where
  "scripts_ran c e files s r t \<longleftrightarrow> keeps_req c e s t \<and> (r = Yielded \<longrightarrow> susp c e t)
     \<and> (eg_exception (globals t e) \<longrightarrow> r = Returned False)
     \<and> (r = Returned True \<longrightarrow> files_run (wk t) = files_run (wk s) @ listed files)"

text \<open>Every file compiles and runs to its end without a remote call.\<close>

definition plain_run :: "vm \<Rightarrow> request_env \<Rightarrow> nat option list \<Rightarrow> bool" where
  "plain_run vm env files \<longleftrightarrow> (\<forall>f \<in> set (listed files). compile env f = Compiles)
     \<and> (\<forall>op. snd (snd (vm op 0)) = Script_end)"

text \<open>The first file compiles and makes a remote call.\<close>

definition calls_first :: "vm \<Rightarrow> request_env \<Rightarrow> nat option list \<Rightarrow> bool" where
  "calls_first vm env files \<longleftrightarrow> listed files \<noteq> [] \<and> compile env (hd (listed files)) = Compiles
     \<and> (\<forall>op. snd (snd (vm op 0)) = Remote_call)"

lemma scripts_run:
  assumes "act c e s0 s" and "serving e s" and "\<not> eg_exception (globals s e)"
    and "req_ptr (cx c s) = Some In_socket_read"
  shows "\<exists>r t. zend_execute_scripts_coro vm env files s = Some (r, t) \<and> act c e s0 t
     \<and> scripts_ran c e files s r t \<and> (plain_run vm env files \<longrightarrow> r = Returned True)
     \<and> (calls_first vm env files \<longrightarrow> r = Yielded \<and> first_call vm c files s t)"
  using assms
proof (induction files arbitrary: s)
  case Nil
  then show ?case by (simp add: scripts_ran_def calls_first_def)
next
  case (Cons fo files)
  show ?case
  proof (cases fo)
    case None
    with Cons show ?thesis by (simp add: scripts_ran_def plain_run_def calls_first_def first_call_def)
  next
    case (Some fh)
    note A = Cons.prems(1)
    show ?thesis
    proof (cases "compile env fh")
      case Parse_error
      let ?t = "set_G e (\<lambda>g. g\<lparr>eg_exception := True\<rparr>) s"
      have "act c e s0 ?t" by (rule act_set_G [OF A]) simp
      moreover have "zend_execute_scripts_coro vm env (fo # files) s = Some (Returned False, ?t)"
        using Some Parse_error by (simp add: and_then_def zend_compile_file_def act_G_upd [OF A])
      ultimately show ?thesis
        using Some Parse_error by (auto simp: scripts_ran_def keeps_req_def plain_run_def calls_first_def)
    next
      case Compile_bailout
      let ?t = "set_G e (\<lambda>g. g\<lparr>exit_status := 255\<rparr>) s"
      have "act c e s0 ?t" by (rule act_set_G [OF A]) simp
      moreover have "zend_execute_scripts_coro vm env (fo # files) s = Some (Bailed, ?t)"
        using Some Compile_bailout by (simp add: and_then_def zend_compile_file_def act_G_upd [OF A])
      ultimately show ?thesis
        using Some Compile_bailout Cons.prems(3) by (auto simp: scripts_ran_def keeps_req_def plain_run_def calls_first_def)
    next
      case Compiles
      let ?op = "next_obj (wk s)"
      define s1 where "s1 = note_event (Ran_file fh ?op)
          (W_upd (\<lambda>w. w\<lparr>op_arrays := (op_arrays w)(?op \<mapsto> e)\<rparr>) (snd (fresh s)))"
      have comp: "zend_compile_file env fh s = Some (Returned (Some ?op), s1)"
        using Compiles by (simp add: zend_compile_file_def act_tls [OF A] fresh_def s1_def)
      have A1: "act c e s0 s1" unfolding s1_def note_event_def
        using actD(7) [OF A]
        by (intro act_counters [OF act_op_arrays [OF act_fresh [OF A]]]) (auto simp: bounded_def fresh_def)
      have s1: "op_arrays (wk s1) = (op_arrays (wk s))(?op \<mapsto> e)" "globals s1 = globals s" "cx c s1 = cx c s"
        "reqs (wk s1) = reqs (wk s)" "files_run (wk s1) = files_run (wk s) @ [fh]"
        "requests (wk s1) = requests (wk s)" "max_requests (wk s1) = max_requests (wk s)"
        "loopexit (wk s1) = loopexit (wk s)"
        by (simp_all add: s1_def fresh_def) (simp add: cx_def)
      have K1: "keeps_req c e s s1" by (simp add: keeps_req_def s1)
      have pre: "op_arrays (wk s1) ?op = Some e" "serving e s1" "\<not> eg_exception (globals s1 e)"
        "req_ptr (cx c s1) = Some In_socket_read"
        using Cons.prems serving_keeps [OF Cons.prems(2) K1] by (simp_all add: s1)
      obtain r t where t: "zend_execute_coro vm (Some ?op) s1 = Some (r, t)" "act c e s0 t"
        "keeps_req c e s1 t" "op_arrays (wk t) = op_arrays (wk s1)" "files_run (wk t) = files_run (wk s1)"
        "r = Yielded \<longrightarrow> susp c e t" "eg_exception (globals t e) \<longrightarrow> r = Returned ()"
        "snd (snd (vm ?op 0)) = Script_end \<longrightarrow> r = Returned () \<and> \<not> eg_exception (globals t e)"
        "snd (snd (vm ?op 0)) = Remote_call \<longrightarrow> r = Yielded
          \<and> resume_stop vm c t = Some (snd (snd (vm ?op (Suc (fst (vm ?op 0))))))"
        using zend_execute_coro_run [OF A1 pre] by blast
      have K: "keeps_req c e s t" using keeps_req_trans [OF K1 t(3)] .
      have step: "zend_execute_scripts_coro vm env (fo # files) s =
         and_then (Some (r, t)) (\<lambda>_ s. and_then (fatal_exception s) (\<lambda>_ s. do {
              s \<leftarrow> destroy_op_array (Some ?op) s;
              zend_execute_scripts_coro vm env files s }))"
        using Some by (simp add: comp and_then_def t(1))
      have plain: "plain_run vm env (fo # files) \<Longrightarrow> snd (snd (vm ?op 0)) = Script_end"
        "calls_first vm env (fo # files) \<Longrightarrow> snd (snd (vm ?op 0)) = Remote_call"
        by (simp_all add: plain_run_def calls_first_def)
      have frst: "calls_first vm env (fo # files) \<longrightarrow> r = Yielded \<and> first_call vm c (fo # files) s t"
        using t(5,9) s1(5) Some plain(2) by (auto simp: first_call_def)
      consider (yield) "r = Yielded" | (bail) "r = Bailed"
        | (fatal) "r = Returned ()" "eg_exception (globals t e)"
        | (fine) "r = Returned ()" "\<not> eg_exception (globals t e)" by (cases r) auto
      then show ?thesis
      proof cases
        case yield
        then have "susp c e t" using t(6) by simp
        then show ?thesis using yield step t(2,8) K plain(1) frst
          by (auto simp: and_then_def scripts_ran_def susp_def)
      next
        case bail
        then show ?thesis using step t(2,7,8) K plain(1) frst by (auto simp: and_then_def scripts_ran_def)
      next
        case fatal
        let ?u = "set_G e (\<lambda>g. g\<lparr>eg_exception := False, exit_status := 255\<rparr>) t"
        have "act c e s0 ?u" by (rule act_set_G [OF t(2)]) simp
        then show ?thesis using fatal step t(8) K fatal_exception_run [OF t(2)] plain(1) frst
          by (auto simp: and_then_def scripts_ran_def keeps_req_def)
      next
        case fine
        let ?u = "W_upd (\<lambda>w. w\<lparr>op_arrays := (op_arrays w)(?op := None)\<rparr>) t"
        have A2: "act c e s0 ?u"
          using actD(7) [OF t(2)] t(4) s1(1) by (intro act_op_arrays [OF t(2)]) (auto simp: bounded_def)
        have ku: "keeps_req c e s ?u" using K by (simp add: keeps_req_def cx_def)
        have pu: "serving e ?u" "\<not> eg_exception (globals ?u e)" "req_ptr (cx c ?u) = Some In_socket_read"
          using serving_keeps [OF Cons.prems(2) ku] fine(2) ku Cons.prems(4)
          by (simp_all add: keeps_req_def cx_def)
        obtain r' v where v: "zend_execute_scripts_coro vm env files ?u = Some (r', v)" "act c e s0 v"
          "scripts_ran c e files ?u r' v" "plain_run vm env files \<longrightarrow> r' = Returned True"
          using Cons.IH [OF A2 pu] by blast
        have "zend_execute_scripts_coro vm env (fo # files) s = Some (r', v)"
          using step fine fatal_exception_run [OF t(2)] v(1) t(4) s1(1)
          by (simp add: and_then_def destroy_op_array_def domI)
        moreover have "scripts_ran c e (fo # files) s r' v"
          using v(3) keeps_req_trans [OF ku] Some t(5) s1(5) by (auto simp: scripts_ran_def)
        moreover have "plain_run vm env (fo # files) \<longrightarrow> r' = Returned True"
          using v(4) Some by (auto simp: plain_run_def)
        ultimately show ?thesis using v(2) frst fine(1) by auto
      qed
    qed
  qed
qed

text \<open>What the whole execution leaves as it is.\<close>

definition keeps_conn :: "nat \<Rightarrow> nat \<Rightarrow> engine \<Rightarrow> engine \<Rightarrow> bool" where
  "keeps_conn c e s t \<longleftrightarrow>
     request (cx c t) = request (cx c s) \<and> ctx_fd (cx c t) = ctx_fd (cx c s)
     \<and> server_context (globals t e) = server_context (globals s e)
     \<and> sapi_started (globals t e) = sapi_started (globals s e) \<and> dom (reqs (wk t)) = dom (reqs (wk s))
     \<and> requests (wk t) = requests (wk s) \<and> max_requests (wk t) = max_requests (wk s)
     \<and> loopexit (wk t) = loopexit (wk s)"

lemma keeps_conn_trans: "keeps_conn c e s t \<Longrightarrow> keeps_conn c e t u \<Longrightarrow> keeps_conn c e s u"
  by (simp add: keeps_conn_def)

lemma keeps_req_conn: "keeps_req c e s t \<Longrightarrow> keeps_conn c e s t"
  by (simp add: keeps_req_def keeps_conn_def)

text \<open>The files the two ways to start them name.\<close>

lemma script_files_run:
  assumes "act c e s0 s" and "serving e s" and "\<not> eg_exception (globals s e)"
    and "req_ptr (cx c s) = Some In_socket_read"
  shows "\<exists>r t. script_files env vm s = Some (r, t) \<and> act c e s0 t
     \<and> scripts_ran c e [prepend env, Some (primary env), append env] s r t
     \<and> (plain_run vm env [prepend env, Some (primary env), append env] \<longrightarrow> r = Returned True)
     \<and> (calls_first vm env [prepend env, Some (primary env), append env] \<longrightarrow>
          r = Yielded \<and> first_call vm c [prepend env, Some (primary env), append env] s t)"
proof (cases "start_lineno env \<noteq> 0 \<and> prepend env \<noteq> None")
  case False
  then show ?thesis using scripts_run [OF assms] by (auto simp: script_files_def)
next
  case True
  obtain r t where t: "zend_execute_scripts_coro vm env [prepend env] s = Some (r, t)" "act c e s0 t"
    "scripts_ran c e [prepend env] s r t" "plain_run vm env [prepend env] \<longrightarrow> r = Returned True"
    "calls_first vm env [prepend env] \<longrightarrow> r = Yielded \<and> first_call vm c [prepend env] s t"
    using scripts_run [OF assms] by blast
  have eq: "script_files env vm s = and_then (Some (r, t)) (\<lambda>ok s.
      if ok then zend_execute_scripts_coro vm env [Some (primary env), append env] s
      else Some (Returned False, s))"
    using True t(1) by (simp add: script_files_def)
  have plain: "plain_run vm env [prepend env, Some (primary env), append env] \<longrightarrow>
      plain_run vm env [prepend env] \<and> plain_run vm env [Some (primary env), append env]"
    by (auto simp: plain_run_def)
  have calls: "calls_first vm env [prepend env, Some (primary env), append env] \<longrightarrow>
      r = Yielded \<and> first_call vm c [prepend env, Some (primary env), append env] s t"
    using t(5) True by (auto simp: calls_first_def first_call_def)
  show ?thesis
  proof (cases "r = Returned True")
    case False
    then have "script_files env vm s = Some (r, t)"
      unfolding eq by (cases r) (simp_all add: and_then_def)
    with False t plain calls show ?thesis by (auto simp: scripts_ran_def)
  next
    case ok: True
    have pre: "serving e t" "\<not> eg_exception (globals t e)" "req_ptr (cx c t) = Some In_socket_read"
      using t(3) ok assms(2,4) by (auto simp: scripts_ran_def keeps_req_def serving_def)
    obtain r' u where u: "zend_execute_scripts_coro vm env [Some (primary env), append env] t = Some (r', u)"
      "act c e s0 u" "scripts_ran c e [Some (primary env), append env] t r' u"
      "plain_run vm env [Some (primary env), append env] \<longrightarrow> r' = Returned True"
      using scripts_run [OF t(2) pre] by blast
    have "scripts_ran c e [prepend env, Some (primary env), append env] s r' u"
      using t(3) u(3) ok keeps_req_trans by (auto simp: scripts_ran_def)
    then show ?thesis using eq ok u plain calls by (auto simp: and_then_def)
  qed
qed

text \<open>
  The buffer of a script that has yielded: still there, in a build that takes it from the heap; dead in
  one that takes it from the stack.
\<close>

definition frame_gone :: "bool \<Rightarrow> cwd_buf \<Rightarrow> bool" where
  "frame_gone on_heap b \<longleftrightarrow> (if on_heap then \<exists>d. b = Cwd_live True d else b = Cwd_dead)"

definition script_done :: "vm \<Rightarrow> request_env \<Rightarrow> nat \<Rightarrow> nat \<Rightarrow> engine \<Rightarrow> bool outcome \<Rightarrow> engine \<Rightarrow> bool" where
  "script_done vm env c e s r t \<longleftrightarrow> keeps_conn c e s t \<and> \<not> eg_exception (globals t e) \<and> r \<noteq> Bailed
     \<and> (r = Yielded \<longrightarrow> susp c e t \<and> frame_gone (heap_alloca env) (old_cwd (cx c t)) \<and> eg_bailout (globals t e) = Dead_frame)
     \<and> (r \<noteq> Yielded \<longrightarrow> eg_bailout (globals t e) = eg_bailout (globals s e)
          \<and> (\<not> no_chdir env \<longrightarrow> cwd (globals s e) \<noteq> [] \<longrightarrow> cwd (globals t e) = cwd (globals s e)))
     \<and> (r = Returned True \<longrightarrow>
          files_run (wk t) = files_run (wk s) @ listed [prepend env, Some (primary env), append env])
     \<and> (plain_run vm env [prepend env, Some (primary env), append env] \<longrightarrow> r = Returned True)
     \<and> (calls_first vm env [prepend env, Some (primary env), append env] \<longrightarrow>
          r = Yielded \<and> first_call vm c [prepend env, Some (primary env), append env] s t)"

lemma free_old_cwd_run:
  assumes A: "act c e s0 s" and b: "old_cwd (cx c s) = Cwd_live h d"
  shows "free_old_cwd (Some c) s = Some (set_C c (\<lambda>c. c\<lparr>old_cwd := (if h then Cwd_dead else old_cwd c)\<rparr>)
     (set_G e (\<lambda>g. g\<lparr>cwd := (if d \<noteq> [] then d else cwd g)\<rparr>) s))"
proof -
  have B: "act c e s0 (set_G e (\<lambda>g. g\<lparr>cwd := d\<rparr>) s)" by (rule act_set_G [OF A]) simp
  have "set_G e (\<lambda>g. g\<lparr>cwd := cwd g\<rparr>) s = s" by (simp add: set_G_def)
  then show ?thesis using b act_ctx_read [OF A] act_G_upd [OF A] act_ctx_write [OF A] act_ctx_write [OF B]
    by (simp add: free_old_cwd_def)
qed

lemma free_old_cwd_dead:
  assumes "act c e s0 s" and "old_cwd (cx c s) = Cwd_dead"
  shows "free_old_cwd (Some c) s = None"
  using assms act_ctx_read [OF assms(1)] by (simp add: free_old_cwd_def)

lemma php_execute_script_coro_run:
  assumes A: "act c e s0 s" and sv: "serving e s" and ex: "\<not> eg_exception (globals s e)"
    and rp: "req_ptr (cx c s) = Some In_socket_read"
  shows "\<exists>r t. php_execute_script_coro vm env s = Some (r, t) \<and> act c e s0 t \<and> script_done vm env c e s r t"
proof -
  let ?s1 = "set_G e (\<lambda>g. g\<lparr>exit_status := 0\<rparr>) s"
  let ?s2 = "set_C c (\<lambda>c. c\<lparr>use_heap := (if heap_alloca env then use_heap c else False),
     old_cwd := Cwd_live (heap_alloca env) []\<rparr>) ?s1"
  let ?s3 = "set_G e (\<lambda>g. g\<lparr>eg_bailout := In_script_try\<rparr>) ?s2"
  let ?s4 = "set_C c (\<lambda>c. c\<lparr>old_cwd := Cwd_live (heap_alloca env) (cwd (globals s e))\<rparr>) ?s3"
  let ?s5 = "set_G e (\<lambda>g. g\<lparr>cwd := script_dir env\<rparr>) ?s4"
  let ?s = "if no_chdir env then ?s3 else ?s5"
  have A1: "act c e s0 ?s1" by (rule act_set_G [OF A]) simp
  have A2: "act c e s0 ?s2" by (rule act_set_C [OF A1]) simp_all
  have A3: "act c e s0 ?s3" by (rule act_set_G [OF A2]) simp
  have A4: "act c e s0 ?s4" by (rule act_set_C [OF A3]) simp_all
  have A5: "act c e s0 ?s5" by (rule act_set_G [OF A4]) simp
  have AS: "act c e s0 ?s" using A3 A5 by simp
  have K: "keeps_conn c e s ?s" "files_run (wk ?s) = files_run (wk s)"
    "old_cwd (cx c ?s) = Cwd_live (heap_alloca env) (if no_chdir env then [] else cwd (globals s e))"
    "eg_bailout (globals ?s e) = In_script_try"
    by (simp_all add: keeps_conn_def)
  have pre: "serving e ?s" "\<not> eg_exception (globals ?s e)" "req_ptr (cx c ?s) = Some In_socket_read"
    using sv ex rp by (simp_all add: serving_def)
  obtain r t where t: "script_files env vm ?s = Some (r, t)" "act c e s0 t"
    "scripts_ran c e [prepend env, Some (primary env), append env] ?s r t"
    "plain_run vm env [prepend env, Some (primary env), append env] \<longrightarrow> r = Returned True"
    "calls_first vm env [prepend env, Some (primary env), append env] \<longrightarrow>
       r = Yielded \<and> first_call vm c [prepend env, Some (primary env), append env] ?s t"
    using script_files_run [OF AS pre] by blast
  have kr: "keeps_req c e ?s t" using t(3) by (simp add: scripts_ran_def)
  have kc: "keeps_conn c e s t" using keeps_conn_trans [OF K(1) keeps_req_conn [OF kr]] .
  have run: "php_execute_script_coro vm env s = (case r of
       Yielded \<Rightarrow> do { s \<leftarrow> script_frame_dies (Some c) t; Some (Yielded, s) }
     | _ \<Rightarrow> do {
         s \<leftarrow> G_upd (\<lambda>g. g\<lparr>eg_bailout := eg_bailout (globals s e)\<rparr>) t;
         (_, s) \<leftarrow> fatal_exception s;
         s \<leftarrow> free_old_cwd (Some c) s;
         s \<leftarrow> ctx_write (\<lambda>c. c\<lparr>old_cwd := frame_left (old_cwd c)\<rparr>) (Some c) s;
         Some (Returned (r = Returned True), s) })"
    using t(1) by (cases "no_chdir env"; cases r) (simp_all add: php_execute_script_coro_def Let_def act_run [OF A]
        act_ctx_write [OF A1] act_G_upd [OF A2] act_ctx_write [OF A3] act_G_upd [OF A4])
  show ?thesis
  proof (cases "r = Yielded")
    case True
    let ?t1 = "set_C c (\<lambda>c. c\<lparr>old_cwd := frame_left (old_cwd c)\<rparr>) t"
    let ?t2 = "set_G e (\<lambda>g. g\<lparr>eg_bailout := (if eg_bailout g = In_script_try then Dead_frame else eg_bailout g)\<rparr>) ?t1"
    have B1: "act c e s0 ?t1" by (rule act_set_C [OF t(2)]) simp_all
    have B2: "act c e s0 ?t2" by (rule act_set_G [OF B1]) simp
    have "php_execute_script_coro vm env s = Some (Yielded, ?t2)"
      using run True by (simp add: script_frame_dies_def act_ctx_write [OF t(2)] act_G_upd [OF B1])
    moreover have "script_done vm env c e s Yielded ?t2"
      using t(3,4,5) True kc kr K(2-4)
      by (cases "heap_alloca env") (auto simp: frame_gone_def first_call_def resume_stop_def script_done_def scripts_ran_def keeps_conn_def keeps_req_def susp_def)
    ultimately show ?thesis using B2 by blast
  next
    case False
    let ?t1 = "set_G e (\<lambda>g. g\<lparr>eg_bailout := eg_bailout (globals s e)\<rparr>) t"
    have B1: "act c e s0 ?t1" by (rule act_set_G [OF t(2)]) simp
    define t2 where "t2 = (if eg_exception (globals t e)
       then set_G e (\<lambda>g. g\<lparr>eg_exception := False, exit_status := 255\<rparr>) ?t1 else ?t1)"
    have B2: "act c e s0 t2" using act_set_G [OF B1] B1 by (simp add: t2_def)
    have fe: "\<exists>x. fatal_exception ?t1 = Some (x, t2)" by (simp add: fatal_exception_run [OF B1] t2_def)
    have t2: "cx c t2 = cx c t" "wk t2 = wk t" "\<not> eg_exception (globals t2 e)"
      "server_context (globals t2 e) = server_context (globals t e)"
      "sapi_started (globals t2 e) = sapi_started (globals t e)"
      "eg_bailout (globals t2 e) = eg_bailout (globals s e)"
      by (simp_all add: t2_def)
    let ?h = "heap_alloca env" and ?d = "if no_chdir env then [] else cwd (globals s e)"
    have oc: "old_cwd (cx c t2) = Cwd_live ?h ?d"
      using kr K(3) t2(1) by (simp add: keeps_req_def)
    let ?t3 = "set_G e (\<lambda>g. g\<lparr>cwd := (if ?d \<noteq> [] then ?d else cwd g)\<rparr>) t2"
    have B3: "act c e s0 ?t3" by (rule act_set_G [OF B2]) simp
    let ?t4 = "set_C c (\<lambda>c. c\<lparr>old_cwd := (if ?h then Cwd_dead else old_cwd c)\<rparr>) ?t3"
    have B4: "act c e s0 ?t4" by (rule act_set_C [OF B3]) simp_all
    let ?t5 = "set_C c (\<lambda>c. c\<lparr>old_cwd := frame_left (old_cwd c)\<rparr>) ?t4"
    have B5: "act c e s0 ?t5" by (rule act_set_C [OF B4]) simp_all
    have "php_execute_script_coro vm env s = Some (Returned (r = Returned True), ?t5)"
      using run False fe free_old_cwd_run [OF B2 oc] act_ctx_write [OF B4]
      by (cases r) (auto simp: act_G_upd [OF t(2)])
    moreover have "script_done vm env c e s (Returned (r = Returned True)) ?t5"
      using t(3,4,5) False kc K(2) by (auto simp: script_done_def scripts_ran_def keeps_conn_def t2)
    ultimately show ?thesis using B5 by blast
  qed
qed

section \<open>Ending a request\<close>

text \<open>The state after a request of the coroutine has been shut down.\<close>

definition shut :: "nat \<Rightarrow> nat \<Rightarrow> engine \<Rightarrow> engine \<Rightarrow> bool" where
  "shut c e s t \<longleftrightarrow> cx c t = cx c s \<and> eg_exception (globals t e) = eg_exception (globals s e)
     \<and> eg_bailout (globals t e) = eg_bailout (globals s e) \<and> cwd (globals t e) = cwd (globals s e)
     \<and> server_context (globals t e) = server_context (globals s e)
     \<and> \<not> sapi_started (globals t e) \<and> current_execute_data (globals t e) = NULL
     \<and> request_body_fd (globals t e) = -2
     \<and> (\<forall>op. op_arrays (wk t) op \<noteq> Some e) \<and> (\<forall>a f. frames t a = Some f \<longrightarrow> frame_owner f \<noteq> e)
     \<and> dom (reqs (wk t)) = dom (reqs (wk s)) \<and> files_run (wk t) = files_run (wk s)
     \<and> requests (wk t) = requests (wk s) + 1 \<and> max_requests (wk t) = max_requests (wk s)
     \<and> loopexit (wk t) = loopexit (wk s)"

lemma php_request_shutdown_run:
  assumes A: "act c e s0 s" and sv: "serving e s" and fd: "request_body_fd (globals s e) = -2"
  shows "\<exists>t. php_request_shutdown s = Some t \<and> act c e s0 t
     \<and> shut c e s (W_upd (\<lambda>w. w\<lparr>requests := requests w + 1\<rparr>) t)"
proof -
  let ?s1 = "set_G e (\<lambda>g. g\<lparr>current_execute_data := NULL\<rparr>) s"
  have A1: "act c e s0 ?s1" by (rule act_set_G [OF A]) simp
  obtain q where q: "server_context (globals s e) = Some q" "q \<in> dom (reqs (wk s))"
    using sv by (auto simp: serving_def)
  obtain s2 where s2: "(if sapi_started (globals s e) then fcgi_finish_conn (Some q) False ?s1 else Some ?s1) = Some s2"
    "mild ?s1 s2"
    using fcgi_finish_conn_run [of q ?s1 False] q(2) by (cases "sapi_started (globals s e)") auto
  have A2: "act c e s0 s2" using act_mild [OF A1 s2(2)] .
  let ?s3 = "set_G e (\<lambda>g. g\<lparr>sapi_started := False\<rparr>) s2"
  have A3: "act c e s0 ?s3" by (rule act_set_G [OF A2]) simp
  let ?h = "\<lambda>a. case frames s a of None \<Rightarrow> None | Some f \<Rightarrow> if frame_owner f = e then None else Some f"
  let ?o = "\<lambda>a. if op_arrays (wk s) a = Some e then None else op_arrays (wk s) a"
  let ?s4 = "?s3\<lparr>frames := ?h\<rparr>"
  let ?s5 = "W_upd (\<lambda>w. w\<lparr>op_arrays := ?o\<rparr>) ?s4"
  note m = mildD [OF s2(2)]
  have A4: "act c e s0 ?s4"
    using actD(7) [OF A3] by (intro act_frames [OF A3]) (auto simp: bounded_def m)
  have A5: "act c e s0 ?s5"
    using actD(7) [OF A3] by (intro act_op_arrays [OF A4]) (auto simp: bounded_def m)
  have "php_request_shutdown s = Option.bind
      (if sapi_started (globals s e) then fcgi_finish_conn (Some q) False ?s1 else Some ?s1)
      (\<lambda>s. do { s \<leftarrow> G_upd (\<lambda>g. g\<lparr>sapi_started := False\<rparr>) s;
         Some (W_upd (\<lambda>w. w\<lparr>op_arrays := (\<lambda>a. if op_arrays w a = Some e then None else op_arrays w a)\<rparr>)
           (s\<lparr>frames := (\<lambda>a. case frames s a of
              None \<Rightarrow> None | Some f \<Rightarrow> if frame_owner f = e then None else Some f)\<rparr>)) })"
    using q(1) by (simp add: php_request_shutdown_def sapi_cgi_deactivate_def act_run [OF A] act_G_read [OF A1] split del: if_split cong: if_cong)
  then have "php_request_shutdown s = Some ?s5"
    unfolding s2(1) by (simp add: act_G_upd [OF A2] m cong: if_cong)
  moreover have "shut c e s (W_upd (\<lambda>w. w\<lparr>requests := requests w + 1\<rparr>) ?s5)"
    using fd m by (auto simp: shut_def cx_def split: option.splits)
  ultimately show ?thesis using A5 by blast
qed

lemma close_request_run:
  assumes A: "act c e s0 s" and sv: "serving e s"
    and rq: "\<exists>q. request (cx c s) = Some q \<and> q \<in> dom (reqs (wk s))"
  shows "\<exists>t. close_request s = Some (\<not> (max_requests (wk s) \<noteq> 0 \<and> requests (wk s) + 1 = max_requests (wk s)), t)
     \<and> act c e s0 t \<and> shut c e s t"
proof -
  let ?s1 = "if request_body_fd (globals s e) \<noteq> -1 then close_fd (request_body_fd (globals s e)) s else s"
  have m1: "mild s ?s1" using mild_close_fd by simp
  note m1D = mildD [OF m1]
  have A1: "act c e s0 ?s1" using act_mild [OF A m1] .
  define s2 where "s2 = set_G e (\<lambda>g. g\<lparr>request_body_fd := -2\<rparr>) ?s1"
  have A2: "act c e s0 s2" unfolding s2_def by (rule act_set_G [OF A1]) simp
  define s3 where "s3 = note_event Stage_end (if exit_status (globals s e) = 255 then note_event Error_header s2 else s2)"
  have m3: "mild s2 s3"
    unfolding s3_def by (rule mild_trans [OF _ mild_note]) (simp_all add: mild_note)
  have A3: "act c e s0 s3" using act_mild [OF A2 m3] .
  note m3D = mildD [OF m3]
  have s3: "globals s3 = (globals s)(e := (globals s e)\<lparr>request_body_fd := -2\<rparr>)" "cx c s3 = cx c s"
    "dom (reqs (wk s3)) = dom (reqs (wk s))" "requests (wk s3) = requests (wk s)"
    "max_requests (wk s3) = max_requests (wk s)" "loopexit (wk s3) = loopexit (wk s)"
    "files_run (wk s3) = files_run (wk s)"
    using m1D by (simp_all add: m3D s2_def)
  have sv3: "serving e s3" using sv s3 by (simp add: serving_def)
  obtain s4 where s4: "php_request_shutdown s3 = Some s4" "act c e s0 s4"
    "shut c e s3 (W_upd (\<lambda>w. w\<lparr>requests := requests w + 1\<rparr>) s4)"
    using php_request_shutdown_run [OF A3 sv3] s3(1) by auto
  define s5 where "s5 = W_upd (\<lambda>w. w\<lparr>requests := requests w + 1\<rparr>) s4"
  have A5: "act c e s0 s5" unfolding s5_def by (rule act_counters [OF s4(2)]) simp_all
  have sh: "shut c e s s5" using s4(3) by (simp add: s5_def [symmetric] shut_def s3)
  have cnt: "requests (wk s5) = requests (wk s) + 1" "max_requests (wk s5) = max_requests (wk s)"
    using sh by (simp_all add: shut_def)
  have run: "close_request s = (if max_requests (wk s5) \<noteq> 0 \<and> requests (wk s5) = max_requests (wk s5)
     then do { g \<leftarrow> G_read s5; c \<leftarrow> ctx_read (sg_context g) s5;
               s \<leftarrow> req_upd (\<lambda>q. q\<lparr>q_keep := False\<rparr>) (request c) s5;
               s \<leftarrow> fcgi_finish_conn (request c) False s; Some (False, s) }
     else Some (True, s5))"
    by (simp only: close_request_def act_G_read [OF A] Option.bind.bind_lunit Let_def act_G_upd [OF A1]
        s2_def [symmetric] s3_def [symmetric] s4(1) s5_def [symmetric])
  show ?thesis
  proof (cases "max_requests (wk s5) \<noteq> 0 \<and> requests (wk s5) = max_requests (wk s5)")
    case False
    with run cnt A5 sh show ?thesis by auto
  next
    case True
    obtain q where q: "request (cx c s5) = Some q" "q \<in> dom (reqs (wk s5))"
      using rq sh by (auto simp: shut_def)
    obtain s6 where s6: "req_upd (\<lambda>q. q\<lparr>q_keep := False\<rparr>) (Some q) s5 = Some s6" "mild s5 s6"
      using req_upd_run [OF q(2)] by blast
    then have "q \<in> dom (reqs (wk s6))" using q(2) mildD(8) by blast
    from fcgi_finish_conn_run [OF this, of False] obtain s7 where
      s7: "fcgi_finish_conn (Some q) False s6 = Some s7" "mild s6 s7" by blast
    have m7: "mild s5 s7" using mild_trans [OF s6(2) s7(2)] .
    have "close_request s = Some (False, s7)"
      using run True q(1) s6(1) s7(1) act_G_read [OF A5] act_sg [OF A5] act_ctx_read [OF A5] by simp
    moreover have "shut c e s s7"
      using sh mildD [OF m7] by (auto simp: shut_def)
    ultimately show ?thesis using True cnt act_mild [OF A5 m7] by auto
  qed
qed

end
