(* ===== verification/Coro_Invariant.thy ===== *)
theory Coro_Invariant
  imports Coro_Engine_Lemmas "HOL-Library.Multiset"
begin

text \<open>
  The life of a context: \<open>Idle\<close> in the pool; \<open>Accepted\<close>, a connection waits for its request;
  \<open>Suspended\<close>, its script waits for a remote answer; \<open>Orphaned\<close>, the client has gone meanwhile.
  The abstract machine has the two lists and the phases; the handlers of the engine refine it.
\<close>

section \<open>The abstract machine\<close>

datatype phase = Idle | Accepted | Suspended | Orphaned

record pool_state =
  free_ctxs :: "nat list"
  busy_ctxs :: "nat list"
  phase_of :: "nat \<Rightarrow> phase"

abbreviation release :: "nat \<Rightarrow> pool_state \<Rightarrow> pool_state" where
  "release c p \<equiv> p\<lparr>free_ctxs := free_ctxs p @ [c], busy_ctxs := remove1 c (busy_ctxs p),
     phase_of := (phase_of p)(c := Idle)\<rparr>"

abbreviation move :: "nat \<Rightarrow> phase \<Rightarrow> pool_state \<Rightarrow> pool_state" where
  "move c x p \<equiv> p\<lparr>phase_of := (phase_of p)(c := x)\<rparr>"

inductive pool_step :: "pool_state \<Rightarrow> pool_state \<Rightarrow> bool" where
  accept: "free_ctxs p = c # cs \<Longrightarrow>
     pool_step p (p\<lparr>free_ctxs := cs, busy_ctxs := c # busy_ctxs p, phase_of := (phase_of p)(c := Accepted)\<rparr>)"
| served: "c \<in> set (busy_ctxs p) \<Longrightarrow> phase_of p c = Accepted \<Longrightarrow> pool_step p (release c p)"
| failed: "c \<in> set (busy_ctxs p) \<Longrightarrow> phase_of p c = Accepted \<Longrightarrow> pool_step p p"
| suspend: "c \<in> set (busy_ctxs p) \<Longrightarrow> phase_of p c = Accepted \<Longrightarrow> pool_step p (move c Suspended p)"
| again: "c \<in> set (busy_ctxs p) \<Longrightarrow> phase_of p c = Suspended \<Longrightarrow> pool_step p p"
| resumed: "c \<in> set (busy_ctxs p) \<Longrightarrow> phase_of p c = Suspended \<Longrightarrow> pool_step p (release c p)"
| hangup: "c \<in> set (busy_ctxs p) \<Longrightarrow> phase_of p c = Suspended \<Longrightarrow> pool_step p (move c Orphaned p)"

inductive_cases pool_stepE: "pool_step p q"

definition pool_ok :: "pool_state \<Rightarrow> bool" where
  "pool_ok p \<longleftrightarrow> distinct (free_ctxs p @ busy_ctxs p)
     \<and> (\<forall>a \<in> set (free_ctxs p). phase_of p a = Idle) \<and> (\<forall>a \<in> set (busy_ctxs p). phase_of p a \<noteq> Idle)"

lemma pool_step_ok: "pool_step p q \<Longrightarrow> pool_ok p \<Longrightarrow> pool_ok q"
  by (erule pool_stepE) (auto simp: pool_ok_def set_remove1_eq)

lemma pool_step_conserves:
  assumes "pool_step p q" and "pool_ok p"
  shows "mset (free_ctxs q) + mset (busy_ctxs q) = mset (free_ctxs p) + mset (busy_ctxs p)"
  using assms by (cases rule: pool_step.cases) auto

section \<open>The invariant of the engine\<close>

text \<open>Every context has a coroutine of its own: the entry \<open>own a\<close> of the table.\<close>

definition homes :: "(nat \<Rightarrow> nat) \<Rightarrow> ptr list \<Rightarrow> engine \<Rightarrow> bool" where
  "homes own tab s \<longleftrightarrow> tsrm_tls_table (ts s) = Some tab \<and> inj_on own (dom (ctxs s))
     \<and> (\<forall>a n. ctxs s a = Some n \<longrightarrow> 0 \<le> ctx_thread_id n \<and> nat (ctx_thread_id n) < length tab
          \<and> tab ! nat (ctx_thread_id n) = Some (own a))"

text \<open>The connection of a context, with its \<open>bufferevent\<close> live.\<close>

definition connected :: "engine \<Rightarrow> nat \<Rightarrow> bool" where
  "connected s a \<longleftrightarrow> ctx_fd (cx a s) \<noteq> 0
     \<and> (\<exists>b. ctx_bev (cx a s) = Some b \<and> bevs s b = Some (ctx_fd (cx a s)))"

definition waiting :: "nat \<Rightarrow> engine \<Rightarrow> nat \<Rightarrow> bool" where
  "waiting e s a \<longleftrightarrow> susp a e s \<and> (\<exists>h. frame_gone h (old_cwd (cx a s))) \<and> eg_bailout (globals s e) = Dead_frame
     \<and> (\<exists>q. request (cx a s) = Some q \<and> server_context (globals s e) = Some q \<and> q \<in> dom (reqs (wk s)))"

definition phase_ok :: "(nat \<Rightarrow> nat) \<Rightarrow> phase \<Rightarrow> engine \<Rightarrow> nat \<Rightarrow> bool" where
  "phase_ok own x s a \<longleftrightarrow> sg_context (globals s (own a)) = Some a \<and>
     (case x of
        Idle \<Rightarrow> False
      | Accepted \<Rightarrow> connected s a
      | Suspended \<Rightarrow> connected s a \<and> waiting (own a) s a
      | Orphaned \<Rightarrow> ctx_fd (cx a s) = 0)"

definition bev_of :: "pool_state \<Rightarrow> engine \<Rightarrow> nat \<Rightarrow> ptr" where
  "bev_of p s a = (if phase_of p a \<in> {Accepted, Suspended} then ctx_bev (cx a s) else NULL)"

definition engine_inv :: "(nat \<Rightarrow> nat) \<Rightarrow> ptr list \<Rightarrow> pool_state \<Rightarrow> engine \<Rightarrow> bool" where
  "engine_inv own tab p s \<longleftrightarrow>
     pool_rep s (free_ctxs p) (busy_ctxs p) \<and> dom (ctxs s) = set (free_ctxs p) \<union> set (busy_ctxs p)
     \<and> homes own tab s \<and> listener_ok s \<and> bounded s
     \<and> (\<forall>a \<in> dom (ctxs s). \<not> eg_exception (globals s (own a)))
     \<and> (\<forall>a \<in> set (free_ctxs p). phase_of p a = Idle)
     \<and> (\<forall>a \<in> set (busy_ctxs p). phase_ok own (phase_of p a) s a)
     \<and> dom (bevs s) = {b. \<exists>a \<in> set (busy_ctxs p). bev_of p s a = Some b}
     \<and> (\<forall>a \<in> set (busy_ctxs p). \<forall>a' \<in> set (busy_ctxs p). \<forall>b.
          bev_of p s a = Some b \<longrightarrow> bev_of p s a' = Some b \<longrightarrow> a = a')"

lemma engine_invD:
  assumes "engine_inv own tab p s"
  shows "pool_rep s (free_ctxs p) (busy_ctxs p)" "dom (ctxs s) = set (free_ctxs p) \<union> set (busy_ctxs p)"
    "homes own tab s" "listener_ok s" "bounded s"
    "a \<in> dom (ctxs s) \<Longrightarrow> \<not> eg_exception (globals s (own a))"
    "a \<in> set (busy_ctxs p) \<Longrightarrow> phase_ok own (phase_of p a) s a"
    "a \<in> set (free_ctxs p) \<Longrightarrow> phase_of p a = Idle"
    "dom (bevs s) = {b. \<exists>a \<in> set (busy_ctxs p). bev_of p s a = Some b}"
    "a \<in> set (busy_ctxs p) \<Longrightarrow> a' \<in> set (busy_ctxs p) \<Longrightarrow> bev_of p s a = Some b
       \<Longrightarrow> bev_of p s a' = Some b \<Longrightarrow> a = a'"
  using assms by (auto simp: engine_inv_def)

lemma engine_inv_pool_ok: "engine_inv own tab p s \<Longrightarrow> pool_ok p"
  by (auto simp: engine_inv_def pool_ok_def pool_rep_def phase_ok_def)

lemma engine_inv_distinct: "engine_inv own tab p s \<Longrightarrow> distinct (free_ctxs p @ busy_ctxs p)"
  by (simp add: engine_inv_def pool_rep_def)

section \<open>Frame lemmas\<close>

lemma pool_rep_same_lists:
  assumes "same_lists s t"
  shows "pool_rep t ps us = pool_rep s ps us"
proof -
  have "dpath ctx_next ctx_prev (ctxs t) pp x as q y = dpath ctx_next ctx_prev (ctxs s) pp x as q y" for pp x as q y
    using assms by (intro dpath_cong) (simp_all add: same_lists_def)
  then show ?thesis using assms by (simp add: pool_rep_def same_lists_def)
qed

lemma listener_ok_same_lists: "same_lists s t \<Longrightarrow> listener_ok t = listener_ok s"
  by (simp add: listener_ok_def same_lists_def)

lemma same_lists_dom: "same_lists s t \<Longrightarrow> dom (ctxs t) = dom (ctxs s)"
  unfolding same_lists_def dom_def by (auto, (metis option.map_disc_iff option.distinct(1) not_Some_eq)+)

lemma others_cx:
  assumes "others c e s t" and "a \<noteq> c" and "a \<in> dom (ctxs s)"
  shows "unlinked (cx a t) = unlinked (cx a s)" "a \<in> dom (ctxs t)"
proof -
  obtain n where n: "ctxs s a = Some n" using assms(3) by blast
  have "map_option unlinked (ctxs t a) = map_option unlinked (ctxs s a)"
    using assms(1,2) by (simp add: others_def)
  with n show "unlinked (cx a t) = unlinked (cx a s)" "a \<in> dom (ctxs t)"
    by (auto simp: cx_def)
qed

lemma homes_transfer:
  assumes "homes own tab s" and "others c e s t" and "dom (ctxs t) = dom (ctxs s)"
    and "c \<in> dom (ctxs s) \<Longrightarrow> ctx_thread_id (cx c t) = ctx_thread_id (cx c s)"
  shows "homes own tab t"
proof -
  have "0 \<le> ctx_thread_id n \<and> nat (ctx_thread_id n) < length tab \<and> tab ! nat (ctx_thread_id n) = Some (own a)"
    if n: "ctxs t a = Some n" for a n
  proof -
    have a: "a \<in> dom (ctxs s)" using n assms(3) by blast
    then obtain m where m: "ctxs s a = Some m" by blast
    have "ctx_thread_id n = ctx_thread_id m"
    proof (cases "a = c")
      case True
      then show ?thesis using assms(4) a n m by (simp add: cx_def)
    next
      case False
      then show ?thesis using unlinked_eqD(1) [OF others_cx(1) [OF assms(2) False a]] n m by (simp add: cx_def)
    qed
    then show ?thesis using assms(1) m by (simp add: homes_def)
  qed
  moreover have "tsrm_tls_table (ts t) = Some tab" using assms(1,2) by (simp add: homes_def others_def)
  ultimately show ?thesis using assms(1,3) by (simp add: homes_def)
qed

lemma phase_ok_others:
  assumes "phase_ok own x s a" and "others c e s t" and "a \<noteq> c" and "own a \<noteq> e" and "a \<in> dom (ctxs s)"
    and "\<And>b. ctx_bev (cx a s) = Some b \<Longrightarrow> ctx_fd (cx a s) \<noteq> 0 \<Longrightarrow> bevs t b = bevs s b"
  shows "phase_ok own x t a"
proof -
  note u = unlinked_eqD [OF others_cx(1) [OF assms(2,3,5)]]
  have g: "globals t (own a) = globals s (own a)" using assms(2,4) by (simp add: others_def)
  have "connected s a \<Longrightarrow> connected t a"
    using assms(6) u by (auto simp: connected_def)
  moreover have "waiting (own a) s a \<Longrightarrow> waiting (own a) t a"
  proof -
    assume "waiting (own a) s a"
    then obtain f fr op q where w: "prev_execute_data (cx a s) = Some f" "frames s f = Some fr"
      "frame_owner fr = own a" "func fr = Some op" "op_array (cx a s) = Some op" "op_arrays (wk s) op = Some (own a)"
      "\<not> eg_exception (globals s (own a))" "\<exists>h. frame_gone h (old_cwd (cx a s))"
      "eg_bailout (globals s (own a)) = Dead_frame" "request (cx a s) = Some q"
      "server_context (globals s (own a)) = Some q" "q \<in> dom (reqs (wk s))"
      unfolding waiting_def susp_def by blast
    moreover have "frames t f = Some fr"
      using assms(2) w(2) w(3) assms(4) unfolding others_def by metis
    moreover have "op_arrays (wk t) op = Some (own a)" "q \<in> dom (reqs (wk t))"
      using assms(2,4) w(6,12) unfolding others_def by (blast, blast)
    ultimately show "waiting (own a) t a" using u g by (simp add: waiting_def susp_def)
  qed
  ultimately show ?thesis using assms(1) u g by (auto simp: phase_ok_def split: phase.splits)
qed

text \<open>
  A handler has served the context \<open>c\<close>: what is to be shown of \<open>c\<close> itself, when the rest is left
  alone, for the invariant to hold again.
\<close>

lemma engine_inv_change:
  assumes inv: "engine_inv own tab p s" and oth: "others c (own c) s t" and c: "c \<in> dom (ctxs s)"
    and dm: "dom (ctxs t) = dom (ctxs s)" and tid: "ctx_thread_id (cx c t) = ctx_thread_id (cx c s)"
    and rep: "pool_rep t fs bs" "listener_ok t" and ex: "\<not> eg_exception (globals t (own c))"
    and sets: "set fs - {c} = set (free_ctxs p) - {c}" "set bs - {c} = set (busy_ctxs p) - {c}" "c \<in> set fs \<union> set bs"
    and ph: "c \<in> set bs \<Longrightarrow> phase_ok own x t c" "c \<in> set fs \<Longrightarrow> x = Idle"
    and bv: "\<And>a b. a \<in> set (busy_ctxs p) - {c} \<Longrightarrow> bev_of p s a = Some b \<Longrightarrow> bevs t b = bevs s b"
    and bd: "dom (bevs t) = {b. \<exists>a \<in> set (busy_ctxs p) - {c}. bev_of p s a = Some b}
               \<union> {b. c \<in> set bs \<and> x \<in> {Accepted, Suspended} \<and> ctx_bev (cx c t) = Some b}"
    and bi: "\<And>a b. a \<in> set (busy_ctxs p) - {c} \<Longrightarrow> bev_of p s a = Some b \<Longrightarrow> c \<in> set bs
               \<Longrightarrow> x \<in> {Accepted, Suspended} \<Longrightarrow> ctx_bev (cx c t) \<noteq> Some b"
  shows "engine_inv own tab \<lparr>free_ctxs = fs, busy_ctxs = bs, phase_of = (phase_of p)(c := x)\<rparr> t"
proof -
  let ?p = "\<lparr>free_ctxs = fs, busy_ctxs = bs, phase_of = (phase_of p)(c := x)\<rparr>"
  note I = engine_invD [OF inv]
  have all: "set fs \<union> set bs = set (free_ctxs p) \<union> set (busy_ctxs p)"
    using sets c I(2) by auto
  have busy: "a \<in> set (busy_ctxs p) - {c}" if "a \<in> set bs" "a \<noteq> c" for a
    using that sets(2) by blast
  have own_ne: "own a \<noteq> own c" if "a \<in> dom (ctxs s)" "a \<noteq> c" for a
    using I(3) that c unfolding homes_def by (meson inj_on_def)
  have hm: "homes own tab t" using homes_transfer [OF I(3) oth dm tid] by simp
  have bof: "bev_of ?p t a = bev_of p s a" if "a \<in> set bs" "a \<noteq> c" for a
  proof -
    have "a \<in> dom (ctxs s)" using busy [OF that] I(2) by auto
    then show ?thesis
      using unlinked_eqD(3) [OF others_cx(1) [OF oth that(2)]] that(2) by (simp add: bev_of_def)
  qed
  have bofc: "bev_of ?p t c = (if x \<in> {Accepted, Suspended} then ctx_bev (cx c t) else NULL)"
    by (simp add: bev_of_def)
  have pok: "phase_ok own (phase_of ?p a) t a" if "a \<in> set bs" for a
  proof (cases "a = c")
    case True
    then show ?thesis using ph(1) that by simp
  next
    case False
    note ba = busy [OF that False]
    then have ad: "a \<in> dom (ctxs s)" using I(2) by auto
    have "bevs t b = bevs s b" if "ctx_bev (cx a s) = Some b" "ctx_fd (cx a s) \<noteq> 0" for b
    proof -
      have "phase_of p a \<in> {Accepted, Suspended}"
        using I(7) [of a] ba that(2) by (auto simp: phase_ok_def split: phase.splits)
      then show ?thesis using bv [OF ba] that(1) by (simp add: bev_of_def)
    qed
    note bvs = this
    have "phase_ok own (phase_of p a) s a" using I(7) [of a] ba by simp
    then have "phase_ok own (phase_of p a) t a"
      by (rule phase_ok_others [where c = c and e = "own c"])
        (fact oth, fact False, fact own_ne [OF ad False], fact ad, erule (1) bvs)
    then show ?thesis using False by simp
  qed
  have exc: "\<not> eg_exception (globals t (own a))" if "a \<in> dom (ctxs t)" for a
  proof (cases "a = c")
    case True
    then show ?thesis using ex by simp
  next
    case False
    have ad: "a \<in> dom (ctxs s)" using that dm by simp
    then have "globals t (own a) = globals s (own a)"
      using oth own_ne [OF ad False] unfolding others_def by blast
    then show ?thesis using I(6) [OF ad] by simp
  qed
  have bdom: "dom (bevs t) = {b. \<exists>a \<in> set bs. bev_of ?p t a = Some b}"
  proof -
    have "(\<exists>a \<in> set (busy_ctxs p) - {c}. bev_of p s a = Some b) \<longleftrightarrow> (\<exists>a \<in> set bs - {c}. bev_of ?p t a = Some b)" for b
      unfolding sets(2) [symmetric] by (rule bex_cong) (simp_all add: bof)
    moreover have "(\<exists>a \<in> set bs. bev_of ?p t a = Some b) \<longleftrightarrow>
        (\<exists>a \<in> set bs - {c}. bev_of ?p t a = Some b) \<or> (c \<in> set bs \<and> bev_of ?p t c = Some b)" for b
      by blast
    ultimately show ?thesis unfolding bd bofc by auto
  qed
  have binj: "a = a'" if "a \<in> set bs" "a' \<in> set bs" "bev_of ?p t a = Some b" "bev_of ?p t a' = Some b" for a a' b
  proof -
    consider "a = c" "a' = c" | "a = c" "a' \<noteq> c" | "a \<noteq> c" "a' = c" | "a \<noteq> c" "a' \<noteq> c" by blast
    then show ?thesis
    proof cases
      case 2
      then show ?thesis using that bof [of a'] bofc bi [OF busy [of a']] by (auto split: if_splits)
    next
      case 3
      then show ?thesis using that bof [of a] bofc bi [OF busy [of a]] by (auto split: if_splits)
    next
      case 4
      then have "a \<in> set (busy_ctxs p)" "a' \<in> set (busy_ctxs p)" "bev_of p s a = Some b" "bev_of p s a' = Some b"
        using that bof busy by auto
      then show ?thesis using I(10) by blast
    qed simp
  qed
  have idle: "phase_of ?p a = Idle" if "a \<in> set fs" for a
    using that ph(2) sets(1) I(8) by (cases "a = c") auto
  have "dom (ctxs t) = set fs \<union> set bs" using dm I(2) all by simp
  moreover have "bounded t" using oth I(5) by (simp add: others_def)
  ultimately show ?thesis
    unfolding engine_inv_def using rep hm pok exc bdom binj idle by simp
qed

section \<open>Switching and releasing\<close>

lemma checkout_run:
  assumes inv: "engine_inv own tab p s" and c: "c \<in> set (busy_ctxs p)"
  shows "\<exists>u. checkout_coroutine_context (Some c) s = Some u \<and> act c (own c) s u
     \<and> globals u = globals s \<and> ctxs u = ctxs s \<and> frames u = frames s \<and> wk u = wk s \<and> bevs u = bevs s"
proof -
  note I = engine_invD [OF inv]
  obtain n where n: "ctxs s c = Some n" using c I(2) by blast
  have hm: "tsrm_tls_table (ts s) = Some tab" "0 \<le> ctx_thread_id n" "nat (ctx_thread_id n) < length tab"
    "tab ! nat (ctx_thread_id n) = Some (own c)"
    using I(3) n by (auto simp: homes_def)
  let ?t = "(ts s)\<lparr>force_thread_id := ctx_thread_id n, tls := Some (own c)\<rparr>"
  have "enter_coroutine (ctx_thread_id n) (ts s) = Some ?t"
    using enter_coroutine_any [OF hm(1,2)] hm(3,4) by simp
  then have "checkout_coroutine_context (Some c) s = Some (s\<lparr>ts := ?t\<rparr>)"
    using n by (simp add: checkout_coroutine_context_def ctx_read_def)
  moreover have "act c (own c) s (s\<lparr>ts := ?t\<rparr>)"
    using n I(5) I(7) [OF c]
    by (auto simp: act_def others_def same_lists_def bounded_def cx_def phase_ok_def)
  ultimately show ?thesis by auto
qed

text \<open>The invariant after a handler that keeps the context busy.\<close>

lemma engine_inv_keep:
  assumes inv: "engine_inv own tab p s" and c: "c \<in> set (busy_ctxs p)" and act: "act c (own c) s t"
    and ex: "\<not> eg_exception (globals t (own c))"
    and ph: "phase_of p c \<in> {Accepted, Suspended}" "x \<in> {Accepted, Suspended}" "phase_ok own x t c"
  shows "engine_inv own tab (move c x p) t"
proof -
  note I = engine_invD [OF inv] and A = actD [OF act]
  have dist: "distinct (free_ctxs p @ busy_ctxs p)" using engine_inv_distinct [OF inv] .
  have "engine_inv own tab \<lparr>free_ctxs = free_ctxs p, busy_ctxs = busy_ctxs p, phase_of = (phase_of p)(c := x)\<rparr> t"
  proof (rule engine_inv_change [OF inv A(1)])
    show "pool_rep t (free_ctxs p) (busy_ctxs p)" using pool_rep_same_lists [OF A(2)] I(1) by simp
    show "listener_ok t" using listener_ok_same_lists [OF A(2)] I(4) by simp
    show "dom (ctxs t) = dom (ctxs s)" using same_lists_dom [OF A(2)] .
    have cd: "bev_of p s c = ctx_bev (cx c s)" using ph(1) by (simp add: bev_of_def)
    have "(\<exists>a \<in> set (busy_ctxs p). bev_of p s a = Some b) \<longleftrightarrow>
        (\<exists>a \<in> set (busy_ctxs p) - {c}. bev_of p s a = Some b) \<or> ctx_bev (cx c s) = Some b" for b
      using c cd by auto
    then show "dom (bevs t) = {b. \<exists>a \<in> set (busy_ctxs p) - {c}. bev_of p s a = Some b}
        \<union> {b. c \<in> set (busy_ctxs p) \<and> x \<in> {Accepted, Suspended} \<and> ctx_bev (cx c t) = Some b}"
      using I(9) A(3,9) c ph(2) by auto
    show "ctx_bev (cx c t) \<noteq> Some b" if "a \<in> set (busy_ctxs p) - {c}" "bev_of p s a = Some b" for a b
      using that I(10) [of a c b] cd A(9) c by auto
  qed (use c I(2) dist ex ph A in auto)
  then show ?thesis by (cases p) simp
qed

text \<open>Giving the context back at the end of a handler.\<close>

lemma engine_inv_release:
  assumes inv: "engine_inv own tab p s" and c: "c \<in> set (busy_ctxs p)" and act: "act c (own c) s t"
    and ex: "\<not> eg_exception (globals t (own c))"
    and fd: "ctx_fd (cx c t) = ctx_fd (cx c s)"
  shows "\<exists>t'. free_coroutine_context (Some c) t = Some t' \<and> engine_inv own tab (release c p) t'
     \<and> requests (wk t') = requests (wk t) \<and> max_requests (wk t') = max_requests (wk t)
     \<and> loopexit (wk t') = loopexit (wk t) \<and> trace (wk t') = trace (wk t) \<and> reqs (wk t') = reqs (wk t)
     \<and> globals t' = globals t
     \<and> bevs t' = (if ctx_fd (cx c s) = 0 then bevs s else (bevs s)(the (ctx_bev (cx c s)) := None))
     \<and> open_fds (wk t') = (if ctx_fd (cx c s) = 0 then open_fds (wk t) else open_fds (wk t) - {ctx_fd (cx c s)})"
proof -
  note I = engine_invD [OF inv] and A = actD [OF act]
  have dist: "distinct (free_ctxs p @ busy_ctxs p)" using engine_inv_distinct [OF inv] .
  have rep: "pool_rep t (free_ctxs p) (busy_ctxs p)" using pool_rep_same_lists [OF A(2)] I(1) by simp
  have ph: "phase_ok own (phase_of p c) s c" using I(7) [OF c] .
  have conn: "if ctx_fd (cx c s) = 0 then phase_of p c = Orphaned
      else phase_of p c \<in> {Accepted, Suspended} \<and> (\<exists>b. ctx_bev (cx c s) = Some b \<and> bevs s b = Some (ctx_fd (cx c s)))"
    using ph by (auto simp: phase_ok_def connected_def split: phase.splits)
  have ret: "returnable c t"
    using conn A(3,5,9) fd by (auto simp: returnable_def split: if_splits)
  obtain t1 where t1: "free_coroutine_context (Some c) t = Some (asser_event_continue t1)"
    "pool_rep t1 (free_ctxs p @ [c]) (remove1 c (busy_ctxs p))" "same_data (ctxs t) (ctxs t1)" "ts t1 = ts t"
    "bevs t1 = (if ctx_fd (cx c t) = 0 then bevs t else (bevs t)(the (ctx_bev (cx c t)) := None))"
    "globals t1 = globals t" "frames t1 = frames t"
    "wk t1 = (if ctx_fd (cx c t) = 0 then wk t
       else (wk t)\<lparr>open_fds := open_fds (wk t) - {the (bevs t (the (ctx_bev (cx c t))))}\<rparr>)"
    "listener_added t1 = listener_added t" "listener_event_stop t1 = listener_event_stop t"
    using free_coroutine_context_full [OF rep c ret A(5)] by blast
  let ?t = "asser_event_continue t1"
  have wk1: "reqs (wk t1) = reqs (wk t)" "op_arrays (wk t1) = op_arrays (wk t)" "next_obj (wk t1) = next_obj (wk t)"
    by (simp_all add: t1(8))
  have oth: "others c (own c) s ?t"
  proof (rule others_trans [OF A(1)])
    have "map_option unlinked (ctxs t1 a) = map_option unlinked (ctxs t a)" for a
      using t1(3) by (simp add: same_data_def)
    moreover have "bounded t \<longrightarrow> bounded t1"
      using wk1 t1(5,7) by (auto simp: bounded_def)
    moreover have "bounded (asser_event_continue t1) = bounded t1"
      by (simp add: bounded_def)
    ultimately show "others c (own c) t ?t"
      using wk1 t1(4,6,7) by (simp add: others_def)
  qed
  have dm: "dom (ctxs ?t) = dom (ctxs s)"
    using same_data_dom [OF t1(3)] same_lists_dom [OF A(2)] by simp
  obtain n where n: "ctxs t1 c = Some n" "unlinked n = unlinked (cx c t)"
    using same_dataD [OF t1(3) A(5)] by blast
  have lo: "listener_ok ?t"
    using listener_ok_same_lists [OF A(2)] I(4) t1(2,9,10) rep
    by (auto simp: listener_ok_def asser_event_continue_def pool_rep_def)
  have old: "(\<exists>a \<in> set (busy_ctxs p). bev_of p s a = Some b) \<longleftrightarrow>
        (\<exists>a \<in> set (busy_ctxs p) - {c}. bev_of p s a = Some b) \<or> bev_of p s c = Some b" for b
    using c by auto
  have notc: "bev_of p s c \<noteq> Some b" if "a \<in> set (busy_ctxs p) - {c}" "bev_of p s a = Some b" for a b
    using that I(10) [of a c b] c by auto
  have bc: "bev_of p s c = (if ctx_fd (cx c s) = 0 then NULL else ctx_bev (cx c s))"
    using conn by (auto simp: bev_of_def split: if_splits)
  have bevs_t: "bevs ?t = (case bev_of p s c of None \<Rightarrow> bevs s | Some b \<Rightarrow> (bevs s)(b := None))"
    using t1(5) conn A(3,9) fd bc by (auto split: if_splits)
  have "engine_inv own tab \<lparr>free_ctxs = free_ctxs p @ [c], busy_ctxs = remove1 c (busy_ctxs p),
      phase_of = (phase_of p)(c := Idle)\<rparr> ?t"
  proof (rule engine_inv_change [OF inv oth])
    show "dom (ctxs ?t) = dom (ctxs s)" by fact
    show "ctx_thread_id (cx c ?t) = ctx_thread_id (cx c s)"
      using n A(8) unlinked_eqD(1) [OF n(2)] by (simp add: cx_def)
    show "pool_rep ?t (free_ctxs p @ [c]) (remove1 c (busy_ctxs p))" using t1(2) by simp
    show "\<not> eg_exception (globals ?t (own c))" using ex t1(6) by simp
    show "set (remove1 c (busy_ctxs p)) - {c} = set (busy_ctxs p) - {c}" using dist by auto
    show "bevs ?t b = bevs s b" if "a \<in> set (busy_ctxs p) - {c}" "bev_of p s a = Some b" for a b
      using notc [OF that] bevs_t by (auto split: option.splits)
    show "dom (bevs ?t) = {b. \<exists>a \<in> set (busy_ctxs p) - {c}. bev_of p s a = Some b}
        \<union> {b. c \<in> set (remove1 c (busy_ctxs p)) \<and> Idle \<in> {Accepted, Suspended} \<and> ctx_bev (cx c ?t) = Some b}"
      using bevs_t I(9) old notc by (auto split: option.splits)
  qed (use c I(2) dist lo in auto)
  then have "engine_inv own tab (release c p) ?t" by (cases p) simp
  moreover have "the (bevs t (the (ctx_bev (cx c t)))) = ctx_fd (cx c s)" if "ctx_fd (cx c s) \<noteq> 0"
    using conn that A(3,9) by auto
  ultimately show ?thesis
    using t1(1,5,6,8) fd A(3,9) by (intro exI [of _ ?t]) simp
qed

section \<open>The handlers\<close>

text \<open>
  A request of an accepted connection: its context goes back to the pool, or waits for an answer,
  or (when the startup of the request fails) stays as it is.
\<close>

lemma done2_run:
  assumes inv: "engine_inv own tab p s" and c: "c \<in> set (busy_ctxs p)" and act: "act c (own c) s t"
    and sv: "serving (own c) t" and rq: "\<exists>q. request (cx c t) = Some q \<and> q \<in> dom (reqs (wk t))"
    and ex: "\<not> eg_exception (globals t (own c))" and fd: "ctx_fd (cx c t) = ctx_fd (cx c s)"
  shows "\<exists>u. fastcgi_request_done2 t = Some u \<and> engine_inv own tab (release c p) u
     \<and> requests (wk u) = requests (wk t) + 1 \<and> max_requests (wk u) = max_requests (wk t)
     \<and> loopexit (wk u) = (loopexit (wk t) \<or> (max_requests (wk t) \<noteq> 0 \<and> requests (wk t) + 1 = max_requests (wk t)))
     \<and> files_run (wk u) = files_run (wk t) \<and> dom (reqs (wk u)) = dom (reqs (wk t))
     \<and> cwd (globals u (own c)) = cwd (globals t (own c))
     \<and> (ctx_fd (cx c s) \<noteq> 0 \<longrightarrow> ctx_fd (cx c s) \<notin> open_fds (wk u))"
proof -
  let ?more = "\<not> (max_requests (wk t) \<noteq> 0 \<and> requests (wk t) + 1 = max_requests (wk t))"
  obtain t1 where t1: "close_request t = Some (?more, t1)" "act c (own c) s t1" "shut c (own c) t t1"
    using close_request_run [OF act sv rq] by blast
  let ?t2 = "if \<not> ?more then W_upd (\<lambda>w. w\<lparr>loopexit := True\<rparr>) t1 else t1"
  have A2: "act c (own c) s ?t2" using act_counters [OF t1(2), of "(wk t1)\<lparr>loopexit := True\<rparr>"] t1(2) by simp
  have ex2: "\<not> eg_exception (globals ?t2 (own c))" "ctx_fd (cx c ?t2) = ctx_fd (cx c s)"
    using t1(3) ex fd by (simp_all add: shut_def cx_def)
  obtain u where u: "free_coroutine_context (Some c) ?t2 = Some u" "engine_inv own tab (release c p) u"
     "requests (wk u) = requests (wk ?t2)" "max_requests (wk u) = max_requests (wk ?t2)"
     "loopexit (wk u) = loopexit (wk ?t2)" "trace (wk u) = trace (wk ?t2)" "reqs (wk u) = reqs (wk ?t2)"
     "globals u = globals ?t2"
     "open_fds (wk u) = (if ctx_fd (cx c s) = 0 then open_fds (wk ?t2) else open_fds (wk ?t2) - {ctx_fd (cx c s)})"
    using engine_inv_release [OF inv c A2 ex2] by blast
  have "fastcgi_request_done2 t = Some u"
    using t1(1) u(1) act_G_read [OF A2] act_sg [OF A2]
    by (simp only: fastcgi_request_done2_def Option.bind.bind_lunit Let_def prod.case)
  moreover have "files_run (wk u) = files_run (wk t)"
    using u(6) t1(3) by (simp add: files_run_def shut_def split: if_splits)
  ultimately show ?thesis
    using u t1(3) by (intro exI [of _ u]) (auto simp: shut_def)
qed

text \<open>The part of the read handler before its first branch.\<close>

definition begun :: "nat \<Rightarrow> nat \<Rightarrow> request_env \<Rightarrow> engine \<Rightarrow> engine \<Rightarrow> bool" where
  "begun c e env s t \<longleftrightarrow> (\<exists>q. server_context (globals t e) = Some q \<and> request (cx c t) = Some q
       \<and> q \<notin> dom (reqs (wk s)) \<and> q \<in> dom (reqs (wk t)) \<and> dom (reqs (wk t)) = insert q (dom (reqs (wk s))))
     \<and> \<not> eg_exception (globals t e) \<and> ctx_fd (cx c t) = ctx_fd (cx c s) \<and> files_run (wk t) = files_run (wk s)
     \<and> requests (wk t) = requests (wk s) \<and> max_requests (wk t) = max_requests (wk s)
     \<and> loopexit (wk t) = loopexit (wk s) \<and> cwd (globals t e) = cwd (globals s e)"

lemma read_prologue_run:
  assumes inv: "engine_inv own tab p s" and c: "c \<in> set (busy_ctxs p)"
  shows "\<exists>q t. read_prologue env bev (Some c) s = Some (Some q, t) \<and> act c (own c) s t \<and> begun c (own c) env s t
     \<and> server_context (globals t (own c)) = Some q"
proof -
  let ?e = "own c"
  obtain u where u: "checkout_coroutine_context (Some c) s = Some u" "act c ?e s u" "globals u = globals s"
    "ctxs u = ctxs s" "frames u = frames s" "wk u = wk s" "bevs u = bevs s"
    using checkout_run [OF inv c] by blast
  have ex: "\<not> eg_exception (globals s ?e)"
    using engine_invD(2,6) [OF inv] c by blast
  have cxu: "cx c u = cx c s" using u(4) by (simp add: cx_def)
  let ?q = "next_obj (wk s)"
  define v where "v = snd (fpm_init_request u)"
  have v: "fpm_init_request u = (?q, v)" "globals v = globals s" "cx c v = cx c s"
    "wk v = (wk s)\<lparr>next_obj := Suc ?q, reqs := (reqs (wk s))(?q \<mapsto> \<lparr>q_fd = -1, q_keep = False, q_bev = NULL, q_ended = False\<rparr>)\<rparr>"
    using u(3,6) cxu by (simp_all add: v_def fpm_init_request_def fresh_def Let_def) (simp add: cx_def u(4))
  have A0: "act c ?e s v"
  proof -
    have "act c ?e s (W_upd (\<lambda>w. w\<lparr>reqs := (reqs w)(?q \<mapsto> \<lparr>q_fd = -1, q_keep = False, q_bev = NULL, q_ended = False\<rparr>)\<rparr>) (snd (fresh u)))"
      using actD(7) [OF u(2)] u(6) by (intro act_reqs [OF act_fresh [OF u(2)]]) (auto simp: bounded_def fresh_def)
    then show ?thesis using u(6) by (simp add: v_def fpm_init_request_def fresh_def)
  qed
  have q0: "?q \<in> dom (reqs (wk v))" by (simp add: v)
  obtain v1 where v1: "req_upd (\<lambda>q. q\<lparr>q_fd := ctx_fd (cx c s)\<rparr>) (Some ?q) v = Some v1" "mild v v1"
    using req_upd_run [OF q0] by blast
  have q1: "?q \<in> dom (reqs (wk v1))" using q0 mildD(8) [OF v1(2)] by simp
  obtain v2 where v2: "req_upd (\<lambda>q. q\<lparr>q_bev := bev\<rparr>) (Some ?q) v1 = Some v2" "mild v1 v2"
    using req_upd_run [OF q1] by blast
  have m2: "mild v v2" using mild_trans [OF v1(2) v2(2)] .
  note M2 = mildD [OF m2]
  have A2: "act c ?e s v2" using act_mild [OF A0 m2] .
  define v3 where "v3 = set_G ?e (\<lambda>g. g\<lparr>sg_context := Some c\<rparr>) (set_C c (\<lambda>n. n\<lparr>request := Some ?q\<rparr>) v2)"
  have A3a: "act c ?e s (set_C c (\<lambda>n. n\<lparr>request := Some ?q\<rparr>) v2)" by (rule act_set_C [OF A2]) simp_all
  have A3: "act c ?e s v3"
    unfolding v3_def by (rule act_set_G [OF A3a]) (use act_sg [OF A2] in simp)
  have set: "init_coroutine_set_request (Some c) (Some ?q) v2 = Some v3"
    by (simp add: init_coroutine_set_request_def act_ctx_write [OF A2] act_G_upd [OF A3a] v3_def)
  have "?q \<in> dom (reqs (wk v3))" using q0 M2(8) by (simp add: v3_def)
  from req_upd_run [OF this, of "\<lambda>q. q\<lparr>q_keep := env_keep env\<rparr>"] obtain v4 where
    v4: "req_upd (\<lambda>q. q\<lparr>q_keep := env_keep env\<rparr>) (Some ?q) v3 = Some v4" "mild v3 v4" by blast
  have A4: "act c ?e s v4" using act_mild [OF A3 v4(2)] .
  let ?v5 = "set_G ?e (\<lambda>g. g\<lparr>request_body_fd := -1\<rparr>) v4"
  have A5: "act c ?e s ?v5" by (rule act_set_G [OF A4]) simp
  let ?v6 = "set_G ?e (\<lambda>g. g\<lparr>server_context := Some ?q\<rparr>) ?v5"
  have A6: "act c ?e s ?v6" by (rule act_set_G [OF A5]) simp
  let ?v7 = "set_G ?e (\<lambda>g. g\<lparr>sapi_started := True\<rparr>) ?v6"
  have A7: "act c ?e s ?v7" by (rule act_set_G [OF A6]) simp
  have "read_prologue env bev (Some c) s = Some (Some ?q, ?v7)"
    using u(1) v(1) v1(1) v2(1) set v4(1) act_ctx_read [OF u(2)] cxu
    by (simp add: read_prologue_def Let_def act_G_upd [OF A4] init_request_def act_G_upd [OF A5] act_G_upd [OF A6])
  moreover have "begun c ?e env s ?v7"
  proof -
    have "?q \<notin> dom (reqs (wk s))" using engine_invD(5) [OF inv] by (auto simp: bounded_def)
    then show ?thesis
      using mildD [OF v4(2)] M2 ex v by (auto simp: begun_def v3_def)
  qed
  ultimately show ?thesis using A7 by auto
qed

text \<open>The state after a request has been answered at once.\<close>

definition answered :: "(nat \<Rightarrow> nat) \<Rightarrow> nat \<Rightarrow> engine \<Rightarrow> engine \<Rightarrow> bool" where
  "answered own c s t \<longleftrightarrow> requests (wk t) = requests (wk s) + 1 \<and> max_requests (wk t) = max_requests (wk s)
     \<and> loopexit (wk t) = (loopexit (wk s) \<or> (max_requests (wk s) \<noteq> 0 \<and> requests (wk s) + 1 = max_requests (wk s)))
     \<and> ctx_fd (cx c s) \<notin> open_fds (wk t)"

text \<open>One more live request record than before.\<close>

definition grew :: "engine \<Rightarrow> engine \<Rightarrow> bool" where
  "grew s t \<longleftrightarrow> (\<exists>q. q \<notin> dom (reqs (wk s)) \<and> dom (reqs (wk t)) = insert q (dom (reqs (wk s))))"

lemma begun_grew: "begun c e env s t \<Longrightarrow> dom (reqs (wk u)) = dom (reqs (wk t)) \<Longrightarrow> grew s u"
  unfolding begun_def grew_def by metis

definition executes :: "request_env \<Rightarrow> bool" where
  "executes env \<longleftrightarrow> startup_ok env \<and> has_method env \<and> \<not> status_page env \<and> has_path env
     \<and> \<not> ext_limited env \<and> fopen_ok env"

lemma begun_note: "begun c e env s t \<Longrightarrow> file_of ev = [] \<Longrightarrow> begun c e env s (note_event ev t)"
  by (simp add: begun_def)

lemma answer_now:
  assumes inv: "engine_inv own tab p s" and c: "c \<in> set (busy_ctxs p)" and acc: "phase_of p c = Accepted"
    and act: "act c (own c) s t" and bg: "begun c (own c) env s t"
  shows "\<exists>u. fastcgi_request_done2 t = Some u \<and> engine_inv own tab (release c p) u \<and> answered own c s u
     \<and> files_run (wk u) = files_run (wk s) \<and> grew s u"
proof -
  have "ctx_fd (cx c s) \<noteq> 0"
    using engine_invD(7) [OF inv c] acc by (simp add: phase_ok_def connected_def)
  moreover have "serving (own c) t" "\<exists>q. request (cx c t) = Some q \<and> q \<in> dom (reqs (wk t))"
    "\<not> eg_exception (globals t (own c))" "ctx_fd (cx c t) = ctx_fd (cx c s)"
    using bg by (auto simp: begun_def serving_def)
  ultimately show ?thesis
    using done2_run [OF inv c act] bg begun_grew [OF bg] by (auto simp: begun_def answered_def)
qed

lemma socket_read_cb_run:
  assumes inv: "engine_inv own tab p s" and c: "c \<in> set (busy_ctxs p)" and acc: "phase_of p c = Accepted"
  shows "\<exists>t x. socket_read_cb vm env bev (Some c) s = Some t \<and> grew s t
     \<and> (if \<not> startup_ok env then x = Accepted
        else if \<not> executes env then x = Idle \<and> files_run (wk t) = files_run (wk s)
        else x \<in> {Idle, Suspended}
          \<and> (calls_first vm env [prepend env, Some (primary env), append env] \<longrightarrow> x = Suspended
              \<and> first_call vm c [prepend env, Some (primary env), append env] s t \<and> requests (wk t) = requests (wk s)
              \<and> frame_gone (heap_alloca env) (old_cwd (cx c t)))
          \<and> (plain_run vm env [prepend env, Some (primary env), append env] \<longrightarrow> x = Idle
              \<and> files_run (wk t) = files_run (wk s) @ listed [prepend env, Some (primary env), append env]))
     \<and> (if x = Idle then engine_inv own tab (release c p) t \<and> answered own c s t
        else engine_inv own tab (move c x p) t)"
proof -
  let ?e = "own c"
  obtain q t where t: "read_prologue env bev (Some c) s = Some (Some q, t)" "act c ?e s t" "begun c ?e env s t"
    "server_context (globals t ?e) = Some q"
    using read_prologue_run [OF inv c] by blast
  note now = answer_now [OF inv c acc]
  have st: "q \<in> dom (reqs (wk t))" using t(3,4) by (auto simp: begun_def)
  have conn: "connected s c" using engine_invD(7) [OF inv c] acc by (simp add: phase_ok_def)
  have connt: "connected u c" if "act c ?e s u" "ctx_fd (cx c u) = ctx_fd (cx c s)" for u
    using conn that actD(3,9) [OF that(1)] by (auto simp: connected_def)
  consider (startup) "\<not> startup_ok env" | (early) "startup_ok env" "\<not> executes env" | (run) "executes env"
    by (auto simp: executes_def)
  then show ?thesis
  proof cases
    case startup
    obtain u where u: "fcgi_finish_conn (Some q) True t = Some u" "mild t u"
      using fcgi_finish_conn_run [OF st] by blast
    have Au: "act c ?e s u" using act_mild [OF t(2) u(2)] .
    let ?v = "set_G ?e (\<lambda>g. g\<lparr>server_context := NULL\<rparr>) u"
    have Av: "act c ?e s ?v" by (rule act_set_G [OF Au]) simp
    let ?w = "note_event Module_shutdown ?v"
    have Aw: "act c ?e s ?w" by (rule act_note [OF Av])
    have "ctx_fd (cx c ?w) = ctx_fd (cx c s)" "\<not> eg_exception (globals ?w ?e)" "sg_context (globals ?w ?e) = Some c"
      using mildD [OF u(2)] t(3) act_sg [OF Aw] by (simp_all add: begun_def)
    then have "engine_inv own tab (move c Accepted p) ?w"
      using acc connt [OF Aw] by (intro engine_inv_keep [OF inv c Aw]) (simp_all add: phase_ok_def)
    moreover have "socket_read_cb vm env bev (Some c) s = Some ?w"
      using startup t(1) u(1) by (simp add: socket_read_cb_def act_G_upd [OF Au])
    moreover have "grew s ?w" using begun_grew [OF t(3)] mildD(8) [OF u(2)] by simp
    ultimately show ?thesis using startup by (intro exI [of _ ?w] exI [of _ Accepted]) simp
  next
    case early
    define code where "code = (if \<not> has_path env then 404 else if ext_limited env then 403
        else if fopen_eacces env then 403 else (404 :: int))"
    define u where "u = (if \<not> has_method env \<or> status_page env then t else note_event (Response_code code) t)"
    have u: "socket_read_cb vm env bev (Some c) s = fastcgi_request_done2 u"
      using early t(1)
      by (cases "has_method env"; cases "status_page env"; cases "has_path env"; cases "ext_limited env";
          cases "fopen_ok env") (simp_all add: socket_read_cb_def executes_def u_def code_def)
    have "act c ?e s u" "begun c ?e env s u"
      using act_note [OF t(2)] begun_note [OF t(3)] t(2,3) by (simp_all add: u_def)
    note u = u this
    from now [OF u(2,3)] u(1) early show ?thesis by (auto intro!: exI [of _ Idle])
  next
    case run
    let ?t1 = "note_event Stage_executing t"
    have A1: "act c ?e s ?t1" by (rule act_note [OF t(2)])
    let ?t2 = "set_C c (\<lambda>c. c\<lparr>req_ptr := Some In_socket_read\<rparr>) ?t1"
    have A2: "act c ?e s ?t2" by (rule act_set_C [OF A1]) simp_all
    have b2: "begun c ?e env s ?t2" using begun_note [OF t(3), of Stage_executing] by (simp add: begun_def)
    then have pre: "serving ?e ?t2" "\<not> eg_exception (globals ?t2 ?e)" "req_ptr (cx c ?t2) = Some In_socket_read"
      by (auto simp: begun_def serving_def)
    obtain r u where u: "php_execute_script_coro vm env ?t2 = Some (r, u)" "act c ?e s u" "script_done vm env c ?e ?t2 r u"
      using php_execute_script_coro_run [OF A2 pre] by blast
    have rd: "socket_read_cb vm env bev (Some c) s = (if r = Yielded then Some u else fastcgi_request_done2 u)"
      using run t(1) u(1) act_sg [OF A1]
      by (simp add: socket_read_cb_def executes_def act_G_read [OF A1] act_ctx_write [OF A1])
    have kc: "keeps_conn c ?e ?t2 u" "\<not> eg_exception (globals u ?e)" using u(3) by (auto simp: script_done_def)
    have lv: "\<exists>q. server_context (globals u ?e) = Some q \<and> request (cx c u) = Some q \<and> q \<in> dom (reqs (wk u))"
      using kc(1) b2 by (auto simp: keeps_conn_def begun_def)
    have fd: "ctx_fd (cx c u) = ctx_fd (cx c s)" using kc(1) b2 by (simp add: keeps_conn_def begun_def)
    have so: "startup_ok env" using run by (simp add: executes_def)
    show ?thesis
    proof (cases "r = Yielded")
      case True
      have "waiting ?e u c" using u(3) True lv by (auto simp: script_done_def waiting_def)
      then have "engine_inv own tab (move c Suspended p) u"
        using acc connt [OF u(2) fd] kc(2) act_sg [OF u(2)]
        by (intro engine_inv_keep [OF inv c u(2)]) (simp_all add: phase_ok_def)
      moreover have "\<not> plain_run vm env [prepend env, Some (primary env), append env]"
        using u(3) True by (auto simp: script_done_def)
      moreover have "calls_first vm env [prepend env, Some (primary env), append env] \<longrightarrow>
          first_call vm c [prepend env, Some (primary env), append env] s u \<and> requests (wk u) = requests (wk s)
          \<and> frame_gone (heap_alloca env) (old_cwd (cx c u))"
        using u(3) b2 True by (auto simp: script_done_def first_call_def begun_def keeps_conn_def)
      moreover have "grew s u" using begun_grew [OF b2] kc(1) by (simp add: keeps_conn_def)
      ultimately show ?thesis using rd True run so by (intro exI [of _ u] exI [of _ Suspended]) simp
    next
      case False
      have sv: "serving ?e u" "\<exists>q. request (cx c u) = Some q \<and> q \<in> dom (reqs (wk u))"
        using lv by (auto simp: serving_def)
      obtain v where v: "fastcgi_request_done2 u = Some v" "engine_inv own tab (release c p) v"
        "requests (wk v) = requests (wk u) + 1" "max_requests (wk v) = max_requests (wk u)"
        "loopexit (wk v) = (loopexit (wk u) \<or> (max_requests (wk u) \<noteq> 0 \<and> requests (wk u) + 1 = max_requests (wk u)))"
        "files_run (wk v) = files_run (wk u)" "ctx_fd (cx c s) \<noteq> 0 \<longrightarrow> ctx_fd (cx c s) \<notin> open_fds (wk v)"
        "dom (reqs (wk v)) = dom (reqs (wk u))"
        using done2_run [OF inv c u(2) sv kc(2) fd] by blast
      have "answered own c s v"
        using v(3-5,7) kc(1) b2 conn by (simp add: answered_def keeps_conn_def begun_def connected_def)
      moreover have "\<not> calls_first vm env [prepend env, Some (primary env), append env]"
        using u(3) False by (auto simp: script_done_def)
      moreover have "plain_run vm env [prepend env, Some (primary env), append env] \<longrightarrow>
          files_run (wk v) = files_run (wk s) @ listed [prepend env, Some (primary env), append env]"
        using u(3) b2 v(6) by (auto simp: script_done_def begun_def)
      moreover have "grew s v" using begun_grew [OF b2] kc(1) v(8) by (simp add: keeps_conn_def)
      ultimately show ?thesis using rd False run so v(1,2) by (intro exI [of _ v] exI [of _ Idle]) simp
    qed
  qed
qed

text \<open>A new connection: the first free context is taken for it.\<close>

lemma engine_inv_open_fds [simp]:
  "engine_inv own tab p (s\<lparr>wk := (wk s)\<lparr>open_fds := fds\<rparr>\<rparr>) = engine_inv own tab p s"
  by (simp add: engine_inv_def pool_rep_def homes_def listener_ok_def bounded_def phase_ok_def connected_def
      waiting_def susp_def bev_of_def cx_def cong: phase.case_cong)

lemma pool_rep_data:
  assumes "pool_rep s ps us" and "pool t = pool s" "pool_end t = pool_end s" "use t = use s"
    "context_count t = context_count s"
    and "ctxs t = (ctxs s)(c \<mapsto> n)" "ctxs s c = Some m" "ctx_next n = ctx_next m" "ctx_prev n = ctx_prev m"
  shows "pool_rep t ps us"
proof -
  have "dpath ctx_next ctx_prev (ctxs t) pp x as q y = dpath ctx_next ctx_prev (ctxs s) pp x as q y" for pp x as q y
    by (rule dpath_cong) (use assms(6-9) in auto)
  then show ?thesis using assms(1-5) by (simp add: pool_rep_def)
qed

lemma do_accept_run:
  assumes inv0: "engine_inv own tab p s0" and free: "free_ctxs p = c # cs" and fd: "0 < fd"
  shows "\<exists>t. do_accept fd s0 = Some t
     \<and> engine_inv own tab (p\<lparr>free_ctxs := cs, busy_ctxs := c # busy_ctxs p, phase_of := (phase_of p)(c := Accepted)\<rparr>) t
     \<and> ctx_fd (cx c t) = fd \<and> requests (wk t) = requests (wk s0) \<and> reqs (wk t) = reqs (wk s0)
     \<and> op_arrays (wk t) = op_arrays (wk s0)"
proof -
  define s where "s = s0\<lparr>wk := (wk s0)\<lparr>open_fds := insert fd (open_fds (wk s0))\<rparr>\<rparr>"
  have inv: "engine_inv own tab p s" using inv0 by (simp add: s_def)
  note I = engine_invD [OF inv]
  let ?e = "own c"
  have dist: "distinct (free_ctxs p @ busy_ctxs p)" using engine_inv_distinct [OF inv] .
  have cd: "c \<in> dom (ctxs s)" using I(2) free by simp
  then obtain n where n: "ctxs s c = Some n" by blast
  have hm: "tsrm_tls_table (ts s) = Some tab" "0 \<le> ctx_thread_id n" "nat (ctx_thread_id n) < length tab"
    "tab ! nat (ctx_thread_id n) = Some ?e"
    using I(3) n by (auto simp: homes_def)
  have ids: "ids_ok s" using I(3) by (auto simp: ids_ok_def homes_def Map.ran_def)
  have rep: "pool_rep s (c # cs) (busy_ctxs p)" using I(1) free by simp
  obtain t where t: "use_coroutine_context s = Some (Some c, asser_event_stop t)"
     "pool_rep t cs (c # busy_ctxs p)" "same_data (ctxs s) (ctxs t)" "bevs t = bevs s"
     "globals t = globals s" "frames t = frames s" "wk t = wk s"
     "ts t = (ts s)\<lparr>force_thread_id := ctx_thread_id n, tls := Some ?e\<rparr>"
     "listener_added t = listener_added s" "listener_event_stop t = listener_event_stop s"
    using use_coroutine_context_full [OF rep ids n hm(1)] hm(3,4) by auto
  obtain m where m: "ctxs t c = Some m" "unlinked m = unlinked n"
    using same_dataD [OF t(3) n] .
  let ?u = "asser_event_stop t" and ?b = "next_obj (wk s)"
  let ?g = "(globals s ?e)\<lparr>sg_context := Some c, sapi_started := False\<rparr>"
  let ?m = "m\<lparr>ctx_fd := fd, ctx_bev := Some ?b\<rparr>"
  let ?t = "?u\<lparr>globals := (globals s)(?e := ?g), ctxs := (ctxs t)(c \<mapsto> ?m), bevs := (bevs s)(?b \<mapsto> fd),
     wk := (wk s)\<lparr>next_obj := Suc ?b\<rparr>\<rparr>"
  have run: "do_accept fd s0 = Some ?t"
    using fd t(1) t(4-8) m(1)
    by (simp add: do_accept_def s_def [symmetric] G_upd_def ctx_write_def fresh_def)
  have nb: "bevs s ?b = None" using I(5) by (simp add: bounded_def)
  have fresh_b: "bev_of p s a \<noteq> Some ?b" if "a \<in> set (busy_ctxs p)" for a
    using I(9) nb that by (auto simp: domIff)
  have oth: "others c ?e s ?t"
  proof -
    have "map_option unlinked (ctxs t a) = map_option unlinked (ctxs s a)" for a
      using t(3) by (simp add: same_data_def)
    moreover have "bounded ?t" using I(5) t(4,6) by (auto simp: bounded_def)
    ultimately show ?thesis using t(5-8) by (auto simp: others_def)
  qed
  have "engine_inv own tab \<lparr>free_ctxs = cs, busy_ctxs = c # busy_ctxs p, phase_of = (phase_of p)(c := Accepted)\<rparr> ?t"
  proof (rule engine_inv_change [OF inv oth cd])
    show "dom (ctxs ?t) = dom (ctxs s)" using same_data_dom [OF t(3)] m(1) by auto
    show "ctx_thread_id (cx c ?t) = ctx_thread_id (cx c s)"
      using unlinked_eqD(1) [OF m(2)] n by (simp add: cx_def)
    show "pool_rep ?t cs (c # busy_ctxs p)"
      by (rule pool_rep_data [where s = ?u and c = c and m = m and n = ?m]) (use t(2) m(1) in simp_all)
    show "listener_ok ?t"
      using I(4) t(2,9,10) I(1) free
      by (auto simp: listener_ok_def asser_event_stop_def pool_rep_def)
    show "\<not> eg_exception (globals ?t ?e)" using I(6) [OF cd] by simp
    show "phase_ok own Accepted ?t c" using fd by (simp add: phase_ok_def connected_def cx_def)
    show "bevs ?t b = bevs s b" if "a \<in> set (busy_ctxs p) - {c}" "bev_of p s a = Some b" for a b
      using fresh_b [of a] that by auto
    have "(\<exists>a \<in> set (busy_ctxs p) - {c}. bev_of p s a = Some b) \<longleftrightarrow> (\<exists>a \<in> set (busy_ctxs p). bev_of p s a = Some b)" for b
      using dist free by auto
    then show "dom (bevs ?t) = {b. \<exists>a \<in> set (busy_ctxs p) - {c}. bev_of p s a = Some b}
        \<union> {b. c \<in> set (c # busy_ctxs p) \<and> Accepted \<in> {Accepted, Suspended} \<and> ctx_bev (cx c ?t) = Some b}"
      using I(9) by (auto simp: cx_def)
    show "ctx_bev (cx c ?t) \<noteq> Some b" if "a \<in> set (busy_ctxs p) - {c}" "bev_of p s a = Some b" for a b
      using fresh_b [of a] that by (auto simp: cx_def)
  qed (use dist free in auto)
  then have "engine_inv own tab (p\<lparr>free_ctxs := cs, busy_ctxs := c # busy_ctxs p, phase_of := (phase_of p)(c := Accepted)\<rparr>) ?t"
    by (cases p) simp
  then show ?thesis using run by (intro exI [of _ ?t]) (simp add: cx_def s_def)
qed

text \<open>The client of a suspended request goes away.\<close>

lemma event_cb_run:
  assumes inv: "engine_inv own tab p s" and c: "c \<in> set (busy_ctxs p)" and sus: "phase_of p c = Suspended"
    and bev: "ctx_bev (cx c s) = Some b" and buf: "old_cwd (cx c s) \<noteq> Cwd_dead"
  shows "\<exists>t. event_cb (Some b) (Some c) s = Some t \<and> engine_inv own tab (move c Orphaned p) t
     \<and> requests (wk t) = requests (wk s) + 1 \<and> b \<notin> dom (bevs t)
     \<and> (\<forall>op. op_arrays (wk t) op \<noteq> Some (own c)) \<and> ctx_fd (cx c s) \<notin> open_fds (wk t)"
proof -
  note I = engine_invD [OF inv]
  let ?e = "own c"
  have ph: "connected s c" "waiting ?e s c" using I(7) [OF c] sus by (simp_all add: phase_ok_def)
  have bs: "bevs s b = Some (ctx_fd (cx c s))" using ph(1) bev by (simp add: connected_def)
  obtain a fr op q where w: "op_array (cx c s) = Some op" "op_arrays (wk s) op = Some ?e"
    "request (cx c s) = Some q" "server_context (globals s ?e) = Some q" "q \<in> dom (reqs (wk s))"
    "\<not> eg_exception (globals s ?e)"
    using ph(2) by (auto simp: waiting_def susp_def)
  obtain d where d: "old_cwd (cx c s) = Cwd_live True d"
    using ph(2) buf by (auto simp: waiting_def frame_gone_def split: if_splits)
  obtain u where u: "checkout_coroutine_context (Some c) s = Some u" "act c ?e s u" "globals u = globals s"
    "ctxs u = ctxs s" "frames u = frames s" "wk u = wk s" "bevs u = bevs s"
    using checkout_run [OF inv c] by blast
  have cxu: "cx c u = cx c s" using u(4) by (simp add: cx_def)
  let ?u1 = "set_C c (\<lambda>c. c\<lparr>ctx_fd := 0\<rparr>) u"
  have A1: "act c ?e s ?u1" by (rule act_set_C [OF u(2)]) simp_all
  let ?u2 = "W_upd (\<lambda>w. w\<lparr>op_arrays := (op_arrays w)(op := None)\<rparr>) ?u1"
  have A2: "act c ?e s ?u2"
    using actD(7) [OF A1] w(2) u(6) by (intro act_op_arrays [OF A1]) (auto simp: bounded_def)
  let ?g2 = "set_G ?e (\<lambda>g. g\<lparr>cwd := (if d \<noteq> [] then d else cwd g)\<rparr>) ?u2"
  let ?u3 = "set_C c (\<lambda>c. c\<lparr>old_cwd := (if True then Cwd_dead else old_cwd c)\<rparr>) ?g2"
  have G2: "act c ?e s ?g2" by (rule act_set_G [OF A2]) simp
  have A3: "act c ?e s ?u3" by (rule act_set_C [OF G2]) simp_all
  have "old_cwd (cx c ?u2) = Cwd_live True d" using d cxu by (simp add: cx_def)
  note fr = free_old_cwd_run [OF A2 this]
  have sv: "serving ?e ?u3" "\<exists>q. request (cx c ?u3) = Some q \<and> q \<in> dom (reqs (wk ?u3))"
    using w(3-5) u(3,4,6) by (simp_all add: serving_def cx_def)
  obtain b' v where v: "close_request ?u3 = Some (b', v)" "act c ?e s v" "shut c ?e ?u3 v"
    using close_request_run [OF A3 sv] by blast
  let ?t = "close_fd (ctx_fd (cx c s)) (v\<lparr>bevs := (bevs v)(b := None)\<rparr>)"
  have bv: "bevs v b = Some (ctx_fd (cx c s))" using actD(3) [OF v(2)] bs by simp
  have "event_cb (Some b) (Some c) s = Some ?t"
    using u(1) act_ctx_write [OF u(2)] act_ctx_read [OF A1] w(1,2) u(6) fr v(1) bv cxu
    by (simp add: event_cb_def destroy_op_array_def bufferevent_free_def domI)
  moreover have "engine_inv own tab (move c Orphaned p) ?t"
  proof -
    note A = actD [OF v(2)]
    have cxt: "cx c ?t = cx c v" by (simp add: cx_def)
    have "others c ?e v ?t"
      by (auto simp: others_def bounded_def)
    then have oth: "others c ?e s ?t" using others_trans [OF A(1)] by blast
    have cv: "ctx_fd (cx c v) = 0" "ctx_bev (cx c v) = Some b"
      using v(3) A(9) bev by (simp_all add: shut_def cx_def)
    have bc: "bev_of p s c = Some b" using sus bev by (simp add: bev_of_def)
    have notc: "bev_of p s a \<noteq> Some b" if "a \<in> set (busy_ctxs p) - {c}" for a
      using that I(10) [of a c b] c bc by auto
    have "(\<exists>a \<in> set (busy_ctxs p). bev_of p s a = Some x) \<longleftrightarrow>
        (\<exists>a \<in> set (busy_ctxs p) - {c}. bev_of p s a = Some x) \<or> x = b" for x
      using c bc by auto
    then have bd: "dom (bevs ?t) = {x. \<exists>a \<in> set (busy_ctxs p) - {c}. bev_of p s a = Some x}"
      using I(9) A(3) notc by auto
    have "engine_inv own tab \<lparr>free_ctxs = free_ctxs p, busy_ctxs = busy_ctxs p, phase_of = (phase_of p)(c := Orphaned)\<rparr> ?t"
    proof (rule engine_inv_change [OF inv oth])
      show "pool_rep ?t (free_ctxs p) (busy_ctxs p)"
      proof -
        have "pool_rep ?t ps us = pool_rep v ps us" for ps us by (simp add: pool_rep_def close_fd_def)
        then show ?thesis using pool_rep_same_lists [OF A(2)] I(1) by simp
      qed
      show "listener_ok ?t" using listener_ok_same_lists [OF A(2)] I(4) by (simp add: listener_ok_def close_fd_def)
      show "dom (ctxs ?t) = dom (ctxs s)" using same_lists_dom [OF A(2)] by simp
      show "\<not> eg_exception (globals ?t ?e)" using v(3) w(6) u(3) by (simp add: shut_def)
      show "phase_ok own Orphaned ?t c" using A(6) cv cxt by (simp add: phase_ok_def)
      show "bevs ?t x = bevs s x" if "a \<in> set (busy_ctxs p) - {c}" "bev_of p s a = Some x" for a x
        using notc [OF that(1)] that(2) A(3) by auto
    qed (use c I(2) engine_inv_distinct [OF inv] A(8) bd cxt in auto)
    then show ?thesis by (cases p) simp
  qed
  ultimately show ?thesis using v(3) u(6) by (intro exI [of _ ?t]) (simp add: shut_def)
qed

text \<open>In a build that takes the buffer from the stack, it is dead by then.\<close>

lemma event_cb_dead:
  assumes inv: "engine_inv own tab p s" and c: "c \<in> set (busy_ctxs p)" and buf: "old_cwd (cx c s) = Cwd_dead"
  shows "event_cb bev (Some c) s = None"
proof -
  obtain u where u: "checkout_coroutine_context (Some c) s = Some u" "act c (own c) s u" "ctxs u = ctxs s"
    using checkout_run [OF inv c] by blast
  let ?u1 = "set_C c (\<lambda>c. c\<lparr>ctx_fd := 0\<rparr>) u"
  have A1: "act c (own c) s ?u1" by (rule act_set_C [OF u(2)]) simp_all
  have "ctx_read (Some c) t = ctx_read (Some c) ?u1" if "destroy_op_array op ?u1 = Some t" for op t
    using that by (auto simp: destroy_op_array_def ctx_read_def split: bind_splits if_splits)
  moreover have "old_cwd (cx c u) = Cwd_dead" using u(3) buf by (simp add: cx_def)
  ultimately show ?thesis
    using u(1) act_ctx_write [OF u(2)] act_ctx_read [OF A1]
    by (auto simp: event_cb_def free_old_cwd_def split: bind_split)
qed

text \<open>A client that goes away while no script of its context is live.\<close>

lemma event_cb_no_script:
  assumes inv: "engine_inv own tab p s" and c: "c \<in> set (busy_ctxs p)"
    and no: "\<forall>op. op_array (cx c s) = Some op \<longrightarrow> op \<notin> dom (op_arrays (wk s))"
  shows "event_cb bev (Some c) s = None"
proof -
  obtain u where u: "checkout_coroutine_context (Some c) s = Some u" "act c (own c) s u" "wk u = wk s" "ctxs u = ctxs s"
    using checkout_run [OF inv c] by blast
  have A: "act c (own c) s (set_C c (\<lambda>c. c\<lparr>ctx_fd := 0\<rparr>) u)" by (rule act_set_C [OF u(2)]) simp_all
  have "cx c u = cx c s" using u(4) by (simp add: cx_def)
  then show ?thesis
    using u(1) act_ctx_write [OF u(2)] act_ctx_read [OF A] no u(3)
    by (cases "op_array (cx c s)") (auto simp: event_cb_def destroy_op_array_def)
qed

lemma resume_stop_suspended:
  assumes "engine_inv own tab p s" and "c \<in> set (busy_ctxs p)" and "phase_of p c = Suspended"
  shows "resume_stop vm c s \<noteq> None"
proof -
  have "susp c (own c) s"
    using engine_invD(7) [OF assms(1,2)] assms(3) by (simp add: phase_ok_def waiting_def)
  then show ?thesis by (auto simp: susp_def resume_stop_def)
qed

text \<open>
  What resuming does to an orphaned context: it gives it back. No callback gets there, since the memory of
  the call it waited for has gone with its request (theory \<open>Coro_Http_Properties\<close>).
\<close>

lemma orphan_answer_run:
  assumes inv: "engine_inv own tab p s" and c: "c \<in> set (busy_ctxs p)" and orph: "phase_of p c = Orphaned"
  shows "\<exists>t. remote_answer vm (Some c) s = Some t \<and> engine_inv own tab (release c p) t
     \<and> requests (wk t) = requests (wk s) \<and> bevs t = bevs s"
proof -
  note I = engine_invD [OF inv]
  obtain u where u: "checkout_coroutine_context (Some c) s = Some u" "act c (own c) s u" "globals u = globals s"
    "ctxs u = ctxs s" "frames u = frames s" "wk u = wk s" "bevs u = bevs s"
    using checkout_run [OF inv c] by blast
  have cxu: "cx c u = cx c s" using u(4) by (simp add: cx_def)
  have fd: "ctx_fd (cx c s) = 0" using I(7) [OF c] orph by (simp add: phase_ok_def)
  have ex: "\<not> eg_exception (globals u (own c))" using I(2,6) c u(3) by (metis UnCI)
  obtain t where t: "free_coroutine_context (Some c) u = Some t" "engine_inv own tab (release c p) t"
     "requests (wk t) = requests (wk u)" "bevs t = bevs s"
    using engine_inv_release [OF inv c u(2) ex] cxu fd by auto
  have "remote_answer vm (Some c) s = Some t"
    using u(1) t(1) act_G_read [OF u(2)] act_sg [OF u(2)] act_ctx_read [OF u(2)] cxu fd
    by (simp add: remote_answer_def resume_coroutine_context_def)
  then show ?thesis using t u(6) by auto
qed

text \<open>Resuming up to the point where the machine has stopped, and what follows.\<close>

definition resume_tail :: "nat \<Rightarrow> unit outcome \<times> engine \<Rightarrow> engine option" where
  "resume_tail c rs = (let (r, s) = rs in case r of
         Yielded \<Rightarrow> Some s
       | Bailed \<Rightarrow> zend_bailout s
       | Returned _ \<Rightarrow> do {
           x \<leftarrow> ctx_read (Some c) s;
           s \<leftarrow> destroy_op_array (op_array x) s;
           s \<leftarrow> free_old_cwd (Some c) s;
           (_, s) \<leftarrow> close_request s;
           g \<leftarrow> G_read s;
           free_coroutine_context (sg_context g) s
         })"

definition stopped_at :: "vm \<Rightarrow> nat \<Rightarrow> nat \<Rightarrow> engine \<Rightarrow> stop \<Rightarrow> unit outcome \<Rightarrow> engine \<Rightarrow> bool" where
  "stopped_at vm c e s st r t \<longleftrightarrow> act c e s t \<and> (\<exists>q. request (cx c t) = Some q
       \<and> server_context (globals t e) = Some q \<and> q \<in> dom (reqs (wk t)))
     \<and> (\<exists>a fr op. prev_execute_data (cx c s) = Some a \<and> frame_owner fr = e \<and> func fr = Some op
          \<and> op_array (cx c t) = Some op \<and> op_arrays (wk t) op = Some e \<and> frame_ran vm c e a fr op r t
          \<and> st = snd (snd (vm op (opline fr))))
     \<and> old_cwd (cx c t) = old_cwd (cx c s) \<and> eg_bailout (globals t e) = Dead_frame
     \<and> ctx_fd (cx c t) = ctx_fd (cx c s) \<and> ctx_fd (cx c s) \<noteq> 0
     \<and> requests (wk t) = requests (wk s) \<and> loopexit (wk t) = loopexit (wk s)
     \<and> files_run (wk t) = files_run (wk s)"

lemma suspended_answer_start:
  assumes inv: "engine_inv own tab p s" and c: "c \<in> set (busy_ctxs p)" and sus: "phase_of p c = Suspended"
    and stop: "resume_stop vm c s = Some st"
  shows "\<exists>r t. stopped_at vm c (own c) s st r t \<and> remote_answer vm (Some c) s =
     Option.bind (and_then (Some (r, t)) (\<lambda>_ s. fatal_exception s)) (resume_tail c)"
proof -
  note I = engine_invD [OF inv]
  let ?e = "own c"
  have ph: "connected s c" "waiting ?e s c" using I(7) [OF c] sus by (simp_all add: phase_ok_def)
  obtain a fr op q where w: "prev_execute_data (cx c s) = Some a" "frames s a = Some fr" "frame_owner fr = ?e"
    "func fr = Some op" "op_array (cx c s) = Some op" "op_arrays (wk s) op = Some ?e"
    "request (cx c s) = Some q" "server_context (globals s ?e) = Some q" "q \<in> dom (reqs (wk s))"
    "\<not> eg_exception (globals s ?e)" "eg_bailout (globals s ?e) = Dead_frame"
    using ph(2) unfolding waiting_def susp_def by blast
  have st: "st = snd (snd (vm op (Suc (opline fr))))" using stop w(1,2,4) by (simp add: resume_stop_def)
  have fd: "ctx_fd (cx c s) \<noteq> 0" using ph(1) by (simp add: connected_def)
  obtain u where u: "checkout_coroutine_context (Some c) s = Some u" "act c ?e s u" "globals u = globals s"
    "ctxs u = ctxs s" "frames u = frames s" "wk u = wk s" "bevs u = bevs s"
    using checkout_run [OF inv c] by blast
  have cxu: "cx c u = cx c s" using u(4) by (simp add: cx_def)
  let ?u1 = "set_C c (\<lambda>c. c\<lparr>buf_ptr := Some In_resume\<rparr>) u"
  have A1: "act c ?e s ?u1" by (rule act_set_C [OF u(2)]) simp_all
  let ?u2 = "set_G ?e (\<lambda>g. g\<lparr>server_context := Some q\<rparr>) ?u1"
  have A2: "act c ?e s ?u2" by (rule act_set_G [OF A1]) simp
  define u3 where "u3 = note_event Stage_executing ?u2"
  have m3: "mild ?u2 u3" unfolding u3_def by (rule mild_note) simp
  have A3: "act c ?e s u3" using act_mild [OF A2 m3] .
  note M3 = mildD [OF m3]
  let ?u4 = "set_G ?e (\<lambda>g. g\<lparr>current_execute_data := Some a\<rparr>) u3"
  have A4: "act c ?e s ?u4" by (rule act_set_G [OF A3]) simp
  let ?f = "fr\<lparr>opline := Suc (opline fr)\<rparr>"
  let ?u5 = "?u4\<lparr>frames := (frames s)(a \<mapsto> ?f)\<rparr>"
  have A5: "act c ?e s ?u5"
    using actD(7) [OF A4] w(2,3) u(5) M3(3,10) u(6) by (intro act_frames [OF A4]) (auto simp: bounded_def)
  have cx5: "cx c ?u5 = (cx c s)\<lparr>buf_ptr := Some In_resume\<rparr>"
    using M3(2) cxu by (simp add: cx_def set_C_def)
  have f5: "frames ?u5 a = Some ?f" "op \<in> dom (op_arrays (wk ?u5))"
    "server_context (globals ?u5 ?e) = Some q" "q \<in> dom (reqs (wk ?u5))" "\<not> eg_exception (globals ?u5 ?e)"
    using M3 u w by (simp_all add: domI)
  obtain r t where t: "run_frame vm (Some a) ?u5 = Some (r, t)" "act c ?e s t" "keeps c ?e ?u5 t"
    "frame_ran vm c ?e a ?f op r t"
    using run_frame_run [OF A5 f5(1) _ _ f5(2-5), of vm] w(3,4) by auto
  have res: "remote_answer vm (Some c) s =
      Option.bind (and_then (run_frame vm (Some a) ?u5) (\<lambda>_ s. fatal_exception s)) (resume_tail c)"
    using u(1) act_G_read [OF u(2)] act_sg [OF u(2)] act_ctx_read [OF u(2)] cxu fd
      act_ctx_write [OF u(2)] act_G_upd [OF A1] act_G_upd [OF A3] w(1,2,7) M3(3) u(5)
    by (simp add: remote_answer_def resume_coroutine_context_def init_request_def u3_def [symmetric]
        resume_tail_def [abs_def] case_prod_unfold Let_def cong: outcome.case_cong)
  have kc: "request (cx c t) = Some q" "server_context (globals t ?e) = Some q" "q \<in> dom (reqs (wk t))"
    "op_array (cx c t) = Some op" "op_arrays (wk t) op = Some ?e" "old_cwd (cx c t) = old_cwd (cx c s)"
    "eg_bailout (globals t ?e) = Dead_frame" "ctx_fd (cx c t) = ctx_fd (cx c s)"
    "requests (wk t) = requests (wk s)" "loopexit (wk t) = loopexit (wk s)" "files_run (wk t) = files_run (wk s)"
    using t(3) cx5 f5 w M3 u(3,6) by (simp_all add: keeps_def)
  have "stopped_at vm c ?e s st r t"
    unfolding stopped_at_def
  proof (intro conjI)
    show "\<exists>q. request (cx c t) = Some q \<and> server_context (globals t ?e) = Some q \<and> q \<in> dom (reqs (wk t))"
      using kc by blast
    show "\<exists>a fr op. prev_execute_data (cx c s) = Some a \<and> frame_owner fr = ?e \<and> func fr = Some op
          \<and> op_array (cx c t) = Some op \<and> op_arrays (wk t) op = Some ?e \<and> frame_ran vm c ?e a fr op r t
          \<and> st = snd (snd (vm op (opline fr)))"
      using w(1,3,4) kc(4,5) t(4) st by (intro exI [of _ a] exI [of _ ?f] exI [of _ op]) simp
  qed (use t(2) kc fd in simp_all)
  then show ?thesis using res t(1) by auto
qed

lemma suspended_answer_run:
  assumes inv: "engine_inv own tab p s" and c: "c \<in> set (busy_ctxs p)" and sus: "phase_of p c = Suspended"
    and stop: "resume_stop vm c s = Some st" "st \<in> {Script_end, Remote_call}"
    and buf: "st = Script_end \<Longrightarrow> old_cwd (cx c s) \<noteq> Cwd_dead"
  shows "\<exists>t. remote_answer vm (Some c) s = Some t \<and> files_run (wk t) = files_run (wk s)
     \<and> (if st = Script_end
        then engine_inv own tab (release c p) t \<and> requests (wk t) = requests (wk s) + 1
          \<and> ctx_fd (cx c s) \<notin> open_fds (wk t)
        else engine_inv own tab p t \<and> requests (wk t) = requests (wk s))
     \<and> loopexit (wk t) = loopexit (wk s)"
proof -
  let ?e = "own c"
  have ph: "connected s c" "waiting ?e s c" using engine_invD(7) [OF inv c] sus by (simp_all add: phase_ok_def)
  obtain r t where at: "stopped_at vm c ?e s st r t" and res: "remote_answer vm (Some c) s =
     Option.bind (and_then (Some (r, t)) (\<lambda>_ s. fatal_exception s)) (resume_tail c)"
    using suspended_answer_start [OF inv c sus stop(1)] by blast
  have A: "act c ?e s t" using at by (simp add: stopped_at_def)
  obtain q where q: "request (cx c t) = Some q" "server_context (globals t ?e) = Some q" "q \<in> dom (reqs (wk t))"
    using at unfolding stopped_at_def by blast
  obtain a fr op where fr: "prev_execute_data (cx c s) = Some a" "frame_owner fr = ?e" "func fr = Some op"
    "op_array (cx c t) = Some op" "op_arrays (wk t) op = Some ?e" "frame_ran vm c ?e a fr op r t"
    "st = snd (snd (vm op (opline fr)))"
    using at unfolding stopped_at_def by blast
  have kc: "old_cwd (cx c t) = old_cwd (cx c s)" "eg_bailout (globals t ?e) = Dead_frame"
    "ctx_fd (cx c t) = ctx_fd (cx c s)" "ctx_fd (cx c s) \<noteq> 0" "requests (wk t) = requests (wk s)"
    "loopexit (wk t) = loopexit (wk s)" "files_run (wk t) = files_run (wk s)"
    using at by (simp_all add: stopped_at_def)
  show ?thesis
  proof (cases "st = Script_end")
    case False
    then have s1: "r = Yielded" "\<not> eg_exception (globals t ?e)" "prev_execute_data (cx c t) = Some a"
      using fr(6,7) stop(2) by (auto simp: frame_ran_def)
    moreover have "frames t a = Some (fr\<lparr>opline := fst (vm op (opline fr))\<rparr>)" using fr(6) by (simp add: frame_ran_def)
    ultimately have "waiting ?e t c"
      using kc q fr ph(2) by (simp add: waiting_def susp_def)
    moreover have "connected t c"
      using ph(1) actD(3,9) [OF A] kc(3) by (auto simp: connected_def)
    ultimately have "engine_inv own tab (move c Suspended p) t"
      using sus s1(2) act_sg [OF A] by (intro engine_inv_keep [OF inv c A]) (simp_all add: phase_ok_def)
    moreover have "move c Suspended p = p" using sus by (cases p) (auto simp: fun_eq_iff)
    moreover have "remote_answer vm (Some c) s = Some t"
      using res s1(1) by (simp add: and_then_def resume_tail_def)
    ultimately show ?thesis using False kc by simp
  next
    case True
    then have s1: "r = Returned ()" "\<not> eg_exception (globals t ?e)"
      using fr(6,7) by (auto simp: frame_ran_def)
    let ?t1 = "W_upd (\<lambda>w. w\<lparr>op_arrays := (op_arrays w)(op := None)\<rparr>) t"
    have B1: "act c ?e s ?t1"
      using actD(7) [OF A] fr(5) by (intro act_op_arrays [OF A]) (auto simp: bounded_def)
    obtain d where "old_cwd (cx c s) = Cwd_live True d"
      using ph(2) buf [OF True] by (auto simp: waiting_def frame_gone_def split: if_splits)
    then have "old_cwd (cx c ?t1) = Cwd_live True d" using kc(1) by (simp add: cx_def)
    note d = free_old_cwd_run [OF B1 this]
    let ?g2 = "set_G ?e (\<lambda>g. g\<lparr>cwd := (if d \<noteq> [] then d else cwd g)\<rparr>) ?t1"
    let ?t2 = "set_C c (\<lambda>c. c\<lparr>old_cwd := (if True then Cwd_dead else old_cwd c)\<rparr>) ?g2"
    have G2: "act c ?e s ?g2" by (rule act_set_G [OF B1]) simp
    have B2: "act c ?e s ?t2" by (rule act_set_C [OF G2]) simp_all
    have cx2: "cx c ?t2 = (cx c t)\<lparr>old_cwd := Cwd_dead\<rparr>" by (simp add: cx_def)
    have sv: "serving ?e ?t2" "\<exists>q. request (cx c ?t2) = Some q \<and> q \<in> dom (reqs (wk ?t2))"
      using q cx2 by (simp_all add: serving_def)
    obtain b v where v: "close_request ?t2 = Some (b, v)" "act c ?e s v" "shut c ?e ?t2 v"
      using close_request_run [OF B2 sv] by blast
    have exv: "\<not> eg_exception (globals v ?e)" "ctx_fd (cx c v) = ctx_fd (cx c s)"
      using v(3) s1(2) kc(3) cx2 by (simp_all add: shut_def)
    obtain x where x: "free_coroutine_context (Some c) v = Some x" "engine_inv own tab (release c p) x"
      "requests (wk x) = requests (wk v)" "loopexit (wk x) = loopexit (wk v)" "trace (wk x) = trace (wk v)"
      "open_fds (wk x) = (if ctx_fd (cx c s) = 0 then open_fds (wk v) else open_fds (wk v) - {ctx_fd (cx c s)})"
      using engine_inv_release [OF inv c v(2) exv] by blast
    have "remote_answer vm (Some c) s = Some x"
      using res s1 fatal_exception_run [OF A] act_ctx_read [OF A] kc(1) fr(4,5) d v(1) x(1)
        act_G_read [OF v(2)] act_sg [OF v(2)]
      by (simp add: and_then_def destroy_op_array_def domI resume_tail_def)
    moreover have "files_run (wk x) = files_run (wk s)" "requests (wk x) = requests (wk s) + 1"
      "loopexit (wk x) = loopexit (wk s)"
      using x(3-5) v(3) kc(5-7) by (simp_all add: shut_def files_run_def)
    ultimately show ?thesis using True x(2,6) kc(4) by simp
  qed
qed

text \<open>In a build that takes the buffer from the stack, a resumed script cannot end either.\<close>

lemma suspended_answer_dead:
  assumes inv: "engine_inv own tab p s" and c: "c \<in> set (busy_ctxs p)" and sus: "phase_of p c = Suspended"
    and stop: "resume_stop vm c s = Some Script_end" and buf: "old_cwd (cx c s) = Cwd_dead"
  shows "remote_answer vm (Some c) s = None"
proof -
  obtain r t where at: "stopped_at vm c (own c) s Script_end r t" and res: "remote_answer vm (Some c) s =
     Option.bind (and_then (Some (r, t)) (\<lambda>_ s. fatal_exception s)) (resume_tail c)"
    using suspended_answer_start [OF inv c sus stop] by blast
  have A: "act c (own c) s t" and bo: "old_cwd (cx c t) = Cwd_dead"
    using at buf by (simp_all add: stopped_at_def)
  obtain a fr op where fr: "frame_ran vm c (own c) a fr op r t" "Script_end = snd (snd (vm op (opline fr)))"
    "op_array (cx c t) = Some op" "op_arrays (wk t) op = Some (own c)"
    using at unfolding stopped_at_def by blast
  then have s1: "r = Returned ()" "\<not> eg_exception (globals t (own c))" by (auto simp: frame_ran_def)
  let ?t1 = "W_upd (\<lambda>w. w\<lparr>op_arrays := (op_arrays w)(op := None)\<rparr>) t"
  have B1: "act c (own c) s ?t1"
    using actD(7) [OF A] fr(4) by (intro act_op_arrays [OF A]) (auto simp: bounded_def)
  have "old_cwd (cx c ?t1) = Cwd_dead" using bo by (simp add: cx_def)
  then show ?thesis
    using res s1 fatal_exception_run [OF A] act_ctx_read [OF A] fr(3,4) free_old_cwd_dead [OF B1]
    by (simp add: and_then_def destroy_op_array_def domI resume_tail_def)
qed

text \<open>A script that dies after it has been resumed: the jump goes to a frame that is no more.\<close>

lemma suspended_answer_dies:
  assumes inv: "engine_inv own tab p s" and c: "c \<in> set (busy_ctxs p)" and sus: "phase_of p c = Suspended"
    and stop: "resume_stop vm c s = Some st" "st \<in> {Uncaught, Bail}"
  shows "remote_answer vm (Some c) s = None"
proof -
  obtain r t where at: "stopped_at vm c (own c) s st r t" and res: "remote_answer vm (Some c) s =
     Option.bind (and_then (Some (r, t)) (\<lambda>_ s. fatal_exception s)) (resume_tail c)"
    using suspended_answer_start [OF inv c sus stop(1)] by blast
  have A: "act c (own c) s t" and bo: "eg_bailout (globals t (own c)) = Dead_frame"
    using at by (simp_all add: stopped_at_def)
  obtain a fr op where fr: "frame_ran vm c (own c) a fr op r t" "st = snd (snd (vm op (opline fr)))"
    using at unfolding stopped_at_def by blast
  let ?u = "set_G (own c) (\<lambda>g. g\<lparr>eg_exception := False, exit_status := 255\<rparr>) t"
  have Au: "act c (own c) s ?u" by (rule act_set_G [OF A]) simp
  show ?thesis
  proof (cases "st = Bail")
    case True
    then have "r = Bailed" using fr by (simp add: frame_ran_def)
    then show ?thesis using res bo act_G_read [OF A] by (simp add: and_then_def resume_tail_def zend_bailout_def)
  next
    case False
    then have "r = Returned ()" "eg_exception (globals t (own c))"
      using fr stop(2) by (auto simp: frame_ran_def)
    then show ?thesis using res bo act_G_read [OF Au] fatal_exception_run [OF A]
      by (simp add: and_then_def resume_tail_def zend_bailout_def)
  qed
qed

end
