(* ===== verification/Coro_Loop.thy ===== *)
theory Coro_Loop
  imports Coro_Invariant
begin

text \<open>
  The event loop: the engine after \<open>main\<close> has brought it up, the events libevent may deliver, and
  the states they lead to. The protocol state next to the engine records, for every context, what
  its peers may still send.
\<close>

section \<open>Coming up\<close>

text \<open>Nothing has happened in the process yet.\<close>

definition pristine :: "engine \<Rightarrow> bool" where
  "pristine s \<longleftrightarrow> ctxs s = Map.empty \<and> bevs s = Map.empty \<and> frames s = Map.empty
     \<and> op_arrays (wk s) = Map.empty \<and> reqs (wk s) = Map.empty \<and> \<not> listener_event_stop s
     \<and> (\<forall>e. \<not> eg_exception (globals s e)) \<and> dom (blocks (ts s)) \<subseteq> {..<brk (ts s)}"

definition boot_round :: "nat \<Rightarrow> nat \<Rightarrow> ptr list \<Rightarrow> nat \<Rightarrow> engine \<Rightarrow> bool" where
  "boot_round n b tab k s \<longleftrightarrow>
     pool_rep s (rev [b..<b + k]) [] \<and> dom (ctxs s) = {b..<b + k}
     \<and> (\<forall>i < k. ctx_thread_id (cx (b + i) s) = int i) \<and> tsrm_tls_table (ts s) = Some tab
     \<and> next_obj (wk s) = b + k \<and> bevs s = Map.empty \<and> frames s = Map.empty
     \<and> op_arrays (wk s) = Map.empty \<and> reqs (wk s) = Map.empty \<and> \<not> listener_event_stop s
     \<and> (\<forall>e. \<not> eg_exception (globals s e))"

lemma boot_round_step:
  assumes P: "boot_round n b tab k s" and k: "k < n" and tab: "length tab = n" "\<forall>i < n. tab ! i \<noteq> NULL"
  shows "\<exists>t. init_coroutine blk k s = Some t \<and> boot_round n b tab (Suc k) t"
proof -
  note R = P [unfolded boot_round_def]
  obtain e where e: "tab ! k = Some e" using tab(2) k by auto
  let ?ts = "(ts s)\<lparr>force_thread_id := int k, tls := Some e\<rparr>"
  have en: "enter_coroutine (int k) (ts s) = Some ?ts"
    using enter_coroutine_any [of "ts s" tab "int k"] R k tab(1) e by simp
  let ?s = "s\<lparr>ts := ?ts, globals := (globals s)(e := (globals s e)\<lparr>sg_context := NULL\<rparr>),
     wk := (wk s)\<lparr>next_obj := Suc (b + k)\<rparr>\<rparr>"
  have "pool_rep ?s (rev [b..<b + k]) []" using R by (simp add: pool_rep_def)
  from init_coroutine_context_rep [OF this, of "b + k" "int k" "blk k"] obtain t where
    t: "init_coroutine_context (int k) (b + k) (blk k) ?s = Some t" "pool_rep t ((b + k) # rev [b..<b + k]) []"
      "\<exists>n. ctxs t (b + k) = Some n \<and> ctx_thread_id n = int k"
      "\<forall>x. x \<noteq> b + k \<longrightarrow> map_option unlinked (ctxs t x) = map_option unlinked (ctxs ?s x)"
      "ts t = ts ?s" "bevs t = bevs ?s" "listener_event_stop t = listener_event_stop ?s"
      "globals t = globals ?s" "frames t = frames ?s" "wk t = wk ?s"
    by auto
  have run: "init_coroutine blk k s = Some t"
    using en t(1) R by (simp add: init_coroutine_def init_coroutine_info_def G_upd_def fresh_def)
  have old: "map_option unlinked (ctxs t x) = map_option unlinked (ctxs s x)" if "x \<noteq> b + k" for x
    using t(4) that by simp
  have "dom (ctxs t) = {b..<b + Suc k}"
  proof -
    have "x \<in> dom (ctxs t) \<longleftrightarrow> x \<in> dom (ctxs s)" if "x \<noteq> b + k" for x
      using old [OF that] by (auto simp: dom_def) (metis map_option_eq_Some option.distinct(1) option.map(1))+
    moreover have "b + k \<in> dom (ctxs t)" using t(3) by blast
    ultimately have "dom (ctxs t) = insert (b + k) (dom (ctxs s))" by (intro set_eqI) (metis insert_iff)
    moreover have "dom (ctxs s) = {b..<b + k}" using R by simp
    ultimately show ?thesis by (simp only:) (auto simp: less_Suc_eq)
  qed
  moreover have "ctx_thread_id (cx (b + i) t) = int i" if "i < Suc k" for i
  proof (cases "i = k")
    case True
    then show ?thesis using t(3) by (auto simp: cx_def)
  next
    case False
    then have ik: "i < k" using that by simp
    then have "b + i \<in> dom (ctxs s)" using R by simp
    then obtain n where n: "ctxs s (b + i) = Some n" by blast
    with old [of "b + i"] False obtain m where "ctxs t (b + i) = Some m" "unlinked m = unlinked n" by auto
    then show ?thesis using R ik n unlinked_eqD(1) [of m n] by (auto simp: cx_def)
  qed
  ultimately have "boot_round n b tab (Suc k) t"
    using R t by (simp add: boot_round_def)
  then show ?thesis using run by blast
qed

text \<open>The entry of a context booted at \<open>b + i\<close>.\<close>

definition boot_own :: "nat \<Rightarrow> nat \<Rightarrow> nat \<Rightarrow> nat" where
  "boot_own b base a = base + (a - b)"

lemma engine_boot_run:
  assumes n: "0 < n" "int n \<le> 2 ^ 64" and pr: "pristine s"
  shows "\<exists>t tab. engine_boot n blk s = Some t
     \<and> engine_inv (boot_own (next_obj (wk s)) (brk (ts s))) tab
         \<lparr>free_ctxs = rev [next_obj (wk s)..<next_obj (wk s) + n], busy_ctxs = [], phase_of = (\<lambda>_. Idle)\<rparr> t
     \<and> listener_added t \<and> op_arrays (wk t) = Map.empty"
proof -
  let ?b = "next_obj (wk s)" and ?base = "brk (ts s)"
  let ?tab = "map Some [?base..<?base + n]"
  obtain t0 where t0: "tsrm_boot n (ts s) = Some t0" "ts_wf [?base..<?base + n] t0"
    using tsrm_boot_spec [OF n, of "ts s"] pr by (auto simp: pristine_def)
  have tab: "tsrm_tls_table t0 = Some ?tab" using t0(2) ts_shapeD(1) by (simp add: ts_wf_def)
  let ?s0 = "init_coroutine_static (s\<lparr>ts := t0\<rparr>)"
  have "boot_round n ?b ?tab 0 ?s0"
    using pr tab by (simp add: boot_round_def init_coroutine_static_def pool_rep_def pristine_def)
  then have "\<exists>u. for_each (init_coroutine blk) [0..<n] ?s0 = Some u \<and> boot_round n ?b ?tab n u"
    by (rule for_each_upt) (simp, rule boot_round_step, simp_all)
  then obtain u where u: "for_each (init_coroutine blk) [0..<n] ?s0 = Some u" "boot_round n ?b ?tab n u" by blast
  note R = u(2) [unfolded boot_round_def]
  let ?t = "u\<lparr>ts := (ts u)\<lparr>force_thread_id := 0, tls := Some ?base\<rparr>, listener_added := True\<rparr>"
  have hd: "get_tsrm_tls_entry 0 ((ts u)\<lparr>force_thread_id := 0\<rparr>) = Some (Some ?base)"
    using R n by (simp add: get_tsrm_tls_entry_def index_of_def)
  have run: "engine_boot n blk s = Some ?t"
    using t0(1) u(1) hd
    by (simp add: engine_boot_def Let_def regist_event_def set_force_thread_id_def tsrm_set_interpreter_context_def)
  let ?p = "\<lparr>free_ctxs = rev [?b..<?b + n], busy_ctxs = [], phase_of = (\<lambda>_. Idle)\<rparr>"
  let ?own = "boot_own ?b ?base"
  have hm: "homes ?own ?tab ?t"
  proof -
    have "0 \<le> ctx_thread_id m \<and> nat (ctx_thread_id m) < n \<and> ?tab ! nat (ctx_thread_id m) = Some (?own a)"
      if m: "ctxs u a = Some m" for a m
    proof -
      have "a \<in> {?b..<?b + n}" using R m by blast
      then obtain i where i: "a = ?b + i" "i < n" by (auto simp: le_iff_add)
      then have "ctx_thread_id m = int i" using R m by (auto simp: cx_def)
      then show ?thesis using i by (simp add: boot_own_def)
    qed
    moreover have "inj_on ?own {?b..<?b + n}" by (auto simp: inj_on_def boot_own_def)
    ultimately show ?thesis using R by (simp add: homes_def del: nth_map)
  qed
  have "pool_rep ?t (rev [?b..<?b + n]) []" using R by (simp add: pool_rep_def)
  moreover have "listener_ok ?t" using R n by (simp add: listener_ok_def pool_rep_def)
  moreover have "bounded ?t" using R by (simp add: bounded_def)
  ultimately have "engine_inv ?own ?tab ?p ?t"
    using R hm by (simp add: engine_inv_def)
  then show ?thesis using run R by (intro exI [of _ ?t] exI [of _ ?tab]) simp
qed

section \<open>Events\<close>

datatype loop_event =
    Connect int
  | Readable nat request_env
  | Answer nat
  | Hang_up nat

definition handle :: "vm \<Rightarrow> loop_event \<Rightarrow> engine \<Rightarrow> engine option" where
  "handle vm ev s = (case ev of
      Connect fd \<Rightarrow> do_accept fd s
    | Readable c env \<Rightarrow> do { n \<leftarrow> ctxs s c; socket_read_cb vm env (ctx_bev n) (Some c) s }
    | Answer c \<Rightarrow> remote_answer vm (Some c) s
    | Hang_up c \<Rightarrow> do { n \<leftarrow> ctxs s c; event_cb (ctx_bev n) (Some c) s })"

text \<open>The \<open>op_array\<close> the context names is alive.\<close>

definition op_live :: "nat \<Rightarrow> engine \<Rightarrow> bool" where
  "op_live c s \<longleftrightarrow> (\<exists>op. op_array (cx c s) = Some op \<and> op \<in> dom (op_arrays (wk s)))"

text \<open>
  When libevent delivers an event: connections while the listening event is added; one request per
  accepted connection; the answer of a call that is under way, while the memory of the call is there,
  which goes when the client hangs up; a client going away while its script waits, or before its request
  has come. A context that has been accepted has no live script of its own; that a pointer left in its
  memory hits a live one of another context is left out, and so are more data on a connection whose
  request is being served.
\<close>

definition enabled :: "vm \<Rightarrow> loop_event \<Rightarrow> pool_state \<Rightarrow> engine \<Rightarrow> bool" where
  "enabled vm ev p s = (case ev of
      Connect fd \<Rightarrow> listener_added s \<and> 0 < fd
    | Readable c env \<Rightarrow> c \<in> set (busy_ctxs p) \<and> phase_of p c = Accepted
    | Answer c \<Rightarrow> c \<in> set (busy_ctxs p) \<and> phase_of p c = Suspended
    | Hang_up c \<Rightarrow> c \<in> set (busy_ctxs p) \<and> (phase_of p c = Suspended \<or> phase_of p c = Accepted \<and> \<not> op_live c s))"

text \<open>
  The events that are undefined: an answer that lets the script throw or bail out, or end when the buffer
  for its working directory has gone; a client that goes away when that buffer or the script is not there.
\<close>

definition fatal :: "vm \<Rightarrow> loop_event \<Rightarrow> engine \<Rightarrow> bool" where
  "fatal vm ev s = (case ev of
      Connect fd \<Rightarrow> False
    | Readable c env \<Rightarrow> False
    | Answer c \<Rightarrow> resume_stop vm c s \<in> {Some Uncaught, Some Bail}
        \<or> resume_stop vm c s = Some Script_end \<and> old_cwd (cx c s) = Cwd_dead
    | Hang_up c \<Rightarrow> \<not> op_live c s \<or> old_cwd (cx c s) = Cwd_dead)"

text \<open>The protocol state after an event: a context that came back raised the counter.\<close>

definition next_pool :: "loop_event \<Rightarrow> pool_state \<Rightarrow> engine \<Rightarrow> engine \<Rightarrow> pool_state" where
  "next_pool ev p s t = (case ev of
      Connect fd \<Rightarrow> (case free_ctxs p of
          [] \<Rightarrow> p
        | c # cs \<Rightarrow> p\<lparr>free_ctxs := cs, busy_ctxs := c # busy_ctxs p, phase_of := (phase_of p)(c := Accepted)\<rparr>)
    | Readable c env \<Rightarrow>
        if \<not> startup_ok env then p
        else if context_count t = context_count s + 1 then release c p else move c Suspended p
    | Answer c \<Rightarrow> if context_count t = context_count s + 1 then release c p else p
    | Hang_up c \<Rightarrow> move c Orphaned p)"

inductive engine_run :: "vm \<Rightarrow> pool_state \<Rightarrow> engine \<Rightarrow> pool_state \<Rightarrow> engine \<Rightarrow> bool"
  for vm :: vm and p0 :: pool_state and s0 :: engine where
  start: "engine_run vm p0 s0 p0 s0"
| event: "engine_run vm p0 s0 p s \<Longrightarrow> enabled vm ev p s \<Longrightarrow> handle vm ev s = Some t
    \<Longrightarrow> engine_run vm p0 s0 (next_pool ev p s t) t"

inductive_cases engine_runE: "engine_run vm p0 s0 p s"

lemma engine_inv_count: "engine_inv own tab p s \<Longrightarrow> context_count s = int (length (free_ctxs p))"
  by (simp add: engine_inv_def pool_rep_def)

lemma move_same: "phase_of p c = x \<Longrightarrow> move c x p = p"
  by (cases p) (auto simp: fun_eq_iff)

lemma suspended_op_live:
  assumes "engine_inv own tab p s" and "c \<in> set (busy_ctxs p)" and "phase_of p c = Suspended"
  shows "op_live c s"
  using engine_invD(7) [OF assms(1,2)] assms(3) by (auto simp: phase_ok_def waiting_def susp_def op_live_def)

text \<open>One event: it is undefined, or handled to the end, and then the abstract machine follows.\<close>

lemma engine_event_fatal:
  assumes inv: "engine_inv own tab p s" and en: "enabled vm ev p s" and bad: "fatal vm ev s"
  shows "handle vm ev s = None"
proof (cases ev)
  case (Answer c)
  have c: "c \<in> set (busy_ctxs p)" "phase_of p c = Suspended" using en Answer by (simp_all add: enabled_def)
  consider st where "resume_stop vm c s = Some st" "st \<in> {Uncaught, Bail}"
    | "resume_stop vm c s = Some Script_end" "old_cwd (cx c s) = Cwd_dead"
    using bad Answer by (auto simp: fatal_def)
  then show ?thesis
    using suspended_answer_dies [OF inv c] suspended_answer_dead [OF inv c] Answer
    by cases (simp_all add: handle_def)
next
  case (Hang_up c)
  have c: "c \<in> set (busy_ctxs p)" using en Hang_up by (simp add: enabled_def)
  obtain n where n: "ctxs s c = Some n" using engine_invD(2) [OF inv] c by blast
  have "event_cb (ctx_bev n) (Some c) s = None"
  proof (cases "op_live c s")
    case True
    then show ?thesis using bad Hang_up event_cb_dead [OF inv c] by (simp add: fatal_def)
  next
    case False
    then show ?thesis by (intro event_cb_no_script [OF inv c]) (simp add: op_live_def)
  qed
  then show ?thesis using n Hang_up by (simp add: handle_def)
qed (use bad in \<open>simp_all add: fatal_def\<close>)

lemma engine_event:
  assumes inv: "engine_inv own tab p s" and en: "enabled vm ev p s" and ok: "\<not> fatal vm ev s"
  shows "\<exists>t. handle vm ev s = Some t \<and> engine_inv own tab (next_pool ev p s t) t \<and> pool_step p (next_pool ev p s t)"
proof (cases ev)
  case (Connect fd)
  have "free_ctxs p \<noteq> []"
    using en Connect engine_invD(4) [OF inv] engine_inv_count [OF inv] by (auto simp: enabled_def listener_ok_def)
  then obtain c cs where free: "free_ctxs p = c # cs" by (cases "free_ctxs p") auto
  have fd: "0 < fd" using en Connect by (simp add: enabled_def)
  show ?thesis
    using do_accept_run [OF inv free fd] free pool_step.accept [OF free]
    by (auto simp: handle_def next_pool_def Connect)
next
  case (Readable c env)
  have c: "c \<in> set (busy_ctxs p)" "phase_of p c = Accepted" using en Readable by (simp_all add: enabled_def)
  obtain n where n: "ctxs s c = Some n" using engine_invD(2) [OF inv] c(1) by blast
  obtain t x where t: "socket_read_cb vm env (ctx_bev n) (Some c) s = Some t"
    "if \<not> startup_ok env then x = Accepted else x \<in> {Idle, Suspended}"
    "if x = Idle then engine_inv own tab (release c p) t else engine_inv own tab (move c x p) t"
    using socket_read_cb_run [OF inv c, of vm env "ctx_bev n"] by (metis insertCI)
  have h: "handle vm ev s = Some t" using Readable n t(1) by (simp add: handle_def)
  have cnt: "context_count t = context_count s + 1 \<longleftrightarrow> x = Idle"
    using t(3) engine_inv_count [OF inv] engine_inv_count [of own tab _ t] by (auto split: if_splits)
  show ?thesis
  proof (cases "startup_ok env")
    case False
    then show ?thesis using t(2,3) h c Readable move_same [OF c(2)] pool_step.failed [OF c]
      by (simp add: next_pool_def)
  next
    case True
    then show ?thesis using t(2,3) h c Readable cnt pool_step.served [OF c] pool_step.suspend [OF c]
      by (auto simp: next_pool_def)
  qed
next
  case (Answer c)
  have c: "c \<in> set (busy_ctxs p)" "phase_of p c = Suspended" using en Answer by (simp_all add: enabled_def)
  obtain st where st: "resume_stop vm c s = Some st" using resume_stop_suspended [OF inv c] by blast
  have st2: "st \<in> {Script_end, Remote_call}" "st = Script_end \<Longrightarrow> old_cwd (cx c s) \<noteq> Cwd_dead"
    using ok st Answer by (cases st; simp add: fatal_def)+
  obtain t where t: "remote_answer vm (Some c) s = Some t"
    "if st = Script_end then engine_inv own tab (release c p) t else engine_inv own tab p t"
    using suspended_answer_run [OF inv c st st2] by (metis (full_types))
  have cnt: "context_count t = context_count s + 1 \<longleftrightarrow> st = Script_end"
    using t(2) engine_inv_count [OF inv] engine_inv_count [of own tab _ t] by (auto split: if_splits)
  show ?thesis using t Answer cnt pool_step.again [OF c] pool_step.resumed [OF c]
    by (auto simp: handle_def next_pool_def)
next
  case (Hang_up c)
  have live: "op_live c s" "old_cwd (cx c s) \<noteq> Cwd_dead" using ok Hang_up by (simp_all add: fatal_def)
  have c: "c \<in> set (busy_ctxs p)" "phase_of p c = Suspended" using en Hang_up live(1) by (simp_all add: enabled_def)
  obtain n where n: "ctxs s c = Some n" using engine_invD(2) [OF inv] c(1) by blast
  have "connected s c" using engine_invD(7) [OF inv c(1)] c(2) by (simp add: phase_ok_def)
  then obtain b where b: "ctx_bev (cx c s) = Some b" by (auto simp: connected_def)
  then have bn: "ctx_bev n = Some b" using n by (simp add: cx_def)
  show ?thesis
    using event_cb_run [OF inv c b live(2)] n bn Hang_up pool_step.hangup [OF c]
    by (auto simp: handle_def next_pool_def)
qed

lemma engine_run_inv:
  assumes "engine_run vm p0 s0 p s" and "engine_inv own tab p0 s0"
  shows "engine_inv own tab p s \<and> pool_step\<^sup>*\<^sup>* p0 p"
  using assms
proof (induction rule: engine_run.induct)
  case start
  then show ?case by simp
next
  case (event p s ev t)
  have inv: "engine_inv own tab p s" using event by simp
  have "\<not> fatal vm ev s" using engine_event_fatal [OF inv event.hyps(2)] event.hyps(3) by auto
  from engine_event [OF inv event.hyps(2) this] event show ?case
    by (auto intro: rtranclp.rtrancl_into_rtrancl)
qed

lemma pool_steps:
  assumes "pool_step\<^sup>*\<^sup>* p q" and "pool_ok p"
  shows "pool_ok q \<and> mset (free_ctxs q) + mset (busy_ctxs q) = mset (free_ctxs p) + mset (busy_ctxs p)"
  using assms by (induction rule: rtranclp_induct) (auto simp: pool_step_ok pool_step_conserves)

end
