(* ===== verification/Coro_Properties.thy ===== *)
theory Coro_Properties
  imports Coro_Loop Tsrm_Properties
begin

text \<open>
  What the coroutine engine guarantees, and where its code does not do what it means to: the
  theorems about whole runs of the event loop, about the life of one request, and about the pool.
\<close>

section \<open>Concrete engines for the witnesses\<close>

definition blank_context :: sapi_coroutine_context where
  "blank_context = \<lparr>buf_ptr = None, req_ptr = None, op_array = NULL, prev_execute_data = NULL,
     ctx_next = NULL, ctx_prev = NULL, old_cwd = Cwd_unset, use_heap = False, request = NULL,
     ctx_thread_id = 0, return_value = NULL, tmpData = None, ctx_fd = 0, ctx_bev = NULL\<rparr>"

definition blank_globals :: coroutine_globals where
  "blank_globals = \<lparr>sg_context = NULL, request_body_fd = -2, server_context = NULL, sapi_started = False,
     current_execute_data = NULL, eg_exception = False, eg_bailout = No_bailout, exit_status = 0, cwd = ''/srv''\<rparr>"

definition blank_engine :: engine where
  "blank_engine = \<lparr>ts = empty_tsrm, ctxs = Map.empty, pool = NULL, pool_end = NULL, use = NULL,
     context_count = 0, listener_event_stop = False, listener_added = False, bevs = Map.empty,
     globals = (\<lambda>_. blank_globals), frames = Map.empty,
     wk = \<lparr>requests = 0, max_requests = 500, loopexit = False, next_obj = 0, reqs = Map.empty,
           op_arrays = Map.empty, open_fds = {}, trace = []\<rparr>\<rparr>"

lemma pristine_blank: "pristine blank_engine" "next_obj (wk blank_engine) = 0" "brk (ts blank_engine) = 0"
  by (simp_all add: pristine_def blank_engine_def blank_globals_def)

definition sample_env :: request_env where
  "sample_env = \<lparr>startup_ok = True, has_method = True, status_page = False, has_path = True,
     ext_limited = False, fopen_ok = True, fopen_eacces = False, env_keep = False, prepend = None,
     primary = 1, append = Some 2, start_lineno = 0, no_chdir = False, script_dir = ''/srv/www'', heap_alloca = False,
     compile = (\<lambda>_. Compiles)\<rparr>"

text \<open>A script that ends at once, and one that makes a remote call first.\<close>

definition plain_vm :: vm where
  "plain_vm op k = (k, False, Script_end)"

definition calling_vm :: "stop \<Rightarrow> vm" where
  "calling_vm st op k = (if k = 0 then (3, False, Remote_call) else (k, False, st))"

lemma upt_2: "rev [0..<0 + 2] = [1, 0 :: nat]"
  by (simp add: upt_conv_Cons numeral_2_eq_2)

lemma booted_engine:
  obtains s own tab where "engine_boot 2 (\<lambda>_. blank_context) blank_engine = Some s"
    "engine_inv own tab \<lparr>free_ctxs = [1, 0], busy_ctxs = [], phase_of = (\<lambda>_. Idle)\<rparr> s" "listener_added s"
    "op_arrays (wk s) = Map.empty"
  using engine_boot_run [of 2 blank_engine "\<lambda>_. blank_context"] pristine_blank upt_2 that by auto

lemma connected_engine:
  obtains s own tab where "engine_inv own tab \<lparr>free_ctxs = [0], busy_ctxs = [1], phase_of = (\<lambda>_. Idle)(1 := Accepted)\<rparr> s"
  by (rule booted_engine, drule do_accept_run [where fd = 5]) (simp_all, metis)

text \<open>A call that is suspended at its first remote call.\<close>

lemma calling_not_plain: "\<not> plain_run (calling_vm st) env files"
  by (simp add: plain_run_def calling_vm_def)

section \<open>Whole runs\<close>

text \<open>
  \<open>main\<close> with at least one coroutine brings the engine into a state that satisfies its
  invariant: all contexts are free, the last one made is handed out first, and the listening event
  is on.
\<close>

theorem engine_boot_ok:
  assumes "0 < n" and "int n \<le> 2 ^ 64" and "pristine s"
  shows "\<exists>t own tab. engine_boot n blk s = Some t \<and> listener_added t
     \<and> engine_inv own tab \<lparr>free_ctxs = rev [next_obj (wk s)..<next_obj (wk s) + n], busy_ctxs = [],
                             phase_of = (\<lambda>_. Idle)\<rparr> t"
  using engine_boot_run [OF assms] by blast

theorem engine_boot_ok_witness:
  "\<exists>t own tab. engine_boot 2 (\<lambda>_. blank_context) blank_engine = Some t
     \<and> engine_inv own tab \<lparr>free_ctxs = [1, 0], busy_ctxs = [], phase_of = (\<lambda>_. Idle)\<rparr> t"
proof -
  have "(0 :: nat) < 2" "int 2 \<le> 2 ^ 64" by simp_all
  from engine_boot_ok [OF this pristine_blank(1), of "\<lambda>_. blank_context"] show ?thesis
    unfolding pristine_blank upt_2 by blast
qed

text \<open>
  C2. What each enabled event does in a state that satisfies the invariant: the fatal ones (a resumed script
  throws or bails out, or ends, or its client goes away, when the buffer for its working directory was
  taken from the stack; a client goes away before its script has been compiled) are undefined; every other
  one is handled to its end, without touching released memory, a null pointer or a dead stack frame, the
  invariant holds afterwards, and the two lists and the phases of the contexts make a step of the abstract
  machine.
\<close>

theorem handlers_refine_pool:
  assumes "engine_inv own tab p s" and "enabled vm ev p s"
  shows "if fatal vm ev s then handle vm ev s = None
    else \<exists>t. handle vm ev s = Some t \<and> engine_inv own tab (next_pool ev p s t) t
      \<and> pool_step p (next_pool ev p s t)"
  using engine_event [OF assms] engine_event_fatal [OF assms] by simp

theorem handlers_refine_pool_witness:
  "\<exists>s t own tab p. handle plain_vm (Connect 5) s = Some t \<and> engine_inv own tab p t
     \<and> pool_step \<lparr>free_ctxs = [1, 0], busy_ctxs = [], phase_of = (\<lambda>_. Idle)\<rparr> p"
proof -
  obtain s own tab where s: "engine_inv own tab \<lparr>free_ctxs = [1, 0], busy_ctxs = [], phase_of = (\<lambda>_. Idle)\<rparr> s"
    "listener_added s" by (rule booted_engine)
  then have "enabled plain_vm (Connect 5) \<lparr>free_ctxs = [1, 0], busy_ctxs = [], phase_of = (\<lambda>_. Idle)\<rparr> s"
    by (simp add: enabled_def)
  from handlers_refine_pool [OF s(1) this] show ?thesis by (simp add: fatal_def) blast
qed

text \<open>
  C1. In every state the event loop reaches from the start: no context is lost or duplicated, the
  counter is the number of free contexts, the listening event is off exactly when none is free, and
  of the events that can come next exactly the fatal ones are undefined.
\<close>

theorem event_loop_safe:
  assumes "0 < n" and "int n \<le> 2 ^ 64" and "pristine s" and "engine_boot n blk s = Some s0"
    and "engine_run vm \<lparr>free_ctxs = rev [next_obj (wk s)..<next_obj (wk s) + n], busy_ctxs = [],
                          phase_of = (\<lambda>_. Idle)\<rparr> s0 p t"
  shows "mset (free_ctxs p @ busy_ctxs p) = mset [next_obj (wk s)..<next_obj (wk s) + n]
     \<and> context_count t = int (length (free_ctxs p))
     \<and> (listener_added t \<longleftrightarrow> free_ctxs p \<noteq> []) \<and> listener_event_stop t = (\<not> listener_added t)
     \<and> (\<forall>ev. enabled vm ev p t \<longrightarrow> (handle vm ev t = None \<longleftrightarrow> fatal vm ev t))"
proof -
  obtain tab where inv0: "engine_inv (boot_own (next_obj (wk s)) (brk (ts s))) tab
     \<lparr>free_ctxs = rev [next_obj (wk s)..<next_obj (wk s) + n], busy_ctxs = [], phase_of = (\<lambda>_. Idle)\<rparr> s0"
    using engine_boot_run [OF assms(1-3), of blk] assms(4) by auto
  note run = engine_run_inv [OF assms(5) inv0]
  then have inv: "engine_inv (boot_own (next_obj (wk s)) (brk (ts s))) tab p t" by simp
  have lo: "listener_ok t" "context_count t = int (length (free_ctxs p))"
    using engine_invD(4) [OF inv] engine_inv_count [OF inv] by simp_all
  have "mset (free_ctxs p) + mset (busy_ctxs p) = mset [next_obj (wk s)..<next_obj (wk s) + n]"
    using pool_steps [OF conjunct2 [OF run] engine_inv_pool_ok [OF inv0]] by simp
  moreover have "\<forall>ev. enabled vm ev p t \<longrightarrow> (handle vm ev t = None \<longleftrightarrow> fatal vm ev t)"
    using engine_event [OF inv] engine_event_fatal [OF inv] by fastforce
  ultimately show ?thesis
    using lo by (auto simp: listener_ok_def)
qed

theorem event_loop_safe_witness:
  "\<exists>s0 t (p :: pool_state). engine_boot 2 (\<lambda>_. blank_context) blank_engine = Some s0 \<and> handle plain_vm (Connect 5) s0 = Some t
     \<and> mset (free_ctxs p @ busy_ctxs p) = {#0, 1#} \<and> context_count t = 1 \<and> listener_added t"
proof -
  let ?p = "\<lparr>free_ctxs = [1, 0], busy_ctxs = [], phase_of = (\<lambda>_. Idle)\<rparr>"
  obtain s0 own tab where s0: "engine_boot 2 (\<lambda>_. blank_context) blank_engine = Some s0"
    "engine_inv own tab ?p s0" "listener_added s0" by (rule booted_engine)
  have en: "enabled plain_vm (Connect 5) ?p s0" using s0(3) by (simp add: enabled_def)
  obtain t where t: "handle plain_vm (Connect 5) s0 = Some t" using engine_event [OF s0(2) en] by (auto simp: fatal_def)
  let ?q = "next_pool (Connect 5) ?p s0 t"
  have r: "engine_run plain_vm ?p s0 ?q t"
    by (rule engine_run.event [OF engine_run.start en t])
  have ups: "[next_obj (wk blank_engine)..<next_obj (wk blank_engine) + 2] = [0, 1]" "rev [0, 1 :: nat] = [1, 0]"
    by (simp_all add: pristine_blank upt_conv_Cons numeral_2_eq_2)
  have "(0 :: nat) < 2" "int 2 \<le> 2 ^ 64" by simp_all
  note safe = event_loop_safe [OF this pristine_blank(1) s0(1), unfolded ups, OF r]
  have "free_ctxs ?q = [0]" "busy_ctxs ?q = [1]" by (simp_all add: next_pool_def)
  with safe have "mset (free_ctxs ?q @ busy_ctxs ?q) = {#0, 1#} \<and> context_count t = 1 \<and> listener_added t"
    by auto
  then have "\<exists>p :: pool_state. mset (free_ctxs p @ busy_ctxs p) = {#0, 1#} \<and> context_count t = 1 \<and> listener_added t"
    by (rule exI [of _ ?q])
  with s0(1) t show ?thesis by simp
qed

section \<open>The life of a request\<close>

text \<open>
  A new connection takes the context that has been free for the longest time; it is switched
  to, holds the descriptor, and its \<open>bufferevent\<close> is live.
\<close>

theorem accept_takes_first:
  assumes "engine_inv own tab p s" and "free_ctxs p = c # cs" and "0 < fd"
  shows "\<exists>t. do_accept fd s = Some t
     \<and> engine_inv own tab (p\<lparr>free_ctxs := cs, busy_ctxs := c # busy_ctxs p, phase_of := (phase_of p)(c := Accepted)\<rparr>) t
     \<and> ctx_fd (cx c t) = fd \<and> connected t c"
proof -
  from do_accept_run [OF assms] obtain t where t: "do_accept fd s = Some t"
    "engine_inv own tab (p\<lparr>free_ctxs := cs, busy_ctxs := c # busy_ctxs p, phase_of := (phase_of p)(c := Accepted)\<rparr>) t"
    "ctx_fd (cx c t) = fd" by blast
  with engine_invD(7) [OF t(2), of c] show ?thesis by (auto simp: phase_ok_def)
qed

theorem accept_takes_first_witness:
  "\<exists>s t. do_accept 5 s = Some t \<and> ctx_fd (cx 1 t) = 5 \<and> connected t 1"
proof -
  obtain s own tab where s: "engine_inv own tab \<lparr>free_ctxs = [1, 0], busy_ctxs = [], phase_of = (\<lambda>_. Idle)\<rparr> s"
    by (rule booted_engine)
  have "free_ctxs \<lparr>free_ctxs = [1, 0], busy_ctxs = [], phase_of = (\<lambda>_. Idle)\<rparr> = 1 # [0]" "(0 :: int) < 5"
    by simp_all
  from accept_takes_first [OF s this] show ?thesis by blast
qed

text \<open>
  C3. A request whose files all compile and run to their end without a remote call is answered in
  one go: the prepended, the primary and the appended file run in this order, the request is
  counted, the connection is closed, the loop is left when the request was the last one allowed,
  and the context goes to the end of the pool.
\<close>

theorem plain_request_served:
  assumes "engine_inv own tab p s" and "c \<in> set (busy_ctxs p)" and "phase_of p c = Accepted"
    and "executes env" and "plain_run vm env [prepend env, Some (primary env), append env]"
  shows "\<exists>t. socket_read_cb vm env bev (Some c) s = Some t \<and> engine_inv own tab (release c p) t
     \<and> files_run (wk t) = files_run (wk s) @ listed [prepend env, Some (primary env), append env]
     \<and> requests (wk t) = requests (wk s) + 1 \<and> ctx_fd (cx c s) \<notin> open_fds (wk t)
     \<and> loopexit (wk t) = (loopexit (wk s) \<or> (max_requests (wk s) \<noteq> 0 \<and> requests (wk s) + 1 = max_requests (wk s)))"
  using socket_read_cb_run [OF assms(1-3), of vm env bev] assms(4,5)
  by (auto simp: executes_def answered_def)

theorem plain_request_served_witness:
  "\<exists>s t own tab. socket_read_cb plain_vm sample_env NULL (Some 1) s = Some t
     \<and> engine_inv own tab \<lparr>free_ctxs = [0, 1], busy_ctxs = [], phase_of = (\<lambda>_. Idle)\<rparr> t
     \<and> files_run (wk t) = files_run (wk s) @ [1, 2]"
proof -
  obtain s own tab where s: "engine_inv own tab \<lparr>free_ctxs = [0], busy_ctxs = [1], phase_of = (\<lambda>_. Idle)(1 := Accepted)\<rparr> s"
    by (rule connected_engine)
  have e: "executes sample_env" "plain_run plain_vm sample_env [prepend sample_env, Some (primary sample_env), append sample_env]"
    by (simp_all add: executes_def plain_run_def sample_env_def plain_vm_def)
  have l: "listed [prepend sample_env, Some (primary sample_env), append sample_env] = [1, 2]"
    by (simp add: sample_env_def)
  have r: "release 1 \<lparr>free_ctxs = [0], busy_ctxs = [1], phase_of = (\<lambda>_. Idle)(1 := Accepted)\<rparr>
      = \<lparr>free_ctxs = [0, 1], busy_ctxs = [], phase_of = (\<lambda>_. Idle)\<rparr>"
    by (simp add: fun_eq_iff)
  show ?thesis using plain_request_served [OF s _ _ e, of 1 NULL] unfolding l r by auto
qed

text \<open>
  A request that cannot be executed (no method, status page, no script, denied extension, no
  readable file) is answered at once, nothing is run, and the context comes back.
\<close>

theorem rejected_request_served:
  assumes "engine_inv own tab p s" and "c \<in> set (busy_ctxs p)" and "phase_of p c = Accepted"
    and "startup_ok env" and "\<not> executes env"
  shows "\<exists>t. socket_read_cb vm env bev (Some c) s = Some t \<and> engine_inv own tab (release c p) t
     \<and> files_run (wk t) = files_run (wk s) \<and> requests (wk t) = requests (wk s) + 1
     \<and> ctx_fd (cx c s) \<notin> open_fds (wk t)"
  using socket_read_cb_run [OF assms(1-3), of vm env bev] assms(4,5) by (auto simp: answered_def)

theorem rejected_request_served_witness:
  "\<exists>s t. socket_read_cb plain_vm (sample_env\<lparr>has_path := False\<rparr>) NULL (Some 1) s = Some t
     \<and> files_run (wk t) = files_run (wk s) \<and> requests (wk t) = requests (wk s) + 1"
proof -
  obtain s own tab where s: "engine_inv own tab \<lparr>free_ctxs = [0], busy_ctxs = [1], phase_of = (\<lambda>_. Idle)(1 := Accepted)\<rparr> s"
    by (rule connected_engine)
  have e: "startup_ok (sample_env\<lparr>has_path := False\<rparr>)" "\<not> executes (sample_env\<lparr>has_path := False\<rparr>)"
    by (simp_all add: executes_def sample_env_def)
  from rejected_request_served [OF s _ _ e, of 1 plain_vm NULL] show ?thesis by fastforce
qed

text \<open>
  A request whose first file makes a remote call gives the processor back: the context stays in
  use, suspended, with its connection and its script alive, nothing is counted, and only that first
  file has been started.
\<close>

theorem remote_call_suspends:
  assumes "engine_inv own tab p s" and "c \<in> set (busy_ctxs p)" and "phase_of p c = Accepted"
    and "executes env" and "calls_first vm env [prepend env, Some (primary env), append env]"
  shows "\<exists>t op. socket_read_cb vm env bev (Some c) s = Some t \<and> engine_inv own tab (move c Suspended p) t
     \<and> files_run (wk t) = files_run (wk s) @ [hd (listed [prepend env, Some (primary env), append env])]
     \<and> requests (wk t) = requests (wk s)
     \<and> resume_stop vm c t = Some (snd (snd (vm op (Suc (fst (vm op 0))))))
     \<and> frame_gone (heap_alloca env) (old_cwd (cx c t))"
proof -
  obtain t x where t: "socket_read_cb vm env bev (Some c) s = Some t" "x = Suspended"
    "first_call vm c [prepend env, Some (primary env), append env] s t" "requests (wk t) = requests (wk s)"
    "if x = Idle then engine_inv own tab (release c p) t \<and> answered own c s t
        else engine_inv own tab (move c x p) t" "frame_gone (heap_alloca env) (old_cwd (cx c t))"
    using socket_read_cb_run [OF assms(1-3), of vm env bev] assms(4,5) unfolding executes_def by auto
  from t(5) have inv: "engine_inv own tab (move c Suspended p) t" unfolding t(2) by simp
  obtain op where "resume_stop vm c t = Some (snd (snd (vm op (Suc (fst (vm op 0))))))"
    "files_run (wk t) = files_run (wk s) @ [hd (listed [prepend env, Some (primary env), append env])]"
    using t(3) unfolding first_call_def by blast
  with t(1,4,6) inv show ?thesis by blast
qed

lemma calling_sample:
  "calls_first (calling_vm st) sample_env [prepend sample_env, Some (primary sample_env), append sample_env]"
  "executes sample_env"
  by (simp_all add: calls_first_def calling_vm_def sample_env_def executes_def)

theorem remote_call_suspends_witness:
  "\<exists>s t. socket_read_cb (calling_vm Script_end) sample_env NULL (Some 1) s = Some t
     \<and> files_run (wk t) = files_run (wk s) @ [1] \<and> resume_stop (calling_vm Script_end) 1 t = Some Script_end"
proof -
  obtain s own tab where s: "engine_inv own tab \<lparr>free_ctxs = [0], busy_ctxs = [1], phase_of = (\<lambda>_. Idle)(1 := Accepted)\<rparr> s"
    by (rule connected_engine)
  have l: "hd (listed [prepend sample_env, Some (primary sample_env), append sample_env]) = 1"
    by (simp add: sample_env_def)
  from remote_call_suspends [OF s _ _ calling_sample(2) calling_sample(1) [of Script_end], where c = 1 and bev = NULL] show ?thesis
    unfolding l by (auto simp: calling_vm_def)
qed

text \<open>The same start for the witnesses about suspended requests.\<close>

lemma suspended_engine:
  obtains s own tab where
    "engine_inv own tab \<lparr>free_ctxs = [0], busy_ctxs = [1], phase_of = (\<lambda>_. Idle)(1 := Suspended)\<rparr> s"
    "resume_stop (calling_vm st) 1 s = Some st" "frame_gone h (old_cwd (cx 1 s))"
proof -
  let ?env = "sample_env\<lparr>heap_alloca := h\<rparr>"
  obtain s own tab where s: "engine_inv own tab \<lparr>free_ctxs = [0], busy_ctxs = [1], phase_of = (\<lambda>_. Idle)(1 := Accepted)\<rparr> s"
    by (rule connected_engine)
  have e: "executes ?env" "calls_first (calling_vm st) ?env [prepend ?env, Some (primary ?env), append ?env]"
    by (simp_all add: calls_first_def calling_vm_def sample_env_def executes_def)
  obtain t x where t: "socket_read_cb (calling_vm st) ?env NULL (Some 1) s = Some t" "x = Suspended"
    "first_call (calling_vm st) 1 [prepend ?env, Some (primary ?env), append ?env] s t"
    "engine_inv own tab (move 1 x \<lparr>free_ctxs = [0], busy_ctxs = [1], phase_of = (\<lambda>_. Idle)(1 := Accepted)\<rparr>) t"
    "frame_gone h (old_cwd (cx 1 t))"
    using socket_read_cb_run [OF s, of 1 "calling_vm st" ?env NULL] e by (auto simp: executes_def)
  have "resume_stop (calling_vm st) 1 t = Some st"
    using t(3) by (auto simp: first_call_def calling_vm_def)
  moreover have "engine_inv own tab \<lparr>free_ctxs = [0], busy_ctxs = [1], phase_of = (\<lambda>_. Idle)(1 := Suspended)\<rparr> t"
    using t(4) unfolding t(2) by simp
  ultimately show thesis using that t(5) by blast
qed

text \<open>
  C4. The answer of a remote call resumes the script where it stood: when it ends, the request is
  counted, the connection closed and the context given back; when it calls again, the context stays
  suspended. In a build that took the buffer for the working directory from the stack, a script that ends
  reads the dead buffer, which is undefined.
\<close>

theorem answer_resumes:
  assumes "engine_inv own tab p s" and "c \<in> set (busy_ctxs p)" and "phase_of p c = Suspended"
    and "resume_stop vm c s = Some st" and "st \<in> {Script_end, Remote_call}"
  shows "if st = Script_end \<and> old_cwd (cx c s) = Cwd_dead then remote_answer vm (Some c) s = None
    else \<exists>t. remote_answer vm (Some c) s = Some t
     \<and> (if st = Script_end
        then engine_inv own tab (release c p) t \<and> requests (wk t) = requests (wk s) + 1
          \<and> ctx_fd (cx c s) \<notin> open_fds (wk t)
        else engine_inv own tab p t \<and> requests (wk t) = requests (wk s))"
proof (cases "st = Script_end \<and> old_cwd (cx c s) = Cwd_dead")
  case True
  then show ?thesis using suspended_answer_dead [OF assms(1-3), of vm] assms(4) by simp
next
  case False
  then show ?thesis using suspended_answer_run [OF assms] by auto
qed

theorem answer_resumes_witness:
  "\<exists>s t own tab. remote_answer (calling_vm Script_end) (Some 1) s = Some t
     \<and> engine_inv own tab \<lparr>free_ctxs = [0, 1], busy_ctxs = [], phase_of = (\<lambda>_. Idle)\<rparr> t"
proof -
  obtain s own tab where s:
    "engine_inv own tab \<lparr>free_ctxs = [0], busy_ctxs = [1], phase_of = (\<lambda>_. Idle)(1 := Suspended)\<rparr> s"
    "resume_stop (calling_vm Script_end) 1 s = Some Script_end" "frame_gone True (old_cwd (cx 1 s))"
    by (rule suspended_engine)
  have r: "release 1 \<lparr>free_ctxs = [0], busy_ctxs = [1], phase_of = (\<lambda>_. Idle)(1 := Suspended)\<rparr>
      = \<lparr>free_ctxs = [0, 1], busy_ctxs = [], phase_of = (\<lambda>_. Idle)\<rparr>"
    by (simp add: fun_eq_iff)
  have st: "Script_end \<in> {Script_end, Remote_call}" "old_cwd (cx 1 s) \<noteq> Cwd_dead"
    using s(3) by (auto simp: frame_gone_def)
  have "\<exists>t. remote_answer (calling_vm Script_end) (Some 1) s = Some t
     \<and> engine_inv own tab \<lparr>free_ctxs = [0, 1], busy_ctxs = [], phase_of = (\<lambda>_. Idle)\<rparr> t"
    using answer_resumes [OF s(1) _ _ s(2) st(1)] st(2) unfolding r by auto
  then show ?thesis by blast
qed

text \<open>A context whose client went away while its script waited: no event reaches it any more.\<close>

lemma orphan_stays:
  assumes "engine_run vm p0 s0 q u" and "engine_inv own tab p0 s0" and "c \<in> set (busy_ctxs p0)" "phase_of p0 c = Orphaned"
  shows "c \<in> set (busy_ctxs q) \<and> phase_of q c = Orphaned"
  using assms
proof (induction rule: engine_run.induct)
  case (event q u ev t)
  have inv: "engine_inv own tab q u" using engine_run_inv [OF event.hyps(1) event.prems(1)] by simp
  have c: "c \<in> set (busy_ctxs q)" "phase_of q c = Orphaned" using event by simp_all
  then have "c \<notin> set (free_ctxs q)" using engine_inv_distinct [OF inv] by auto
  then show ?case using c event.hyps(2)
    by (cases ev) (auto simp: next_pool_def enabled_def split: list.splits)
qed simp

text \<open>
  C5. The client of a suspended request goes away. In a build that took the buffer for the working directory
  from the stack, the handler reads the dead buffer. In one that took it from the heap, the script is
  destroyed, the \<open>bufferevent\<close> released, the connection closed and the request counted at once; but the
  context is never given back: whatever the event loop does afterwards, it stays in use.
\<close>

theorem hang_up_loses_context:
  assumes "engine_inv own tab p s" and "c \<in> set (busy_ctxs p)" and "phase_of p c = Suspended"
    and "ctx_bev (cx c s) = Some b"
  shows "if old_cwd (cx c s) = Cwd_dead then event_cb (Some b) (Some c) s = None
    else \<exists>t. event_cb (Some b) (Some c) s = Some t \<and> engine_inv own tab (move c Orphaned p) t
     \<and> b \<notin> dom (bevs t) \<and> (\<forall>op. op_arrays (wk t) op \<noteq> Some (own c)) \<and> ctx_fd (cx c s) \<notin> open_fds (wk t)
     \<and> requests (wk t) = requests (wk s) + 1
     \<and> (\<forall>vm q u. engine_run vm (move c Orphaned p) t q u \<longrightarrow> c \<in> set (busy_ctxs q) \<and> c \<notin> set (free_ctxs q))"
proof (cases "old_cwd (cx c s) = Cwd_dead")
  case True
  then show ?thesis using event_cb_dead [OF assms(1,2)] by simp
next
  case False
  then obtain t where t: "event_cb (Some b) (Some c) s = Some t" "engine_inv own tab (move c Orphaned p) t"
     "requests (wk t) = requests (wk s) + 1" "b \<notin> dom (bevs t)" "\<forall>op. op_arrays (wk t) op \<noteq> Some (own c)"
     "ctx_fd (cx c s) \<notin> open_fds (wk t)"
    using event_cb_run [OF assms] by blast
  have o: "c \<in> set (busy_ctxs (move c Orphaned p))" "phase_of (move c Orphaned p) c = Orphaned"
    using assms(2) by simp_all
  have "c \<in> set (busy_ctxs q) \<and> c \<notin> set (free_ctxs q)" if r: "engine_run vm (move c Orphaned p) t q u" for vm q u
  proof -
    have "engine_inv own tab q u" using engine_run_inv [OF r t(2)] by simp
    then have "distinct (free_ctxs q @ busy_ctxs q)" by (rule engine_inv_distinct)
    then show ?thesis using orphan_stays [OF r t(2) o] by auto
  qed
  then show ?thesis using t False by (intro if_not_P [THEN iffD2]) (simp, blast)
qed

theorem hang_up_loses_context_witness:
  "\<exists>s t b own tab. event_cb (Some b) (Some 1) s = Some t \<and> b \<notin> dom (bevs t)
     \<and> engine_inv own tab \<lparr>free_ctxs = [0], busy_ctxs = [1], phase_of = (\<lambda>_. Idle)(1 := Orphaned)\<rparr> t"
proof -
  let ?p = "\<lparr>free_ctxs = [0], busy_ctxs = [1], phase_of = (\<lambda>_. Idle)(1 := Suspended)\<rparr>"
  obtain s own tab where s: "engine_inv own tab ?p s" "frame_gone True (old_cwd (cx 1 s))"
    by (rule suspended_engine)
  then obtain b where b: "ctx_bev (cx 1 s) = Some b"
    using engine_invD(7) [OF s(1), of 1] by (auto simp: phase_ok_def connected_def)
  have r: "move 1 Orphaned ?p = \<lparr>free_ctxs = [0], busy_ctxs = [1], phase_of = (\<lambda>_. Idle)(1 := Orphaned)\<rparr>"
    by (simp add: fun_eq_iff)
  have "old_cwd (cx 1 s) \<noteq> Cwd_dead" using s(2) by (auto simp: frame_gone_def)
  then have "\<exists>t. event_cb (Some b) (Some 1) s = Some t \<and> b \<notin> dom (bevs t)
     \<and> engine_inv own tab \<lparr>free_ctxs = [0], busy_ctxs = [1], phase_of = (\<lambda>_. Idle)(1 := Orphaned)\<rparr> t"
    using hang_up_loses_context [OF s(1) _ _ b] unfolding r by (simp del: not_None_eq domIff) blast
  then show ?thesis by blast
qed

text \<open>
  The end of every resumed script, in a build that takes the buffer from the stack: the answer that lets
  a request end which has waited for it is undefined.
\<close>

theorem resumed_end_reads_dead_buffer:
  assumes "engine_inv own tab p s" and "c \<in> set (busy_ctxs p)" and "phase_of p c = Accepted"
    and "executes env" and "calls_first vm env [prepend env, Some (primary env), append env]"
    and "\<not> heap_alloca env" and "\<forall>op. snd (snd (vm op (Suc (fst (vm op 0))))) = Script_end"
  shows "\<exists>t. socket_read_cb vm env bev (Some c) s = Some t \<and> remote_answer vm (Some c) t = None"
proof -
  obtain t x where t: "socket_read_cb vm env bev (Some c) s = Some t" "x = Suspended"
    "first_call vm c [prepend env, Some (primary env), append env] s t"
    "if x = Idle then engine_inv own tab (release c p) t \<and> answered own c s t
        else engine_inv own tab (move c x p) t" "frame_gone (heap_alloca env) (old_cwd (cx c t))"
    using socket_read_cb_run [OF assms(1-3), of vm env bev] assms(4,5) unfolding executes_def by auto
  have "engine_inv own tab (move c Suspended p) t" using t(2,4) by simp
  moreover have "resume_stop vm c t = Some Script_end" using t(3) assms(7) by (auto simp: first_call_def)
  moreover have "old_cwd (cx c t) = Cwd_dead" using t(5) assms(6) by (simp add: frame_gone_def)
  ultimately have "remote_answer vm (Some c) t = None"
    using suspended_answer_dead [of own tab "move c Suspended p" t c vm] assms(2) by simp
  then show ?thesis using t(1) by blast
qed

theorem resumed_end_reads_dead_buffer_witness:
  "\<exists>s t. socket_read_cb (calling_vm Script_end) sample_env NULL (Some 1) s = Some t
     \<and> remote_answer (calling_vm Script_end) (Some 1) t = None"
proof -
  obtain s own tab where s: "engine_inv own tab \<lparr>free_ctxs = [0], busy_ctxs = [1], phase_of = (\<lambda>_. Idle)(1 := Accepted)\<rparr> s"
    by (rule connected_engine)
  have "\<not> heap_alloca sample_env"
    "\<forall>op. snd (snd (calling_vm Script_end op (Suc (fst (calling_vm Script_end op 0))))) = Script_end"
    by (simp_all add: sample_env_def calling_vm_def)
  from resumed_end_reads_dead_buffer [OF s _ _ calling_sample(2) calling_sample(1) [of Script_end] this, of 1 NULL]
  show ?thesis by auto
qed

section \<open>The pool\<close>

text \<open>
  C6. The pool is first in, first out: a context that is given back is handed out again after all
  contexts that were free before it, in their order.
\<close>

theorem context_pool_fifo:
  assumes "engine_rep s ps us" and "c \<in> set us" and "returnable c s"
  shows "\<exists>t u. free_coroutine_context (Some c) s = Some t
     \<and> coroutine_pool.takes (Suc (length ps)) t = Some (ps @ [c], u)
     \<and> engine_rep u [] (rev (ps @ [c]) @ remove1 c us)"
  by (rule coroutine_pool.give_then_takes [OF assms])

lemma engine_inv_rep: "engine_inv own tab p s \<Longrightarrow> engine_rep s (free_ctxs p) (busy_ctxs p)"
  by (auto simp: engine_inv_def engine_rep_def ids_ok_def homes_def Map.ran_def)

theorem context_pool_fifo_witness:
  "\<exists>s t u. free_coroutine_context (Some 1) s = Some t \<and> coroutine_pool.takes 2 t = Some ([0, 1], u)"
proof -
  obtain s own tab where s:
    "engine_inv own tab \<lparr>free_ctxs = [0], busy_ctxs = [1], phase_of = (\<lambda>_. Idle)(1 := Accepted)\<rparr> s"
    by (rule connected_engine)
  have "1 \<in> dom (ctxs s)" "connected s 1"
    using engine_invD(2) [OF s] engine_invD(7) [OF s, of 1] by (auto simp: phase_ok_def)
  then have r: "returnable 1 s" by (auto simp: returnable_def connected_def cx_def)
  have e: "engine_rep s [0] [1]" using engine_inv_rep [OF s] by simp
  have n: "Suc (length [0 :: nat]) = 2" by simp
  from context_pool_fifo [OF e _ r] show ?thesis unfolding n by auto
qed

section \<open>Where the code does not do what it means to\<close>

text \<open>
  C9. A script that throws or bails out (\<open>exit\<close>, a fatal error) after it has been resumed jumps to
  the \<open>zend_try\<close> of \<open>php_execute_script_coro\<close>, whose frame is gone: \<open>resume_coroutine_context\<close> runs
  the script without a \<open>zend_try\<close> of its own.
\<close>

theorem resumed_script_must_not_die:
  assumes "engine_inv own tab p s" and "c \<in> set (busy_ctxs p)" and "phase_of p c = Suspended"
    and "resume_stop vm c s = Some st" and "st \<in> {Uncaught, Bail}"
  shows "remote_answer vm (Some c) s = None"
  using suspended_answer_dies [OF assms] .

theorem resumed_script_must_not_die_witness:
  "\<exists>s. resume_stop (calling_vm Bail) 1 s = Some Bail \<and> remote_answer (calling_vm Bail) (Some 1) s = None"
proof -
  obtain s own tab where s:
    "engine_inv own tab \<lparr>free_ctxs = [0], busy_ctxs = [1], phase_of = (\<lambda>_. Idle)(1 := Suspended)\<rparr> s"
    "resume_stop (calling_vm Bail) 1 s = Some Bail" by (rule suspended_engine)
  from resumed_script_must_not_die [OF s(1) _ _ s(2)] s(2) show ?thesis by auto
qed

text \<open>
  A request that ends after a resume never leaves the loop, even when it is the last one that
  \<open>max_requests\<close> allows (the result of \<open>close_request\<close> is dropped, and the counter has then passed the
  value it is compared with), and the files listed after the one that yielded are never run.
\<close>

theorem resume_drops_rest:
  assumes "engine_inv own tab p s" and "c \<in> set (busy_ctxs p)" and "phase_of p c = Suspended"
    and "resume_stop vm c s = Some Script_end" and "old_cwd (cx c s) \<noteq> Cwd_dead"
  shows "\<exists>t. remote_answer vm (Some c) s = Some t \<and> requests (wk t) = requests (wk s) + 1
     \<and> loopexit (wk t) = loopexit (wk s) \<and> files_run (wk t) = files_run (wk s)"
  using suspended_answer_run [OF assms(1-4)] assms(5) by auto

theorem resume_drops_rest_witness:
  "\<exists>s t. remote_answer (calling_vm Script_end) (Some 1) s = Some t \<and> files_run (wk t) = files_run (wk s)"
proof -
  obtain s own tab where s:
    "engine_inv own tab \<lparr>free_ctxs = [0], busy_ctxs = [1], phase_of = (\<lambda>_. Idle)(1 := Suspended)\<rparr> s"
    "resume_stop (calling_vm Script_end) 1 s = Some Script_end" "frame_gone True (old_cwd (cx 1 s))"
    by (rule suspended_engine)
  have "old_cwd (cx 1 s) \<noteq> Cwd_dead" using s(3) by (auto simp: frame_gone_def)
  from resume_drops_rest [OF s(1) _ _ s(2) this] show ?thesis by auto
qed

text \<open>
  A client that goes away while no script of its context is live, as it is before its request
  has been read: \<open>event_cb\<close> destroys the \<open>op_array\<close> the context names all the same (the field is as
  the memory was, or that of the request before), which is undefined.
\<close>

theorem hang_up_before_request:
  assumes "engine_inv own tab p s" and "c \<in> set (busy_ctxs p)"
    and "\<forall>op. op_array (cx c s) = Some op \<longrightarrow> op \<notin> dom (op_arrays (wk s))"
  shows "event_cb bev (Some c) s = None"
  using event_cb_no_script [OF assms] .

theorem hang_up_before_request_witness:
  "\<exists>s t. do_accept 5 s = Some t \<and> connected t 1 \<and> event_cb (ctx_bev (cx 1 t)) (Some 1) t = None"
proof -
  let ?p = "\<lparr>free_ctxs = [1, 0], busy_ctxs = [], phase_of = (\<lambda>_. Idle)\<rparr>"
  obtain s own tab where s: "engine_inv own tab ?p s" "op_arrays (wk s) = Map.empty"
    by (rule booted_engine)
  have f: "free_ctxs ?p = 1 # [0]" "(0 :: int) < 5" by simp_all
  from do_accept_run [OF s(1) f] obtain t where t: "do_accept 5 s = Some t"
    "engine_inv own tab \<lparr>free_ctxs = [0], busy_ctxs = [1], phase_of = (\<lambda>_. Idle)(1 := Accepted)\<rparr> t"
    "op_arrays (wk t) = Map.empty" using s(2) by auto
  have "event_cb (ctx_bev (cx 1 t)) (Some 1) t = None"
    by (rule hang_up_before_request [OF t(2)]) (simp_all add: t(3))
  moreover have "connected t 1" using engine_invD(7) [OF t(2), of 1] by (simp add: phase_ok_def)
  ultimately show ?thesis using t(1) by blast
qed

text \<open>
  With a count of coroutines that is not positive (\<open>PHP_COROUTINE_ENGINE_COUNT=0\<close>, or text that
  \<open>atoi\<close> reads as 0) there is no context, and the first connection dereferences a null pointer.
\<close>

theorem accept_without_contexts:
  assumes "context_count s \<le> 0" and "0 \<le> fd"
  shows "do_accept fd s = None"
  using assms
  by (auto simp: do_accept_def use_coroutine_context_def G_upd_def ctx_write_def asser_event_stop_def
      split: bind_split)

theorem accept_without_contexts_witness:
  "coroutine_count (Some ''none'') = Some 0 \<and> do_accept 5 (init_coroutine_static blank_engine) = None"
proof -
  have "context_count (init_coroutine_static blank_engine) \<le> 0" "(0 :: int) \<le> 5"
    by (simp_all add: init_coroutine_static_def)
  from accept_without_contexts [OF this] show ?thesis
    by (simp add: coroutine_count_def atoi_def number_of_text_def int32_def is_space_def)
qed

text \<open>
  Every request record is allocated and none is ever released: a read event leaves exactly one
  more behind, whatever becomes of the request.
\<close>

theorem request_record_leaks:
  assumes "engine_inv own tab p s" and "c \<in> set (busy_ctxs p)" and "phase_of p c = Accepted"
  shows "\<exists>t q. socket_read_cb vm env bev (Some c) s = Some t \<and> q \<notin> dom (reqs (wk s))
     \<and> dom (reqs (wk t)) = insert q (dom (reqs (wk s)))"
  using socket_read_cb_run [OF assms, of vm env bev] unfolding grew_def by blast

theorem request_record_leaks_witness:
  "\<exists>s t. socket_read_cb plain_vm sample_env NULL (Some 1) s = Some t \<and> dom (reqs (wk t)) \<noteq> dom (reqs (wk s))"
proof -
  obtain s own tab where s: "engine_inv own tab \<lparr>free_ctxs = [0], busy_ctxs = [1], phase_of = (\<lambda>_. Idle)(1 := Accepted)\<rparr> s"
    by (rule connected_engine)
  from request_record_leaks [OF s, of 1 plain_vm sample_env NULL] obtain t q where
    "socket_read_cb plain_vm sample_env NULL (Some 1) s = Some t" "q \<notin> dom (reqs (wk s))"
    "dom (reqs (wk t)) = insert q (dom (reqs (wk s)))" by auto
  then show ?thesis by (metis insertI1)
qed

end
