(* ===== verification/Fcgi_Properties.thy ===== *)
theory Fcgi_Properties
  imports Fcgi_Out_Lemmas Coro_Properties
begin

text \<open>
  The properties of the FastCGI layer: what a client sends is what the environment and the body give
  back, what is written is what a client reads, and where the code departs from that.
\<close>

section \<open>Concrete clients\<close>

definition whole_reads :: reader where
  "whole_reads n k = min n k"

lemma whole_reads_all: "reads_all whole_reads"
  by (simp add: reads_all_def whole_reads_def)

definition bytes_of :: "string \<Rightarrow> byte list" where
  "bytes_of s = map (of_nat \<circ> of_char) s"

definition small_env :: "chunk list" where
  "small_env = [([(bytes_of ''PATH'', bytes_of ''/a''), (bytes_of ''QUERY'', [])], [0, 0]),
     ([(bytes_of ''PATH'', bytes_of ''/b'')], [])]"

lemma small_env_ok: "\<forall>c \<in> set small_env. chunk_ok c"
  by (simp add: small_env_def chunk_ok_def encode_params_def encode_pair_def put_length_def bytes_of_def FCGI_MAX_LENGTH_def)

lemma small_env_plain: "\<forall>c \<in> set small_env. \<forall>nv \<in> set (fst c). plain_name (fst nv)"
  by (simp add: small_env_def plain_name_def bytes_of_def word_less_nat_alt unat_of_nat)

lemma init_fresh: "fresh_request ((fcgi_init_request l)\<lparr>inb := bs\<rparr>)"
  by (simp add: fresh_request_def fcgi_init_request_def)

section \<open>Reading\<close>

text \<open>
  C10. A request as a client sends it, in records of any sizes with any padding, is read whole, when its
  names are plain: shorter than three bytes, or longer with the three bytes that enter the hash value
  below 128. The environment maps every name to its last value and \<open>FCGI_ROLE\<close> to the role (if the client
  does not send that name), the id and the keep flag are the client's, and the bytes behind the request
  stay. A name of three bytes is stored and not found again (\<open>three_byte_name_lost\<close> below), and so may be
  one with other bytes there.
\<close>

theorem request_received:
  assumes "reads_all rd" and "fresh_request r" and "i < 65536" and "role \<in> {1, 2, 3}"
    and "length pad < 256" and "\<forall>c \<in> set cs. chunk_ok c"
    and "\<forall>c \<in> set cs. \<forall>nv \<in> set (fst c). plain_name (fst nv)"
    and "length buf = FCGI_MAX_LENGTH + 8" and "inb r = client_request i role flags pad cs @ rest"
  shows "\<exists>u. fcgi_read_request rd vars buf r = Some (True, u) \<and> inb u = rest \<and> hash_ok (env u)
     \<and> keep u = bit flags 0 \<and> req_id u = int i \<and> has_env u
     \<and> (\<forall>v. fcgi_getenv v (env u) = map_of (rev ((FCGI_ROLE, the (role_name role)) # concat (map fst cs))) v)"
  using read_request_run [OF assms] .

theorem request_received_witness:
  "\<exists>u. fcgi_read_request whole_reads Map.empty (replicate (FCGI_MAX_LENGTH + 8) 0)
       ((fcgi_init_request 0)\<lparr>inb := client_request 1 1 1 [] small_env @ [7]\<rparr>) = Some (True, u)
     \<and> inb u = [7] \<and> keep u \<and> fcgi_getenv (bytes_of ''PATH'') (env u) = Some (bytes_of ''/b'')"
proof -
  have a: "(1 :: nat) < 65536" "(1 :: nat) \<in> {1, 2, 3}" "length ([] :: byte list) < 256"
    "length (replicate (FCGI_MAX_LENGTH + 8) (0 :: byte)) = FCGI_MAX_LENGTH + 8" by simp_all
  have b: "inb ((fcgi_init_request 0)\<lparr>inb := client_request 1 1 1 [] small_env @ [7]\<rparr>)
     = client_request 1 1 1 [] small_env @ [7]" by simp
  have c: "map_of (rev ((FCGI_ROLE, the (role_name 1)) # concat (map fst small_env))) (bytes_of ''PATH'')
     = Some (bytes_of ''/b'')" by (simp add: small_env_def)
  from request_received [OF whole_reads_all init_fresh a(1,2,3) small_env_ok small_env_plain a(4) b, of Map.empty]
  obtain u where u: "fcgi_read_request whole_reads Map.empty (replicate (FCGI_MAX_LENGTH + 8) 0)
       ((fcgi_init_request 0)\<lparr>inb := client_request 1 1 1 [] small_env @ [7]\<rparr>) = Some (True, u)"
    "inb u = [7]" "keep u = bit (1 :: byte) 0"
    "\<forall>v. fcgi_getenv v (env u) = map_of (rev ((FCGI_ROLE, the (role_name 1)) # concat (map fst small_env))) v"
    by blast
  have "fcgi_getenv (bytes_of ''PATH'') (env u) = Some (bytes_of ''/b'')" unfolding u(4) [rule_format] by (rule c)
  then show ?thesis using u(1-3) by auto
qed

text \<open>
  C15. A request of which a part is still missing is not waited for: reading it fails, wherever it was
  cut. The callback of the read handler does not look at that, so its caller goes on.
\<close>

theorem cut_request_rejected:
  assumes "reads_all rd" and "fresh_request r" and "i < 65536" and "role \<in> {1, 2, 3}"
    and "length pad < 256" and "\<forall>c \<in> set cs. chunk_ok c"
    and "length buf = FCGI_MAX_LENGTH + 8" and "inb r = take k (client_request i role flags pad cs)"
    and "k < length (client_request i role flags pad cs)"
  shows "(\<exists>u. fcgi_read_request rd vars buf r = Some (False, u)) \<and> init_request_callback rd vars buf r \<noteq> None"
proof
  show "\<exists>u. fcgi_read_request rd vars buf r = Some (False, u)" using read_request_cut [OF assms] .
  let ?r = "r\<lparr>hooks := hooks r @ [On_accept, On_read]\<rparr>"
  have "fresh_request ?r" "inb ?r = take k (client_request i role flags pad cs)"
    using assms(2,8) by (simp_all add: fresh_request_def)
  from read_request_cut [OF assms(1) this(1) assms(3-7) this(2) assms(9), of vars]
  show "init_request_callback rd vars buf r \<noteq> None" by (auto simp: init_request_callback_def)
qed

theorem cut_request_rejected_witness:
  "\<exists>u. fcgi_read_request whole_reads Map.empty (replicate (FCGI_MAX_LENGTH + 8) 0)
       ((fcgi_init_request 0)\<lparr>inb := take 20 (client_request 1 1 1 [] small_env)\<rparr>) = Some (False, u)"
proof -
  have a: "(1 :: nat) < 65536" "(1 :: nat) \<in> {1, 2, 3}" "length ([] :: byte list) < 256"
    "length (replicate (FCGI_MAX_LENGTH + 8) (0 :: byte)) = FCGI_MAX_LENGTH + 8" by simp_all
  have b: "inb ((fcgi_init_request 0)\<lparr>inb := take 20 (client_request 1 1 1 [] small_env)\<rparr>)
     = take 20 (client_request 1 1 1 [] small_env)" by simp
  have k: "20 < length (client_request 1 1 1 [] small_env)" by (simp add: client_request_def begin_body_def)
  show ?thesis
    using cut_request_rejected [OF whole_reads_all init_fresh a(1,2,3) small_env_ok a(4) b k, of Map.empty] by blast
qed

text \<open>
  C13. Whatever bytes a client sends and in whatever pieces they come: reading a request ends, stays
  inside its buffers, takes no more than was sent, and leaves a well-formed environment, so that the
  request can be used again. This includes a request for values and the answer that is built for it in the
  same buffer, for any variables that are registered, as long as their names and values are shorter than
  128 bytes; those of \<open>fcgi_init\<close> are.
\<close>

theorem any_bytes_safe:
  assumes "fresh_request r" and "length buf = FCGI_MAX_LENGTH + 8" and "short_vars vars"
  shows "\<exists>ok u. fcgi_read_request rd vars buf r = Some (ok, u) \<and> fresh_request u \<and> has_env u
    \<and> length (inb u) \<le> length (inb r)"
  using read_request_safe [OF assms] .

theorem any_bytes_safe_witness:
  "\<exists>ok u. fcgi_read_request whole_reads fcgi_mgmt_vars (replicate (FCGI_MAX_LENGTH + 8) 0)
     ((fcgi_init_request 0)\<lparr>inb := [1, 9, 0, 0, 0, 17, 0, 0, 15, 0] @ bytes_of ''FCGI_MPXS_CONNS''\<rparr>) = Some (ok, u) \<and> fresh_request u"
  using any_bytes_safe [OF init_fresh [of "[1, 9, 0, 0, 0, 17, 0, 0, 15, 0] @ bytes_of ''FCGI_MPXS_CONNS''" 0] _ short_mgmt_vars,
      of "replicate (FCGI_MAX_LENGTH + 8) 0" whole_reads]
  by (simp only: length_replicate) blast

text \<open>
  C12. Reading the body gives its bytes in order: a read of \<open>n\<close> bytes returns the next \<open>n\<close> of them,
  or all that are left, across the boundaries of records and their padding, and leaves the request
  where the next read goes on.
\<close>

theorem body_read:
  assumes "reads_all rd" and "\<forall>cp \<in> set cs. piece_ok cp" and "length p < 256" and "pending i c p cs rest r"
  shows "read_ok i [] (c @ concat (map fst cs)) rest n (fcgi_read rd n r)"
  using fcgi_read_run [OF assms] .

theorem body_read_witness:
  "read_ok 1 [] [10, 20, 30] [7] 2
     (fcgi_read whole_reads 2 ((fcgi_init_request 0)\<lparr>inb := stdin_records 1 [([10], [0]), ([20, 30], [])] @ [7]\<rparr>))"
proof -
  have "\<forall>cp \<in> set [([10], [0]), ([20, 30], [])]. piece_ok cp" by (simp add: piece_ok_def)
  moreover have "length ([] :: byte list) < 256" by simp
  moreover have "pending 1 [] [] [([10], [0]), ([20, 30], [])] [7]
      ((fcgi_init_request 0)\<lparr>inb := stdin_records 1 [([10], [0]), ([20, 30], [])] @ [7]\<rparr>)"
    by (simp add: pending_def fcgi_init_request_def)
  ultimately show ?thesis using body_read [OF whole_reads_all, where n = 2] by fastforce
qed

section \<open>The environment\<close>

lemma strndup_returns: "fcgi_hash_strndup s h = Some (y, u) \<Longrightarrow> y = s"
  by (auto simp: fcgi_hash_strndup_def Let_def split: bind_splits if_splits)

lemma set_returns: "fcgi_hash_set hv v x h = Some (y, u) \<Longrightarrow> y = x"
  by (auto simp: fcgi_hash_set_def Let_def dest!: strndup_returns split: bind_splits option.splits if_splits)

text \<open>The two hash values of a name of three bytes differ by the byte behind it.\<close>

lemma three_byte_hash:
  assumes "length n = 3" and "n ! 1 < 128" and "n ! 2 < 128" and "b \<noteq> 0"
  shows "FCGI_HASH_FUNC from_uchar n b \<noteq> FCGI_HASH_FUNC from_char n 0"
proof
  assume "FCGI_HASH_FUNC from_uchar n b = FCGI_HASH_FUNC from_char n 0"
  then have eq: "push_bit 2 (from_uchar b) = (push_bit 2 (from_char 0) :: 32 word)"
    using assms by (simp add: FCGI_HASH_FUNC_def Let_def nth_append ascii_char)
  have b: "unat b < 256" using unsigned_less [of b] by simp
  then have "unat (push_bit 2 (from_uchar b)) = 4 * unat b"
    by (simp add: from_uchar_def unat_word_ariths push_bit_eq_mult unsigned_ucast_eq take_bit_nat_eq_self)
  moreover have "unat (push_bit 2 (from_char 0)) = 0" by (simp add: from_char_def)
  ultimately have "unat b = 0" using eq by simp
  then show False using assms(4) by (simp add: unat_eq_zero)
qed

text \<open>
  C14. The environment of a request is a map from names to values for the C functions that read and
  write it: setting a name changes that name only, to the value up to its first null byte, deleting
  it removes it, nothing else fails, and listing the environment shows everything that can be found.
\<close>

theorem env_is_map:
  assumes "hash_ok h"
  shows "\<exists>y u. fcgi_putenv v x h = Some (y, u) \<and> y = map_option c_string x \<and> hash_ok u
     \<and> (\<forall>w. fcgi_getenv w u = (if w = v then map_option c_string x else fcgi_getenv w h))
     \<and> (\<forall>w z. fcgi_getenv w u = Some z \<longrightarrow> (w, z) \<in> set (fcgi_loadenv u))"
proof (cases x)
  case None
  obtain u where u: "fcgi_hash_del (FCGI_HASH_FUNC from_char v 0) v h = Some u" "hash_ok u"
    "\<forall>hv' v'. fcgi_hash_get hv' v' u = (if (hv', v') = (FCGI_HASH_FUNC from_char v 0, v) then None else fcgi_hash_get hv' v' h)"
    using del_run [OF assms] by blast
  then show ?thesis using None apply_iff [OF u(2)]
    by (intro exI [of _ None] exI [of _ u]) (auto simp: fcgi_putenv_def fcgi_getenv_def fcgi_loadenv_def)
next
  case (Some z)
  obtain u where u: "map_option snd (fcgi_hash_set (FCGI_HASH_FUNC from_char v 0) v (c_string z) h) = Some u" "hash_ok u"
    "\<forall>hv' v'. fcgi_hash_get hv' v' u = (if (hv', v') = (FCGI_HASH_FUNC from_char v 0, v) then Some (c_string z) else fcgi_hash_get hv' v' h)"
    using set_run [OF assms, of "FCGI_HASH_FUNC from_char v 0" v "c_string z"] by auto
  moreover obtain y where "fcgi_hash_set (FCGI_HASH_FUNC from_char v 0) v (c_string z) h = Some (y, u)" using u(1) by auto
  moreover have "y = c_string z" using calculation(4) by (rule set_returns)
  ultimately show ?thesis using Some apply_iff [OF u(2)]
    by (intro exI [of _ "Some y"] exI [of _ u]) (auto simp: fcgi_putenv_def fcgi_getenv_def fcgi_loadenv_def)
qed

theorem env_is_map_witness:
  "\<exists>y u. fcgi_putenv (bytes_of ''A'') (Some [5, 0, 6]) fcgi_hash_init = Some (y, u)
     \<and> fcgi_getenv (bytes_of ''A'') u = Some [5] \<and> fcgi_getenv (bytes_of ''B'') u = None"
  using env_is_map [OF init_ok, of "bytes_of ''A''" "Some [5, 0, 6]"]
  by (auto simp: c_string_def fcgi_getenv_def bytes_of_def)

text \<open>
  A variable whose name has three bytes is stored and cannot be found again: the decoder hashes
  the byte behind the name, the first one of the value, and the lookup a null byte.
\<close>

theorem three_byte_name_lost:
  assumes "length n = 3" and "n ! 1 < 128" and "n ! 2 < 128" and "b \<noteq> 0"
    and "length (encode_params [(n, b # v)]) \<le> FCGI_MAX_LENGTH"
  shows "\<exists>u. fcgi_get_params aft (encode_params [(n, b # v)]) fcgi_hash_init = Some (True, u)
     \<and> fcgi_getenv n u = None \<and> (n, b # v) \<in> set (fcgi_loadenv u)"
proof -
  let ?k = "FCGI_HASH_FUNC from_uchar n b"
  have ne: "?k \<noteq> FCGI_HASH_FUNC from_char n 0" using three_byte_hash [OF assms(1-4)] .
  obtain y u where u: "fcgi_hash_set ?k n (b # v) fcgi_hash_init = Some (y, u)" "hash_ok u"
    "\<forall>hv' v'. fcgi_hash_get hv' v' u = (if (hv', v') = (?k, n) then Some (b # v) else fcgi_hash_get hv' v' fcgi_hash_init)"
    using set_run [OF init_ok] by blast
  have "fcgi_get_params aft (encode_params [(n, b # v)]) fcgi_hash_init = Some (True, u)"
    using get_params_all [OF assms(5), of aft fcgi_hash_init] u(1) by simp
  then show ?thesis using u(3) ne apply_iff [OF u(2)]
    by (intro exI [of _ u]) (auto simp: fcgi_getenv_def fcgi_loadenv_def)
qed

theorem three_byte_name_lost_witness:
  "\<exists>u. fcgi_get_params 0 (encode_params [(bytes_of ''TMP'', bytes_of ''/t'')]) fcgi_hash_init = Some (True, u)
     \<and> fcgi_getenv (bytes_of ''TMP'') u = None"
proof -
  have "length (bytes_of ''TMP'') = 3" "bytes_of ''TMP'' ! 1 < 128" "bytes_of ''TMP'' ! 2 < 128" "(47 :: byte) \<noteq> 0"
    "length (encode_params [(bytes_of ''TMP'', 47 # bytes_of ''t'')]) \<le> FCGI_MAX_LENGTH"
    by (simp_all add: bytes_of_def encode_params_def encode_pair_def put_length_def FCGI_MAX_LENGTH_def)
  moreover have "bytes_of ''/t'' = 47 # bytes_of ''t''" by (simp add: bytes_of_def)
  ultimately show ?thesis using three_byte_name_lost by metis
qed

section \<open>Writing\<close>

text \<open>
  C11. Whatever strings a request writes to whatever streams, over a socket that takes its bytes in any
  pieces: each write reports its length, and the client decodes the bytes sent, when the request is
  ended, to records that hold exactly the bytes written, in their order and each under its type,
  closed by the record that ends the request.
\<close>

theorem response_decodes:
  assumes "out_hdr r = None" and "out_pos r = 0" and "length (out_buf r) = out_size + 16" and "sent r = []"
    and "Failed \<notin> set (socket r)" and "\<not> ended r"
  shows "\<exists>u v qs b3. write_all ws r = Some (map (int \<circ> length \<circ> snd) ws, u) \<and> fcgi_end u = Some (True, v)
     \<and> records_of (sent v) = Some (qs @ [(type_code FCGI_END_REQUEST, [0, 0, 0, 0, 0] @ b3)]) \<and> length b3 = 3
     \<and> flat qs = flat ws"
proof -
  have R: "rep [] None r" "settled None r" using assms by (simp_all add: rep_def settled_def)
  obtain u qs opn where u: "write_all ws r = Some (map (int \<circ> length \<circ> snd) ws, u)" "rep qs opn u" "settled opn u"
    "same_conn r u" "flat qs @ flat (open_part opn) = flat ws"
    using write_all_run [OF R, of ws] by auto
  have "\<not> ended u" using u(4) assms(6) by (simp add: same_conn_def)
  from end_run [OF u(2,3) this] obtain v ps b3 where v: "fcgi_end u = Some (True, v\<lparr>ended := True\<rparr>)" "length b3 = 3"
    "sent v = encs (req_id u) (ps @ [end_record (req_id u) b3])" "flat ps = flat qs @ flat (open_part opn)"
    "\<forall>q \<in> set ps. length (snd q) < 65536" by blast
  have "records_of (sent v) = Some (ps @ [end_record (req_id u) b3])"
    unfolding v(3) using v(2,5) by (intro records_encs) (auto simp: end_record_def)
  then show ?thesis using u(1,5) v(1,2,4)
    by (intro exI [of _ u] exI [of _ "v\<lparr>ended := True\<rparr>"] exI [of _ ps] exI [of _ b3]) (simp add: end_record_def)
qed

theorem response_decodes_witness:
  "\<exists>u v qs b3. write_all [(type_code FCGI_STDOUT, replicate 9000 65), (type_code FCGI_STDERR, [66])]
       ((fcgi_init_request 0)\<lparr>socket := [Took 3, Interrupted, Took 100]\<rparr>) = Some ([9000, 1], u)
     \<and> fcgi_end u = Some (True, v)
     \<and> records_of (sent v) = Some (qs @ [(type_code FCGI_END_REQUEST, [0, 0, 0, 0, 0] @ b3)])"
proof -
  let ?r = "(fcgi_init_request 0)\<lparr>socket := [Took 3, Interrupted, Took 100]\<rparr>"
  have "out_hdr ?r = None" "out_pos ?r = 0" "length (out_buf ?r) = out_size + 16" "sent ?r = []"
    "Failed \<notin> set (socket ?r)" "\<not> ended ?r" by (simp_all add: fcgi_init_request_def)
  from response_decodes [OF this, of "[(type_code FCGI_STDOUT, replicate 9000 65), (type_code FCGI_STDERR, [66])]"]
  show ?thesis by auto
qed

text \<open>
  On a socket that would block, which \<open>write\<close> reports as an error, output is lost: the flush
  fails, what the socket did not take is gone from the buffer, and the connection is not kept.
\<close>

theorem blocked_output_lost:
  assumes "out_hdr r = None" and "out_pos r \<le> length (out_buf r)" and "socket r = [Took k, Failed]" and "k < out_pos r"
  shows "\<exists>u. fcgi_flush False r = Some (False, u) \<and> sent u = sent r @ take k (out_buf r) \<and> out_pos u = 0
     \<and> socket u = [] \<and> \<not> keep u"
proof -
  have "safe_write (take (out_pos r) (out_buf r)) 0 (socket r) (sent r)
      = (-1, [], sent r @ take k (out_buf r))" using assms by (simp add: min_absorb2)
  then show ?thesis using assms by (simp add: fcgi_flush_def close_packet_def send_all_def Let_def)
qed

theorem blocked_output_lost_witness:
  "\<exists>u. fcgi_flush False ((fcgi_init_request 0)\<lparr>out_pos := 16, socket := [Took 8, Failed]\<rparr>) = Some (False, u)
     \<and> length (sent u) = 8 \<and> out_pos u = 0"
proof -
  let ?r = "(fcgi_init_request 0)\<lparr>out_pos := 16, socket := [Took 8, Failed]\<rparr>"
  have "out_hdr ?r = None" "out_pos ?r \<le> length (out_buf ?r)" "socket ?r = [Took 8, Failed]" "8 < out_pos ?r"
    by (simp_all add: fcgi_init_request_def out_size_def)
  from blocked_output_lost [OF this] show ?thesis by (auto simp: fcgi_init_request_def out_size_def)
qed

section \<open>The request of the engine\<close>

text \<open>What the engine keeps of a request: descriptor, keep flag, whether it has ended.\<close>

definition conn_of :: "ptr \<Rightarrow> fcgi_request \<Rightarrow> fcgi_conn" where
  "conn_of bev r = \<lparr>q_fd = fd r, q_keep = keep r, q_bev = bev, q_ended = ended r\<rparr>"

lemma flush_frame:
  assumes "fcgi_flush b r = Some (True, u)"
  shows "fd u = fd r \<and> keep u = keep r \<and> ended u = ended r \<and> has_env u = has_env r \<and> env u = env r"
  using assms
  by (auto simp: fcgi_flush_def close_packet_def send_all_def Let_def split: bind_splits option.splits prod.splits if_splits)

lemma req_upd_reads:
  "req_read p s = Some q \<Longrightarrow> \<exists>t. req_upd f p s = Some t \<and> req_read p t = Some (f q)"
  by (auto simp: req_read_def req_upd_def upd_at_def deref_def split: option.splits)

text \<open>
  The engine's view of a request is faithful: finishing a request whose output could be written
  does to its descriptor, its keep flag and its ended flag what the engine's model does.
\<close>

theorem finish_refines_engine:
  assumes "fcgi_finish_request force r = Some (True, u)" and "req_read p s = Some (conn_of bev r)"
  shows "\<exists>t. fcgi_finish_conn p force s = Some t \<and> req_read p t = Some (conn_of bev u)"
proof (cases "0 \<le> fd r")
  case False
  then show ?thesis using assms by (simp add: fcgi_finish_request_def fcgi_finish_conn_def conn_of_def)
next
  case True
  obtain v where v: "fcgi_end r = Some (True, v)" "fcgi_close force True v = Some u"
    using assms(1) True by (auto simp: fcgi_finish_request_def split: bind_splits)
  have e: "fd v = fd r" "keep v = keep r" "ended v"
    using v(1) flush_frame [of True r] by (auto simp: fcgi_end_def split: if_splits)
  have c: "conn_of bev u = (conn_of bev r)\<lparr>q_ended := True, q_fd := (if force \<or> \<not> keep r then -1 else fd r)\<rparr>"
    using v(2) e True by (auto simp: fcgi_close_def conn_of_def split: bind_splits if_splits)
  obtain t1 where t1: "req_upd (\<lambda>q. q\<lparr>q_ended := True\<rparr>) p s = Some t1"
    "req_read p t1 = Some ((conn_of bev r)\<lparr>q_ended := True\<rparr>)" using req_upd_reads [OF assms(2)] by blast
  show ?thesis
  proof (cases "force \<or> \<not> keep r")
    case close: True
    let ?t2 = "note_event (Closed_connection (fd r)) (close_fd (fd r) t1)"
    have "req_read p ?t2 = Some ((conn_of bev r)\<lparr>q_ended := True\<rparr>)"
      using t1(2) by (simp add: req_read_def close_fd_def note_event_def)
    from req_upd_reads [OF this, of "\<lambda>q. q\<lparr>q_fd := -1\<rparr>"] obtain t3 where
      "req_upd (\<lambda>q. q\<lparr>q_fd := -1\<rparr>) p ?t2 = Some t3" "req_read p t3 = Some (conn_of bev u)"
      using c close by auto
    then show ?thesis using assms(2) t1 True close
      by (simp add: fcgi_finish_conn_def fcgi_close_conn_def conn_of_def)
  next
    case stay: False
    then show ?thesis using assms(2) t1 True c
      by (simp add: fcgi_finish_conn_def fcgi_close_conn_def conn_of_def)
  qed
qed

theorem finish_refines_engine_witness:
  "\<exists>u t. fcgi_finish_request False ((fcgi_init_request 0)\<lparr>fd := 9\<rparr>) = Some (True, u) \<and> fd u = -1
     \<and> fcgi_finish_conn (Some 0) False (W_upd (\<lambda>w. w\<lparr>reqs := [0 \<mapsto> conn_of NULL ((fcgi_init_request 0)\<lparr>fd := 9\<rparr>)]\<rparr>) blank_engine) = Some t
     \<and> req_read (Some 0) t = Some (conn_of NULL u)"
proof -
  let ?r = "(fcgi_init_request 0)\<lparr>fd := 9\<rparr>"
  let ?s = "W_upd (\<lambda>w. w\<lparr>reqs := [0 \<mapsto> conn_of NULL ?r]\<rparr>) blank_engine"
  have "rep [] None ?r" "settled None ?r" "\<not> ended ?r"
    by (simp_all add: rep_def settled_def fcgi_init_request_def)
  from end_run [OF this] obtain v where v: "fcgi_end ?r = Some (True, v\<lparr>ended := True\<rparr>)" "same_conn ?r v" by blast
  then have "fd v = 9" "\<not> keep v" "\<not> has_env v" by (simp_all add: same_conn_def fcgi_init_request_def)
  then obtain u where u: "fcgi_finish_request False ?r = Some (True, u)" "fd u = -1"
    using v(1) by (auto simp: fcgi_finish_request_def fcgi_close_def)
  have "req_read (Some 0) ?s = Some (conn_of NULL ?r)" by (simp add: req_read_def deref_def)
  from finish_refines_engine [OF u(1) this] show ?thesis using u by blast
qed

end
