(* ===== verification/Fpm_Scoreboard.thy ===== *)
theory Fpm_Scoreboard
  imports Prelude
begin

text \<open>
  The scoreboard (sapi/fpm/fpm/fpm_scoreboard.c, fpm_request.c): one slot per worker process and the
  counters of a pool, in memory that the master and its workers share. The stages of a request are
  written by a worker into its slot. A lock that is held and not given back is waited for for ever:
  \<open>None\<close>. The times the code asks the system for are parameters; CPU times are left out.
\<close>

section \<open>Times\<close>

text \<open>Seconds and microseconds, with the macros of \<open>sys/time.h\<close>.\<close>

type_synonym timeval = "int \<times> int"

definition timersub :: "timeval \<Rightarrow> timeval \<Rightarrow> timeval" where
  "timersub a b =
     (let sec = fst a - fst b; usec = snd a - snd b in if usec < 0 then (sec - 1, usec + 1000000) else (sec, usec))"

definition timer_less :: "timeval \<Rightarrow> timeval \<Rightarrow> bool" where
  "timer_less a b = (if fst a = fst b then snd a < snd b else fst a < fst b)"

section \<open>State\<close>

datatype request_stage =
    No_stage | FPM_REQUEST_ACCEPTING | FPM_REQUEST_READING_HEADERS | FPM_REQUEST_INFO | FPM_REQUEST_EXECUTING
  | FPM_REQUEST_END | FPM_REQUEST_FINISHED

text \<open>Slots that were never written, or were cleared, hold a zero.\<close>

primrec stage_code :: "request_stage \<Rightarrow> nat" where
  "stage_code No_stage = 0"
| "stage_code FPM_REQUEST_ACCEPTING = 1"
| "stage_code FPM_REQUEST_READING_HEADERS = 2"
| "stage_code FPM_REQUEST_INFO = 3"
| "stage_code FPM_REQUEST_EXECUTING = 4"
| "stage_code FPM_REQUEST_END = 5"
| "stage_code FPM_REQUEST_FINISHED = 6"

primrec fpm_request_get_stage_name :: "request_stage \<Rightarrow> string option" where
  "fpm_request_get_stage_name No_stage = None"
| "fpm_request_get_stage_name FPM_REQUEST_ACCEPTING = Some ''Idle''"
| "fpm_request_get_stage_name FPM_REQUEST_READING_HEADERS = Some ''Reading headers''"
| "fpm_request_get_stage_name FPM_REQUEST_INFO = Some ''Getting request informations''"
| "fpm_request_get_stage_name FPM_REQUEST_EXECUTING = Some ''Running''"
| "fpm_request_get_stage_name FPM_REQUEST_END = Some ''Ending''"
| "fpm_request_get_stage_name FPM_REQUEST_FINISHED = Some ''Finishing''"

record scoreboard_proc =
  plock :: bool
  used :: bool
  start_epoch :: int
  slot_pid :: int
  nrequests :: "64 word"
  stage :: request_stage
  accepted :: timeval
  duration :: timeval
  accepted_epoch :: int
  tv :: timeval
  request_uri :: string
  query_string :: string
  request_method :: string
  content_len :: "64 word"
  script_filename :: string
  auth_user :: string
  memory :: "64 word"

definition zero_proc :: scoreboard_proc where
  "zero_proc = \<lparr>plock = False, used = False, start_epoch = 0, slot_pid = 0, nrequests = 0, stage = No_stage,
     accepted = (0, 0), duration = (0, 0), accepted_epoch = 0, tv = (0, 0), request_uri = [], query_string = [],
     request_method = [], content_len = 0, script_filename = [], auth_user = [], memory = 0\<rparr>"

datatype pm_style = PM_STYLE_STATIC | PM_STYLE_DYNAMIC | PM_STYLE_ONDEMAND

record scoreboard =
  slock :: bool
  pool_name :: string
  pm :: pm_style
  pool_epoch :: int
  idle :: int
  active :: int
  active_max :: int
  requests_total :: "64 word"
  max_children_reached :: "32 word"
  lq :: int
  lq_max :: int
  lq_len :: "32 word"
  free_proc :: int
  slow_rq :: "64 word"
  procs :: "scoreboard_proc list"

abbreviation nprocs :: "scoreboard \<Rightarrow> nat" where
  "nprocs sb \<equiv> length (procs sb)"

text \<open>Copying a C string into a field of a fixed size.\<close>

definition strlcpy :: "nat \<Rightarrow> string \<Rightarrow> string" where
  "strlcpy siz src = take (siz - 1) src"

text \<open>
  The body of the loop of \<open>fpm_scoreboard_init_main\<close>: the scoreboard of one pool, in fresh shared memory.
\<close>

definition scoreboard_init :: "string \<Rightarrow> pm_style \<Rightarrow> int \<Rightarrow> int \<Rightarrow> scoreboard option" where
  "scoreboard_init name style max_children now =
     (if max_children < 1 then None
      else Some \<lparr>slock = False, pool_name = strlcpy 32 name, pm = style, pool_epoch = now, idle = 0, active = 0,
        active_max = 0, requests_total = 0, max_children_reached = 0, lq = 0, lq_max = 0, lq_len = 0, free_proc = 0,
        slow_rq = 0, procs = replicate (nat max_children) zero_proc\<rparr>)"

section \<open>Locks\<close>

text \<open>The result and the lock afterwards.\<close>

definition fpm_spinlock :: "bool \<Rightarrow> bool \<Rightarrow> (bool \<times> bool) option" where
  "fpm_spinlock lock try_once =
     (if \<not> lock then Some (True, True) else if try_once then Some (False, lock) else None)"

section \<open>Counters\<close>

datatype scoreboard_action = FPM_SCOREBOARD_ACTION_SET | FPM_SCOREBOARD_ACTION_INC

definition bump :: "int \<Rightarrow> int \<Rightarrow> int" where
  "bump x d = (if 0 < x + d then x + d else 0)"

definition bump_word :: "'a::len word \<Rightarrow> int \<Rightarrow> 'a word" where
  "bump_word x d = (if 0 < x + of_int d then x + of_int d else 0)"

definition set_counters :: "int \<Rightarrow> int \<Rightarrow> int \<Rightarrow> int \<Rightarrow> int \<Rightarrow> int \<Rightarrow> int \<Rightarrow> scoreboard \<Rightarrow> scoreboard" where
  "set_counters i a q qlen rqs mcr slow sb =
     (let sb = (if 0 \<le> i then sb\<lparr>idle := i\<rparr> else sb);
          sb = (if 0 \<le> a then sb\<lparr>active := a\<rparr> else sb);
          sb = (if 0 \<le> q then sb\<lparr>lq := q\<rparr> else sb);
          sb = (if 0 \<le> qlen then sb\<lparr>lq_len := of_int qlen\<rparr> else sb);
          sb = (if lq_max sb < lq sb then sb\<lparr>lq_max := lq sb\<rparr> else sb);
          sb = (if 0 \<le> rqs then sb\<lparr>requests_total := of_int rqs\<rparr> else sb);
          sb = (if 0 \<le> mcr then sb\<lparr>max_children_reached := of_int mcr\<rparr> else sb)
      in (if 0 < slow then sb\<lparr>slow_rq := of_int slow\<rparr> else sb))"

definition inc_counters :: "int \<Rightarrow> int \<Rightarrow> int \<Rightarrow> int \<Rightarrow> int \<Rightarrow> scoreboard \<Rightarrow> scoreboard" where
  "inc_counters i a rqs mcr slow sb =
     sb\<lparr>idle := bump (idle sb) i, active := bump (active sb) a, requests_total := bump_word (requests_total sb) rqs,
        max_children_reached := bump_word (max_children_reached sb) mcr, slow_rq := bump_word (slow_rq sb) slow\<rparr>"

definition fpm_scoreboard_update :: "int \<Rightarrow> int \<Rightarrow> int \<Rightarrow> int \<Rightarrow> int \<Rightarrow> int \<Rightarrow> int \<Rightarrow> scoreboard_action
    \<Rightarrow> scoreboard \<Rightarrow> scoreboard option" where
  "fpm_scoreboard_update i a q qlen rqs mcr slow action sb = do {
     (_, l) \<leftarrow> fpm_spinlock (slock sb) False;
     let sb = sb\<lparr>slock := l\<rparr>;
     let sb = (case action of
                 FPM_SCOREBOARD_ACTION_SET \<Rightarrow> set_counters i a q qlen rqs mcr slow sb
               | FPM_SCOREBOARD_ACTION_INC \<Rightarrow> inc_counters i a rqs mcr slow sb);
     let sb = (if active_max sb < active sb then sb\<lparr>active_max := active sb\<rparr> else sb);
     Some (sb\<lparr>slock := False\<rparr>)
   }"

section \<open>Slots\<close>

text \<open>
  \<open>own\<close> is the worker's own slot number, which is -1 in the master. Slots are named by their number.
\<close>

definition fpm_scoreboard_proc_get :: "int \<Rightarrow> scoreboard option \<Rightarrow> int \<Rightarrow> nat option" where
  "fpm_scoreboard_proc_get own sb child_index =
     (case sb of
        None \<Rightarrow> None
      | Some sb \<Rightarrow>
          let i = (if child_index < 0 then own else child_index) in
          if i < 0 \<or> int (nprocs sb) \<le> i then None else Some (nat i))"

definition fpm_scoreboard_acquire :: "bool \<Rightarrow> scoreboard \<Rightarrow> (bool \<times> scoreboard) option" where
  "fpm_scoreboard_acquire nohang sb = do {
     (ok, l) \<leftarrow> fpm_spinlock (slock sb) nohang;
     Some (ok, sb\<lparr>slock := l\<rparr>)
   }"

definition fpm_scoreboard_release :: "scoreboard \<Rightarrow> scoreboard" where
  "fpm_scoreboard_release sb = sb\<lparr>slock := False\<rparr>"

definition upd_proc :: "nat \<Rightarrow> (scoreboard_proc \<Rightarrow> scoreboard_proc) \<Rightarrow> scoreboard \<Rightarrow> scoreboard" where
  "upd_proc i f sb = sb\<lparr>procs := (procs sb)[i := f (procs sb ! i)]\<rparr>"

definition fpm_scoreboard_proc_acquire :: "int \<Rightarrow> scoreboard \<Rightarrow> int \<Rightarrow> bool \<Rightarrow> (nat option \<times> scoreboard) option" where
  "fpm_scoreboard_proc_acquire own sb child_index nohang =
     (case fpm_scoreboard_proc_get own (Some sb) child_index of
        None \<Rightarrow> Some (None, sb)
      | Some i \<Rightarrow> do {
          (ok, l) \<leftarrow> fpm_spinlock (plock (procs sb ! i)) nohang;
          Some (if ok then Some i else None, upd_proc i (\<lambda>p. p\<lparr>plock := l\<rparr>) sb)
        })"

definition fpm_scoreboard_proc_release :: "nat \<Rightarrow> scoreboard \<Rightarrow> scoreboard" where
  "fpm_scoreboard_proc_release i sb = upd_proc i (\<lambda>p. p\<lparr>plock := False\<rparr>) sb"

definition fpm_scoreboard_proc_free :: "int \<Rightarrow> scoreboard \<Rightarrow> scoreboard" where
  "fpm_scoreboard_proc_free child_index sb =
     (if child_index < 0 \<or> int (nprocs sb) \<le> child_index then sb
      else
        let i = nat child_index;
            sb = (if used (procs sb ! i) then upd_proc i (\<lambda>_. zero_proc) sb else sb)
        in sb\<lparr>free_proc := child_index\<rparr>)"

text \<open>The search of a slot that is free.\<close>

fun find_free :: "scoreboard_proc list \<Rightarrow> nat \<Rightarrow> nat" where
  "find_free [] i = i"
| "find_free (p # ps) i = (if \<not> used p then i else find_free ps (Suc i))"

definition fpm_scoreboard_proc_alloc :: "scoreboard \<Rightarrow> (nat \<times> scoreboard) option" where
  "fpm_scoreboard_proc_alloc sb =
     (let i = (if 0 \<le> free_proc sb \<and> free_proc sb < int (nprocs sb) \<and> \<not> used (procs sb ! nat (free_proc sb))
               then nat (free_proc sb) else find_free (procs sb) 0)
      in if nprocs sb \<le> i then None
         else Some (i, (upd_proc i (\<lambda>p. p\<lparr>used := True\<rparr>) sb)
                        \<lparr>free_proc := (if nprocs sb \<le> i + 1 then 0 else int (i + 1))\<rparr>))"

section \<open>The worker's side\<close>

text \<open>The file-scope variables \<open>fpm_scoreboard\<close> and \<open>fpm_scoreboard_i\<close> of a process.\<close>

record fpm_process =
  board :: "scoreboard option"
  board_i :: int

definition fpm_scoreboard_child_use :: "scoreboard \<Rightarrow> int \<Rightarrow> int \<Rightarrow> int \<Rightarrow> fpm_process" where
  "fpm_scoreboard_child_use sb child_index pid now =
     \<lparr>board = Some (case fpm_scoreboard_proc_get child_index (Some sb) child_index of
                None \<Rightarrow> sb
              | Some i \<Rightarrow> upd_proc i (\<lambda>p. p\<lparr>slot_pid := pid, start_epoch := now\<rparr>) sb),
      board_i = child_index\<rparr>"

text \<open>
  What every stage function does: acquire the own slot, write it, release it. The flag tells whether
  the slot could be acquired; without one the function returns.
\<close>

definition with_slot :: "(scoreboard_proc \<Rightarrow> scoreboard_proc) \<Rightarrow> fpm_process \<Rightarrow> (bool \<times> fpm_process) option" where
  "with_slot f w =
     (case board w of
        None \<Rightarrow> Some (False, w)
      | Some sb \<Rightarrow> do {
          (i, sb) \<leftarrow> fpm_scoreboard_proc_acquire (board_i w) sb (-1) False;
          case i of
            None \<Rightarrow> Some (False, w\<lparr>board := Some sb\<rparr>)
          | Some i \<Rightarrow> Some (True, w\<lparr>board := Some (fpm_scoreboard_proc_release i (upd_proc i f sb))\<rparr>)
        })"

definition update_board :: "int \<Rightarrow> int \<Rightarrow> int \<Rightarrow> fpm_process \<Rightarrow> fpm_process option" where
  "update_board i a rqs w =
     (case board w of
        None \<Rightarrow> Some w
      | Some sb \<Rightarrow> do {
          sb \<leftarrow> fpm_scoreboard_update i a 0 0 rqs 0 0 FPM_SCOREBOARD_ACTION_INC sb;
          Some (w\<lparr>board := Some sb\<rparr>)
        })"

definition fpm_request_accepting :: "timeval \<Rightarrow> fpm_process \<Rightarrow> fpm_process option" where
  "fpm_request_accepting now w = do {
     (ok, w) \<leftarrow> with_slot (\<lambda>p. p\<lparr>stage := FPM_REQUEST_ACCEPTING, tv := now\<rparr>) w;
     if ok then update_board 1 (-1) 0 w else Some w
   }"

definition fpm_request_reading_headers :: "timeval \<Rightarrow> int \<Rightarrow> fpm_process \<Rightarrow> fpm_process option" where
  "fpm_request_reading_headers now now_epoch w = do {
     (ok, w) \<leftarrow> with_slot (\<lambda>p. p\<lparr>stage := FPM_REQUEST_READING_HEADERS, tv := now, accepted := now,
        accepted_epoch := now_epoch, nrequests := nrequests p + 1, request_uri := [], request_method := [],
        script_filename := [], query_string := [], auth_user := [], content_len := 0\<rparr>) w;
     if ok then update_board (-1) 1 1 w else Some w
   }"

text \<open>The six values that \<open>fpm_php.c\<close> takes out of the request.\<close>

record request_values =
  v_uri :: "string option"
  v_method :: "string option"
  v_script :: "string option"
  v_query :: "string option"
  v_user :: "string option"
  v_length :: "64 word"

definition copied :: "nat \<Rightarrow> string option \<Rightarrow> string \<Rightarrow> string" where
  "copied siz v old = (case v of None \<Rightarrow> old | Some s \<Rightarrow> strlcpy siz s)"

definition fpm_request_info :: "timeval \<Rightarrow> request_values \<Rightarrow> fpm_process \<Rightarrow> fpm_process option" where
  "fpm_request_info now v w = do {
     (ok, w) \<leftarrow> with_slot (\<lambda>p. p\<lparr>stage := FPM_REQUEST_INFO, tv := now,
        request_uri := copied 128 (v_uri v) (request_uri p),
        request_method := copied 16 (v_method v) (request_method p),
        query_string := copied 512 (v_query v) (query_string p),
        auth_user := copied 32 (v_user v) (auth_user p),
        content_len := v_length v,
        script_filename := copied 256 (v_script v) (script_filename p)\<rparr>) w;
     Some w
   }"

definition fpm_request_executing :: "timeval \<Rightarrow> fpm_process \<Rightarrow> fpm_process option" where
  "fpm_request_executing now w = map_option snd (with_slot (\<lambda>p. p\<lparr>stage := FPM_REQUEST_EXECUTING, tv := now\<rparr>) w)"

definition fpm_request_end :: "timeval \<Rightarrow> 64 word \<Rightarrow> fpm_process \<Rightarrow> fpm_process option" where
  "fpm_request_end now mem w = map_option snd
     (with_slot (\<lambda>p. p\<lparr>stage := FPM_REQUEST_FINISHED, tv := now, duration := timersub now (accepted p), memory := mem\<rparr>) w)"

definition fpm_request_finished :: "timeval \<Rightarrow> fpm_process \<Rightarrow> fpm_process option" where
  "fpm_request_finished now w = map_option snd (with_slot (\<lambda>p. p\<lparr>stage := FPM_REQUEST_FINISHED, tv := now\<rparr>) w)"

end
