(* ===== verification/Fpm_Master.thy ===== *)
theory Fpm_Master
  imports Fpm_Scoreboard
begin

text \<open>
  The master process (sapi/fpm/fpm/fpm_children.c, fpm_process_ctl.c, fpm_request.c): pools of children,
  spawning and burying them, the maintenance of idle children, time limits, and the states in which the
  master reloads or ends. A pool's children are a list, the newest first. What the system answers
  (\<open>fork\<close>, \<open>waitpid\<close>, the clock, the length of the listening queue) are parameters or is listed in the
  state; pipes, logging and event queues are left out.
\<close>

section \<open>State\<close>

datatype signo = SIGTERM | SIGSTOP | SIGCONT | SIGQUIT | SIGKILL | SIGSEGV | SIGBUS | Other_signal nat

record fpm_child =
  pid :: int
  started :: timeval
  slow_logged :: timeval
  traced :: bool
  idle_kill :: bool
  scoreboard_i :: nat

record worker_pool =
  cfg_pm :: pm_style
  pm_max_children :: int
  pm_start_servers :: int
  pm_min_spare_servers :: int
  pm_max_spare_servers :: int
  pm_process_idle_timeout :: int
  request_terminate_timeout :: int
  request_slowlog_timeout :: int
  children :: "fpm_child list"
  running_children :: int
  idle_spawn_rate :: int
  warn_max_children :: bool
  socket_event_set :: bool
  scoreboard :: scoreboard

datatype pctl_state = PCTL_NORMAL | PCTL_RELOADING | PCTL_TERMINATING | PCTL_FINISHING

datatype pctl_action = ACTION_SET pctl_state | ACTION_TIMEOUT | ACTION_LAST_CHILD_EXITED

datatype spawn_result = Pipes_failed | Fork_failed | In_child | In_parent int timeval

datatype departure = Reloads | Exits

record fpm_master =
  pools :: "worker_pool list"
  all_running :: int
  process_max :: int
  is_child :: "(nat \<times> nat) option"
  fpm_state :: pctl_state
  signal_sent :: "signo option"
  process_control_timeout :: int
  pctl_timer :: "int option"
  spawns :: "spawn_result list"
  emergency_threshold :: nat
  emergency_interval :: int
  last_faults :: "int list option"
  fault :: nat
  signals :: "(int \<times> signo) list"
  departed :: "departure option"

abbreviation pool :: "nat \<Rightarrow> fpm_master \<Rightarrow> worker_pool" where
  "pool k m \<equiv> pools m ! k"

definition upd_pool :: "nat \<Rightarrow> (worker_pool \<Rightarrow> worker_pool) \<Rightarrow> fpm_master \<Rightarrow> fpm_master" where
  "upd_pool k f m = m\<lparr>pools := (pools m)[k := f (pool k m)]\<rparr>"

section \<open>Signals\<close>

datatype pctl_how = FPM_PCTL_TERM | FPM_PCTL_STOP | FPM_PCTL_CONT | FPM_PCTL_QUIT

primrec signal_of :: "pctl_how \<Rightarrow> signo" where
  "signal_of FPM_PCTL_TERM = SIGTERM"
| "signal_of FPM_PCTL_STOP = SIGSTOP"
| "signal_of FPM_PCTL_CONT = SIGCONT"
| "signal_of FPM_PCTL_QUIT = SIGQUIT"

definition fpm_pctl_kill :: "int \<Rightarrow> pctl_how \<Rightarrow> fpm_master \<Rightarrow> fpm_master" where
  "fpm_pctl_kill p how m = m\<lparr>signals := signals m @ [(p, signal_of how)]\<rparr>"

definition all_children :: "fpm_master \<Rightarrow> fpm_child list" where
  "all_children m = concat (map children (pools m))"

definition fpm_pctl_kill_all :: "signo \<Rightarrow> fpm_master \<Rightarrow> fpm_master" where
  "fpm_pctl_kill_all sig m = m\<lparr>signals := signals m @ map (\<lambda>c. (pid c, sig)) (all_children m)\<rparr>"

section \<open>The states of the master\<close>

text \<open>\<open>execvp\<close> and \<open>exit\<close> do not return: afterwards \<open>departed\<close> is set and nothing is done any more.\<close>

definition fpm_pctl_timeout_set :: "int \<Rightarrow> fpm_master \<Rightarrow> fpm_master" where
  "fpm_pctl_timeout_set sec m = m\<lparr>pctl_timer := Some (sec * 1000)\<rparr>"

definition fpm_pctl_action_last :: "fpm_master \<Rightarrow> fpm_master" where
  "fpm_pctl_action_last m =
     (case fpm_state m of
        PCTL_RELOADING \<Rightarrow> m\<lparr>departed := Some Reloads\<rparr>
      | PCTL_FINISHING \<Rightarrow> m\<lparr>departed := Some Exits\<rparr>
      | PCTL_TERMINATING \<Rightarrow> m\<lparr>departed := Some Exits\<rparr>
      | PCTL_NORMAL \<Rightarrow> m)"

definition fpm_pctl_action_next :: "fpm_master \<Rightarrow> fpm_master" where
  "fpm_pctl_action_next m =
     (let m = (if all_running m = 0 then fpm_pctl_action_last m else m) in
      if departed m \<noteq> None then m
      else
        let (sig, timeout) =
          (case signal_sent m of
             None \<Rightarrow> (if fpm_state m = PCTL_TERMINATING then SIGTERM else SIGQUIT, process_control_timeout m)
           | Some s \<Rightarrow> (if s = SIGQUIT then SIGTERM else SIGKILL, 1));
          m = fpm_pctl_kill_all sig m
        in fpm_pctl_timeout_set timeout (m\<lparr>signal_sent := Some sig\<rparr>))"

text \<open>Which states another one overrides, with the fall-through of the \<open>switch\<close>.\<close>

definition overrides :: "pctl_state \<Rightarrow> pctl_state \<Rightarrow> bool" where
  "overrides new old =
     (case old of
        PCTL_NORMAL \<Rightarrow> True
      | PCTL_RELOADING \<Rightarrow> new = PCTL_FINISHING \<or> new = PCTL_TERMINATING
      | PCTL_FINISHING \<Rightarrow> new = PCTL_TERMINATING
      | PCTL_TERMINATING \<Rightarrow> False)"

definition fpm_pctl :: "pctl_action \<Rightarrow> fpm_master \<Rightarrow> fpm_master" where
  "fpm_pctl action m =
     (if departed m \<noteq> None then m
      else case action of
        ACTION_SET new \<Rightarrow>
          if fpm_state m = new then m
          else if \<not> overrides new (fpm_state m) then m
          else fpm_pctl_action_next (m\<lparr>signal_sent := None, fpm_state := new\<rparr>)
      | ACTION_TIMEOUT \<Rightarrow> fpm_pctl_action_next m
      | ACTION_LAST_CHILD_EXITED \<Rightarrow> fpm_pctl_action_last m)"

definition fpm_pctl_can_spawn_children :: "fpm_master \<Rightarrow> bool" where
  "fpm_pctl_can_spawn_children m = (fpm_state m = PCTL_NORMAL)"

definition fpm_pctl_child_exited :: "fpm_master \<Rightarrow> fpm_master" where
  "fpm_pctl_child_exited m =
     (if fpm_state m = PCTL_NORMAL then m
      else if all_running m = 0 then fpm_pctl ACTION_LAST_CHILD_EXITED m
      else m)"

section \<open>Children\<close>

definition fpm_child_link :: "nat \<Rightarrow> fpm_child \<Rightarrow> fpm_master \<Rightarrow> fpm_master" where
  "fpm_child_link k c m =
     (upd_pool k (\<lambda>wp. wp\<lparr>running_children := running_children wp + 1, children := c # children wp\<rparr>) m)
       \<lparr>all_running := all_running m + 1\<rparr>"

definition fpm_child_unlink :: "nat \<Rightarrow> fpm_child \<Rightarrow> fpm_master \<Rightarrow> fpm_master" where
  "fpm_child_unlink k c m =
     (upd_pool k (\<lambda>wp. wp\<lparr>running_children := running_children wp - 1,
        children := remove1 c (children wp)\<rparr>) m)\<lparr>all_running := all_running m - 1\<rparr>"

fun find_child :: "int \<Rightarrow> fpm_child list \<Rightarrow> fpm_child option" where
  "find_child p [] = None"
| "find_child p (c # cs) = (if pid c = p then Some c else find_child p cs)"

text \<open>The pool, by its number from \<open>k\<close> on, and the child.\<close>

fun fpm_child_find :: "int \<Rightarrow> nat \<Rightarrow> worker_pool list \<Rightarrow> (nat \<times> fpm_child) option" where
  "fpm_child_find p k [] = None"
| "fpm_child_find p k (wp # wps) =
     (case find_child p (children wp) of Some c \<Rightarrow> Some (k, c) | None \<Rightarrow> fpm_child_find p (Suc k) wps)"

text \<open>The next answer of the system when a child is to be made; without one \<open>fork\<close> fails.\<close>

definition next_spawn :: "fpm_master \<Rightarrow> spawn_result \<times> fpm_master" where
  "next_spawn m = (case spawns m of [] \<Rightarrow> (Fork_failed, m) | r # rs \<Rightarrow> (r, m\<lparr>spawns := rs\<rparr>))"

definition spawn_limit :: "nat \<Rightarrow> bool \<Rightarrow> int \<Rightarrow> fpm_master \<Rightarrow> int" where
  "spawn_limit k in_event_loop nb m =
     (let wp = pool k m in
      case cfg_pm wp of
        PM_STYLE_DYNAMIC \<Rightarrow> if \<not> in_event_loop then pm_start_servers wp else running_children wp + nb
      | PM_STYLE_ONDEMAND \<Rightarrow> if \<not> in_event_loop then 0 else running_children wp + nb
      | PM_STYLE_STATIC \<Rightarrow> pm_max_children wp)"

text \<open>
  One turn of the loop: \<open>fpm_resources_prepare\<close>, \<open>fork\<close>, and what follows in the parent, in the child
  and when it failed. \<open>None\<close> goes on, \<open>Some n\<close> returns \<open>n\<close>.
\<close>

definition spawn_one :: "nat \<Rightarrow> fpm_master \<Rightarrow> int option \<times> fpm_master" where
  "spawn_one k m =
     (let (r, m) = next_spawn m in
      if r = Pipes_failed then (Some 2, m)
      else case fpm_scoreboard_proc_alloc (scoreboard (pool k m)) of
        None \<Rightarrow> (Some 2, m)
      | Some (i, sb) \<Rightarrow>
          let m = upd_pool k (\<lambda>wp. wp\<lparr>scoreboard := sb\<rparr>) m in
          case r of
            In_child \<Rightarrow> (Some 0, m\<lparr>is_child := Some (k, i)\<rparr>)
          | In_parent p now \<Rightarrow>
              (None, fpm_child_link k \<lparr>pid = p, started = now, slow_logged = (0, 0), traced = False,
                 idle_kill = False, scoreboard_i = i\<rparr> m)
          | _ \<Rightarrow> (Some 2, upd_pool k (\<lambda>wp. wp\<lparr>scoreboard := fpm_scoreboard_proc_free (int i) (scoreboard wp)\<rparr>) m))"

text \<open>The loop; every turn that goes on leaves one child less to be made, so \<open>n\<close> turns are enough.\<close>

definition may_spawn :: "nat \<Rightarrow> int \<Rightarrow> fpm_master \<Rightarrow> bool" where
  "may_spawn k limit m \<longleftrightarrow> fpm_pctl_can_spawn_children m \<and> running_children (pool k m) < limit
     \<and> (process_max m < 1 \<or> all_running m < process_max m)"

lemma spawn_one_counts:
  "spawn_one k m = (None, u) \<Longrightarrow> k < length (pools m) \<Longrightarrow> running_children (pool k u) = running_children (pool k m) + 1"
  by (auto simp: spawn_one_def next_spawn_def upd_pool_def fpm_child_link_def Let_def
      split: prod.splits option.splits spawn_result.splits list.splits if_splits)

function make_loop :: "nat \<Rightarrow> int \<Rightarrow> fpm_master \<Rightarrow> int \<times> fpm_master" where
  "make_loop k limit m =
     (if k < length (pools m) \<and> may_spawn k limit m then
        (case spawn_one k m of
           (Some n, m) \<Rightarrow> (n, m)
         | (None, m) \<Rightarrow> make_loop k limit m)
      else (1, m))"
  by pat_completeness auto
termination
  by (relation "measure (\<lambda>(k, limit, m). nat (limit - running_children (pool k m)))")
    (auto simp: may_spawn_def dest!: spawn_one_counts [OF sym])

declare make_loop.simps [simp del]

definition fpm_children_make :: "nat \<Rightarrow> bool \<Rightarrow> int \<Rightarrow> fpm_master \<Rightarrow> int \<times> fpm_master" where
  "fpm_children_make k in_event_loop nb m = make_loop k (spawn_limit k in_event_loop nb m) m"

definition fpm_children_create_initial :: "nat \<Rightarrow> fpm_master \<Rightarrow> int \<times> fpm_master" where
  "fpm_children_create_initial k m =
     (if cfg_pm (pool k m) = PM_STYLE_ONDEMAND
      then (1, upd_pool k (\<lambda>wp. wp\<lparr>socket_event_set := True\<rparr>) m)
      else fpm_children_make k False 0 m)"

text \<open>\<open>fpm_children_init_main\<close>: the ring of the times of the last crashes.\<close>

definition fpm_children_init_main :: "fpm_master \<Rightarrow> fpm_master" where
  "fpm_children_init_main m =
     (if emergency_threshold m \<noteq> 0 \<and> emergency_interval m \<noteq> 0
      then m\<lparr>last_faults := Some (replicate (emergency_threshold m) 0)\<rparr> else m)"

section \<open>Burying\<close>

datatype wait_status = Exited nat | Signaled signo | Stopped

definition restart_child :: "wait_status \<Rightarrow> fpm_child \<Rightarrow> bool" where
  "restart_child st c =
     (case st of
        Exited _ \<Rightarrow> \<not> idle_kill c
      | Signaled sig \<Rightarrow> \<not> (idle_kill c \<and> sig = SIGQUIT)
      | Stopped \<Rightarrow> True)"

text \<open>
  The ring of crash times: the new one is stored, and a reload is asked for when all of them are recent.
\<close>

definition note_fault :: "int \<Rightarrow> fpm_master \<Rightarrow> fpm_master" where
  "note_fault now m =
     (case last_faults m of
        None \<Rightarrow> m
      | Some ts \<Rightarrow>
          let ts = ts[fault m := now];
              f = (if fault m + 1 = emergency_threshold m then 0 else fault m + 1);
              m = m\<lparr>last_faults := Some ts, fault := f\<rparr>
          in if list_all (\<lambda>t. now - t \<le> emergency_interval m) ts
             then fpm_pctl (ACTION_SET PCTL_RELOADING) m else m)"

definition crashed :: "wait_status \<Rightarrow> bool" where
  "crashed st \<longleftrightarrow> st = Signaled SIGSEGV \<or> st = Signaled SIGBUS"

text \<open>
  One child that \<open>waitpid\<close> reports. The tracer of a stopped child continues it. After the master has
  gone, or in a new child, nothing follows.
\<close>

definition bury_one :: "int \<Rightarrow> wait_status \<Rightarrow> timeval \<Rightarrow> fpm_master \<Rightarrow> fpm_master" where
  "bury_one p st now m =
     (case fpm_child_find p 0 (pools m) of
        None \<Rightarrow> m
      | Some (k, c) \<Rightarrow>
          if st = Stopped then m
          else
            let m = fpm_child_unlink k c m;
                m = upd_pool k (\<lambda>wp. wp\<lparr>scoreboard := fpm_scoreboard_proc_free (int (scoreboard_i c)) (scoreboard wp)\<rparr>) m;
                m = fpm_pctl_child_exited m
            in if departed m \<noteq> None then m
               else
                 let m = (if crashed st then note_fault (fst now) m else m)
                 in if departed m \<noteq> None then m
                    else if restart_child st c then snd (fpm_children_make k True 1 m)
                    else m)"

fun fpm_children_bury :: "(int \<times> wait_status \<times> timeval) list \<Rightarrow> fpm_master \<Rightarrow> fpm_master" where
  "fpm_children_bury [] m = m"
| "fpm_children_bury ((p, st, now) # ws) m =
     (let m = bury_one p st now m in
      if departed m \<noteq> None \<or> is_child m \<noteq> None then m else fpm_children_bury ws m)"

section \<open>Watching the children\<close>

definition slot_of_child :: "worker_pool \<Rightarrow> fpm_child \<Rightarrow> scoreboard_proc option" where
  "slot_of_child wp c =
     map_option (\<lambda>i. procs (scoreboard wp) ! i)
       (fpm_scoreboard_proc_get (-1) (Some (scoreboard wp)) (int (scoreboard_i c)))"

definition fpm_request_is_idle :: "worker_pool \<Rightarrow> fpm_child \<Rightarrow> bool" where
  "fpm_request_is_idle wp c =
     (case slot_of_child wp c of None \<Rightarrow> False | Some p \<Rightarrow> stage p = FPM_REQUEST_ACCEPTING)"

definition fpm_request_last_activity :: "worker_pool \<Rightarrow> fpm_child \<Rightarrow> timeval option" where
  "fpm_request_last_activity wp c = map_option tv (slot_of_child wp c)"

text \<open>
  The time limits of a child's request: the child afterwards, and the signals that are sent. A slot whose
  lock is held is left alone.
\<close>

definition fpm_request_check_timed_out :: "worker_pool \<Rightarrow> timeval \<Rightarrow> int \<Rightarrow> int \<Rightarrow> fpm_child
    \<Rightarrow> fpm_child \<times> (int \<times> signo) list" where
  "fpm_request_check_timed_out wp now terminate_timeout slowlog_timeout c =
     (case slot_of_child wp c of
        None \<Rightarrow> (c, [])
      | Some p \<Rightarrow>
          if plock p then (c, [])
          else
            let c = (if fst (slow_logged c) \<noteq> 0 \<and> slow_logged c \<noteq> accepted p
                     then c\<lparr>slow_logged := (0, 0)\<rparr> else c)
            in if stage_code FPM_REQUEST_ACCEPTING < stage_code (stage p) \<and> stage_code (stage p) < stage_code FPM_REQUEST_END
               then
                 let t = timersub now (accepted p) in
                 if fst (slow_logged c) = 0 \<and> slowlog_timeout \<noteq> 0 \<and> stage p = FPM_REQUEST_EXECUTING
                     \<and> slowlog_timeout \<le> fst t
                 then (c\<lparr>slow_logged := accepted p, traced := True\<rparr>, [(pid c, SIGSTOP)])
                 else if terminate_timeout \<noteq> 0 \<and> terminate_timeout \<le> fst t then (c, [(pid c, SIGTERM)])
                 else (c, [])
               else (c, []))"

definition check_pool :: "timeval \<Rightarrow> worker_pool \<Rightarrow> worker_pool \<times> (int \<times> signo) list" where
  "check_pool now wp =
     (if request_terminate_timeout wp \<noteq> 0 \<or> request_slowlog_timeout wp \<noteq> 0
      then let rs = map (fpm_request_check_timed_out wp now (request_terminate_timeout wp) (request_slowlog_timeout wp)) (children wp)
           in (wp\<lparr>children := map fst rs\<rparr>, concat (map snd rs))
      else (wp, []))"

definition fpm_pctl_check_request_timeout :: "timeval \<Rightarrow> fpm_master \<Rightarrow> fpm_master" where
  "fpm_pctl_check_request_timeout now m =
     (let rs = map (check_pool now) (pools m)
      in m\<lparr>pools := map fst rs, signals := signals m @ concat (map snd rs)\<rparr>)"

section \<open>Maintenance of idle children\<close>

definition FPM_MAX_SPAWN_RATE :: int where
  "FPM_MAX_SPAWN_RATE = 32"

text \<open>The loop over the children: the idle child that was started first, and how many are idle or not.\<close>

fun count_children :: "worker_pool \<Rightarrow> fpm_child list \<Rightarrow> fpm_child option \<times> int \<times> int \<Rightarrow> fpm_child option \<times> int \<times> int" where
  "count_children wp [] acc = acc"
| "count_children wp (c # cs) (last_idle, i, a) =
     (if fpm_request_is_idle wp c
      then count_children wp cs
             (case last_idle of
                None \<Rightarrow> Some c
              | Some l \<Rightarrow> if timer_less (started c) (started l) then Some c else Some l, i + 1, a)
      else count_children wp cs (last_idle, i, a + 1))"

definition mark_idle_kill :: "fpm_child \<Rightarrow> worker_pool \<Rightarrow> worker_pool" where
  "mark_idle_kill l wp = wp\<lparr>children := map (\<lambda>c. if c = l then c\<lparr>idle_kill := True\<rparr> else c) (children wp)\<rparr>"

definition report_max_children :: "worker_pool \<Rightarrow> worker_pool option" where
  "report_max_children wp =
     (if warn_max_children wp then Some wp
      else do {
        sb \<leftarrow> fpm_scoreboard_update 0 0 0 0 0 1 0 FPM_SCOREBOARD_ACTION_INC (scoreboard wp);
        Some (wp\<lparr>scoreboard := sb, warn_max_children := True\<rparr>)
      })"

text \<open>What a dynamic pool comes to: end an idle child, warn, fork so many, or nothing.\<close>

definition maintain_dynamic :: "nat \<Rightarrow> int \<Rightarrow> fpm_child option \<Rightarrow> fpm_master \<Rightarrow> fpm_master option" where
  "maintain_dynamic k n_idle last_idle m =
     (let wp = pool k m in
      case (if pm_max_spare_servers wp < n_idle then last_idle else None) of
        Some l \<Rightarrow>
          Some (fpm_pctl_kill (pid l) FPM_PCTL_QUIT (upd_pool k (\<lambda>wp. (mark_idle_kill l wp)\<lparr>idle_spawn_rate := 1\<rparr>) m))
      | None \<Rightarrow>
          if n_idle < pm_min_spare_servers wp then
            let n = min (min (idle_spawn_rate wp) (pm_min_spare_servers wp - n_idle)) (pm_max_children wp - running_children wp) in
            if pm_max_children wp \<le> running_children wp \<or> n \<le> 0 then do {
              wp \<leftarrow> report_max_children wp;
              Some (upd_pool k (\<lambda>_. wp\<lparr>idle_spawn_rate := 1\<rparr>) m)
            } else
              let m = snd (fpm_children_make k True n (upd_pool k (\<lambda>wp. wp\<lparr>warn_max_children := False\<rparr>) m)) in
              if is_child m \<noteq> None then Some m
              else Some (upd_pool k (\<lambda>wp. if idle_spawn_rate wp < FPM_MAX_SPAWN_RATE
                                           then wp\<lparr>idle_spawn_rate := idle_spawn_rate wp * 2\<rparr> else wp) m)
          else Some (upd_pool k (\<lambda>wp. wp\<lparr>idle_spawn_rate := 1\<rparr>) m))"

definition maintain_ondemand :: "nat \<Rightarrow> timeval \<Rightarrow> fpm_child option \<Rightarrow> fpm_master \<Rightarrow> fpm_master" where
  "maintain_ondemand k now last_idle m =
     (case last_idle of
        None \<Rightarrow> m
      | Some l \<Rightarrow>
          (case fpm_request_last_activity (pool k m) l of
             None \<Rightarrow> m
           | Some t \<Rightarrow>
               if fst t < fst now - pm_process_idle_timeout (pool k m)
               then fpm_pctl_kill (pid l) FPM_PCTL_QUIT (upd_pool k (mark_idle_kill l) m)
               else m))"

text \<open>One pool; \<open>queue\<close> is the length of its listening queue.\<close>

definition maintain_pool :: "timeval \<Rightarrow> (nat \<Rightarrow> int) \<Rightarrow> nat \<Rightarrow> fpm_master \<Rightarrow> fpm_master option" where
  "maintain_pool now queue k m =
     (let (last_idle, n_idle, n_active) = count_children (pool k m) (children (pool k m)) (None, 0, 0) in do {
        sb \<leftarrow> fpm_scoreboard_update n_idle n_active (queue k) (-1) (-1) (-1) 0 FPM_SCOREBOARD_ACTION_SET (scoreboard (pool k m));
        let m = upd_pool k (\<lambda>wp. wp\<lparr>scoreboard := sb\<rparr>) m;
        case cfg_pm (pool k m) of
          PM_STYLE_ONDEMAND \<Rightarrow> Some (maintain_ondemand k now last_idle m)
        | PM_STYLE_DYNAMIC \<Rightarrow> maintain_dynamic k n_idle last_idle m
        | PM_STYLE_STATIC \<Rightarrow> Some m
      })"

text \<open>The pools from \<open>k\<close> on; a new child leaves the loop.\<close>

fun maintain_from :: "timeval \<Rightarrow> (nat \<Rightarrow> int) \<Rightarrow> nat \<Rightarrow> nat \<Rightarrow> fpm_master \<Rightarrow> fpm_master option" where
  "maintain_from now queue k 0 m = Some m"
| "maintain_from now queue k (Suc n) m = do {
     m \<leftarrow> maintain_pool now queue k m;
     if is_child m \<noteq> None then Some m else maintain_from now queue (Suc k) n m
   }"

definition fpm_pctl_perform_idle_server_maintenance :: "timeval \<Rightarrow> (nat \<Rightarrow> int) \<Rightarrow> fpm_master \<Rightarrow> fpm_master option" where
  "fpm_pctl_perform_idle_server_maintenance now queue m = maintain_from now queue 0 (length (pools m)) m"

definition fpm_pctl_perform_idle_server_maintenance_heartbeat :: "timeval \<Rightarrow> (nat \<Rightarrow> int) \<Rightarrow> fpm_master \<Rightarrow> fpm_master option" where
  "fpm_pctl_perform_idle_server_maintenance_heartbeat now queue m =
     (if fpm_pctl_can_spawn_children m then fpm_pctl_perform_idle_server_maintenance now queue m else Some m)"

definition fpm_pctl_heartbeat :: "timeval \<Rightarrow> fpm_master \<Rightarrow> fpm_master" where
  "fpm_pctl_heartbeat now m = fpm_pctl_check_request_timeout now m"

text \<open>A connection waits at the socket of a pool whose children are made on demand.\<close>

definition fpm_pctl_on_socket_accept :: "nat \<Rightarrow> fpm_master \<Rightarrow> fpm_master option" where
  "fpm_pctl_on_socket_accept k m =
     (let m = upd_pool k (\<lambda>wp. wp\<lparr>socket_event_set := False\<rparr>) m; wp = pool k m in
      if pm_max_children wp \<le> running_children wp then do {
        wp \<leftarrow> report_max_children wp;
        Some (upd_pool k (\<lambda>_. wp) m)
      }
      else if list_ex (fpm_request_is_idle wp) (children wp) then Some m
      else Some (snd (fpm_children_make k True 1 (upd_pool k (\<lambda>wp. wp\<lparr>warn_max_children := False\<rparr>) m))))"

end
