(* ===== verification/Fpm_Lemmas.thy ===== *)
theory Fpm_Lemmas
  imports Fpm_Master
begin

text \<open>
  Slots of the scoreboard as an interface, the invariant of the master (children, counters and slots
  fit together) and that every operation keeps it, and how many children an operation makes.
\<close>

section \<open>Tables of slots\<close>

locale slot_table =
  fixes slots :: "'s \<Rightarrow> nat" and taken :: "'s \<Rightarrow> nat set" and alloc :: "'s \<Rightarrow> (nat \<times> 's) option"
    and release :: "nat \<Rightarrow> 's \<Rightarrow> 's"
  assumes taken_in: "taken s \<subseteq> {..<slots s}"
    and alloc_some: "alloc s = Some (i, u) \<Longrightarrow> i \<in> {..<slots s} - taken s \<and> taken u = insert i (taken s) \<and> slots u = slots s"
    and alloc_none: "alloc s = None \<Longrightarrow> taken s = {..<slots s}"
    and release_law: "i < slots s \<Longrightarrow> taken (release i s) = taken s - {i} \<and> slots (release i s) = slots s"
begin

text \<open>A client that keeps the numbers of the slots it took, each once.\<close>

lemma owned_bound:
  assumes "distinct xs" and "set xs = taken s"
  shows "length xs \<le> slots s"
  using card_mono [OF _ taken_in, of s] assms by (simp add: distinct_card [symmetric])

lemma owned_alloc:
  assumes "distinct xs" and "set xs = taken s" and "alloc s = Some (i, u)"
  shows "distinct (i # xs) \<and> set (i # xs) = taken u"
  using alloc_some [OF assms(3)] assms(1,2) by auto

lemma owned_room:
  assumes "distinct xs" and "set xs = taken s"
  shows "alloc s = None \<longleftrightarrow> length xs = slots s"
proof
  assume "alloc s = None"
  then show "length xs = slots s" using alloc_none assms by (metis card_lessThan distinct_card)
next
  assume l: "length xs = slots s"
  have "taken s = {..<slots s}"
    using taken_in assms l by (intro card_subset_eq) (simp_all add: distinct_card [symmetric])
  then show "alloc s = None" using alloc_some by (cases "alloc s") auto
qed

lemma owned_release:
  assumes "distinct xs" and "set xs = taken s" and "i \<in> set xs"
  shows "distinct (remove1 i xs) \<and> set (remove1 i xs) = taken (release i s)"
proof -
  have "i < slots s" using assms taken_in by auto
  then show ?thesis using release_law [of i s] assms by (simp add: set_remove1_eq)
qed

lemma owned_back:
  assumes "alloc s = Some (i, u)"
  shows "taken (release i u) = taken s \<and> slots (release i u) = slots s"
  using alloc_some [OF assms] release_law [of i u] by auto

end

definition taken_slots :: "scoreboard \<Rightarrow> nat set" where
  "taken_slots sb = {i. i < nprocs sb \<and> used (procs sb ! i)}"

lemma find_free_range: "i \<le> find_free ps i"
  by (induction ps i rule: find_free.induct) (auto simp: Suc_leD)

lemma find_free_at: "find_free ps i < i + length ps \<Longrightarrow> \<not> used (ps ! (find_free ps i - i))"
proof (induction ps i rule: find_free.induct)
  case (2 p ps i)
  then show ?case using find_free_range [of "Suc i" ps] by (auto simp: nth_Cons' split: if_splits)
qed simp

lemma find_free_none: "i + length ps \<le> find_free ps i \<Longrightarrow> j < length ps \<Longrightarrow> used (ps ! j)"
proof (induction ps i arbitrary: j rule: find_free.induct)
  case (2 p ps i)
  then show ?case by (cases j) (auto split: if_splits)
qed simp

lemma nprocs_upd [simp]: "nprocs (upd_proc i f sb) = nprocs sb"
  by (simp add: upd_proc_def)

lemma taken_upd: "i < nprocs sb \<Longrightarrow> taken_slots (upd_proc i f sb)
    = (if used (f (procs sb ! i)) then insert i (taken_slots sb) else taken_slots sb - {i})"
  by (auto simp: taken_slots_def upd_proc_def nth_list_update split: if_splits)

lemma taken_free_proc [simp]: "taken_slots (sb\<lparr>free_proc := n\<rparr>) = taken_slots sb"
  by (simp add: taken_slots_def)

lemma proc_alloc_index:
  assumes "fpm_scoreboard_proc_alloc sb = Some (i, u)"
  shows "i < nprocs sb \<and> \<not> used (procs sb ! i)"
  using assms find_free_at [of "procs sb" 0]
  by (auto simp: fpm_scoreboard_proc_alloc_def Let_def split: if_splits)

lemma proc_alloc_some:
  assumes "fpm_scoreboard_proc_alloc sb = Some (i, u)"
  shows "i \<in> {..<nprocs sb} - taken_slots sb \<and> taken_slots u = insert i (taken_slots sb) \<and> nprocs u = nprocs sb"
proof -
  have i: "i < nprocs sb" "\<not> used (procs sb ! i)" using proc_alloc_index [OF assms] by simp_all
  have "\<exists>n. u = (upd_proc i (\<lambda>p. p\<lparr>used := True\<rparr>) sb)\<lparr>free_proc := n\<rparr>"
    using assms by (auto simp: fpm_scoreboard_proc_alloc_def Let_def split: if_splits)
  then show ?thesis using i by (auto simp: taken_upd) (simp add: taken_slots_def)
qed

lemma proc_alloc_none:
  assumes "fpm_scoreboard_proc_alloc sb = None"
  shows "taken_slots sb = {..<nprocs sb}"
proof -
  have "nprocs sb \<le> find_free (procs sb) 0" using assms
    by (auto simp: fpm_scoreboard_proc_alloc_def Let_def split: if_splits)
  then show ?thesis using find_free_none [of 0 "procs sb"] by (auto simp: taken_slots_def)
qed

lemma proc_free_law:
  assumes "i < nprocs sb"
  shows "taken_slots (fpm_scoreboard_proc_free (int i) sb) = taken_slots sb - {i}
    \<and> nprocs (fpm_scoreboard_proc_free (int i) sb) = nprocs sb"
proof (cases "used (procs sb ! i)")
  case True
  have "taken_slots (upd_proc i (\<lambda>_. zero_proc) sb) = taken_slots sb - {i}"
    by (simp add: taken_upd [OF assms] zero_proc_def)
  then show ?thesis using assms True by (simp add: fpm_scoreboard_proc_free_def)
next
  case False
  then have "i \<notin> taken_slots sb" by (simp add: taken_slots_def)
  then show ?thesis using assms False by (simp add: fpm_scoreboard_proc_free_def)
qed

interpretation fpm_slots: slot_table nprocs taken_slots fpm_scoreboard_proc_alloc "\<lambda>i. fpm_scoreboard_proc_free (int i)"
proof
  show "taken_slots s \<subseteq> {..<nprocs s}" for s by (auto simp: taken_slots_def)
qed (use proc_alloc_some proc_alloc_none proc_free_law in blast)+

section \<open>Locks\<close>

definition unlocked :: "scoreboard \<Rightarrow> bool" where
  "unlocked sb \<longleftrightarrow> \<not> slock sb \<and> (\<forall>i < nprocs sb. \<not> plock (procs sb ! i))"

lemma slock_upd [simp]: "slock (upd_proc i f sb) = slock sb"
  by (simp add: upd_proc_def)

lemma slock_alloc: "fpm_scoreboard_proc_alloc sb = Some (i, u) \<Longrightarrow> slock u = slock sb"
  by (auto simp: fpm_scoreboard_proc_alloc_def Let_def split: if_splits)

lemma slock_free [simp]: "slock (fpm_scoreboard_proc_free n sb) = slock sb"
  by (simp add: fpm_scoreboard_proc_free_def Let_def)

lemma procs_counters [simp]: "procs (set_counters i a q ql r mc sl sb) = procs sb" "procs (inc_counters i a r mc sl sb) = procs sb"
  by (simp_all add: set_counters_def inc_counters_def Let_def)

lemma update_run:
  assumes "unlocked sb"
  shows "\<exists>u. fpm_scoreboard_update i a q ql r mc sl act sb = Some u \<and> unlocked u \<and> procs u = procs sb"
  using assms
  by (auto simp: fpm_scoreboard_update_def fpm_spinlock_def unlocked_def Let_def split: scoreboard_action.splits)

text \<open>Updating the counters waits for the lock; with the lock it touches no slot and gives the lock back.\<close>

lemma update_free:
  assumes "\<not> slock sb"
  shows "\<exists>u. fpm_scoreboard_update i a q ql r mc sl act sb = Some u \<and> \<not> slock u"
  using assms by (auto simp: fpm_scoreboard_update_def fpm_spinlock_def Let_def split: scoreboard_action.splits)

lemma update_held: "slock sb \<Longrightarrow> fpm_scoreboard_update i a q ql r mc sl act sb = None"
  by (simp add: fpm_scoreboard_update_def fpm_spinlock_def)

lemma update_procs:
  assumes "fpm_scoreboard_update i a q ql r mc sl act sb = Some u"
  shows "procs u = procs sb" and "\<not> slock u" and "\<not> slock sb"
  using assms
  by (auto simp: fpm_scoreboard_update_def fpm_spinlock_def Let_def split: scoreboard_action.splits if_splits)

lemma taken_procs: "procs u = procs sb \<Longrightarrow> taken_slots u = taken_slots sb"
  by (simp add: taken_slots_def)

end
