(* ===== verification/Fpm_Invariant.thy ===== *)
theory Fpm_Invariant
  imports Fpm_Lemmas
begin

text \<open>
  The invariant of the master and the steps it makes: handling the ends of children, signals, timers,
  connections, and what the workers write into their slots in between.
\<close>

section \<open>The invariant\<close>

definition workers_ok :: "worker_pool \<Rightarrow> bool" where
  "workers_ok wp \<longleftrightarrow> distinct (map scoreboard_i (children wp))
     \<and> set (map scoreboard_i (children wp)) = taken_slots (scoreboard wp)
     \<and> running_children wp = int (length (children wp))
     \<and> int (nprocs (scoreboard wp)) = pm_max_children wp
     \<and> idle_spawn_rate wp \<in> {1, 2, 4, 8, 16, 32}"

definition master_ok :: "fpm_master \<Rightarrow> bool" where
  "master_ok m \<longleftrightarrow> (\<forall>wp \<in> set (pools m). workers_ok wp) \<and> all_running m = sum_list (map running_children (pools m))"

lemma workers_okD: "master_ok m \<Longrightarrow> k < length (pools m) \<Longrightarrow> workers_ok (pool k m)"
  by (simp add: master_ok_def)

lemma pool_bound: "workers_ok wp \<Longrightarrow> running_children wp \<le> pm_max_children wp"
  using fpm_slots.owned_bound [of "map scoreboard_i (children wp)" "scoreboard wp"] by (simp add: workers_ok_def)

lemma sum_list_upd: "k < length xs \<Longrightarrow> sum_list (map f (xs[k := x])) = sum_list (map f xs) - f (xs ! k) + f x"
  for f :: "'a \<Rightarrow> int"
  by (induction xs arbitrary: k) (auto split: nat.splits)

text \<open>Replacing one pool.\<close>

lemma master_ok_upd:
  assumes "master_ok m" and "k < length (pools m)" and "workers_ok wp"
    and "pools u = (pools m)[k := wp]" and "all_running u = all_running m - running_children (pool k m) + running_children wp"
  shows "master_ok u"
  using assms set_update_subset_insert [of "pools m" k wp]
  by (auto simp: master_ok_def sum_list_upd)

lemma master_ok_pools: "pools u = pools m \<Longrightarrow> all_running u = all_running m \<Longrightarrow> master_ok u = master_ok m"
  by (simp add: master_ok_def)

text \<open>What an operation on pool \<open>k\<close> leaves alone.\<close>

definition elsewhere :: "nat \<Rightarrow> fpm_master \<Rightarrow> fpm_master \<Rightarrow> bool" where
  "elsewhere k m u \<longleftrightarrow> length (pools u) = length (pools m) \<and> (\<forall>j. j \<noteq> k \<longrightarrow> pool j u = pool j m)
     \<and> fpm_state u = fpm_state m \<and> departed u = departed m \<and> signals u = signals m"

lemma elsewhere_refl [simp]: "elsewhere k m m"
  by (simp add: elsewhere_def)

lemma elsewhere_trans: "elsewhere k m u \<Longrightarrow> elsewhere k u v \<Longrightarrow> elsewhere k m v"
  by (simp add: elsewhere_def)

definition same_config :: "worker_pool \<Rightarrow> worker_pool \<Rightarrow> bool" where
  "same_config a b \<longleftrightarrow> cfg_pm b = cfg_pm a \<and> pm_max_children b = pm_max_children a
     \<and> pm_start_servers b = pm_start_servers a \<and> pm_min_spare_servers b = pm_min_spare_servers a
     \<and> pm_max_spare_servers b = pm_max_spare_servers a \<and> idle_spawn_rate b = idle_spawn_rate a"

lemma same_config_refl [simp]: "same_config a a"
  by (simp add: same_config_def)

lemma same_config_trans: "same_config a b \<Longrightarrow> same_config b c \<Longrightarrow> same_config a c"
  by (simp add: same_config_def)

section \<open>Making children\<close>

text \<open>One child is made, none is, or this is the new child.\<close>

lemma spawn_one_ok:
  assumes ok: "master_ok m" and k: "k < length (pools m)" and ic: "is_child m = None" and run: "spawn_one k m = (r, u)"
  shows "elsewhere k m u \<and> same_config (pool k m) (pool k u)
    \<and> (is_child u \<noteq> None \<and> r \<noteq> None \<or> is_child u = None \<and> master_ok u
       \<and> running_children (pool k u) = running_children (pool k m) + (if r = None then 1 else 0))"
proof -
  obtain a m1 where a: "next_spawn m = (a, m1)" by (cases "next_spawn m")
  have m1: "pools m1 = pools m" "all_running m1 = all_running m" "is_child m1 = None" "elsewhere k m m1" "master_ok m1"
    using a ic ok by (auto simp: next_spawn_def elsewhere_def master_ok_def split: list.splits)
  have P: "workers_ok (pool k m)" using workers_okD [OF ok k] .
  let ?sb = "scoreboard (pool k m)" and ?xs = "map scoreboard_i (children (pool k m))"
  have own: "distinct ?xs" "set ?xs = taken_slots ?sb" using P by (simp_all add: workers_ok_def)
  consider "a = Pipes_failed" | "a \<noteq> Pipes_failed" "fpm_scoreboard_proc_alloc ?sb = None"
    | i sb where "a \<noteq> Pipes_failed" "fpm_scoreboard_proc_alloc ?sb = Some (i, sb)" by fastforce
  then show ?thesis
  proof cases
    case 1
    then show ?thesis using run a m1 by (auto simp: spawn_one_def)
  next
    case 2
    then show ?thesis using run a m1 by (auto simp: spawn_one_def)
  next
    case 3
    have new: "distinct (i # ?xs)" "set (i # ?xs) = taken_slots sb" using fpm_slots.owned_alloc [OF own 3(2)] by simp_all
    have given: "taken_slots (fpm_scoreboard_proc_free (int i) sb) = taken_slots ?sb"
      "nprocs (fpm_scoreboard_proc_free (int i) sb) = nprocs ?sb" using fpm_slots.owned_back [OF 3(2)] by simp_all
    have np: "nprocs sb = nprocs ?sb" using proc_alloc_some [OF 3(2)] by simp
    show ?thesis
    proof (cases a)
      case In_child
      then have "r = Some 0" "u = (upd_pool k (\<lambda>wp. wp\<lparr>scoreboard := sb\<rparr>) m1)\<lparr>is_child := Some (k, i)\<rparr>"
        using run a m1(1) 3 by (simp_all add: spawn_one_def)
      then show ?thesis using m1 k by (simp add: elsewhere_def upd_pool_def same_config_def)
    next
      case (In_parent p now)
      let ?c = "\<lparr>pid = p, started = now, slow_logged = (0, 0), traced = False, idle_kill = False, scoreboard_i = i\<rparr>"
      let ?wp = "(pool k m)\<lparr>scoreboard := sb, running_children := running_children (pool k m) + 1,
          children := ?c # children (pool k m)\<rparr>"
      have r: "r = None" and u: "u = m1\<lparr>pools := (pools m)[k := ?wp], all_running := all_running m + 1\<rparr>"
        using run a m1 3 In_parent k by (simp_all add: spawn_one_def fpm_child_link_def upd_pool_def)
      have Q: "workers_ok ?wp" using P new np by (auto simp: workers_ok_def)
      have "master_ok u" by (rule master_ok_upd [OF ok k Q]) (simp_all add: u)
      then show ?thesis using r u m1 k by (simp add: elsewhere_def same_config_def)
    next
      case Fork_failed
      let ?wp = "(pool k m)\<lparr>scoreboard := fpm_scoreboard_proc_free (int i) sb\<rparr>"
      have r: "r = Some 2" and u: "u = m1\<lparr>pools := (pools m)[k := ?wp]\<rparr>"
        using run a m1 3 Fork_failed k by (simp_all add: spawn_one_def upd_pool_def)
      have Q: "workers_ok ?wp" using P given by (simp add: workers_ok_def)
      have "master_ok u" by (rule master_ok_upd [OF ok k Q]) (simp_all add: u m1)
      then show ?thesis using r u m1 k by (simp add: elsewhere_def same_config_def)
    qed (use 3 in simp)
  qed
qed

lemma make_loop_ok:
  assumes "master_ok m" and "k < length (pools m)" and "is_child m = None"
    and "running_children (pool k m) \<le> limit"
  shows "\<exists>n u. make_loop k limit m = (n, u) \<and> elsewhere k m u \<and> same_config (pool k m) (pool k u)
    \<and> (is_child u = None \<longrightarrow> master_ok u \<and> running_children (pool k m) \<le> running_children (pool k u)
         \<and> running_children (pool k u) \<le> limit)"
  using assms
proof (induction k limit m rule: make_loop.induct)
  case (1 k limit m)
  show ?case
  proof (cases "may_spawn k limit m")
    case False
    then show ?thesis using "1.prems" by (subst make_loop.simps) simp
  next
    case True
    obtain r v where v: "spawn_one k m = (r, v)" by (cases "spawn_one k m")
    note one = spawn_one_ok [OF "1.prems"(1,2,3) v]
    show ?thesis
    proof (cases r)
      case (Some n)
      then show ?thesis using one "1.prems" True v by (subst make_loop.simps) auto
    next
      case None
      then have v1: "is_child v = None" "master_ok v" "elsewhere k m v" "same_config (pool k m) (pool k v)"
        "running_children (pool k v) = running_children (pool k m) + 1" using one by auto
      have pre: "k < length (pools v)" "running_children (pool k v) \<le> limit"
        using v1 "1.prems"(2) True by (auto simp: elsewhere_def may_spawn_def)
      obtain n u where u: "make_loop k limit v = (n, u)" "elsewhere k v u" "same_config (pool k v) (pool k u)"
        "is_child u = None \<longrightarrow> master_ok u \<and> running_children (pool k v) \<le> running_children (pool k u)
         \<and> running_children (pool k u) \<le> limit"
        using "1.IH" [OF _ v [symmetric] None v1(2) pre(1) v1(1) pre(2)] True "1.prems"(2) by auto
      have "make_loop k limit m = (n, u)" using u(1) True "1.prems"(2) v None by (subst make_loop.simps) simp
      then show ?thesis using u elsewhere_trans [OF v1(3) u(2)] same_config_trans [OF v1(4) u(3)] v1(5) by auto
    qed
  qed
qed

text \<open>Making children in the event loop: never more than asked for, or than the pool may have.\<close>

lemma children_make_ok:
  assumes "master_ok m" and "k < length (pools m)" and "is_child m = None" and "0 \<le> nb"
  shows "\<exists>n u. fpm_children_make k True nb m = (n, u) \<and> elsewhere k m u \<and> same_config (pool k m) (pool k u)
    \<and> (is_child u = None \<longrightarrow> master_ok u \<and> running_children (pool k m) \<le> running_children (pool k u)
         \<and> (cfg_pm (pool k m) \<noteq> PM_STYLE_STATIC \<longrightarrow> running_children (pool k u) \<le> running_children (pool k m) + nb))"
proof -
  have "running_children (pool k m) \<le> spawn_limit k True nb m"
    using assms(4) pool_bound [OF workers_okD [OF assms(1,2)]]
    by (simp add: spawn_limit_def Let_def split: pm_style.splits)
  from make_loop_ok [OF assms(1-3) this] show ?thesis
    by (auto simp: fpm_children_make_def spawn_limit_def Let_def split: pm_style.splits)
qed

text \<open>A master that is on its way out makes no child.\<close>

lemma no_spawn: "fpm_state m \<noteq> PCTL_NORMAL \<Longrightarrow> fpm_children_make k b nb m = (1, m)"
  unfolding fpm_children_make_def
  by (subst make_loop.simps) (simp add: may_spawn_def fpm_pctl_can_spawn_children_def)

section \<open>Burying children\<close>

lemma find_child_in: "find_child p cs = Some c \<Longrightarrow> c \<in> set cs \<and> pid c = p"
  by (induction cs) (auto split: if_splits)

lemma child_find_in:
  "fpm_child_find p j wps = Some (k, c) \<Longrightarrow> j \<le> k \<and> k < j + length wps \<and> c \<in> set (children (wps ! (k - j))) \<and> pid c = p"
proof (induction p j wps rule: fpm_child_find.induct)
  case (2 p j wp wps)
  show ?case
  proof (cases "find_child p (children wp)")
    case None
    then show ?thesis using 2 by (auto simp: nth_Cons')
  next
    case (Some d)
    then show ?thesis using 2 find_child_in [OF Some] by simp
  qed
qed simp

lemma map_remove1_inj: "distinct (map f xs) \<Longrightarrow> x \<in> set xs \<Longrightarrow> map f (remove1 x xs) = remove1 (f x) (map f xs)"
  by (induction xs) (auto simp: image_iff)

text \<open>The child is taken off the list and its slot is given back.\<close>

lemma unlink_ok:
  assumes ok: "master_ok m" and k: "k < length (pools m)" and c: "c \<in> set (children (pool k m))"
  defines "u \<equiv> upd_pool k (\<lambda>wp. wp\<lparr>scoreboard := fpm_scoreboard_proc_free (int (scoreboard_i c)) (scoreboard wp)\<rparr>)
      (fpm_child_unlink k c m)"
  shows "master_ok u" and "elsewhere k m u" and "same_config (pool k m) (pool k u)" and "is_child u = is_child m"
    and "running_children (pool k u) = running_children (pool k m) - 1" and "all_running u = all_running m - 1"
    and "children (pool k u) = remove1 c (children (pool k m))"
proof -
  let ?old = "pool k m" and ?sb = "scoreboard (pool k m)"
  let ?wp = "?old\<lparr>running_children := running_children ?old - 1, children := remove1 c (children ?old),
      scoreboard := fpm_scoreboard_proc_free (int (scoreboard_i c)) ?sb\<rparr>"
  have P: "workers_ok ?old" using workers_okD [OF ok k] .
  have u: "u = m\<lparr>pools := (pools m)[k := ?wp], all_running := all_running m - 1\<rparr>"
    using k by (simp add: u_def fpm_child_unlink_def upd_pool_def)
  have own: "distinct (map scoreboard_i (children ?old))" "set (map scoreboard_i (children ?old)) = taken_slots ?sb"
    using P by (simp_all add: workers_ok_def)
  have i: "scoreboard_i c \<in> set (map scoreboard_i (children ?old))" using c by simp
  then have "scoreboard_i c < nprocs ?sb" using own(2) by (auto simp: taken_slots_def)
  then have np: "nprocs (fpm_scoreboard_proc_free (int (scoreboard_i c)) ?sb) = nprocs ?sb" using proc_free_law by simp
  have "distinct (remove1 (scoreboard_i c) (map scoreboard_i (children ?old)))"
    "set (remove1 (scoreboard_i c) (map scoreboard_i (children ?old)))
      = taken_slots (fpm_scoreboard_proc_free (int (scoreboard_i c)) ?sb)"
    using fpm_slots.owned_release [OF own i] by simp_all
  moreover have "1 \<le> length (children ?old)" using c by (cases "children ?old") auto
  ultimately have Q: "workers_ok ?wp"
    using P c np by (simp add: workers_ok_def map_remove1_inj [OF own(1) c] length_remove1)
  show "master_ok u" by (rule master_ok_upd [OF ok k Q]) (simp_all add: u)
  show "elsewhere k m u" "same_config (pool k m) (pool k u)" "is_child u = is_child m"
    "running_children (pool k u) = running_children (pool k m) - 1" "all_running u = all_running m - 1"
    "children (pool k u) = remove1 c (children (pool k m))"
    using u k by (simp_all add: elsewhere_def same_config_def)
qed

text \<open>The states of the master do not touch the pools.\<close>

lemma action_last_pools [simp]:
  "pools (fpm_pctl_action_last m) = pools m" "all_running (fpm_pctl_action_last m) = all_running m"
  "is_child (fpm_pctl_action_last m) = is_child m"
  by (simp_all add: fpm_pctl_action_last_def split: pctl_state.splits)

lemma action_next_pools [simp]:
  "pools (fpm_pctl_action_next m) = pools m" "all_running (fpm_pctl_action_next m) = all_running m"
  "is_child (fpm_pctl_action_next m) = is_child m"
  by (simp_all add: fpm_pctl_action_next_def Let_def fpm_pctl_kill_all_def fpm_pctl_timeout_set_def split: option.splits)

lemma pctl_pools [simp]:
  "pools (fpm_pctl a m) = pools m" "all_running (fpm_pctl a m) = all_running m" "is_child (fpm_pctl a m) = is_child m"
  by (simp_all add: fpm_pctl_def split: pctl_action.splits)

lemma child_exited_pools [simp]:
  "pools (fpm_pctl_child_exited m) = pools m" "all_running (fpm_pctl_child_exited m) = all_running m"
  "is_child (fpm_pctl_child_exited m) = is_child m"
  by (simp_all add: fpm_pctl_child_exited_def)

lemma note_fault_pools [simp]:
  "pools (note_fault now m) = pools m" "all_running (note_fault now m) = all_running m" "is_child (note_fault now m) = is_child m"
  by (simp_all add: note_fault_def Let_def split: option.splits)

lemma bury_one_ok:
  assumes ok: "master_ok m" and ic: "is_child m = None"
  shows "is_child (bury_one p st now m) = None \<longrightarrow> master_ok (bury_one p st now m)"
proof (cases "fpm_child_find p 0 (pools m)")
  case None
  then show ?thesis using ok by (simp add: bury_one_def)
next
  case (Some kc)
  obtain k c where kc: "kc = (k, c)" by (cases kc)
  then have k: "k < length (pools m)" and c: "c \<in> set (children (pool k m))"
    using child_find_in [of p 0 "pools m" k c] Some by auto
  let ?m1 = "upd_pool k (\<lambda>wp. wp\<lparr>scoreboard := fpm_scoreboard_proc_free (int (scoreboard_i c)) (scoreboard wp)\<rparr>)
      (fpm_child_unlink k c m)"
  let ?m2 = "fpm_pctl_child_exited ?m1"
  let ?m3 = "if crashed st then note_fault (fst now) ?m2 else ?m2"
  note m1 = unlink_ok [OF ok k c]
  have m3: "master_ok ?m3" "is_child ?m3 = None" "k < length (pools ?m3)" "master_ok ?m2"
    using m1(1,2,4) ic k master_ok_pools [of ?m2 ?m1] master_ok_pools [of "note_fault (fst now) ?m2" ?m1]
    by (auto simp: elsewhere_def)
  obtain n u where u: "fpm_children_make k True 1 ?m3 = (n, u)" "is_child u = None \<longrightarrow> master_ok u"
    using children_make_ok [OF m3(1,3,2), of 1] by auto
  have "bury_one p st now m = (if st = Stopped then m else if departed ?m2 \<noteq> None then ?m2
      else if departed ?m3 \<noteq> None then ?m3 else if restart_child st c then u else ?m3)"
    using Some kc u(1) by (simp add: bury_one_def Let_def del: not_None_eq)
  then have "bury_one p st now m \<in> {m, ?m2, ?m3, u}" by simp
  then show ?thesis using ok m3 u(2) by (elim insertE) simp_all
qed

lemma children_bury_ok:
  assumes "master_ok m" and "is_child m = None"
  shows "is_child (fpm_children_bury ws m) = None \<longrightarrow> master_ok (fpm_children_bury ws m)"
  using assms
proof (induction ws m rule: fpm_children_bury.induct)
  case (2 p st now ws m)
  let ?b = "bury_one p st now m"
  show ?case
  proof (cases "departed ?b \<noteq> None \<or> is_child ?b \<noteq> None")
    case True
    then show ?thesis using bury_one_ok [OF "2.prems", of p st now] by (auto simp: Let_def)
  next
    case False
    then have "is_child ?b = None" "departed ?b = None" by blast+
    then show ?thesis using bury_one_ok [OF "2.prems", of p st now] "2.IH" [OF refl False] by (simp add: Let_def)
  qed
qed simp

section \<open>Time limits\<close>

lemma timed_out_slot: "scoreboard_i (fst (fpm_request_check_timed_out wp now t s c)) = scoreboard_i c"
  by (simp add: fpm_request_check_timed_out_def Let_def split: option.splits)

lemma check_pool_ok: "workers_ok wp \<Longrightarrow> workers_ok (fst (check_pool now wp))"
  by (simp add: check_pool_def workers_ok_def Let_def comp_def timed_out_slot image_image)

lemma check_timeout_ok:
  assumes "master_ok m"
  shows "master_ok (fpm_pctl_check_request_timeout now m)"
proof -
  have "running_children (fst (check_pool now wp)) = running_children wp" for wp
    by (simp add: check_pool_def Let_def)
  then show ?thesis using assms check_pool_ok
    by (simp add: fpm_pctl_check_request_timeout_def master_ok_def Let_def comp_def)
qed

end
