(* ===== verification/Fpm_Steps.thy ===== *)
theory Fpm_Steps
  imports Fpm_Invariant
begin

text \<open>
  Maintenance keeps the invariant, and the master as a machine: its steps, and what holds in every state
  it reaches.
\<close>

section \<open>Maintenance\<close>

lemma mark_idle_slots [simp]: "map scoreboard_i (children (mark_idle_kill l wp)) = map scoreboard_i (children wp)"
  by (simp add: mark_idle_kill_def comp_def if_distrib cong: if_cong)

lemma mark_idle_length [simp]: "length (children (mark_idle_kill l wp)) = length (children wp)"
  by (simp add: mark_idle_kill_def)

lemma mark_idle_other [simp]:
  "scoreboard (mark_idle_kill l wp) = scoreboard wp" "running_children (mark_idle_kill l wp) = running_children wp"
  "idle_spawn_rate (mark_idle_kill l wp) = idle_spawn_rate wp" "pm_max_children (mark_idle_kill l wp) = pm_max_children wp"
  by (simp_all add: mark_idle_kill_def)

lemma workers_ok_mark [simp]: "workers_ok (mark_idle_kill l wp) = workers_ok wp"
  unfolding workers_ok_def by (simp only: mark_idle_slots mark_idle_length mark_idle_other)

lemma workers_ok_rate: "workers_ok wp \<Longrightarrow> n \<in> {1, 2, 4, 8, 16, 32} \<Longrightarrow> workers_ok (wp\<lparr>idle_spawn_rate := n\<rparr>)"
  by (simp add: workers_ok_def)

lemma workers_ok_board: "workers_ok wp \<Longrightarrow> procs sb = procs (scoreboard wp) \<Longrightarrow> workers_ok (wp\<lparr>scoreboard := sb\<rparr>)"
  using taken_procs [of sb "scoreboard wp"] by (simp add: workers_ok_def)

lemma workers_ok_flags [simp]:
  "workers_ok (wp\<lparr>warn_max_children := b\<rparr>) = workers_ok wp" "workers_ok (wp\<lparr>socket_event_set := b\<rparr>) = workers_ok wp"
  by (simp_all add: workers_ok_def)

lemma master_ok_edit:
  assumes "master_ok m" and "k < length (pools m)" and "workers_ok (f (pool k m))"
    and "running_children (f (pool k m)) = running_children (pool k m)"
  shows "master_ok (upd_pool k f m)"
  using assms by (intro master_ok_upd [OF assms(1,2,3)]) (simp_all add: upd_pool_def)

lemma report_ok:
  assumes "workers_ok wp" and "report_max_children wp = Some u"
  shows "workers_ok u \<and> running_children u = running_children wp"
proof (cases "warn_max_children wp")
  case False
  then obtain sb where "fpm_scoreboard_update 0 0 0 0 0 1 0 FPM_SCOREBOARD_ACTION_INC (scoreboard wp) = Some sb"
    "u = wp\<lparr>scoreboard := sb, warn_max_children := True\<rparr>"
    using assms(2) by (auto simp: report_max_children_def split: bind_splits)
  then show ?thesis using workers_ok_board [OF assms(1) update_procs(1)] by simp
qed (use assms in \<open>simp add: report_max_children_def\<close>)

text \<open>
  Maintaining a dynamic pool: the pool stays well-formed; at most one signal is
  sent, and only when there are more idle children than wanted; and no more children are made than the
  rate, the missing idle ones and the room of the pool allow.
\<close>

definition forked :: "nat \<Rightarrow> fpm_master \<Rightarrow> fpm_master \<Rightarrow> int" where
  "forked k m u = running_children (pool k u) - running_children (pool k m)"

lemma maintain_dynamic_ok:
  assumes ok: "master_ok m" and k: "k < length (pools m)" and ic: "is_child m = None"
    and dyn: "cfg_pm (pool k m) = PM_STYLE_DYNAMIC" and run: "maintain_dynamic k n last_idle m = Some u"
  shows "length (pools u) = length (pools m)
    \<and> (is_child u = None \<longrightarrow> master_ok u)
    \<and> signals u = signals m @ (case (if pm_max_spare_servers (pool k m) < n then last_idle else None) of
                                  None \<Rightarrow> [] | Some l \<Rightarrow> [(pid l, SIGQUIT)])
    \<and> (is_child u = None \<longrightarrow> 0 \<le> forked k m u
         \<and> (0 < forked k m u \<longrightarrow> forked k m u \<le> min (min (idle_spawn_rate (pool k m)) (pm_min_spare_servers (pool k m) - n))
                                            (pm_max_children (pool k m) - running_children (pool k m))))"
proof -
  let ?wp = "pool k m"
  let ?rate = "min (min (idle_spawn_rate ?wp) (pm_min_spare_servers ?wp - n)) (pm_max_children ?wp - running_children ?wp)"
  have P: "workers_ok ?wp" using workers_okD [OF ok k] .
  consider l where "(if pm_max_spare_servers ?wp < n then last_idle else None) = Some l"
    | "(if pm_max_spare_servers ?wp < n then last_idle else None) = None" "\<not> n < pm_min_spare_servers ?wp"
    | "(if pm_max_spare_servers ?wp < n then last_idle else None) = None" "n < pm_min_spare_servers ?wp"
      "pm_max_children ?wp \<le> running_children ?wp \<or> ?rate \<le> 0"
    | "(if pm_max_spare_servers ?wp < n then last_idle else None) = None" "n < pm_min_spare_servers ?wp"
      "\<not> (pm_max_children ?wp \<le> running_children ?wp \<or> ?rate \<le> 0)"
    by (cases "if pm_max_spare_servers ?wp < n then last_idle else None") blast+
  then show ?thesis
  proof cases
    case 1
    let ?u = "upd_pool k (\<lambda>wp. (mark_idle_kill l wp)\<lparr>idle_spawn_rate := 1\<rparr>) m"
    have M: "master_ok ?u" using P by (intro master_ok_edit [OF ok k]) (auto intro: workers_ok_rate)
    have "running_children (pool k ?u) = running_children ?wp" "length (pools ?u) = length (pools m)"
      "signals ?u = signals m" using k by (simp_all add: upd_pool_def)
    moreover have "master_ok (fpm_pctl_kill (pid l) FPM_PCTL_QUIT ?u) = master_ok ?u"
      by (rule master_ok_pools) (simp_all add: fpm_pctl_kill_def)
    moreover have "maintain_dynamic k n last_idle m = Some (fpm_pctl_kill (pid l) FPM_PCTL_QUIT ?u)"
      unfolding maintain_dynamic_def Let_def 1 by simp
    moreover from this have "u = fpm_pctl_kill (pid l) FPM_PCTL_QUIT ?u" using run by simp
    ultimately show ?thesis unfolding 1 using M by (simp add: fpm_pctl_kill_def forked_def)
  next
    case 2
    let ?u = "upd_pool k (\<lambda>wp. wp\<lparr>idle_spawn_rate := 1\<rparr>) m"
    have "master_ok ?u" using P by (intro master_ok_edit [OF ok k]) (auto intro: workers_ok_rate)
    moreover have "maintain_dynamic k n last_idle m = Some ?u" using 2 by (simp add: maintain_dynamic_def Let_def)
    moreover from this have "u = ?u" using run by simp
    ultimately show ?thesis unfolding 2(1) using k by (simp add: upd_pool_def forked_def)
  next
    case 3
    obtain v where v1: "report_max_children ?wp = Some v"
      using run unfolding maintain_dynamic_def Let_def 3(1) using 3(2,3) by (auto split: bind_splits)
    have v: "report_max_children ?wp = Some v" "workers_ok v" "running_children v = running_children ?wp"
      using v1 report_ok [OF P v1] by simp_all
    let ?u = "upd_pool k (\<lambda>_. v\<lparr>idle_spawn_rate := 1\<rparr>) m"
    have "master_ok ?u" using v(2,3) by (intro master_ok_edit [OF ok k]) (auto intro: workers_ok_rate)
    moreover have "maintain_dynamic k n last_idle m = Some ?u" unfolding maintain_dynamic_def Let_def 3(1)
      using 3(2,3) v(1) by simp
    moreover from this have "u = ?u" using run by simp
    ultimately show ?thesis unfolding 3(1) using k v(3) by (simp add: upd_pool_def forked_def)
  next
    case 4
    let ?m = "upd_pool k (\<lambda>wp. wp\<lparr>warn_max_children := False\<rparr>) m"
    have M: "master_ok ?m" using P by (intro master_ok_edit [OF ok k]) simp_all
    have km: "k < length (pools ?m)" "is_child ?m = None" "pool k ?m = ?wp\<lparr>warn_max_children := False\<rparr>" "signals ?m = signals m"
      "length (pools ?m) = length (pools m)"
      using k ic by (simp_all add: upd_pool_def)
    have pos: "0 \<le> ?rate" using 4(3) by linarith
    obtain z v where v: "fpm_children_make k True ?rate ?m = (z, v)" "elsewhere k ?m v" "same_config (pool k ?m) (pool k v)"
      "is_child v = None \<longrightarrow> master_ok v \<and> running_children (pool k ?m) \<le> running_children (pool k v)
         \<and> (cfg_pm (pool k ?m) \<noteq> PM_STYLE_STATIC \<longrightarrow> running_children (pool k v) \<le> running_children (pool k ?m) + ?rate)"
      using children_make_ok [OF M km(1,2) pos] by (elim exE conjE) (rule that)
    have run2: "maintain_dynamic k n last_idle m = (if is_child v \<noteq> None then Some v
       else Some (upd_pool k (\<lambda>wp. if idle_spawn_rate wp < FPM_MAX_SPAWN_RATE
                                   then wp\<lparr>idle_spawn_rate := idle_spawn_rate wp * 2\<rparr> else wp) v))"
      unfolding maintain_dynamic_def Let_def 4(1) using 4(2,3) v(1) by (simp del: not_None_eq)
    have sv: "signals v = signals m" "length (pools v) = length (pools m)" using v(2) km(4,5) by (simp_all add: elsewhere_def)
    show ?thesis
    proof (cases "is_child v = None")
      case False
      then show ?thesis unfolding 4(1) using run run2 sv by auto
    next
      case True
      have kv: "k < length (pools v)" using sv k by simp
      have Mv: "master_ok v" using v(4) True by simp
      let ?f = "\<lambda>wp. if idle_spawn_rate wp < FPM_MAX_SPAWN_RATE then wp\<lparr>idle_spawn_rate := idle_spawn_rate wp * 2\<rparr> else wp"
      have Pv: "workers_ok (pool k v)" using workers_okD [OF Mv kv] .
      then have "workers_ok (?f (pool k v))"
        by (auto simp: FPM_MAX_SPAWN_RATE_def workers_ok_def intro!: workers_ok_rate)
      then have Mu: "master_ok (upd_pool k ?f v)" by (intro master_ok_edit [OF Mv kv]) simp_all
      let ?u = "upd_pool k ?f v"
      have "running_children (pool k ?u) = running_children (pool k v)" using kv by (simp add: upd_pool_def)
      moreover have "running_children ?wp \<le> running_children (pool k v)" "running_children (pool k v) \<le> running_children ?wp + ?rate"
        using v(4) True km(3) dyn by simp_all
      ultimately have fk: "0 \<le> forked k m ?u" "forked k m ?u \<le> ?rate" unfolding forked_def by linarith+
      have "signals ?u = signals m" "length (pools ?u) = length (pools m)" using sv by (simp_all add: upd_pool_def)
      moreover have "u = ?u" using run run2 True by simp
      ultimately show ?thesis unfolding 4(1) using Mu fk by (intro conjI impI) (simp_all only: option.case append_Nil2)
    qed
  qed
qed

lemma maintain_ondemand_ok:
  assumes ok: "master_ok m" and k: "k < length (pools m)"
  shows "master_ok (maintain_ondemand k now l m) \<and> length (pools (maintain_ondemand k now l m)) = length (pools m)
    \<and> is_child (maintain_ondemand k now l m) = is_child m"
proof -
  have "master_ok (upd_pool k (mark_idle_kill c) m)" for c
    using workers_okD [OF ok k] by (intro master_ok_edit [OF ok k]) simp_all
  moreover have "master_ok (fpm_pctl_kill p h s) = master_ok s" for p h s
    by (rule master_ok_pools) (simp_all add: fpm_pctl_kill_def)
  ultimately have "master_ok (maintain_ondemand k now l m)" using ok
    by (simp add: maintain_ondemand_def split: option.splits)
  then show ?thesis
    by (simp add: maintain_ondemand_def fpm_pctl_kill_def upd_pool_def split: option.splits)
qed

lemma maintain_pool_ok:
  assumes ok: "master_ok m" and k: "k < length (pools m)" and ic: "is_child m = None"
    and run: "maintain_pool now queue k m = Some u"
  shows "length (pools u) = length (pools m) \<and> (is_child u = None \<longrightarrow> master_ok u)"
proof -
  have P: "workers_ok (pool k m)" using workers_okD [OF ok k] .
  obtain l i a where c: "count_children (pool k m) (children (pool k m)) (None, 0, 0) = (l, i, a)"
    by (metis prod_cases3)
  obtain sb where sb: "fpm_scoreboard_update i a (queue k) (-1) (-1) (-1) 0 FPM_SCOREBOARD_ACTION_SET (scoreboard (pool k m)) = Some sb"
    using run c by (auto simp: maintain_pool_def split: bind_splits)
  let ?m = "upd_pool k (\<lambda>wp. wp\<lparr>scoreboard := sb\<rparr>) m"
  have M: "master_ok ?m" using workers_ok_board [OF P update_procs(1) [OF sb]] by (intro master_ok_edit [OF ok k]) simp_all
  have km: "k < length (pools ?m)" "is_child ?m = None" "length (pools ?m) = length (pools m)"
    using k ic by (simp_all add: upd_pool_def)
  have "Some u = (case cfg_pm (pool k ?m) of
          PM_STYLE_ONDEMAND \<Rightarrow> Some (maintain_ondemand k now l ?m)
        | PM_STYLE_DYNAMIC \<Rightarrow> maintain_dynamic k i l ?m
        | PM_STYLE_STATIC \<Rightarrow> Some ?m)" using c sb run by (simp add: maintain_pool_def Let_def)
  then show ?thesis
    using M km maintain_ondemand_ok [OF M km(1), of now l] maintain_dynamic_ok [OF M km(1,2), of i l u]
    by (cases "cfg_pm (pool k ?m)") auto
qed

lemma maintain_from_ok:
  assumes "master_ok m" and "k + n = length (pools m)" and "is_child m = None"
    and "maintain_from now queue k n m = Some u" and "is_child u = None"
  shows "master_ok u"
  using assms
proof (induction now queue k n m rule: maintain_from.induct)
  case (2 now queue k n m)
  obtain v where v: "maintain_pool now queue k m = Some v" "(if is_child v \<noteq> None then Some v else maintain_from now queue (Suc k) n v) = Some u"
    using "2.prems"(4) by (auto split: bind_splits)
  have w: "length (pools v) = length (pools m)" "is_child v = None \<longrightarrow> master_ok v"
    using maintain_pool_ok [OF "2.prems"(1) _ "2.prems"(3) v(1)] "2.prems"(2) by auto
  show ?case
  proof (cases "is_child v = None")
    case True
    then show ?thesis using v(2) w "2.IH" [OF v(1)] "2.prems"(2,5) by simp
  next
    case False
    then show ?thesis using v(2) "2.prems"(5) by simp
  qed
qed simp

lemma maintenance_ok:
  assumes "master_ok m" and "is_child m = None"
    and "fpm_pctl_perform_idle_server_maintenance_heartbeat now queue m = Some u" and "is_child u = None"
  shows "master_ok u"
  using maintain_from_ok [OF assms(1) _ assms(2), of 0 "length (pools m)" now queue u] assms
  by (simp add: fpm_pctl_perform_idle_server_maintenance_heartbeat_def fpm_pctl_perform_idle_server_maintenance_def split: if_splits)

section \<open>Waiting for the counters\<close>

text \<open>
  The locks of the pools' counters. The master leaves them as they are, and waits where one is held: in
  the code until it is given back, which a worker that has been killed inside its update never does.
\<close>

definition counter_locks :: "fpm_master \<Rightarrow> bool list" where
  "counter_locks m = map (\<lambda>wp. slock (scoreboard wp)) (pools m)"

lemma locks_pools: "pools u = pools m \<Longrightarrow> counter_locks u = counter_locks m"
  by (simp add: counter_locks_def)

lemma locks_upd:
  assumes "k < length (pools m)" and "slock (scoreboard (f (pool k m))) = slock (scoreboard (pool k m))"
  shows "counter_locks (upd_pool k f m) = counter_locks m"
proof -
  have "map (\<lambda>wp. slock (scoreboard wp)) (pools m) ! k = slock (scoreboard (pool k m))" using assms(1) by simp
  then show ?thesis using assms(2) list_update_id [of "map (\<lambda>wp. slock (scoreboard wp)) (pools m)" k]
    by (simp add: counter_locks_def upd_pool_def map_update)
qed

lemma locks_nth: "k < length (pools m) \<Longrightarrow> counter_locks m ! k = slock (scoreboard (pool k m))"
  by (simp add: counter_locks_def)

lemma locks_length: "counter_locks u = counter_locks m \<Longrightarrow> length (pools u) = length (pools m)"
  by (metis counter_locks_def length_map)

lemma spawn_one_locks:
  assumes k: "k < length (pools m)" and run: "spawn_one k m = (r, u)"
  shows "counter_locks u = counter_locks m"
proof -
  obtain a m1 where a: "next_spawn m = (a, m1)" by (cases "next_spawn m")
  have m1: "pools m1 = pools m" using a by (auto simp: next_spawn_def split: list.splits)
  consider "u = m1" | i sb f where "fpm_scoreboard_proc_alloc (scoreboard (pool k m)) = Some (i, sb)"
      "counter_locks u = counter_locks (upd_pool k f m)" "slock (scoreboard (f (pool k m))) = slock sb"
  proof (cases "a = Pipes_failed \<or> fpm_scoreboard_proc_alloc (scoreboard (pool k m)) = None")
    case True
    then show thesis using run a m1 that(1) by (auto simp: spawn_one_def split: if_splits)
  next
    case False
    then obtain i sb where p: "a \<noteq> Pipes_failed" "fpm_scoreboard_proc_alloc (scoreboard (pool k m)) = Some (i, sb)" by fastforce
    show thesis
    proof (cases a)
      case In_child
      then have "pools u = pools (upd_pool k (\<lambda>wp. wp\<lparr>scoreboard := sb\<rparr>) m)"
        using run a m1 p by (auto simp: spawn_one_def upd_pool_def)
      then show thesis using that(2) [OF p(2) locks_pools] by simp
    next
      case (In_parent q now)
      let ?c = "\<lparr>pid = q, started = now, slow_logged = (0, 0), traced = False, idle_kill = False, scoreboard_i = i\<rparr>"
      have "pools u = pools (upd_pool k (\<lambda>wp. wp\<lparr>scoreboard := sb, running_children := running_children wp + 1,
          children := ?c # children wp\<rparr>) m)"
        using run a m1 p In_parent k by (auto simp: spawn_one_def fpm_child_link_def upd_pool_def)
      then show thesis using that(2) [OF p(2) locks_pools] by simp
    next
      case Fork_failed
      then have "pools u = pools (upd_pool k (\<lambda>wp. wp\<lparr>scoreboard := fpm_scoreboard_proc_free (int i) sb\<rparr>) m)"
        using run a m1 p k by (auto simp: spawn_one_def upd_pool_def)
      then show thesis using that(2) [OF p(2) locks_pools] by simp
    qed (use p in simp)
  qed
  then show ?thesis
  proof cases
    case 1
    then show ?thesis using m1 locks_pools by blast
  next
    case 2
    then show ?thesis using slock_alloc [OF 2(1)] locks_upd [OF k] by simp
  qed
qed

lemma make_loop_locks:
  assumes "k < length (pools m)"
  shows "counter_locks (snd (make_loop k limit m)) = counter_locks m"
  using assms
proof (induction k limit m rule: make_loop.induct)
  case (1 k limit m)
  show ?case
  proof (cases "may_spawn k limit m")
    case False
    then show ?thesis by (subst make_loop.simps) simp
  next
    case True
    obtain r v where v: "spawn_one k m = (r, v)" by (cases "spawn_one k m")
    note l = spawn_one_locks [OF "1.prems" v]
    show ?thesis
    proof (cases r)
      case (Some n)
      then show ?thesis using l "1.prems" True v by (subst make_loop.simps) simp
    next
      case None
      have kv: "k < length (pools v)" using locks_length [OF l] "1.prems" by simp
      have "counter_locks (snd (make_loop k limit v)) = counter_locks v"
        using "1.IH" [OF _ v [symmetric] None kv] True "1.prems" by auto
      then show ?thesis using l "1.prems" True v None by (subst make_loop.simps) simp
    qed
  qed
qed

lemma children_make_locks:
  "k < length (pools m) \<Longrightarrow> counter_locks (snd (fpm_children_make k b n m)) = counter_locks m"
  by (simp add: fpm_children_make_def make_loop_locks)

lemma maintain_dynamic_locks:
  assumes k: "k < length (pools m)" and free: "\<not> slock (scoreboard (pool k m))"
  shows "\<exists>u. maintain_dynamic k n l m = Some u \<and> counter_locks u = counter_locks m"
proof -
  have rep: "\<exists>v. report_max_children (pool k m) = Some v \<and> \<not> slock (scoreboard v)"
    using update_free [OF free, of 0 0 0 0 0 1 0 FPM_SCOREBOARD_ACTION_INC] free
    by (auto simp: report_max_children_def)
  have kill: "counter_locks (fpm_pctl_kill p h s) = counter_locks s" for p h s
    by (rule locks_pools) (simp add: fpm_pctl_kill_def)
  have ed: "counter_locks (upd_pool k f m) = counter_locks m" if "\<not> slock (scoreboard (f (pool k m)))" for f
    using locks_upd [OF k, of f] that free by simp
  let ?n = "min (min (idle_spawn_rate (pool k m)) (pm_min_spare_servers (pool k m) - n)) (pm_max_children (pool k m) - running_children (pool k m))"
  let ?m = "upd_pool k (\<lambda>wp. wp\<lparr>warn_max_children := False\<rparr>) m"
  let ?v = "snd (fpm_children_make k True ?n ?m)"
  have vl: "counter_locks ?v = counter_locks m"
    using children_make_locks [of k ?m] k ed [of "\<lambda>wp. wp\<lparr>warn_max_children := False\<rparr>"] free by (simp add: upd_pool_def)
  have kv: "k < length (pools ?v)" using locks_length [OF vl] k by simp
  have vf: "counter_locks (upd_pool k f ?v) = counter_locks m"
    if "slock (scoreboard (f (pool k ?v))) = slock (scoreboard (pool k ?v))" for f
    using locks_upd [OF kv, of f] that vl by simp
  consider c where "(if pm_max_spare_servers (pool k m) < n then l else None) = Some c"
    | "(if pm_max_spare_servers (pool k m) < n then l else None) = None" "\<not> n < pm_min_spare_servers (pool k m)"
    | "(if pm_max_spare_servers (pool k m) < n then l else None) = None" "n < pm_min_spare_servers (pool k m)"
      "pm_max_children (pool k m) \<le> running_children (pool k m) \<or> ?n \<le> 0"
    | "(if pm_max_spare_servers (pool k m) < n then l else None) = None" "n < pm_min_spare_servers (pool k m)"
      "\<not> (pm_max_children (pool k m) \<le> running_children (pool k m) \<or> ?n \<le> 0)"
    by (cases "if pm_max_spare_servers (pool k m) < n then l else None") blast+
  then show ?thesis
  proof cases
    case 1
    then show ?thesis unfolding maintain_dynamic_def Let_def 1 using kill ed free by simp
  next
    case 2
    then show ?thesis unfolding maintain_dynamic_def Let_def 2(1) using ed free by simp
  next
    case 3
    then show ?thesis unfolding maintain_dynamic_def Let_def 3(1) using rep ed by fastforce
  next
    case 4
    then show ?thesis unfolding maintain_dynamic_def Let_def 4(1) using vl vf by simp
  qed
qed

lemma maintain_pool_locks:
  assumes k: "k < length (pools m)" and free: "\<not> slock (scoreboard (pool k m))"
  shows "\<exists>u. maintain_pool now queue k m = Some u \<and> counter_locks u = counter_locks m"
proof -
  obtain l i a where c: "count_children (pool k m) (children (pool k m)) (None, 0, 0) = (l, i, a)"
    by (metis prod_cases3)
  obtain sb where sb: "fpm_scoreboard_update i a (queue k) (-1) (-1) (-1) 0 FPM_SCOREBOARD_ACTION_SET (scoreboard (pool k m)) = Some sb"
    "\<not> slock sb" using update_free [OF free] by blast
  let ?m = "upd_pool k (\<lambda>wp. wp\<lparr>scoreboard := sb\<rparr>) m"
  have m: "counter_locks ?m = counter_locks m" using locks_upd [OF k, of "\<lambda>wp. wp\<lparr>scoreboard := sb\<rparr>"] sb(2) free by simp
  have km: "k < length (pools ?m)" "\<not> slock (scoreboard (pool k ?m))" using k sb(2) by (simp_all add: upd_pool_def)
  have "counter_locks (fpm_pctl_kill p FPM_PCTL_QUIT (upd_pool k (mark_idle_kill x) ?m)) = counter_locks ?m" for p x
    using locks_upd [OF km(1), of "mark_idle_kill x"] locks_pools [of "fpm_pctl_kill p FPM_PCTL_QUIT (upd_pool k (mark_idle_kill x) ?m)"]
    by (simp add: fpm_pctl_kill_def)
  then have od: "counter_locks (maintain_ondemand k now l ?m) = counter_locks m"
    using m by (simp add: maintain_ondemand_def split: option.splits)
  obtain u where u: "maintain_dynamic k i l ?m = Some u" "counter_locks u = counter_locks m"
    using maintain_dynamic_locks [OF km, of i l] m by auto
  have "maintain_pool now queue k m = (case cfg_pm (pool k ?m) of
          PM_STYLE_ONDEMAND \<Rightarrow> Some (maintain_ondemand k now l ?m)
        | PM_STYLE_DYNAMIC \<Rightarrow> maintain_dynamic k i l ?m
        | PM_STYLE_STATIC \<Rightarrow> Some ?m)" using c sb by (simp add: maintain_pool_def Let_def)
  then show ?thesis using m od u by (cases "cfg_pm (pool k ?m)") auto
qed

lemma maintain_pool_held: "slock (scoreboard (pool k m)) \<Longrightarrow> maintain_pool now queue k m = None"
  by (simp add: maintain_pool_def update_held split: prod.splits)

lemma maintain_from_locks:
  assumes "k + n = length (pools m)" and "True \<notin> set (counter_locks m)"
  shows "\<exists>u. maintain_from now queue k n m = Some u \<and> counter_locks u = counter_locks m"
  using assms
proof (induction now queue k n m rule: maintain_from.induct)
  case (2 now queue k n m)
  have k: "k < length (pools m)" using "2.prems"(1) by simp
  have "\<not> slock (scoreboard (pool k m))"
    using "2.prems"(2) k locks_nth [OF k] by (metis counter_locks_def length_map nth_mem)
  from maintain_pool_locks [OF k this, of now queue] obtain v where
    v: "maintain_pool now queue k m = Some v" "counter_locks v = counter_locks m" by blast
  then show ?case using "2.IH" [OF v(1)] "2.prems" locks_length [OF v(2)] by auto
qed simp

lemma maintenance_locks:
  assumes "True \<notin> set (counter_locks m)"
  shows "\<exists>u. fpm_pctl_perform_idle_server_maintenance_heartbeat now queue m = Some u \<and> counter_locks u = counter_locks m"
  using maintain_from_locks [of 0 "length (pools m)" m now queue] assms
  by (auto simp: fpm_pctl_perform_idle_server_maintenance_heartbeat_def fpm_pctl_perform_idle_server_maintenance_def)

lemma maintenance_returns:
  assumes "\<forall>wp \<in> set (pools m). \<not> slock (scoreboard wp)"
  shows "fpm_pctl_perform_idle_server_maintenance_heartbeat now queue m \<noteq> None"
  using maintenance_locks [of m now queue] assms by (auto simp: counter_locks_def)

section \<open>The control timer\<close>

text \<open>Neither forking nor maintenance sets the control timer.\<close>

lemma spawn_one_timer: "pctl_timer (snd (spawn_one k m)) = pctl_timer m"
  by (auto simp: spawn_one_def next_spawn_def upd_pool_def fpm_child_link_def Let_def split: list.splits spawn_result.splits option.splits prod.splits)

lemma make_loop_timer: "pctl_timer (snd (make_loop k limit m)) = pctl_timer m"
proof (induction k limit m rule: make_loop.induct)
  case (1 k limit m)
  obtain r v where v: "spawn_one k m = (r, v)" by (cases "spawn_one k m")
  then have t: "pctl_timer v = pctl_timer m" using spawn_one_timer [of k m] by simp
  show ?case
  proof (cases "may_spawn k limit m \<and> r = None")
    case True
    then show ?thesis using "1.IH" v t by (subst make_loop.simps) auto
  next
    case False
    then show ?thesis using v t by (subst make_loop.simps) (auto split: option.splits)
  qed
qed

lemma upd_pool_timer [simp]: "pctl_timer (upd_pool k f m) = pctl_timer m"
  by (simp add: upd_pool_def)

lemma children_make_timer [simp]: "pctl_timer (snd (fpm_children_make k b n m)) = pctl_timer m"
  by (simp add: fpm_children_make_def make_loop_timer)

lemma maintain_dynamic_timer: "maintain_dynamic k n l m = Some u \<Longrightarrow> pctl_timer u = pctl_timer m"
  by (auto simp: maintain_dynamic_def fpm_pctl_kill_def Let_def split: option.splits if_splits bind_splits)

lemma maintain_pool_timer: "maintain_pool now queue k m = Some u \<Longrightarrow> pctl_timer u = pctl_timer m"
  by (auto simp: maintain_pool_def maintain_ondemand_def fpm_pctl_kill_def Let_def dest!: maintain_dynamic_timer
      split: prod.splits option.splits if_splits bind_splits pm_style.splits)

lemma maintain_from_timer: "maintain_from now queue k n m = Some u \<Longrightarrow> pctl_timer u = pctl_timer m"
proof (induction now queue k n m rule: maintain_from.induct)
  case (2 now queue k n m)
  obtain v where v: "maintain_pool now queue k m = Some v"
    "(if is_child v \<noteq> None then Some v else maintain_from now queue (Suc k) n v) = Some u"
    using "2.prems" by (auto split: bind_splits)
  then show ?case using "2.IH" [OF v(1)] maintain_pool_timer [OF v(1)] by (cases "is_child v = None") auto
qed simp

lemma maintenance_timer:
  "fpm_pctl_perform_idle_server_maintenance_heartbeat now queue m = Some u \<Longrightarrow> pctl_timer u = pctl_timer m"
  by (auto simp: fpm_pctl_perform_idle_server_maintenance_heartbeat_def fpm_pctl_perform_idle_server_maintenance_def
      dest!: maintain_from_timer split: if_splits)

section \<open>A waiting connection\<close>

lemma socket_accept_ok:
  assumes ok: "master_ok m" and k: "k < length (pools m)" and ic: "is_child m = None"
    and run: "fpm_pctl_on_socket_accept k m = Some t" and it: "is_child t = None"
  shows "master_ok t"
proof -
  let ?m = "upd_pool k (\<lambda>wp. wp\<lparr>socket_event_set := False\<rparr>) m"
  have P: "workers_ok (pool k m)" using workers_okD [OF ok k] .
  have M: "master_ok ?m" using P by (intro master_ok_edit [OF ok k]) simp_all
  have km: "k < length (pools ?m)" "is_child ?m = None" "workers_ok (pool k ?m)" using k ic P by (simp_all add: upd_pool_def)
  have M2: "master_ok (upd_pool k (\<lambda>_. v) ?m)" if "report_max_children (pool k ?m) = Some v" for v
    using report_ok [OF km(3) that] by (intro master_ok_edit [OF M km(1)]) simp_all
  let ?w = "upd_pool k (\<lambda>wp. wp\<lparr>warn_max_children := False\<rparr>) ?m"
  have M3: "master_ok ?w" using km(3) by (intro master_ok_edit [OF M km(1)]) simp_all
  have "k < length (pools ?w)" "is_child ?w = None" using km by (simp_all add: upd_pool_def)
  from children_make_ok [OF M3 this, of 1] obtain z u where "fpm_children_make k True 1 ?w = (z, u)"
    "is_child u = None \<longrightarrow> master_ok u" by auto
  then show ?thesis using M M2 run it by (auto simp: fpm_pctl_on_socket_accept_def Let_def split: if_splits bind_splits)
qed

end
