(* ===== verification/Fpm_Properties.thy ===== *)
theory Fpm_Properties
  imports Fpm_Steps Fcgi_Wire
begin

text \<open>
  The master as a machine, and the properties of process management: pools and slots stay consistent,
  shutdown escalates, maintenance is bounded, and what the stages that a worker of the coroutine engine
  writes mean for the master.
\<close>

section \<open>The steps of the master\<close>

text \<open>
  The master is one process: an event is handled to its end before the next. Between two of them its workers
  run, and may have written anything into the shared memory of a pool, its locks and counters included, but
  which slots are in use: those flags only the master writes.
\<close>

inductive master_step :: "fpm_master \<Rightarrow> fpm_master \<Rightarrow> bool" where
  Bury: "is_child m = None \<Longrightarrow> departed m = None \<Longrightarrow> master_step m (fpm_children_bury ws m)"
| Control: "is_child m = None \<Longrightarrow> departed m = None \<Longrightarrow> master_step m (fpm_pctl a m)"
| Limits: "is_child m = None \<Longrightarrow> departed m = None \<Longrightarrow> master_step m (fpm_pctl_heartbeat now m)"
| Maintain: "is_child m = None \<Longrightarrow> departed m = None \<Longrightarrow>
    fpm_pctl_perform_idle_server_maintenance_heartbeat now queue m = Some u \<Longrightarrow> master_step m u"
| Accept: "is_child m = None \<Longrightarrow> departed m = None \<Longrightarrow> k < length (pools m) \<Longrightarrow>
    fpm_pctl_on_socket_accept k m = Some u \<Longrightarrow> master_step m u"
| Worker: "is_child m = None \<Longrightarrow> departed m = None \<Longrightarrow> k < length (pools m) \<Longrightarrow>
    map used (procs sb) = map used (procs (scoreboard (pool k m))) \<Longrightarrow>
    master_step m (upd_pool k (\<lambda>wp. wp\<lparr>scoreboard := sb\<rparr>) m)"

inductive_cases master_stepE: "master_step m u"

lemma worker_write_ok:
  assumes P: "workers_ok wp" and u: "map used (procs sb) = map used (procs (scoreboard wp))"
  shows "workers_ok (wp\<lparr>scoreboard := sb\<rparr>)"
proof -
  have n: "nprocs sb = nprocs (scoreboard wp)" using u by (metis length_map)
  have "used (procs sb ! i) = used (procs (scoreboard wp) ! i)" if "i < nprocs sb" for i
    using arg_cong [OF u, of "\<lambda>xs. xs ! i"] that n by simp
  then have "taken_slots sb = taken_slots (scoreboard wp)" using n by (auto simp: taken_slots_def)
  then show ?thesis using P n by (simp add: workers_ok_def)
qed

lemma master_step_ok:
  assumes "master_step m u" and "master_ok m" and "is_child u = None"
  shows "master_ok u"
  using assms
proof (cases rule: master_step.cases)
  case (Bury ws)
  then show ?thesis using children_bury_ok [OF assms(2)] assms(3) by simp
next
  case (Control a)
  then show ?thesis using assms(2) master_ok_pools [of u m] by simp
next
  case (Limits now)
  then show ?thesis using check_timeout_ok [OF assms(2)] by (simp add: fpm_pctl_heartbeat_def)
next
  case (Maintain now queue)
  then show ?thesis using maintenance_ok [OF assms(2), of now queue u] assms(3) by simp
next
  case (Accept k)
  then show ?thesis using socket_accept_ok [OF assms(2), of k u] assms(3) by simp
next
  case (Worker k sb)
  then show ?thesis
    using worker_write_ok [OF workers_okD [OF assms(2) Worker(4)] Worker(5)]
    by (auto intro: master_ok_edit [OF assms(2) Worker(4)])
qed

inductive master_run :: "fpm_master \<Rightarrow> fpm_master \<Rightarrow> bool" for m where
  Start: "master_run m m"
| Step: "master_run m t \<Longrightarrow> master_step t u \<Longrightarrow> master_run m u"

lemma master_step_in_master: "master_step m u \<Longrightarrow> is_child m = None"
  by (erule master_stepE) simp_all

lemma master_run_ok: "master_run m u \<Longrightarrow> master_ok m \<Longrightarrow> is_child u = None \<Longrightarrow> master_ok u"
proof (induction rule: master_run.induct)
  case (Step t u)
  then show ?case using master_step_ok [OF Step.hyps(2)] master_step_in_master [OF Step.hyps(2)] by blast
qed

section \<open>A small master\<close>

definition small_board :: scoreboard where
  "small_board = the (scoreboard_init ''www'' PM_STYLE_DYNAMIC 3 0)"

definition small_pool :: worker_pool where
  "small_pool = \<lparr>cfg_pm = PM_STYLE_DYNAMIC, pm_max_children = 3, pm_start_servers = 1, pm_min_spare_servers = 1,
     pm_max_spare_servers = 2, pm_process_idle_timeout = 10, request_terminate_timeout = 30, request_slowlog_timeout = 5,
     children = [], running_children = 0, idle_spawn_rate = 1, warn_max_children = False, socket_event_set = False,
     scoreboard = small_board\<rparr>"

definition small_master :: fpm_master where
  "small_master = \<lparr>pools = [small_pool], all_running = 0, process_max = 0, is_child = None, fpm_state = PCTL_NORMAL,
     signal_sent = None, process_control_timeout = 5, pctl_timer = None, spawns = [In_parent 100 (1, 0)],
     emergency_threshold = 0, emergency_interval = 0, last_faults = None, fault = 0, signals = [], departed = None\<rparr>"

lemma scoreboard_init_ok:
  assumes "scoreboard_init name style n now = Some sb"
  shows "taken_slots sb = {} \<and> int (nprocs sb) = n \<and> unlocked sb"
  using assms by (auto simp: scoreboard_init_def taken_slots_def unlocked_def zero_proc_def split: if_splits)

lemma small_ok: "master_ok small_master" "is_child small_master = None"
proof -
  have "scoreboard_init ''www'' PM_STYLE_DYNAMIC 3 0 = Some small_board"
    by (simp add: small_board_def scoreboard_init_def)
  from scoreboard_init_ok [OF this] show "master_ok small_master"
    by (simp add: master_ok_def small_master_def small_pool_def workers_ok_def)
qed (simp add: small_master_def)

lemma small_maintained:
  "\<exists>u. fpm_pctl_perform_idle_server_maintenance_heartbeat (9, 0) (\<lambda>_. 0) small_master = Some u
     \<and> is_child u = None \<and> length (children (pool 0 u)) = 1 \<and> length (pools u) = 1"
  by (simp add: fpm_pctl_perform_idle_server_maintenance_heartbeat_def fpm_pctl_perform_idle_server_maintenance_def
      fpm_pctl_can_spawn_children_def small_master_def small_pool_def small_board_def scoreboard_init_def numeral_2_eq_2
      maintain_pool_def fpm_scoreboard_update_def fpm_spinlock_def set_counters_def maintain_dynamic_def upd_pool_def
      fpm_children_make_def spawn_limit_def make_loop.simps may_spawn_def spawn_one_def next_spawn_def
      fpm_scoreboard_proc_alloc_def zero_proc_def fpm_child_link_def upd_proc_def FPM_MAX_SPAWN_RATE_def Let_def)

section \<open>Pools and slots\<close>

text \<open>
  Allocating and freeing slots of a scoreboard is taking and giving back elements of a set: a slot is
  found exactly when one is free, it is one that nobody has, and no other slot changes hands.
\<close>

theorem slots_refine_set:
  "(case fpm_scoreboard_proc_alloc sb of
      None \<Rightarrow> taken_slots sb = {..<nprocs sb}
    | Some (i, u) \<Rightarrow> i < nprocs sb \<and> i \<notin> taken_slots sb \<and> taken_slots u = insert i (taken_slots sb)
        \<and> taken_slots (fpm_scoreboard_proc_free (int i) u) = taken_slots sb)"
proof (cases "fpm_scoreboard_proc_alloc sb")
  case None
  then show ?thesis using fpm_slots.alloc_none by simp
next
  case (Some iu)
  then show ?thesis using fpm_slots.alloc_some [of sb "fst iu" "snd iu"] fpm_slots.owned_back [of sb "fst iu" "snd iu"]
    by (auto split: prod.splits)
qed

text \<open>
  C16. In every state the master reaches, whatever its workers do to the shared memory meanwhile: each pool
  counts its children correctly and has at most \<open>pm.max_children\<close> of them, each child has a slot of its
  own, and no slot is lost. The next maintenance comes to its end when no pool's counters are locked; while
  those of a pool are, as they stay when a worker has been killed inside its update, it waits there.
\<close>

theorem master_safe:
  assumes "master_ok m" and "master_run m u" and "is_child u = None" and "k < length (pools u)"
  shows "running_children (pool k u) = int (length (children (pool k u)))
    \<and> running_children (pool k u) \<le> pm_max_children (pool k u)
    \<and> distinct (map scoreboard_i (children (pool k u)))
    \<and> set (map scoreboard_i (children (pool k u))) = taken_slots (scoreboard (pool k u))
    \<and> all_running u = sum_list (map running_children (pools u))
    \<and> ((\<forall>wp \<in> set (pools u). \<not> slock (scoreboard wp)) \<longrightarrow>
         fpm_pctl_perform_idle_server_maintenance_heartbeat now queue u \<noteq> None)
    \<and> (slock (scoreboard (pool k u)) \<longrightarrow> maintain_pool now queue k u = None)"
proof -
  have ok: "master_ok u" using master_run_ok [OF assms(2,1,3)] .
  have P: "workers_ok (pool k u)" using workers_okD [OF ok assms(4)] .
  show ?thesis
  proof (intro conjI impI)
    show "fpm_pctl_perform_idle_server_maintenance_heartbeat now queue u \<noteq> None"
      if "\<forall>wp \<in> set (pools u). \<not> slock (scoreboard wp)" using maintenance_returns [OF that] .
  qed (use P pool_bound [OF P] ok maintain_pool_held [of u k now queue] in \<open>simp_all add: workers_ok_def master_ok_def\<close>)
qed

theorem master_safe_witness:
  "\<exists>u. master_run small_master u \<and> is_child u = None \<and> length (children (pool 0 u)) = 1
     \<and> running_children (pool 0 u) = 1
     \<and> set (map scoreboard_i (children (pool 0 u))) = taken_slots (scoreboard (pool 0 u))"
proof -
  obtain u where u: "fpm_pctl_perform_idle_server_maintenance_heartbeat (9, 0) (\<lambda>_. 0) small_master = Some u"
    "is_child u = None" "length (children (pool 0 u)) = 1" "length (pools u) = 1"
    using small_maintained by blast
  have "master_run small_master u"
    by (rule master_run.Step [OF master_run.Start master_step.Maintain [OF _ _ u(1)]]) (simp_all add: small_master_def)
  moreover from this have "running_children (pool 0 u) = 1 \<and>
      set (map scoreboard_i (children (pool 0 u))) = taken_slots (scoreboard (pool 0 u))"
    using master_safe [OF small_ok(1) _ u(2), of 0] u(3,4) by simp
  ultimately show ?thesis using u(2,3) by blast
qed

section \<open>Maintenance\<close>

lemma count_children_run:
  "count_children wp cs (l, i, a) = (l', i', a') \<Longrightarrow>
     i' = i + int (length (filter (fpm_request_is_idle wp) cs))
   \<and> a' = a + int (length (filter (\<lambda>c. \<not> fpm_request_is_idle wp c) cs))
   \<and> (\<forall>c. l' = Some c \<longrightarrow> l = Some c \<or> c \<in> set cs \<and> fpm_request_is_idle wp c)"
proof (induction wp cs "(l, i, a)" arbitrary: l i a rule: count_children.induct)
  case (2 wp c cs l i a)
  show ?case
  proof (cases "fpm_request_is_idle wp c")
    case True
    then show ?thesis using "2.hyps"(1) [OF True] "2.prems" by (fastforce split: option.splits if_splits)
  next
    case False
    then show ?thesis using "2.hyps"(2) [OF False] "2.prems" by auto
  qed
qed simp

text \<open>
  C18. Maintaining a dynamic pool is bounded: no more children are made than the pool's current spawn rate
  (\<open>idle_spawn_rate\<close>, itself never above 32), the missing idle children and the room under \<open>pm.max_children\<close> allow, and at most one child is told to
  quit, one that is idle, and only when more children are idle than \<open>pm.max_spare_servers\<close>.
\<close>

theorem maintenance_bounded:
  assumes "master_ok m" and "k < length (pools m)" and "is_child m = None" and "cfg_pm (pool k m) = PM_STYLE_DYNAMIC"
    and "maintain_pool now queue k m = Some u" and "n_idle = int (length (filter (fpm_request_is_idle (pool k m)) (children (pool k m))))"
  shows "(is_child u = None \<longrightarrow>
       forked k m u \<le> max 0 (min (min (idle_spawn_rate (pool k m)) (pm_min_spare_servers (pool k m) - n_idle))
                                 (pm_max_children (pool k m) - running_children (pool k m))))
    \<and> idle_spawn_rate (pool k m) \<le> 32
    \<and> (signals u = signals m
       \<or> (\<exists>c \<in> set (children (pool k m)). fpm_request_is_idle (pool k m) c
            \<and> pm_max_spare_servers (pool k m) < n_idle \<and> signals u = signals m @ [(pid c, SIGQUIT)]))"
proof -
  let ?wp = "pool k m"
  have P: "workers_ok ?wp" using workers_okD [OF assms(1,2)] .
  obtain l i a where c: "count_children ?wp (children ?wp) (None, 0, 0) = (l, i, a)" by (metis prod_cases3)
  have cc: "i = n_idle" "\<And>c. l = Some c \<Longrightarrow> c \<in> set (children ?wp) \<and> fpm_request_is_idle ?wp c"
    using count_children_run [OF c] assms(6) by auto
  obtain sb where sb: "fpm_scoreboard_update i a (queue k) (-1) (-1) (-1) 0 FPM_SCOREBOARD_ACTION_SET (scoreboard ?wp) = Some sb"
    using assms(5) c by (auto simp: maintain_pool_def split: bind_splits)
  let ?m = "upd_pool k (\<lambda>wp. wp\<lparr>scoreboard := sb\<rparr>) m"
  have M: "master_ok ?m" using workers_ok_board [OF P update_procs(1) [OF sb]] by (intro master_ok_edit [OF assms(1,2)]) simp_all
  have km: "k < length (pools ?m)" "is_child ?m = None" "pool k ?m = ?wp\<lparr>scoreboard := sb\<rparr>" "signals ?m = signals m"
    using assms(2,3) by (simp_all add: upd_pool_def)
  then have dyn: "cfg_pm (pool k ?m) = PM_STYLE_DYNAMIC" using assms(4) by simp
  have "maintain_dynamic k i l ?m = Some u" using assms(5) c sb dyn by (simp add: maintain_pool_def Let_def)
  from maintain_dynamic_ok [OF M km(1,2) dyn this] have u:
    "signals u = signals m @ (case (if pm_max_spare_servers ?wp < i then l else None) of None \<Rightarrow> [] | Some l \<Rightarrow> [(pid l, SIGQUIT)])"
    "is_child u = None \<longrightarrow> (0 < forked k ?m u \<longrightarrow> forked k ?m u \<le> min (min (idle_spawn_rate ?wp) (pm_min_spare_servers ?wp - i))
                                            (pm_max_children ?wp - running_children ?wp))"
    using km by auto
  have f: "forked k ?m u = forked k m u" using km(3) by (simp add: forked_def)
  have rate: "idle_spawn_rate ?wp \<le> 32" using P by (auto simp: workers_ok_def)
  show ?thesis
  proof (intro conjI impI)
    assume "is_child u = None"
    then show "forked k m u \<le> max 0 (min (min (idle_spawn_rate ?wp) (pm_min_spare_servers ?wp - n_idle)) (pm_max_children ?wp - running_children ?wp))"
      using u(2) f cc(1) by linarith
  next
    show "idle_spawn_rate ?wp \<le> 32" using rate .
  next
    show "signals u = signals m \<or> (\<exists>c \<in> set (children ?wp). fpm_request_is_idle ?wp c
        \<and> pm_max_spare_servers ?wp < n_idle \<and> signals u = signals m @ [(pid c, SIGQUIT)])"
      using u(1) cc by (cases "if pm_max_spare_servers ?wp < i then l else None") (auto split: if_splits)
  qed
qed

theorem maintenance_bounded_witness:
  "\<exists>u. maintain_pool (9, 0) (\<lambda>_. 0) 0 small_master = Some u
     \<and> (is_child u = None \<longrightarrow> forked 0 small_master u \<le> 1)"
proof -
  have k: "0 < length (pools small_master)" "cfg_pm (pool 0 small_master) = PM_STYLE_DYNAMIC"
    by (simp_all add: small_master_def small_pool_def)
  obtain u where u: "maintain_pool (9, 0) (\<lambda>_. 0) 0 small_master = Some u"
    using maintain_pool_locks [OF k(1), of "(9, 0)" "\<lambda>_. 0"] by (auto simp: small_master_def small_pool_def small_board_def scoreboard_init_def)
  have "int (length (filter (fpm_request_is_idle (pool 0 small_master)) (children (pool 0 small_master)))) = 0"
    by (simp add: small_master_def small_pool_def)
  from maintenance_bounded [OF small_ok(1) k(1) small_ok(2) k(2) u this [symmetric]] show ?thesis
    using u by (auto simp: small_master_def small_pool_def)
qed

section \<open>Shutting down\<close>

definition send :: "signo \<Rightarrow> fpm_master \<Rightarrow> (int \<times> signo) list" where
  "send sig m = map (\<lambda>c. (pid c, sig)) (all_children m)"

lemma timeout_run:
  assumes "departed m = None" and "all_running m \<noteq> 0"
  shows "fpm_pctl ACTION_TIMEOUT m = fpm_pctl_timeout_set (case signal_sent m of None \<Rightarrow> process_control_timeout m | Some _ \<Rightarrow> 1)
     (let sig = (case signal_sent m of None \<Rightarrow> (if fpm_state m = PCTL_TERMINATING then SIGTERM else SIGQUIT)
                                     | Some s \<Rightarrow> (if s = SIGQUIT then SIGTERM else SIGKILL))
      in m\<lparr>signals := signals m @ send sig m, signal_sent := Some sig\<rparr>)"
  using assms by (simp add: fpm_pctl_def fpm_pctl_action_next_def Let_def fpm_pctl_kill_all_def send_def split: option.splits)

text \<open>
  C17. What the control function \<open>fpm_pctl\<close> does once a running master is told to reload, finish or terminate, call by call, given that it
  is called with \<open>ACTION_TIMEOUT\<close> each time the control timer should act: at once the children get \<open>SIGQUIT\<close>, or \<open>SIGTERM\<close> when
  terminating, and the timer is set to the control timeout; the first such call sends \<open>SIGTERM\<close>, or
  \<open>SIGKILL\<close> when terminating, every later one \<open>SIGKILL\<close>, and sets the timer to a second; no child is made any more; and the end of
  the last child ends the master, by a restart exactly when it was reloading. That the timer acts again is not a part of this: the
  event loop loses it, as the theory \<open>Fpm_Event_Control\<close> shows.
\<close>

theorem shutdown_escalates:
  assumes "departed m = None" and "all_running m \<noteq> 0" and "fpm_state m = PCTL_NORMAL" and "new \<noteq> PCTL_NORMAL"
  defines "m1 \<equiv> fpm_pctl (ACTION_SET new) m" and "first \<equiv> (if new = PCTL_TERMINATING then SIGTERM else SIGQUIT)"
  shows "signals m1 = signals m @ send first m \<and> pctl_timer m1 = Some (process_control_timeout m * 1000)
    \<and> signals (fpm_pctl ACTION_TIMEOUT m1) = signals m1 @ send (if first = SIGQUIT then SIGTERM else SIGKILL) m
    \<and> (\<forall>n. signals ((fpm_pctl ACTION_TIMEOUT ^^ (n + 2)) m1)
         = signals ((fpm_pctl ACTION_TIMEOUT ^^ (n + 1)) m1) @ send SIGKILL m
         \<and> pctl_timer ((fpm_pctl ACTION_TIMEOUT ^^ (n + 2)) m1) = Some 1000)
    \<and> (\<forall>k b nb. fpm_children_make k b nb m1 = (1, m1))
    \<and> departed (fpm_pctl_child_exited (m1\<lparr>all_running := 0\<rparr>)) = Some (if new = PCTL_RELOADING then Reloads else Exits)"
proof -
  have m1: "signals m1 = signals m @ send first m" "pctl_timer m1 = Some (process_control_timeout m * 1000)"
    "signal_sent m1 = Some first" "departed m1 = None" "all_running m1 = all_running m" "fpm_state m1 = new"
    "pools m1 = pools m"
    using assms(1-4) unfolding m1_def first_def
    by (simp_all add: fpm_pctl_def overrides_def fpm_pctl_action_next_def Let_def fpm_pctl_kill_all_def send_def all_children_def
        fpm_pctl_timeout_set_def)
  let ?t = "\<lambda>n. (fpm_pctl ACTION_TIMEOUT ^^ n) m1"
  have keep: "departed (?t n) = None \<and> all_running (?t n) = all_running m \<and> pools (?t n) = pools m
      \<and> signal_sent (?t (Suc n)) = Some (if n = 0 \<and> first = SIGQUIT then SIGTERM else SIGKILL)" for n
  proof (induction n)
    case 0
    then show ?case using m1 assms(2) by (simp add: timeout_run Let_def fpm_pctl_timeout_set_def)
  next
    case (Suc n)
    have s: "signal_sent (?t (Suc n)) \<noteq> Some SIGQUIT" "signal_sent (?t (Suc n)) \<noteq> None" using Suc by simp_all
    have d: "departed (?t (Suc n)) = None" "all_running (?t (Suc n)) = all_running m" "pools (?t (Suc n)) = pools m"
      using Suc assms(2) by (simp_all add: timeout_run Let_def fpm_pctl_timeout_set_def)
    then show ?case using s assms(2)
      by (simp only: funpow.simps(2) [of "Suc n"] comp_apply) (auto simp: timeout_run Let_def fpm_pctl_timeout_set_def)
  qed
  have send_same: "send sig (?t n) = send sig m" for sig n using keep [of n] by (simp add: send_def all_children_def)
  have "signals (?t (Suc n)) = signals (?t n) @ send (if n = 0 \<and> first = SIGQUIT then SIGTERM else SIGKILL) m
      \<and> pctl_timer (?t (Suc n)) = Some 1000" for n
  proof -
    have "\<exists>s. signal_sent (?t n) = Some s \<and> (if s = SIGQUIT then SIGTERM else SIGKILL) = (if n = 0 \<and> first = SIGQUIT then SIGTERM else SIGKILL)"
      using m1(3) keep [of "n - 1"] by (cases n) (auto split: if_splits)
    then show ?thesis using keep [of n] assms(2) send_same [of _ n]
      by (auto simp: timeout_run Let_def fpm_pctl_timeout_set_def)
  qed
  note step = this
  have "signals (fpm_pctl ACTION_TIMEOUT m1) = signals m1 @ send (if first = SIGQUIT then SIGTERM else SIGKILL) m"
    using step [of 0] by simp
  moreover have "signals (?t (n + 2)) = signals (?t (n + 1)) @ send SIGKILL m \<and> pctl_timer (?t (n + 2)) = Some 1000" for n
    using step [of "Suc n"] by simp
  moreover have "fpm_children_make k b nb m1 = (1, m1)" for k b nb using no_spawn m1(6) assms(4) by simp
  moreover have "departed (fpm_pctl_child_exited (m1\<lparr>all_running := 0\<rparr>)) = Some (if new = PCTL_RELOADING then Reloads else Exits)"
    using m1(4,6) assms(4) by (cases new) (simp_all add: fpm_pctl_child_exited_def fpm_pctl_def fpm_pctl_action_last_def)
  ultimately show ?thesis using m1(1,2) by blast
qed

theorem shutdown_escalates_witness:
  "signals (fpm_pctl (ACTION_SET PCTL_RELOADING)
      (small_master\<lparr>all_running := 1, pools := [small_pool\<lparr>children := [\<lparr>pid = 7, started = (0, 0), slow_logged = (0, 0),
         traced = False, idle_kill = False, scoreboard_i = 0\<rparr>]\<rparr>]\<rparr>)) = [(7, SIGQUIT)]"
proof -
  let ?m = "small_master\<lparr>all_running := 1, pools := [small_pool\<lparr>children := [\<lparr>pid = 7, started = (0, 0), slow_logged = (0, 0),
         traced = False, idle_kill = False, scoreboard_i = 0\<rparr>]\<rparr>]\<rparr>"
  have "departed ?m = None" "all_running ?m \<noteq> 0" "fpm_state ?m = PCTL_NORMAL" "PCTL_RELOADING \<noteq> PCTL_NORMAL"
    by (simp_all add: small_master_def)
  from shutdown_escalates [OF this] have "signals (fpm_pctl (ACTION_SET PCTL_RELOADING) ?m) = signals ?m @ send SIGQUIT ?m"
    by simp
  then show ?thesis by (simp add: small_master_def send_def all_children_def)
qed

section \<open>Time limits\<close>

text \<open>
  A request that runs past both limits is traced at the first check and terminated at the next one,
  as long as it is the same request; one that is within its limits, and a worker that is between two
  requests, is left alone.
\<close>

theorem slow_request_terminated:
  assumes "slot_of_child wp c = Some p" and "\<not> plock p" and "stage p = FPM_REQUEST_EXECUTING" and "fst (accepted p) \<noteq> 0"
    and "fst (slow_logged c) = 0" and "t \<noteq> 0" and "s \<noteq> 0"
    and "s \<le> fst (timersub now (accepted p))" and "t \<le> fst (timersub later (accepted p))"
  shows "(case fpm_request_check_timed_out wp now t s c of
      (c1, sigs) \<Rightarrow> sigs = [(pid c, SIGSTOP)] \<and> traced c1 \<and> slow_logged c1 = accepted p
        \<and> fpm_request_check_timed_out wp later t s c1 = (c1, [(pid c, SIGTERM)]))
    \<and> (\<forall>wp' d q. slot_of_child wp' d = Some q \<and> stage q \<notin> {FPM_REQUEST_READING_HEADERS, FPM_REQUEST_INFO, FPM_REQUEST_EXECUTING}
         \<longrightarrow> snd (fpm_request_check_timed_out wp' now t s d) = [])"
proof
  let ?c = "c\<lparr>slow_logged := accepted p, traced := True\<rparr>"
  have one: "fpm_request_check_timed_out wp now t s c = (?c, [(pid c, SIGSTOP)])"
    using assms by (simp add: fpm_request_check_timed_out_def Let_def)
  have "slot_of_child wp ?c = Some p" using assms(1) by (simp add: slot_of_child_def)
  then have "fpm_request_check_timed_out wp later t s ?c = (?c, [(pid c, SIGTERM)])"
    using assms by (simp add: fpm_request_check_timed_out_def Let_def)
  then show "case fpm_request_check_timed_out wp now t s c of
      (c1, sigs) \<Rightarrow> sigs = [(pid c, SIGSTOP)] \<and> traced c1 \<and> slow_logged c1 = accepted p
        \<and> fpm_request_check_timed_out wp later t s c1 = (c1, [(pid c, SIGTERM)])" unfolding one by simp
  show "\<forall>wp' d q. slot_of_child wp' d = Some q \<and> stage q \<notin> {FPM_REQUEST_READING_HEADERS, FPM_REQUEST_INFO, FPM_REQUEST_EXECUTING}
         \<longrightarrow> snd (fpm_request_check_timed_out wp' now t s d) = []"
  proof (intro allI impI)
    fix wp' d q
    assume q: "slot_of_child wp' d = Some q \<and> stage q \<notin> {FPM_REQUEST_READING_HEADERS, FPM_REQUEST_INFO, FPM_REQUEST_EXECUTING}"
    then show "snd (fpm_request_check_timed_out wp' now t s d) = []"
      by (cases "stage q") (simp_all add: fpm_request_check_timed_out_def Let_def)
  qed
qed

definition running_slot :: scoreboard_proc where
  "running_slot = zero_proc\<lparr>used := True, stage := FPM_REQUEST_EXECUTING, accepted := (100, 0)\<rparr>"

definition small_child :: fpm_child where
  "small_child = \<lparr>pid = 7, started = (0, 0), slow_logged = (0, 0), traced = False, idle_kill = False, scoreboard_i = 1\<rparr>"

theorem slow_request_terminated_witness:
  "\<exists>wp. snd (fpm_request_check_timed_out wp (110, 0) 30 5 small_child) = [(7, SIGSTOP)]
     \<and> snd (fpm_request_check_timed_out wp (140, 0) 30 5 (fst (fpm_request_check_timed_out wp (110, 0) 30 5 small_child)))
       = [(7, SIGTERM)]"
proof -
  let ?wp = "small_pool\<lparr>scoreboard := upd_proc 1 (\<lambda>_. running_slot) small_board\<rparr>"
  have "slot_of_child ?wp small_child = Some running_slot"
    by (simp add: slot_of_child_def fpm_scoreboard_proc_get_def small_child_def small_board_def scoreboard_init_def upd_proc_def)
  moreover have "\<not> plock running_slot" "stage running_slot = FPM_REQUEST_EXECUTING" "fst (accepted running_slot) \<noteq> 0"
    "fst (slow_logged small_child) = 0" "(30 :: int) \<noteq> 0" "(5 :: int) \<noteq> 0"
    "5 \<le> fst (timersub (110, 0) (accepted running_slot))" "30 \<le> fst (timersub (140, 0) (accepted running_slot))"
    by (simp_all add: running_slot_def small_child_def zero_proc_def timersub_def)
  ultimately show ?thesis
    using slow_request_terminated [of ?wp small_child running_slot 30 5 "(110, 0)" "(140, 0)"]
    by (intro exI [of _ ?wp]) (auto simp: small_child_def split: prod.splits)
qed

section \<open>What a worker of the engine shows to the master\<close>

text \<open>
  The functions \<open>fpm_init_request\<close> installs as hooks, and the other calls the handlers of the engine make
  while a request is served.
\<close>

primrec hook_call :: "fcgi_hook \<Rightarrow> timeval \<Rightarrow> fpm_process \<Rightarrow> fpm_process option" where
  "hook_call On_accept now w = fpm_request_accepting now w"
| "hook_call On_read now w = fpm_request_reading_headers now (fst now) w"
| "hook_call On_close now w = fpm_request_finished now w"

fun hooks_run :: "(fcgi_hook \<times> timeval) list \<Rightarrow> fpm_process \<Rightarrow> fpm_process option" where
  "hooks_run [] w = Some w"
| "hooks_run ((h, now) # hs) w = Option.bind (hook_call h now w) (hooks_run hs)"

text \<open>
  A handler of the engine reads a request, which runs the two hooks of \<open>init_request_callback\<close>, or makes
  one of the other calls.
\<close>

datatype visit =
    Read_request timeval timeval | Info request_values timeval | Executing timeval | End "64 word" timeval | Close timeval

primrec visit_run :: "visit \<Rightarrow> fpm_process \<Rightarrow> fpm_process option" where
  "visit_run (Read_request t1 t2) w = hooks_run [(On_accept, t1), (On_read, t2)] w"
| "visit_run (Info v now) w = fpm_request_info now v w"
| "visit_run (Executing now) w = fpm_request_executing now w"
| "visit_run (End mem now) w = fpm_request_end now mem w"
| "visit_run (Close now) w = hook_call On_close now w"

fun visits_run :: "visit list \<Rightarrow> fpm_process \<Rightarrow> fpm_process option" where
  "visits_run [] w = Some w"
| "visits_run (c # cs) w = Option.bind (visit_run c w) (visits_run cs)"

definition own_slot :: "fpm_process \<Rightarrow> scoreboard_proc" where
  "own_slot w = procs (the (board w)) ! nat (board_i w)"

definition slot_ready :: "fpm_process \<Rightarrow> bool" where
  "slot_ready w \<longleftrightarrow> (\<exists>sb. board w = Some sb \<and> unlocked sb \<and> 0 \<le> board_i w \<and> board_i w < int (nprocs sb))"

lemma with_slot_run:
  assumes "slot_ready w" and f: "\<And>p. plock (f p) = plock p"
  shows "\<exists>u. with_slot f w = Some (True, u) \<and> slot_ready u \<and> stage (own_slot u) = stage (f (own_slot w\<lparr>plock := True\<rparr>))"
proof -
  obtain sb where sb: "board w = Some sb" "unlocked sb" "0 \<le> board_i w" "board_i w < int (nprocs sb)"
    using assms(1) by (auto simp: slot_ready_def)
  let ?i = "nat (board_i w)" and ?p = "procs sb ! nat (board_i w)"
  have i: "?i < nprocs sb" using sb by simp
  have nl: "\<not> plock ?p" using sb(2) i by (simp add: unlocked_def)
  have acq: "fpm_scoreboard_proc_acquire (board_i w) sb (-1) False = Some (Some ?i, upd_proc ?i (\<lambda>p. p\<lparr>plock := True\<rparr>) sb)"
    using sb nl by (simp add: fpm_scoreboard_proc_acquire_def fpm_scoreboard_proc_get_def fpm_spinlock_def)
  let ?sb = "fpm_scoreboard_proc_release ?i (upd_proc ?i f (upd_proc ?i (\<lambda>p. p\<lparr>plock := True\<rparr>) sb))"
  have s: "procs ?sb = (procs sb)[?i := (f (?p\<lparr>plock := True\<rparr>))\<lparr>plock := False\<rparr>]" "slock ?sb = slock sb"
    using i by (simp_all add: fpm_scoreboard_proc_release_def upd_proc_def)
  then have "unlocked ?sb" using sb(2) i by (simp add: unlocked_def nth_list_update)
  then show ?thesis using sb acq s i
    by (simp add: with_slot_def slot_ready_def own_slot_def)
qed

lemma update_board_run:
  assumes "slot_ready w"
  shows "\<exists>u. update_board i a r w = Some u \<and> slot_ready u \<and> own_slot u = own_slot w"
proof -
  obtain sb where sb: "board w = Some sb" "unlocked sb" "0 \<le> board_i w" "board_i w < int (nprocs sb)"
    using assms(1) by (auto simp: slot_ready_def)
  obtain sb2 where "fpm_scoreboard_update i a 0 0 r 0 0 FPM_SCOREBOARD_ACTION_INC sb = Some sb2" "unlocked sb2" "procs sb2 = procs sb"
    using update_run [OF sb(2)] by metis
  then show ?thesis using sb by (simp add: update_board_def slot_ready_def own_slot_def)
qed

lemma visit_run_ok:
  assumes "slot_ready w"
  shows "\<exists>u. visit_run c w = Some u \<and> slot_ready u \<and> stage (own_slot u) \<noteq> FPM_REQUEST_ACCEPTING"
proof -
  have ws: "\<exists>u. with_slot f w = Some (True, u) \<and> slot_ready u \<and> stage (own_slot u) = st"
    if "slot_ready w" "\<And>p. plock (f p) = plock p" "\<And>p. stage (f p) = st" for f st w
    using with_slot_run [of w f, OF that(1,2)] that(3) by auto
  show ?thesis
  proof (cases c)
    case (Read_request t1 t2)
    obtain v where v: "with_slot (\<lambda>p. p\<lparr>stage := FPM_REQUEST_ACCEPTING, tv := t1\<rparr>) w = Some (True, v)" "slot_ready v"
      using ws [OF assms, of "\<lambda>p. p\<lparr>stage := FPM_REQUEST_ACCEPTING, tv := t1\<rparr>"] by auto
    then obtain x where x: "fpm_request_accepting t1 w = Some x" "slot_ready x"
      using update_board_run [OF v(2), of 1 "-1" 0] by (auto simp: fpm_request_accepting_def)
    let ?f = "\<lambda>p. p\<lparr>stage := FPM_REQUEST_READING_HEADERS, tv := t2, accepted := t2,
        accepted_epoch := fst t2, nrequests := nrequests p + 1, request_uri := [], request_method := [],
        script_filename := [], query_string := [], auth_user := [], content_len := 0\<rparr>"
    obtain y where y: "with_slot ?f x = Some (True, y)" "slot_ready y" "stage (own_slot y) = FPM_REQUEST_READING_HEADERS"
      using ws [OF x(2), of ?f] by auto
    obtain z where "update_board (-1) 1 1 y = Some z" "slot_ready z" "own_slot z = own_slot y"
      using update_board_run [OF y(2)] by blast
    then show ?thesis using Read_request x(1) y by (simp add: fpm_request_reading_headers_def)
  next
    case (Info v now)
    let ?f = "\<lambda>p. p\<lparr>stage := FPM_REQUEST_INFO, tv := now,
        request_uri := copied 128 (v_uri v) (request_uri p),
        request_method := copied 16 (v_method v) (request_method p),
        query_string := copied 512 (v_query v) (query_string p),
        auth_user := copied 32 (v_user v) (auth_user p),
        content_len := v_length v,
        script_filename := copied 256 (v_script v) (script_filename p)\<rparr>"
    show ?thesis using Info ws [OF assms, of ?f FPM_REQUEST_INFO] by (auto simp: fpm_request_info_def)
  next
    case (Executing now)
    then show ?thesis using ws [OF assms, of "\<lambda>p. p\<lparr>stage := FPM_REQUEST_EXECUTING, tv := now\<rparr>" FPM_REQUEST_EXECUTING]
      by (auto simp: fpm_request_executing_def)
  next
    case (End mem now)
    then show ?thesis
      using ws [OF assms, of "\<lambda>p. p\<lparr>stage := FPM_REQUEST_FINISHED, tv := now, duration := timersub now (accepted p), memory := mem\<rparr>" FPM_REQUEST_FINISHED]
      by (auto simp: fpm_request_end_def)
  next
    case (Close now)
    then show ?thesis using ws [OF assms, of "\<lambda>p. p\<lparr>stage := FPM_REQUEST_FINISHED, tv := now\<rparr>" FPM_REQUEST_FINISHED]
      by (auto simp: fpm_request_finished_def)
  qed
qed

lemma visits_run_ok:
  "slot_ready w \<Longrightarrow> stage (own_slot w) \<noteq> FPM_REQUEST_ACCEPTING \<Longrightarrow>
   \<exists>u. visits_run cs w = Some u \<and> slot_ready u \<and> stage (own_slot u) \<noteq> FPM_REQUEST_ACCEPTING"
proof (induction cs arbitrary: w)
  case (Cons c cs)
  obtain v where "visit_run c w = Some v" "slot_ready v" "stage (own_slot v) \<noteq> FPM_REQUEST_ACCEPTING"
    using visit_run_ok [OF Cons.prems(1)] by blast
  with Cons.IH show ?case by simp
qed simp

text \<open>
  C19. A worker of the engine is never seen idle: the stage that the master takes as idle is written when a
  request is read, and overwritten at once. Whatever requests come and end, between two handlers the slot
  never shows it, so the child never counts as idle for the maintenance of its pool.
\<close>

theorem worker_never_idle:
  assumes "slot_ready w" and "stage (own_slot w) \<noteq> FPM_REQUEST_ACCEPTING"
  shows "\<exists>u. visits_run cs w = Some u \<and> stage (own_slot u) \<noteq> FPM_REQUEST_ACCEPTING
    \<and> (\<forall>wp c. scoreboard wp = the (board u) \<and> int (scoreboard_i c) = board_i u \<longrightarrow> \<not> fpm_request_is_idle wp c)"
proof -
  obtain u where u: "visits_run cs w = Some u" "slot_ready u" "stage (own_slot u) \<noteq> FPM_REQUEST_ACCEPTING"
    using visits_run_ok [OF assms] by blast
  have "\<not> fpm_request_is_idle wp c" if "scoreboard wp = the (board u)" "int (scoreboard_i c) = board_i u" for wp c
    using u(3) that
    by (auto simp: fpm_request_is_idle_def slot_of_child_def fpm_scoreboard_proc_get_def own_slot_def Let_def)
  then show ?thesis using u by blast
qed

theorem worker_never_idle_witness:
  "\<exists>u. visits_run [Read_request (5, 0) (5, 1), Executing (5, 2), End 0 (6, 0), Close (6, 1)]
       (fpm_scoreboard_child_use small_board 1 100 0) = Some u
     \<and> stage (own_slot u) \<noteq> FPM_REQUEST_ACCEPTING"
proof -
  have "slot_ready (fpm_scoreboard_child_use small_board 1 100 0)"
    "stage (own_slot (fpm_scoreboard_child_use small_board 1 100 0)) \<noteq> FPM_REQUEST_ACCEPTING"
    by (simp_all add: slot_ready_def own_slot_def fpm_scoreboard_child_use_def small_board_def scoreboard_init_def
        fpm_scoreboard_proc_get_def upd_proc_def unlocked_def zero_proc_def nth_list_update)
  from worker_never_idle [OF this] show ?thesis by blast
qed

end
