(* ===== verification/Fpm_Events.thy ===== *)
theory Fpm_Events
  imports Fpm_Scoreboard
begin

text \<open>
  The event loop of the master process (sapi/fpm/fpm/fpm_events.c) with the epoll module
  (sapi/fpm/fpm/events/epoll.c): two queues, of timers and of descriptors, as doubly linked lists on a heap.
  Events are structs with an address; a callback is a value of type \<open>'c\<close> (with its argument), and what it does is
  a parameter of the loop. What the kernel reports in each round and the clock are given. \<open>malloc\<close> does not fail.
\<close>

section \<open>Times\<close>

definition timeradd :: "timeval \<Rightarrow> timeval \<Rightarrow> timeval" where
  "timeradd a b =
     (let sec = fst a + fst b; usec = snd a + snd b in if 1000000 \<le> usec then (sec + 1, usec - 1000000) else (sec, usec))"

definition timerisset :: "timeval \<Rightarrow> bool" where
  "timerisset t \<longleftrightarrow> fst t \<noteq> 0 \<or> snd t \<noteq> 0"

section \<open>Events and queues\<close>

text \<open>The bits of \<open>ev_flags\<close> and the values of \<open>ev_which\<close>.\<close>

definition FPM_EV_TIMEOUT :: "32 word" where "FPM_EV_TIMEOUT = 1"
definition FPM_EV_READ :: "32 word" where "FPM_EV_READ = 2"
definition FPM_EV_PERSIST :: "32 word" where "FPM_EV_PERSIST = 4"
definition FPM_EV_EDGE :: "32 word" where "FPM_EV_EDGE = 8"

record 'c fpm_event =
  ev_fd :: int
  ev_timeout :: timeval
  ev_frequency :: timeval
  ev_callback :: "'c option"
  ev_flags :: "32 word"
  ev_index :: int
  ev_which :: "32 word"

record fpm_event_queue =
  q_prev :: ptr
  q_next :: ptr
  q_ev :: nat

datatype which_queue = Timer_queue | Fd_queue

text \<open>
  \<open>epoll_set\<close> is what the kernel watches; \<open>clock\<close> gives the reading number \<open>reads\<close>; \<open>gone\<close> says that the
  process is not the master any more (a child after \<open>fork\<close>, or left by \<open>exec\<close> or \<open>exit\<close>); \<open>waited\<close> notes the time limits of
  the waits, in milliseconds; \<open>world\<close> is what the callbacks work on.
\<close>

record ('c, 'm) loop_state =
  events :: "nat \<rightharpoonup> 'c fpm_event"
  qs :: "nat \<rightharpoonup> fpm_event_queue"
  next_q :: nat
  queue_timer :: ptr
  queue_fd :: ptr
  epoll_set :: "int \<rightharpoonup> nat"
  clock :: "nat \<Rightarrow> timeval"
  reads :: nat
  gone :: bool
  waited :: "int list"
  world :: 'm

definition fpm_clock_get :: "('c, 'm) loop_state \<Rightarrow> timeval \<times> ('c, 'm) loop_state" where
  "fpm_clock_get s = (clock s (reads s), s\<lparr>reads := Suc (reads s)\<rparr>)"

definition head_of_queue :: "which_queue \<Rightarrow> ('c, 'm) loop_state \<Rightarrow> ptr" where
  "head_of_queue w s = (case w of Timer_queue \<Rightarrow> queue_timer s | Fd_queue \<Rightarrow> queue_fd s)"

definition set_head :: "which_queue \<Rightarrow> ptr \<Rightarrow> ('c, 'm) loop_state \<Rightarrow> ('c, 'm) loop_state" where
  "set_head w p s = (case w of Timer_queue \<Rightarrow> s\<lparr>queue_timer := p\<rparr> | Fd_queue \<Rightarrow> s\<lparr>queue_fd := p\<rparr>)"

definition q_read :: "ptr \<Rightarrow> ('c, 'm) loop_state \<Rightarrow> fpm_event_queue option" where
  "q_read q s = map_option snd (deref (qs s) q)"

definition q_write :: "(fpm_event_queue \<Rightarrow> fpm_event_queue) \<Rightarrow> ptr \<Rightarrow> ('c, 'm) loop_state \<Rightarrow> ('c, 'm) loop_state option" where
  "q_write f q s = map_option (\<lambda>h. s\<lparr>qs := h\<rparr>) (upd_at f q (qs s))"

definition q_free :: "ptr \<Rightarrow> ('c, 'm) loop_state \<Rightarrow> ('c, 'm) loop_state option" where
  "q_free q s = map_option (\<lambda>(a, _). s\<lparr>qs := (qs s)(a := None)\<rparr>) (deref (qs s) q)"

definition ev_write :: "('c fpm_event \<Rightarrow> 'c fpm_event) \<Rightarrow> nat \<Rightarrow> ('c, 'm) loop_state \<Rightarrow> ('c, 'm) loop_state option" where
  "ev_write f ev s = map_option (\<lambda>es. s\<lparr>events := es\<rparr>) (upd_at f (Some ev) (events s))"

section \<open>The epoll module\<close>

text \<open>The kernel refuses a descriptor that it watches already, and the removal of one that it does not.\<close>

definition fpm_event_epoll_add :: "nat \<Rightarrow> ('c, 'm) loop_state \<Rightarrow> (int \<times> ('c, 'm) loop_state) option" where
  "fpm_event_epoll_add ev s = do {
     e \<leftarrow> events s ev;
     if ev_fd e \<in> dom (epoll_set s) then Some (-1, s)
     else map_option (Pair 0) (ev_write (\<lambda>e. e\<lparr>ev_index := ev_fd e\<rparr>) ev (s\<lparr>epoll_set := (epoll_set s)(ev_fd e \<mapsto> ev)\<rparr>))
   }"

definition fpm_event_epoll_remove :: "nat \<Rightarrow> ('c, 'm) loop_state \<Rightarrow> (int \<times> ('c, 'm) loop_state) option" where
  "fpm_event_epoll_remove ev s = do {
     e \<leftarrow> events s ev;
     if ev_fd e \<notin> dom (epoll_set s) then Some (-1, s)
     else map_option (Pair 0) (ev_write (\<lambda>e. e\<lparr>ev_index := -1\<rparr>) ev (s\<lparr>epoll_set := (epoll_set s)(ev_fd e := None)\<rparr>))
   }"

definition fpm_event_epoll_clean :: "('c, 'm) loop_state \<Rightarrow> ('c, 'm) loop_state" where
  "fpm_event_epoll_clean s = s\<lparr>epoll_set := Map.empty\<rparr>"

section \<open>Queues\<close>

partial_function (option) fpm_event_queue_isset :: "ptr \<Rightarrow> nat \<Rightarrow> ('c, 'm) loop_state \<Rightarrow> bool option" where
  "fpm_event_queue_isset queue ev s =
     (if queue = NULL then Some False
      else Option.bind (q_read queue s) (\<lambda>e. if q_ev e = ev then Some True else fpm_event_queue_isset (q_next e) ev s))"

definition fpm_event_queue_add :: "which_queue \<Rightarrow> ptr \<Rightarrow> ('c, 'm) loop_state \<Rightarrow> (int \<times> ('c, 'm) loop_state) option" where
  "fpm_event_queue_add w evp s =
     (case evp of None \<Rightarrow> Some (-1, s)
      | Some ev \<Rightarrow> do {
          found \<leftarrow> fpm_event_queue_isset (head_of_queue w s) ev s;
          if found then Some (0, s)
          else do {
            let elt = Some (next_q s);
            let first = head_of_queue w s;
            let s = s\<lparr>qs := (qs s)(next_q s \<mapsto> \<lparr>q_prev = NULL, q_next = first, q_ev = ev\<rparr>), next_q := Suc (next_q s)\<rparr>;
            s \<leftarrow> (if first \<noteq> NULL then q_write (\<lambda>e. e\<lparr>q_prev := elt\<rparr>) first s else Some s);
            let s = set_head w elt s;
            s \<leftarrow> (if head_of_queue w s = queue_fd s then map_option snd (fpm_event_epoll_add ev s) else Some s);
            Some (0, s)
          }
        })"

text \<open>Taking an element out of the links, as it is written in two places.\<close>

definition q_unlink :: "which_queue \<Rightarrow> ptr \<Rightarrow> ('c, 'm) loop_state \<Rightarrow> ('c, 'm) loop_state option" where
  "q_unlink w q s = do {
     e \<leftarrow> q_read q s;
     s \<leftarrow> (if q_prev e \<noteq> NULL then q_write (\<lambda>c. c\<lparr>q_next := q_next e\<rparr>) (q_prev e) s else Some s);
     e \<leftarrow> q_read q s;
     s \<leftarrow> (if q_next e \<noteq> NULL then q_write (\<lambda>c. c\<lparr>q_prev := q_prev e\<rparr>) (q_next e) s else Some s);
     if q = head_of_queue w s
     then do {
       e \<leftarrow> q_read q s;
       let s = set_head w (q_next e) s;
       if head_of_queue w s \<noteq> NULL then q_write (\<lambda>c. c\<lparr>q_prev := NULL\<rparr>) (head_of_queue w s) s else Some s
     }
     else Some s
   }"

partial_function (option) queue_del_loop :: "which_queue \<Rightarrow> nat \<Rightarrow> ptr \<Rightarrow> ('c, 'm) loop_state \<Rightarrow> (int \<times> ('c, 'm) loop_state) option" where
  "queue_del_loop w ev q s =
     (if q = NULL then Some (-1, s)
      else Option.bind (q_read q s) (\<lambda>e.
        if q_ev e = ev
        then Option.bind (q_unlink w q s) (\<lambda>s.
          Option.bind (if head_of_queue w s = queue_fd s then map_option snd (fpm_event_epoll_remove ev s) else Some s) (\<lambda>s.
            map_option (Pair 0) (q_free q s)))
        else queue_del_loop w ev (q_next e) s))"

definition fpm_event_queue_del :: "which_queue \<Rightarrow> ptr \<Rightarrow> ('c, 'm) loop_state \<Rightarrow> (int \<times> ('c, 'm) loop_state) option" where
  "fpm_event_queue_del w evp s = (case evp of None \<Rightarrow> Some (-1, s) | Some ev \<Rightarrow> queue_del_loop w ev (head_of_queue w s) s)"

partial_function (option) queue_destroy_loop :: "ptr \<Rightarrow> ('c, 'm) loop_state \<Rightarrow> ('c, 'm) loop_state option" where
  "queue_destroy_loop q s =
     (if q = NULL then Some s
      else Option.bind (q_read q s) (\<lambda>e. Option.bind (q_free q s) (queue_destroy_loop (q_next e))))"

definition fpm_event_queue_destroy :: "which_queue \<Rightarrow> ('c, 'm) loop_state \<Rightarrow> ('c, 'm) loop_state option" where
  "fpm_event_queue_destroy w s =
     (let s = (if head_of_queue w s = queue_fd s then fpm_event_epoll_clean s else s)
      in map_option (set_head w NULL) (queue_destroy_loop (head_of_queue w s) s))"

definition fpm_event_cleanup :: "('c, 'm) loop_state \<Rightarrow> ('c, 'm) loop_state option" where
  "fpm_event_cleanup s = Option.bind (fpm_event_queue_destroy Timer_queue s) (fpm_event_queue_destroy Fd_queue)"

section \<open>Setting, adding, deleting, firing\<close>

definition fpm_event_set :: "ptr \<Rightarrow> int \<Rightarrow> 32 word \<Rightarrow> 'c option \<Rightarrow> ('c, 'm) loop_state \<Rightarrow> (int \<times> ('c, 'm) loop_state) option" where
  "fpm_event_set evp fd flags callback s =
     (case evp of None \<Rightarrow> Some (-1, s)
      | Some ev \<Rightarrow>
          if callback = None \<or> fd < -1 then Some (-1, s)
          else map_option (Pair 0) (ev_write (\<lambda>_. \<lparr>ev_fd = fd, ev_timeout = (0, 0), ev_frequency = (0, 0),
                 ev_callback = callback, ev_flags = flags, ev_index = 0, ev_which = 0\<rparr>) ev s))"

definition fpm_event_add :: "ptr \<Rightarrow> 64 word \<Rightarrow> ('c, 'm) loop_state \<Rightarrow> (int \<times> ('c, 'm) loop_state) option" where
  "fpm_event_add evp freq s =
     (case evp of None \<Rightarrow> Some (-1, s)
      | Some ev \<Rightarrow> do {
          s \<leftarrow> ev_write (\<lambda>e. e\<lparr>ev_index := -1\<rparr>) ev s;
          e \<leftarrow> events s ev;
          if bit (ev_flags e) 1
          then do {
            s \<leftarrow> ev_write (\<lambda>e. e\<lparr>ev_which := FPM_EV_READ\<rparr>) ev s;
            (r, s) \<leftarrow> fpm_event_queue_add Fd_queue evp s;
            Some (if r \<noteq> 0 then (-1, s) else (0, s))
          }
          else do {
            s \<leftarrow> ev_write (\<lambda>e. e\<lparr>ev_which := FPM_EV_TIMEOUT\<rparr>) ev s;
            let (now, s) = fpm_clock_get s;
            let tmp = (if 1000 \<le> freq then (uint (freq div 1000), uint ((freq mod 1000) * 1000)) else (0, uint (freq * 1000)));
            s \<leftarrow> ev_write (\<lambda>e. e\<lparr>ev_frequency := tmp, ev_timeout := timeradd now tmp\<rparr>) ev s;
            (r, s) \<leftarrow> fpm_event_queue_add Timer_queue evp s;
            Some (if r \<noteq> 0 then (-1, s) else (0, s))
          }
        })"

definition fpm_event_del :: "nat \<Rightarrow> ('c, 'm) loop_state \<Rightarrow> (int \<times> ('c, 'm) loop_state) option" where
  "fpm_event_del ev s = do {
     e \<leftarrow> events s ev;
     (r, s) \<leftarrow> (if 0 \<le> ev_index e then fpm_event_queue_del Fd_queue (Some ev) s else Some (0, s));
     if r \<noteq> 0 then Some (-1, s)
     else do {
       e \<leftarrow> events s ev;
       (r, s) \<leftarrow> (if ev_index e < 0 then fpm_event_queue_del Timer_queue (Some ev) s else Some (0, s));
       if r \<noteq> 0 then Some (-1, s) else Some (0, s)
     }
   }"

type_synonym ('c, 'm) actions = "'c \<Rightarrow> nat \<Rightarrow> 32 word \<Rightarrow> ('c, 'm) loop_state \<Rightarrow> ('c, 'm) loop_state option"

definition fpm_event_fire :: "('c, 'm) actions \<Rightarrow> ptr \<Rightarrow> ('c, 'm) loop_state \<Rightarrow> ('c, 'm) loop_state option" where
  "fpm_event_fire act evp s =
     (case evp of None \<Rightarrow> Some s
      | Some ev \<Rightarrow> do {
          e \<leftarrow> events s ev;
          (case ev_callback e of None \<Rightarrow> Some s | Some c \<Rightarrow> act c ev (ev_which e) s)
        })"

section \<open>The loop\<close>

text \<open>What \<open>epoll_wait\<close> gives: the events, by their addresses, or the interruption by a signal.\<close>

datatype wait_result = Ready "nat list" | Woken

fun fire_ready :: "('c, 'm) actions \<Rightarrow> nat list \<Rightarrow> ('c, 'm) loop_state \<Rightarrow> ('c, 'm) loop_state option" where
  "fire_ready act [] s = Some s"
| "fire_ready act (ev # evs) s =
     Option.bind (fpm_event_fire act (Some ev) s) (\<lambda>s. if gone s then Some s else fire_ready act evs s)"

definition fpm_event_epoll_wait :: "('c, 'm) actions \<Rightarrow> wait_result \<Rightarrow> int \<Rightarrow> ('c, 'm) loop_state \<Rightarrow> ('c, 'm) loop_state option" where
  "fpm_event_epoll_wait act result timeout s =
     (let s = s\<lparr>waited := waited s @ [timeout]\<rparr>
      in case result of Woken \<Rightarrow> Some s | Ready evs \<Rightarrow> fire_ready act evs s)"

partial_function (option) earliest :: "ptr \<Rightarrow> timeval \<Rightarrow> ('c, 'm) loop_state \<Rightarrow> timeval option" where
  "earliest q ms s =
     (if q = NULL then Some ms
      else Option.bind (q_read q s) (\<lambda>e. Option.bind (events s (q_ev e)) (\<lambda>v.
        earliest (q_next e) (if \<not> timerisset ms \<or> timer_less (ev_timeout v) ms then ev_timeout v else ms) s)))"

definition wait_timeout :: "timeval \<Rightarrow> timeval \<Rightarrow> int" where
  "wait_timeout ms now =
     (if \<not> timerisset ms \<or> timer_less ms now \<or> ms = now then 1000
      else let tmp = timersub ms now in fst tmp * 1000 + snd tmp div 1000 + 1)"

text \<open>The walk along the timers, from the element \<open>q\<close> on.\<close>

partial_function (option) trigger_timers :: "('c, 'm) actions \<Rightarrow> ptr \<Rightarrow> ('c, 'm) loop_state \<Rightarrow> ('c, 'm) loop_state option" where
  "trigger_timers act q s =
     (if q = NULL then Some s
      else case fpm_clock_get s of (now, s) \<Rightarrow>
        Option.bind (q_read q s) (\<lambda>e. Option.bind (events s (q_ev e)) (\<lambda>v.
          if timer_less now (ev_timeout v)
          then trigger_timers act (q_next e) s
          else Option.bind (fpm_event_fire act (Some (q_ev e)) s) (\<lambda>s.
            if gone s then Some s
            else Option.bind (q_read q s) (\<lambda>e. Option.bind (events s (q_ev e)) (\<lambda>v.
              if bit (ev_flags v) 2
              then Option.bind (ev_write (\<lambda>v. v\<lparr>ev_timeout := timeradd now (ev_frequency v)\<rparr>) (q_ev e) s)
                     (\<lambda>s. Option.bind (q_read q s) (\<lambda>e. trigger_timers act (q_next e) s))
              else Option.bind (q_unlink Timer_queue q s) (\<lambda>s.
                     Option.bind (q_read q s) (\<lambda>e.
                       Option.bind (q_free q s) (trigger_timers act (q_next e))))))))))"

text \<open>One round; the process may be gone when it ends.\<close>

definition event_round :: "('c, 'm) actions \<Rightarrow> wait_result \<Rightarrow> ('c, 'm) loop_state \<Rightarrow> ('c, 'm) loop_state option" where
  "event_round act result s = do {
     let (now, s) = fpm_clock_get s;
     ms \<leftarrow> earliest (queue_timer s) (0, 0) s;
     s \<leftarrow> fpm_event_epoll_wait act result (wait_timeout ms now) s;
     if gone s then Some s else trigger_timers act (queue_timer s) s
   }"

text \<open>The loop, as far as the results of its waits are given.\<close>

fun event_rounds :: "('c, 'm) actions \<Rightarrow> wait_result list \<Rightarrow> ('c, 'm) loop_state \<Rightarrow> ('c, 'm) loop_state option" where
  "event_rounds act [] s = Some s"
| "event_rounds act (r # rs) s = (if gone s then Some s else Option.bind (event_round act r s) (event_rounds act rs))"

end
