(* ===== verification/Fpm_Event_Lemmas.thy ===== *)
theory Fpm_Event_Lemmas
  imports Fpm_Events
begin

text \<open>
  The queues of the event loop hold lists of events, the walk along the timers visits each timer once, and
  what it does with it.
\<close>

section \<open>Queues as lists\<close>

definition has_ev :: "('c, 'm) loop_state \<Rightarrow> nat \<Rightarrow> nat \<Rightarrow> bool" where
  "has_ev s a e \<longleftrightarrow> (\<exists>n. qs s a = Some n \<and> q_ev n = e)"

definition queue_at :: "which_queue \<Rightarrow> nat list \<Rightarrow> nat list \<Rightarrow> ('c, 'm) loop_state \<Rightarrow> bool" where
  "queue_at w as es s \<longleftrightarrow> (\<exists>t. dpath q_next q_prev (qs s) NULL (head_of_queue w s) as t NULL) \<and> distinct as
     \<and> list_all2 (has_ev s) as es"

text \<open>Both queues, apart from each other, with the addresses that were given out.\<close>

definition queues_at :: "nat list \<Rightarrow> nat list \<Rightarrow> nat list \<Rightarrow> nat list \<Rightarrow> ('c, 'm) loop_state \<Rightarrow> bool" where
  "queues_at as ts bs fs s \<longleftrightarrow> queue_at Timer_queue as ts s \<and> queue_at Fd_queue bs fs s \<and> set as \<inter> set bs = {}
     \<and> (\<forall>a \<in> dom (qs s). a < next_q s)"

lemma head_simps [simp]:
  "head_of_queue w (set_head v p s) = (if v = w then p else head_of_queue w s)"
  "qs (set_head v p s) = qs s" "events (set_head v p s) = events s" "next_q (set_head v p s) = next_q s"
  "reads (set_head v p s) = reads s" "clock (set_head v p s) = clock s" "gone (set_head v p s) = gone s"
  "world (set_head v p s) = world s" "epoll_set (set_head v p s) = epoll_set s" "waited (set_head v p s) = waited s"
  by (cases v; cases w; simp add: head_of_queue_def set_head_def)+

lemma head_of_queue_cong: "queue_timer s' = queue_timer s \<Longrightarrow> queue_fd s' = queue_fd s \<Longrightarrow> head_of_queue w s' = head_of_queue w s"
  by (simp add: head_of_queue_def split: which_queue.split)

lemma head_of_queue_updates [simp]:
  "head_of_queue w (s\<lparr>qs := h\<rparr>) = head_of_queue w s" "head_of_queue w (s\<lparr>next_q := n\<rparr>) = head_of_queue w s"
  "head_of_queue w (s\<lparr>events := es\<rparr>) = head_of_queue w s" "head_of_queue w (s\<lparr>reads := n\<rparr>) = head_of_queue w s"
  "head_of_queue w (s\<lparr>gone := b\<rparr>) = head_of_queue w s" "head_of_queue w (s\<lparr>world := m\<rparr>) = head_of_queue w s"
  "head_of_queue w (s\<lparr>epoll_set := k\<rparr>) = head_of_queue w s" "head_of_queue w (s\<lparr>waited := l\<rparr>) = head_of_queue w s"
  by (simp_all add: head_of_queue_def split: which_queue.split)

lemma head_Fd [simp]: "head_of_queue Fd_queue s = queue_fd s" and head_Timer [simp]: "head_of_queue Timer_queue s = queue_timer s"
  by (simp_all add: head_of_queue_def)

lemma q_read_Some [simp]: "q_read (Some a) s = qs s a"
  by (cases "qs s a") (simp_all add: q_read_def)

lemma q_write_Some: "qs s a = Some e \<Longrightarrow> q_write f (Some a) s = Some (s\<lparr>qs := (qs s)(a \<mapsto> f e)\<rparr>)"
  by (simp add: q_write_def)

lemma q_free_Some: "qs s a = Some e \<Longrightarrow> q_free (Some a) s = Some (s\<lparr>qs := (qs s)(a := None)\<rparr>)"
  by (simp add: q_free_def)

lemma ev_write_Some: "events s ev = Some e \<Longrightarrow> ev_write f ev s = Some (s\<lparr>events := (events s)(ev \<mapsto> f e)\<rparr>)"
  by (simp add: ev_write_def)

lemma queue_atD:
  assumes "queue_at w as es s"
  obtains t where "dpath q_next q_prev (qs s) NULL (head_of_queue w s) as t NULL" "distinct as" "list_all2 (has_ev s) as es"
    "length as = length es"
  using assms list_all2_lengthD by (auto simp: queue_at_def)

lemma all_ev_cong:
  "(\<And>a. a \<in> set as \<Longrightarrow> map_option q_ev (qs s' a) = map_option q_ev (qs s a)) \<Longrightarrow> list_all2 (has_ev s') as es = list_all2 (has_ev s) as es"
proof (induction as arbitrary: es)
  case Nil
  then show ?case by simp
next
  case (Cons a as)
  have "has_ev s' a = has_ev s a" using Cons.prems [of a] by (cases "qs s a"; cases "qs s' a") (auto simp: has_ev_def)
  then show ?case using Cons by (cases es) auto
qed

text \<open>A queue stays as it is when its elements and its head do.\<close>

lemma queue_at_frame:
  assumes "queue_at w as es s" and "\<And>a. a \<in> set as \<Longrightarrow> qs s' a = qs s a" and "head_of_queue w s' = head_of_queue w s"
  shows "queue_at w as es s'"
proof -
  obtain t where t: "dpath q_next q_prev (qs s) NULL (head_of_queue w s) as t NULL" "distinct as" "list_all2 (has_ev s) as es"
    using assms(1) by (rule queue_atD)
  have "dpath q_next q_prev (qs s') NULL (head_of_queue w s') as t NULL"
    using t(1) assms(2,3) by (subst dpath_cong [where h = "qs s"]) auto
  moreover have "list_all2 (has_ev s') as es" using t(3) assms(2) by (subst all_ev_cong [where s = s]) auto
  ultimately show ?thesis using t(2) by (auto simp: queue_at_def)
qed

lemma queues_at_same:
  assumes "queues_at as ts bs fs s" and "qs s' = qs s" and "next_q s' = next_q s"
    and "queue_timer s' = queue_timer s" and "queue_fd s' = queue_fd s"
  shows "queues_at as ts bs fs s'"
  using assms queue_at_frame [of Timer_queue as ts s s'] queue_at_frame [of Fd_queue bs fs s s'] by (simp add: queues_at_def)

lemma queues_at_updates [simp]:
  "queues_at as ts bs fs (s\<lparr>events := e\<rparr>) = queues_at as ts bs fs s"
  "queues_at as ts bs fs (s\<lparr>reads := n\<rparr>) = queues_at as ts bs fs s"
  "queues_at as ts bs fs (s\<lparr>gone := b\<rparr>) = queues_at as ts bs fs s"
  "queues_at as ts bs fs (s\<lparr>world := m\<rparr>) = queues_at as ts bs fs s"
  "queues_at as ts bs fs (s\<lparr>epoll_set := k\<rparr>) = queues_at as ts bs fs s"
  "queues_at as ts bs fs (s\<lparr>waited := l\<rparr>) = queues_at as ts bs fs s"
  by (rule iffI; erule queues_at_same; simp)+

lemma queue_at_head:
  assumes "queue_at w as es s"
  shows "head_of_queue w s = (if as = [] then NULL else Some (hd as))"
proof -
  obtain t where "dpath q_next q_prev (qs s) NULL (head_of_queue w s) as t NULL" using assms by (rule queue_atD)
  then show ?thesis by (rule dpath_first)
qed

section \<open>Searching and adding\<close>

lemma isset_run:
  assumes "dpath q_next q_prev (qs s) p x as t NULL" and "list_all2 (has_ev s) as es"
  shows "fpm_event_queue_isset x ev s = Some (ev \<in> set es)"
  using assms
proof (induction as arbitrary: p x es)
  case Nil
  then show ?case by (subst fpm_event_queue_isset.simps) simp
next
  case (Cons a as)
  obtain n where n: "x = Some a" "qs s a = Some n" "dpath q_next q_prev (qs s) (Some a) (q_next n) as t NULL" using Cons.prems(1) by auto
  obtain e es' where es: "es = e # es'" "has_ev s a e" "list_all2 (has_ev s) as es'" using Cons.prems(2) by (cases es) auto
  have "q_ev n = e" using es(2) n(2) by (simp add: has_ev_def)
  then show ?case using n es Cons.IH [OF n(3) es(3)] by (subst fpm_event_queue_isset.simps) simp
qed

lemma queue_link_run:
  assumes q: "queue_at w as es s" and fresh: "next_q s \<notin> set as"
    and hd: "first = head_of_queue w s"
  shows "\<exists>h. (if first \<noteq> NULL then q_write (\<lambda>e. e\<lparr>q_prev := Some (next_q s)\<rparr>) first
          (s\<lparr>qs := (qs s)(next_q s \<mapsto> \<lparr>q_prev = NULL, q_next = first, q_ev = ev\<rparr>), next_q := Suc (next_q s)\<rparr>)
        else Some (s\<lparr>qs := (qs s)(next_q s \<mapsto> \<lparr>q_prev = NULL, q_next = first, q_ev = ev\<rparr>), next_q := Suc (next_q s)\<rparr>))
      = Some (s\<lparr>qs := h, next_q := Suc (next_q s)\<rparr>)
    \<and> queue_at w (next_q s # as) (ev # es) (set_head w (Some (next_q s)) (s\<lparr>qs := h, next_q := Suc (next_q s)\<rparr>))
    \<and> (\<forall>b. b \<notin> set as \<and> b \<noteq> next_q s \<longrightarrow> h b = qs s b) \<and> dom h = insert (next_q s) (dom (qs s))"
proof -
  let ?n = "next_q s"
  obtain t where t: "dpath q_next q_prev (qs s) NULL (head_of_queue w s) as t NULL" "distinct as" "list_all2 (has_ev s) as es"
    using q by (rule queue_atD)
  show ?thesis
  proof (cases as)
    case Nil
    then have "first = NULL" "es = []" using t hd by auto
    then show ?thesis using Nil by (intro exI [of _ "(qs s)(?n \<mapsto> \<lparr>q_prev = NULL, q_next = NULL, q_ev = ev\<rparr>)"])
        (simp add: queue_at_def has_ev_def)
  next
    case (Cons a bs)
    then obtain n where n: "first = Some a" "qs s a = Some n" "q_prev n = NULL" "dpath q_next q_prev (qs s) (Some a) (q_next n) bs t NULL"
      using t(1) hd by auto
    have an: "a \<noteq> ?n" "?n \<notin> set bs" "a \<notin> set bs" using fresh Cons t(2) by auto
    let ?h = "(qs s)(?n \<mapsto> \<lparr>q_prev = NULL, q_next = Some a, q_ev = ev\<rparr>, a \<mapsto> n\<lparr>q_prev := Some ?n\<rparr>)"
    let ?s = "set_head w (Some ?n) (s\<lparr>qs := ?h, next_q := Suc ?n\<rparr>)"
    have "list_all2 (has_ev ?s) as es"
      using t(3) n(2) fresh an by (subst all_ev_cong [where s = s]) auto
    moreover have "dpath q_next q_prev ?h NULL (Some ?n) (?n # as) t NULL" using n an Cons by simp
    ultimately have "queue_at w (?n # as) (ev # es) ?s"
      using t(2) fresh an by (auto simp: queue_at_def has_ev_def)
    then show ?thesis using n an Cons by (intro exI [of _ ?h]) (auto simp: q_write_Some)
  qed
qed

text \<open>What is not a queue stays.\<close>

definition same_rest :: "('c, 'm) loop_state \<Rightarrow> ('c, 'm) loop_state \<Rightarrow> bool" where
  "same_rest s s' \<longleftrightarrow> events s' = events s \<and> epoll_set s' = epoll_set s \<and> clock s' = clock s \<and> reads s' = reads s \<and> gone s' = gone s
     \<and> waited s' = waited s \<and> world s' = world s"

lemma same_rest_refl [simp]: "same_rest s s"
  by (simp add: same_rest_def)

lemma same_rest_trans: "same_rest s t \<Longrightarrow> same_rest t u \<Longrightarrow> same_rest s u"
  by (simp add: same_rest_def)

lemma queues_at_other:
  assumes "queues_at as ts bs fs s" and "queue_at w cs es s'" and "set (case w of Timer_queue \<Rightarrow> bs | Fd_queue \<Rightarrow> as) \<inter> set cs = {}"
    and "\<And>b. b \<in> set (case w of Timer_queue \<Rightarrow> bs | Fd_queue \<Rightarrow> as) \<Longrightarrow> qs s' b = qs s b"
    and "\<And>v. v \<noteq> w \<Longrightarrow> head_of_queue v s' = head_of_queue v s" and "\<forall>a \<in> dom (qs s'). a < next_q s'"
  shows "case w of Timer_queue \<Rightarrow> queues_at cs es bs fs s' | Fd_queue \<Rightarrow> queues_at as ts cs es s'"
proof (cases w)
  case Timer_queue
  have "queue_at Fd_queue bs fs s'" using assms(1,4) assms(5) [of Fd_queue] Timer_queue by (intro queue_at_frame [of Fd_queue bs fs s s']) (auto simp: queues_at_def)
  then show ?thesis using Timer_queue assms by (auto simp: queues_at_def)
next
  case Fd_queue
  have "queue_at Timer_queue as ts s'" using assms(1,4) assms(5) [of Timer_queue] Fd_queue
    by (intro queue_at_frame [of Timer_queue as ts s s']) (auto simp: queues_at_def)
  then show ?thesis using Fd_queue assms by (auto simp: queues_at_def)
qed

lemma queues_at_nodes:
  assumes "queues_at as ts bs fs s"
  shows "set as \<union> set bs \<subseteq> dom (qs s)" "next_q s \<notin> set as \<union> set bs"
proof -
  have "set as \<subseteq> dom (qs s)" "set bs \<subseteq> dom (qs s)" using assms by (auto simp: queues_at_def elim!: queue_atD dest!: dpath_dom)
  then show "set as \<union> set bs \<subseteq> dom (qs s)" "next_q s \<notin> set as \<union> set bs" using assms by (auto simp: queues_at_def)
qed

lemma timer_add_run:
  assumes q: "queues_at as ts bs fs s"
  shows "\<exists>s'. fpm_event_queue_add Timer_queue (Some ev) s = Some (0, s') \<and> same_rest s s'
    \<and> queues_at (if ev \<in> set ts then as else next_q s # as) (if ev \<in> set ts then ts else ev # ts) bs fs s'"
proof -
  have qt: "queue_at Timer_queue as ts s" using q by (simp add: queues_at_def)
  then obtain t where t: "dpath q_next q_prev (qs s) NULL (queue_timer s) as t NULL" "list_all2 (has_ev s) as ts"
    by (auto elim: queue_atD)
  note found = isset_run [OF t, of ev]
  note nodes = queues_at_nodes [OF q]
  show ?thesis
  proof (cases "ev \<in> set ts")
    case True
    then show ?thesis using found q by (simp add: fpm_event_queue_add_def)
  next
    case False
    obtain h where h: "(if queue_timer s \<noteq> NULL then q_write (\<lambda>e. e\<lparr>q_prev := Some (next_q s)\<rparr>) (queue_timer s)
          (s\<lparr>qs := (qs s)(next_q s \<mapsto> \<lparr>q_prev = NULL, q_next = queue_timer s, q_ev = ev\<rparr>), next_q := Suc (next_q s)\<rparr>)
        else Some (s\<lparr>qs := (qs s)(next_q s \<mapsto> \<lparr>q_prev = NULL, q_next = queue_timer s, q_ev = ev\<rparr>), next_q := Suc (next_q s)\<rparr>))
      = Some (s\<lparr>qs := h, next_q := Suc (next_q s)\<rparr>)"
      "queue_at Timer_queue (next_q s # as) (ev # ts) (set_head Timer_queue (Some (next_q s)) (s\<lparr>qs := h, next_q := Suc (next_q s)\<rparr>))"
      "\<forall>b. b \<notin> set as \<and> b \<noteq> next_q s \<longrightarrow> h b = qs s b" "dom h = insert (next_q s) (dom (qs s))"
      using queue_link_run [OF qt, of "queue_timer s" ev] nodes(2) by auto
    let ?s = "set_head Timer_queue (Some (next_q s)) (s\<lparr>qs := h, next_q := Suc (next_q s)\<rparr>)"
    have "case Timer_queue of Timer_queue \<Rightarrow> queues_at (next_q s # as) (ev # ts) bs fs ?s | Fd_queue \<Rightarrow> queues_at as ts (next_q s # as) (ev # ts) ?s"
      using q h(2-4) nodes by (intro queues_at_other [OF q]) (auto simp: queues_at_def less_Suc_eq)
    then have qs': "queues_at (next_q s # as) (ev # ts) bs fs ?s" by simp
    have "queue_fd s \<noteq> Some (next_q s)"
      using q nodes queue_at_head [of Fd_queue bs fs s] by (cases bs) (auto simp: queues_at_def)
    then have "fpm_event_queue_add Timer_queue (Some ev) s = Some (0, ?s)"
      using found False h(1) by (simp add: fpm_event_queue_add_def Let_def set_head_def)
    moreover have "same_rest s ?s" by (simp add: same_rest_def set_head_def)
    ultimately show ?thesis using qs' False by simp
  qed
qed

section \<open>Taking out\<close>

lemma unlink_run:
  assumes q: "queue_at w (ls @ a # rs) (xs @ e # ys) s" and len: "length ls = length xs"
  shows "\<exists>p k. q_unlink w (Some a) s = Some (set_head w p (s\<lparr>qs := k\<rparr>)) \<and> (\<exists>n. qs s a = Some n \<and> k a = Some n \<and> q_ev n = e
        \<and> q_next n = (if rs = [] then NULL else Some (hd rs)))
    \<and> queue_at w (ls @ rs) (xs @ ys) (set_head w p (s\<lparr>qs := k\<rparr>))
    \<and> (\<forall>b. b \<notin> set ls \<union> set rs \<longrightarrow> k b = qs s b) \<and> dom k = dom (qs s)"
proof -
  obtain t where t: "dpath q_next q_prev (qs s) NULL (head_of_queue w s) (ls @ a # rs) t NULL" "distinct (ls @ a # rs)"
    "list_all2 (has_ev s) (ls @ a # rs) (xs @ e # ys)" using q by (rule queue_atD)
  have dist: "distinct ls" "distinct rs" "a \<notin> set ls" "a \<notin> set rs" "set ls \<inter> set rs = {}" using t(2) by auto
  from t(1) obtain n where n: "qs s a = Some n" "dpath q_next q_prev (qs s) NULL (head_of_queue w s) ls (q_prev n) (Some a)"
    "dpath q_next q_prev (qs s) (Some a) (q_next n) rs t NULL" by auto
  have data: "list_all2 (has_ev s) ls xs" "has_ev s a e" "list_all2 (has_ev s) rs ys" using t(3) len by (auto simp: list_all2_append)
  have e: "q_ev n = e" using data(2) n(1) by (simp add: has_ev_def)
  have nx: "q_next n = (if rs = [] then NULL else Some (hd rs))" using dpath_first [OF n(3)] .
  have "\<exists>p k t'. q_unlink w (Some a) s = Some (set_head w p (s\<lparr>qs := k\<rparr>)) \<and> k a = Some n
      \<and> dpath q_next q_prev k NULL p (ls @ rs) t' NULL
      \<and> (\<forall>b. map_option q_ev (k b) = map_option q_ev (qs s b)) \<and> (\<forall>b. b \<notin> set ls \<union> set rs \<longrightarrow> k b = qs s b)"
  proof (cases ls rule: rev_cases)
    case ls: Nil
    then have hd: "head_of_queue w s = Some a" "q_prev n = NULL" using n(2) by simp_all
    show ?thesis
    proof (cases rs)
      case Nil
      then have "q_unlink w (Some a) s = Some (set_head w NULL (s\<lparr>qs := qs s\<rparr>))" using n hd by (simp add: q_unlink_def)
      then show ?thesis using n(1) ls Nil by (intro exI [of _ NULL] exI [of _ "qs s"]) simp
    next
      case (Cons b bs)
      with n(3) obtain c where c: "q_next n = Some b" "qs s b = Some c" "q_prev c = Some a"
        "dpath q_next q_prev (qs s) (Some b) (q_next c) bs t NULL" by auto
      have ab: "a \<noteq> b" "b \<notin> set bs" using dist Cons by auto
      let ?k = "(qs s)(b \<mapsto> c\<lparr>q_prev := NULL\<rparr>)"
      have "q_unlink w (Some a) s = Some (set_head w (Some b) (s\<lparr>qs := ?k\<rparr>))"
        using n(1) hd c ab by (simp add: q_unlink_def q_write_Some set_head_def split: which_queue.split)
      moreover have "dpath q_next q_prev ?k NULL (Some b) (ls @ rs) t NULL" using c Cons ls ab by simp
      ultimately show ?thesis using n(1) c ab Cons by (intro exI [of _ "Some b"] exI [of _ ?k] exI [of _ t]) auto
    qed
  next
    case (snoc ms m)
    with n(2) obtain d z where d: "qs s m = Some d" "q_next d = Some a" "q_prev n = Some m" "q_prev d = z"
      "dpath q_next q_prev (qs s) NULL (head_of_queue w s) ms z (Some m)" by auto
    have am: "a \<noteq> m" "m \<notin> set ms" using dist snoc t(2) by auto
    have hd: "head_of_queue w s \<noteq> Some a" using queue_at_head [OF q] snoc dist by (cases ms) auto
    have keep: "set_head w (head_of_queue w s) (s\<lparr>qs := k\<rparr>) = s\<lparr>qs := k\<rparr>" for k
      by (cases w) (simp_all add: set_head_def)
    show ?thesis
    proof (cases rs)
      case Nil
      let ?k = "(qs s)(m \<mapsto> d\<lparr>q_next := NULL\<rparr>)"
      have "q_unlink w (Some a) s = Some (s\<lparr>qs := ?k\<rparr>)"
        using n(1) nx d am hd Nil by (simp add: q_unlink_def q_write_Some)
      moreover have "dpath q_next q_prev ?k NULL (head_of_queue w s) (ls @ rs) (Some m) NULL" using d Nil snoc am by simp
      ultimately show ?thesis using n(1) d am snoc keep [of ?k]
        by (intro exI [of _ "head_of_queue w s"] exI [of _ ?k] exI [of _ "Some m"]) (auto simp del: dpath_append)
    next
      case (Cons b bs)
      with n(3) obtain c where c: "q_next n = Some b" "qs s b = Some c" "q_prev c = Some a"
        "dpath q_next q_prev (qs s) (Some b) (q_next c) bs t NULL" by auto
      have ab: "a \<noteq> b" "b \<notin> set bs" "b \<noteq> m" "b \<notin> set ms" "m \<notin> set bs" using dist Cons snoc by auto
      let ?k = "(qs s)(m \<mapsto> d\<lparr>q_next := Some b\<rparr>, b \<mapsto> c\<lparr>q_prev := Some m\<rparr>)"
      have "q_unlink w (Some a) s = Some (s\<lparr>qs := ?k\<rparr>)"
        using n(1) c d am ab hd by (simp add: q_unlink_def q_write_Some)
      moreover have "dpath q_next q_prev ?k NULL (head_of_queue w s) (ls @ rs) t NULL"
        using d c Cons snoc am ab by simp
      ultimately show ?thesis using n(1) d c am ab snoc Cons keep [of ?k]
        by (intro exI [of _ "head_of_queue w s"] exI [of _ ?k] exI [of _ t]) (auto simp del: dpath_append)
    qed
  qed
  then obtain p k t' where k: "q_unlink w (Some a) s = Some (set_head w p (s\<lparr>qs := k\<rparr>))" "k a = Some n"
      "dpath q_next q_prev k NULL p (ls @ rs) t' NULL"
      "\<forall>b. map_option q_ev (k b) = map_option q_ev (qs s b)" "\<forall>b. b \<notin> set ls \<union> set rs \<longrightarrow> k b = qs s b" by blast
  have "list_all2 (has_ev s) (ls @ rs) (xs @ ys)" using data by (intro list_all2_appendI)
  then have "list_all2 (has_ev (set_head w p (s\<lparr>qs := k\<rparr>))) (ls @ rs) (xs @ ys)" using k(4) by (subst all_ev_cong [where s = s]) auto
  then have "queue_at w (ls @ rs) (xs @ ys) (set_head w p (s\<lparr>qs := k\<rparr>))" using k(3) dist by (auto simp: queue_at_def simp del: dpath_append)
  moreover have "dom k = dom (qs s)"
  proof (rule set_eqI)
    fix b show "b \<in> dom k \<longleftrightarrow> b \<in> dom (qs s)" using k(4) [rule_format, of b] by (cases "k b"; cases "qs s b") auto
  qed
  ultimately show ?thesis using k(1,2,5) n(1) e nx by blast
qed

text \<open>The element is found where it is; without one nothing happens.\<close>

lemma del_loop_miss:
  assumes "dpath q_next q_prev (qs s) p x as t NULL" and "list_all2 (has_ev s) as es" and "ev \<notin> set es"
  shows "queue_del_loop w ev x s = Some (-1, s)"
  using assms
proof (induction as arbitrary: p x es)
  case Nil
  then show ?case by (subst queue_del_loop.simps) simp
next
  case (Cons a as)
  obtain n where n: "x = Some a" "qs s a = Some n" "dpath q_next q_prev (qs s) (Some a) (q_next n) as t NULL" using Cons.prems(1) by auto
  obtain e es' where es: "es = e # es'" "has_ev s a e" "list_all2 (has_ev s) as es'" using Cons.prems(2) by (cases es) auto
  have "q_ev n \<noteq> ev" using es(1,2) n(2) Cons.prems(3) by (auto simp: has_ev_def)
  then show ?case using n es Cons.IH [OF n(3) es(3)] Cons.prems(3) by (subst queue_del_loop.simps) simp
qed

lemma del_loop_hit:
  assumes "dpath q_next q_prev (qs s) p x as z (Some a)" and "list_all2 (has_ev s) as es" and "ev \<notin> set es" and "has_ev s a ev"
  shows "queue_del_loop w ev x s = Option.bind (q_unlink w (Some a) s) (\<lambda>s.
      Option.bind (if head_of_queue w s = queue_fd s then map_option snd (fpm_event_epoll_remove ev s) else Some s) (\<lambda>s.
        map_option (Pair 0) (q_free (Some a) s)))"
  using assms
proof (induction as arbitrary: p x es)
  case Nil
  then show ?case by (subst queue_del_loop.simps) (auto simp: has_ev_def)
next
  case (Cons b as)
  obtain n where n: "x = Some b" "qs s b = Some n" "dpath q_next q_prev (qs s) (Some b) (q_next n) as z (Some a)" using Cons.prems(1) by auto
  obtain e es' where es: "es = e # es'" "has_ev s b e" "list_all2 (has_ev s) as es'" using Cons.prems(2) by (cases es) auto
  have "q_ev n \<noteq> ev" using es(1,2) n(2) Cons.prems(3) by (auto simp: has_ev_def)
  then show ?case using n es Cons.IH [OF n(3) es(3) _ Cons.prems(4)] Cons.prems(3) by (subst queue_del_loop.simps) simp
qed

lemma split_at_event:
  assumes "list_all2 (has_ev s) as es" and "ev \<in> set es"
  obtains ls a rs xs ys where "as = ls @ a # rs" "es = xs @ ev # ys" "length ls = length xs" "ev \<notin> set xs" "has_ev s a ev"
    "list_all2 (has_ev s) ls xs"
proof -
  obtain xs ys where es: "es = xs @ ev # ys" "ev \<notin> set xs" using assms(2) split_list_first by metis
  obtain ls rs' where as: "as = ls @ rs'" "list_all2 (has_ev s) ls xs" "list_all2 (has_ev s) rs' (ev # ys)"
    using assms(1) es(1) by (auto simp: list_all2_append2)
  then obtain a rs where "rs' = a # rs" "has_ev s a ev" by (cases rs') auto
  then show thesis using that as es list_all2_lengthD by metis
qed

text \<open>A removal from a queue, up to what the module is told.\<close>

lemma queue_del_run:
  assumes q: "queue_at w as es s" and ev: "ev \<in> set es"
  shows "\<exists>ls a rs xs ys p k. as = ls @ a # rs \<and> es = xs @ ev # ys \<and> length ls = length xs \<and> ev \<notin> set xs
    \<and> fpm_event_queue_del w (Some ev) s = Option.bind (let s = set_head w p (s\<lparr>qs := k\<rparr>)
        in if head_of_queue w s = queue_fd s then map_option snd (fpm_event_epoll_remove ev s) else Some s) (\<lambda>s.
          map_option (Pair 0) (q_free (Some a) s))
    \<and> a \<in> dom k \<and> queue_at w (ls @ rs) (xs @ ys) (set_head w p (s\<lparr>qs := k\<rparr>)) \<and> a \<notin> set (ls @ rs)
    \<and> (\<forall>b. b \<notin> set ls \<union> set rs \<longrightarrow> k b = qs s b) \<and> dom k = dom (qs s)"
proof -
  obtain t where t: "dpath q_next q_prev (qs s) NULL (head_of_queue w s) as t NULL" "distinct as" "list_all2 (has_ev s) as es"
    using q by (rule queue_atD)
  obtain ls a rs xs ys where sp: "as = ls @ a # rs" "es = xs @ ev # ys" "length ls = length xs" "ev \<notin> set xs" "has_ev s a ev"
    "list_all2 (has_ev s) ls xs" using t(3) ev by (rule split_at_event)
  obtain p k n where k: "q_unlink w (Some a) s = Some (set_head w p (s\<lparr>qs := k\<rparr>))" "k a = Some n"
    "queue_at w (ls @ rs) (xs @ ys) (set_head w p (s\<lparr>qs := k\<rparr>))"
    "\<forall>b. b \<notin> set ls \<union> set rs \<longrightarrow> k b = qs s b" "dom k = dom (qs s)"
    using unlink_run [OF q [unfolded sp(1,2)] sp(3)] by blast
  obtain z where "dpath q_next q_prev (qs s) NULL (head_of_queue w s) ls z (Some a)" using t(1) unfolding sp(1) by auto
  from del_loop_hit [OF this sp(6,4,5), of w] have
    "fpm_event_queue_del w (Some ev) s = Option.bind (let s = set_head w p (s\<lparr>qs := k\<rparr>)
        in if head_of_queue w s = queue_fd s then map_option snd (fpm_event_epoll_remove ev s) else Some s) (\<lambda>s.
          map_option (Pair 0) (q_free (Some a) s))"
    by (simp add: fpm_event_queue_del_def k(1) Let_def)
  moreover have "a \<notin> set (ls @ rs)" using t(2) sp(1) by auto
  ultimately show ?thesis using sp(1-4) k(2-5) by blast
qed

lemma queues_free:
  assumes q: "queues_at as ts bs fs s" and "a \<notin> set as \<union> set bs"
  shows "queues_at as ts bs fs (s\<lparr>qs := (qs s)(a := None)\<rparr>)"
proof -
  let ?s = "s\<lparr>qs := (qs s)(a := None)\<rparr>"
  have "queue_at Timer_queue as ts ?s" "queue_at Fd_queue bs fs ?s"
    using q assms(2) by (auto simp: queues_at_def intro: queue_at_frame [of _ _ _ s])
  then show ?thesis using q by (auto simp: queues_at_def)
qed

lemma timer_del_run:
  assumes q: "queues_at as ts bs fs s" and ev: "events s ev = Some e" and fd: "ev_fd e \<notin> dom (epoll_set s)"
  shows "\<exists>s' as'. fpm_event_queue_del Timer_queue (Some ev) s = Some (if ev \<in> set ts then 0 else -1, s') \<and> same_rest s s'
    \<and> queues_at as' (remove1 ev ts) bs fs s' \<and> set as' \<subseteq> set as"
proof -
  have qt: "queue_at Timer_queue as ts s" using q by (simp add: queues_at_def)
  show ?thesis
  proof (cases "ev \<in> set ts")
    case False
    obtain t where "dpath q_next q_prev (qs s) NULL (queue_timer s) as t NULL" "list_all2 (has_ev s) as ts"
      using qt by (auto elim: queue_atD)
    from del_loop_miss [OF this False, of Timer_queue] show ?thesis
      using False q by (auto simp: fpm_event_queue_del_def remove1_idem)
  next
    case True
    obtain ls a rs xs ys p k where d: "as = ls @ a # rs" "ts = xs @ ev # ys" "length ls = length xs" "ev \<notin> set xs"
      "fpm_event_queue_del Timer_queue (Some ev) s = Option.bind (let s = set_head Timer_queue p (s\<lparr>qs := k\<rparr>)
        in if head_of_queue Timer_queue s = queue_fd s then map_option snd (fpm_event_epoll_remove ev s) else Some s) (\<lambda>s.
          map_option (Pair 0) (q_free (Some a) s))"
      "a \<in> dom k" "queue_at Timer_queue (ls @ rs) (xs @ ys) (set_head Timer_queue p (s\<lparr>qs := k\<rparr>))" "a \<notin> set (ls @ rs)"
      "\<forall>b. b \<notin> set ls \<union> set rs \<longrightarrow> k b = qs s b" "dom k = dom (qs s)"
      using queue_del_run [OF qt True] by blast
    let ?s = "set_head Timer_queue p (s\<lparr>qs := k\<rparr>)"
    have dis: "set as \<inter> set bs = {}" using q by (simp add: queues_at_def)
    have "case Timer_queue of Timer_queue \<Rightarrow> queues_at (ls @ rs) (xs @ ys) bs fs ?s | Fd_queue \<Rightarrow> queues_at as ts (ls @ rs) (xs @ ys) ?s"
      using d(1,7,9,10) dis q by (intro queues_at_other [OF q]) (auto simp: queues_at_def)
    then have "queues_at (ls @ rs) (xs @ ys) bs fs ?s" by simp
    moreover have "a \<notin> set (ls @ rs) \<union> set bs" using d(1,8) dis by auto
    ultimately have q': "queues_at (ls @ rs) (xs @ ys) bs fs (?s\<lparr>qs := (qs ?s)(a := None)\<rparr>)" by (rule queues_free)
    have "fpm_event_epoll_remove ev ?s = Some (-1, ?s)" using ev fd by (simp add: fpm_event_epoll_remove_def set_head_def)
    then have "fpm_event_queue_del Timer_queue (Some ev) s = Some (0, ?s\<lparr>qs := (qs ?s)(a := None)\<rparr>)"
      using d(5,6) by (auto simp: Let_def q_free_Some)
    moreover have "same_rest s (?s\<lparr>qs := (qs ?s)(a := None)\<rparr>)" by (simp add: same_rest_def)
    moreover have "remove1 ev ts = xs @ ys" using d(2,4) by (simp add: remove1_append)
    ultimately show ?thesis using q' True d(1) by (intro exI [of _ "?s\<lparr>qs := (qs ?s)(a := None)\<rparr>"] exI [of _ "ls @ rs"]) auto
  qed
qed

section \<open>Descriptors\<close>

lemma fd_add_run:
  assumes q: "queues_at as ts bs fs s" and new: "ev \<notin> set fs" and ev: "events s ev = Some e" and fd: "ev_fd e \<notin> dom (epoll_set s)"
  shows "\<exists>s'. fpm_event_queue_add Fd_queue (Some ev) s = Some (0, s') \<and> queues_at as ts (next_q s # bs) (ev # fs) s'
    \<and> events s' = (events s)(ev \<mapsto> e\<lparr>ev_index := ev_fd e\<rparr>) \<and> epoll_set s' = (epoll_set s)(ev_fd e \<mapsto> ev)
    \<and> clock s' = clock s \<and> reads s' = reads s \<and> gone s' = gone s \<and> waited s' = waited s \<and> world s' = world s"
proof -
  have qt: "queue_at Fd_queue bs fs s" using q by (simp add: queues_at_def)
  then obtain t where t: "dpath q_next q_prev (qs s) NULL (queue_fd s) bs t NULL" "list_all2 (has_ev s) bs fs"
    by (auto elim: queue_atD)
  note found = isset_run [OF t, of ev]
  note nodes = queues_at_nodes [OF q]
  obtain h where h: "(if queue_fd s \<noteq> NULL then q_write (\<lambda>e. e\<lparr>q_prev := Some (next_q s)\<rparr>) (queue_fd s)
        (s\<lparr>qs := (qs s)(next_q s \<mapsto> \<lparr>q_prev = NULL, q_next = queue_fd s, q_ev = ev\<rparr>), next_q := Suc (next_q s)\<rparr>)
      else Some (s\<lparr>qs := (qs s)(next_q s \<mapsto> \<lparr>q_prev = NULL, q_next = queue_fd s, q_ev = ev\<rparr>), next_q := Suc (next_q s)\<rparr>))
    = Some (s\<lparr>qs := h, next_q := Suc (next_q s)\<rparr>)"
    "queue_at Fd_queue (next_q s # bs) (ev # fs) (set_head Fd_queue (Some (next_q s)) (s\<lparr>qs := h, next_q := Suc (next_q s)\<rparr>))"
    "\<forall>b. b \<notin> set bs \<and> b \<noteq> next_q s \<longrightarrow> h b = qs s b" "dom h = insert (next_q s) (dom (qs s))"
    using queue_link_run [OF qt, of "queue_fd s" ev] nodes(2) by auto
  let ?s = "set_head Fd_queue (Some (next_q s)) (s\<lparr>qs := h, next_q := Suc (next_q s)\<rparr>)"
  have "case Fd_queue of Timer_queue \<Rightarrow> queues_at (next_q s # bs) (ev # fs) bs fs ?s | Fd_queue \<Rightarrow> queues_at as ts (next_q s # bs) (ev # fs) ?s"
    using q h(2-4) nodes by (intro queues_at_other [OF q]) (auto simp: queues_at_def less_Suc_eq)
  then have qs': "queues_at as ts (next_q s # bs) (ev # fs) ?s" by simp
  let ?u = "?s\<lparr>epoll_set := (epoll_set s)(ev_fd e \<mapsto> ev), events := (events s)(ev \<mapsto> e\<lparr>ev_index := ev_fd e\<rparr>)\<rparr>"
  have "fpm_event_epoll_add ev ?s = Some (0, ?u)"
    using ev fd by (simp add: fpm_event_epoll_add_def ev_write_Some)
  then have "fpm_event_queue_add Fd_queue (Some ev) s = Some (0, ?u)"
    using found new h(1) by (simp add: fpm_event_queue_add_def Let_def set_head_def)
  then show ?thesis using qs' by simp
qed

lemma fd_del_run:
  assumes q: "queues_at as ts bs fs s" and mem: "ev \<in> set fs" and ev: "events s ev = Some e" and fd: "ev_fd e \<in> dom (epoll_set s)"
  shows "\<exists>s' bs'. fpm_event_queue_del Fd_queue (Some ev) s = Some (0, s') \<and> queues_at as ts bs' (remove1 ev fs) s'
    \<and> events s' = (events s)(ev \<mapsto> e\<lparr>ev_index := -1\<rparr>) \<and> epoll_set s' = (epoll_set s)(ev_fd e := None)
    \<and> clock s' = clock s \<and> reads s' = reads s \<and> gone s' = gone s \<and> waited s' = waited s \<and> world s' = world s"
proof -
  have qt: "queue_at Fd_queue bs fs s" using q by (simp add: queues_at_def)
  obtain ls a rs xs ys p k where d: "bs = ls @ a # rs" "fs = xs @ ev # ys" "length ls = length xs" "ev \<notin> set xs"
    "fpm_event_queue_del Fd_queue (Some ev) s = Option.bind (let s = set_head Fd_queue p (s\<lparr>qs := k\<rparr>)
      in if head_of_queue Fd_queue s = queue_fd s then map_option snd (fpm_event_epoll_remove ev s) else Some s) (\<lambda>s.
        map_option (Pair 0) (q_free (Some a) s))"
    "a \<in> dom k" "queue_at Fd_queue (ls @ rs) (xs @ ys) (set_head Fd_queue p (s\<lparr>qs := k\<rparr>))" "a \<notin> set (ls @ rs)"
    "\<forall>b. b \<notin> set ls \<union> set rs \<longrightarrow> k b = qs s b" "dom k = dom (qs s)"
    using queue_del_run [OF qt mem] by blast
  let ?s = "set_head Fd_queue p (s\<lparr>qs := k\<rparr>)"
  have dis: "set as \<inter> set bs = {}" using q by (simp add: queues_at_def)
  have "case Fd_queue of Timer_queue \<Rightarrow> queues_at (ls @ rs) (xs @ ys) bs fs ?s | Fd_queue \<Rightarrow> queues_at as ts (ls @ rs) (xs @ ys) ?s"
    using d(1,7,9,10) dis q by (intro queues_at_other [OF q]) (auto simp: queues_at_def)
  then have "queues_at as ts (ls @ rs) (xs @ ys) ?s" by simp
  moreover have "a \<notin> set as \<union> set (ls @ rs)" using d(1,8) dis by auto
  ultimately have q': "queues_at as ts (ls @ rs) (xs @ ys) (?s\<lparr>qs := (qs ?s)(a := None)\<rparr>)" by (rule queues_free)
  let ?u = "?s\<lparr>epoll_set := (epoll_set s)(ev_fd e := None), events := (events s)(ev \<mapsto> e\<lparr>ev_index := -1\<rparr>)\<rparr>"
  have "fpm_event_epoll_remove ev ?s = Some (0, ?u)"
    using ev fd by (auto simp: fpm_event_epoll_remove_def ev_write_Some)
  then have "fpm_event_queue_del Fd_queue (Some ev) s = Some (0, ?u\<lparr>qs := (qs ?u)(a := None)\<rparr>)"
    using d(5,6) by (auto simp: Let_def q_free_Some)
  moreover have "queues_at as ts (ls @ rs) (xs @ ys) (?u\<lparr>qs := (qs ?u)(a := None)\<rparr>)"
    using q' by (rule queues_at_same) simp_all
  moreover have "remove1 ev fs = xs @ ys" using d(2,4) by (simp add: remove1_append)
  ultimately show ?thesis by (intro exI [of _ "?u\<lparr>qs := (qs ?u)(a := None)\<rparr>"] exI [of _ "ls @ rs"]) simp
qed

section \<open>One timer\<close>

definition pos_of_node :: "nat list \<Rightarrow> ptr" where
  "pos_of_node as = (if as = [] then NULL else Some (hd as))"

lemma queue_node:
  assumes "queue_at w (ls @ a # rs) (xs @ e # ys) s" and "length ls = length xs"
  obtains n where "qs s a = Some n" "q_ev n = e" "q_next n = pos_of_node rs"
proof -
  obtain t where t: "dpath q_next q_prev (qs s) NULL (head_of_queue w s) (ls @ a # rs) t NULL" "list_all2 (has_ev s) (ls @ a # rs) (xs @ e # ys)"
    using assms(1) by (auto elim: queue_atD)
  then obtain n where n: "qs s a = Some n" "dpath q_next q_prev (qs s) (Some a) (q_next n) rs t NULL" by auto
  moreover have "has_ev s a e" using t(2) assms(2) by (simp add: list_all2_append)
  ultimately show thesis using that dpath_first [OF n(2)] by (auto simp: has_ev_def pos_of_node_def)
qed

lemma trigger_wait:
  assumes q: "queue_at Timer_queue (ls @ a # rs) (xs @ ev # ys) s" "length ls = length xs"
    and v: "events s ev = Some v" and early: "timer_less (clock s (reads s)) (ev_timeout v)"
  shows "trigger_timers act (Some a) s = trigger_timers act (pos_of_node rs) (s\<lparr>reads := Suc (reads s)\<rparr>)"
proof -
  obtain n where "qs s a = Some n" "q_ev n = ev" "q_next n = pos_of_node rs" using q by (rule queue_node)
  then show ?thesis using v early by (subst trigger_timers.simps) (simp add: fpm_clock_get_def)
qed

lemma trigger_gone:
  assumes q: "queue_at Timer_queue (ls @ a # rs) (xs @ ev # ys) s" "length ls = length xs"
    and v: "events s ev = Some v" and due: "\<not> timer_less (clock s (reads s)) (ev_timeout v)"
    and fire: "fpm_event_fire act (Some ev) (s\<lparr>reads := Suc (reads s)\<rparr>) = Some u" and "gone u"
  shows "trigger_timers act (Some a) s = Some u"
proof -
  obtain n where "qs s a = Some n" "q_ev n = ev" "q_next n = pos_of_node rs" using q by (rule queue_node)
  then show ?thesis using v due fire assms(6) by (subst trigger_timers.simps) (simp add: fpm_clock_get_def)
qed

lemma trigger_persistent:
  assumes q: "queue_at Timer_queue (ls @ a # rs) (xs @ ev # ys) s" "length ls = length xs"
    and v: "events s ev = Some v" and due: "\<not> timer_less (clock s (reads s)) (ev_timeout v)"
    and fire: "fpm_event_fire act (Some ev) (s\<lparr>reads := Suc (reads s)\<rparr>) = Some u" and live: "\<not> gone u"
    and q': "queue_at Timer_queue (ms @ a # rs) (zs @ ev # ys) u" "length ms = length zs"
    and v': "events u ev = Some v'" and persist: "bit (ev_flags v') 2"
  shows "trigger_timers act (Some a) s = trigger_timers act (pos_of_node rs)
    (u\<lparr>events := (events u)(ev \<mapsto> v'\<lparr>ev_timeout := timeradd (clock s (reads s)) (ev_frequency v')\<rparr>)\<rparr>)"
proof -
  obtain n where n: "qs s a = Some n" "q_ev n = ev" "q_next n = pos_of_node rs" using q by (rule queue_node)
  obtain n' where n': "qs u a = Some n'" "q_ev n' = ev" "q_next n' = pos_of_node rs" using q' by (rule queue_node)
  show ?thesis using n n' v due fire live v' persist
    by (subst trigger_timers.simps) (simp add: fpm_clock_get_def ev_write_Some)
qed

lemma trigger_once:
  assumes q: "queue_at Timer_queue (ls @ a # rs) (xs @ ev # ys) s" "length ls = length xs"
    and v: "events s ev = Some v" and due: "\<not> timer_less (clock s (reads s)) (ev_timeout v)"
    and fire: "fpm_event_fire act (Some ev) (s\<lparr>reads := Suc (reads s)\<rparr>) = Some u" and live: "\<not> gone u"
    and q': "queues_at (ms @ a # rs) (zs @ ev # ys) bs fs u" "length ms = length zs"
    and v': "events u ev = Some v'" and once: "\<not> bit (ev_flags v') 2"
  shows "\<exists>u'. trigger_timers act (Some a) s = trigger_timers act (pos_of_node rs) u' \<and> same_rest u u'
    \<and> queues_at (ms @ rs) (zs @ ys) bs fs u'"
proof -
  have qt: "queue_at Timer_queue (ms @ a # rs) (zs @ ev # ys) u" using q'(1) by (simp add: queues_at_def)
  obtain n where n: "qs s a = Some n" "q_ev n = ev" "q_next n = pos_of_node rs" using q by (rule queue_node)
  obtain n' where n': "qs u a = Some n'" "q_ev n' = ev" "q_next n' = pos_of_node rs" using qt q'(2) by (rule queue_node)
  obtain p k m where k: "q_unlink Timer_queue (Some a) u = Some (set_head Timer_queue p (u\<lparr>qs := k\<rparr>))" "k a = Some m"
      "q_next m = pos_of_node rs" "queue_at Timer_queue (ms @ rs) (zs @ ys) (set_head Timer_queue p (u\<lparr>qs := k\<rparr>))"
      "\<forall>b. b \<notin> set ms \<union> set rs \<longrightarrow> k b = qs u b" "dom k = dom (qs u)"
    using unlink_run [OF qt q'(2)] by (auto simp: pos_of_node_def)
  let ?s = "set_head Timer_queue p (u\<lparr>qs := k\<rparr>)"
  let ?u = "?s\<lparr>qs := (qs ?s)(a := None)\<rparr>"
  have dis: "set (ms @ a # rs) \<inter> set bs = {}" using q'(1) by (simp add: queues_at_def)
  have di2: "distinct (ms @ a # rs)" using qt by (rule queue_atD)
  have "case Timer_queue of Timer_queue \<Rightarrow> queues_at (ms @ rs) (zs @ ys) bs fs ?s | Fd_queue \<Rightarrow> queues_at (ms @ a # rs) (zs @ ev # ys) (ms @ rs) (zs @ ys) ?s"
    using k(4-6) dis q'(1) by (intro queues_at_other [OF q'(1)]) (auto simp: queues_at_def)
  then have "queues_at (ms @ rs) (zs @ ys) bs fs ?s" by simp
  moreover have "a \<notin> set (ms @ rs) \<union> set bs" using dis di2 by auto
  ultimately have q2: "queues_at (ms @ rs) (zs @ ys) bs fs ?u" by (rule queues_free)
  have "trigger_timers act (Some a) s = trigger_timers act (pos_of_node rs) ?u"
    using n n' v due fire live v' once k(1-3)
    by (subst trigger_timers.simps) (simp add: fpm_clock_get_def q_free_Some)
  then show ?thesis using q2 by (intro exI [of _ ?u]) (simp add: same_rest_def)
qed

end
