(* ===== verification/Fpm_Event_Properties.thy ===== *)
theory Fpm_Event_Properties
  imports Fpm_Event_Lemmas
begin

text \<open>
  The properties of the event loop of the master: its queues are sets of events, and it sleeps until the next
  timer is due.
\<close>

section \<open>The queues\<close>

text \<open>
  The events that are queued, \<open>ts\<close> as timers and \<open>fs\<close> for their descriptors, and what the module watches. The
  event of a descriptor has it as its index, a timer has none.
\<close>

definition queued :: "nat list \<Rightarrow> nat list \<Rightarrow> ('c, 'm) loop_state \<Rightarrow> bool" where
  "queued ts fs s \<longleftrightarrow> (\<exists>as bs. queues_at as ts bs fs s) \<and> distinct (ts @ fs)
     \<and> (\<forall>ev \<in> set ts. \<exists>e. events s ev = Some e \<and> ev_fd e = -1 \<and> ev_index e < 0)
     \<and> (\<forall>ev \<in> set fs. \<exists>e. events s ev = Some e \<and> 0 \<le> ev_fd e \<and> ev_index e = ev_fd e \<and> epoll_set s (ev_fd e) = Some ev)
     \<and> (\<forall>fd ev. epoll_set s fd = Some ev \<longrightarrow> 0 \<le> fd \<and> ev \<in> set fs \<and> (\<exists>e. events s ev = Some e \<and> ev_fd e = fd))"

datatype 'c queue_op =
    Start_timer nat "32 word" 'c "64 word"
  | Watch nat int "32 word" 'c
  | Del_event nat

definition queue_do :: "'c queue_op \<Rightarrow> ('c, 'm) loop_state \<Rightarrow> (int \<times> ('c, 'm) loop_state) option" where
  "queue_do op s = (case op of
       Start_timer ev flags c freq \<Rightarrow> do { (_, s) \<leftarrow> fpm_event_set (Some ev) (-1) flags (Some c) s; fpm_event_add (Some ev) freq s }
     | Watch ev fd flags c \<Rightarrow> do { (_, s) \<leftarrow> fpm_event_set (Some ev) fd flags (Some c) s; fpm_event_add (Some ev) 0 s }
     | Del_event ev \<Rightarrow> fpm_event_del ev s)"

text \<open>
  What the caller has to see to: an event is a struct that exists; a timer's flags do not ask for reading, and no
  queued descriptor is set again; a descriptor that is watched is new.
\<close>

definition op_allowed :: "'c queue_op \<Rightarrow> nat list \<Rightarrow> nat list \<Rightarrow> ('c, 'm) loop_state \<Rightarrow> bool" where
  "op_allowed op ts fs s = (case op of
       Start_timer ev flags c freq \<Rightarrow> ev \<in> dom (events s) \<and> ev \<notin> set fs \<and> \<not> bit flags 1
     | Watch ev fd flags c \<Rightarrow> ev \<in> dom (events s) \<and> ev \<notin> set ts \<union> set fs \<and> 0 \<le> fd \<and> fd \<notin> dom (epoll_set s) \<and> bit flags 1
     | Del_event ev \<Rightarrow> ev \<in> set ts \<union> set fs)"

fun queue_spec :: "'c queue_op \<Rightarrow> nat list \<times> nat list \<Rightarrow> nat list \<times> nat list" where
  "queue_spec (Start_timer ev flags c freq) (ts, fs) = (if ev \<in> set ts then ts else ev # ts, fs)"
| "queue_spec (Watch ev fd flags c) (ts, fs) = (ts, ev # fs)"
| "queue_spec (Del_event ev) (ts, fs) = (remove1 ev ts, remove1 ev fs)"

lemma start_timer_run:
  assumes q: "queued ts fs s" and ok: "ev \<in> dom (events s)" "ev \<notin> set fs" "\<not> bit flags 1"
  shows "\<exists>s'. queue_do (Start_timer ev flags c freq) s = Some (0, s') \<and> queued (if ev \<in> set ts then ts else ev # ts) fs s'
    \<and> (\<exists>e. events s' ev = Some e \<and> ev_callback e = Some c \<and> ev_flags e = flags \<and> ev_which e = FPM_EV_TIMEOUT
         \<and> ev_timeout e = timeradd (clock s (reads s)) (ev_frequency e))
    \<and> (\<forall>x. x \<noteq> ev \<longrightarrow> events s' x = events s x) \<and> epoll_set s' = epoll_set s \<and> gone s' = gone s \<and> world s' = world s
    \<and> clock s' = clock s \<and> reads s' = Suc (reads s)"
proof -
  obtain as bs where qs: "queues_at as ts bs fs s" using q by (auto simp: queued_def)
  obtain e0 where e0: "events s ev = Some e0" using ok(1) by blast
  define tmp where "tmp = (if 1000 \<le> freq then (uint (freq div 1000), uint ((freq mod 1000) * 1000)) else (0, uint (freq * 1000)))"
  let ?e = "\<lparr>ev_fd = -1, ev_timeout = timeradd (clock s (reads s)) tmp, ev_frequency = tmp, ev_callback = Some c,
     ev_flags = flags, ev_index = -1, ev_which = FPM_EV_TIMEOUT\<rparr>"
  let ?s = "s\<lparr>reads := Suc (reads s), events := (events s)(ev \<mapsto> ?e)\<rparr>"
  have "queues_at as ts bs fs ?s" using qs by simp
  from timer_add_run [OF this, of ev] obtain s' where s': "fpm_event_queue_add Timer_queue (Some ev) ?s = Some (0, s')" "same_rest ?s s'"
    "queues_at (if ev \<in> set ts then as else next_q ?s # as) (if ev \<in> set ts then ts else ev # ts) bs fs s'" by blast
  have run: "queue_do (Start_timer ev flags c freq) s = Some (0, s')"
    using e0 ok(3) s'(1)
    by (simp add: queue_do_def fpm_event_set_def fpm_event_add_def ev_write_Some fpm_clock_get_def tmp_def [symmetric])
  have r: "events s' = (events s)(ev \<mapsto> ?e)" "epoll_set s' = epoll_set s" "gone s' = gone s" "world s' = world s" "clock s' = clock s"
    "reads s' = Suc (reads s)" using s'(2) by (simp_all add: same_rest_def)
  have "queued (if ev \<in> set ts then ts else ev # ts) fs s'"
    using q s'(3) ok(2) unfolding queued_def r by (auto split: if_splits)
  then show ?thesis using run r by auto
qed

lemma watch_run:
  assumes q: "queued ts fs s" and ok: "ev \<in> dom (events s)" "ev \<notin> set ts \<union> set fs" "0 \<le> fd" "fd \<notin> dom (epoll_set s)" "bit flags 1"
  shows "\<exists>s'. queue_do (Watch ev fd flags c) s = Some (0, s') \<and> queued ts (ev # fs) s'"
proof -
  obtain as bs where qs: "queues_at as ts bs fs s" using q by (auto simp: queued_def)
  obtain e0 where e0: "events s ev = Some e0" using ok(1) by blast
  let ?e = "\<lparr>ev_fd = fd, ev_timeout = (0, 0), ev_frequency = (0, 0), ev_callback = Some c,
     ev_flags = flags, ev_index = -1, ev_which = FPM_EV_READ\<rparr>"
  let ?s = "s\<lparr>events := (events s)(ev \<mapsto> ?e)\<rparr>"
  have "queues_at as ts bs fs ?s" using qs by simp
  from fd_add_run [OF this, of ev ?e] obtain s' where s': "fpm_event_queue_add Fd_queue (Some ev) ?s = Some (0, s')"
    "queues_at as ts (next_q ?s # bs) (ev # fs) s'" "events s' = (events s)(ev \<mapsto> ?e\<lparr>ev_index := fd\<rparr>)"
    "epoll_set s' = (epoll_set s)(fd \<mapsto> ev)" using ok by auto
  have run: "queue_do (Watch ev fd flags c) s = Some (0, s')"
    using e0 ok(3,5) s'(1) by (simp add: queue_do_def fpm_event_set_def fpm_event_add_def ev_write_Some)
  have "\<exists>d. events s' x = Some d \<and> 0 \<le> ev_fd d \<and> ev_index d = ev_fd d \<and> epoll_set s' (ev_fd d) = Some x"
    if x: "x \<in> set (ev # fs)" for x
  proof (cases "x = ev")
    case True
    then show ?thesis using s'(3,4) ok(3) by simp
  next
    case False
    then obtain d where d: "events s x = Some d" "0 \<le> ev_fd d" "ev_index d = ev_fd d" "epoll_set s (ev_fd d) = Some x"
      using q x unfolding queued_def by auto
    then have "ev_fd d \<noteq> fd" using ok(4) by auto
    then show ?thesis using d False s'(3,4) by simp
  qed
  moreover have "0 \<le> k \<and> x \<in> set (ev # fs) \<and> (\<exists>d. events s' x = Some d \<and> ev_fd d = k)" if "epoll_set s' k = Some x" for k x
  proof (cases "k = fd")
    case True
    then show ?thesis using that s'(3,4) ok(3) by simp
  next
    case False
    then have "epoll_set s k = Some x" using that s'(4) by simp
    then obtain d where "0 \<le> k" "x \<in> set fs" "events s x = Some d" "ev_fd d = k" using q unfolding queued_def by blast
    then show ?thesis using s'(3) ok(2) by auto
  qed
  moreover have "\<exists>d. events s' x = Some d \<and> ev_fd d = -1 \<and> ev_index d < 0" if "x \<in> set ts" for x
    using q that ok(2) s'(3) unfolding queued_def by auto
  moreover have "distinct (ts @ ev # fs)" using q ok(2) by (auto simp: queued_def)
  ultimately have "queued ts (ev # fs) s'" using s'(2) unfolding queued_def by blast
  then show ?thesis using run by blast
qed

lemma del_timer_run:
  assumes q: "queued ts fs s" and ev: "ev \<in> set ts"
  shows "\<exists>s'. fpm_event_del ev s = Some (0, s') \<and> queued (remove1 ev ts) fs s'"
proof -
  obtain as bs where qs: "queues_at as ts bs fs s" using q by (auto simp: queued_def)
  obtain e where e: "events s ev = Some e" "ev_fd e = -1" "ev_index e < 0" using q ev by (auto simp: queued_def)
  have fd: "ev_fd e \<notin> dom (epoll_set s)"
  proof
    assume "ev_fd e \<in> dom (epoll_set s)"
    then obtain x where "epoll_set s (-1) = Some x" using e(2) by auto
    then show False using q by (fastforce simp: queued_def)
  qed
  obtain s' as' where s': "fpm_event_queue_del Timer_queue (Some ev) s = Some (0, s')" "same_rest s s'"
    "queues_at as' (remove1 ev ts) bs fs s'" using timer_del_run [OF qs e(1) fd] ev by auto
  have "fpm_event_del ev s = Some (0, s')" using e s'(1) by (simp add: fpm_event_del_def)
  moreover have "queued (remove1 ev ts) fs s'"
    using q s'(2,3) unfolding queued_def same_rest_def by (auto dest: notin_set_remove1 in_set_remove1 set_remove1_subset [THEN subsetD])
  ultimately show ?thesis by blast
qed

text \<open>The index of the event is reset by the module, so the event is then looked for among the timers too.\<close>

lemma del_fd_run:
  assumes q: "queued ts fs s" and ev: "ev \<in> set fs"
  shows "\<exists>s'. fpm_event_del ev s = Some (-1, s') \<and> queued ts (remove1 ev fs) s'"
proof -
  obtain as bs where qs: "queues_at as ts bs fs s" using q by (auto simp: queued_def)
  obtain e where e: "events s ev = Some e" "0 \<le> ev_fd e" "ev_index e = ev_fd e" "epoll_set s (ev_fd e) = Some ev"
    using q ev by (auto simp: queued_def)
  obtain s' bs' where s': "fpm_event_queue_del Fd_queue (Some ev) s = Some (0, s')" "queues_at as ts bs' (remove1 ev fs) s'"
    "events s' = (events s)(ev \<mapsto> e\<lparr>ev_index := -1\<rparr>)" "epoll_set s' = (epoll_set s)(ev_fd e := None)"
    using fd_del_run [OF qs ev e(1)] e(4) by auto
  have nt: "ev \<notin> set ts" using q ev by (auto simp: queued_def)
  obtain u as' where u: "fpm_event_queue_del Timer_queue (Some ev) s' = Some (-1, u)" "same_rest s' u"
    "queues_at as' (remove1 ev ts) bs' (remove1 ev fs) u"
    using timer_del_run [OF s'(2), of ev "e\<lparr>ev_index := -1\<rparr>"] s'(3,4) nt by auto
  have run: "fpm_event_del ev s = Some (-1, u)" using e(1-3) s'(1,3) u(1) by (simp add: fpm_event_del_def)
  have r: "events u = (events s)(ev \<mapsto> e\<lparr>ev_index := -1\<rparr>)" "epoll_set u = (epoll_set s)(ev_fd e := None)"
    using u(2) s'(3,4) by (simp_all add: same_rest_def)
  have fs: "distinct fs" "set (remove1 ev fs) = set fs - {ev}" using q by (auto simp: queued_def)
  have other: "\<forall>x \<in> set fs - {ev}. \<forall>d. events s x = Some d \<longrightarrow> ev_fd d \<noteq> ev_fd e"
    using q e(4) unfolding queued_def by (metis DiffD1 DiffD2 insertI1 option.inject)
  have "queues_at as' ts bs' (remove1 ev fs) u" using u(3) nt by (simp add: remove1_idem)
  moreover have "\<exists>d. events u x = Some d \<and> 0 \<le> ev_fd d \<and> ev_index d = ev_fd d \<and> epoll_set u (ev_fd d) = Some x"
    if x: "x \<in> set (remove1 ev fs)" for x
  proof -
    have "x \<in> set fs" "x \<noteq> ev" using x fs(2) by auto
    then obtain d where "events s x = Some d" "0 \<le> ev_fd d" "ev_index d = ev_fd d" "epoll_set s (ev_fd d) = Some x"
      using q unfolding queued_def by blast
    then show ?thesis using r other \<open>x \<in> set fs\<close> \<open>x \<noteq> ev\<close> by auto
  qed
  moreover have "0 \<le> fd \<and> x \<in> set (remove1 ev fs) \<and> (\<exists>d. events u x = Some d \<and> ev_fd d = fd)" if "epoll_set u fd = Some x" for fd x
  proof -
    have k: "fd \<noteq> ev_fd e" "epoll_set s fd = Some x" using that r(2) by (auto split: if_splits)
    then obtain d where "0 \<le> fd" "x \<in> set fs" "events s x = Some d" "ev_fd d = fd" using q unfolding queued_def by blast
    moreover have "x \<noteq> ev" using k(1) calculation(3,4) e(1) by auto
    ultimately show ?thesis using r(1) fs(2) by simp
  qed
  moreover have "\<exists>d. events u x = Some d \<and> ev_fd d = -1 \<and> ev_index d < 0" if "x \<in> set ts" for x
    using q that nt r(1) unfolding queued_def by auto
  moreover have "distinct (ts @ remove1 ev fs)" using q fs by (auto simp: queued_def)
  ultimately have "queued ts (remove1 ev fs) u" unfolding queued_def by blast
  then show ?thesis using run by blast
qed

text \<open>
  C24. The queues of events are lists of events: a timer that is started comes first, unless it is queued already, and then
  its time is set anew; a descriptor that is watched comes first in the other queue and the module watches it;
  deleting takes the event out of its queue. No pointer is bad and the queues stay apart. The deletion of a
  descriptor's event reports a failure although it was done.
\<close>

theorem event_queues_refine:
  assumes "queued ts fs s" and "op_allowed op ts fs s" and "queue_spec op (ts, fs) = (ts', fs')"
  shows "\<exists>r s'. queue_do op s = Some (r, s') \<and> queued ts' fs' s'
    \<and> r = (if \<exists>ev. op = Del_event ev \<and> ev \<in> set fs then -1 else 0)"
proof (cases op)
  case (Start_timer ev flags c freq)
  then show ?thesis using start_timer_run [OF assms(1), of ev flags c freq] assms(2,3) by (auto simp: op_allowed_def)
next
  case (Watch ev fd flags c)
  then show ?thesis using watch_run [OF assms(1), of ev fd flags c] assms(2,3) by (auto simp: op_allowed_def)
next
  case (Del_event ev)
  have dis: "distinct (ts @ fs)" using assms(1) by (simp add: queued_def)
  show ?thesis
  proof (cases "ev \<in> set ts")
    case True
    then have "ev \<notin> set fs" using dis by auto
    then show ?thesis using del_timer_run [OF assms(1) True] Del_event assms(3) by (auto simp: queue_do_def remove1_idem)
  next
    case False
    then have "ev \<in> set fs" using assms(2) Del_event by (simp add: op_allowed_def)
    then show ?thesis using del_fd_run [OF assms(1)] Del_event assms(3) False by (auto simp: queue_do_def remove1_idem)
  qed
qed

definition an_event :: "'c fpm_event" where
  "an_event = \<lparr>ev_fd = 0, ev_timeout = (0, 0), ev_frequency = (0, 0), ev_callback = None, ev_flags = 0, ev_index = 0, ev_which = 0\<rparr>"

definition empty_loop :: "'m \<Rightarrow> ('c, 'm) loop_state" where
  "empty_loop m = \<lparr>events = (\<lambda>_. Some an_event), qs = Map.empty, next_q = 0, queue_timer = NULL, queue_fd = NULL, epoll_set = Map.empty,
     clock = (\<lambda>n. (int n, 0)), reads = 5, gone = False, waited = [], world = m\<rparr>"

lemma empty_queued: "queued [] [] (empty_loop m)"
proof -
  have "queues_at [] [] [] [] (empty_loop m)" by (simp add: queues_at_def queue_at_def empty_loop_def)
  then show ?thesis by (auto simp: queued_def empty_loop_def)
qed

theorem event_queues_refine_witness:
  "\<exists>r s'. queue_do (Start_timer 7 0 CHR ''c'' 250) (empty_loop ()) = Some (r, s') \<and> queued [7] [] s'"
  using event_queues_refine [OF empty_queued, of "Start_timer 7 0 CHR ''c'' 250" "()" "[7]" "[]"]
  by (auto simp: op_allowed_def empty_loop_def)

section \<open>Some timers\<close>

definition a_timer :: "timeval \<Rightarrow> 32 word \<Rightarrow> 'c \<Rightarrow> 'c fpm_event" where
  "a_timer t flags c = \<lparr>ev_fd = -1, ev_timeout = t, ev_frequency = (2, 500000), ev_callback = Some c, ev_flags = flags, ev_index = -1,
     ev_which = FPM_EV_TIMEOUT\<rparr>"

definition some_timers :: "(nat, nat) loop_state" where
  "some_timers = (empty_loop 0)\<lparr>events := [1 \<mapsto> a_timer (3, 0) 0 100, 2 \<mapsto> a_timer (50, 0) 0 20, 3 \<mapsto> a_timer (7, 0) 4 3],
     qs := [10 \<mapsto> \<lparr>q_prev = NULL, q_next = Some 11, q_ev = 1\<rparr>, 11 \<mapsto> \<lparr>q_prev = Some 10, q_next = Some 15, q_ev = 2\<rparr>,
            15 \<mapsto> \<lparr>q_prev = Some 11, q_next = NULL, q_ev = 3\<rparr>],
     next_q := 16, queue_timer := Some 10\<rparr>"

section \<open>How long it sleeps\<close>

text \<open>The search for the earliest timer.\<close>

definition sooner :: "(nat \<Rightarrow> timeval) \<Rightarrow> nat \<Rightarrow> timeval \<Rightarrow> timeval" where
  "sooner T ev ms = (if \<not> timerisset ms \<or> timer_less (T ev) ms then T ev else ms)"

lemma earliest_run:
  assumes "dpath q_next q_prev (qs s) p x as t NULL" and "list_all2 (has_ev s) as ts" and "\<forall>ev \<in> set ts. events s ev = Some (V ev)"
  shows "earliest x ms s = Some (fold (sooner (\<lambda>ev. ev_timeout (V ev))) ts ms)"
  using assms
proof (induction as arbitrary: p x ts ms)
  case Nil
  then show ?case by (subst earliest.simps) simp
next
  case (Cons a as)
  obtain n where n: "x = Some a" "qs s a = Some n" "dpath q_next q_prev (qs s) (Some a) (q_next n) as t NULL" using Cons.prems(1) by auto
  obtain e ts' where ts: "ts = e # ts'" "has_ev s a e" "list_all2 (has_ev s) as ts'" using Cons.prems(2) by (cases ts) auto
  have e: "q_ev n = e" "events s e = Some (V e)" using ts(1,2) n(2) Cons.prems(3) by (auto simp: has_ev_def)
  have "\<forall>ev \<in> set ts'. events s ev = Some (V ev)" using Cons.prems(3) ts(1) by simp
  from Cons.IH [OF n(3) ts(3) this] show ?case using n(1,2) ts(1) e by (subst earliest.simps) (simp add: sooner_def [of _ e ms])
qed

text \<open>Times as numbers of microseconds.\<close>

definition usecs :: "timeval \<Rightarrow> int" where
  "usecs t = fst t * 1000000 + snd t"

definition time_ok :: "timeval \<Rightarrow> bool" where
  "time_ok t \<longleftrightarrow> 0 \<le> fst t \<and> 0 \<le> snd t \<and> snd t < 1000000"

lemma timer_less_usecs: "time_ok a \<Longrightarrow> time_ok b \<Longrightarrow> timer_less a b \<longleftrightarrow> usecs a < usecs b"
  by (auto simp: timer_less_def usecs_def time_ok_def)

lemma timersub_usecs: "time_ok a \<Longrightarrow> time_ok b \<Longrightarrow> usecs (timersub a b) = usecs a - usecs b \<and> 0 \<le> snd (timersub a b) \<and> snd (timersub a b) < 1000000"
  by (auto simp: timersub_def usecs_def time_ok_def Let_def)

lemma usecs_split: "time_ok t \<Longrightarrow> t = (usecs t div 1000000, usecs t mod 1000000)"
  by (cases t) (simp add: usecs_def time_ok_def)

lemma usecs_inj: "time_ok a \<Longrightarrow> time_ok b \<Longrightarrow> usecs a = usecs b \<Longrightarrow> a = b"
  by (metis usecs_split)

lemma timerisset_usecs: "time_ok t \<Longrightarrow> timerisset t \<longleftrightarrow> 0 < usecs t"
  by (auto simp: timerisset_def usecs_def time_ok_def)

lemma sooner_fold:
  assumes "\<forall>ev \<in> set ts. time_ok (T ev) \<and> 0 < usecs (T ev)" and "time_ok ms" and "0 < usecs ms"
  shows "time_ok (fold (sooner T) ts ms) \<and> fold (sooner T) ts ms \<in> insert ms (T ` set ts)
    \<and> usecs (fold (sooner T) ts ms) \<le> usecs ms \<and> (\<forall>ev \<in> set ts. usecs (fold (sooner T) ts ms) \<le> usecs (T ev))"
  using assms
proof (induction ts arbitrary: ms)
  case Nil
  then show ?case by simp
next
  case (Cons ev ts)
  have "sooner T ev ms = (if usecs (T ev) < usecs ms then T ev else ms)"
    using Cons.prems by (simp add: sooner_def timerisset_usecs timer_less_usecs)
  then have so: "time_ok (sooner T ev ms)" "0 < usecs (sooner T ev ms)" "usecs (sooner T ev ms) \<le> usecs ms" "usecs (sooner T ev ms) \<le> usecs (T ev)"
    "sooner T ev ms \<in> {ms, T ev}" using Cons.prems by auto
  have "\<forall>ev \<in> set ts. time_ok (T ev) \<and> 0 < usecs (T ev)" using Cons.prems(1) by simp
  from Cons.IH [OF this so(1,2)] show ?case using so(3-5) by auto
qed

lemma earliest_timer:
  assumes q: "queues_at as ts bs fs s" and V: "\<forall>ev \<in> set ts. events s ev = Some (V ev) \<and> time_ok (ev_timeout (V ev)) \<and> 0 < usecs (ev_timeout (V ev))"
    and ne: "ts \<noteq> []"
  shows "\<exists>ev \<in> set ts. earliest (queue_timer s) (0, 0) s = Some (ev_timeout (V ev)) \<and> (\<forall>x \<in> set ts. usecs (ev_timeout (V ev)) \<le> usecs (ev_timeout (V x)))"
proof -
  let ?T = "\<lambda>ev. ev_timeout (V ev)"
  obtain ev ts' where ts: "ts = ev # ts'" using ne by (cases ts) auto
  have "queue_at Timer_queue as ts s" using q by (simp add: queues_at_def)
  then obtain t where t: "dpath q_next q_prev (qs s) NULL (queue_timer s) as t NULL" "list_all2 (has_ev s) as ts"
    by (auto elim: queue_atD)
  have first: "sooner ?T ev (0, 0) = ?T ev" by (simp add: sooner_def timerisset_def)
  have e: "earliest (queue_timer s) (0, 0) s = Some (fold (sooner ?T) ts' (?T ev))"
    using earliest_run [OF t, of V "(0, 0)"] V by (simp add: ts first)
  have "\<forall>x \<in> set ts'. time_ok (?T x) \<and> 0 < usecs (?T x)" "time_ok (?T ev)" "0 < usecs (?T ev)" using V by (simp_all add: ts)
  note f = sooner_fold [OF this]
  then have "fold (sooner ?T) ts' (?T ev) \<in> ?T ` set ts" by (simp add: ts)
  then obtain x where x: "x \<in> set ts" "fold (sooner ?T) ts' (?T ev) = ?T x" by blast
  have "\<forall>y \<in> set ts. usecs (?T x) \<le> usecs (?T y)" using f unfolding x(2) by (simp add: ts)
  then show ?thesis using e x by (intro bexI [of _ x]) simp_all
qed

text \<open>
  How long the master sleeps: until the timer that comes first, rounded up by at most a millisecond, when no timer is
  due; but a whole second when a timer is due already, however long ago, which then has to wait.
\<close>

theorem sleep_until_next_timer:
  assumes q: "queues_at as ts bs fs s" and V: "\<forall>ev \<in> set ts. events s ev = Some (V ev) \<and> time_ok (ev_timeout (V ev)) \<and> 0 < usecs (ev_timeout (V ev))"
    and ne: "ts \<noteq> []" and now: "time_ok now"
  shows "\<exists>ms. earliest (queue_timer s) (0, 0) s = Some ms
    \<and> (if \<exists>ev \<in> set ts. usecs (ev_timeout (V ev)) \<le> usecs now then wait_timeout ms now = 1000
       else (\<forall>ev \<in> set ts. usecs now + (wait_timeout ms now - 1) * 1000 \<le> usecs (ev_timeout (V ev)))
         \<and> (\<exists>ev \<in> set ts. usecs (ev_timeout (V ev)) < usecs now + wait_timeout ms now * 1000))"
proof -
  obtain ev where ev: "ev \<in> set ts" "earliest (queue_timer s) (0, 0) s = Some (ev_timeout (V ev))"
    "\<forall>x \<in> set ts. usecs (ev_timeout (V ev)) \<le> usecs (ev_timeout (V x))" using earliest_timer [OF q V ne] by blast
  let ?t = "ev_timeout (V ev)"
  have t: "time_ok ?t" "timerisset ?t" using V ev(1) by (simp_all add: timerisset_usecs)
  have due: "timer_less ?t now \<or> ?t = now \<longleftrightarrow> usecs ?t \<le> usecs now"
    unfolding timer_less_usecs [OF t(1) now] using usecs_inj [OF t(1) now] by (metis order_le_less)
  have dd: "(\<exists>x \<in> set ts. usecs (ev_timeout (V x)) \<le> usecs now) \<longleftrightarrow> usecs ?t \<le> usecs now" using ev(1,3) by force
  show ?thesis
  proof (cases "usecs ?t \<le> usecs now")
    case True
    then have "wait_timeout ?t now = 1000" using due by (auto simp: wait_timeout_def)
    then show ?thesis using ev(2) True dd by auto
  next
    case False
    let ?d = "timersub ?t now"
    have d: "usecs ?d = usecs ?t - usecs now" "0 \<le> snd ?d" "snd ?d < 1000000" using timersub_usecs [OF t(1) now] by simp_all
    have w: "wait_timeout ?t now = fst ?d * 1000 + snd ?d div 1000 + 1" using False due t(2) by (simp add: wait_timeout_def Let_def)
    have "(wait_timeout ?t now - 1) * 1000 \<le> usecs ?d" "usecs ?d < wait_timeout ?t now * 1000" unfolding w by (simp_all add: usecs_def)
    then have "usecs now + (wait_timeout ?t now - 1) * 1000 \<le> usecs ?t" "usecs ?t < usecs now + wait_timeout ?t now * 1000" using d(1) by linarith+
    then show ?thesis using ev False dd by (intro exI [of _ ?t]) force
  qed
qed

theorem sleep_until_next_timer_witness:
  "\<exists>ms. earliest (queue_timer some_timers) (0, 0) some_timers = Some ms \<and> wait_timeout ms (4, 0) = 1000"
proof -
  have q: "queues_at [10, 11, 15] [1, 2, 3] [] [] some_timers"
    by (simp add: queues_at_def queue_at_def some_timers_def empty_loop_def has_ev_def)
  let ?V = "\<lambda>e. the (events some_timers e)"
  have V: "\<forall>ev \<in> set [1, 2, 3]. events some_timers ev = Some (?V ev) \<and> time_ok (ev_timeout (?V ev)) \<and> 0 < usecs (ev_timeout (?V ev))"
    by (simp add: some_timers_def a_timer_def time_ok_def usecs_def)
  have n: "\<exists>ev \<in> set [1, 2, 3]. usecs (ev_timeout (?V ev)) \<le> usecs (4, 0)" "time_ok (4, 0)"
    by (simp_all add: some_timers_def a_timer_def time_ok_def usecs_def)
  from sleep_until_next_timer [OF q V _ n(2)] show ?thesis using n(1) by simp
qed

end
