(* ===== verification/Fpm_Event_Master.thy ===== *)
theory Fpm_Event_Master
  imports Fpm_Events Fpm_Master
begin

text \<open>
  The callbacks of the master in its event loop (sapi/fpm/fpm/fpm_process_ctl.c, fpm_got_signal of fpm_events.c): the
  timers for the control timeout and the two heartbeats, the signal pipe, and the sockets of pools whose
  children are made on demand. The functions of the master are those of \<open>Fpm_Master\<close>; where one of them sets the
  control timer, the event is set and added here.
\<close>

datatype master_cb = Got_signal | Pctl_action | Heartbeat | Idle_maintenance | Socket_accept nat

text \<open>
  \<open>sig_pipe\<close> is what the pipe of the signal handler holds, \<open>wait_answers\<close> what \<open>waitpid\<close> gives at each
  \<open>SIGCHLD\<close>, \<open>backlog\<close> the length of a pool's listening queue.
\<close>

record fpm_world =
  mst :: fpm_master
  sig_pipe :: string
  wait_answers :: "(int \<times> wait_status \<times> timeval) list list"
  backlog :: "nat \<Rightarrow> int"
  heartbeat_ms :: int

type_synonym master_loop = "(master_cb, fpm_world) loop_state"

text \<open>The events that are static variables.\<close>

definition signal_fd_event :: nat where "signal_fd_event = 1"
definition pctl_event :: nat where "pctl_event = 2"
definition heartbeat_event :: nat where "heartbeat_event = 3"
definition maintenance_event :: nat where "maintenance_event = 4"

definition FPM_IDLE_SERVER_MAINTENANCE_HEARTBEAT :: "64 word" where "FPM_IDLE_SERVER_MAINTENANCE_HEARTBEAT = 1000"
definition FPM_PCTL_MIN_HEARTBEAT :: int where "FPM_PCTL_MIN_HEARTBEAT = 130"

definition upd_mst :: "(fpm_master \<Rightarrow> fpm_master) \<Rightarrow> master_loop \<Rightarrow> master_loop" where
  "upd_mst f s = s\<lparr>world := (world s)\<lparr>mst := f (mst (world s))\<rparr>\<rparr>"

text \<open>\<open>fpm_pctl_timeout_set\<close>, as it sets and adds the event.\<close>

definition timeout_set :: "int \<Rightarrow> master_loop \<Rightarrow> master_loop option" where
  "timeout_set ms s = do {
     (_, s) \<leftarrow> fpm_event_set (Some pctl_event) (-1) 0 (Some Pctl_action) s;
     (_, s) \<leftarrow> fpm_event_add (Some pctl_event) (word_of_int ms) s;
     Some s
   }"

text \<open>A function of the master is run; the control timer it sets is set as an event, and the process may be gone.\<close>

definition run_master :: "(fpm_master \<Rightarrow> fpm_master option) \<Rightarrow> master_loop \<Rightarrow> master_loop option" where
  "run_master f s = do {
     m \<leftarrow> f ((mst (world s))\<lparr>pctl_timer := None\<rparr>);
     let s = upd_mst (\<lambda>_. m) s;
     s \<leftarrow> (case pctl_timer m of None \<Rightarrow> Some s | Some ms \<Rightarrow> timeout_set ms s);
     Some (s\<lparr>gone := gone s \<or> departed m \<noteq> None \<or> is_child m \<noteq> None\<rparr>)
   }"

definition next_answers :: "master_loop \<Rightarrow> (int \<times> wait_status \<times> timeval) list \<times> master_loop" where
  "next_answers s = (case wait_answers (world s) of
     [] \<Rightarrow> ([], s)
   | ws # rest \<Rightarrow> (ws, s\<lparr>world := (world s)\<lparr>wait_answers := rest\<rparr>\<rparr>))"

definition on_signal :: "char \<Rightarrow> master_loop \<Rightarrow> master_loop option" where
  "on_signal c s =
     (if c = CHR ''C'' then (let (ws, s) = next_answers s in run_master (\<lambda>m. Some (fpm_children_bury ws m)) s)
      else if c = CHR ''I'' \<or> c = CHR ''T'' then run_master (\<lambda>m. Some (fpm_pctl (ACTION_SET PCTL_TERMINATING) m)) s
      else if c = CHR ''Q'' then run_master (\<lambda>m. Some (fpm_pctl (ACTION_SET PCTL_FINISHING) m)) s
      else if c = CHR ''2'' then run_master (\<lambda>m. Some (fpm_pctl (ACTION_SET PCTL_RELOADING) m)) s
      else Some s)"

text \<open>The pipe is read until it is empty, or the process is gone.\<close>

fun read_signals :: "string \<Rightarrow> master_loop \<Rightarrow> master_loop option" where
  "read_signals [] s = Some s"
| "read_signals (c # cs) s = do {
     s \<leftarrow> on_signal c (s\<lparr>world := (world s)\<lparr>sig_pipe := cs\<rparr>\<rparr>);
     if gone s then Some s else read_signals cs s
   }"

definition fpm_got_signal :: "master_loop \<Rightarrow> master_loop option" where
  "fpm_got_signal s = read_signals (sig_pipe (world s)) s"

definition heartbeat :: "32 word \<Rightarrow> master_loop \<Rightarrow> master_loop option" where
  "heartbeat which s =
     (if which = FPM_EV_TIMEOUT
      then (let (now, s) = fpm_clock_get s in run_master (\<lambda>m. Some (fpm_pctl_heartbeat now m)) s)
      else do {
        let s = s\<lparr>world := (world s)\<lparr>heartbeat_ms := max (heartbeat_ms (world s)) FPM_PCTL_MIN_HEARTBEAT\<rparr>\<rparr>;
        (_, s) \<leftarrow> fpm_event_set (Some heartbeat_event) (-1) FPM_EV_PERSIST (Some Heartbeat) s;
        (_, s) \<leftarrow> fpm_event_add (Some heartbeat_event) (word_of_int (heartbeat_ms (world s))) s;
        Some s
      })"

definition idle_maintenance :: "32 word \<Rightarrow> master_loop \<Rightarrow> master_loop option" where
  "idle_maintenance which s =
     (if which = FPM_EV_TIMEOUT
      then (let (now, s) = fpm_clock_get s
            in run_master (fpm_pctl_perform_idle_server_maintenance_heartbeat now (backlog (world s))) s)
      else do {
        (_, s) \<leftarrow> fpm_event_set (Some maintenance_event) (-1) FPM_EV_PERSIST (Some Idle_maintenance) s;
        (_, s) \<leftarrow> fpm_event_add (Some maintenance_event) FPM_IDLE_SERVER_MAINTENANCE_HEARTBEAT s;
        Some s
      })"

definition master_action :: "(master_cb, fpm_world) actions" where
  "master_action c ev which s =
     (case c of
        Got_signal \<Rightarrow> fpm_got_signal s
      | Pctl_action \<Rightarrow> run_master (\<lambda>m. Some (fpm_pctl ACTION_TIMEOUT m)) s
      | Heartbeat \<Rightarrow> heartbeat which s
      | Idle_maintenance \<Rightarrow> idle_maintenance which s
      | Socket_accept k \<Rightarrow> run_master (fpm_pctl_on_socket_accept k) s)"

text \<open>\<open>signal_pipe\<close> is the descriptor of the pipe.\<close>

definition fpm_event_loop :: "int \<Rightarrow> bool \<Rightarrow> wait_result list \<Rightarrow> master_loop \<Rightarrow> master_loop option" where
  "fpm_event_loop signal_pipe err results s = do {
     (_, s) \<leftarrow> fpm_event_set (Some signal_fd_event) signal_pipe FPM_EV_READ (Some Got_signal) s;
     (_, s) \<leftarrow> fpm_event_add (Some signal_fd_event) 0 s;
     s \<leftarrow> (if 0 < heartbeat_ms (world s) then heartbeat 0 s else Some s);
     s \<leftarrow> (if \<not> err then idle_maintenance 0 s else Some s);
     event_rounds master_action results s
   }"

end
