(* ===== verification/Fpm_Event_Timers.thy ===== *)
theory Fpm_Event_Timers
  imports Fpm_Event_Properties Fpm_Event_Master Fpm_Properties
begin

text \<open>
  The walk along the timers: which callbacks are called, in which order, and what becomes of the timers. It is
  stated for callbacks that leave the events and the queues alone; the two heartbeats of the master, which may also
  fork and thereby leave the process, are shown to be such callbacks.
\<close>

section \<open>Callbacks that leave the queues alone\<close>

text \<open>
  The callback of the event \<open>v\<close> returns in every state in which \<open>I\<close> holds of the world, changes the world, reads the clock as often
  as it wants and may leave the process, and keeps \<open>I\<close> unless it leaves; it sets, adds and deletes no event.
\<close>

definition quiet :: "('m \<Rightarrow> bool) \<Rightarrow> ('c, 'm) actions \<Rightarrow> 'c fpm_event \<Rightarrow> bool" where
  "quiet I act v \<longleftrightarrow> (\<exists>c. ev_callback v = Some c \<and>
     (\<forall>ev s. I (world s) \<and> \<not> gone s \<longrightarrow>
       (\<exists>w r g. act c ev (ev_which v) s = Some (s\<lparr>world := w, reads := r, gone := g\<rparr>) \<and> (g \<or> I w))))"

text \<open>Whether the timer \<open>v\<close> is due by the next reading of the clock.\<close>

definition due :: "'c fpm_event \<Rightarrow> ('c, 'm) loop_state \<Rightarrow> bool" where
  "due v s \<longleftrightarrow> \<not> timer_less (clock s (reads s)) (ev_timeout v)"

definition again :: "'c fpm_event \<Rightarrow> ('c, 'm) loop_state \<Rightarrow> 'c fpm_event" where
  "again v s = v\<lparr>ev_timeout := timeradd (clock s (reads s)) (ev_frequency v)\<rparr>"

text \<open>The turn of the timer \<open>ev\<close>, from the state \<open>s\<close> to the state \<open>t\<close>: the clock is read, and a timer that is due has its callback called.\<close>

definition timer_turn :: "('c, 'm) actions \<Rightarrow> nat \<Rightarrow> 'c fpm_event \<Rightarrow> ('c, 'm) loop_state \<Rightarrow> ('c, 'm) loop_state \<Rightarrow> bool" where
  "timer_turn act ev v s t \<longleftrightarrow>
     (if \<not> due v s then t = s\<lparr>reads := Suc (reads s)\<rparr>
      else \<exists>u. act (the (ev_callback v)) ev (ev_which v) (s\<lparr>reads := Suc (reads s)\<rparr>) = Some u \<and>
        (if gone u then t = u
         else if bit (ev_flags v) 2 then t = u\<lparr>events := (events u)(ev \<mapsto> again v s)\<rparr>
         else same_rest u t))"

text \<open>What is left of the queue \<open>ts\<close> after \<open>n\<close> turns, which go through the states \<open>\<sigma>\<close>.\<close>

definition left_over :: "(nat \<Rightarrow> 'c fpm_event) \<Rightarrow> (nat \<Rightarrow> ('c, 'm) loop_state) \<Rightarrow> nat list \<Rightarrow> nat \<Rightarrow> nat list" where
  "left_over V \<sigma> ts n =
     map ((!) ts) (filter (\<lambda>i. \<not> due (V (ts ! i)) (\<sigma> i) \<or> bit (ev_flags (V (ts ! i))) 2 \<or> gone (\<sigma> (Suc i))) [0..<n]) @ drop n ts"

text \<open>The timer after its turn.\<close>

definition after_turn :: "'c fpm_event \<Rightarrow> ('c, 'm) loop_state \<Rightarrow> ('c, 'm) loop_state \<Rightarrow> 'c fpm_event" where
  "after_turn v s t = (if due v s \<and> bit (ev_flags v) 2 \<and> \<not> gone t then again v s else v)"

lemma filter_upt_Suc: "filter P [0..<Suc n] = (if P 0 then [0] else []) @ map Suc (filter (\<lambda>i. P (Suc i)) [0..<n])"
  by (simp add: upt_conv_Cons map_Suc_upt [symmetric] filter_map comp_def del: upt_Suc)

lemma left_over_Cons:
  "left_over V (case_nat s \<sigma>) (ev # ts) (Suc n) =
     (if \<not> due (V ev) s \<or> bit (ev_flags (V ev)) 2 \<or> gone (\<sigma> 0) then [ev] else []) @ left_over V \<sigma> ts n"
  by (simp add: left_over_def filter_upt_Suc comp_def del: upt_Suc)

lemma left_over_start [simp]: "left_over V \<sigma> ts 0 = ts"
  by (simp add: left_over_def)

section \<open>The walk\<close>

text \<open>The walk from the state \<open>s\<close> along \<open>ts\<close> has gone through the states \<open>\<sigma>\<close>, and is in state \<open>t\<close> after \<open>n\<close> turns.\<close>

definition walked :: "('c, 'm) actions \<Rightarrow> (nat \<Rightarrow> 'c fpm_event) \<Rightarrow> (nat \<Rightarrow> ('c, 'm) loop_state) \<Rightarrow> nat list \<Rightarrow> nat \<Rightarrow> ('c, 'm) loop_state \<Rightarrow> bool" where
  "walked act V \<sigma> ts n s \<longleftrightarrow> \<sigma> 0 = s \<and> n \<le> length ts
     \<and> (\<forall>i < n. \<not> gone (\<sigma> i) \<and> timer_turn act (ts ! i) (V (ts ! i)) (\<sigma> i) (\<sigma> (Suc i)))
     \<and> (gone (\<sigma> n) \<or> n = length ts)"

lemma walked_Cons:
  assumes "walked act V \<sigma> ts n u" and "\<not> gone s" and "timer_turn act ev (V ev) s u"
  shows "walked act V (case_nat s \<sigma>) (ev # ts) (Suc n) s"
proof -
  have "\<not> gone (case_nat s \<sigma> i) \<and> timer_turn act ((ev # ts) ! i) (V ((ev # ts) ! i)) (case_nat s \<sigma> i) (case_nat s \<sigma> (Suc i))"
    if "i < Suc n" for i using assms that by (cases i) (simp_all add: walked_def)
  then show ?thesis using assms(1) by (simp add: walked_def)
qed

text \<open>What the walk has done to the events.\<close>

definition events_after :: "(nat \<Rightarrow> 'c fpm_event) \<Rightarrow> (nat \<Rightarrow> ('c, 'm) loop_state) \<Rightarrow> nat list \<Rightarrow> nat \<Rightarrow> bool" where
  "events_after V \<sigma> ts n \<longleftrightarrow> (\<forall>i < n. events (\<sigma> n) (ts ! i) = Some (after_turn (V (ts ! i)) (\<sigma> i) (\<sigma> (Suc i))))
     \<and> (\<forall>e. e \<notin> set (take n ts) \<longrightarrow> events (\<sigma> n) e = events (\<sigma> 0) e) \<and> epoll_set (\<sigma> n) = epoll_set (\<sigma> 0)"

lemma events_after_Cons:
  assumes e: "events_after V \<sigma> ts n" and new: "events (\<sigma> 0) ev = Some (after_turn (V ev) s (\<sigma> 0))" and "ev \<notin> set ts" and "n \<le> length ts"
    and "\<And>e. e \<noteq> ev \<Longrightarrow> events (\<sigma> 0) e = events s e" and "epoll_set (\<sigma> 0) = epoll_set s"
  shows "events_after V (case_nat s \<sigma>) (ev # ts) (Suc n)"
proof -
  have "ev \<notin> set (take n ts)" using assms(3) by (meson in_set_takeD)
  then have "events (\<sigma> n) ev = events (\<sigma> 0) ev" using e unfolding events_after_def by blast
  then have "events (\<sigma> n) ((ev # ts) ! i) = Some (after_turn (V ((ev # ts) ! i)) (case_nat s \<sigma> i) (case_nat s \<sigma> (Suc i)))"
    if "i < Suc n" for i using e new that by (cases i) (simp_all add: events_after_def)
  moreover have "events (\<sigma> n) x = events s x" if "x \<notin> set (take (Suc n) (ev # ts))" for x
    using e assms(5) [of x] that unfolding events_after_def by simp
  ultimately show ?thesis using e assms(6) by (simp add: events_after_def)
qed

lemma walk_run:
  assumes "queues_at (ls @ as) (xs @ ts) bs fs s" and "length ls = length xs" and "distinct (xs @ ts)" and "\<not> gone s" and "I (world s)"
    and "\<forall>e \<in> set ts. events s e = Some (V e) \<and> quiet I act (V e)"
  shows "\<exists>\<sigma> n cs. walked act V \<sigma> ts n s \<and> trigger_timers act (pos_of_node as) s = Some (\<sigma> n)
    \<and> queues_at cs (xs @ left_over V \<sigma> ts n) bs fs (\<sigma> n) \<and> events_after V \<sigma> ts n"
  using assms
proof (induction ts arbitrary: ls as xs s)
  case Nil
  have "length as = 0" using Nil.prems(1,2) by (auto simp: queues_at_def queue_at_def dest: list_all2_lengthD)
  then have "trigger_timers act (pos_of_node as) s = Some s" by (subst trigger_timers.simps) (simp add: pos_of_node_def)
  then show ?case using Nil
    by (intro exI [of _ "\<lambda>_. s"] exI [of _ 0] exI [of _ "ls @ as"]) (simp add: walked_def events_after_def)
next
  case (Cons ev ts)
  have qt: "queue_at Timer_queue (ls @ as) (xs @ ev # ts) s" using Cons.prems(1) by (simp add: queues_at_def)
  then have "length as = Suc (length ts)" using Cons.prems(2) by (auto simp: queue_at_def dest!: list_all2_lengthD)
  then obtain a rs where as: "as = a # rs" by (cases as) auto
  note q = qt [unfolded as] Cons.prems(2)
  have v: "events s ev = Some (V ev)" "quiet I act (V ev)" using Cons.prems(6) by auto
  have notin: "ev \<notin> set ts" using Cons.prems(3) by auto
  have go: "\<exists>\<sigma> n cs. walked act V \<sigma> (ev # ts) n s \<and> trigger_timers act (pos_of_node as) s = Some (\<sigma> n)
      \<and> queues_at cs (xs @ left_over V \<sigma> (ev # ts) n) bs fs (\<sigma> n) \<and> events_after V \<sigma> (ev # ts) n"
    if u: "trigger_timers act (pos_of_node as) s = trigger_timers act (pos_of_node rs) u" "timer_turn act ev (V ev) s u"
      "queues_at (ms @ rs) (zs @ ts) bs fs u" "length ms = length zs"
      "zs = xs @ (if \<not> due (V ev) s \<or> bit (ev_flags (V ev)) 2 then [ev] else [])" "\<not> gone u" "I (world u)"
      "events u ev = Some (after_turn (V ev) s u)" "\<And>e. e \<noteq> ev \<Longrightarrow> events u e = events s e" "epoll_set u = epoll_set s" for ms zs u
  proof -
    have pre: "distinct (zs @ ts)" using u(5) Cons.prems(3) by auto
    have ev': "\<forall>e \<in> set ts. events u e = Some (V e) \<and> quiet I act (V e)"
      using Cons.prems(6) u(9) notin by (metis list.set_intros(2))
    obtain \<sigma> n cs where w: "walked act V \<sigma> ts n u" "trigger_timers act (pos_of_node rs) u = Some (\<sigma> n)"
      "queues_at cs (zs @ left_over V \<sigma> ts n) bs fs (\<sigma> n)" "events_after V \<sigma> ts n"
      using Cons.IH [OF u(3,4) pre u(6,7) ev'] by blast
    have s0: "\<sigma> 0 = u" "n \<le> length ts" using w(1) by (simp_all add: walked_def)
    have "xs @ left_over V (case_nat s \<sigma>) (ev # ts) (Suc n) = zs @ left_over V \<sigma> ts n"
      using u(5,6) s0 by (simp add: left_over_Cons)
    moreover have "events_after V (case_nat s \<sigma>) (ev # ts) (Suc n)"
      using u(8-10) s0 by (intro events_after_Cons [OF w(4) _ notin s0(2)]) simp_all
    ultimately show ?thesis using walked_Cons [OF w(1) Cons.prems(4) u(2)] w(2,3) u(1)
      by (intro exI [of _ "case_nat s \<sigma>"] exI [of _ "Suc n"] exI [of _ cs]) simp
  qed
  show ?case
  proof (cases "due (V ev) s")
    case False
    let ?u = "s\<lparr>reads := Suc (reads s)\<rparr>"
    have "timer_less (clock s (reads s)) (ev_timeout (V ev))" using False by (simp add: due_def)
    from trigger_wait [OF q v(1) this] have start: "trigger_timers act (pos_of_node as) s = trigger_timers act (pos_of_node rs) ?u"
      by (simp add: pos_of_node_def as)
    show ?thesis
      by (rule go [OF start, of "ls @ [a]" "xs @ [ev]"])
        (use False v Cons.prems as in \<open>simp_all add: timer_turn_def after_turn_def\<close>)
  next
    case True
    let ?s = "s\<lparr>reads := Suc (reads s)\<rparr>"
    have du: "\<not> timer_less (clock s (reads s)) (ev_timeout (V ev))" using True by (simp add: due_def)
    obtain c w r g where c: "ev_callback (V ev) = Some c" "act c ev (ev_which (V ev)) ?s = Some (?s\<lparr>world := w, reads := r, gone := g\<rparr>)" "g \<or> I w"
      using v(2) Cons.prems(4,5) unfolding quiet_def by (metis loop_state.select_convs(9,11) loop_state.surjective loop_state.update_convs(8))
    let ?u = "?s\<lparr>world := w, reads := r, gone := g\<rparr>"
    have fire: "fpm_event_fire act (Some ev) ?s = Some ?u" using v(1) c by (simp add: fpm_event_fire_def)
    have qu: "queues_at (ls @ a # rs) (xs @ ev # ts) bs fs ?u" using Cons.prems(1) as by simp
    then have qtu: "queue_at Timer_queue (ls @ a # rs) (xs @ ev # ts) ?u" by (simp add: queues_at_def)
    have vu: "events ?u ev = Some (V ev)" using v by simp
    show ?thesis
    proof (cases g)
      case True
      have "trigger_timers act (pos_of_node as) s = Some ?u"
        using trigger_gone [OF q v(1) du fire] True by (simp add: pos_of_node_def as)
      moreover have "timer_turn act ev (V ev) s ?u" using \<open>due (V ev) s\<close> c True by (simp add: timer_turn_def)
      ultimately show ?thesis using Cons.prems True qu v(1) \<open>due (V ev) s\<close> as
        by (intro exI [of _ "case_nat s (\<lambda>_. ?u)"] exI [of _ "Suc 0"] exI [of _ "ls @ a # rs"])
          (simp add: walked_def left_over_Cons events_after_def after_turn_def)
    next
      case live: False
      then have lu: "\<not> gone ?u" "I (world ?u)" using c(3) by simp_all
      show ?thesis
      proof (cases "bit (ev_flags (V ev)) 2")
        case per: True
        let ?w = "?u\<lparr>events := (events ?u)(ev \<mapsto> again (V ev) s)\<rparr>"
        have start: "trigger_timers act (pos_of_node as) s = trigger_timers act (pos_of_node rs) ?w"
          using trigger_persistent [OF q v(1) du fire lu(1) qtu Cons.prems(2) vu per] by (simp add: pos_of_node_def as again_def)
        have "timer_turn act ev (V ev) s ?w" unfolding timer_turn_def using True per c live by simp
        then show ?thesis
          by (rule go [OF start, of "ls @ [a]" "xs @ [ev]"])
            (use True per live qu lu Cons.prems(2) in \<open>simp_all add: after_turn_def\<close>)
      next
        case once: False
        obtain w where w: "trigger_timers act (Some a) s = trigger_timers act (pos_of_node rs) w" "same_rest ?u w"
          "queues_at (ls @ rs) (xs @ ts) bs fs w"
          using trigger_once [OF q v(1) du fire lu(1) qu Cons.prems(2) vu once] by blast
        then have start: "trigger_timers act (pos_of_node as) s = trigger_timers act (pos_of_node rs) w"
          by (simp add: pos_of_node_def as)
        have "timer_turn act ev (V ev) s w" unfolding timer_turn_def using True once c live w(2) by simp
        then show ?thesis
          by (rule go [OF start _ w(3) Cons.prems(2)])
            (use True once live lu v w(2) in \<open>simp_all add: same_rest_def after_turn_def\<close>)
      qed
    qed
  qed
qed

lemma left_over_sub: "n \<le> length ts \<Longrightarrow> set (left_over V \<sigma> ts n) \<subseteq> set ts"
  using set_drop_subset [of n ts] by (auto simp: left_over_def)

lemma left_over_distinct:
  assumes "distinct ts" and "n \<le> length ts"
  shows "distinct (left_over V \<sigma> ts n)"
proof -
  let ?is = "filter (\<lambda>i. \<not> due (V (ts ! i)) (\<sigma> i) \<or> bit (ev_flags (V (ts ! i))) 2 \<or> gone (\<sigma> (Suc i))) [0..<n]"
  have "inj_on ((!) ts) (set ?is)" using assms by (auto simp: inj_on_def nth_eq_iff_index_eq)
  moreover have "ts ! i \<notin> set (drop n ts)" if "i < n" for i
  proof
    assume "ts ! i \<in> set (drop n ts)"
    then obtain j where "j < length ts - n" "ts ! i = ts ! (n + j)" by (auto simp: in_set_conv_nth)
    then show False using assms that by (simp add: nth_eq_iff_index_eq)
  qed
  ultimately show ?thesis using assms(1) by (auto simp: left_over_def distinct_map)
qed

lemma walked_queued:
  assumes q: "queued ts fs s" and V: "\<forall>e \<in> set ts. events s e = Some (V e)"
    and n: "n \<le> length ts" "\<sigma> 0 = s" and qs: "queues_at cs (left_over V \<sigma> ts n) bs fs (\<sigma> n)" and ev: "events_after V \<sigma> ts n"
  shows "queued (left_over V \<sigma> ts n) fs (\<sigma> n)"
proof -
  note sub = left_over_sub [OF n(1), of V \<sigma>]
  have old: "events (\<sigma> n) x = events s x" if "x \<in> set fs \<or> x \<notin> set ts" for x
    using ev q that n(2) unfolding events_after_def queued_def by (metis disjoint_iff distinct_append in_set_takeD)
  have "\<exists>e. events (\<sigma> n) x = Some e \<and> ev_fd e = -1 \<and> ev_index e < 0" if "x \<in> set ts" for x
  proof -
    have x: "ev_fd (V x) = -1 \<and> ev_index (V x) < 0" using q V that unfolding queued_def by (metis option.inject)
    show ?thesis
    proof (cases "x \<in> set (take n ts)")
      case True
      then obtain i where "i < n" "x = ts ! i" using n(1) by (auto simp: in_set_conv_nth)
      then have "events (\<sigma> n) x = Some (after_turn (V x) (\<sigma> i) (\<sigma> (Suc i)))" using ev by (simp add: events_after_def)
      then show ?thesis using x by (simp add: after_turn_def again_def)
    next
      case False
      then show ?thesis using ev x V that n(2) by (simp add: events_after_def)
    qed
  qed
  moreover have "distinct (left_over V \<sigma> ts n @ fs)" using left_over_distinct [OF _ n(1)] sub q by (auto simp: queued_def)
  moreover have "epoll_set (\<sigma> n) = epoll_set s" using ev n(2) by (simp add: events_after_def)
  ultimately show ?thesis using qs sub old q unfolding queued_def
    by (intro conjI ballI allI impI) (blast, assumption, blast, metis, metis+)
qed

text \<open>
  C25. The walk along the timers, with callbacks that set and delete no event (\<open>quiet\<close>: the two heartbeats of the master are
  such, the callback of the control timer is not), gives each timer its turn once, in the order of the queue, until
  the process leaves: the clock is read, and a timer that is due by this reading has its callback called, no other. A timer that repeats
  is due again its frequency after that reading, any other that was called is taken out of the queue, and timers that
  are not due stay as they are. When a callback leaves the process (a child that it has forked), the walk ends there,
  and the queue keeps that timer and the ones behind it.
\<close>

theorem timers_fire_when_due:
  assumes "queued ts fs s" and "\<not> gone s" and "I (world s)" and "\<forall>e \<in> set ts. events s e = Some (V e) \<and> quiet I act (V e)"
  shows "\<exists>\<sigma> n. \<sigma> 0 = s \<and> n \<le> length ts \<and> trigger_timers act (queue_timer s) s = Some (\<sigma> n)
    \<and> (\<forall>i < n. \<not> gone (\<sigma> i) \<and> timer_turn act (ts ! i) (V (ts ! i)) (\<sigma> i) (\<sigma> (Suc i)))
    \<and> (\<not> gone (\<sigma> n) \<longrightarrow> n = length ts)
    \<and> queued (left_over V \<sigma> ts n) fs (\<sigma> n)
    \<and> (\<forall>i < n. events (\<sigma> n) (ts ! i) = Some (after_turn (V (ts ! i)) (\<sigma> i) (\<sigma> (Suc i))))"
proof -
  obtain as bs where qs: "queues_at as ts bs fs s" using assms(1) by (auto simp: queued_def)
  have head: "queue_timer s = pos_of_node as"
    using queue_at_head [of Timer_queue as ts s] qs by (simp add: queues_at_def pos_of_node_def)
  have "distinct ts" using assms(1) by (simp add: queued_def)
  then obtain \<sigma> n cs where w: "walked act V \<sigma> ts n s" "trigger_timers act (queue_timer s) s = Some (\<sigma> n)"
    "queues_at cs (left_over V \<sigma> ts n) bs fs (\<sigma> n)" "events_after V \<sigma> ts n"
    using walk_run [of "[]" as "[]" ts bs fs s I V act] qs assms(2-4) unfolding head by auto
  have "queued (left_over V \<sigma> ts n) fs (\<sigma> n)"
    using w assms(4) by (intro walked_queued [OF assms(1) _ _ _ w(3,4)]) (auto simp: walked_def)
  then show ?thesis using w unfolding walked_def events_after_def by blast
qed

section \<open>The heartbeats of the master\<close>

text \<open>The locks of the counters are free: a maintenance does not wait for ever.\<close>

definition counters_free :: "fpm_world \<Rightarrow> bool" where
  "counters_free w \<longleftrightarrow> True \<notin> set (counter_locks (mst w))"

lemma run_master_quiet:
  assumes "f ((mst (world s))\<lparr>pctl_timer := None\<rparr>) = Some m" and "pctl_timer m = None"
  shows "run_master f s = Some (s\<lparr>world := (world s)\<lparr>mst := m\<rparr>, gone := gone s \<or> departed m \<noteq> None \<or> is_child m \<noteq> None\<rparr>)"
  using assms by (simp add: run_master_def upd_mst_def)

lemma quietI:
  assumes "ev_callback v = Some c"
    and "\<And>ev s. I (world s) \<Longrightarrow> \<not> gone s \<Longrightarrow> \<exists>w r g. act c ev (ev_which v) s = Some (s\<lparr>world := w, reads := r, gone := g\<rparr>) \<and> (g \<or> I w)"
  shows "quiet I act v"
  using assms unfolding quiet_def by blast

lemma master_quiet:
  assumes cb: "ev_callback v = Some c" and run: "\<And>ev s. master_action c ev (ev_which v) s = (let (now, s) = fpm_clock_get s in run_master (f now (world s)) s)"
    and f: "\<And>now w m. True \<notin> set (counter_locks m) \<Longrightarrow> \<exists>u. f now w m = Some u \<and> counter_locks u = counter_locks m \<and> pctl_timer u = pctl_timer m"
  shows "quiet counters_free master_action v"
proof (rule quietI [OF cb])
  fix ev and s :: master_loop
  assume I: "counters_free (world s)" and "\<not> gone s"
  let ?m = "(mst (world s))\<lparr>pctl_timer := None\<rparr>"
  have l: "counter_locks ?m = counter_locks (mst (world s))" by (simp add: counter_locks_def)
  obtain u where u: "f (clock s (reads s)) (world s) ?m = Some u" "counter_locks u = counter_locks (mst (world s))" "pctl_timer u = None"
    using f [of ?m "clock s (reads s)" "world s"] I l by (auto simp: counters_free_def)
  let ?s = "s\<lparr>reads := Suc (reads s)\<rparr>"
  have "master_action c ev (ev_which v) s = Some (?s\<lparr>world := (world s)\<lparr>mst := u\<rparr>, gone := gone s \<or> departed u \<noteq> None \<or> is_child u \<noteq> None\<rparr>)"
    using run_master_quiet [of "f (clock s (reads s)) (world s)" ?s u] u by (simp add: run fpm_clock_get_def)
  moreover have "counters_free ((world s)\<lparr>mst := u\<rparr>)" using I u(2) by (simp add: counters_free_def)
  ultimately show "\<exists>w r g. master_action c ev (ev_which v) s = Some (s\<lparr>world := w, reads := r, gone := g\<rparr>) \<and> (g \<or> counters_free w)"
    by (intro exI [of _ "(world s)\<lparr>mst := u\<rparr>"] exI [of _ "Suc (reads s)"]
        exI [of _ "gone s \<or> departed u \<noteq> None \<or> is_child u \<noteq> None"]) simp
qed

lemma heartbeat_keeps:
  "fpm_state (fpm_pctl_heartbeat now m) = fpm_state m" "departed (fpm_pctl_heartbeat now m) = departed m"
  "is_child (fpm_pctl_heartbeat now m) = is_child m" "signal_sent (fpm_pctl_heartbeat now m) = signal_sent m"
  "pctl_timer (fpm_pctl_heartbeat now m) = pctl_timer m"
  by (simp_all add: fpm_pctl_heartbeat_def fpm_pctl_check_request_timeout_def Let_def)

lemma heartbeat_quiet:
  assumes "ev_callback v = Some Heartbeat" and "ev_which v = FPM_EV_TIMEOUT"
  shows "quiet counters_free master_action v"
proof (rule master_quiet [OF assms(1)])
  show "master_action Heartbeat ev (ev_which v) s = (let (now, s) = fpm_clock_get s in run_master ((\<lambda>now w m. Some (fpm_pctl_heartbeat now m)) now (world s)) s)"
    for ev s using assms(2) by (simp add: master_action_def heartbeat_def)
  have "scoreboard (fst (check_pool now wp)) = scoreboard wp" for now wp by (simp add: check_pool_def Let_def)
  then have "counter_locks (fpm_pctl_heartbeat now m) = counter_locks m" for now m
    by (simp add: counter_locks_def fpm_pctl_heartbeat_def fpm_pctl_check_request_timeout_def Let_def comp_def)
  then show "\<exists>u. Some (fpm_pctl_heartbeat now m) = Some u \<and> counter_locks u = counter_locks m \<and> pctl_timer u = pctl_timer m" for now m
    by (simp add: fpm_pctl_heartbeat_def fpm_pctl_check_request_timeout_def Let_def)
qed

lemma maintenance_quiet:
  assumes "ev_callback v = Some Idle_maintenance" and "ev_which v = FPM_EV_TIMEOUT"
  shows "quiet counters_free master_action v"
proof (rule master_quiet [OF assms(1)])
  show "master_action Idle_maintenance ev (ev_which v) s = (let (now, s) = fpm_clock_get s
      in run_master ((\<lambda>now w. fpm_pctl_perform_idle_server_maintenance_heartbeat now (backlog w)) now (world s)) s)"
    for ev s using assms(2) by (simp add: master_action_def idle_maintenance_def fpm_clock_get_def)
  show "\<exists>u. fpm_pctl_perform_idle_server_maintenance_heartbeat now (backlog w) m = Some u
      \<and> counter_locks u = counter_locks m \<and> pctl_timer u = pctl_timer m"
    if "True \<notin> set (counter_locks m)" for now w m
    using maintenance_locks [OF that, of now "backlog w"] maintenance_timer by blast
qed

text \<open>The heartbeats of a small master, both due.\<close>

definition small_loop :: master_loop where
  "small_loop = (empty_loop \<lparr>mst = small_master, sig_pipe = [], wait_answers = [], backlog = \<lambda>_. 0, heartbeat_ms = 1000\<rparr>)
     \<lparr>events := [heartbeat_event \<mapsto> a_timer (3, 0) FPM_EV_PERSIST Heartbeat, maintenance_event \<mapsto> a_timer (2, 0) FPM_EV_PERSIST Idle_maintenance],
      qs := [10 \<mapsto> \<lparr>q_prev = NULL, q_next = Some 11, q_ev = heartbeat_event\<rparr>, 11 \<mapsto> \<lparr>q_prev = Some 10, q_next = NULL, q_ev = maintenance_event\<rparr>],
      next_q := 12, queue_timer := Some 10\<rparr>"

lemma small_queued: "queued [heartbeat_event, maintenance_event] [] small_loop"
proof -
  have "queues_at [10, 11] [heartbeat_event, maintenance_event] [] [] small_loop"
    by (simp add: queues_at_def queue_at_def small_loop_def empty_loop_def has_ev_def heartbeat_event_def maintenance_event_def)
  then show ?thesis
    by (auto simp: queued_def small_loop_def empty_loop_def a_timer_def heartbeat_event_def maintenance_event_def)
qed

theorem timers_fire_when_due_witness:
  "\<exists>\<sigma> (n::nat). trigger_timers master_action (queue_timer small_loop) small_loop = Some (\<sigma> n) \<and> 0 < n
    \<and> map_option ev_timeout (events (\<sigma> n) heartbeat_event) = Some (7, 500000)"
proof -
  let ?ts = "[heartbeat_event, maintenance_event]"
  let ?V = "\<lambda>e. the (events small_loop e)"
  have V: "?V heartbeat_event = a_timer (3, 0) FPM_EV_PERSIST Heartbeat" "?V maintenance_event = a_timer (2, 0) FPM_EV_PERSIST Idle_maintenance"
    by (simp_all add: small_loop_def heartbeat_event_def maintenance_event_def)
  have "quiet counters_free master_action (?V e) \<and> events small_loop e = Some (?V e)" if "e \<in> set ?ts" for e
    using that heartbeat_quiet [of "?V e"] maintenance_quiet [of "?V e"]
    by (auto simp: small_loop_def heartbeat_event_def maintenance_event_def a_timer_def)
  then have "\<forall>e \<in> set ?ts. events small_loop e = Some (?V e) \<and> quiet counters_free master_action (?V e)" by blast
  moreover have "\<not> gone small_loop" by (simp add: small_loop_def empty_loop_def)
  moreover have "counters_free (world small_loop)"
    by (simp add: small_loop_def empty_loop_def counters_free_def counter_locks_def small_master_def small_pool_def small_board_def scoreboard_init_def)
  ultimately obtain \<sigma> n where s: "\<sigma> 0 = small_loop" "trigger_timers master_action (queue_timer small_loop) small_loop = Some (\<sigma> n)"
    "\<forall>i < n. \<not> gone (\<sigma> i) \<and> timer_turn master_action (?ts ! i) (?V (?ts ! i)) (\<sigma> i) (\<sigma> (Suc i))" "\<not> gone (\<sigma> n) \<longrightarrow> n = length ?ts"
    "\<forall>i < n. events (\<sigma> n) (?ts ! i) = Some (after_turn (?V (?ts ! i)) (\<sigma> i) (\<sigma> (Suc i)))"
    using timers_fire_when_due [OF small_queued, of counters_free ?V master_action] by blast
  have n: "0 < n" using s(1,4) by (cases n) (simp_all add: small_loop_def empty_loop_def)
  have d: "due (a_timer (3, 0) FPM_EV_PERSIST Heartbeat) small_loop"
    by (simp add: due_def a_timer_def small_loop_def empty_loop_def timer_less_def)
  have k: "is_child (mst (world small_loop)) = None" "departed (mst (world small_loop)) = None" "gone small_loop = False"
    by (simp_all add: small_loop_def empty_loop_def small_master_def)
  have a: "the (ev_callback (a_timer (3, 0) FPM_EV_PERSIST Heartbeat)) = Heartbeat" "bit (ev_flags (a_timer (3, 0) FPM_EV_PERSIST Heartbeat)) 2"
    "ev_which (a_timer (3, 0) FPM_EV_PERSIST Heartbeat) = FPM_EV_TIMEOUT"
    by (simp_all add: a_timer_def FPM_EV_PERSIST_def)
  have "\<not> gone u" if "heartbeat FPM_EV_TIMEOUT (small_loop\<lparr>reads := Suc (reads small_loop)\<rparr>) = Some u" for u
    using that k by (auto simp: heartbeat_def fpm_clock_get_def run_master_def upd_mst_def heartbeat_keeps)
  then have "\<not> gone (\<sigma> (Suc 0))"
    using s(3) n d a by (auto simp: s(1) V(1) timer_turn_def master_action_def split: if_splits)
  then have "events (\<sigma> n) heartbeat_event = Some (again (a_timer (3, 0) FPM_EV_PERSIST Heartbeat) small_loop)"
    using s(5) n d a(2) by (auto simp: s(1) V(1) after_turn_def)
  then show ?thesis using s(2) n
    by (intro exI [of _ \<sigma>] exI [of _ n]) (simp add: again_def a_timer_def timeradd_def small_loop_def empty_loop_def)
qed

end
