(* ===== verification/Fpm_Event_Control.thy ===== *)
theory Fpm_Event_Control
  imports Fpm_Event_Timers
begin

text \<open>
  The control timer of the master in its event loop: it is set again by its own callback, which is lost, so that
  the end of the children stops after SIGTERM.
\<close>

section \<open>The control timer\<close>

text \<open>The timers of the master, as they are set: the two heartbeats repeat, the control timer does not.\<close>

definition timer_ok :: "master_loop \<Rightarrow> nat \<Rightarrow> bool" where
  "timer_ok s ev \<longleftrightarrow> (\<exists>v. events s ev = Some v \<and> ev_which v = FPM_EV_TIMEOUT
     \<and> (ev = heartbeat_event \<and> ev_callback v = Some Heartbeat \<and> bit (ev_flags v) 2
        \<or> ev = maintenance_event \<and> ev_callback v = Some Idle_maintenance \<and> bit (ev_flags v) 2
        \<or> ev = pctl_event \<and> ev_callback v = Some Pctl_action \<and> \<not> bit (ev_flags v) 2))"

definition no_kill :: "master_loop \<Rightarrow> bool" where
  "no_kill s \<longleftrightarrow> (\<forall>p. (p, SIGKILL) \<notin> set (signals (mst (world s))))"

text \<open>The master is ending, was asked politely, and may still have its control timer.\<close>

definition ending :: "nat list \<Rightarrow> master_loop \<Rightarrow> bool" where
  "ending ts s \<longleftrightarrow> distinct ts \<and> (\<forall>ev \<in> set ts. timer_ok s ev) \<and> \<not> gone s \<and> no_kill s
     \<and> fpm_state (mst (world s)) \<noteq> PCTL_NORMAL \<and> departed (mst (world s)) = None \<and> is_child (mst (world s)) = None
     \<and> (pctl_event \<in> set ts \<longrightarrow> signal_sent (mst (world s)) = Some SIGQUIT)"

lemma static_events [simp]:
  "pctl_event \<noteq> heartbeat_event" "pctl_event \<noteq> maintenance_event" "heartbeat_event \<noteq> maintenance_event"
  "heartbeat_event \<noteq> pctl_event" "maintenance_event \<noteq> pctl_event" "maintenance_event \<noteq> heartbeat_event"
  by (simp_all add: pctl_event_def heartbeat_event_def maintenance_event_def)

lemma ending_cong:
  "ending ts s \<Longrightarrow> events u = events s \<Longrightarrow> gone u = gone s \<Longrightarrow> world u = world s \<Longrightarrow> ending ts u"
  by (simp add: ending_def timer_ok_def no_kill_def)

lemma check_timed_out_no_kill: "(p, SIGKILL) \<notin> set (snd (fpm_request_check_timed_out wp now t l c))"
  by (auto simp: fpm_request_check_timed_out_def Let_def split: option.splits if_splits)

lemma check_pool_no_kill: "(p, SIGKILL) \<notin> set (snd (check_pool now wp))"
  using check_timed_out_no_kill by (auto simp: check_pool_def Let_def)

lemma heartbeat_no_kill:
  assumes "(p, SIGKILL) \<notin> set (signals m)"
  shows "(p, SIGKILL) \<notin> set (signals (fpm_pctl_heartbeat now m))"
  using assms check_pool_no_kill by (auto simp: fpm_pctl_heartbeat_def fpm_pctl_check_request_timeout_def Let_def)

text \<open>What a callback of the ending master leaves alone: the clock goes on, the children stay, no signal is taken back.\<close>

definition onward :: "master_loop \<Rightarrow> master_loop \<Rightarrow> bool" where
  "onward s u \<longleftrightarrow> map pid (all_children (mst (world u))) = map pid (all_children (mst (world s)))
     \<and> all_running (mst (world u)) = all_running (mst (world s)) \<and> set (signals (mst (world s))) \<subseteq> set (signals (mst (world u)))
     \<and> reads s \<le> reads u \<and> clock u = clock s"

lemma onward_refl: "onward s s"
  by (simp add: onward_def)

lemma onward_trans: "onward s t \<Longrightarrow> onward t u \<Longrightarrow> onward s u"
  unfolding onward_def by (metis order_trans)

lemma onward_same: "onward s t \<Longrightarrow> world u = world t \<Longrightarrow> reads t \<le> reads u \<Longrightarrow> clock u = clock t \<Longrightarrow> onward s u"
  unfolding onward_def by (metis order_trans)

lemma check_timed_out_pid: "pid (fst (fpm_request_check_timed_out wp now t l c)) = pid c"
  by (simp add: fpm_request_check_timed_out_def Let_def split: option.splits if_splits)

lemma check_pool_pids: "map pid (children (fst (check_pool now wp))) = map pid (children wp)"
  by (simp add: check_pool_def Let_def check_timed_out_pid)

lemma heartbeat_pids: "map pid (all_children (fpm_pctl_heartbeat now m)) = map pid (all_children m)"
  by (simp add: fpm_pctl_heartbeat_def fpm_pctl_check_request_timeout_def Let_def all_children_def map_concat comp_def check_pool_pids)

lemma heartbeat_onward:
  "all_running (fpm_pctl_heartbeat now m) = all_running m" "set (signals m) \<subseteq> set (signals (fpm_pctl_heartbeat now m))"
  by (simp_all add: fpm_pctl_heartbeat_def fpm_pctl_check_request_timeout_def Let_def)

lemma heartbeat_fire:
  assumes "ending ts s"
  shows "\<exists>u. heartbeat FPM_EV_TIMEOUT s = Some u \<and> events u = events s \<and> ending ts u \<and> qs u = qs s \<and> next_q u = next_q s
    \<and> queue_timer u = queue_timer s \<and> queue_fd u = queue_fd s \<and> onward s u"
proof -
  let ?now = "clock s (reads s)"
  let ?m = "fpm_pctl_heartbeat ?now ((mst (world s))\<lparr>pctl_timer := None\<rparr>)"
  let ?u = "s\<lparr>reads := Suc (reads s), world := (world s)\<lparr>mst := ?m\<rparr>, gone := False\<rparr>"
  have "heartbeat FPM_EV_TIMEOUT s = Some ?u"
    using assms by (simp add: heartbeat_def run_master_def fpm_clock_get_def upd_mst_def heartbeat_keeps ending_def)
  moreover have "no_kill ?u"
    using assms by (simp add: no_kill_def ending_def heartbeat_no_kill)
  then have "ending ts ?u" using assms by (simp add: ending_def timer_ok_def heartbeat_keeps)
  moreover have "map pid (all_children ?m) = map pid (all_children (mst (world s)))" unfolding heartbeat_pids by (simp add: all_children_def)
  moreover have "set (signals (mst (world s))) \<subseteq> set (signals ?m)" using heartbeat_onward(2) [of "(mst (world s))\<lparr>pctl_timer := None\<rparr>" ?now] by simp
  ultimately have "heartbeat FPM_EV_TIMEOUT s = Some ?u \<and> ending ts ?u \<and> onward s ?u" by (simp add: onward_def heartbeat_onward)
  then show ?thesis by (intro exI [of _ ?u]) simp
qed

lemma maintenance_fire:
  assumes "ending ts s"
  shows "\<exists>u. idle_maintenance FPM_EV_TIMEOUT s = Some u \<and> events u = events s \<and> ending ts u \<and> qs u = qs s \<and> next_q u = next_q s
    \<and> queue_timer u = queue_timer s \<and> queue_fd u = queue_fd s \<and> onward s u"
proof -
  let ?u = "s\<lparr>reads := Suc (reads s), world := (world s)\<lparr>mst := (mst (world s))\<lparr>pctl_timer := None\<rparr>\<rparr>, gone := False\<rparr>"
  have "idle_maintenance FPM_EV_TIMEOUT s = Some ?u"
    using assms by (simp add: idle_maintenance_def run_master_def fpm_clock_get_def upd_mst_def ending_def
        fpm_pctl_perform_idle_server_maintenance_heartbeat_def fpm_pctl_can_spawn_children_def)
  moreover have "ending ts ?u" using assms by (simp add: ending_def timer_ok_def no_kill_def)
  moreover have "onward s ?u" by (simp add: onward_def all_children_def)
  ultimately show ?thesis by (intro exI [of _ ?u]) simp
qed

text \<open>The control timer is set again while it is still queued: the queue stays as it is.\<close>

lemma timeout_set_again:
  assumes q: "queues_at as ts bs fs s" and ev: "pctl_event \<in> set ts" "events s pctl_event = Some e0"
  shows "\<exists>u e. timeout_set ms s = Some u \<and> queues_at as ts bs fs u \<and> events u = (events s)(pctl_event \<mapsto> e)
    \<and> ev_callback e = Some Pctl_action \<and> ev_flags e = 0 \<and> ev_which e = FPM_EV_TIMEOUT
    \<and> gone u = gone s \<and> world u = world s \<and> clock u = clock s \<and> reads s \<le> reads u \<and> epoll_set u = epoll_set s"
proof -
  define freq :: "64 word" where "freq = word_of_int ms"
  define tmp where "tmp = (if 1000 \<le> freq then (uint (freq div 1000), uint ((freq mod 1000) * 1000)) else (0, uint (freq * 1000)))"
  let ?e = "\<lparr>ev_fd = -1, ev_timeout = timeradd (clock s (reads s)) tmp, ev_frequency = tmp, ev_callback = Some Pctl_action,
     ev_flags = 0, ev_index = -1, ev_which = FPM_EV_TIMEOUT\<rparr>"
  let ?s = "s\<lparr>reads := Suc (reads s), events := (events s)(pctl_event \<mapsto> ?e)\<rparr>"
  have "queues_at as ts bs fs ?s" using q by simp
  from timer_add_run [OF this, of pctl_event] ev(1) obtain u where
    u: "fpm_event_queue_add Timer_queue (Some pctl_event) ?s = Some (0, u)" "same_rest ?s u" "queues_at as ts bs fs u" by auto
  have "timeout_set ms s = Some u"
    using ev(2) u(1)
    by (simp add: timeout_set_def fpm_event_set_def fpm_event_add_def ev_write_Some fpm_clock_get_def freq_def [symmetric] tmp_def [symmetric])
  then show ?thesis using u(2,3) by (intro exI [of _ u] exI [of _ ?e]) (simp add: same_rest_def)
qed

lemma pctl_fire:
  assumes q: "queues_at as ts bs fs s" and e: "ending ts s" and ev: "pctl_event \<in> set ts" and run: "all_running (mst (world s)) \<noteq> 0"
  shows "\<exists>u e. run_master (\<lambda>m. Some (fpm_pctl ACTION_TIMEOUT m)) s = Some u \<and> queues_at as ts bs fs u
      \<and> events u = (events s)(pctl_event \<mapsto> e) \<and> ev_flags e = 0 \<and> (\<forall>zs. distinct zs \<and> set zs \<subseteq> set ts - {pctl_event} \<longrightarrow> ending zs u)
      \<and> onward s u \<and> (\<forall>p \<in> pid ` set (all_children (mst (world s))). (p, SIGTERM) \<in> set (signals (mst (world u))))"
proof -
  let ?m = "(mst (world s))\<lparr>pctl_timer := None\<rparr>"
  have st: "departed ?m = None" "is_child ?m = None" "fpm_state ?m \<noteq> PCTL_NORMAL" "signal_sent ?m = Some SIGQUIT" "no_kill s" "\<not> gone s"
    using e ev by (simp_all add: ending_def)
  let ?n = "?m\<lparr>signals := signals ?m @ map (\<lambda>c. (pid c, SIGTERM)) (all_children ?m), signal_sent := Some SIGTERM, pctl_timer := Some 1000\<rparr>"
  have n: "fpm_pctl ACTION_TIMEOUT ?m = ?n"
    using st run by (simp add: fpm_pctl_def fpm_pctl_action_next_def fpm_pctl_kill_all_def fpm_pctl_timeout_set_def)
  let ?s = "upd_mst (\<lambda>_. ?n) s"
  obtain e0 where e0: "events s pctl_event = Some e0" using e ev by (auto simp: ending_def timer_ok_def)
  have "queues_at as ts bs fs ?s" "events ?s pctl_event = Some e0" using q e0 by (simp_all add: upd_mst_def)
  from timeout_set_again [OF this(1) ev this(2), of 1000] obtain u e' where
    u: "timeout_set 1000 ?s = Some u" "queues_at as ts bs fs u" "events u = (events s)(pctl_event \<mapsto> e')" "ev_flags e' = 0"
      "gone u = gone s" "world u = world ?s" "clock u = clock s" "reads s \<le> reads u" by (auto simp: upd_mst_def)
  let ?u = "u\<lparr>gone := False\<rparr>"
  have go: "run_master (\<lambda>m. Some (fpm_pctl ACTION_TIMEOUT m)) s = Some ?u"
    using st u(1,5,6) unfolding run_master_def by (simp add: n)
  have w: "world ?u = (world s)\<lparr>mst := ?n\<rparr>" using u(6) by (simp add: upd_mst_def)
  have ac: "all_children ?m = all_children (mst (world s))" "all_children ?n = all_children (mst (world s))" by (simp_all add: all_children_def)
  have nk: "no_kill ?u" using st(5) unfolding no_kill_def w by auto
  have "ending zs ?u" if z: "distinct zs" "set zs \<subseteq> set ts - {pctl_event}" for zs
  proof -
    have "timer_ok ?u x" if "x \<in> set zs" for x
    proof -
      have "x \<noteq> pctl_event" "timer_ok s x" using that z e by (auto simp: ending_def)
      then show ?thesis using u(3) by (simp add: timer_ok_def)
    qed
    then show ?thesis using z st nk unfolding ending_def w by auto
  qed
  moreover have "onward s ?u" unfolding onward_def w using ac u(7,8) by simp
  moreover have "\<forall>p \<in> pid ` set (all_children (mst (world s))). (p, SIGTERM) \<in> set (signals (mst (world ?u)))" unfolding w using ac by auto
  ultimately show ?thesis using go u(2,3,4) by (intro exI [of _ ?u] exI [of _ e']) simp
qed

text \<open>A timer that repeats has fired, and is due again later.\<close>

lemma ending_rearm:
  assumes "ending ts u" and "events u ev = Some v"
  shows "ending ts (u\<lparr>events := (events u)(ev \<mapsto> v\<lparr>ev_timeout := t\<rparr>)\<rparr>)"
proof -
  let ?u = "u\<lparr>events := (events u)(ev \<mapsto> v\<lparr>ev_timeout := t\<rparr>)\<rparr>"
  have "timer_ok ?u x" if "timer_ok u x" for x using that assms(2) by (auto simp: timer_ok_def)
  then show ?thesis using assms(1) by (simp add: ending_def no_kill_def)
qed

lemma repeating_fire:
  assumes "ending ts s" and "ev \<in> set ts" and "ev \<noteq> pctl_event"
  shows "\<exists>u v. events s ev = Some v \<and> bit (ev_flags v) 2 \<and> fpm_event_fire master_action (Some ev) s = Some u \<and> events u = events s
    \<and> ending ts u \<and> qs u = qs s \<and> next_q u = next_q s \<and> queue_timer u = queue_timer s \<and> queue_fd u = queue_fd s \<and> onward s u"
proof -
  have "timer_ok s ev" using assms(1,2) by (simp add: ending_def)
  then obtain v where v: "events s ev = Some v" "bit (ev_flags v) 2"
    "fpm_event_fire master_action (Some ev) s = heartbeat FPM_EV_TIMEOUT s \<or> fpm_event_fire master_action (Some ev) s = idle_maintenance FPM_EV_TIMEOUT s"
    using assms(3) by (auto simp: timer_ok_def fpm_event_fire_def master_action_def)
  from v(3) show ?thesis
  proof
    assume "fpm_event_fire master_action (Some ev) s = heartbeat FPM_EV_TIMEOUT s"
    then show ?thesis using heartbeat_fire [OF assms(1)] v(1,2) by auto
  next
    assume "fpm_event_fire master_action (Some ev) s = idle_maintenance FPM_EV_TIMEOUT s"
    then show ?thesis using maintenance_fire [OF assms(1)] v(1,2) by auto
  qed
qed

text \<open>The control timer is still to come in the walk, and due whenever the clock is read from now on.\<close>

definition control_due :: "nat list \<Rightarrow> master_loop \<Rightarrow> bool" where
  "control_due ys s \<longleftrightarrow> pctl_event \<in> set ys \<and> all_running (mst (world s)) \<noteq> 0
     \<and> (\<forall>n v. reads s \<le> n \<and> events s pctl_event = Some v \<longrightarrow> \<not> timer_less (clock s n) (ev_timeout v))"

definition asked_to_end :: "nat list \<Rightarrow> master_loop \<Rightarrow> master_loop \<Rightarrow> bool" where
  "asked_to_end ys s u \<longleftrightarrow> (pctl_event \<in> set ys \<longrightarrow> (\<forall>p \<in> pid ` set (all_children (mst (world s))). (p, SIGTERM) \<in> set (signals (mst (world u)))))"

lemma control_due_onward:
  assumes "control_due ys s" and "onward s u" and "events u pctl_event = events s pctl_event" and "pctl_event \<in> set zs"
  shows "control_due zs u"
  using assms unfolding control_due_def onward_def by (metis order_trans)

lemma asked_onward:
  assumes "onward s u" and "asked_to_end ys u v" and "set zs \<subseteq> set ys"
  shows "asked_to_end zs s v"
proof -
  have "pid ` set (all_children (mst (world u))) = pid ` set (all_children (mst (world s)))"
    using assms(1) unfolding onward_def by (metis list.set_map)
  then show ?thesis using assms(2,3) by (auto simp: asked_to_end_def)
qed

lemma quiet_walk:
  assumes "queues_at (ls @ as) (xs @ ys) bs fs s" and "length ls = length xs" and "ending (xs @ ys) s"
    and "pctl_event \<in> set (xs @ ys) \<Longrightarrow> control_due ys s"
  shows "\<exists>s' as' ts. trigger_timers master_action (pos_of_node as) s = Some s' \<and> queues_at as' ts bs fs s' \<and> ending ts s'
    \<and> pctl_event \<notin> set ts \<and> asked_to_end ys s s' \<and> onward s s'"
  using assms
proof (induction ys arbitrary: ls as xs s)
  case Nil
  have "length as = 0" using Nil.prems(1,2) by (auto simp: queues_at_def queue_at_def dest: list_all2_lengthD)
  then have "trigger_timers master_action (pos_of_node as) s = Some s" by (subst trigger_timers.simps) (simp add: pos_of_node_def)
  moreover have "pctl_event \<notin> set xs" using Nil.prems(4) by (auto simp: control_due_def)
  ultimately show ?case using Nil by (auto simp: asked_to_end_def onward_refl)
next
  case (Cons ev ys)
  have qt: "queue_at Timer_queue (ls @ as) (xs @ ev # ys) s" using Cons.prems(1) by (simp add: queues_at_def)
  then have "length as = Suc (length ys)" using Cons.prems(2) by (auto simp: queue_at_def dest!: list_all2_lengthD)
  then obtain a rs where as: "as = a # rs" by (cases as) auto
  note q = qt [unfolded as] Cons.prems(2)
  have qa: "queues_at (ls @ a # rs) (xs @ ev # ys) bs fs s" using Cons.prems(1) as by simp
  have dis: "distinct (xs @ ev # ys)" using Cons.prems(3) by (simp add: ending_def)
  have dx: "pctl_event \<notin> set xs" using Cons.prems(4) dis by (auto simp: control_due_def)
  obtain v where v: "events s ev = Some v" using Cons.prems(3) by (auto simp: ending_def timer_ok_def)
  let ?s = "s\<lparr>reads := Suc (reads s)\<rparr>"
  have os: "onward s ?s" by (simp add: onward_def)
  have es: "ending (xs @ ev # ys) ?s" using Cons.prems(3) by (rule ending_cong) simp_all
  have goal: ?case if st: "trigger_timers master_action (pos_of_node as) s = trigger_timers master_action (pos_of_node rs) u"
    and u: "queues_at (ms @ rs) (zs @ ys) bs fs u" "length ms = length zs" "ending (zs @ ys) u" "set zs \<subseteq> insert ev (set xs) - {pctl_event}"
      "events u pctl_event = events s pctl_event \<or> ev = pctl_event" "onward s u" "asked_to_end [ev] s u" for ms zs u
  proof -
    have "control_due ys u" if "pctl_event \<in> set (zs @ ys)"
    proof -
      have y: "pctl_event \<in> set ys" using that u(4) by auto
      then have "ev \<noteq> pctl_event" using dis by auto
      then have "events u pctl_event = events s pctl_event" using u(5) by blast
      moreover have "control_due (ev # ys) s" using Cons.prems(4) y by simp
      ultimately show ?thesis using control_due_onward [OF _ u(6) _ y] by blast
    qed
    from Cons.IH [OF u(1,2,3) this] obtain s' as' ts where s': "trigger_timers master_action (pos_of_node rs) u = Some s'"
      "queues_at as' ts bs fs s'" "ending ts s'" "pctl_event \<notin> set ts" "asked_to_end ys u s'" "onward u s'" by blast
    have "asked_to_end ys s s'" using u(6) s'(5) by (rule asked_onward) simp
    moreover have "asked_to_end [ev] s s'" using u(7) s'(6) by (auto simp: asked_to_end_def onward_def)
    ultimately have "asked_to_end (ev # ys) s s'" by (auto simp: asked_to_end_def)
    then show ?thesis using s'(1-4,6) onward_trans [OF u(6)] unfolding st by blast
  qed
  show ?case
  proof (cases "timer_less (clock s (reads s)) (ev_timeout v)")
    case True
    then have ne: "ev \<noteq> pctl_event" using Cons.prems(4) v by (auto simp: control_due_def)
    show ?thesis
    proof (rule goal [of ?s "ls @ [a]" "xs @ [ev]"])
      show "trigger_timers master_action (pos_of_node as) s = trigger_timers master_action (pos_of_node rs) ?s"
        using trigger_wait [OF q v True] by (simp add: pos_of_node_def as)
      show "asked_to_end [ev] s ?s" using ne by (simp add: asked_to_end_def)
    qed (use qa Cons.prems(2) es dx ne os in auto)
  next
    case due: False
    show ?thesis
    proof (cases "ev = pctl_event")
      case False
      have mem: "ev \<in> set (xs @ ev # ys)" by simp
      obtain u v' where u: "events ?s ev = Some v'" "bit (ev_flags v') 2" "fpm_event_fire master_action (Some ev) ?s = Some u" "events u = events ?s"
        "ending (xs @ ev # ys) u" "qs u = qs ?s" "next_q u = next_q ?s" "queue_timer u = queue_timer ?s" "queue_fd u = queue_fd ?s" "onward ?s u"
        using repeating_fire [OF es mem False] by blast
      have qu: "queues_at (ls @ a # rs) (xs @ ev # ys) bs fs u" using qa by (rule queues_at_same) (use u(6-9) in simp_all)
      then have qtu: "queue_at Timer_queue (ls @ a # rs) (xs @ ev # ys) u" by (simp add: queues_at_def)
      have vu: "events u ev = Some v'" "\<not> gone u" using u(1,4,5) by (simp_all add: ending_def)
      let ?w = "u\<lparr>events := (events u)(ev \<mapsto> v'\<lparr>ev_timeout := timeradd (clock s (reads s)) (ev_frequency v')\<rparr>)\<rparr>"
      have ow: "onward s ?w" using onward_trans [OF os u(10)] by (rule onward_same) simp_all
      show ?thesis
      proof (rule goal [of ?w "ls @ [a]" "xs @ [ev]"])
        show "trigger_timers master_action (pos_of_node as) s = trigger_timers master_action (pos_of_node rs) ?w"
          using trigger_persistent [OF q v due u(3) vu(2) qtu Cons.prems(2) vu(1) u(2)] by (simp add: pos_of_node_def as)
        show "ending ((xs @ [ev]) @ ys) ?w" using ending_rearm [OF u(5) vu(1)] by simp
        show "asked_to_end [ev] s ?w" using False by (simp add: asked_to_end_def)
      qed (use qu Cons.prems(2) dx False ow u(4) in auto)
    next
      case True
      have run: "all_running (mst (world ?s)) \<noteq> 0" using Cons.prems(4) True by (simp add: control_due_def)
      have qas: "queues_at (ls @ a # rs) (xs @ ev # ys) bs fs ?s" using qa by simp
      have mem: "pctl_event \<in> set (xs @ ev # ys)" using True by simp
      obtain u e where u: "run_master (\<lambda>m. Some (fpm_pctl ACTION_TIMEOUT m)) ?s = Some u" "queues_at (ls @ a # rs) (xs @ ev # ys) bs fs u"
        "events u = (events ?s)(pctl_event \<mapsto> e)" "ev_flags e = 0"
        "\<forall>zs. distinct zs \<and> set zs \<subseteq> set (xs @ ev # ys) - {pctl_event} \<longrightarrow> ending zs u" "onward ?s u"
        "\<forall>p \<in> pid ` set (all_children (mst (world ?s))). (p, SIGTERM) \<in> set (signals (mst (world u)))"
        using pctl_fire [OF qas es mem run] by blast
      have "timer_ok s ev" using Cons.prems(3) by (simp add: ending_def)
      then have fire: "fpm_event_fire master_action (Some ev) ?s = Some u"
        using u(1) True by (auto simp: timer_ok_def fpm_event_fire_def master_action_def)
      have en: "ending (xs @ ys) u" using u(5) [rule_format, of "xs @ ys"] dis True by auto
      have vu: "events u ev = Some e" "\<not> bit (ev_flags e) 2" "\<not> gone u" using u(3,4) True en by (simp_all add: ending_def)
      obtain w where w: "trigger_timers master_action (Some a) s = trigger_timers master_action (pos_of_node rs) w" "same_rest u w"
        "queues_at (ls @ rs) (xs @ ys) bs fs w"
        using trigger_once [OF q v due fire vu(3) u(2) Cons.prems(2) vu(1,2)] by blast
      have sw: "events w = events u" "gone w = gone u" "world w = world u" "clock w = clock u" "reads w = reads u"
        using w(2) by (simp_all add: same_rest_def)
      show ?thesis
      proof (rule goal [of w ls xs])
        show "trigger_timers master_action (pos_of_node as) s = trigger_timers master_action (pos_of_node rs) w"
          using w(1) by (simp add: pos_of_node_def as)
        show "ending (xs @ ys) w" using en sw(1,2,3) by (rule ending_cong)
        show "onward s w" using onward_trans [OF os u(6)] by (rule onward_same) (use sw in simp_all)
        show "asked_to_end [ev] s w" using u(7) sw(3) by (simp add: asked_to_end_def)
      qed (use w(3) Cons.prems(2) dx True in auto)
    qed
  qed
qed

text \<open>A round in which nothing was reported but the timers that are due.\<close>

lemma quiet_round:
  assumes q: "queues_at as ts bs fs s" and e: "ending ts s" and c: "pctl_event \<in> set ts \<Longrightarrow> control_due ts s"
    and r: "r = Woken \<or> r = Ready []"
  shows "\<exists>s' as' ts'. event_round master_action r s = Some s' \<and> queues_at as' ts' bs fs s' \<and> ending ts' s' \<and> pctl_event \<notin> set ts'
    \<and> asked_to_end ts s s' \<and> onward s s'"
proof -
  let ?V = "\<lambda>ev. the (events s ev)"
  have V: "\<forall>ev \<in> set ts. events s ev = Some (?V ev)" using e by (auto simp: ending_def timer_ok_def)
  have qt: "queue_at Timer_queue as ts s" using q by (simp add: queues_at_def)
  then obtain t where t: "dpath q_next q_prev (qs s) NULL (queue_timer s) as t NULL" "list_all2 (has_ev s) as ts"
    by (auto elim: queue_atD)
  let ?s = "s\<lparr>reads := Suc (reads s)\<rparr>"
  have "list_all2 (has_ev ?s) as ts" using t(2) by (simp add: has_ev_def [abs_def])
  then have "\<exists>ms. earliest (queue_timer ?s) (0, 0) ?s = Some ms"
    using earliest_run [of ?s NULL "queue_timer s" as t ts ?V "(0, 0)"] t(1) V by simp
  then obtain ms where ms: "earliest (queue_timer ?s) (0, 0) ?s = Some ms" by blast
  let ?u = "?s\<lparr>waited := waited s @ [wait_timeout ms (clock s (reads s))]\<rparr>"
  have w: "fpm_event_epoll_wait master_action r t ?s = Some (?s\<lparr>waited := waited s @ [t]\<rparr>)" for t
    using r by (auto simp: fpm_event_epoll_wait_def)
  have ng: "\<not> gone s" using e by (simp add: ending_def)
  have head: "queue_timer s = pos_of_node as" using queue_at_head [OF qt] by (simp add: pos_of_node_def)
  have start: "event_round master_action r s = trigger_timers master_action (pos_of_node as) ?u"
    using ms ng by (simp add: event_round_def fpm_clock_get_def w head)
  have qu: "queues_at ([] @ as) ([] @ ts) bs fs ?u" using q by simp
  have eu: "ending ([] @ ts) ?u" using e by (simp add: ending_def timer_ok_def no_kill_def)
  have ou: "onward s ?u" by (simp add: onward_def)
  have cu: "control_due ts ?u" if "pctl_event \<in> set ([] @ ts)"
    using control_due_onward [OF c ou] that by simp
  from quiet_walk [OF qu refl eu cu] obtain s' as' ts' where
    s': "trigger_timers master_action (pos_of_node as) ?u = Some s'" "queues_at as' ts' bs fs s'" "ending ts' s'" "pctl_event \<notin> set ts'"
      "asked_to_end ts ?u s'" "onward ?u s'" by blast
  have "asked_to_end ts s s'" using ou s'(5) by (rule asked_onward) simp
  then show ?thesis using s'(1-4) onward_trans [OF ou s'(6)] unfolding start by blast
qed

lemma quiet_rounds:
  assumes "queues_at as ts bs fs s" and "ending ts s" and "pctl_event \<notin> set ts" and "\<forall>r \<in> set rs. r = Woken \<or> r = Ready []"
  shows "\<exists>s' as' ts'. event_rounds master_action rs s = Some s' \<and> queues_at as' ts' bs fs s' \<and> ending ts' s' \<and> pctl_event \<notin> set ts'
    \<and> onward s s'"
  using assms
proof (induction rs arbitrary: as ts s)
  case Nil
  then show ?case by (auto intro: onward_refl)
next
  case (Cons r rs)
  have r: "r = Woken \<or> r = Ready []" "\<forall>r \<in> set rs. r = Woken \<or> r = Ready []" using Cons.prems(4) by simp_all
  obtain u as' ts' where u: "event_round master_action r s = Some u" "queues_at as' ts' bs fs u" "ending ts' u" "pctl_event \<notin> set ts'" "onward s u"
    using quiet_round [OF Cons.prems(1,2) _ r(1)] Cons.prems(3) by blast
  obtain s' as2 ts2 where s': "event_rounds master_action rs u = Some s'" "queues_at as2 ts2 bs fs s'" "ending ts2 s'" "pctl_event \<notin> set ts2"
    "onward u s'" using Cons.IH [OF u(2,3,4) r(2)] by blast
  have "\<not> gone s" using Cons.prems(2) by (simp add: ending_def)
  then have "event_rounds master_action (r # rs) s = Some s'" using u(1) s'(1) by simp
  then show ?case using s'(2-4) onward_trans [OF u(5) s'(5)] by blast
qed

text \<open>
  C23. A master that finishes or reloads does not get beyond SIGTERM. The last signal its children were sent is SIGQUIT (so it was
  not told to terminate, which starts with SIGTERM), none was sent SIGKILL, the control timer is queued and due
  whenever the clock is read, the other timers are the two heartbeats, and the waits of all rounds report no descriptor:
  no signal arrives and no child is buried. Then the next round sends SIGTERM to every child and takes the control
  timer, which its callback has set again, out of the queue as one that has fired; and in any number of further
  rounds no SIGKILL is sent and the master neither ends nor has its control timer queued.
\<close>

theorem escalation_stops_at_term:
  assumes "queues_at as ts bs fs s" and "ending ts s" and "pctl_event \<in> set ts" and "control_due ts s"
    and "\<forall>r \<in> set (r # rs). r = Woken \<or> r = Ready []"
  shows "\<exists>s'. event_rounds master_action (r # rs) s = Some s' \<and> \<not> gone s' \<and> departed (mst (world s')) = None
    \<and> (\<forall>c \<in> set (all_children (mst (world s))). (pid c, SIGTERM) \<in> set (signals (mst (world s'))))
    \<and> (\<forall>p. (p, SIGKILL) \<notin> set (signals (mst (world s'))))
    \<and> (\<exists>as' ts'. queues_at as' ts' bs fs s' \<and> pctl_event \<notin> set ts')"
proof -
  have r: "r = Woken \<or> r = Ready []" "\<forall>r \<in> set rs. r = Woken \<or> r = Ready []" using assms(5) by simp_all
  obtain u as' ts' where u: "event_round master_action r s = Some u" "queues_at as' ts' bs fs u" "ending ts' u" "pctl_event \<notin> set ts'"
    "asked_to_end ts s u" using quiet_round [OF assms(1,2,4) r(1)] by blast
  obtain s' as2 ts2 where s': "event_rounds master_action rs u = Some s'" "queues_at as2 ts2 bs fs s'" "ending ts2 s'" "pctl_event \<notin> set ts2"
    "onward u s'" using quiet_rounds [OF u(2,3,4) r(2)] by blast
  have "\<not> gone s" using assms(2) by (simp add: ending_def)
  then have "event_rounds master_action (r # rs) s = Some s'" using u(1) s'(1) by simp
  moreover have "\<not> gone s'" "departed (mst (world s')) = None" "\<forall>p. (p, SIGKILL) \<notin> set (signals (mst (world s')))"
    using s'(3) by (simp_all add: ending_def no_kill_def)
  moreover have "\<forall>c \<in> set (all_children (mst (world s))). (pid c, SIGTERM) \<in> set (signals (mst (world s')))"
    using u(5) assms(3) s'(5) by (auto simp: asked_to_end_def onward_def)
  ultimately show ?thesis using s'(2,4) by blast
qed

text \<open>A master that has been told to finish, with a child that does not stop.\<close>

definition stuck_master :: fpm_master where
  "stuck_master = fpm_pctl (ACTION_SET PCTL_FINISHING) (small_master\<lparr>all_running := 1,
     pools := [small_pool\<lparr>running_children := 1, children := [\<lparr>pid = 7, started = (0, 0), slow_logged = (0, 0), traced = False,
       idle_kill = False, scoreboard_i = 0\<rparr>]\<rparr>]\<rparr>)"

lemma stuck_master_state:
  "fpm_state stuck_master = PCTL_FINISHING" "signal_sent stuck_master = Some SIGQUIT" "signals stuck_master = [(7, SIGQUIT)]"
  "departed stuck_master = None" "is_child stuck_master = None" "all_running stuck_master = 1" "map pid (all_children stuck_master) = [7]"
  by (simp_all add: stuck_master_def small_master_def fpm_pctl_def overrides_def fpm_pctl_action_next_def fpm_pctl_kill_all_def
      fpm_pctl_timeout_set_def all_children_def)

definition stuck_loop :: master_loop where
  "stuck_loop = (empty_loop \<lparr>mst = stuck_master, sig_pipe = [], wait_answers = [], backlog = (\<lambda>_. 0), heartbeat_ms = 0\<rparr>)
     \<lparr>events := [pctl_event \<mapsto> a_timer (3, 0) 0 Pctl_action, maintenance_event \<mapsto> a_timer (50, 0) FPM_EV_PERSIST Idle_maintenance],
      qs := [10 \<mapsto> \<lparr>q_prev = NULL, q_next = Some 11, q_ev = pctl_event\<rparr>, 11 \<mapsto> \<lparr>q_prev = Some 10, q_next = NULL, q_ev = maintenance_event\<rparr>],
      next_q := 12, queue_timer := Some 10\<rparr>"

theorem escalation_stops_at_term_witness:
  "\<exists>s'. event_rounds master_action (Woken # replicate 100 (Ready [])) stuck_loop = Some s' \<and> \<not> gone s'
    \<and> (7, SIGTERM) \<in> set (signals (mst (world s'))) \<and> (7, SIGKILL) \<notin> set (signals (mst (world s')))"
proof -
  have q: "queues_at [10, 11] [pctl_event, maintenance_event] [] [] stuck_loop"
    by (simp add: queues_at_def queue_at_def stuck_loop_def empty_loop_def has_ev_def)
  have e: "ending [pctl_event, maintenance_event] stuck_loop"
    by (simp add: ending_def timer_ok_def no_kill_def stuck_loop_def empty_loop_def stuck_master_state a_timer_def FPM_EV_PERSIST_def)
  have c: "pctl_event \<in> set [pctl_event, maintenance_event]" "control_due [pctl_event, maintenance_event] stuck_loop"
    by (simp_all add: control_due_def stuck_loop_def empty_loop_def stuck_master_state a_timer_def timer_less_def)
  have r: "\<forall>r \<in> set (Woken # replicate 100 (Ready [])). r = Woken \<or> r = Ready []" by simp
  have ch: "\<exists>x \<in> set (all_children (mst (world stuck_loop))). pid x = 7"
    using stuck_master_state(7) by (auto simp: stuck_loop_def empty_loop_def)
  from escalation_stops_at_term [OF q e c r] ch show ?thesis by fastforce
qed

end
