(* ===== verification/Coro_Http.thy ===== *)
theory Coro_Http
  imports Coro_Engine
begin

text \<open>
  The HTTP client for coroutines (ext/coro_http/coro_http.c): a PHP function sends a request and yields,
  libevent's callbacks collect the body in a buffer of the context and resume the script. The memory of
  a call is a heap of its own: the parameter struct of each call and the buffers that are live. \<open>None\<close> is
  undefined behaviour: released memory, a store behind a buffer, an uninitialised pointer.
\<close>

section \<open>State\<close>

text \<open>
  The parameter struct of a call: \<open>hp_connection = None\<close> is a field that was never written, and
  \<open>hp_emalloc\<close> tells which allocator the struct came from. \<open>results c\<close> is the value behind the
  \<open>return_value\<close> of the context \<open>c\<close>, \<open>live_bufs\<close> the contexts whose \<open>tmpData\<close> is allocated.
\<close>

record coro_http_param =
  hp_connection :: "nat option"
  hp_context :: nat
  hp_emalloc :: bool

record http_world =
  eng :: engine
  hparams :: "nat \<rightharpoonup> coro_http_param"
  live_bufs :: "nat set"
  conns :: "nat set"
  next_hp :: nat
  results :: "nat \<Rightarrow> string option"
  requests_sent :: "(string \<times> int \<times> string) list"

text \<open>The buffer has 4096 bytes.\<close>

definition TMP_SIZE :: nat where
  "TMP_SIZE = 4096"

text \<open>\<open>strncat\<close> to a C string in a buffer of \<open>TMP_SIZE\<close> bytes.\<close>

definition strncat :: "string \<Rightarrow> string \<Rightarrow> string option" where
  "strncat dst src =
     (if length dst + length (upto_nul src) + 1 \<le> TMP_SIZE then Some (dst @ upto_nul src) else None)"

text \<open>The loop of a callback that appends what has arrived, 1024 bytes at a time.\<close>

function append_input :: "string \<Rightarrow> string \<Rightarrow> string option" where
  "append_input input tmp =
     (if input = [] then Some tmp
      else Option.bind (strncat tmp (take 1024 input)) (append_input (drop 1024 input)))"
  by pat_completeness auto
termination
  by (relation "measure (length \<circ> fst)") auto

declare append_input.simps [simp del]

section \<open>Callbacks\<close>

text \<open>The first lines of a callback: the parameter, the context, the switch to its coroutine.\<close>

definition enter_callback :: "nat \<Rightarrow> http_world \<Rightarrow> (coro_http_param \<times> http_world) option" where
  "enter_callback arg w = do {
     p \<leftarrow> hparams w arg;
     s \<leftarrow> checkout_coroutine_context (Some (hp_context p)) (eng w);
     Some (p, w\<lparr>eng := s\<rparr>)
   }"

definition read_tmp :: "nat \<Rightarrow> http_world \<Rightarrow> string option" where
  "read_tmp c w = do {
     x \<leftarrow> ctx_read (Some c) (eng w);
     tmp \<leftarrow> tmpData x;
     if c \<in> live_bufs w then Some tmp else None
   }"

definition write_tmp :: "nat \<Rightarrow> string option \<Rightarrow> http_world \<Rightarrow> http_world option" where
  "write_tmp c v w = do {
     s \<leftarrow> ctx_write (\<lambda>x. x\<lparr>tmpData := v\<rparr>) (Some c) (eng w);
     Some (w\<lparr>eng := s\<rparr>)
   }"

definition free_request :: "nat \<Rightarrow> http_world \<Rightarrow> http_world option" where
  "free_request arg w = do {
     p \<leftarrow> hparams w arg;
     conn \<leftarrow> hp_connection p;
     if conn \<in> conns w \<and> hp_emalloc p
     then Some (w\<lparr>conns := conns w - {conn}, hparams := (hparams w)(arg := None)\<rparr>) else None
   }"

text \<open>
  \<open>status_line\<close> is the formatted line; the buffer of 1024 bytes it is printed into has no bound. The
  function has no \<open>return\<close>: what libevent reads as its value is \<open>junk\<close>.
\<close>

definition ReadHeaderDoneCallback :: "string \<Rightarrow> int \<Rightarrow> nat \<Rightarrow> http_world \<Rightarrow> (int \<times> http_world) option" where
  "ReadHeaderDoneCallback status_line junk arg w = do {
     (_, w) \<leftarrow> enter_callback arg w;
     if length status_line + 1 \<le> 1024 then Some (junk, w) else None
   }"

definition ReadChunkCallback :: "string \<Rightarrow> nat \<Rightarrow> http_world \<Rightarrow> http_world option" where
  "ReadChunkCallback input arg w = do {
     (p, w) \<leftarrow> enter_callback arg w;
     if input = [] then Some w
     else do {
       tmp \<leftarrow> read_tmp (hp_context p) w;
       tmp \<leftarrow> append_input input tmp;
       write_tmp (hp_context p) (Some tmp) w
     }
   }"

definition RemoteReadCallback :: "vm \<Rightarrow> nat \<Rightarrow> http_world \<Rightarrow> http_world option" where
  "RemoteReadCallback vm arg w = do {
     (p, w) \<leftarrow> enter_callback arg w;
     let c = hp_context p;
     tmp \<leftarrow> read_tmp c w;
     let w = w\<lparr>results := (results w)(c \<mapsto> upto_nul tmp), live_bufs := live_bufs w - {c}\<rparr>;
     w \<leftarrow> write_tmp c None w;
     w \<leftarrow> free_request arg w;
     s \<leftarrow> resume_coroutine_context vm (eng w);
     Some (w\<lparr>eng := s\<rparr>)
   }"

datatype evhttp_error =
    EVREQ_HTTP_TIMEOUT | EVREQ_HTTP_EOF | EVREQ_HTTP_INVALID_HEADER | EVREQ_HTTP_BUFFER_ERROR
  | EVREQ_HTTP_REQUEST_CANCEL | EVREQ_HTTP_DATA_TOO_LONG | Unknown_error

primrec error_text :: "evhttp_error \<Rightarrow> string" where
  "error_text EVREQ_HTTP_TIMEOUT = ''remote request error:EVREQ_HTTP_TIMEOUT!''"
| "error_text EVREQ_HTTP_EOF = ''remote request error:EVREQ_HTTP_EOF!''"
| "error_text EVREQ_HTTP_INVALID_HEADER = ''remote request error:EVREQ_HTTP_INVALID_HEADER!''"
| "error_text EVREQ_HTTP_BUFFER_ERROR = ''remote request error:EVREQ_HTTP_BUFFER_ERROR!''"
| "error_text EVREQ_HTTP_REQUEST_CANCEL = ''remote request error:EVREQ_HTTP_REQUEST_CANCEL!''"
| "error_text EVREQ_HTTP_DATA_TOO_LONG = ''remote request error:EVREQ_HTTP_DATA_TOO_LONG!''"
| "error_text Unknown_error = ''remote request error:unkown error!''"

definition RemoteRequestErrorCallback :: "evhttp_error \<Rightarrow> nat \<Rightarrow> http_world \<Rightarrow> http_world option" where
  "RemoteRequestErrorCallback err arg w = do {
     (p, w) \<leftarrow> enter_callback arg w;
     tmp \<leftarrow> read_tmp (hp_context p) w;
     tmp \<leftarrow> strncat tmp (error_text err);
     write_tmp (hp_context p) (Some tmp) w
   }"

section \<open>The PHP functions\<close>

record uri =
  u_host :: "string option"
  u_port :: int
  u_path :: "string option"

text \<open>A PHP function returns a string, or yields.\<close>

datatype php_outcome = Returns string | Yields

text \<open>A new parameter struct.\<close>

definition new_param :: "nat \<Rightarrow> bool \<Rightarrow> http_world \<Rightarrow> nat \<times> http_world" where
  "new_param c emalloced w =
     (next_hp w, w\<lparr>hparams := (hparams w)(next_hp w \<mapsto> \<lparr>hp_connection = None, hp_context = c, hp_emalloc = emalloced\<rparr>),
                   next_hp := Suc (next_hp w)\<rparr>)"

text \<open>
  \<open>arg\<close> is the parameter of the PHP function, \<open>parse\<close> is \<open>evhttp_uri_parse\<close>, \<open>conn\<close> the connection that
  \<open>evhttp_connection_base_new\<close> makes, and the flags tell whether the bases are there.
\<close>

definition coro_http_get :: "string option \<Rightarrow> (string \<Rightarrow> uri option) \<Rightarrow> bool \<Rightarrow> bool \<Rightarrow> nat option \<Rightarrow> http_world
    \<Rightarrow> (php_outcome \<times> http_world) option" where
  "coro_http_get arg parse has_base has_dns conn w = do {
     g \<leftarrow> G_read (eng w);
     c \<leftarrow> sg_context g;
     _ \<leftarrow> ctx_read (Some c) (eng w);
     let w = w\<lparr>results := (results w)(c := None)\<rparr>;
     case arg of
       None \<Rightarrow> Some (Returns ''param error!'', w)
     | Some url \<Rightarrow> do {
         let (a, w) = new_param c True w;
         case parse url of
           None \<Rightarrow> Some (Returns ''uri create error!'', w)
         | Some u \<Rightarrow>
             if \<not> has_base then Some (Returns ''event_base error!'', w)
             else if \<not> has_dns then Some (Returns ''dnsbase error!'', w)
             else do {
               w \<leftarrow> write_tmp c (Some []) (w\<lparr>live_bufs := insert c (live_bufs w)\<rparr>);
               case u_host u of
                 None \<Rightarrow> Some (Returns ''host error!'', w)
               | Some host \<Rightarrow>
                   let port = (if u_port u < 0 then 80 else u_port u);
                       request_url = (case u_path u of None \<Rightarrow> ''/'' | Some p \<Rightarrow> if p = [] then ''/'' else url)
                   in (case conn of
                         None \<Rightarrow> Some (Returns ''create connection error!'', w)
                       | Some k \<Rightarrow> do {
                           p \<leftarrow> hparams w a;
                           let w = w\<lparr>hparams := (hparams w)(a \<mapsto> p\<lparr>hp_connection := Some k\<rparr>), conns := insert k (conns w),
                                     requests_sent := requests_sent w @ [(host, port, request_url)]\<rparr>;
                           s \<leftarrow> yield_coroutine_context (eng w);
                           Some (Yields, w\<lparr>eng := s\<rparr>)
                         })
             }
       }
   }"

definition ce_http_get :: "string option \<Rightarrow> (string \<Rightarrow> uri option) \<Rightarrow> http_world \<Rightarrow> (php_outcome \<times> http_world) option" where
  "ce_http_get arg parse w = do {
     g \<leftarrow> G_read (eng w);
     c \<leftarrow> sg_context g;
     _ \<leftarrow> ctx_read (Some c) (eng w);
     let w = w\<lparr>results := (results w)(c := None)\<rparr>;
     case arg of
       None \<Rightarrow> Some (Returns ''param error!'', w)
     | Some url \<Rightarrow> do {
         let (a, w) = new_param c False w;
         case parse url of
           None \<Rightarrow> Some (Returns ''uri create error!'', w)
         | Some u \<Rightarrow>
             (case u_host u of
                None \<Rightarrow> Some (Returns ''host error!'', w)
              | Some host \<Rightarrow> do {
                  let port = (if u_port u < 0 then 80 else u_port u);
                  let path = (case u_path u of None \<Rightarrow> ''(null)'' | Some p \<Rightarrow> p);
                  let w = w\<lparr>requests_sent := requests_sent w @ [(host, port, path)]\<rparr>;
                  s \<leftarrow> yield_coroutine_context (eng w);
                  Some (Yields, w\<lparr>eng := s\<rparr>)
                })
       }
   }"

text \<open>The callbacks of the second function: the buffer is local.\<close>

definition readcb :: "vm \<Rightarrow> string \<Rightarrow> nat \<Rightarrow> http_world \<Rightarrow> http_world option" where
  "readcb vm input arg w = do {
     (p, w) \<leftarrow> enter_callback arg w;
     tmp \<leftarrow> append_input input [];
     w \<leftarrow> free_request arg (w\<lparr>results := (results w)(hp_context p \<mapsto> tmp)\<rparr>);
     s \<leftarrow> resume_coroutine_context vm (eng w);
     Some (w\<lparr>eng := s\<rparr>)
   }"

datatype bev_event = BEV_EVENT_CONNECTED | BEV_EVENT_ERROR | BEV_EVENT_EOF

text \<open>The flag tells whether the bufferevent of the connection is freed.\<close>

definition eventcb :: "bev_event \<Rightarrow> nat \<Rightarrow> http_world \<Rightarrow> (bool \<times> http_world) option" where
  "eventcb ev arg w = do {
     (_, w) \<leftarrow> enter_callback arg w;
     Some (ev \<noteq> BEV_EVENT_CONNECTED, w)
   }"

definition ce_context_index :: "http_world \<Rightarrow> int option" where
  "ce_context_index w = do { g \<leftarrow> G_read (eng w); c \<leftarrow> ctx_read (sg_context g) (eng w); Some (ctx_thread_id c) }"

definition ce_context_fd :: "http_world \<Rightarrow> int option" where
  "ce_context_fd w = do { g \<leftarrow> G_read (eng w); c \<leftarrow> ctx_read (sg_context g) (eng w); Some (ctx_fd c) }"

text \<open>
  The end of a request releases what its coroutine took with \<open>emalloc\<close> (\<open>shutdown_memory_manager\<close>): the
  buffer and the parameter structs of its calls.
\<close>

definition release_request_memory :: "nat \<Rightarrow> http_world \<Rightarrow> http_world" where
  "release_request_memory c w = w\<lparr>live_bufs := live_bufs w - {c},
     hparams := (\<lambda>a. case hparams w a of None \<Rightarrow> None
                       | Some p \<Rightarrow> if hp_context p = c \<and> hp_emalloc p then None else Some p)\<rparr>"

text \<open>The client of the context \<open>c\<close> goes away while a call is out: the event handler of the engine.\<close>

definition client_hangs_up :: "nat \<Rightarrow> nat \<Rightarrow> http_world \<Rightarrow> http_world option" where
  "client_hangs_up b c w = do {
     s \<leftarrow> event_cb (Some b) (Some c) (eng w);
     Some (release_request_memory c (w\<lparr>eng := s\<rparr>))
   }"

end
