(* ===== verification/Coro_Http_Properties.thy ===== *)
theory Coro_Http_Properties
  imports Coro_Http Coro_Properties
begin

text \<open>
  What the HTTP client gives back to a script, and where it goes wrong: bodies that do not fit, callers
  that are gone, and the second PHP function.
\<close>

section \<open>The buffer\<close>

definition no_nul :: "string \<Rightarrow> bool" where
  "no_nul s \<longleftrightarrow> CHR 0x00 \<notin> set s"

lemma upto_nul_id: "no_nul s \<Longrightarrow> upto_nul s = s"
  by (auto simp: upto_nul_def no_nul_def takeWhile_eq_all_conv)

text \<open>
  The bytes of a piece that reach the buffer: of every slice of 1024 bytes those before its first null byte,
  since \<open>strncat\<close> stops there.
\<close>

function kept_bytes :: "string \<Rightarrow> string" where
  "kept_bytes input = (if input = [] then [] else upto_nul (take 1024 input) @ kept_bytes (drop 1024 input))"
  by pat_completeness auto
termination
  by (relation "measure length") auto

declare kept_bytes.simps [simp del]

lemma kept_bytes_Nil [simp]: "kept_bytes [] = []"
  by (simp add: kept_bytes.simps)

lemma no_nul_kept: "no_nul (kept_bytes input)"
proof (induction input rule: kept_bytes.induct)
  case (1 input)
  then show ?case
    using set_upto_nul [of "take 1024 input"] by (subst kept_bytes.simps) (auto simp: no_nul_def)
qed

lemma kept_bytes_plain: "no_nul input \<Longrightarrow> kept_bytes input = input"
proof (induction input rule: kept_bytes.induct)
  case (1 input)
  have "no_nul (take 1024 input)" "no_nul (drop 1024 input)"
    using "1.prems" by (auto simp: no_nul_def dest: in_set_takeD in_set_dropD)
  then show ?case using 1 by (subst kept_bytes.simps) (simp add: upto_nul_id)
qed

lemma append_input_run:
  assumes "length tmp < TMP_SIZE"
  shows "append_input input tmp = (if length tmp + length (kept_bytes input) < TMP_SIZE then Some (tmp @ kept_bytes input) else None)"
  using assms
proof (induction input tmp rule: append_input.induct)
  case (1 input tmp)
  show ?case
  proof (cases "input = []")
    case True
    then show ?thesis using "1.prems" by (simp add: append_input.simps)
  next
    case ne: False
    let ?h = "upto_nul (take 1024 input)" and ?r = "kept_bytes (drop 1024 input)"
    have k: "kept_bytes input = ?h @ ?r" using ne by (subst kept_bytes.simps) simp
    show ?thesis
    proof (cases "length tmp + length ?h < TMP_SIZE")
      case True
      then have cat: "strncat tmp (take 1024 input) = Some (tmp @ ?h)" by (simp add: strncat_def)
      have "length (tmp @ ?h) < TMP_SIZE" using True by simp
      from "1.IH" [OF ne cat this] have IH: "append_input (drop 1024 input) (tmp @ ?h)
          = (if length (tmp @ ?h) + length ?r < TMP_SIZE then Some ((tmp @ ?h) @ ?r) else None)" .
      have "append_input input tmp = append_input (drop 1024 input) (tmp @ ?h)"
        using ne cat by (subst append_input.simps) simp
      then show ?thesis using IH k by (simp add: add.assoc)
    next
      case False
      then have "strncat tmp (take 1024 input) = None" by (simp add: strncat_def)
      then show ?thesis using ne k False by (subst append_input.simps) simp
    qed
  qed
qed

section \<open>A call that is out\<close>

text \<open>The call \<open>arg\<close> of the suspended context \<open>c\<close>, of which \<open>tmp\<close> has arrived.\<close>

definition calling :: "(nat \<Rightarrow> nat) \<Rightarrow> ptr list \<Rightarrow> pool_state \<Rightarrow> vm \<Rightarrow> stop \<Rightarrow> nat \<Rightarrow> nat \<Rightarrow> nat \<Rightarrow> string \<Rightarrow> http_world \<Rightarrow> bool" where
  "calling own tab p vm st arg c k tmp w \<longleftrightarrow>
     engine_inv own tab p (eng w) \<and> c \<in> set (busy_ctxs p) \<and> phase_of p c = Suspended
     \<and> resume_stop vm c (eng w) = Some st
     \<and> hparams w arg = Some \<lparr>hp_connection = Some k, hp_context = c, hp_emalloc = True\<rparr>
     \<and> k \<in> conns w \<and> c \<in> live_bufs w \<and> tmpData (cx c (eng w)) = Some tmp"

text \<open>Switching to the coroutine and writing its buffer leaves the engine as it is; switching again does nothing.\<close>

lemma checkout_twice:
  assumes inv: "engine_inv own tab p s" and c: "c \<in> set (busy_ctxs p)" and sus: "phase_of p c = Suspended"
  shows "\<exists>u. checkout_coroutine_context (Some c) s = Some u \<and> ctxs u = ctxs s
     \<and> ctx_read (Some c) u = Some (cx c s)
     \<and> (\<exists>t. ctx_write (\<lambda>x. x\<lparr>tmpData := v\<rparr>) (Some c) u = Some t \<and> engine_inv own tab p t
          \<and> cx c t = (cx c s)\<lparr>tmpData := v\<rparr> \<and> resume_stop vm c t = resume_stop vm c s
          \<and> requests (wk t) = requests (wk s) \<and> checkout_coroutine_context (Some c) t = Some t)"
proof -
  note I = engine_invD [OF inv]
  obtain n where n: "ctxs s c = Some n" using c I(2) by blast
  then have cn: "cx c s = n" by (simp add: cx_def)
  have hm: "tsrm_tls_table (ts s) = Some tab" "0 \<le> ctx_thread_id n" "nat (ctx_thread_id n) < length tab"
    "tab ! nat (ctx_thread_id n) = Some (own c)" using I(3) n by (auto simp: homes_def)
  let ?ts = "(ts s)\<lparr>force_thread_id := ctx_thread_id n, tls := Some (own c)\<rparr>"
  let ?u = "s\<lparr>ts := ?ts\<rparr>"
  let ?t = "set_C c (\<lambda>x. x\<lparr>tmpData := v\<rparr>) ?u"
  have u: "checkout_coroutine_context (Some c) s = Some ?u"
    using enter_coroutine_any [OF hm(1,2)] hm(3,4) n by (simp add: checkout_coroutine_context_def ctx_read_def)
  obtain u' where "checkout_coroutine_context (Some c) s = Some u'" "act c (own c) s u'" using checkout_run [OF inv c] by blast
  then have act: "act c (own c) s ?u" using u by simp
  have act2: "act c (own c) s ?t" by (rule act_set_C [OF act]) simp_all
  have cxt: "cx c ?t = n\<lparr>tmpData := v\<rparr>" using n by (simp add: set_C_def cx_def)
  have "phase_ok own Suspended s c" using I(7) [OF c] sus by simp
  then have ph: "phase_ok own Suspended ?t c" using cn cxt
    by (simp add: phase_ok_def connected_def waiting_def susp_def set_C_def)
  have ex: "\<not> eg_exception (globals ?t (own c))" using I(6) n by (auto simp: set_C_def)
  have "engine_inv own tab (move c Suspended p) ?t"
    by (rule engine_inv_keep [OF inv c act2 ex]) (use sus ph in auto)
  moreover have "move c Suspended p = p" using sus by (cases p) auto
  ultimately have it: "engine_inv own tab p ?t" by simp
  have "ctxs ?t c = Some (n\<lparr>tmpData := v\<rparr>)" using n by (simp add: set_C_def cx_def)
  moreover have "tsrm_tls_table (ts ?t) = Some tab" using hm(1) by (simp add: set_C_def)
  ultimately have "checkout_coroutine_context (Some c) ?t = Some (?t\<lparr>ts := (ts ?t)\<lparr>force_thread_id := ctx_thread_id n, tls := Some (own c)\<rparr>\<rparr>)"
    using enter_coroutine_any [of "ts ?t" tab "ctx_thread_id n"] hm(2-4) by (simp add: checkout_coroutine_context_def ctx_read_def)
  moreover have "?t\<lparr>ts := (ts ?t)\<lparr>force_thread_id := ctx_thread_id n, tls := Some (own c)\<rparr>\<rparr> = ?t" by (simp add: set_C_def)
  ultimately have ct: "checkout_coroutine_context (Some c) ?t = Some ?t" by simp
  have "resume_stop vm c ?t = resume_stop vm c s" using cn cxt by (simp add: resume_stop_def set_C_def)
  moreover have "ctx_write (\<lambda>x. x\<lparr>tmpData := v\<rparr>) (Some c) ?u = Some ?t" using act_ctx_write [OF act] .
  moreover have "ctx_read (Some c) ?u = Some n" using n by (simp add: ctx_read_def)
  moreover have "requests (wk ?t) = requests (wk s)" by (simp add: set_C_def)
  ultimately show ?thesis using u it ct cn cxt
    by (intro exI [of _ ?u] conjI exI [of _ ?t]) simp_all
qed

lemma ctx_write_same:
  assumes "ctx_read (Some c) u = Some x" and "f x = x"
  shows "ctx_write f (Some c) u = Some u"
proof -
  have x: "ctxs u c = Some x" using assms(1) by (auto simp: ctx_read_def deref_def split: option.splits)
  then have "(ctxs u)(c \<mapsto> f x) = ctxs u" using assms(2) by (simp add: fun_upd_idem)
  then show ?thesis using x by (simp add: ctx_write_def)
qed

lemma chunk_run:
  assumes C: "calling own tab p vm st arg c k tmp w" and len: "length tmp < TMP_SIZE"
  shows "(if length tmp + length (kept_bytes input) < TMP_SIZE
          then \<exists>v. ReadChunkCallback input arg w = Some v \<and> calling own tab p vm st arg c k (tmp @ kept_bytes input) v
            \<and> requests (wk (eng v)) = requests (wk (eng w)) \<and> old_cwd (cx c (eng v)) = old_cwd (cx c (eng w))
          else ReadChunkCallback input arg w = None)"
proof -
  note c = C [unfolded calling_def]
  let ?n = "tmp @ kept_bytes input"
  obtain u t where u: "checkout_coroutine_context (Some c) (eng w) = Some u" "ctxs u = ctxs (eng w)"
    "ctx_read (Some c) u = Some (cx c (eng w))" "ctx_write (\<lambda>x. x\<lparr>tmpData := Some ?n\<rparr>) (Some c) u = Some t"
    "engine_inv own tab p t" "cx c t = (cx c (eng w))\<lparr>tmpData := Some ?n\<rparr>" "resume_stop vm c t = resume_stop vm c (eng w)"
    "requests (wk t) = requests (wk (eng w))"
    using checkout_twice [of own tab p "eng w" c "Some ?n" vm] c by blast
  show ?thesis
  proof (cases "input = []")
    case True
    have "ctx_write (\<lambda>x. x\<lparr>tmpData := Some ?n\<rparr>) (Some c) u = Some u"
      using True c by (intro ctx_write_same [OF u(3)]) simp
    then have "u = t" using u(4) by simp
    then show ?thesis using True u c len by (simp add: ReadChunkCallback_def enter_callback_def calling_def)
  next
    case False
    then have "ReadChunkCallback input arg w = Option.bind (append_input input tmp) (\<lambda>tmp. write_tmp c (Some tmp) (w\<lparr>eng := u\<rparr>))"
      using c u(1,3) by (simp add: ReadChunkCallback_def enter_callback_def read_tmp_def)
    then show ?thesis using append_input_run [OF len] u(4-8) c
      by (simp add: write_tmp_def calling_def)
  qed
qed

text \<open>The callbacks for one body, a piece at a time.\<close>

fun read_chunks :: "string list \<Rightarrow> nat \<Rightarrow> http_world \<Rightarrow> http_world option" where
  "read_chunks [] arg w = Some w"
| "read_chunks (ch # chs) arg w = Option.bind (ReadChunkCallback ch arg w) (read_chunks chs arg)"

text \<open>What of a body reaches the buffer.\<close>

definition kept :: "string list \<Rightarrow> string" where
  "kept chs = concat (List.map kept_bytes chs)"

lemma no_nul_kept_all: "no_nul (kept chs)"
  using no_nul_kept by (auto simp: kept_def no_nul_def)

lemma kept_plain: "\<forall>ch \<in> set chs. no_nul ch \<Longrightarrow> kept chs = concat chs"
  by (induction chs) (simp_all add: kept_def kept_bytes_plain)

lemma body_pieces_run:
  assumes "calling own tab p vm st arg c k tmp w" and "length tmp < TMP_SIZE"
  shows "if length tmp + length (kept chs) < TMP_SIZE
    then \<exists>v. read_chunks chs arg w = Some v \<and> calling own tab p vm st arg c k (tmp @ kept chs) v
      \<and> requests (wk (eng v)) = requests (wk (eng w)) \<and> old_cwd (cx c (eng v)) = old_cwd (cx c (eng w))
    else read_chunks chs arg w = None"
  using assms
proof (induction chs arbitrary: tmp w)
  case Nil
  then show ?case by (simp add: kept_def)
next
  case (Cons ch chs)
  note one = chunk_run [OF Cons.prems, of ch]
  have k: "kept (ch # chs) = kept_bytes ch @ kept chs" by (simp add: kept_def)
  show ?case
  proof (cases "length tmp + length (kept_bytes ch) < TMP_SIZE")
    case True
    then obtain v where v: "ReadChunkCallback ch arg w = Some v" "calling own tab p vm st arg c k (tmp @ kept_bytes ch) v"
      "requests (wk (eng v)) = requests (wk (eng w))" "old_cwd (cx c (eng v)) = old_cwd (cx c (eng w))" using one by auto
    have "length (tmp @ kept_bytes ch) < TMP_SIZE" using True by simp
    from Cons.IH [OF v(2) this] show ?thesis using v(1,3,4) k by (simp add: add.assoc split: if_splits)
  next
    case False
    then show ?thesis using one k by simp
  qed
qed

lemma read_callback_run:
  assumes C: "calling own tab p vm st arg c k tmp w" and st: "st \<in> {Script_end, Remote_call}" and nn: "no_nul tmp"
  shows "if st = Script_end \<and> old_cwd (cx c (eng w)) = Cwd_dead then RemoteReadCallback vm arg w = None
    else \<exists>u. RemoteReadCallback vm arg w = Some u \<and> results u c = Some tmp \<and> hparams u arg = None \<and> k \<notin> conns u
    \<and> (if st = Script_end
       then engine_inv own tab (release c p) (eng u) \<and> requests (wk (eng u)) = requests (wk (eng w)) + 1
       else engine_inv own tab p (eng u) \<and> requests (wk (eng u)) = requests (wk (eng w)))"
proof -
  note c = C [unfolded calling_def]
  obtain u t where u: "checkout_coroutine_context (Some c) (eng w) = Some u"
    "ctx_read (Some c) u = Some (cx c (eng w))" "ctx_write (\<lambda>x. x\<lparr>tmpData := None\<rparr>) (Some c) u = Some t"
    "engine_inv own tab p t" "resume_stop vm c t = resume_stop vm c (eng w)"
    "requests (wk t) = requests (wk (eng w))" "checkout_coroutine_context (Some c) t = Some t"
    "cx c t = (cx c (eng w))\<lparr>tmpData := None\<rparr>"
    using checkout_twice [of own tab p "eng w" c None vm] c by blast
  have stop: "resume_stop vm c t = Some st" using u(5) c by simp
  have buf: "old_cwd (cx c t) = old_cwd (cx c (eng w))" using u(8) by simp
  have r: "resume_coroutine_context vm t = remote_answer vm (Some c) t" using u(7) by (simp add: remote_answer_def)
  let ?w = "w\<lparr>results := (results w)(c \<mapsto> tmp), live_bufs := live_bufs w - {c}, conns := conns w - {k},
      hparams := (hparams w)(arg := None), eng := t\<rparr>"
  have run: "RemoteReadCallback vm arg w = Option.bind (remote_answer vm (Some c) t) (\<lambda>x. Some (?w\<lparr>eng := x\<rparr>))"
    using c u(1-3) r by (simp add: RemoteReadCallback_def enter_callback_def read_tmp_def write_tmp_def free_request_def upto_nul_id [OF nn])
  show ?thesis
  proof (cases "st = Script_end \<and> old_cwd (cx c (eng w)) = Cwd_dead")
    case True
    then show ?thesis using run suspended_answer_dead [OF u(4), of c vm] c stop buf by simp
  next
    case False
    from suspended_answer_run [OF u(4) _ _ stop st] obtain x where
      x: "remote_answer vm (Some c) t = Some x"
      "if st = Script_end then engine_inv own tab (release c p) x \<and> requests (wk x) = requests (wk t) + 1
       else engine_inv own tab p x \<and> requests (wk x) = requests (wk t)"
      using c False buf by (auto split: if_splits)
    show ?thesis using run x u(6) False by simp
  qed
qed

section \<open>Properties\<close>

text \<open>
  C20. A remote answer, whatever pieces its body comes in: what is kept of it (of every slice of 1024 bytes
  those before its first null byte, so all of it when there is none) becomes the return value of the call,
  when it is shorter than the buffer; the call's connection and memory are released, and the engine makes
  the step of an answer: a script that ends is counted and its context given back, one that calls again
  stays suspended. Where the script ends and the buffer for its working directory was on the stack, the
  callback is undefined.
\<close>

theorem remote_body_returned:
  assumes "calling own tab p vm st arg c k [] w" and "st \<in> {Script_end, Remote_call}"
    and "length (kept chs) < TMP_SIZE"
  shows "\<exists>v. read_chunks chs arg w = Some v \<and> ((\<forall>ch \<in> set chs. no_nul ch) \<longrightarrow> kept chs = concat chs)
    \<and> (if st = Script_end \<and> old_cwd (cx c (eng w)) = Cwd_dead then RemoteReadCallback vm arg v = None
       else \<exists>u. RemoteReadCallback vm arg v = Some u
         \<and> results u c = Some (kept chs) \<and> hparams u arg = None \<and> k \<notin> conns u
         \<and> (if st = Script_end
            then engine_inv own tab (release c p) (eng u) \<and> requests (wk (eng u)) = requests (wk (eng w)) + 1
            else engine_inv own tab p (eng u) \<and> requests (wk (eng u)) = requests (wk (eng w))))"
proof -
  obtain v where v: "read_chunks chs arg w = Some v" "calling own tab p vm st arg c k (kept chs) v"
    "requests (wk (eng v)) = requests (wk (eng w))" "old_cwd (cx c (eng v)) = old_cwd (cx c (eng w))"
    using body_pieces_run [OF assms(1), of chs] assms(3) by (auto simp: TMP_SIZE_def)
  from read_callback_run [OF v(2) assms(2) no_nul_kept_all] show ?thesis
    unfolding v(3,4) using v(1) kept_plain by blast
qed

lemma calling_world:
  obtains own tab w where "calling own tab \<lparr>free_ctxs = [0], busy_ctxs = [1], phase_of = (\<lambda>_. Idle)(1 := Suspended)\<rparr>
    (calling_vm Script_end) Script_end 7 1 5 [] w" "frame_gone True (old_cwd (cx 1 (eng w)))"
proof -
  let ?p = "\<lparr>free_ctxs = [0], busy_ctxs = [1], phase_of = (\<lambda>_. Idle)(1 := Suspended)\<rparr>"
  obtain s own tab where s: "engine_inv own tab ?p s" "resume_stop (calling_vm Script_end) 1 s = Some Script_end"
    "frame_gone True (old_cwd (cx 1 s))" by (rule suspended_engine)
  obtain u t where "checkout_coroutine_context (Some 1) s = Some u" "engine_inv own tab ?p t"
    "cx 1 t = (cx 1 s)\<lparr>tmpData := Some []\<rparr>" "resume_stop (calling_vm Script_end) 1 t = resume_stop (calling_vm Script_end) 1 s"
    using checkout_twice [of own tab ?p s 1 "Some []" "calling_vm Script_end"] s(1) by auto
  then have "calling own tab ?p (calling_vm Script_end) Script_end 7 1 5 []
    \<lparr>eng = t, hparams = [7 \<mapsto> \<lparr>hp_connection = Some 5, hp_context = 1, hp_emalloc = True\<rparr>], live_bufs = {1}, conns = {5},
     next_hp = 8, results = Map.empty, requests_sent = []\<rparr>" "frame_gone True (old_cwd (cx 1 t))"
    using s(2,3) by (simp_all add: calling_def)
  from that [OF this(1)] this(2) show thesis by simp
qed

theorem remote_body_returned_witness:
  "\<exists>w v u. read_chunks [''Hello, '', ''world'' @ [CHR 0x00] @ ''!''] 7 w = Some v
     \<and> RemoteReadCallback (calling_vm Script_end) 7 v = Some u
     \<and> results u 1 = Some ''Hello, world'' \<and> requests (wk (eng u)) = requests (wk (eng w)) + 1"
proof -
  obtain own tab w where w: "calling own tab \<lparr>free_ctxs = [0], busy_ctxs = [1], phase_of = (\<lambda>_. Idle)(1 := Suspended)\<rparr>
    (calling_vm Script_end) Script_end 7 1 5 [] w" "frame_gone True (old_cwd (cx 1 (eng w)))" by (rule calling_world)
  let ?chs = "[''Hello, '', ''world'' @ [CHR 0x00] @ ''!'']"
  have k: "kept ?chs = ''Hello, world''"
    by (simp add: kept_def kept_bytes.simps upto_nul_def)
  have a: "Script_end \<in> {Script_end, Remote_call}" "length (kept ?chs) < TMP_SIZE" unfolding k
    by (simp_all add: TMP_SIZE_def)
  have "old_cwd (cx 1 (eng w)) \<noteq> Cwd_dead" using w(2) by (auto simp: frame_gone_def)
  with remote_body_returned [OF w(1) a] show ?thesis unfolding k by auto
qed

text \<open>
  C21. When 4096 bytes or more of a body are kept, it is written past the end of the buffer: the callback
  that appends the byte too many is undefined.
\<close>

theorem remote_body_overflows:
  assumes "calling own tab p vm st arg c k [] w" and "TMP_SIZE \<le> length (kept chs)"
  shows "read_chunks chs arg w = None"
  using body_pieces_run [OF assms(1), of chs] assms(2) by (simp add: TMP_SIZE_def)

theorem remote_body_overflows_witness:
  "\<exists>w. read_chunks [''a'', replicate 4095 CHR ''x''] 7 w = None \<and> read_chunks [''a'', replicate 4094 CHR ''x''] 7 w \<noteq> None"
proof -
  obtain own tab w where w: "calling own tab \<lparr>free_ctxs = [0], busy_ctxs = [1], phase_of = (\<lambda>_. Idle)(1 := Suspended)\<rparr>
    (calling_vm Script_end) Script_end 7 1 5 [] w" by (rule calling_world)
  have k: "kept [''a'', replicate n CHR ''x''] = ''a'' @ replicate n CHR ''x''" for n
    using kept_plain [of "[''a'', replicate n CHR ''x'']"] by (simp add: no_nul_def)
  have "read_chunks [''a'', replicate 4095 CHR ''x''] 7 w = None"
    by (rule remote_body_overflows [OF w]) (simp add: k TMP_SIZE_def)
  moreover have "read_chunks [''a'', replicate 4094 CHR ''x''] 7 w \<noteq> None"
    using body_pieces_run [OF w, of "[''a'', replicate 4094 CHR ''x'']"]
    by (simp add: k TMP_SIZE_def del: read_chunks.simps) blast
  ultimately show ?thesis by blast
qed

text \<open>
  C22. When the client of a suspended script goes away, the end of its request releases the memory of the
  call that is still out, and libevent keeps the pointer: the next callback of the call, for a piece of
  the body or for its end, reads released memory. Where the buffer for the working directory of the script
  was on the stack, the handler of the hang-up is undefined itself.
\<close>

theorem hang_up_frees_call:
  assumes "calling own tab p vm st arg c k tmp w" and "ctx_bev (cx c (eng w)) = Some b"
  shows "if old_cwd (cx c (eng w)) = Cwd_dead then client_hangs_up b c w = None
    else \<exists>v. client_hangs_up b c w = Some v \<and> ReadChunkCallback ch arg v = None
      \<and> RemoteReadCallback vm arg v = None"
proof (cases "old_cwd (cx c (eng w)) = Cwd_dead")
  case True
  then show ?thesis using assms(1) event_cb_dead [of own tab p "eng w" c "Some b"]
    by (simp add: calling_def client_hangs_up_def)
next
  case False
  note c = assms(1) [unfolded calling_def]
  obtain t where t: "event_cb (Some b) (Some c) (eng w) = Some t"
    using event_cb_run [of own tab p "eng w" c b] c assms(2) False by blast
  let ?v = "release_request_memory c (w\<lparr>eng := t\<rparr>)"
  have "hparams ?v arg = None" using c by (simp add: release_request_memory_def)
  then have "client_hangs_up b c w = Some ?v \<and> ReadChunkCallback ch arg ?v = None \<and> RemoteReadCallback vm arg ?v = None"
    using t by (simp add: client_hangs_up_def ReadChunkCallback_def RemoteReadCallback_def enter_callback_def)
  then show ?thesis using False by auto
qed

theorem hang_up_frees_call_witness:
  "\<exists>w b v. client_hangs_up b 1 w = Some v \<and> ReadChunkCallback ''x'' 7 v = None"
proof -
  obtain own tab w where w: "calling own tab \<lparr>free_ctxs = [0], busy_ctxs = [1], phase_of = (\<lambda>_. Idle)(1 := Suspended)\<rparr>
    (calling_vm Script_end) Script_end 7 1 5 [] w" "frame_gone True (old_cwd (cx 1 (eng w)))" by (rule calling_world)
  then have "engine_inv own tab \<lparr>free_ctxs = [0], busy_ctxs = [1], phase_of = (\<lambda>_. Idle)(1 := Suspended)\<rparr> (eng w)"
    by (simp add: calling_def)
  from engine_invD(7) [OF this, of 1] obtain b where b: "ctx_bev (cx 1 (eng w)) = Some b"
    by (auto simp: phase_ok_def connected_def)
  have "old_cwd (cx 1 (eng w)) \<noteq> Cwd_dead" using w(2) by (auto simp: frame_gone_def)
  with hang_up_frees_call [OF w(1) b, where ch = "''x''"] show ?thesis by auto
qed

text \<open>
  The answer of a call made with \<open>ce_http_get\<close> is undefined: the connection that its callback frees was
  never set, whatever the server sends.
\<close>

theorem ce_http_answer_undefined:
  assumes "ce_http_get arg parse w = Some (Yields, v)" and "hparams u (next_hp w) = hparams v (next_hp w)"
  shows "readcb vm input (next_hp w) u = None"
proof -
  have "\<exists>c. hparams v (next_hp w) = Some \<lparr>hp_connection = None, hp_context = c, hp_emalloc = False\<rparr>"
    using assms(1) by (auto simp: ce_http_get_def new_param_def Let_def split: bind_splits option.splits if_splits)
  then obtain c where c: "hparams u (next_hp w) = Some \<lparr>hp_connection = None, hp_context = c, hp_emalloc = False\<rparr>"
    using assms(2) by auto
  then show ?thesis
    by (auto simp: readcb_def enter_callback_def free_request_def split: bind_splits)
qed

definition script_engine :: engine where
  "script_engine = blank_engine\<lparr>ts := empty_tsrm\<lparr>tls := Some 0\<rparr>, ctxs := [0 \<mapsto> blank_context],
     globals := (\<lambda>_. blank_globals\<lparr>sg_context := Some 0, current_execute_data := Some 1\<rparr>),
     frames := [1 \<mapsto> \<lparr>opline = 0, prev_frame = NULL, func = NULL, frame_owner = 0\<rparr>]\<rparr>"

definition script_world :: http_world where
  "script_world = \<lparr>eng = script_engine, hparams = Map.empty, live_bufs = {}, conns = {}, next_hp = 7,
     results = Map.empty, requests_sent = []\<rparr>"

lemma script_engine_simps:
  "G_read script_engine = Some (blank_globals\<lparr>sg_context := Some 0, current_execute_data := Some 1\<rparr>)"
  "ctx_read (Some 0) script_engine = Some blank_context" "\<exists>s. yield_coroutine_context script_engine = Some s"
  by (simp_all add: script_engine_def G_read_def ctx_read_def ctx_write_def upd_at_def deref_def
      yield_coroutine_context_def blank_engine_def)

lemma script_world_yields:
  "\<exists>v. ce_http_get (Some ''http://h/a'') (\<lambda>_. Some \<lparr>u_host = Some ''h'', u_port = -1, u_path = Some ''/a''\<rparr>) script_world
     = Some (Yields, v)"
  using script_engine_simps(3) by (auto simp: ce_http_get_def new_param_def script_world_def script_engine_simps(1,2))

theorem ce_http_answer_undefined_witness:
  "\<exists>w v. ce_http_get (Some ''http://h/a'') (\<lambda>_. Some \<lparr>u_host = Some ''h'', u_port = -1, u_path = Some ''/a''\<rparr>) w = Some (Yields, v)
     \<and> readcb (calling_vm Script_end) ''ok'' (next_hp w) v = None"
  using script_world_yields ce_http_answer_undefined [OF _ refl] by blast

end
