(* ===== verification/Zend_Sort.thy ===== *)
theory Zend_Sort
  imports Prelude "HOL-Library.Multiset"
begin

text \<open>
  The hybrid sort of the Zend engine (Zend/zend_sort.c): sorting networks for up to five elements,
  insertion with a search in steps of two for up to sixteen, a quicksort above. The array is a list, an
  element is its index, and a comparison or a swap outside of the array is \<open>None\<close>, as is a pointer that
  leaves the array at its low end. \<open>cmp\<close> is the comparison function, of which the code looks at the sign.
\<close>

section \<open>Comparing and swapping elements\<close>

definition gt_at :: "('a \<Rightarrow> 'a \<Rightarrow> int) \<Rightarrow> nat \<Rightarrow> nat \<Rightarrow> 'a list \<Rightarrow> bool option" where
  "gt_at cmp a b xs = (if a < length xs \<and> b < length xs then Some (0 < cmp (xs ! a) (xs ! b)) else None)"

definition swp :: "nat \<Rightarrow> nat \<Rightarrow> 'a list \<Rightarrow> 'a list option" where
  "swp a b xs = (if a < length xs \<and> b < length xs then Some (xs[a := xs ! b, b := xs ! a]) else None)"

section \<open>Sorting networks\<close>

definition zend_sort_2 :: "('a \<Rightarrow> 'a \<Rightarrow> int) \<Rightarrow> nat \<Rightarrow> nat \<Rightarrow> 'a list \<Rightarrow> 'a list option" where
  "zend_sort_2 cmp a b xs = do {
     g \<leftarrow> gt_at cmp a b xs;
     if g then swp a b xs else Some xs
   }"

definition zend_sort_3 :: "('a \<Rightarrow> 'a \<Rightarrow> int) \<Rightarrow> nat \<Rightarrow> nat \<Rightarrow> nat \<Rightarrow> 'a list \<Rightarrow> 'a list option" where
  "zend_sort_3 cmp a b c xs = do {
     g \<leftarrow> gt_at cmp a b xs;
     if \<not> g then do {
       g \<leftarrow> gt_at cmp b c xs;
       if \<not> g then Some xs
       else do {
         xs \<leftarrow> swp b c xs;
         g \<leftarrow> gt_at cmp a b xs;
         if g then swp a b xs else Some xs
       }
     }
     else do {
       g \<leftarrow> gt_at cmp c b xs;
       if \<not> g then swp a c xs
       else do {
         xs \<leftarrow> swp a b xs;
         g \<leftarrow> gt_at cmp b c xs;
         if g then swp b c xs else Some xs
       }
     }
   }"

definition zend_sort_4 :: "('a \<Rightarrow> 'a \<Rightarrow> int) \<Rightarrow> nat \<Rightarrow> nat \<Rightarrow> nat \<Rightarrow> nat \<Rightarrow> 'a list \<Rightarrow> 'a list option" where
  "zend_sort_4 cmp a b c d xs = do {
     xs \<leftarrow> zend_sort_3 cmp a b c xs;
     g \<leftarrow> gt_at cmp c d xs;
     if g then do {
       xs \<leftarrow> swp c d xs;
       g \<leftarrow> gt_at cmp b c xs;
       if g then do {
         xs \<leftarrow> swp b c xs;
         g \<leftarrow> gt_at cmp a b xs;
         if g then swp a b xs else Some xs
       }
       else Some xs
     }
     else Some xs
   }"

definition zend_sort_5 :: "('a \<Rightarrow> 'a \<Rightarrow> int) \<Rightarrow> nat \<Rightarrow> nat \<Rightarrow> nat \<Rightarrow> nat \<Rightarrow> nat \<Rightarrow> 'a list \<Rightarrow> 'a list option" where
  "zend_sort_5 cmp a b c d e xs = do {
     xs \<leftarrow> zend_sort_4 cmp a b c d xs;
     g \<leftarrow> gt_at cmp d e xs;
     if g then do {
       xs \<leftarrow> swp d e xs;
       g \<leftarrow> gt_at cmp c d xs;
       if g then do {
         xs \<leftarrow> swp c d xs;
         g \<leftarrow> gt_at cmp b c xs;
         if g then do {
           xs \<leftarrow> swp b c xs;
           g \<leftarrow> gt_at cmp a b xs;
           if g then swp a b xs else Some xs
         }
         else Some xs
       }
       else Some xs
     }
     else Some xs
   }"

section \<open>Insertion\<close>

text \<open>The swaps that bring the element at \<open>k\<close> down to \<open>j\<close>.\<close>

function sift_down :: "nat \<Rightarrow> nat \<Rightarrow> 'a list \<Rightarrow> 'a list option" where
  "sift_down k j xs = (if j < k then Option.bind (swp k (k - 1) xs) (sift_down (k - 1) j) else Some xs)"
  by pat_completeness auto
termination
  by (relation "measure fst") auto

text \<open>The place of the element at \<open>i\<close>, for the first six elements and for the others.\<close>

function linear_place :: "('a \<Rightarrow> 'a \<Rightarrow> int) \<Rightarrow> nat \<Rightarrow> nat \<Rightarrow> nat \<Rightarrow> 'a list \<Rightarrow> nat option" where
  "linear_place cmp start i j xs =
     (if j = start then Some j
      else if j = 0 then None
      else Option.bind (gt_at cmp (j - 1) i xs) (\<lambda>g. if \<not> g then Some j else linear_place cmp start i (j - 1) xs))"
  by pat_completeness auto
termination
  by (relation "measure (\<lambda>(_, _, _, j, _). j)") auto

function jump_place :: "('a \<Rightarrow> 'a \<Rightarrow> int) \<Rightarrow> nat \<Rightarrow> nat \<Rightarrow> nat \<Rightarrow> 'a list \<Rightarrow> nat option" where
  "jump_place cmp start i j xs =
     (if j < 2 then None
      else Option.bind (gt_at cmp (j - 2) i xs) (\<lambda>g.
        if \<not> g then Option.bind (gt_at cmp (j - 1) i xs) (\<lambda>g. Some (if \<not> g then j else j - 1))
        else if j - 2 = start then Some (j - 2)
        else if j - 2 = start + 1 then Option.bind (gt_at cmp i (j - 3) xs) (\<lambda>g. Some (if g then j - 2 else j - 3))
        else jump_place cmp start i (j - 2) xs))"
  by pat_completeness auto
termination
  by (relation "measure (\<lambda>(_, _, _, j, _). j)") auto

declare sift_down.simps [simp del] linear_place.simps [simp del] jump_place.simps [simp del]

text \<open>One round of the two loops; \<open>i\<close> is above \<open>start\<close>.\<close>

definition insert_at :: "(nat \<Rightarrow> nat \<Rightarrow> 'a list \<Rightarrow> nat option) \<Rightarrow> ('a \<Rightarrow> 'a \<Rightarrow> int) \<Rightarrow> nat \<Rightarrow> 'a list \<Rightarrow> 'a list option" where
  "insert_at place cmp i xs = do {
     g \<leftarrow> gt_at cmp (i - 1) i xs;
     if \<not> g then Some xs
     else do {
       j \<leftarrow> place i (i - 1) xs;
       sift_down i j xs
     }
   }"

definition zend_insert_sort :: "('a \<Rightarrow> 'a \<Rightarrow> int) \<Rightarrow> nat \<Rightarrow> nat \<Rightarrow> 'a list \<Rightarrow> 'a list option" where
  "zend_insert_sort cmp base nmemb xs =
     (if nmemb \<le> 1 then Some xs
      else if nmemb = 2 then zend_sort_2 cmp base (base + 1) xs
      else if nmemb = 3 then zend_sort_3 cmp base (base + 1) (base + 2) xs
      else if nmemb = 4 then zend_sort_4 cmp base (base + 1) (base + 2) (base + 3) xs
      else if nmemb = 5 then zend_sort_5 cmp base (base + 1) (base + 2) (base + 3) (base + 4) xs
      else do {
        xs \<leftarrow> for_each (insert_at (linear_place cmp base) cmp) [base + 1..<base + 6] xs;
        for_each (insert_at (jump_place cmp base) cmp) [base + 6..<base + nmemb] xs
      })"

section \<open>Partitioning\<close>

text \<open>The two inner loops; the flag is the jump to \<open>done\<close>.\<close>

function scan_up :: "('a \<Rightarrow> 'a \<Rightarrow> int) \<Rightarrow> nat \<Rightarrow> nat \<Rightarrow> nat \<Rightarrow> 'a list \<Rightarrow> (nat \<times> bool) option" where
  "scan_up cmp pivot i j xs = Option.bind (gt_at cmp pivot i xs) (\<lambda>g.
     if \<not> g then Some (i, False)
     else if i + 1 = j then Some (i + 1, True)
     else scan_up cmp pivot (i + 1) j xs)"
  by pat_completeness auto
termination
  by (relation "measure (\<lambda>(_, _, i, _, xs). length xs - i)") (auto simp: gt_at_def split: if_splits)

function scan_down :: "('a \<Rightarrow> 'a \<Rightarrow> int) \<Rightarrow> nat \<Rightarrow> nat \<Rightarrow> nat \<Rightarrow> 'a list \<Rightarrow> (nat \<times> bool) option" where
  "scan_down cmp pivot i j xs = Option.bind (gt_at cmp j pivot xs) (\<lambda>g.
     if \<not> g then Some (j, False)
     else if j = 0 then None
     else if j - 1 = i then Some (j - 1, True)
     else scan_down cmp pivot i (j - 1) xs)"
  by pat_completeness auto
termination
  by (relation "measure (\<lambda>(_, _, _, j, _). j)") auto

declare scan_up.simps [simp del] scan_down.simps [simp del]

lemma scan_down_le: "scan_down cmp pivot i j xs = Some (k, d) \<Longrightarrow> k \<le> j"
proof (induction cmp pivot i j xs rule: scan_down.induct)
  case (1 cmp pivot i j xs)
  from "1.prems" show ?case
    by (subst (asm) scan_down.simps) (auto split: bind_splits if_splits dest: "1.IH")
qed

function partition_loop :: "('a \<Rightarrow> 'a \<Rightarrow> int) \<Rightarrow> nat \<Rightarrow> nat \<Rightarrow> nat \<Rightarrow> 'a list \<Rightarrow> (nat \<times> 'a list) option" where
  "partition_loop cmp pivot i j xs = Option.bind (scan_up cmp pivot i j xs) (\<lambda>(i, stop).
     if stop then Some (i, xs)
     else if j = 0 then None
     else if j - 1 = i then Some (i, xs)
     else Option.bind (scan_down cmp pivot i (j - 1) xs) (\<lambda>(k, stop).
       if stop then Some (i, xs)
       else Option.bind (swp i k xs) (\<lambda>xs.
         if i + 1 = k then Some (i + 1, xs) else partition_loop cmp pivot (i + 1) k xs)))"
  by pat_completeness auto
termination
  by (relation "measure (\<lambda>(_, _, _, j, _). j)") (auto dest: scan_down_le)

declare partition_loop.simps [simp del]

text \<open>The choice of the pivot, which is then the second element, and the partition around it.\<close>

definition choose_pivot :: "('a \<Rightarrow> 'a \<Rightarrow> int) \<Rightarrow> nat \<Rightarrow> nat \<Rightarrow> 'a list \<Rightarrow> 'a list option" where
  "choose_pivot cmp start nmemb xs = do {
     let offset = nmemb div 2;
     let pivot = start + offset;
     let last = start + nmemb - 1;
     xs \<leftarrow> (if nmemb div 1024 \<noteq> 0
            then zend_sort_5 cmp start (start + offset div 2) pivot (pivot + offset div 2) last xs
            else zend_sort_3 cmp start pivot last xs);
     swp (start + 1) pivot xs
   }"

definition partition_at :: "('a \<Rightarrow> 'a \<Rightarrow> int) \<Rightarrow> nat \<Rightarrow> nat \<Rightarrow> 'a list \<Rightarrow> (nat \<times> 'a list) option" where
  "partition_at cmp start nmemb xs = do {
     xs \<leftarrow> choose_pivot cmp start nmemb xs;
     (i, xs) \<leftarrow> partition_loop cmp (start + 1) (start + 2) (start + nmemb - 1) xs;
     xs \<leftarrow> swp (start + 1) (i - 1) xs;
     Some (i, xs)
   }"

text \<open>The smaller part is sorted by a recursive call, the other by the next round.\<close>

partial_function (option) zend_sort :: "('a \<Rightarrow> 'a \<Rightarrow> int) \<Rightarrow> nat \<Rightarrow> nat \<Rightarrow> 'a list \<Rightarrow> 'a list option" where
  "zend_sort cmp base nmemb xs =
     (if nmemb \<le> 16 then zend_insert_sort cmp base nmemb xs
      else Option.bind (partition_at cmp base nmemb xs) (\<lambda>(i, xs).
        if (i - 1) - base < base + nmemb - i
        then Option.bind (zend_sort cmp base (i - base - 1) xs) (zend_sort cmp i (base + nmemb - i))
        else Option.bind (zend_sort cmp i (base + nmemb - i) xs) (zend_sort cmp base (i - base - 1))))"

end
