(* ===== verification/Zend_Llist.thy ===== *)
theory Zend_Llist
  imports Zend_Sort "HOL-Library.Word"
begin

text \<open>
  The doubly linked lists of the Zend engine (Zend/zend_llist.c). The elements live in a heap; \<open>pefree\<close>
  takes an element out of it and the destructor is noted in \<open>destroyed\<close>. The data of an element is a value
  of type \<open>'a\<close>, so \<open>size\<close> and \<open>persistent\<close> are left out. A loop along the links that touches a pointer
  without an element, or that never ends, is \<open>None\<close>.
\<close>

section \<open>Lists and elements\<close>

record 'a zend_llist_element =
  el_next :: ptr
  el_prev :: ptr
  el_data :: 'a

record zend_llist =
  l_head :: ptr
  l_tail :: ptr
  l_count :: "64 word"
  l_dtor :: bool
  traverse_ptr :: ptr

record 'a lheap =
  elems :: "nat \<rightharpoonup> 'a zend_llist_element"
  next_elem :: nat
  destroyed :: "'a list"

type_synonym 'a llist_state = "zend_llist \<times> 'a lheap"

definition el_read :: "ptr \<Rightarrow> 'a lheap \<Rightarrow> 'a zend_llist_element option" where
  "el_read p h = map_option snd (deref (elems h) p)"

definition el_write :: "('a zend_llist_element \<Rightarrow> 'a zend_llist_element) \<Rightarrow> ptr \<Rightarrow> 'a lheap \<Rightarrow> 'a lheap option" where
  "el_write f p h = map_option (\<lambda>e. h\<lparr>elems := e\<rparr>) (upd_at f p (elems h))"

text \<open>\<open>pemalloc\<close> and \<open>memcpy\<close> of the data; \<open>pefree\<close>; the call of the destructor.\<close>

definition el_new :: "ptr \<Rightarrow> ptr \<Rightarrow> 'a \<Rightarrow> 'a lheap \<Rightarrow> ptr \<times> 'a lheap" where
  "el_new nx pv x h = (Some (next_elem h),
     h\<lparr>elems := (elems h)(next_elem h \<mapsto> \<lparr>el_next = nx, el_prev = pv, el_data = x\<rparr>), next_elem := Suc (next_elem h)\<rparr>)"

definition el_free :: "ptr \<Rightarrow> 'a lheap \<Rightarrow> 'a lheap option" where
  "el_free p h = map_option (\<lambda>(a, _). h\<lparr>elems := (elems h)(a := None)\<rparr>) (deref (elems h) p)"

definition call_dtor :: "zend_llist \<Rightarrow> 'a \<Rightarrow> 'a lheap \<Rightarrow> 'a lheap" where
  "call_dtor l x h = (if l_dtor l then h\<lparr>destroyed := destroyed h @ [x]\<rparr> else h)"

definition zend_llist_init :: "bool \<Rightarrow> zend_llist \<Rightarrow> zend_llist" where
  "zend_llist_init dtor l = l\<lparr>l_head := NULL, l_tail := NULL, l_count := 0, l_dtor := dtor\<rparr>"

section \<open>Adding and removing\<close>

definition zend_llist_add_element :: "'a \<Rightarrow> 'a llist_state \<Rightarrow> 'a llist_state option" where
  "zend_llist_add_element x = (\<lambda>(l, h). do {
     let (tmp, h) = el_new NULL (l_tail l) x h;
     (l, h) \<leftarrow> (if l_tail l \<noteq> NULL
                then map_option (Pair l) (el_write (\<lambda>e. e\<lparr>el_next := tmp\<rparr>) (l_tail l) h)
                else Some (l\<lparr>l_head := tmp\<rparr>, h));
     Some (l\<lparr>l_tail := tmp, l_count := l_count l + 1\<rparr>, h)
   })"

definition zend_llist_prepend_element :: "'a \<Rightarrow> 'a llist_state \<Rightarrow> 'a llist_state option" where
  "zend_llist_prepend_element x = (\<lambda>(l, h). do {
     let (tmp, h) = el_new (l_head l) NULL x h;
     (l, h) \<leftarrow> (if l_head l \<noteq> NULL
                then map_option (Pair l) (el_write (\<lambda>e. e\<lparr>el_prev := tmp\<rparr>) (l_head l) h)
                else Some (l\<lparr>l_tail := tmp\<rparr>, h));
     Some (l\<lparr>l_head := tmp, l_count := l_count l + 1\<rparr>, h)
   })"

text \<open>The links around the element \<open>p\<close> are closed; the macro then destroys and frees it.\<close>

definition unlink_element :: "ptr \<Rightarrow> 'a llist_state \<Rightarrow> 'a llist_state option" where
  "unlink_element p = (\<lambda>(l, h). do {
     e \<leftarrow> el_read p h;
     (l, h) \<leftarrow> (if el_prev e \<noteq> NULL
                then map_option (Pair l) (el_write (\<lambda>c. c\<lparr>el_next := el_next e\<rparr>) (el_prev e) h)
                else Some (l\<lparr>l_head := el_next e\<rparr>, h));
     e \<leftarrow> el_read p h;
     if el_next e \<noteq> NULL
     then map_option (Pair l) (el_write (\<lambda>c. c\<lparr>el_prev := el_prev e\<rparr>) (el_next e) h)
     else Some (l\<lparr>l_tail := el_prev e\<rparr>, h)
   })"

definition DEL_LLIST_ELEMENT :: "ptr \<Rightarrow> 'a llist_state \<Rightarrow> 'a llist_state option" where
  "DEL_LLIST_ELEMENT p s = do {
     (l, h) \<leftarrow> unlink_element p s;
     e \<leftarrow> el_read p h;
     h \<leftarrow> el_free p (call_dtor l (el_data e) h);
     Some (l\<lparr>l_count := l_count l - 1\<rparr>, h)
   }"

partial_function (option) del_element_loop :: "('a \<Rightarrow> bool) \<Rightarrow> ptr \<Rightarrow> 'a llist_state \<Rightarrow> 'a llist_state option" where
  "del_element_loop found current s =
     (if current = NULL then Some s
      else Option.bind (el_read current (snd s)) (\<lambda>e.
        if found (el_data e) then DEL_LLIST_ELEMENT current s else del_element_loop found (el_next e) s))"

definition zend_llist_del_element :: "('a \<Rightarrow> bool) \<Rightarrow> 'a llist_state \<Rightarrow> 'a llist_state option" where
  "zend_llist_del_element found s = del_element_loop found (l_head (fst s)) s"

partial_function (option) destroy_loop :: "zend_llist \<Rightarrow> ptr \<Rightarrow> 'a lheap \<Rightarrow> 'a lheap option" where
  "destroy_loop l current h =
     (if current = NULL then Some h
      else Option.bind (el_read current h) (\<lambda>e.
        Option.bind (el_free current (call_dtor l (el_data e) h)) (destroy_loop l (el_next e))))"

definition zend_llist_destroy :: "'a llist_state \<Rightarrow> 'a llist_state option" where
  "zend_llist_destroy = (\<lambda>(l, h). map_option (Pair (l\<lparr>l_count := 0\<rparr>)) (destroy_loop l (l_head l) h))"

definition zend_llist_clean :: "'a llist_state \<Rightarrow> 'a llist_state option" where
  "zend_llist_clean s = do {
     (l, h) \<leftarrow> zend_llist_destroy s;
     Some (l\<lparr>l_head := NULL, l_tail := NULL\<rparr>, h)
   }"

definition zend_llist_remove_tail :: "'a llist_state \<Rightarrow> 'a llist_state option" where
  "zend_llist_remove_tail = (\<lambda>(l, h).
     let old_tail = l_tail l
     in if old_tail = NULL then Some (l, h)
        else do {
          e \<leftarrow> el_read old_tail h;
          (l, h) \<leftarrow> (if el_prev e \<noteq> NULL
                     then map_option (Pair l) (el_write (\<lambda>c. c\<lparr>el_next := NULL\<rparr>) (el_prev e) h)
                     else Some (l\<lparr>l_head := NULL\<rparr>, h));
          e \<leftarrow> el_read old_tail h;
          let l = l\<lparr>l_tail := el_prev e, l_count := l_count l - 1\<rparr>;
          h \<leftarrow> el_free old_tail (call_dtor l (el_data e) h);
          Some (l, h)
        })"

section \<open>Copying, applying, walking\<close>

partial_function (option) copy_loop :: "ptr \<Rightarrow> 'a llist_state \<Rightarrow> 'a llist_state option" where
  "copy_loop p s =
     (if p = NULL then Some s
      else Option.bind (el_read p (snd s)) (\<lambda>e.
        Option.bind (zend_llist_add_element (el_data e) s) (copy_loop (el_next e))))"

text \<open>\<open>dst\<close> is what the other list held before.\<close>

definition zend_llist_copy :: "zend_llist \<Rightarrow> 'a llist_state \<Rightarrow> 'a llist_state option" where
  "zend_llist_copy dst = (\<lambda>(src, h). copy_loop (l_head src) (zend_llist_init (l_dtor src) dst, h))"

partial_function (option) apply_with_del_loop :: "('a \<Rightarrow> bool) \<Rightarrow> ptr \<Rightarrow> 'a llist_state \<Rightarrow> 'a llist_state option" where
  "apply_with_del_loop func element s =
     (if element = NULL then Some s
      else Option.bind (el_read element (snd s)) (\<lambda>e.
        Option.bind (if func (el_data e) then DEL_LLIST_ELEMENT element s else Some s)
          (apply_with_del_loop func (el_next e))))"

definition zend_llist_apply_with_del :: "('a \<Rightarrow> bool) \<Rightarrow> 'a llist_state \<Rightarrow> 'a llist_state option" where
  "zend_llist_apply_with_del func s = apply_with_del_loop func (l_head (fst s)) s"

text \<open>\<open>func\<close> gets the data by address and may change it; \<open>'s\<close> is the state it works on, its \<open>arg\<close>.\<close>

partial_function (option) apply_loop :: "('a \<Rightarrow> 's \<Rightarrow> 'a \<times> 's) \<Rightarrow> ptr \<Rightarrow> 'a lheap \<Rightarrow> 's \<Rightarrow> ('a lheap \<times> 's) option" where
  "apply_loop func element h arg =
     (if element = NULL then Some (h, arg)
      else Option.bind (el_read element h) (\<lambda>e.
        Option.bind (el_write (\<lambda>c. c\<lparr>el_data := fst (func (el_data e) arg)\<rparr>) element h) (\<lambda>h.
          apply_loop func (el_next e) h (snd (func (el_data e) arg)))))"

definition zend_llist_apply_with_argument :: "('a \<Rightarrow> 's \<Rightarrow> 'a \<times> 's) \<Rightarrow> 's \<Rightarrow> 'a llist_state \<Rightarrow> ('a llist_state \<times> 's) option" where
  "zend_llist_apply_with_argument func arg = (\<lambda>(l, h).
     map_option (\<lambda>(h, arg). ((l, h), arg)) (apply_loop func (l_head l) h arg))"

definition zend_llist_apply :: "('a \<Rightarrow> 's \<Rightarrow> 'a \<times> 's) \<Rightarrow> 's \<Rightarrow> 'a llist_state \<Rightarrow> ('a llist_state \<times> 's) option" where
  "zend_llist_apply func arg = zend_llist_apply_with_argument func arg"

text \<open>With an argument list \<open>args\<close>: each call reads on where the call before it stopped.\<close>

definition zend_llist_apply_with_arguments ::
    "('a \<Rightarrow> nat \<Rightarrow> 's \<Rightarrow> 'a \<times> 's) \<Rightarrow> nat \<Rightarrow> 's \<Rightarrow> 'a llist_state \<Rightarrow> 'a llist_state option" where
  "zend_llist_apply_with_arguments func num_args args s =
     map_option fst (zend_llist_apply_with_argument (\<lambda>x. func x num_args) args s)"

text \<open>
  The functions that walk give the new position, which the caller or the field \<open>traverse_ptr\<close> keeps, and
  the data there, \<open>None\<close> behind the ends.
\<close>

definition data_at :: "ptr \<Rightarrow> 'a lheap \<Rightarrow> 'a option option" where
  "data_at p h = (if p = NULL then Some None else map_option (Some \<circ> el_data) (el_read p h))"

definition zend_llist_get_first_ex :: "'a llist_state \<Rightarrow> (ptr \<times> 'a option) option" where
  "zend_llist_get_first_ex = (\<lambda>(l, h). map_option (Pair (l_head l)) (data_at (l_head l) h))"

definition zend_llist_get_last_ex :: "'a llist_state \<Rightarrow> (ptr \<times> 'a option) option" where
  "zend_llist_get_last_ex = (\<lambda>(l, h). map_option (Pair (l_tail l)) (data_at (l_tail l) h))"

definition zend_llist_get_next_ex :: "ptr \<Rightarrow> 'a lheap \<Rightarrow> (ptr \<times> 'a option) option" where
  "zend_llist_get_next_ex current h =
     (if current = NULL then Some (NULL, None)
      else do { e \<leftarrow> el_read current h; map_option (Pair (el_next e)) (data_at (el_next e) h) })"

definition zend_llist_get_prev_ex :: "ptr \<Rightarrow> 'a lheap \<Rightarrow> (ptr \<times> 'a option) option" where
  "zend_llist_get_prev_ex current h =
     (if current = NULL then Some (NULL, None)
      else do { e \<leftarrow> el_read current h; map_option (Pair (el_prev e)) (data_at (el_prev e) h) })"

definition zend_llist_count :: "zend_llist \<Rightarrow> 64 word" where
  "zend_llist_count l = l_count l"

section \<open>Sorting\<close>

text \<open>The array of the elements: as many as the links give, in a buffer for \<open>count\<close> of them.\<close>

partial_function (option) collect_elements :: "'a lheap \<Rightarrow> ptr \<Rightarrow> nat \<Rightarrow> nat list option" where
  "collect_elements h element room =
     (case element of None \<Rightarrow> Some []
      | Some a \<Rightarrow> if room = 0 then None
          else Option.bind (el_read element h) (\<lambda>e.
            Option.bind (collect_elements h (el_next e) (room - 1)) (\<lambda>as. Some (a # as))))"

text \<open>The comparison of two pointers to elements; they are in the heap, since the elements were collected.\<close>

definition compare_elements :: "('a \<Rightarrow> 'a \<Rightarrow> int) \<Rightarrow> 'a lheap \<Rightarrow> nat \<Rightarrow> nat \<Rightarrow> int" where
  "compare_elements cmp h a b = cmp (el_data (the (elems h a))) (el_data (the (elems h b)))"

fun link_elements :: "nat list \<Rightarrow> 'a lheap \<Rightarrow> 'a lheap option" where
  "link_elements (a # b # as) h = do {
     h \<leftarrow> el_write (\<lambda>e. e\<lparr>el_prev := Some a\<rparr>) (Some b) h;
     h \<leftarrow> el_write (\<lambda>e. e\<lparr>el_next := Some b\<rparr>) (Some a) h;
     link_elements (b # as) h
   }"
| "link_elements _ h = Some h"

definition zend_llist_sort :: "('a \<Rightarrow> 'a \<Rightarrow> int) \<Rightarrow> 'a llist_state \<Rightarrow> 'a llist_state option" where
  "zend_llist_sort cmp = (\<lambda>(l, h).
     if l_count l = 0 then Some (l, h)
     else do {
       xs \<leftarrow> collect_elements h (l_head l) (unat (l_count l));
       ys \<leftarrow> zend_sort (compare_elements cmp h) 0 (unat (l_count l)) xs;
       first \<leftarrow> nth_opt ys 0;
       h \<leftarrow> el_write (\<lambda>e. e\<lparr>el_prev := NULL\<rparr>) (Some first) h;
       h \<leftarrow> link_elements ys h;
       h \<leftarrow> el_write (\<lambda>e. e\<lparr>el_next := NULL\<rparr>) (Some (List.last ys)) h;
       Some (l\<lparr>l_head := Some first, l_tail := Some (List.last ys)\<rparr>, h)
     })"

end
