(* ===== verification/Zend_Sort_Lemmas.thy ===== *)
theory Zend_Sort_Lemmas
  imports Zend_Sort
begin

text \<open>
  The sort stays inside its array, ends, and only moves elements, whatever the comparison function says; and
  for a function that orders the elements (locale \<open>order_cmp\<close>) each part sorts.
\<close>

section \<open>Rearranging a part of an array\<close>

definition rearr :: "nat \<Rightarrow> nat \<Rightarrow> 'a list \<Rightarrow> 'a list \<Rightarrow> bool" where
  "rearr lo hi xs ys \<longleftrightarrow> length ys = length xs \<and> mset ys = mset xs
     \<and> (\<forall>k. k < lo \<or> hi \<le> k \<longrightarrow> k < length xs \<longrightarrow> ys ! k = xs ! k)"

definition runs :: "nat \<Rightarrow> nat \<Rightarrow> 'a list \<Rightarrow> 'a list option \<Rightarrow> bool" where
  "runs lo hi xs r \<longleftrightarrow> (\<exists>ys. r = Some ys \<and> rearr lo hi xs ys)"

lemma rearr_refl [simp]: "rearr lo hi xs xs"
  by (simp add: rearr_def)

lemma rearr_trans: "rearr lo hi xs ys \<Longrightarrow> rearr lo hi ys zs \<Longrightarrow> rearr lo hi xs zs"
  by (simp add: rearr_def)

lemma rearr_mono: "rearr lo hi xs ys \<Longrightarrow> lo' \<le> lo \<Longrightarrow> hi \<le> hi' \<Longrightarrow> rearr lo' hi' xs ys"
  by (auto simp: rearr_def)

lemma rearr_length: "rearr lo hi xs ys \<Longrightarrow> length ys = length xs"
  by (simp add: rearr_def)

lemma rearr_nth: "rearr lo hi xs ys \<Longrightarrow> k < lo \<or> hi \<le> k \<Longrightarrow> k < length xs \<Longrightarrow> ys ! k = xs ! k"
  by (auto simp: rearr_def)

text \<open>What holds of all elements of the part goes on to hold.\<close>

lemma rearr_seg:
  assumes "rearr lo hi xs ys" and "lo \<le> hi" and "hi \<le> length xs"
  shows "mset (map ((!) ys) [lo..<hi]) = mset (map ((!) xs) [lo..<hi])"
proof -
  have split: "mset zs = mset (map ((!) zs) [0..<lo]) + mset (map ((!) zs) [lo..<hi]) + mset (map ((!) zs) [hi..<length xs])"
    if "length zs = length xs" for zs :: "'a list"
  proof -
    have "[0..<length xs] = [0..<lo] @ [lo..<hi] @ [hi..<length xs]"
      using assms(2,3) upt_add_eq_append [of 0 lo "hi - lo"] upt_add_eq_append [of 0 hi "length xs - hi"] by simp
    then have "map ((!) zs) [0..<length zs] = map ((!) zs) [0..<lo] @ map ((!) zs) [lo..<hi] @ map ((!) zs) [hi..<length xs]"
      using that by simp
    then have "mset (map ((!) zs) [0..<length zs])
        = mset (map ((!) zs) [0..<lo]) + mset (map ((!) zs) [lo..<hi]) + mset (map ((!) zs) [hi..<length xs])"
      by (simp add: add.assoc)
    then show ?thesis by (simp only: map_nth)
  qed
  have outer: "map ((!) ys) [0..<lo] = map ((!) xs) [0..<lo]" "map ((!) ys) [hi..<length xs] = map ((!) xs) [hi..<length xs]"
    using assms by (auto intro!: map_cong rearr_nth [OF assms(1)])
  have "mset ys = mset xs" "length ys = length xs" using assms(1) by (simp_all add: rearr_def)
  then have "mset (map ((!) xs) [0..<lo]) + mset (map ((!) ys) [lo..<hi]) + mset (map ((!) xs) [hi..<length xs])
      = mset (map ((!) xs) [0..<lo]) + mset (map ((!) xs) [lo..<hi]) + mset (map ((!) xs) [hi..<length xs])"
    using split [of ys] split [of xs] unfolding outer by metis
  then show ?thesis by (simp only: add_right_cancel add_left_cancel)
qed

lemma rearr_all:
  assumes "rearr lo hi xs ys" and "lo \<le> hi" and "hi \<le> length xs" and "\<And>k. lo \<le> k \<Longrightarrow> k < hi \<Longrightarrow> P (xs ! k)"
    and k: "lo \<le> k" "k < hi"
  shows "P (ys ! k)"
proof -
  have "ys ! k \<in># mset (map ((!) ys) [lo..<hi])" using k by simp
  then have "ys ! k \<in># mset (map ((!) xs) [lo..<hi])" by (simp only: rearr_seg [OF assms(1-3)])
  then show ?thesis using assms(4) by auto
qed

lemma swp_eq: "a < length xs \<Longrightarrow> b < length xs \<Longrightarrow> swp a b xs = Some (xs[a := xs ! b, b := xs ! a])"
  by (simp add: swp_def)

lemma swp_rearr:
  "lo \<le> a \<Longrightarrow> a < hi \<Longrightarrow> lo \<le> b \<Longrightarrow> b < hi \<Longrightarrow> hi \<le> length xs \<Longrightarrow> rearr lo hi xs (xs[a := xs ! b, b := xs ! a])"
  by (auto simp: rearr_def mset_swap nth_list_update)

lemma gt_at_eq: "a < length xs \<Longrightarrow> b < length xs \<Longrightarrow> gt_at cmp a b xs = Some (0 < cmp (xs ! a) (xs ! b))"
  by (simp add: gt_at_def)

lemma runs_some [simp]: "runs lo hi xs (Some xs)"
  by (simp add: runs_def)

lemma runs_gt:
  assumes "a < length xs" and "b < length xs" and "\<And>g. runs lo hi xs (f g)"
  shows "runs lo hi xs (Option.bind (gt_at cmp a b xs) f)"
  using assms by (simp add: gt_at_eq)

lemma runs_bind:
  assumes "runs lo hi xs r" and "\<And>ys. rearr lo hi xs ys \<Longrightarrow> length ys = length xs \<Longrightarrow> runs lo hi ys (f ys)"
  shows "runs lo hi xs (Option.bind r f)"
proof -
  from assms(1) obtain ys where ys: "r = Some ys" "rearr lo hi xs ys" by (auto simp: runs_def)
  from assms(2) [OF ys(2) rearr_length [OF ys(2)]] obtain zs where "f ys = Some zs" "rearr lo hi ys zs" by (auto simp: runs_def)
  then show ?thesis using ys rearr_trans by (auto simp: runs_def)
qed

lemma runs_mono: "runs lo hi xs r \<Longrightarrow> lo' \<le> lo \<Longrightarrow> hi \<le> hi' \<Longrightarrow> runs lo' hi' xs r"
  by (auto simp: runs_def intro: rearr_mono)

lemma runs_swp:
  assumes "lo \<le> a" "a < hi" "lo \<le> b" "b < hi" "hi \<le> length xs"
  shows "runs lo hi xs (swp a b xs)"
  using assms by (auto simp: runs_def swp_eq swp_rearr)

lemma runs_if: "(g \<Longrightarrow> runs lo hi xs r) \<Longrightarrow> (\<not> g \<Longrightarrow> runs lo hi xs r') \<Longrightarrow> runs lo hi xs (if g then r else r')"
  by simp

lemmas network_intros = runs_gt runs_bind runs_swp runs_if runs_some

section \<open>The networks\<close>

lemma sort_2_runs:
  assumes "hi \<le> length xs" and "lo \<le> a" "a < hi" "lo \<le> b" "b < hi"
  shows "runs lo hi xs (zend_sort_2 cmp a b xs)"
  unfolding zend_sort_2_def
  by (intro network_intros) (use assms in simp_all)

lemma sort_3_runs:
  assumes "hi \<le> length xs" and "lo \<le> a" "a < hi" "lo \<le> b" "b < hi" "lo \<le> c" "c < hi"
  shows "runs lo hi xs (zend_sort_3 cmp a b c xs)"
  unfolding zend_sort_3_def
  by (intro network_intros) (use assms in simp_all)

lemma sort_4_runs:
  assumes "hi \<le> length xs" and "lo \<le> a" "a < hi" "lo \<le> b" "b < hi" "lo \<le> c" "c < hi" "lo \<le> d" "d < hi"
  shows "runs lo hi xs (zend_sort_4 cmp a b c d xs)"
  unfolding zend_sort_4_def
  by (intro network_intros sort_3_runs) (use assms in simp_all)

lemma sort_5_runs:
  assumes "hi \<le> length xs" and "lo \<le> a" "a < hi" "lo \<le> b" "b < hi" "lo \<le> c" "c < hi" "lo \<le> d" "d < hi" "lo \<le> e" "e < hi"
  shows "runs lo hi xs (zend_sort_5 cmp a b c d e xs)"
  unfolding zend_sort_5_def
  by (intro network_intros sort_4_runs) (use assms in simp_all)

section \<open>Insertion\<close>

lemma sift_down_run:
  assumes "j \<le> k" and "k < length xs"
  shows "\<exists>ys. sift_down k j xs = Some ys \<and> rearr j (Suc k) xs ys \<and> ys ! j = xs ! k
    \<and> (\<forall>t. j < t \<and> t \<le> k \<longrightarrow> ys ! t = xs ! (t - 1))"
  using assms
proof (induction k arbitrary: xs)
  case 0
  then show ?case by (simp add: sift_down.simps)
next
  case (Suc k)
  show ?case
  proof (cases "j = Suc k")
    case True
    then have "sift_down (Suc k) j xs = Some xs" by (subst sift_down.simps) simp
    then show ?thesis using True by (intro exI [of _ xs]) auto
  next
    case False
    let ?xs = "xs[Suc k := xs ! k, k := xs ! Suc k]"
    have le: "j \<le> k" "k < length ?xs" using False Suc.prems by simp_all
    from Suc.IH [OF this] obtain ys where ys: "sift_down k j ?xs = Some ys" "rearr j (Suc k) ?xs ys"
      "ys ! j = ?xs ! k" "\<forall>t. j < t \<and> t \<le> k \<longrightarrow> ys ! t = ?xs ! (t - 1)" by blast
    have run: "sift_down (Suc k) j xs = Some ys"
      using ys(1) le Suc.prems by (subst sift_down.simps) (simp add: swp_eq)
    have "rearr j (Suc (Suc k)) xs ?xs" using le Suc.prems by (intro swp_rearr) simp_all
    moreover have "rearr j (Suc (Suc k)) ?xs ys" by (rule rearr_mono [OF ys(2)]) simp_all
    ultimately have "rearr j (Suc (Suc k)) xs ys" by (rule rearr_trans)
    moreover have "ys ! j = xs ! Suc k" using ys(3) Suc.prems by simp
    moreover have "ys ! Suc k = xs ! k" using rearr_nth [OF ys(2), of "Suc k"] Suc.prems by simp
    then have "\<forall>t. j < t \<and> t \<le> Suc k \<longrightarrow> ys ! t = xs ! (t - 1)"
      using ys(4) Suc.prems by (auto simp: nth_list_update le_Suc_eq)
    ultimately show ?thesis using run by blast
  qed
qed

lemma linear_place_range:
  assumes "start \<le> j" and "j < length xs" and "i < length xs"
  shows "\<exists>p. linear_place cmp start i j xs = Some p \<and> start \<le> p \<and> p \<le> j"
  using assms
proof (induction j)
  case 0
  then show ?case by (simp add: linear_place.simps)
next
  case (Suc j)
  show ?case
  proof (cases "start = Suc j")
    case True
    then show ?thesis by (simp add: linear_place.simps)
  next
    case False
    then have "\<exists>p. linear_place cmp start i j xs = Some p \<and> start \<le> p \<and> p \<le> j" using Suc by simp
    then show ?thesis using False Suc.prems by (subst linear_place.simps) (auto simp: gt_at_eq)
  qed
qed

lemma jump_place_range:
  assumes "start + 2 \<le> j" and "j < length xs" and "i < length xs"
  shows "\<exists>p. jump_place cmp start i j xs = Some p \<and> start \<le> p \<and> p \<le> j"
  using assms
proof (induction j rule: less_induct)
  case (less j)
  show ?case
  proof (cases "start + 4 \<le> j")
    case True
    then have "\<exists>p. jump_place cmp start i (j - 2) xs = Some p \<and> start \<le> p \<and> p \<le> j - 2"
      using less by (intro less.IH) simp_all
    then show ?thesis using True less.prems by (subst jump_place.simps) (auto simp: gt_at_eq)
  next
    case False
    then have "j - 2 = start \<or> j - 2 = start + 1" using less.prems by auto
    then show ?thesis using less.prems by (subst jump_place.simps) (auto simp: gt_at_eq)
  qed
qed

lemma insert_at_runs:
  assumes "start < i" and "i < hi" and "hi \<le> length xs"
    and "\<exists>p. place i (i - 1) xs = Some p \<and> start \<le> p \<and> p \<le> i - 1"
  shows "runs start hi xs (insert_at place cmp i xs)"
proof -
  obtain p where p: "place i (i - 1) xs = Some p" "start \<le> p" "p \<le> i - 1" using assms(4) by blast
  then have "p \<le> i" "i < length xs" using assms by linarith+
  from sift_down_run [OF this] obtain ys where "sift_down i p xs = Some ys" "rearr p (Suc i) xs ys" by blast
  then have "runs start hi xs (sift_down i p xs)" using p(2) assms(2) by (auto simp: runs_def intro: rearr_mono)
  then show ?thesis using p(1) assms by (simp add: insert_at_def gt_at_eq)
qed

lemma runs_for_each:
  assumes "\<And>i ys. i \<in> set is \<Longrightarrow> length ys = length xs \<Longrightarrow> runs lo hi ys (f i ys)"
  shows "runs lo hi xs (for_each f is xs)"
  using assms
proof (induction "is" arbitrary: xs)
  case Nil
  then show ?case by simp
next
  case (Cons i js)
  have "runs lo hi xs (f i xs)" using Cons.prems by simp
  then show ?case using Cons.prems by (auto intro!: runs_bind Cons.IH)
qed

lemma insert_sort_runs:
  assumes "base + nmemb \<le> length xs"
  shows "runs base (base + nmemb) xs (zend_insert_sort cmp base nmemb xs)"
proof -
  have small: ?thesis if "nmemb \<le> 1 \<or> nmemb = 2 \<or> nmemb = 3 \<or> nmemb = 4 \<or> nmemb = 5"
    using that assms by (auto simp: zend_insert_sort_def intro!: sort_2_runs sort_3_runs sort_4_runs sort_5_runs)
  have first: "runs base (base + nmemb) ys (insert_at (linear_place cmp base) cmp i ys)"
    if "i \<in> set [base + 1..<base + 6]" "length ys = length xs" "5 < nmemb" for i ys
    using that assms by (intro insert_at_runs linear_place_range) auto
  have rest: "runs base (base + nmemb) ys (insert_at (jump_place cmp base) cmp i ys)"
    if "i \<in> set [base + 6..<base + nmemb]" "length ys = length xs" for i ys
    using that assms by (intro insert_at_runs jump_place_range) auto
  have big: "runs base (base + nmemb) xs (for_each (insert_at (linear_place cmp base) cmp) [base + 1..<base + 6] xs \<bind>
      for_each (insert_at (jump_place cmp base) cmp) [base + 6..<base + nmemb])" if "5 < nmemb"
    by (rule runs_bind, rule runs_for_each, rule first) (use that in \<open>auto intro!: runs_for_each rest simp del: set_upt\<close>)
  show ?thesis
  proof (cases "5 < nmemb")
    case True
    then have "zend_insert_sort cmp base nmemb xs = (for_each (insert_at (linear_place cmp base) cmp) [base + 1..<base + 6] xs \<bind>
      for_each (insert_at (jump_place cmp base) cmp) [base + 6..<base + nmemb])" by (simp add: zend_insert_sort_def)
    then show ?thesis using big [OF True] by simp
  next
    case False
    then show ?thesis by (intro small) auto
  qed
qed

section \<open>Partitioning\<close>

lemma scan_up_range:
  assumes "i < j" and "j \<le> length xs" and "pivot < length xs"
  shows "\<exists>k d. scan_up cmp pivot i j xs = Some (k, d) \<and> i \<le> k \<and> (if d then k = j else k < j)
    \<and> (\<forall>t. i \<le> t \<and> t < k \<longrightarrow> 0 < cmp (xs ! pivot) (xs ! t)) \<and> (\<not> d \<longrightarrow> \<not> 0 < cmp (xs ! pivot) (xs ! k))"
  using assms
proof (induction "j - i" arbitrary: i)
  case 0
  then show ?case by simp
next
  case (Suc n)
  consider "\<not> 0 < cmp (xs ! pivot) (xs ! i)" | "0 < cmp (xs ! pivot) (xs ! i)" "i + 1 = j"
    | "0 < cmp (xs ! pivot) (xs ! i)" "i + 1 < j" using Suc.prems by linarith
  then show ?case
  proof cases
    case 1
    then show ?thesis using Suc.prems by (subst scan_up.simps) (auto simp: gt_at_eq)
  next
    case 2
    then have "scan_up cmp pivot i j xs = Some (j, True)" using Suc.prems by (subst scan_up.simps) (simp add: gt_at_eq)
    moreover have "0 < cmp (xs ! pivot) (xs ! t)" if "i \<le> t \<and> t < j" for t
    proof -
      have "t = i" using that 2(2) by linarith
      then show ?thesis using 2(1) by simp
    qed
    ultimately show ?thesis using 2 Suc.prems by (intro exI [of _ j] exI [of _ True]) auto
  next
    case 3
    then obtain k d where kd: "scan_up cmp pivot (i + 1) j xs = Some (k, d)" "i + 1 \<le> k" "if d then k = j else k < j"
      "\<forall>t. i + 1 \<le> t \<and> t < k \<longrightarrow> 0 < cmp (xs ! pivot) (xs ! t)" "\<not> d \<longrightarrow> \<not> 0 < cmp (xs ! pivot) (xs ! k)"
    proof -
      have "n = j - (i + 1)" using Suc.hyps(2) by simp
      from Suc.hyps(1) [OF this 3(2) Suc.prems(2,3)] show thesis using that by blast
    qed
    have run: "scan_up cmp pivot i j xs = Some (k, d)" using 3 Suc.prems kd(1) by (subst scan_up.simps) (simp add: gt_at_eq)
    have "\<forall>t. i \<le> t \<and> t < k \<longrightarrow> 0 < cmp (xs ! pivot) (xs ! t)"
    proof (intro allI impI)
      fix t assume "i \<le> t \<and> t < k"
      then show "0 < cmp (xs ! pivot) (xs ! t)" using 3(1) kd(4) by (cases "t = i") auto
    qed
    then show ?thesis using run kd by auto
  qed
qed

lemma scan_down_range:
  assumes "i < j" and "j < length xs" and "pivot < length xs"
  shows "\<exists>k d. scan_down cmp pivot i j xs = Some (k, d) \<and> k \<le> j \<and> (if d then k = i else i < k)
    \<and> (\<forall>t. k < t \<and> t \<le> j \<longrightarrow> 0 < cmp (xs ! t) (xs ! pivot)) \<and> (\<not> d \<longrightarrow> \<not> 0 < cmp (xs ! k) (xs ! pivot))"
  using assms
proof (induction j)
  case 0
  then show ?case by simp
next
  case (Suc j)
  consider "\<not> 0 < cmp (xs ! Suc j) (xs ! pivot)" | "0 < cmp (xs ! Suc j) (xs ! pivot)" "i = j"
    | "0 < cmp (xs ! Suc j) (xs ! pivot)" "i < j" using Suc.prems by linarith
  then show ?case
  proof cases
    case 1
    then show ?thesis using Suc.prems by (subst scan_down.simps) (auto simp: gt_at_eq)
  next
    case 2
    then have "scan_down cmp pivot i (Suc j) xs = Some (j, True)" using Suc.prems by (subst scan_down.simps) (simp add: gt_at_eq)
    moreover have "0 < cmp (xs ! t) (xs ! pivot)" if "j < t \<and> t \<le> Suc j" for t
    proof -
      have "t = Suc j" using that by linarith
      then show ?thesis using 2(1) by simp
    qed
    ultimately show ?thesis using 2 Suc.prems by (intro exI [of _ j] exI [of _ True]) auto
  next
    case 3
    then obtain k d where kd: "scan_down cmp pivot i j xs = Some (k, d)" "k \<le> j" "if d then k = i else i < k"
      "\<forall>t. k < t \<and> t \<le> j \<longrightarrow> 0 < cmp (xs ! t) (xs ! pivot)" "\<not> d \<longrightarrow> \<not> 0 < cmp (xs ! k) (xs ! pivot)"
      using Suc.IH Suc.prems by auto
    have run: "scan_down cmp pivot i (Suc j) xs = Some (k, d)" using 3 Suc.prems kd(1) by (subst scan_down.simps) (simp add: gt_at_eq)
    have "\<forall>t. k < t \<and> t \<le> Suc j \<longrightarrow> 0 < cmp (xs ! t) (xs ! pivot)" using 3(1) kd(4) by (auto simp: le_Suc_eq)
    then show ?thesis using run kd by auto
  qed
qed

definition low_of :: "('a \<Rightarrow> 'a \<Rightarrow> int) \<Rightarrow> 'a \<Rightarrow> 'a \<Rightarrow> bool" where
  "low_of cmp piv x \<longleftrightarrow> 0 < cmp piv x \<or> \<not> 0 < cmp x piv"

definition high_of :: "('a \<Rightarrow> 'a \<Rightarrow> int) \<Rightarrow> 'a \<Rightarrow> 'a \<Rightarrow> bool" where
  "high_of cmp piv x \<longleftrightarrow> \<not> 0 < cmp piv x \<or> 0 < cmp x piv"

definition parted :: "('a \<Rightarrow> 'a \<Rightarrow> int) \<Rightarrow> 'a \<Rightarrow> nat \<Rightarrow> nat \<Rightarrow> nat \<Rightarrow> 'a list \<Rightarrow> bool" where
  "parted cmp piv lo k hi ys \<longleftrightarrow>
     (\<forall>t. lo \<le> t \<and> t < k \<longrightarrow> low_of cmp piv (ys ! t)) \<and> (\<forall>t. k \<le> t \<and> t < hi \<longrightarrow> high_of cmp piv (ys ! t))"

text \<open>One round of the outer loop: it ends, or swaps two elements and goes on between them.\<close>

lemma partition_round:
  assumes "pivot < i" and "i < j" and "j < length xs"
  obtains
    (stop) k where "partition_loop cmp pivot i j xs = Some (k, xs)" "i \<le> k" "k \<le> j" "parted cmp (xs ! pivot) i k j xs"
  | (swap) k m where "i \<le> k" "k < m" "m < j"
      "partition_loop cmp pivot i j xs = (let ys = xs[k := xs ! m, m := xs ! k]
         in if k + 1 = m then Some (m, ys) else partition_loop cmp pivot (k + 1) m ys)"
      "\<forall>t. i \<le> t \<and> t \<le> k \<longrightarrow> low_of cmp (xs ! pivot) (xs[k := xs ! m, m := xs ! k] ! t)"
      "\<forall>t. m \<le> t \<and> t < j \<longrightarrow> high_of cmp (xs ! pivot) (xs[k := xs ! m, m := xs ! k] ! t)"
proof -
  let ?p = "xs ! pivot"
  have piv: "pivot < length xs" "j \<le> length xs" using assms by simp_all
  obtain k d where up: "scan_up cmp pivot i j xs = Some (k, d)" "i \<le> k" "if d then k = j else k < j"
    "\<forall>t. i \<le> t \<and> t < k \<longrightarrow> 0 < cmp ?p (xs ! t)" "\<not> d \<longrightarrow> \<not> 0 < cmp ?p (xs ! k)"
    using scan_up_range [OF assms(2) piv(2,1), of cmp] by blast
  have low: "\<forall>t. i \<le> t \<and> t < k \<longrightarrow> low_of cmp ?p (xs ! t)" using up(4) by (simp add: low_of_def)
  show thesis
  proof (cases "d \<or> j - 1 = k")
    case True
    have "partition_loop cmp pivot i j xs = Some (k, xs)" using True up(1) assms by (subst partition_loop.simps) auto
    moreover have "high_of cmp ?p (xs ! t)" if "k \<le> t" "t < j" for t
    proof -
      have "\<not> d" "t = k" using True that up(3) by (auto split: if_splits)
      then show ?thesis using up(5) by (simp add: high_of_def)
    qed
    moreover have "k \<le> j" using up(3) by (auto split: if_splits)
    ultimately show ?thesis using up(2) low by (intro stop) (auto simp: parted_def)
  next
    case False
    then have k: "\<not> d" "k < j - 1" "j - 1 < length xs" "\<not> 0 < cmp ?p (xs ! k)" using up(3,5) assms by auto
    obtain m e where dn: "scan_down cmp pivot k (j - 1) xs = Some (m, e)" "m \<le> j - 1" "if e then m = k else k < m"
      "\<forall>t. m < t \<and> t \<le> j - 1 \<longrightarrow> 0 < cmp (xs ! t) ?p" "\<not> e \<longrightarrow> \<not> 0 < cmp (xs ! m) ?p"
      using scan_down_range [OF k(2,3) piv(1), of cmp] by blast
    have high: "\<forall>t. m < t \<and> t < j \<longrightarrow> high_of cmp ?p (xs ! t)" using dn(4) by (auto simp: high_of_def)
    have hk: "high_of cmp ?p (xs ! k)" using k(4) by (simp add: high_of_def)
    have run: "partition_loop cmp pivot i j xs = (if e then Some (k, xs) else Option.bind (swp k m xs)
        (\<lambda>xs. if k + 1 = m then Some (k + 1, xs) else partition_loop cmp pivot (k + 1) m xs))"
      using up(1) k(1,2) dn(1) assms(2) by (subst partition_loop.simps) auto
    show ?thesis
    proof (cases e)
      case True
      then have "\<forall>t. k \<le> t \<and> t < j \<longrightarrow> high_of cmp ?p (xs ! t)" using high hk dn(3) by (metis le_neq_implies_less)
      then show ?thesis using True run up(2) k(2) low by (intro stop) (auto simp: parted_def)
    next
      case e: False
      then have m: "k < m" "m < j" "m < length xs" "low_of cmp ?p (xs ! m)"
        using dn k(2,3) by (auto simp: low_of_def)
      have "low_of cmp ?p (xs[k := xs ! m, m := xs ! k] ! t)" if "i \<le> t" "t \<le> k" for t
        using that low m by (cases "t = k") auto
      moreover have "high_of cmp ?p (xs[k := xs ! m, m := xs ! k] ! t)" if "m \<le> t" "t < j" for t
        using that high hk m by (cases "t = m") auto
      ultimately show ?thesis using e run m up(2) by (intro swap) (auto simp: swp_eq Let_def)
    qed
  qed
qed

lemma partition_loop_run:
  assumes "pivot < i" and "i < j" and "j < length xs"
  shows "\<exists>k ys. partition_loop cmp pivot i j xs = Some (k, ys) \<and> i \<le> k \<and> k \<le> j \<and> rearr i j xs ys
    \<and> parted cmp (xs ! pivot) i k j ys"
  using assms
proof (induction j arbitrary: i xs rule: less_induct)
  case (less j)
  from less.prems show ?case
  proof (cases rule: partition_round [where cmp = cmp])
    case (stop k)
    then show ?thesis by auto
  next
    case (swap k m)
    let ?ys = "xs[k := xs ! m, m := xs ! k]"
    have sw: "rearr i j xs ?ys" using swap(1-3) less.prems by (intro swp_rearr) simp_all
    have p: "?ys ! pivot = xs ! pivot" using swap(1-3) less.prems by simp
    show ?thesis
    proof (cases "k + 1 = m")
      case True
      then have "partition_loop cmp pivot i j xs = Some (m, ?ys)" using swap(4) by (simp add: Let_def)
      moreover have "parted cmp (xs ! pivot) i m j ?ys" using swap(5,6) True by (auto simp: parted_def less_Suc_eq_le)
      ultimately show ?thesis using sw swap(1-3) by auto
    next
      case False
      then have "k + 1 < m" "pivot < k + 1" "m < length ?ys" using swap(1-3) less.prems by simp_all
      then obtain q ys where q: "partition_loop cmp pivot (k + 1) m ?ys = Some (q, ys)" "k + 1 \<le> q" "q \<le> m"
        "rearr (k + 1) m ?ys ys" "parted cmp (?ys ! pivot) (k + 1) q m ys"
        using less.IH [OF swap(3), of "k + 1" ?ys] by blast
      have run: "partition_loop cmp pivot i j xs = Some (q, ys)" using False swap(4) q(1) by (simp add: Let_def)
      have "rearr i j ?ys ys" by (rule rearr_mono [OF q(4)]) (use swap in simp_all)
      then have re: "rearr i j xs ys" using sw rearr_trans by blast
      have outer: "ys ! t = ?ys ! t" if "t < k + 1 \<or> m \<le> t" "t < length xs" for t using rearr_nth [OF q(4)] that by simp
      have "low_of cmp (xs ! pivot) (ys ! t)" if "i \<le> t" "t < q" for t
      proof (cases "t \<le> k")
        case True
        then show ?thesis using outer [of t] swap(1-3,5) less.prems that by simp
      next
        case False
        then show ?thesis using q(5) p that by (simp add: parted_def)
      qed
      moreover have "high_of cmp (xs ! pivot) (ys ! t)" if "q \<le> t" "t < j" for t
      proof (cases "m \<le> t")
        case True
        then show ?thesis using outer [of t] swap(6) less.prems that by simp
      next
        case False
        then show ?thesis using q(5) p that by (simp add: parted_def)
      qed
      ultimately have "parted cmp (xs ! pivot) i q j ys" by (simp add: parted_def)
      then show ?thesis using run re q(2,3) swap(1-3) by auto
    qed
  qed
qed

lemma choose_pivot_runs:
  assumes "16 < nmemb" and "start + nmemb \<le> length xs"
  shows "runs start (start + nmemb) xs (choose_pivot cmp start nmemb xs)"
  unfolding choose_pivot_def Let_def
  by (intro network_intros sort_3_runs sort_5_runs) (use assms in simp_all)

text \<open>The partition: the second element of the array that \<open>choose_pivot\<close> leaves goes to its place \<open>k - 1\<close>.\<close>

lemma partition_at_run:
  assumes n: "16 < nmemb" and len: "start + nmemb \<le> length xs"
  obtains zs k us ys where "choose_pivot cmp start nmemb xs = Some zs" "rearr start (start + nmemb) xs zs"
    "partition_loop cmp (start + 1) (start + 2) (start + nmemb - 1) zs = Some (k, us)"
    "rearr (start + 2) (start + nmemb - 1) zs us" "parted cmp (zs ! (start + 1)) (start + 2) k (start + nmemb - 1) us"
    "start + 2 \<le> k" "k \<le> start + nmemb - 1" "ys = us[start + 1 := us ! (k - 1), k - 1 := us ! (start + 1)]"
    "partition_at cmp start nmemb xs = Some (k, ys)" "rearr start (start + nmemb) xs ys"
proof -
  obtain zs where zs: "choose_pivot cmp start nmemb xs = Some zs" "rearr start (start + nmemb) xs zs"
    using choose_pivot_runs [OF n len, of cmp] by (auto simp: runs_def)
  have lz: "length zs = length xs" using zs(2) by (rule rearr_length)
  have "start + 1 < start + 2" "start + 2 < start + nmemb - 1" "start + nmemb - 1 < length zs" using n len lz by auto
  from partition_loop_run [OF this, of cmp] obtain k us where
    us: "partition_loop cmp (start + 1) (start + 2) (start + nmemb - 1) zs = Some (k, us)"
      "start + 2 \<le> k" "k \<le> start + nmemb - 1" "rearr (start + 2) (start + nmemb - 1) zs us"
      "parted cmp (zs ! (start + 1)) (start + 2) k (start + nmemb - 1) us" by blast
  have lu: "length us = length xs" using rearr_length [OF us(4)] lz by simp
  let ?ys = "us[start + 1 := us ! (k - 1), k - 1 := us ! (start + 1)]"
  have "swp (start + 1) (k - 1) us = Some ?ys" using us(2,3) n len lu by (intro swp_eq) auto
  then have run: "partition_at cmp start nmemb xs = Some (k, ?ys)" using zs(1) us(1) by (simp add: partition_at_def)
  have "rearr start (start + nmemb) zs us" by (rule rearr_mono [OF us(4)]) simp_all
  moreover have "rearr start (start + nmemb) us ?ys" using us(2,3) n len lu by (intro swp_rearr) auto
  ultimately have "rearr start (start + nmemb) xs ?ys" using zs(2) rearr_trans by blast
  then show thesis using that [OF zs us(1,4,5,2,3) refl run] by simp
qed

section \<open>The sort\<close>

text \<open>Both orders of the two recursive calls; the parts lie in the array and are smaller.\<close>

lemma zend_sort_step:
  assumes "16 < nmemb" and "partition_at cmp base nmemb xs = Some (k, ys)"
  shows "zend_sort cmp base nmemb xs = (if (k - 1) - base < base + nmemb - k
     then Option.bind (zend_sort cmp base (k - base - 1) ys) (zend_sort cmp k (base + nmemb - k))
     else Option.bind (zend_sort cmp k (base + nmemb - k) ys) (zend_sort cmp base (k - base - 1)))"
  using assms by (subst zend_sort.simps) simp

lemma zend_sort_runs:
  assumes "base + nmemb \<le> length xs"
  shows "runs base (base + nmemb) xs (zend_sort cmp base nmemb xs)"
  using assms
proof (induction nmemb arbitrary: base xs rule: less_induct)
  case (less nmemb)
  show ?case
  proof (cases "nmemb \<le> 16")
    case True
    then show ?thesis using insert_sort_runs [OF less.prems, of cmp] by (subst zend_sort.simps) simp
  next
    case False
    then have n: "16 < nmemb" by simp
    obtain k ys where k: "partition_at cmp base nmemb xs = Some (k, ys)" "base + 2 \<le> k" "k \<le> base + nmemb - 1"
      and ys: "rearr base (base + nmemb) xs ys" by (rule partition_at_run [OF n less.prems])
    have left: "runs base (base + nmemb) zs (zend_sort cmp base (k - base - 1) zs)" if "length zs = length xs" for zs
    proof -
      have "runs base (base + (k - base - 1)) zs (zend_sort cmp base (k - base - 1) zs)"
        using k n less.prems that by (intro less.IH) auto
      then show ?thesis by (rule runs_mono) (use k n in auto)
    qed
    have right: "runs base (base + nmemb) zs (zend_sort cmp k (base + nmemb - k) zs)" if "length zs = length xs" for zs
    proof -
      have "runs k (k + (base + nmemb - k)) zs (zend_sort cmp k (base + nmemb - k) zs)"
        using k n less.prems that by (intro less.IH) auto
      then show ?thesis by (rule runs_mono) (use k n in auto)
    qed
    have "runs base (base + nmemb) ys (zend_sort cmp base nmemb xs)"
      unfolding zend_sort_step [OF n k(1)] using rearr_length [OF ys] by (intro runs_if runs_bind left right) simp_all
    then show ?thesis using ys by (auto simp: runs_def intro: rearr_trans)
  qed
qed

section \<open>Comparison functions that order the elements\<close>

locale order_cmp =
  fixes cmp :: "'a \<Rightarrow> 'a \<Rightarrow> int"
  assumes asym: "0 < cmp x y \<Longrightarrow> \<not> 0 < cmp y x"
    and trans: "\<not> 0 < cmp x y \<Longrightarrow> \<not> 0 < cmp y z \<Longrightarrow> \<not> 0 < cmp x z"
begin

definition le :: "'a \<Rightarrow> 'a \<Rightarrow> bool" where
  "le x y \<longleftrightarrow> \<not> 0 < cmp x y"

definition ordered :: "nat \<Rightarrow> nat \<Rightarrow> 'a list \<Rightarrow> bool" where
  "ordered lo hi xs \<longleftrightarrow> (\<forall>k m. lo \<le> k \<and> k < m \<and> m < hi \<longrightarrow> le (xs ! k) (xs ! m))"

lemma le_refl: "le x x"
  using asym by (auto simp: le_def)

lemma le_trans: "le x y \<Longrightarrow> le y z \<Longrightarrow> le x z"
  unfolding le_def by (rule trans)

lemma gt_le: "0 < cmp x y \<Longrightarrow> le y x"
  unfolding le_def by (rule asym)

lemma low_le: "low_of cmp piv x \<Longrightarrow> le x piv"
  using gt_le by (auto simp: low_of_def le_def)

lemma high_le: "high_of cmp piv x \<Longrightarrow> le piv x"
  using gt_le by (auto simp: high_of_def le_def)

lemma sort_3_chain:
  assumes "zend_sort_3 cmp a b c xs = Some ys" and "distinct [a, b, c]" and "{a, b, c} \<subseteq> {..<length xs}"
  shows "le (ys ! a) (ys ! b) \<and> le (ys ! b) (ys ! c) \<and> length ys = length xs"
  using assms unfolding zend_sort_3_def
  by (auto simp: gt_at_eq swp_eq le_def nth_list_update split: if_splits dest: asym)

lemma sort_4_chain:
  assumes "zend_sort_4 cmp a b c d xs = Some ys" and "distinct [a, b, c, d]" and "{a, b, c, d} \<subseteq> {..<length xs}"
  shows "le (ys ! a) (ys ! b) \<and> le (ys ! b) (ys ! c) \<and> le (ys ! c) (ys ! d) \<and> length ys = length xs"
proof -
  obtain zs where zs: "zend_sort_3 cmp a b c xs = Some zs" using assms(1) by (auto simp: zend_sort_4_def split: bind_splits)
  have "distinct [a, b, c]" "{a, b, c} \<subseteq> {..<length xs}" using assms(2,3) by auto
  from sort_3_chain [OF zs this] have "le (zs ! a) (zs ! b)" "le (zs ! b) (zs ! c)" "length zs = length xs" by auto
  then show ?thesis using assms zs unfolding zend_sort_4_def
    by (auto simp: gt_at_eq swp_eq le_def nth_list_update split: if_splits dest: asym)
qed

lemma sort_5_chain:
  assumes "zend_sort_5 cmp a b c d e xs = Some ys" and "distinct [a, b, c, d, e]" and "{a, b, c, d, e} \<subseteq> {..<length xs}"
  shows "le (ys ! a) (ys ! b) \<and> le (ys ! b) (ys ! c) \<and> le (ys ! c) (ys ! d) \<and> le (ys ! d) (ys ! e)"
proof -
  obtain zs where zs: "zend_sort_4 cmp a b c d xs = Some zs" using assms(1) by (auto simp: zend_sort_5_def split: bind_splits)
  have "distinct [a, b, c, d]" "{a, b, c, d} \<subseteq> {..<length xs}" using assms(2,3) by auto
  from sort_4_chain [OF zs this] have "le (zs ! a) (zs ! b)" "le (zs ! b) (zs ! c)" "le (zs ! c) (zs ! d)" "length zs = length xs" by auto
  then show ?thesis using assms zs unfolding zend_sort_5_def
    by (auto simp: gt_at_eq swp_eq le_def nth_list_update split: if_splits dest: asym)
qed

text \<open>Neighbours in order are enough.\<close>

lemma ordered_adjacent:
  assumes "\<And>k. lo \<le> k \<Longrightarrow> k + 1 < hi \<Longrightarrow> le (xs ! k) (xs ! (k + 1))"
  shows "ordered lo hi xs"
proof -
  have "le (xs ! k) (xs ! m)" if "lo \<le> k" "k < m" "m < hi" for k m
    using that
  proof (induction m)
    case 0
    then show ?case by simp
  next
    case (Suc m)
    have step: "le (xs ! m) (xs ! Suc m)" using assms [of m] Suc.prems by simp
    show ?case
    proof (cases "k = m")
      case True
      then show ?thesis using step by simp
    next
      case False
      then have "le (xs ! k) (xs ! m)" using Suc by simp
      then show ?thesis using step le_trans by blast
    qed
  qed
  then show ?thesis by (simp add: ordered_def)
qed

lemma orderedD: "ordered lo hi xs \<Longrightarrow> lo \<le> k \<Longrightarrow> k \<le> m \<Longrightarrow> m < hi \<Longrightarrow> le (xs ! k) (xs ! m)"
  using le_refl by (cases "k = m") (auto simp: ordered_def)

lemma linear_place_ordered:
  assumes "linear_place cmp start i j xs = Some p" and "le (xs ! i) (xs ! j)"
  shows "le (xs ! i) (xs ! p) \<and> (start < p \<longrightarrow> le (xs ! (p - 1)) (xs ! i))"
  using assms
proof (induction j)
  case 0
  then show ?case by (auto simp: linear_place.simps split: if_splits)
next
  case (Suc j)
  show ?case
  proof (cases "start = Suc j")
    case True
    then have "p = Suc j" using Suc.prems(1) by (subst (asm) linear_place.simps) simp
    then show ?thesis using True Suc.prems(2) by simp
  next
    case False
    from Suc.prems(1) obtain g where g: "gt_at cmp j i xs = Some g" "if g then linear_place cmp start i j xs = Some p else p = Suc j"
      using False by (subst (asm) linear_place.simps) (auto split: bind_splits if_splits)
    then have gv: "g = (0 < cmp (xs ! j) (xs ! i))" by (auto simp: gt_at_def split: if_splits)
    show ?thesis
    proof (cases g)
      case True
      then show ?thesis using Suc.IH g(2) gv gt_le by simp
    next
      case False
      then show ?thesis using g(2) gv Suc.prems(2) by (simp add: le_def)
    qed
  qed
qed

lemma jump_place_ordered:
  assumes "start + 2 \<le> j" and "j < length xs" and "i < length xs" and "jump_place cmp start i j xs = Some p"
    and "le (xs ! i) (xs ! j)"
  shows "le (xs ! i) (xs ! p) \<and> (start < p \<longrightarrow> le (xs ! (p - 1)) (xs ! i))"
  using assms
proof (induction j rule: less_induct)
  case (less j)
  have run: "(if \<not> 0 < cmp (xs ! (j - 2)) (xs ! i) then (if \<not> 0 < cmp (xs ! (j - 1)) (xs ! i) then j else j - 1) = p
      else if j - 2 = start then p = j - 2
      else if j - 2 = start + 1 then (if 0 < cmp (xs ! i) (xs ! (j - 3)) then j - 2 else j - 3) = p
      else jump_place cmp start i (j - 2) xs = Some p)"
    using less.prems by (subst (asm) jump_place.simps) (auto simp: gt_at_eq split: if_splits)
  have before: "j - Suc 0 - Suc 0 = j - 2" "j - 2 - 1 = j - 3" by simp_all
  consider "\<not> 0 < cmp (xs ! (j - 2)) (xs ! i)" | "0 < cmp (xs ! (j - 2)) (xs ! i)" "j - 2 = start"
    | "0 < cmp (xs ! (j - 2)) (xs ! i)" "j - 2 = start + 1" | "0 < cmp (xs ! (j - 2)) (xs ! i)" "start + 4 \<le> j"
    using less.prems(1) by linarith
  then show ?case
  proof cases
    case 1
    then show ?thesis using run less.prems(5) gt_le before by (auto simp: le_def split: if_splits)
  next
    case 2
    then show ?thesis using run gt_le by auto
  next
    case 3
    then have "p = (if 0 < cmp (xs ! i) (xs ! (j - 3)) then j - 2 else j - 3)" "j - 3 = start" using run by auto
    then show ?thesis using 3 gt_le before(2) by (auto simp: le_def)
  next
    case 4
    then have "jump_place cmp start i (j - 2) xs = Some p" using run by (auto split: if_splits)
    moreover have "le (xs ! i) (xs ! (j - 2))" using 4(1) by (rule gt_le)
    ultimately show ?thesis using less.IH [of "j - 2"] 4(2) less.prems(2,3) by simp
  qed
qed

lemma sift_ordered:
  assumes ord: "ordered base i xs" and p: "base \<le> p" "p < i" and i: "i < length xs"
    and x: "le (xs ! i) (xs ! p)" "base < p \<longrightarrow> le (xs ! (p - 1)) (xs ! i)"
  shows "\<exists>ys. sift_down i p xs = Some ys \<and> length ys = length xs \<and> ordered base (i + 1) ys"
proof -
  obtain ys where ys: "sift_down i p xs = Some ys" "rearr p (Suc i) xs ys" "ys ! p = xs ! i"
    "\<forall>t. p < t \<and> t \<le> i \<longrightarrow> ys ! t = xs ! (t - 1)" using sift_down_run [of p i xs] p i by auto
  have below: "ys ! t = xs ! t" if "t < p" for t using rearr_nth [OF ys(2), of t] that p i by simp
  have "le (ys ! k) (ys ! (k + 1))" if k: "base \<le> k" "k + 1 < i + 1" for k
  proof -
    consider "k + 1 < p" | "k + 1 = p" | "k = p" | "p < k" by linarith
    then show ?thesis
    proof cases
      case 1
      then show ?thesis using below [of k] below [of "k + 1"] orderedD [OF ord k(1), of "k + 1"] p by simp
    next
      case 2
      then show ?thesis using below [of k] ys(3) x(2) k by auto
    next
      case 3
      then show ?thesis using ys(3,4) x(1) k by simp
    next
      case 4
      then have "ys ! k = xs ! (k - 1)" "ys ! (k + 1) = xs ! k" using ys(4) k by simp_all
      then show ?thesis using orderedD [OF ord, of "k - 1" k] 4 p k by simp
    qed
  qed
  then have "ordered base (i + 1) ys" by (rule ordered_adjacent)
  then show ?thesis using ys(1) rearr_length [OF ys(2)] by blast
qed

text \<open>One round of the insertion, for both ways to find the place.\<close>

lemma insert_at_ordered:
  assumes ord: "ordered base i xs" and i: "base < i" "i < length xs"
    and range: "\<exists>p. place i (i - 1) xs = Some p \<and> base \<le> p \<and> p \<le> i - 1"
    and place: "\<And>p. place i (i - 1) xs = Some p \<Longrightarrow> le (xs ! i) (xs ! (i - 1))
      \<Longrightarrow> le (xs ! i) (xs ! p) \<and> (base < p \<longrightarrow> le (xs ! (p - 1)) (xs ! i))"
  shows "\<exists>ys. insert_at place cmp i xs = Some ys \<and> length ys = length xs \<and> ordered base (i + 1) ys"
proof (cases "0 < cmp (xs ! (i - 1)) (xs ! i)")
  case False
  have "le (xs ! k) (xs ! (k + 1))" if "base \<le> k" "k + 1 < i + 1" for k
  proof (cases "k + 1 = i")
    case True
    then show ?thesis using False by (auto simp: le_def)
  next
    case False
    then show ?thesis using orderedD [OF ord, of k "k + 1"] that by simp
  qed
  then have "ordered base (i + 1) xs" by (rule ordered_adjacent)
  then show ?thesis using False i by (simp add: insert_at_def gt_at_eq)
next
  case True
  obtain p where p: "place i (i - 1) xs = Some p" "base \<le> p" "p \<le> i - 1" using range by blast
  have "le (xs ! i) (xs ! (i - 1))" using True by (rule gt_le)
  from place [OF p(1) this] have "\<exists>ys. sift_down i p xs = Some ys \<and> length ys = length xs \<and> ordered base (i + 1) ys"
    using p i by (intro sift_ordered [OF ord]) auto
  then show ?thesis using True p(1) i by (simp add: insert_at_def gt_at_eq)
qed

lemma insert_sort_ordered:
  assumes len: "base + nmemb \<le> length xs"
  shows "\<exists>ys. zend_insert_sort cmp base nmemb xs = Some ys \<and> ordered base (base + nmemb) ys"
proof (cases "5 < nmemb")
  case True
  have start: "length xs = length xs \<and> ordered base (base + 1) xs" by (auto simp: ordered_def)
  have first: "\<exists>t'. insert_at (linear_place cmp base) cmp k t = Some t' \<and> length t' = length xs \<and> ordered base (Suc k) t'"
    if k: "base + 1 \<le> k" "k < base + 6" "length t = length xs \<and> ordered base k t" for k t
    using insert_at_ordered [of base k t "linear_place cmp base"] linear_place_range [of base "k - 1" t k cmp]
      linear_place_ordered [of base k "k - 1" t] k True len by auto
  have "\<exists>t. for_each (insert_at (linear_place cmp base) cmp) [base + 1..<base + 6] xs = Some t
      \<and> length t = length xs \<and> ordered base (base + 6) t"
    by (rule for_each_upt [where P = "\<lambda>k t. length t = length xs \<and> ordered base k t", OF start]) (use first in auto)
  then obtain t where t: "for_each (insert_at (linear_place cmp base) cmp) [base + 1..<base + 6] xs = Some t"
    "length t = length xs \<and> ordered base (base + 6) t" by blast
  have rest: "\<exists>t'. insert_at (jump_place cmp base) cmp k t = Some t' \<and> length t' = length xs \<and> ordered base (Suc k) t'"
    if k: "base + 6 \<le> k" "k < base + nmemb" "length t = length xs \<and> ordered base k t" for k t
    using insert_at_ordered [of base k t "jump_place cmp base"] jump_place_range [of base "k - 1" t k cmp]
      jump_place_ordered [of base "k - 1" t k] k len by auto
  have "\<exists>u. for_each (insert_at (jump_place cmp base) cmp) [base + 6..<base + nmemb] t = Some u
      \<and> length u = length xs \<and> ordered base (base + nmemb) u"
    by (rule for_each_upt [where P = "\<lambda>k t. length t = length xs \<and> ordered base k t", OF t(2)]) (use rest True in auto)
  then show ?thesis using t(1) True by (auto simp: zend_insert_sort_def)
next
  case False
  obtain ys where ys: "zend_insert_sort cmp base nmemb xs = Some ys"
    using insert_sort_runs [OF len, of cmp] by (auto simp: runs_def)
  have "le (ys ! k) (ys ! (k + 1))" if k: "base \<le> k" "k + 1 < base + nmemb" for k
  proof -
    consider "nmemb = 2" | "nmemb = 3" | "nmemb = 4" | "nmemb = 5" using False k by linarith
    then show ?thesis
    proof cases
      case 1
      then have "zend_sort_2 cmp base (base + 1) xs = Some ys" "k = base" using ys k by (simp_all add: zend_insert_sort_def)
      then show ?thesis using 1 len asym
        by (auto simp: zend_sort_2_def gt_at_eq swp_eq le_def nth_list_update split: if_splits)
    next
      case 2
      then have "zend_sort_3 cmp base (base + 1) (base + 2) xs = Some ys" "k = base \<or> k = base + 1"
        using ys k by (auto simp: zend_insert_sort_def)
      then show ?thesis using sort_3_chain [of base "base + 1" "base + 2" xs ys] 2 len by auto
    next
      case 3
      then have "zend_sort_4 cmp base (base + 1) (base + 2) (base + 3) xs = Some ys" "k = base \<or> k = base + 1 \<or> k = base + 2"
        using ys k by (auto simp: zend_insert_sort_def)
      then show ?thesis using sort_4_chain [of base "base + 1" "base + 2" "base + 3" xs ys] 3 len
        by (auto simp: numeral_3_eq_3)
    next
      case 4
      then have "zend_sort_5 cmp base (base + 1) (base + 2) (base + 3) (base + 4) xs = Some ys"
        "k = base \<or> k = base + 1 \<or> k = base + 2 \<or> k = base + 3" using ys k by (auto simp: zend_insert_sort_def)
      then show ?thesis using sort_5_chain [of base "base + 1" "base + 2" "base + 3" "base + 4" xs ys] 4 len
        by (auto simp: eval_nat_numeral)
    qed
  qed
  then show ?thesis using ys ordered_adjacent by blast
qed

text \<open>The array around the pivot at \<open>m\<close>.\<close>

definition around :: "nat \<Rightarrow> nat \<Rightarrow> nat \<Rightarrow> 'a \<Rightarrow> 'a list \<Rightarrow> bool" where
  "around lo m hi piv xs \<longleftrightarrow> xs ! m = piv \<and> (\<forall>t. lo \<le> t \<and> t < m \<longrightarrow> le (xs ! t) piv) \<and> (\<forall>t. m < t \<and> t < hi \<longrightarrow> le piv (xs ! t))"

lemma choose_pivot_ordered:
  assumes n: "16 < nmemb" and len: "start + nmemb \<le> length xs" and run: "choose_pivot cmp start nmemb xs = Some zs"
  shows "le (zs ! start) (zs ! (start + 1)) \<and> le (zs ! (start + 1)) (zs ! (start + nmemb - 1))"
proof -
  let ?p = "start + nmemb div 2" and ?l = "start + nmemb - 1" and ?d = "nmemb div 2 div 2"
  have idx: "start + 1 < ?p" "?p < ?l" "?l < length xs" using n len by auto
  have "\<exists>ys. length ys = length xs \<and> swp (start + 1) ?p ys = Some zs \<and> le (ys ! start) (ys ! ?p) \<and> le (ys ! ?p) (ys ! ?l)"
  proof (cases "nmemb div 1024 = 0")
    case True
    then obtain ys where ys: "zend_sort_3 cmp start ?p ?l xs = Some ys" "swp (start + 1) ?p ys = Some zs"
      using run by (auto simp: choose_pivot_def Let_def split: bind_splits)
    then show ?thesis using sort_3_chain [of start ?p ?l xs ys] idx by auto
  next
    case False
    then obtain ys where ys: "zend_sort_5 cmp start (start + ?d) ?p (?p + ?d) ?l xs = Some ys" "swp (start + 1) ?p ys = Some zs"
      using run by (auto simp: choose_pivot_def Let_def split: bind_splits)
    have big: "1024 \<le> nmemb" using False by (auto simp: div_eq_0_iff)
    then have d: "0 < ?d" "?d < nmemb div 2" "nmemb div 2 + ?d < nmemb - 1" by auto
    then have "?p + ?d < ?l" "start + ?d < ?p" by linarith+
    then have dist: "distinct [start, start + ?d, ?p, ?p + ?d, ?l]" "{start, start + ?d, ?p, ?p + ?d, ?l} \<subseteq> {..<length xs}"
      using idx d(1) by auto
    have "length ys = length xs" using sort_5_runs [of ?l xs 0 start "start + ?d" ?p "?p + ?d" ?l cmp] ys(1)
      sort_5_runs [of "length xs" xs 0 start "start + ?d" ?p "?p + ?d" ?l cmp] dist(2)
      by (auto simp: runs_def dest: rearr_length)
    then show ?thesis using sort_5_chain [OF ys(1) dist] ys(2) le_trans by blast
  qed
  then obtain ys where ys: "length ys = length xs" "swp (start + 1) ?p ys = Some zs" "le (ys ! start) (ys ! ?p)" "le (ys ! ?p) (ys ! ?l)"
    by blast
  have "zs = ys[start + 1 := ys ! ?p, ?p := ys ! (start + 1)]" using ys(1,2) idx by (simp add: swp_eq)
  then have "zs ! start = ys ! start" "zs ! (start + 1) = ys ! ?p" "zs ! ?l = ys ! ?l" using idx ys(1) by simp_all
  then show ?thesis using ys(3,4) by simp
qed

lemma partition_at_around:
  assumes n: "16 < nmemb" and len: "start + nmemb \<le> length xs"
  obtains k ys where "partition_at cmp start nmemb xs = Some (k, ys)" "start + 2 \<le> k" "k \<le> start + nmemb - 1"
    "length ys = length xs" "around start (k - 1) (start + nmemb) (ys ! (k - 1)) ys"
proof -
  from n len obtain zs k us ys where ch: "choose_pivot cmp start nmemb xs = Some zs" "rearr start (start + nmemb) xs zs"
    and us: "rearr (start + 2) (start + nmemb - 1) zs us" "parted cmp (zs ! (start + 1)) (start + 2) k (start + nmemb - 1) us"
    and k: "start + 2 \<le> k" "k \<le> start + nmemb - 1" and ys: "ys = us[start + 1 := us ! (k - 1), k - 1 := us ! (start + 1)]"
    and run: "partition_at cmp start nmemb xs = Some (k, ys)" "rearr start (start + nmemb) xs ys"
    by (rule partition_at_run)
  let ?piv = "zs ! (start + 1)" and ?l = "start + nmemb - 1"
  have lens: "length us = length xs" "length zs = length xs" using rearr_length us(1) ch(2) by metis+
  have ends: "le (zs ! start) ?piv" "le ?piv (zs ! ?l)" using choose_pivot_ordered [OF n len ch(1)] by simp_all
  have out: "us ! start = zs ! start" "us ! (start + 1) = ?piv" "us ! ?l = zs ! ?l"
    using rearr_nth [OF us(1)] n len lens by simp_all
  have low: "le (us ! t) ?piv" if "start + 2 \<le> t" "t < k" for t using us(2) that by (auto simp: parted_def intro: low_le)
  have high: "le ?piv (us ! t)" if "k \<le> t" "t < ?l" for t using us(2) that by (auto simp: parted_def intro: high_le)
  have kx: "k - 1 < length us" "start + 1 < length us" using k n len lens by auto
  have piv: "ys ! (k - 1) = ?piv" using ys out(2) kx by simp
  have "le (ys ! t) ?piv" if t: "start \<le> t" "t < k - 1" for t
  proof -
    consider "t = start" | "t = start + 1" | "start + 2 \<le> t" using t(1) by linarith
    then show ?thesis
    proof cases
      case 1
      then show ?thesis using ys out(1) ends(1) t by simp
    next
      case 2
      then show ?thesis using ys low [of "k - 1"] t kx by simp
    next
      case 3
      then show ?thesis using ys low [of t] t by simp
    qed
  qed
  moreover have "le ?piv (ys ! t)" if t: "k - 1 < t" "t < start + nmemb" for t
  proof -
    have "ys ! t = us ! t" using ys t k by simp
    then show ?thesis using high [of t] out(3) ends(2) t by (cases "t = ?l") auto
  qed
  ultimately have "around start (k - 1) (start + nmemb) (ys ! (k - 1)) ys" using piv by (simp add: around_def)
  then show thesis using that run k rearr_length by blast
qed

text \<open>Sorting one side keeps the array around the pivot.\<close>

lemma around_left:
  assumes "around lo m hi piv xs" and "rearr lo m xs ys" and "lo \<le> m" "m < hi" "hi \<le> length xs"
  shows "around lo m hi piv ys"
  using rearr_nth [OF assms(2)] rearr_all [OF assms(2), of "\<lambda>x. le x piv"] assms by (auto simp: around_def)

lemma around_right:
  assumes "around lo m hi piv xs" and "rearr (Suc m) hi xs ys" and "lo \<le> m" "m < hi" "hi \<le> length xs"
  shows "around lo m hi piv ys"
  using rearr_nth [OF assms(2)] rearr_all [OF assms(2), of "le piv"] assms by (auto simp: around_def)

lemma ordered_outside: "ordered lo hi xs \<Longrightarrow> rearr lo' hi' xs ys \<Longrightarrow> hi \<le> lo' \<or> hi' \<le> lo \<Longrightarrow> hi \<le> length xs \<Longrightarrow> ordered lo hi ys"
  using rearr_nth [of lo' hi' xs ys] by (auto simp: ordered_def)

lemma around_ordered:
  assumes "around lo m hi piv xs" and "ordered lo m xs" and "ordered (Suc m) hi xs"
  shows "ordered lo hi xs"
proof (rule ordered_adjacent)
  fix k assume k: "lo \<le> k" "k + 1 < hi"
  consider "k + 1 < m" | "k + 1 = m" | "k = m" | "m < k" by linarith
  then show "le (xs ! k) (xs ! (k + 1))"
    by cases (use assms k in \<open>auto simp: around_def ordered_def\<close>)
qed

lemma zend_sort_ordered:
  assumes "base + nmemb \<le> length xs"
  shows "\<exists>ys. zend_sort cmp base nmemb xs = Some ys \<and> rearr base (base + nmemb) xs ys \<and> ordered base (base + nmemb) ys"
proof -
  have "\<forall>ys. zend_sort cmp base nmemb xs = Some ys \<longrightarrow> ordered base (base + nmemb) ys"
    using assms
  proof (induction nmemb arbitrary: base xs rule: less_induct)
    case (less nmemb)
    show ?case
    proof (cases "nmemb \<le> 16")
      case True
      then have "zend_sort cmp base nmemb xs = zend_insert_sort cmp base nmemb xs" by (subst zend_sort.simps) simp
      then show ?thesis using insert_sort_ordered [OF less.prems] by auto
    next
      case False
      then have n: "16 < nmemb" by simp
      obtain k ys where k: "partition_at cmp base nmemb xs = Some (k, ys)" "base + 2 \<le> k" "k \<le> base + nmemb - 1"
        and ys: "length ys = length xs" "around base (k - 1) (base + nmemb) (ys ! (k - 1)) ys"
        by (rule partition_at_around [OF n less.prems])
      let ?hi = "base + nmemb"
      have e: "base + (k - base - 1) = k - 1" "k + (?hi - k) = ?hi" "Suc (k - 1) = k" "base \<le> k - 1" "k - 1 < ?hi" using k n by auto
      have left: "\<exists>us. zend_sort cmp base (k - base - 1) zs = Some us \<and> rearr base (k - 1) zs us \<and> ordered base (k - 1) us"
        if "length zs = length xs" for zs
      proof -
        have "k - base - 1 < nmemb" "k - 1 \<le> length zs" using k n less.prems that by auto
        then show ?thesis using zend_sort_runs [of base "k - base - 1" zs cmp] less.IH [of "k - base - 1" base zs]
          unfolding e runs_def by blast
      qed
      have right: "\<exists>us. zend_sort cmp k (?hi - k) zs = Some us \<and> rearr k ?hi zs us \<and> ordered k ?hi us"
        if "length zs = length xs" for zs
      proof -
        have "?hi - k < nmemb" "?hi \<le> length zs" using k n less.prems that by auto
        then show ?thesis using zend_sort_runs [of k "?hi - k" zs cmp] less.IH [of "?hi - k" k zs]
          unfolding e runs_def by blast
      qed
      show ?thesis
      proof (cases "(k - 1) - base < ?hi - k")
        case True
        obtain zs where zs: "zend_sort cmp base (k - base - 1) ys = Some zs" "rearr base (k - 1) ys zs" "ordered base (k - 1) zs"
          using left ys(1) by blast
        have lz: "length zs = length xs" using rearr_length [OF zs(2)] ys(1) by simp
        obtain us where us: "zend_sort cmp k (?hi - k) zs = Some us" "rearr k ?hi zs us" "ordered k ?hi us" using right lz by blast
        have "around base (k - 1) ?hi (ys ! (k - 1)) zs" using around_left [OF ys(2) zs(2)] e less.prems ys(1) by simp
        then have "around base (k - 1) ?hi (ys ! (k - 1)) us" using around_right us(2) e less.prems lz by metis
        moreover have "ordered base (k - 1) us" by (rule ordered_outside [OF zs(3) us(2)]) (use k n less.prems lz in auto)
        ultimately have "ordered base ?hi us" using around_ordered us(3) e(3) by metis
        then show ?thesis using zend_sort_step [OF n k(1)] True zs(1) us(1) by simp
      next
        case False
        obtain zs where zs: "zend_sort cmp k (?hi - k) ys = Some zs" "rearr k ?hi ys zs" "ordered k ?hi zs"
          using right ys(1) by blast
        have lz: "length zs = length xs" using rearr_length [OF zs(2)] ys(1) by simp
        obtain us where us: "zend_sort cmp base (k - base - 1) zs = Some us" "rearr base (k - 1) zs us" "ordered base (k - 1) us"
          using left lz by blast
        have "around base (k - 1) ?hi (ys ! (k - 1)) zs" using around_right ys zs(2) e less.prems by metis
        then have "around base (k - 1) ?hi (ys ! (k - 1)) us" using around_left us(2) e less.prems lz by metis
        moreover have "ordered k ?hi us" by (rule ordered_outside [OF zs(3) us(2)]) (use k n less.prems lz in auto)
        ultimately have "ordered base ?hi us" using around_ordered us(3) e(3) by metis
        then show ?thesis using zend_sort_step [OF n k(1)] False zs(1) us(1) by simp
      qed
    qed
  qed
  then show ?thesis using zend_sort_runs [OF assms, of cmp] by (auto simp: runs_def)
qed

text \<open>A whole array.\<close>

lemma zend_sort_sorted:
  "\<exists>ys. zend_sort cmp 0 (length xs) xs = Some ys \<and> mset ys = mset xs \<and> sorted_wrt (\<lambda>x y. \<not> 0 < cmp x y) ys"
proof -
  obtain ys where ys: "zend_sort cmp 0 (length xs) xs = Some ys" "rearr 0 (length xs) xs ys" "ordered 0 (length xs) ys"
    using zend_sort_ordered [of 0 "length xs" xs] by auto
  then show ?thesis by (auto simp: rearr_def ordered_def le_def sorted_wrt_iff_nth_less)
qed

end

end
