(* ===== verification/Zend_Llist_Lemmas.thy ===== *)
theory Zend_Llist_Lemmas
  imports Zend_Llist Zend_Sort_Lemmas
begin

text \<open>
  The linked lists implement lists of values: each operation on a list that holds \<open>xs\<close> ends, gives a list that
  holds what the operation on \<open>xs\<close> gives, destroys what it drops, and leaves other elements of the heap alone.
\<close>

section \<open>What a list holds\<close>

definition has_data :: "'a lheap \<Rightarrow> nat \<Rightarrow> 'a \<Rightarrow> bool" where
  "has_data h a x \<longleftrightarrow> (\<exists>e. elems h a = Some e \<and> el_data e = x)"

definition links :: "'a lheap \<Rightarrow> ptr \<Rightarrow> nat list \<Rightarrow> ptr \<Rightarrow> bool" where
  "links h x as y \<longleftrightarrow> dpath el_next el_prev (elems h) NULL x as y NULL"

definition fresh_ok :: "'a lheap \<Rightarrow> bool" where
  "fresh_ok h \<longleftrightarrow> (\<forall>a \<in> dom (elems h). a < next_elem h)"

definition holds_at :: "nat list \<Rightarrow> 'a list \<Rightarrow> 'a llist_state \<Rightarrow> bool" where
  "holds_at as xs s \<longleftrightarrow> links (snd s) (l_head (fst s)) as (l_tail (fst s)) \<and> distinct as
     \<and> list_all2 (has_data (snd s)) as xs \<and> l_count (fst s) = of_nat (length xs) \<and> fresh_ok (snd s)"

definition holds :: "'a list \<Rightarrow> 'a llist_state \<Rightarrow> bool" where
  "holds xs s \<longleftrightarrow> (\<exists>as. holds_at as xs s)"

text \<open>The change of the heap: what is not in \<open>as\<close> stays, and what is new is fresh.\<close>

definition only :: "nat list \<Rightarrow> 'a lheap \<Rightarrow> 'a lheap \<Rightarrow> bool" where
  "only as h h' \<longleftrightarrow> next_elem h \<le> next_elem h' \<and> (\<forall>b. b \<notin> set as \<and> b < next_elem h \<longrightarrow> elems h' b = elems h b)"

lemma only_refl [simp]: "only as h h"
  by (simp add: only_def)

lemma only_trans: "only as h h' \<Longrightarrow> only bs h' h'' \<Longrightarrow> set bs \<subseteq> set as \<union> {next_elem h..} \<Longrightarrow> only as h h''"
  by (force simp: only_def)

lemma has_data_cong: "elems h' a = elems h a \<Longrightarrow> has_data h' a x = has_data h a x"
  by (simp add: has_data_def)

lemma all_data_cong:
  "(\<And>a. a \<in> set as \<Longrightarrow> map_option el_data (elems h' a) = map_option el_data (elems h a)) \<Longrightarrow>
   list_all2 (has_data h') as xs = list_all2 (has_data h) as xs"
proof (induction as arbitrary: xs)
  case Nil
  then show ?case by simp
next
  case (Cons a as)
  have "map_option el_data (elems h' a) = map_option el_data (elems h a)" using Cons.prems by simp
  then have "has_data h' a x = has_data h a x" for x by (cases "elems h' a"; cases "elems h a") (auto simp: has_data_def)
  moreover have "list_all2 (has_data h') as ys = list_all2 (has_data h) as ys" for ys
    using Cons.prems by (intro Cons.IH) simp
  ultimately show ?case by (cases xs) auto
qed

lemma el_read_Some [simp]: "el_read (Some a) h = elems h a"
  by (simp add: el_read_def option.map_comp comp_def option.map_ident)

lemma el_write_Some: "elems h a = Some e \<Longrightarrow> el_write f (Some a) h = Some (h\<lparr>elems := (elems h)(a \<mapsto> f e)\<rparr>)"
  by (simp add: el_write_def)

lemma el_free_Some: "elems h a = Some e \<Longrightarrow> el_free (Some a) h = Some (h\<lparr>elems := (elems h)(a := None)\<rparr>)"
  by (simp add: el_free_def)

lemma call_dtor_simps [simp]:
  "elems (call_dtor l x h) = elems h" "next_elem (call_dtor l x h) = next_elem h"
  "destroyed (call_dtor l x h) = destroyed h @ (if l_dtor l then [x] else [])"
  by (simp_all add: call_dtor_def)

lemma holdsI: "holds_at as xs s \<Longrightarrow> holds xs s"
  by (auto simp: holds_def)

lemma holds_atD:
  assumes "holds_at as xs (l, h)"
  shows "dpath el_next el_prev (elems h) NULL (l_head l) as (l_tail l) NULL" "distinct as" "length as = length xs"
    "list_all2 (has_data h) as xs" "l_count l = of_nat (length xs)" "\<And>a. a \<in> set as \<Longrightarrow> a < next_elem h"
    "\<And>a e. elems h a = Some e \<Longrightarrow> a < next_elem h"
proof -
  show *: "dpath el_next el_prev (elems h) NULL (l_head l) as (l_tail l) NULL" "distinct as" "list_all2 (has_data h) as xs"
    "l_count l = of_nat (length xs)" using assms by (simp_all add: holds_at_def links_def)
  then show "length as = length xs" by (simp add: list_all2_lengthD)
  show "\<And>a e. elems h a = Some e \<Longrightarrow> a < next_elem h" using assms by (auto simp: holds_at_def fresh_ok_def)
  then show "\<And>a. a \<in> set as \<Longrightarrow> a < next_elem h" using dpath_dom [OF *(1)] by blast
qed

lemma init_holds: "fresh_ok h \<Longrightarrow> holds [] (zend_llist_init d l, h)"
  by (auto simp: holds_def holds_at_def links_def zend_llist_init_def)

text \<open>A list whose elements are left alone holds what it held.\<close>

lemma holds_other:
  assumes "holds_at as xs (l, h)" and "only bs h h'" and "set as \<inter> set bs = {}" and "fresh_ok h'"
  shows "holds_at as xs (l, h')"
proof -
  note H = holds_atD [OF assms(1)]
  have same: "elems h' a = elems h a" if "a \<in> set as" for a using assms(2,3) H(6) that by (auto simp: only_def)
  then have "dpath el_next el_prev (elems h') NULL (l_head l) as (l_tail l) NULL" using H(1) by (subst dpath_cong) auto
  moreover have "list_all2 (has_data h') as xs" using H(4) same by (subst all_data_cong) auto
  ultimately show ?thesis using H(2,5) assms(4) by (simp add: holds_at_def links_def)
qed

section \<open>Adding\<close>

lemma add_element_run:
  assumes "holds_at as xs (l, h)"
  shows "\<exists>l' h'. zend_llist_add_element x (l, h) = Some (l', h') \<and> holds_at (as @ [next_elem h]) (xs @ [x]) (l', h')
    \<and> only as h h' \<and> destroyed h' = destroyed h \<and> l_dtor l' = l_dtor l"
proof -
  note H = holds_atD [OF assms]
  let ?n = "next_elem h"
  have fresh: "?n \<notin> set as" using H(6) by blast
  let ?new = "\<lparr>el_next = NULL, el_prev = l_tail l, el_data = x\<rparr>"
  have data: "list_all2 (has_data h'') as xs"
    if "\<And>a. a \<in> set as \<Longrightarrow> map_option el_data (elems h'' a) = map_option el_data (elems h a)" for h''
    using H(4) all_data_cong [OF that] by blast
  show ?thesis
  proof (cases as rule: rev_cases)
    case Nil
    then show ?thesis using H by (simp add: zend_llist_add_element_def el_new_def holds_at_def links_def has_data_def fresh_ok_def only_def less_Suc_eq)
        blast
  next
    case (snoc bs b)
    with H(1,2) obtain e where e: "elems h b = Some e" "l_tail l = Some b" "b \<notin> set bs"
      "dpath el_next el_prev (elems h) NULL (l_head l) bs (el_prev e) (Some b)" "el_next e = NULL" by auto
    let ?h = "h\<lparr>elems := (elems h)(?n \<mapsto> ?new, b \<mapsto> e\<lparr>el_next := Some ?n\<rparr>), next_elem := Suc ?n\<rparr>"
    let ?l = "l\<lparr>l_tail := Some ?n, l_count := l_count l + 1\<rparr>"
    have bn: "b \<noteq> ?n" "?n \<notin> set bs" using fresh snoc by auto
    have run: "zend_llist_add_element x (l, h) = Some (?l, ?h)"
      using e bn by (simp add: zend_llist_add_element_def el_new_def el_write_Some)
    have "links ?h (l_head ?l) (as @ [?n]) (l_tail ?l)" using snoc e bn by (simp add: links_def)
    moreover have "list_all2 (has_data ?h) (as @ [?n]) (xs @ [x])"
    proof (rule list_all2_appendI)
      show "list_all2 (has_data ?h) as xs" using e bn fresh by (intro data) auto
      show "list_all2 (has_data ?h) [?n] [x]" using bn by (simp add: has_data_def)
    qed
    moreover have "fresh_ok ?h" using H(7) e(1) by (auto simp: fresh_ok_def less_Suc_eq)
    ultimately have "holds_at (as @ [?n]) (xs @ [x]) (?l, ?h)" using H(2,5) fresh by (simp add: holds_at_def)
    moreover have "only as h ?h" using snoc bn by (auto simp: only_def)
    ultimately show ?thesis using run by auto
  qed
qed

lemma prepend_element_run:
  assumes "holds_at as xs (l, h)"
  shows "\<exists>l' h'. zend_llist_prepend_element x (l, h) = Some (l', h') \<and> holds_at (next_elem h # as) (x # xs) (l', h')
    \<and> only as h h' \<and> destroyed h' = destroyed h \<and> l_dtor l' = l_dtor l"
proof -
  note H = holds_atD [OF assms]
  let ?n = "next_elem h"
  have fresh: "?n \<notin> set as" using H(6) by blast
  let ?new = "\<lparr>el_next = l_head l, el_prev = NULL, el_data = x\<rparr>"
  show ?thesis
  proof (cases as)
    case Nil
    then show ?thesis using H by (simp add: zend_llist_prepend_element_def el_new_def holds_at_def links_def has_data_def fresh_ok_def only_def less_Suc_eq)
        blast
  next
    case (Cons b bs)
    with H(1,2) obtain e where e: "elems h b = Some e" "l_head l = Some b" "b \<notin> set bs" "el_prev e = NULL"
      "dpath el_next el_prev (elems h) (Some b) (el_next e) bs (l_tail l) NULL" by auto
    let ?h = "h\<lparr>elems := (elems h)(?n \<mapsto> ?new, b \<mapsto> e\<lparr>el_prev := Some ?n\<rparr>), next_elem := Suc ?n\<rparr>"
    let ?l = "l\<lparr>l_head := Some ?n, l_count := l_count l + 1\<rparr>"
    have bn: "b \<noteq> ?n" "?n \<notin> set bs" using fresh Cons by auto
    have run: "zend_llist_prepend_element x (l, h) = Some (?l, ?h)"
      using e bn by (simp add: zend_llist_prepend_element_def el_new_def el_write_Some)
    have "links ?h (l_head ?l) (?n # as) (l_tail ?l)" using Cons e bn by (simp add: links_def)
    moreover have "list_all2 (has_data ?h) as xs" using H(4) e bn fresh by (subst all_data_cong [where h = h]) auto
    then have "list_all2 (has_data ?h) (?n # as) (x # xs)" using bn by (simp add: has_data_def)
    moreover have "fresh_ok ?h" using H(7) e(1) by (auto simp: fresh_ok_def less_Suc_eq)
    ultimately have "holds_at (?n # as) (x # xs) (?l, ?h)" using H(2,5) fresh by (simp add: holds_at_def)
    moreover have "only as h ?h" using Cons bn by (auto simp: only_def)
    ultimately show ?thesis using run by auto
  qed
qed

section \<open>Removing\<close>

text \<open>The element \<open>a\<close> in the middle goes; its data is destroyed.\<close>

lemma del_element_at:
  assumes "holds_at (ls @ a # rs) (xs @ y # ys) (l, h)" and len: "length ls = length xs"
  shows "\<exists>l' h'. DEL_LLIST_ELEMENT (Some a) (l, h) = Some (l', h') \<and> holds_at (ls @ rs) (xs @ ys) (l', h')
    \<and> only (ls @ a # rs) h h' \<and> destroyed h' = destroyed h @ (if l_dtor l then [y] else []) \<and> l_dtor l' = l_dtor l
    \<and> next_elem h' = next_elem h \<and> elems h' a = None"
proof -
  note H = holds_atD [OF assms(1)]
  have dist: "distinct ls" "distinct rs" "a \<notin> set ls" "a \<notin> set rs" "set ls \<inter> set rs = {}" using H(2) by auto
  from H(1) obtain e where e: "elems h a = Some e"
    "dpath el_next el_prev (elems h) NULL (l_head l) ls (el_prev e) (Some a)"
    "dpath el_next el_prev (elems h) (Some a) (el_next e) rs (l_tail l) NULL" by auto
  have data: "list_all2 (has_data h) ls xs" "has_data h a y" "list_all2 (has_data h) rs ys"
    using H(4) len by (auto simp: list_all2_append)
  have y: "el_data e = y" using data(2) e(1) by (simp add: has_data_def)
  have "\<exists>l' k. unlink_element (Some a) (l, h) = Some (l', k) \<and> elems k a = Some e \<and> l_dtor l' = l_dtor l
      \<and> l_count l' = l_count l \<and> dpath el_next el_prev (elems k) NULL (l_head l') (ls @ rs) (l_tail l') NULL
      \<and> (\<forall>b. map_option el_data (elems k b) = map_option el_data (elems h b)) \<and> next_elem k = next_elem h
      \<and> destroyed k = destroyed h \<and> (\<forall>b. b \<notin> set ls \<union> set rs \<longrightarrow> elems k b = elems h b)"
  proof (cases ls rule: rev_cases)
    case ls: Nil
    show ?thesis
    proof (cases rs)
      case Nil
      then show ?thesis using ls e by (simp add: unlink_element_def)
    next
      case (Cons b bs)
      with e(3) obtain c where "el_next e = Some b" "elems h b = Some c" "el_prev c = Some a"
        "dpath el_next el_prev (elems h) (Some b) (el_next c) bs (l_tail l) NULL" by auto
      then show ?thesis using Cons ls e dist by (simp add: unlink_element_def el_write_Some)
    qed
  next
    case (snoc ms m)
    with e(2) obtain d z where d: "elems h m = Some d" "el_next d = Some a" "el_prev e = Some m" "el_prev d = z"
      "dpath el_next el_prev (elems h) NULL (l_head l) ms z (Some m)" by auto
    show ?thesis
    proof (cases rs)
      case Nil
      then show ?thesis using snoc d e dist by (simp add: unlink_element_def el_write_Some)
    next
      case (Cons b bs)
      with e(3) obtain c where "el_next e = Some b" "elems h b = Some c" "el_prev c = Some a"
        "dpath el_next el_prev (elems h) (Some b) (el_next c) bs (l_tail l) NULL" by auto
      then show ?thesis using Cons snoc d e dist by (auto simp: unlink_element_def el_write_Some)
    qed
  qed
  then obtain l' k where k: "unlink_element (Some a) (l, h) = Some (l', k)" "elems k a = Some e" "l_dtor l' = l_dtor l"
    "l_count l' = l_count l" "dpath el_next el_prev (elems k) NULL (l_head l') (ls @ rs) (l_tail l') NULL"
    "\<forall>b. map_option el_data (elems k b) = map_option el_data (elems h b)" "next_elem k = next_elem h"
    "destroyed k = destroyed h" "\<forall>b. b \<notin> set ls \<union> set rs \<longrightarrow> elems k b = elems h b" by blast
  let ?l = "l'\<lparr>l_count := l_count l' - 1\<rparr>"
  let ?h = "(call_dtor l' y k)\<lparr>elems := (elems k)(a := None)\<rparr>"
  have "el_free (Some a) (call_dtor l' y k) = Some ?h" using k(2) by (simp add: el_free_def)
  then have run: "DEL_LLIST_ELEMENT (Some a) (l, h) = Some (?l, ?h)" using k(1,2) y by (simp add: DEL_LLIST_ELEMENT_def)
  have "dpath el_next el_prev (elems ?h) NULL (l_head ?l) (ls @ rs) (l_tail ?l) NULL"
    using k(5) dist by (simp del: dpath_append)
  moreover have "list_all2 (has_data ?h) (ls @ rs) (xs @ ys)"
  proof -
    have "list_all2 (has_data h) (ls @ rs) (xs @ ys)" using data by (intro list_all2_appendI)
    then show ?thesis using k(6) dist by (subst all_data_cong [where h = h]) auto
  qed
  moreover have "fresh_ok ?h"
  proof -
    have "b < next_elem h" if "elems k b \<noteq> None" for b using that k(6) H(7) by (metis map_option_is_None not_None_eq)
    then show ?thesis using k(7) by (auto simp: fresh_ok_def)
  qed
  ultimately have "holds_at (ls @ rs) (xs @ ys) (?l, ?h)" using H(2,5) k(4) by (simp add: holds_at_def links_def)
  moreover have "only (ls @ a # rs) h ?h" using k(7,9) by (simp add: only_def)
  ultimately show ?thesis using run k(3,7,8) by simp
qed

lemma del_element_run:
  assumes "holds_at as xs (l, h)"
  shows "\<exists>l' h' bs. zend_llist_del_element found (l, h) = Some (l', h')
    \<and> holds_at bs (takeWhile (\<lambda>x. \<not> found x) xs @ List.tl (dropWhile (\<lambda>x. \<not> found x) xs)) (l', h')
    \<and> set bs \<subseteq> set as \<and> only as h h' \<and> l_dtor l' = l_dtor l"
proof -
  have walk: "\<exists>l' h' bs. del_element_loop found (if rs = [] then NULL else Some (hd rs)) (l, h) = Some (l', h')
      \<and> holds_at bs (xs @ takeWhile (\<lambda>x. \<not> found x) ys @ List.tl (dropWhile (\<lambda>x. \<not> found x) ys)) (l', h')
      \<and> set bs \<subseteq> set (ls @ rs) \<and> only (ls @ rs) h h' \<and> l_dtor l' = l_dtor l"
    if "holds_at (ls @ rs) (xs @ ys) (l, h)" "length ls = length xs" for ls rs xs ys
    using that
  proof (induction rs arbitrary: ls xs ys)
    case Nil
    then have "ys = []" by (auto simp: holds_at_def dest: list_all2_lengthD)
    then show ?case using Nil by (subst del_element_loop.simps) (auto intro!: exI [of _ ls])
  next
    case (Cons a rs)
    note H = holds_atD [OF Cons.prems(1)]
    obtain y ys' where ys: "ys = y # ys'" using H(3) Cons.prems(2) by (cases ys) auto
    obtain e where e: "elems h a = Some e" "el_data e = y" "el_next e = (if rs = [] then NULL else Some (hd rs))"
      using H(1,4) ys Cons.prems(2) by (auto simp: list_all2_append has_data_def dest: dpath_first)
    show ?case
    proof (cases "found y")
      case True
      have "holds_at (ls @ a # rs) (xs @ y # ys') (l, h)" using Cons.prems(1) ys by simp
      from del_element_at [OF this Cons.prems(2)] obtain l' h' where
        d: "DEL_LLIST_ELEMENT (Some a) (l, h) = Some (l', h')" "holds_at (ls @ rs) (xs @ ys') (l', h')"
          "only (ls @ a # rs) h h'" "l_dtor l' = l_dtor l" by blast
      have "del_element_loop found (Some a) (l, h) = Some (l', h')" using True e d(1) by (subst del_element_loop.simps) simp
      then show ?thesis using True d ys by (auto intro!: exI [of _ "ls @ rs"])
    next
      case False
      have "holds_at ((ls @ [a]) @ rs) ((xs @ [y]) @ ys') (l, h)" "length (ls @ [a]) = length (xs @ [y])"
        using Cons.prems ys by simp_all
      from Cons.IH [OF this] show ?thesis using False e ys by (subst del_element_loop.simps) simp
    qed
  qed
  have "l_head l = (if as = [] then NULL else Some (hd as))" using dpath_first [OF holds_atD(1) [OF assms]] .
  then show ?thesis using walk [of "[]" as "[]" xs] assms by (simp add: zend_llist_del_element_def)
qed

lemma remove_tail_run:
  assumes "holds_at as xs (l, h)"
  shows "\<exists>l' h'. zend_llist_remove_tail (l, h) = Some (l', h') \<and> holds_at (butlast as) (butlast xs) (l', h')
    \<and> only as h h' \<and> destroyed h' = destroyed h @ (if l_dtor l \<and> xs \<noteq> [] then [List.last xs] else []) \<and> l_dtor l' = l_dtor l"
proof (cases as rule: rev_cases)
  case Nil
  then have "xs = []" "l_tail l = NULL" using holds_atD [OF assms] by simp_all
  then show ?thesis using Nil assms by (simp add: zend_llist_remove_tail_def)
next
  case (snoc ls a)
  note H = holds_atD [OF assms]
  obtain ys y where xs: "xs = ys @ [y]" using H(3) snoc by (cases xs rule: rev_cases) auto
  have len: "length ls = length ys" using H(3) snoc xs by simp
  have data: "list_all2 (has_data h) ls ys" "has_data h a y" using H(4) snoc xs len by (auto simp: list_all2_append)
  obtain e where e: "elems h a = Some e" "l_tail l = Some a" "el_data e = y" "el_next e = NULL"
    "dpath el_next el_prev (elems h) NULL (l_head l) ls (el_prev e) (Some a)" using H(1) snoc data(2) by (auto simp: has_data_def)
  have a: "a \<notin> set ls" using H(2) snoc by simp
  have "\<exists>l' h'. zend_llist_remove_tail (l, h) = Some (l', h')
      \<and> dpath el_next el_prev (elems h') NULL (l_head l') ls (l_tail l') NULL
      \<and> (\<forall>b. b \<noteq> a \<longrightarrow> map_option el_data (elems h' b) = map_option el_data (elems h b)) \<and> elems h' a = None
      \<and> (\<forall>b. b \<notin> set as \<longrightarrow> elems h' b = elems h b) \<and> next_elem h' = next_elem h \<and> l_count l' = l_count l - 1
      \<and> destroyed h' = destroyed h @ (if l_dtor l then [y] else []) \<and> l_dtor l' = l_dtor l"
  proof (cases ls rule: rev_cases)
    case Nil
    then show ?thesis using e snoc by (simp add: zend_llist_remove_tail_def el_free_def Let_def)
  next
    case (snoc ms m)
    with e(5) obtain d where "elems h m = Some d" "el_next d = Some a" "el_prev e = Some m"
      "dpath el_next el_prev (elems h) NULL (l_head l) ms (el_prev d) (Some m)" by auto
    then show ?thesis using snoc \<open>as = ls @ [a]\<close> e a H(2)
      by (simp add: zend_llist_remove_tail_def el_write_Some el_free_def Let_def)
  qed
  then obtain l' h' where r: "zend_llist_remove_tail (l, h) = Some (l', h')"
      "dpath el_next el_prev (elems h') NULL (l_head l') ls (l_tail l') NULL"
      "\<forall>b. b \<noteq> a \<longrightarrow> map_option el_data (elems h' b) = map_option el_data (elems h b)" "elems h' a = None"
      "\<forall>b. b \<notin> set as \<longrightarrow> elems h' b = elems h b" "next_elem h' = next_elem h" "l_count l' = l_count l - 1"
      "destroyed h' = destroyed h @ (if l_dtor l then [y] else [])" "l_dtor l' = l_dtor l" by blast
  have "list_all2 (has_data h') ls ys" using data(1) r(3) a by (subst all_data_cong [where h = h]) auto
  moreover have "fresh_ok h'"
  proof -
    have "b < next_elem h" if "elems h' b \<noteq> None" for b
      using that r(3,4) H(7) by (cases "b = a") (auto, metis map_option_eq_Some option.exhaust)
    then show ?thesis using r(6) by (auto simp: fresh_ok_def)
  qed
  ultimately have "holds_at ls ys (l', h')" using H(2,5) snoc xs r(2,7) by (simp add: holds_at_def links_def)
  moreover have "only as h h'" using r(5,6) by (simp add: only_def)
  ultimately show ?thesis using r(1,8,9) snoc xs by simp
qed

text \<open>The end of a list: every element is destroyed and freed, once.\<close>

lemma destroy_loop_run:
  assumes "dpath el_next el_prev (elems h) p x as q NULL" and "distinct as" and "list_all2 (has_data h) as xs"
  shows "\<exists>h'. destroy_loop l x h = Some h' \<and> elems h' = elems h |` (- set as) \<and> next_elem h' = next_elem h
    \<and> destroyed h' = destroyed h @ (if l_dtor l then xs else [])"
  using assms
proof (induction as arbitrary: p x xs h)
  case Nil
  then show ?case by (subst destroy_loop.simps) (simp add: restrict_map_def)
next
  case (Cons a as)
  from Cons.prems(3) obtain y ys where xs: "xs = y # ys" "has_data h a y" "list_all2 (has_data h) as ys" by (auto simp: list_all2_Cons1)
  from Cons.prems(1) xs(2) obtain e where e: "x = Some a" "elems h a = Some e" "el_data e = y"
    "dpath el_next el_prev (elems h) (Some a) (el_next e) as q NULL" by (auto simp: has_data_def)
  let ?h = "(call_dtor l y h)\<lparr>elems := (elems h)(a := None)\<rparr>"
  have a: "a \<notin> set as" "distinct as" using Cons.prems(2) by simp_all
  have "dpath el_next el_prev (elems ?h) (Some a) (el_next e) as q NULL" using e(4) a by simp
  moreover have "list_all2 (has_data ?h) as ys" using xs(3) a by (subst all_data_cong [where h = h]) auto
  ultimately obtain h' where h': "destroy_loop l (el_next e) ?h = Some h'" "elems h' = elems ?h |` (- set as)"
    "next_elem h' = next_elem ?h" "destroyed h' = destroyed ?h @ (if l_dtor l then ys else [])" using Cons.IH a(2) by blast
  have "destroy_loop l x h = Some h'" using e h'(1) by (subst destroy_loop.simps) (simp add: el_free_def)
  moreover have "elems h' = elems h |` (- set (a # as))" using h'(2) by (auto simp: restrict_map_def)
  ultimately show ?case using h'(3,4) xs(1) by auto
qed

lemma llist_clean_run:
  assumes "holds_at as xs (l, h)"
  shows "\<exists>l' h'. zend_llist_clean (l, h) = Some (l', h') \<and> holds_at [] [] (l', h') \<and> only as h h'
    \<and> destroyed h' = destroyed h @ (if l_dtor l then xs else []) \<and> l_dtor l' = l_dtor l \<and> (\<forall>a \<in> set as. elems h' a = None)"
proof -
  note H = holds_atD [OF assms]
  obtain h' where h': "destroy_loop l (l_head l) h = Some h'" "elems h' = elems h |` (- set as)" "next_elem h' = next_elem h"
    "destroyed h' = destroyed h @ (if l_dtor l then xs else [])" using destroy_loop_run [OF H(1,2,4), of l] by blast
  have "fresh_ok h'" using h'(2,3) H(7) by (auto simp: fresh_ok_def restrict_map_def split: if_splits)
  then show ?thesis using h' by (simp add: zend_llist_clean_def zend_llist_destroy_def holds_at_def links_def only_def)
qed

text \<open>
  A loop along the list that deletes what \<open>P\<close> says, whatever it deletes an element with: \<open>D\<close> must close
  the links around the element and destroy its data, as in \<open>del_element_at\<close>.
\<close>

definition deletes :: "bool \<Rightarrow> (ptr \<Rightarrow> 'a llist_state \<Rightarrow> 'a llist_state option) \<Rightarrow> bool" where
  "deletes d D \<longleftrightarrow> (\<forall>ls a rs xs y ys l h. holds_at (ls @ a # rs) (xs @ y # ys) (l, h) \<longrightarrow> length ls = length xs \<longrightarrow> l_dtor l = d \<longrightarrow>
     (\<exists>l' h'. D (Some a) (l, h) = Some (l', h') \<and> holds_at (ls @ rs) (xs @ ys) (l', h') \<and> only (ls @ a # rs) h h' \<and> l_dtor l' = d
        \<and> destroyed h' = destroyed h @ (if d then [y] else [])))"

lemma deletesD:
  assumes "deletes d D" and "holds_at (ls @ a # rs) (xs @ y # ys) (l, h)" and "length ls = length xs" and "l_dtor l = d"
  obtains l' h' where "D (Some a) (l, h) = Some (l', h')" "holds_at (ls @ rs) (xs @ ys) (l', h')" "only (ls @ a # rs) h h'" "l_dtor l' = d"
    "destroyed h' = destroyed h @ (if d then [y] else [])"
  using assms unfolding deletes_def by blast

lemma filter_walk:
  assumes loop: "\<And>p s. L p s = (if p = NULL then Some s
      else Option.bind (el_read p (snd s)) (\<lambda>e. Option.bind (if P (el_data e) then D p s else Some s) (L (el_next e))))"
    and del: "deletes d D"
    and "holds_at (ls @ rs) (xs @ ys) (l, h)" "length ls = length xs" "l_dtor l = d"
  shows "\<exists>l' h' bs. L (if rs = [] then NULL else Some (hd rs)) (l, h) = Some (l', h')
      \<and> holds_at bs (xs @ filter (\<lambda>x. \<not> P x) ys) (l', h') \<and> set bs \<subseteq> set (ls @ rs) \<and> only (ls @ rs) h h' \<and> l_dtor l' = d
      \<and> destroyed h' = destroyed h @ (if d then filter P ys else [])"
  using assms(3-5)
proof (induction rs arbitrary: ls xs ys l h)
  case Nil
  then have "ys = []" by (auto simp: holds_at_def dest: list_all2_lengthD)
  then show ?case using Nil by (subst loop) (auto intro!: exI [of _ ls])
next
  case (Cons a rs)
  note H = holds_atD [OF Cons.prems(1)]
  obtain y ys' where ys: "ys = y # ys'" using H(3) Cons.prems(2) by (cases ys) auto
  obtain e where e: "elems h a = Some e" "el_data e = y" "el_next e = (if rs = [] then NULL else Some (hd rs))"
    using H(1,4) ys Cons.prems(2) by (auto simp: list_all2_append has_data_def dest: dpath_first)
  show ?case
  proof (cases "P y")
    case True
    have "holds_at (ls @ a # rs) (xs @ y # ys') (l, h)" using Cons.prems(1) ys by simp
    from deletesD [OF del this Cons.prems(2,3)] obtain l' h' where
      d: "D (Some a) (l, h) = Some (l', h')" "holds_at (ls @ rs) (xs @ ys') (l', h')"
        "only (ls @ a # rs) h h'" "l_dtor l' = d" "destroyed h' = destroyed h @ (if d then [y] else [])" by blast
    from Cons.IH [OF d(2) Cons.prems(2) d(4)] obtain l2 h2 bs where
      r: "L (if rs = [] then NULL else Some (hd rs)) (l', h') = Some (l2, h2)"
        "holds_at bs (xs @ filter (\<lambda>x. \<not> P x) ys') (l2, h2)" "set bs \<subseteq> set (ls @ rs)" "only (ls @ rs) h' h2" "l_dtor l2 = d"
        "destroyed h2 = destroyed h' @ (if d then filter P ys' else [])" by blast
    have "L (Some a) (l, h) = Some (l2, h2)" using True e d(1) r(1) by (subst loop) simp
    moreover have "only (ls @ a # rs) h h2" by (rule only_trans [OF d(3) r(4)]) auto
    ultimately show ?thesis using True ys r d(4,5) by (auto intro!: exI [of _ bs])
  next
    case False
    have "holds_at ((ls @ [a]) @ rs) ((xs @ [y]) @ ys') (l, h)" "length (ls @ [a]) = length (xs @ [y])"
      using Cons.prems ys by simp_all
    from Cons.IH [OF this Cons.prems(3)] obtain l2 h2 bs where
      r: "L (if rs = [] then NULL else Some (hd rs)) (l, h) = Some (l2, h2)"
        "holds_at bs (xs @ y # filter (\<lambda>x. \<not> P x) ys') (l2, h2)" "set bs \<subseteq> set (ls @ a # rs)" "only (ls @ a # rs) h h2"
        "l_dtor l2 = d" "destroyed h2 = destroyed h @ (if d then filter P ys' else [])" by auto
    have "L (Some a) (l, h) = Some (l2, h2)" using False e r(1) by (subst loop) simp
    then show ?thesis using False ys r by (auto intro!: exI [of _ bs])
  qed
qed

lemma DEL_deletes: "deletes d DEL_LLIST_ELEMENT"
  unfolding deletes_def
proof (intro allI impI)
  fix ls a rs and xs :: "'a list" and y ys l h
  assume "holds_at (ls @ a # rs) (xs @ y # ys) (l, h)" "length ls = length xs" "l_dtor l = d"
  from del_element_at [OF this(1,2)] this(3) show "\<exists>l' h'. DEL_LLIST_ELEMENT (Some a) (l, h) = Some (l', h')
      \<and> holds_at (ls @ rs) (xs @ ys) (l', h') \<and> only (ls @ a # rs) h h' \<and> l_dtor l' = d
      \<and> destroyed h' = destroyed h @ (if d then [y] else [])" by blast
qed

lemma apply_with_del_run:
  assumes "holds_at as xs (l, h)"
  shows "\<exists>l' h' bs. zend_llist_apply_with_del func (l, h) = Some (l', h') \<and> holds_at bs (filter (\<lambda>x. \<not> func x) xs) (l', h')
    \<and> set bs \<subseteq> set as \<and> only as h h' \<and> l_dtor l' = l_dtor l
    \<and> destroyed h' = destroyed h @ (if l_dtor l then filter func xs else [])"
proof -
  have "l_head l = (if as = [] then NULL else Some (hd as))" using dpath_first [OF holds_atD(1) [OF assms]] .
  then show ?thesis using filter_walk [where ls = "[]" and rs = as and xs = "[]" and ys = xs and l = l and h = h and P = func and d = "l_dtor l",
        OF apply_with_del_loop.simps DEL_deletes] assms
    by (simp add: zend_llist_apply_with_del_def)
qed

section \<open>Copying, applying, walking\<close>

text \<open>The copy is made of fresh elements, so both lists hold the same afterwards.\<close>

lemma copy_loop_run:
  assumes "dpath el_next el_prev (elems h) p x as q NULL" and "list_all2 (has_data h) as ys"
    and "holds_at bs xs (d, h)" and "set as \<inter> set bs = {}" and "\<And>a. a \<in> set as \<Longrightarrow> a < next_elem h"
  shows "\<exists>d' h' cs. copy_loop x (d, h) = Some (d', h') \<and> holds_at (bs @ cs) (xs @ ys) (d', h') \<and> only bs h h'
    \<and> set cs \<subseteq> {next_elem h..} \<and> destroyed h' = destroyed h \<and> l_dtor d' = l_dtor d"
  using assms
proof (induction as arbitrary: p x xs ys bs d h)
  case Nil
  then have "copy_loop x (d, h) = Some (d, h)" by (subst copy_loop.simps) simp
  then show ?case using Nil by (auto intro!: exI [of _ "[]"])
next
  case (Cons a as)
  from Cons.prems(2) obtain y zs where ys: "ys = y # zs" "has_data h a y" "list_all2 (has_data h) as zs" by (auto simp: list_all2_Cons1)
  from Cons.prems(1) ys(2) obtain e where e: "x = Some a" "elems h a = Some e" "el_data e = y"
    "dpath el_next el_prev (elems h) (Some a) (el_next e) as q NULL" by (auto simp: has_data_def)
  from add_element_run [OF Cons.prems(3), of y] obtain d1 h1 where
    a: "zend_llist_add_element y (d, h) = Some (d1, h1)" "holds_at (bs @ [next_elem h]) (xs @ [y]) (d1, h1)"
      "only bs h h1" "destroyed h1 = destroyed h" "l_dtor d1 = l_dtor d" by blast
  have same: "elems h1 b = elems h b" if "b \<in> set (a # as)" for b
    using a(3) Cons.prems(4,5) that by (auto simp: only_def)
  have path: "dpath el_next el_prev (elems h1) (Some a) (el_next e) as q NULL" using e(4) same by (subst dpath_cong [where h = "elems h"]) auto
  have data: "list_all2 (has_data h1) as zs" using ys(3) same by (subst all_data_cong [where h = h]) auto
  have new: "next_elem h < next_elem h1" using holds_atD(6) [OF a(2)] by simp
  have lt: "b < next_elem h1" if "b \<in> set as" for b using Cons.prems(5) [of b] that new by simp
  have disj: "set as \<inter> set (bs @ [next_elem h]) = {}" using Cons.prems(4) Cons.prems(5) by auto
  from Cons.IH [OF path data a(2) disj lt] obtain d2 h2 cs where
    r: "copy_loop (el_next e) (d1, h1) = Some (d2, h2)" "holds_at ((bs @ [next_elem h]) @ cs) ((xs @ [y]) @ zs) (d2, h2)"
      "only (bs @ [next_elem h]) h1 h2" "set cs \<subseteq> {next_elem h1..}" "destroyed h2 = destroyed h1" "l_dtor d2 = l_dtor d1" by blast
  have "copy_loop x (d, h) = Some (d2, h2)" using e a(1) r(1) by (subst copy_loop.simps) simp
  moreover have "only bs h h2" by (rule only_trans [OF a(3) r(3)]) auto
  moreover have "set (next_elem h # cs) \<subseteq> {next_elem h..}" using r(4) new by auto
  moreover have "holds_at (bs @ next_elem h # cs) (xs @ ys) (d2, h2)" using r(2) ys(1) by simp
  ultimately show ?case using r(5,6) a(4,5) by (intro exI [of _ d2] exI [of _ h2] exI [of _ "next_elem h # cs"]) simp
qed

lemma copy_run:
  assumes "holds_at as xs (l, h)"
  shows "\<exists>d' h' cs. zend_llist_copy dst (l, h) = Some (d', h') \<and> holds_at cs xs (d', h') \<and> holds_at as xs (l, h')
    \<and> set cs \<inter> set as = {} \<and> destroyed h' = destroyed h \<and> l_dtor d' = l_dtor l"
proof -
  note H = holds_atD [OF assms]
  have "fresh_ok h" using assms by (simp add: holds_at_def)
  then have "holds_at [] [] (zend_llist_init (l_dtor l) dst, h)" by (simp add: holds_at_def links_def zend_llist_init_def)
  from copy_loop_run [OF H(1,4) this _ H(6)] obtain d' h' cs where
    c: "copy_loop (l_head l) (zend_llist_init (l_dtor l) dst, h) = Some (d', h')" "holds_at cs xs (d', h')" "only [] h h'"
      "set cs \<subseteq> {next_elem h..}" "destroyed h' = destroyed h" "l_dtor d' = l_dtor (zend_llist_init (l_dtor l) dst)" by auto
  have "holds_at as xs (l, h')" by (rule holds_other [OF assms c(3)]) (use c(2) in \<open>simp_all add: holds_at_def\<close>)
  moreover have "set cs \<inter> set as = {}" using c(4) H(6) by fastforce
  ultimately show ?thesis using c by (auto simp: zend_llist_copy_def zend_llist_init_def)
qed

fun apply_all :: "('a \<Rightarrow> 's \<Rightarrow> 'a \<times> 's) \<Rightarrow> 'a list \<Rightarrow> 's \<Rightarrow> 'a list \<times> 's" where
  "apply_all func [] s = ([], s)"
| "apply_all func (x # xs) s = (let (ys, t) = apply_all func xs (snd (func x s)) in (fst (func x s) # ys, t))"

text \<open>The links of all elements stay.\<close>

definition same_links :: "'a lheap \<Rightarrow> 'a lheap \<Rightarrow> bool" where
  "same_links h h' \<longleftrightarrow> (\<forall>b. map_option el_next (elems h' b) = map_option el_next (elems h b)
     \<and> map_option el_prev (elems h' b) = map_option el_prev (elems h b))"

lemma same_links_refl [simp]: "same_links h h"
  by (simp add: same_links_def)

lemma same_links_trans: "same_links h h' \<Longrightarrow> same_links h' h'' \<Longrightarrow> same_links h h''"
  by (simp add: same_links_def)

lemma same_links_path: "same_links h h' \<Longrightarrow> dpath el_next el_prev (elems h') p x as q y = dpath el_next el_prev (elems h) p x as q y"
  by (rule dpath_cong) (simp_all add: same_links_def)

lemma same_links_None: "same_links h h' \<Longrightarrow> elems h' b = None \<longleftrightarrow> elems h b = None"
  unfolding same_links_def by (metis map_option_is_None)

lemma apply_loop_run:
  assumes "dpath el_next el_prev (elems h) p x as q NULL" and "distinct as" and "list_all2 (has_data h) as xs"
  shows "\<exists>h'. apply_loop func x h s = Some (h', snd (apply_all func xs s))
    \<and> list_all2 (has_data h') as (fst (apply_all func xs s)) \<and> next_elem h' = next_elem h \<and> destroyed h' = destroyed h
    \<and> (\<forall>b. b \<notin> set as \<longrightarrow> elems h' b = elems h b)
    \<and> same_links h h'"
  using assms
proof (induction as arbitrary: p x xs h s)
  case Nil
  then show ?case by (subst apply_loop.simps) simp
next
  case (Cons a as)
  from Cons.prems(3) obtain y ys where xs: "xs = y # ys" "has_data h a y" "list_all2 (has_data h) as ys" by (auto simp: list_all2_Cons1)
  from Cons.prems(1) xs(2) obtain e where e: "x = Some a" "elems h a = Some e" "el_data e = y"
    "dpath el_next el_prev (elems h) (Some a) (el_next e) as q NULL" by (auto simp: has_data_def)
  let ?h = "h\<lparr>elems := (elems h)(a \<mapsto> e\<lparr>el_data := fst (func y s)\<rparr>)\<rparr>"
  have a: "a \<notin> set as" "distinct as" using Cons.prems(2) by simp_all
  have "dpath el_next el_prev (elems ?h) (Some a) (el_next e) as q NULL" using e(4) a by simp
  moreover have "list_all2 (has_data ?h) as ys" using xs(3) a by (subst all_data_cong [where h = h]) auto
  ultimately obtain h' where h': "apply_loop func (el_next e) ?h (snd (func y s)) = Some (h', snd (apply_all func ys (snd (func y s))))"
    "list_all2 (has_data h') as (fst (apply_all func ys (snd (func y s))))" "next_elem h' = next_elem ?h" "destroyed h' = destroyed ?h"
    "\<forall>b. b \<notin> set as \<longrightarrow> elems h' b = elems ?h b"
    "same_links ?h h'"
    using Cons.IH a(2) by blast
  have run: "apply_loop func x h s = Some (h', snd (apply_all func ys (snd (func y s))))"
    using e h'(1) by (subst apply_loop.simps) (simp add: el_write_Some)
  have "has_data h' a (fst (func y s))" using h'(5) a by (simp add: has_data_def)
  then have "list_all2 (has_data h') (a # as) (fst (apply_all func xs s))" using h'(2) xs(1) by (simp add: case_prod_beta)
  moreover have "same_links h ?h" using e(2) by (simp add: same_links_def)
  then have "same_links h h'" using h'(6) by (rule same_links_trans)
  moreover have "\<forall>b. b \<notin> set (a # as) \<longrightarrow> elems h' b = elems h b" using h'(5) by simp
  moreover have "snd (apply_all func xs s) = snd (apply_all func ys (snd (func y s)))" using xs(1) by (simp add: case_prod_beta)
  moreover have "next_elem h' = next_elem h \<and> destroyed h' = destroyed h" using h'(3,4) by simp
  ultimately show ?case using run by (intro exI [of _ h']) metis
qed

lemma apply_run:
  assumes "holds_at as xs (l, h)"
  shows "\<exists>h'. zend_llist_apply_with_argument func s (l, h) = Some ((l, h'), snd (apply_all func xs s))
    \<and> holds_at as (fst (apply_all func xs s)) (l, h') \<and> only as h h' \<and> destroyed h' = destroyed h"
proof -
  note H = holds_atD [OF assms]
  obtain h' where h': "apply_loop func (l_head l) h s = Some (h', snd (apply_all func xs s))"
    "list_all2 (has_data h') as (fst (apply_all func xs s))" "next_elem h' = next_elem h" "destroyed h' = destroyed h"
    "\<forall>b. b \<notin> set as \<longrightarrow> elems h' b = elems h b"
    "same_links h h'"
    using apply_loop_run [OF H(1,2,4), where func = func and s = s] by (elim exE conjE) (rule that)
  have "dpath el_next el_prev (elems h') NULL (l_head l) as (l_tail l) NULL" using H(1) same_links_path [OF h'(6)] by simp
  moreover have "fresh_ok h'"
  proof -
    have "b < next_elem h" if "elems h' b = Some e" for b e using that same_links_None [OF h'(6), of b] H(7) by (cases "elems h b") auto
    then show ?thesis using h'(3) by (auto simp: fresh_ok_def)
  qed
  moreover have "length (fst (apply_all func xs s)) = length xs" using list_all2_lengthD [OF h'(2)] H(3) by simp
  ultimately have "holds_at as (fst (apply_all func xs s)) (l, h')" using h'(2) H(2,5) by (simp add: holds_at_def links_def)
  then show ?thesis using h' by (simp add: zend_llist_apply_with_argument_def only_def)
qed

text \<open>Walking: from the position of each element the next function goes to the following one.\<close>

definition pos_of :: "nat list \<Rightarrow> ptr" where
  "pos_of as = (case as of [] \<Rightarrow> NULL | a # _ \<Rightarrow> Some a)"

definition head_of :: "'a list \<Rightarrow> 'a option" where
  "head_of xs = (case xs of [] \<Rightarrow> None | x # _ \<Rightarrow> Some x)"

lemma pos_of_simps [simp]: "pos_of [] = NULL" "pos_of (a # as) = Some a" "head_of [] = None" "head_of (x # xs) = Some x"
  by (simp_all add: pos_of_def head_of_def)

lemma data_at_path:
  assumes "dpath el_next el_prev (elems h) p x as q NULL" and "list_all2 (has_data h) as xs"
  shows "x = pos_of as \<and> data_at x h = Some (head_of xs)"
  using assms by (cases as; cases xs) (auto simp: pos_of_def head_of_def data_at_def has_data_def)

lemma get_first_run:
  assumes "holds_at as xs (l, h)"
  shows "zend_llist_get_first_ex (l, h) = Some (pos_of as, head_of xs)"
  using data_at_path [OF holds_atD(1,4) [OF assms]] by (auto simp: zend_llist_get_first_ex_def)

lemma get_last_run:
  assumes "holds_at as xs (l, h)"
  shows "zend_llist_get_last_ex (l, h) = Some (pos_of (rev as), head_of (rev xs))"
proof -
  note H = holds_atD [OF assms]
  show ?thesis
  proof (cases as rule: rev_cases)
    case Nil
    then show ?thesis using H by (simp add: zend_llist_get_last_ex_def pos_of_def head_of_def data_at_def)
  next
    case (snoc bs a)
    then obtain ys y where xs: "xs = ys @ [y]" using H(3) by (cases xs rule: rev_cases) auto
    then have "has_data h a y" "l_tail l = Some a" using H(1,3,4) snoc by (auto simp: list_all2_append)
    then show ?thesis using snoc xs by (auto simp: zend_llist_get_last_ex_def pos_of_def head_of_def data_at_def has_data_def)
  qed
qed

lemma get_next_run:
  assumes "holds_at (ls @ a # rs) (xs @ y # ys) (l, h)" and "length ls = length xs"
  shows "zend_llist_get_next_ex (Some a) h = Some (pos_of rs, head_of ys)"
proof -
  note H = holds_atD [OF assms(1)]
  from H(1) obtain e where e: "elems h a = Some e" "dpath el_next el_prev (elems h) (Some a) (el_next e) rs (l_tail l) NULL" by auto
  have "list_all2 (has_data h) rs ys" using H(4) assms(2) by (auto simp: list_all2_append)
  from data_at_path [OF e(2) this] show ?thesis using e(1) by (auto simp: zend_llist_get_next_ex_def)
qed

lemma get_prev_run:
  assumes "holds_at (ls @ a # rs) (xs @ y # ys) (l, h)" and "length ls = length xs"
  shows "zend_llist_get_prev_ex (Some a) h = Some (pos_of (rev ls), head_of (rev xs))"
proof -
  note H = holds_atD [OF assms(1)]
  from H(1) obtain e where e: "elems h a = Some e" "dpath el_next el_prev (elems h) NULL (l_head l) ls (el_prev e) (Some a)" by auto
  have data: "list_all2 (has_data h) ls xs" using H(4) assms(2) by (auto simp: list_all2_append)
  show ?thesis
  proof (cases ls rule: rev_cases)
    case Nil
    then show ?thesis using e assms(2) by (simp add: zend_llist_get_prev_ex_def data_at_def pos_of_def head_of_def)
  next
    case (snoc ms m)
    then obtain zs z where xs: "xs = zs @ [z]" using assms(2) by (cases xs rule: rev_cases) auto
    then have "has_data h m z" "el_prev e = Some m" using data e(2) snoc assms(2) by (auto simp: list_all2_append)
    then show ?thesis using e(1) snoc xs by (auto simp: zend_llist_get_prev_ex_def data_at_def pos_of_def head_of_def has_data_def)
  qed
qed

section \<open>Sorting\<close>

lemma collect_run:
  assumes "dpath el_next el_prev (elems h) p x as q NULL" and "length as \<le> room"
  shows "collect_elements h x room = Some as"
  using assms
proof (induction as arbitrary: p x room)
  case Nil
  then show ?case by (subst collect_elements.simps) simp
next
  case (Cons a as)
  then obtain e where e: "x = Some a" "elems h a = Some e" "dpath el_next el_prev (elems h) (Some a) (el_next e) as q NULL" by auto
  have "collect_elements h (el_next e) (room - 1) = Some as" using Cons.IH [OF e(3)] Cons.prems(2) by simp
  then show ?case using e Cons.prems(2) by (subst collect_elements.simps) simp
qed

definition keeps_data :: "'a lheap \<Rightarrow> 'a lheap \<Rightarrow> bool" where
  "keeps_data h h' \<longleftrightarrow> (\<forall>b. map_option el_data (elems h' b) = map_option el_data (elems h b))
     \<and> next_elem h' = next_elem h \<and> destroyed h' = destroyed h"

lemma keeps_data_refl [simp]: "keeps_data h h"
  by (simp add: keeps_data_def)

lemma keeps_data_trans: "keeps_data h h' \<Longrightarrow> keeps_data h' h'' \<Longrightarrow> keeps_data h h''"
  by (simp add: keeps_data_def)

lemma keeps_data_write: "elems h a = Some e \<Longrightarrow> el_data (f e) = el_data e \<Longrightarrow> keeps_data h (h\<lparr>elems := (elems h)(a \<mapsto> f e)\<rparr>)"
  by (simp add: keeps_data_def)

lemma keeps_data_None: "keeps_data h h' \<Longrightarrow> elems h' b = None \<longleftrightarrow> elems h b = None"
  unfolding keeps_data_def by (metis map_option_is_None)

text \<open>The links along the sorted array, and the end of the list.\<close>

lemma link_elements_run:
  assumes "distinct ys" and "ys = a # as" and "set ys \<subseteq> dom (elems h)" and "map_option el_prev (elems h a) = Some p"
  shows "\<exists>k h'. link_elements ys h = Some k \<and> el_write (\<lambda>e. e\<lparr>el_next := NULL\<rparr>) (Some (List.last ys)) k = Some h'
    \<and> dpath el_next el_prev (elems h') p (Some a) ys (Some (List.last ys)) NULL \<and> keeps_data h h'
    \<and> (\<forall>b. b \<notin> set ys \<longrightarrow> elems h' b = elems h b)"
  using assms
proof (induction as arbitrary: ys a h p)
  case Nil
  then obtain e where "elems h a = Some e" "el_prev e = p" by auto
  then show ?case using Nil by (simp add: el_write_Some keeps_data_write)
next
  case (Cons b bs)
  from Cons.prems obtain e where e: "elems h a = Some e" "el_prev e = p" by auto
  from Cons.prems obtain f where f: "elems h b = Some f" by auto
  have ab: "a \<noteq> b" "a \<notin> set bs" "distinct (b # bs)" using Cons.prems(1,2) by auto
  let ?h1 = "h\<lparr>elems := (elems h)(b \<mapsto> f\<lparr>el_prev := Some a\<rparr>)\<rparr>"
  let ?h2 = "?h1\<lparr>elems := (elems ?h1)(a \<mapsto> e\<lparr>el_next := Some b\<rparr>)\<rparr>"
  have d: "keeps_data h ?h2" using e(1) f by (simp add: keeps_data_def)
  have "set (b # bs) \<subseteq> dom (elems ?h2)" using Cons.prems(2,3) by auto
  moreover have "map_option el_prev (elems ?h2 b) = Some (Some a)" using ab by simp
  ultimately obtain k h' where k: "link_elements (b # bs) ?h2 = Some k"
      "el_write (\<lambda>e. e\<lparr>el_next := NULL\<rparr>) (Some (List.last (b # bs))) k = Some h'"
      "dpath el_next el_prev (elems h') (Some a) (Some b) (b # bs) (Some (List.last (b # bs))) NULL" "keeps_data ?h2 h'"
      "\<forall>c. c \<notin> set (b # bs) \<longrightarrow> elems h' c = elems ?h2 c" using Cons.IH [OF ab(3) refl] by blast
  have "link_elements ys h = Some k" using Cons.prems(2) e(1) f ab(1) k(1) by (simp add: el_write_Some)
  moreover have "elems h' a = Some (e\<lparr>el_next := Some b\<rparr>)" using k(5) ab by simp
  then have "dpath el_next el_prev (elems h') p (Some a) ys (Some (List.last ys)) NULL" using Cons.prems(2) e(2) k(3) by simp
  moreover have "keeps_data h h'" using d k(4) by (rule keeps_data_trans)
  moreover have "\<forall>c. c \<notin> set ys \<longrightarrow> elems h' c = elems h c" using k(5) Cons.prems(2) by simp
  ultimately show ?case using k(2) Cons.prems(2) by auto
qed

text \<open>Ordering data orders the pointers to it.\<close>

lemma order_compare: "order_cmp cmp \<Longrightarrow> order_cmp (compare_elements cmp h)"
  unfolding order_cmp_def compare_elements_def by blast

lemma sort_run:
  assumes H0: "holds_at as xs (l, h)" and "order_cmp cmp" and small: "length xs < 2 ^ 64"
  shows "\<exists>l' h' bs ys. zend_llist_sort cmp (l, h) = Some (l', h') \<and> holds_at bs ys (l', h') \<and> mset ys = mset xs
    \<and> set bs = set as \<and> sorted_wrt (\<lambda>x y. \<not> 0 < cmp x y) ys \<and> only as h h' \<and> destroyed h' = destroyed h \<and> l_dtor l' = l_dtor l"
proof (cases xs)
  case Nil
  then have "l_count l = 0" using holds_atD(5) [OF H0] by simp
  then show ?thesis using H0 Nil by (auto simp: zend_llist_sort_def intro!: exI [of _ as])
next
  case (Cons x0 xs0)
  note H = holds_atD [OF H0]
  have n: "unat (l_count l) = length xs" using H(5) small by (simp add: unat_of_nat take_bit_nat_eq_self)
  have cnt: "unat (l_count l) = length xs" "l_count l \<noteq> 0" using n Cons by auto
  have coll: "collect_elements h (l_head l) (unat (l_count l)) = Some as" using collect_run [OF H(1)] cnt(1) H(3) by simp
  from order_cmp.zend_sort_sorted [OF order_compare [OF assms(2)], of h as] obtain bs where
    bs: "zend_sort (compare_elements cmp h) 0 (length as) as = Some bs" "mset bs = mset as"
      "sorted_wrt (\<lambda>a b. \<not> 0 < compare_elements cmp h a b) bs" by blast
  have set: "set bs = set as" "distinct bs" using bs(2) H(2) mset_eq_setD mset_eq_imp_distinct_iff by blast+
  have "bs \<noteq> []" using bs(2) H(3) Cons by auto
  then obtain b bs' where b: "bs = b # bs'" by (cases bs) auto
  have dom: "set bs \<subseteq> dom (elems h)" using set(1) dpath_dom [OF H(1)] by simp
  then obtain e where e: "elems h b = Some e" using b by auto
  let ?h1 = "h\<lparr>elems := (elems h)(b \<mapsto> e\<lparr>el_prev := NULL\<rparr>)\<rparr>"
  have d1: "keeps_data h ?h1" using e by (rule keeps_data_write) simp
  have "set bs \<subseteq> dom (elems ?h1)" "map_option el_prev (elems ?h1 b) = Some NULL" using dom by auto
  from link_elements_run [OF set(2) b this] obtain k h' where k: "link_elements bs ?h1 = Some k"
    "el_write (\<lambda>e. e\<lparr>el_next := NULL\<rparr>) (Some (List.last bs)) k = Some h'"
    "dpath el_next el_prev (elems h') NULL (Some b) bs (Some (List.last bs)) NULL" "keeps_data ?h1 h'"
    "\<forall>c. c \<notin> set bs \<longrightarrow> elems h' c = elems ?h1 c" by blast
  have d: "keeps_data h h'" using d1 k(4) by (rule keeps_data_trans)
  let ?l = "l\<lparr>l_head := Some b, l_tail := Some (List.last bs)\<rparr>"
  let ?f = "\<lambda>a. el_data (the (elems h a))"
  have run: "zend_llist_sort cmp (l, h) = Some (?l, h')"
    using coll cnt bs(1) H(3) b k(1,2) e by (simp add: zend_llist_sort_def el_write_Some)
  have xs: "xs = map ?f as" using H(4) by (induction rule: list_all2_induct) (auto simp: has_data_def)
  have "mset (map ?f bs) = mset xs" using bs(2) xs by simp
  moreover have "sorted_wrt (\<lambda>x y. \<not> 0 < cmp x y) (map ?f bs)" using bs(3) by (simp add: sorted_wrt_map compare_elements_def)
  moreover have "list_all2 (has_data h') bs (map ?f bs)"
  proof -
    have "has_data h' a (?f a)" if "a \<in> set bs" for a
    proof -
      have "map_option el_data (elems h' a) = map_option el_data (elems h a)" using d by (simp add: keeps_data_def)
      moreover have "elems h a \<noteq> None" using that dom by blast
      ultimately show ?thesis by (cases "elems h a"; cases "elems h' a") (auto simp: has_data_def)
    qed
    then show ?thesis by (simp add: list_all2_map2 list_all2_same)
  qed
  moreover have "fresh_ok h'"
  proof -
    have "b < next_elem h" if "elems h' b = Some e" for b e using that keeps_data_None [OF d, of b] H(7) by (cases "elems h b") auto
    then show ?thesis using d by (auto simp: fresh_ok_def keeps_data_def)
  qed
  moreover have "length (map ?f bs) = length xs" using bs(2) H(3) by (metis length_map size_mset)
  ultimately have "holds_at bs (map ?f bs) (?l, h')" using k(3) set(2) H(5) by (simp add: holds_at_def links_def)
  moreover have "elems h' c = elems h c" if "c \<notin> set as" for c using k(5) set(1) b that by auto
  then have "only as h h'" using d by (simp add: only_def keeps_data_def)
  ultimately show ?thesis using run set(1) d \<open>mset (map ?f bs) = mset xs\<close> \<open>sorted_wrt _ (map ?f bs)\<close>
    by (intro exI [of _ ?l] exI [of _ h'] exI [of _ bs] exI [of _ "map ?f bs"]) (simp add: keeps_data_def)
qed

end
