(* ===== verification/Fpm_Listing.thy ===== *)
theory Fpm_Listing
  imports Zend_Llist_Lemmas C_Strings
begin

text \<open>
  The listing of the Zend extensions (\<open>php-fpm -m\<close>, sapi/fpm/fpm/fpm_main.c): a copy of the list of
  extensions is sorted by name, printed and destroyed. This is where the engine's sort gets the order
  of its lists.
\<close>

record zend_extension =
  ext_name :: string

definition extension_name_cmp :: "zend_extension \<Rightarrow> zend_extension \<Rightarrow> int" where
  "extension_name_cmp fe se = strcmp (ext_name fe) (ext_name se)"

text \<open>\<open>php_printf\<close> appends to the output.\<close>

definition print_extension_info :: "zend_extension \<Rightarrow> string \<Rightarrow> zend_extension \<times> string" where
  "print_extension_info ext out = (ext, out @ upto_nul (ext_name ext) @ [CHR 0x0A])"

text \<open>\<open>sorted_exts\<close> is the variable on the stack, which holds anything at first.\<close>

definition print_extensions :: "zend_llist \<Rightarrow> zend_extension llist_state \<Rightarrow> string \<Rightarrow> (zend_extension lheap \<times> string) option" where
  "print_extensions sorted_exts zend_extensions out = do {
     (l, h) \<leftarrow> zend_llist_copy sorted_exts zend_extensions;
     s \<leftarrow> zend_llist_sort extension_name_cmp (l\<lparr>l_dtor := False\<rparr>, h);
     (s, out) \<leftarrow> zend_llist_apply_with_argument print_extension_info out s;
     (l, h) \<leftarrow> zend_llist_destroy s;
     Some (h, out)
   }"

section \<open>The order of the names\<close>

lemma bytes_cmp_sym: "bytes_cmp b a = - bytes_cmp a b"
  by (induction a b rule: bytes_cmp.induct) simp_all

lemma of_char_nonneg: "0 \<le> (of_char c :: int)"
  using of_char_pos [of c] by (cases "c = CHR 0x00") simp_all

lemma bytes_cmp_trans:
  assumes "bytes_cmp a b \<le> 0" and "bytes_cmp b c \<le> 0" and "CHR 0x00 \<notin> set a" and "CHR 0x00 \<notin> set b"
  shows "bytes_cmp a c \<le> 0"
  using assms
proof (induction a b arbitrary: c rule: bytes_cmp.induct)
  case 1
  then show ?case by simp
next
  case (2 d ds)
  then show ?case using of_char_nonneg by (cases c) simp_all
next
  case (3 x xs)
  then have "0 < (of_char x :: int)" using of_char_pos [of x] by auto
  then show ?case using 3 by simp
next
  case (4 x xs y ys)
  obtain z zs where c: "c = z # zs"
  proof (cases c)
    case Nil
    have "0 < (of_char y :: int)" using 4 of_char_pos [of y] by auto
    then show ?thesis using 4 Nil by simp
  qed (rule that)
  have inj: "(of_char u :: int) = of_char v \<longleftrightarrow> u = v" for u v by simp
  show ?case
  proof (cases "x = y \<and> y = z")
    case True
    then show ?thesis using 4 c by simp
  next
    case False
    have le: "(of_char x :: int) \<le> of_char y" "(of_char y :: int) \<le> of_char z" using 4 c by (auto split: if_splits)
    have "(of_char x :: int) \<noteq> of_char y \<or> (of_char y :: int) \<noteq> of_char z" using False by simp
    then have lt: "(of_char x :: int) < of_char z" using le by linarith
    then have "x \<noteq> z" by auto
    then show ?thesis using c lt by simp
  qed
qed

lemma strcmp_trans: "strcmp a b \<le> 0 \<Longrightarrow> strcmp b c \<le> 0 \<Longrightarrow> strcmp a c \<le> 0"
  unfolding strcmp_def by (rule bytes_cmp_trans [OF _ _ set_upto_nul set_upto_nul])

interpretation names: order_cmp extension_name_cmp
proof unfold_locales
  fix x y z :: zend_extension
  show "0 < extension_name_cmp x y \<Longrightarrow> \<not> 0 < extension_name_cmp y x"
    using bytes_cmp_sym [of "upto_nul (ext_name y)" "upto_nul (ext_name x)"] by (simp add: extension_name_cmp_def strcmp_def)
  show "\<not> 0 < extension_name_cmp x y \<Longrightarrow> \<not> 0 < extension_name_cmp y z \<Longrightarrow> \<not> 0 < extension_name_cmp x z"
    using strcmp_trans [of "ext_name x" "ext_name y" "ext_name z"] by (simp add: extension_name_cmp_def)
qed

section \<open>The listing\<close>

definition name_lines :: "zend_extension list \<Rightarrow> string" where
  "name_lines xs = concat (map (\<lambda>x. upto_nul (ext_name x) @ [CHR 0x0A]) xs)"

lemma print_all: "apply_all print_extension_info xs out = (xs, out @ name_lines xs)"
  by (induction xs arbitrary: out) (simp_all add: print_extension_info_def name_lines_def)

lemma holds_at_frame:
  assumes "holds_at as xs (l, h)" and "\<And>b. b \<in> set as \<Longrightarrow> elems h' b = elems h b" and "fresh_ok h'"
  shows "holds_at as xs (l, h')"
proof -
  note H = holds_atD [OF assms(1)]
  have "dpath el_next el_prev (elems h') NULL (l_head l) as (l_tail l) NULL"
    using H(1) assms(2) by (subst dpath_cong [where h = "elems h"]) auto
  moreover have "list_all2 (has_data h') as xs" using H(4) assms(2) by (subst all_data_cong [where h = h]) auto
  ultimately show ?thesis using assms(1,3) by (simp add: holds_at_def links_def)
qed

lemma print_extensions_run:
  assumes H: "holds_at as xs (l, h)" and small: "length xs < 2 ^ 64"
  shows "\<exists>h' ys. print_extensions dst (l, h) out = Some (h', out @ name_lines ys)
    \<and> mset ys = mset xs \<and> sorted_wrt (\<lambda>x y. strcmp (ext_name x) (ext_name y) \<le> 0) ys
    \<and> holds_at as xs (l, h') \<and> destroyed h' = destroyed h"
proof -
  obtain d k cs where c: "zend_llist_copy dst (l, h) = Some (d, k)" "holds_at cs xs (d, k)" "holds_at as xs (l, k)"
    "set cs \<inter> set as = {}" "destroyed k = destroyed h" using copy_run [OF H] by blast
  have "holds_at cs xs (d\<lparr>l_dtor := False\<rparr>, k)" using c(2) by (simp add: holds_at_def)
  from sort_run [OF this names.order_cmp_axioms small] obtain e m bs ys where
    s: "zend_llist_sort extension_name_cmp (d\<lparr>l_dtor := False\<rparr>, k) = Some (e, m)" "holds_at bs ys (e, m)" "mset ys = mset xs"
      "set bs = set cs" "sorted_wrt (\<lambda>x y. \<not> 0 < extension_name_cmp x y) ys" "only cs k m" "destroyed m = destroyed k"
      "l_dtor e = False" by auto
  obtain n where a: "zend_llist_apply_with_argument print_extension_info out (e, m) = Some ((e, n), out @ name_lines ys)"
    "holds_at bs ys (e, n)" "only bs m n" "destroyed n = destroyed m"
    using apply_run [OF s(2), of print_extension_info out] unfolding print_all by auto
  note N = holds_atD [OF a(2)]
  obtain w where w: "destroy_loop e (l_head e) n = Some w" "elems w = elems n |` (- set bs)" "next_elem w = next_elem n"
    "destroyed w = destroyed n" using destroy_loop_run [OF N(1,2,4), of e] s(8) by auto
  have keep: "elems w b = elems k b" if "b \<in> set as" for b
  proof -
    have "b \<notin> set cs" "b < next_elem k" using c(4) that holds_atD(6) [OF c(3)] by auto
    moreover have "b < next_elem m" using calculation s(6) by (simp add: only_def)
    ultimately show ?thesis using s(4,6) a(3) w(2) by (simp add: only_def)
  qed
  have "fresh_ok w" using a(2) w(2,3) by (auto simp: holds_at_def fresh_ok_def)
  then have "holds_at as xs (l, w)" using holds_at_frame [OF c(3) keep] by blast
  moreover have "print_extensions dst (l, h) out = Some (w, out @ name_lines ys)"
    using c(1) s(1) a(1) w(1) by (simp add: print_extensions_def zend_llist_destroy_def)
  moreover have "sorted_wrt (\<lambda>x y. strcmp (ext_name x) (ext_name y) \<le> 0) ys"
    using s(5) by (simp add: extension_name_cmp_def not_less)
  ultimately show ?thesis using s(3,7) c(5) a(4) w(4) by auto
qed

end
