(* ===== verification/Zend_Properties.thy ===== *)
theory Zend_Properties
  imports Fpm_Listing
begin

text \<open>
  The properties of the engine's containers: the sort ends inside its array whatever the comparison says,
  and sorts when it is an order; the linked lists are lists; the listing of the extensions.
\<close>

section \<open>The sort\<close>

text \<open>
  C29. \<open>zend_sort\<close> ends whatever the comparison function answers, even when it contradicts itself: it never
  compares or swaps an element outside of the part it is called with, and what it leaves there is a
  rearrangement of what was there.
\<close>

theorem zend_sort_ends:
  assumes "base + nmemb \<le> length xs"
  shows "\<exists>ys. zend_sort cmp base nmemb xs = Some ys
    \<and> take base ys = take base xs \<and> drop (base + nmemb) ys = drop (base + nmemb) xs
    \<and> mset (take nmemb (drop base ys)) = mset (take nmemb (drop base xs))"
proof -
  obtain ys where ys: "zend_sort cmp base nmemb xs = Some ys" "rearr base (base + nmemb) xs ys"
    using zend_sort_runs [OF assms] by (auto simp: runs_def)
  then have l: "length ys = length xs" "mset ys = mset xs"
    and out: "\<And>k. k < base \<or> base + nmemb \<le> k \<Longrightarrow> k < length xs \<Longrightarrow> ys ! k = xs ! k" by (auto simp: rearr_def)
  have pre: "take base ys = take base xs" using l(1) assms out by (intro nth_equalityI) auto
  have post: "drop (base + nmemb) ys = drop (base + nmemb) xs" using l(1) assms out by (intro nth_equalityI) auto
  have split: "mset zs = mset (take base zs) + mset (take nmemb (drop base zs)) + mset (drop (base + nmemb) zs)" for zs :: "'a list"
    by (metis append_take_drop_id mset_append drop_drop add.commute add.assoc)
  have "mset (take nmemb (drop base ys)) = mset (take nmemb (drop base xs))"
    using split [of ys] split [of xs] l(2) pre post by simp
  then show ?thesis using ys(1) pre post by blast
qed

text \<open>The sort against the order: with a comparison by a key it is the library's \<open>sort\<close>, up to equal keys.\<close>

lemma zend_sort_is_sort:
  fixes key :: "'a \<Rightarrow> 'b::linorder"
  assumes "\<And>x y. 0 < cmp x y \<longleftrightarrow> key y < key x"
  shows "\<exists>ys. zend_sort cmp 0 (length xs) xs = Some ys \<and> mset ys = mset xs \<and> map key ys = sort (map key xs)"
proof -
  have "order_cmp cmp" using assms by unfold_locales auto
  then obtain ys where ys: "zend_sort cmp 0 (length xs) xs = Some ys" "mset ys = mset xs" "sorted_wrt (\<lambda>x y. \<not> 0 < cmp x y) ys"
    using order_cmp.zend_sort_sorted by blast
  have "sorted (map key ys)" using ys(3) by (simp add: assms sorted_wrt_map not_less)
  moreover have "mset (map key ys) = mset (map key xs)" using ys(2) by (metis mset_map)
  ultimately have "map key ys = sort (map key xs)" by (intro properties_for_sort [symmetric]) simp_all
  then show ?thesis using ys by blast
qed

theorem zend_sort_ends_witness:
  "\<exists>ys. zend_sort (\<lambda>x y. 1 :: int) 1 3 [7, 3, 9, 1, 5 :: nat] = Some ys
    \<and> take 1 ys = [7] \<and> drop 4 ys = [5] \<and> mset (take 3 (drop 1 ys)) = {#3, 9, 1#}"
  using zend_sort_ends [of 1 3 "[7, 3, 9, 1, 5 :: nat]" "\<lambda>x y. 1"] by simp

section \<open>Linked lists\<close>

datatype 'a llist_op =
    Add 'a
  | Prepend 'a
  | Del "'a \<Rightarrow> bool"
  | Remove_Tail
  | Clean
  | Apply_Del "'a \<Rightarrow> bool"
  | Sort "'a \<Rightarrow> 'a \<Rightarrow> int"

fun llist_do :: "'a llist_op \<Rightarrow> 'a llist_state \<Rightarrow> 'a llist_state option" where
  "llist_do (Add x) = zend_llist_add_element x"
| "llist_do (Prepend x) = zend_llist_prepend_element x"
| "llist_do (Del p) = zend_llist_del_element p"
| "llist_do Remove_Tail = zend_llist_remove_tail"
| "llist_do Clean = zend_llist_clean"
| "llist_do (Apply_Del p) = zend_llist_apply_with_del p"
| "llist_do (Sort cmp) = zend_llist_sort cmp"

text \<open>What an operation makes of the list of the contents.\<close>

fun list_do :: "'a llist_op \<Rightarrow> 'a list \<Rightarrow> 'a list \<Rightarrow> bool" where
  "list_do (Add x) xs ys \<longleftrightarrow> ys = xs @ [x]"
| "list_do (Prepend x) xs ys \<longleftrightarrow> ys = x # xs"
| "list_do (Del p) xs ys \<longleftrightarrow> ys = takeWhile (\<lambda>x. \<not> p x) xs @ List.tl (dropWhile (\<lambda>x. \<not> p x) xs)"
| "list_do Remove_Tail xs ys \<longleftrightarrow> ys = butlast xs"
| "list_do Clean xs ys \<longleftrightarrow> ys = []"
| "list_do (Apply_Del p) xs ys \<longleftrightarrow> ys = filter (\<lambda>x. \<not> p x) xs"
| "list_do (Sort cmp) xs ys \<longleftrightarrow> mset ys = mset xs \<and> sorted_wrt (\<lambda>x y. \<not> 0 < cmp x y) ys"

primrec list_run :: "'a llist_op list \<Rightarrow> 'a list \<Rightarrow> 'a list \<Rightarrow> bool" where
  "list_run [] xs zs \<longleftrightarrow> zs = xs"
| "list_run (op # ops) xs zs \<longleftrightarrow> (\<exists>ys. list_do op xs ys \<and> list_run ops ys zs)"

definition sorts_by_order :: "'a llist_op \<Rightarrow> bool" where
  "sorts_by_order op \<longleftrightarrow> (\<forall>cmp. op = Sort cmp \<longrightarrow> order_cmp cmp)"

lemma list_do_length: "list_do op xs ys \<Longrightarrow> length ys \<le> Suc (length xs)"
proof (cases op)
  case (Del p)
  assume "list_do op xs ys"
  then have "ys = takeWhile (\<lambda>x. \<not> p x) xs @ List.tl (dropWhile (\<lambda>x. \<not> p x) xs)" using Del by simp
  moreover have "length xs = length (takeWhile (\<lambda>x. \<not> p x) xs) + length (dropWhile (\<lambda>x. \<not> p x) xs)"
    by (metis length_append takeWhile_dropWhile_id)
  ultimately show ?thesis by simp
next
  case (Sort cmp)
  assume "list_do op xs ys"
  then have "mset ys = mset xs" using Sort by simp
  then show ?thesis by (metis size_mset le_SucI order_refl)
qed (auto intro: le_SucI)

lemma llist_do_run:
  assumes "holds xs s" and "sorts_by_order op" and "length xs < 2 ^ 64"
  shows "\<exists>t ys. llist_do op s = Some t \<and> list_do op xs ys \<and> holds ys t"
proof -
  obtain l h as where s: "s = (l, h)" "holds_at as xs (l, h)" using assms(1) by (cases s) (auto simp: holds_def)
  show ?thesis
  proof (cases op)
    case (Add x)
    then show ?thesis using add_element_run [OF s(2), of x] by (auto simp: s(1) intro: holdsI)
  next
    case (Prepend x)
    then show ?thesis using prepend_element_run [OF s(2), of x] by (auto simp: s(1) intro: holdsI)
  next
    case (Del p)
    then show ?thesis using del_element_run [OF s(2), of p] by (auto simp: s(1) intro: holdsI)
  next
    case Remove_Tail
    then show ?thesis using remove_tail_run [OF s(2)] by (auto simp: s(1) intro: holdsI)
  next
    case Clean
    then show ?thesis using llist_clean_run [OF s(2)] by (auto simp: s(1) intro: holdsI)
  next
    case (Apply_Del p)
    then show ?thesis using apply_with_del_run [OF s(2), of p] by (auto simp: s(1) intro: holdsI)
  next
    case (Sort cmp)
    then have "order_cmp cmp" using assms(2) by (simp add: sorts_by_order_def)
    then obtain l' h' bs ys where "zend_llist_sort cmp (l, h) = Some (l', h')" "holds_at bs ys (l', h')" "mset ys = mset xs"
      "sorted_wrt (\<lambda>x y. \<not> 0 < cmp x y) ys" using sort_run [OF s(2) _ assms(3), of cmp] by blast
    then show ?thesis using Sort by (auto simp: s(1) intro: holdsI)
  qed
qed

text \<open>
  C28. The doubly linked lists are lists: every sequence of calls that add, prepend, delete the first match or
  all matches, drop the tail, empty or sort, on a list that holds \<open>xs\<close>, touches no pointer that is not an
  element, ends, and leaves a list that holds what the same operations make of \<open>xs\<close>. The sort needs a
  comparison that is an order and a list that its counter can count.
\<close>

theorem llist_refines_lists:
  assumes "holds xs s" and "\<forall>op \<in> set ops. sorts_by_order op" and "length xs + length ops < 2 ^ 64"
  shows "\<exists>t ys. for_each llist_do ops s = Some t \<and> list_run ops xs ys \<and> holds ys t"
  using assms
proof (induction ops arbitrary: xs s)
  case Nil
  then show ?case by auto
next
  case (Cons op ops)
  from Cons.prems obtain t ys where t: "llist_do op s = Some t" "list_do op xs ys" "holds ys t"
    using llist_do_run [of xs s op] by auto
  then have "length ys + length ops < 2 ^ 64" using list_do_length [OF t(2)] Cons.prems(3) by simp
  then obtain u zs where "for_each llist_do ops t = Some u" "list_run ops ys zs" "holds zs u"
    using Cons.IH [OF t(3)] Cons.prems(2) by auto
  then show ?case using t by auto
qed

lemma holds_empty: "holds [] (zend_llist_init d l, \<lparr>elems = Map.empty, next_elem = n, destroyed = ds\<rparr>)"
  by (intro holdsI [of "[]"]) (simp add: holds_at_def links_def fresh_ok_def zend_llist_init_def)

theorem llist_refines_lists_witness:
  "\<exists>t ys. for_each llist_do [Add \<lparr>ext_name = ''b''\<rparr>, Prepend \<lparr>ext_name = ''c''\<rparr>, Add \<lparr>ext_name = ''a''\<rparr>,
       Sort extension_name_cmp, Del (\<lambda>e. ext_name e = ''b''), Remove_Tail]
     (zend_llist_init True \<lparr>l_head = NULL, l_tail = NULL, l_count = 7, l_dtor = False, traverse_ptr = NULL\<rparr>,
      \<lparr>elems = Map.empty, next_elem = 0, destroyed = []\<rparr>) = Some t
   \<and> list_run [Add \<lparr>ext_name = ''b''\<rparr>, Prepend \<lparr>ext_name = ''c''\<rparr>, Add \<lparr>ext_name = ''a''\<rparr>,
       Sort extension_name_cmp, Del (\<lambda>e. ext_name e = ''b''), Remove_Tail] [] ys \<and> holds ys t"
  by (rule llist_refines_lists [OF holds_empty]) (simp_all add: sorts_by_order_def names.order_cmp_axioms)

section \<open>The listing of the extensions\<close>

text \<open>
  C30. \<open>print_extensions\<close> prints the name of every extension on a line of its own, ordered by \<open>strcmp\<close>, from a
  sorted copy: the list of the extensions itself stays as it is and no destructor is called.
\<close>

theorem extensions_listed:
  assumes "holds_at as xs (l, h)" and "length xs < 2 ^ 64"
  shows "\<exists>h' ys. print_extensions dst (l, h) out = Some (h', out @ concat (map (\<lambda>x. upto_nul (ext_name x) @ [CHR 0x0A]) ys))
    \<and> mset ys = mset xs \<and> sorted_wrt (\<lambda>x y. strcmp (ext_name x) (ext_name y) \<le> 0) ys
    \<and> holds_at as xs (l, h') \<and> destroyed h' = destroyed h"
  using print_extensions_run [OF assms, of dst out] unfolding name_lines_def .

definition two_extensions :: "zend_extension llist_state" where
  "two_extensions =
     (\<lparr>l_head = Some 4, l_tail = Some 2, l_count = 2, l_dtor = True, traverse_ptr = NULL\<rparr>,
      \<lparr>elems = [4 \<mapsto> \<lparr>el_next = Some 2, el_prev = NULL, el_data = \<lparr>ext_name = ''xdebug''\<rparr>\<rparr>,
                2 \<mapsto> \<lparr>el_next = NULL, el_prev = Some 4, el_data = \<lparr>ext_name = ''opcache''\<rparr>\<rparr>],
       next_elem = 5, destroyed = []\<rparr>)"

theorem extensions_listed_witness:
  "\<exists>h' ys. print_extensions (fst two_extensions) (fst two_extensions, snd two_extensions) [] = Some (h', concat (map (\<lambda>x. upto_nul (ext_name x) @ [CHR 0x0A]) ys))
    \<and> mset ys = {#\<lparr>ext_name = ''xdebug''\<rparr>, \<lparr>ext_name = ''opcache''\<rparr>#}"
proof -
  have h: "holds_at [4, 2] [\<lparr>ext_name = ''xdebug''\<rparr>, \<lparr>ext_name = ''opcache''\<rparr>] (fst two_extensions, snd two_extensions)"
    by (simp add: holds_at_def links_def has_data_def fresh_ok_def two_extensions_def)
  show ?thesis using extensions_listed [OF h, of "fst two_extensions" "[]"] by auto
qed

end
