(* ===== verification/Zend_Hash.thy ===== *)
theory Zend_Hash
  imports Prelude
begin

unbundle bit_operations_syntax

text \<open>
  The hash tables of the Zend engine (Zend/zend_hash.c, on 64 bits), which are the arrays of PHP: buckets in the
  order of insertion, with holes where elements were deleted, and hash chains through their indices; or packed, without
  chains, when the keys are small numbers that come in order. A key is a number or a text (\<open>zend_string\<close>, by its
  content); a value is \<open>Some v\<close>, or \<open>None\<close> for \<open>IS_UNDEF\<close>; an index is \<open>None\<close> for \<open>HT_INVALID_IDX\<close>.
  Reading memory that was never written, or outside of the table, is \<open>None\<close>, and so is the fatal error
  for a table that gets too big, after which nothing is run. Values of type \<open>IS_INDIRECT\<close>, the memory of keys and
  the protection against recursion are left out; destructors are noted in the order of their calls and leave the table alone.
\<close>

definition zend_error_noreturn :: "'a option" where
  "zend_error_noreturn = None"

section \<open>Data\<close>

record 'v zbucket =
  z_h :: "64 word"
  z_key :: "string option"
  z_val :: "'v option"
  z_next :: "nat option"

text \<open>
  \<open>hashes\<close> is the part before the buckets, by the offset from its start. \<open>iterators\<close> are the positions of the
  iterators in \<open>EG(ht_iterators)\<close> that belong to the table.
\<close>

record 'v hash_table =
  initialized :: bool
  packed :: bool
  nTableMask :: "32 word"
  hashes :: "nat option list"
  arData :: "'v zbucket option list"
  nNumUsed :: nat
  nNumOfElements :: nat
  nTableSize :: nat
  nInternalPointer :: "nat option"
  nNextFreeElement :: "64 word"
  pDestructor :: bool
  iterators :: "nat option list"
  destroyed :: "'v list"

definition HT_MIN_MASK :: "32 word" where "HT_MIN_MASK = -2"
definition HT_MIN_SIZE :: "32 word" where "HT_MIN_SIZE = 8"
definition HT_MAX_SIZE :: nat where "HT_MAX_SIZE = 0x80000000"
definition ZEND_LONG_MAX :: "64 word" where "ZEND_LONG_MAX = 0x7fffffffffffffff"

definition HASH_UPDATE :: "32 word" where "HASH_UPDATE = 1"
definition HASH_ADD :: "32 word" where "HASH_ADD = 2"
definition HASH_ADD_NEW :: "32 word" where "HASH_ADD_NEW = 8"
definition HASH_ADD_NEXT :: "32 word" where "HASH_ADD_NEXT = 16"

section \<open>Memory\<close>

definition bucket_at :: "'v hash_table \<Rightarrow> nat \<Rightarrow> 'v zbucket option" where
  "bucket_at ht i = Option.bind (nth_opt (arData ht) i) (\<lambda>b. b)"

definition bucket_write :: "nat \<Rightarrow> 'v zbucket \<Rightarrow> 'v hash_table \<Rightarrow> 'v hash_table option" where
  "bucket_write i b ht = (if i < length (arData ht) then Some (ht\<lparr>arData := (arData ht)[i := Some b]\<rparr>) else None)"

text \<open>\<open>h | nTableMask\<close> is a negative number, the place of a chain before the buckets.\<close>

definition nIndex :: "64 word \<Rightarrow> 'v hash_table \<Rightarrow> 32 word" where
  "nIndex h ht = ucast h OR nTableMask ht"

definition HT_HASH :: "'v hash_table \<Rightarrow> 32 word \<Rightarrow> nat option option" where
  "HT_HASH ht n = nth_opt (hashes ht) (unat (n - nTableMask ht))"

definition HT_HASH_write :: "32 word \<Rightarrow> nat option \<Rightarrow> 'v hash_table \<Rightarrow> 'v hash_table option" where
  "HT_HASH_write n x ht =
     (let k = unat (n - nTableMask ht) in if k < length (hashes ht) then Some (ht\<lparr>hashes := (hashes ht)[k := x]\<rparr>) else None)"

definition HT_HASH_RESET :: "'v hash_table \<Rightarrow> 'v hash_table" where
  "HT_HASH_RESET ht = ht\<lparr>hashes := replicate (unat (- nTableMask ht)) None\<rparr>"

definition HT_HASH_RESET_PACKED :: "'v hash_table \<Rightarrow> 'v hash_table" where
  "HT_HASH_RESET_PACKED ht = ht\<lparr>hashes := [None, None]\<rparr>"

definition HT_IS_WITHOUT_HOLES :: "'v hash_table \<Rightarrow> bool" where
  "HT_IS_WITHOUT_HOLES ht \<longleftrightarrow> nNumUsed ht = nNumOfElements ht"

text \<open>New memory for the buckets, into which those that are used are copied.\<close>

definition move_buckets :: "nat \<Rightarrow> 'v hash_table \<Rightarrow> 'v hash_table" where
  "move_buckets n ht = ht\<lparr>arData := take (nNumUsed ht) (arData ht) @ replicate (n - nNumUsed ht) None\<rparr>"

text \<open>Marking a value as undefined, in a bucket that may have been without content; its other parts are not read then.\<close>

definition undef_at :: "nat \<Rightarrow> 'v hash_table \<Rightarrow> 'v hash_table option" where
  "undef_at i ht = Option.bind (nth_opt (arData ht) i) (\<lambda>b.
     bucket_write i (case b of None \<Rightarrow> \<lparr>z_h = 0, z_key = None, z_val = None, z_next = None\<rparr> | Some b \<Rightarrow> b\<lparr>z_val := None\<rparr>) ht)"

definition call_destructor :: "'v \<Rightarrow> 'v hash_table \<Rightarrow> 'v hash_table" where
  "call_destructor v ht = (if pDestructor ht then ht\<lparr>destroyed := destroyed ht @ [v]\<rparr> else ht)"

section \<open>Initialisation\<close>

definition zend_hash_check_size :: "32 word \<Rightarrow> 32 word option" where
  "zend_hash_check_size nSize =
     (if \<not> nSize < HT_MIN_SIZE \<and> HT_MAX_SIZE \<le> unat nSize then zend_error_noreturn
      else let nSize = (if nSize < HT_MIN_SIZE then HT_MIN_SIZE else nSize);
               nSize = nSize - 1;
               nSize = nSize OR drop_bit 1 nSize;
               nSize = nSize OR drop_bit 2 nSize;
               nSize = nSize OR drop_bit 4 nSize;
               nSize = nSize OR drop_bit 8 nSize;
               nSize = nSize OR drop_bit 16 nSize
           in Some (nSize + 1))"

definition zend_hash_init :: "32 word \<Rightarrow> bool \<Rightarrow> 'v hash_table option" where
  "zend_hash_init nSize dtor = do {
     n \<leftarrow> zend_hash_check_size nSize;
     Some \<lparr>initialized = False, packed = False, nTableMask = HT_MIN_MASK, hashes = [None, None], arData = [], nNumUsed = 0,
       nNumOfElements = 0, nTableSize = unat n, nInternalPointer = None, nNextFreeElement = 0, pDestructor = dtor,
       iterators = [], destroyed = []\<rparr>
   }"

definition zend_hash_real_init_ex :: "bool \<Rightarrow> 'v hash_table \<Rightarrow> 'v hash_table" where
  "zend_hash_real_init_ex p ht =
     (if p then HT_HASH_RESET_PACKED (ht\<lparr>arData := replicate (nTableSize ht) None, initialized := True, packed := True\<rparr>)
      else HT_HASH_RESET (ht\<lparr>nTableMask := - of_nat (nTableSize ht), arData := replicate (nTableSize ht) None, initialized := True\<rparr>))"

section \<open>Iterators\<close>

definition zend_hash_iterators_update :: "nat option \<Rightarrow> nat option \<Rightarrow> 'v hash_table \<Rightarrow> 'v hash_table" where
  "zend_hash_iterators_update old new ht = ht\<lparr>iterators := map (\<lambda>p. if p = old then new else p) (iterators ht)\<rparr>"

fun lower_pos :: "nat \<Rightarrow> nat option list \<Rightarrow> nat option \<Rightarrow> nat option" where
  "lower_pos start [] res = res"
| "lower_pos start (p # ps) res =
     lower_pos start ps (case p of None \<Rightarrow> res
       | Some q \<Rightarrow> if start \<le> q \<and> (case res of None \<Rightarrow> True | Some r \<Rightarrow> q < r) then Some q else res)"

definition zend_hash_iterators_lower_pos :: "'v hash_table \<Rightarrow> nat \<Rightarrow> nat option" where
  "zend_hash_iterators_lower_pos ht start = lower_pos start (iterators ht) None"

section \<open>Rehashing\<close>

text \<open>The bucket \<open>j\<close> gets the content of \<open>b\<close> and is put in front of its chain.\<close>

definition link_bucket :: "nat \<Rightarrow> 'v zbucket \<Rightarrow> 'v hash_table \<Rightarrow> 'v hash_table option" where
  "link_bucket j b ht = do {
     x \<leftarrow> HT_HASH ht (nIndex (z_h b) ht);
     ht \<leftarrow> bucket_write j (b\<lparr>z_next := x\<rparr>) ht;
     HT_HASH_write (nIndex (z_h b) ht) (Some j) ht
   }"

definition relink :: "nat \<Rightarrow> 'v hash_table \<Rightarrow> 'v hash_table option" where
  "relink i ht = do { b \<leftarrow> bucket_at ht i; link_bucket i b ht }"

text \<open>From the first hole on, bucket \<open>i\<close> moves to \<open>j\<close>. Without iterators \<open>iter_pos\<close> is no position.\<close>

definition move_down :: "nat \<Rightarrow> nat \<times> nat option \<times> 'v hash_table \<Rightarrow> (nat \<times> nat option \<times> 'v hash_table) option" where
  "move_down i s = (case s of (j, iter_pos, ht) \<Rightarrow> do {
     b \<leftarrow> bucket_at ht i;
     if z_val b = None then Some (j, iter_pos, ht)
     else do {
       ht \<leftarrow> link_bucket j b ht;
       let ht = (if nInternalPointer ht = Some i then ht\<lparr>nInternalPointer := Some j\<rparr> else ht);
       Some (if iter_pos = Some i
             then let ht = zend_hash_iterators_update (Some i) (Some j) ht
                  in (Suc j, zend_hash_iterators_lower_pos ht (i + 1), ht)
             else (Suc j, iter_pos, ht))
     }
   })"

partial_function (option) rehash_loop :: "nat \<Rightarrow> 'v hash_table \<Rightarrow> 'v hash_table option" where
  "rehash_loop i ht =
     (if nNumUsed ht \<le> i then Some ht
      else Option.bind (bucket_at ht i) (\<lambda>b.
        if z_val b = None
        then map_option (\<lambda>(j, _, ht). ht\<lparr>nNumUsed := j\<rparr>)
               (for_each move_down [Suc i..<nNumUsed ht] (i, zend_hash_iterators_lower_pos ht 0, ht))
        else Option.bind (link_bucket i b ht) (rehash_loop (Suc i))))"

definition zend_hash_rehash :: "'v hash_table \<Rightarrow> 'v hash_table option" where
  "zend_hash_rehash ht =
     (if nNumOfElements ht = 0 then Some (if initialized ht then HT_HASH_RESET (ht\<lparr>nNumUsed := 0\<rparr>) else ht)
      else let ht = HT_HASH_RESET ht
           in if HT_IS_WITHOUT_HOLES ht then for_each relink [0..<nNumUsed ht] ht else rehash_loop 0 ht)"

section \<open>Growing\<close>

definition zend_hash_packed_grow :: "'v hash_table \<Rightarrow> 'v hash_table option" where
  "zend_hash_packed_grow ht =
     (if HT_MAX_SIZE \<le> nTableSize ht then zend_error_noreturn
      else let ht = ht\<lparr>nTableSize := nTableSize ht + nTableSize ht\<rparr> in Some (move_buckets (nTableSize ht) ht))"

definition zend_hash_packed_to_hash :: "'v hash_table \<Rightarrow> 'v hash_table option" where
  "zend_hash_packed_to_hash ht =
     zend_hash_rehash (move_buckets (nTableSize ht)
       (ht\<lparr>packed := False, hashes := [], nTableMask := - of_nat (nTableSize ht)\<rparr>))"

definition zend_hash_to_packed :: "'v hash_table \<Rightarrow> 'v hash_table" where
  "zend_hash_to_packed ht = move_buckets (nTableSize ht) (HT_HASH_RESET_PACKED (ht\<lparr>packed := True, nTableMask := HT_MIN_MASK\<rparr>))"

definition zend_hash_do_resize :: "'v hash_table \<Rightarrow> 'v hash_table option" where
  "zend_hash_do_resize ht =
     (if nNumOfElements ht + nNumOfElements ht div 32 < nNumUsed ht then zend_hash_rehash ht
      else if nTableSize ht < HT_MAX_SIZE
      then (let n = nTableSize ht + nTableSize ht
            in zend_hash_rehash (move_buckets n (ht\<lparr>nTableSize := n, hashes := [], nTableMask := - of_nat n\<rparr>)))
      else zend_error_noreturn)"

definition ZEND_HASH_IF_FULL_DO_RESIZE :: "'v hash_table \<Rightarrow> 'v hash_table option" where
  "ZEND_HASH_IF_FULL_DO_RESIZE ht = (if nTableSize ht \<le> nNumUsed ht then zend_hash_do_resize ht else Some ht)"

definition zend_hash_extend :: "32 word \<Rightarrow> bool \<Rightarrow> 'v hash_table \<Rightarrow> 'v hash_table option" where
  "zend_hash_extend nSize p ht =
     (if nSize = 0 then Some ht
      else if \<not> initialized ht then do {
        ht \<leftarrow> (if nTableSize ht < unat nSize then map_option (\<lambda>n. ht\<lparr>nTableSize := unat n\<rparr>) (zend_hash_check_size nSize) else Some ht);
        Some (zend_hash_real_init_ex p ht)
      }
      else if p \<noteq> packed ht then None
      else if unat nSize \<le> nTableSize ht then Some ht
      else do {
        n \<leftarrow> zend_hash_check_size nSize;
        let ht = move_buckets (unat n) (ht\<lparr>nTableSize := unat n\<rparr>);
        if p then Some ht else zend_hash_rehash (ht\<lparr>hashes := [], nTableMask := - of_nat (unat n)\<rparr>)
      })"

section \<open>Finding\<close>

definition zend_inline_hash_func :: "string \<Rightarrow> 64 word" where
  "zend_inline_hash_func str =
     fold (\<lambda>c h. (push_bit 5 h + h) + signed_take_bit 7 (of_char c)) str 5381 OR 0x8000000000000000"

partial_function (option) find_loop :: "('v zbucket \<Rightarrow> bool) \<Rightarrow> 'v hash_table \<Rightarrow> nat option \<Rightarrow> nat option option" where
  "find_loop P ht idx =
     (case idx of None \<Rightarrow> Some None
      | Some i \<Rightarrow> Option.bind (bucket_at ht i) (\<lambda>b. if P b then Some (Some i) else find_loop P ht (z_next b)))"

definition same_key :: "64 word \<Rightarrow> string option \<Rightarrow> 'v zbucket \<Rightarrow> bool" where
  "same_key h key b \<longleftrightarrow> z_h b = h \<and> z_key b = key"

definition zend_hash_find_bucket :: "string \<Rightarrow> 'v hash_table \<Rightarrow> nat option option" where
  "zend_hash_find_bucket key ht =
     (let h = zend_inline_hash_func key in Option.bind (HT_HASH ht (nIndex h ht)) (find_loop (same_key h (Some key)) ht))"

definition zend_hash_index_find_bucket :: "64 word \<Rightarrow> 'v hash_table \<Rightarrow> nat option option" where
  "zend_hash_index_find_bucket h ht = Option.bind (HT_HASH ht (nIndex h ht)) (find_loop (same_key h None) ht)"

text \<open>What a pointer to a value, or \<open>NULL\<close>, gives.\<close>

definition value_of :: "'v hash_table \<Rightarrow> nat option \<Rightarrow> 'v option option" where
  "value_of ht p = (case p of None \<Rightarrow> Some None | Some i \<Rightarrow> map_option z_val (bucket_at ht i))"

definition zend_hash_find :: "string \<Rightarrow> 'v hash_table \<Rightarrow> nat option option" where
  "zend_hash_find key ht = zend_hash_find_bucket key ht"

definition zend_hash_exists :: "string \<Rightarrow> 'v hash_table \<Rightarrow> bool option" where
  "zend_hash_exists key ht = map_option (\<lambda>p. p \<noteq> None) (zend_hash_find_bucket key ht)"

definition zend_hash_index_find :: "64 word \<Rightarrow> 'v hash_table \<Rightarrow> nat option option" where
  "zend_hash_index_find h ht =
     (if packed ht
      then if unat h < nNumUsed ht
           then map_option (\<lambda>b. if z_val b \<noteq> None then Some (unat h) else None) (bucket_at ht (unat h))
           else Some None
      else zend_hash_index_find_bucket h ht)"

definition zend_hash_index_exists :: "64 word \<Rightarrow> 'v hash_table \<Rightarrow> bool option" where
  "zend_hash_index_exists h ht = map_option (\<lambda>p. p \<noteq> None) (zend_hash_index_find h ht)"

section \<open>Adding and updating\<close>

text \<open>An update in place.\<close>

definition replace_value :: "nat \<Rightarrow> 'v \<Rightarrow> 'v hash_table \<Rightarrow> 'v hash_table option" where
  "replace_value i v ht = do {
     b \<leftarrow> bucket_at ht i;
     old \<leftarrow> z_val b;
     bucket_write i (b\<lparr>z_val := Some v\<rparr>) (call_destructor old ht)
   }"

definition set_next_free :: "64 word \<Rightarrow> 'v hash_table \<Rightarrow> 'v hash_table" where
  "set_next_free h ht =
     (if sint (nNextFreeElement ht) \<le> sint h
      then ht\<lparr>nNextFreeElement := (if h < ZEND_LONG_MAX then h + 1 else ZEND_LONG_MAX)\<rparr> else ht)"

definition count_new :: "nat \<Rightarrow> 'v hash_table \<Rightarrow> 'v hash_table" where
  "count_new idx ht =
     (let ht = ht\<lparr>nNumOfElements := nNumOfElements ht + 1\<rparr>;
          ht = (if nInternalPointer ht = None then ht\<lparr>nInternalPointer := Some idx\<rparr> else ht)
      in zend_hash_iterators_update None (Some idx) ht)"

text \<open>The code behind the label \<open>add_to_hash\<close>, for a text and for a number.\<close>

definition add_to_hash :: "string option \<Rightarrow> 64 word \<Rightarrow> 'v \<Rightarrow> 'v hash_table \<Rightarrow> (nat option \<times> 'v hash_table) option" where
  "add_to_hash key h v ht = do {
     let idx = nNumUsed ht;
     let ht = count_new idx (ht\<lparr>nNumUsed := nNumUsed ht + 1\<rparr>);
     let ht = (if key = None then set_next_free h ht else ht);
     ht \<leftarrow> link_bucket idx \<lparr>z_h = h, z_key = key, z_val = Some v, z_next = None\<rparr> ht;
     Some (Some idx, ht)
   }"

definition zend_hash_add_or_update_i :: "string \<Rightarrow> 'v \<Rightarrow> 32 word \<Rightarrow> 'v hash_table \<Rightarrow> (nat option \<times> 'v hash_table) option" where
  "zend_hash_add_or_update_i key v flag ht =
     (let h = zend_inline_hash_func key;
          add = (\<lambda>ht. Option.bind (ZEND_HASH_IF_FULL_DO_RESIZE ht) (add_to_hash (Some key) h v))
      in if \<not> initialized ht then add_to_hash (Some key) h v (zend_hash_real_init_ex False ht)
         else if packed ht then Option.bind (zend_hash_packed_to_hash ht) add
         else if flag AND HASH_ADD_NEW = 0
         then do {
           p \<leftarrow> zend_hash_find_bucket key ht;
           (case p of
              Some i \<Rightarrow> if flag AND HASH_ADD \<noteq> 0 then Some (None, ht) else map_option (Pair p) (replace_value i v ht)
            | None \<Rightarrow> add ht)
         }
         else add ht)"

text \<open>The code behind the label \<open>add_to_packed\<close>.\<close>

definition add_to_packed :: "64 word \<Rightarrow> 'v \<Rightarrow> 32 word \<Rightarrow> 'v hash_table \<Rightarrow> (nat option \<times> 'v hash_table) option" where
  "add_to_packed h v flag ht = do {
     ht \<leftarrow> (if flag AND (HASH_ADD_NEW OR HASH_ADD_NEXT) = HASH_ADD_NEW OR HASH_ADD_NEXT
           then Some (ht\<lparr>nNumUsed := unat h + 1\<rparr>)
           else if nNumUsed ht \<le> unat h
           then map_option (\<lambda>ht. ht\<lparr>nNumUsed := unat h + 1\<rparr>) (for_each undef_at [nNumUsed ht..<unat h] ht)
           else Some ht);
     let ht = set_next_free h (count_new (unat h) ht);
     let old_next = (case nth_opt (arData ht) (unat h) of Some (Some b) \<Rightarrow> z_next b | _ \<Rightarrow> None);
     ht \<leftarrow> bucket_write (unat h) \<lparr>z_h = h, z_key = None, z_val = Some v, z_next = old_next\<rparr> ht;
     Some (Some (unat h), ht)
   }"

definition zend_hash_index_add_or_update_i :: "64 word \<Rightarrow> 'v \<Rightarrow> 32 word \<Rightarrow> 'v hash_table \<Rightarrow> (nat option \<times> 'v hash_table) option" where
  "zend_hash_index_add_or_update_i h v flag ht =
     (let add = (\<lambda>ht. Option.bind (ZEND_HASH_IF_FULL_DO_RESIZE ht) (add_to_hash None h v));
          update = (\<lambda>i. if flag AND HASH_ADD \<noteq> 0 then Some (None, ht)
                        else map_option (\<lambda>ht. (Some i, set_next_free h ht)) (replace_value i v ht));
          convert = (\<lambda>ht. Option.bind (zend_hash_packed_to_hash ht) add)
      in if \<not> initialized ht
         then if unat h < nTableSize ht then add_to_packed h v flag (zend_hash_real_init_ex True ht)
              else add_to_hash None h v (zend_hash_real_init_ex False ht)
         else if packed ht
         then if unat h < nNumUsed ht
              then Option.bind (bucket_at ht (unat h)) (\<lambda>b. if z_val b \<noteq> None then update (unat h) else convert ht)
              else if unat h < nTableSize ht then add_to_packed h v flag ht
              else if unat (drop_bit 1 h) < nTableSize ht \<and> nTableSize ht div 2 < nNumOfElements ht
              then Option.bind (zend_hash_packed_grow ht) (add_to_packed h v flag)
              else convert ht
         else if flag AND HASH_ADD_NEW = 0
         then Option.bind (zend_hash_index_find_bucket h ht) (\<lambda>p. case p of Some i \<Rightarrow> update i | None \<Rightarrow> add ht)
         else add ht)"

definition zend_hash_add :: "string \<Rightarrow> 'v \<Rightarrow> 'v hash_table \<Rightarrow> (nat option \<times> 'v hash_table) option" where
  "zend_hash_add key v = zend_hash_add_or_update_i key v HASH_ADD"

definition zend_hash_update :: "string \<Rightarrow> 'v \<Rightarrow> 'v hash_table \<Rightarrow> (nat option \<times> 'v hash_table) option" where
  "zend_hash_update key v = zend_hash_add_or_update_i key v HASH_UPDATE"

definition zend_hash_add_new :: "string \<Rightarrow> 'v \<Rightarrow> 'v hash_table \<Rightarrow> (nat option \<times> 'v hash_table) option" where
  "zend_hash_add_new key v = zend_hash_add_or_update_i key v HASH_ADD_NEW"

definition zend_hash_index_add :: "64 word \<Rightarrow> 'v \<Rightarrow> 'v hash_table \<Rightarrow> (nat option \<times> 'v hash_table) option" where
  "zend_hash_index_add h v = zend_hash_index_add_or_update_i h v HASH_ADD"

definition zend_hash_index_add_new :: "64 word \<Rightarrow> 'v \<Rightarrow> 'v hash_table \<Rightarrow> (nat option \<times> 'v hash_table) option" where
  "zend_hash_index_add_new h v = zend_hash_index_add_or_update_i h v (HASH_ADD OR HASH_ADD_NEW)"

definition zend_hash_index_update :: "64 word \<Rightarrow> 'v \<Rightarrow> 'v hash_table \<Rightarrow> (nat option \<times> 'v hash_table) option" where
  "zend_hash_index_update h v = zend_hash_index_add_or_update_i h v HASH_UPDATE"

definition zend_hash_next_index_insert :: "'v \<Rightarrow> 'v hash_table \<Rightarrow> (nat option \<times> 'v hash_table) option" where
  "zend_hash_next_index_insert v ht = zend_hash_index_add_or_update_i (nNextFreeElement ht) v (HASH_ADD OR HASH_ADD_NEXT) ht"

definition zend_hash_next_index_insert_new :: "'v \<Rightarrow> 'v hash_table \<Rightarrow> (nat option \<times> 'v hash_table) option" where
  "zend_hash_next_index_insert_new v ht =
     zend_hash_index_add_or_update_i (nNextFreeElement ht) v (HASH_ADD OR HASH_ADD_NEW OR HASH_ADD_NEXT) ht"

section \<open>Deleting\<close>

text \<open>The number of used buckets, after the last one has gone.\<close>

fun drop_holes :: "nat \<Rightarrow> 'v hash_table \<Rightarrow> nat option" where
  "drop_holes 0 ht = Some 0"
| "drop_holes (Suc n) ht = Option.bind (bucket_at ht n) (\<lambda>b. if z_val b = None then drop_holes n ht else Some (Suc n))"

text \<open>The first defined bucket from \<open>i\<close> on.\<close>

function next_defined :: "nat \<Rightarrow> 'v hash_table \<Rightarrow> nat option option" where
  "next_defined i ht =
     (if nNumUsed ht \<le> i then Some None
      else Option.bind (bucket_at ht i) (\<lambda>b. if z_val b \<noteq> None then Some (Some i) else next_defined (Suc i) ht))"
  by pat_completeness auto
termination
  by (relation "measure (\<lambda>(i, ht). nNumUsed ht - i)") auto

declare next_defined.simps [simp del]

definition unlink_bucket :: "nat option \<Rightarrow> 'v zbucket \<Rightarrow> 'v hash_table \<Rightarrow> 'v hash_table option" where
  "unlink_bucket prev p ht =
     (case prev of
        Some q \<Rightarrow> do { b \<leftarrow> bucket_at ht q; bucket_write q (b\<lparr>z_next := z_next p\<rparr>) ht }
      | None \<Rightarrow> HT_HASH_write (nIndex (z_h p) ht) (z_next p) ht)"

text \<open>The last used bucket may go, and the holes before it; the pointer and the iterators go on to the next element.\<close>

definition shrink_used :: "nat \<Rightarrow> 'v hash_table \<Rightarrow> 'v hash_table option" where
  "shrink_used idx ht = (if nNumUsed ht = idx + 1 then map_option (\<lambda>n. ht\<lparr>nNumUsed := n\<rparr>) (drop_holes idx ht) else Some ht)"

definition leave_bucket :: "nat \<Rightarrow> 'v hash_table \<Rightarrow> 'v hash_table option" where
  "leave_bucket idx ht =
     (if nInternalPointer ht = Some idx \<or> iterators ht \<noteq> []
      then do {
        new_idx \<leftarrow> next_defined (idx + 1) ht;
        let ht = (if nInternalPointer ht = Some idx then ht\<lparr>nInternalPointer := new_idx\<rparr> else ht);
        Some (zend_hash_iterators_update (Some idx) new_idx ht)
      }
      else Some ht)"

definition zend_hash_del_el_ex :: "nat \<Rightarrow> nat option \<Rightarrow> 'v hash_table \<Rightarrow> 'v hash_table option" where
  "zend_hash_del_el_ex idx prev ht = do {
     p \<leftarrow> bucket_at ht idx;
     ht \<leftarrow> (if \<not> packed ht then unlink_bucket prev p ht else Some ht);
     ht \<leftarrow> shrink_used idx ht;
     ht \<leftarrow> leave_bucket idx (ht\<lparr>nNumOfElements := nNumOfElements ht - 1\<rparr>);
     p \<leftarrow> bucket_at ht idx;
     v \<leftarrow> z_val p;
     ht \<leftarrow> bucket_write idx (p\<lparr>z_val := None\<rparr>) ht;
     Some (call_destructor v ht)
   }"

partial_function (option) find_prev :: "nat \<Rightarrow> nat option \<Rightarrow> 'v hash_table \<Rightarrow> nat option" where
  "find_prev idx i ht =
     (case i of None \<Rightarrow> None
      | Some q \<Rightarrow> Option.bind (bucket_at ht q) (\<lambda>b. if z_next b = Some idx then Some q else find_prev idx (z_next b) ht))"

definition zend_hash_del_el :: "nat \<Rightarrow> 'v hash_table \<Rightarrow> 'v hash_table option" where
  "zend_hash_del_el idx ht = do {
     p \<leftarrow> bucket_at ht idx;
     prev \<leftarrow> (if packed ht then Some None
             else do {
               i \<leftarrow> HT_HASH ht (nIndex (z_h p) ht);
               if i \<noteq> Some idx then map_option Some (find_prev idx i ht) else Some None
             });
     zend_hash_del_el_ex idx prev ht
   }"

definition zend_hash_del_bucket :: "nat \<Rightarrow> 'v hash_table \<Rightarrow> 'v hash_table option" where
  "zend_hash_del_bucket p ht = zend_hash_del_el p ht"

partial_function (option) del_loop :: "('v zbucket \<Rightarrow> bool) \<Rightarrow> nat option \<Rightarrow> nat option \<Rightarrow> 'v hash_table \<Rightarrow> (bool \<times> 'v hash_table) option" where
  "del_loop P prev idx ht =
     (case idx of None \<Rightarrow> Some (False, ht)
      | Some i \<Rightarrow> Option.bind (bucket_at ht i) (\<lambda>b.
          if P b then map_option (Pair True) (zend_hash_del_el_ex i prev ht) else del_loop P (Some i) (z_next b) ht))"

text \<open>\<open>True\<close> is \<open>SUCCESS\<close>.\<close>

definition zend_hash_del :: "string \<Rightarrow> 'v hash_table \<Rightarrow> (bool \<times> 'v hash_table) option" where
  "zend_hash_del key ht =
     (let h = zend_inline_hash_func key
      in Option.bind (HT_HASH ht (nIndex h ht)) (\<lambda>idx. del_loop (same_key h (Some key)) None idx ht))"

definition zend_hash_index_del :: "64 word \<Rightarrow> 'v hash_table \<Rightarrow> (bool \<times> 'v hash_table) option" where
  "zend_hash_index_del h ht =
     (if packed ht
      then if unat h < nNumUsed ht
           then Option.bind (bucket_at ht (unat h)) (\<lambda>b.
             if z_val b \<noteq> None then map_option (Pair True) (zend_hash_del_el_ex (unat h) None ht) else Some (False, ht))
           else Some (False, ht)
      else Option.bind (HT_HASH ht (nIndex h ht)) (\<lambda>idx. del_loop (same_key h None) None idx ht))"

text \<open>The destructor is called for what is defined; without holes it is not looked whether something is.\<close>

definition destroy_at :: "nat \<Rightarrow> 'v hash_table \<Rightarrow> 'v hash_table option" where
  "destroy_at i ht = do {
     b \<leftarrow> bucket_at ht i;
     (case z_val b of
        None \<Rightarrow> if HT_IS_WITHOUT_HOLES ht then None else Some ht
      | Some v \<Rightarrow> Some (call_destructor v ht))
   }"

definition zend_hash_clean :: "'v hash_table \<Rightarrow> 'v hash_table option" where
  "zend_hash_clean ht = do {
     ht \<leftarrow> (if nNumUsed ht \<noteq> 0
           then do {
             ht \<leftarrow> (if pDestructor ht then for_each destroy_at [0..<nNumUsed ht] ht else Some ht);
             Some (if \<not> packed ht then HT_HASH_RESET ht else ht)
           }
           else Some ht);
     Some (ht\<lparr>nNumUsed := 0, nNumOfElements := 0, nNextFreeElement := 0, nInternalPointer := None\<rparr>)
   }"

section \<open>Applying functions\<close>

definition ZEND_HASH_APPLY_REMOVE :: "32 word" where "ZEND_HASH_APPLY_REMOVE = 1"
definition ZEND_HASH_APPLY_STOP :: "32 word" where "ZEND_HASH_APPLY_STOP = 2"

text \<open>The function sees the value and may change it; its result says what becomes of the element.\<close>

definition apply_at :: "('v \<Rightarrow> 'v \<times> 32 word) \<Rightarrow> nat \<Rightarrow> 'v hash_table \<Rightarrow> (bool \<times> 'v hash_table) option" where
  "apply_at f idx ht = do {
     p \<leftarrow> bucket_at ht idx;
     (case z_val p of
        None \<Rightarrow> Some (False, ht)
      | Some v \<Rightarrow> do {
          let (v', result) = f v;
          ht \<leftarrow> bucket_write idx (p\<lparr>z_val := Some v'\<rparr>) ht;
          ht \<leftarrow> (if result AND ZEND_HASH_APPLY_REMOVE \<noteq> 0 then zend_hash_del_el idx ht else Some ht);
          Some (result AND ZEND_HASH_APPLY_STOP \<noteq> 0, ht)
        })
   }"

partial_function (option) hash_apply_loop :: "('v \<Rightarrow> 'v \<times> 32 word) \<Rightarrow> nat \<Rightarrow> 'v hash_table \<Rightarrow> 'v hash_table option" where
  "hash_apply_loop f idx ht =
     (if nNumUsed ht \<le> idx then Some ht
      else Option.bind (apply_at f idx ht) (\<lambda>(stop, ht). if stop then Some ht else hash_apply_loop f (Suc idx) ht))"

definition zend_hash_apply :: "('v \<Rightarrow> 'v \<times> 32 word) \<Rightarrow> 'v hash_table \<Rightarrow> 'v hash_table option" where
  "zend_hash_apply f ht = hash_apply_loop f 0 ht"

fun hash_reverse_loop :: "('v \<Rightarrow> 'v \<times> 32 word) \<Rightarrow> nat \<Rightarrow> 'v hash_table \<Rightarrow> 'v hash_table option" where
  "hash_reverse_loop f 0 ht = Some ht"
| "hash_reverse_loop f (Suc idx) ht =
     Option.bind (apply_at f idx ht) (\<lambda>(stop, ht). if stop then Some ht else hash_reverse_loop f idx ht)"

definition zend_hash_reverse_apply :: "('v \<Rightarrow> 'v \<times> 32 word) \<Rightarrow> 'v hash_table \<Rightarrow> 'v hash_table option" where
  "zend_hash_reverse_apply f ht = hash_reverse_loop f (nNumUsed ht) ht"

section \<open>Positions\<close>

fun last_defined :: "nat \<Rightarrow> 'v hash_table \<Rightarrow> nat option option" where
  "last_defined 0 ht = Some None"
| "last_defined (Suc n) ht = Option.bind (bucket_at ht n) (\<lambda>b. if z_val b \<noteq> None then Some (Some n) else last_defined n ht)"

definition zend_hash_internal_pointer_reset_ex :: "'v hash_table \<Rightarrow> nat option option" where
  "zend_hash_internal_pointer_reset_ex ht = next_defined 0 ht"

definition zend_hash_internal_pointer_end_ex :: "'v hash_table \<Rightarrow> nat option option" where
  "zend_hash_internal_pointer_end_ex ht = last_defined (nNumUsed ht) ht"

text \<open>The result is whether the position was valid, and the new one.\<close>

definition zend_hash_move_forward_ex :: "nat option \<Rightarrow> 'v hash_table \<Rightarrow> (bool \<times> nat option) option" where
  "zend_hash_move_forward_ex pos ht = (case pos of None \<Rightarrow> Some (False, None) | Some idx \<Rightarrow> map_option (Pair True) (next_defined (idx + 1) ht))"

definition zend_hash_move_backwards_ex :: "nat option \<Rightarrow> 'v hash_table \<Rightarrow> (bool \<times> nat option) option" where
  "zend_hash_move_backwards_ex pos ht = (case pos of None \<Rightarrow> Some (False, None) | Some idx \<Rightarrow> map_option (Pair True) (last_defined idx ht))"

datatype hash_key = Name string | Num "64 word"

definition bucket_key :: "'v zbucket \<Rightarrow> hash_key" where
  "bucket_key b = (case z_key b of Some k \<Rightarrow> Name k | None \<Rightarrow> Num (z_h b))"

definition zend_hash_get_current_key_ex :: "nat option \<Rightarrow> 'v hash_table \<Rightarrow> hash_key option option" where
  "zend_hash_get_current_key_ex pos ht =
     (case pos of None \<Rightarrow> Some None | Some idx \<Rightarrow> map_option (\<lambda>p. Some (bucket_key p)) (bucket_at ht idx))"

definition zend_hash_get_current_data_ex :: "nat option \<Rightarrow> 'v hash_table \<Rightarrow> 'v option option" where
  "zend_hash_get_current_data_ex pos ht = value_of ht pos"

declare rehash_loop.simps [code] find_loop.simps [code] find_prev.simps [code] del_loop.simps [code] hash_apply_loop.simps [code]

end
