(* ===== verification/Zend_Hash_Lemmas.thy ===== *)
theory Zend_Hash_Lemmas
  imports Zend_Hash "HOL-Library.AList"
begin

text \<open>
  A hash table holds a list of entries, in the order of insertion, with keys that differ; each chain runs through the
  buckets of its place, the newest first. Every operation keeps the invariant \<open>table_ok\<close>, and does to the
  entries what an association list does.
\<close>

section \<open>The places of the chains\<close>

definition place :: "32 word \<Rightarrow> 64 word \<Rightarrow> nat" where
  "place m h = unat ((ucast h OR m) - m)"

lemma mask_place:
  assumes "k < 32" and "m = - (2 ^ k :: 32 word)"
  shows "place m h < 2 ^ k" and "unat (- m) = 2 ^ k"
proof -
  let ?x = "ucast h :: 32 word"
  have m: "m = NOT (mask k)" using assms(2) by (simp add: minus_exp_eq_not_mask)
  have "?x OR m = (?x AND mask k) OR m" unfolding m by (rule bit_eqI) (auto simp: bit_simps)
  also have "\<dots> = (?x AND mask k) + m"
  proof -
    have "(?x AND mask k) AND m = 0" unfolding m by (rule bit_eqI) (auto simp: bit_simps)
    then show ?thesis by (simp add: disjunctive_add_eq_or)
  qed
  finally have "place m h = unat (take_bit k ?x)" by (simp add: place_def take_bit_eq_mask)
  also have "\<dots> = take_bit k (unat ?x)" by (simp add: unsigned_take_bit_eq)
  finally show "place m h < 2 ^ k" by simp
  have "(2::nat) ^ k < 2 ^ 32" using assms(1) by (intro power_strict_increasing) simp_all
  then have "unat (word_of_nat (2 ^ k) :: 32 word) = 2 ^ k" using assms(1) by (simp add: unsigned_of_nat take_bit_nat_eq_self del: of_nat_power)
  then have "unat (2 ^ k :: 32 word) = 2 ^ k" by simp
  then show "unat (- m) = 2 ^ k" using assms(2) by simp
qed

section \<open>Buckets and entries\<close>

definition bkt :: "'v zbucket option list \<Rightarrow> nat \<Rightarrow> 'v zbucket option" where
  "bkt ar i = Option.bind (nth_opt ar i) (\<lambda>b. b)"

lemma bucket_at_bkt [simp]: "bucket_at ht i = bkt (arData ht) i"
  by (simp add: bucket_at_def bkt_def)

lemma bkt_update: "i < length ar \<Longrightarrow> bkt (ar[i := Some b]) j = (if j = i then Some b else bkt ar j)"
  by (auto simp: bkt_def nth_opt_def)

lemma bkt_length: "bkt ar i = Some b \<Longrightarrow> i < length ar"
  by (auto simp: bkt_def nth_opt_def split: if_splits)

definition entry :: "'v zbucket option list \<Rightarrow> nat \<Rightarrow> (hash_key \<times> 'v) list" where
  "entry ar i = (case bkt ar i of None \<Rightarrow> [] | Some b \<Rightarrow> (case z_val b of None \<Rightarrow> [] | Some v \<Rightarrow> [(bucket_key b, v)]))"

definition entries :: "'v zbucket option list \<Rightarrow> nat \<Rightarrow> (hash_key \<times> 'v) list" where
  "entries ar n = concat (map (entry ar) [0..<n])"

definition hash_entries :: "'v hash_table \<Rightarrow> (hash_key \<times> 'v) list" where
  "hash_entries ht = entries (arData ht) (nNumUsed ht)"

definition defined :: "'v zbucket option list \<Rightarrow> nat \<Rightarrow> bool" where
  "defined ar i \<longleftrightarrow> (\<exists>b. bkt ar i = Some b \<and> z_val b \<noteq> None)"

lemma entries_0 [simp]: "entries ar 0 = []"
  by (simp add: entries_def)

lemma entries_Suc: "entries ar (Suc n) = entries ar n @ entry ar n"
  by (simp add: entries_def)

lemma entries_cong: "(\<And>i. i < n \<Longrightarrow> bkt ar' i = bkt ar i) \<Longrightarrow> entries ar' n = entries ar n"
  unfolding entries_def entry_def by (intro arg_cong [where f = concat] map_cong) auto

lemma entry_nil: "entry ar i = [] \<longleftrightarrow> \<not> defined ar i"
  by (auto simp: entry_def defined_def split: option.splits)

lemma entry_Some: "bkt ar i = Some b \<Longrightarrow> z_val b = Some v \<Longrightarrow> entry ar i = [(bucket_key b, v)]"
  by (simp add: entry_def)

lemma update_new: "k \<notin> fst ` set xs \<Longrightarrow> AList.update k v xs = xs @ [(k, v)]"
  by (induction xs) auto

lemma update_mid: "k \<notin> fst ` set xs \<Longrightarrow> AList.update k v (xs @ (k, w) # ys) = xs @ (k, v) # ys"
  by (induction xs) auto

lemma delete_not: "k \<notin> fst ` set xs \<Longrightarrow> AList.delete k xs = xs"
  by (induction xs) auto

lemma delete_mid: "k \<notin> fst ` set xs \<Longrightarrow> k \<notin> fst ` set ys \<Longrightarrow> AList.delete k (xs @ (k, w) # ys) = xs @ ys"
  by (induction xs) (auto simp: delete_not)

lemma bucket_key_updates [simp]: "bucket_key (b\<lparr>z_val := x\<rparr>) = bucket_key b" "bucket_key (b\<lparr>z_next := y\<rparr>) = bucket_key b"
  by (simp_all add: bucket_key_def split: option.split)

text \<open>The entries around a bucket.\<close>

lemma entries_split:
  assumes "i < n"
  shows "entries ar n = entries ar i @ entry ar i @ concat (map (entry ar) [Suc i..<n])"
proof -
  have "[0..<n] = [0..<i] @ i # [Suc i..<n]"
    using assms by (metis less_imp_le_nat upt_add_eq_append upt_conv_Cons le_add_diff_inverse zero_le)
  then show ?thesis by (simp add: entries_def)
qed

lemma entries_at_most: "length (entries ar n) \<le> n"
  by (induction n) (auto simp: entries_Suc entry_def split: option.splits)

lemma entries_set: "(K, v) \<in> set (entries ar n) \<longleftrightarrow> (\<exists>i<n. \<exists>b. bkt ar i = Some b \<and> z_val b = Some v \<and> bucket_key b = K)"
  by (force simp: entries_def entry_def split: option.splits)

lemma entries_all_defined: "length (entries ar n) = n \<longleftrightarrow> (\<forall>i<n. defined ar i)"
proof (induction n)
  case (Suc n)
  have "length (entry ar n) = (if defined ar n then 1 else 0)"
    by (auto simp: entry_def defined_def split: option.splits)
  then show ?case using Suc entries_at_most [of ar n] by (auto simp: entries_Suc less_Suc_eq)
qed simp

text \<open>Two buckets do not have the same key when the keys of the entries differ.\<close>

lemma entries_inj:
  assumes d: "distinct (map fst (entries ar n))" and "i < n" "j < n" and "bkt ar i = Some b" "bkt ar j = Some c"
    and "z_val b \<noteq> None" "z_val c \<noteq> None" and k: "bucket_key b = bucket_key c"
  shows "i = j"
proof (rule ccontr)
  assume "i \<noteq> j"
  then obtain a z x y where az: "a < z" "z < n" "bkt ar a = Some x" "bkt ar z = Some y" "z_val x \<noteq> None" "z_val y \<noteq> None"
    "bucket_key x = bucket_key y"
    using assms by (metis nat_neq_iff)
  obtain v w where vw: "z_val x = Some v" "z_val y = Some w" using az by auto
  have "(bucket_key x, v) \<in> set (entries ar z)" using az vw by (auto simp: entries_set)
  moreover have "entries ar n = entries ar z @ [(bucket_key y, w)] @ concat (map (entry ar) [Suc z..<n])"
    using entries_split [OF az(2), of ar] entry_Some [OF az(4) vw(2)] by simp
  then have "bucket_key y \<notin> fst ` set (entries ar z)" using d by auto
  ultimately show False using az(7) by force
qed

lemma entries_value:
  assumes d: "distinct (map fst (entries ar n))" and i: "i < n" and b: "bkt ar i = Some b" "z_val b = Some w"
  shows "entries (ar[i := Some (b\<lparr>z_val := Some v\<rparr>)]) n = AList.update (bucket_key b) v (entries ar n)"
proof -
  let ?ar = "ar[i := Some (b\<lparr>z_val := Some v\<rparr>)]"
  have il: "i < length ar" using b(1) by (rule bkt_length)
  have other: "entry ?ar j = entry ar j" if "j \<noteq> i" for j using that by (simp add: entry_def bkt_update [OF il])
  have new: "entry ?ar i = [(bucket_key b, v)]" by (simp add: entry_def bkt_update [OF il])
  have pre: "entries ?ar i = entries ar i" by (rule entries_cong) (simp add: bkt_update [OF il])
  have post: "map (entry ?ar) [Suc i..<n] = map (entry ar) [Suc i..<n]" using other by simp
  have e: "entries ar n = entries ar i @ (bucket_key b, w) # concat (map (entry ar) [Suc i..<n])"
    using entries_split [OF i, of ar] entry_Some [OF b] by simp
  then have "bucket_key b \<notin> fst ` set (entries ar i)" using d by auto
  then have "AList.update (bucket_key b) v (entries ar n) = entries ar i @ (bucket_key b, v) # concat (map (entry ar) [Suc i..<n])"
    unfolding e by (rule update_mid)
  then show ?thesis using entries_split [OF i, of ?ar] pre post new by simp
qed

lemma entries_undef:
  assumes d: "distinct (map fst (entries ar n))" and i: "i < n" and b: "bkt ar i = Some b" "z_val b = Some w"
  shows "entries (ar[i := Some (b\<lparr>z_val := None\<rparr>)]) n = AList.delete (bucket_key b) (entries ar n)"
proof -
  let ?ar = "ar[i := Some (b\<lparr>z_val := None\<rparr>)]"
  have il: "i < length ar" using b(1) by (rule bkt_length)
  have other: "entry ?ar j = entry ar j" if "j \<noteq> i" for j using that by (simp add: entry_def bkt_update [OF il])
  have new: "entry ?ar i = []" by (simp add: entry_def bkt_update [OF il])
  have pre: "entries ?ar i = entries ar i" by (rule entries_cong) (simp add: bkt_update [OF il])
  have post: "map (entry ?ar) [Suc i..<n] = map (entry ar) [Suc i..<n]" using other by simp
  let ?k = "bucket_key b"
  have e: "entries ar n = entries ar i @ (?k, w) # concat (map (entry ar) [Suc i..<n])"
    using entries_split [OF i, of ar] entry_Some [OF b] by simp
  then have "?k \<notin> fst ` set (entries ar i)" "?k \<notin> fst ` set (concat (map (entry ar) [Suc i..<n]))" using d by auto
  then have "AList.delete ?k (entries ar n) = entries ar i @ concat (map (entry ar) [Suc i..<n])"
    unfolding e by (rule delete_mid)
  then show ?thesis using entries_split [OF i, of ?ar] pre post new by simp
qed

text \<open>What counts of a bucket, apart from its place in a chain.\<close>

definition content :: "'v zbucket option list \<Rightarrow> nat \<Rightarrow> (64 word \<times> string option \<times> 'v option) option" where
  "content ar i = map_option (\<lambda>b. (z_h b, z_key b, z_val b)) (bkt ar i)"

lemma content_SomeD: "content ar i = Some (h, k, v) \<Longrightarrow> \<exists>b. bkt ar i = Some b \<and> z_h b = h \<and> z_key b = k \<and> z_val b = v"
  by (auto simp: content_def)

lemma entry_content: "content ar' j = content ar i \<Longrightarrow> entry ar' j = entry ar i"
  by (cases "bkt ar' j"; cases "bkt ar i") (auto simp: content_def entry_def bucket_key_def split: option.split)

lemma defined_content: "content ar' j = content ar i \<Longrightarrow> defined ar' j = defined ar i"
  by (metis entry_content entry_nil)

lemma entries_content:
  assumes "\<And>i. i < n \<Longrightarrow> content ar' i = content ar i"
  shows "entries ar' n = entries ar n"
  unfolding entries_def using assms by (intro arg_cong [where f = concat] map_cong) (auto intro: entry_content)

section \<open>Chains\<close>

primrec chain :: "'v zbucket option list \<Rightarrow> nat option \<Rightarrow> nat list \<Rightarrow> bool" where
  "chain ar x [] \<longleftrightarrow> x = None"
| "chain ar x (i # is) \<longleftrightarrow> x = Some i \<and> (\<exists>b. bkt ar i = Some b \<and> chain ar (z_next b) is)"

lemma chain_cong:
  "(\<And>i. i \<in> set is \<Longrightarrow> map_option z_next (bkt ar' i) = map_option z_next (bkt ar i)) \<Longrightarrow> chain ar' x is = chain ar x is"
proof (induction "is" arbitrary: x)
  case (Cons i "is")
  have "map_option z_next (bkt ar' i) = map_option z_next (bkt ar i)" using Cons.prems by simp
  then show ?case using Cons by (cases "bkt ar' i"; cases "bkt ar i") auto
qed simp

lemma chain_unique: "chain ar x is \<Longrightarrow> chain ar x js \<Longrightarrow> is = js"
proof (induction "is" arbitrary: x js)
  case Nil
  then show ?case by (cases js) auto
next
  case (Cons i "is")
  then show ?case by (cases js) auto
qed

text \<open>The buckets of a chain, among the first \<open>n\<close>.\<close>

definition in_place :: "32 word \<Rightarrow> 'v zbucket option list \<Rightarrow> nat \<Rightarrow> nat \<Rightarrow> bool" where
  "in_place m ar k i \<longleftrightarrow> defined ar i \<and> place m (z_h (the (bkt ar i))) = k"

definition members :: "32 word \<Rightarrow> 'v zbucket option list \<Rightarrow> nat \<Rightarrow> nat \<Rightarrow> nat list" where
  "members m ar n k = rev (filter (in_place m ar k) [0..<n])"

definition chains :: "32 word \<Rightarrow> nat option list \<Rightarrow> 'v zbucket option list \<Rightarrow> nat \<Rightarrow> bool" where
  "chains m hs ar n \<longleftrightarrow> (\<forall>k < length hs. chain ar (hs ! k) (members m ar n k))"

lemma members_set: "i \<in> set (members m ar n k) \<longleftrightarrow> i < n \<and> in_place m ar k i"
  by (auto simp: members_def)

lemma members_distinct: "distinct (members m ar n k)"
  by (simp add: members_def)

lemma members_Suc: "members m ar (Suc n) k = (if in_place m ar k n then n # members m ar n k else members m ar n k)"
  by (simp add: members_def)

lemma in_place_content: "content ar' i = content ar i \<Longrightarrow> in_place m ar' k i = in_place m ar k i"
  by (cases "bkt ar' i"; cases "bkt ar i") (auto simp: content_def in_place_def defined_def)

lemma members_content: "(\<And>i. i < n \<Longrightarrow> content ar' i = content ar i) \<Longrightarrow> members m ar' n k = members m ar n k"
  unfolding members_def by (intro arg_cong [where f = rev] filter_cong) (auto dest: in_place_content)

lemma chains_empty: "chains m (replicate k None) ar 0"
  by (simp add: chains_def members_def)

lemma HT_HASH_place: "place (nTableMask ht) h < length (hashes ht) \<Longrightarrow> HT_HASH ht (nIndex h ht) = Some (hashes ht ! place (nTableMask ht) h)"
  by (simp add: HT_HASH_def nIndex_def place_def)

lemma HT_HASH_write_place:
  "place (nTableMask ht) h < length (hashes ht) \<Longrightarrow>
    HT_HASH_write (nIndex h ht) x ht = Some (ht\<lparr>hashes := (hashes ht)[place (nTableMask ht) h := x]\<rparr>)"
  by (simp add: HT_HASH_write_def nIndex_def place_def Let_def)

lemma content_update:
  "i < length ar \<Longrightarrow> content (ar[i := Some b]) j = (if j = i then Some (z_h b, z_key b, z_val b) else content ar j)"
  by (simp add: content_def bkt_update)

text \<open>A bucket is put behind the others and in front of its chain.\<close>

lemma link_run:
  assumes c: "chains (nTableMask ht) (hashes ht) (arData ht) j" and p: "place (nTableMask ht) (z_h b) < length (hashes ht)"
    and j: "j < length (arData ht)" and v: "z_val b \<noteq> None"
  shows "\<exists>ar hs. link_bucket j b ht = Some (ht\<lparr>arData := ar, hashes := hs\<rparr>) \<and> length hs = length (hashes ht) \<and> length ar = length (arData ht)
    \<and> chains (nTableMask ht) hs ar (Suc j) \<and> (\<forall>i. content ar i = (if i = j then Some (z_h b, z_key b, z_val b) else content (arData ht) i))"
proof -
  let ?m = "nTableMask ht" and ?k = "place (nTableMask ht) (z_h b)"
  let ?b = "b\<lparr>z_next := hashes ht ! ?k\<rparr>"
  let ?ar = "(arData ht)[j := Some ?b]" and ?hs = "(hashes ht)[?k := Some j]"
  have run: "link_bucket j b ht = Some (ht\<lparr>arData := ?ar, hashes := ?hs\<rparr>)"
    using p j by (simp add: link_bucket_def HT_HASH_place bucket_write_def HT_HASH_write_place)
  have con: "content ?ar i = (if i = j then Some (z_h b, z_key b, z_val b) else content (arData ht) i)" for i
    using j by (simp add: content_update)
  have mem: "members ?m ?ar j k = members ?m (arData ht) j k" for k
    using con by (intro members_content) simp
  have ch: "chain ?ar x (members ?m (arData ht) j k) = chain (arData ht) x (members ?m (arData ht) j k)" for x k
    by (rule chain_cong) (auto simp: members_set bkt_update [OF j])
  have inp: "in_place ?m ?ar k j \<longleftrightarrow> k = ?k" for k
    using v by (auto simp: in_place_def defined_def bkt_update [OF j])
  have "chain ?ar (?hs ! k) (members ?m ?ar (Suc j) k)" if k: "k < length ?hs" for k
  proof (cases "k = ?k")
    case True
    then show ?thesis using c p by (simp add: members_Suc inp mem bkt_update [OF j] ch chains_def)
  next
    case False
    then show ?thesis using c k by (simp add: members_Suc inp mem ch chains_def)
  qed
  then have "chains ?m ?hs ?ar (Suc j)" by (simp add: chains_def)
  then show ?thesis using run con by (intro exI [of _ ?ar] exI [of _ ?hs]) simp
qed

end
