(* ===== verification/Zend_Rehash.thy ===== *)
theory Zend_Rehash
  imports Zend_Hash_Lemmas
begin

text \<open>
  Rehashing keeps the entries: the defined buckets move together, in their order, the chains are built anew, and the
  position of each bucket becomes its number among the defined ones.
\<close>

section \<open>Numbers of buckets\<close>

definition rank :: "'v zbucket option list \<Rightarrow> nat \<Rightarrow> nat" where
  "rank ar i = length (entries ar i)"

lemma rank_Suc: "rank ar (Suc i) = (if defined ar i then Suc (rank ar i) else rank ar i)"
  by (auto simp: rank_def entries_Suc entry_def defined_def split: option.splits)

lemma rank_le: "rank ar i \<le> i"
  by (simp add: rank_def entries_at_most)

lemma rank_mono: "i \<le> j \<Longrightarrow> rank ar i \<le> rank ar j"
  by (induction j) (auto simp: rank_Suc le_Suc_eq)

lemma rank_less: "defined ar i \<Longrightarrow> i < j \<Longrightarrow> rank ar i < rank ar j"
  using rank_mono [of "Suc i" j ar] by (simp add: rank_Suc)

lemma rank_id: "(\<And>q. q < i \<Longrightarrow> defined ar q) \<Longrightarrow> rank ar i = i"
  unfolding rank_def using entries_all_defined by blast

lemma rank_content: "(\<And>q. q < i \<Longrightarrow> content ar' q = content ar q) \<Longrightarrow> rank ar' i = rank ar i"
  unfolding rank_def by (rule arg_cong [where f = length], rule entries_content)

section \<open>The lowest position\<close>

definition lowest :: "nat option \<Rightarrow> nat option list \<Rightarrow> nat \<Rightarrow> bool" where
  "lowest r ps start \<longleftrightarrow> (case r of None \<Rightarrow> \<forall>q. Some q \<in> set ps \<longrightarrow> q < start
     | Some m \<Rightarrow> Some m \<in> set ps \<and> start \<le> m \<and> (\<forall>q. Some q \<in> set ps \<and> start \<le> q \<longrightarrow> m \<le> q))"

lemma lower_pos_lowest:
  assumes "lowest res ps start"
  shows "lowest (lower_pos start qs res) (ps @ qs) start"
  using assms
proof (induction qs arbitrary: ps res)
  case Nil
  then show ?case by simp
next
  case (Cons p qs)
  let ?r = "case p of None \<Rightarrow> res | Some q \<Rightarrow> if start \<le> q \<and> (case res of None \<Rightarrow> True | Some r \<Rightarrow> q < r) then Some q else res"
  have "lowest ?r (ps @ [p]) start"
    using Cons.prems by (cases p; cases res) (force simp: lowest_def)+
  from Cons.IH [OF this] show ?case by simp
qed

lemma iterators_lowest: "lowest (zend_hash_iterators_lower_pos ht start) (iterators ht) start"
proof -
  have "lowest None [] start" by (simp add: lowest_def)
  from lower_pos_lowest [OF this, of "iterators ht"] show ?thesis by (simp add: zend_hash_iterators_lower_pos_def)
qed

section \<open>Before the first hole\<close>

definition relinked :: "'v hash_table \<Rightarrow> nat \<Rightarrow> 'v hash_table \<Rightarrow> bool" where
  "relinked ht i t \<longleftrightarrow> (\<exists>ar hs. t = ht\<lparr>arData := ar, hashes := hs\<rparr> \<and> length ar = length (arData ht) \<and> length hs = length (hashes ht)
     \<and> chains (nTableMask ht) hs ar i \<and> (\<forall>q. content ar q = content (arData ht) q))"

definition places_fit :: "'v hash_table \<Rightarrow> bool" where
  "places_fit ht \<longleftrightarrow> (\<forall>h. place (nTableMask ht) h < length (hashes ht))"

lemma relink_step:
  assumes r: "relinked ht i t" and d: "defined (arData ht) i" and p: "places_fit ht"
  shows "\<exists>b t'. bucket_at t i = Some b \<and> z_val b \<noteq> None \<and> link_bucket i b t = Some t' \<and> relinked ht (Suc i) t'"
proof -
  obtain ar hs where t: "t = ht\<lparr>arData := ar, hashes := hs\<rparr>" "length ar = length (arData ht)" "length hs = length (hashes ht)"
    "chains (nTableMask ht) hs ar i" "\<forall>q. content ar q = content (arData ht) q" using r by (auto simp: relinked_def)
  have "defined ar i" using d t(5) defined_content by blast
  then obtain b where b: "bkt ar i = Some b" "z_val b \<noteq> None" by (auto simp: defined_def)
  have il: "i < length (arData t)" using bkt_length [OF b(1)] t(1) by simp
  have "chains (nTableMask t) (hashes t) (arData t) i" "place (nTableMask t) (z_h b) < length (hashes t)"
    using t p by (simp_all add: places_fit_def)
  from link_run [OF this il b(2)] obtain ar' hs' where l: "link_bucket i b t = Some (t\<lparr>arData := ar', hashes := hs'\<rparr>)"
    "length hs' = length (hashes t)" "length ar' = length (arData t)" "chains (nTableMask t) hs' ar' (Suc i)"
    "\<forall>q. content ar' q = (if q = i then Some (z_h b, z_key b, z_val b) else content (arData t) q)" by blast
  have "content ar' q = content (arData ht) q" for q
  proof -
    have "content ar i = Some (z_h b, z_key b, z_val b)" using b(1) by (simp add: content_def)
    then show ?thesis using l(5) t(1,5) by (cases "q = i") simp_all
  qed
  then have "relinked ht (Suc i) (t\<lparr>arData := ar', hashes := hs'\<rparr>)"
    unfolding relinked_def using t l(2-4) by (intro exI [of _ ar'] exI [of _ hs']) simp
  then show ?thesis using b l(1) t(1) by auto
qed

lemma relink_all:
  assumes "relinked ht 0 t" and "\<And>q. q < n \<Longrightarrow> defined (arData ht) q" and "places_fit ht"
  shows "\<exists>t'. for_each relink [0..<n] t = Some t' \<and> relinked ht n t'"
proof (rule for_each_upt [where P = "relinked ht", OF assms(1)])
  fix k t assume "k < n" "relinked ht k t"
  from relink_step [OF this(2) assms(2) [OF this(1)] assms(3)]
  show "\<exists>t'. relink k t = Some t' \<and> relinked ht (Suc k) t'" by (auto simp: relink_def)
qed simp

lemma rehash_loop_to:
  assumes "relinked ht i t" and "i \<le> n" and "\<And>q. q < n \<Longrightarrow> defined (arData ht) q" and "places_fit ht" and "n \<le> nNumUsed ht"
  shows "\<exists>t'. rehash_loop i t = rehash_loop n t' \<and> relinked ht n t'"
  using assms
proof (induction "n - i" arbitrary: i t)
  case 0
  then show ?case by auto
next
  case (Suc d)
  then have lt: "i < n" by simp
  obtain b t' where b: "bucket_at t i = Some b" "z_val b \<noteq> None" "link_bucket i b t = Some t'" "relinked ht (Suc i) t'"
    using relink_step [OF Suc.prems(1) Suc.prems(3) [OF lt] Suc.prems(4)] by blast
  have "i < nNumUsed t" using Suc.prems(1,5) lt by (auto simp: relinked_def)
  then have "rehash_loop i t = rehash_loop (Suc i) t'" using b by (subst rehash_loop.simps) auto
  then show ?case using Suc.hyps(1) [OF _ b(4)] Suc.hyps(2) Suc.prems(3-5) lt by simp
qed

section \<open>Behind the first hole\<close>

text \<open>Where a position goes when the buckets before \<open>i\<close> have moved.\<close>

definition moved :: "'v zbucket option list \<Rightarrow> nat \<Rightarrow> nat option \<Rightarrow> nat option" where
  "moved ar i p = map_option (\<lambda>q. if q < i then rank ar q else q) p"

definition positions_ok :: "'v zbucket option list \<Rightarrow> nat option list \<Rightarrow> bool" where
  "positions_ok ar ps \<longleftrightarrow> (\<forall>q. Some q \<in> set ps \<longrightarrow> defined ar q)"

lemma moved_Suc_hole: "\<not> defined ar i \<Longrightarrow> (\<And>q. p = Some q \<Longrightarrow> defined ar q) \<Longrightarrow> moved ar (Suc i) p = moved ar i p"
  by (cases p) (auto simp: moved_def less_Suc_eq)

lemma moved_Suc: "(if moved ar i p = Some i then Some (rank ar i) else moved ar i p) = moved ar (Suc i) p"
proof (cases p)
  case (Some q)
  have "rank ar q < i" if "q < i" using that rank_le [of ar q] by linarith
  then show ?thesis using Some by (auto simp: moved_def less_Suc_eq)
qed (simp add: moved_def)

text \<open>
  The iterators follow as the pointer does, unless one of them is before the first hole \<open>z\<close>: then the
  code waits for it in vain and moves none.
\<close>

definition iterators_at :: "'v hash_table \<Rightarrow> nat \<Rightarrow> nat \<Rightarrow> nat option \<Rightarrow> nat option list \<Rightarrow> bool" where
  "iterators_at ht z i iter_pos its \<longleftrightarrow>
     (if \<exists>q < z. Some q \<in> set (iterators ht) then its = iterators ht \<and> (\<exists>q < z. iter_pos = Some q)
      else its = map (moved (arData ht) i) (iterators ht) \<and> lowest iter_pos (iterators ht) i)"

definition compacted :: "'v hash_table \<Rightarrow> nat \<Rightarrow> nat \<Rightarrow> nat \<times> nat option \<times> 'v hash_table \<Rightarrow> bool" where
  "compacted ht z i s \<longleftrightarrow> (case s of (j, iter_pos, t) \<Rightarrow>
     \<exists>ar hs ptr its. t = ht\<lparr>arData := ar, hashes := hs, nInternalPointer := ptr, iterators := its\<rparr>
     \<and> length ar = length (arData ht) \<and> length hs = length (hashes ht) \<and> j = rank (arData ht) i
     \<and> chains (nTableMask ht) hs ar j \<and> (\<forall>q \<ge> i. content ar q = content (arData ht) q)
     \<and> (\<forall>q < i. defined (arData ht) q \<longrightarrow> content ar (rank (arData ht) q) = content (arData ht) q)
     \<and> entries ar j = entries (arData ht) i
     \<and> ptr = moved (arData ht) i (nInternalPointer ht)
     \<and> (positions_ok (arData ht) (iterators ht) \<longrightarrow> iterators_at ht z i iter_pos its))"

lemma iterators_at_hole:
  assumes "iterators_at ht z i iter_pos its" and "\<not> defined (arData ht) i" and ok: "positions_ok (arData ht) (iterators ht)"
  shows "iterators_at ht z (Suc i) iter_pos its"
proof (cases "\<exists>q < z. Some q \<in> set (iterators ht)")
  case True
  then show ?thesis using assms(1) by (simp add: iterators_at_def)
next
  case False
  have "map (moved (arData ht) (Suc i)) (iterators ht) = map (moved (arData ht) i) (iterators ht)"
    using ok assms(2) by (intro map_cong refl moved_Suc_hole) (auto simp: positions_ok_def)
  moreover have "Some i \<notin> set (iterators ht)" using ok assms(2) by (auto simp: positions_ok_def)
  then have "lowest iter_pos (iterators ht) (Suc i)" if "lowest iter_pos (iterators ht) i"
    using that by (auto simp: lowest_def less_Suc_eq Suc_le_eq le_eq_less_or_eq split: option.splits)
  ultimately show ?thesis using assms(1) False by (auto simp: iterators_at_def)
qed

lemma lowest_moved:
  assumes "lowest r (map (moved ar (Suc i)) ps) (Suc i)"
  shows "lowest r ps (Suc i)"
proof -
  have m: "Some q \<in> set (map (moved ar (Suc i)) ps) \<longleftrightarrow> Some q \<in> set ps" if q: "Suc i \<le> q" for q
  proof -
    have "moved ar (Suc i) p = Some q \<longleftrightarrow> p = Some q" for p
    proof (cases p)
      case (Some x)
      have "rank ar x < q" if "x < Suc i" using that rank_le [of ar x] q by linarith
      then show ?thesis using Some q by (auto simp: moved_def)
    qed (simp add: moved_def)
    then show ?thesis by force
  qed
  have "q < Suc i" if "Some q \<in> set ps" "\<forall>q. Some q \<in> set (map (moved ar (Suc i)) ps) \<longrightarrow> q < Suc i" for q
    using that m [of q] by (meson not_less)
  then show ?thesis using assms m unfolding lowest_def by (cases r) auto
qed

lemma iterators_at_step:
  assumes it: "iterators_at ht z i iter_pos its" and z: "z < i" and t: "iterators t = its"
  shows "if iter_pos = Some i
    then iterators_at ht z (Suc i) (zend_hash_iterators_lower_pos (zend_hash_iterators_update (Some i) (Some (rank (arData ht) i)) t) (i + 1))
           (iterators (zend_hash_iterators_update (Some i) (Some (rank (arData ht) i)) t))
    else iterators_at ht z (Suc i) iter_pos its"
proof (cases "\<exists>q < z. Some q \<in> set (iterators ht)")
  case True
  then show ?thesis using it z by (auto simp: iterators_at_def)
next
  case False
  then have its: "its = map (moved (arData ht) i) (iterators ht)" "lowest iter_pos (iterators ht) i"
    using it by (simp_all only: iterators_at_def if_False)
  have step: "map (\<lambda>p. if p = Some i then Some (rank (arData ht) i) else p) its = map (moved (arData ht) (Suc i)) (iterators ht)"
    unfolding its(1) by (simp add: moved_Suc comp_def)
  show ?thesis
  proof (cases "iter_pos = Some i")
    case True
    let ?u = "zend_hash_iterators_update (Some i) (Some (rank (arData ht) i)) t"
    have u: "iterators ?u = map (moved (arData ht) (Suc i)) (iterators ht)" using step t by (simp add: zend_hash_iterators_update_def)
    have "lowest (zend_hash_iterators_lower_pos ?u (i + 1)) (iterators ht) (Suc i)"
      using iterators_lowest [of ?u "i + 1"] unfolding u by (simp add: lowest_moved)
    then show ?thesis using True False u by (auto simp: iterators_at_def)
  next
    case ne: False
    have no: "Some i \<notin> set (iterators ht)" using its(2) ne by (fastforce simp: lowest_def split: option.splits)
    have "moved (arData ht) i p \<noteq> Some i" if "p \<in> set (iterators ht)" for p
    proof (cases p)
      case (Some q)
      then show ?thesis using that no rank_le [of "arData ht" q] by (auto simp: moved_def)
    qed (simp add: moved_def)
    then have "map (\<lambda>p. if p = Some i then Some (rank (arData ht) i) else p) its = its" unfolding its(1) by auto
    then have "its = map (moved (arData ht) (Suc i)) (iterators ht)" using step by simp
    moreover have "lowest iter_pos (iterators ht) (Suc i)"
      using its(2) no by (auto simp: lowest_def less_Suc_eq Suc_le_eq le_eq_less_or_eq split: option.splits)
    ultimately show ?thesis using ne False by (auto simp: iterators_at_def)
  qed
qed

lemma move_down_step:
  assumes c: "compacted ht z i s" and z: "z < i" and i: "bkt (arData ht) i \<noteq> None" and p: "places_fit ht"
    and ptr: "positions_ok (arData ht) [nInternalPointer ht]"
  shows "\<exists>s'. move_down i s = Some s' \<and> compacted ht z (Suc i) s'"
proof -
  let ?ar = "arData ht"
  obtain j ip t where s: "s = (j, ip, t)" by (cases s)
  obtain ar hs its where t: "t = ht\<lparr>arData := ar, hashes := hs, nInternalPointer := moved ?ar i (nInternalPointer ht), iterators := its\<rparr>"
    "length ar = length ?ar" "length hs = length (hashes ht)" "j = rank ?ar i" "chains (nTableMask ht) hs ar j"
    "\<forall>q \<ge> i. content ar q = content ?ar q" "\<forall>q < i. defined ?ar q \<longrightarrow> content ar (rank ?ar q) = content ?ar q"
    "entries ar j = entries ?ar i" and its: "positions_ok ?ar (iterators ht) \<Longrightarrow> iterators_at ht z i ip its"
    using c unfolding s compacted_def by auto
  have ci: "content ar i = content ?ar i" using t(6) by simp
  then obtain b where b: "bkt ar i = Some b" using i by (cases "bkt ar i") (auto simp: content_def)
  have pd: "nInternalPointer ht = Some q \<Longrightarrow> defined ?ar q" for q using ptr by (simp add: positions_ok_def)
  show ?thesis
  proof (cases "defined ?ar i")
    case False
    then have "z_val b = None" using ci b by (metis defined_def defined_content)
    then have run: "move_down i s = Some (j, ip, t)" using b by (simp add: s move_down_def t(1))
    have r: "rank ?ar (Suc i) = rank ?ar i" "moved ?ar (Suc i) (nInternalPointer ht) = moved ?ar i (nInternalPointer ht)"
      "entries ?ar (Suc i) = entries ?ar i"
      using False pd by (simp_all add: rank_Suc moved_Suc_hole entries_Suc entry_nil)
    have "compacted ht z (Suc i) (j, ip, t)"
      unfolding compacted_def prod.case
    proof (intro exI conjI)
      show "t = ht\<lparr>arData := ar, hashes := hs, nInternalPointer := moved ?ar i (nInternalPointer ht), iterators := its\<rparr>" by (rule t(1))
      show "positions_ok ?ar (iterators ht) \<longrightarrow> iterators_at ht z (Suc i) ip its" using its False iterators_at_hole by blast
      show "\<forall>q < Suc i. defined ?ar q \<longrightarrow> content ar (rank ?ar q) = content ?ar q" using t(7) False by (auto simp: less_Suc_eq)
    qed (use t r in simp_all)
    then show ?thesis using run by blast
  next
    case True
    then have v: "z_val b \<noteq> None" using ci b by (metis defined_def defined_content option.inject)
    have ji: "j \<le> i" using t(4) rank_le by simp
    then have jl: "j < length (arData t)" using bkt_length [OF b] t(1) by simp
    have "chains (nTableMask t) (hashes t) (arData t) j" "place (nTableMask t) (z_h b) < length (hashes t)"
      using t p by (simp_all add: places_fit_def)
    from link_run [OF this jl v] obtain ar' hs' where l: "link_bucket j b t = Some (t\<lparr>arData := ar', hashes := hs'\<rparr>)"
      "length hs' = length (hashes t)" "length ar' = length (arData t)" "chains (nTableMask t) hs' ar' (Suc j)"
      "\<forall>q. content ar' q = (if q = j then Some (z_h b, z_key b, z_val b) else content (arData t) q)" by blast
    have cb: "Some (z_h b, z_key b, z_val b) = content ?ar i" using ci b by (simp add: content_def)
    have con: "content ar' q = (if q = j then content ?ar i else content ar q)" for q using l(5) t(1) cb by simp
    let ?t = "t\<lparr>arData := ar', hashes := hs', nInternalPointer := moved ?ar (Suc i) (nInternalPointer ht)\<rparr>"
    let ?new = "if ip = Some i then zend_hash_iterators_update (Some i) (Some j) ?t else ?t"
    let ?ip = "if ip = Some i then zend_hash_iterators_lower_pos (zend_hash_iterators_update (Some i) (Some j) ?t) (i + 1) else ip"
    have "(if moved ?ar i (nInternalPointer ht) = Some i then Some j else moved ?ar i (nInternalPointer ht)) = moved ?ar (Suc i) (nInternalPointer ht)"
      unfolding t(4) by (rule moved_Suc)
    moreover define u where "u = t\<lparr>arData := ar', hashes := hs'\<rparr>"
    ultimately have ptr': "(if nInternalPointer u = Some i then u\<lparr>nInternalPointer := Some j\<rparr> else u) = ?t"
      by (auto simp: t(1))
    have lu: "link_bucket j b t = Some u" using l(1) by (simp add: u_def)
    have b': "bkt (arData t) i = Some b" using b t(1) by simp
    have run: "move_down i s = Some (Suc j, ?ip, ?new)"
      using v by (auto simp: s move_down_def b' lu ptr' Let_def)
    let ?its = "if ip = Some i then map (\<lambda>p. if p = Some i then Some j else p) its else its"
    have new: "?new = ht\<lparr>arData := ar', hashes := hs', nInternalPointer := moved ?ar (Suc i) (nInternalPointer ht), iterators := ?its\<rparr>"
      by (simp add: t(1) zend_hash_iterators_update_def)
    have "compacted ht z (Suc i) (Suc j, ?ip, ?new)"
      unfolding compacted_def prod.case
    proof (intro exI conjI)
      show "?new = ht\<lparr>arData := ar', hashes := hs', nInternalPointer := moved ?ar (Suc i) (nInternalPointer ht), iterators := ?its\<rparr>" by (rule new)
      show "positions_ok ?ar (iterators ht) \<longrightarrow> iterators_at ht z (Suc i) ?ip ?its"
      proof
        assume "positions_ok ?ar (iterators ht)"
        from iterators_at_step [OF its [OF this] z, of ?t, folded t(4)] show "iterators_at ht z (Suc i) ?ip ?its"
          by (simp add: t(1) zend_hash_iterators_update_def split: if_splits)
      qed
      show "\<forall>q < Suc i. defined ?ar q \<longrightarrow> content ar' (rank ?ar q) = content ?ar q"
      proof (intro allI impI)
        fix q assume q: "q < Suc i" "defined ?ar q"
        show "content ar' (rank ?ar q) = content ?ar q"
        proof (cases "q = i")
          case False
          then have "q < i" using q(1) by simp
          moreover have "rank ?ar q \<noteq> j" using rank_less [OF q(2) \<open>q < i\<close>] t(4) by simp
          ultimately show ?thesis using t(7) q(2) con by simp
        qed (simp add: con t(4))
      qed
      have "entries ar' j = entries ar j" by (rule entries_content) (simp add: con)
      moreover have "entry ar' j = entry ?ar i" by (rule entry_content) (simp add: con)
      ultimately show "entries ar' (Suc j) = entries ?ar (Suc i)" using t(8) by (simp add: entries_Suc)
    qed (use t l con ji True in \<open>auto simp: rank_Suc\<close>)
    then show ?thesis using run by blast
  qed
qed

section \<open>The whole\<close>

text \<open>What a table has to satisfy for being rehashed: its chains do not matter.\<close>

definition can_rehash :: "'v hash_table \<Rightarrow> bool" where
  "can_rehash ht \<longleftrightarrow> initialized ht \<and> nNumOfElements ht = length (hash_entries ht) \<and> (\<forall>i < nNumUsed ht. bkt (arData ht) i \<noteq> None)
     \<and> (\<forall>q. nInternalPointer ht = Some q \<longrightarrow> q < nNumUsed ht \<and> defined (arData ht) q)
     \<and> (\<forall>h. place (nTableMask ht) h < unat (- nTableMask ht))"

definition rehashed :: "'v hash_table \<Rightarrow> 'v hash_table \<Rightarrow> bool" where
  "rehashed ht u \<longleftrightarrow> (\<exists>ar hs its. u = ht\<lparr>arData := ar, hashes := hs, nNumUsed := rank (arData ht) (nNumUsed ht),
       nInternalPointer := map_option (rank (arData ht)) (nInternalPointer ht), iterators := its\<rparr>
     \<and> length ar = length (arData ht) \<and> length hs = unat (- nTableMask ht)
     \<and> chains (nTableMask ht) hs ar (rank (arData ht) (nNumUsed ht))
     \<and> (\<forall>q < nNumUsed ht. defined (arData ht) q \<longrightarrow> content ar (rank (arData ht) q) = content (arData ht) q)
     \<and> entries ar (rank (arData ht) (nNumUsed ht)) = hash_entries ht
     \<and> (if rank (arData ht) (nNumUsed ht) = nNumUsed ht \<or> nNumOfElements ht = 0 then its = iterators ht
        else \<forall>z. z < nNumUsed ht \<and> \<not> defined (arData ht) z \<and> (\<forall>q < z. defined (arData ht) q) \<and> positions_ok (arData ht) (iterators ht)
           \<longrightarrow> its = (if \<exists>q < z. Some q \<in> set (iterators ht) then iterators ht
                     else map (moved (arData ht) (nNumUsed ht)) (iterators ht))))"

lemma moved_all: "(\<And>q. p = Some q \<Longrightarrow> q < n) \<Longrightarrow> moved ar n p = map_option (rank ar) p"
  by (cases p) (simp_all add: moved_def)

lemma rehash_empty:
  assumes c: "can_rehash ht" and e: "nNumOfElements ht = 0"
  shows "\<exists>u. zend_hash_rehash ht = Some u \<and> rehashed ht u"
proof -
  let ?u = "HT_HASH_RESET (ht\<lparr>nNumUsed := 0\<rparr>)"
  have h: "hash_entries ht = []" using c e by (simp add: can_rehash_def)
  then have r: "rank (arData ht) (nNumUsed ht) = 0" by (simp add: rank_def hash_entries_def)
  have nd: "\<not> defined (arData ht) q" if "q < nNumUsed ht" for q
    using rank_less [of "arData ht" q "nNumUsed ht"] that r by auto
  then have p: "nInternalPointer ht = None" using c by (cases "nInternalPointer ht") (auto simp: can_rehash_def)
  have "zend_hash_rehash ht = Some ?u" using e c by (simp add: zend_hash_rehash_def can_rehash_def)
  moreover have "rehashed ht ?u"
    unfolding rehashed_def r using h p e nd
    by (intro exI [of _ "arData ht"] exI [of _ "replicate (unat (- nTableMask ht)) None"] exI [of _ "iterators ht"])
      (simp add: HT_HASH_RESET_def chains_empty)
  ultimately show ?thesis by blast
qed

lemma reset_relinked: "relinked (HT_HASH_RESET ht) 0 (HT_HASH_RESET ht)"
  unfolding relinked_def
  by (intro exI [of _ "arData ht"] exI [of _ "replicate (unat (- nTableMask ht)) None"]) (simp add: HT_HASH_RESET_def chains_empty)

lemma rehash_full:
  assumes c: "can_rehash ht" and e: "nNumOfElements ht \<noteq> 0" and full: "HT_IS_WITHOUT_HOLES ht"
  shows "\<exists>u. zend_hash_rehash ht = Some u \<and> rehashed ht u"
proof -
  let ?h = "HT_HASH_RESET ht" and ?n = "nNumUsed ht"
  have "length (entries (arData ht) ?n) = ?n"
    using c full by (simp add: can_rehash_def HT_IS_WITHOUT_HOLES_def hash_entries_def)
  then have d: "\<And>q. q < ?n \<Longrightarrow> defined (arData ht) q" by (simp add: entries_all_defined)
  then have r: "rank (arData ht) q = q" if "q \<le> ?n" for q using that by (intro rank_id) simp
  have "places_fit ?h" using c by (simp add: places_fit_def can_rehash_def HT_HASH_RESET_def)
  moreover have "\<And>q. q < ?n \<Longrightarrow> defined (arData ?h) q" using d by (simp add: HT_HASH_RESET_def)
  ultimately obtain t where t: "for_each relink [0..<?n] ?h = Some t" "relinked ?h ?n t"
    using relink_all [OF reset_relinked, of ?n ht] by blast
  then obtain ar hs where u: "t = ?h\<lparr>arData := ar, hashes := hs\<rparr>" "length ar = length (arData ht)" "length hs = unat (- nTableMask ht)"
    "chains (nTableMask ht) hs ar ?n" "\<forall>q. content ar q = content (arData ht) q" by (auto simp: relinked_def HT_HASH_RESET_def)
  have run: "zend_hash_rehash ht = Some t"
    using e full t(1) by (simp add: zend_hash_rehash_def HT_IS_WITHOUT_HOLES_def HT_HASH_RESET_def Let_def)
  have p: "map_option (rank (arData ht)) (nInternalPointer ht) = nInternalPointer ht"
    using c r by (cases "nInternalPointer ht") (simp_all add: can_rehash_def)
  have en: "entries ar ?n = hash_entries ht" unfolding hash_entries_def by (rule entries_content) (simp add: u(5))
  have "rehashed ht t"
    unfolding rehashed_def r [OF le_refl] p using u en r
    by (intro exI [of _ ar] exI [of _ hs] exI [of _ "iterators ht"]) (simp add: HT_HASH_RESET_def)
  then show ?thesis using run by blast
qed

lemma rehash_holes:
  assumes c: "can_rehash ht" and e: "nNumOfElements ht \<noteq> 0" and holes: "\<not> HT_IS_WITHOUT_HOLES ht"
  shows "\<exists>u. zend_hash_rehash ht = Some u \<and> rehashed ht u"
proof -
  let ?h = "HT_HASH_RESET ht" and ?n = "nNumUsed ht" and ?ar = "arData ht"
  have h: "arData ?h = ?ar" "nNumUsed ?h = ?n" "nInternalPointer ?h = nInternalPointer ht" "iterators ?h = iterators ht"
    "nTableMask ?h = nTableMask ht" "length (hashes ?h) = unat (- nTableMask ht)" by (simp_all add: HT_HASH_RESET_def)
  have rn: "rank ?ar ?n \<noteq> ?n" using c holes by (simp add: can_rehash_def HT_IS_WITHOUT_HOLES_def hash_entries_def rank_def)
  then have "\<exists>z < ?n. \<not> defined ?ar z" using rank_id [of ?n ?ar] by blast
  then obtain z where z: "z < ?n" "\<not> defined ?ar z" "\<And>q. q < z \<Longrightarrow> defined ?ar q"
    using exists_least_iff [of "\<lambda>z. z < ?n \<and> \<not> defined ?ar z"] by (metis less_trans)
  have pf: "places_fit ?h" using c by (simp add: places_fit_def can_rehash_def HT_HASH_RESET_def)
  obtain t where t: "rehash_loop 0 ?h = rehash_loop z t" "relinked ?h z t"
    using rehash_loop_to [OF reset_relinked, of z ht] z pf by (auto simp: h)
  then obtain ar hs where u: "t = ?h\<lparr>arData := ar, hashes := hs\<rparr>" "length ar = length ?ar" "length hs = unat (- nTableMask ht)"
    "chains (nTableMask ht) hs ar z" "\<forall>q. content ar q = content ?ar q" by (auto simp: relinked_def h)
  have rz: "rank ?ar z = z" using z(3) by (rule rank_id)
  have rz': "rank ?ar (Suc z) = z" using z(2) rz by (simp add: rank_Suc)
  have rq: "rank ?ar q = q" if "q \<le> z" for q using that z(3) by (intro rank_id) simp
  have ptr: "\<And>q. nInternalPointer ht = Some q \<Longrightarrow> q < ?n \<and> defined ?ar q" using c by (simp add: can_rehash_def)
  have mid: "moved ?ar (Suc z) p = p" if "\<And>q. p = Some q \<Longrightarrow> defined ?ar q" for p
    using that rq z(2) by (cases p) (auto simp: moved_def less_Suc_eq_le)
  have its: "iterators_at ?h z (Suc z) (zend_hash_iterators_lower_pos t 0) (iterators ht)" if ok: "positions_ok ?ar (iterators ht)"
  proof (cases "\<exists>q < z. Some q \<in> set (iterators ht)")
    case True
    then obtain q where q: "q < z" "Some q \<in> set (iterators ht)" by blast
    have "lowest (zend_hash_iterators_lower_pos t 0) (iterators ht) 0" using iterators_lowest [of t 0] u(1) by (simp add: h)
    then obtain m where "zend_hash_iterators_lower_pos t 0 = Some m" "m \<le> q"
      using q by (auto simp: lowest_def split: option.splits)
    then show ?thesis using True q(1) by (auto simp: iterators_at_def h)
  next
    case False
    have "map (moved ?ar (Suc z)) (iterators ht) = iterators ht"
      using ok by (intro map_idI mid) (auto simp: positions_ok_def)
    moreover have "z < q" if "Some q \<in> set (iterators ht)" for q
      using that False ok z(2) by (metis linorder_neqE_nat positions_ok_def)
    then have "lowest (zend_hash_iterators_lower_pos t 0) (iterators ht) (Suc z)"
      using iterators_lowest [of t 0] u(1) by (auto simp: h lowest_def Suc_le_eq split: option.splits)
    ultimately show ?thesis using False by (auto simp: iterators_at_def h)
  qed
  have pm: "moved ?ar (Suc z) (nInternalPointer ht) = nInternalPointer ht" using ptr by (intro mid) blast
  have ez: "entries ar z = entries ?ar (Suc z)"
    using entries_content [of z ar ?ar] u(5) z(2) by (simp add: entries_Suc entry_nil)
  have "compacted ?h z (Suc z) (z, zend_hash_iterators_lower_pos t 0, t)"
    unfolding compacted_def prod.case h
  proof (intro exI conjI)
    show "t = ?h\<lparr>arData := ar, hashes := hs, nInternalPointer := nInternalPointer ht, iterators := iterators ht\<rparr>"
      using u(1) by (simp add: HT_HASH_RESET_def)
    show "\<forall>q < Suc z. defined ?ar q \<longrightarrow> content ar (rank ?ar q) = content ?ar q" using u(5) rq by (auto simp: less_Suc_eq_le)
    show "positions_ok ?ar (iterators ht) \<longrightarrow> iterators_at ?h z (Suc z) (zend_hash_iterators_lower_pos t 0) (iterators ht)" using its by blast
  qed (use u rz' pm ez in simp_all)
  then have "\<exists>s. for_each move_down [Suc z..<?n] (z, zend_hash_iterators_lower_pos t 0, t) = Some s \<and> compacted ?h z ?n s"
  proof (rule for_each_upt [where P = "compacted ?h z"])
    fix k s assume k: "Suc z \<le> k" "k < ?n" "compacted ?h z k s"
    show "\<exists>s'. move_down k s = Some s' \<and> compacted ?h z (Suc k) s'"
    proof (rule move_down_step [OF k(3)])
      show "z < k" using k(1) by simp
      show "bkt (arData ?h) k \<noteq> None" using c k(2) by (simp add: h can_rehash_def)
      show "places_fit ?h" by (rule pf)
      show "positions_ok (arData ?h) [nInternalPointer ?h]" using ptr by (auto simp: positions_ok_def h)
    qed
  qed (use z(1) in simp)
  then obtain j ip v where v: "for_each move_down [Suc z..<?n] (z, zend_hash_iterators_lower_pos t 0, t) = Some (j, ip, v)" "compacted ?h z ?n (j, ip, v)"
    by (metis prod_cases3)
  obtain ar2 hs2 its2 where w: "v = ?h\<lparr>arData := ar2, hashes := hs2, nInternalPointer := moved ?ar ?n (nInternalPointer ht), iterators := its2\<rparr>"
    "length ar2 = length ?ar" "length hs2 = unat (- nTableMask ht)" "j = rank ?ar ?n" "chains (nTableMask ht) hs2 ar2 j"
    "\<forall>q < ?n. defined ?ar q \<longrightarrow> content ar2 (rank ?ar q) = content ?ar q" "entries ar2 j = entries ?ar ?n"
    "positions_ok ?ar (iterators ht) \<longrightarrow> iterators_at ?h z ?n ip its2"
    using v(2) unfolding compacted_def prod.case h by blast
  have mp: "moved ?ar ?n (nInternalPointer ht) = map_option (rank ?ar) (nInternalPointer ht)" using ptr by (intro moved_all) blast
  have "content ar z = content ?ar z" using u(5) by simp
  moreover obtain b0 where "bkt ?ar z = Some b0" using c z(1) by (auto simp: can_rehash_def)
  moreover have "z_val b0 = None" using z(2) calculation(2) by (auto simp: defined_def)
  ultimately obtain b where b: "bkt ar z = Some b" "z_val b = None" by (auto simp: content_def)
  have "rehash_loop z t = Some (v\<lparr>nNumUsed := j\<rparr>)"
    using v(1) b u(1) z(1) by (subst rehash_loop.simps) (simp add: h)
  then have run: "zend_hash_rehash ht = Some (v\<lparr>nNumUsed := j\<rparr>)"
    using e holes t(1) by (simp add: zend_hash_rehash_def HT_IS_WITHOUT_HOLES_def HT_HASH_RESET_def Let_def)
  have zu: "z' = z" if "z' < ?n \<and> \<not> defined ?ar z' \<and> (\<forall>q < z'. defined ?ar q)" for z'
    using that z by (metis nat_neq_iff)
  have it: "its2 = (if \<exists>q < z'. Some q \<in> set (iterators ht) then iterators ht else map (moved ?ar ?n) (iterators ht))"
    if "z' < ?n \<and> \<not> defined ?ar z' \<and> (\<forall>q < z'. defined ?ar q) \<and> positions_ok ?ar (iterators ht)" for z'
  proof -
    have "z' = z" "iterators_at ?h z ?n ip its2" using zu that w(8) by blast+
    then show ?thesis by (simp add: iterators_at_def h split: if_splits)
  qed
  have "rehashed ht (v\<lparr>nNumUsed := j\<rparr>)"
    unfolding rehashed_def
  proof (intro exI conjI)
    show "v\<lparr>nNumUsed := j\<rparr> = ht\<lparr>arData := ar2, hashes := hs2, nNumUsed := rank ?ar ?n,
       nInternalPointer := map_option (rank ?ar) (nInternalPointer ht), iterators := its2\<rparr>"
      unfolding w(1,4) mp by (simp add: HT_HASH_RESET_def)
    show "if rank ?ar ?n = ?n \<or> nNumOfElements ht = 0 then its2 = iterators ht
        else \<forall>z. z < ?n \<and> \<not> defined ?ar z \<and> (\<forall>q < z. defined ?ar q) \<and> positions_ok ?ar (iterators ht)
           \<longrightarrow> its2 = (if \<exists>q < z. Some q \<in> set (iterators ht) then iterators ht else map (moved ?ar ?n) (iterators ht))"
    proof -
      have ne: "\<not> (rank ?ar ?n = ?n \<or> nNumOfElements ht = 0)" using rn e by simp
      show ?thesis unfolding if_not_P [OF ne] using it by blast
    qed
  qed (use w in \<open>simp_all add: hash_entries_def\<close>)
  then show ?thesis using run by blast
qed

lemma rehash_run: "can_rehash ht \<Longrightarrow> \<exists>u. zend_hash_rehash ht = Some u \<and> rehashed ht u"
  using rehash_empty rehash_full rehash_holes by blast

end
