(* ===== verification/Zend_Hash_Invariant.thy ===== *)
theory Zend_Hash_Invariant
  imports Zend_Rehash
begin

text \<open>
  The invariant of hash tables, what a table shows, and the operations that change its memory only.
\<close>

section \<open>Keys\<close>

definition key_hash :: "hash_key \<Rightarrow> 64 word" where
  "key_hash K = (case K of Name s \<Rightarrow> zend_inline_hash_func s | Num h \<Rightarrow> h)"

definition key_text :: "hash_key \<Rightarrow> string option" where
  "key_text K = (case K of Name s \<Rightarrow> Some s | Num h \<Rightarrow> None)"

lemma key_simps [simp]:
  "key_hash (Name s) = zend_inline_hash_func s" "key_hash (Num h) = h" "key_text (Name s) = Some s" "key_text (Num h) = None"
  by (simp_all add: key_hash_def key_text_def)

lemma bucket_key_of [simp]: "bucket_key \<lparr>z_h = key_hash K, z_key = key_text K, z_val = v, z_next = x\<rparr> = K"
  by (cases K) (simp_all add: bucket_key_def)

text \<open>A text has its own hash value.\<close>

definition keys_fit :: "'v zbucket option list \<Rightarrow> nat \<Rightarrow> bool" where
  "keys_fit ar n \<longleftrightarrow> (\<forall>i < n. \<forall>h s v. content ar i = Some (h, Some s, Some v) \<longrightarrow> h = zend_inline_hash_func s)"

lemma same_key_iff:
  assumes "keys_fit ar n" and "i < n" and "bkt ar i = Some b" and "z_val b \<noteq> None"
  shows "same_key (key_hash K) (key_text K) b \<longleftrightarrow> bucket_key b = K"
proof -
  have "z_h b = zend_inline_hash_func s" if "z_key b = Some s" for s
    using assms that by (auto simp: keys_fit_def content_def)
  then show ?thesis by (cases K; cases "z_key b") (auto simp: same_key_def bucket_key_def)
qed

section \<open>The invariant\<close>

definition chained :: "'v hash_table \<Rightarrow> bool" where
  "chained ht \<longleftrightarrow> nTableMask ht = - of_nat (nTableSize ht) \<and> length (hashes ht) = nTableSize ht
     \<and> chains (nTableMask ht) (hashes ht) (arData ht) (nNumUsed ht)"

lemma chained_chains: "chained ht \<Longrightarrow> chains (nTableMask ht) (hashes ht) (arData ht) (nNumUsed ht)"
  unfolding chained_def by blast

definition packed_ok :: "'v hash_table \<Rightarrow> bool" where
  "packed_ok ht \<longleftrightarrow> nTableMask ht = HT_MIN_MASK \<and> hashes ht = [None, None]
     \<and> (\<forall>i < nNumUsed ht. \<forall>h k v. content (arData ht) i = Some (h, k, Some v) \<longrightarrow> unat h = i \<and> k = None)"

text \<open>What holds of the buckets whatever the chains are.\<close>

definition buckets_ok :: "'v hash_table \<Rightarrow> bool" where
  "buckets_ok ht \<longleftrightarrow> (\<exists>k. 3 \<le> k \<and> k \<le> 31 \<and> nTableSize ht = 2 ^ k) \<and> nNumUsed ht \<le> nTableSize ht
     \<and> nNumOfElements ht = length (hash_entries ht) \<and> distinct (map fst (hash_entries ht))
     \<and> (\<forall>i < nNumUsed ht. bkt (arData ht) i \<noteq> None) \<and> keys_fit (arData ht) (nNumUsed ht)
     \<and> (\<forall>q. nInternalPointer ht = Some q \<longrightarrow> q < nNumUsed ht \<and> defined (arData ht) q)"

definition table_ok :: "'v hash_table \<Rightarrow> bool" where
  "table_ok ht \<longleftrightarrow> buckets_ok ht
     \<and> (if initialized ht then length (arData ht) = nTableSize ht \<and> (if packed ht then packed_ok ht else chained ht)
        else \<not> packed ht \<and> nNumUsed ht = 0 \<and> arData ht = [] \<and> nTableMask ht = HT_MIN_MASK \<and> hashes ht = [None, None])"

lemma table_ok_buckets: "table_ok ht \<Longrightarrow> buckets_ok ht"
  by (simp add: table_ok_def)

text \<open>What a table shows: its entries, the number of the one the pointer is at, the next free number.\<close>

definition cursor :: "'v hash_table \<Rightarrow> nat option" where
  "cursor ht = map_option (rank (arData ht)) (nInternalPointer ht)"

definition view :: "'v hash_table \<Rightarrow> (hash_key \<times> 'v) list \<times> nat option \<times> 64 word" where
  "view ht = (hash_entries ht, cursor ht, nNextFreeElement ht)"

definition same_dtor :: "'v hash_table \<Rightarrow> 'v hash_table \<Rightarrow> bool" where
  "same_dtor ht u \<longleftrightarrow> pDestructor u = pDestructor ht \<and> destroyed u = destroyed ht"

lemma same_dtor_refl [simp]: "same_dtor ht ht"
  by (simp add: same_dtor_def)

lemma same_dtor_trans: "same_dtor s t \<Longrightarrow> same_dtor t u \<Longrightarrow> same_dtor s u"
  by (simp add: same_dtor_def)

lemma size_mask:
  assumes "3 \<le> k" and "k \<le> 31" and "n = (2::nat) ^ k"
  shows "place (- of_nat n) h < n" and "unat (- (- of_nat n :: 32 word)) = n"
  using mask_place(1) [of k "- of_nat n" h] mask_place(2) [of k "- of_nat n"] assms by simp_all

lemma min_mask: "place HT_MIN_MASK h < 2"
  using mask_place(1) [of 1 HT_MIN_MASK h] by (simp add: HT_MIN_MASK_def)

lemma table_places: "table_ok ht \<Longrightarrow> places_fit ht"
  using min_mask [unfolded numeral_2_eq_2] size_mask(1)
  by (auto simp: table_ok_def places_fit_def buckets_ok_def packed_ok_def chained_def split: if_splits)

section \<open>Rehashing\<close>

lemma rank_surj: "i < rank ar n \<Longrightarrow> \<exists>q < n. defined ar q \<and> rank ar q = i"
proof (induction n)
  case (Suc n)
  then show ?case by (cases "i < rank ar n") (auto simp: rank_Suc less_Suc_eq split: if_splits)
qed (simp add: rank_def)

lemma rehash_ok:
  assumes b: "buckets_ok ht" and i: "initialized ht" "\<not> packed ht" "length (arData ht) = nTableSize ht"
    and m: "nTableMask ht = - of_nat (nTableSize ht)"
  shows "\<exists>u. zend_hash_rehash ht = Some u \<and> rehashed ht u \<and> table_ok u \<and> initialized u \<and> \<not> packed u \<and> view u = view ht \<and> same_dtor ht u
    \<and> nTableSize u = nTableSize ht \<and> nNumUsed u = nNumOfElements ht"
proof -
  let ?ar = "arData ht" and ?n = "nNumUsed ht"
  obtain k where k: "3 \<le> k" "k \<le> 31" "nTableSize ht = 2 ^ k" using b by (auto simp: buckets_ok_def)
  have um: "unat (- nTableMask ht) = nTableSize ht" using size_mask(2) [OF k] m by simp
  have "can_rehash ht"
    using b i(1) size_mask(1) [OF k] um m by (auto simp: can_rehash_def buckets_ok_def)
  then obtain u where u: "zend_hash_rehash ht = Some u" "rehashed ht u" using rehash_run by blast
  then obtain ar hs its where w: "u = ht\<lparr>arData := ar, hashes := hs, nNumUsed := rank ?ar ?n,
       nInternalPointer := map_option (rank ?ar) (nInternalPointer ht), iterators := its\<rparr>" "length ar = length ?ar"
    "length hs = nTableSize ht" "chains (nTableMask ht) hs ar (rank ?ar ?n)"
    "\<forall>q < ?n. defined ?ar q \<longrightarrow> content ar (rank ?ar q) = content ?ar q" "entries ar (rank ?ar ?n) = hash_entries ht"
    unfolding rehashed_def um by blast
  have rn: "rank ?ar ?n = length (hash_entries ht)" by (simp add: rank_def hash_entries_def)
  have all: "\<forall>q < rank ?ar ?n. defined ar q"
    using entries_all_defined [of ar "rank ?ar ?n"] w(6) rn by simp
  have he: "hash_entries u = hash_entries ht" using w(1,6) by (simp add: hash_entries_def)
  have r: "rank ar q = q" if "q \<le> rank ?ar ?n" for q using that all by (intro rank_id) simp
  have ptr: "q < ?n \<and> defined ?ar q" if "nInternalPointer ht = Some q" for q using b that by (simp add: buckets_ok_def)
  have fit: "keys_fit ar (rank ?ar ?n)"
    unfolding keys_fit_def
  proof (intro allI impI)
    fix q h s v assume q: "q < rank ?ar ?n" "content ar q = Some (h, Some s, Some v)"
    then obtain p where "p < ?n" "defined ?ar p" "rank ?ar p = q" using rank_surj by blast
    then have "content ?ar p = Some (h, Some s, Some v)" using w(5) q(2) by auto
    then show "h = zend_inline_hash_func s" using b \<open>p < ?n\<close> by (auto simp: buckets_ok_def keys_fit_def)
  qed
  have "rank ?ar q < rank ?ar ?n" if "nInternalPointer ht = Some q" for q using ptr [OF that] rank_less by blast
  then have pok: "nInternalPointer u = Some q \<Longrightarrow> q < rank ?ar ?n \<and> defined ar q" for q using all w(1) by auto
  have "buckets_ok u"
    unfolding buckets_ok_def he using b all fit pok rank_le [of ?ar ?n]
    by (auto simp: w(1) rn [symmetric] buckets_ok_def defined_def)
  then have t: "table_ok u" using i m w(1-4) by (simp add: table_ok_def chained_def)
  have "cursor u = cursor ht"
  proof (cases "nInternalPointer ht")
    case (Some q)
    then have "rank ?ar q \<le> rank ?ar ?n" using ptr [OF Some] rank_mono [of q ?n ?ar] by simp
    then show ?thesis using Some r by (simp add: cursor_def w(1))
  qed (simp add: cursor_def w(1))
  then have "view u = view ht" using he by (simp add: view_def w(1))
  moreover have "nNumUsed u = nNumOfElements ht" using b rn by (simp add: w(1) buckets_ok_def)
  ultimately show ?thesis using u t i by (intro exI [of _ u]) (simp add: w(1) same_dtor_def)
qed

end
