(* ===== verification/Zend_Hash_Ops.thy ===== *)
theory Zend_Hash_Ops
  imports Zend_Hash_Invariant
begin

text \<open>Finding, adding and updating, as operations on association lists.\<close>

section \<open>Finding\<close>

definition at_key :: "'v hash_table \<Rightarrow> hash_key \<Rightarrow> nat \<Rightarrow> bool" where
  "at_key ht K i \<longleftrightarrow> i < nNumUsed ht \<and> (\<exists>b. bkt (arData ht) i = Some b \<and> z_val b \<noteq> None \<and> bucket_key b = K)"

abbreviation keys_of :: "'v hash_table \<Rightarrow> hash_key set" where
  "keys_of ht \<equiv> fst ` set (hash_entries ht)"

definition found :: "'v hash_table \<Rightarrow> hash_key \<Rightarrow> nat option \<Rightarrow> bool" where
  "found ht K p \<longleftrightarrow> (case p of None \<Rightarrow> K \<notin> keys_of ht | Some i \<Rightarrow> at_key ht K i)"

lemma keys_at: "K \<in> keys_of ht \<longleftrightarrow> (\<exists>i. at_key ht K i)"
proof
  assume "K \<in> keys_of ht"
  then obtain v where "(K, v) \<in> set (hash_entries ht)" by auto
  then show "\<exists>i. at_key ht K i" by (auto simp: hash_entries_def entries_set at_key_def)
next
  assume "\<exists>i. at_key ht K i"
  then obtain i b v where "i < nNumUsed ht" "bkt (arData ht) i = Some b" "z_val b = Some v" "bucket_key b = K" by (auto simp: at_key_def)
  then have "(K, v) \<in> set (hash_entries ht)" by (auto simp: hash_entries_def entries_set)
  then show "K \<in> keys_of ht" by force
qed

lemma at_key_unique:
  assumes "table_ok ht" and "at_key ht K i" and "at_key ht K j"
  shows "i = j"
proof -
  have d: "distinct (map fst (entries (arData ht) (nNumUsed ht)))"
    using assms(1) by (simp add: table_ok_def buckets_ok_def hash_entries_def)
  obtain b c where "i < nNumUsed ht" "j < nNumUsed ht" "bkt (arData ht) i = Some b" "bkt (arData ht) j = Some c"
    "z_val b \<noteq> None" "z_val c \<noteq> None" "bucket_key b = bucket_key c" using assms(2,3) by (auto simp: at_key_def)
  then show ?thesis by (rule entries_inj [OF d])
qed

text \<open>The value of a key.\<close>

lemma found_value:
  assumes t: "table_ok ht" and f: "found ht K p"
  shows "value_of ht p = Some (map_of (hash_entries ht) K)"
proof (cases p)
  case None
  then have "K \<notin> keys_of ht" using f by (simp add: found_def)
  then have "map_of (hash_entries ht) K = None" by (simp add: map_of_eq_None_iff)
  then show ?thesis using None by (simp add: value_of_def)
next
  case (Some i)
  then obtain b v where b: "i < nNumUsed ht" "bkt (arData ht) i = Some b" "z_val b = Some v" "bucket_key b = K"
    using f by (auto simp: found_def at_key_def)
  then have "(K, v) \<in> set (hash_entries ht)" by (auto simp: hash_entries_def entries_set)
  moreover have "distinct (map fst (hash_entries ht))" using t by (simp add: table_ok_def buckets_ok_def)
  ultimately have "map_of (hash_entries ht) K = Some v" by (simp add: map_of_eq_Some_iff)
  then show ?thesis using Some b by (simp add: value_of_def)
qed

lemma find_loop_run:
  "chain (arData ht) x is \<Longrightarrow> find_loop P ht x = Some (List.find (\<lambda>i. P (the (bkt (arData ht) i))) is)"
proof (induction "is" arbitrary: x)
  case Nil
  then show ?case by (subst find_loop.simps) simp
next
  case (Cons i "is")
  then show ?case by (subst find_loop.simps) auto
qed

lemma chain_of_key:
  assumes t: "table_ok ht" and i: "initialized ht" "\<not> packed ht"
  shows "\<exists>x. HT_HASH ht (nIndex (key_hash K) ht) = Some x
    \<and> chain (arData ht) x (members (nTableMask ht) (arData ht) (nNumUsed ht) (place (nTableMask ht) (key_hash K)))"
proof -
  have "place (nTableMask ht) (key_hash K) < length (hashes ht)" using table_places [OF t] by (simp add: places_fit_def)
  moreover have "chained ht" using t i by (simp add: table_ok_def)
  then have "chains (nTableMask ht) (hashes ht) (arData ht) (nNumUsed ht)" by (rule chained_chains)
  ultimately show ?thesis by (simp add: HT_HASH_place chains_def)
qed

lemma member_key:
  assumes t: "table_ok ht" and "i \<in> set (members (nTableMask ht) (arData ht) (nNumUsed ht) k)"
  shows "\<exists>b. bkt (arData ht) i = Some b \<and> z_val b \<noteq> None \<and> i < nNumUsed ht
    \<and> (same_key (key_hash K) (key_text K) b \<longleftrightarrow> at_key ht K i)"
proof -
  obtain b where b: "i < nNumUsed ht" "bkt (arData ht) i = Some b" "z_val b \<noteq> None"
    using assms(2) by (auto simp: members_set in_place_def defined_def)
  have "keys_fit (arData ht) (nNumUsed ht)" using t by (simp add: table_ok_def buckets_ok_def)
  then have "same_key (key_hash K) (key_text K) b \<longleftrightarrow> bucket_key b = K" using b by (rule same_key_iff)
  then show ?thesis using b by (auto simp: at_key_def)
qed

text \<open>The bucket of a key is in the chain of its hash value.\<close>

lemma key_in_chain:
  assumes t: "table_ok ht" and a: "at_key ht K i"
  shows "i \<in> set (members (nTableMask ht) (arData ht) (nNumUsed ht) (place (nTableMask ht) (key_hash K)))"
proof -
  obtain b where b: "i < nNumUsed ht" "bkt (arData ht) i = Some b" "z_val b \<noteq> None" "bucket_key b = K" using a by (auto simp: at_key_def)
  have "keys_fit (arData ht) (nNumUsed ht)" using t by (simp add: table_ok_def buckets_ok_def)
  then have "same_key (key_hash K) (key_text K) b" using same_key_iff b by metis
  then have "z_h b = key_hash K" by (simp add: same_key_def)
  then show ?thesis using b by (simp add: members_set in_place_def defined_def)
qed

lemma chain_find:
  assumes t: "table_ok ht" and i: "initialized ht" "\<not> packed ht"
  shows "\<exists>p. Option.bind (HT_HASH ht (nIndex (key_hash K) ht)) (find_loop (same_key (key_hash K) (key_text K)) ht) = Some p \<and> found ht K p"
proof -
  let ?ms = "members (nTableMask ht) (arData ht) (nNumUsed ht) (place (nTableMask ht) (key_hash K))"
  let ?P = "\<lambda>i. same_key (key_hash K) (key_text K) (the (bkt (arData ht) i))"
  obtain x where x: "HT_HASH ht (nIndex (key_hash K) ht) = Some x" "chain (arData ht) x ?ms" using chain_of_key [OF t i] by blast
  have P: "?P i \<longleftrightarrow> at_key ht K i" if "i \<in> set ?ms" for i using member_key [OF t that, of K] by auto
  have "found ht K (List.find ?P ?ms)"
  proof (cases "List.find ?P ?ms")
    case None
    then have "\<not> at_key ht K i" for i using P key_in_chain [OF t] by (auto simp: find_None_iff)
    then show ?thesis using None keys_at [of K ht] by (simp add: found_def)
  next
    case (Some i)
    then have "i \<in> set ?ms" "?P i" by (auto simp: find_Some_iff)
    then show ?thesis using P Some by (simp add: found_def)
  qed
  then show ?thesis using x find_loop_run [OF x(2)] by simp
qed

lemma plain_hash:
  assumes t: "table_ok ht" and i: "\<not> (initialized ht \<and> \<not> packed ht)"
  shows "HT_HASH ht (nIndex h ht) = Some None"
proof -
  have h: "hashes ht = [None, None]" "nTableMask ht = HT_MIN_MASK" using t i by (auto simp: table_ok_def packed_ok_def split: if_splits)
  have "place (nTableMask ht) h < length (hashes ht)" using min_mask [unfolded numeral_2_eq_2] h by simp
  moreover have "[None, None] ! place (nTableMask ht) h = None" using min_mask [of h] h(2) by (auto simp: less_2_cases_iff)
  ultimately show ?thesis using h(1) by (simp add: HT_HASH_place)
qed

lemma plain_find:
  assumes "table_ok ht" and "\<not> (initialized ht \<and> \<not> packed ht)"
  shows "Option.bind (HT_HASH ht (nIndex h ht)) (find_loop P ht) = Some None"
  using plain_hash [OF assms] by (simp add: find_loop.simps)

lemma packed_key:
  assumes t: "table_ok ht" and p: "initialized ht" "packed ht"
  shows "at_key ht K i \<longleftrightarrow> (\<exists>h. K = Num h \<and> unat h = i) \<and> i < nNumUsed ht \<and> defined (arData ht) i"
proof
  assume a: "at_key ht K i"
  then obtain b v where b: "i < nNumUsed ht" "bkt (arData ht) i = Some b" "z_val b = Some v" "bucket_key b = K" by (auto simp: at_key_def)
  then have "unat (z_h b) = i \<and> z_key b = None" using t p by (auto simp: table_ok_def packed_ok_def content_def)
  then show "(\<exists>h. K = Num h \<and> unat h = i) \<and> i < nNumUsed ht \<and> defined (arData ht) i" using b by (auto simp: bucket_key_def defined_def)
next
  assume r: "(\<exists>h. K = Num h \<and> unat h = i) \<and> i < nNumUsed ht \<and> defined (arData ht) i"
  then obtain h b v where b: "K = Num h" "unat h = i" "i < nNumUsed ht" "bkt (arData ht) i = Some b" "z_val b = Some v"
    by (auto simp: defined_def)
  then have "unat (z_h b) = i \<and> z_key b = None" using t p by (auto simp: table_ok_def packed_ok_def content_def)
  moreover from this have "z_h b = h" using b(2) by (metis word_unat_eq_iff)
  ultimately show "at_key ht K i" using b by (auto simp: at_key_def bucket_key_def)
qed

lemma plain_name:
  assumes t: "table_ok ht" and i: "\<not> (initialized ht \<and> \<not> packed ht)"
  shows "Name s \<notin> keys_of ht"
proof -
  have "\<not> at_key ht (Name s) i" for i
    using packed_key [OF t, of "Name s" i] t assms(2) by (cases "initialized ht") (auto simp: at_key_def table_ok_def)
  then show ?thesis using keys_at [of "Name s" ht] by simp
qed

lemma find_run:
  assumes t: "table_ok ht"
  shows "\<exists>p. zend_hash_find_bucket s ht = Some p \<and> found ht (Name s) p"
proof (cases "initialized ht \<and> \<not> packed ht")
  case True
  then show ?thesis using chain_find [OF t, of "Name s"] by (simp add: zend_hash_find_bucket_def Let_def)
next
  case False
  have "found ht (Name s) None" using plain_name [OF t False] by (simp add: found_def)
  then show ?thesis using plain_find [OF t False] by (simp add: zend_hash_find_bucket_def Let_def)
qed

lemma index_find_run:
  assumes t: "table_ok ht"
  shows "\<exists>p. zend_hash_index_find h ht = Some p \<and> found ht (Num h) p"
proof (cases "packed ht")
  case True
  then have i: "initialized ht" using t by (auto simp: table_ok_def split: if_splits)
  have k: "at_key ht (Num h) i \<longleftrightarrow> unat h = i \<and> i < nNumUsed ht \<and> defined (arData ht) i" for i
    using packed_key [OF t i True, of "Num h" i] by auto
  show ?thesis
  proof (cases "unat h < nNumUsed ht")
    case False
    then have "found ht (Num h) None" using k keys_at [of "Num h" ht] by (auto simp: found_def)
    then show ?thesis using True False by (simp add: zend_hash_index_find_def)
  next
    case lt: True
    then obtain b where b: "bkt (arData ht) (unat h) = Some b" using t by (auto simp: table_ok_def buckets_ok_def)
    show ?thesis
    proof (cases "z_val b = None")
      case True
      then have "found ht (Num h) None" using k keys_at [of "Num h" ht] b by (auto simp: found_def defined_def)
      then show ?thesis using True lt b \<open>packed ht\<close> by (simp add: zend_hash_index_find_def)
    next
      case False
      then have "at_key ht (Num h) (unat h)" using k lt b by (auto simp: defined_def)
      then show ?thesis using False lt b \<open>packed ht\<close> by (simp add: zend_hash_index_find_def found_def)
    qed
  qed
next
  case False
  show ?thesis
  proof (cases "initialized ht")
    case True
    then show ?thesis using chain_find [OF t True False, of "Num h"] False by (simp add: zend_hash_index_find_def zend_hash_index_find_bucket_def)
  next
    case ni: False
    have "found ht (Num h) None" using ni t by (simp add: found_def hash_entries_def table_ok_def)
    then show ?thesis using plain_find [OF t] ni False by (simp add: zend_hash_index_find_def zend_hash_index_find_bucket_def)
  qed
qed

section \<open>What the operations mean\<close>

definition bump :: "64 word \<Rightarrow> 64 word \<Rightarrow> 64 word" where
  "bump h nf = (if sint nf \<le> sint h then (if h < ZEND_LONG_MAX then h + 1 else ZEND_LONG_MAX) else nf)"

definition bump_key :: "hash_key \<Rightarrow> 64 word \<Rightarrow> 64 word" where
  "bump_key K nf = (case K of Num h \<Rightarrow> bump h nf | Name _ \<Rightarrow> nf)"

text \<open>A new entry goes to the end; a pointer that was nowhere comes to it.\<close>

fun put_spec :: "hash_key \<Rightarrow> 'v \<Rightarrow> (hash_key \<times> 'v) list \<times> nat option \<times> 64 word \<Rightarrow> (hash_key \<times> 'v) list \<times> nat option \<times> 64 word" where
  "put_spec K v (es, c, nf) =
     (AList.update K v es, if K \<in> fst ` set es then c else (case c of None \<Rightarrow> Some (length es) | Some i \<Rightarrow> Some i), bump_key K nf)"

lemma set_next_free_eq: "set_next_free h ht = ht\<lparr>nNextFreeElement := bump h (nNextFreeElement ht)\<rparr>"
  by (simp add: set_next_free_def bump_def)

lemma table_ok_next [simp]: "table_ok (ht\<lparr>nNextFreeElement := x\<rparr>) = table_ok ht"
  by (simp add: table_ok_def buckets_ok_def packed_ok_def chained_def hash_entries_def)

lemma table_ok_destroyed [simp]: "table_ok (ht\<lparr>destroyed := x\<rparr>) = table_ok ht"
  by (simp add: table_ok_def buckets_ok_def packed_ok_def chained_def hash_entries_def)

lemma view_updates [simp]:
  "view (ht\<lparr>destroyed := x\<rparr>) = view ht" "view (ht\<lparr>nNextFreeElement := y\<rparr>) = (hash_entries ht, cursor ht, y)"
  by (simp_all add: view_def hash_entries_def cursor_def)

lemma rank_defined: "(\<And>q. q < i \<Longrightarrow> defined ar' q = defined ar q) \<Longrightarrow> rank ar' i = rank ar i"
  by (induction i) (simp_all add: rank_Suc, simp add: rank_def)

section \<open>Updating in place\<close>

lemma chains_keep:
  assumes c: "chains m hs ar n" and b: "bkt ar i = Some b"
    and same: "z_h b' = z_h b" "z_next b' = z_next b" "z_val b' = None \<longleftrightarrow> z_val b = None"
  shows "chains m hs (ar[i := Some b']) n"
proof -
  have il: "i < length ar" using b by (rule bkt_length)
  have "in_place m (ar[i := Some b']) k = in_place m ar k" for k
    using same b by (intro ext) (auto simp: in_place_def defined_def bkt_update [OF il])
  then have "members m (ar[i := Some b']) n k = members m ar n k" for k by (simp add: members_def)
  moreover have "chain (ar[i := Some b']) x is = chain ar x is" for x "is"
    using same(2) b by (intro chain_cong) (auto simp: bkt_update [OF il])
  ultimately show ?thesis using c by (simp add: chains_def)
qed

lemma value_update_ok:
  fixes v :: 'v
  assumes t: "table_ok ht" and i: "i < nNumUsed ht" and b: "bkt (arData ht) i = Some b" "z_val b = Some w"
  defines "u \<equiv> ht\<lparr>arData := (arData ht)[i := Some (b\<lparr>z_val := Some v\<rparr>)]\<rparr>"
  shows "table_ok u \<and> hash_entries u = AList.update (bucket_key b) v (hash_entries ht) \<and> cursor u = cursor ht"
proof -
  let ?ar = "(arData ht)[i := Some (b\<lparr>z_val := Some v\<rparr>)]"
  have il: "i < length (arData ht)" using b(1) by (rule bkt_length)
  have bo: "buckets_ok ht" using t by (simp add: table_ok_def)
  have d: "distinct (map fst (entries (arData ht) (nNumUsed ht)))" using bo by (simp add: buckets_ok_def hash_entries_def)
  have e: "hash_entries u = AList.update (bucket_key b) v (hash_entries ht)"
    using entries_value [OF d i b] by (simp add: u_def hash_entries_def)
  have df: "defined ?ar q = defined (arData ht) q" for q using b by (auto simp: defined_def bkt_update [OF il])
  have r: "rank ?ar q = rank (arData ht) q" for q using df by (intro rank_defined) simp
  have "(bucket_key b, w) \<in> set (hash_entries ht)" using i b by (auto simp: hash_entries_def entries_set)
  then have mem: "bucket_key b \<in> set (map fst (hash_entries ht))" by force
  then have "map fst (hash_entries u) = map fst (hash_entries ht)" unfolding e by (simp add: update_keys del: set_map)
  then have len: "length (hash_entries u) = length (hash_entries ht)" by (metis length_map)
  have con: "content ?ar q = (if q = i then Some (z_h b, z_key b, Some v) else content (arData ht) q)" for q
    by (simp add: content_update [OF il])
  have ci: "content (arData ht) i = Some (z_h b, z_key b, Some w)" using b by (simp add: content_def)
  have kf: "keys_fit ?ar (nNumUsed ht)"
    using bo ci unfolding buckets_ok_def keys_fit_def con by (metis option.inject prod.inject)
  have "distinct (map fst (hash_entries u))" unfolding e using bo by (simp add: buckets_ok_def distinct_update)
  then have "buckets_ok u"
    using bo len kf df unfolding buckets_ok_def by (simp add: u_def bkt_update [OF il])
  moreover have "packed_ok u" if "packed_ok ht"
    using that i ci by (auto simp: packed_ok_def u_def con)
  moreover have "chained u" if c: "chained ht"
  proof -
    have "chains (nTableMask ht) (hashes ht) (arData ht) (nNumUsed ht)" using c by (rule chained_chains)
    from chains_keep [OF this b(1)] have "chains (nTableMask ht) (hashes ht) ?ar (nNumUsed ht)" using b(2) by simp
    then show ?thesis using c by (simp add: chained_def u_def)
  qed
  moreover have "initialized ht" using t i by (auto simp: table_ok_def split: if_splits)
  ultimately have "table_ok u" using t by (auto simp: table_ok_def u_def)
  then show ?thesis using e by (simp add: cursor_def u_def r [abs_def])
qed

definition dtor_called :: "'v \<Rightarrow> 'v hash_table \<Rightarrow> 'v hash_table \<Rightarrow> bool" where
  "dtor_called v ht u \<longleftrightarrow> pDestructor u = pDestructor ht \<and> destroyed u = destroyed ht @ (if pDestructor ht then [v] else [])"

lemma replace_run:
  assumes t: "table_ok ht" and a: "at_key ht K i"
  shows "\<exists>u old. replace_value i v ht = Some u \<and> table_ok u \<and> view u = (AList.update K v (hash_entries ht), cursor ht, nNextFreeElement ht)
    \<and> map_of (hash_entries ht) K = Some old \<and> dtor_called old ht u \<and> at_key u K i"
proof -
  obtain b w where b: "i < nNumUsed ht" "bkt (arData ht) i = Some b" "z_val b = Some w" "bucket_key b = K"
    using a by (auto simp: at_key_def)
  have il: "i < length (arData ht)" using b(2) by (rule bkt_length)
  let ?d = "if pDestructor ht then destroyed ht @ [w] else destroyed ht"
  let ?u = "ht\<lparr>arData := (arData ht)[i := Some (b\<lparr>z_val := Some v\<rparr>)]\<rparr>"
  note ok = value_update_ok [OF t b(1-3), of v]
  have "map_of (hash_entries ht) K = Some w"
    using found_value [OF t, of K "Some i"] a b by (simp add: found_def value_of_def)
  moreover have "replace_value i v ht = Some (?u\<lparr>destroyed := ?d\<rparr>)"
    using b il by (simp add: replace_value_def call_destructor_def bucket_write_def)
  moreover have "table_ok (?u\<lparr>destroyed := ?d\<rparr>)" using ok by simp
  moreover have "view (?u\<lparr>destroyed := ?d\<rparr>) = (AList.update K v (hash_entries ht), cursor ht, nNextFreeElement ht)"
    using ok b(4) by (simp only: view_updates) (simp add: view_def)
  moreover have "at_key (?u\<lparr>destroyed := ?d\<rparr>) K i" using b by (simp add: at_key_def bkt_update [OF il])
  ultimately show ?thesis by (intro exI [of _ "?u\<lparr>destroyed := ?d\<rparr>"] exI [of _ w]) (simp add: dtor_called_def)
qed

end
