(* ===== verification/Zend_Hash_Add.thy ===== *)
theory Zend_Hash_Add
  imports Zend_Hash_Ops
begin

text \<open>Adding entries: behind the others, in a table that may have to grow, or to change from packed to chained.\<close>

section \<open>A new entry at the end\<close>

definition pointer_to :: "nat option \<Rightarrow> nat \<Rightarrow> nat option" where
  "pointer_to c i = (case c of None \<Rightarrow> Some i | Some q \<Rightarrow> Some q)"

lemma count_new_eq:
  "count_new i ht = ht\<lparr>nNumOfElements := nNumOfElements ht + 1, nInternalPointer := pointer_to (nInternalPointer ht) i,
     iterators := map (\<lambda>p. if p = None then Some i else p) (iterators ht)\<rparr>"
  by (cases "nInternalPointer ht") (simp_all add: count_new_def zend_hash_iterators_update_def pointer_to_def Let_def)

lemma entries_gap:
  assumes "n \<le> m" and "\<And>i. n \<le> i \<Longrightarrow> i < m \<Longrightarrow> \<not> defined ar i"
  shows "entries ar m = entries ar n"
  using assms by (induction rule: dec_induct) (simp_all add: entries_Suc entry_nil)

lemma append_ok:
  fixes hs its :: "nat option list"
  assumes b: "buckets_ok ht" and old: "\<And>i. i < nNumUsed ht \<Longrightarrow> content ar i = content (arData ht) i"
    and gap: "\<And>i. nNumUsed ht \<le> i \<Longrightarrow> i < m \<Longrightarrow> bkt ar i \<noteq> None \<and> \<not> defined ar i"
    and new: "content ar m = Some (key_hash K, key_text K, Some v)" and m: "nNumUsed ht \<le> m" "m < nTableSize ht"
    and k: "K \<notin> keys_of ht"
  defines "u \<equiv> ht\<lparr>arData := ar, hashes := hs, nNumUsed := Suc m, nNumOfElements := nNumOfElements ht + 1,
    nInternalPointer := pointer_to (nInternalPointer ht) m, iterators := its, nNextFreeElement := bump_key K (nNextFreeElement ht)\<rparr>"
  shows "buckets_ok u \<and> view u = put_spec K v (view ht)"
proof -
  let ?n = "nNumUsed ht"
  have pre: "entries ar m = hash_entries ht"
    using entries_gap [of ?n m ar] entries_content [of ?n ar "arData ht"] gap old m(1) by (simp add: hash_entries_def)
  obtain c where c: "bkt ar m = Some c" "z_h c = key_hash K" "z_key c = key_text K" "z_val c = Some v" using content_SomeD [OF new] by blast
  then have "bucket_key c = K" by (cases K) (simp_all add: bucket_key_def)
  then have e: "hash_entries u = hash_entries ht @ [(K, v)]" using pre entry_Some [OF c(1,4)] by (simp add: u_def hash_entries_def entries_Suc)
  have dm: "defined ar m" using c by (simp add: defined_def)
  have od: "defined ar i = defined (arData ht) i" if "i < ?n" for i using defined_content [OF old [OF that]] .
  have rk: "rank ar i = rank (arData ht) i" if "i \<le> ?n" for i using that od by (intro rank_defined) simp
  have rm: "rank ar m = length (hash_entries ht)" using pre by (simp add: rank_def)
  have ptr: "q < ?n \<and> defined (arData ht) q" if "nInternalPointer ht = Some q" for q using b that by (simp add: buckets_ok_def)
  have p: "q < Suc m \<and> defined ar q" if q: "pointer_to (nInternalPointer ht) m = Some q" for q
  proof (cases "nInternalPointer ht")
    case None
    then show ?thesis using q dm by (simp add: pointer_to_def)
  next
    case (Some x)
    then show ?thesis using q ptr [OF Some] od m(1) by (simp add: pointer_to_def)
  qed
  have kf: "keys_fit ar (Suc m)"
    unfolding keys_fit_def
  proof (intro allI impI)
    fix i h s w assume i: "i < Suc m" "content ar i = Some (h, Some s, Some w)"
    consider "i < ?n" | "?n \<le> i" "i < m" | "i = m" using i(1) by linarith
    then show "h = zend_inline_hash_func s"
    proof cases
      case 1
      then show ?thesis using b old i(2) by (auto simp: buckets_ok_def keys_fit_def)
    next
      case 2
      then show ?thesis using gap [OF 2] i(2) by (auto simp: content_def defined_def)
    next
      case 3
      then show ?thesis using new i(2) by (cases K) auto
    qed
  qed
  have all: "bkt ar i \<noteq> None" if im: "i < Suc m" for i
  proof -
    consider "i < ?n" | "?n \<le> i" "i < m" | "i = m" using im by linarith
    then show ?thesis
    proof cases
      case 1
      then have "bkt (arData ht) i \<noteq> None" using b by (simp add: buckets_ok_def)
      then show ?thesis using old [OF 1] by (auto simp: content_def)
    next
      case 2
      then show ?thesis using gap by blast
    next
      case 3
      then show ?thesis using c(1) by simp
    qed
  qed
  have "buckets_ok u"
    using b m(2) p kf all k unfolding buckets_ok_def e by (simp add: u_def)
  moreover have "cursor u = (case cursor ht of None \<Rightarrow> Some (length (hash_entries ht)) | Some i \<Rightarrow> Some i)"
  proof (cases "nInternalPointer ht")
    case None
    then show ?thesis by (simp add: cursor_def u_def pointer_to_def rm)
  next
    case (Some q)
    then show ?thesis using rk [of q] ptr [OF Some] by (simp add: cursor_def u_def pointer_to_def)
  qed
  then have "view u = put_spec K v (view ht)"
    using e k by (simp add: view_def update_new u_def)
  ultimately show ?thesis by blast
qed

section \<open>Into a chain\<close>

lemma add_to_hash_ok:
  assumes t: "table_ok ht" and i: "initialized ht" "\<not> packed ht" and n: "nNumUsed ht < nTableSize ht" and k: "K \<notin> keys_of ht"
  shows "\<exists>u. add_to_hash (key_text K) (key_hash K) v ht = Some (Some (nNumUsed ht), u) \<and> table_ok u \<and> view u = put_spec K v (view ht)
    \<and> same_dtor ht u \<and> at_key u K (nNumUsed ht)"
proof -
  let ?n = "nNumUsed ht" and ?b = "\<lparr>z_h = key_hash K, z_key = key_text K, z_val = Some v, z_next = None\<rparr>"
  let ?h = "ht\<lparr>nNumUsed := Suc ?n, nNumOfElements := nNumOfElements ht + 1, nInternalPointer := pointer_to (nInternalPointer ht) ?n,
     iterators := map (\<lambda>p. if p = None then Some ?n else p) (iterators ht), nNextFreeElement := bump_key K (nNextFreeElement ht)\<rparr>"
  have len: "length (arData ht) = nTableSize ht" and ch: "chained ht" using t i by (simp_all add: table_ok_def)
  have "chains (nTableMask ?h) (hashes ?h) (arData ?h) ?n" using chained_chains [OF ch] by simp
  moreover have "place (nTableMask ?h) (z_h ?b) < length (hashes ?h)" using table_places [OF t] by (simp add: places_fit_def)
  moreover have "?n < length (arData ?h)" using n len by simp
  ultimately obtain ar hs where l: "link_bucket ?n ?b ?h = Some (?h\<lparr>arData := ar, hashes := hs\<rparr>)" "length hs = length (hashes ht)"
    "length ar = length (arData ht)" "chains (nTableMask ht) hs ar (Suc ?n)"
    "\<forall>i. content ar i = (if i = ?n then Some (key_hash K, key_text K, Some v) else content (arData ht) i)"
    using link_run [of ?h ?n ?b] by auto
  let ?u = "?h\<lparr>arData := ar, hashes := hs\<rparr>"
  have st: "(if key_text K = None then set_next_free (key_hash K) g else g) = g\<lparr>nNextFreeElement := bump_key K (nNextFreeElement g)\<rparr>" for g
    by (cases K) (simp_all add: set_next_free_eq bump_key_def)
  have run: "add_to_hash (key_text K) (key_hash K) v ht = Some (Some ?n, ?u)"
    using l(1) by (simp add: add_to_hash_def Let_def st count_new_eq)
  have b: "buckets_ok ht" using t by (simp add: table_ok_def)
  have ue: "?u = ht\<lparr>arData := ar, hashes := hs, nNumUsed := Suc ?n, nNumOfElements := nNumOfElements ht + 1,
    nInternalPointer := pointer_to (nInternalPointer ht) ?n, iterators := map (\<lambda>p. if p = None then Some ?n else p) (iterators ht),
    nNextFreeElement := bump_key K (nNextFreeElement ht)\<rparr>"
    by (cases ht) simp
  have "buckets_ok ?u \<and> view ?u = put_spec K v (view ht)"
    unfolding ue by (rule append_ok) (use b n k l(5) in simp_all)
  moreover have "chained ?u" using ch l(2,4) by (simp add: chained_def)
  moreover have "content ar ?n = Some (key_hash K, key_text K, Some v)" using l(5) by simp
  then obtain c where c: "bkt ar ?n = Some c" "z_h c = key_hash K" "z_key c = key_text K" "z_val c = Some v" using content_SomeD by blast
  then have "at_key ?u K ?n" by (cases K) (simp_all add: at_key_def bucket_key_def)
  ultimately show ?thesis using run i len l(3) by (intro exI [of _ ?u]) (simp add: table_ok_def same_dtor_def)
qed

lemma real_init_ok:
  fixes p :: bool
  assumes t: "table_ok ht" and i: "\<not> initialized ht"
  defines "u \<equiv> zend_hash_real_init_ex p ht"
  shows "table_ok u \<and> initialized u \<and> packed u = p \<and> view u = view ht \<and> same_dtor ht u \<and> nNumUsed u = 0 \<and> nTableSize u = nTableSize ht
    \<and> nNumOfElements u = nNumOfElements ht"
proof -
  have b: "buckets_ok ht" and z: "nNumUsed ht = 0" "arData ht = []" "\<not> packed ht" "nTableMask ht = HT_MIN_MASK" using t i by (simp_all add: table_ok_def)
  obtain k where k: "3 \<le> k" "k \<le> 31" "nTableSize ht = 2 ^ k" using b by (auto simp: buckets_ok_def)
  have none: "nInternalPointer ht = None" using b z by (cases "nInternalPointer ht") (simp_all add: buckets_ok_def)
  have e: "hash_entries u = hash_entries ht" "hash_entries ht = []" using z by (auto simp: u_def zend_hash_real_init_ex_def HT_HASH_RESET_def HT_HASH_RESET_PACKED_def hash_entries_def)
  have "buckets_ok u"
    using b z none unfolding buckets_ok_def e(1)
    by (auto simp: u_def zend_hash_real_init_ex_def HT_HASH_RESET_def HT_HASH_RESET_PACKED_def keys_fit_def)
  moreover have "packed_ok u" if p using that z by (simp add: u_def packed_ok_def zend_hash_real_init_ex_def HT_HASH_RESET_PACKED_def)
  moreover have "chained u" if "\<not> p"
    using that z size_mask(2) [OF k] by (simp add: u_def chained_def zend_hash_real_init_ex_def HT_HASH_RESET_def chains_empty)
  ultimately have "table_ok u" using z
    by (cases p) (simp_all add: table_ok_def u_def zend_hash_real_init_ex_def HT_HASH_RESET_def HT_HASH_RESET_PACKED_def)
  moreover have "view u = view ht" using e none
    by (cases p) (simp_all add: view_def cursor_def u_def zend_hash_real_init_ex_def HT_HASH_RESET_def HT_HASH_RESET_PACKED_def)
  ultimately show ?thesis using z
    by (cases p) (simp_all add: same_dtor_def u_def zend_hash_real_init_ex_def HT_HASH_RESET_def HT_HASH_RESET_PACKED_def)
qed

section \<open>New memory\<close>

lemma bkt_take: "i < n \<Longrightarrow> n \<le> length ar \<Longrightarrow> bkt (take n ar @ xs) i = bkt ar i"
  by (simp add: bkt_def nth_opt_def nth_append)

lemma used_length:
  assumes "buckets_ok ht"
  shows "nNumUsed ht \<le> length (arData ht)"
proof (cases "nNumUsed ht")
  case (Suc n)
  then have "bkt (arData ht) n \<noteq> None" using assms by (simp add: buckets_ok_def)
  then show ?thesis using Suc bkt_length by fastforce
qed simp

lemma move_ok:
  fixes p :: bool and m :: "32 word" and hs :: "nat option list"
  assumes b: "buckets_ok ht" and k: "3 \<le> k" "k \<le> 31" "n = 2 ^ k" and n: "nNumUsed ht \<le> n"
  defines "u \<equiv> move_buckets n (ht\<lparr>packed := p, nTableMask := m, hashes := hs, nTableSize := n\<rparr>)"
  shows "buckets_ok u \<and> length (arData u) = n \<and> view u = view ht \<and> same_dtor ht u
    \<and> (\<forall>i < nNumUsed ht. content (arData u) i = content (arData ht) i)"
proof -
  have used: "nNumUsed ht \<le> length (arData ht)" using b by (rule used_length)
  have same: "bkt (arData u) i = bkt (arData ht) i" if "i < nNumUsed ht" for i
    using bkt_take [OF that used] by (simp add: u_def move_buckets_def)
  have con: "content (arData u) i = content (arData ht) i" if "i < nNumUsed ht" for i
    using same [OF that] by (simp add: content_def)
  have df: "defined (arData u) i = defined (arData ht) i" if "i < nNumUsed ht" for i
    using same [OF that] by (simp add: defined_def)
  have e: "hash_entries u = hash_entries ht"
    using entries_cong [of "nNumUsed ht" "arData u" "arData ht"] same by (simp add: hash_entries_def u_def move_buckets_def)
  have "buckets_ok u"
    using b k n same con df unfolding buckets_ok_def e keys_fit_def by (auto simp: u_def move_buckets_def)
  moreover have "rank (arData u) q = rank (arData ht) q" if "nInternalPointer ht = Some q" for q
    using b that df by (intro rank_defined) (auto simp: buckets_ok_def)
  then have "cursor u = cursor ht" by (cases "nInternalPointer ht") (simp_all add: cursor_def u_def move_buckets_def)
  then have "view u = view ht" using e by (simp add: view_def) (simp add: u_def move_buckets_def)
  ultimately show ?thesis using con used n by (simp add: u_def move_buckets_def same_dtor_def)
qed

definition has_room :: "'v hash_table \<Rightarrow> bool" where
  "has_room ht \<longleftrightarrow> 2 * length (hash_entries ht) \<le> HT_MAX_SIZE"

lemma resize_ok:
  assumes t: "table_ok ht" and i: "initialized ht" "\<not> packed ht" and r: "has_room ht"
  shows "\<exists>u. ZEND_HASH_IF_FULL_DO_RESIZE ht = Some u \<and> table_ok u \<and> initialized u \<and> \<not> packed u \<and> nNumUsed u < nTableSize u
    \<and> view u = view ht \<and> same_dtor ht u"
proof (cases "nTableSize ht \<le> nNumUsed ht")
  case False
  then show ?thesis using t i by (simp add: ZEND_HASH_IF_FULL_DO_RESIZE_def)
next
  case True
  have b: "buckets_ok ht" and len: "length (arData ht) = nTableSize ht" and m: "nTableMask ht = - of_nat (nTableSize ht)"
    using t i by (simp_all add: table_ok_def chained_def)
  have ne: "nNumOfElements ht = length (hash_entries ht)" "nNumUsed ht \<le> nTableSize ht" using b by (simp_all add: buckets_ok_def)
  have le: "nNumOfElements ht \<le> nNumUsed ht" using entries_at_most [of "arData ht" "nNumUsed ht"] by (simp add: ne(1) hash_entries_def)
  obtain k where k: "3 \<le> k" "k \<le> 31" "nTableSize ht = 2 ^ k" using b by (auto simp: buckets_ok_def)
  show ?thesis
  proof (cases "nNumOfElements ht + nNumOfElements ht div 32 < nNumUsed ht")
    case few: True
    then have run: "ZEND_HASH_IF_FULL_DO_RESIZE ht = zend_hash_rehash ht"
      using True by (simp add: ZEND_HASH_IF_FULL_DO_RESIZE_def zend_hash_do_resize_def)
    have "nNumOfElements ht < nTableSize ht" using few ne(2) by linarith
    then show ?thesis unfolding run using rehash_ok [OF b i len m] by auto
  next
    case many: False
    have "(2::nat) ^ k \<noteq> 2 ^ 31" using many True r k by (auto simp: has_room_def HT_MAX_SIZE_def ne(1))
    then have k31: "k < 31" using k(2) by (cases "k = 31") auto
    then have "(2::nat) ^ k < 2 ^ 31" by (intro power_strict_increasing) simp_all
    then have small: "nTableSize ht < HT_MAX_SIZE" using k(3) by (simp add: HT_MAX_SIZE_def)
    let ?n = "nTableSize ht + nTableSize ht"
    let ?u = "move_buckets ?n (ht\<lparr>packed := False, nTableMask := - of_nat ?n, hashes := [], nTableSize := ?n\<rparr>)"
    have eq: "ht\<lparr>nTableSize := ?n, hashes := [], nTableMask := - of_nat ?n\<rparr> = ht\<lparr>packed := False, nTableMask := - of_nat ?n, hashes := [], nTableSize := ?n\<rparr>"
      using i by (cases ht) simp
    have run: "ZEND_HASH_IF_FULL_DO_RESIZE ht = zend_hash_rehash ?u"
      using True many small eq by (simp add: ZEND_HASH_IF_FULL_DO_RESIZE_def zend_hash_do_resize_def Let_def)
    have n: "?n = 2 ^ Suc k" "nNumUsed ht \<le> ?n" using k(3) ne(2) by simp_all
    have mv: "buckets_ok ?u \<and> length (arData ?u) = ?n \<and> view ?u = view ht \<and> same_dtor ht ?u"
      using move_ok [OF b _ _ n] k(1) k31 by simp
    have "initialized ?u" "\<not> packed ?u" "nTableSize ?u = ?n" "nTableMask ?u = - of_nat (nTableSize ?u)" "nNumOfElements ?u = nNumOfElements ht"
      using i by (simp_all add: move_buckets_def)
    then obtain w where w: "zend_hash_rehash ?u = Some w" "table_ok w" "initialized w" "\<not> packed w" "view w = view ?u" "same_dtor ?u w"
      "nTableSize w = ?n" "nNumUsed w = nNumOfElements ht"
      using rehash_ok [of ?u] mv by metis
    have "nNumUsed w < nTableSize w" using w(7,8) le ne(2) k(3) zero_less_power [of "2::nat" k] by linarith
    then show ?thesis using run w mv by (auto intro: same_dtor_trans)
  qed
qed

lemma to_hash_ok:
  assumes b: "buckets_ok ht" and i: "initialized ht"
  shows "\<exists>u. zend_hash_packed_to_hash ht = Some u \<and> table_ok u \<and> initialized u \<and> \<not> packed u \<and> view u = view ht \<and> same_dtor ht u"
proof -
  obtain k where k: "3 \<le> k" "k \<le> 31" "nTableSize ht = 2 ^ k" and n: "nNumUsed ht \<le> nTableSize ht" using b by (auto simp: buckets_ok_def)
  let ?n = "nTableSize ht"
  let ?u = "move_buckets ?n (ht\<lparr>packed := False, nTableMask := - of_nat ?n, hashes := [], nTableSize := ?n\<rparr>)"
  have eq: "ht\<lparr>packed := False, hashes := [], nTableMask := - of_nat ?n\<rparr> = ht\<lparr>packed := False, nTableMask := - of_nat ?n, hashes := [], nTableSize := ?n\<rparr>"
    by (cases ht) simp
  have run: "zend_hash_packed_to_hash ht = zend_hash_rehash ?u" by (simp add: zend_hash_packed_to_hash_def eq)
  have mv: "buckets_ok ?u \<and> length (arData ?u) = ?n \<and> view ?u = view ht \<and> same_dtor ht ?u" using move_ok [OF b k n] by blast
  have "initialized ?u" "\<not> packed ?u" "length (arData ?u) = nTableSize ?u" "nTableMask ?u = - of_nat (nTableSize ?u)"
    using i mv by (simp_all add: move_buckets_def)
  from rehash_ok [OF conjunct1 [OF mv] this] obtain w where w: "zend_hash_rehash ?u = Some w" "table_ok w" "initialized w" "\<not> packed w"
    "view w = view ?u" "same_dtor ?u w" by blast
  have "view w = view ht" "same_dtor ht w" using w(5,6) mv same_dtor_trans by auto
  then show ?thesis unfolding run using w(1-4) by blast
qed

end
