(* ===== verification/Zend_Hash_Put.thy ===== *)
theory Zend_Hash_Put
  imports Zend_Hash_Add
begin

text \<open>What adding and updating do, through every branch: to a table that is new, packed or chained.\<close>

section \<open>Into a packed table\<close>

definition gap_filled :: "'v hash_table \<Rightarrow> nat \<Rightarrow> 'v hash_table \<Rightarrow> bool" where
  "gap_filled ht k t \<longleftrightarrow> (\<exists>ar. t = ht\<lparr>arData := ar\<rparr> \<and> length ar = length (arData ht)
     \<and> (\<forall>i < nNumUsed ht. content ar i = content (arData ht) i)
     \<and> (\<forall>i. nNumUsed ht \<le> i \<and> i < k \<longrightarrow> bkt ar i \<noteq> None \<and> \<not> defined ar i))"

lemma undef_step:
  assumes g: "gap_filled ht k t" and k: "nNumUsed ht \<le> k" "k < length (arData ht)"
  shows "\<exists>t'. undef_at k t = Some t' \<and> gap_filled ht (Suc k) t'"
proof -
  obtain ar where ar: "t = ht\<lparr>arData := ar\<rparr>" "length ar = length (arData ht)" "\<forall>i < nNumUsed ht. content ar i = content (arData ht) i"
    "\<forall>i. nNumUsed ht \<le> i \<and> i < k \<longrightarrow> bkt ar i \<noteq> None \<and> \<not> defined ar i" using g by (auto simp: gap_filled_def)
  have kl: "k < length ar" using k(2) ar(2) by simp
  let ?b = "case ar ! k of None \<Rightarrow> \<lparr>z_h = 0, z_key = None, z_val = None, z_next = None\<rparr> | Some b \<Rightarrow> b\<lparr>z_val := None\<rparr>"
  have nv: "z_val ?b = None" by (simp split: option.split)
  have "undef_at k t = Some (ht\<lparr>arData := ar[k := Some ?b]\<rparr>)"
    using kl ar(1) by (simp add: undef_at_def bucket_write_def nth_opt_def)
  moreover have "gap_filled ht (Suc k) (ht\<lparr>arData := ar[k := Some ?b]\<rparr>)"
    unfolding gap_filled_def
  proof (intro exI [of _ "ar[k := Some ?b]"] conjI allI impI)
    fix i assume "nNumUsed ht \<le> i \<and> i < Suc k"
    then show "bkt (ar[k := Some ?b]) i \<noteq> None" "\<not> defined (ar[k := Some ?b]) i"
      using ar(4) nv kl by (auto simp: bkt_update defined_def less_Suc_eq)
  qed (use ar(2,3) k kl in \<open>simp_all add: content_update\<close>)
  ultimately show ?thesis by blast
qed

lemma undef_run:
  assumes "nNumUsed ht \<le> m" and "m \<le> length (arData ht)"
  shows "\<exists>t. for_each undef_at [nNumUsed ht..<m] ht = Some t \<and> gap_filled ht m t"
proof (rule for_each_upt [where P = "gap_filled ht"])
  show "gap_filled ht (nNumUsed ht) ht" unfolding gap_filled_def by (intro exI [of _ "arData ht"]) auto
  fix k t assume "nNumUsed ht \<le> k" "k < m" "gap_filled ht k t"
  then show "\<exists>t'. undef_at k t = Some t' \<and> gap_filled ht (Suc k) t'" using assms(2) by (intro undef_step) simp_all
qed (use assms in simp)

text \<open>What an operation that puts a value does: the view changes as that of a list, and the old value is given to the destructor.\<close>

definition put_ok :: "hash_key \<Rightarrow> 'v \<Rightarrow> 'v hash_table \<Rightarrow> (nat option \<times> 'v hash_table) option \<Rightarrow> bool" where
  "put_ok K v ht r \<longleftrightarrow> (\<exists>i u. r = Some (Some i, u) \<and> table_ok u \<and> view u = put_spec K v (view ht) \<and> at_key u K i
     \<and> pDestructor u = pDestructor ht
     \<and> destroyed u = destroyed ht @ (if pDestructor ht then (case map_of (hash_entries ht) K of None \<Rightarrow> [] | Some w \<Rightarrow> [w]) else []))"

lemma put_ok_new:
  assumes "K \<notin> keys_of ht" and "table_ok u" and "view u = put_spec K v (view ht)" and "same_dtor ht u" and "at_key u K i"
  shows "put_ok K v ht (Some (Some i, u))"
proof -
  have "map_of (hash_entries ht) K = None" using assms(1) by (simp add: map_of_eq_None_iff)
  then show ?thesis using assms by (simp add: put_ok_def same_dtor_def)
qed

text \<open>The state in between may have other memory, but shows the same.\<close>

lemma view_entries: "view u = view ht \<Longrightarrow> hash_entries u = hash_entries ht"
  by (simp add: view_def)

lemma put_ok_via: "put_ok K v u r \<Longrightarrow> view u = view ht \<Longrightarrow> same_dtor ht u \<Longrightarrow> put_ok K v ht r"
  by (auto simp: put_ok_def same_dtor_def dest: view_entries)

lemma add_to_packed_ok:
  assumes t: "table_ok ht" and i: "initialized ht" "packed ht" and h: "nNumUsed ht \<le> unat h" "unat h < nTableSize ht"
    and f: "flag AND (HASH_ADD_NEW OR HASH_ADD_NEXT) = HASH_ADD_NEW OR HASH_ADD_NEXT \<Longrightarrow> unat h = nNumUsed ht"
  shows "put_ok (Num h) v ht (add_to_packed h v flag ht)"
proof -
  let ?n = "nNumUsed ht" and ?m = "unat h" and ?K = "Num h"
  have b: "buckets_ok ht" and len: "length (arData ht) = nTableSize ht" and pk: "packed_ok ht" using t i by (simp_all add: table_ok_def)
  have "\<not> at_key ht ?K i" for i using packed_key [OF t i, of ?K i] h(1) by auto
  then have k: "?K \<notin> keys_of ht" unfolding keys_at by blast
  obtain g where g: "(if flag AND (HASH_ADD_NEW OR HASH_ADD_NEXT) = HASH_ADD_NEW OR HASH_ADD_NEXT then Some (ht\<lparr>nNumUsed := ?m + 1\<rparr>)
      else if ?n \<le> ?m then map_option (\<lambda>ht. ht\<lparr>nNumUsed := ?m + 1\<rparr>) (for_each undef_at [?n..<?m] ht) else Some ht)
      = Some (g\<lparr>nNumUsed := Suc ?m\<rparr>)" "gap_filled ht ?m g"
  proof (cases "flag AND (HASH_ADD_NEW OR HASH_ADD_NEXT) = HASH_ADD_NEW OR HASH_ADD_NEXT")
    case True
    have "gap_filled ht ?m ht" using f [OF True] unfolding gap_filled_def by (intro exI [of _ "arData ht"]) auto
    then show ?thesis using True that [of ht] by simp
  next
    case False
    obtain g where "for_each undef_at [?n..<?m] ht = Some g" "gap_filled ht ?m g" using undef_run [of ht ?m] h len by auto
    then show ?thesis using False h that [of g] by simp
  qed
  obtain ar where ar: "g = ht\<lparr>arData := ar\<rparr>" "length ar = length (arData ht)" "\<forall>i < ?n. content ar i = content (arData ht) i"
    "\<forall>i. ?n \<le> i \<and> i < ?m \<longrightarrow> bkt ar i \<noteq> None \<and> \<not> defined ar i" using g(2) by (auto simp: gap_filled_def)
  let ?its = "map (\<lambda>p. if p = None then Some ?m else p) (iterators ht)"
  let ?x = "case nth_opt ar ?m of Some (Some b) \<Rightarrow> z_next b | _ \<Rightarrow> None"
  let ?ar = "ar[?m := Some \<lparr>z_h = h, z_key = None, z_val = Some v, z_next = ?x\<rparr>]"
  let ?u = "ht\<lparr>arData := ?ar, hashes := hashes ht, nNumUsed := Suc ?m, nNumOfElements := nNumOfElements ht + 1,
    nInternalPointer := pointer_to (nInternalPointer ht) ?m, iterators := ?its, nNextFreeElement := bump_key ?K (nNextFreeElement ht)\<rparr>"
  have ml: "?m < length ar" using h(2) ar(2) len by simp
  have run: "add_to_packed h v flag ht = Some (Some ?m, ?u)"
    unfolding add_to_packed_def g(1)
    using ml by (cases ht) (simp add: Let_def count_new_eq set_next_free_eq ar(1) bucket_write_def bump_key_def)
  have bv: "buckets_ok ?u \<and> view ?u = put_spec ?K v (view ht)"
  proof (rule append_ok [OF b])
    show "content ?ar ?m = Some (key_hash ?K, key_text ?K, Some v)" using ml by (simp add: content_update)
    show "bkt ?ar i \<noteq> None \<and> \<not> defined ?ar i" if "?n \<le> i" "i < ?m" for i
      using that ar(4) ml by (auto simp: bkt_update defined_def)
  qed (use ar(3) ml h k in \<open>simp_all add: content_update\<close>)
  have "packed_ok ?u"
    unfolding packed_ok_def
  proof (intro conjI allI impI)
    fix i h' k' w assume i: "i < nNumUsed ?u" "content (arData ?u) i = Some (h', k', Some w)"
    consider "i < ?n" | "?n \<le> i" "i < ?m" | "i = ?m" using i(1) by force
    then have "unat h' = i \<and> k' = None"
    proof cases
      case 1
      then have "content (arData ht) i = Some (h', k', Some w)" using i(2) ar(3) ml h(1) by (simp add: content_update)
      then show ?thesis using pk 1 by (auto simp: packed_ok_def)
    next
      case 2
      then have "content ar i = Some (h', k', Some w)" using i(2) ml by (simp add: content_update)
      then show ?thesis using ar(4) 2 by (auto simp: content_def defined_def)
    next
      case 3
      then show ?thesis using i(2) ml by (simp add: content_update)
    qed
    then show "unat h' = i" "k' = None" by blast+
  qed (use pk in \<open>simp_all add: packed_ok_def\<close>)
  then have tu: "table_ok ?u" using bv i len ar(2) by (simp add: table_ok_def)
  have au: "at_key ?u ?K ?m" using ml by (simp add: at_key_def bkt_update bucket_key_def)
  have "same_dtor ht ?u" by (simp add: same_dtor_def)
  then show ?thesis unfolding run using put_ok_new [OF k tu conjunct2 [OF bv] _ au] by blast
qed

section \<open>Into a chained table\<close>

lemma hash_put:
  assumes t: "table_ok ht" and i: "initialized ht" "\<not> packed ht" and r: "has_room ht" and k: "K \<notin> keys_of ht"
  shows "put_ok K v ht (Option.bind (ZEND_HASH_IF_FULL_DO_RESIZE ht) (add_to_hash (key_text K) (key_hash K) v))"
proof -
  obtain g where g: "ZEND_HASH_IF_FULL_DO_RESIZE ht = Some g" "table_ok g" "initialized g" "\<not> packed g" "nNumUsed g < nTableSize g"
    "view g = view ht" "same_dtor ht g" using resize_ok [OF t i r] by blast
  have kg: "K \<notin> keys_of g" using k g(6) by (simp add: view_entries [OF g(6)])
  obtain u where u: "add_to_hash (key_text K) (key_hash K) v g = Some (Some (nNumUsed g), u)" "table_ok u" "view u = put_spec K v (view g)"
    "same_dtor g u" "at_key u K (nNumUsed g)" using add_to_hash_ok [OF g(2-5) kg] by blast
  have "put_ok K v g (Some (Some (nNumUsed g), u))" using put_ok_new [OF kg u(2-5)] .
  from put_ok_via [OF this g(6,7)] show ?thesis using g(1) u(1) by simp
qed

lemma init_put:
  assumes t: "table_ok ht" and i: "\<not> initialized ht"
  shows "put_ok K v ht (add_to_hash (key_text K) (key_hash K) v (zend_hash_real_init_ex False ht))"
proof -
  let ?g = "zend_hash_real_init_ex False ht"
  have g: "table_ok ?g" "initialized ?g" "\<not> packed ?g" "view ?g = view ht" "same_dtor ht ?g" "nNumUsed ?g = 0" "nTableSize ?g = nTableSize ht"
    using real_init_ok [OF t i, of False] by auto
  have n: "nNumUsed ?g < nTableSize ?g" using t g(6,7) by (auto simp: table_ok_def buckets_ok_def)
  have kg: "K \<notin> keys_of ?g" using g(6) by (simp add: hash_entries_def)
  obtain u where u: "add_to_hash (key_text K) (key_hash K) v ?g = Some (Some (nNumUsed ?g), u)" "table_ok u" "view u = put_spec K v (view ?g)"
    "same_dtor ?g u" "at_key u K (nNumUsed ?g)" using add_to_hash_ok [OF g(1-3) n kg] by blast
  have "put_ok K v ?g (Some (Some (nNumUsed ?g), u))" using put_ok_new [OF kg u(2-5)] .
  from put_ok_via [OF this g(4,5)] show ?thesis using u(1) by simp
qed

lemma convert_put:
  assumes t: "table_ok ht" and i: "initialized ht" and r: "has_room ht" and k: "K \<notin> keys_of ht"
  shows "put_ok K v ht (Option.bind (zend_hash_packed_to_hash ht)
    (\<lambda>ht. Option.bind (ZEND_HASH_IF_FULL_DO_RESIZE ht) (add_to_hash (key_text K) (key_hash K) v)))"
proof -
  obtain g where g: "zend_hash_packed_to_hash ht = Some g" "table_ok g" "initialized g" "\<not> packed g" "view g = view ht" "same_dtor ht g"
    using to_hash_ok [OF table_ok_buckets [OF t] i] by blast
  have "K \<notin> keys_of g" "has_room g" using k r g(5) by (simp_all add: view_entries [OF g(5)] has_room_def)
  then have "put_ok K v g (Option.bind (ZEND_HASH_IF_FULL_DO_RESIZE g) (add_to_hash (key_text K) (key_hash K) v))"
    using hash_put [OF g(2-4)] by blast
  from put_ok_via [OF this g(5,6)] show ?thesis using g(1) by simp
qed

lemma replace_put:
  assumes t: "table_ok ht" and a: "at_key ht K i"
  shows "put_ok K v ht (map_option (\<lambda>u. (Some i, u\<lparr>nNextFreeElement := bump_key K (nNextFreeElement u)\<rparr>)) (replace_value i v ht))"
proof -
  obtain u old where u: "replace_value i v ht = Some u" "table_ok u" "view u = (AList.update K v (hash_entries ht), cursor ht, nNextFreeElement ht)"
    "map_of (hash_entries ht) K = Some old" "dtor_called old ht u" "at_key u K i" using replace_run [OF t a] by metis
  let ?w = "u\<lparr>nNextFreeElement := bump_key K (nNextFreeElement u)\<rparr>"
  have "K \<in> keys_of ht" using u(4) by (metis fst_conv image_eqI map_of_SomeD)
  then have "view ?w = put_spec K v (view ht)" using u(3) unfolding view_updates by (simp add: view_def)
  moreover have "at_key ?w K i" using u(6) by (simp add: at_key_def)
  ultimately show ?thesis using u(1,2,4,5) by (simp add: put_ok_def dtor_called_def)
qed

section \<open>The operations\<close>

lemma name_put:
  assumes t: "table_ok ht" and r: "has_room ht" and f: "flag AND HASH_ADD_NEW \<noteq> 0 \<Longrightarrow> Name s \<notin> keys_of ht"
  shows "if Name s \<in> keys_of ht \<and> flag AND HASH_ADD \<noteq> 0 then zend_hash_add_or_update_i s v flag ht = Some (None, ht)
    else put_ok (Name s) v ht (zend_hash_add_or_update_i s v flag ht)"
proof -
  let ?K = "Name s" and ?r = "zend_hash_add_or_update_i s v flag ht"
  have add: "put_ok ?K v ht (Option.bind (ZEND_HASH_IF_FULL_DO_RESIZE ht) (add_to_hash (Some s) (zend_inline_hash_func s) v))"
    if "initialized ht" "\<not> packed ht" "?K \<notin> keys_of ht" using hash_put [OF t that(1,2) r that(3), of v] by simp
  consider "\<not> initialized ht" | "initialized ht" "packed ht" | "initialized ht" "\<not> packed ht" "flag AND HASH_ADD_NEW \<noteq> 0"
    | "initialized ht" "\<not> packed ht" "flag AND HASH_ADD_NEW = 0" by blast
  then show ?thesis
  proof cases
    case 1
    have "?K \<notin> keys_of ht" using t 1 by (simp add: hash_entries_def table_ok_def)
    then show ?thesis using init_put [OF t 1, of ?K v] 1 by (simp add: zend_hash_add_or_update_i_def)
  next
    case 2
    have k: "?K \<notin> keys_of ht" using packed_key [OF t 2, of ?K] unfolding keys_at by blast
    then show ?thesis using convert_put [OF t 2(1) r k, of v] 2 by (simp add: zend_hash_add_or_update_i_def)
  next
    case 3
    then show ?thesis using add f by (simp add: zend_hash_add_or_update_i_def)
  next
    case 4
    obtain p where p: "zend_hash_find_bucket s ht = Some p" "found ht ?K p" using find_run [OF t] by blast
    show ?thesis
    proof (cases p)
      case None
      then show ?thesis using add 4 p by (simp add: zend_hash_add_or_update_i_def found_def)
    next
      case (Some i)
      then have a: "at_key ht ?K i" using p(2) by (simp add: found_def)
      then have "?K \<in> keys_of ht" using keys_at by blast
      then show ?thesis using replace_put [OF t a, of v] 4 p(1) Some
        by (simp add: zend_hash_add_or_update_i_def Let_def bump_key_def)
    qed
  qed
qed

lemma grow_ok:
  assumes t: "table_ok ht" and i: "initialized ht" "packed ht" and s: "nTableSize ht < HT_MAX_SIZE"
  shows "\<exists>u. zend_hash_packed_grow ht = Some u \<and> table_ok u \<and> initialized u \<and> packed u \<and> view u = view ht \<and> same_dtor ht u
    \<and> nTableSize u = 2 * nTableSize ht \<and> nNumUsed u = nNumUsed ht"
proof -
  have b: "buckets_ok ht" and pk: "packed_ok ht" using t i by (simp_all add: table_ok_def)
  obtain k where k: "3 \<le> k" "k \<le> 31" "nTableSize ht = 2 ^ k" and n: "nNumUsed ht \<le> nTableSize ht" using b by (auto simp: buckets_ok_def)
  have k31: "k < 31" using s k by (cases "k = 31") (auto simp: HT_MAX_SIZE_def)
  let ?n = "nTableSize ht + nTableSize ht"
  let ?u = "move_buckets ?n (ht\<lparr>packed := True, nTableMask := nTableMask ht, hashes := hashes ht, nTableSize := ?n\<rparr>)"
  have eq: "ht\<lparr>nTableSize := ?n\<rparr> = ht\<lparr>packed := True, nTableMask := nTableMask ht, hashes := hashes ht, nTableSize := ?n\<rparr>"
    using i(2) by (cases ht) simp
  have run: "zend_hash_packed_grow ht = Some ?u" using s eq by (simp add: zend_hash_packed_grow_def Let_def)
  have nk: "?n = 2 ^ Suc k" "nNumUsed ht \<le> ?n" using k(3) n by simp_all
  have mv: "buckets_ok ?u \<and> length (arData ?u) = ?n \<and> view ?u = view ht \<and> same_dtor ht ?u
    \<and> (\<forall>i < nNumUsed ht. content (arData ?u) i = content (arData ht) i)" by (rule move_ok [OF b _ _ nk]) (use k(1) k31 in simp_all)
  have "packed_ok ?u"
    using pk mv by (auto simp: packed_ok_def move_buckets_def)
  then show ?thesis using run mv i by (intro exI [of _ ?u]) (simp add: table_ok_def, simp add: move_buckets_def)
qed

lemma number_put:
  assumes t: "table_ok ht" and r: "has_room ht" and f: "flag AND HASH_ADD_NEW \<noteq> 0 \<Longrightarrow> Num h \<notin> keys_of ht"
    and fn: "flag AND (HASH_ADD_NEW OR HASH_ADD_NEXT) = HASH_ADD_NEW OR HASH_ADD_NEXT \<Longrightarrow> unat h = nNumUsed ht"
  shows "if Num h \<in> keys_of ht \<and> flag AND HASH_ADD \<noteq> 0 then zend_hash_index_add_or_update_i h v flag ht = Some (None, ht)
    else put_ok (Num h) v ht (zend_hash_index_add_or_update_i h v flag ht)"
proof -
  let ?K = "Num h" and ?r = "zend_hash_index_add_or_update_i h v flag ht"
  note d = zend_hash_index_add_or_update_i_def
  have upd: ?thesis if "?r = (if flag AND HASH_ADD \<noteq> 0 then Some (None, ht)
        else map_option (\<lambda>ht. (Some i, set_next_free h ht)) (replace_value i v ht))" "at_key ht ?K i" for i
  proof -
    have "?K \<in> keys_of ht" using that(2) keys_at by blast
    then show ?thesis using replace_put [OF t that(2), of v] that(1) by (simp add: set_next_free_eq bump_key_def)
  qed
  have new: ?thesis if "?K \<notin> keys_of ht" "put_ok ?K v ht ?r" using that by simp
  have add: "put_ok ?K v ht (Option.bind (ZEND_HASH_IF_FULL_DO_RESIZE ht) (add_to_hash None h v))"
    if "initialized ht" "\<not> packed ht" "?K \<notin> keys_of ht" using hash_put [OF t that(1,2) r that(3), of v] by simp
  have conv: "put_ok ?K v ht (Option.bind (zend_hash_packed_to_hash ht) (\<lambda>ht. Option.bind (ZEND_HASH_IF_FULL_DO_RESIZE ht) (add_to_hash None h v)))"
    if "initialized ht" "?K \<notin> keys_of ht" using convert_put [OF t that(1) r that(2), of v] by simp
  have pk: "at_key ht ?K i \<longleftrightarrow> unat h = i \<and> i < nNumUsed ht \<and> defined (arData ht) i" if "initialized ht" "packed ht" for i
    using packed_key [OF t that, of ?K i] by auto
  consider (fresh) "\<not> initialized ht" | (used) "initialized ht" "packed ht" "unat h < nNumUsed ht"
    | (packed) "initialized ht" "packed ht" "\<not> unat h < nNumUsed ht"
    | (fast) "initialized ht" "\<not> packed ht" "flag AND HASH_ADD_NEW \<noteq> 0" | (chain) "initialized ht" "\<not> packed ht" "flag AND HASH_ADD_NEW = 0"
    by blast
  then show ?thesis
  proof cases
    case fresh
    have k: "?K \<notin> keys_of ht" using t fresh by (simp add: hash_entries_def table_ok_def)
    let ?g = "zend_hash_real_init_ex True ht"
    have g: "table_ok ?g" "initialized ?g" "packed ?g" "view ?g = view ht" "same_dtor ht ?g" "nNumUsed ?g = 0" "nTableSize ?g = nTableSize ht"
      using real_init_ok [OF t fresh, of True] by auto
    have z: "nNumUsed ht = 0" using t fresh by (simp add: table_ok_def)
    have "put_ok ?K v ht (add_to_packed h v flag ?g)" if "unat h < nTableSize ht"
      using add_to_packed_ok [OF g(1-3), of h flag v] that g(6,7) fn z put_ok_via [OF _ g(4,5)] by simp
    then show ?thesis using init_put [OF t fresh, of ?K v] fresh k by (simp add: d)
  next
    case used
    obtain b where b: "bkt (arData ht) (unat h) = Some b" using t used by (auto simp: table_ok_def buckets_ok_def)
    show ?thesis
    proof (cases "z_val b = None")
      case True
      then have "?K \<notin> keys_of ht" using pk [OF used(1,2)] b unfolding keys_at by (auto simp: defined_def)
      then show ?thesis using conv used True b by (intro new) (simp_all add: d)
    next
      case False
      then have "at_key ht ?K (unat h)" using pk [OF used(1,2)] used(3) b by (auto simp: defined_def)
      then show ?thesis using used b False by (intro upd) (simp_all add: d)
    qed
  next
    case packed
    have k: "?K \<notin> keys_of ht" using pk [OF packed(1,2)] packed(3) unfolding keys_at by auto
    show ?thesis
    proof (cases "unat h < nTableSize ht")
      case True
      then have "put_ok ?K v ht (add_to_packed h v flag ht)" using packed by (intro add_to_packed_ok t fn) simp_all
      then show ?thesis using packed True k by (simp add: d)
    next
      case big: False
      show ?thesis
      proof (cases "unat (drop_bit 1 h) < nTableSize ht \<and> nTableSize ht div 2 < nNumOfElements ht")
        case True
        have "nTableSize ht < HT_MAX_SIZE" using True r t by (auto simp: has_room_def table_ok_def buckets_ok_def)
        then obtain g where g: "zend_hash_packed_grow ht = Some g" "table_ok g" "initialized g" "packed g" "view g = view ht" "same_dtor ht g"
          "nTableSize g = 2 * nTableSize ht" "nNumUsed g = nNumUsed ht" using grow_ok [OF t packed(1,2)] by blast
        have "unat h div 2 < nTableSize ht" using True by (simp add: drop_bit_eq_div unat_div_distrib)
        then have hg: "nNumUsed g \<le> unat h" "unat h < nTableSize g" using packed(3) g(7,8) by simp_all
        have "put_ok ?K v g (add_to_packed h v flag g)" using add_to_packed_ok [OF g(2-4) hg] fn g(8) by simp
        then have "put_ok ?K v ht (add_to_packed h v flag g)" by (rule put_ok_via [OF _ g(5,6)])
        then show ?thesis using packed big True g(1) k by (simp add: d)
      next
        case False
        then show ?thesis using packed big conv k by (auto simp: d)
      qed
    qed
  next
    case fast
    then show ?thesis using add f by (simp add: d)
  next
    case chain
    obtain p where p: "zend_hash_index_find_bucket h ht = Some p" "found ht ?K p"
      using index_find_run [OF t, of h] chain by (auto simp: zend_hash_index_find_def)
    show ?thesis
    proof (cases p)
      case None
      then show ?thesis using add chain p by (simp add: d found_def)
    next
      case (Some i)
      then show ?thesis using chain p by (intro upd) (simp_all add: d found_def)
    qed
  qed
qed

end
