(* ===== verification/Zend_Hash_Delete.thy ===== *)
theory Zend_Hash_Delete
  imports Zend_Hash_Put
begin

text \<open>Deleting: the bucket leaves its chain and becomes a hole, and the holes at the end are used no more.\<close>

section \<open>The loops\<close>

lemma chain_skip:
  assumes "chain ar x (as @ i # bs)" and "as \<noteq> []" and "distinct (as @ i # bs)" and p: "bkt ar i = Some p"
    and q: "bkt ar (last as) = Some b"
  shows "chain (ar[last as := Some (b\<lparr>z_next := z_next p\<rparr>)]) x (as @ bs)"
  using assms(1-3) q
proof (induction as arbitrary: x)
  case (Cons a as)
  have ql: "last (a # as) < length ar" using Cons.prems(4) by (rule bkt_length)
  obtain c where c: "x = Some a" "bkt ar a = Some c" "chain ar (z_next c) (as @ i # bs)" using Cons.prems(1) by auto
  show ?case
  proof (cases "as = []")
    case True
    then have l: "chain ar (z_next p) bs" "c = b" "a \<notin> set bs" using c Cons.prems p by auto
    have "chain (ar[a := Some (b\<lparr>z_next := z_next p\<rparr>)]) (z_next p) bs = chain ar (z_next p) bs"
      using ql l(3) True by (intro chain_cong) (auto simp: bkt_update)
    then show ?thesis using c(1) l True ql by (simp add: bkt_update)
  next
    case False
    then have "last as \<noteq> a" using Cons.prems(3) last_in_set [of as] by auto
    then show ?thesis using Cons.IH [OF c(3) False] Cons.prems(3,4) c(1,2) ql False by (simp add: bkt_update)
  qed
qed simp

lemma find_prev_run:
  "chain (arData ht) x (as @ i # bs) \<Longrightarrow> as \<noteq> [] \<Longrightarrow> distinct (as @ i # bs) \<Longrightarrow> find_prev i x ht = Some (last as)"
proof (induction as arbitrary: x)
  case (Cons a as)
  then obtain c where c: "x = Some a" "bkt (arData ht) a = Some c" "chain (arData ht) (z_next c) (as @ i # bs)" by auto
  show ?case
  proof (cases "as = []")
    case True
    then show ?thesis using c by (subst find_prev.simps) simp
  next
    case False
    then have "z_next c \<noteq> Some i" using c(3) Cons.prems(3) by (cases as) auto
    then show ?thesis using Cons.IH [OF c(3) False] Cons.prems(3) c False by (subst find_prev.simps) simp
  qed
qed simp

lemma del_loop_run:
  assumes "chain (arData ht) x (as @ i # bs)" and "\<And>j. j \<in> set as \<Longrightarrow> \<not> P (the (bkt (arData ht) j))" and "P (the (bkt (arData ht) i))"
  shows "del_loop P prev x ht = map_option (Pair True) (zend_hash_del_el_ex i (if as = [] then prev else Some (last as)) ht)"
  using assms
proof (induction as arbitrary: x prev)
  case Nil
  then show ?case by (subst del_loop.simps) auto
next
  case (Cons a as)
  obtain b where b: "x = Some a" "bkt (arData ht) a = Some b" "chain (arData ht) (z_next b) (as @ i # bs)" using Cons.prems(1) by auto
  have "\<not> P b" using Cons.prems(2) [of a] b(2) by simp
  then show ?case using Cons.IH [OF b(3) Cons.prems(2) Cons.prems(3)] b by (subst del_loop.simps) simp
qed

lemma del_loop_none:
  "chain (arData ht) x is \<Longrightarrow> (\<And>j. j \<in> set is \<Longrightarrow> \<not> P (the (bkt (arData ht) j))) \<Longrightarrow> del_loop P prev x ht = Some (False, ht)"
proof (induction "is" arbitrary: x prev)
  case Nil
  then show ?case by (subst del_loop.simps) simp
next
  case (Cons a as)
  obtain b where b: "x = Some a" "bkt (arData ht) a = Some b" "chain (arData ht) (z_next b) as" using Cons.prems(1) by auto
  have "\<not> P b" using Cons.prems(2) [of a] b(2) by simp
  then show ?case using Cons.IH [OF b(3) Cons.prems(2)] b by (subst del_loop.simps) simp
qed

lemma drop_holes_run:
  "(\<And>q. q < n \<Longrightarrow> bkt (arData ht) q \<noteq> None) \<Longrightarrow> \<exists>m \<le> n. drop_holes n ht = Some m \<and> (\<forall>q. m \<le> q \<and> q < n \<longrightarrow> \<not> defined (arData ht) q)"
proof (induction n)
  case (Suc n)
  obtain b where b: "bkt (arData ht) n = Some b" using Suc.prems [of n] by auto
  obtain m where m: "m \<le> n" "drop_holes n ht = Some m" "\<forall>q. m \<le> q \<and> q < n \<longrightarrow> \<not> defined (arData ht) q" using Suc by auto
  show ?case
  proof (cases "z_val b = None")
    case True
    then show ?thesis using m b by (intro exI [of _ m]) (auto simp: less_Suc_eq defined_def)
  next
    case False
    then show ?thesis using b by (intro exI [of _ "Suc n"]) auto
  qed
qed simp

definition first_defined :: "'v zbucket option list \<Rightarrow> nat \<Rightarrow> nat \<Rightarrow> nat option \<Rightarrow> bool" where
  "first_defined ar i n r \<longleftrightarrow> (case r of None \<Rightarrow> \<forall>q. i \<le> q \<and> q < n \<longrightarrow> \<not> defined ar q
     | Some q \<Rightarrow> i \<le> q \<and> q < n \<and> defined ar q \<and> (\<forall>j. i \<le> j \<and> j < q \<longrightarrow> \<not> defined ar j))"

lemma next_defined_run:
  "(\<And>q. q < nNumUsed ht \<Longrightarrow> bkt (arData ht) q \<noteq> None) \<Longrightarrow> \<exists>r. next_defined i ht = Some r \<and> first_defined (arData ht) i (nNumUsed ht) r"
proof (induction i ht rule: next_defined.induct)
  case (1 i ht)
  show ?case
  proof (cases "nNumUsed ht \<le> i")
    case True
    then show ?thesis by (subst next_defined.simps) (auto simp: first_defined_def)
  next
    case False
    then obtain b where b: "bkt (arData ht) i = Some b" using "1.prems" [of i] by auto
    show ?thesis
    proof (cases "z_val b = None")
      case True
      obtain r where r: "next_defined (Suc i) ht = Some r" "first_defined (arData ht) (Suc i) (nNumUsed ht) r"
        using "1.IH" [OF False _ _ "1.prems", of b] b True by auto
      have "\<not> defined (arData ht) i" using b True by (simp add: defined_def)
      then have "first_defined (arData ht) i (nNumUsed ht) r"
        using r(2) unfolding first_defined_def by (cases r) (auto, (metis Suc_leI le_neq_implies_less)+)
      then show ?thesis using r(1) b True False by (subst next_defined.simps) simp
    next
      case defd: False
      then have "first_defined (arData ht) i (nNumUsed ht) (Some i)" using b False by (auto simp: first_defined_def defined_def)
      then show ?thesis using b defd False by (subst next_defined.simps) simp
    qed
  qed
qed

section \<open>What deleting means\<close>

definition number_of :: "hash_key \<Rightarrow> (hash_key \<times> 'v) list \<Rightarrow> nat" where
  "number_of K es = length (takeWhile (\<lambda>e. fst e \<noteq> K) es)"

text \<open>A pointer at the entry goes to the next one, if there is one.\<close>

fun remove_spec :: "hash_key \<Rightarrow> (hash_key \<times> 'v) list \<times> nat option \<times> 64 word \<Rightarrow> (hash_key \<times> 'v) list \<times> nat option \<times> 64 word" where
  "remove_spec K (es, c, nf) =
     (AList.delete K es,
      (case c of None \<Rightarrow> None
       | Some x \<Rightarrow> if x < number_of K es then Some x
           else if x = number_of K es then (if Suc x < length es then Some x else None)
           else Some (x - 1)),
      nf)"

lemma number_of_mid: "K \<notin> fst ` set xs \<Longrightarrow> number_of K (xs @ (K, w) # ys) = length xs"
  by (induction xs) (auto simp: number_of_def)

text \<open>The state after bucket \<open>i\<close> has become a hole.\<close>

lemma hole_ok:
  fixes hs its :: "nat option list" and ds :: "'v list"
  assumes b: "buckets_ok ht" and i: "i < nNumUsed ht" and p: "bkt (arData ht) i = Some p" "z_val p = Some w"
    and old: "\<And>q. q \<noteq> i \<Longrightarrow> content ar q = content (arData ht) q" and hole: "content ar i = Some (z_h p, z_key p, None)"
    and n: "n \<le> nNumUsed ht" "\<And>q. n \<le> q \<Longrightarrow> q < nNumUsed ht \<Longrightarrow> \<not> defined ar q"
    and r: "nInternalPointer ht = Some i \<Longrightarrow> first_defined ar (Suc i) n r"
  defines "u \<equiv> ht\<lparr>arData := ar, hashes := hs, nNumUsed := n, nNumOfElements := nNumOfElements ht - 1,
    nInternalPointer := (if nInternalPointer ht = Some i then r else nInternalPointer ht), iterators := its, destroyed := ds\<rparr>"
  shows "buckets_ok u \<and> view u = remove_spec (bucket_key p) (view ht)"
proof -
  let ?a = "arData ht" and ?m = "nNumUsed ht" and ?K = "bucket_key p"
  let ?post = "concat (map (entry ?a) [Suc i..<?m])"
  have d: "distinct (map fst (hash_entries ht))" using b by (simp add: buckets_ok_def)
  have e: "hash_entries ht = entries ?a i @ (?K, w) # ?post"
    using entries_split [OF i, of ?a] entry_Some [OF p] by (simp add: hash_entries_def)
  have K: "?K \<notin> fst ` set (entries ?a i)" "?K \<notin> fst ` set ?post" using d unfolding e by auto
  have df: "defined ar q = (q \<noteq> i \<and> defined ?a q)" for q
    using defined_content [OF old, of q] hole by (cases "q = i") (auto simp: defined_def content_def)
  have en: "entry ar q = entry ?a q" if "q \<noteq> i" for q using entry_content [OF old [OF that]] .
  have "entry ar i = []" using df entry_nil by blast
  moreover have "entries ar i = entries ?a i" using old by (intro entries_content) simp
  moreover have "map (entry ar) [Suc i..<?m] = map (entry ?a) [Suc i..<?m]" using en by simp
  ultimately have "entries ar ?m = entries ?a i @ ?post" by (simp only: entries_split [OF i, of ar] append_Nil)
  then have em: "entries ar n = entries ?a i @ ?post" using entries_gap [OF n] by simp
  have del: "hash_entries u = AList.delete ?K (hash_entries ht)"
    using em unfolding e delete_mid [OF K, of w] by (simp add: hash_entries_def u_def)
  have num: "number_of ?K (hash_entries ht) = rank ?a i" using number_of_mid [OF K(1)] by (simp add: e rank_def)
  have len: "length (hash_entries ht) = rank ?a ?m" by (simp add: rank_def hash_entries_def)
  have di: "defined ?a i" using p by (simp add: defined_def)
  have low: "rank ar q = rank ?a q" if "q \<le> i" for q using that df by (intro rank_defined) simp
  have "rank ?a q = Suc (rank ar q)" if "i < q" for q
    using that low [of i] df di by (induction q) (auto simp: rank_Suc less_Suc_eq)
  then have high: "rank ar q = rank ?a q - 1" if "i < q" for q using that by simp
  have ptr: "q < ?m \<and> defined ?a q" if "nInternalPointer ht = Some q" for q using b that by (simp add: buckets_ok_def)
  have below: "q < n" if "q < ?m" "q \<noteq> i" "defined ?a q" for q using n(2) [of q] df that by (meson not_le_imp_less)
  have pok: "q < n \<and> defined ar q" if q: "nInternalPointer u = Some q" for q
  proof (cases "nInternalPointer ht = Some i")
    case True
    then show ?thesis using q r [OF True] by (simp add: u_def first_defined_def)
  next
    case False
    then show ?thesis using q ptr [of q] below df by (auto simp: u_def)
  qed
  have bn: "bkt ar q \<noteq> None" if q: "q < n" for q
  proof (cases "q = i")
    case True
    then show ?thesis using hole by (auto simp: content_def)
  next
    case False
    have "bkt ?a q \<noteq> None" using b q n(1) by (simp add: buckets_ok_def)
    then show ?thesis using old [OF False] by (auto simp: content_def)
  qed
  have kf: "keys_fit ar n"
    unfolding keys_fit_def
  proof (intro allI impI)
    fix q h s v assume q: "q < n" "content ar q = Some (h, Some s, Some v)"
    then have "q \<noteq> i" using hole by auto
    then show "h = zend_inline_hash_func s" using b less_le_trans [OF q(1) n(1)] q(2) old [of q] by (auto simp: buckets_ok_def keys_fit_def)
  qed
  have l1: "length (hash_entries u) = length (hash_entries ht) - 1" using em unfolding e by (simp add: hash_entries_def u_def)
  have "distinct (map fst (hash_entries u))" unfolding del using d by (rule distinct_delete)
  then have ok: "buckets_ok u"
    using b n(1) pok bn kf l1 unfolding buckets_ok_def by (simp add: u_def)
  have "cursor u = (case cursor ht of None \<Rightarrow> None
       | Some x \<Rightarrow> if x < number_of ?K (hash_entries ht) then Some x
           else if x = number_of ?K (hash_entries ht) then (if Suc x < length (hash_entries ht) then Some x else None)
           else Some (x - 1))"
  proof (cases "nInternalPointer ht")
    case (Some q)
    consider "q < i" | "q = i" | "i < q" by linarith
    then show ?thesis
    proof cases
      case 1
      then have "rank ?a q < rank ?a i" using rank_less ptr [OF Some] by blast
      then show ?thesis using Some 1 low [of q] by (simp add: cursor_def u_def num)
    next
      case 3
      then have "rank ?a i < rank ?a q" using rank_less di by blast
      then show ?thesis using Some 3 high [of q] by (simp add: cursor_def u_def num)
    next
      case 2
      note fd = r [OF Some [unfolded 2]]
      show ?thesis
      proof (cases r)
        case None
        have "\<not> defined ?a j" if "Suc i \<le> j" "j < ?m" for j
          using fd None that df [of j] n(2) [of j] by (cases "j < n") (auto simp: first_defined_def)
        then have "entries ?a ?m = entries ?a (Suc i)" using i by (intro entries_gap) auto
        then have "rank ?a ?m = Suc (rank ?a i)" using di by (metis rank_Suc rank_def)
        then show ?thesis using Some 2 None by (simp add: cursor_def u_def num len)
      next
        case (Some z)
        then have z: "Suc i \<le> z" "z < n" "defined ar z" "\<forall>j. Suc i \<le> j \<and> j < z \<longrightarrow> \<not> defined ar j" using fd by (simp_all add: first_defined_def)
        have "entries ar z = entries ar (Suc i)" using z(1,4) by (intro entries_gap) auto
        then have "rank ar z = rank ?a i" using low [of i] df [of i] by (metis rank_Suc rank_def order_refl)
        moreover have "rank ?a z < rank ?a ?m" using z df n(1) by (intro rank_less) auto
        moreover have "rank ?a (Suc i) \<le> rank ?a z" using z(1) by (rule rank_mono)
        ultimately show ?thesis using \<open>nInternalPointer ht = Some q\<close> 2 Some di by (simp add: cursor_def u_def num len rank_Suc)
      qed
    qed
  qed (simp add: cursor_def u_def)
  then have "view u = remove_spec ?K (view ht)" using del by (simp add: view_def) (simp add: u_def)
  then show ?thesis using ok by blast
qed

end
