(* ===== verification/Zend_Hash_Remove.thy ===== *)
theory Zend_Hash_Remove
  imports Zend_Hash_Delete
begin

text \<open>The operations that delete, and the one that empties a table.\<close>

section \<open>Out of the chain\<close>

definition prev_in :: "nat list \<Rightarrow> nat option" where
  "prev_in as = (if as = [] then None else Some (last as))"

lemma filter_mid:
  assumes "distinct (as @ i # bs)"
  shows "filter (\<lambda>j. j \<noteq> i) (as @ i # bs) = as @ bs"
proof -
  have "filter (\<lambda>j. j \<noteq> i) as = as" "filter (\<lambda>j. j \<noteq> i) bs = bs" using assms by (auto intro!: filter_True)
  then show ?thesis by simp
qed

lemma unlink_bucket_run:
  assumes c: "chains m (hashes ht) (arData ht) n" and m: "m = nTableMask ht" and i: "i < n" and p: "bkt (arData ht) i = Some p"
    and mem: "members m (arData ht) n (place m (z_h p)) = as @ i # bs" and pl: "place m (z_h p) < length (hashes ht)"
    and all: "\<And>q. q < n \<Longrightarrow> bkt (arData ht) q \<noteq> None"
  shows "\<exists>ar hs. unlink_bucket (prev_in as) p ht = Some (ht\<lparr>arData := ar, hashes := hs\<rparr>) \<and> length ar = length (arData ht)
    \<and> length hs = length (hashes ht) \<and> (\<forall>q. content ar q = content (arData ht) q)
    \<and> (\<forall>k < length hs. chain ar (hs ! k) (filter (\<lambda>j. j \<noteq> i) (members m (arData ht) n k)))"
proof -
  let ?a = "arData ht" and ?k = "place m (z_h p)"
  have dist: "distinct (as @ i # bs)" using members_distinct [of m ?a n ?k] mem by simp
  have ck: "chain ?a (hashes ht ! ?k) (as @ i # bs)" using c pl mem unfolding chains_def by metis
  have fk: "filter (\<lambda>j. j \<noteq> i) (members m ?a n ?k) = as @ bs" unfolding mem by (rule filter_mid [OF dist])
  have other: "filter (\<lambda>j. j \<noteq> i) (members m ?a n k) = members m ?a n k" if "k \<noteq> ?k" for k
    using that p by (auto simp: filter_id_conv members_set in_place_def)
  show ?thesis
  proof (cases "as = []")
    case True
    let ?hs = "(hashes ht)[?k := z_next p]"
    have "unlink_bucket (prev_in as) p ht = Some (ht\<lparr>arData := ?a, hashes := ?hs\<rparr>)"
      using pl True m by (simp add: unlink_bucket_def prev_in_def HT_HASH_write_place)
    moreover have "chain ?a (?hs ! k) (filter (\<lambda>j. j \<noteq> i) (members m ?a n k))" if "k < length ?hs" for k
    proof (cases "k = ?k")
      case k: True
      then show ?thesis using ck p True pl fk by simp
    next
      case False
      then show ?thesis using c that other by (simp add: chains_def)
    qed
    ultimately show ?thesis by (intro exI [of _ ?a] exI [of _ ?hs]) simp
  next
    case False
    let ?q = "last as"
    have qm: "?q \<in> set (members m ?a n ?k)" using False mem by simp
    then obtain b where b: "bkt ?a ?q = Some b" using all by (auto simp: members_set)
    have ql: "?q < length ?a" using b by (rule bkt_length)
    let ?ar = "?a[?q := Some (b\<lparr>z_next := z_next p\<rparr>)]"
    have run: "unlink_bucket (prev_in as) p ht = Some (ht\<lparr>arData := ?ar, hashes := hashes ht\<rparr>)"
      using False b ql by (simp add: unlink_bucket_def prev_in_def bucket_write_def)
    have con: "content ?ar q = content ?a q" for q using ql b by (auto simp: content_update) (simp add: content_def)
    have "chain ?ar (hashes ht ! k) (filter (\<lambda>j. j \<noteq> i) (members m ?a n k))" if "k < length (hashes ht)" for k
    proof (cases "k = ?k")
      case True
      then show ?thesis using chain_skip [OF ck False dist p b] fk by simp
    next
      case k: False
      have "?q \<notin> set (members m ?a n k)" using qm k by (auto simp: members_set in_place_def)
      then have "chain ?ar (hashes ht ! k) (members m ?a n k) = chain ?a (hashes ht ! k) (members m ?a n k)"
        using ql by (intro chain_cong) (auto simp: bkt_update)
      then show ?thesis using c that other [OF k] by (simp add: chains_def)
    qed
    then show ?thesis using run con by (intro exI [of _ ?ar] exI [of _ "hashes ht"]) simp
  qed
qed

text \<open>With the bucket a hole, and fewer buckets in use, these are the chains.\<close>

lemma hole_chains:
  assumes ch: "\<forall>k < length hs. chain ar (hs ! k) (filter (\<lambda>j. j \<noteq> i) (members m a n k))" and con: "\<forall>q. content ar q = content a q"
    and p: "bkt ar i = Some p" and n: "n' \<le> n"
  defines "arf \<equiv> ar[i := Some (p\<lparr>z_val := None\<rparr>)]"
  assumes hole: "\<And>q. n' \<le> q \<Longrightarrow> q < n \<Longrightarrow> \<not> defined arf q"
  shows "chains m hs arf n'"
proof -
  have il: "i < length ar" using p by (rule bkt_length)
  have cf: "content arf q = (if q = i then Some (z_h p, z_key p, None) else content a q)" for q
    using con by (simp add: arf_def content_update [OF il])
  have df: "defined arf q = (q \<noteq> i \<and> defined a q)" for q
    using defined_content [of arf q a q] cf content_SomeD [OF cf [of i, simplified]] by (cases "q = i") (auto simp: defined_def)
  have inp: "in_place m arf k q = (q \<noteq> i \<and> in_place m a k q)" for k q
    using in_place_content [of arf q a m k] cf df by (cases "q = i") (auto simp: in_place_def)
  have "members m arf n' k = members m arf n k" for k
    using n
  proof (induction rule: inc_induct)
    case (step q)
    have "\<not> in_place m arf k q" using hole [OF step.hyps] by (simp add: in_place_def)
    then show ?case using step.IH by (simp add: members_Suc)
  qed simp
  moreover have "members m arf n k = filter (\<lambda>j. j \<noteq> i) (members m a n k)" for k
    using inp by (simp add: members_def rev_filter conj_commute cong: filter_cong)
  moreover have "chain arf x js = chain ar x js" for x js
    using p by (intro chain_cong) (auto simp: arf_def bkt_update [OF il])
  ultimately show ?thesis using ch by (simp add: chains_def)
qed

section \<open>Deleting an element\<close>

text \<open>What deleting does: the view changes as that of a list, and the value is given to the destructor.\<close>

definition removed :: "hash_key \<Rightarrow> 'v hash_table \<Rightarrow> 'v hash_table \<Rightarrow> bool" where
  "removed K ht u \<longleftrightarrow> table_ok u \<and> view u = remove_spec K (view ht)
     \<and> (\<exists>w. map_of (hash_entries ht) K = Some w \<and> dtor_called w ht u)"

text \<open>The state after each of the steps of the deletion.\<close>

lemma used_after:
  assumes all: "\<And>q. q < nNumUsed t \<Longrightarrow> bkt (arData t) q \<noteq> None" and i: "i < nNumUsed t"
  shows "\<exists>n. shrink_used i t = Some (t\<lparr>nNumUsed := n\<rparr>)
    \<and> n \<le> nNumUsed t \<and> (\<forall>q. n \<le> q \<and> q < nNumUsed t \<longrightarrow> q = i \<or> \<not> defined (arData t) q)"
proof (cases "nNumUsed t = i + 1")
  case True
  obtain n where n: "n \<le> i" "drop_holes i t = Some n" "\<forall>q. n \<le> q \<and> q < i \<longrightarrow> \<not> defined (arData t) q"
    using drop_holes_run [of i t] all i by auto
  then show ?thesis using True by (intro exI [of _ n]) (auto simp: less_Suc_eq shrink_used_def)
next
  case False
  then show ?thesis by (intro exI [of _ "nNumUsed t"]) (simp add: shrink_used_def)
qed

lemma cursor_after:
  assumes all: "\<And>q. q < nNumUsed t \<Longrightarrow> bkt (arData t) q \<noteq> None"
  shows "\<exists>r. leave_bucket i t = Some (t\<lparr>nInternalPointer := (if nInternalPointer t = Some i then r else nInternalPointer t),
      iterators := map (\<lambda>p. if p = Some i then r else p) (iterators t)\<rparr>)
    \<and> first_defined (arData t) (Suc i) (nNumUsed t) r"
proof -
  obtain r where r: "next_defined (i + 1) t = Some r" "first_defined (arData t) (Suc i) (nNumUsed t) r" using next_defined_run [OF all, of "i + 1"] by auto
  show ?thesis
  proof (cases "nInternalPointer t = Some i \<or> iterators t \<noteq> []")
    case True
    then show ?thesis using r by (intro exI [of _ r]) (simp add: zend_hash_iterators_update_def Let_def leave_bucket_def)
  next
    case False
    then show ?thesis using r by (intro exI [of _ r]) (cases t; simp add: leave_bucket_def)
  qed
qed

text \<open>The other buckets are as before, and where they were.\<close>

definition kept :: "nat \<Rightarrow> 'v hash_table \<Rightarrow> 'v hash_table \<Rightarrow> bool" where
  "kept i ht u \<longleftrightarrow> (\<forall>q. q \<noteq> i \<longrightarrow> content (arData u) q = content (arData ht) q) \<and> bkt (arData u) i \<noteq> None \<and> nNumUsed u \<le> nNumUsed ht
     \<and> (\<forall>q. nNumUsed u \<le> q \<and> q < nNumUsed ht \<longrightarrow> \<not> defined (arData u) q)"

lemma del_ex_ok:
  assumes t: "table_ok ht" and a: "at_key ht K i"
    and prev: "\<not> packed ht \<Longrightarrow> members (nTableMask ht) (arData ht) (nNumUsed ht) (place (nTableMask ht) (key_hash K)) = as @ i # bs"
    and pv: "\<not> packed ht \<Longrightarrow> prev = prev_in as"
  shows "\<exists>u. zend_hash_del_el_ex i prev ht = Some u \<and> removed K ht u \<and> kept i ht u"
proof -
  let ?a = "arData ht" and ?n = "nNumUsed ht"
  obtain p w where p: "i < ?n" "bkt ?a i = Some p" "z_val p = Some w" "bucket_key p = K" using a by (auto simp: at_key_def)
  have b: "buckets_ok ht" using t by (simp add: table_ok_def)
  have ini: "initialized ht" using t p(1) by (auto simp: table_ok_def split: if_splits)
  have all: "bkt ?a q \<noteq> None" if "q < ?n" for q using b that by (simp add: buckets_ok_def)
  have hk: "z_h p = key_hash K" using same_key_iff [of ?a ?n i p K] b p by (auto simp: buckets_ok_def same_key_def)
  obtain ar hs where l: "(if \<not> packed ht then unlink_bucket prev p ht else Some ht) = Some (ht\<lparr>arData := ar, hashes := hs\<rparr>)"
    "length ar = length ?a" "length hs = length (hashes ht)" "\<forall>q. content ar q = content ?a q"
    "if packed ht then hs = hashes ht
     else \<forall>k < length hs. chain ar (hs ! k) (filter (\<lambda>j. j \<noteq> i) (members (nTableMask ht) ?a ?n k))"
  proof (cases "packed ht")
    case True
    then show ?thesis using that [of "hashes ht" ?a] by simp
  next
    case False
    have "chained ht" using t ini False by (simp add: table_ok_def)
    note c = chained_chains [OF this]
    have "place (nTableMask ht) (z_h p) < length (hashes ht)" using table_places [OF t] by (simp add: places_fit_def)
    from unlink_bucket_run [OF c refl p(1,2) prev [OF False, folded hk] this all] obtain ar hs where
      "unlink_bucket (prev_in as) p ht = Some (ht\<lparr>arData := ar, hashes := hs\<rparr>)" "length ar = length ?a" "length hs = length (hashes ht)"
      "\<forall>q. content ar q = content ?a q"
      "\<forall>k < length hs. chain ar (hs ! k) (filter (\<lambda>j. j \<noteq> i) (members (nTableMask ht) ?a ?n k))" by blast
    then show ?thesis using that [of hs ar] pv [OF False] False by simp
  qed
  let ?t = "ht\<lparr>arData := ar, hashes := hs\<rparr>"
  have allt: "bkt ar q \<noteq> None" if "q < ?n" for q
  proof -
    have "content ar q = content ?a q" using l(4) by blast
    then show ?thesis using all [OF that] by (auto simp: content_def)
  qed
  obtain n where n: "shrink_used i ?t = Some (?t\<lparr>nNumUsed := n\<rparr>)"
    "n \<le> ?n" "\<forall>q. n \<le> q \<and> q < ?n \<longrightarrow> q = i \<or> \<not> defined ar q" using used_after [of ?t i] allt p(1) by auto
  let ?s = "?t\<lparr>nNumUsed := n, nNumOfElements := nNumOfElements (?t\<lparr>nNumUsed := n\<rparr>) - 1\<rparr>"
  have alls: "bkt (arData ?s) q \<noteq> None" if "q < nNumUsed ?s" for q using allt n(2) that by simp
  obtain r where r: "leave_bucket i ?s = Some (?s\<lparr>nInternalPointer := (if nInternalPointer ?s = Some i then r else nInternalPointer ?s),
      iterators := map (\<lambda>p. if p = Some i then r else p) (iterators ?s)\<rparr>)"
    "first_defined (arData ?s) (Suc i) (nNumUsed ?s) r" using cursor_after [OF alls, of i] by blast
  let ?its = "map (\<lambda>p. if p = Some i then r else p) (iterators ht)"
  obtain p' where p': "bkt ar i = Some p'" "z_h p' = z_h p" "z_key p' = z_key p" "z_val p' = Some w"
    using l(4) content_SomeD [of ar i] p(2,3) by (auto simp: content_def)
  have il: "i < length ar" using p'(1) by (rule bkt_length)
  let ?arf = "ar[i := Some (p'\<lparr>z_val := None\<rparr>)]"
  let ?ds = "destroyed ht @ (if pDestructor ht then [w] else [])"
  let ?u = "ht\<lparr>arData := ?arf, hashes := hs, nNumUsed := n, nNumOfElements := nNumOfElements ht - 1,
    nInternalPointer := (if nInternalPointer ht = Some i then r else nInternalPointer ht), iterators := ?its, destroyed := ?ds\<rparr>"
  have conf: "content ?arf q = (if q = i then Some (z_h p, z_key p, None) else content ?a q)" for q
    using l(4) p' by (simp add: content_update [OF il])
  have df: "defined ?arf q = (q \<noteq> i \<and> defined ar q)" for q by (auto simp: defined_def bkt_update [OF il])
  have holes: "\<not> defined ?arf q" if "n \<le> q" "q < ?n" for q using n(3) that df by auto
  have fd: "first_defined ?arf (Suc i) n r" using r(2) by (cases r) (auto simp: first_defined_def df)
  have run: "zend_hash_del_el_ex i prev ht = Some ?u"
    unfolding zend_hash_del_el_ex_def bucket_at_bkt p(2) bind.bind_lunit l(1) n(1) r(1)
    using p'(1,4) il by (cases ht) (simp add: bucket_write_def call_destructor_def)
  have bv: "buckets_ok ?u \<and> view ?u = remove_spec (bucket_key p) (view ht)"
    by (rule hole_ok [OF b p(1-3)]) (use conf n(2) holes fd in simp_all)
  have "packed_ok ?u" if pk: "packed ht"
  proof -
    have "packed_ok ht" using t ini pk by (simp add: table_ok_def)
    then show ?thesis using conf l(5) pk by (auto simp: packed_ok_def dest!: less_le_trans [OF _ n(2)])
  qed
  moreover have "chained ?u" if "\<not> packed ht"
  proof -
    have "chains (nTableMask ht) hs ?arf n" using hole_chains [OF _ l(4) p'(1) n(2) holes] l(5) that by simp
    moreover have "chained ht" using t ini that by (simp add: table_ok_def)
    ultimately show ?thesis using l(3) by (simp add: chained_def)
  qed
  ultimately have "table_ok ?u" using bv t ini l(2) by (simp add: table_ok_def)
  moreover have "map_of (hash_entries ht) K = Some w"
    using found_value [OF t, of K "Some i"] a p by (simp add: found_def value_of_def)
  ultimately have "removed K ht ?u" using bv p(4) by (simp add: removed_def dtor_called_def)
  moreover have "kept i ht ?u" using conf n(2) holes by (simp add: kept_def bkt_update [OF il])
  ultimately show ?thesis using run by blast
qed

definition remove_ok :: "hash_key \<Rightarrow> 'v hash_table \<Rightarrow> (bool \<times> 'v hash_table) option \<Rightarrow> bool" where
  "remove_ok K ht r \<longleftrightarrow> (if K \<in> keys_of ht then \<exists>u. r = Some (True, u) \<and> removed K ht u else r = Some (False, ht))"

lemma chain_del:
  assumes t: "table_ok ht" and i: "initialized ht" "\<not> packed ht"
  shows "remove_ok K ht (Option.bind (HT_HASH ht (nIndex (key_hash K) ht)) (\<lambda>idx. del_loop (same_key (key_hash K) (key_text K)) None idx ht))"
proof -
  let ?ms = "members (nTableMask ht) (arData ht) (nNumUsed ht) (place (nTableMask ht) (key_hash K))"
  let ?P = "same_key (key_hash K) (key_text K)"
  obtain x where x: "HT_HASH ht (nIndex (key_hash K) ht) = Some x" "chain (arData ht) x ?ms" using chain_of_key [OF t i] by blast
  have P: "?P (the (bkt (arData ht) j)) \<longleftrightarrow> at_key ht K j" if "j \<in> set ?ms" for j using member_key [OF t that, of K] by auto
  show ?thesis
  proof (cases "K \<in> keys_of ht")
    case False
    then have "\<not> at_key ht K j" for j using keys_at by blast
    then have "del_loop ?P None x ht = Some (False, ht)" using P by (intro del_loop_none [OF x(2)]) blast
    then show ?thesis using x(1) False by (simp add: remove_ok_def)
  next
    case True
    then obtain i where a: "at_key ht K i" using keys_at by blast
    then obtain as bs where ms: "?ms = as @ i # bs" using key_in_chain [OF t a] by (meson split_list)
    have "j \<noteq> i" if "j \<in> set as" for j using that members_distinct [of "nTableMask ht" "arData ht" "nNumUsed ht" "place (nTableMask ht) (key_hash K)"] unfolding ms by auto
    then have na: "\<not> ?P (the (bkt (arData ht) j))" if "j \<in> set as" for j using that P [of j] ms at_key_unique [OF t a] by auto
    have "?P (the (bkt (arData ht) i))" using P [of i] a ms by simp
    then have l: "del_loop ?P None x ht = map_option (Pair True) (zend_hash_del_el_ex i (prev_in as) ht)"
      using del_loop_run [OF x(2) [unfolded ms], of ?P None] na by (simp add: prev_in_def)
    obtain u where "zend_hash_del_el_ex i (prev_in as) ht = Some u" "removed K ht u" using del_ex_ok [OF t a ms refl] by blast
    then show ?thesis using x(1) l True by (simp add: remove_ok_def)
  qed
qed

lemma packed_del:
  assumes t: "table_ok ht" and a: "at_key ht K i" and p: "packed ht"
  shows "\<exists>u. zend_hash_del_el_ex i prev ht = Some u \<and> removed K ht u \<and> kept i ht u"
  using del_ex_ok [OF t a, of "[]" "[]" prev] p by blast

lemma del_el_ok:
  assumes t: "table_ok ht" and a: "at_key ht K i"
  shows "\<exists>u. zend_hash_del_el i ht = Some u \<and> removed K ht u \<and> kept i ht u"
proof -
  obtain b where b: "i < nNumUsed ht" "bkt (arData ht) i = Some b" "z_val b \<noteq> None" "bucket_key b = K" using a by (auto simp: at_key_def)
  show ?thesis
  proof (cases "packed ht")
    case True
    then show ?thesis using packed_del [OF t a True] b by (simp add: zend_hash_del_el_def)
  next
    case False
    have ini: "initialized ht" using t b(1) by (auto simp: table_ok_def split: if_splits)
    let ?ms = "members (nTableMask ht) (arData ht) (nNumUsed ht) (place (nTableMask ht) (key_hash K))"
    have hk: "z_h b = key_hash K" using same_key_iff [of "arData ht" "nNumUsed ht" i b K] b t by (auto simp: table_ok_def buckets_ok_def same_key_def)
    obtain x where x: "HT_HASH ht (nIndex (key_hash K) ht) = Some x" "chain (arData ht) x ?ms" using chain_of_key [OF t ini False] by blast
    obtain as bs where ms: "?ms = as @ i # bs" using key_in_chain [OF t a] by (meson split_list)
    have dist: "distinct (as @ i # bs)" using members_distinct [of "nTableMask ht" "arData ht" "nNumUsed ht" "place (nTableMask ht) (key_hash K)"] unfolding ms .
    have "(if x \<noteq> Some i then map_option Some (find_prev i x ht) else Some None) = Some (prev_in as)"
    proof (cases "as = []")
      case True
      then show ?thesis using x(2) ms by (simp add: prev_in_def)
    next
      case ne: False
      then have "x \<noteq> Some i" using x(2) dist unfolding ms by (cases as) auto
      then show ?thesis using find_prev_run [OF x(2) [unfolded ms] ne dist] ne by (simp add: prev_in_def)
    qed
    then have "zend_hash_del_el i ht = zend_hash_del_el_ex i (prev_in as) ht" using b(2) False hk x(1) by (simp add: zend_hash_del_el_def)
    then show ?thesis using del_ex_ok [OF t a ms refl] by auto
  qed
qed

lemma name_del:
  assumes t: "table_ok ht"
  shows "remove_ok (Name s) ht (zend_hash_del s ht)"
proof (cases "initialized ht \<and> \<not> packed ht")
  case True
  then show ?thesis using chain_del [OF t, of "Name s"] by (simp add: zend_hash_del_def Let_def)
next
  case False
  then show ?thesis using plain_hash [OF t False] plain_name [OF t False, of s]
    by (simp add: zend_hash_del_def Let_def remove_ok_def del_loop.simps)
qed

lemma number_del:
  assumes t: "table_ok ht"
  shows "remove_ok (Num h) ht (zend_hash_index_del h ht)"
proof (cases "packed ht")
  case True
  then have i: "initialized ht" using t by (auto simp: table_ok_def split: if_splits)
  have k: "at_key ht (Num h) j \<longleftrightarrow> unat h = j \<and> j < nNumUsed ht \<and> defined (arData ht) j" for j
    using packed_key [OF t i True, of "Num h" j] by auto
  consider (absent) "\<not> unat h < nNumUsed ht \<or> \<not> defined (arData ht) (unat h)" | (present) "at_key ht (Num h) (unat h)" using k by blast
  then show ?thesis
  proof cases
    case absent
    then have "Num h \<notin> keys_of ht" using k unfolding keys_at by auto
    moreover have "\<exists>b. bkt (arData ht) (unat h) = Some b \<and> z_val b = None" if "unat h < nNumUsed ht"
      using absent that t by (auto simp: defined_def table_ok_def buckets_ok_def)
    ultimately show ?thesis using True by (auto simp: zend_hash_index_del_def remove_ok_def)
  next
    case present
    then have "Num h \<in> keys_of ht" using keys_at by blast
    then show ?thesis using packed_del [OF t present True, of None] present True
      by (auto simp: zend_hash_index_del_def remove_ok_def at_key_def)
  qed
next
  case False
  show ?thesis
  proof (cases "initialized ht")
    case True
    then show ?thesis using chain_del [OF t True False, of "Num h"] False by (simp add: zend_hash_index_del_def)
  next
    case ni: False
    have "Num h \<notin> keys_of ht" using ni t by (simp add: hash_entries_def table_ok_def)
    then show ?thesis using plain_hash [OF t] ni False by (simp add: zend_hash_index_del_def remove_ok_def del_loop.simps)
  qed
qed

section \<open>Emptying a table\<close>

lemma destroy_run:
  assumes "\<And>q. q < n \<Longrightarrow> bkt (arData ht) q \<noteq> None" and "HT_IS_WITHOUT_HOLES ht \<Longrightarrow> \<forall>q < n. defined (arData ht) q"
    and "pDestructor ht"
  shows "for_each destroy_at [0..<n] ht = Some (ht\<lparr>destroyed := destroyed ht @ map snd (entries (arData ht) n)\<rparr>)"
  using assms(1,2)
proof (induction n)
  case (Suc n)
  obtain b where b: "bkt (arData ht) n = Some b" using Suc.prems(1) [of n] by auto
  let ?t = "\<lambda>n. ht\<lparr>destroyed := destroyed ht @ map snd (entries (arData ht) n)\<rparr>"
  have h: "z_val b \<noteq> None" if "HT_IS_WITHOUT_HOLES ht" using Suc.prems(2) [OF that] b by (auto simp: defined_def)
  have "destroy_at n (?t n) = Some (?t (Suc n))"
    using b h assms(3) by (cases "z_val b") (auto simp: destroy_at_def call_destructor_def entries_Suc entry_def HT_IS_WITHOUT_HOLES_def)
  moreover have "for_each destroy_at [0..<n] ht = Some (?t n)" using Suc by simp
  ultimately show ?case by (simp add: for_each_append)
qed simp

lemma clean_ok:
  assumes t: "table_ok ht"
  shows "\<exists>u. zend_hash_clean ht = Some u \<and> table_ok u \<and> view u = ([], None, 0) \<and> pDestructor u = pDestructor ht
    \<and> destroyed u = destroyed ht @ (if pDestructor ht then map snd (hash_entries ht) else [])"
proof -
  let ?n = "nNumUsed ht" and ?ds = "if pDestructor ht then map snd (hash_entries ht) else []"
  have b: "buckets_ok ht" using t by (simp add: table_ok_def)
  obtain k where k: "3 \<le> k" "k \<le> 31" "nTableSize ht = 2 ^ k" using b by (auto simp: buckets_ok_def)
  have "\<forall>q < ?n. defined (arData ht) q" if "HT_IS_WITHOUT_HOLES ht"
    using that b entries_all_defined [of "arData ht" ?n] by (simp add: HT_IS_WITHOUT_HOLES_def buckets_ok_def hash_entries_def)
  then have d: "(if pDestructor ht then for_each destroy_at [0..<?n] ht else Some ht) = Some (ht\<lparr>destroyed := destroyed ht @ ?ds\<rparr>)"
    using destroy_run [of ?n ht] b by (simp add: buckets_ok_def hash_entries_def)
  let ?hs = "if ?n \<noteq> 0 \<and> \<not> packed ht then replicate (unat (- nTableMask ht)) None else hashes ht"
  let ?u = "ht\<lparr>destroyed := destroyed ht @ ?ds, hashes := ?hs, nNumUsed := 0, nNumOfElements := 0, nNextFreeElement := 0, nInternalPointer := None\<rparr>"
  have z: "?ds = []" if "?n = 0" using that by (simp add: hash_entries_def)
  have run: "zend_hash_clean ht = Some ?u"
    unfolding zend_hash_clean_def d using z by (cases ht) (simp add: HT_HASH_RESET_def)
  have "buckets_ok ?u" using b by (simp add: buckets_ok_def hash_entries_def keys_fit_def)
  moreover have "chained ?u" if c: "chained ht" "\<not> packed ht"
  proof -
    have m: "nTableMask ht = - of_nat (nTableSize ht)" "length (hashes ht) = nTableSize ht" using c(1) by (simp_all add: chained_def)
    show ?thesis
    proof (cases "?n = 0")
      case True
      then show ?thesis using chained_chains [OF c(1)] m by (simp add: chained_def)
    next
      case False
      then show ?thesis using c(2) m size_mask(2) [OF k] by (simp add: chained_def chains_empty)
    qed
  qed
  moreover have "packed_ok ?u" if "packed_ok ht" "packed ht" using that by (simp add: packed_ok_def)
  ultimately have "table_ok ?u" using t by (auto simp: table_ok_def)
  then show ?thesis using run by (intro exI [of _ ?u]) (simp add: view_def hash_entries_def cursor_def)
qed

end
