(* ===== verification/Zend_Hash_Table.thy ===== *)
theory Zend_Hash_Table
  imports Zend_Hash_Remove
begin

text \<open>
  The operations of hash tables refine those of a list of entries: an interface of maps with an order, which holds of
  the operations on texts and of those on numbers, and histories of operations of every kind.
\<close>

section \<open>The operations by name\<close>

definition add_ok :: "hash_key \<Rightarrow> 'v \<Rightarrow> 'v hash_table \<Rightarrow> (nat option \<times> 'v hash_table) option \<Rightarrow> bool" where
  "add_ok K v ht r \<longleftrightarrow> (if K \<in> keys_of ht then r = Some (None, ht) else put_ok K v ht r)"

lemmas hash_flags = HASH_UPDATE_def HASH_ADD_def HASH_ADD_NEW_def HASH_ADD_NEXT_def

lemma update_ok:
  assumes t: "table_ok ht" and r: "has_room ht"
  shows "put_ok (Name s) v ht (zend_hash_update s v ht)" and "put_ok (Num h) v ht (zend_hash_index_update h v ht)"
  using name_put [OF t r, of HASH_UPDATE s v] number_put [OF t r, of HASH_UPDATE h v]
  by (simp_all add: hash_flags zend_hash_update_def zend_hash_index_update_def)

lemma add_ok:
  assumes t: "table_ok ht" and r: "has_room ht"
  shows "add_ok (Name s) v ht (zend_hash_add s v ht)" and "add_ok (Num h) v ht (zend_hash_index_add h v ht)"
    and "add_ok (Num (nNextFreeElement ht)) v ht (zend_hash_next_index_insert v ht)"
  using name_put [OF t r, of HASH_ADD s v] number_put [OF t r, of HASH_ADD h v]
    number_put [OF t r, of "HASH_ADD OR HASH_ADD_NEXT" "nNextFreeElement ht" v]
  by (simp_all add: hash_flags zend_hash_add_def zend_hash_index_add_def zend_hash_next_index_insert_def add_ok_def split: if_splits)

lemma add_new_ok:
  assumes t: "table_ok ht" and r: "has_room ht" and n: "K \<notin> keys_of ht"
  shows "K = Name s \<Longrightarrow> put_ok K v ht (zend_hash_add_new s v ht)" and "K = Num h \<Longrightarrow> put_ok K v ht (zend_hash_index_add_new h v ht)"
    and "K = Num (nNextFreeElement ht) \<Longrightarrow> unat (nNextFreeElement ht) = nNumUsed ht \<Longrightarrow> put_ok K v ht (zend_hash_next_index_insert_new v ht)"
  using name_put [OF t r, of HASH_ADD_NEW s v] number_put [OF t r, of "HASH_ADD OR HASH_ADD_NEW" h v]
    number_put [OF t r, of "HASH_ADD OR HASH_ADD_NEW OR HASH_ADD_NEXT" "nNextFreeElement ht" v] n
  by (auto simp add: hash_flags zend_hash_add_new_def zend_hash_index_add_new_def zend_hash_next_index_insert_new_def)

section \<open>Sizes\<close>

text \<open>Each step spreads the bits over twice the distance.\<close>

definition spread :: "32 word \<Rightarrow> nat \<Rightarrow> 32 word \<Rightarrow> bool" where
  "spread x s y \<longleftrightarrow> (\<forall>i. bit y i \<longleftrightarrow> (\<exists>d < s. bit x (i + d)))"

lemma spread_step:
  assumes y: "spread x s y"
  shows "spread x (s + s) (y OR drop_bit s y)"
  unfolding spread_def
proof
  fix i
  have "(\<exists>d < s + s. bit x (i + d)) \<longleftrightarrow> (\<exists>d < s. bit x (i + d)) \<or> (\<exists>d < s. bit x (s + i + d))"
  proof
    assume "\<exists>d < s + s. bit x (i + d)"
    then obtain d where d: "d < s + s" "bit x (i + d)" by blast
    show "(\<exists>d < s. bit x (i + d)) \<or> (\<exists>d < s. bit x (s + i + d))"
    proof (cases "d < s")
      case False
      then have "d - s < s" "s + i + (d - s) = i + d" using d(1) by simp_all
      then show ?thesis using d(2) by metis
    qed (use d in blast)
  next
    assume "(\<exists>d < s. bit x (i + d)) \<or> (\<exists>d < s. bit x (s + i + d))"
    then show "\<exists>d < s + s. bit x (i + d)"
    proof
      assume "\<exists>d < s. bit x (s + i + d)"
      then obtain d where "d < s" "bit x (i + (s + d))" by (auto simp: ac_simps)
      then show ?thesis by (intro exI [of _ "s + d"]) simp
    qed (use trans_less_add1 in blast)
  qed
  then show "bit (y OR drop_bit s y) i \<longleftrightarrow> (\<exists>d < s + s. bit x (i + d))"
    using y by (simp add: spread_def bit_or_iff bit_drop_bit_eq)
qed

lemma spread_mask:
  assumes y: "spread x 32 y" and k: "2 ^ k \<le> unat x" "unat x < 2 ^ (k + 1)" "k < 31"
  shows "y + 1 = 2 ^ (k + 1)"
proof -
  have b: "bit x i \<longleftrightarrow> odd (unat x div 2 ^ i)" for i
  proof -
    have "bit x i = bit (unat x) i" by (simp add: bit_unsigned_iff)
    then show ?thesis by (simp only: bit_iff_odd)
  qed
  have top: "bit x k"
  proof -
    have "unat x div 2 ^ k = 1" using k(1,2) by (intro div_nat_eqI) simp_all
    then show ?thesis using b by simp
  qed
  have none: "\<not> bit x i" if "k < i" for i
  proof -
    have "(2::nat) ^ (k + 1) \<le> 2 ^ i" using that by (intro power_increasing) simp_all
    then have "unat x div 2 ^ i = 0" using k(2) by simp
    then show ?thesis using b by simp
  qed
  have "bit y i \<longleftrightarrow> i < k + 1" for i
  proof
    assume "bit y i"
    then obtain d where "bit x (i + d)" using y by (auto simp: spread_def)
    then show "i < k + 1" using none [of "i + d"] by (cases "i + d \<le> k") auto
  next
    assume "i < k + 1"
    then have "k - i < 32" "i + (k - i) = k" using k(3) by simp_all
    then show "bit y i" using y top unfolding spread_def by metis
  qed
  then have "y = mask (k + 1)" using k(3) by (intro bit_word_eqI) (simp add: bit_mask_iff)
  then show ?thesis by (simp add: mask_eq_exp_minus_1)
qed

text \<open>The size is the least power of two that is enough, and at least eight.\<close>

definition least_size :: "nat \<Rightarrow> nat \<Rightarrow> bool" where
  "least_size n k \<longleftrightarrow> 3 \<le> k \<and> k \<le> 31 \<and> n \<le> 2 ^ k \<and> (k = 3 \<or> 2 ^ (k - 1) < n)"

lemma check_size_run:
  assumes n: "unat n < HT_MAX_SIZE"
  shows "\<exists>k. zend_hash_check_size n = Some (2 ^ k) \<and> unat (2 ^ k :: 32 word) = 2 ^ k \<and> least_size (unat n) k"
proof -
  let ?n = "if n < 8 then 8 else n"
  let ?x = "?n - 1"
  have ux: "unat ?x = unat ?n - 1" "7 \<le> unat ?x"
  proof -
    have "(8 :: 32 word) \<le> ?n" by auto
    then have "8 \<le> unat ?n" "1 \<le> ?n" by (simp_all add: word_le_nat_alt)
    then show "unat ?x = unat ?n - 1" "7 \<le> unat ?x" by (simp_all add: unat_sub)
  qed
  obtain k where k: "2 ^ k \<le> unat ?x" "unat ?x < 2 ^ (k + 1)" using ex_power_ivl1 [of 2 "unat ?x"] ux(2) by auto
  have un: "unat ?n = max 8 (unat n)" by (auto simp: word_less_nat_alt)
  have lt: "unat ?x < 2 ^ 31 - 1" using n ux(1) un by (auto simp: HT_MAX_SIZE_def)
  have k31: "k < 31" 
  proof (rule ccontr)
    assume "\<not> k < 31"
    then have "(2::nat) ^ 31 \<le> 2 ^ k" by (intro power_increasing) simp_all
    then show False using k(1) lt by simp
  qed
  have k2: "2 \<le> k"
  proof (rule ccontr)
    assume "\<not> 2 \<le> k"
    then have "(2::nat) ^ (k + 1) \<le> 2 ^ 2" by (intro power_increasing) simp_all
    then show False using k(2) ux(2) by simp
  qed
  define a b c d e where "a = ?x OR drop_bit 1 ?x" and "b = a OR drop_bit 2 a" and "c = b OR drop_bit 4 b" and "d = c OR drop_bit 8 c"
    and "e = d OR drop_bit 16 d"
  have s1: "spread ?x 1 ?x" by (simp add: spread_def)
  have s2: "spread ?x 2 a" using spread_step [OF s1] unfolding a_def one_add_one .
  have s4: "spread ?x 4 b" using spread_step [OF s2] unfolding b_def by (simp only: numeral_plus_numeral add_num_simps)
  have s8: "spread ?x 8 c" using spread_step [OF s4] unfolding c_def by (simp only: numeral_plus_numeral add_num_simps)
  have s16: "spread ?x 16 d" using spread_step [OF s8] unfolding d_def by (simp only: numeral_plus_numeral add_num_simps)
  have "spread ?x 32 e" using spread_step [OF s16] unfolding e_def by (simp only: numeral_plus_numeral add_num_simps)
  then have e1: "e + 1 = 2 ^ (k + 1)" using k k31 by (rule spread_mask)
  have "\<not> (\<not> n < HT_MIN_SIZE \<and> HT_MAX_SIZE \<le> unat n)" using n by simp
  then have "zend_hash_check_size n = Some (e + 1)"
    unfolding zend_hash_check_size_def HT_MIN_SIZE_def Let_def a_def b_def c_def d_def e_def by (rule if_not_P)
  then have run: "zend_hash_check_size n = Some (2 ^ (k + 1))" unfolding e1 .
  have u: "unat (2 ^ (k + 1) :: 32 word) = 2 ^ (k + 1)" using mask_place(2) [of "k + 1" "- (2 ^ (k + 1))"] k31 by simp
  have "least_size (unat n) (k + 1)"
  proof (cases "k = 2")
    case False
    then have "(2::nat) ^ 3 \<le> 2 ^ k" using k2 by (intro power_increasing) simp_all
    then have "2 ^ k < unat n" using k(1) ux(1) un by (cases "unat n \<le> 8") simp_all
    then show ?thesis using k k2 k31 ux un by (simp add: least_size_def)
  qed (use k k2 k31 ux un in \<open>simp add: least_size_def\<close>)
  then show ?thesis using run u by blast
qed

section \<open>A new table\<close>

lemma hash_init_ok:
  assumes "zend_hash_init n d = Some ht"
  shows "table_ok ht \<and> view ht = ([], None, 0) \<and> pDestructor ht = d \<and> destroyed ht = []"
proof -
  have "zend_hash_check_size n \<noteq> None" using assms by (cases "zend_hash_check_size n") (simp_all add: zend_hash_init_def)
  then have lt: "unat n < HT_MAX_SIZE"
    by (auto simp: zend_hash_check_size_def zend_error_noreturn_def HT_MIN_SIZE_def HT_MAX_SIZE_def word_less_nat_alt split: if_splits)
  obtain k where k: "zend_hash_check_size n = Some (2 ^ k)" "unat (2 ^ k :: 32 word) = 2 ^ k" "least_size (unat n) k"
    using check_size_run [OF lt] by blast
  then have "3 \<le> k" "k \<le> 31" by (simp_all add: least_size_def)
  then show ?thesis using assms k(1,2)
    by (auto simp: zend_hash_init_def table_ok_def buckets_ok_def hash_entries_def keys_fit_def view_def cursor_def)
qed

section \<open>Changing the memory of a table\<close>

text \<open>A size is enough for what is asked, and the entries are kept.\<close>

lemma extend_hash:
  assumes t: "table_ok ht" and i: "initialized ht" and n: "nTableSize ht < unat n" "unat n < HT_MAX_SIZE"
  shows "\<exists>u. zend_hash_extend n (packed ht) ht = Some u \<and> table_ok u \<and> view u = view ht \<and> same_dtor ht u \<and> unat n \<le> nTableSize u"
proof -
  have b: "buckets_ok ht" and used: "nNumUsed ht \<le> nTableSize ht" using t by (auto simp: table_ok_def buckets_ok_def)
  obtain k where k: "zend_hash_check_size n = Some (2 ^ k)" "unat (2 ^ k :: 32 word) = 2 ^ k" "least_size (unat n) k"
    using check_size_run [OF n(2)] by blast
  then have k3: "3 \<le> k" "k \<le> 31" "unat n \<le> 2 ^ k" by (simp_all add: least_size_def)
  let ?n = "2 ^ k :: nat"
  have nu: "nNumUsed ht \<le> ?n" using used n(1) k3(3) by linarith
  have ni: "\<not> unat n \<le> nTableSize ht" "n \<noteq> 0" using n(1) by auto
  show ?thesis
  proof (cases "packed ht")
    case True
    let ?u = "move_buckets ?n (ht\<lparr>packed := True, nTableMask := nTableMask ht, hashes := hashes ht, nTableSize := ?n\<rparr>)"
    have eq: "ht\<lparr>nTableSize := ?n\<rparr> = ht\<lparr>packed := True, nTableMask := nTableMask ht, hashes := hashes ht, nTableSize := ?n\<rparr>"
      using True by (cases ht) simp
    have "zend_hash_extend n (packed ht) ht = Some (move_buckets ?n (ht\<lparr>nTableSize := ?n\<rparr>))"
      using True i ni k(1,2) by (simp add: zend_hash_extend_def Let_def)
    then have run: "zend_hash_extend n (packed ht) ht = Some ?u" unfolding eq .
    have mv: "buckets_ok ?u \<and> length (arData ?u) = ?n \<and> view ?u = view ht \<and> same_dtor ht ?u
      \<and> (\<forall>i < nNumUsed ht. content (arData ?u) i = content (arData ht) i)" by (rule move_ok [OF b k3(1,2) refl nu])
    have "packed_ok ht" using t i True by (simp add: table_ok_def)
    then have "packed_ok ?u" using mv by (auto simp: packed_ok_def move_buckets_def)
    then have "table_ok ?u" using mv i by (simp add: table_ok_def) (simp add: move_buckets_def)
    then show ?thesis using run mv k3(3) by (intro exI [of _ ?u]) (simp, simp add: move_buckets_def)
  next
    case False
    let ?u = "move_buckets ?n (ht\<lparr>packed := False, nTableMask := - of_nat ?n, hashes := [], nTableSize := ?n\<rparr>)"
    have eq: "(move_buckets ?n (ht\<lparr>nTableSize := ?n\<rparr>))\<lparr>hashes := [], nTableMask := - of_nat ?n\<rparr> = ?u"
      using False by (cases ht) (simp add: move_buckets_def)
    have "zend_hash_extend n (packed ht) ht = zend_hash_rehash ((move_buckets ?n (ht\<lparr>nTableSize := ?n\<rparr>))\<lparr>hashes := [], nTableMask := - of_nat ?n\<rparr>)"
      using False i ni k(1,2) by (simp add: zend_hash_extend_def Let_def)
    then have run: "zend_hash_extend n (packed ht) ht = zend_hash_rehash ?u" unfolding eq .
    have mv: "buckets_ok ?u \<and> length (arData ?u) = ?n \<and> view ?u = view ht \<and> same_dtor ht ?u
      \<and> (\<forall>i < nNumUsed ht. content (arData ?u) i = content (arData ht) i)" by (rule move_ok [OF b k3(1,2) refl nu])
    have s: "initialized ?u" "\<not> packed ?u" "length (arData ?u) = nTableSize ?u" "nTableMask ?u = - of_nat (nTableSize ?u)" "nTableSize ?u = ?n"
      using i mv by (simp_all add: move_buckets_def)
    from rehash_ok [OF conjunct1 [OF mv] s(1-4)] obtain w where w: "zend_hash_rehash ?u = Some w" "table_ok w" "view w = view ?u" "same_dtor ?u w"
      "nTableSize w = nTableSize ?u" by blast
    have "view w = view ht" "same_dtor ht w" using w(3,4) mv same_dtor_trans by auto
    then show ?thesis unfolding run using w(1,2,5) s(5) k3(3) by auto
  qed
qed

lemma extend_ok:
  assumes t: "table_ok ht" and p: "initialized ht \<Longrightarrow> p = packed ht" and n: "unat n < HT_MAX_SIZE"
  shows "\<exists>u. zend_hash_extend n p ht = Some u \<and> table_ok u \<and> view u = view ht \<and> same_dtor ht u \<and> unat n \<le> nTableSize u"
proof -
  consider "n = 0" | "n \<noteq> 0" "initialized ht" "unat n \<le> nTableSize ht" | "n \<noteq> 0" "initialized ht" "nTableSize ht < unat n"
    | "n \<noteq> 0" "\<not> initialized ht" by linarith
  then show ?thesis
  proof cases
    case 1
    then show ?thesis using t by (intro exI [of _ ht]) (simp add: zend_hash_extend_def)
  next
    case 2
    then show ?thesis using t p by (intro exI [of _ ht]) (simp add: zend_hash_extend_def)
  next
    case 3
    then show ?thesis using extend_hash [OF t _ _ n] p by simp
  next
    case 4
    have fresh: "\<exists>u. Some (zend_hash_real_init_ex p g) = Some u \<and> table_ok u \<and> view u = view ht \<and> same_dtor ht u \<and> unat n \<le> nTableSize u"
      if g: "table_ok g" "\<not> initialized g" "view g = view ht" "same_dtor ht g" "unat n \<le> nTableSize g" for g
      using real_init_ok [OF g(1,2), of p] g(3-5) by (auto intro: same_dtor_trans)
    show ?thesis
    proof (cases "nTableSize ht < unat n")
      case False
      then show ?thesis using fresh [OF t 4(2)] 4 by (simp add: zend_hash_extend_def)
    next
      case True
      obtain k where k: "zend_hash_check_size n = Some (2 ^ k)" "unat (2 ^ k :: 32 word) = 2 ^ k" "least_size (unat n) k"
        using check_size_run [OF n] by blast
      then have k3: "3 \<le> k" "k \<le> 31" "unat n \<le> 2 ^ k" by (simp_all add: least_size_def)
      let ?g = "ht\<lparr>nTableSize := 2 ^ k\<rparr>"
      have "table_ok ?g" using t 4(2) k3(1,2) by (auto simp: table_ok_def buckets_ok_def hash_entries_def)
      moreover have "view ?g = view ht" by (simp add: view_def hash_entries_def cursor_def)
      ultimately show ?thesis using fresh [of ?g] 4 True k k3(3) by (simp add: zend_hash_extend_def same_dtor_def)
    qed
  qed
qed

text \<open>A table whose keys are the places of its elements can become a packed one.\<close>

lemma to_packed_ok:
  assumes b: "buckets_ok ht" and i: "initialized ht"
    and k: "\<forall>i < nNumUsed ht. \<forall>h k v. content (arData ht) i = Some (h, k, Some v) \<longrightarrow> unat h = i \<and> k = None"
  shows "table_ok (zend_hash_to_packed ht) \<and> packed (zend_hash_to_packed ht) \<and> view (zend_hash_to_packed ht) = view ht \<and> same_dtor ht (zend_hash_to_packed ht)"
proof -
  obtain j where j: "3 \<le> j" "j \<le> 31" "nTableSize ht = 2 ^ j" and n: "nNumUsed ht \<le> nTableSize ht" using b by (auto simp: buckets_ok_def)
  let ?u = "move_buckets (nTableSize ht) (ht\<lparr>packed := True, nTableMask := HT_MIN_MASK, hashes := [None, None], nTableSize := nTableSize ht\<rparr>)"
  have eq: "zend_hash_to_packed ht = ?u" by (cases ht) (simp add: zend_hash_to_packed_def HT_HASH_RESET_PACKED_def)
  have mv: "buckets_ok ?u \<and> length (arData ?u) = nTableSize ht \<and> view ?u = view ht \<and> same_dtor ht ?u
    \<and> (\<forall>i < nNumUsed ht. content (arData ?u) i = content (arData ht) i)" by (rule move_ok [OF b j n])
  have "packed_ok ?u" using mv k by (simp add: packed_ok_def) (simp add: move_buckets_def)
  then have "table_ok ?u" using mv i by (simp add: table_ok_def) (simp add: move_buckets_def)
  then show ?thesis unfolding eq using mv by (simp add: move_buckets_def)
qed

section \<open>Maps with an order\<close>

locale ordered_map =
  fixes ok :: "'s \<Rightarrow> bool" and room :: "'s \<Rightarrow> bool" and ents :: "'s \<Rightarrow> (hash_key \<times> 'v) list" and key :: "'k \<Rightarrow> hash_key"
    and get :: "'k \<Rightarrow> 's \<Rightarrow> 'v option option" and put :: "'k \<Rightarrow> 'v \<Rightarrow> 's \<Rightarrow> 's option" and del :: "'k \<Rightarrow> 's \<Rightarrow> 's option"
  assumes key_inj: "key k = key k' \<Longrightarrow> k = k'"
    and get_ents: "ok s \<Longrightarrow> get k s = Some (map_of (ents s) (key k))"
    and put_ents: "ok s \<Longrightarrow> room s \<Longrightarrow> \<exists>t. put k v s = Some t \<and> ok t \<and> ents t = AList.update (key k) v (ents s)"
    and del_ents: "ok s \<Longrightarrow> \<exists>t. del k s = Some t \<and> ok t \<and> ents t = AList.delete (key k) (ents s)"
begin

lemma get_put:
  assumes "ok s" and "room s"
  shows "\<exists>t. put k v s = Some t \<and> ok t \<and> (\<forall>k'. get k' t = (if k' = k then Some (Some v) else get k' s))"
proof -
  obtain t where t: "put k v s = Some t" "ok t" "ents t = AList.update (key k) v (ents s)" using put_ents [OF assms] by blast
  have "get k' t = (if k' = k then Some (Some v) else get k' s)" for k'
    using get_ents [OF t(2)] get_ents [OF assms(1)] key_inj [of k' k] by (auto simp: t(3) update_conv')
  then show ?thesis using t(1,2) by blast
qed

lemma get_del:
  assumes "ok s"
  shows "\<exists>t. del k s = Some t \<and> ok t \<and> (\<forall>k'. get k' t = (if k' = k then Some None else get k' s))"
proof -
  obtain t where t: "del k s = Some t" "ok t" "ents t = AList.delete (key k) (ents s)" using del_ents [OF assms] by blast
  have "get k' t = (if k' = k then Some None else get k' s)" for k'
    using get_ents [OF t(2)] get_ents [OF assms(1)] key_inj [of k' k] by (auto simp: t(3) AList.delete_conv')
  then show ?thesis using t(1,2) by blast
qed

text \<open>What was put in and deleted again leaves the others as they were, in their order.\<close>

lemma put_del:
  assumes "ok s" and "room s"
  shows "\<exists>t u. put k v s = Some t \<and> del k t = Some u \<and> ok u \<and> ents u = AList.delete (key k) (ents s)"
proof -
  obtain t where t: "put k v s = Some t" "ok t" "ents t = AList.update (key k) v (ents s)" using put_ents [OF assms] by blast
  obtain u where u: "del k t = Some u" "ok u" "ents u = AList.delete (key k) (ents t)" using del_ents [OF t(2)] by blast
  have "AList.delete K (AList.update K v xs) = AList.delete K xs" for K :: hash_key and xs by (induction xs) auto
  then show ?thesis using t u by auto
qed

end

text \<open>The operations on texts, and those on numbers, as such maps.\<close>

definition get_name :: "string \<Rightarrow> 'v hash_table \<Rightarrow> 'v option option" where
  "get_name s ht = Option.bind (zend_hash_find s ht) (value_of ht)"

definition put_name :: "string \<Rightarrow> 'v \<Rightarrow> 'v hash_table \<Rightarrow> 'v hash_table option" where
  "put_name s v ht = map_option snd (zend_hash_update s v ht)"

definition del_name :: "string \<Rightarrow> 'v hash_table \<Rightarrow> 'v hash_table option" where
  "del_name s ht = map_option snd (zend_hash_del s ht)"

definition get_number :: "64 word \<Rightarrow> 'v hash_table \<Rightarrow> 'v option option" where
  "get_number h ht = Option.bind (zend_hash_index_find h ht) (value_of ht)"

definition put_number :: "64 word \<Rightarrow> 'v \<Rightarrow> 'v hash_table \<Rightarrow> 'v hash_table option" where
  "put_number h v ht = map_option snd (zend_hash_index_update h v ht)"

definition del_number :: "64 word \<Rightarrow> 'v hash_table \<Rightarrow> 'v hash_table option" where
  "del_number h ht = map_option snd (zend_hash_index_del h ht)"

lemma put_ok_ents: "put_ok K v ht r \<Longrightarrow> \<exists>t. map_option snd r = Some t \<and> table_ok t \<and> hash_entries t = AList.update K v (hash_entries ht)"
  by (auto simp: put_ok_def view_def)

lemma remove_ok_ents: "table_ok ht \<Longrightarrow> remove_ok K ht r \<Longrightarrow> \<exists>t. map_option snd r = Some t \<and> table_ok t \<and> hash_entries t = AList.delete K (hash_entries ht)"
  by (auto simp: remove_ok_def removed_def view_def delete_not split: if_splits)

interpretation hash_names: ordered_map table_ok has_room hash_entries Name get_name put_name del_name
proof
  show "table_ok s \<Longrightarrow> get_name k s = Some (map_of (hash_entries s) (Name k))" for k and s :: "'v hash_table"
    using find_run [of s k] found_value [of s "Name k"] by (auto simp: get_name_def zend_hash_find_def)
qed (simp_all only: put_name_def del_name_def put_ok_ents [OF update_ok(1)] remove_ok_ents [OF _ name_del] hash_key.inject)

interpretation hash_numbers: ordered_map table_ok has_room hash_entries Num get_number put_number del_number
proof
  show "table_ok s \<Longrightarrow> get_number k s = Some (map_of (hash_entries s) (Num k))" for k and s :: "'v hash_table"
    using index_find_run [of s k] found_value [of s "Num k"] by (auto simp: get_number_def)
qed (simp_all only: put_number_def del_number_def put_ok_ents [OF update_ok(2)] remove_ok_ents [OF _ number_del] hash_key.inject)

section \<open>Histories\<close>

datatype 'v hash_op = H_add hash_key 'v | H_update hash_key 'v | H_next 'v | H_del hash_key | H_clean

fun run_hash_op :: "'v hash_op \<Rightarrow> 'v hash_table \<Rightarrow> (bool \<times> 'v hash_table) option" where
  "run_hash_op (H_add (Name s) v) ht = map_option (apfst (\<lambda>p. p \<noteq> None)) (zend_hash_add s v ht)"
| "run_hash_op (H_add (Num h) v) ht = map_option (apfst (\<lambda>p. p \<noteq> None)) (zend_hash_index_add h v ht)"
| "run_hash_op (H_update (Name s) v) ht = map_option (apfst (\<lambda>p. p \<noteq> None)) (zend_hash_update s v ht)"
| "run_hash_op (H_update (Num h) v) ht = map_option (apfst (\<lambda>p. p \<noteq> None)) (zend_hash_index_update h v ht)"
| "run_hash_op (H_next v) ht = map_option (apfst (\<lambda>p. p \<noteq> None)) (zend_hash_next_index_insert v ht)"
| "run_hash_op (H_del (Name s)) ht = zend_hash_del s ht"
| "run_hash_op (H_del (Num h)) ht = zend_hash_index_del h ht"
| "run_hash_op H_clean ht = map_option (Pair True) (zend_hash_clean ht)"

text \<open>What they mean, on the view and on the values given to the destructor.\<close>

type_synonym 'v hash_view = "((hash_key \<times> 'v) list \<times> nat option \<times> 64 word) \<times> 'v list"

definition old_value :: "bool \<Rightarrow> hash_key \<Rightarrow> (hash_key \<times> 'v) list \<Rightarrow> 'v list" where
  "old_value d K es = (if d then (case map_of es K of None \<Rightarrow> [] | Some w \<Rightarrow> [w]) else [])"

fun spec_hash_op :: "bool \<Rightarrow> 'v hash_op \<Rightarrow> 'v hash_view \<Rightarrow> bool \<times> 'v hash_view" where
  "spec_hash_op d (H_add K v) (S, ds) = (if K \<in> fst ` set (fst S) then (False, S, ds) else (True, put_spec K v S, ds))"
| "spec_hash_op d (H_update K v) (S, ds) = (True, put_spec K v S, ds @ old_value d K (fst S))"
| "spec_hash_op d (H_next v) (S, ds) =
     (let K = Num (snd (snd S)) in if K \<in> fst ` set (fst S) then (False, S, ds) else (True, put_spec K v S, ds))"
| "spec_hash_op d (H_del K) (S, ds) =
     (if K \<in> fst ` set (fst S) then (True, remove_spec K S, ds @ old_value d K (fst S)) else (False, S, ds))"
| "spec_hash_op d H_clean (S, ds) = (True, ([], None, 0), ds @ (if d then map snd (fst S) else []))"

definition hash_view :: "'v hash_table \<Rightarrow> 'v hash_view" where
  "hash_view ht = (view ht, destroyed ht)"

definition op_ok :: "'v hash_op \<Rightarrow> 'v hash_table \<Rightarrow> (bool \<times> 'v hash_table) option \<Rightarrow> bool" where
  "op_ok op ht r \<longleftrightarrow> (\<exists>b u. r = Some (b, u) \<and> table_ok u \<and> pDestructor u = pDestructor ht
     \<and> spec_hash_op (pDestructor ht) op (hash_view ht) = (b, hash_view u))"

lemma view_fst [simp]: "fst (view ht) = hash_entries ht" "snd (snd (view ht)) = nNextFreeElement ht"
  by (simp_all add: view_def)

lemma op_update: "put_ok K v ht r \<Longrightarrow> op_ok (H_update K v) ht (map_option (apfst (\<lambda>p. p \<noteq> None)) r)"
  by (auto simp: op_ok_def put_ok_def hash_view_def old_value_def)

lemma op_add:
  assumes t: "table_ok ht" and a: "add_ok K v ht r"
  shows "op_ok (H_add K v) ht (map_option (apfst (\<lambda>p. p \<noteq> None)) r)"
proof (cases "K \<in> keys_of ht")
  case True
  then show ?thesis using a t by (auto simp: add_ok_def op_ok_def hash_view_def)
next
  case False
  then have "put_ok K v ht r" using a by (simp add: add_ok_def)
  from op_update [OF this] False show ?thesis
    by (simp add: op_ok_def hash_view_def old_value_def map_of_eq_None_iff [THEN iffD2] cong: if_cong)
qed

lemma op_next: "table_ok ht \<Longrightarrow> add_ok (Num (nNextFreeElement ht)) v ht r \<Longrightarrow> op_ok (H_next v) ht (map_option (apfst (\<lambda>p. p \<noteq> None)) r)"
  using op_add [of ht "Num (nNextFreeElement ht)" v r] by (simp add: op_ok_def hash_view_def Let_def)

lemma op_del:
  assumes t: "table_ok ht" and r: "remove_ok K ht r"
  shows "op_ok (H_del K) ht r"
proof (cases "K \<in> keys_of ht")
  case False
  then show ?thesis using r t by (auto simp: remove_ok_def op_ok_def hash_view_def)
next
  case True
  then obtain u w where "r = Some (True, u)" "table_ok u" "view u = remove_spec K (view ht)" "map_of (hash_entries ht) K = Some w" "dtor_called w ht u"
    using r by (auto simp: remove_ok_def removed_def)
  then show ?thesis using True by (auto simp: op_ok_def hash_view_def old_value_def dtor_called_def)
qed

lemma op_clean: "table_ok ht \<Longrightarrow> op_ok H_clean ht (map_option (Pair True) (zend_hash_clean ht))"
  using clean_ok [of ht] by (auto simp: op_ok_def hash_view_def)

lemma op_run:
  assumes t: "table_ok ht" and r: "has_room ht"
  shows "op_ok op ht (run_hash_op op ht)"
proof (cases "(op, ht)" rule: run_hash_op.cases)
qed (use t r in \<open>simp_all only: prod.inject run_hash_op.simps op_update [OF update_ok(1)] op_update [OF update_ok(2)] op_add [OF _ add_ok(1)]
  op_add [OF _ add_ok(2)] op_next [OF _ add_ok(3)] op_del [OF _ name_del] op_del [OF _ number_del] op_clean\<close>)

text \<open>One operation after the other, with their answers.\<close>

fun run_hash_ops :: "'v hash_op list \<Rightarrow> 'v hash_table \<Rightarrow> (bool list \<times> 'v hash_table) option" where
  "run_hash_ops [] ht = Some ([], ht)"
| "run_hash_ops (op # ops) ht = do { (b, ht) \<leftarrow> run_hash_op op ht; (bs, ht) \<leftarrow> run_hash_ops ops ht; Some (b # bs, ht) }"

fun spec_hash_ops :: "bool \<Rightarrow> 'v hash_op list \<Rightarrow> 'v hash_view \<Rightarrow> bool list \<times> 'v hash_view" where
  "spec_hash_ops d [] S = ([], S)"
| "spec_hash_ops d (op # ops) S = (let (b, S) = spec_hash_op d op S; (bs, S) = spec_hash_ops d ops S in (b # bs, S))"

lemma update_length: "length (AList.update k v xs) \<le> Suc (length xs)"
  by (induction xs) auto

lemma spec_op_length: "spec_hash_op d op ((es, c, nf), ds) = (b, ((es', c', nf'), ds')) \<Longrightarrow> length es' \<le> Suc (length es)"
proof (cases op)
  case (H_del K)
  assume "spec_hash_op d op ((es, c, nf), ds) = (b, ((es', c', nf'), ds'))"
  then show ?thesis using H_del length_delete_le [of K es] by (auto split: if_splits)
qed (auto simp: update_length Let_def split: if_splits)

lemma run_ops_refine:
  assumes "table_ok ht" and "2 * (length (hash_entries ht) + length ops) \<le> HT_MAX_SIZE + 2"
  shows "\<exists>bs u. run_hash_ops ops ht = Some (bs, u) \<and> table_ok u \<and> pDestructor u = pDestructor ht \<and> spec_hash_ops (pDestructor ht) ops (hash_view ht) = (bs, hash_view u)"
  using assms
proof (induction ops arbitrary: ht)
  case (Cons op ops)
  have "has_room ht" using Cons.prems(2) by (simp add: has_room_def)
  from op_run [OF Cons.prems(1) this, of op] obtain b u where u: "run_hash_op op ht = Some (b, u)" "table_ok u" "pDestructor u = pDestructor ht"
    "spec_hash_op (pDestructor ht) op (hash_view ht) = (b, hash_view u)" by (auto simp: op_ok_def)
  have "length (hash_entries u) \<le> Suc (length (hash_entries ht))" using u(4) unfolding hash_view_def view_def by (rule spec_op_length)
  then have "2 * (length (hash_entries u) + length ops) \<le> HT_MAX_SIZE + 2" using Cons.prems(2) by simp
  from Cons.IH [OF u(2) this] obtain bs w where "run_hash_ops ops u = Some (bs, w)" "table_ok w" "pDestructor w = pDestructor u"
    "spec_hash_ops (pDestructor u) ops (hash_view u) = (bs, hash_view w)" by blast
  then show ?case using u by simp
qed simp

end
