(* ===== verification/Zend_Hash_Walk.thy ===== *)
theory Zend_Hash_Walk
  imports Zend_Hash_Table
begin

text \<open>Positions: walks over a table in both directions, and functions applied to every element.\<close>

section \<open>Positions and the numbers of entries\<close>

text \<open>A position is at entry \<open>x\<close>, or it is none, and \<open>x\<close> is no number of an entry.\<close>

definition position :: "'v hash_table \<Rightarrow> nat option \<Rightarrow> nat \<Rightarrow> bool" where
  "position ht p x \<longleftrightarrow> (case p of None \<Rightarrow> length (hash_entries ht) \<le> x
     | Some q \<Rightarrow> q < nNumUsed ht \<and> defined (arData ht) q \<and> rank (arData ht) q = x)"

lemma used_bkt: "table_ok ht \<Longrightarrow> q < nNumUsed ht \<Longrightarrow> bkt (arData ht) q \<noteq> None"
  by (simp add: table_ok_def buckets_ok_def)

lemma entries_rank: "length (hash_entries ht) = rank (arData ht) (nNumUsed ht)"
  by (simp add: rank_def hash_entries_def)

lemma rank_gap: "n \<le> m \<Longrightarrow> (\<And>i. n \<le> i \<Longrightarrow> i < m \<Longrightarrow> \<not> defined ar i) \<Longrightarrow> rank ar m = rank ar n"
  unfolding rank_def by (rule arg_cong [where f = length], rule entries_gap)

lemma next_position:
  assumes t: "table_ok ht" and i: "i \<le> nNumUsed ht"
  shows "\<exists>r. next_defined i ht = Some r \<and> position ht r (rank (arData ht) i)"
proof -
  obtain r where r: "next_defined i ht = Some r" "first_defined (arData ht) i (nNumUsed ht) r"
    using next_defined_run [of ht i] used_bkt [OF t] by blast
  have "position ht r (rank (arData ht) i)"
  proof (cases r)
    case None
    then have "rank (arData ht) (nNumUsed ht) = rank (arData ht) i" using r(2) i by (intro rank_gap) (auto simp: first_defined_def)
    then show ?thesis using None by (simp add: position_def entries_rank)
  next
    case (Some q)
    then have q: "i \<le> q" "q < nNumUsed ht" "defined (arData ht) q" "\<forall>j. i \<le> j \<and> j < q \<longrightarrow> \<not> defined (arData ht) j"
      using r(2) by (simp_all add: first_defined_def)
    have "rank (arData ht) q = rank (arData ht) i" using q(1,4) by (intro rank_gap) auto
    then show ?thesis using Some q(2,3) by (simp add: position_def)
  qed
  then show ?thesis using r(1) by blast
qed

lemma last_position:
  assumes t: "table_ok ht" and i: "i \<le> nNumUsed ht"
  shows "\<exists>r. last_defined i ht = Some r \<and> (if rank (arData ht) i = 0 then r = None else r \<noteq> None \<and> position ht r (rank (arData ht) i - 1))"
  using i
proof (induction i)
  case (Suc i)
  obtain b where b: "bkt (arData ht) i = Some b" using used_bkt [OF t, of i] Suc.prems by auto
  show ?case
  proof (cases "z_val b = None")
    case True
    then have "rank (arData ht) (Suc i) = rank (arData ht) i" using b by (auto simp: rank_Suc defined_def)
    moreover obtain r where "last_defined i ht = Some r" "if rank (arData ht) i = 0 then r = None else r \<noteq> None \<and> position ht r (rank (arData ht) i - 1)"
      using Suc by auto
    ultimately show ?thesis using b True by (intro exI [of _ r]) (simp split: if_splits)
  next
    case False
    then have "defined (arData ht) i" using b by (auto simp: defined_def)
    then show ?thesis using Suc.prems b False by (simp add: rank_Suc position_def)
  qed
qed (simp add: rank_def)

lemma entry_at:
  assumes t: "table_ok ht" and p: "position ht (Some q) x"
  shows "\<exists>b v. bkt (arData ht) q = Some b \<and> z_val b = Some v \<and> x < length (hash_entries ht) \<and> hash_entries ht ! x = (bucket_key b, v)"
proof -
  have q: "q < nNumUsed ht" "defined (arData ht) q" "rank (arData ht) q = x" using p by (simp_all add: position_def)
  obtain b v where b: "bkt (arData ht) q = Some b" "z_val b = Some v" using q(2) by (auto simp: defined_def)
  have "hash_entries ht ! x = (bucket_key b, v)"
    unfolding hash_entries_def entries_split [OF q(1)] entry_Some [OF b] q(3) [symmetric] rank_def by (simp add: nth_append)
  moreover have "x < length (hash_entries ht)" using rank_less [OF q(2,1)] q(3) by (simp add: entries_rank)
  ultimately show ?thesis using b by blast
qed

section \<open>Walks\<close>

text \<open>A client that asks for key and value at each position, and moves on.\<close>

fun walk :: "(nat option \<Rightarrow> 'v hash_table \<Rightarrow> (bool \<times> nat option) option) \<Rightarrow> nat \<Rightarrow> nat option \<Rightarrow> 'v hash_table \<Rightarrow> (hash_key \<times> 'v) list option" where
  "walk move 0 pos ht = None"
| "walk move (Suc n) pos ht =
     (if pos = None then Some []
      else do {
        k \<leftarrow> zend_hash_get_current_key_ex pos ht;
        v \<leftarrow> zend_hash_get_current_data_ex pos ht;
        (_, pos) \<leftarrow> move pos ht;
        rest \<leftarrow> walk move n pos ht;
        Some ((the k, the v) # rest)
      })"

lemma walk_forward:
  assumes t: "table_ok ht"
  shows "position ht p x \<Longrightarrow> length (hash_entries ht) - x < n \<Longrightarrow> walk zend_hash_move_forward_ex n p ht = Some (drop x (hash_entries ht))"
proof (induction n arbitrary: p x)
  case (Suc n)
  show ?case
  proof (cases p)
    case None
    then show ?thesis using Suc.prems(1) by (simp add: position_def)
  next
    case (Some q)
    then have q: "q < nNumUsed ht" "defined (arData ht) q" "rank (arData ht) q = x" using Suc.prems(1) by (simp_all add: position_def)
    obtain b v where b: "bkt (arData ht) q = Some b" "z_val b = Some v" "x < length (hash_entries ht)" "hash_entries ht ! x = (bucket_key b, v)"
      using entry_at [OF t] Suc.prems(1) Some by blast
    obtain r where r: "next_defined (Suc q) ht = Some r" "position ht r (Suc x)"
      using next_position [OF t, of "Suc q"] q by (auto simp: rank_Suc)
    have "walk zend_hash_move_forward_ex n r ht = Some (drop (Suc x) (hash_entries ht))"
      using Suc.IH [OF r(2)] Suc.prems(2) b(3) by simp
    moreover have "drop x (hash_entries ht) = (bucket_key b, v) # drop (Suc x) (hash_entries ht)" using b(3,4) by (simp add: Cons_nth_drop_Suc [symmetric])
    moreover have "zend_hash_move_forward_ex (Some q) ht = Some (True, r)" using r(1) by (simp add: zend_hash_move_forward_ex_def)
    ultimately show ?thesis using Some b(1,2)
      by (simp add: zend_hash_get_current_key_ex_def zend_hash_get_current_data_ex_def value_of_def)
  qed
qed simp

lemma walk_backward:
  assumes t: "table_ok ht"
  shows "position ht (Some q) x \<Longrightarrow> Suc x < n \<Longrightarrow> walk zend_hash_move_backwards_ex n (Some q) ht = Some (rev (take (Suc x) (hash_entries ht)))"
proof (induction n arbitrary: q x)
  case (Suc n)
  have q: "q < nNumUsed ht" "defined (arData ht) q" "rank (arData ht) q = x" using Suc.prems(1) by (simp_all add: position_def)
  obtain b v where b: "bkt (arData ht) q = Some b" "z_val b = Some v" "x < length (hash_entries ht)" "hash_entries ht ! x = (bucket_key b, v)"
    using entry_at [OF t Suc.prems(1)] by blast
  obtain r where r: "last_defined q ht = Some r" "if x = 0 then r = None else r \<noteq> None \<and> position ht r (x - 1)"
    using last_position [OF t, of q] q by auto
  have "walk zend_hash_move_backwards_ex n r ht = Some (rev (take x (hash_entries ht)))"
  proof (cases "x = 0")
    case True
    then show ?thesis using r(2) Suc.prems(2) by (cases n) simp_all
  next
    case False
    then obtain q' where "r = Some q'" "position ht (Some q') (x - 1)" using r(2) by auto
    then show ?thesis using Suc.IH [of q' "x - 1"] Suc.prems(2) False by simp
  qed
  moreover have "take (Suc x) (hash_entries ht) = take x (hash_entries ht) @ [(bucket_key b, v)]" using b(3,4) by (simp add: take_Suc_conv_app_nth)
  moreover have "zend_hash_move_backwards_ex (Some q) ht = Some (True, r)" using r(1) by (simp add: zend_hash_move_backwards_ex_def)
  ultimately show ?case using b(1,2)
    by (simp add: zend_hash_get_current_key_ex_def zend_hash_get_current_data_ex_def value_of_def)
qed simp

section \<open>Functions applied to the elements\<close>

text \<open>What becomes of one entry, and of the entries with the keys of a list, one after the other.\<close>

fun apply_entry :: "bool \<Rightarrow> ('v \<Rightarrow> 'v \<times> 32 word) \<Rightarrow> hash_key \<Rightarrow> 'v hash_view \<Rightarrow> bool \<times> 'v hash_view" where
  "apply_entry d f K ((es, c, nf), ds) =
     (let (v, result) = f (the (map_of es K));
          S = ((AList.update K v es, c, nf), ds)
      in (result AND ZEND_HASH_APPLY_STOP \<noteq> 0,
          if result AND ZEND_HASH_APPLY_REMOVE \<noteq> 0 then snd (spec_hash_op d (H_del K) S) else S))"

fun apply_entries :: "bool \<Rightarrow> ('v \<Rightarrow> 'v \<times> 32 word) \<Rightarrow> hash_key list \<Rightarrow> 'v hash_view \<Rightarrow> 'v hash_view" where
  "apply_entries d f [] S = S"
| "apply_entries d f (K # Ks) S = (let (stop, S) = apply_entry d f K S in if stop then S else apply_entries d f Ks S)"

lemma apply_hole: "bkt (arData ht) i \<noteq> None \<Longrightarrow> \<not> defined (arData ht) i \<Longrightarrow> apply_at f i ht = Some (False, ht)"
  by (auto simp: apply_at_def defined_def)

lemma apply_at_ok:
  assumes t: "table_ok ht" and a: "at_key ht K i"
  shows "\<exists>stop u. apply_at f i ht = Some (stop, u) \<and> table_ok u \<and> pDestructor u = pDestructor ht
    \<and> apply_entry (pDestructor ht) f K (hash_view ht) = (stop, hash_view u) \<and> kept i ht u"
proof -
  obtain b w where b: "i < nNumUsed ht" "bkt (arData ht) i = Some b" "z_val b = Some w" "bucket_key b = K" using a by (auto simp: at_key_def)
  obtain v result where f: "f w = (v, result)" by (cases "f w")
  have il: "i < length (arData ht)" using b(2) by (rule bkt_length)
  let ?t = "ht\<lparr>arData := (arData ht)[i := Some (b\<lparr>z_val := Some v\<rparr>)]\<rparr>"
  note ok = value_update_ok [OF t b(1-3), of v]
  have m: "map_of (hash_entries ht) K = Some w" using found_value [OF t, of K "Some i"] a b by (simp add: found_def value_of_def)
  have vt: "hash_view ?t = ((AList.update K v (hash_entries ht), cursor ht, nNextFreeElement ht), destroyed ht)"
    using ok b(4) by (simp add: hash_view_def view_def)
  have at: "at_key ?t K i" using b il by (simp add: at_key_def bkt_update)
  have kt: "kept i ht ?t" using il b(1) by (auto simp: kept_def content_update bkt_update)
  have run: "apply_at f i ht = Option.bind (if result AND ZEND_HASH_APPLY_REMOVE \<noteq> 0 then zend_hash_del_el i ?t else Some ?t)
      (\<lambda>ht. Some (result AND ZEND_HASH_APPLY_STOP \<noteq> 0, ht))"
    using b il f by (simp add: apply_at_def bucket_write_def)
  show ?thesis
  proof (cases "result AND ZEND_HASH_APPLY_REMOVE = 0")
    case True
    then show ?thesis using run ok kt vt m f by (simp add: hash_view_def view_def)
  next
    case False
    obtain u where u: "zend_hash_del_el i ?t = Some u" "removed K ?t u" "kept i ?t u" using del_el_ok [OF _ at] ok by blast
    have "K \<in> keys_of ?t" using at keys_at by blast
    then have "remove_ok K ?t (Some (True, u))" using u(2) by (simp add: remove_ok_def)
    then have "op_ok (H_del K) ?t (Some (True, u))" using op_del ok by blast
    then have "table_ok u" "pDestructor u = pDestructor ht" "spec_hash_op (pDestructor ht) (H_del K) (hash_view ?t) = (True, hash_view u)"
      by (auto simp: op_ok_def)
    moreover have "kept i ht u" using u(3) kt by (auto simp: kept_def)
    ultimately show ?thesis using run u(1) False m f unfolding vt by (simp add: hash_view_def view_def del: spec_hash_op.simps)
  qed
qed

text \<open>The keys from a bucket on, and those before one.\<close>

definition keys_from :: "'v hash_table \<Rightarrow> nat \<Rightarrow> hash_key list" where
  "keys_from ht i = map fst (concat (map (entry (arData ht)) [i..<nNumUsed ht]))"

definition keys_below :: "'v hash_table \<Rightarrow> nat \<Rightarrow> hash_key list" where
  "keys_below ht i = map fst (entries (arData ht) i)"

lemma keys_from_kept:
  assumes k: "kept i ht u"
  shows "keys_from u (Suc i) = keys_from ht (Suc i)"
proof -
  have "entry (arData u) q = entry (arData ht) q" if "q \<noteq> i" for q using k that by (intro entry_content) (simp add: kept_def)
  then have same: "map (entry (arData u)) [Suc i..<m] = map (entry (arData ht)) [Suc i..<m]" for m by simp
  have nil: "concat (map (entry (arData u)) [a..<nNumUsed ht]) = []" if "nNumUsed u \<le> a" for a
    using k that by (auto simp: kept_def entry_nil)
  have "concat (map (entry (arData u)) [Suc i..<nNumUsed u]) = concat (map (entry (arData u)) [Suc i..<nNumUsed ht])"
  proof (cases "Suc i \<le> nNumUsed u")
    case True
    then have "[Suc i..<nNumUsed ht] = [Suc i..<nNumUsed u] @ [nNumUsed u..<nNumUsed ht]"
      using k upt_add_eq_append [OF True, of "nNumUsed ht - nNumUsed u"] by (simp add: kept_def)
    then show ?thesis using nil [OF order_refl] by simp
  next
    case False
    then show ?thesis using nil [of "Suc i"] by simp
  qed
  then show ?thesis by (simp only: keys_from_def same)
qed

lemma defined_key:
  assumes "i < nNumUsed ht" and "defined (arData ht) i"
  shows "\<exists>K v. at_key ht K i \<and> entry (arData ht) i = [(K, v)]"
  using assms by (auto simp: defined_def at_key_def entry_def)

lemma hash_apply_run:
  assumes "table_ok ht"
  shows "\<exists>u. hash_apply_loop f i ht = Some u \<and> table_ok u \<and> hash_view u = apply_entries (pDestructor ht) f (keys_from ht i) (hash_view ht)"
  using assms
proof (induction "nNumUsed ht - i" arbitrary: i ht rule: less_induct)
  case less
  show ?case
  proof (cases "i < nNumUsed ht")
    case False
    then show ?thesis using less.prems by (subst hash_apply_loop.simps) (simp add: keys_from_def)
  next
    case True
    have kf: "keys_from ht i = map fst (entry (arData ht) i) @ keys_from ht (Suc i)" using True by (simp add: keys_from_def upt_conv_Cons)
    show ?thesis
    proof (cases "defined (arData ht) i")
      case False
      have "entry (arData ht) i = []" using False by (simp add: entry_nil)
      moreover have "apply_at f i ht = Some (False, ht)" using used_bkt [OF less.prems True] False by (rule apply_hole)
      ultimately show ?thesis using less.hyps [of ht "Suc i"] less.prems True kf by (subst hash_apply_loop.simps) simp
    next
      case d: True
      obtain K v where K: "at_key ht K i" "entry (arData ht) i = [(K, v)]" using defined_key [OF True d] by blast
      obtain stop u where u: "apply_at f i ht = Some (stop, u)" "table_ok u" "pDestructor u = pDestructor ht"
        "apply_entry (pDestructor ht) f K (hash_view ht) = (stop, hash_view u)" "kept i ht u" using apply_at_ok [OF less.prems K(1)] by blast
      have "nNumUsed u \<le> nNumUsed ht" using u(5) by (simp add: kept_def)
      then have "nNumUsed u - Suc i < nNumUsed ht - i" using True by linarith
      from less.hyps [OF this u(2)] obtain w where w: "hash_apply_loop f (Suc i) u = Some w" "table_ok w"
        "hash_view w = apply_entries (pDestructor u) f (keys_from u (Suc i)) (hash_view u)" by blast
      show ?thesis
        using True u w K(2) kf keys_from_kept [OF u(5)] by (cases stop) (subst hash_apply_loop.simps, simp)+
    qed
  qed
qed

lemma hash_reverse_run:
  assumes "table_ok ht" and "\<And>q. q < i \<Longrightarrow> bkt (arData ht) q \<noteq> None \<and> (nNumUsed ht \<le> q \<longrightarrow> \<not> defined (arData ht) q)"
  shows "\<exists>u. hash_reverse_loop f i ht = Some u \<and> table_ok u
    \<and> hash_view u = apply_entries (pDestructor ht) f (rev (keys_below ht i)) (hash_view ht)"
  using assms
proof (induction i arbitrary: ht)
  case 0
  then show ?case by (simp add: keys_below_def)
next
  case (Suc i)
  have kb: "rev (keys_below ht (Suc i)) = map fst (rev (entry (arData ht) i)) @ rev (keys_below ht i)"
    by (simp add: keys_below_def entries_Suc rev_map)
  show ?case
  proof (cases "defined (arData ht) i")
    case False
    have "entry (arData ht) i = []" using False by (simp add: entry_nil)
    moreover have "apply_at f i ht = Some (False, ht)" using Suc.prems(2) [of i] False by (intro apply_hole) simp_all
    ultimately show ?thesis using Suc.IH [of ht] Suc.prems kb by simp
  next
    case d: True
    then have lt: "i < nNumUsed ht" using Suc.prems(2) [of i] by (cases "nNumUsed ht \<le> i") auto
    obtain K v where K: "at_key ht K i" "entry (arData ht) i = [(K, v)]" using defined_key [OF lt d] by blast
    obtain stop u where u: "apply_at f i ht = Some (stop, u)" "table_ok u" "pDestructor u = pDestructor ht"
      "apply_entry (pDestructor ht) f K (hash_view ht) = (stop, hash_view u)" "kept i ht u" using apply_at_ok [OF Suc.prems(1) K(1)] by blast
    have con: "content (arData u) q = content (arData ht) q" if "q < i" for q using u(5) that by (simp add: kept_def)
    have "bkt (arData u) q \<noteq> None \<and> (nNumUsed u \<le> q \<longrightarrow> \<not> defined (arData u) q)" if q: "q < i" for q
    proof
      show "bkt (arData u) q \<noteq> None" using con [OF q] Suc.prems(2) [of q] q by (auto simp: content_def)
      show "nNumUsed u \<le> q \<longrightarrow> \<not> defined (arData u) q" using u(5) q lt by (simp add: kept_def)
    qed
    from Suc.IH [OF u(2) this] obtain w where w: "hash_reverse_loop f i u = Some w" "table_ok w"
      "hash_view w = apply_entries (pDestructor u) f (rev (keys_below u i)) (hash_view u)" by blast
    have "keys_below u i = keys_below ht i" unfolding keys_below_def by (intro arg_cong [where f = "map fst"] entries_content con)
    then show ?thesis using u w K(2) kb by (cases stop) simp_all
  qed
qed

end
