(* ===== verification/Zend_Hash_Properties.thy ===== *)
theory Zend_Hash_Properties
  imports Zend_Hash_Walk
begin

text \<open>The properties of hash tables.\<close>

section \<open>The next free number\<close>

lemma sint_cases: "sint (w :: 64 word) = (if uint w < 2 ^ 63 then uint w else uint w - 2 ^ 64)"
proof -
  have b: "bit (uint w) 63 \<longleftrightarrow> \<not> uint w < 2 ^ 63"
  proof -
    have r: "0 \<le> uint w" "uint w < 2 * 2 ^ 63" using uint_lt2p [of w] by simp_all
    have "uint w div 2 ^ 63 = (if uint w < 2 ^ 63 then 0 else 1)"
      using r by (auto intro: div_pos_pos_trivial int_div_pos_eq [where r = "uint w - 2 ^ 63"])
    then show ?thesis by (simp add: bit_iff_odd)
  qed
  have "sint w = signed_take_bit 63 (uint w)" by (simp add: sint_uint)
  then show ?thesis using b uint_lt2p [of w] by (simp add: signed_take_bit_eq_take_bit_minus take_bit_int_eq_self)
qed

text \<open>The next free number is behind all numbers in use, until there is none any more.\<close>

fun next_ok :: "(hash_key \<times> 'v) list \<times> nat option \<times> 64 word \<Rightarrow> bool" where
  "next_ok (es, c, nf) \<longleftrightarrow> nf \<le> ZEND_LONG_MAX \<and> (\<forall>h. Num h \<in> fst ` set es \<longrightarrow> sint h < sint nf \<or> nf = ZEND_LONG_MAX)"

lemma sint_le: "nf \<le> ZEND_LONG_MAX \<Longrightarrow> sint nf = uint nf"
  by (simp add: sint_cases word_le_def ZEND_LONG_MAX_def)

lemma bump_ok:
  assumes n: "nf \<le> ZEND_LONG_MAX"
  shows "bump h nf \<le> ZEND_LONG_MAX" and "sint nf \<le> sint (bump h nf)" and "sint h < sint (bump h nf) \<or> bump h nf = ZEND_LONG_MAX"
    and "nf = ZEND_LONG_MAX \<Longrightarrow> bump h nf = ZEND_LONG_MAX"
proof -
  have z: "0 \<le> sint nf" "uint nf \<le> 2 ^ 63 - 1" using n sint_le [OF n] by (simp_all add: word_le_def ZEND_LONG_MAX_def)
  have hm: "uint h < 2 ^ 63" if "sint nf \<le> sint h"
  proof (rule ccontr)
    assume "\<not> uint h < 2 ^ 63"
    then have "sint h = uint h - 2 ^ 64" "uint h < 2 ^ 64" using uint_lt2p [of h] by (simp_all add: sint_cases)
    then show False using that z(1) by linarith
  qed
  have h1: "uint (h + 1) = uint h + 1" if "h < ZEND_LONG_MAX"
    using that by (simp add: uint_plus_if' word_less_def ZEND_LONG_MAX_def)
  have "bump h nf \<le> ZEND_LONG_MAX \<and> sint nf \<le> sint (bump h nf) \<and> (sint h < sint (bump h nf) \<or> bump h nf = ZEND_LONG_MAX)
    \<and> (nf = ZEND_LONG_MAX \<longrightarrow> bump h nf = ZEND_LONG_MAX)"
    using z hm h1 n by (auto simp: bump_def word_le_def word_less_def ZEND_LONG_MAX_def sint_cases split: if_splits)
  then show "bump h nf \<le> ZEND_LONG_MAX" "sint nf \<le> sint (bump h nf)" "sint h < sint (bump h nf) \<or> bump h nf = ZEND_LONG_MAX"
    "nf = ZEND_LONG_MAX \<Longrightarrow> bump h nf = ZEND_LONG_MAX" by blast+
qed

lemma next_put:
  assumes "next_ok S"
  shows "next_ok (put_spec K v S)"
proof -
  obtain es c nf where S: "S = (es, c, nf)" by (cases S)
  then have n: "nf \<le> ZEND_LONG_MAX" "\<And>h. Num h \<in> fst ` set es \<Longrightarrow> sint h < sint nf \<or> nf = ZEND_LONG_MAX" using assms by auto
  show ?thesis
  proof (cases K)
    case (Name s)
    then show ?thesis using n by (simp add: S bump_key_def dom_update)
  next
    case (Num k)
    note b = bump_ok [OF n(1), of k]
    have "sint h < sint (bump k nf) \<or> bump k nf = ZEND_LONG_MAX" if "Num h \<in> insert (Num k) (fst ` set es)" for h
      using that b n(2) [of h] by fastforce
    then show ?thesis using b(1) Num by (simp add: S bump_key_def dom_update)
  qed
qed

lemma next_op:
  assumes "next_ok S" and "spec_hash_op d op (S, ds) = (b, (S', ds'))"
  shows "next_ok S'"
proof (cases op)
  case (H_del K)
  obtain es c nf where S: "S = (es, c, nf)" by (cases S)
  have "fst ` set (AList.delete K es) \<subseteq> fst ` set es" by (rule dom_delete_subset)
  then have "next_ok (remove_spec K S)" using assms(1) unfolding S remove_spec.simps next_ok.simps by blast
  then show ?thesis using H_del assms by (auto split: if_splits)
qed (use assms in \<open>auto simp: Let_def intro!: next_put split: if_splits simp del: next_ok.simps\<close>, simp_all)

lemma next_ops: "next_ok S \<Longrightarrow> spec_hash_ops d ops (S, ds) = (bs, (S', ds')) \<Longrightarrow> next_ok S'"
proof (induction ops arbitrary: S ds bs)
  case (Cons op ops)
  obtain b S1 ds1 where o: "spec_hash_op d op (S, ds) = (b, (S1, ds1))" by (metis prod_cases3 surj_pair)
  have "next_ok S1" using next_op [OF Cons.prems(1) o] .
  then show ?case using Cons.IH Cons.prems(2) o by (auto split: prod.splits)
qed simp

lemma ops_length: "spec_hash_ops d ops (((es, c, nf), ds)) = (bs, ((es', c', nf'), ds')) \<Longrightarrow> length es' \<le> length es + length ops"
proof (induction ops arbitrary: es c nf ds bs)
  case (Cons op ops)
  obtain b es1 c1 nf1 ds1 where o: "spec_hash_op d op ((es, c, nf), ds) = (b, ((es1, c1, nf1), ds1))" by (metis prod_cases3 surj_pair)
  obtain bs1 where "spec_hash_ops d ops ((es1, c1, nf1), ds1) = (bs1, ((es', c', nf'), ds'))" using Cons.prems o by (auto split: prod.splits)
  then show ?case using Cons.IH spec_op_length [OF o] by fastforce
qed simp

section \<open>Histories\<close>

text \<open>
  C32. Hash tables are lists of entries in the order of insertion: whatever sequence of operations is run on a new table
  (adding and updating by text and by number, appending at the next free number, deleting, emptying), each of them ends
  and answers as the operation on the list does, the entries, the place of the internal pointer, the next free number and
  the values given to the destructor are those of the list, and the buckets and chains stay well-formed, through
  every growing, rehashing and conversion from packed to chained on the way. \<open>spec_hash_op\<close> says what an operation
  does to the list.
\<close>

theorem hash_refines_list:
  assumes "zend_hash_init n d = Some ht" and "2 * length ops \<le> HT_MAX_SIZE"
  shows "\<exists>answers u. run_hash_ops ops ht = Some (answers, u) \<and> table_ok u
    \<and> spec_hash_ops d ops (([], None, 0), []) = (answers, hash_view u)"
proof -
  have i: "table_ok ht" "view ht = ([], None, 0)" "pDestructor ht = d" "destroyed ht = []" using hash_init_ok [OF assms(1)] by blast+
  then have "2 * (length (hash_entries ht) + length ops) \<le> HT_MAX_SIZE + 2" using assms(2) by (simp add: view_def)
  from run_ops_refine [OF i(1) this] show ?thesis using i by (auto simp: hash_view_def)
qed

definition sample_ops :: "string hash_op list" where
  "sample_ops = [H_next ''a'', H_add (Num 40) ''b'', H_next ''c'', H_update (Num 40) ''d'', H_del (Num 0), H_add (Num 41) ''e'']"

lemma sample_init: "\<exists>ht. zend_hash_init 3 True = Some (ht :: string hash_table)" and sample_length: "2 * length sample_ops \<le> HT_MAX_SIZE"
  by (simp_all add: zend_hash_init_def zend_hash_check_size_def HT_MIN_SIZE_def sample_ops_def HT_MAX_SIZE_def)

lemma sample_spec: "spec_hash_ops True sample_ops (([], None, 0), []) =
    ([True, True, True, True, True, False], (([(Num 40, ''d''), (Num 41, ''c'')], Some 0, 42), [''b'', ''a'']))"
  by (simp add: sample_ops_def bump_key_def bump_def ZEND_LONG_MAX_def old_value_def number_of_def)

text \<open>A table with a history, for the witnesses.\<close>

lemma sample_table:
  "\<exists>ht answers u. zend_hash_init 3 True = Some ht \<and> run_hash_ops sample_ops ht = Some (answers, u) \<and> table_ok u \<and> has_room u
    \<and> view u = ([(Num 40, ''d''), (Num 41, ''c'')], Some 0, 42) \<and> destroyed u = [''b'', ''a''] \<and> pDestructor u"
proof -
  obtain ht :: "string hash_table" where ht: "zend_hash_init 3 True = Some ht" using sample_init by blast
  note i = hash_init_ok [OF ht]
  have "2 * (length (hash_entries ht) + length sample_ops) \<le> HT_MAX_SIZE + 2" using i sample_length by (simp add: view_def)
  from run_ops_refine [OF _ this] obtain bs u where u: "run_hash_ops sample_ops ht = Some (bs, u)" "table_ok u"
    "pDestructor u = pDestructor ht" "spec_hash_ops (pDestructor ht) sample_ops (hash_view ht) = (bs, hash_view u)" using i by blast
  have v: "view u = ([(Num 40, ''d''), (Num 41, ''c'')], Some 0, 42)" "destroyed u = [''b'', ''a'']"
    using u(4) i sample_spec by (simp_all add: hash_view_def)
  then have "has_room u" using v by (simp add: view_def has_room_def HT_MAX_SIZE_def)
  then show ?thesis using ht u(1-3) v i by blast
qed

lemma hash_refines_list_witness:
  "\<exists>ht answers u. zend_hash_init 3 True = Some ht \<and> run_hash_ops sample_ops ht = Some (answers, u) \<and> table_ok u
    \<and> answers = [True, True, True, True, True, False]
    \<and> hash_view u = (([(Num 40, ''d''), (Num 41, ''c'')], Some 0, 42), [''b'', ''a''])"
proof -
  obtain ht :: "string hash_table" where ht: "zend_hash_init 3 True = Some ht" using sample_init by blast
  show ?thesis using hash_refines_list [OF ht sample_length] ht sample_spec by auto
qed

text \<open>
  C33. The next free number is never in use: after any history it is behind all numbers that are keys, so that appending
  a value succeeds, at the end of the table, until the largest number is reached; the number wraps at no time.
\<close>

theorem next_number_is_fresh:
  assumes "zend_hash_init n d = Some ht" and "2 * length ops \<le> HT_MAX_SIZE" and "run_hash_ops ops ht = Some (answers, u)"
  shows "nNextFreeElement u \<le> ZEND_LONG_MAX
    \<and> (\<forall>h. Num h \<in> keys_of u \<longrightarrow> sint h < sint (nNextFreeElement u) \<or> nNextFreeElement u = ZEND_LONG_MAX)
    \<and> (nNextFreeElement u < ZEND_LONG_MAX \<longrightarrow> (\<exists>i w. zend_hash_next_index_insert v u = Some (Some i, w)
        \<and> hash_entries w = hash_entries u @ [(Num (nNextFreeElement u), v)] \<and> nNextFreeElement w = nNextFreeElement u + 1))"
proof -
  have i: "table_ok ht" "view ht = ([], None, 0)" "pDestructor ht = d" "destroyed ht = []" using hash_init_ok [OF assms(1)] by blast+
  then have l: "2 * (length (hash_entries ht) + length ops) \<le> HT_MAX_SIZE + 2" using assms(2) by (simp add: view_def)
  have u: "table_ok u" "spec_hash_ops (pDestructor ht) ops (hash_view ht) = (answers, hash_view u)"
    using run_ops_refine [OF i(1) l] assms(3) by auto
  have no: "next_ok (view u)" using next_ops [of "view ht"] u(2) i(2) by (auto simp: hash_view_def ZEND_LONG_MAX_def)
  have "length (hash_entries u) \<le> length ops" using ops_length [of _ ops "[]" None 0] u(2) i(2) by (fastforce simp: hash_view_def view_def)
  then have r: "has_room u" using assms(2) by (simp add: has_room_def)
  let ?K = "Num (nNextFreeElement u)"
  have "\<exists>i w. zend_hash_next_index_insert v u = Some (Some i, w) \<and> hash_entries w = hash_entries u @ [(?K, v)]
      \<and> nNextFreeElement w = nNextFreeElement u + 1" if m: "nNextFreeElement u < ZEND_LONG_MAX"
  proof -
    have k: "?K \<notin> keys_of u" using no m by (auto simp: view_def)
    then have "put_ok ?K v u (zend_hash_next_index_insert v u)" using add_ok(3) [OF u(1) r, of v] by (simp add: add_ok_def)
    then show ?thesis using m k by (auto simp: put_ok_def view_def bump_key_def bump_def update_new)
  qed
  then show ?thesis using no by (simp add: view_def)
qed

text \<open>
  C34. What is put into a table under a text or a number is found under it, everything else as before;
  deleting it again leaves the other entries as they were, in their order.
\<close>

theorem hash_round_trip:
  assumes "table_ok ht" and "has_room ht"
  shows "(\<exists>t u. put_name s v ht = Some t \<and> (\<forall>s'. get_name s' t = (if s' = s then Some (Some v) else get_name s' ht))
      \<and> del_name s t = Some u \<and> table_ok u \<and> hash_entries u = AList.delete (Name s) (hash_entries ht))
    \<and> (\<exists>t u. put_number h v ht = Some t \<and> (\<forall>h'. get_number h' t = (if h' = h then Some (Some v) else get_number h' ht))
      \<and> del_number h t = Some u \<and> table_ok u \<and> hash_entries u = AList.delete (Num h) (hash_entries ht))"
  using hash_names.get_put [OF assms, of s v] hash_names.put_del [OF assms, of s v]
    hash_numbers.get_put [OF assms, of h v] hash_numbers.put_del [OF assms, of h v] by auto

section \<open>Walks\<close>

text \<open>
  C35. Going over a table from its first position to the end gives the entries in the order of insertion, and from its
  last position back in the opposite order, without the holes that deleting left.
\<close>

theorem hash_walk:
  assumes "table_ok ht"
  shows "Option.bind (zend_hash_internal_pointer_reset_ex ht) (\<lambda>p. walk zend_hash_move_forward_ex (Suc (length (hash_entries ht))) p ht)
      = Some (hash_entries ht)
    \<and> Option.bind (zend_hash_internal_pointer_end_ex ht) (\<lambda>p. walk zend_hash_move_backwards_ex (Suc (length (hash_entries ht))) p ht)
      = Some (rev (hash_entries ht))"
proof
  obtain r where r: "next_defined 0 ht = Some r" "position ht r 0" using next_position [OF assms, of 0] by (auto simp: rank_def)
  then show "Option.bind (zend_hash_internal_pointer_reset_ex ht) (\<lambda>p. walk zend_hash_move_forward_ex (Suc (length (hash_entries ht))) p ht)
      = Some (hash_entries ht)" using walk_forward [OF assms r(2)] by (simp add: zend_hash_internal_pointer_reset_ex_def del: walk.simps)
  obtain r where r: "last_defined (nNumUsed ht) ht = Some r"
    "if length (hash_entries ht) = 0 then r = None else r \<noteq> None \<and> position ht r (length (hash_entries ht) - 1)"
    using last_position [OF assms order_refl, folded entries_rank] by blast
  show "Option.bind (zend_hash_internal_pointer_end_ex ht) (\<lambda>p. walk zend_hash_move_backwards_ex (Suc (length (hash_entries ht))) p ht)
      = Some (rev (hash_entries ht))"
  proof (cases "hash_entries ht = []")
    case True
    then show ?thesis using r by (simp add: zend_hash_internal_pointer_end_ex_def)
  next
    case False
    then obtain q where "r = Some q" "position ht (Some q) (length (hash_entries ht) - 1)" using r(2) by auto
    then show ?thesis using walk_backward [OF assms, of q "length (hash_entries ht) - 1"] r(1) False
      by (simp add: zend_hash_internal_pointer_end_ex_def del: walk.simps)
  qed
qed

text \<open>
  C36. Applying a function calls it once for each element, from the first to the last (or from the last to the first), with
  what is then in it; the element changes as the function says, is deleted when it asks for that, with the pointer and
  the destructor as in any deletion, and nothing is called any more after it has asked to stop.
\<close>

theorem hash_apply:
  assumes "table_ok ht"
  shows "(\<exists>u. zend_hash_apply f ht = Some u \<and> table_ok u
      \<and> hash_view u = apply_entries (pDestructor ht) f (map fst (hash_entries ht)) (hash_view ht))
    \<and> (\<exists>u. zend_hash_reverse_apply f ht = Some u \<and> table_ok u
      \<and> hash_view u = apply_entries (pDestructor ht) f (rev (map fst (hash_entries ht))) (hash_view ht))"
  using hash_apply_run [OF assms, of f 0] hash_reverse_run [of ht "nNumUsed ht" f] assms used_bkt [OF assms]
  by (simp add: zend_hash_apply_def zend_hash_reverse_apply_def keys_from_def keys_below_def entries_def hash_entries_def)

section \<open>Rehashing\<close>

lemma table_ok_iterators [simp]: "table_ok (ht\<lparr>iterators := x\<rparr>) = table_ok ht" "view (ht\<lparr>iterators := x\<rparr>) = view ht"
  by (simp_all add: table_ok_def buckets_ok_def packed_ok_def chained_def hash_entries_def view_def cursor_def)

text \<open>
  C37. Rehashing moves the elements together behind the first hole and keeps the entries and the pointer. The iterators
  follow their elements only when none of them stands before the first hole: the position that is looked for is then
  one the loop has passed, no iterator is moved, and those behind the hole stand at other elements, or at none.
\<close>

theorem rehash_leaves_iterators:
  assumes t: "table_ok ht" and i: "initialized ht" "\<not> packed ht"
    and z: "z < nNumUsed ht" "\<not> defined (arData ht) z" "\<forall>q < z. defined (arData ht) q"
    and p: "\<forall>q. Some q \<in> set (iterators ht) \<longrightarrow> q < nNumUsed ht \<and> defined (arData ht) q"
  shows "\<exists>u. zend_hash_rehash ht = Some u \<and> table_ok u \<and> view u = view ht \<and> nNumUsed u = length (hash_entries ht)
    \<and> (\<forall>q < nNumUsed ht. defined (arData ht) q \<longrightarrow> content (arData u) (rank (arData ht) q) = content (arData ht) q)
    \<and> iterators u = (if \<exists>q < z. Some q \<in> set (iterators ht) then iterators ht else map (map_option (rank (arData ht))) (iterators ht))"
proof -
  let ?ar = "arData ht" and ?n = "nNumUsed ht" and ?its = "iterators ht"
  have b: "buckets_ok ht" and l: "length ?ar = nTableSize ht" and m: "nTableMask ht = - of_nat (nTableSize ht)"
    using t i by (simp_all add: table_ok_def chained_def)
  obtain u where u: "zend_hash_rehash ht = Some u" "rehashed ht u" "table_ok u" "view u = view ht" "nNumUsed u = nNumOfElements ht"
    using rehash_ok [OF b i l m] by blast
  have ne: "nNumOfElements ht = rank ?ar ?n" using b by (simp add: buckets_ok_def entries_rank)
  have holes: "rank ?ar ?n \<noteq> ?n"
  proof
    assume "rank ?ar ?n = ?n"
    then have "\<forall>q < ?n. defined ?ar q" using entries_all_defined [of ?ar ?n] by (simp add: rank_def)
    then show False using z(1,2) by blast
  qed
  have mv: "map (moved ?ar ?n) ?its = map (map_option (rank ?ar)) ?its" using p by (intro map_cong refl moved_all) blast
  have "iterators u = (if \<exists>q < z. Some q \<in> set ?its then ?its else map (map_option (rank ?ar)) ?its)"
  proof (cases "nNumOfElements ht = 0")
    case True
    then have "\<not> defined ?ar q" if "q < ?n" for q using rank_less [of ?ar q ?n] that by (auto simp: ne)
    then have none: "x = None" if "x \<in> set ?its" for x using p that by (cases x) auto
    have "map (map_option (rank ?ar)) ?its = ?its" using none by (intro map_idI) auto
    then show ?thesis using u(2) True by (auto simp: rehashed_def)
  next
    case False
    have "positions_ok ?ar ?its" using p by (simp add: positions_ok_def)
    then show ?thesis using u(2) z holes False unfolding rehashed_def mv by auto
  qed
  moreover have "\<forall>q < ?n. defined ?ar q \<longrightarrow> content (arData u) (rank ?ar q) = content ?ar q" using u(2) by (auto simp: rehashed_def)
  ultimately show ?thesis using u(1,3-5) ne by (simp add: entries_rank)
qed

text \<open>Two iterators around a hole, of which the second one ends up behind the table.\<close>

definition hole_ops :: "string hash_op list" where
  "hole_ops = [H_add (Num 100) ''a'', H_add (Num 101) ''b'', H_add (Num 102) ''c'', H_del (Num 101)]"

lemma hole_state: "map_option (\<lambda>r. (initialized (snd r), packed (snd r), map (map_option z_val) (arData (snd r)), nNumUsed (snd r)))
    (Option.bind (zend_hash_init 3 True) (run_hash_ops hole_ops))
  = Some (True, False, [Some (Some ''a''), Some None, Some (Some ''c''), None, None, None, None, None], 3)"
  by code_simp

lemma hole_table:
  "\<exists>t. table_ok t \<and> initialized t \<and> \<not> packed t \<and> nNumUsed t = 3 \<and> defined (arData t) 0 \<and> \<not> defined (arData t) 1 \<and> defined (arData t) 2
    \<and> hash_entries t = [(Num 100, ''a''), (Num 102, ''c'')]"
proof -
  obtain ht :: "string hash_table" where ht: "zend_hash_init 3 True = Some ht" using sample_init by blast
  note i = hash_init_ok [OF ht]
  have "2 * (length (hash_entries ht) + length hole_ops) \<le> HT_MAX_SIZE + 2" using i by (simp add: view_def hole_ops_def HT_MAX_SIZE_def)
  from run_ops_refine [OF _ this] obtain bs u where u: "run_hash_ops hole_ops ht = Some (bs, u)" "table_ok u"
    "spec_hash_ops (pDestructor ht) hole_ops (hash_view ht) = (bs, hash_view u)" using i by blast
  have "hash_entries u = [(Num 100, ''a''), (Num 102, ''c'')]"
    using u(3) i by (simp add: hole_ops_def hash_view_def view_def bump_key_def bump_def ZEND_LONG_MAX_def old_value_def number_of_def)
  moreover have s: "initialized u" "\<not> packed u" "nNumUsed u = 3"
    "map (map_option z_val) (arData u) = [Some (Some ''a''), Some None, Some (Some ''c''), None, None, None, None, None]"
    using hole_state ht u(1) by simp_all
  then obtain a b c where "arData u = [Some a, Some b, Some c, None, None, None, None, None]"
    "z_val a = Some ''a''" "z_val b = None" "z_val c = Some ''c''" by (auto simp: map_eq_Cons_conv)
  then have "defined (arData u) 0" "\<not> defined (arData u) 1" "defined (arData u) 2" by (auto simp: defined_def bkt_def nth_opt_def)
  ultimately show ?thesis using u(2) s(1-3) by blast
qed

lemma rehash_leaves_iterators_witness:
  "\<exists>(t :: string hash_table) u. zend_hash_rehash t = Some u \<and> iterators t = [Some 0, Some 2] \<and> iterators u = [Some 0, Some 2] \<and> nNumUsed u = 2
    \<and> hash_entries u = [(Num 100, ''a''), (Num 102, ''c'')]"
proof -
  obtain t0 :: "string hash_table" where t: "table_ok t0" "initialized t0" "\<not> packed t0" "nNumUsed t0 = 3" "defined (arData t0) 0"
    "\<not> defined (arData t0) 1" "defined (arData t0) 2" "hash_entries t0 = [(Num 100, ''a''), (Num 102, ''c'')]" using hole_table by blast
  let ?t = "t0\<lparr>iterators := [Some 0, Some 2]\<rparr>"
  have e: "hash_entries ?t = hash_entries t0" by (simp add: hash_entries_def)
  have "\<exists>u. zend_hash_rehash ?t = Some u \<and> table_ok u \<and> view u = view ?t \<and> nNumUsed u = length (hash_entries ?t)
    \<and> (\<forall>q < nNumUsed ?t. defined (arData ?t) q \<longrightarrow> content (arData u) (rank (arData ?t) q) = content (arData ?t) q)
    \<and> iterators u = (if \<exists>q < 1. Some q \<in> set (iterators ?t) then iterators ?t else map (map_option (rank (arData ?t))) (iterators ?t))"
    by (rule rehash_leaves_iterators) (use t in auto)
  then obtain u where "zend_hash_rehash ?t = Some u" "view u = view t0" "nNumUsed u = 2" "iterators u = [Some 0, Some 2]" using t(8) e by auto
  then show ?thesis using t(8) by (intro exI [of _ ?t] exI [of _ u]) (simp add: view_def)
qed

section \<open>Witnesses\<close>

lemma next_number_is_fresh_witness:
  "\<exists>(u :: string hash_table) i w. nNextFreeElement u = 42 \<and> zend_hash_next_index_insert ''x'' u = Some (Some i, w)
    \<and> hash_entries w = [(Num 40, ''d''), (Num 41, ''c''), (Num 42, ''x'')] \<and> nNextFreeElement w = 43"
proof -
  obtain ht bs u where s: "zend_hash_init 3 True = Some ht" "run_hash_ops sample_ops ht = Some (bs, u)"
    "view u = ([(Num 40, ''d''), (Num 41, ''c'')], Some 0, 42)" using sample_table by blast
  show ?thesis using next_number_is_fresh [OF s(1) sample_length s(2), of "''x''"] s(3) by (auto simp: view_def ZEND_LONG_MAX_def)
qed

lemma hash_round_trip_witness:
  "\<exists>ht t u. table_ok ht \<and> hash_entries ht = [(Num 40, ''d''), (Num 41, ''c'')] \<and> put_name ''k'' ''v'' ht = Some t \<and> get_name ''k'' t = Some (Some ''v'')
    \<and> del_name ''k'' t = Some u \<and> hash_entries u = [(Num 40, ''d''), (Num 41, ''c'')]"
proof -
  obtain ht :: "string hash_table" where s: "table_ok ht" "has_room ht" "hash_entries ht = [(Num 40, ''d''), (Num 41, ''c'')]"
    using sample_table by (auto simp: view_def)
  from hash_round_trip [OF s(1,2), of "''k''" "''v''" 0] obtain t u where "put_name ''k'' ''v'' ht = Some t" "get_name ''k'' t = Some (Some ''v'')"
    "del_name ''k'' t = Some u" "hash_entries u = AList.delete (Name ''k'') (hash_entries ht)" by auto
  then show ?thesis using s by (intro exI [of _ ht] exI [of _ t] exI [of _ u]) simp
qed

lemma hash_walk_witness:
  "\<exists>ht. hash_entries ht = [(Num 40, ''d''), (Num 41, ''c'')]
    \<and> Option.bind (zend_hash_internal_pointer_end_ex ht) (\<lambda>p. walk zend_hash_move_backwards_ex 3 p ht) = Some [(Num 41, ''c''), (Num 40, ''d'')]"
proof -
  obtain ht :: "string hash_table" where s: "table_ok ht" "hash_entries ht = [(Num 40, ''d''), (Num 41, ''c'')]"
    using sample_table by (auto simp: view_def)
  show ?thesis using hash_walk [OF s(1)] s(2) by (intro exI [of _ ht]) (simp add: numeral_3_eq_3 del: walk.simps)
qed

lemma hash_apply_witness:
  "\<exists>ht u. hash_entries ht = [(Num 40, ''d''), (Num 41, ''c'')]
    \<and> zend_hash_apply (\<lambda>v. (v @ ''!'', if v = ''d'' then ZEND_HASH_APPLY_REMOVE else 0)) ht = Some u
    \<and> hash_view u = (([(Num 41, ''c!'')], Some 0, 42), [''b'', ''a'', ''d!''])"
proof -
  obtain ht :: "string hash_table" where s: "table_ok ht" "view ht = ([(Num 40, ''d''), (Num 41, ''c'')], Some 0, 42)"
    "destroyed ht = [''b'', ''a'']" "pDestructor ht" using sample_table by blast
  have e: "hash_entries ht = [(Num 40, ''d''), (Num 41, ''c'')]" using s(2) by (simp add: view_def)
  show ?thesis using hash_apply [OF s(1), of "\<lambda>v. (v @ ''!'', if v = ''d'' then ZEND_HASH_APPLY_REMOVE else 0)"] e s(2-4)
    by (auto simp: hash_view_def ZEND_HASH_APPLY_REMOVE_def ZEND_HASH_APPLY_STOP_def old_value_def number_of_def)
qed

end
