(* ===== verification/Zend_Hash_Merge.thy ===== *)
theory Zend_Hash_Merge
  imports Zend_Hash_Walk
begin

text \<open>
  Copying one table into another and merging two (Zend/zend_hash.c). The tables are different ones. The copy constructor
  is a function on values, or missing; it is called with the place of the new value, in copying without a look whether
  there is one.
\<close>

section \<open>The operations\<close>

definition copy_constructor :: "('v \<Rightarrow> 'v) option \<Rightarrow> nat option \<Rightarrow> 'v hash_table \<Rightarrow> 'v hash_table option" where
  "copy_constructor ctor e ht =
     (case (ctor, e) of
        (Some f, Some i) \<Rightarrow> do { b \<leftarrow> bucket_at ht i; v \<leftarrow> z_val b; bucket_write i (b\<lparr>z_val := Some (f v)\<rparr>) ht }
      | _ \<Rightarrow> Some ht)"

definition copy_bucket :: "('v \<Rightarrow> 'v) option \<Rightarrow> bool \<Rightarrow> 'v hash_table \<Rightarrow> nat \<Rightarrow> 'v hash_table \<Rightarrow> 'v hash_table option" where
  "copy_bucket ctor setTargetPointer source idx target = do {
     p \<leftarrow> bucket_at source idx;
     (case z_val p of
        None \<Rightarrow> Some target
      | Some v \<Rightarrow> do {
          let target = (if setTargetPointer \<and> nInternalPointer source = Some idx then target\<lparr>nInternalPointer := None\<rparr> else target);
          (e, target) \<leftarrow> (case z_key p of Some key \<Rightarrow> zend_hash_update key v target | None \<Rightarrow> zend_hash_index_update (z_h p) v target);
          if ctor \<noteq> None \<and> e = None then None else copy_constructor ctor e target
        })
   }"

text \<open>The first defined bucket; the loop does not look where the table ends.\<close>

partial_function (option) skip_undef :: "nat \<Rightarrow> 'v hash_table \<Rightarrow> nat option" where
  "skip_undef idx ht = Option.bind (bucket_at ht idx) (\<lambda>b. if z_val b = None then skip_undef (Suc idx) ht else Some idx)"

declare skip_undef.simps [code]

definition point_to_first :: "'v hash_table \<Rightarrow> 'v hash_table option" where
  "point_to_first ht = map_option (\<lambda>idx. ht\<lparr>nInternalPointer := Some idx\<rparr>) (skip_undef 0 ht)"

definition zend_hash_copy :: "('v \<Rightarrow> 'v) option \<Rightarrow> 'v hash_table \<Rightarrow> 'v hash_table \<Rightarrow> 'v hash_table option" where
  "zend_hash_copy ctor source target = do {
     let setTargetPointer = (nInternalPointer target = None);
     target \<leftarrow> for_each (copy_bucket ctor setTargetPointer source) [0..<nNumUsed source] target;
     if nInternalPointer target = None \<and> 0 < nNumOfElements target then point_to_first target else Some target
   }"

definition merge_bucket :: "('v \<Rightarrow> 'v) option \<Rightarrow> bool \<Rightarrow> 'v hash_table \<Rightarrow> nat \<Rightarrow> 'v hash_table \<Rightarrow> 'v hash_table option" where
  "merge_bucket ctor overwrite source idx target = do {
     p \<leftarrow> bucket_at source idx;
     (case z_val p of
        None \<Rightarrow> Some target
      | Some v \<Rightarrow> do {
          (t, target) \<leftarrow>
            (case z_key p of
               Some key \<Rightarrow> zend_hash_add_or_update_i key v (if overwrite then HASH_UPDATE else HASH_ADD) target
             | None \<Rightarrow> if overwrite then zend_hash_index_update (z_h p) v target else zend_hash_index_add (z_h p) v target);
          copy_constructor ctor t target
        })
   }"

definition zend_hash_merge :: "('v \<Rightarrow> 'v) option \<Rightarrow> bool \<Rightarrow> 'v hash_table \<Rightarrow> 'v hash_table \<Rightarrow> 'v hash_table option" where
  "zend_hash_merge ctor overwrite source target = do {
     target \<leftarrow> for_each (merge_bucket ctor overwrite source) [0..<nNumUsed source] target;
     if 0 < nNumOfElements target then point_to_first target else Some target
   }"

section \<open>One element\<close>

definition constructed :: "('v \<Rightarrow> 'v) option \<Rightarrow> 'v \<Rightarrow> 'v" where
  "constructed ctor v = (case ctor of None \<Rightarrow> v | Some f \<Rightarrow> f v)"

lemma construct_ok:
  assumes p: "put_ok K v t r"
  shows "\<exists>e u w. r = Some (e, u) \<and> e \<noteq> None \<and> copy_constructor ctor e u = Some w \<and> table_ok w
    \<and> hash_entries w = AList.update K (constructed ctor v) (hash_entries t)"
proof -
  obtain i u where u: "r = Some (Some i, u)" "table_ok u" "hash_entries u = AList.update K v (hash_entries t)" "at_key u K i"
    using p by (auto simp: put_ok_def view_def)
  show ?thesis
  proof (cases ctor)
    case None
    then show ?thesis using u by (simp add: copy_constructor_def constructed_def)
  next
    case (Some f)
    obtain b x where b: "i < nNumUsed u" "bkt (arData u) i = Some b" "z_val b = Some x" "bucket_key b = K" using u(4) by (auto simp: at_key_def)
    have il: "i < length (arData u)" using b(2) by (rule bkt_length)
    have "map_of (hash_entries u) K = Some x" using found_value [OF u(2), of K "Some i"] u(4) b by (simp add: found_def value_of_def)
    then have x: "x = v" using u(3) by (simp add: update_conv')
    let ?w = "u\<lparr>arData := (arData u)[i := Some (b\<lparr>z_val := Some (f v)\<rparr>)]\<rparr>"
    have "copy_constructor ctor (Some i) u = Some ?w" using Some b il x by (simp add: copy_constructor_def bucket_write_def)
    moreover have "table_ok ?w \<and> hash_entries ?w = AList.update K (f v) (hash_entries u)" using value_update_ok [OF u(2) b(1-3), of "f v"] b(4) by simp
    ultimately show ?thesis using u(1,3) Some by (simp add: constructed_def)
  qed
qed

lemma skip_undef_run: "first_defined (arData ht) i n (Some q) \<Longrightarrow> (\<And>j. j < n \<Longrightarrow> bkt (arData ht) j \<noteq> None) \<Longrightarrow> skip_undef i ht = Some q"
proof (induction "q - i" arbitrary: i)
  case 0
  then have "q = i" "defined (arData ht) i" by (auto simp: first_defined_def)
  then show ?case by (subst skip_undef.simps) (auto simp: defined_def)
next
  case (Suc d)
  then have lt: "i < q" "q < n" by (auto simp: first_defined_def)
  obtain b where b: "bkt (arData ht) i = Some b" using Suc.prems(2) [of i] lt by auto
  have "z_val b = None" using Suc.prems(1) lt b by (auto simp: first_defined_def defined_def)
  moreover have "first_defined (arData ht) (Suc i) n (Some q)" using Suc.prems(1) lt by (auto simp: first_defined_def)
  then have "skip_undef (Suc i) ht = Some q" using Suc.hyps(1) [of "Suc i"] Suc.hyps(2) Suc.prems(2) by simp
  ultimately show ?case using b by (subst skip_undef.simps) simp
qed

lemma pointer_simps [simp]:
  "packed_ok (ht\<lparr>nInternalPointer := x\<rparr>) = packed_ok ht" "chained (ht\<lparr>nInternalPointer := x\<rparr>) = chained ht"
  "hash_entries (ht\<lparr>nInternalPointer := x\<rparr>) = hash_entries ht"
  by (simp_all add: packed_ok_def chained_def hash_entries_def)

lemma pointer_ok:
  "table_ok ht \<Longrightarrow> (\<And>q. x = Some q \<Longrightarrow> q < nNumUsed ht \<and> defined (arData ht) q) \<Longrightarrow> table_ok (ht\<lparr>nInternalPointer := x\<rparr>)"
  by (cases "initialized ht"; cases x) (simp_all add: table_ok_def buckets_ok_def keys_fit_def)

lemma point_ok:
  assumes t: "table_ok ht" and n: "0 < nNumOfElements ht"
  shows "\<exists>u. point_to_first ht = Some u \<and> table_ok u \<and> hash_entries u = hash_entries ht \<and> cursor u = Some 0"
proof -
  have b: "buckets_ok ht" using t by (simp add: table_ok_def)
  obtain r where r: "first_defined (arData ht) 0 (nNumUsed ht) r" using next_defined_run [of ht 0] used_bkt [OF t] by blast
  have ne: "hash_entries ht \<noteq> []" using n b by (auto simp: buckets_ok_def)
  have "r \<noteq> None"
  proof
    assume "r = None"
    then have "entries (arData ht) (nNumUsed ht) = entries (arData ht) 0" using r by (intro entries_gap) (auto simp: first_defined_def)
    then show False using ne by (simp add: hash_entries_def)
  qed
  then obtain q where q: "r = Some q" by blast
  have d: "q < nNumUsed ht" "defined (arData ht) q" "rank (arData ht) q = 0"
    using r q rank_gap [of 0 q "arData ht"] by (auto simp: first_defined_def rank_def)
  let ?u = "ht\<lparr>nInternalPointer := Some q\<rparr>"
  have "point_to_first ht = Some ?u" using skip_undef_run [of ht 0 "nNumUsed ht" q] r q used_bkt [OF t] by (simp add: point_to_first_def)
  moreover have "table_ok ?u" using t d(1,2) by (intro pointer_ok) auto
  ultimately show ?thesis using d(3) by (simp add: cursor_def)
qed

section \<open>All elements\<close>

text \<open>What a table is after the entries of another one have come to it.\<close>

definition united :: "('v \<Rightarrow> 'v) option \<Rightarrow> bool \<Rightarrow> (hash_key \<times> 'v) list \<Rightarrow> (hash_key \<times> 'v) list \<Rightarrow> (hash_key \<times> 'v) list \<Rightarrow> bool" where
  "united ctor overwrite es new us \<longleftrightarrow>
     map fst us = map fst es @ filter (\<lambda>K. K \<notin> fst ` set es) (map fst new)
     \<and> (\<forall>K. map_of us K = (if K \<in> fst ` set new \<and> (overwrite \<or> K \<notin> fst ` set es) then map_option (constructed ctor) (map_of new K) else map_of es K))"

lemma united_Nil: "united ctor overwrite es [] es"
  by (simp add: united_def)

lemma united_keys: "united ctor ow es new us \<Longrightarrow> fst ` set us = fst ` set es \<union> fst ` set new"
proof -
  assume "united ctor ow es new us"
  then have "set (map fst us) = set (map fst es @ filter (\<lambda>K. K \<notin> fst ` set es) (map fst new))" by (simp only: united_def)
  then show ?thesis by auto
qed

lemma united_put:
  assumes u: "united ctor ow es new us" and K: "K \<notin> fst ` set new" and o: "ow \<or> K \<notin> fst ` set es"
  shows "united ctor ow es (new @ [(K, v)]) (AList.update K (constructed ctor v) us)"
proof -
  have k: "K \<in> set (map fst us) \<longleftrightarrow> K \<in> fst ` set es" using united_keys [OF u] K by auto
  have "map fst (AList.update K (constructed ctor v) us) = map fst es @ filter (\<lambda>K. K \<notin> fst ` set es) (map fst (new @ [(K, v)]))"
    using u k unfolding update_keys united_def by auto
  moreover have "map_of (AList.update K (constructed ctor v) us) L = (if L \<in> fst ` set (new @ [(K, v)]) \<and> (ow \<or> L \<notin> fst ` set es)
      then map_option (constructed ctor) (map_of (new @ [(K, v)]) L) else map_of es L)" for L
  proof (cases "L = K")
    case True
    have "map_of new K = None" using K by (simp add: map_of_eq_None_iff)
    then show ?thesis using True o by (simp add: update_conv' map_add_def)
  next
    case False
    then show ?thesis using u by (auto simp: update_conv' united_def map_add_def split: option.split)
  qed
  ultimately show ?thesis by (simp add: united_def)
qed

lemma united_skip:
  assumes u: "united ctor ow es new us" and "K \<notin> fst ` set new" and "\<not> ow" and "K \<in> fst ` set es"
  shows "united ctor ow es (new @ [(K, v)]) us"
  using assms by (auto simp: united_def map_add_def split: option.splits)

text \<open>After the buckets before \<open>k\<close> of the source.\<close>

definition united_to :: "('v \<Rightarrow> 'v) option \<Rightarrow> bool \<Rightarrow> 'v hash_table \<Rightarrow> 'v hash_table \<Rightarrow> nat \<Rightarrow> 'v hash_table \<Rightarrow> bool" where
  "united_to ctor ow target source k t \<longleftrightarrow>
     table_ok t \<and> united ctor ow (hash_entries target) (entries (arData source) k) (hash_entries t)"

lemma united_room:
  assumes s: "table_ok source" and r: "2 * (length (hash_entries target) + length (hash_entries source)) \<le> HT_MAX_SIZE"
    and u: "united_to ctor ow target source k t" and k: "k \<le> nNumUsed source"
  shows "has_room t"
proof -
  have "length (map fst (hash_entries t)) \<le> length (hash_entries target) + length (entries (arData source) k)"
    using u length_filter_le [of "\<lambda>K. K \<notin> fst ` set (hash_entries target)" "map fst (entries (arData source) k)"]
    by (simp add: united_to_def united_def)
  moreover have "length (entries (arData source) k) \<le> length (hash_entries source)" using rank_mono [OF k, of "arData source"] by (simp add: rank_def hash_entries_def)
  ultimately show ?thesis using r by (simp add: has_room_def)
qed

lemma source_bucket:
  assumes s: "table_ok source" and k: "k < nNumUsed source" and b: "bkt (arData source) k = Some b" "z_val b = Some v"
  shows "entries (arData source) (Suc k) = entries (arData source) k @ [(bucket_key b, v)]"
    and "bucket_key b \<notin> fst ` set (entries (arData source) k)"
proof -
  show e: "entries (arData source) (Suc k) = entries (arData source) k @ [(bucket_key b, v)]" using b by (simp add: entries_Suc entry_Some)
  have "hash_entries source = entries (arData source) k @ (bucket_key b, v) # concat (map (entry (arData source)) [Suc k..<nNumUsed source])"
    using entries_split [OF k, of "arData source"] entry_Some [OF b] by (simp add: hash_entries_def)
  moreover have "distinct (map fst (hash_entries source))" using s by (simp add: table_ok_def buckets_ok_def)
  ultimately show "bucket_key b \<notin> fst ` set (entries (arData source) k)" by auto
qed

lemma united_replace:
  assumes u: "united_to ctor ow target source k t" and s: "table_ok source" and k: "k < nNumUsed source"
    and b: "bkt (arData source) k = Some b" "z_val b = Some v" and o: "ow \<or> bucket_key b \<notin> keys_of target" and p: "put_ok (bucket_key b) v t r"
  shows "\<exists>e g w. r = Some (e, g) \<and> e \<noteq> None \<and> copy_constructor ctor e g = Some w \<and> united_to ctor ow target source (Suc k) w"
proof -
  obtain e g w where w: "r = Some (e, g)" "e \<noteq> None" "copy_constructor ctor e g = Some w" "table_ok w"
    "hash_entries w = AList.update (bucket_key b) (constructed ctor v) (hash_entries t)" using construct_ok [OF p] by blast
  have "united ctor ow (hash_entries target) (entries (arData source) (Suc k)) (hash_entries w)"
    unfolding source_bucket(1) [OF s k b] w(5) using u source_bucket(2) [OF s k b] o by (intro united_put) (simp_all add: united_to_def)
  then show ?thesis using w(1-4) by (simp add: united_to_def)
qed

lemma united_hole:
  assumes "united_to ctor ow target source k t" and "bkt (arData source) k = Some b" and "z_val b = None"
  shows "united_to ctor ow target source (Suc k) t"
proof -
  have "entry (arData source) k = []" using assms by (simp add: entry_def)
  then show ?thesis using assms(1) by (simp add: united_to_def entries_Suc)
qed

lemma united_pointer: "united_to ctor ow target source k t \<Longrightarrow> united_to ctor ow target source k (t\<lparr>nInternalPointer := None\<rparr>)"
  using pointer_ok [of t None] by (simp add: united_to_def)

lemma room_pointer [simp]: "has_room (t\<lparr>nInternalPointer := x\<rparr>) = has_room t"
  by (simp add: has_room_def)

lemma copy_step:
  assumes s: "table_ok source" and r: "2 * (length (hash_entries target) + length (hash_entries source)) \<le> HT_MAX_SIZE"
    and u: "united_to ctor True target source k t" and k: "k < nNumUsed source"
  shows "\<exists>t'. copy_bucket ctor sp source k t = Some t' \<and> united_to ctor True target source (Suc k) t'"
proof -
  obtain b where b: "bkt (arData source) k = Some b" using used_bkt [OF s k] by blast
  show ?thesis
  proof (cases "z_val b")
    case None
    then show ?thesis using b united_hole [OF u b] by (simp add: copy_bucket_def)
  next
    case (Some v)
    let ?t = "if sp \<and> nInternalPointer source = Some k then t\<lparr>nInternalPointer := None\<rparr> else t"
    have ut: "united_to ctor True target source k ?t" using u united_pointer [OF u] by simp
    then have t: "table_ok ?t" by (simp add: united_to_def)
    have rt: "has_room ?t" using united_room [OF s r u] k by simp
    let ?r = "case z_key b of Some key \<Rightarrow> zend_hash_update key v ?t | None \<Rightarrow> zend_hash_index_update (z_h b) v ?t"
    have run: "copy_bucket ctor sp source k t = Option.bind ?r (\<lambda>(e, g). if ctor \<noteq> None \<and> e = None then None else copy_constructor ctor e g)"
      using b Some by (simp add: copy_bucket_def Let_def)
    have "put_ok (bucket_key b) v ?t ?r"
      using update_ok(1) [OF t rt] update_ok(2) [OF t rt] by (cases "z_key b") (simp_all add: bucket_key_def)
    from united_replace [OF ut s k b Some disjI1 [OF TrueI] this] obtain e g w where
      e: "?r = Some (e, g)" "e \<noteq> None" "copy_constructor ctor e g = Some w" "united_to ctor True target source (Suc k) w" by blast
    show ?thesis unfolding run e(1) using e(2-4) by simp
  qed
qed

lemma merge_step:
  assumes s: "table_ok source" and r: "2 * (length (hash_entries target) + length (hash_entries source)) \<le> HT_MAX_SIZE"
    and u: "united_to ctor ow target source k t" and k: "k < nNumUsed source"
  shows "\<exists>t'. merge_bucket ctor ow source k t = Some t' \<and> united_to ctor ow target source (Suc k) t'"
proof -
  obtain b where b: "bkt (arData source) k = Some b" using used_bkt [OF s k] by blast
  have t: "table_ok t" using u by (simp add: united_to_def)
  have rt: "has_room t" using united_room [OF s r u] k by simp
  show ?thesis
  proof (cases "z_val b")
    case None
    then show ?thesis using b united_hole [OF u b] by (simp add: merge_bucket_def)
  next
    case (Some v)
    let ?r = "case z_key b of
               Some key \<Rightarrow> zend_hash_add_or_update_i key v (if ow then HASH_UPDATE else HASH_ADD) t
             | None \<Rightarrow> if ow then zend_hash_index_update (z_h b) v t else zend_hash_index_add (z_h b) v t"
    have run: "merge_bucket ctor ow source k t = Option.bind ?r (\<lambda>(e, g). copy_constructor ctor e g)"
      using b Some by (simp add: merge_bucket_def)
    show ?thesis
    proof (cases ow)
      case True
      have "put_ok (bucket_key b) v t ?r"
        using update_ok(1) [OF t rt] update_ok(2) [OF t rt] True by (cases "z_key b") (simp_all add: bucket_key_def zend_hash_update_def)
      from united_replace [OF u s k b Some disjI1 [OF True] this] obtain e g w where
          e: "?r = Some (e, g)" "copy_constructor ctor e g = Some w" "united_to ctor ow target source (Suc k) w" by blast
        show ?thesis unfolding run e(1) using e(2,3) by simp
    next
      case False
      have a: "add_ok (bucket_key b) v t ?r"
        using add_ok(1,2) [OF t rt] False by (cases "z_key b") (simp_all add: bucket_key_def zend_hash_add_def)
      have "united ctor ow (hash_entries target) (entries (arData source) k) (hash_entries t)" using u by (simp add: united_to_def)
      note uk = united_keys [OF this]
      have kt: "bucket_key b \<in> keys_of t \<longleftrightarrow> bucket_key b \<in> keys_of target"
        unfolding uk using source_bucket(2) [OF s k b Some] by blast
      show ?thesis
      proof (cases "bucket_key b \<in> keys_of target")
        case True
        then have "?r = Some (None, t)" using a kt by (simp add: add_ok_def)
        moreover have "copy_constructor ctor None t = Some t" by (simp add: copy_constructor_def split: option.split)
        moreover have "united_to ctor ow target source (Suc k) t"
          using united_skip [OF _ source_bucket(2) [OF s k b Some] False True] u t unfolding united_to_def source_bucket(1) [OF s k b Some] by blast
        ultimately show ?thesis unfolding run by simp
      next
        case new: False
        then have "put_ok (bucket_key b) v t ?r" using a kt by (simp add: add_ok_def)
        from united_replace [OF u s k b Some disjI2 [OF new] this] obtain e g w where
          e: "?r = Some (e, g)" "copy_constructor ctor e g = Some w" "united_to ctor ow target source (Suc k) w" by blast
        show ?thesis unfolding run e(1) using e(2,3) by simp
      qed
    qed
  qed
qed

lemma united_start: "table_ok target \<Longrightarrow> united_to ctor ow target source 0 target"
  by (simp add: united_to_def united_Nil)

lemma merge_run:
  assumes t: "table_ok target" and s: "table_ok source" and r: "2 * (length (hash_entries target) + length (hash_entries source)) \<le> HT_MAX_SIZE"
  shows "\<exists>u. zend_hash_merge ctor ow source target = Some u \<and> table_ok u
    \<and> united ctor ow (hash_entries target) (hash_entries source) (hash_entries u) \<and> (hash_entries u \<noteq> [] \<longrightarrow> cursor u = Some 0)"
proof -
  have "\<exists>w. for_each (merge_bucket ctor ow source) [0..<nNumUsed source] target = Some w \<and> united_to ctor ow target source (nNumUsed source) w"
    by (rule for_each_upt [where P = "united_to ctor ow target source"]) (use united_start [OF t] merge_step [OF s r] in auto)
  then obtain w where w: "for_each (merge_bucket ctor ow source) [0..<nNumUsed source] target = Some w" "table_ok w"
    "united ctor ow (hash_entries target) (hash_entries source) (hash_entries w)" by (auto simp: united_to_def hash_entries_def)
  have n: "nNumOfElements w = length (hash_entries w)" using w(2) by (simp add: table_ok_def buckets_ok_def)
  show ?thesis
  proof (cases "0 < nNumOfElements w")
    case True
    from point_ok [OF w(2) True] show ?thesis using w(1,3) True by (auto simp: zend_hash_merge_def)
  next
    case False
    then show ?thesis using w n by (simp add: zend_hash_merge_def)
  qed
qed

lemma hash_copy_run:
  assumes t: "table_ok target" and s: "table_ok source" and r: "2 * (length (hash_entries target) + length (hash_entries source)) \<le> HT_MAX_SIZE"
  shows "\<exists>u. zend_hash_copy ctor source target = Some u \<and> table_ok u
    \<and> united ctor True (hash_entries target) (hash_entries source) (hash_entries u) \<and> (hash_entries u \<noteq> [] \<longrightarrow> cursor u \<noteq> None)"
proof -
  let ?f = "copy_bucket ctor (nInternalPointer target = None) source"
  have "\<exists>w. for_each ?f [0..<nNumUsed source] target = Some w \<and> united_to ctor True target source (nNumUsed source) w"
    by (rule for_each_upt [where P = "united_to ctor True target source"]) (use united_start [OF t] copy_step [OF s r] in auto)
  then obtain w where w: "for_each ?f [0..<nNumUsed source] target = Some w" "table_ok w"
    "united ctor True (hash_entries target) (hash_entries source) (hash_entries w)" by (auto simp: united_to_def hash_entries_def)
  have n: "nNumOfElements w = length (hash_entries w)" using w(2) by (simp add: table_ok_def buckets_ok_def)
  show ?thesis
  proof (cases "nInternalPointer w = None \<and> 0 < nNumOfElements w")
    case True
    then have "0 < nNumOfElements w" by simp
    from point_ok [OF w(2) this] show ?thesis using w(1,3) True by (auto simp: zend_hash_copy_def)
  next
    case False
    then show ?thesis using w n by (auto simp: zend_hash_copy_def cursor_def)
  qed
qed

end
