(* ===== verification/Zend_Hash_Compare.thy ===== *)
theory Zend_Hash_Compare
  imports Zend_Hash_Merge C_Strings
begin

text \<open>Comparing two hash tables, as lists of entries or as maps, and the least and greatest element (Zend/zend_hash.c).\<close>

section \<open>The operations\<close>

definition memcmp :: "string \<Rightarrow> string \<Rightarrow> nat \<Rightarrow> int" where
  "memcmp a b n = bytes_cmp (take n a) (take n b)"

text \<open>Two keys in an ordered comparison; 0 when the values are looked at.\<close>

definition compare_keys :: "'v zbucket \<Rightarrow> 'v zbucket \<Rightarrow> int" where
  "compare_keys p1 p2 =
     (case (z_key p1, z_key p2) of
        (None, None) \<Rightarrow> if z_h p1 \<noteq> z_h p2 then (if z_h p2 < z_h p1 then 1 else - 1) else 0
      | (Some k1, Some k2) \<Rightarrow> if length k1 \<noteq> length k2 then (if length k2 < length k1 then 1 else - 1) else memcmp k1 k2 (length k1)
      | (Some _, None) \<Rightarrow> 1
      | (None, Some _) \<Rightarrow> - 1)"

text \<open>Running into the end of the second table is the failed assertion.\<close>

definition next_second :: "nat \<Rightarrow> 'v hash_table \<Rightarrow> nat option" where
  "next_second idx2 ht2 = Option.bind (next_defined idx2 ht2) (\<lambda>x. x)"

fun compare_loop :: "('v \<Rightarrow> 'v \<Rightarrow> int) \<Rightarrow> bool \<Rightarrow> 'v hash_table \<Rightarrow> 'v hash_table \<Rightarrow> nat list \<Rightarrow> nat \<Rightarrow> int option" where
  "compare_loop compar ordered ht1 ht2 [] idx2 = Some 0"
| "compare_loop compar ordered ht1 ht2 (idx1 # rest) idx2 = do {
     p1 \<leftarrow> bucket_at ht1 idx1;
     (case z_val p1 of
        None \<Rightarrow> compare_loop compar ordered ht1 ht2 rest idx2
      | Some data1 \<Rightarrow>
          if ordered
          then do {
            j \<leftarrow> next_second idx2 ht2;
            p2 \<leftarrow> bucket_at ht2 j;
            if compare_keys p1 p2 \<noteq> 0 then Some (compare_keys p1 p2)
            else do {
              data2 \<leftarrow> z_val p2;
              if compar data1 data2 \<noteq> 0 then Some (compar data1 data2) else compare_loop compar ordered ht1 ht2 rest (j + 1)
            }
          }
          else do {
            pos \<leftarrow> (case z_key p1 of None \<Rightarrow> zend_hash_index_find (z_h p1) ht2 | Some key \<Rightarrow> zend_hash_find key ht2);
            x \<leftarrow> value_of ht2 pos;
            (case x of
               None \<Rightarrow> Some 1
             | Some data2 \<Rightarrow>
                 if compar data1 data2 \<noteq> 0 then Some (compar data1 data2) else compare_loop compar ordered ht1 ht2 rest idx2)
          })
   }"

definition zend_hash_compare :: "('v \<Rightarrow> 'v \<Rightarrow> int) \<Rightarrow> bool \<Rightarrow> 'v hash_table \<Rightarrow> 'v hash_table \<Rightarrow> int option" where
  "zend_hash_compare compar ordered ht1 ht2 =
     (if nNumOfElements ht1 \<noteq> nNumOfElements ht2 then Some (if nNumOfElements ht2 < nNumOfElements ht1 then 1 else - 1)
      else compare_loop compar ordered ht1 ht2 [0..<nNumUsed ht1] 0)"

text \<open>The least element, or with a flag the greatest; the comparison function sees the buckets.\<close>

definition better :: "('v zbucket \<Rightarrow> 'v zbucket \<Rightarrow> int) \<Rightarrow> bool \<Rightarrow> 'v hash_table \<Rightarrow> nat \<Rightarrow> nat \<Rightarrow> nat option" where
  "better compar flag ht idx res = do {
     p \<leftarrow> bucket_at ht idx;
     if z_val p = None then Some res
     else do {
       r \<leftarrow> bucket_at ht res;
       Some (if (if flag then compar r p < 0 else 0 < compar r p) then idx else res)
     }
   }"

definition zend_hash_minmax :: "('v zbucket \<Rightarrow> 'v zbucket \<Rightarrow> int) \<Rightarrow> bool \<Rightarrow> 'v hash_table \<Rightarrow> nat option option" where
  "zend_hash_minmax compar flag ht =
     (if nNumOfElements ht = 0 then Some None
      else do {
        x \<leftarrow> next_defined 0 ht;
        (case x of None \<Rightarrow> Some None
         | Some idx \<Rightarrow> map_option Some (for_each (better compar flag ht) [idx..<nNumUsed ht] idx))
      })"

section \<open>Comparing\<close>

lemma bytes_cmp_same: "length a = length b \<Longrightarrow> bytes_cmp a b = 0 \<longleftrightarrow> a = b"
proof (induction a b rule: bytes_cmp.induct)
  case (4 c cs d ds)
  have "(of_char c :: int) = of_char d \<longleftrightarrow> c = d" by (simp add: of_char_eq_iff)
  then show ?case using 4 by auto
qed simp_all

lemma compare_keys_0: "compare_keys p1 p2 = 0 \<longleftrightarrow> bucket_key p1 = bucket_key p2"
proof (cases "z_key p1")
  case None
  then show ?thesis by (cases "z_key p2") (auto simp: compare_keys_def bucket_key_def)
next
  case (Some a)
  then show ?thesis
    by (cases "z_key p2") (auto simp: compare_keys_def bucket_key_def memcmp_def bytes_cmp_same)
qed

text \<open>What it means that the rest of the first table is the same as that of the second.\<close>

definition same_list :: "('v \<Rightarrow> 'v \<Rightarrow> int) \<Rightarrow> (hash_key \<times> 'v) list \<Rightarrow> (hash_key \<times> 'v) list \<Rightarrow> bool" where
  "same_list compar es fs \<longleftrightarrow> list_all2 (\<lambda>(K, v) (L, w). K = L \<and> compar v w = 0) es fs"

definition same_map :: "('v \<Rightarrow> 'v \<Rightarrow> int) \<Rightarrow> (hash_key \<times> 'v) list \<Rightarrow> (hash_key \<times> 'v) list \<Rightarrow> bool" where
  "same_map compar es fs \<longleftrightarrow> (\<forall>(K, v) \<in> set es. \<exists>w. map_of fs K = Some w \<and> compar v w = 0)"

definition rest_of :: "'v hash_table \<Rightarrow> nat \<Rightarrow> (hash_key \<times> 'v) list" where
  "rest_of ht i = concat (map (entry (arData ht)) [i..<nNumUsed ht])"

lemma rest_hole: "i < nNumUsed ht \<Longrightarrow> \<not> defined (arData ht) i \<Longrightarrow> rest_of ht i = rest_of ht (Suc i)"
  by (simp add: rest_of_def upt_conv_Cons entry_nil)

lemma rest_Cons: "i < nNumUsed ht \<Longrightarrow> bkt (arData ht) i = Some b \<Longrightarrow> z_val b = Some v \<Longrightarrow> rest_of ht i = (bucket_key b, v) # rest_of ht (Suc i)"
  by (simp add: rest_of_def upt_conv_Cons entry_Some)

lemma rest_gap: "i \<le> j \<Longrightarrow> j \<le> nNumUsed ht \<Longrightarrow> (\<And>q. i \<le> q \<Longrightarrow> q < j \<Longrightarrow> \<not> defined (arData ht) q) \<Longrightarrow> rest_of ht i = rest_of ht j"
proof (induction "j - i" arbitrary: i)
  case (Suc d)
  then have "rest_of ht i = rest_of ht (Suc i)" by (intro rest_hole) auto
  also have "\<dots> = rest_of ht j" using Suc by (intro Suc.hyps(1)) auto
  finally show ?case .
qed simp

lemma rest_end: "nNumUsed ht \<le> i \<Longrightarrow> rest_of ht i = []"
  by (simp add: rest_of_def)

lemma second_run:
  assumes t: "table_ok ht2" and r: "rest_of ht2 i2 = (L, w) # es"
  shows "\<exists>j b. next_second i2 ht2 = Some j \<and> bkt (arData ht2) j = Some b \<and> z_val b = Some w \<and> bucket_key b = L \<and> rest_of ht2 (Suc j) = es"
proof -
  obtain x where x: "next_defined i2 ht2 = Some x" "first_defined (arData ht2) i2 (nNumUsed ht2) x"
    using next_defined_run [of ht2 i2] used_bkt [OF t] by blast
  have i: "i2 < nNumUsed ht2" using r rest_end [of ht2 i2] by (cases "nNumUsed ht2 \<le> i2") auto
  show ?thesis
  proof (cases x)
    case None
    then have "rest_of ht2 i2 = rest_of ht2 (nNumUsed ht2)" using x(2) i by (intro rest_gap) (auto simp: first_defined_def)
    also have "\<dots> = []" by (rule rest_end) simp
    finally show ?thesis using r by simp
  next
    case (Some j)
    then have j: "i2 \<le> j" "j < nNumUsed ht2" "defined (arData ht2) j" "\<forall>q. i2 \<le> q \<and> q < j \<longrightarrow> \<not> defined (arData ht2) q"
      using x(2) by (simp_all add: first_defined_def)
    obtain b v where b: "bkt (arData ht2) j = Some b" "z_val b = Some v" using j(3) by (auto simp: defined_def)
    have "rest_of ht2 i2 = rest_of ht2 j" using j by (intro rest_gap) auto
    also have "\<dots> = (bucket_key b, v) # rest_of ht2 (Suc j)" using rest_Cons [OF j(2) b] .
    finally show ?thesis using r b x(1) Some by (auto simp: next_second_def)
  qed
qed

lemma find_value:
  assumes t: "table_ok ht2"
  shows "Option.bind (case z_key p of None \<Rightarrow> zend_hash_index_find (z_h p) ht2 | Some key \<Rightarrow> zend_hash_find key ht2) (value_of ht2)
    = Some (map_of (hash_entries ht2) (bucket_key p))"
proof (cases "z_key p")
  case None
  then show ?thesis using index_find_run [OF t, of "z_h p"] found_value [OF t] by (auto simp: bucket_key_def)
next
  case (Some k)
  then show ?thesis using find_run [OF t, of k] found_value [OF t] by (auto simp: bucket_key_def zend_hash_find_def)
qed

lemma compare_run:
  assumes t1: "table_ok ht1" and t2: "table_ok ht2"
  shows "i \<le> nNumUsed ht1 \<Longrightarrow> (ordered \<Longrightarrow> length (rest_of ht1 i) = length (rest_of ht2 i2))
    \<Longrightarrow> \<exists>r. compare_loop compar ordered ht1 ht2 [i..<nNumUsed ht1] i2 = Some r
      \<and> (r = 0 \<longleftrightarrow> (if ordered then same_list compar (rest_of ht1 i) (rest_of ht2 i2) else same_map compar (rest_of ht1 i) (hash_entries ht2)))"
proof (induction "nNumUsed ht1 - i" arbitrary: i i2)
  case 0
  then show ?case by (simp add: rest_end same_list_def same_map_def)
next
  case (Suc d)
  then have lt: "i < nNumUsed ht1" by simp
  obtain b where b: "bkt (arData ht1) i = Some b" using used_bkt [OF t1 lt] by blast
  have up: "[i..<nNumUsed ht1] = i # [Suc i..<nNumUsed ht1]" using lt by (rule upt_conv_Cons)
  show ?case
  proof (cases "z_val b")
    case None
    then have r: "rest_of ht1 i = rest_of ht1 (Suc i)" using b by (intro rest_hole lt) (simp add: defined_def)
    have l: "compare_loop compar ordered ht1 ht2 [i..<nNumUsed ht1] i2 = compare_loop compar ordered ht1 ht2 [Suc i..<nNumUsed ht1] i2"
      unfolding up using b None by simp
    show ?thesis unfolding l r by (rule Suc.hyps(1)) (use Suc.hyps(2) Suc.prems(2) lt r in auto)
  next
    case (Some v)
    have r: "rest_of ht1 i = (bucket_key b, v) # rest_of ht1 (Suc i)" using rest_Cons [OF lt b Some] .
    show ?thesis
    proof (cases ordered)
      case True
      then obtain L w es where e: "rest_of ht2 i2 = (L, w) # es" using Suc.prems(2) r by (cases "rest_of ht2 i2") auto
      obtain j c where j: "next_second i2 ht2 = Some j" "bkt (arData ht2) j = Some c" "z_val c = Some w" "bucket_key c = L" "rest_of ht2 (Suc j) = es"
        using second_run [OF t2 e] by blast
      show ?thesis
      proof (cases "compare_keys b c = 0 \<and> compar v w = 0")
        case False
        then show ?thesis using True b Some j r e compare_keys_0 [of b c] unfolding up by (auto simp: same_list_def)
      next
        case same: True
        have "length (rest_of ht1 (Suc i)) = length (rest_of ht2 (Suc j))" using Suc.prems(2) True r e j(5) by simp
        then show ?thesis using Suc.hyps(1) [of "Suc i" "Suc j"] Suc.hyps(2) lt True same b Some j r e compare_keys_0 [of b c] unfolding up
          by (simp add: same_list_def)
      qed
    next
      case False
      let ?x = "map_of (hash_entries ht2) (bucket_key b)"
      have run: "compare_loop compar ordered ht1 ht2 [i..<nNumUsed ht1] i2
        = (case ?x of None \<Rightarrow> Some 1 | Some w \<Rightarrow> if compar v w \<noteq> 0 then Some (compar v w) else compare_loop compar ordered ht1 ht2 [Suc i..<nNumUsed ht1] i2)"
        using False b Some find_value [OF t2, of b] unfolding up by (auto simp: Option.bind_assoc split: bind_splits option.splits)
      show ?thesis
      proof (cases "\<exists>w. ?x = Some w \<and> compar v w = 0")
        case True
        then show ?thesis using run Suc.hyps(1) [of "Suc i" i2] Suc.hyps(2) lt False r by (auto simp: same_map_def)
      next
        case differ: False
        then show ?thesis using run False r by (cases ?x) (auto simp: same_map_def)
      qed
    qed
  qed
qed

end
