(* ===== verification/Zend_Hash_Sort.thy ===== *)
theory Zend_Hash_Sort
  imports Zend_Hash_Merge Zend_Sort_Lemmas
begin

text \<open>
  Sorting a hash table (\<open>zend_hash_sort_ex\<close> in Zend/zend_hash.c): the holes are closed, the buckets are sorted where they
  are, and the table gets its chains or its new numbers. The sort function is a parameter, as in the code (locale \<open>sorter\<close>).
\<close>

section \<open>The operations\<close>

text \<open>
  What the swap function exchanges of two buckets: all but the chain (the keys of a packed table, which are \<open>NULL\<close>, may
  stay), or with new numbers the value only. The sort function sorts that; a comparison function that is used with new numbers looks at values only, so that the key is left out.
\<close>

type_synonym 'v contents = "64 word \<times> string option \<times> 'v option"

definition moving :: "bool \<Rightarrow> 'v zbucket \<Rightarrow> 'v contents" where
  "moving renumber b = (if renumber then (0, None, z_val b) else (z_h b, z_key b, z_val b))"

definition put_moved :: "bool \<Rightarrow> 'v contents \<Rightarrow> 'v zbucket \<Rightarrow> 'v zbucket" where
  "put_moved renumber c b = (case c of (h, k, v) \<Rightarrow> if renumber then b\<lparr>z_val := v\<rparr> else b\<lparr>z_h := h, z_key := k, z_val := v\<rparr>)"

definition close_hole :: "nat \<Rightarrow> nat \<times> 'v hash_table \<Rightarrow> (nat \<times> 'v hash_table) option" where
  "close_hole j s = (case s of (i, ht) \<Rightarrow> do {
     p \<leftarrow> bucket_at ht j;
     if z_val p = None then Some (i, ht)
     else do {
       ht \<leftarrow> (if i \<noteq> j then bucket_write i p ht else Some ht);
       Some (i + 1, ht)
     }
   })"

definition close_holes :: "'v hash_table \<Rightarrow> (nat \<times> 'v hash_table) option" where
  "close_holes ht = (if HT_IS_WITHOUT_HOLES ht then Some (nNumUsed ht, ht) else for_each close_hole [0..<nNumUsed ht] (0, ht))"

fun all_buckets :: "'v hash_table \<Rightarrow> nat list \<Rightarrow> 'v zbucket list option" where
  "all_buckets ht [] = Some []"
| "all_buckets ht (i # is) = do { b \<leftarrow> bucket_at ht i; map_option (Cons b) (all_buckets ht is) }"

definition sort_buckets :: "(('v contents \<Rightarrow> 'v contents \<Rightarrow> int) \<Rightarrow> nat \<Rightarrow> nat \<Rightarrow> 'v contents list \<Rightarrow> 'v contents list option)
    \<Rightarrow> ('v contents \<Rightarrow> 'v contents \<Rightarrow> int) \<Rightarrow> bool \<Rightarrow> nat \<Rightarrow> 'v hash_table \<Rightarrow> 'v hash_table option" where
  "sort_buckets sorting compar renumber n ht = do {
     bs \<leftarrow> all_buckets ht [0..<n];
     cs \<leftarrow> sorting compar 0 n (map (moving renumber) bs);
     Some (ht\<lparr>arData := map2 (\<lambda>c b. Some (put_moved renumber c b)) cs bs @ drop n (arData ht)\<rparr>)
   }"

definition renumber_at :: "nat \<Rightarrow> 'v hash_table \<Rightarrow> 'v hash_table option" where
  "renumber_at j ht = do { p \<leftarrow> bucket_at ht j; bucket_write j (p\<lparr>z_h := of_nat j, z_key := None\<rparr>) ht }"

definition zend_hash_sort_ex :: "(('v contents \<Rightarrow> 'v contents \<Rightarrow> int) \<Rightarrow> nat \<Rightarrow> nat \<Rightarrow> 'v contents list \<Rightarrow> 'v contents list option)
    \<Rightarrow> ('v contents \<Rightarrow> 'v contents \<Rightarrow> int) \<Rightarrow> bool \<Rightarrow> 'v hash_table \<Rightarrow> 'v hash_table option" where
  "zend_hash_sort_ex sorting compar renumber ht =
     (if \<not> 1 < nNumOfElements ht \<and> \<not> (renumber \<and> 0 < nNumOfElements ht) then Some ht
      else do {
        (i, ht) \<leftarrow> close_holes ht;
        ht \<leftarrow> sort_buckets sorting compar renumber i ht;
        let ht = ht\<lparr>nNumUsed := i, nInternalPointer := Some 0\<rparr>;
        ht \<leftarrow> (if renumber then map_option (\<lambda>ht. ht\<lparr>nNextFreeElement := of_nat i\<rparr>) (for_each renumber_at [0..<i] ht) else Some ht);
        if packed ht
        then if \<not> renumber then zend_hash_packed_to_hash ht else Some ht
        else if renumber then Some (zend_hash_to_packed ht) else zend_hash_rehash ht
      })"

section \<open>What a list of buckets holds\<close>

fun triple :: "hash_key \<times> 'v \<Rightarrow> 'v contents" where
  "triple (K, v) = (key_hash K, key_text K, Some v)"

definition holds_entries :: "'v zbucket option list \<Rightarrow> (hash_key \<times> 'v) list \<Rightarrow> bool" where
  "holds_entries ar es \<longleftrightarrow> (\<forall>q < length es. content ar q = Some (triple (es ! q)))"

lemma triple_inj: "triple x = triple y \<Longrightarrow> x = y"
  by (cases x; cases y; cases "fst x"; cases "fst y") auto

lemma triple_bucket:
  assumes "content ar q = Some (triple (K, v))"
  obtains b where "bkt ar q = Some b" "z_h b = key_hash K" "z_key b = key_text K" "z_val b = Some v" "bucket_key b = K"
proof -
  obtain b where b: "bkt ar q = Some b" "z_h b = key_hash K" "z_key b = key_text K" "z_val b = Some v"
    using content_SomeD [of ar q "key_hash K" "key_text K" "Some v"] assms by auto
  moreover have "bucket_key b = K" using b by (cases K) (simp_all add: bucket_key_def)
  ultimately show ?thesis using that by blast
qed

lemma held_entries:
  assumes "holds_entries ar es"
  shows "entries ar (length es) = es" and "keys_fit ar (length es)" and "q < length es \<Longrightarrow> defined ar q"
proof -
  have b: "\<exists>b. bkt ar q = Some b \<and> z_val b = Some (snd (es ! q)) \<and> bucket_key b = fst (es ! q) \<and> z_h b = key_hash (fst (es ! q)) \<and> z_key b = key_text (fst (es ! q))"
    if "q < length es" for q
    using assms that triple_bucket [of ar q "fst (es ! q)" "snd (es ! q)"] by (fastforce simp: holds_entries_def)
  have "entries ar k = take k es" if "k \<le> length es" for k
    using that
  proof (induction k)
    case (Suc k)
    then have "entry ar k = [es ! k]" using b [of k] by (auto simp: entry_Some)
    then show ?case using Suc by (simp add: entries_Suc take_Suc_conv_app_nth)
  qed simp
  then show "entries ar (length es) = es" by simp
  show "defined ar q" if "q < length es" using b [OF that] by (auto simp: defined_def)
  show "keys_fit ar (length es)"
    unfolding keys_fit_def
  proof (intro allI impI)
    fix q h s v assume q: "q < length es" "content ar q = Some (h, Some s, Some v)"
    then have "key_text (fst (es ! q)) = Some s" "h = key_hash (fst (es ! q))" using b [OF q(1)] by (auto simp: content_def)
    then show "h = zend_inline_hash_func s" by (cases "fst (es ! q)") auto
  qed
qed

text \<open>A table of which the buckets hold a list of entries with different keys.\<close>

lemma held_buckets_ok:
  assumes b: "buckets_ok ht" and h: "holds_entries ar es" and l: "length es = length (hash_entries ht)" and d: "distinct (map fst es)" and ne: "hash_entries ht \<noteq> []"
  shows "buckets_ok (ht\<lparr>arData := ar, nNumUsed := length es, nInternalPointer := Some 0\<rparr>)"
    and "hash_entries (ht\<lparr>arData := ar, nNumUsed := length es, nInternalPointer := Some 0\<rparr>) = es"
proof -
  let ?u = "ht\<lparr>arData := ar, nNumUsed := length es, nInternalPointer := Some 0\<rparr>"
  have ne': "0 < length es" using ne l by simp
  show e: "hash_entries ?u = es" using held_entries(1) [OF h] by (simp add: hash_entries_def)
  have n: "length es \<le> nNumUsed ht" using l entries_at_most [of "arData ht" "nNumUsed ht"] by (simp add: hash_entries_def)
  show "buckets_ok ?u"
    unfolding buckets_ok_def e using b l d ne' n held_entries(2,3) [OF h] by (fastforce simp: buckets_ok_def defined_def)
qed

section \<open>Closing the holes\<close>

lemma holds_snoc: "holds_entries ar es \<Longrightarrow> content ar (length es) = Some (triple x) \<Longrightarrow> holds_entries ar (es @ [x])"
  by (auto simp: holds_entries_def nth_append less_Suc_eq simp del: triple.simps)

lemma fit_triple:
  assumes "keys_fit ar n" and "q < n" and b: "bkt ar q = Some b" "z_val b = Some v"
  shows "content ar q = Some (triple (bucket_key b, v))"
proof -
  have "z_h b = zend_inline_hash_func s" if "z_key b = Some s" for s using assms that by (auto simp: keys_fit_def content_def)
  then show ?thesis using b by (cases "z_key b") (simp_all add: content_def bucket_key_def)
qed

lemma dense_holds: "keys_fit ar n \<Longrightarrow> (\<And>q. q < n \<Longrightarrow> defined ar q) \<Longrightarrow> j \<le> n \<Longrightarrow> holds_entries ar (entries ar j)"
proof (induction j)
  case 0
  then show ?case by (simp add: holds_entries_def)
next
  case (Suc j)
  obtain b v where b: "bkt ar j = Some b" "z_val b = Some v" using Suc.prems(2) [of j] Suc.prems(3) by (auto simp: defined_def)
  have "length (entries ar j) = j" using Suc.prems entries_all_defined [of ar j] by simp
  then show ?case using Suc.IH Suc.prems holds_snoc [of ar "entries ar j" "(bucket_key b, v)"] fit_triple [OF Suc.prems(1) _ b]
    by (simp add: entries_Suc entry_Some [OF b] del: triple.simps)
qed

definition closed_to :: "'v hash_table \<Rightarrow> nat \<Rightarrow> nat \<times> 'v hash_table \<Rightarrow> bool" where
  "closed_to ht j s \<longleftrightarrow> (case s of (i, t) \<Rightarrow> \<exists>ar. t = ht\<lparr>arData := ar\<rparr> \<and> length ar = length (arData ht) \<and> i = rank (arData ht) j
     \<and> (\<forall>q \<ge> j. bkt ar q = bkt (arData ht) q) \<and> holds_entries ar (entries (arData ht) j))"

lemma close_step:
  assumes b: "buckets_ok ht" and c: "closed_to ht j s" and j: "j < nNumUsed ht"
  shows "\<exists>s'. close_hole j s = Some s' \<and> closed_to ht (Suc j) s'"
proof -
  let ?ar = "arData ht" and ?i = "rank (arData ht) j"
  obtain ar where s: "s = (?i, ht\<lparr>arData := ar\<rparr>)" "length ar = length ?ar" "\<forall>q \<ge> j. bkt ar q = bkt ?ar q" "holds_entries ar (entries ?ar j)"
    using c by (cases s) (auto simp: closed_to_def)
  obtain p where p: "bkt ?ar j = Some p" using b j by (auto simp: buckets_ok_def)
  then have pa: "bkt ar j = Some p" using s(3) by simp
  show ?thesis
  proof (cases "z_val p")
    case None
    then have "\<not> defined ?ar j" using p by (simp add: defined_def)
    then have "entries ?ar (Suc j) = entries ?ar j" "rank ?ar (Suc j) = ?i" by (simp_all add: entries_Suc entry_nil rank_Suc)
    then have "closed_to ht (Suc j) s" using s by (auto simp: closed_to_def)
    moreover have "close_hole j s = Some s" using None pa s(1) by (simp add: close_hole_def)
    ultimately show ?thesis by simp
  next
    case (Some v)
    let ?ar' = "ar[?i := Some p]"
    have jl: "j < length ar" "?i < length ar" using bkt_length [OF pa] rank_le [of ?ar j] by linarith+
    have run: "close_hole j s = Some (?i + 1, ht\<lparr>arData := ?ar'\<rparr>)"
    proof (cases "?i = j")
      case True
      then have "?ar' = ar" using pa jl by (simp add: bkt_def nth_opt_def list_update_same_conv split: bind_splits)
      then show ?thesis using True pa Some s(1) by (simp add: close_hole_def)
    next
      case False
      then show ?thesis using pa Some s(1) jl by (simp add: close_hole_def bucket_write_def)
    qed
    have d: "defined ?ar j" using p Some by (simp add: defined_def)
    have "keys_fit ?ar (nNumUsed ht)" using b by (simp add: buckets_ok_def)
    from fit_triple [OF this j p Some] have t: "(z_h p, z_key p, z_val p) = triple (bucket_key p, v)" using p by (simp add: content_def del: triple.simps)
    have ce: "content ?ar' q = (if q = ?i then Some (triple (bucket_key p, v)) else content ar q)" for q
      using jl t by (simp add: content_update del: triple.simps)
    have "holds_entries ?ar' (entries ?ar j)" using s(4) by (auto simp: holds_entries_def rank_def [symmetric] ce simp del: triple.simps)
    then have "holds_entries ?ar' (entries ?ar (Suc j))"
      using holds_snoc [of ?ar' "entries ?ar j" "(bucket_key p, v)"] ce by (simp add: entries_Suc entry_Some [OF p Some] rank_def del: triple.simps)
    moreover have "bkt ?ar' q = bkt ?ar q" if "Suc j \<le> q" for q using that s(3) jl rank_le [of ?ar j] by (simp add: bkt_update)
    ultimately have "closed_to ht (Suc j) (?i + 1, ht\<lparr>arData := ?ar'\<rparr>)"
      unfolding closed_to_def using s(2) d by (auto simp: rank_Suc intro!: exI [of _ ?ar'])
    then show ?thesis using run by simp
  qed
qed

lemma close_holes_run:
  assumes b: "buckets_ok ht"
  shows "\<exists>ar. close_holes ht = Some (length (hash_entries ht), ht\<lparr>arData := ar\<rparr>) \<and> length ar = length (arData ht) \<and> holds_entries ar (hash_entries ht)"
proof (cases "HT_IS_WITHOUT_HOLES ht")
  case True
  then have n: "nNumUsed ht = length (hash_entries ht)" using b by (simp add: HT_IS_WITHOUT_HOLES_def buckets_ok_def)
  then have "\<forall>q < nNumUsed ht. defined (arData ht) q" using entries_all_defined [of "arData ht" "nNumUsed ht"] by (simp add: hash_entries_def)
  then have "holds_entries (arData ht) (hash_entries ht)" using b dense_holds [of "arData ht" "nNumUsed ht" "nNumUsed ht"] by (simp add: buckets_ok_def hash_entries_def)
  then show ?thesis using True n by (intro exI [of _ "arData ht"]) (simp add: close_holes_def)
next
  case False
  have "closed_to ht 0 (0, ht)" by (auto simp: closed_to_def holds_entries_def rank_def intro!: exI [of _ "arData ht"])
  then have "\<exists>s. for_each close_hole [0..<nNumUsed ht] (0, ht) = Some s \<and> closed_to ht (nNumUsed ht) s"
    by (rule for_each_upt) (use close_step [OF b] in auto)
  then show ?thesis using False by (auto simp: close_holes_def closed_to_def rank_def hash_entries_def)
qed

section \<open>Sorting the buckets\<close>

lemma buckets_run: "(\<And>i. i \<in> set is \<Longrightarrow> bkt (arData ht) i \<noteq> None) \<Longrightarrow> all_buckets ht is = Some (map (\<lambda>i. the (bkt (arData ht) i)) is)"
proof (induction "is")
  case (Cons i js)
  then obtain b where "bkt (arData ht) i = Some b" by fastforce
  then show ?case using Cons by simp
qed simp

text \<open>What moves of an entry, and what an entry becomes at its place.\<close>

definition part_of :: "bool \<Rightarrow> hash_key \<times> 'v \<Rightarrow> 'v contents" where
  "part_of renumber x = (if renumber then (0, None, Some (snd x)) else triple x)"

definition entry_of :: "'v contents \<Rightarrow> hash_key \<times> 'v" where
  "entry_of c = (case c of (h, k, v) \<Rightarrow> ((case k of Some s \<Rightarrow> Name s | None \<Rightarrow> Num h), the v))"

lemma entry_of_triple [simp]: "entry_of (triple x) = x"
  by (cases x; cases "fst x") (simp_all add: entry_of_def)

lemma part_of_entry: "part_of r (entry_of (part_of r x)) = part_of r x" "snd (entry_of (part_of r x)) = snd x"
  by (cases r; cases x; simp add: part_of_def entry_of_def; simp add: key_text_def key_hash_def split: hash_key.split)+

lemma parts_of_entries: "mset cs = mset (map (part_of r) es) \<Longrightarrow> map (part_of r) (map entry_of cs) = cs"
proof -
  assume "mset cs = mset (map (part_of r) es)"
  then have "set cs = set (map (part_of r) es)" by (rule mset_eq_setD)
  then show ?thesis unfolding map_map by (intro map_idI) (auto simp: part_of_entry)
qed

lemma mset_parts: "mset cs = mset (map (part_of r) es) \<Longrightarrow> mset (map f cs) = mset (map (f \<circ> part_of r) es)"
  by (simp add: multiset.map_comp)

text \<open>The sort functions of the engine rearrange the array they are given.\<close>

locale sorter =
  fixes sorting :: "('v contents \<Rightarrow> 'v contents \<Rightarrow> int) \<Rightarrow> nat \<Rightarrow> nat \<Rightarrow> 'v contents list \<Rightarrow> 'v contents list option"
  assumes rearranges: "\<exists>ys. sorting cmp 0 (length xs) xs = Some ys \<and> mset ys = mset xs"

interpretation quick: sorter zend_sort
proof
  fix cmp :: "'v contents \<Rightarrow> 'v contents \<Rightarrow> int" and xs
  show "\<exists>ys. zend_sort cmp 0 (length xs) xs = Some ys \<and> mset ys = mset xs" using zend_sort_runs [of 0 "length xs" xs cmp] by (auto simp: runs_def rearr_def)
qed

interpretation insertion: sorter zend_insert_sort
proof
  fix cmp :: "'v contents \<Rightarrow> 'v contents \<Rightarrow> int" and xs
  show "\<exists>ys. zend_insert_sort cmp 0 (length xs) xs = Some ys \<and> mset ys = mset xs" using insert_sort_runs [of 0 "length xs" xs cmp] by (auto simp: runs_def rearr_def)
qed

text \<open>After the sort: the contents that moved are at the places the sort gave them.\<close>

definition sorted_to :: "bool \<Rightarrow> 'v zbucket option list \<Rightarrow> (hash_key \<times> 'v) list \<Rightarrow> 'v contents list \<Rightarrow> 'v zbucket option list \<Rightarrow> bool" where
  "sorted_to renumber ar es cs ar' \<longleftrightarrow> length ar' = length ar \<and> length cs = length es
     \<and> (\<forall>q < length es. \<exists>b. bkt ar q = Some b \<and> bkt ar' q = Some (put_moved renumber (cs ! q) b))"

lemma moving_held:
  assumes h: "holds_entries ar es"
  shows "map (moving r) (map (\<lambda>i. the (bkt ar i)) [0..<length es]) = map (part_of r) es"
proof (rule nth_equalityI)
  show "map (moving r) (map (\<lambda>i. the (bkt ar i)) [0..<length es]) ! q = map (part_of r) es ! q"
    if q: "q < length (map (moving r) (map (\<lambda>i. the (bkt ar i)) [0..<length es]))" for q
  proof -
    have ql: "q < length es" using q by simp
    obtain K v where e: "es ! q = (K, v)" by (cases "es ! q")
    then have "content ar q = Some (triple (K, v))" using h ql by (simp add: holds_entries_def)
    from triple_bucket [OF this] obtain b where "bkt ar q = Some b" "z_h b = key_hash K" "z_key b = key_text K" "z_val b = Some v" by blast
    then show ?thesis using ql e by (simp add: moving_def part_of_def)
  qed
qed simp

lemma bkt_zip:
  assumes "q < length bs" and "length cs = length bs"
  shows "bkt (map2 (\<lambda>c b. Some (f c b)) cs bs @ xs) q = Some (f (cs ! q) (bs ! q))"
  using assms by (simp add: bkt_def nth_opt_def nth_append)

context sorter
begin

lemma sort_buckets_run:
  assumes h: "holds_entries (arData ht) es"
  shows "\<exists>cs ar. sorting cmp 0 (length es) (map (part_of r) es) = Some cs \<and> mset cs = mset (map (part_of r) es)
    \<and> sort_buckets sorting cmp r (length es) ht = Some (ht\<lparr>arData := ar\<rparr>) \<and> sorted_to r (arData ht) es cs ar"
proof -
  let ?n = "length es"
  obtain cs where cs: "sorting cmp 0 ?n (map (part_of r) es) = Some cs" "mset cs = mset (map (part_of r) es)"
    using rearranges [of cmp "map (part_of r) es"] by auto
  have l: "length cs = ?n" using mset_eq_length [OF cs(2)] by simp
  let ?bs = "map (\<lambda>i. the (bkt (arData ht) i)) [0..<?n]"
  have d: "\<exists>b. bkt (arData ht) q = Some b" if "q < ?n" for q using held_entries(3) [OF h that] by (auto simp: defined_def)
  then have bs: "all_buckets ht [0..<?n] = Some ?bs" by (intro buckets_run) fastforce
  have n: "?n \<le> length (arData ht)"
  proof (rule ccontr)
    assume "\<not> ?n \<le> length (arData ht)"
    then have "length (arData ht) < ?n" by simp
    from d [OF this] show False by (auto dest: bkt_length)
  qed
  let ?ar = "map2 (\<lambda>c b. Some (put_moved r c b)) cs ?bs @ drop ?n (arData ht)"
  have run: "sort_buckets sorting cmp r ?n ht = Some (ht\<lparr>arData := ?ar\<rparr>)"
    unfolding sort_buckets_def bs bind.simps moving_held [OF h] cs(1) ..
  have "sorted_to r (arData ht) es cs ?ar"
    unfolding sorted_to_def
  proof (intro conjI allI impI)
    show "length ?ar = length (arData ht)" using n l by simp
    show "\<exists>b. bkt (arData ht) q = Some b \<and> bkt ?ar q = Some (put_moved r (cs ! q) b)" if q: "q < ?n" for q
    proof -
      obtain b where b: "bkt (arData ht) q = Some b" using d [OF q] by blast
      have "bkt ?ar q = Some (put_moved r (cs ! q) (?bs ! q))" by (rule bkt_zip) (use q l in simp_all)
      then show ?thesis using b q by simp
    qed
  qed (use l in simp)
  then show ?thesis using cs run by blast
qed

end

section \<open>Renumbering\<close>

definition numbered :: "'v list \<Rightarrow> (hash_key \<times> 'v) list" where
  "numbered vs = zip (map (\<lambda>i. Num (of_nat i)) [0..<length vs]) vs"

lemma numbered_nth: "q < length vs \<Longrightarrow> numbered vs ! q = (Num (of_nat q), vs ! q)"
  by (simp add: numbered_def)

lemma renumber_run:
  assumes "\<And>q. q < n \<Longrightarrow> bkt (arData ht) q \<noteq> None"
  shows "\<exists>ar. for_each renumber_at [0..<n] ht = Some (ht\<lparr>arData := ar\<rparr>) \<and> length ar = length (arData ht)
    \<and> (\<forall>q < n. content ar q = Some (of_nat q, None, z_val (the (bkt (arData ht) q))))"
proof -
  let ?P = "\<lambda>k t. \<exists>ar. t = ht\<lparr>arData := ar\<rparr> \<and> length ar = length (arData ht)
    \<and> (\<forall>q < k. content ar q = Some (of_nat q, None, z_val (the (bkt (arData ht) q)))) \<and> (\<forall>q \<ge> k. bkt ar q = bkt (arData ht) q)"
  have "\<exists>t. for_each renumber_at [0..<n] ht = Some t \<and> ?P n t"
  proof (rule for_each_upt [where P = ?P])
    show "?P 0 ht" by (rule exI [of _ "arData ht"]) simp
    fix k t assume k: "k < n" and "?P k t"
    then obtain ar where ar: "t = ht\<lparr>arData := ar\<rparr>" "length ar = length (arData ht)"
      "\<forall>q < k. content ar q = Some (of_nat q, None, z_val (the (bkt (arData ht) q)))" "\<forall>q \<ge> k. bkt ar q = bkt (arData ht) q" by blast
    obtain b where b: "bkt (arData ht) k = Some b" using assms [OF k] by blast
    then have ba: "bkt ar k = Some b" using ar(4) by simp
    let ?ar = "ar[k := Some (b\<lparr>z_h := of_nat k, z_key := None\<rparr>)]"
    have kl: "k < length ar" using bkt_length [OF ba] .
    have "renumber_at k t = Some (ht\<lparr>arData := ?ar\<rparr>)" using ba kl ar(1) by (simp add: renumber_at_def bucket_write_def)
    moreover have "?P (Suc k) (ht\<lparr>arData := ?ar\<rparr>)"
      using ar b kl by (intro exI [of _ ?ar]) (auto simp: content_update bkt_update less_Suc_eq)
    ultimately show "\<exists>t'. renumber_at k t = Some t' \<and> ?P (Suc k) t'" by blast
  qed simp
  then show ?thesis by blast
qed

section \<open>The whole sort\<close>

lemma initialized_entries: "table_ok ht \<Longrightarrow> hash_entries ht \<noteq> [] \<Longrightarrow> initialized ht \<and> length (arData ht) = nTableSize ht"
  by (auto simp: table_ok_def hash_entries_def split: if_splits)

lemma mask_kept: "table_ok ht \<Longrightarrow> initialized ht \<Longrightarrow> \<not> packed ht \<Longrightarrow> nTableMask ht = - of_nat (nTableSize ht)"
  by (simp add: table_ok_def chained_def)

text \<open>The buckets are in their new order: the table gets its chains.\<close>

lemma chain_sorted:
  assumes t: "table_ok ht" and ne: "hash_entries ht \<noteq> []" and s: "sorted_to False ar1 es cs ar2" and l1: "length ar1 = length (arData ht)"
    and cs: "mset cs = mset (map (part_of False) es)" and es: "es = hash_entries ht"
  defines "g \<equiv> ht\<lparr>arData := ar2, nNumUsed := length es, nInternalPointer := Some 0\<rparr>"
  shows "\<exists>u. (if packed g then zend_hash_packed_to_hash g else zend_hash_rehash g) = Some u \<and> table_ok u \<and> same_dtor ht u
    \<and> view u = (map entry_of cs, Some 0, nNextFreeElement ht)"
proof -
  let ?fs = "map entry_of cs"
  have b: "buckets_ok ht" using t by (rule table_ok_buckets)
  have l: "length ?fs = length es" using s by (simp add: sorted_to_def)
  have c: "content ar2 q = Some (cs ! q)" if "q < length es" for q
    using s that by (cases "cs ! q") (fastforce simp: sorted_to_def content_def put_moved_def)
  have "triple (?fs ! q) = cs ! q" if "q < length es" for q
    using arg_cong [OF parts_of_entries [OF cs], of "\<lambda>xs. xs ! q"] that l by (simp add: part_of_def)
  then have h: "holds_entries ar2 ?fs" using c l by (simp add: holds_entries_def)
  have ms: "mset ?fs = mset es" using mset_parts [OF cs, of entry_of] by (simp add: part_of_def comp_def)
  have "mset (map fst ?fs) = image_mset fst (mset ?fs)" by (rule mset_map)
  also have "\<dots> = mset (map fst es)" unfolding ms by simp
  finally have "mset (map fst ?fs) = mset (map fst es)" .
  then have d: "distinct (map fst ?fs)" using b es mset_eq_imp_distinct_iff by (metis buckets_ok_def)
  have g: "buckets_ok g" "hash_entries g = ?fs"
    using held_buckets_ok [OF b h _ d ne] l es by (simp_all add: g_def)
  have v: "view g = (?fs, Some 0, nNextFreeElement ht)" using g(2) by (simp add: view_def cursor_def rank_def g_def)
  have i: "initialized ht" "length (arData ht) = nTableSize ht" using initialized_entries [OF t ne] by blast+
  have dt: "same_dtor ht g" by (simp add: same_dtor_def g_def)
  show ?thesis
  proof (cases "packed ht")
    case True
    then show ?thesis using to_hash_ok [OF g(1)] i v same_dtor_trans [OF dt] by (fastforce simp: g_def)
  next
    case False
    have "initialized g" "\<not> packed g" "length (arData g) = nTableSize g" "nTableMask g = - of_nat (nTableSize g)"
      using i False mask_kept [OF t] s l1 by (simp_all add: g_def sorted_to_def)
    from rehash_ok [OF g(1) this] obtain u where "zend_hash_rehash g = Some u" "table_ok u" "view u = view g" "same_dtor g u" by blast
    then show ?thesis using v same_dtor_trans [OF dt] False by (auto simp: g_def)
  qed
qed

text \<open>The values are in their new order: the table gets new numbers and is packed.\<close>

lemma number_sorted:
  assumes t: "table_ok ht" and ne: "hash_entries ht \<noteq> []" and s: "sorted_to True ar1 es cs ar2" and l1: "length ar1 = length (arData ht)"
    and cs: "mset cs = mset (map (part_of True) es)" and es: "es = hash_entries ht"
  defines "g \<equiv> ht\<lparr>arData := ar2, nNumUsed := length es, nInternalPointer := Some 0\<rparr>"
  shows "\<exists>w u. for_each renumber_at [0..<length es] g = Some w \<and> u = w\<lparr>nNextFreeElement := of_nat (length es)\<rparr> \<and> packed w = packed ht
    \<and> (let u = (if packed ht then u else zend_hash_to_packed u) in table_ok u \<and> packed u \<and> same_dtor ht u
       \<and> view u = (numbered (map (\<lambda>c. snd (entry_of c)) cs), Some 0, of_nat (length es)))"
proof -
  let ?vs = "map (\<lambda>c. snd (entry_of c)) cs" and ?n = "length es"
  have b: "buckets_ok ht" using t by (rule table_ok_buckets)
  have l: "length cs = ?n" using s by (simp add: sorted_to_def)
  have n: "?n \<le> 2 ^ 31"
  proof -
    obtain k where "k \<le> 31" "nTableSize ht = 2 ^ k" and u: "nNumUsed ht \<le> nTableSize ht" using b by (auto simp: buckets_ok_def)
    moreover have "(2::nat) ^ k \<le> 2 ^ 31" using \<open>k \<le> 31\<close> by (intro power_increasing) simp_all
    moreover have "?n \<le> nNumUsed ht" using entries_at_most es by (simp add: hash_entries_def)
    ultimately show ?thesis by linarith
  qed
  have un: "unat (of_nat q :: 64 word) = q" if "q < ?n" for q using that n by (simp add: unsigned_of_nat take_bit_nat_eq_self)
  have bk: "\<exists>x. bkt ar2 q = Some x \<and> z_val x = Some (?vs ! q)" if q: "q < ?n" for q
  proof -
    obtain x where x: "bkt ar2 q = Some (put_moved True (cs ! q) x)" using s q by (auto simp: sorted_to_def)
    have "part_of True (entry_of (cs ! q)) = cs ! q" using arg_cong [OF parts_of_entries [OF cs], of "\<lambda>xs. xs ! q"] q l by simp
    then have "cs ! q = (0, None, Some (snd (entry_of (cs ! q))))" by (simp add: part_of_def)
    then have "z_val (put_moved True (cs ! q) x) = Some (?vs ! q)" using q l by (cases "cs ! q") (auto simp: put_moved_def)
    then show ?thesis using x by blast
  qed
  obtain ar where ar: "for_each renumber_at [0..<?n] g = Some (g\<lparr>arData := ar\<rparr>)" "length ar = length (arData g)"
    "\<forall>q < ?n. content ar q = Some (of_nat q, None, z_val (the (bkt (arData g) q)))"
    using renumber_run [of ?n g] bk by (fastforce simp: g_def)
  have cn: "content ar q = Some (of_nat q, None, Some (?vs ! q))" if "q < ?n" for q using ar(3) bk [OF that] that by (auto simp: g_def)
  then have h: "holds_entries ar (numbered ?vs)" using l by (simp add: holds_entries_def numbered_nth numbered_def)
  have ln: "length (numbered ?vs) = ?n" using l by (simp add: numbered_def)
  have "map fst (numbered ?vs) = map (\<lambda>i. Num (of_nat i)) [0..<?n]" using l by (simp add: numbered_def)
  moreover have "inj_on (\<lambda>i. Num (of_nat i)) {0..<?n}"
    by (rule inj_onI) (metis atLeastLessThan_iff hash_key.inject(2) un)
  ultimately have d: "distinct (map fst (numbered ?vs))" by (simp add: distinct_map)
  let ?u = "ht\<lparr>arData := ar, nNumUsed := ?n, nInternalPointer := Some 0, nNextFreeElement := of_nat ?n\<rparr>"
  have eq: "g\<lparr>arData := ar\<rparr>\<lparr>nNextFreeElement := of_nat ?n\<rparr> = ?u" by (simp add: g_def)
  have "buckets_ok (ht\<lparr>arData := ar, nNumUsed := ?n, nInternalPointer := Some 0\<rparr>)" "hash_entries (ht\<lparr>arData := ar, nNumUsed := ?n, nInternalPointer := Some 0\<rparr>) = numbered ?vs"
    using held_buckets_ok [OF b h _ d ne] ln es by simp_all
  then have u: "buckets_ok ?u" "hash_entries ?u = numbered ?vs" by (simp_all add: buckets_ok_def hash_entries_def)
  have v: "view ?u = (numbered ?vs, Some 0, of_nat ?n)" using u(2) by (simp add: view_def cursor_def rank_def)
  have i: "initialized ht" "length (arData ht) = nTableSize ht" using initialized_entries [OF t ne] by blast+
  have pl: "\<forall>i < nNumUsed ?u. \<forall>h k v. content (arData ?u) i = Some (h, k, Some v) \<longrightarrow> unat h = i \<and> k = None" using cn un by auto
  have dt: "same_dtor ht ?u" by (simp add: same_dtor_def)
  have "let u = (if packed ht then ?u else zend_hash_to_packed ?u) in table_ok u \<and> packed u \<and> same_dtor ht u \<and> view u = (numbered ?vs, Some 0, of_nat ?n)"
  proof (cases "packed ht")
    case True
    have la: "length ar = nTableSize ht" using ar(2) s l1 i by (simp add: g_def sorted_to_def)
    have "packed_ok ht" using t i True by (simp add: table_ok_def)
    then have "packed_ok ?u" using pl by (simp add: packed_ok_def)
    then have "table_ok ?u" using u(1) i True la by (simp add: table_ok_def)
    then show ?thesis using True v dt by simp
  next
    case False
    have "table_ok (zend_hash_to_packed ?u) \<and> packed (zend_hash_to_packed ?u) \<and> view (zend_hash_to_packed ?u) = view ?u \<and> same_dtor ?u (zend_hash_to_packed ?u)"
      by (rule to_packed_ok [OF u(1) _ pl]) (use i in simp)
    then show ?thesis using False v same_dtor_trans [OF dt] by (simp add: Let_def)
  qed
  then show ?thesis using ar(1) eq by (intro exI [of _ "g\<lparr>arData := ar\<rparr>"] exI [of _ ?u]) (simp add: g_def)
qed

context sorter
begin

lemma hash_sort_run:
  assumes t: "table_ok ht" and es: "es = hash_entries ht"
  shows "\<exists>cs u. sorting cmp 0 (length es) (map (part_of r) es) = Some cs \<and> mset cs = mset (map (part_of r) es)
    \<and> zend_hash_sort_ex sorting cmp r ht = Some u \<and> table_ok u \<and> same_dtor ht u
    \<and> hash_entries u = (if r then numbered (map (\<lambda>c. snd (entry_of c)) cs) else map entry_of cs)
    \<and> (\<not> r \<longrightarrow> nNextFreeElement u = nNextFreeElement ht)
    \<and> (1 < length es \<or> r \<and> es \<noteq> [] \<longrightarrow> cursor u = Some 0 \<and> (r \<longrightarrow> packed u \<and> nNextFreeElement u = of_nat (length es)))"
proof -
  have b: "buckets_ok ht" using t by (rule table_ok_buckets)
  have n: "nNumOfElements ht = length es" using b es by (simp add: buckets_ok_def)
  show ?thesis
  proof (cases "1 < length es \<or> r \<and> es \<noteq> []")
    case False
    then have "\<not> 1 < nNumOfElements ht \<and> \<not> (r \<and> 0 < nNumOfElements ht)" using n by simp
    then have run: "zend_hash_sort_ex sorting cmp r ht = Some ht" by (simp add: zend_hash_sort_ex_def)
    obtain cs where cs: "sorting cmp 0 (length es) (map (part_of r) es) = Some cs" "mset cs = mset (map (part_of r) es)"
      using rearranges [of cmp "map (part_of r) es"] by auto
    show ?thesis
    proof (cases es)
      case Nil
      then show ?thesis using cs run t es by (auto simp: numbered_def)
    next
      case (Cons x xs)
      then have "es = [x]" "\<not> r" using False by (cases xs; auto)+
      then show ?thesis using cs run t es by (auto simp: part_of_def)
    qed
  next
    case True
    then have ne: "hash_entries ht \<noteq> []" using es by auto
    obtain ar1 where c: "close_holes ht = Some (length es, ht\<lparr>arData := ar1\<rparr>)" "length ar1 = length (arData ht)" "holds_entries ar1 es"
      using close_holes_run [OF b] es by blast
    have "holds_entries (arData (ht\<lparr>arData := ar1\<rparr>)) es" using c(3) by simp
    from sort_buckets_run [OF this, of cmp r] obtain cs ar2 where s: "sorting cmp 0 (length es) (map (part_of r) es) = Some cs" "mset cs = mset (map (part_of r) es)"
      "sort_buckets sorting cmp r (length es) (ht\<lparr>arData := ar1\<rparr>) = Some (ht\<lparr>arData := ar1\<rparr>\<lparr>arData := ar2\<rparr>)" "sorted_to r ar1 es cs ar2" by auto
    let ?g = "ht\<lparr>arData := ar2, nNumUsed := length es, nInternalPointer := Some 0\<rparr>"
    have go: "\<not> (\<not> 1 < nNumOfElements ht \<and> \<not> (r \<and> 0 < nNumOfElements ht))" using True n by auto
    show ?thesis
    proof (cases r)
      case False
      obtain u where u: "(if packed ?g then zend_hash_packed_to_hash ?g else zend_hash_rehash ?g) = Some u" "table_ok u" "same_dtor ht u"
        "view u = (map entry_of cs, Some 0, nNextFreeElement ht)"
        using chain_sorted [OF t ne _ c(2) _ es, of cs ar2] s(2,4) False by auto
      have "zend_hash_sort_ex sorting cmp r ht = Some u" using go c(1) s(3) u(1) False by (simp add: zend_hash_sort_ex_def Let_def split: if_splits)
      then show ?thesis using s(1,2) u(2-4) False by (auto simp: view_def)
    next
      case num: True
      obtain w where w: "for_each renumber_at [0..<length es] ?g = Some w" "packed w = packed ht"
        "let u = (if packed ht then w\<lparr>nNextFreeElement := of_nat (length es)\<rparr> else zend_hash_to_packed (w\<lparr>nNextFreeElement := of_nat (length es)\<rparr>))
         in table_ok u \<and> packed u \<and> same_dtor ht u \<and> view u = (numbered (map (\<lambda>c. snd (entry_of c)) cs), Some 0, of_nat (length es))"
        using number_sorted [OF t ne _ c(2) _ es, of cs ar2] s(2,4) num by auto
      let ?u = "if packed ht then w\<lparr>nNextFreeElement := of_nat (length es)\<rparr> else zend_hash_to_packed (w\<lparr>nNextFreeElement := of_nat (length es)\<rparr>)"
      have "zend_hash_sort_ex sorting cmp r ht = Some ?u" using go c(1) s(3) w(1,2) num by (auto simp: zend_hash_sort_ex_def Let_def)
      moreover have "table_ok ?u \<and> packed ?u \<and> same_dtor ht ?u \<and> view ?u = (numbered (map (\<lambda>c. snd (entry_of c)) cs), Some 0, of_nat (length es))"
        using w(3) by (simp only: Let_def)
      ultimately show ?thesis using s(1,2) num by (intro exI [of _ cs] exI [of _ ?u]) (simp only: view_def prod.inject if_True, simp)
    qed
  qed
qed

end

end
