(* ===== verification/Zend_Hash_Collections.thy ===== *)
theory Zend_Hash_Collections
  imports Zend_Hash_Properties Zend_Hash_Compare Zend_Hash_Sort
begin

text \<open>The properties of operations on whole tables: merging and copying, comparing, sorting, the least element.\<close>

section \<open>Merging\<close>

text \<open>
  C38. Merging a table into another one ends with the entries of both: the elements that were in the target stay at their
  places, those under new keys follow in the order of the source; under a key of both the value of the source counts, as the
  copy constructor makes it, exactly when the merge overwrites; then the pointer is at the first element. Copying
  is an overwriting merge that leaves a pointer at some element.
\<close>

theorem hash_merge:
  assumes "table_ok target" and "table_ok source" and "2 * (length (hash_entries target) + length (hash_entries source)) \<le> HT_MAX_SIZE"
  shows "(\<exists>u. zend_hash_merge ctor overwrite source target = Some u \<and> table_ok u
      \<and> map fst (hash_entries u) = map fst (hash_entries target) @ filter (\<lambda>K. K \<notin> keys_of target) (map fst (hash_entries source))
      \<and> (\<forall>K. map_of (hash_entries u) K = (if K \<in> keys_of source \<and> (overwrite \<or> K \<notin> keys_of target)
           then map_option (constructed ctor) (map_of (hash_entries source) K) else map_of (hash_entries target) K))
      \<and> (hash_entries u \<noteq> [] \<longrightarrow> cursor u = Some 0))
    \<and> (\<exists>u. zend_hash_copy ctor source target = Some u \<and> table_ok u
      \<and> map fst (hash_entries u) = map fst (hash_entries target) @ filter (\<lambda>K. K \<notin> keys_of target) (map fst (hash_entries source))
      \<and> (\<forall>K. map_of (hash_entries u) K = (if K \<in> keys_of source
           then map_option (constructed ctor) (map_of (hash_entries source) K) else map_of (hash_entries target) K))
      \<and> (hash_entries u \<noteq> [] \<longrightarrow> cursor u \<noteq> None))"
proof -
  obtain u where "zend_hash_merge ctor overwrite source target = Some u" "table_ok u" "hash_entries u \<noteq> [] \<longrightarrow> cursor u = Some 0"
    "united ctor overwrite (hash_entries target) (hash_entries source) (hash_entries u)" using merge_run [OF assms] by blast
  moreover obtain w where "zend_hash_copy ctor source target = Some w" "table_ok w" "hash_entries w \<noteq> [] \<longrightarrow> cursor w \<noteq> None"
    "united ctor True (hash_entries target) (hash_entries source) (hash_entries w)" using hash_copy_run [OF assms] by blast
  ultimately show ?thesis by (simp add: united_def)
qed

text \<open>A table with a given history.\<close>

lemma history_table:
  fixes ops :: "string hash_op list"
  assumes "2 * length ops \<le> HT_MAX_SIZE" and "spec_hash_ops True ops (([], None, 0), []) = (bs, ((es, c, nf), ds))"
  shows "\<exists>u. table_ok u \<and> hash_entries u = es \<and> cursor u = c"
proof -
  obtain ht :: "string hash_table" where ht: "zend_hash_init 3 True = Some ht" using sample_init by blast
  note i = hash_init_ok [OF ht]
  have "2 * (length (hash_entries ht) + length ops) \<le> HT_MAX_SIZE + 2" using i assms(1) by (simp add: view_def)
  from run_ops_refine [OF _ this] obtain cs u where "table_ok u" "spec_hash_ops (pDestructor ht) ops (hash_view ht) = (cs, hash_view u)"
    using i by blast
  then show ?thesis using assms(2) i by (auto simp: hash_view_def view_def)
qed

definition other_ops :: "string hash_op list" where
  "other_ops = [H_add (Num 41) ''xyz'', H_add (Name ''k'') ''y'']"

lemma other_table: "\<exists>u. table_ok u \<and> hash_entries u = [(Num 41, ''xyz''), (Name ''k'', ''y'')]"
proof -
  have "spec_hash_ops True other_ops (([], None, 0), []) = ([True, True], (([(Num 41, ''xyz''), (Name ''k'', ''y'')], Some 0, 42), []))"
    by (simp add: other_ops_def bump_key_def bump_def ZEND_LONG_MAX_def)
  from history_table [OF _ this] show ?thesis by (auto simp: other_ops_def HT_MAX_SIZE_def)
qed

lemma hash_merge_witness:
  "\<exists>(target :: string hash_table) source u. hash_entries target = [(Num 40, ''d''), (Num 41, ''c'')]
    \<and> hash_entries source = [(Num 41, ''xyz''), (Name ''k'', ''y'')] \<and> zend_hash_merge (Some (\<lambda>v. v @ ''!'')) False source target = Some u
    \<and> map fst (hash_entries u) = [Num 40, Num 41, Name ''k''] \<and> map_of (hash_entries u) (Num 41) = Some ''c''
    \<and> map_of (hash_entries u) (Name ''k'') = Some ''y!'' \<and> cursor u = Some 0"
proof -
  obtain s :: "string hash_table" where s: "table_ok s" "hash_entries s = [(Num 41, ''xyz''), (Name ''k'', ''y'')]" using other_table by blast
  obtain t :: "string hash_table" where t: "table_ok t" "hash_entries t = [(Num 40, ''d''), (Num 41, ''c'')]"
    using sample_table by (auto simp: view_def)
  have "2 * (length (hash_entries t) + length (hash_entries s)) \<le> HT_MAX_SIZE" using s t by (simp add: HT_MAX_SIZE_def)
  from conjunct1 [OF hash_merge [OF t(1) s(1) this, of "Some (\<lambda>v. v @ ''!'')" False]] obtain u where u:
    "zend_hash_merge (Some (\<lambda>v. v @ ''!'')) False s t = Some u"
    "map fst (hash_entries u) = map fst (hash_entries t) @ filter (\<lambda>K. K \<notin> keys_of t) (map fst (hash_entries s))"
    and m: "\<forall>K. map_of (hash_entries u) K = (if K \<in> keys_of s \<and> (False \<or> K \<notin> keys_of t)
           then map_option (constructed (Some (\<lambda>v. v @ ''!''))) (map_of (hash_entries s) K) else map_of (hash_entries t) K)"
    and c: "hash_entries u \<noteq> [] \<longrightarrow> cursor u = Some 0" by blast
  have k: "map fst (hash_entries u) = [Num 40, Num 41, Name ''k'']" using u(2) s(2) t(2) by simp
  have "map_of (hash_entries u) (Num 41) = Some ''c''" "map_of (hash_entries u) (Name ''k'') = Some ''y!''"
    using m [rule_format, of "Num 41"] m [rule_format, of "Name ''k''"] s(2) t(2) by (simp_all add: constructed_def)
  then show ?thesis using s(2) t(2) u(1) k c by (intro exI [of _ t] exI [of _ s] exI [of _ u]) auto
qed

section \<open>Comparing\<close>

lemma same_list_eq: "(\<And>v w. compar v w = 0 \<longleftrightarrow> v = w) \<Longrightarrow> same_list compar es fs \<longleftrightarrow> es = fs"
proof (induction es arbitrary: fs)
  case (Cons x es)
  then show ?case by (cases fs) (auto simp: same_list_def split_beta prod_eq_iff)
qed (auto simp: same_list_def)

lemma same_map_eq:
  fixes es fs :: "(hash_key \<times> 'v) list"
  assumes c: "\<And>v w. compar v w = 0 \<longleftrightarrow> v = w" and d: "distinct (map fst es)" "distinct (map fst fs)"
  shows "length es = length fs \<and> same_map compar es fs \<longleftrightarrow> map_of es = map_of fs"
proof -
  have card: "card (dom (map_of xs)) = length xs" if "distinct (map fst xs)" for xs :: "(hash_key \<times> 'v) list"
    using distinct_card [OF that] by (simp add: dom_map_of_conv_image_fst)
  show ?thesis
  proof
    assume s: "length es = length fs \<and> same_map compar es fs"
    have le: "map_of fs K = Some v" if "map_of es K = Some v" for K v
      using s map_of_SomeD [OF that] c by (fastforce simp: same_map_def)
    then have "dom (map_of es) \<subseteq> dom (map_of fs)" by auto
    then have "dom (map_of es) = dom (map_of fs)"
      using s card [OF d(1)] card [OF d(2)] by (intro card_subset_eq) (simp_all add: finite_dom_map_of)
    then have iff: "(\<exists>v. map_of es K = Some v) \<longleftrightarrow> (\<exists>v. map_of fs K = Some v)" for K by (simp add: dom_def set_eq_iff)
    have "map_of es K = map_of fs K" for K
    proof (cases "map_of es K")
      case None
      then have "\<not> (\<exists>v. map_of fs K = Some v)" using iff [of K] by simp
      then show ?thesis using None by simp
    next
      case (Some v)
      then show ?thesis using le by simp
    qed
    then show "map_of es = map_of fs" by blast
  next
    assume e: "map_of es = map_of fs"
    then have "length es = length fs" using card [OF d(1)] card [OF d(2)] by simp
    moreover have "map_of fs K = Some v" if "(K, v) \<in> set es" for K v using that d(1) e by (metis map_of_eq_Some_iff)
    ultimately show "length es = length fs \<and> same_map compar es fs" using c by (auto simp: same_map_def)
  qed
qed

text \<open>
  C39. Comparing two tables ends, and its result is 0 exactly when they are equal: as lists of entries in an ordered
  comparison, as maps from keys to values otherwise, whatever their memory looks like.
\<close>

theorem hash_compare:
  assumes "table_ok ht1" and "table_ok ht2" and "\<And>v w. compar v w = 0 \<longleftrightarrow> v = w"
  shows "\<exists>r. zend_hash_compare compar ordered ht1 ht2 = Some r
    \<and> (r = 0 \<longleftrightarrow> (if ordered then hash_entries ht1 = hash_entries ht2 else map_of (hash_entries ht1) = map_of (hash_entries ht2)))"
proof -
  let ?es = "hash_entries ht1" and ?fs = "hash_entries ht2"
  have n: "nNumOfElements ht1 = length ?es" "nNumOfElements ht2 = length ?fs" and d: "distinct (map fst ?es)" "distinct (map fst ?fs)"
    using assms(1,2) by (simp_all add: table_ok_def buckets_ok_def)
  note m = same_map_eq [OF assms(3) d]
  show ?thesis
  proof (cases "length ?es = length ?fs")
    case False
    then show ?thesis using m n by (auto simp: zend_hash_compare_def)
  next
    case True
    have r: "rest_of ht1 0 = ?es" "rest_of ht2 0 = ?fs" by (simp_all add: rest_of_def hash_entries_def entries_def)
    show ?thesis
      using compare_run [OF assms(1,2), of 0 ordered 0 compar] True m n same_list_eq [of compar, OF assms(3)] r by (auto simp: zend_hash_compare_def)
  qed
qed

lemma hash_compare_witness:
  "\<exists>(ht1 :: string hash_table) ht2 r. hash_entries ht1 = [(Num 40, ''d''), (Num 41, ''c'')] \<and> hash_entries ht2 = [(Num 41, ''xyz''), (Name ''k'', ''y'')]
    \<and> zend_hash_compare (\<lambda>v w. if v = w then 0 else 1) True ht1 ht2 = Some r \<and> r \<noteq> 0
    \<and> zend_hash_compare (\<lambda>v w. if v = w then 0 else 1) False ht1 ht1 = Some 0"
proof -
  let ?c = "\<lambda>v w :: string. if v = w then 0 else (1 :: int)"
  obtain s :: "string hash_table" where s: "table_ok s" "hash_entries s = [(Num 41, ''xyz''), (Name ''k'', ''y'')]" using other_table by blast
  obtain t :: "string hash_table" where t: "table_ok t" "hash_entries t = [(Num 40, ''d''), (Num 41, ''c'')]"
    using sample_table by (auto simp: view_def)
  have c: "?c v w = 0 \<longleftrightarrow> v = w" for v w by simp
  obtain r where "zend_hash_compare ?c True t s = Some r" "r \<noteq> 0" using hash_compare [OF t(1) s(1) c, of True] s(2) t(2) by auto
  moreover have "zend_hash_compare ?c False t t = Some 0" using hash_compare [OF t(1) t(1) c, of False] by auto
  ultimately show ?thesis using s(2) t(2) by blast
qed

section \<open>Sorting\<close>

lemma sorted_parts: "sorted_wrt P (map f xs) \<longleftrightarrow> sorted_wrt (\<lambda>x y. P (f x) (f y)) xs"
  by (simp add: sorted_wrt_map)

text \<open>
  C40. Sorting a table with \<open>zend_sort\<close> ends whatever the comparison function answers, and leaves a well-formed table with
  the same entries; an order has them sorted. With new numbers the values are rearranged and sorted, their keys are the
  numbers from 0 on, the table is packed and the next value gets the next number. Holes do not matter, and no destructor is called.
\<close>

theorem hash_sort:
  assumes "table_ok ht"
  shows "(\<exists>u. zend_hash_sort_ex zend_sort compar False ht = Some u \<and> table_ok u \<and> same_dtor ht u
      \<and> mset (hash_entries u) = mset (hash_entries ht) \<and> nNextFreeElement u = nNextFreeElement ht
      \<and> (order_cmp compar \<longrightarrow> sorted_wrt (\<lambda>x y. \<not> 0 < compar (triple x) (triple y)) (hash_entries u)))
    \<and> (\<exists>u vs. zend_hash_sort_ex zend_sort compar True ht = Some u \<and> table_ok u \<and> same_dtor ht u
      \<and> hash_entries u = zip (map (\<lambda>i. Num (of_nat i)) [0..<length vs]) vs \<and> mset vs = mset (map snd (hash_entries ht))
      \<and> (order_cmp compar \<longrightarrow> sorted_wrt (\<lambda>v w. \<not> 0 < compar (0, None, Some v) (0, None, Some w)) vs)
      \<and> (vs \<noteq> [] \<longrightarrow> packed u \<and> nNextFreeElement u = of_nat (length vs)))"
  (is "?keep \<and> ?number")
proof
  let ?es = "hash_entries ht"
  have sorted: "sorted_wrt (\<lambda>x y. \<not> 0 < compar x y) cs"
    if "zend_sort compar 0 (length ?es) (map (part_of r) ?es) = Some cs" "order_cmp compar" for r cs
    using order_cmp.zend_sort_sorted [OF that(2), of "map (part_of r) ?es"] that(1) by simp
  show ?keep
  proof -
    obtain cs u where u: "zend_sort compar 0 (length ?es) (map (part_of False) ?es) = Some cs" "mset cs = mset (map (part_of False) ?es)"
      "zend_hash_sort_ex zend_sort compar False ht = Some u" "table_ok u" "same_dtor ht u" "hash_entries u = map entry_of cs"
      "nNextFreeElement u = nNextFreeElement ht"
      using quick.hash_sort_run [OF assms refl, of compar False] by auto
    have tr: "map triple (hash_entries u) = cs" using parts_of_entries [OF u(2)] u(6) by (simp add: part_of_def comp_def del: triple.simps)
    have "mset (hash_entries u) = mset ?es" using mset_parts [OF u(2), of entry_of] u(6) by (simp add: part_of_def comp_def del: triple.simps)
    moreover have "sorted_wrt (\<lambda>x y. \<not> 0 < compar (triple x) (triple y)) (hash_entries u)" if "order_cmp compar"
      using sorted [OF u(1) that] unfolding tr [symmetric] sorted_parts .
    ultimately show ?thesis using u(3-5,7) by blast
  qed
  show ?number
  proof -
    obtain cs u where u: "zend_sort compar 0 (length ?es) (map (part_of True) ?es) = Some cs" "mset cs = mset (map (part_of True) ?es)"
      "zend_hash_sort_ex zend_sort compar True ht = Some u" "table_ok u" "same_dtor ht u"
      "hash_entries u = numbered (map (\<lambda>c. snd (entry_of c)) cs)" "?es \<noteq> [] \<longrightarrow> packed u \<and> nNextFreeElement u = of_nat (length ?es)"
      using quick.hash_sort_run [OF assms refl, of compar True] by auto
    let ?vs = "map (\<lambda>c. snd (entry_of c)) cs"
    have l: "length cs = length ?es" using mset_eq_length [OF u(2)] by simp
    have vs: "mset ?vs = mset (map snd ?es)" using mset_parts [OF u(2), of "\<lambda>c. snd (entry_of c)"] by (simp add: part_of_entry comp_def)
    have "map (\<lambda>v. (0, None, Some v)) ?vs = cs" using parts_of_entries [OF u(2)] by (simp add: part_of_def comp_def)
    then have "sorted_wrt (\<lambda>v w. \<not> 0 < compar (0, None, Some v) (0, None, Some w)) ?vs" if "order_cmp compar"
      using sorted [OF u(1) that] sorted_parts [of "\<lambda>x y. \<not> 0 < compar x y" "\<lambda>v. (0, None, Some v)" ?vs] by metis
    then show ?thesis using u(3-7) vs l by (intro exI [of _ u] exI [of _ ?vs]) (auto simp: numbered_def)
  qed
qed

definition by_length :: "string contents \<Rightarrow> string contents \<Rightarrow> int" where
  "by_length c d = int (length (the (snd (snd c)))) - int (length (the (snd (snd d))))"

lemma by_length_order: "order_cmp by_length"
  by unfold_locales (simp_all add: by_length_def)

lemma two_entries: "mset xs = mset [a, b] \<Longrightarrow> xs = [a, b] \<or> xs = [b, a]"
proof -
  assume m: "mset xs = mset [a, b]"
  then have "length xs = length [a, b]" by (rule mset_eq_length)
  then obtain x y where "xs = [x, y]" by (auto simp: length_Suc_conv)
  then show ?thesis using m by (auto simp: add_eq_conv_ex)
qed

lemma hash_sort_witness:
  "\<exists>ht u w. hash_entries ht = [(Num 41, ''xyz''), (Name ''k'', ''y'')]
    \<and> zend_hash_sort_ex zend_sort by_length False ht = Some u \<and> hash_entries u = [(Name ''k'', ''y''), (Num 41, ''xyz'')]
    \<and> zend_hash_sort_ex zend_sort by_length True ht = Some w \<and> hash_entries w = [(Num 0, ''y''), (Num 1, ''xyz'')] \<and> nNextFreeElement w = 2"
proof -
  obtain s :: "string hash_table" where s: "table_ok s" "hash_entries s = [(Num 41, ''xyz''), (Name ''k'', ''y'')]" using other_table by blast
  note h = hash_sort [OF s(1), of by_length, unfolded s(2)]
  obtain u where u: "zend_hash_sort_ex zend_sort by_length False s = Some u" "mset (hash_entries u) = mset [(Num 41, ''xyz''), (Name ''k'', ''y'')]"
    "sorted_wrt (\<lambda>x y. \<not> 0 < by_length (triple x) (triple y)) (hash_entries u)" using conjunct1 [OF h] by_length_order by blast
  obtain w vs where w: "zend_hash_sort_ex zend_sort by_length True s = Some w" "hash_entries w = zip (map (\<lambda>i. Num (of_nat i)) [0..<length vs]) vs"
    "mset vs = mset [''xyz'', ''y'']" "sorted_wrt (\<lambda>v w. \<not> 0 < by_length (0, None, Some v) (0, None, Some w)) vs"
    "vs \<noteq> [] \<longrightarrow> nNextFreeElement w = of_nat (length vs)" using conjunct2 [OF h] by_length_order by auto
  have "hash_entries u = [(Name ''k'', ''y''), (Num 41, ''xyz'')]" using two_entries [OF u(2)] u(3) by (auto simp: by_length_def)
  moreover have "vs = [''y'', ''xyz'']" using two_entries [OF w(3)] w(4) by (auto simp: by_length_def)
  ultimately show ?thesis using s(2) u(1) w by (intro exI [of _ s] exI [of _ u] exI [of _ w]) simp
qed

section \<open>The least and the greatest element\<close>

text \<open>The walk keeps an element of which none before is better.\<close>

definition best_to :: "('v zbucket \<Rightarrow> 'v zbucket \<Rightarrow> int) \<Rightarrow> 'v hash_table \<Rightarrow> nat \<Rightarrow> nat \<Rightarrow> bool" where
  "best_to cmp ht k res \<longleftrightarrow> res < nNumUsed ht \<and> defined (arData ht) res
     \<and> (\<forall>q < k. \<forall>b c. bkt (arData ht) res = Some b \<and> bkt (arData ht) q = Some c \<and> z_val c \<noteq> None \<longrightarrow> \<not> 0 < cmp b c)"

lemma minmax_run:
  fixes compar :: "'v zbucket \<Rightarrow> 'v zbucket \<Rightarrow> int" and flag :: bool
  defines "cmp \<equiv> \<lambda>b c. if flag then - compar b c else compar b c"
  assumes t: "table_ok ht" and ne: "hash_entries ht \<noteq> []" and o: "order_cmp cmp"
  shows "\<exists>res. zend_hash_minmax compar flag ht = Some (Some res) \<and> best_to cmp ht (nNumUsed ht) res"
proof -
  have better: "(if flag then compar r p < 0 else 0 < compar r p) \<longleftrightarrow> 0 < cmp r p" for r p by (simp add: cmp_def)
  have n: "nNumOfElements ht \<noteq> 0" using t ne by (simp add: table_ok_def buckets_ok_def)
  obtain x where x: "next_defined 0 ht = Some x" "first_defined (arData ht) 0 (nNumUsed ht) x" using next_defined_run [of ht 0] used_bkt [OF t] by blast
  have "x \<noteq> None"
  proof
    assume "x = None"
    then have "entries (arData ht) (nNumUsed ht) = entries (arData ht) 0" using x(2) by (intro entries_gap) (auto simp: first_defined_def)
    then show False using ne by (simp add: hash_entries_def)
  qed
  then obtain idx where idx: "x = Some idx" "idx < nNumUsed ht" "defined (arData ht) idx" "\<forall>q < idx. \<not> defined (arData ht) q"
    using x(2) by (auto simp: first_defined_def)
  have "\<exists>res. for_each (better compar flag ht) [idx..<nNumUsed ht] idx = Some res \<and> best_to cmp ht (nNumUsed ht) res"
  proof (rule for_each_upt)
    show "best_to cmp ht idx idx" using idx by (auto simp: best_to_def defined_def)
    fix k r assume k: "idx \<le> k" "k < nNumUsed ht" and "best_to cmp ht k r"
    then obtain b where r: "r < nNumUsed ht" "bkt (arData ht) r = Some b" "z_val b \<noteq> None"
      and a: "\<And>q c. q < k \<Longrightarrow> bkt (arData ht) q = Some c \<Longrightarrow> z_val c \<noteq> None \<Longrightarrow> \<not> 0 < cmp b c" by (auto simp: best_to_def defined_def)
    obtain p where p: "bkt (arData ht) k = Some p" using used_bkt [OF t k(2)] by blast
    show "\<exists>r'. better compar flag ht k r = Some r' \<and> best_to cmp ht (Suc k) r'"
    proof (cases "z_val p \<noteq> None \<and> 0 < cmp b p")
      case True
      have "\<not> 0 < cmp p c" if "q < Suc k" "bkt (arData ht) q = Some c" "z_val c \<noteq> None" for q c
      proof (cases "q = k")
        case True
        then show ?thesis using p that(2) order_cmp.asym [OF o] by fastforce
      next
        case False
        have "\<not> 0 < cmp p b" using True order_cmp.asym [OF o] by blast
        moreover have "\<not> 0 < cmp b c" by (rule a) (use that False in auto)
        ultimately show ?thesis using order_cmp.trans [OF o] by blast
      qed
      then have "best_to cmp ht (Suc k) k" using True p k(2) by (auto simp: best_to_def defined_def)
      then show ?thesis using True p r(2) by (auto simp: better_def better)
    next
      case False
      then have "best_to cmp ht (Suc k) r" using r a p by (auto simp: best_to_def defined_def less_Suc_eq)
      moreover have "better compar flag ht k r = Some r" using False p r(2) by (auto simp: better_def better)
      ultimately show ?thesis by simp
    qed
  qed (use idx in simp)
  then show ?thesis using n x(1) idx(1) by (auto simp: zend_hash_minmax_def)
qed

end
