(* ===== verification/Sapi_Headers.thy ===== *)
theory Sapi_Headers
  imports Zend_Llist C_Strings
begin

text \<open>
  The headers of an answer: \<open>sapi_header_op\<close> and what it calls (main/SAPI.c), kept in a linked list, and
  \<open>sapi_cgi_send_headers\<close> (sapi/fpm/fpm/fpm_main.c), which writes them out. The module is that of FPM: it has
  no \<open>header_handler\<close> and no \<open>send_header\<close>. Texts are values; a header keeps the length that the code keeps
  beside its text. \<open>None\<close> is undefined behaviour, which here is a bad pointer, a read behind a text or an
  \<open>atoi\<close> of a number that is no \<open>int\<close>.
\<close>

section \<open>State\<close>

record sapi_header =
  header :: string
  header_len :: nat

text \<open>The conversion of a \<open>long\<close> to an \<open>int\<close>, which the codes go through.\<close>

definition int_of :: "int \<Rightarrow> int" where
  "int_of n = (n + 2 ^ 31) mod 2 ^ 32 - 2 ^ 31"

text \<open>The argument of an operation on headers; \<open>line_len\<close> is the length of the line.\<close>

record sapi_header_line =
  line :: "string option"
  response_code :: int

datatype header_op =
    SAPI_HEADER_REPLACE sapi_header_line
  | SAPI_HEADER_ADD sapi_header_line
  | SAPI_HEADER_DELETE sapi_header_line
  | SAPI_HEADER_DELETE_ALL
  | SAPI_HEADER_SET_STATUS int

text \<open>
  \<open>callback_func\<close> is the callback of \<open>header_register_callback\<close> by the operations it makes; \<open>zlib_off\<close> tells
  whether output compression was switched off, \<open>written\<close> is what went out by \<open>PHPWRITE_H\<close>.
\<close>

record sapi_globals =
  headers :: "sapi_header llist_state"
  http_response_code :: int
  send_default_content_type :: bool
  mimetype :: "string option"
  http_status_line :: "string option"
  headers_sent :: bool
  no_headers :: bool
  proto_num :: int
  request_method :: "string option"
  default_mimetype :: "string option"
  default_charset :: "string option"
  callback_func :: "header_op list option"
  rfc2616_headers :: bool
  nph :: bool
  zlib_off :: bool
  written :: string
  warnings :: "string list"

definition sapi_error :: "string \<Rightarrow> sapi_globals \<Rightarrow> sapi_globals" where
  "sapi_error msg s = s\<lparr>warnings := warnings s @ [msg]\<rparr>"

text \<open>A header for a text with its length, as the code makes them.\<close>

definition line_header :: "string \<Rightarrow> sapi_header" where
  "line_header t = \<lparr>header = t, header_len = length t\<rparr>"

section \<open>The content type\<close>

definition charset_of :: "sapi_globals \<Rightarrow> string" where
  "charset_of s = (case default_charset s of None \<Rightarrow> ''UTF-8'' | Some c \<Rightarrow> upto_nul c)"

definition get_default_content_type :: "sapi_globals \<Rightarrow> string" where
  "get_default_content_type s =
     (let mime = (case default_mimetype s of None \<Rightarrow> ''text/html'' | Some m \<Rightarrow> upto_nul m)
      in if charset_of s \<noteq> [] \<and> strncasecmp mime ''text/'' 5 = 0
         then mime @ ''; charset='' @ charset_of s else mime)"

text \<open>The new length, 0 when the type stays as it is, and the type.\<close>

definition sapi_apply_default_charset :: "string \<Rightarrow> nat \<Rightarrow> sapi_globals \<Rightarrow> nat \<times> string" where
  "sapi_apply_default_charset mime len s =
     (let charset = charset_of s
      in if charset \<noteq> [] \<and> strncmp mime ''text/'' 5 = 0 \<and> \<not> strstr mime ''charset=''
         then let newlen = len + 9 + length charset
              in (newlen, take newlen (take len mime @ '';charset='' @ charset))
         else (0, mime))"

section \<open>The response code\<close>

fun extract_code :: "string \<Rightarrow> int option" where
  "extract_code [] = Some 200"
| "extract_code (c # cs) = (if c = CHR '' '' \<and> take 1 cs \<noteq> '' '' then atoi cs else extract_code cs)"

definition sapi_extract_response_code :: "string \<Rightarrow> int option" where
  "sapi_extract_response_code header_line = extract_code (upto_nul header_line)"

definition sapi_update_response_code :: "int \<Rightarrow> sapi_globals \<Rightarrow> sapi_globals" where
  "sapi_update_response_code ncode s =
     (if http_response_code s = ncode then s else s\<lparr>http_status_line := None, http_response_code := ncode\<rparr>)"

section \<open>The list of headers\<close>

definition header_matches :: "string \<Rightarrow> nat \<Rightarrow> sapi_header \<Rightarrow> bool" where
  "header_matches name len h \<longleftrightarrow>
     len < header_len h \<and> nth_opt (header h) len = Some (CHR '':'') \<and> strncasecmp (header h) name len = 0"

text \<open>Removing an element as \<open>sapi_remove_header\<close> writes it out; the data is always freed.\<close>

definition take_out :: "ptr \<Rightarrow> 'a llist_state \<Rightarrow> 'a llist_state option" where
  "take_out current s = do {
     (l, h) \<leftarrow> unlink_element current s;
     e \<leftarrow> el_read current h;
     h \<leftarrow> el_free current (h\<lparr>destroyed := destroyed h @ [el_data e]\<rparr>);
     Some (l\<lparr>l_count := l_count l - 1\<rparr>, h)
   }"

partial_function (option) remove_header_loop :: "string \<Rightarrow> nat \<Rightarrow> ptr \<Rightarrow> sapi_header llist_state \<Rightarrow> sapi_header llist_state option" where
  "remove_header_loop name len current s =
     (if current = NULL then Some s
      else Option.bind (el_read current (snd s)) (\<lambda>e.
        Option.bind (if header_matches name len (el_data e) then take_out current s else Some s)
          (remove_header_loop name len (el_next e))))"

definition sapi_remove_header :: "string \<Rightarrow> nat \<Rightarrow> sapi_header llist_state \<Rightarrow> sapi_header llist_state option" where
  "sapi_remove_header name len s = remove_header_loop name len (l_head (fst s)) s"

definition sapi_header_add_op :: "bool \<Rightarrow> sapi_header \<Rightarrow> sapi_globals \<Rightarrow> sapi_globals option" where
  "sapi_header_add_op replace h s = do {
     hs \<leftarrow> (if replace
            then case strchr (header h) (CHR '':'') of
                   None \<Rightarrow> Some (headers s)
                 | Some i \<Rightarrow> sapi_remove_header (take i (header h)) i (headers s)
            else Some (headers s));
     hs \<leftarrow> zend_llist_add_element h hs;
     Some (s\<lparr>headers := hs\<rparr>)
   }"

section \<open>Header lines\<close>

text \<open>Cutting trailing white space, and the check of what is left.\<close>

definition rtrim :: "string \<Rightarrow> string" where
  "rtrim t = rev (dropWhile is_space (rev t))"

fun bad_line :: "string \<Rightarrow> string option" where
  "bad_line [] = None"
| "bad_line (c # cs) =
     (if c = CHR 0x0A \<or> c = CHR 0x0D then Some ''Header may not contain more than a single header, new line detected''
      else if c = CHR 0x00 then Some ''Header may not contain NUL bytes'' else bad_line cs)"

definition set_status_line :: "string \<Rightarrow> sapi_globals \<Rightarrow> sapi_globals option" where
  "set_status_line t s =
     map_option (\<lambda>code. (sapi_update_response_code code s)\<lparr>http_status_line := Some t\<rparr>) (sapi_extract_response_code t)"

text \<open>The colon is at \<open>i\<close>; the header keeps its line, or becomes a new one with the character set.\<close>

definition content_type_header :: "string \<Rightarrow> nat \<Rightarrow> sapi_globals \<Rightarrow> sapi_header \<times> sapi_globals" where
  "content_type_header t i s =
     (let rest = drop (i + 1) t;
          len = length (dropWhile (\<lambda>c. c = CHR '' '') rest);
          p = upto_nul (dropWhile (\<lambda>c. c = CHR '' '') rest);
          s = (if strncmp p ''image/'' 6 = 0 then s\<lparr>zlib_off := True\<rparr> else s);
          (newlen, mime) = sapi_apply_default_charset p len s;
          s = (if mimetype s = None then s\<lparr>mimetype := Some mime\<rparr> else s);
          h = (if newlen \<noteq> 0
               then let size = newlen + 15
                    in \<lparr>header = take (size - 1) (''Content-type: '' @ mime), header_len = size - 1\<rparr>
               else line_header t)
      in (h, s\<lparr>send_default_content_type := False\<rparr>))"

definition location_code :: "int \<Rightarrow> sapi_globals \<Rightarrow> sapi_globals" where
  "location_code code s =
     (if (http_response_code s < 300 \<or> 399 < http_response_code s) \<and> http_response_code s \<noteq> 201
      then if code \<noteq> 0 then sapi_update_response_code code s
           else if 1000 < proto_num s
                   \<and> (case request_method s of None \<Rightarrow> False | Some m \<Rightarrow> strcmp m ''HEAD'' \<noteq> 0 \<and> strcmp m ''GET'' \<noteq> 0)
                then sapi_update_response_code 303 s
                else sapi_update_response_code 302 s
      else s)"

definition special_header :: "string \<Rightarrow> int \<Rightarrow> sapi_globals \<Rightarrow> sapi_header \<times> sapi_globals" where
  "special_header t code s =
     (case strchr t (CHR '':'') of
        None \<Rightarrow> (line_header t, s)
      | Some i \<Rightarrow>
          if strcasecmp (take i t) ''Content-Type'' = 0 then content_type_header t i s
          else (line_header t,
            if strcasecmp (take i t) ''Content-Length'' = 0 then s\<lparr>zlib_off := True\<rparr>
            else if strcasecmp (take i t) ''Location'' = 0 then location_code code s
            else if strcasecmp (take i t) ''WWW-Authenticate'' = 0 then sapi_update_response_code 401 s
            else s))"

definition add_line :: "bool \<Rightarrow> sapi_header_line \<Rightarrow> sapi_globals \<Rightarrow> (bool \<times> sapi_globals) option" where
  "add_line replace p s =
     (case line p of
        None \<Rightarrow> Some (False, s)
      | Some t \<Rightarrow>
          if t = [] then Some (False, s)
          else let t = rtrim t
               in case bad_line t of
                    Some msg \<Rightarrow> Some (False, sapi_error msg s)
                  | None \<Rightarrow>
                      if 5 \<le> length t \<and> strncasecmp t ''HTTP/'' 5 = 0 then map_option (Pair True) (set_status_line t s)
                      else let code = int_of (response_code p);
                               (h, s) = special_header t code s;
                               s = (if code \<noteq> 0 then sapi_update_response_code code s else s)
                           in map_option (Pair True) (sapi_header_add_op replace h s))"

definition delete_line :: "sapi_header_line \<Rightarrow> sapi_globals \<Rightarrow> (bool \<times> sapi_globals) option" where
  "delete_line p s =
     (case line p of
        None \<Rightarrow> Some (False, s)
      | Some t \<Rightarrow>
          if t = [] then Some (False, s)
          else let t = rtrim t
               in if strchr t (CHR '':'') \<noteq> None
                  then Some (False, sapi_error ''Header to delete may not contain colon.'' s)
                  else map_option (\<lambda>hs. (True, s\<lparr>headers := hs\<rparr>)) (sapi_remove_header t (length t) (headers s)))"

text \<open>The result tells success from failure.\<close>

definition sapi_header_op :: "header_op \<Rightarrow> sapi_globals \<Rightarrow> (bool \<times> sapi_globals) option" where
  "sapi_header_op op s =
     (if headers_sent s \<and> \<not> no_headers s
      then Some (False, sapi_error ''Cannot modify header information - headers already sent'' s)
      else case op of
        SAPI_HEADER_SET_STATUS n \<Rightarrow> Some (True, sapi_update_response_code (int_of n) s)
      | SAPI_HEADER_ADD p \<Rightarrow> add_line False p s
      | SAPI_HEADER_REPLACE p \<Rightarrow> add_line True p s
      | SAPI_HEADER_DELETE p \<Rightarrow> delete_line p s
      | SAPI_HEADER_DELETE_ALL \<Rightarrow> map_option (\<lambda>hs. (True, s\<lparr>headers := hs\<rparr>)) (zend_llist_clean (headers s)))"

definition sapi_add_header_ex :: "string \<Rightarrow> bool \<Rightarrow> sapi_globals \<Rightarrow> (bool \<times> sapi_globals) option" where
  "sapi_add_header_ex t replace s =
     sapi_header_op ((if replace then SAPI_HEADER_REPLACE else SAPI_HEADER_ADD) \<lparr>line = Some t, response_code = 0\<rparr>) s"

section \<open>Sending\<close>

definition PHPWRITE_H :: "string \<Rightarrow> nat \<Rightarrow> sapi_globals \<Rightarrow> sapi_globals option" where
  "PHPWRITE_H t len s = (if len \<le> length t + 1 then Some (s\<lparr>written := written s @ take len (t @ [CHR 0x00])\<rparr>) else None)"

definition CRLF :: string where
  "CRLF = [CHR 0x0D, CHR 0x0A]"

definition SAPI_CGI_MAX_HEADER_LENGTH :: nat where
  "SAPI_CGI_MAX_HEADER_LENGTH = 1024"

definition http_status_map :: "(int \<times> string) list" where
  "http_status_map =
    [(100, ''Continue''), (101, ''Switching Protocols''), (200, ''OK''), (201, ''Created''), (202, ''Accepted''),
     (203, ''Non-Authoritative Information''), (204, ''No Content''), (205, ''Reset Content''), (206, ''Partial Content''),
     (300, ''Multiple Choices''), (301, ''Moved Permanently''), (302, ''Found''), (303, ''See Other''), (304, ''Not Modified''),
     (305, ''Use Proxy''), (307, ''Temporary Redirect''), (308, ''Permanent Redirect''), (400, ''Bad Request''),
     (401, ''Unauthorized''), (402, ''Payment Required''), (403, ''Forbidden''), (404, ''Not Found''),
     (405, ''Method Not Allowed''), (406, ''Not Acceptable''), (407, ''Proxy Authentication Required''),
     (408, ''Request Timeout''), (409, ''Conflict''), (410, ''Gone''), (411, ''Length Required''),
     (412, ''Precondition Failed''), (413, ''Request Entity Too Large''), (414, ''Request-URI Too Long''),
     (415, ''Unsupported Media Type''), (416, ''Requested Range Not Satisfiable''), (417, ''Expectation Failed''),
     (426, ''Upgrade Required''), (428, ''Precondition Required''), (429, ''Too Many Requests''),
     (431, ''Request Header Fields Too Large''), (451, ''Unavailable For Legal Reasons''), (500, ''Internal Server Error''),
     (501, ''Not Implemented''), (502, ''Bad Gateway''), (503, ''Service Unavailable''), (504, ''Gateway Timeout''),
     (505, ''HTTP Version Not Supported''), (506, ''Variant Also Negotiates''), (511, ''Network Authentication Required'')]"

text \<open>A header with a name, compared without case and with its colon.\<close>

definition starts_with :: "string \<Rightarrow> sapi_header \<Rightarrow> bool" where
  "starts_with name h \<longleftrightarrow> length name < header_len h \<and> strncasecmp (header h) name (length name) = 0"

text \<open>The search for a header \<open>Status:\<close>.\<close>

partial_function (option) find_status :: "(ptr \<times> sapi_header option) \<Rightarrow> sapi_header lheap \<Rightarrow> bool option" where
  "find_status p m = (case snd p of
     None \<Rightarrow> Some False
   | Some h \<Rightarrow> if starts_with ''Status:'' h then Some True
       else Option.bind (zend_llist_get_next_ex (fst p) m) (\<lambda>q. find_status q m))"

text \<open>The line made of the status line of the script, where there is one, and the code in it, which is undefined when it is no \<open>int\<close>.\<close>

definition own_status_line :: "sapi_globals \<Rightarrow> (string \<times> int option) option" where
  "own_status_line s =
     (case http_status_line s of
        None \<Rightarrow> None
      | Some t \<Rightarrow>
          if rfc2616_headers s
          then Some (slprintf SAPI_CGI_MAX_HEADER_LENGTH (upto_nul t @ CRLF),
                 case strchr t (CHR '' '') of None \<Rightarrow> Some (http_response_code s) | Some i \<Rightarrow> atoi (upto_nul (drop (i + 1) t)))
          else (case strchr t (CHR '' '') of
                  None \<Rightarrow> None
                | Some i \<Rightarrow>
                    if 5 \<le> i \<and> strncasecmp t ''HTTP/'' 5 = 0
                    then Some (slprintf SAPI_CGI_MAX_HEADER_LENGTH (''Status:'' @ upto_nul (drop i t) @ CRLF),
                           atoi (upto_nul (drop (i + 1) t)))
                    else None))"

definition code_line :: "int \<Rightarrow> string" where
  "code_line code = slprintf SAPI_CGI_MAX_HEADER_LENGTH
     (case map_of http_status_map code of
        Some str \<Rightarrow> ''Status: '' @ print_d code @ '' '' @ str @ CRLF
      | None \<Rightarrow> ''Status: '' @ print_d code @ CRLF)"

text \<open>The status line goes out; the code, and whether headers \<open>Status:\<close> are left out from here on.\<close>

definition write_status :: "sapi_globals \<Rightarrow> (int \<times> bool \<times> sapi_globals) option" where
  "write_status s =
     (if nph s \<or> http_response_code s \<noteq> 200
      then case own_status_line s of
             Some (t, code) \<Rightarrow> Option.bind code (\<lambda>code. map_option (\<lambda>s. (code, True, s)) (PHPWRITE_H t (length t) s))
           | None \<Rightarrow> do {
               p \<leftarrow> zend_llist_get_first_ex (headers s);
               has_status \<leftarrow> find_status p (snd (headers s));
               if has_status then Some (http_response_code s, False, s)
               else let t = code_line (http_response_code s)
                    in map_option (\<lambda>s'. (http_response_code s, True, s')) (PHPWRITE_H t (length t) s)
             }
      else Some (http_response_code s, False, s))"

definition write_line :: "sapi_header \<Rightarrow> sapi_globals \<Rightarrow> sapi_globals option" where
  "write_line h s = Option.bind (PHPWRITE_H (header h) (header_len h) s) (PHPWRITE_H CRLF 2)"

partial_function (option) write_headers :: "int \<Rightarrow> (ptr \<times> sapi_header option) \<Rightarrow> bool \<Rightarrow> sapi_globals \<Rightarrow> sapi_globals option" where
  "write_headers response_status p ignore_status s = (case snd p of
     None \<Rightarrow> Some s
   | Some h \<Rightarrow>
       Option.bind (zend_llist_get_next_ex (fst p) (snd (headers s))) (\<lambda>q.
         if header_len h = 0 then write_headers response_status q ignore_status s
         else if starts_with ''Status:'' h then
           (if ignore_status then write_headers response_status q ignore_status s
            else Option.bind (write_line h s) (write_headers response_status q True))
         else if response_status = 304 \<and> starts_with ''Content-Type:'' h then write_headers response_status q ignore_status s
         else Option.bind (write_line h s) (write_headers response_status q ignore_status)))"

definition sapi_cgi_send_headers :: "sapi_globals \<Rightarrow> sapi_globals option" where
  "sapi_cgi_send_headers s =
     (if no_headers s then Some s
      else do {
        (response_status, ignore_status, s) \<leftarrow> write_status s;
        p \<leftarrow> zend_llist_get_first_ex (headers s);
        s \<leftarrow> write_headers response_status p ignore_status s;
        PHPWRITE_H CRLF 2 s
      })"

definition add_default_type :: "sapi_globals \<Rightarrow> sapi_globals option" where
  "add_default_type s =
     (if send_default_content_type s
      then let mime = get_default_content_type s
           in map_option (\<lambda>s. s\<lparr>send_default_content_type := False\<rparr>)
                (if mime \<noteq> [] then sapi_header_add_op False (line_header (''Content-type: '' @ mime)) (s\<lparr>mimetype := Some mime\<rparr>)
                 else Some s)
      else Some s)"

definition run_header_callback :: "sapi_globals \<Rightarrow> sapi_globals option" where
  "run_header_callback s =
     (case callback_func s of
        None \<Rightarrow> Some s
      | Some ops \<Rightarrow> for_each (\<lambda>op s. map_option snd (sapi_header_op op s)) ops (s\<lparr>callback_func := None\<rparr>))"

definition sapi_send_headers :: "sapi_globals \<Rightarrow> sapi_globals option" where
  "sapi_send_headers s =
     (if headers_sent s \<or> no_headers s then Some s
      else do {
        s \<leftarrow> add_default_type s;
        s \<leftarrow> run_header_callback s;
        s \<leftarrow> sapi_cgi_send_headers (s\<lparr>headers_sent := True\<rparr>);
        Some (s\<lparr>http_status_line := None\<rparr>)
      })"

section \<open>The start and the end of a request\<close>

definition sapi_activate :: "sapi_globals \<Rightarrow> sapi_globals" where
  "sapi_activate s = s\<lparr>headers := (zend_llist_init True (fst (headers s)), snd (headers s)), send_default_content_type := True,
     http_status_line := None, mimetype := None, headers_sent := False, callback_func := None, no_headers := False,
     proto_num := 1000\<rparr>"

definition sapi_deactivate :: "sapi_globals \<Rightarrow> sapi_globals option" where
  "sapi_deactivate s = do {
     hs \<leftarrow> zend_llist_destroy (headers s);
     Some (s\<lparr>headers := hs, mimetype := None, http_status_line := None, headers_sent := False\<rparr>)
   }"

end
