(* ===== verification/Sapi_Lemmas.thy ===== *)
theory Sapi_Lemmas
  imports Sapi_Headers Zend_Llist_Lemmas
begin

text \<open>
  The operations on headers implement operations on a list of header lines, and what they put into the list
  and into the status line are single lines: no carriage return, no line feed, no null byte.
\<close>

section \<open>The interface to the list\<close>

text \<open>
  What the headers need of a list: adding at the end, removing what matches a key, emptying. The client's
  lemma is the replacement of a header, which removes and adds.
\<close>

locale keyed_list =
  fixes rep :: "'a list \<Rightarrow> 's \<Rightarrow> bool"
    and add :: "'a \<Rightarrow> 's \<Rightarrow> 's option"
    and remove :: "'k \<Rightarrow> 's \<Rightarrow> 's option"
    and matches :: "'k \<Rightarrow> 'a \<Rightarrow> bool"
    and clean :: "'s \<Rightarrow> 's option"
  assumes add_law: "rep xs s \<Longrightarrow> \<exists>t. add x s = Some t \<and> rep (xs @ [x]) t"
    and remove_law: "rep xs s \<Longrightarrow> \<exists>t. remove k s = Some t \<and> rep (filter (\<lambda>x. \<not> matches k x) xs) t"
    and clean_law: "rep xs s \<Longrightarrow> \<exists>t. clean s = Some t \<and> rep [] t"
begin

lemma replace_law:
  "rep xs s \<Longrightarrow> \<exists>t. Option.bind (remove k s) (add x) = Some t \<and> rep (filter (\<lambda>x. \<not> matches k x) xs @ [x]) t"
  using remove_law [of xs s k] add_law by fastforce

lemma replace_unique:
  assumes "rep xs s" and "matches k x"
  shows "\<exists>t ys. Option.bind (remove k s) (add x) = Some t \<and> rep ys t \<and> filter (matches k) ys = [x]"
  using replace_law [OF assms(1), of k x] assms(2) by fastforce

end

text \<open>The list of headers frees what it drops.\<close>

definition header_list :: "sapi_header list \<Rightarrow> sapi_header llist_state \<Rightarrow> bool" where
  "header_list xs s \<longleftrightarrow> holds xs s \<and> l_dtor (fst s)"

lemma unlink_dtor: "unlink_element p (l, h) = Some (l', h') \<Longrightarrow> l_dtor l' = l_dtor l"
  by (auto simp: unlink_element_def split: bind_splits if_splits)

lemma take_out_eq: "l_dtor l \<Longrightarrow> take_out p (l, h) = DEL_LLIST_ELEMENT p (l, h)"
  by (auto simp: take_out_def DEL_LLIST_ELEMENT_def call_dtor_def dest: unlink_dtor intro!: Option.bind_cong)

lemma take_out_deletes: "deletes True take_out"
  using DEL_deletes [of True] by (simp add: deletes_def take_out_eq)

lemma remove_header_run:
  assumes "header_list xs s"
  shows "\<exists>t. sapi_remove_header name len s = Some t \<and> header_list (filter (\<lambda>x. \<not> header_matches name len x) xs) t"
proof -
  obtain l h as where s: "s = (l, h)" "holds_at as xs (l, h)" "l_dtor l" using assms by (cases s) (auto simp: header_list_def holds_def)
  have "l_head l = (if as = [] then NULL else Some (hd as))" using dpath_first [OF holds_atD(1) [OF s(2)]] .
  then show ?thesis
    using filter_walk [where ls = "[]" and rs = as and xs = "[]" and ys = xs and l = l and h = h and d = True,
        OF remove_header_loop.simps take_out_deletes, of len name] s
    by (auto simp: sapi_remove_header_def header_list_def intro: holdsI)
qed

lemma add_header_run:
  assumes "header_list xs s"
  shows "\<exists>t. zend_llist_add_element x s = Some t \<and> header_list (xs @ [x]) t"
proof -
  obtain l h as where s: "s = (l, h)" "holds_at as xs (l, h)" "l_dtor l" using assms by (cases s) (auto simp: header_list_def holds_def)
  then show ?thesis using add_element_run [OF s(2), of x] by (auto simp: header_list_def intro: holdsI)
qed

lemma clean_headers_run:
  assumes "header_list xs s"
  shows "\<exists>t. zend_llist_clean s = Some t \<and> header_list [] t"
proof -
  obtain l h as where s: "s = (l, h)" "holds_at as xs (l, h)" "l_dtor l" using assms by (cases s) (auto simp: header_list_def holds_def)
  then show ?thesis using llist_clean_run [OF s(2)] by (auto simp: header_list_def intro: holdsI)
qed

interpretation hdr: keyed_list header_list zend_llist_add_element "\<lambda>(name, len). sapi_remove_header name len"
    "\<lambda>(name, len). header_matches name len" zend_llist_clean
proof unfold_locales
  fix xs :: "sapi_header list" and s x and k :: "string \<times> nat"
  assume rep: "header_list xs s"
  show "\<exists>t. zend_llist_add_element x s = Some t \<and> header_list (xs @ [x]) t" using rep by (rule add_header_run)
  show "\<exists>t. (case k of (name, len) \<Rightarrow> sapi_remove_header name len) s = Some t
      \<and> header_list (filter (\<lambda>x. \<not> (case k of (name, len) \<Rightarrow> header_matches name len) x) xs) t"
    using remove_header_run [OF rep] by (cases k) simp
  show "\<exists>t. zend_llist_clean s = Some t \<and> header_list [] t" using rep by (rule clean_headers_run)
qed

section \<open>What the operations mean for the lines\<close>

definition plain_line :: "string \<Rightarrow> bool" where
  "plain_line t \<longleftrightarrow> CHR 0x0D \<notin> set t \<and> CHR 0x0A \<notin> set t \<and> CHR 0x00 \<notin> set t"

definition name_of :: "string \<Rightarrow> string" where
  "name_of t = map tolower (takeWhile (\<lambda>c. c \<noteq> CHR '':'') t)"

text \<open>\<open>t\<close> is a header with the name \<open>n\<close>, which is in lower case.\<close>

definition named :: "string \<Rightarrow> string \<Rightarrow> bool" where
  "named n t \<longleftrightarrow> CHR '':'' \<in> set t \<and> name_of t = n"

definition status_like :: "string \<Rightarrow> bool" where
  "status_like t \<longleftrightarrow> map tolower (take 5 t) = ''http/''"

text \<open>The text of the header that a line becomes: a text type gets the character set \<open>cs\<close>.\<close>

definition final_text :: "string \<Rightarrow> string \<Rightarrow> string" where
  "final_text cs t =
     (let rest = dropWhile (\<lambda>c. c = CHR '' '') (List.tl (dropWhile (\<lambda>c. c \<noteq> CHR '':'') t))
      in if named ''content-type'' t \<and> cs \<noteq> [] \<and> take 5 rest = ''text/'' \<and> \<not> contains rest ''charset=''
         then ''Content-type: '' @ rest @ '';charset='' @ cs else t)"

definition add_text :: "bool \<Rightarrow> string \<Rightarrow> string option \<Rightarrow> string list \<Rightarrow> string list" where
  "add_text replace cs l ts =
     (case l of None \<Rightarrow> ts
      | Some l \<Rightarrow> let t = rtrim l; u = final_text cs t
          in if l = [] \<or> \<not> plain_line t \<or> status_like t then ts
             else (if replace \<and> CHR '':'' \<in> set u then filter (\<lambda>x. \<not> named (name_of u) x) ts else ts) @ [u])"

fun spec_op :: "string \<Rightarrow> header_op \<Rightarrow> string list \<Rightarrow> string list" where
  "spec_op cs (SAPI_HEADER_ADD p) ts = add_text False cs (line p) ts"
| "spec_op cs (SAPI_HEADER_REPLACE p) ts = add_text True cs (line p) ts"
| "spec_op cs (SAPI_HEADER_DELETE p) ts =
     (case line p of None \<Rightarrow> ts
      | Some l \<Rightarrow> let t = rtrim l
          in if l = [] \<or> CHR '':'' \<in> set (upto_nul t) then ts else filter (\<lambda>x. \<not> named (map tolower t) x) ts)"
| "spec_op cs SAPI_HEADER_DELETE_ALL ts = []"
| "spec_op cs (SAPI_HEADER_SET_STATUS n) ts = ts"

section \<open>Lines\<close>

lemma plain_line_simps [simp]:
  "plain_line []" "plain_line (c # t) \<longleftrightarrow> c \<noteq> CHR 0x0D \<and> c \<noteq> CHR 0x0A \<and> c \<noteq> CHR 0x00 \<and> plain_line t"
  "plain_line (t @ u) \<longleftrightarrow> plain_line t \<and> plain_line u"
  by (auto simp: plain_line_def)

lemma plain_sub: "plain_line t \<Longrightarrow> set u \<subseteq> set t \<Longrightarrow> plain_line u"
  by (auto simp: plain_line_def)

lemma plain_nul [simp]: "plain_line t \<Longrightarrow> CHR 0x00 \<notin> set t"
  by (simp add: plain_line_def)

lemma bad_line_None: "bad_line t = None \<longleftrightarrow> plain_line t"
  by (induction t) (auto simp: plain_line_def)

lemma prefix_before:
  assumes "i < length x" and "x ! i = c" and "c \<notin> set (take i x)"
  shows "takeWhile (\<lambda>d. d \<noteq> c) x = take i x" "dropWhile (\<lambda>d. d \<noteq> c) x = drop i x"
proof -
  have x: "x = take i x @ c # drop (Suc i) x" using assms(1,2) id_take_nth_drop [of i x] by simp
  show "takeWhile (\<lambda>d. d \<noteq> c) x = take i x" by (subst x, subst takeWhile_append2) (use assms(3) in auto)
  have "dropWhile (\<lambda>d. d \<noteq> c) x = c # drop (Suc i) x" by (subst x, subst dropWhile_append2) (use assms(3) in auto)
  then show "dropWhile (\<lambda>d. d \<noteq> c) x = drop i x" using assms(2) Cons_nth_drop_Suc [OF assms(1)] by simp
qed

lemma strchr_plain:
  assumes "plain_line t"
  shows "strchr t c = (if c \<in> set t then Some (length (takeWhile (\<lambda>d. d \<noteq> c) t)) else None)"
proof -
  have "length (takeWhile (\<lambda>d. d \<noteq> c) t) < length t \<longleftrightarrow> c \<in> set t"
  proof -
    have "length (takeWhile (\<lambda>d. d \<noteq> c) t) < length t \<longleftrightarrow> takeWhile (\<lambda>d. d \<noteq> c) t \<noteq> t"
      by (metis length_takeWhile_le nat_less_le takeWhile_eq_take take_all_iff order_refl)
    then show ?thesis by (auto simp: takeWhile_eq_all_conv)
  qed
  then show ?thesis using assms by (simp add: strchr_def Let_def)
qed

text \<open>The test of the list for a name without a colon.\<close>

lemma header_matches_named:
  assumes "plain_line x" and "CHR 0x00 \<notin> set n" and "CHR '':'' \<notin> set n"
  shows "header_matches n (length n) (line_header x) \<longleftrightarrow> named (map tolower n) x"
proof
  assume "header_matches n (length n) (line_header x)"
  then have m: "length n < length x" "x ! length n = CHR '':''" "map tolower (take (length n) x) = map tolower n"
    using assms by (auto simp: header_matches_def line_header_def nth_opt_eq_Some strncasecmp_0)
  have "CHR '':'' \<notin> set (map tolower n)" using assms(3) by simp
  then have "CHR '':'' \<notin> set (map tolower (take (length n) x))" by (simp only: m(3) not_False_eq_True)
  then have "CHR '':'' \<notin> set (take (length n) x)" by simp
  then have "takeWhile (\<lambda>d. d \<noteq> CHR '':'') x = take (length n) x" by (rule prefix_before [OF m(1,2)])
  then show "named (map tolower n) x" using m nth_mem [OF m(1)] by (simp add: named_def name_of_def)
next
  assume "named (map tolower n) x"
  then have n: "CHR '':'' \<in> set x" "map tolower (takeWhile (\<lambda>c. c \<noteq> CHR '':'') x) = map tolower n"
    by (simp_all add: named_def name_of_def)
  let ?w = "takeWhile (\<lambda>c. c \<noteq> CHR '':'') x"
  have len: "length ?w = length n" using n(2) by (metis length_map)
  have lt: "length ?w < length x" using n(1) strchr_plain [OF assms(1), of "CHR '':''"] strchr_Some(1) by metis
  have "x ! length ?w = CHR '':''" using nth_length_takeWhile [OF lt] by simp
  moreover have "take (length n) x = ?w" using len takeWhile_eq_take by metis
  ultimately show "header_matches n (length n) (line_header x)" using len lt n(2) assms
    by (simp add: header_matches_def line_header_def nth_opt_eq_Some strncasecmp_0)
qed

section \<open>The operations\<close>

definition mime_of :: "sapi_globals \<Rightarrow> string" where
  "mime_of s = (case default_mimetype s of None \<Rightarrow> ''text/html'' | Some m \<Rightarrow> upto_nul m)"

text \<open>The number behind the first space of a status line, 0 where there is none.\<close>

definition code_of :: "string \<Rightarrow> int" where
  "code_of t = number_of_text (List.tl (dropWhile (\<lambda>c. c \<noteq> CHR '' '') t))"

text \<open>
  The state holds the lines \<open>ts\<close>, and all that goes into an answer are single lines: this needs the two
  settings \<open>default_charset\<close> and \<open>default_mimetype\<close> to be single lines, which nothing checks. The status line
  fits its buffer, and its code an \<open>int\<close>.
\<close>

definition header_ok :: "string list \<Rightarrow> sapi_globals \<Rightarrow> bool" where
  "header_ok ts s \<longleftrightarrow> header_list (map line_header ts) (headers s) \<and> (\<forall>t \<in> set ts. plain_line t)
     \<and> plain_line (charset_of s) \<and> plain_line (mime_of s)
     \<and> (\<forall>t. http_status_line s = Some t \<longrightarrow> plain_line t \<and> status_like t \<and> int32 (code_of t) \<and> length t < 1015)
     \<and> int32 (http_response_code s)"

lemma int_of_int32 [simp]: "int32 (int_of n)"
  using pos_mod_bound [of "2 ^ 32" "n + 2 ^ 31"] pos_mod_sign [of "2 ^ 32" "n + 2 ^ 31"] by (simp add: int32_def int_of_def)

lemma int_of_0 [simp]: "int_of 0 = 0"
  by (simp add: int_of_def)

text \<open>The code in a status line is a value of the type \<open>int\<close>, and a status line is not too long for its buffer.\<close>

definition line_fits :: "sapi_header_line \<Rightarrow> bool" where
  "line_fits p \<longleftrightarrow> (\<forall>l. line p = Some l \<and> status_like (rtrim l) \<longrightarrow>
     int32 (code_of (rtrim l)) \<and> length (rtrim l) < 1015)"

fun op_fits :: "header_op \<Rightarrow> bool" where
  "op_fits (SAPI_HEADER_ADD p) = line_fits p"
| "op_fits (SAPI_HEADER_REPLACE p) = line_fits p"
| "op_fits _ = True"

text \<open>What changes besides the list: code, status line, compression, type, warnings.\<close>

definition same_setting :: "sapi_globals \<Rightarrow> sapi_globals \<Rightarrow> bool" where
  "same_setting s u \<longleftrightarrow> default_charset u = default_charset s \<and> default_mimetype u = default_mimetype s
     \<and> headers_sent u = headers_sent s \<and> no_headers u = no_headers s \<and> callback_func u = callback_func s
     \<and> rfc2616_headers u = rfc2616_headers s \<and> nph u = nph s \<and> written u = written s"

definition slight :: "sapi_globals \<Rightarrow> sapi_globals \<Rightarrow> bool" where
  "slight s u \<longleftrightarrow> same_setting s u \<and> headers u = headers s \<and> (http_status_line u = http_status_line s \<or> http_status_line u = None)
     \<and> (int32 (http_response_code s) \<longrightarrow> int32 (http_response_code u))"

lemma same_setting_refl [simp]: "same_setting s s"
  by (simp add: same_setting_def)

lemma same_setting_trans: "same_setting s u \<Longrightarrow> same_setting u v \<Longrightarrow> same_setting s v"
  by (simp add: same_setting_def)

lemma same_setting_of: "same_setting s u \<Longrightarrow> charset_of u = charset_of s \<and> mime_of u = mime_of s"
  by (simp add: same_setting_def charset_of_def mime_of_def)

lemma slight_refl [simp]: "slight s s"
  by (simp add: slight_def)

lemma slight_trans: "slight s u \<Longrightarrow> slight u v \<Longrightarrow> slight s v"
  by (auto simp: slight_def intro: same_setting_trans)

lemma slight_updates [simp]:
  "slight s (s\<lparr>zlib_off := b\<rparr>)" "slight s (s\<lparr>mimetype := m\<rparr>)" "slight s (s\<lparr>send_default_content_type := b\<rparr>)" "slight s (sapi_error msg s)"
  by (simp_all add: slight_def same_setting_def sapi_error_def)

lemma slight_update: "int32 n \<Longrightarrow> slight s (sapi_update_response_code n s)"
  by (simp add: slight_def same_setting_def sapi_update_response_code_def)

lemma slight_ok: "header_ok ts s \<Longrightarrow> slight s u \<Longrightarrow> header_ok ts u"
  using same_setting_of [of s u] by (auto simp: header_ok_def slight_def)

lemma int32_small [simp]: "int32 302" "int32 303" "int32 401" "int32 200"
  by (simp_all add: int32_def)

lemma location_slight: "int32 code \<Longrightarrow> slight s (location_code code s)"
  by (simp add: location_code_def slight_update)

lemma lower_names [simp]: "map tolower ''Content-Type'' = ''content-type''" "map tolower ''HTTP/'' = ''http/''"
  by (code_simp)+

lemma apply_charset_text:
  assumes "plain_line p"
  shows "sapi_apply_default_charset p (length p) s =
    (if charset_of s \<noteq> [] \<and> take 5 p = ''text/'' \<and> \<not> contains p ''charset=''
     then (length p + 9 + length (charset_of s), p @ '';charset='' @ charset_of s) else (0, p))"
  using assms by (simp add: sapi_apply_default_charset_def Let_def strncmp_0 strstr_def)

lemma content_type_run:
  assumes t: "plain_line t" and i: "strchr t (CHR '':'') = Some i" and ct: "named ''content-type'' t"
  shows "fst (content_type_header t i s) = line_header (final_text (charset_of s) t) \<and> slight s (snd (content_type_header t i s))"
proof -
  note ix = strchr_Some [OF i]
  define p where "p = dropWhile (\<lambda>c. c = CHR '' '') (drop (i + 1) t)"
  have "set p \<subseteq> set t" unfolding p_def by (meson set_dropWhileD set_drop_subset subset_iff)
  then have p: "plain_line p" using t by (rule plain_sub [rotated])
  have rest: "dropWhile (\<lambda>c. c = CHR '' '') (List.tl (dropWhile (\<lambda>c. c \<noteq> CHR '':'') t)) = p"
    using prefix_before(2) [OF ix(1-3)] by (simp add: p_def tl_drop drop_Suc)
  let ?sz = "if strncmp p ''image/'' 6 = 0 then s\<lparr>zlib_off := True\<rparr> else s"
  have s1: "slight s ?sz" "charset_of ?sz = charset_of s" by (simp_all add: charset_of_def)
  let ?ext = "charset_of s \<noteq> [] \<and> take 5 p = ''text/'' \<and> \<not> contains p ''charset=''"
  have app: "sapi_apply_default_charset p (length p) ?sz =
      (if ?ext then (length p + 9 + length (charset_of s), p @ '';charset='' @ charset_of s) else (0, p))"
    using apply_charset_text [OF p, of ?sz] unfolding s1(2) .
  have shape: "final_text (charset_of s) t = (if ?ext then ''Content-type: '' @ p @ '';charset='' @ charset_of s else t)"
    using ct unfolding final_text_def rest Let_def by simp
  have "fst (content_type_header t i s) = line_header (final_text (charset_of s) t)"
    unfolding content_type_header_def Let_def p_def [symmetric] upto_nul_plain [OF plain_nul [OF p]] app shape
    by (simp add: line_header_def)
  moreover have "slight s (snd (content_type_header t i s))"
    unfolding content_type_header_def Let_def p_def [symmetric] upto_nul_plain [OF plain_nul [OF p]] app
    by (auto simp: slight_def same_setting_def)
  ultimately show ?thesis by blast
qed

lemma content_type_name:
  assumes t: "plain_line t" and i: "strchr t (CHR '':'') = Some i"
  shows "strcasecmp (take i t) ''Content-Type'' = 0 \<longleftrightarrow> named ''content-type'' t"
proof -
  note ix = strchr_Some [OF i]
  show ?thesis
    using strcasecmp_0 [of "take i t" "''Content-Type''", unfolded lower_names] ix(4) prefix_before(1) [OF ix(1-3)] nth_mem [OF ix(1)] ix(2)
    by (simp add: named_def name_of_def)
qed

lemma location_headers [simp]: "headers (location_code code s) = headers s"
  by (simp add: location_code_def sapi_update_response_code_def)

lemma update_headers [simp]: "headers (sapi_update_response_code n s) = headers s"
  by (simp add: sapi_update_response_code_def)

lemma special_text:
  assumes t: "plain_line t"
  shows "fst (special_header t code s) = line_header (final_text (charset_of s) t) \<and> headers (snd (special_header t code s)) = headers s"
proof (cases "strchr t (CHR '':'')")
  case None
  then have "CHR '':'' \<notin> set t" using t by (simp add: strchr_None)
  then show ?thesis using None by (simp add: special_header_def final_text_def named_def)
next
  case (Some i)
  show ?thesis
  proof (cases "named ''content-type'' t")
    case True
    then show ?thesis using content_type_run [OF t Some True, of s] content_type_name [OF t Some] Some
      by (simp add: special_header_def slight_def)
  next
    case False
    then show ?thesis using content_type_name [OF t Some] Some by (simp add: special_header_def final_text_def)
  qed
qed

lemma special_run:
  assumes t: "plain_line t" and code: "int32 code"
  shows "fst (special_header t code s) = line_header (final_text (charset_of s) t) \<and> slight s (snd (special_header t code s))"
proof (cases "strchr t (CHR '':'')")
  case None
  then show ?thesis using special_text [OF t, of code s] by (simp add: special_header_def)
next
  case (Some i)
  show ?thesis
  proof (cases "named ''content-type'' t")
    case True
    then show ?thesis using content_type_run [OF t Some True] content_type_name [OF t Some] Some by (simp add: special_header_def)
  next
    case False
    then show ?thesis using content_type_name [OF t Some] Some code
      by (simp add: special_header_def final_text_def location_slight slight_update)
  qed
qed

text \<open>A line goes into the list; the key of a replacement is the text before its colon.\<close>

lemma header_ok_list: "header_ok ts s \<Longrightarrow> header_list (map line_header ts) (headers s)"
  by (simp add: header_ok_def)

lemma filter_headers:
  assumes "\<forall>t \<in> set ts. plain_line t" and "CHR 0x00 \<notin> set n" and "CHR '':'' \<notin> set n"
  shows "filter (\<lambda>x. \<not> header_matches n (length n) x) (map line_header ts) = map line_header (filter (\<lambda>t. \<not> named (map tolower n) t) ts)"
  using assms header_matches_named [of _ n] by (induction ts) auto

lemma header_ok_headers:
  assumes "header_ok ts s" and "header_list (map line_header us) hs" and "\<forall>u \<in> set us. plain_line u"
  shows "header_ok us (s\<lparr>headers := hs\<rparr>)"
  using assms by (simp add: header_ok_def charset_of_def mime_of_def)

lemma add_op_run:
  assumes ok: "header_ok ts s" and u: "plain_line u"
  shows "\<exists>v. sapi_header_add_op replace (line_header u) s = Some v \<and> same_setting s v
    \<and> http_status_line v = http_status_line s \<and> http_response_code v = http_response_code s
    \<and> header_ok ((if replace \<and> CHR '':'' \<in> set u then filter (\<lambda>x. \<not> named (name_of u) x) ts else ts) @ [u]) v"
proof -
  note hl = header_ok_list [OF ok]
  have plain: "\<forall>t \<in> set ts. plain_line t" using ok by (simp add: header_ok_def)
  show ?thesis
  proof (cases "replace \<and> CHR '':'' \<in> set u")
    case True
    let ?n = "takeWhile (\<lambda>c. c \<noteq> CHR '':'') u"
    have i: "strchr u (CHR '':'') = Some (length ?n)" using True u by (simp add: strchr_plain)
    have n: "take (length ?n) u = ?n" "CHR 0x00 \<notin> set ?n" "CHR '':'' \<notin> set ?n"
      by (rule takeWhile_eq_take [symmetric]) (use plain_nul [OF u] in \<open>blast dest: set_takeWhileD\<close>)+
    obtain hs where hs: "Option.bind (sapi_remove_header ?n (length ?n) (headers s)) (zend_llist_add_element (line_header u)) = Some hs"
      "header_list (filter (\<lambda>x. \<not> header_matches ?n (length ?n) x) (map line_header ts) @ [line_header u]) hs"
      using hdr.replace_law [OF hl, of "(?n, length ?n)" "line_header u"] by auto
    have "header_list (map line_header (filter (\<lambda>x. \<not> named (name_of u) x) ts @ [u])) hs"
      using hs(2) filter_headers [OF plain n(2,3)] by (simp add: name_of_def)
    then have "header_ok (filter (\<lambda>x. \<not> named (name_of u) x) ts @ [u]) (s\<lparr>headers := hs\<rparr>)"
      using plain u by (intro header_ok_headers [OF ok]) auto
    moreover obtain m where "sapi_remove_header ?n (length ?n) (headers s) = Some m" "zend_llist_add_element (line_header u) m = Some hs"
      using hs(1) by (cases "sapi_remove_header ?n (length ?n) (headers s)") auto
    then have "sapi_header_add_op replace (line_header u) s = Some (s\<lparr>headers := hs\<rparr>)"
      using True i n(1) by (simp add: sapi_header_add_op_def line_header_def)
    ultimately show ?thesis using True by (simp add: same_setting_def)
  next
    case False
    obtain hs where hs: "zend_llist_add_element (line_header u) (headers s) = Some hs" "header_list (map line_header ts @ [line_header u]) hs"
      using hdr.add_law [OF hl] by blast
    have "strchr u (CHR '':'') = None" if replace using that False u by (simp add: strchr_plain)
    then have "sapi_header_add_op replace (line_header u) s = Some (s\<lparr>headers := hs\<rparr>)"
      using hs(1) by (cases replace) (simp_all add: sapi_header_add_op_def line_header_def)
    moreover have "header_ok (ts @ [u]) (s\<lparr>headers := hs\<rparr>)" using plain u hs(2) by (intro header_ok_headers [OF ok]) auto
    ultimately show ?thesis using False by (auto simp: same_setting_def)
  qed
qed

lemma final_plain: "plain_line t \<Longrightarrow> plain_line cs \<Longrightarrow> plain_line (final_text cs t)"
proof -
  assume t: "plain_line t" "plain_line cs"
  let ?rest = "dropWhile (\<lambda>c. c = CHR '' '') (List.tl (dropWhile (\<lambda>c. c \<noteq> CHR '':'') t))"
  have tl: "set (List.tl xs) \<subseteq> set xs" for xs :: string by (cases xs) auto
  have "set ?rest \<subseteq> set t" using tl [of "dropWhile (\<lambda>c. c \<noteq> CHR '':'') t"] by (auto dest!: set_dropWhileD)
  then have "plain_line ?rest" using t(1) by (rule plain_sub [rotated])
  then show ?thesis using t by (simp add: final_text_def Let_def)
qed

lemma status_like_iff:
  assumes "plain_line t"
  shows "5 \<le> length t \<and> strncasecmp t ''HTTP/'' 5 = 0 \<longleftrightarrow> status_like t"
proof -
  have e: "strncasecmp t ''HTTP/'' 5 = 0 \<longleftrightarrow> map tolower (take 5 t) = ''http/''"
    using strncasecmp_0 [of t "''HTTP/''" 5] plain_nul [OF assms] lower_names(2) by simp
  have "5 \<le> length t" if "map tolower (take 5 t) = ''http/''"
    using arg_cong [OF that, of length] by simp
  then show ?thesis using e by (auto simp: status_like_def)
qed

text \<open>The code of a status line without white space at its end.\<close>

lemma number_of_space: "number_of_text (CHR '' '' # t) = number_of_text t"
  by (simp add: number_of_text_def is_space_def)

lemma extract_code_run:
  assumes "t \<noteq> [] \<Longrightarrow> List.last t \<noteq> CHR '' ''"
  shows "extract_code t = (if CHR '' '' \<in> set t then atoi (List.tl (dropWhile (\<lambda>c. c \<noteq> CHR '' '') t)) else Some 200)"
  using assms
proof (induction t)
  case Nil
  then show ?case by simp
next
  case (Cons c cs)
  have l: "cs \<noteq> [] \<Longrightarrow> List.last cs \<noteq> CHR '' ''" using Cons.prems by auto
  note IH = Cons.IH [OF l]
  show ?case
  proof (cases "c = CHR '' '' \<and> take 1 cs = '' ''")
    case True
    then obtain ds where cs: "cs = CHR '' '' # ds" by (cases cs) auto
    then have "atoi cs = atoi ds" by (simp add: atoi_def number_of_space)
    then show ?thesis using True IH cs by simp
  next
    case False
    then show ?thesis using IH by auto
  qed
qed

lemma rtrim_last: "rtrim l \<noteq> [] \<Longrightarrow> List.last (rtrim l) \<noteq> CHR '' ''"
proof -
  assume "rtrim l \<noteq> []"
  then have ne: "dropWhile is_space (rev l) \<noteq> []" by (simp add: rtrim_def)
  have "\<not> is_space (hd (dropWhile is_space (rev l)))" using hd_dropWhile [OF ne] .
  then show "List.last (rtrim l) \<noteq> CHR '' ''" using ne by (auto simp: rtrim_def last_rev is_space_def)
qed

lemma extract_response_run:
  assumes "plain_line (rtrim l)"
  shows "sapi_extract_response_code (rtrim l) =
    (if int32 (code_of (rtrim l)) then Some (if CHR '' '' \<in> set (rtrim l) then code_of (rtrim l) else 200) else None)"
proof -
  have "code_of (rtrim l) = 0" if "CHR '' '' \<notin> set (rtrim l)"
  proof -
    have "dropWhile (\<lambda>c. c \<noteq> CHR '' '') (rtrim l) = []" using that by (auto simp: dropWhile_eq_Nil_conv)
    then show ?thesis unfolding code_of_def by (simp only:) (simp add: number_of_text_def)
  qed
  then show ?thesis using extract_code_run [OF rtrim_last, of l] plain_nul [OF assms]
    by (simp add: sapi_extract_response_code_def code_of_def atoi_def int32_def)
qed

lemma status_line_run:
  assumes "plain_line (rtrim l)"
  shows "set_status_line (rtrim l) s = (if int32 (code_of (rtrim l))
    then Some ((sapi_update_response_code (if CHR '' '' \<in> set (rtrim l) then code_of (rtrim l) else 200) s)\<lparr>http_status_line := Some (rtrim l)\<rparr>)
    else None)"
  using extract_response_run [OF assms] by (simp add: set_status_line_def)

lemma add_line_run:
  assumes ok: "header_ok ts s" and fits: "line_fits p"
  shows "\<exists>b u. add_line replace p s = Some (b, u) \<and> same_setting s u \<and> header_ok (add_text replace (charset_of s) (line p) ts) u"
proof (cases "line p = None \<or> line p = Some []")
  case True
  then show ?thesis using ok by (auto simp: add_line_def add_text_def)
next
  case False
  then obtain l where l: "line p = Some l" "l \<noteq> []" by auto
  let ?t = "rtrim l"
  show ?thesis
  proof (cases "plain_line ?t")
    case bad: False
    then obtain msg where "bad_line ?t = Some msg" using bad_line_None by (cases "bad_line ?t") auto
    then have "add_line replace p s = Some (False, sapi_error msg s)" using l by (simp add: add_line_def Let_def)
    moreover have "slight s (sapi_error msg s)" by simp
    ultimately show ?thesis using l bad slight_ok [OF ok] by (auto simp: add_text_def Let_def slight_def)
  next
    case t: True
    then have nb: "bad_line ?t = None" by (simp add: bad_line_None)
    show ?thesis
    proof (cases "status_like ?t")
      case True
      let ?u = "sapi_update_response_code (if CHR '' '' \<in> set ?t then code_of ?t else 200) s"
      have f: "int32 (code_of ?t)" "length ?t < 1015" using fits l True by (simp_all add: line_fits_def)
      then have run: "add_line replace p s = Some (True, ?u\<lparr>http_status_line := Some ?t\<rparr>)"
        using l nb True by (simp add: add_line_def Let_def status_like_iff [OF t] status_line_run [OF t])
      have "slight s ?u" using f(1) by (intro slight_update) simp
      then have "same_setting s (?u\<lparr>http_status_line := Some ?t\<rparr>)" "header_ok ts (?u\<lparr>http_status_line := Some ?t\<rparr>)"
        using slight_ok [OF ok, of ?u] True t f
        by (simp_all add: header_ok_def slight_def same_setting_def charset_of_def mime_of_def)
      then show ?thesis using run True l by (auto simp: add_text_def Let_def)
    next
      case False
      have code: "int32 (int_of (response_code p))" by simp
      obtain h u where hu: "special_header ?t (int_of (response_code p)) s = (h, u)" by (cases "special_header ?t (int_of (response_code p)) s")
      then have h: "h = line_header (final_text (charset_of s) ?t)" "slight s u"
        using special_run [OF t code, of s] by simp_all
      let ?v = "if int_of (response_code p) \<noteq> 0 then sapi_update_response_code (int_of (response_code p)) u else u"
      have v: "slight s ?v" using slight_trans [OF h(2) slight_update [OF code]] h(2) by simp
      have "plain_line (charset_of s)" using ok by (simp add: header_ok_def)
      from add_op_run [OF slight_ok [OF ok v] final_plain [OF t this], of replace] obtain w where
        w: "sapi_header_add_op replace h ?v = Some w" "same_setting ?v w"
          "header_ok ((if replace \<and> CHR '':'' \<in> set (final_text (charset_of s) ?t)
             then filter (\<lambda>x. \<not> named (name_of (final_text (charset_of s) ?t)) x) ts else ts) @ [final_text (charset_of s) ?t]) w"
        using h(1) by blast
      have "add_line replace p s = Some (True, w)"
        using l nb False hu w(1) by (simp add: add_line_def Let_def status_like_iff [OF t])
      moreover have "same_setting s w" using v w(2) same_setting_trans by (auto simp: slight_def)
      ultimately show ?thesis using w(3) l t False by (auto simp: add_text_def Let_def)
    qed
  qed
qed

text \<open>A name with a null byte matches no header.\<close>

lemma matches_nul:
  assumes "plain_line x" and "CHR 0x00 \<in> set n"
  shows "\<not> header_matches n (length n) (line_header x)" "\<not> named (map tolower n) x"
proof -
  have "length (upto_nul n) < length n"
    using assms(2) set_upto_nul [of n] by (metis upto_nul_def length_takeWhile_le nat_less_le takeWhile_eq_take take_all_iff order_refl)
  moreover have "map tolower (take (length n) x) \<noteq> map tolower (take (length n) (upto_nul n))" if "length n < length x"
  proof
    assume "map tolower (take (length n) x) = map tolower (take (length n) (upto_nul n))"
    then have "length (take (length n) x) = length (take (length n) (upto_nul n))" by (metis length_map)
    then show False using that calculation by simp
  qed
  moreover have "strncasecmp x n (length n) = 0 \<longleftrightarrow> map tolower (take (length n) x) = map tolower (take (length n) (upto_nul n))"
    using plain_nul [OF assms(1)] set_upto_nul [of n] unfolding strncasecmp_def
    by (subst bytes_cmp_0) (auto dest: in_set_takeD)
  ultimately show "\<not> header_matches n (length n) (line_header x)" by (auto simp: header_matches_def line_header_def)
  have "CHR 0x00 \<notin> set (name_of x)" using plain_nul [OF assms(1)] by (auto simp: name_of_def dest: set_takeWhileD)
  moreover have "CHR 0x00 \<in> set (map tolower n)" using assms(2) by simp
  ultimately show "\<not> named (map tolower n) x" by (auto simp: named_def)
qed

lemma delete_filter:
  assumes "\<forall>t \<in> set ts. plain_line t" and "CHR '':'' \<notin> set (upto_nul n)"
  shows "filter (\<lambda>x. \<not> header_matches n (length n) x) (map line_header ts) = map line_header (filter (\<lambda>t. \<not> named (map tolower n) t) ts)"
proof (cases "CHR 0x00 \<in> set n")
  case True
  then show ?thesis using assms(1) matches_nul [of _ n] by (induction ts) auto
next
  case False
  then show ?thesis using assms by (intro filter_headers) simp_all
qed

lemma delete_line_run:
  assumes ok: "header_ok ts s"
  shows "\<exists>b u. delete_line p s = Some (b, u) \<and> same_setting s u \<and> header_ok (spec_op (charset_of s) (SAPI_HEADER_DELETE p) ts) u"
proof (cases "line p = None \<or> line p = Some []")
  case True
  then show ?thesis using ok by (auto simp: delete_line_def)
next
  case False
  then obtain l where l: "line p = Some l" "l \<noteq> []" by auto
  have plain: "\<forall>t \<in> set ts. plain_line t" using ok by (simp add: header_ok_def)
  show ?thesis
  proof (cases "CHR '':'' \<in> set (upto_nul (rtrim l))")
    case True
    then have "strchr (rtrim l) (CHR '':'') \<noteq> None" by (simp add: strchr_None del: not_None_eq)
    then have "delete_line p s = Some (False, sapi_error ''Header to delete may not contain colon.'' s)"
      using l by (simp add: delete_line_def Let_def del: not_None_eq)
    moreover have "slight s (sapi_error ''Header to delete may not contain colon.'' s)" by simp
    ultimately show ?thesis using l True slight_ok [OF ok] by (auto simp: Let_def slight_def)
  next
    case False
    obtain hs where hs: "sapi_remove_header (rtrim l) (length (rtrim l)) (headers s) = Some hs"
      "header_list (filter (\<lambda>x. \<not> header_matches (rtrim l) (length (rtrim l)) x) (map line_header ts)) hs"
      using hdr.remove_law [OF header_ok_list [OF ok], of "(rtrim l, length (rtrim l))"] by auto
    have "delete_line p s = Some (True, s\<lparr>headers := hs\<rparr>)" using l False hs(1) by (simp add: delete_line_def Let_def strchr_None)
    moreover have "header_ok (filter (\<lambda>t. \<not> named (map tolower (rtrim l)) t) ts) (s\<lparr>headers := hs\<rparr>)"
      using hs(2) plain unfolding delete_filter [OF plain False] by (intro header_ok_headers [OF ok]) auto
    ultimately show ?thesis using l False by (auto simp: Let_def same_setting_def)
  qed
qed

text \<open>One operation, and a sequence of them.\<close>

definition sent :: "sapi_globals \<Rightarrow> bool" where
  "sent s \<longleftrightarrow> headers_sent s \<and> \<not> no_headers s"

lemma header_op_run:
  assumes ok: "header_ok ts s" and fits: "op_fits op"
  shows "\<exists>b u. sapi_header_op op s = Some (b, u) \<and> same_setting s u
    \<and> header_ok (if sent s then ts else spec_op (charset_of s) op ts) u"
proof (cases "sent s")
  case True
  then have "sapi_header_op op s = Some (False, sapi_error ''Cannot modify header information - headers already sent'' s)"
    by (simp add: sapi_header_op_def sent_def)
  moreover have "slight s (sapi_error ''Cannot modify header information - headers already sent'' s)" by simp
  ultimately show ?thesis using True slight_ok [OF ok] by (auto simp: slight_def)
next
  case False
  then have run: "sapi_header_op op s = (case op of
        SAPI_HEADER_SET_STATUS n \<Rightarrow> Some (True, sapi_update_response_code (int_of n) s)
      | SAPI_HEADER_ADD p \<Rightarrow> add_line False p s
      | SAPI_HEADER_REPLACE p \<Rightarrow> add_line True p s
      | SAPI_HEADER_DELETE p \<Rightarrow> delete_line p s
      | SAPI_HEADER_DELETE_ALL \<Rightarrow> map_option (\<lambda>hs. (True, s\<lparr>headers := hs\<rparr>)) (zend_llist_clean (headers s)))"
    unfolding sent_def sapi_header_op_def by (rule if_not_P)
  show ?thesis
  proof (cases op)
    case (SAPI_HEADER_REPLACE p)
    then show ?thesis using add_line_run [OF ok, of p True] fits run False by simp
  next
    case (SAPI_HEADER_ADD p)
    then show ?thesis using add_line_run [OF ok, of p False] fits run False by simp
  next
    case (SAPI_HEADER_DELETE p)
    then show ?thesis using delete_line_run [OF ok, of p] run False by simp
  next
    case SAPI_HEADER_DELETE_ALL
    obtain hs where "zend_llist_clean (headers s) = Some hs" "header_list [] hs" using hdr.clean_law [OF header_ok_list [OF ok]] by blast
    moreover have "header_ok [] (s\<lparr>headers := hs\<rparr>)" using calculation(2) by (intro header_ok_headers [OF ok]) auto
    ultimately show ?thesis using SAPI_HEADER_DELETE_ALL run False by (auto simp: same_setting_def)
  next
    case (SAPI_HEADER_SET_STATUS n)
    then have "slight s (sapi_update_response_code (int_of n) s)" by (intro slight_update) simp
    then show ?thesis using SAPI_HEADER_SET_STATUS run False slight_ok [OF ok] by (auto simp: slight_def)
  qed
qed

definition run_ops :: "header_op list \<Rightarrow> sapi_globals \<Rightarrow> sapi_globals option" where
  "run_ops ops s = for_each (\<lambda>op s. map_option snd (sapi_header_op op s)) ops s"

definition spec_ops :: "string \<Rightarrow> header_op list \<Rightarrow> string list \<Rightarrow> string list" where
  "spec_ops cs ops ts = fold (spec_op cs) ops ts"

lemma run_ops_run:
  assumes "header_ok ts s" and "\<forall>op \<in> set ops. op_fits op"
  shows "\<exists>u. run_ops ops s = Some u \<and> same_setting s u \<and> header_ok (if sent s then ts else spec_ops (charset_of s) ops ts) u"
  using assms
proof (induction ops arbitrary: ts s)
  case Nil
  then show ?case by (simp add: run_ops_def spec_ops_def)
next
  case (Cons op ops)
  obtain b v where v: "sapi_header_op op s = Some (b, v)" "same_setting s v" "header_ok (if sent s then ts else spec_op (charset_of s) op ts) v"
    using header_op_run [OF Cons.prems(1), of op] Cons.prems(2) by auto
  have e: "sent v = sent s" "charset_of v = charset_of s" using v(2) same_setting_of [OF v(2)] by (simp_all add: sent_def same_setting_def)
  obtain u where u: "run_ops ops v = Some u" "same_setting v u"
    "header_ok (if sent v then (if sent s then ts else spec_op (charset_of s) op ts)
       else spec_ops (charset_of v) ops (if sent s then ts else spec_op (charset_of s) op ts)) u"
    using Cons.IH [OF v(3)] Cons.prems(2) by auto
  have "run_ops (op # ops) s = Some u" using v(1) u(1) by (simp add: run_ops_def)
  then show ?case using u(3) same_setting_trans [OF v(2) u(2)] unfolding e by (auto simp: spec_ops_def split: if_splits)
qed

section \<open>Every header keeps its length\<close>

definition wf_headers :: "sapi_globals \<Rightarrow> bool" where
  "wf_headers s \<longleftrightarrow> (\<exists>xs. header_list xs (headers s) \<and> (\<forall>h \<in> set xs. header_len h = length (header h)))"

lemma wf_headersI: "header_list xs (headers s) \<Longrightarrow> (\<And>h. h \<in> set xs \<Longrightarrow> header_len h = length (header h)) \<Longrightarrow> wf_headers s"
  by (auto simp: wf_headers_def)

lemma add_op_wf:
  assumes "wf_headers s" and "header_len h = length (header h)"
  shows "\<exists>u. sapi_header_add_op replace h s = Some u \<and> wf_headers u"
proof -
  obtain xs where xs: "header_list xs (headers s)" "\<forall>h \<in> set xs. header_len h = length (header h)"
    using assms(1) by (auto simp: wf_headers_def)
  have "\<exists>hs ys. (if replace then case strchr (header h) (CHR '':'') of None \<Rightarrow> Some (headers s)
        | Some i \<Rightarrow> sapi_remove_header (take i (header h)) i (headers s) else Some (headers s)) = Some hs
      \<and> header_list ys hs \<and> set ys \<subseteq> set xs"
  proof (cases "replace \<and> strchr (header h) (CHR '':'') \<noteq> None")
    case True
    then obtain i where i: "strchr (header h) (CHR '':'') = Some i" by blast
    obtain hs where "sapi_remove_header (take i (header h)) i (headers s) = Some hs"
      "header_list (filter (\<lambda>x. \<not> header_matches (take i (header h)) i x) xs) hs"
      using hdr.remove_law [OF xs(1), of "(take i (header h), i)"] by auto
    moreover have "set (filter (\<lambda>x. \<not> header_matches (take i (header h)) i x) xs) \<subseteq> set xs" by auto
    ultimately show ?thesis using True i
      by (intro exI [of _ hs] exI [of _ "filter (\<lambda>x. \<not> header_matches (take i (header h)) i x) xs"]) (simp del: set_filter)
  next
    case False
    then have "(if replace then case strchr (header h) (CHR '':'') of None \<Rightarrow> Some (headers s)
        | Some i \<Rightarrow> sapi_remove_header (take i (header h)) i (headers s) else Some (headers s)) = Some (headers s)"
      by (cases "strchr (header h) (CHR '':'')") simp_all
    then show ?thesis using xs(1) by (intro exI [of _ "headers s"] exI [of _ xs]) simp
  qed
  then obtain hs ys where hs: "(if replace then case strchr (header h) (CHR '':'') of None \<Rightarrow> Some (headers s)
        | Some i \<Rightarrow> sapi_remove_header (take i (header h)) i (headers s) else Some (headers s)) = Some hs"
      "header_list ys hs" "set ys \<subseteq> set xs" by (elim exE conjE) (rule that)
  obtain hs' where hs': "zend_llist_add_element h hs = Some hs'" "header_list (ys @ [h]) hs'" using hdr.add_law [OF hs(2)] by blast
  have "sapi_header_add_op replace h s = Some (s\<lparr>headers := hs'\<rparr>)"
    unfolding sapi_header_add_op_def hs(1) by (simp add: hs'(1))
  moreover have "wf_headers (s\<lparr>headers := hs'\<rparr>)" using hs'(2) hs(3) xs(2) assms(2) by (intro wf_headersI [of "ys @ [h]"]) auto
  ultimately show ?thesis by blast
qed

text \<open>A status line with a code that is no \<open>int\<close>.\<close>

definition bad_status :: "sapi_header_line \<Rightarrow> bool" where
  "bad_status p \<longleftrightarrow> (case line p of None \<Rightarrow> False
     | Some l \<Rightarrow> plain_line (rtrim l) \<and> status_like (rtrim l) \<and> \<not> int32 (code_of (rtrim l)))"

fun code_overflows :: "header_op \<Rightarrow> bool" where
  "code_overflows (SAPI_HEADER_ADD p) = bad_status p"
| "code_overflows (SAPI_HEADER_REPLACE p) = bad_status p"
| "code_overflows _ = False"

lemma add_line_overflow:
  assumes "bad_status p"
  shows "add_line replace p s = None"
proof -
  obtain l where l: "line p = Some l" "plain_line (rtrim l)" "status_like (rtrim l)" "\<not> int32 (code_of (rtrim l))"
    using assms by (auto simp: bad_status_def split: option.splits)
  have "l \<noteq> []" using l(3) by (auto simp: status_like_def rtrim_def)
  then show ?thesis using l
    by (simp add: add_line_def Let_def status_like_iff [OF l(2)] status_line_run [OF l(2)] bad_line_None [THEN iffD2])
qed

lemma add_line_wf:
  assumes "wf_headers s" and fits: "\<not> bad_status p"
  shows "\<exists>b u. add_line replace p s = Some (b, u) \<and> wf_headers u"
proof (cases "line p = None \<or> line p = Some []")
  case True
  then show ?thesis using assms by (auto simp: add_line_def)
next
  case False
  then obtain l where l: "line p = Some l" "l \<noteq> []" by auto
  show ?thesis
  proof (cases "bad_line (rtrim l)")
    case (Some msg)
    then have "add_line replace p s = Some (False, sapi_error msg s)" using l by (simp add: add_line_def Let_def)
    moreover have "wf_headers (sapi_error msg s)" using assms by (simp add: wf_headers_def sapi_error_def)
    ultimately show ?thesis by blast
  next
    case None
    then have t: "plain_line (rtrim l)" by (simp add: bad_line_None)
    show ?thesis
    proof (cases "5 \<le> length (rtrim l) \<and> strncasecmp (rtrim l) ''HTTP/'' 5 = 0")
      case True
      then have "int32 (code_of (rtrim l))" using fits t l by (simp add: bad_status_def status_like_iff [OF t])
      then obtain u where u: "set_status_line (rtrim l) s = Some u" "headers u = headers s"
        using status_line_run [OF t, of s] by simp
      then have "add_line replace p s = Some (True, u)" using l None True by (simp add: add_line_def Let_def)
      moreover have "wf_headers u" using assms(1) u(2) by (simp add: wf_headers_def)
      ultimately show ?thesis by blast
    next
      case False
      obtain h u where hu: "special_header (rtrim l) (int_of (response_code p)) s = (h, u)"
        by (cases "special_header (rtrim l) (int_of (response_code p)) s")
      then have h: "header_len h = length (header h)" "headers u = headers s"
        using special_text [OF t, of "int_of (response_code p)" s] by (simp_all add: line_header_def)
      let ?v = "if int_of (response_code p) \<noteq> 0 then sapi_update_response_code (int_of (response_code p)) u else u"
      have "wf_headers ?v" using assms h(2) by (simp add: wf_headers_def)
      then obtain w where w: "sapi_header_add_op replace h ?v = Some w" "wf_headers w" using add_op_wf h(1) by blast
      have "add_line replace p s = Some (True, w)"
        unfolding add_line_def using l None hu w(1) by (simp add: Let_def if_not_P [OF False])
      then show ?thesis using w(2) by blast
    qed
  qed
qed

lemma delete_line_wf:
  assumes "wf_headers s"
  shows "\<exists>b u. delete_line p s = Some (b, u) \<and> wf_headers u"
proof -
  obtain xs where xs: "header_list xs (headers s)" "\<forall>h \<in> set xs. header_len h = length (header h)"
    using assms by (auto simp: wf_headers_def)
  show ?thesis
  proof (cases "line p = None \<or> line p = Some []")
    case True
    then show ?thesis using assms by (auto simp: delete_line_def)
  next
    case False
    then obtain l where l: "line p = Some l" "l \<noteq> []" by auto
    show ?thesis
    proof (cases "strchr (rtrim l) (CHR '':'')")
      case (Some i)
      have "wf_headers (sapi_error ''Header to delete may not contain colon.'' s)"
        using assms by (simp add: wf_headers_def sapi_error_def)
      then show ?thesis using Some l by (auto simp: delete_line_def Let_def intro!: exI [of _ False])
    next
      case None
      obtain hs where hs: "sapi_remove_header (rtrim l) (length (rtrim l)) (headers s) = Some hs"
        "header_list (filter (\<lambda>x. \<not> header_matches (rtrim l) (length (rtrim l)) x) xs) hs"
        using hdr.remove_law [OF xs(1), of "(rtrim l, length (rtrim l))"] by auto
      have "wf_headers (s\<lparr>headers := hs\<rparr>)" by (rule wf_headersI) (use hs(2) xs(2) in auto)
      then show ?thesis using None hs(1) l by (auto simp: delete_line_def Let_def intro!: exI [of _ True])
    qed
  qed
qed

lemma header_op_overflow:
  assumes "code_overflows op" and "\<not> sent s"
  shows "sapi_header_op op s = None"
  using assms by (cases op) (simp_all add: sapi_header_op_def sent_def [symmetric] add_line_overflow)

lemma header_op_wf:
  assumes "wf_headers s" and fits: "\<not> (code_overflows op \<and> \<not> sent s)"
  shows "\<exists>b u. sapi_header_op op s = Some (b, u) \<and> wf_headers u"
proof (cases "headers_sent s \<and> \<not> no_headers s")
  case True
  have "wf_headers (sapi_error ''Cannot modify header information - headers already sent'' s)"
    using assms by (simp add: wf_headers_def sapi_error_def)
  then show ?thesis using True by (auto simp: sapi_header_op_def intro!: exI [of _ False])
next
  case False
  show ?thesis
  proof (cases op)
    case SAPI_HEADER_DELETE_ALL
    obtain xs where "header_list xs (headers s)" using assms by (auto simp: wf_headers_def)
    then obtain hs where "zend_llist_clean (headers s) = Some hs" "header_list [] hs" using hdr.clean_law by blast
    moreover have "wf_headers (s\<lparr>headers := hs\<rparr>)" using calculation(2) by (intro wf_headersI [of "[]"]) simp_all
    ultimately show ?thesis using SAPI_HEADER_DELETE_ALL unfolding sapi_header_op_def if_not_P [OF False]
      by (auto intro!: exI [of _ True])
  next
    case (SAPI_HEADER_SET_STATUS n)
    have "wf_headers (sapi_update_response_code (int_of n) s)" using assms by (simp add: wf_headers_def)
    then show ?thesis using SAPI_HEADER_SET_STATUS unfolding sapi_header_op_def if_not_P [OF False] by (auto intro!: exI [of _ True])
  qed (use add_line_wf [OF assms(1)] delete_line_wf [OF assms(1)] fits False in
        \<open>simp_all add: sapi_header_op_def if_not_P [OF False] sent_def\<close>)
qed

end
