(* ===== verification/Sapi_Send_Lemmas.thy ===== *)
theory Sapi_Send_Lemmas
  imports Sapi_Lemmas
begin

text \<open>
  What \<open>sapi_send_headers\<close> writes is a block of lines, each ended by \<open>CRLF\<close>, and an empty line, and this is
  how the client reads it (\<open>parse_head\<close>).
\<close>

section \<open>The client's view\<close>

text \<open>The lines up to the first empty one, and what follows it.\<close>

fun split_line :: "string \<Rightarrow> (string \<times> string) option" where
  "split_line [] = None"
| "split_line (c # cs) =
     (if c = CHR 0x0D \<and> take 1 cs = [CHR 0x0A] then Some ([], drop 1 cs)
      else map_option (\<lambda>(l, r). (c # l, r)) (split_line cs))"

lemma split_line_shorter: "split_line t = Some (l, r) \<Longrightarrow> length r < length t"
  by (induction t arbitrary: l r rule: split_line.induct) (auto split: if_splits)

function parse_head :: "string \<Rightarrow> (string list \<times> string) option" where
  "parse_head t = (case split_line t of
     None \<Rightarrow> None
   | Some (l, r) \<Rightarrow> if l = [] then Some ([], r) else map_option (\<lambda>(ls, r). (l # ls, r)) (parse_head r))"
  by pat_completeness auto
termination
  by (relation "measure length") (auto dest: split_line_shorter)

declare parse_head.simps [simp del]

definition line_block :: "string list \<Rightarrow> string" where
  "line_block ls = concat (map (\<lambda>l. l @ CRLF) ls)"

lemma line_block_simps [simp]: "line_block [] = []" "line_block (l # ls) = l @ CRLF @ line_block ls"
  "line_block (ls @ ms) = line_block ls @ line_block ms"
  by (simp_all add: line_block_def)

lemma split_line_plain: "CHR 0x0D \<notin> set l \<Longrightarrow> split_line (l @ CRLF @ r) = Some (l, r)"
  by (induction l) (auto simp: CRLF_def)

lemma parse_block:
  assumes "\<forall>l \<in> set ls. plain_line l \<and> l \<noteq> []"
  shows "parse_head (line_block ls @ CRLF @ r) = Some (ls, r)"
  using assms
proof (induction ls)
  case Nil
  have "split_line (CRLF @ r) = Some ([], r)" using split_line_plain [of "[]" r] by simp
  then show ?case by (subst parse_head.simps) simp
next
  case (Cons l ls)
  then have "split_line (l @ CRLF @ line_block ls @ CRLF @ r) = Some (l, line_block ls @ CRLF @ r)"
    by (intro split_line_plain) (simp add: plain_line_def)
  then show ?case using Cons by (subst parse_head.simps) simp
qed

section \<open>The lines that go out\<close>

definition headed :: "string \<Rightarrow> string \<Rightarrow> bool" where
  "headed name t \<longleftrightarrow> length name < length t \<and> map tolower (take (length name) t) = map tolower name"

fun body_lines :: "int \<Rightarrow> bool \<Rightarrow> string list \<Rightarrow> string list" where
  "body_lines code ign [] = []"
| "body_lines code ign (t # ts) =
     (if t = [] then body_lines code ign ts
      else if headed ''Status:'' t then (if ign then body_lines code ign ts else t # body_lines code True ts)
      else if code = 304 \<and> headed ''Content-Type:'' t then body_lines code ign ts
      else t # body_lines code ign ts)"

lemma body_lines_in: "l \<in> set (body_lines code ign ts) \<Longrightarrow> l \<in> set ts \<and> l \<noteq> []"
  by (induction ts arbitrary: ign) (auto split: if_splits)

lemma starts_with_headed:
  assumes "CHR 0x00 \<notin> set t" and "CHR 0x00 \<notin> set name"
  shows "starts_with name (line_header t) \<longleftrightarrow> headed name t"
  using strncasecmp_0 [OF assms, of "length name"]
  by (simp add: starts_with_def line_header_def headed_def)

lemma PHPWRITE_run: "len \<le> length t \<Longrightarrow> PHPWRITE_H t len s = Some (s\<lparr>written := written s @ take len t\<rparr>)"
  by (simp add: PHPWRITE_H_def)

lemma write_line_run: "write_line (line_header t) s = Some (s\<lparr>written := written s @ t @ CRLF\<rparr>)"
  by (simp add: write_line_def line_header_def PHPWRITE_run CRLF_def)

lemma write_headers_run:
  assumes "holds_at (ls @ as) (map line_header (us @ ts)) (headers s)" and "length ls = length us" and "\<forall>t \<in> set ts. CHR 0x00 \<notin> set t"
  shows "write_headers code (pos_of as, head_of (map line_header ts)) ign s
    = Some (s\<lparr>written := written s @ line_block (body_lines code ign ts)\<rparr>)"
  using assms
proof (induction ts arbitrary: ls as us ign s code)
  case Nil
  then show ?case by (subst write_headers.simps) (simp add: head_of_def)
next
  case (Cons t ts)
  obtain l h where lh: "headers s = (l, h)" by (cases "headers s")
  note H = holds_atD [OF Cons.prems(1) [unfolded lh]]
  obtain a bs where as: "as = a # bs" using H(3) Cons.prems(2) by (cases as) auto
  have next_pos: "zend_llist_get_next_ex (Some a) h = Some (pos_of bs, head_of (map line_header ts))"
    using get_next_run [of ls a bs "map line_header us" "line_header t" "map line_header ts" l h] Cons.prems(1,2) as lh by simp
  have t: "CHR 0x00 \<notin> set t" "header_len (line_header t) = 0 \<longleftrightarrow> t = []" using Cons.prems(3) by (simp_all add: line_header_def)
  have rest: "write_headers c (pos_of bs, head_of (map line_header ts)) i u = Some (u\<lparr>written := written u @ line_block (body_lines c i ts)\<rparr>)"
    if "headers u = headers s" for c i u
    using Cons.IH [of "ls @ [a]" bs "us @ [t]" u c i] Cons.prems as that by simp
  have st: "starts_with ''Status:'' (line_header t) \<longleftrightarrow> headed ''Status:'' t"
    "starts_with ''Content-Type:'' (line_header t) \<longleftrightarrow> headed ''Content-Type:'' t"
    using t(1) by (simp_all add: starts_with_headed)
  show ?case
    by (subst write_headers.simps) (simp add: as lh next_pos t(2) st rest write_line_run)
qed

lemma find_status_run:
  assumes "holds_at (ls @ as) (map line_header (us @ ts)) (l, h)" and "length ls = length us" and "\<forall>t \<in> set ts. CHR 0x00 \<notin> set t"
  shows "find_status (pos_of as, head_of (map line_header ts)) h = Some (\<exists>t \<in> set ts. headed ''Status:'' t)"
  using assms
proof (induction ts arbitrary: ls as us)
  case Nil
  then show ?case by (subst find_status.simps) (simp add: head_of_def)
next
  case (Cons t ts)
  note H = holds_atD [OF Cons.prems(1)]
  obtain a bs where as: "as = a # bs" using H(3) Cons.prems(2) by (cases as) auto
  have next_pos: "zend_llist_get_next_ex (Some a) h = Some (pos_of bs, head_of (map line_header ts))"
    using get_next_run [of ls a bs "map line_header us" "line_header t" "map line_header ts" l h] Cons.prems(1,2) as by simp
  have rest: "find_status (pos_of bs, head_of (map line_header ts)) h = Some (\<exists>t \<in> set ts. headed ''Status:'' t)"
    using Cons.IH [of "ls @ [a]" bs "us @ [t]"] Cons.prems as by simp
  have "starts_with ''Status:'' (line_header t) \<longleftrightarrow> headed ''Status:'' t" using Cons.prems(3) by (simp add: starts_with_headed)
  then show ?case by (subst find_status.simps) (simp add: as next_pos rest)
qed

section \<open>The status\<close>

definition code_text :: "int \<Rightarrow> string" where
  "code_text code = ''Status: '' @ print_d code @ (case map_of http_status_map code of Some str \<Rightarrow> '' '' @ str | None \<Rightarrow> [])"

text \<open>What the script's own status line says, and its code.\<close>

definition own_status :: "sapi_globals \<Rightarrow> (string \<times> int) option" where
  "own_status s =
     (case http_status_line s of None \<Rightarrow> None
      | Some t \<Rightarrow>
          let from_space = dropWhile (\<lambda>c. c \<noteq> CHR '' '') t
          in if rfc2616_headers s then Some (t, if CHR '' '' \<in> set t then code_of t else http_response_code s)
             else if CHR '' '' \<in> set t then Some (''Status:'' @ from_space, code_of t) else None)"

definition status_part :: "sapi_globals \<Rightarrow> string list \<Rightarrow> string list \<times> int \<times> bool" where
  "status_part s ts =
     (if nph s \<or> http_response_code s \<noteq> 200
      then case own_status s of
             Some (t, code) \<Rightarrow> ([t], code, True)
           | None \<Rightarrow> if \<exists>t \<in> set ts. headed ''Status:'' t then ([], http_response_code s, False)
                     else ([code_text (http_response_code s)], http_response_code s, True)
      else ([], http_response_code s, False))"

definition answer_lines :: "sapi_globals \<Rightarrow> string list \<Rightarrow> string list" where
  "answer_lines s ts = (let (ls, code, ign) = status_part s ts in ls @ body_lines code ign ts)"

lemma status_map_ok: "map_of http_status_map code = Some str \<Longrightarrow> length str \<le> 31 \<and> plain_line str"
proof -
  have "list_all (\<lambda>(c, s). length s \<le> 31 \<and> plain_line s) http_status_map"
    by (simp add: http_status_map_def)
  then show "length str \<le> 31 \<and> plain_line str" if "map_of http_status_map code = Some str"
    using map_of_SomeD [OF that] by (auto simp: list_all_iff)
qed

lemma plain_print_d: "plain_line (print_d n)"
  using print_d_char by (fastforce simp: plain_line_def)

lemma code_line_text:
  assumes "int32 code"
  shows "code_line code = code_text code @ CRLF" "plain_line (code_text code)" "code_text code \<noteq> []"
proof -
  have d: "length (print_d code) \<le> 11" using assms by (intro print_d_length) (simp_all add: int32_def)
  show "code_line code = code_text code @ CRLF"
    using d status_map_ok [of code]
    by (auto simp: code_line_def code_text_def slprintf_def SAPI_CGI_MAX_HEADER_LENGTH_def CRLF_def split: option.split)
  show "plain_line (code_text code)" "code_text code \<noteq> []"
    using plain_print_d status_map_ok [of code] by (auto simp: code_text_def split: option.split)
qed

lemma space_lower: "tolower (CHR '' '') = CHR '' ''"
  by (simp add: tolower_fixed)

lemma status_like_space:
  assumes "status_like t" and "strchr t (CHR '' '') = Some i"
  shows "5 \<le> i"
proof (rule ccontr)
  assume "\<not> 5 \<le> i"
  then have "t ! i \<in> set (take 5 t)" using strchr_Some(1) [OF assms(2)] by (auto simp: in_set_conv_nth intro!: exI [of _ i])
  then have "CHR '' '' \<in> set (take 5 t)" using strchr_Some(2) [OF assms(2)] by simp
  then have "tolower (CHR '' '') \<in> set (map tolower (take 5 t))" by simp
  then have "CHR '' '' \<in> set ''http/''"
    unfolding assms(1) [unfolded status_like_def] by (simp only: space_lower)
  then show False by simp
qed

lemma own_status_run:
  assumes "header_ok ts s"
  shows "own_status_line s = map_option (\<lambda>(t, code). (t @ CRLF, Some code)) (own_status s)"
    and "own_status s = Some (t, code) \<Longrightarrow> plain_line t \<and> t \<noteq> []"
proof -
  have "own_status_line s = map_option (\<lambda>(t, code). (t @ CRLF, Some code)) (own_status s)
      \<and> (\<forall>u code. own_status s = Some (u, code) \<longrightarrow> plain_line u \<and> u \<noteq> [])"
  proof (cases "http_status_line s")
    case None
    then show ?thesis by (simp add: own_status_line_def own_status_def)
  next
    case (Some t)
    then have t: "plain_line t" "status_like t" "length t < 1015" and fits: "int32 (code_of t)"
      using assms by (simp_all add: header_ok_def)
    have ne: "t \<noteq> []" using t(2) by (auto simp: status_like_def)
    have tailp: "plain_line (dropWhile (\<lambda>c. c \<noteq> CHR '' '') t)" by (rule plain_sub [OF t(1)]) (auto dest: set_dropWhileD)
    show ?thesis
    proof (cases "strchr t (CHR '' '')")
      case None
      then have "CHR '' '' \<notin> set t" using t(1) by (simp add: strchr_None)
      then show ?thesis using None Some t ne
        by (simp add: own_status_line_def own_status_def slprintf_def SAPI_CGI_MAX_HEADER_LENGTH_def CRLF_def)
    next
      case i: (Some i)
      note ix = strchr_Some [OF i]
      have sp: "CHR '' '' \<in> set t" using nth_mem [OF ix(1)] ix(2) by simp
      have d: "dropWhile (\<lambda>c. c \<noteq> CHR '' '') t = drop i t" using prefix_before(2) [OF ix(1-3)] .
      then have dp: "plain_line (drop i t)" using tailp by simp
      then have dq: "plain_line (drop (Suc i) t)" by (rule plain_sub) (metis Suc_n_not_le_n nat_le_linear set_drop_subset_set_drop)
      have five: "5 \<le> i" "strncasecmp t ''HTTP/'' 5 = 0"
        using status_like_space [OF t(2) i] status_like_iff [OF t(1)] t(2) by simp_all
      have "List.tl (drop i t) = drop (Suc i) t" by (simp add: tl_drop drop_Suc)
      then have "atoi (drop (Suc i) t) = Some (code_of t)" using fits by (simp add: atoi_def code_of_def d)
      then show ?thesis using Some i sp d dp dq five t ne
        by (simp add: own_status_line_def own_status_def slprintf_def SAPI_CGI_MAX_HEADER_LENGTH_def CRLF_def Let_def)
    qed
  qed
  then show "own_status_line s = map_option (\<lambda>(t, code). (t @ CRLF, Some code)) (own_status s)"
    and "own_status s = Some (t, code) \<Longrightarrow> plain_line t \<and> t \<noteq> []" by blast+
qed

lemma write_status_run:
  assumes ok: "header_ok ts s" and part: "status_part s ts = (ls, code, ign)"
  shows "write_status s = Some (code, ign, s\<lparr>written := written s @ line_block ls\<rparr>) \<and> (\<forall>l \<in> set ls. plain_line l \<and> l \<noteq> [])"
proof -
  obtain l h as where lh: "headers s = (l, h)" "holds_at as (map line_header ts) (l, h)"
    using header_ok_list [OF ok] by (cases "headers s") (auto simp: header_list_def holds_def)
  have plain: "\<forall>t \<in> set ts. plain_line t" "int32 (http_response_code s)" using ok by (simp_all add: header_ok_def)
  have find: "find_status (pos_of as, head_of (map line_header ts)) h = Some (\<exists>t \<in> set ts. headed ''Status:'' t)"
    using find_status_run [of "[]" as "[]" ts l h] lh(2) plain(1) plain_nul by simp
  note cl = code_line_text [OF plain(2)]
  note own = own_status_run [OF ok]
  show ?thesis
  proof (cases "nph s \<or> http_response_code s \<noteq> 200")
    case False
    then have "ls = [] \<and> code = http_response_code s \<and> \<not> ign" using part by (simp add: status_part_def)
    then show ?thesis using False by (simp add: write_status_def)
  next
    case True
    show ?thesis
    proof (cases "own_status s")
      case None
      have w: "write_status s = (if \<exists>t \<in> set ts. headed ''Status:'' t then Some (http_response_code s, False, s)
          else Some (http_response_code s, True, s\<lparr>written := written s @ code_text (http_response_code s) @ CRLF\<rparr>))"
        using True None own(1) lh find get_first_run [OF lh(2)]
        by (simp add: write_status_def cl(1) PHPWRITE_run)
      show ?thesis
      proof (cases "\<exists>t \<in> set ts. headed ''Status:'' t")
        case has: True
        have "ls = [] \<and> code = http_response_code s \<and> \<not> ign" using part has True by (simp add: status_part_def None)
        then show ?thesis using w has by simp
      next
        case no: False
        have "ls = [code_text (http_response_code s)] \<and> code = http_response_code s \<and> ign"
          using part True by (auto simp: status_part_def None if_not_P [OF no])
        then show ?thesis using w cl(2,3) by (simp add: if_not_P [OF no])
      qed
    next
      case (Some tc)
      obtain t c where tc: "tc = (t, c)" by (cases tc)
      have p: "ls = [t]" "code = c" "ign" using True Some part by (simp_all add: status_part_def tc)
      have "own_status_line s = Some (t @ CRLF, Some c)" using own(1) by (simp add: Some tc)
      then have "write_status s = Some (c, True, s\<lparr>written := written s @ t @ CRLF\<rparr>)"
        using True by (simp add: write_status_def PHPWRITE_run)
      then show ?thesis using p own(2) [of t c] by (simp add: Some tc)
    qed
  qed
qed

lemma cgi_send_run:
  assumes ok: "header_ok ts s" and "\<not> no_headers s"
  shows "sapi_cgi_send_headers s = Some (s\<lparr>written := written s @ line_block (answer_lines s ts) @ CRLF\<rparr>)
    \<and> (\<forall>l \<in> set (answer_lines s ts). plain_line l \<and> l \<noteq> [])"
proof -
  obtain l h as where lh: "headers s = (l, h)" "holds_at as (map line_header ts) (l, h)"
    using header_ok_list [OF ok] by (cases "headers s") (auto simp: header_list_def holds_def)
  have plain: "\<forall>t \<in> set ts. plain_line t" using ok by (simp add: header_ok_def)
  obtain ls code ign where part: "status_part s ts = (ls, code, ign)" by (cases "status_part s ts")
  note st = write_status_run [OF ok part]
  let ?u = "s\<lparr>written := written s @ line_block ls\<rparr>"
  have "write_headers code (pos_of as, head_of (map line_header ts)) ign ?u
      = Some (?u\<lparr>written := written ?u @ line_block (body_lines code ign ts)\<rparr>)"
    using write_headers_run [of "[]" as "[]" ts ?u code ign] lh plain plain_nul by simp
  moreover have "length CRLF = 2" by (simp add: CRLF_def)
  ultimately have "sapi_cgi_send_headers s = Some (s\<lparr>written := written s @ line_block (answer_lines s ts) @ CRLF\<rparr>)"
    using assms(2) st part get_first_run [OF lh(2)] lh(1)
    by (simp add: sapi_cgi_send_headers_def answer_lines_def PHPWRITE_run)
  moreover have "\<forall>l \<in> set (answer_lines s ts). plain_line l \<and> l \<noteq> []"
    using st part plain body_lines_in by (fastforce simp: answer_lines_def)
  ultimately show ?thesis by blast
qed

section \<open>Sending\<close>

definition default_lines :: "sapi_globals \<Rightarrow> string list" where
  "default_lines s =
     (if send_default_content_type s \<and> get_default_content_type s \<noteq> []
      then [''Content-type: '' @ get_default_content_type s] else [])"

text \<open>The lines in the list when it is sent.\<close>

definition sent_lines :: "sapi_globals \<Rightarrow> string list \<Rightarrow> string list" where
  "sent_lines s ts =
     (case callback_func s of None \<Rightarrow> ts @ default_lines s
      | Some ops \<Rightarrow> spec_ops (charset_of s) ops (ts @ default_lines s))"

definition status_of :: "sapi_globals \<Rightarrow> string option \<times> int \<times> bool \<times> bool" where
  "status_of s = (http_status_line s, http_response_code s, rfc2616_headers s, nph s)"

lemma answer_lines_status: "status_of s = status_of u \<Longrightarrow> answer_lines s ts = answer_lines u ts"
proof -
  assume "status_of s = status_of u"
  then have e: "http_status_line s = http_status_line u" "http_response_code s = http_response_code u"
    "rfc2616_headers s = rfc2616_headers u" "nph s = nph u" by (simp_all add: status_of_def)
  show "answer_lines s ts = answer_lines u ts"
    unfolding answer_lines_def status_part_def own_status_def e ..
qed

lemma default_plain:
  assumes "header_ok ts s"
  shows "plain_line (get_default_content_type s)"
proof -
  have "plain_line (charset_of s)" "plain_line (mime_of s)" using assms by (simp_all add: header_ok_def)
  then show ?thesis by (simp add: get_default_content_type_def mime_of_def Let_def)
qed

lemma add_default_run:
  assumes ok: "header_ok ts s"
  shows "\<exists>u. add_default_type s = Some u \<and> same_setting s u \<and> status_of u = status_of s \<and> header_ok (ts @ default_lines s) u"
proof (cases "send_default_content_type s \<and> get_default_content_type s \<noteq> []")
  case False
  have "\<exists>u. add_default_type s = Some u \<and> slight s u \<and> status_of u = status_of s"
    using False by (auto simp: add_default_type_def Let_def status_of_def)
  then show ?thesis using False slight_ok [OF ok] by (auto simp: default_lines_def slight_def)
next
  case True
  let ?m = "get_default_content_type s"
  have ok2: "header_ok ts (s\<lparr>mimetype := Some ?m\<rparr>)" by (rule slight_ok [OF ok]) simp
  have pl: "plain_line (''Content-type: '' @ ?m)" using default_plain [OF ok] by simp
  obtain v where v: "sapi_header_add_op False (line_header (''Content-type: '' @ ?m)) (s\<lparr>mimetype := Some ?m\<rparr>) = Some v"
    "same_setting (s\<lparr>mimetype := Some ?m\<rparr>) v" "http_status_line v = http_status_line s"
    "http_response_code v = http_response_code s" "header_ok (ts @ [''Content-type: '' @ ?m]) v"
    using add_op_run [OF ok2 pl, of False] by auto
  let ?v = "v\<lparr>send_default_content_type := False\<rparr>"
  have "add_default_type s = Some ?v" using True v(1) by (simp add: add_default_type_def Let_def)
  moreover have "same_setting s ?v" "status_of ?v = status_of s" using v(2-4) by (simp_all add: same_setting_def status_of_def)
  moreover have "header_ok (ts @ default_lines s) ?v"
    using slight_ok [OF v(5), of ?v] True by (simp add: default_lines_def)
  ultimately show ?thesis by blast
qed

definition fits :: "sapi_globals \<Rightarrow> bool" where
  "fits s \<longleftrightarrow> (\<forall>ops. callback_func s = Some ops \<longrightarrow> (\<forall>op \<in> set ops. op_fits op))"

lemma callback_run:
  assumes ok: "header_ok ts s" and "fits s" and "\<not> headers_sent s"
  shows "\<exists>u. run_header_callback s = Some u \<and> written u = written s \<and> no_headers u = no_headers s
     \<and> (callback_func s = None \<longrightarrow> status_of u = status_of s)
     \<and> header_ok (case callback_func s of None \<Rightarrow> ts | Some ops \<Rightarrow> spec_ops (charset_of s) ops ts) u"
proof (cases "callback_func s")
  case None
  then show ?thesis using ok by (simp add: run_header_callback_def)
next
  case (Some ops)
  have "header_ok ts (s\<lparr>callback_func := None\<rparr>)" using ok by (simp add: header_ok_def charset_of_def mime_of_def)
  moreover have "\<forall>op \<in> set ops. op_fits op" using assms(2) Some by (simp add: fits_def)
  ultimately have "\<exists>u. run_ops ops (s\<lparr>callback_func := None\<rparr>) = Some u \<and> same_setting (s\<lparr>callback_func := None\<rparr>) u
      \<and> header_ok (if sent (s\<lparr>callback_func := None\<rparr>) then ts
          else spec_ops (charset_of (s\<lparr>callback_func := None\<rparr>)) ops ts) u"
    by (rule run_ops_run)
  then show ?thesis using Some assms(3)
    by (auto simp: run_header_callback_def run_ops_def same_setting_def sent_def charset_of_def)
qed

lemma send_run:
  assumes ok: "header_ok ts s" and "fits s" and "\<not> headers_sent s" and "\<not> no_headers s"
  shows "\<exists>u v. sapi_send_headers s = Some v \<and> headers_sent v \<and> http_status_line v = None
     \<and> (callback_func s = None \<longrightarrow> status_of u = status_of s)
     \<and> written v = written s @ line_block (answer_lines u (sent_lines s ts)) @ CRLF
     \<and> (\<forall>l \<in> set (answer_lines u (sent_lines s ts)). plain_line l \<and> l \<noteq> [])"
proof -
  obtain a where a: "add_default_type s = Some a" "same_setting s a" "status_of a = status_of s" "header_ok (ts @ default_lines s) a"
    using add_default_run [OF ok] by blast
  have sa: "fits a" "\<not> headers_sent a" "callback_func a = callback_func s" "charset_of a = charset_of s" "\<not> no_headers a"
      "written a = written s"
    using a(2) assms(2-4) by (simp_all add: fits_def same_setting_def charset_of_def)
  obtain b where b: "run_header_callback a = Some b" "written b = written a" "no_headers b = no_headers a"
    "callback_func s = None \<longrightarrow> status_of b = status_of a" "header_ok (case callback_func s of None \<Rightarrow> ts @ default_lines s
      | Some ops \<Rightarrow> spec_ops (charset_of s) ops (ts @ default_lines s)) b"
    using callback_run [OF a(4) sa(1,2)] unfolding sa(3,4) by (elim exE conjE) (rule that)
  let ?b = "b\<lparr>headers_sent := True\<rparr>"
  have "header_ok (sent_lines s ts) ?b" "\<not> no_headers ?b"
    using b(3,5) sa(5) by (simp_all add: header_ok_def charset_of_def mime_of_def sent_lines_def)
  note c = cgi_send_run [OF this]
  have "sapi_send_headers s = Some (?b\<lparr>written := written ?b @ line_block (answer_lines ?b (sent_lines s ts)) @ CRLF,
      http_status_line := None\<rparr>)"
    using assms(3,4) a(1) b(1) c by (simp add: sapi_send_headers_def)
  moreover have "status_of ?b = status_of s" if "callback_func s = None"
    using b(4) a(3) sa(3) that by (simp add: status_of_def)
  ultimately show ?thesis using c b(2) sa(6) by (intro exI [of _ ?b] exI) auto
qed

end
