(* ===== verification/Sapi_Properties.thy ===== *)
theory Sapi_Properties
  imports Sapi_Send_Lemmas
begin

text \<open>
  The properties of the headers of an answer: they are lines, the answer is these lines and nothing else,
  and the two ways in which that fails, a long status line and the setting \<open>default_charset\<close>.
\<close>

section \<open>A request to try them on\<close>

definition started_request :: sapi_globals where
  "started_request = sapi_activate
     \<lparr>headers = (\<lparr>l_head = NULL, l_tail = NULL, l_count = 3, l_dtor = False, traverse_ptr = NULL\<rparr>,
                 \<lparr>elems = Map.empty, next_elem = 0, destroyed = []\<rparr>),
      http_response_code = 200, send_default_content_type = False, mimetype = None, http_status_line = Some ''HTTP/1.0 404 Old'',
      headers_sent = True, no_headers = True, proto_num = 1001, request_method = Some ''POST'',
      default_mimetype = None, default_charset = None, callback_func = Some [SAPI_HEADER_DELETE_ALL],
      rfc2616_headers = False, nph = False, zlib_off = False, written = [], warnings = []\<rparr>"

lemma fresh_header_list: "header_list [] (headers started_request)"
  by (simp add: started_request_def sapi_activate_def header_list_def holds_def holds_at_def links_def fresh_ok_def zend_llist_init_def)

lemma fresh_settings:
  "charset_of started_request = ''UTF-8''" "mime_of started_request = ''text/html''" "callback_func started_request = None"
  "http_status_line started_request = None" "http_response_code started_request = 200" "written started_request = []"
  "headers_sent started_request = False" "no_headers started_request = False"
  by (simp_all add: started_request_def sapi_activate_def charset_of_def mime_of_def)

lemma fresh_ok_request: "header_ok [] started_request"
  using fresh_header_list by (simp add: header_ok_def fresh_settings)

section \<open>Headers are lines\<close>

text \<open>
  C27. The operations on headers are operations on a list of lines (\<open>spec_ops\<close>): a line that is not a single
  line is refused, a status line goes elsewhere, a text type gets the character set, a replacement drops every
  header with its name, whatever the case of the letters, and a deletion the headers with that name. All pointers are good.
  Status lines are below 1015 bytes and their code fits an \<open>int\<close>.
\<close>

theorem headers_refine_lines:
  assumes "header_ok ts s" and "\<forall>op \<in> set ops. op_fits op" and "\<not> (headers_sent s \<and> \<not> no_headers s)"
  shows "\<exists>u. for_each (\<lambda>op s. map_option snd (sapi_header_op op s)) ops s = Some u
    \<and> header_ok (spec_ops (charset_of s) ops ts) u"
  using run_ops_run [OF assms(1,2)] assms(3) by (auto simp: run_ops_def sent_def)

text \<open>Lines for the examples.\<close>

abbreviation a_line :: "string \<Rightarrow> sapi_header_line" where
  "a_line t \<equiv> \<lparr>line = Some t, response_code = 0\<rparr>"

lemma a_line_fits: "int32 (code_of (rtrim t)) \<Longrightarrow> length (rtrim t) < 1015 \<Longrightarrow> line_fits (a_line t)"
  by (simp add: line_fits_def int32_def)

definition example_ops :: "header_op list" where
  "example_ops = [SAPI_HEADER_ADD (a_line ''X-A: 1''), SAPI_HEADER_ADD (a_line ''x-a: 2 ''),
     SAPI_HEADER_REPLACE (a_line ''X-A: 3''), SAPI_HEADER_ADD (a_line [CHR ''B'', CHR '':'', CHR 0x0A, CHR ''C'']),
     SAPI_HEADER_REPLACE (a_line ''Content-Type: text/css''), SAPI_HEADER_ADD (a_line ''HTTP/1.1 404 Gone'')]"

lemma example_fits: "\<forall>op \<in> set example_ops. op_fits op"
  by (simp add: example_ops_def line_fits_def) (intro conjI; code_simp)

lemma example_spec: "spec_ops ''UTF-8'' example_ops [] = [''X-A: 3'', ''Content-type: text/css;charset=UTF-8'']"
  by code_simp

theorem headers_refine_lines_witness:
  "\<exists>u. for_each (\<lambda>op s. map_option snd (sapi_header_op op s)) example_ops started_request = Some u
    \<and> header_ok [''X-A: 3'', ''Content-type: text/css;charset=UTF-8''] u"
  using headers_refine_lines [OF fresh_ok_request example_fits] by (simp add: fresh_settings example_spec)

text \<open>
  C31. An operation on headers, with whatever text and codes and whatever settings, is undefined in one case only: a
  status line, while headers can still be changed, whose number behind the first space is no \<open>int\<close>, which goes through
  \<open>atoi\<close>. In every other case it touches no pointer that is not an element, reads behind no text, and every header
  keeps the length of its text.
\<close>

theorem headers_typed:
  assumes "wf_headers s"
  shows "if code_overflows op \<and> \<not> sent s then sapi_header_op op s = None
    else \<exists>b u. sapi_header_op op s = Some (b, u) \<and> wf_headers u"
  using header_op_overflow header_op_wf [OF assms] by simp

lemma fresh_wf: "wf_headers started_request"
  by (rule wf_headersI [OF fresh_header_list]) simp

theorem headers_typed_witness:
  "sapi_header_op (SAPI_HEADER_ADD (a_line ''HTTP/1.1 99999999999'')) started_request = None
    \<and> (\<exists>b u. sapi_header_op (SAPI_HEADER_REPLACE \<lparr>line = Some [CHR ''a'', CHR 0x00, CHR '':''], response_code = 2 ^ 40\<rparr>) started_request = Some (b, u)
    \<and> wf_headers u)"
proof (rule conjI)
  have "code_overflows (SAPI_HEADER_ADD (a_line ''HTTP/1.1 99999999999''))" by code_simp
  then show "sapi_header_op (SAPI_HEADER_ADD (a_line ''HTTP/1.1 99999999999'')) started_request = None"
    using headers_typed [OF fresh_wf, of "SAPI_HEADER_ADD (a_line ''HTTP/1.1 99999999999'')"] by (simp add: sent_def fresh_settings)
  show "\<exists>b u. sapi_header_op (SAPI_HEADER_REPLACE \<lparr>line = Some [CHR ''a'', CHR 0x00, CHR '':''], response_code = 2 ^ 40\<rparr>) started_request = Some (b, u)
    \<and> wf_headers u"
  using headers_typed [OF fresh_wf, of "SAPI_HEADER_REPLACE \<lparr>line = Some [CHR ''a'', CHR 0x00, CHR '':''], response_code = 2 ^ 40\<rparr>"]
    by (simp add: bad_status_def rtrim_def is_space_def)
qed

section \<open>The answer\<close>

text \<open>
  C26. While nothing has been sent, and with the settings \<open>default_charset\<close> and \<open>default_mimetype\<close> single lines, whatever
  operations on headers a script makes whose status lines are below 1015 bytes with a code that fits an \<open>int\<close> (\<open>op_fits\<close>),
  the answer's head is sent whole and splits at its line ends into single lines, with nothing behind its end. Without a
  header callback these are exactly the status line, the lines of the list and the default content type; with one, whose
  operations fit too (\<open>fits\<close>), the statement says only that they are single lines.
\<close>

theorem answer_is_lines:
  assumes "header_ok ts s" and "\<forall>op \<in> set ops. op_fits op" and "fits s" and "\<not> headers_sent s" and "\<not> no_headers s"
  shows "\<exists>u v out ls. for_each (\<lambda>op s. map_option snd (sapi_header_op op s)) ops s = Some u
    \<and> sapi_send_headers u = Some v \<and> headers_sent v \<and> written v = written s @ out
    \<and> parse_head out = Some (ls, []) \<and> (\<forall>l \<in> set ls. plain_line l)
    \<and> (callback_func s = None \<longrightarrow> ls = answer_lines u (spec_ops (charset_of s) ops ts @ default_lines u))"
proof -
  obtain u where u: "for_each (\<lambda>op s. map_option snd (sapi_header_op op s)) ops s = Some u" "same_setting s u"
    "header_ok (spec_ops (charset_of s) ops ts) u"
    using run_ops_run [OF assms(1,2)] assms(4) by (auto simp: run_ops_def sent_def)
  have "fits u" "\<not> headers_sent u" "\<not> no_headers u" "written u = written s" "callback_func u = callback_func s"
    using u(2) assms(3-5) by (simp_all add: fits_def same_setting_def)
  with send_run [OF u(3)] obtain w v where v: "sapi_send_headers u = Some v" "headers_sent v"
    "callback_func s = None \<longrightarrow> status_of w = status_of u"
    "written v = written s @ line_block (answer_lines w (sent_lines u (spec_ops (charset_of s) ops ts))) @ CRLF"
    "\<forall>l \<in> set (answer_lines w (sent_lines u (spec_ops (charset_of s) ops ts))). plain_line l \<and> l \<noteq> []" by metis
  let ?ls = "answer_lines w (sent_lines u (spec_ops (charset_of s) ops ts))"
  have "parse_head (line_block ?ls @ CRLF) = Some (?ls, [])" using parse_block [OF v(5), of "[]"] by simp
  moreover have "?ls = answer_lines u (spec_ops (charset_of s) ops ts @ default_lines u)" if "callback_func s = None"
    using that v(3) answer_lines_status [of w u] \<open>callback_func u = callback_func s\<close> by (simp add: sent_lines_def)
  ultimately show ?thesis using u(1) v(1,2,4,5)
    by (intro exI [of _ u] exI [of _ v] exI [of _ "line_block ?ls @ CRLF"] exI [of _ ?ls]) simp
qed

theorem answer_is_lines_witness:
  "\<exists>u v out ls. for_each (\<lambda>op s. map_option snd (sapi_header_op op s)) example_ops started_request = Some u
    \<and> sapi_send_headers u = Some v \<and> written v = out \<and> parse_head out = Some (ls, [])
    \<and> ls = answer_lines u ([''X-A: 3'', ''Content-type: text/css;charset=UTF-8''] @ default_lines u)"
proof -
  have "fits started_request" "\<not> headers_sent started_request" "\<not> no_headers started_request" by (simp_all add: fresh_settings fits_def)
  note a = answer_is_lines [OF fresh_ok_request example_fits this, unfolded fresh_settings example_spec append_Nil simp_thms]
  show ?thesis by (rule ex_forward [OF a], elim exE conjE, intro exI conjI) assumption+
qed

text \<open>
  A status line whose text from its first space on has 1016 bytes or more fills the buffer of 1024 bytes up, and the end of the line
  is cut off: the client takes the first header as a part of the status line, and that header is lost.
\<close>

theorem long_status_line_swallows_header:
  assumes "http_status_line s = Some t" and "plain_line t" and "status_like t" and "strchr t (CHR '' '') = Some i"
    and "1016 \<le> length (drop i t)" and "\<not> rfc2616_headers s" and "http_response_code s \<noteq> 200" and "\<not> no_headers s"
    and "header_list (map line_header (h # ts)) (headers s)" and "\<forall>x \<in> set (h # ts). plain_line x"
    and "h \<noteq> []" and "\<not> headed ''Status:'' h" and "\<not> headed ''Content-Type:'' h" and "int32 (code_of t)"
  shows "\<exists>v out. sapi_cgi_send_headers s = Some v \<and> written v = written s @ out
    \<and> parse_head out = Some ((take 1023 (''Status:'' @ drop i t) @ h) # body_lines (code_of t) True ts, [])"
proof -
  let ?x = "take 1023 (''Status:'' @ drop i t)"
  let ?c = "code_of t"
  let ?b = "body_lines ?c True ts"
  have tl: "plain_line (drop i t)" "plain_line (drop (Suc i) t)" by (rule plain_sub [OF assms(2) set_drop_subset])+
  have x: "slprintf SAPI_CGI_MAX_HEADER_LENGTH (''Status:'' @ upto_nul (drop i t) @ CRLF) = ?x"
    using assms(5) tl(1) by (simp add: slprintf_def SAPI_CGI_MAX_HEADER_LENGTH_def)
  have five: "5 \<le> i" "strncasecmp t ''HTTP/'' 5 = 0"
    using status_like_space [OF assms(3,4)] status_like_iff [OF assms(2)] assms(3) by simp_all
  have q: "upto_nul (drop (i + 1) t) = drop (Suc i) t" using tl(2) by simp
  note ix = strchr_Some [OF assms(4)]
  have "dropWhile (\<lambda>c. c \<noteq> CHR '' '') t = drop i t" using prefix_before(2) [OF ix(1-3)] .
  then have a: "atoi (drop (Suc i) t) = Some ?c" using assms(14) by (simp add: atoi_def code_of_def tl_drop drop_Suc)
  have "own_status_line s = Some (?x, atoi (drop (Suc i) t))"
    unfolding own_status_line_def assms(1) option.case assms(4) if_not_P [OF assms(6)] x q by (rule if_P) (use five in blast)
  then have ws: "write_status s = Some (?c, True, s\<lparr>written := written s @ ?x\<rparr>)"
    using assms(7) a by (simp add: write_status_def PHPWRITE_run)
  obtain l k as where lh: "headers s = (l, k)" "holds_at as (map line_header (h # ts)) (l, k)"
    using assms(9) by (cases "headers s") (auto simp: header_list_def holds_def)
  let ?u = "s\<lparr>written := written s @ ?x\<rparr>"
  have "write_headers ?c (pos_of as, head_of (map line_header (h # ts))) True ?u
      = Some (?u\<lparr>written := written ?u @ line_block (h # ?b)\<rparr>)"
    using write_headers_run [of "[]" as "[]" "h # ts" ?u ?c True] lh assms(10-13) plain_nul by simp
  then have "sapi_cgi_send_headers s = Some (s\<lparr>written := written s @ ?x @ line_block (h # ?b) @ CRLF\<rparr>)"
    using assms(8) ws get_first_run [OF lh(2)] lh(1)
    by (simp add: sapi_cgi_send_headers_def PHPWRITE_run CRLF_def)
  moreover have "plain_line (''Status:'' @ drop i t)" using tl(1) by simp
  then have "plain_line ?x" by (rule plain_sub [OF _ set_take_subset])
  then have "\<forall>y \<in> set ((?x @ h) # ?b). plain_line y \<and> y \<noteq> []" using assms(10,11) body_lines_in by auto
  from parse_block [OF this, of "[]"] have "parse_head (?x @ line_block (h # ?b) @ CRLF) = Some ((?x @ h) # ?b, [])"
    by (simp only: line_block_simps append_assoc append_Nil2)
  ultimately show ?thesis
    by (intro exI [of _ "s\<lparr>written := written s @ ?x @ line_block (h # ?b) @ CRLF\<rparr>"]
        exI [of _ "?x @ line_block (h # ?b) @ CRLF"] conjI) (assumption, simp, assumption)
qed

definition long_status :: string where
  "long_status = ''HTTP/1.1 404 '' @ replicate 1100 (CHR ''x'')"

definition one_header :: "sapi_header llist_state" where
  "one_header = (\<lparr>l_head = Some 6, l_tail = Some 6, l_count = 1, l_dtor = True, traverse_ptr = NULL\<rparr>,
     \<lparr>elems = [6 \<mapsto> \<lparr>el_next = NULL, el_prev = NULL, el_data = line_header ''X-A: 1''\<rparr>], next_elem = 7, destroyed = []\<rparr>)"

lemma one_header_list: "header_list (map line_header [''X-A: 1'']) one_header"
  unfolding header_list_def one_header_def
  by (rule conjI [OF holdsI [of "[6]"]]) (simp_all add: holds_at_def links_def has_data_def fresh_ok_def)

theorem long_status_line_swallows_header_witness:
  "\<exists>v out. sapi_cgi_send_headers (started_request\<lparr>headers := one_header, http_status_line := Some long_status, http_response_code := 404\<rparr>) = Some v
    \<and> written v = out \<and> parse_head out = Some ([take 1023 (''Status:'' @ drop 8 long_status) @ ''X-A: 1''], [])"
proof -
  let ?s = "started_request\<lparr>headers := one_header, http_status_line := Some long_status, http_response_code := 404\<rparr>"
  have p: "plain_line long_status" by (simp add: long_status_def plain_line_def)
  have l: "status_like long_status" by (simp add: long_status_def status_like_def, code_simp)
  have i: "strchr long_status (CHR '' '') = Some 8"
    using p by (simp add: strchr_plain) (simp add: long_status_def)
  have n: "1016 \<le> length (drop 8 long_status)" by (simp add: long_status_def)
  have f: "\<not> rfc2616_headers ?s" "http_response_code ?s \<noteq> 200" "\<not> no_headers ?s" "http_status_line ?s = Some long_status"
    "header_list (map line_header [''X-A: 1'']) (headers ?s)"
    using one_header_list by (simp_all add: started_request_def sapi_activate_def)
  have h: "\<not> headed ''Status:'' ''X-A: 1''" "\<not> headed ''Content-Type:'' ''X-A: 1''" by code_simp+
  have c: "int32 (code_of long_status)" by (simp add: long_status_def code_of_def number_of_text_def is_space_def int32_def)
  show ?thesis
    using long_status_line_swallows_header [OF f(4) p l i n f(1-3), of "''X-A: 1''" "[]"] f(5) h c
    by (simp add: fresh_settings del: take_append)
qed

section \<open>The default character set\<close>

abbreviation html_type :: string where
  "html_type \<equiv> ''Content-Type: text/html''"

lemma html_parts:
  "rtrim html_type = html_type" "bad_line html_type = None" "strncasecmp html_type ''HTTP/'' 5 \<noteq> 0" "plain_line html_type"
  "strchr html_type (CHR '':'') = Some 12" "strcasecmp (take 12 html_type) ''Content-Type'' = 0" "named ''content-type'' html_type"
  "upto_nul (dropWhile (\<lambda>c. c = CHR '' '') (drop (12 + 1) html_type)) = ''text/html''" "strncmp ''text/html'' ''image/'' 6 \<noteq> 0"
  "dropWhile (\<lambda>c. c = CHR '' '') (List.tl (dropWhile (\<lambda>c. c \<noteq> CHR '':'') html_type)) = ''text/html''"
  "contains ''text/html'' ''charset='' = False"
  by (code_simp)+

lemma html_final: "cs \<noteq> [] \<Longrightarrow> final_text cs html_type = ''Content-type: text/html;charset='' @ cs"
  using html_parts(7) unfolding final_text_def html_parts Let_def by simp

lemma html_setting: "\<exists>m. snd (special_header html_type 0 s) = s\<lparr>mimetype := m, send_default_content_type := False\<rparr>"
proof -
  have "\<exists>m. snd (content_type_header html_type 12 s) = s\<lparr>mimetype := m, send_default_content_type := False\<rparr>"
    unfolding content_type_header_def html_parts Let_def if_not_P [OF html_parts(9)]
    by (cases "mimetype s") (auto split: prod.split intro: exI [of _ "mimetype s"])
  then show ?thesis unfolding special_header_def html_parts(5) option.case if_P [OF html_parts(6)] .
qed

lemma html_not_status: "headed ''Status:'' (''Content-type: text/html;charset='' @ cs) = False"
  by (simp add: headed_def tolower_def)

lemma CRLF_refused:
  assumes "l \<noteq> []" and "\<not> is_space (List.last l)" and "\<not> (headers_sent s \<and> \<not> no_headers s)"
  shows "\<exists>u. sapi_header_op (SAPI_HEADER_ADD (a_line (p @ CRLF @ l))) s = Some (False, u) \<and> headers u = headers s"
proof -
  obtain ys y where l: "l = ys @ [y]" "\<not> is_space y" using assms(1,2) by (cases l rule: rev_cases) auto
  have r: "rtrim (p @ CRLF @ l) = p @ CRLF @ l" using l by (simp add: rtrim_def)
  have "\<not> plain_line (p @ CRLF @ l)" by (simp add: CRLF_def)
  then obtain msg where "bad_line (p @ CRLF @ l) = Some msg" using bad_line_None by (cases "bad_line (p @ CRLF @ l)") auto
  then have "add_line False (a_line (p @ CRLF @ l)) s = Some (False, sapi_error msg s)"
    unfolding add_line_def sapi_header_line.select_convs option.case r Let_def using assms(1) by simp
  then show ?thesis using assms(3) by (auto simp: sapi_header_op_def sapi_error_def)
qed

text \<open>
  The setting \<open>default_charset\<close>, which a script can change to any text, is put into the content type after the line
  was checked: with a line break in the setting, a harmless content type becomes two lines of the answer, while
  the same text in a header of the script is refused.
\<close>

theorem default_charset_splits_answer:
  assumes "default_charset s = Some (a @ CRLF @ l)" and "plain_line a" and "plain_line l" and "l \<noteq> []" and "\<not> is_space (List.last l)"
    and "header_list [] (headers s)" and "http_response_code s = 200" and "\<not> nph s" and "callback_func s = None"
    and "\<not> headers_sent s" and "\<not> no_headers s"
  shows "(\<exists>u v out. sapi_header_op (SAPI_HEADER_ADD (a_line ''Content-Type: text/html'')) s = Some (True, u)
      \<and> sapi_send_headers u = Some v \<and> written v = written s @ out
      \<and> parse_head out = Some ([''Content-type: text/html;charset='' @ a, l], []))
    \<and> (\<exists>u. sapi_header_op (SAPI_HEADER_ADD (a_line (''X: '' @ a @ CRLF @ l))) s = Some (False, u) \<and> headers u = headers s)"
proof (rule conjI)
  show "\<exists>u. sapi_header_op (SAPI_HEADER_ADD (a_line (''X: '' @ a @ CRLF @ l))) s = Some (False, u) \<and> headers u = headers s"
    using CRLF_refused [OF assms(4,5), of s "''X: '' @ a"] assms(10) by simp
  let ?cs = "a @ CRLF @ l"
  let ?x = "''Content-type: text/html;charset='' @ ?cs"
  have nul: "CHR 0x00 \<notin> set ?cs" using assms(2,3) by (simp add: CRLF_def)
  then have cs: "charset_of s = ?cs" "?cs \<noteq> []" using assms(1,4) by (simp_all add: charset_of_def)
  obtain m where m: "special_header html_type 0 s = (line_header ?x, s\<lparr>mimetype := m, send_default_content_type := False\<rparr>)"
    using special_text [OF html_parts(4), of 0 s] html_setting [of s] html_final [OF cs(2)] cs(1) by (metis prod.collapse)
  let ?w = "s\<lparr>mimetype := m, send_default_content_type := False\<rparr>"
  obtain hs where hs: "zend_llist_add_element (line_header ?x) (headers s) = Some hs" "header_list [line_header ?x] hs"
    using hdr.add_law [OF assms(6), of "line_header ?x"] by auto
  let ?u = "?w\<lparr>headers := hs\<rparr>"
  have "sapi_header_add_op False (line_header ?x) ?w = Some ?u" unfolding sapi_header_add_op_def using hs(1) by simp
  then have "add_line False (a_line html_type) s = Some (True, ?u)"
    unfolding add_line_def sapi_header_line.select_convs option.case html_parts Let_def int_of_0 using m html_parts(3) by simp
  then have op: "sapi_header_op (SAPI_HEADER_ADD (a_line html_type)) s = Some (True, ?u)"
    using assms(10) by (simp add: sapi_header_op_def)
  let ?b = "?u\<lparr>headers_sent := True\<rparr>"
  obtain k h as where kh: "hs = (k, h)" "holds_at as (map line_header [?x]) (k, h)"
    using hs(2) by (cases hs) (auto simp: header_list_def holds_def)
  have "body_lines 200 False [?x] = [?x]" unfolding body_lines.simps html_not_status by simp
  moreover have "CHR 0x00 \<notin> set ?x" using nul by simp
  ultimately have "write_headers 200 (pos_of as, head_of (map line_header [?x])) False ?b
      = Some (?b\<lparr>written := written s @ line_block [?x]\<rparr>)"
    using write_headers_run [of "[]" as "[]" "[?x]" ?b 200 False] kh by simp
  moreover have "write_status ?b = Some (200, False, ?b)" using assms(7,8) by (simp add: write_status_def)
  ultimately have "sapi_cgi_send_headers ?b = Some (?b\<lparr>written := written s @ line_block [?x] @ CRLF\<rparr>)"
    using assms(11) get_first_run [OF kh(2)] kh(1) by (simp add: sapi_cgi_send_headers_def PHPWRITE_run CRLF_def)
  then have "sapi_send_headers ?u = Some (?b\<lparr>written := written s @ line_block [?x] @ CRLF, http_status_line := None\<rparr>)"
    using assms(9-11) by (simp add: sapi_send_headers_def add_default_type_def run_header_callback_def)
  moreover have "line_block [?x] = line_block [''Content-type: text/html;charset='' @ a, l]" by simp
  moreover have "parse_head (line_block [''Content-type: text/html;charset='' @ a, l] @ CRLF)
      = Some ([''Content-type: text/html;charset='' @ a, l], [])"
    using parse_block [of "[''Content-type: text/html;charset='' @ a, l]" "[]"] assms(2-4) by simp
  ultimately show "\<exists>u v out. sapi_header_op (SAPI_HEADER_ADD (a_line html_type)) s = Some (True, u)
      \<and> sapi_send_headers u = Some v \<and> written v = written s @ out
      \<and> parse_head out = Some ([''Content-type: text/html;charset='' @ a, l], [])"
    using op by (intro exI [of _ ?u] exI [of _ "?b\<lparr>written := written s @ line_block [?x] @ CRLF, http_status_line := None\<rparr>"]
      exI [of _ "line_block [?x] @ CRLF"]) simp
qed

theorem default_charset_splits_answer_witness:
  "\<exists>u v out. sapi_header_op (SAPI_HEADER_ADD (a_line ''Content-Type: text/html''))
      (started_request\<lparr>default_charset := Some (''x'' @ CRLF @ ''Set-Cookie: a=b'')\<rparr>) = Some (True, u)
    \<and> sapi_send_headers u = Some v \<and> written v = out
    \<and> parse_head out = Some ([''Content-type: text/html;charset='' @ ''x'', ''Set-Cookie: a=b''], [])"
proof -
  let ?s = "started_request\<lparr>default_charset := Some (''x'' @ CRLF @ ''Set-Cookie: a=b'')\<rparr>"
  have f: "header_list [] (headers ?s)" "http_response_code ?s = 200" "\<not> nph ?s" "callback_func ?s = None" "\<not> headers_sent ?s"
    "\<not> no_headers ?s" "default_charset ?s = Some (''x'' @ CRLF @ ''Set-Cookie: a=b'')" "written ?s = []"
    using fresh_header_list by (simp_all add: started_request_def sapi_activate_def)
  have l: "plain_line ''x''" "plain_line ''Set-Cookie: a=b''" "''Set-Cookie: a=b'' \<noteq> []" "\<not> is_space (List.last ''Set-Cookie: a=b'')"
    by (simp_all add: is_space_def)
  show ?thesis using default_charset_splits_answer [OF f(7) l f(1-6), THEN conjunct1] unfolding f(8) append_Nil .
qed

end
