(* ===== verification/Spec2Isabelle.thy ===== *)
theory Spec2Isabelle
  imports Tsrm_Properties Fcgi_Properties Fpm_Properties Fpm_Event_Control Coro_Http_Properties Zend_Properties Zend_Hash_Collections Sapi_Properties
begin

text \<open>
  A verification of the serving path of PHP-CE, the PHP 7.1 that serves several requests per FPM worker by
  coroutines (the C code under src/).

  The program. The FPM master (sapi/fpm/fpm) forks workers. A worker runs one libevent loop; \<open>do_accept\<close>
  takes a coroutine context from a pool for each connection, \<open>socket_read_cb\<close> reads a FastCGI request
  (main/fastcgi.c), runs its script, and answers. A script that makes a remote call leaves the handler by
  \<open>longjmp\<close>; the answer of the call resumes it. Every coroutine has its own table of globals in the resource
  manager (TSRM/TSRM.c). The stages of requests go to a scoreboard that the master watches.

  Theories, the code they model, and what their lemmas show.
    \<^item> \<open>Prelude\<close>: pointers into heaps of structs, C computations that may be undefined (\<open>None\<close>: a null or
      dangling pointer, an index out of range, a double release, a lock that is never given back),
      counted loops, doubly linked lists.
    \<^item> \<open>Tsrm\<close>, \<open>Tsrm_Lemmas\<close>, \<open>Tsrm_Properties\<close>: TSRM.c. Entries per thread and coroutine, resource ids,
      constructors and destructors; the resources of two coroutines never share a block.
    \<^item> \<open>Coro_Pool\<close>, \<open>Coro_Pool_Lemmas\<close>: the pool of contexts (ext/standard/fpm_coroutine.c, main/SAPI.h)
      refines a queue; \<open>Coro_Startup\<close>: the start loops of \<open>main\<close> (sapi/fpm/fpm/fpm_main.c).
    \<^item> \<open>Coro_Engine\<close>: the handlers of the event loop, running scripts, yield and resume, the start of the
      engine. The state is the record \<open>engine\<close>: the globals per coroutine, the heap of contexts, frames,
      bufferevents and request records, and a trace of what the outside sees. \<open>setjmp\<close>, \<open>longjmp\<close> and
      \<open>zend_bailout\<close> are values that say how a run was left. The buffer \<open>old_cwd\<close> is on the heap or on the stack, as
      the build has \<open>do_alloca\<close> (\<open>heap_alloca\<close>); on the stack it is dead once its frame has been left, and reading it then
      is undefined. \<open>remote_answer\<close> is the engine's part of the callback \<open>RemoteReadCallback\<close>.
    \<^item> \<open>Coro_Engine_Lemmas\<close>, \<open>Coro_Invariant\<close>, \<open>Coro_Loop\<close>, \<open>Coro_Properties\<close>: the invariant \<open>engine_inv\<close>, its
      preservation by each handler, the event loop as a step relation over an abstract machine of context
      phases, and the properties: no context is lost or given out twice, and of the events that can come
      (\<open>enabled\<close>) exactly the fatal ones (\<open>fatal\<close>) are undefined: a resumed script that throws or bails out, or whose
      dead buffer is read, and a client that goes away before its script is there. An answer after the client has
      gone is not among these events; its callback reads released memory (\<open>Coro_Http_Properties\<close>).
    \<^item> \<open>Fcgi_Hash\<close>, \<open>Fcgi_Hash_Lemmas\<close>: the hash table of a request's environment, which is a map
      (locale \<open>env_table\<close>).
    \<^item> \<open>Fcgi_Wire\<close>, \<open>Fcgi_Wire_Lemmas\<close>, \<open>Fcgi_Body_Lemmas\<close>: reading requests and bodies. The reader \<open>rd\<close> stands
      for libevent's \<open>bufferevent_read\<close>, of which only \<open>reads_all\<close> is assumed (it gives what has arrived, up
      to the count asked for). \<open>client_request\<close> is the encoding of the FastCGI specification, written
      independently of the decoder. The management variables are a parameter; \<open>fcgi_mgmt_vars\<close> is what \<open>fcgi_init\<close> registers.
    \<^item> \<open>Fcgi_Out\<close>, \<open>Fcgi_Out_Lemmas\<close>, \<open>Fcgi_Properties\<close>: building and sending the answer; \<open>records_of\<close> is the
      client's decoder. A socket is a list of what its next writes do.
    \<^item> \<open>Fpm_Scoreboard\<close>, \<open>Fpm_Master\<close>: the scoreboard, the stages, the master's pools, children, signals,
      states, maintenance. \<open>Fpm_Lemmas\<close> (locale \<open>slot_table\<close>), \<open>Fpm_Invariant\<close>, \<open>Fpm_Steps\<close>, \<open>Fpm_Properties\<close>:
      children and slots always fit together, in every state the master reaches, whatever workers write into the
      shared memory besides the flags of the slots; a lock that a dead worker holds stops the maintenance.
    \<^item> \<open>Fpm_Events\<close>, \<open>Fpm_Event_Lemmas\<close>, \<open>Fpm_Event_Properties\<close>: the event loop of the master (fpm_events.c,
      events/epoll.c) with any callbacks: its queues are lists of events, and how long it sleeps.
      \<open>Fpm_Event_Master\<close>: its callbacks in the master (fpm_process_ctl.c), composed with \<open>Fpm_Master\<close>. \<open>Fpm_Event_Timers\<close>:
      timers fire when they are due, for callbacks that set and delete no event (\<open>quiet\<close>), which both heartbeats are.
      \<open>Fpm_Event_Control\<close>: the control timer is lost when its own callback sets it again.
    \<^item> \<open>Coro_Http\<close>, \<open>Coro_Http_Properties\<close>: the HTTP client (ext/coro_http/coro_http.c) whose calls suspend a
      script and whose callbacks resume it: bodies that fit, bodies that do not, and callers that are gone.
    \<^item> \<open>C_Strings\<close>: the functions of the C library on texts that the code calls (\<open>strcmp\<close>, \<open>strncasecmp\<close>,
      \<open>strchr\<close>, \<open>atoi\<close>, \<open>slprintf\<close> and others), as functions on character lists; \<open>atoi\<close> of a number that is no
      \<open>int\<close> is undefined.
    \<^item> \<open>Zend_Sort\<close>, \<open>Zend_Sort_Lemmas\<close>: the hybrid sort of the engine (Zend/zend_sort.c) on an array with a
      comparison function that may answer anything: it ends inside the array; with an order (locale
      \<open>order_cmp\<close>) it sorts.
    \<^item> \<open>Zend_Llist\<close>, \<open>Zend_Llist_Lemmas\<close>, \<open>Fpm_Listing\<close>, \<open>Zend_Properties\<close>: the doubly linked lists
      (Zend/zend_llist.c) on a heap of elements refine lists; \<open>holds\<close> relates the two. \<open>Fpm_Listing\<close> is their
      use in fpm_main.c, where the sort gets its order (\<open>strcmp\<close> of names).
    \<^item> \<open>Zend_Hash\<close>: the hash tables of the engine (Zend/zend_hash.c, the macros of zend_types.h), which are the
      arrays of PHP: buckets in order of insertion with holes, hash chains through them, packed tables. \<open>Zend_Hash_Lemmas\<close>,
      \<open>Zend_Rehash\<close>, \<open>Zend_Hash_Invariant\<close>: entries and chains, rehashing, the invariant \<open>table_ok\<close> and the \<open>view\<close> of a
      table (entries, number of the entry at the internal pointer, next free number). \<open>Zend_Hash_Ops\<close>, \<open>Zend_Hash_Add\<close>, \<open>Zend_Hash_Put\<close>,
      \<open>Zend_Hash_Delete\<close>, \<open>Zend_Hash_Remove\<close>: finding, adding and updating, deleting and emptying, on every branch, as
      operations on association lists (\<open>put_spec\<close>, \<open>remove_spec\<close>). \<open>Zend_Hash_Table\<close>: sizes, the interface \<open>ordered_map\<close>
      with its interpretations for texts and for numbers, histories. \<open>Zend_Hash_Walk\<close>, \<open>Zend_Hash_Properties\<close>:
      positions, functions applied to elements, and the properties. \<open>Zend_Hash_Merge\<close>, \<open>Zend_Hash_Compare\<close>,
      \<open>Zend_Hash_Sort\<close>, \<open>Zend_Hash_Collections\<close>: merging and copying, comparing, sorting with \<open>zend_sort\<close> (interface
      \<open>sorter\<close>, interpreted by both sorts of the engine), the least and the greatest element.
    \<^item> \<open>Sapi_Headers\<close>, \<open>Sapi_Lemmas\<close>, \<open>Sapi_Send_Lemmas\<close>, \<open>Sapi_Properties\<close>: the headers of an answer
      (main/SAPI.c, \<open>sapi_cgi_send_headers\<close> of fpm_main.c, main/http_status_codes.h), kept in such a linked
      list. \<open>spec_op\<close> says what an operation means for the lines, \<open>parse_head\<close> is the client's reader; the
      invariant \<open>header_ok\<close> says that all texts that go out are single lines (locale \<open>keyed_list\<close>).

  How the parts meet. The pool is a queue for the engine; the globals of a coroutine are reached through
  the resource manager; \<open>finish_refines_engine\<close> relates the engine's view of a request to the FastCGI
  request; the headers use the linked lists through the interface \<open>keyed_list\<close>, the linked lists and the
  hash tables the sort through \<open>order_cmp\<close>; the event loop runs the functions of the master (\<open>escalation_stops_at_term\<close> says what becomes of
  \<open>shutdown_escalates\<close> in it); \<open>worker_never_idle\<close> relates the hooks a request runs to what the master concludes from the
  scoreboard.

  Bounds and loops. No definition uses fuel: loops are structural recursion, or end by a measure (bytes
  left, children to make, resources to visit), or are \<open>partial_function (option)\<close> where the links of a heap
  could be a ring; that these end is part of the lemmas about them. Machine integers that may wrap are words; \<open>unsigned char\<close>
  buffers are byte lists, and a store outside of one is \<open>None\<close>. A hash table ends with a fatal error when it gets too
  big; the properties of its operations ask for at most \<open>2 ^ 30\<close> entries (\<open>has_room\<close>), or as many operations. \<open>walk\<close> is a
  client with a bound of one step more than there are entries, which is enough.

  Not modelled. The Zend virtual machine and compiler (what running a file does is a parameter), output
  layers, streams, configuration and logging, pipes between master and workers, the event backends other than epoll,
  Windows branches, CPU times, of the hash tables duplicating (\<open>zend_array_dup\<close>),
  merging with a checker and the functions that make and release iterators, extensions, vendored libraries and the other server interfaces. \<open>malloc\<close>
  does not fail. Signals interrupt only the writes listed in a socket.
\<close>

end
